(* ===== verification/Prelude.thy ===== *)
theory Prelude
  imports Main "HOL-Library.Word"
begin

text \<open>
  Shared vocabulary of the development: the fixed-width integer types of
  \<open>kernel/include/afriyie/types.h\<close>, the status codes of \<open>status.h\<close>, and the generic facts on
  lists and words that every component uses.
\<close>

unbundle bit_operations_syntax

section \<open>Integer types\<close>

type_synonym u8 = "8 word"
type_synonym u16 = "16 word"
type_synonym u32 = "32 word"
type_synonym u64 = "64 word"

text \<open>
  \<open>AF_ALIGN_UP\<close>, \<open>AF_ALIGN_DOWN\<close> and \<open>AF_IS_ALIGNED\<close> of \<open>types.h\<close>, on words, so that
  the addition wraps exactly as the macro's does.
\<close>

definition align_up :: "'a::len word \<Rightarrow> 'a word \<Rightarrow> 'a word" where
  "align_up v a = (v + (a - 1)) AND NOT (a - 1)"

definition align_down :: "'a::len word \<Rightarrow> 'a word \<Rightarrow> 'a word" where
  "align_down v a = v AND NOT (a - 1)"

definition is_aligned :: "'a::len word \<Rightarrow> 'a word \<Rightarrow> bool" where
  "is_aligned v a \<longleftrightarrow> v AND (a - 1) = 0"

section \<open>Status codes\<close>

text \<open>
  Every fallible function returns \<open>af_status_t\<close>. Success is exactly zero and every error is
  negative; the datatype names the codes and \<open>status_code\<close> is the number behind each.
\<close>

datatype af_status =
    AF_OK
  | AF_ERR_GENERIC | AF_ERR_INVAL | AF_ERR_NOMEM | AF_ERR_NOENT | AF_ERR_EXIST | AF_ERR_BUSY
  | AF_ERR_AGAIN | AF_ERR_NOTSUP | AF_ERR_FAULT | AF_ERR_OVERFLOW | AF_ERR_TIMEOUT | AF_ERR_CANCELED
  | AF_ERR_PERM | AF_ERR_CAP_INVALID | AF_ERR_CAP_EXHAUST | AF_ERR_PEER_DEAD
  | AF_ERR_NOOBJ | AF_ERR_TOOMANY | AF_ERR_NOTREADY | AF_ERR_AFFINITY
  | AF_ERR_BOOT_MAGIC | AF_ERR_BOOT_MEMMAP | AF_ERR_BOOT_NOFB | AF_ERR_BOOT_VERSION
  | AF_ERR_IO | AF_ERR_NODEV | AF_ERR_FS_CORRUPT | AF_ERR_NOTDIR | AF_ERR_ISDIR | AF_ERR_NOSPC
  | AF_ERR_ROFS

fun status_code :: "af_status \<Rightarrow> int" where
  "status_code AF_OK = 0"
| "status_code AF_ERR_GENERIC = -1"
| "status_code AF_ERR_INVAL = -2"
| "status_code AF_ERR_NOMEM = -3"
| "status_code AF_ERR_NOENT = -4"
| "status_code AF_ERR_EXIST = -5"
| "status_code AF_ERR_BUSY = -6"
| "status_code AF_ERR_AGAIN = -7"
| "status_code AF_ERR_NOTSUP = -8"
| "status_code AF_ERR_FAULT = -9"
| "status_code AF_ERR_OVERFLOW = -10"
| "status_code AF_ERR_TIMEOUT = -11"
| "status_code AF_ERR_CANCELED = -12"
| "status_code AF_ERR_PERM = -20"
| "status_code AF_ERR_CAP_INVALID = -21"
| "status_code AF_ERR_CAP_EXHAUST = -22"
| "status_code AF_ERR_PEER_DEAD = -23"
| "status_code AF_ERR_NOOBJ = -30"
| "status_code AF_ERR_TOOMANY = -31"
| "status_code AF_ERR_NOTREADY = -32"
| "status_code AF_ERR_AFFINITY = -33"
| "status_code AF_ERR_BOOT_MAGIC = -40"
| "status_code AF_ERR_BOOT_MEMMAP = -41"
| "status_code AF_ERR_BOOT_NOFB = -42"
| "status_code AF_ERR_BOOT_VERSION = -43"
| "status_code AF_ERR_IO = -50"
| "status_code AF_ERR_NODEV = -51"
| "status_code AF_ERR_FS_CORRUPT = -52"
| "status_code AF_ERR_NOTDIR = -53"
| "status_code AF_ERR_ISDIR = -54"
| "status_code AF_ERR_NOSPC = -55"
| "status_code AF_ERR_ROFS = -56"

definition af_status_ok :: "af_status \<Rightarrow> bool" where
  "af_status_ok s \<longleftrightarrow> status_code s = 0"

definition af_status_err :: "af_status \<Rightarrow> bool" where
  "af_status_err s \<longleftrightarrow> status_code s < 0"

text \<open>
  \<open>af_status_name\<close> (\<open>kernel/core/status.c\<close>): a switch on the number, with a default.
\<close>

definition status_names :: "(af_status \<times> string) list" where
  "status_names = [
     (AF_OK, ''OK''),
     (AF_ERR_GENERIC, ''ERR_GENERIC''),
     (AF_ERR_INVAL, ''ERR_INVAL''),
     (AF_ERR_NOMEM, ''ERR_NOMEM''),
     (AF_ERR_NOENT, ''ERR_NOENT''),
     (AF_ERR_EXIST, ''ERR_EXIST''),
     (AF_ERR_BUSY, ''ERR_BUSY''),
     (AF_ERR_AGAIN, ''ERR_AGAIN''),
     (AF_ERR_NOTSUP, ''ERR_NOTSUP''),
     (AF_ERR_FAULT, ''ERR_FAULT''),
     (AF_ERR_OVERFLOW, ''ERR_OVERFLOW''),
     (AF_ERR_TIMEOUT, ''ERR_TIMEOUT''),
     (AF_ERR_CANCELED, ''ERR_CANCELED''),
     (AF_ERR_PERM, ''ERR_PERM''),
     (AF_ERR_CAP_INVALID, ''ERR_CAP_INVALID''),
     (AF_ERR_CAP_EXHAUST, ''ERR_CAP_EXHAUST''),
     (AF_ERR_PEER_DEAD, ''ERR_PEER_DEAD''),
     (AF_ERR_NOOBJ, ''ERR_NOOBJ''),
     (AF_ERR_TOOMANY, ''ERR_TOOMANY''),
     (AF_ERR_NOTREADY, ''ERR_NOTREADY''),
     (AF_ERR_AFFINITY, ''ERR_AFFINITY''),
     (AF_ERR_BOOT_MAGIC, ''ERR_BOOT_MAGIC''),
     (AF_ERR_BOOT_MEMMAP, ''ERR_BOOT_MEMMAP''),
     (AF_ERR_BOOT_NOFB, ''ERR_BOOT_NOFB''),
     (AF_ERR_BOOT_VERSION, ''ERR_BOOT_VERSION''),
     (AF_ERR_IO, ''ERR_IO''),
     (AF_ERR_NODEV, ''ERR_NODEV''),
     (AF_ERR_FS_CORRUPT, ''ERR_FS_CORRUPT''),
     (AF_ERR_NOTDIR, ''ERR_NOTDIR''),
     (AF_ERR_ISDIR, ''ERR_ISDIR''),
     (AF_ERR_NOSPC, ''ERR_NOSPC''),
     (AF_ERR_ROFS, ''ERR_ROFS'')
     ]"

definition af_status_name :: "int \<Rightarrow> string" where
  "af_status_name c =
     (case find (\<lambda>(s, _). status_code s = c) status_names of
        Some (_, n) \<Rightarrow> n | None \<Rightarrow> ''ERR_UNKNOWN'')"

lemma status_err_iff [simp]: "af_status_err s \<longleftrightarrow> s \<noteq> AF_OK"
  by (cases s) (simp_all add: af_status_err_def)

lemma status_ok_iff [simp]: "af_status_ok s \<longleftrightarrow> s = AF_OK"
  by (cases s) (simp_all add: af_status_ok_def)

section \<open>Lists\<close>

text \<open>How a counter kept beside an array of flags follows a single write to the array.\<close>

lemma filter_update_same:
  "i < length xs \<Longrightarrow> P v = P (xs ! i) \<Longrightarrow>
     length (filter P (xs[i := v])) = length (filter P xs)"
  by (induction xs arbitrary: i) (auto simp: nth_Cons split: nat.splits)

lemma filter_update_set:
  "i < length xs \<Longrightarrow> P v \<Longrightarrow> \<not> P (xs ! i) \<Longrightarrow>
     length (filter P (xs[i := v])) = Suc (length (filter P xs))"
  by (induction xs arbitrary: i) (auto simp: nth_Cons split: nat.splits)

lemma filter_update_clear:
  "i < length xs \<Longrightarrow> \<not> P v \<Longrightarrow> P (xs ! i) \<Longrightarrow>
     Suc (length (filter P (xs[i := v]))) = length (filter P xs)"
  by (induction xs arbitrary: i) (auto simp: nth_Cons split: nat.splits)

lemma filter_length_pos: "i < length xs \<Longrightarrow> P (xs ! i) \<Longrightarrow> 0 < length (filter P xs)"
  by (metis filter_empty_conv length_greater_0_conv nth_mem)

lemma nth_update_if: "q < length xs \<Longrightarrow> xs[i := v] ! q = (if i = q then v else xs ! q)"
  by (cases "i = q") simp_all

text \<open>A \<open>for\<close> loop that stops at the first match.\<close>

lemma find_SomeD: "find P xs = Some x \<Longrightarrow> x \<in> set xs \<and> P x"
  by (metis find_Some_iff nth_mem)

lemma find_NoneD: "find P xs = None \<Longrightarrow> x \<in> set xs \<Longrightarrow> \<not> P x"
  by (auto simp: find_None_iff)

section \<open>Words\<close>

lemma unat_bound: "unat (x :: 'a::len word) < 2 ^ LENGTH('a)"
  by (rule unsigned_less)

lemma unat_Suc_word: "unat x + 1 < 2 ^ LENGTH('a) \<Longrightarrow> unat (x + 1 :: 'a::len word) = Suc (unat x)"
  by (simp add: unat_word_ariths)

lemma unat_minus_one_word: "x \<noteq> 0 \<Longrightarrow> unat (x - 1 :: 'a::len word) = unat x - 1"
  by (rule unat_minus_one)

lemma subset_mask_trans:
  fixes a b c :: "'a::len word"
  shows "a AND b = a \<Longrightarrow> b AND c = b \<Longrightarrow> a AND c = a"
  by (metis and.assoc)

lemma take_bit_small: "unat (x :: 'a::len word) < 2 ^ n \<Longrightarrow> take_bit n x = x"
  by (simp add: word_unat_eq_iff unsigned_take_bit_eq take_bit_nat_eq_self)

lemma unat_take_bit_less: "unat (take_bit n (x :: 'a::len word)) < 2 ^ n"
  by (simp add: unsigned_take_bit_eq)

end
