(* ===== verification/Cap.thy ===== *)
theory Cap
  imports Prelude
begin

text \<open>
  Capability tables: \<open>kernel/core/cap.c\<close> and \<open>kernel/include/afriyie/cap.h\<close>. A table is a
  record of 256 slots and a counter; a handle packs a slot index (low 8 bits) and the slot's
  generation (the 24 bits above). A table pointer that may be \<open>NULL\<close> is an \<open>option\<close>.
\<close>

section \<open>Rights, objects, slots and tables\<close>

abbreviation (input) "AF_RIGHT_READ \<equiv> (1 :: u32)"
abbreviation (input) "AF_RIGHT_WRITE \<equiv> (2 :: u32)"
abbreviation (input) "AF_RIGHT_EXEC \<equiv> (4 :: u32)"
abbreviation (input) "AF_RIGHT_GRANT \<equiv> (8 :: u32)"
abbreviation (input) "AF_RIGHT_REVOKE \<equiv> (16 :: u32)"
abbreviation (input) "AF_RIGHT_SIGNAL \<equiv> (32 :: u32)"
abbreviation (input) "AF_RIGHT_WAIT \<equiv> (64 :: u32)"

abbreviation (input) "AF_CAP_INVALID \<equiv> (0 :: u32)"
abbreviation (input) "AF_CAP_INDEX_MASK \<equiv> (0xFF :: u32)"
abbreviation (input) "AF_CAP_INDEX_BITS \<equiv> (8 :: nat)"
abbreviation (input) "AF_CAP_MAX_SLOTS \<equiv> (256 :: nat)"
abbreviation (input) "AF_CAP_NO_PARENT \<equiv> (0xFFFF :: u16)"

datatype af_object_type =
    AF_OBJECT_NONE
  | AF_OBJECT_FRAME
  | AF_OBJECT_ENDPOINT
  | AF_OBJECT_NOTIFICATION
  | AF_OBJECT_FILE
  | AF_OBJECT_DEVICE
  | AF_OBJECT_IRQ
  | AF_OBJECT_PROCESS

record af_object =
  obj_type :: af_object_type
  obj_id :: u64

record af_cap_slot =
  slot_object :: af_object
  slot_rights :: u32
  slot_generation :: u32
  slot_parent :: u16
  slot_used :: bool

record af_cap_table =
  tbl_slots :: "af_cap_slot list"
  tbl_used :: u32

section \<open>Lifecycle\<close>

text \<open>\<open>kzalloc\<close> gives all-zero memory or fails; \<open>kzalloc_ok\<close> is which of the two it did.\<close>

definition zero_slot :: af_cap_slot where
  "zero_slot = \<lparr>slot_object = \<lparr>obj_type = AF_OBJECT_NONE, obj_id = 0\<rparr>, slot_rights = 0,
     slot_generation = 0, slot_parent = 0, slot_used = False\<rparr>"

definition cap_table_create :: "bool \<Rightarrow> af_cap_table option" where
  "cap_table_create kzalloc_ok =
     (if \<not> kzalloc_ok then None
      else Some \<lparr>tbl_slots = map (\<lambda>s. s\<lparr>slot_generation := 1, slot_parent := AF_CAP_NO_PARENT\<rparr>)
                              (replicate AF_CAP_MAX_SLOTS zero_slot),
                 tbl_used = 0\<rparr>)"

section \<open>Handles\<close>

definition pack :: "u32 \<Rightarrow> u32 \<Rightarrow> u32" where
  "pack index generation =
     (push_bit AF_CAP_INDEX_BITS generation) OR (index AND AF_CAP_INDEX_MASK)"

definition unpack_index :: "u32 \<Rightarrow> u32" where
  "unpack_index cap = cap AND AF_CAP_INDEX_MASK"

definition unpack_generation :: "u32 \<Rightarrow> u32" where
  "unpack_generation cap = drop_bit AF_CAP_INDEX_BITS cap"

text \<open>\<open>resolve\<close> returns a pointer into the table; here, the index of the slot it points at.\<close>

fun resolve :: "af_cap_table option \<Rightarrow> u32 \<Rightarrow> nat option" where
  "resolve None cap = None"
| "resolve (Some table) cap =
     (if cap = AF_CAP_INVALID then None
      else let index = unpack_index cap in
        if index = 0 \<or> of_nat AF_CAP_MAX_SLOTS \<le> index then None
        else let slot = tbl_slots table ! unat index in
          if \<not> slot_used slot then None
          else if slot_generation slot \<noteq> unpack_generation cap then None
          else Some (unat index))"

section \<open>Operations\<close>

definition set_slot :: "af_cap_table \<Rightarrow> nat \<Rightarrow> af_cap_slot \<Rightarrow> af_cap_table" where
  "set_slot table i s = table\<lparr>tbl_slots := (tbl_slots table)[i := s]\<rparr>"

definition free_slot :: "af_cap_table \<Rightarrow> nat option" where
  "free_slot table = find (\<lambda>i. \<not> slot_used (tbl_slots table ! i)) [1..<AF_CAP_MAX_SLOTS]"

fun cap_insert :: "af_cap_table option \<Rightarrow> af_object \<Rightarrow> u32 \<Rightarrow> u32 \<times> af_cap_table option" where
  "cap_insert None object rights = (AF_CAP_INVALID, None)"
| "cap_insert (Some table) object rights =
     (if obj_type object = AF_OBJECT_NONE then (AF_CAP_INVALID, Some table)
      else case free_slot table of
          None \<Rightarrow> (AF_CAP_INVALID, Some table)
        | Some i \<Rightarrow>
            let slot = tbl_slots table ! i;
                slot' = slot\<lparr>slot_object := object, slot_rights := rights,
                             slot_parent := AF_CAP_NO_PARENT, slot_used := True\<rparr>;
                table' = (set_slot table i slot')\<lparr>tbl_used := tbl_used table + 1\<rparr>
            in (pack (of_nat i) (slot_generation slot), Some table'))"

text \<open>The second component is what is written through \<open>out\<close>, if anything is.\<close>

definition cap_lookup ::
  "af_cap_table option \<Rightarrow> u32 \<Rightarrow> u32 \<Rightarrow> af_status \<times> af_object option" where
  "cap_lookup table cap required =
     (case resolve table cap of
        None \<Rightarrow> (AF_ERR_CAP_INVALID, None)
      | Some i \<Rightarrow>
          let slot = tbl_slots (the table) ! i in
          if slot_rights slot AND required \<noteq> required then (AF_ERR_PERM, None)
          else (AF_OK, Some (slot_object slot)))"

text \<open>\<open>out_given\<close> is \<open>out != NULL\<close>; the middle component is the handle written to \<open>*out\<close>.\<close>

definition cap_derive ::
  "af_cap_table option \<Rightarrow> u32 \<Rightarrow> u32 \<Rightarrow> bool \<Rightarrow> af_status \<times> u32 option \<times> af_cap_table option" where
  "cap_derive table cap rights out_given =
     (case resolve table cap of
        None \<Rightarrow> (AF_ERR_CAP_INVALID, None, table)
      | Some p \<Rightarrow>
          if \<not> out_given then (AF_ERR_INVAL, None, table)
          else let parent = tbl_slots (the table) ! p in
            if rights AND slot_rights parent \<noteq> rights then (AF_ERR_PERM, None, table)
            else let (child, table') = cap_insert table (slot_object parent) rights in
              if child = AF_CAP_INVALID then (AF_ERR_TOOMANY, None, table')
              else let table'' =
                  (case resolve table' child of
                     None \<Rightarrow> table'
                   | Some c \<Rightarrow>
                       map_option (\<lambda>t. set_slot t c ((tbl_slots t ! c)
                                     \<lparr>slot_parent := ucast (unpack_index cap)\<rparr>)) table')
                in (AF_OK, Some child, table''))"

definition cleared_slot :: "af_cap_slot \<Rightarrow> af_cap_slot" where
  "cleared_slot slot =
     slot\<lparr>slot_used := False,
          slot_object := \<lparr>obj_type = AF_OBJECT_NONE, obj_id = 0\<rparr>,
          slot_rights := 0,
          slot_parent := AF_CAP_NO_PARENT,
          slot_generation := slot_generation slot + 1\<rparr>"

definition clear_slot :: "af_cap_table \<Rightarrow> nat \<Rightarrow> af_cap_table" where
  "clear_slot t i =
     (let t' = set_slot t i (cleared_slot (tbl_slots t ! i)) in
      if 0 < tbl_used t then t'\<lparr>tbl_used := tbl_used t - 1\<rparr> else t')"

definition cap_delete :: "af_cap_table option \<Rightarrow> u32 \<Rightarrow> af_status \<times> af_cap_table option" where
  "cap_delete table cap =
     (case resolve table cap of
        None \<Rightarrow> (AF_ERR_CAP_INVALID, table)
      | Some i \<Rightarrow> (AF_OK, Some (clear_slot (the table) i)))"

text \<open>
  \<open>revoke_children\<close> is a loop over the slots whose body recurses. The recursion is not bounded
  by the code, so the model bounds it: \<open>fuel\<close> is the depth of the C call stack still available,
  and running out is \<open>None\<close>. \<open>revoke_loop fuel table parent i revoked\<close> is the loop from
  index \<open>i\<close> on.
\<close>

function revoke_loop ::
  "nat \<Rightarrow> af_cap_table \<Rightarrow> u32 \<Rightarrow> nat \<Rightarrow> u32 \<Rightarrow> (u32 \<times> af_cap_table) option" where
  "revoke_loop fuel table parent_index i revoked =
     (if AF_CAP_MAX_SLOTS \<le> i then Some (revoked, table)
      else let slot = tbl_slots table ! i in
        if \<not> slot_used slot \<or> slot_parent slot \<noteq> ucast parent_index
        then revoke_loop fuel table parent_index (Suc i) revoked
        else case fuel of
            0 \<Rightarrow> None
          | Suc fuel' \<Rightarrow>
              (case revoke_loop fuel' table (of_nat i) 1 0 of
                 None \<Rightarrow> None
               | Some (n, table') \<Rightarrow>
                   let (_, table'') =
                     cap_delete (Some table') (pack (of_nat i) (slot_generation (tbl_slots table' ! i)))
                   in revoke_loop fuel (the table'') parent_index (Suc i) (revoked + n + 1)))"
  by pat_completeness auto
termination
  by (relation "measures [\<lambda>(fuel, _, _, i, _). fuel, \<lambda>(_, _, _, i, _). AF_CAP_MAX_SLOTS - i]") auto

declare revoke_loop.simps [simp del]

definition revoke_children :: "nat \<Rightarrow> af_cap_table \<Rightarrow> u32 \<Rightarrow> (u32 \<times> af_cap_table) option" where
  "revoke_children fuel table parent_index = revoke_loop fuel table parent_index 1 0"

definition cap_revoke ::
  "nat \<Rightarrow> af_cap_table option \<Rightarrow> u32 \<Rightarrow> (af_status \<times> af_cap_table option) option" where
  "cap_revoke fuel table cap =
     (case resolve table cap of
        None \<Rightarrow> Some (AF_ERR_CAP_INVALID, table)
      | Some i \<Rightarrow>
          if slot_rights (tbl_slots (the table) ! i) AND AF_RIGHT_REVOKE = 0
          then Some (AF_ERR_PERM, table)
          else (case revoke_children fuel (the table) (unpack_index cap) of
                  None \<Rightarrow> None
                | Some (_, table') \<Rightarrow> Some (AF_OK, snd (cap_delete (Some table') cap))))"

section \<open>Diagnostics\<close>

fun cap_used_slots :: "af_cap_table option \<Rightarrow> u32" where
  "cap_used_slots None = 0"
| "cap_used_slots (Some table) = tbl_used table"

fun cap_generation_of :: "af_cap_table option \<Rightarrow> u32 \<Rightarrow> u32" where
  "cap_generation_of None cap = 0"
| "cap_generation_of (Some table) cap =
     (let index = unpack_index cap in
      if index = 0 \<or> of_nat AF_CAP_MAX_SLOTS \<le> index then 0
      else slot_generation (tbl_slots table ! unat index))"

fun cap_object_type_name :: "af_object_type \<Rightarrow> string" where
  "cap_object_type_name AF_OBJECT_NONE = ''none''"
| "cap_object_type_name AF_OBJECT_FRAME = ''frame''"
| "cap_object_type_name AF_OBJECT_ENDPOINT = ''endpoint''"
| "cap_object_type_name AF_OBJECT_NOTIFICATION = ''notification''"
| "cap_object_type_name AF_OBJECT_FILE = ''file''"
| "cap_object_type_name AF_OBJECT_DEVICE = ''device''"
| "cap_object_type_name AF_OBJECT_IRQ = ''irq''"
| "cap_object_type_name AF_OBJECT_PROCESS = ''process''"

lemma mask8: "(0xFF :: u32) = mask 8"
  by (simp add: mask_eq_exp_minus_1)

lemma mask_index: "w AND 0xFF = take_bit 8 (w :: u32)"
  by (simp only: mask8 take_bit_eq_mask)

lemma unpack_index_eq: "unpack_index c = take_bit 8 c"
  by (simp add: unpack_index_def mask_index)

lemma unpack_index_pack: "unpack_index (pack i g) = take_bit 8 i"
  by (rule bit_word_eqI) (auto simp: pack_def unpack_index_def mask_index bit_simps)

lemma slot_index_small [simp]: "i < AF_CAP_MAX_SLOTS \<Longrightarrow> unat (of_nat i :: u32) = i"
  by (simp add: unat_of_nat)

lemma unpack_pack_index [simp]:
  "i < AF_CAP_MAX_SLOTS \<Longrightarrow> unpack_index (pack (of_nat i) g) = of_nat i"
  by (simp add: unpack_index_pack take_bit_small)

lemma unpack_pack_generation: "unpack_generation (pack i g) = take_bit 24 g"
  by (rule bit_word_eqI) (auto simp: pack_def unpack_generation_def mask_index bit_simps)

lemma unpack_pack_generation_small [simp]: "unat g < 2 ^ 24 \<Longrightarrow> unpack_generation (pack i g) = g"
  by (simp only: unpack_pack_generation take_bit_small)

lemma unpack_index_bound: "unat (unpack_index c) < AF_CAP_MAX_SLOTS"
  using unat_take_bit_less [of 8 c] by (simp add: unpack_index_eq)

lemma unpack_generation_bound: "unat (unpack_generation c) < 2 ^ 24"
proof -
  have "unat c < 2 ^ 32" using unsigned_less [of c, where 'a = nat] by simp
  then show ?thesis by (simp add: unpack_generation_def unsigned_drop_bit_eq drop_bit_eq_div unat_div_distrib)
qed

lemma pack_unpack: "pack (unpack_index c) (unpack_generation c) = c"
  by (rule bit_word_eqI) (auto simp: pack_def unpack_generation_def unpack_index_eq mask_index bit_simps)

text \<open>What a resolved handle says, with the packing eliminated.\<close>

lemma resolve_Some_iff:
  "resolve (Some t) c = Some i \<longleftrightarrow>
     i = unat (unpack_index c) \<and> 0 < i \<and> i < AF_CAP_MAX_SLOTS \<and> slot_used (tbl_slots t ! i) \<and>
     slot_generation (tbl_slots t ! i) = unpack_generation c"
proof -
  have "unpack_index c \<noteq> 0 \<Longrightarrow> c \<noteq> 0" by (auto simp: unpack_index_def)
  moreover have "\<not> of_nat AF_CAP_MAX_SLOTS \<le> unpack_index c"
    using unpack_index_bound [of c] by (simp add: word_le_nat_alt)
  ultimately show ?thesis
    using unpack_index_bound [of c] by (auto simp: Let_def unat_gt_0 unat_eq_0)
qed

lemma resolve_None_table: "resolve tbl c = Some i \<Longrightarrow> \<exists>t. tbl = Some t"
  by (cases tbl) auto

lemma resolve_SomeD:
  assumes "resolve (Some t) c = Some i"
  shows "0 < i" "i < AF_CAP_MAX_SLOTS" "slot_used (tbl_slots t ! i)" "i = unat (unpack_index c)"
    "slot_generation (tbl_slots t ! i) = unpack_generation c"
  using assms [unfolded resolve_Some_iff] by blast+

declare resolve.simps(2) [simp del]

lemma resolve_pack:
  assumes "0 < i" "i < AF_CAP_MAX_SLOTS" "slot_used (tbl_slots t ! i)"
    "slot_generation (tbl_slots t ! i) = g"
  shows "resolve (Some t) (pack (of_nat i) g) = (if unat g < 2 ^ 24 then Some i else None)"
proof (cases "unat g < 2 ^ 24")
  case True
  then have "resolve (Some t) (pack (of_nat i) g) = Some i"
    using assms by (subst resolve_Some_iff) simp
  with True show ?thesis by simp
next
  case False
  have "unat (unpack_generation (pack (of_nat i) g)) < 2 ^ 24" by (rule unpack_generation_bound)
  with False assms have "resolve (Some t) (pack (of_nat i) g) \<noteq> Some j" for j
    using resolve_SomeD(4,5) by (metis slot_index_small unpack_pack_index)
  with False show ?thesis by (cases "resolve (Some t) (pack (of_nat i) g)") auto
qed

section \<open>Invariant\<close>

text \<open>
  What every operation keeps: the array has its 256 slots, slot 0 is never handed out, the
  counter counts the used slots, and a used slot names a real object.
\<close>

definition cap_wf :: "af_cap_table \<Rightarrow> bool" where
  "cap_wf t \<longleftrightarrow>
     length (tbl_slots t) = AF_CAP_MAX_SLOTS \<and> \<not> slot_used (tbl_slots t ! 0) \<and>
     unat (tbl_used t) = length (filter slot_used (tbl_slots t)) \<and>
     (\<forall>i < AF_CAP_MAX_SLOTS. slot_used (tbl_slots t ! i) \<longrightarrow>
        obj_type (slot_object (tbl_slots t ! i)) \<noteq> AF_OBJECT_NONE)"

lemma set_slot_simps [simp]:
  "tbl_used (set_slot t i s) = tbl_used t"
  "length (tbl_slots (set_slot t i s)) = length (tbl_slots t)"
  "i < length (tbl_slots t) \<Longrightarrow> tbl_slots (set_slot t i s) ! i = s"
  "j \<noteq> i \<Longrightarrow> tbl_slots (set_slot t i s) ! j = tbl_slots t ! j"
  "set_slot (t\<lparr>tbl_used := n\<rparr>) i s = (set_slot t i s)\<lparr>tbl_used := n\<rparr>"
  by (simp_all add: set_slot_def)

lemma cap_wf_length [simp]: "cap_wf t \<Longrightarrow> length (tbl_slots t) = AF_CAP_MAX_SLOTS"
  by (simp add: cap_wf_def)

lemma cap_wf_count_bound: "cap_wf t \<Longrightarrow> unat (tbl_used t) \<le> AF_CAP_MAX_SLOTS"
  by (metis cap_wf_def length_filter_le)

lemma cap_wf_create: "cap_table_create ok = Some t \<Longrightarrow> cap_wf t"
  by (auto simp: cap_table_create_def cap_wf_def zero_slot_def split: if_splits)

lemma free_slotD:
  assumes "free_slot t = Some i"
  shows "0 < i" "i < AF_CAP_MAX_SLOTS" "\<not> slot_used (tbl_slots t ! i)"
  using find_SomeD [OF assms [unfolded free_slot_def]] by auto

lemma free_slot_NoneD:
  "free_slot t = None \<Longrightarrow> 0 < i \<Longrightarrow> i < AF_CAP_MAX_SLOTS \<Longrightarrow> slot_used (tbl_slots t ! i)"
  using find_NoneD [of "\<lambda>i. \<not> slot_used (tbl_slots t ! i)" "[1..<AF_CAP_MAX_SLOTS]" i]
  by (simp add: free_slot_def)

text \<open>The three writes a table ever sees: fill a free slot, clear a used one, relabel a parent.\<close>

lemma cap_wf_fill:
  assumes "cap_wf t" "0 < i" "i < AF_CAP_MAX_SLOTS" "\<not> slot_used (tbl_slots t ! i)"
    "slot_used s" "obj_type (slot_object s) \<noteq> AF_OBJECT_NONE"
  shows "cap_wf ((set_slot t i s)\<lparr>tbl_used := tbl_used t + 1\<rparr>)"
proof -
  have "length (filter slot_used ((tbl_slots t)[i := s])) = Suc (unat (tbl_used t))"
    using assms filter_update_set [of i "tbl_slots t" slot_used s] by (simp add: cap_wf_def)
  moreover have "unat (tbl_used t + 1) = Suc (unat (tbl_used t))"
    using cap_wf_count_bound [OF assms(1)] by (intro unat_Suc_word) simp
  ultimately show ?thesis
    using assms by (auto simp: cap_wf_def set_slot_def nth_list_update)
qed

lemma cap_wf_clear:
  assumes "cap_wf t" "i < AF_CAP_MAX_SLOTS" "slot_used (tbl_slots t ! i)" "\<not> slot_used s"
  shows "0 < tbl_used t \<and> cap_wf ((set_slot t i s)\<lparr>tbl_used := tbl_used t - 1\<rparr>)"
proof -
  have *: "Suc (length (filter slot_used ((tbl_slots t)[i := s]))) = unat (tbl_used t)"
    using assms filter_update_clear [of i "tbl_slots t" slot_used s] by (simp add: cap_wf_def)
  then have "tbl_used t \<noteq> 0" by auto
  moreover from this * have
    "unat (tbl_used t - 1) = length (filter slot_used ((tbl_slots t)[i := s]))"
    by (simp add: unat_minus_one_word)
  ultimately show ?thesis
    using assms by (auto simp: cap_wf_def set_slot_def nth_list_update word_gt_0)
qed

lemma cleared_slot_simps [simp]:
  "\<not> slot_used (cleared_slot s)"
  "slot_generation (cleared_slot s) = slot_generation s + 1"
  by (simp_all add: cleared_slot_def)

lemma clear_slot_nth:
  "i < length (tbl_slots t) \<Longrightarrow>
     tbl_slots (clear_slot t i) ! j = (if j = i then cleared_slot (tbl_slots t ! i) else tbl_slots t ! j)"
  by (simp add: clear_slot_def Let_def)

lemma clear_slot_length [simp]: "length (tbl_slots (clear_slot t i)) = length (tbl_slots t)"
  by (simp add: clear_slot_def Let_def)

lemma cap_wf_clear_slot:
  "cap_wf t \<Longrightarrow> i < AF_CAP_MAX_SLOTS \<Longrightarrow> slot_used (tbl_slots t ! i) \<Longrightarrow> cap_wf (clear_slot t i)"
  using cap_wf_clear [of t i "cleared_slot (tbl_slots t ! i)"]
  by (simp add: clear_slot_def Let_def)

lemma cap_wf_relabel:
  assumes "cap_wf t" "i < AF_CAP_MAX_SLOTS" "slot_used s = slot_used (tbl_slots t ! i)"
    "slot_object s = slot_object (tbl_slots t ! i)"
  shows "cap_wf (set_slot t i s)"
  using assms filter_update_same [of i "tbl_slots t" slot_used s]
  by (auto simp: cap_wf_def set_slot_def nth_list_update)

lemma cap_wf_insert:
  "cap_wf t \<Longrightarrow> cap_insert (Some t) obj r = (h, tbl') \<Longrightarrow> \<exists>t'. tbl' = Some t' \<and> cap_wf t'"
  by (auto simp: Let_def split: if_splits option.splits dest: free_slotD intro!: cap_wf_fill)

lemma cap_wf_delete:
  assumes "cap_wf t" "cap_delete (Some t) c = (rc, tbl')"
  shows "\<exists>t'. tbl' = Some t' \<and> cap_wf t'"
proof (cases "resolve (Some t) c")
  case None
  with assms show ?thesis by (auto simp: cap_delete_def)
next
  case (Some i)
  with assms resolve_SomeD(2,3) [OF Some] show ?thesis
    by (auto simp: cap_delete_def intro: cap_wf_clear_slot)
qed

lemma cap_wf_derive:
  assumes "cap_wf t" "cap_derive (Some t) c r out = (rc, h, tbl')"
  shows "\<exists>t'. tbl' = Some t' \<and> cap_wf t'"
proof (cases "resolve (Some t) c")
  case None
  with assms show ?thesis by (auto simp: cap_derive_def)
next
  case (Some p)
  obtain child t1 where ins: "cap_insert (Some t) (slot_object (tbl_slots t ! p)) r = (child, Some t1)"
    and wf1: "cap_wf t1"
    by (metis assms(1) cap_wf_insert surj_pair)
  show ?thesis
    using assms Some ins wf1
    by (auto simp: cap_derive_def Let_def split: if_splits option.splits
        intro!: cap_wf_relabel dest: resolve_SomeD)
qed

section \<open>What revocation frees\<close>

text \<open>
  \<open>derives t\<close> is the derivation relation the parent fields record: \<open>(p, i)\<close> when slot \<open>i\<close> is in
  use and names slot \<open>p\<close> as its parent.
\<close>

definition derives :: "af_cap_table \<Rightarrow> (nat \<times> nat) set" where
  "derives t = {(p, i). p < AF_CAP_MAX_SLOTS \<and> 0 < i \<and> i < AF_CAP_MAX_SLOTS \<and>
     slot_used (tbl_slots t ! i) \<and> slot_parent (tbl_slots t ! i) = of_nat p}"

text \<open>\<open>freed t t'\<close>: the slots in use before and not after; \<open>shrinks\<close>: nothing else changed.\<close>

definition freed :: "af_cap_table \<Rightarrow> af_cap_table \<Rightarrow> nat set" where
  "freed t t' = {j. j < AF_CAP_MAX_SLOTS \<and> slot_used (tbl_slots t ! j) \<and> \<not> slot_used (tbl_slots t' ! j)}"

definition shrinks :: "af_cap_table \<Rightarrow> af_cap_table \<Rightarrow> bool" where
  "shrinks t t' \<longleftrightarrow> cap_wf t' \<and>
     (\<forall>j < AF_CAP_MAX_SLOTS. tbl_slots t' ! j = tbl_slots t ! j \<or>
        slot_used (tbl_slots t ! j) \<and> tbl_slots t' ! j = cleared_slot (tbl_slots t ! j))"

lemma shrinks_refl: "cap_wf t \<Longrightarrow> shrinks t t"
  by (simp add: shrinks_def)

lemma shrinks_trans: "shrinks t t' \<Longrightarrow> shrinks t' t'' \<Longrightarrow> shrinks t t''"
  unfolding shrinks_def by (metis cleared_slot_simps(1))

lemma shrinks_delete:
  assumes "cap_wf t"
  shows "shrinks t (the (snd (cap_delete (Some t) c)))"
proof (cases "resolve (Some t) c")
  case None
  with assms show ?thesis by (simp add: cap_delete_def shrinks_refl)
next
  case (Some i)
  with assms resolve_SomeD(2,3) [OF Some] show ?thesis
    by (auto simp: cap_delete_def shrinks_def clear_slot_nth intro: cap_wf_clear_slot)
qed

lemma shrinks_used: "shrinks t t' \<Longrightarrow> j < AF_CAP_MAX_SLOTS \<Longrightarrow> slot_used (tbl_slots t' ! j) \<Longrightarrow>
    tbl_slots t' ! j = tbl_slots t ! j"
  unfolding shrinks_def by (metis cleared_slot_simps(1))

lemma shrinks_derives: "shrinks t t' \<Longrightarrow> derives t' \<subseteq> derives t"
  by (auto simp: derives_def dest: shrinks_used)

lemma freed_trans: "shrinks t t' \<Longrightarrow> shrinks t' t'' \<Longrightarrow> freed t t'' = freed t t' \<union> freed t' t''"
  by (auto simp: freed_def dest: shrinks_used)

lemma parent_word_eq [simp]:
  "i < AF_CAP_MAX_SLOTS \<Longrightarrow> ucast (of_nat i :: u32) = (of_nat i :: u16)"
  by (simp add: word_unat_eq_iff unat_of_nat unsigned_ucast_eq take_bit_nat_eq_self unsigned_of_nat)

text \<open>
  The body of the loop, as three facts about one round: the recursive call returned \<open>t1\<close>, the
  delete returned \<open>t2\<close>, the rest of the loop returned \<open>t'\<close>.
\<close>

definition round_delete :: "af_cap_table \<Rightarrow> nat \<Rightarrow> af_cap_table" where
  "round_delete t i =
     the (snd (cap_delete (Some t) (pack (of_nat i) (slot_generation (tbl_slots t ! i)))))"

definition is_child :: "af_cap_table \<Rightarrow> u32 \<Rightarrow> nat \<Rightarrow> bool" where
  "is_child t p i \<longleftrightarrow> slot_used (tbl_slots t ! i) \<and> slot_parent (tbl_slots t ! i) = ucast p"

lemma revoke_loop_end: "AF_CAP_MAX_SLOTS \<le> i \<Longrightarrow> revoke_loop fuel t p i r = Some (r, t)"
  by (simp add: revoke_loop.simps [of fuel t p i r])

lemma revoke_loop_skip:
  "i < AF_CAP_MAX_SLOTS \<Longrightarrow> \<not> is_child t p i \<Longrightarrow>
     revoke_loop fuel t p i r = revoke_loop fuel t p (Suc i) r"
  by (subst revoke_loop.simps) (simp add: is_child_def Let_def)

lemma revoke_loop_0: "i < AF_CAP_MAX_SLOTS \<Longrightarrow> is_child t p i \<Longrightarrow> revoke_loop 0 t p i r = None"
  by (subst revoke_loop.simps) (simp add: is_child_def Let_def)

lemma revoke_loop_round:
  "i < AF_CAP_MAX_SLOTS \<Longrightarrow> is_child t p i \<Longrightarrow>
     revoke_loop (Suc fuel) t p i r =
       (case revoke_loop fuel t (of_nat i) 1 0 of
          None \<Rightarrow> None
        | Some (n, t1) \<Rightarrow> revoke_loop (Suc fuel) (round_delete t1 i) p (Suc i) (r + n + 1))"
  by (subst revoke_loop.simps)
    (simp add: is_child_def Let_def round_delete_def split_beta split: option.split)

lemmas revoke_loop_cases = revoke_loop_end revoke_loop_skip revoke_loop_0 revoke_loop_round

lemma revoke_induct [case_names finish skip no_stack round]:
  assumes "\<And>fuel t p i r. AF_CAP_MAX_SLOTS \<le> i \<Longrightarrow> P fuel t p i r"
    and "\<And>fuel t p i r. i < AF_CAP_MAX_SLOTS \<Longrightarrow> \<not> is_child t p i \<Longrightarrow> P fuel t p (Suc i) r \<Longrightarrow>
           P fuel t p i r"
    and "\<And>t p i r. i < AF_CAP_MAX_SLOTS \<Longrightarrow> is_child t p i \<Longrightarrow> P 0 t p i r"
    and "\<And>fuel t p i r. i < AF_CAP_MAX_SLOTS \<Longrightarrow> is_child t p i \<Longrightarrow> P fuel t (of_nat i) 1 0 \<Longrightarrow>
           (\<And>n t1. revoke_loop fuel t (of_nat i) 1 0 = Some (n, t1) \<Longrightarrow>
              P (Suc fuel) (round_delete t1 i) p (Suc i) (r + n + 1)) \<Longrightarrow>
           P (Suc fuel) t p i r"
  shows "P fuel t p i r"
proof (induction fuel t p i r rule: revoke_loop.induct)
  case (1 fuel t p i r)
  show ?case
  proof (cases "i < AF_CAP_MAX_SLOTS \<and> is_child t p i")
    case False
    show ?thesis
    proof (cases "AF_CAP_MAX_SLOTS \<le> i")
      case True
      then show ?thesis by (rule assms(1))
    next
      case less: False
      with False 1(1) have "P fuel t p (Suc i) r" by (auto simp: is_child_def)
      with False less show ?thesis using assms(2) by force
    qed
  next
    case True
    show ?thesis
    proof (cases fuel)
      case 0
      with True assms(3) show ?thesis by simp
    next
      case (Suc fuel')
      have "P fuel' t (of_nat i) 1 0"
        using 1(2) True Suc by (simp add: is_child_def)
      moreover have "P fuel (round_delete t1 i) p (Suc i) (r + n + 1)"
        if "revoke_loop fuel' t (of_nat i) 1 0 = Some (n, t1)" for n t1
        using 1(3) [OF _ refl _ Suc that refl] True
        by (simp add: is_child_def round_delete_def prod_eq_iff)
      ultimately show ?thesis using True Suc assms(4) by blast
    qed
  qed
qed

lemma shrinks_round: "cap_wf t \<Longrightarrow> shrinks t (round_delete t i)"
  unfolding round_delete_def by (rule shrinks_delete)

lemma shrinks_wf: "shrinks t t' \<Longrightarrow> cap_wf t'"
  by (simp add: shrinks_def)

lemma revoke_loop_shrinks:
  "revoke_loop fuel t p i r = Some (n, t') \<Longrightarrow> cap_wf t \<Longrightarrow> shrinks t t'"
proof (induction fuel t p i r arbitrary: n t' rule: revoke_induct)
  case (round fuel t p i r)
  then obtain m t1 where t1: "revoke_loop fuel t (of_nat i) 1 0 = Some (m, t1)"
    and t': "revoke_loop (Suc fuel) (round_delete t1 i) p (Suc i) (r + m + 1) = Some (n, t')"
    by (auto simp: revoke_loop_round split: option.splits)
  from round t1 have s1: "shrinks t t1" by blast
  note s2 = shrinks_round [OF shrinks_wf [OF s1], of i]
  from round.IH(2) [OF t1 t' shrinks_wf [OF s2]] s1 s2 show ?case
    by (blast intro: shrinks_trans)
qed (auto simp: revoke_loop_cases shrinks_refl)

text \<open>
  A handle can name a slot only while the slot's generation fits the 24 bits the handle has for
  it. \<open>fresh_generations\<close> says it does for every slot in use.
\<close>

definition fresh_generations :: "af_cap_table \<Rightarrow> bool" where
  "fresh_generations t \<longleftrightarrow>
     (\<forall>j < AF_CAP_MAX_SLOTS. slot_used (tbl_slots t ! j) \<longrightarrow> unat (slot_generation (tbl_slots t ! j)) < 2 ^ 24)"

lemma fresh_generations_shrinks: "shrinks t t' \<Longrightarrow> fresh_generations t \<Longrightarrow> fresh_generations t'"
  by (auto simp: fresh_generations_def dest: shrinks_used)

lemma round_delete_unused:
  assumes "cap_wf t" "fresh_generations t" "0 < i" "i < AF_CAP_MAX_SLOTS"
  shows "\<not> slot_used (tbl_slots (round_delete t i) ! i)"
proof (cases "slot_used (tbl_slots t ! i)")
  case True
  with assms have "resolve (Some t) (pack (of_nat i) (slot_generation (tbl_slots t ! i))) = Some i"
    by (subst resolve_pack) (auto simp: fresh_generations_def)
  with assms show ?thesis by (simp add: round_delete_def cap_delete_def clear_slot_nth)
next
  case False
  then show ?thesis
    using shrinks_used [OF shrinks_round [OF assms(1), of i] assms(4)] by auto
qed

lemma round_delete_freed: "cap_wf t \<Longrightarrow> 0 < i \<Longrightarrow> i < AF_CAP_MAX_SLOTS \<Longrightarrow> freed t (round_delete t i) \<subseteq> {i}"
proof -
  assume "cap_wf t" "0 < i" "i < AF_CAP_MAX_SLOTS"
  then show ?thesis
    by (auto simp: freed_def round_delete_def cap_delete_def clear_slot_nth
        split: option.splits if_splits dest!: resolve_SomeD(4))
qed

lemma is_child_derives:
  "p < AF_CAP_MAX_SLOTS \<Longrightarrow> 0 < i \<Longrightarrow> i < AF_CAP_MAX_SLOTS \<Longrightarrow> is_child t (of_nat p) i \<longleftrightarrow> (p, i) \<in> derives t"
  by (simp add: is_child_def derives_def)

lemma not_used_not_child: "\<not> slot_used (tbl_slots t ! i) \<Longrightarrow> \<not> is_child t p i"
  by (simp add: is_child_def)

text \<open>Completeness: no child is left, and whatever lost its parent is gone too.\<close>

lemma revoke_loop_complete:
  "revoke_loop fuel t p i r = Some (n, t') \<Longrightarrow> cap_wf t \<Longrightarrow> fresh_generations t \<Longrightarrow> 0 < i \<Longrightarrow>
     (\<forall>k. i \<le> k \<longrightarrow> k < AF_CAP_MAX_SLOTS \<longrightarrow> \<not> is_child t' p k) \<and>
     (\<forall>j k. j \<in> freed t t' \<longrightarrow> (j, k) \<notin> derives t')"
proof (induction fuel t p i r arbitrary: n t' rule: revoke_induct)
  case (skip fuel t p i r)
  then have IH: "(\<forall>k. Suc i \<le> k \<longrightarrow> k < AF_CAP_MAX_SLOTS \<longrightarrow> \<not> is_child t' p k) \<and>
     (\<forall>j k. j \<in> freed t t' \<longrightarrow> (j, k) \<notin> derives t')" and sh: "shrinks t t'"
    by (auto simp: revoke_loop_skip dest: revoke_loop_shrinks)
  from skip(1,2) sh have "\<not> is_child t' p i"
    by (auto simp: is_child_def dest: shrinks_used)
  with IH show ?case by (metis le_neq_implies_less Suc_leI)
next
  case (round fuel t p i r)
  then obtain m t1 where t1: "revoke_loop fuel t (of_nat i) 1 0 = Some (m, t1)"
    and t': "revoke_loop (Suc fuel) (round_delete t1 i) p (Suc i) (r + m + 1) = Some (n, t')"
    by (auto simp: revoke_loop_round split: option.splits)
  let ?t2 = "round_delete t1 i"
  have s1: "shrinks t t1" by (rule revoke_loop_shrinks [OF t1 round.prems(2)])
  have s2: "shrinks t1 ?t2" by (rule shrinks_round [OF shrinks_wf [OF s1]])
  have s3: "shrinks ?t2 t'" by (rule revoke_loop_shrinks [OF t' shrinks_wf [OF s2]])
  have f1: "fresh_generations t1" by (rule fresh_generations_shrinks [OF s1 round.prems(3)])
  have f2: "fresh_generations ?t2" by (rule fresh_generations_shrinks [OF s2 f1])
  note IH1 = round.IH(1) [OF t1 round.prems(2,3)]
  note IH2 = round.IH(2) [OF t1 t' shrinks_wf [OF s2] f2]
  have kids: "(i, k) \<notin> derives t1" for k
    using IH1 round(1) round.prems(4) is_child_derives [of i k t1]
    by (auto simp: derives_def)
  have gone: "\<not> is_child t' p i"
    using round_delete_unused [OF shrinks_wf [OF s1] f1 round.prems(4) round(1)] shrinks_used [OF s3 round(1)]
    by (auto simp: is_child_def)
  have d: "derives t' \<subseteq> derives t1"
    using shrinks_derives [OF s3] shrinks_derives [OF s2] by (rule subset_trans)
  show ?case
  proof (intro conjI allI impI)
    fix k assume "i \<le> k" "k < AF_CAP_MAX_SLOTS"
    with gone IH2 show "\<not> is_child t' p k" by (cases "k = i") auto
  next
    fix j k assume "j \<in> freed t t'"
    then have "j \<in> freed t t1 \<or> j = i \<or> j \<in> freed ?t2 t'"
      using freed_trans [OF s1 shrinks_trans [OF s2 s3]] freed_trans [OF s2 s3]
        round_delete_freed [OF shrinks_wf [OF s1] round.prems(4) round(1)] by blast
    then show "(j, k) \<notin> derives t'"
    proof (elim disjE)
      assume "j \<in> freed t t1"
      with IH1 have "(j, k) \<notin> derives t1" by simp
      with d show ?thesis by auto
    next
      assume "j = i"
      with kids [of k] d show ?thesis by auto
    next
      assume "j \<in> freed ?t2 t'"
      with IH2 show ?thesis by simp
    qed
  qed
next
  case (finish fuel t p i r)
  then have "t' = t" by (simp add: revoke_loop_end)
  with finish(1) show ?case by (simp add: freed_def)
next
  case (no_stack t p i r)
  then show ?case by (simp add: revoke_loop_0)
qed

text \<open>Soundness: only descendants are freed.\<close>

lemma revoke_loop_sound:
  "revoke_loop fuel t (of_nat p) i r = Some (n, t') \<Longrightarrow> cap_wf t \<Longrightarrow> 0 < i \<Longrightarrow> p < AF_CAP_MAX_SLOTS \<Longrightarrow>
     j \<in> freed t t' \<Longrightarrow> (p, j) \<in> (derives t)\<^sup>+"
proof (induction fuel t "of_nat p :: u32" i r arbitrary: p n t' rule: revoke_induct)
  case (round fuel t i r)
  then obtain m t1 where t1: "revoke_loop fuel t (of_nat i) 1 0 = Some (m, t1)"
    and t': "revoke_loop (Suc fuel) (round_delete t1 i) (of_nat p) (Suc i) (r + m + 1) = Some (n, t')"
    by (auto simp: revoke_loop_round split: option.splits)
  let ?t2 = "round_delete t1 i"
  have s1: "shrinks t t1" by (rule revoke_loop_shrinks [OF t1 round.prems(2)])
  have s2: "shrinks t1 ?t2" by (rule shrinks_round [OF shrinks_wf [OF s1]])
  have s3: "shrinks ?t2 t'" by (rule revoke_loop_shrinks [OF t' shrinks_wf [OF s2]])
  have child: "(p, i) \<in> derives t"
    using round(1,2) round.prems(3,4) is_child_derives by blast
  have "j \<in> freed t t1 \<or> j = i \<or> j \<in> freed ?t2 t'"
    using round.prems(5) freed_trans [OF s1 shrinks_trans [OF s2 s3]] freed_trans [OF s2 s3]
      round_delete_freed [OF shrinks_wf [OF s1] round.prems(3) round(1)] by blast
  moreover have "(i, j) \<in> (derives t)\<^sup>+" if "j \<in> freed t t1"
    using round.hyps(3) [OF refl t1 round.prems(2) _ round(1) that] by simp
  moreover have "(p, j) \<in> (derives ?t2)\<^sup>+" if "j \<in> freed ?t2 t'"
    using round.hyps(4) [OF t1 refl t' shrinks_wf [OF s2] _ round.prems(4) that] by simp
  moreover have "(derives ?t2)\<^sup>+ \<subseteq> (derives t)\<^sup>+"
    by (intro trancl_mono_subset shrinks_derives shrinks_trans [OF s1 s2])
  ultimately show ?case using child by (auto intro: trancl_into_trancl2)
next
  case (finish fuel t i r)
  then show ?case by (simp add: revoke_loop_end freed_def)
next
  case (skip fuel t i r)
  then show ?case by (simp add: revoke_loop_skip)
next
  case (no_stack t i r)
  then show ?case by (simp add: revoke_loop_0)
qed

section \<open>Stack depth of revocation\<close>

text \<open>
  With an acyclic derivation relation the number of descendants of a slot bounds the depth of the
  recursion, and there are at most 255 descendants.
\<close>

definition descendants :: "af_cap_table \<Rightarrow> nat \<Rightarrow> nat set" where
  "descendants t p = (derives t)\<^sup>+ `` {p}"

lemma descendants_subset: "descendants t p \<subseteq> {1..<AF_CAP_MAX_SLOTS}"
proof
  fix j assume "j \<in> descendants t p"
  then obtain k where "(k, j) \<in> derives t" unfolding descendants_def by (auto dest: tranclD2)
  then show "j \<in> {1..<AF_CAP_MAX_SLOTS}" by (simp add: derives_def)
qed

lemma descendants_finite: "finite (descendants t p)"
  by (rule finite_subset [OF descendants_subset]) simp

lemma descendants_bound: "card (descendants t p) \<le> 255"
  using card_mono [OF _ descendants_subset, of t p] by simp

lemma descendants_decrease:
  assumes "acyclic (derives t)" "(p, i) \<in> derives t"
  shows "card (descendants t i) < card (descendants t p)"
proof (rule psubset_card_mono [OF descendants_finite])
  have "descendants t i \<subseteq> descendants t p"
    using assms(2) by (auto simp: descendants_def intro: trancl_into_trancl2)
  moreover have "i \<in> descendants t p" "i \<notin> descendants t i"
    using assms by (auto simp: descendants_def acyclic_def)
  ultimately show "descendants t i \<subset> descendants t p" by blast
qed

lemma descendants_shrinks: "shrinks t t' \<Longrightarrow> card (descendants t' p) \<le> card (descendants t p)"
  unfolding descendants_def
  by (rule card_mono) (use descendants_finite in \<open>auto simp: descendants_def
      dest: trancl_mono_subset [OF shrinks_derives, THEN subsetD]\<close>)

lemma acyclic_shrinks: "shrinks t t' \<Longrightarrow> acyclic (derives t) \<Longrightarrow> acyclic (derives t')"
  by (meson acyclic_subset shrinks_derives)

lemma revoke_loop_total:
  "cap_wf t \<Longrightarrow> acyclic (derives t) \<Longrightarrow> 0 < i \<Longrightarrow> p < AF_CAP_MAX_SLOTS \<Longrightarrow> card (descendants t p) \<le> fuel \<Longrightarrow>
     \<exists>n t'. revoke_loop fuel t (of_nat p) i r = Some (n, t')"
proof (induction fuel t "of_nat p :: u32" i r arbitrary: p rule: revoke_induct)
  case (finish fuel t i r)
  then show ?case by (simp add: revoke_loop_end)
next
  case (skip fuel t i r)
  then show ?case by (simp add: revoke_loop_skip)
next
  case (no_stack t i r)
  then have "(p, i) \<in> derives t" using is_child_derives by blast
  then have "i \<in> descendants t p" by (auto simp: descendants_def)
  with no_stack show ?case using descendants_finite [of t p] by (auto simp: card_eq_0_iff)
next
  case (round fuel t i r)
  have child: "(p, i) \<in> derives t"
    using round(1,2) round.prems(3,4) is_child_derives by blast
  have "card (descendants t i) \<le> fuel"
    using descendants_decrease [OF round.prems(2) child] round.prems(5) by simp
  with round.hyps(3) [OF refl round.prems(1,2) _ round(1)] obtain n t1 where
    t1: "revoke_loop fuel t (of_nat i) 1 0 = Some (n, t1)" by auto
  let ?t2 = "round_delete t1 i"
  have s1: "shrinks t t1" by (rule revoke_loop_shrinks [OF t1 round.prems(1)])
  have s: "shrinks t ?t2" by (rule shrinks_trans [OF s1 shrinks_round [OF shrinks_wf [OF s1]]])
  have "\<exists>m t'. revoke_loop (Suc fuel) ?t2 (of_nat p) (Suc i) (r + n + 1) = Some (m, t')"
    using round.hyps(4) [OF t1 refl shrinks_wf [OF s] acyclic_shrinks [OF s round.prems(2)] _ round.prems(4)]
      descendants_shrinks [OF s, of p] round.prems(5) by auto
  with round(1,2) t1 show ?case by (auto simp: revoke_loop_round)
qed

section \<open>Revocation, exactly\<close>

lemma cap_delete_Some:
  "resolve (Some t) c = Some i \<Longrightarrow> cap_delete (Some t) c = (AF_OK, Some (clear_slot t i))"
  by (simp add: cap_delete_def)

lemma freed_clear_slot:
  "cap_wf t \<Longrightarrow> i < AF_CAP_MAX_SLOTS \<Longrightarrow> slot_used (tbl_slots t ! i) \<Longrightarrow> freed t (clear_slot t i) = {i}"
  by (auto simp: freed_def clear_slot_nth)

lemma shrinks_clear_slot:
  "cap_wf t \<Longrightarrow> i < AF_CAP_MAX_SLOTS \<Longrightarrow> slot_used (tbl_slots t ! i) \<Longrightarrow> shrinks t (clear_slot t i)"
  by (auto simp: shrinks_def clear_slot_nth cap_wf_clear_slot)

lemma resolve_shrinks:
  "shrinks t t' \<Longrightarrow> resolve (Some t) c = Some i \<Longrightarrow> slot_used (tbl_slots t' ! i) \<Longrightarrow>
     resolve (Some t') c = Some i"
  using shrinks_used [of t t' i] by (auto simp: resolve_Some_iff)

lemma index_of_nat: "resolve (Some t) c = Some i \<Longrightarrow> unpack_index c = of_nat i"
  by (simp add: resolve_Some_iff)

text \<open>The outcome of a successful revocation, from its two stages.\<close>

lemma cap_revoke_stages:
  assumes "resolve (Some t) c = Some i" "slot_rights (tbl_slots t ! i) AND AF_RIGHT_REVOKE \<noteq> 0"
  shows "cap_revoke fuel (Some t) c =
    map_option (\<lambda>(n, t1). (AF_OK, snd (cap_delete (Some t1) c))) (revoke_loop fuel t (of_nat i) 1 0)"
  using assms by (simp add: cap_revoke_def revoke_children_def index_of_nat split: option.split)

lemma revoke_exact:
  assumes "cap_wf t" "fresh_generations t" "acyclic (derives t)"
    and "resolve (Some t) c = Some i"
    and "slot_rights (tbl_slots t ! i) AND AF_RIGHT_REVOKE \<noteq> 0"
  shows "\<exists>t'. cap_revoke 255 (Some t) c = Some (AF_OK, Some t') \<and> cap_wf t' \<and>
    (\<forall>j < AF_CAP_MAX_SLOTS.
       if (i, j) \<in> (derives t)\<^sup>* then \<not> slot_used (tbl_slots t' ! j)
       else tbl_slots t' ! j = tbl_slots t ! j)"
proof -
  note r = resolve_SomeD [OF assms(4)]
  obtain n t1 where t1: "revoke_loop 255 t (of_nat i) 1 0 = Some (n, t1)"
    using revoke_loop_total [OF assms(1,3) _ r(2) descendants_bound, of 1 0] by auto
  note s1 = revoke_loop_shrinks [OF t1 assms(1)]
  have "i \<notin> freed t t1"
    using revoke_loop_sound [OF t1 assms(1) _ r(2)] assms(3) by (auto simp: acyclic_def)
  with r have u1: "slot_used (tbl_slots t1 ! i)" by (auto simp: freed_def)
  let ?t' = "clear_slot t1 i"
  have s2: "shrinks t1 ?t'" and f2: "freed t1 ?t' = {i}"
    using r(2) u1 shrinks_wf [OF s1] by (simp_all add: shrinks_clear_slot freed_clear_slot)
  note s = shrinks_trans [OF s1 s2]
  have f: "freed t ?t' = insert i (freed t t1)"
    using freed_trans [OF s1 s2] f2 by simp
  have run: "cap_revoke 255 (Some t) c = Some (AF_OK, Some ?t')"
    using t1 resolve_shrinks [OF s1 assms(4) u1]
    by (simp add: cap_revoke_stages [OF assms(4,5)] cap_delete_Some)
  have "j \<in> freed t ?t'" if "(i, j) \<in> (derives t)\<^sup>*" for j
    using that
  proof induction
    case (step j k)
    from step(2) have k: "k < AF_CAP_MAX_SLOTS" "0 < k" "slot_used (tbl_slots t ! k)"
      by (simp_all add: derives_def)
    note cmp = revoke_loop_complete [OF t1 assms(1,2)]
    have "\<not> slot_used (tbl_slots t1 ! k)"
    proof
      assume "slot_used (tbl_slots t1 ! k)"
      with k s1 step(2) have d: "(j, k) \<in> derives t1" by (simp add: derives_def shrinks_used)
      from step(3) f consider "j = i" | "j \<in> freed t t1" by auto
      then show False
        using d cmp k r(2) is_child_derives [OF r(2) k(2,1), of t1] by cases auto
    qed
    with k f show ?case by (simp add: freed_def)
  qed (use f in simp)
  moreover have "(i, j) \<in> (derives t)\<^sup>*" if "j \<in> freed t ?t'" for j
    using that f revoke_loop_sound [OF t1 assms(1) _ r(2)] by (auto simp: trancl_into_rtrancl)
  ultimately have exact: "freed t ?t' = (derives t)\<^sup>* `` {i}" by auto
  have "if (i, j) \<in> (derives t)\<^sup>* then \<not> slot_used (tbl_slots ?t' ! j)
      else tbl_slots ?t' ! j = tbl_slots t ! j" if j: "j < AF_CAP_MAX_SLOTS" for j
  proof (cases "(i, j) \<in> (derives t)\<^sup>*")
    case True
    with exact have "j \<in> freed t ?t'" by simp
    with True show ?thesis by (simp add: freed_def)
  next
    case False
    with exact have "j \<notin> freed t ?t'" by simp
    with False j s show ?thesis by (auto simp: freed_def shrinks_def)
  qed
  with run shrinks_wf [OF s] show ?thesis by blast
qed

text \<open>
  (C1) Revocation is transitive, exact and returns. For a live capability that carries
  \<open>AF_RIGHT_REVOKE\<close>, in a table whose derivation links form no cycle and whose live generations
  still fit a handle, \<open>cap_revoke\<close> needs at most 255 nested calls, returns \<open>AF_OK\<close>, frees exactly
  the slot and everything derived from it directly or indirectly, and leaves every other slot
  as it was.
\<close>

theorem cap_revoke_exact:
  assumes "cap_wf t" "fresh_generations t" "acyclic (derives t)"
    and "resolve (Some t) c = Some i"
    and "slot_rights (tbl_slots t ! i) AND AF_RIGHT_REVOKE \<noteq> 0"
  shows "\<exists>t'. cap_revoke 255 (Some t) c = Some (AF_OK, Some t') \<and> cap_wf t' \<and>
    (\<forall>j < AF_CAP_MAX_SLOTS.
       if (i, j) \<in> (derives t)\<^sup>* then \<not> slot_used (tbl_slots t' ! j)
       else tbl_slots t' ! j = tbl_slots t ! j)"
  using assms by (rule revoke_exact)

definition example_slot :: "u32 \<Rightarrow> u16 \<Rightarrow> af_cap_slot" where
  "example_slot rights parent = \<lparr>slot_object = \<lparr>obj_type = AF_OBJECT_FRAME, obj_id = 0x1000\<rparr>,
     slot_rights = rights, slot_generation = 1, slot_parent = parent, slot_used = True\<rparr>"

text \<open>Slot 1 holds every right; 2 is derived from 1 and 3 from 2; 4 is unrelated.\<close>

definition example_table :: af_cap_table where
  "example_table = \<lparr>tbl_slots = (replicate 256 (zero_slot\<lparr>slot_generation := 1\<rparr>))
     [1 := example_slot 127 AF_CAP_NO_PARENT, 2 := example_slot 3 1, 3 := example_slot 1 2,
      4 := example_slot 1 AF_CAP_NO_PARENT], tbl_used = 4\<rparr>"

lemma example_nth:
  "j < 256 \<Longrightarrow> tbl_slots example_table ! j =
     (if j = 1 then example_slot 127 AF_CAP_NO_PARENT else if j = 2 then example_slot 3 1
      else if j = 3 then example_slot 1 2 else if j = 4 then example_slot 1 AF_CAP_NO_PARENT
      else zero_slot\<lparr>slot_generation := 1\<rparr>)"
  by (simp add: example_table_def nth_list_update)

lemma example_wf: "cap_wf example_table"
proof -
  have "length (filter slot_used (tbl_slots example_table)) = 4"
    by (simp add: example_table_def filter_update_set nth_list_update zero_slot_def example_slot_def)
  moreover have "length (tbl_slots example_table) = 256" "tbl_used example_table = 4"
    by (simp_all only: example_table_def af_cap_table.select_convs length_list_update length_replicate)
  ultimately show ?thesis
    unfolding cap_wf_def
    by (auto simp: example_nth zero_slot_def example_slot_def)
qed

lemma example_derives: "derives example_table = {(1, 2), (2, 3)}"
proof -
  have "of_nat p = (1 :: u16) \<longleftrightarrow> p = 1" "of_nat p = (2 :: u16) \<longleftrightarrow> p = 2"
    "of_nat p \<noteq> (0xFFFF :: u16)" if "p < 256" for p
    using that by (simp_all add: word_unat_eq_iff unat_of_nat)
  then show ?thesis
    by (auto simp: derives_def example_nth example_slot_def zero_slot_def split: if_splits)
qed

lemma example_acyclic: "acyclic (derives example_table)"
  by (rule acyclic_subset [OF wf_acyclic [OF wf_less_than]]) (simp add: example_derives)

lemma example_fresh: "fresh_generations example_table"
  by (simp add: fresh_generations_def example_nth example_slot_def zero_slot_def)

lemma example_resolve: "resolve (Some example_table) 0x101 = Some 1"
  by (simp add: resolve_Some_iff unpack_index_def unpack_generation_def example_nth example_slot_def)

lemma cap_revoke_exact_witness:
  "\<exists>t'. cap_revoke 255 (Some example_table) 0x101 = Some (AF_OK, Some t') \<and>
     \<not> slot_used (tbl_slots t' ! 1) \<and> \<not> slot_used (tbl_slots t' ! 3) \<and>
     tbl_slots t' ! 4 = tbl_slots example_table ! 4"
proof -
  have *: "(1, 3) \<in> (derives example_table)\<^sup>*" "(1, 4) \<notin> (derives example_table)\<^sup>*"
    unfolding example_derives by (auto intro: rtrancl_into_rtrancl elim: rtranclE)
  have "slot_rights (tbl_slots example_table ! 1) AND AF_RIGHT_REVOKE \<noteq> 0"
    by (simp add: example_nth example_slot_def)
  from cap_revoke_exact [OF example_wf example_fresh example_acyclic example_resolve this]
  obtain t' where run: "cap_revoke 255 (Some example_table) 0x101 = Some (AF_OK, Some t')"
    and all: "\<And>j. j < AF_CAP_MAX_SLOTS \<Longrightarrow> if (1, j) \<in> (derives example_table)\<^sup>* then \<not> slot_used (tbl_slots t' ! j)
       else tbl_slots t' ! j = tbl_slots example_table ! j" by blast
  show ?thesis using run all [of 1] all [of 3] all [of 4] * by auto
qed

definition stale_parent_run :: "af_cap_table option \<times> u32" where
  "stale_parent_run =
     (let (a, t1) = cap_insert (cap_table_create True) \<lparr>obj_type = AF_OBJECT_FRAME, obj_id = 0x1000\<rparr> 127;
          (_, b, t2) = cap_derive t1 a 127 True;
          (_, t3) = cap_delete t2 a;
          (_, _, t4) = cap_derive t3 (the b) 127 True
      in (t4, the b))"

lemma mutual_parents_loop:
  assumes "is_child t 2 1" "is_child t 1 2"
  shows "revoke_loop fuel t 2 1 r = None \<and> revoke_loop fuel t 1 1 r = None"
proof (induction fuel arbitrary: r)
  case 0
  from assms have "\<not> is_child t 1 1" by (auto simp: is_child_def)
  with assms show ?case by (simp add: revoke_loop_0 revoke_loop_skip numeral_2_eq_2)
next
  case (Suc fuel)
  from assms have "\<not> is_child t 1 1" by (auto simp: is_child_def)
  with assms Suc show ?case by (simp add: revoke_loop_round revoke_loop_skip numeral_2_eq_2)
qed

lemma stale_parent_state:
  "case stale_parent_run of (Some t, b) \<Rightarrow> b = 0x102 \<and> slot_used (tbl_slots t ! 1) \<and> slot_used (tbl_slots t ! 2) \<and>
     slot_generation (tbl_slots t ! 2) = 1 \<and> slot_rights (tbl_slots t ! 2) = 127 \<and>
     slot_parent (tbl_slots t ! 1) = 2 \<and> slot_parent (tbl_slots t ! 2) = 1 | (None, b) \<Rightarrow> False"
  by code_simp

text \<open>
  The recursion of \<open>revoke_children\<close> is not bounded by the table. A program that inserts a
  capability, derives a second from it, deletes the first and derives a third from the second
  gets the freed slot back, so the two remaining slots name each other as parent; revoking
  either one then recurses for ever, whatever the depth of the stack.
\<close>

theorem cap_revoke_stale_parent_diverges:
  "cap_revoke fuel (fst stale_parent_run) (snd stale_parent_run) = None"
proof -
  obtain t where t: "stale_parent_run = (Some t, 0x102)"
    and s: "slot_used (tbl_slots t ! 1)" "slot_used (tbl_slots t ! 2)"
      "slot_generation (tbl_slots t ! 2) = 1" "slot_rights (tbl_slots t ! 2) = 127"
      "slot_parent (tbl_slots t ! 1) = 2" "slot_parent (tbl_slots t ! 2) = 1"
    using stale_parent_state by (cases stale_parent_run) (auto split: option.splits)
  have r: "resolve (Some t) 0x102 = Some 2"
    using s by (simp add: resolve_Some_iff unpack_index_def unpack_generation_def)
  have "is_child t 2 1" "is_child t 1 2" using s by (simp_all add: is_child_def)
  from mutual_parents_loop [OF this] show ?thesis
    using s by (simp add: t cap_revoke_stages [OF r])
qed

section \<open>Runs of operations\<close>

text \<open>
  The table as a state machine. A step is one operation a holder of the table can ask for;
  \<open>cap_shrink_step\<close> leaves out \<open>cap_insert\<close>, which is the kernel granting a new capability.
\<close>

inductive cap_shrink_step :: "af_cap_table \<Rightarrow> af_cap_table \<Rightarrow> bool" where
  step_derive: "cap_derive (Some t) c r out = (rc, h, Some t') \<Longrightarrow> cap_shrink_step t t'"
| step_delete: "cap_delete (Some t) c = (rc, Some t') \<Longrightarrow> cap_shrink_step t t'"
| step_revoke: "cap_revoke fuel (Some t) c = Some (rc, Some t') \<Longrightarrow> cap_shrink_step t t'"

inductive cap_step :: "af_cap_table \<Rightarrow> af_cap_table \<Rightarrow> bool" where
  step_insert: "cap_insert (Some t) obj r = (h, Some t') \<Longrightarrow> cap_step t t'"
| step_other: "cap_shrink_step t t' \<Longrightarrow> cap_step t t'"

inductive_cases cap_shrink_stepE: "cap_shrink_step t t'"
inductive_cases cap_stepE: "cap_step t t'"

text \<open>What a successful derivation does to the table.\<close>

lemma cap_derive_cases:
  assumes wf: "cap_wf t" and run: "cap_derive (Some t) c r out = (rc, h, Some t')"
  shows "t' = t \<or> (\<exists>p i s. resolve (Some t) c = Some p \<and> free_slot t = Some i \<and>
      t' = (set_slot t i s)\<lparr>tbl_used := tbl_used t + 1\<rparr> \<and>
      r AND slot_rights (tbl_slots t ! p) = r \<and> slot_used s \<and> slot_rights s = r \<and>
      slot_object s = slot_object (tbl_slots t ! p) \<and>
      slot_generation s = slot_generation (tbl_slots t ! i))"
proof (cases "t' = t \<or> resolve (Some t) c = None")
  case True
  with run show ?thesis by (auto simp: cap_derive_def)
next
  case False
  then obtain p where p: "resolve (Some t) c = Some p" by auto
  let ?o = "slot_object (tbl_slots t ! p)"
  from False run p obtain i where i: "free_slot t = Some i" and sub: "r AND slot_rights (tbl_slots t ! p) = r"
    and o: "obj_type ?o \<noteq> AF_OBJECT_NONE"
    by (auto simp: cap_derive_def Let_def split: if_splits option.splits)
  note i' = free_slotD [OF i]
  let ?g = "slot_generation (tbl_slots t ! i)"
  let ?s = "(tbl_slots t ! i)\<lparr>slot_object := ?o, slot_rights := r, slot_parent := AF_CAP_NO_PARENT,
    slot_used := True\<rparr>"
  let ?t1 = "(set_slot t i ?s)\<lparr>tbl_used := tbl_used t + 1\<rparr>"
  have res: "resolve (Some ?t1) (pack (of_nat i) ?g) = (if unat ?g < 2 ^ 24 then Some i else None)"
    using i' wf by (subst resolve_pack) auto
  have "t' = ?t1 \<or> t' = set_slot ?t1 i (?s\<lparr>slot_parent := ucast (unpack_index c)\<rparr>)"
    using False run p i sub o res wf i'
    by (auto simp: cap_derive_def Let_def split: if_splits)
  then have "\<exists>s. t' = (set_slot t i s)\<lparr>tbl_used := tbl_used t + 1\<rparr> \<and> slot_used s \<and> slot_rights s = r \<and>
      slot_object s = ?o \<and> slot_generation s = ?g"
  proof
    assume "t' = ?t1"
    then show ?thesis by (intro exI [of _ ?s]) simp
  next
    assume "t' = set_slot ?t1 i (?s\<lparr>slot_parent := ucast (unpack_index c)\<rparr>)"
    then show ?thesis
      by (intro exI [of _ "?s\<lparr>slot_parent := ucast (unpack_index c)\<rparr>"]) (simp add: set_slot_def)
  qed
  with p i sub show ?thesis by blast
qed

lemma cap_revoke_shrinks:
  assumes "cap_wf t" "cap_revoke fuel (Some t) c = Some (rc, tbl')"
  shows "\<exists>t'. tbl' = Some t' \<and> shrinks t t'"
proof (cases "rc = AF_OK")
  case False
  with assms show ?thesis
    by (auto simp: cap_revoke_def shrinks_refl split: option.splits if_splits)
next
  case True
  with assms(2) obtain i n t1 where i: "resolve (Some t) c = Some i"
    and t1: "revoke_loop fuel t (of_nat i) 1 0 = Some (n, t1)"
    and tbl: "tbl' = snd (cap_delete (Some t1) c)"
    by (auto simp: cap_revoke_def revoke_children_def index_of_nat split: option.splits if_splits)
  note s1 = revoke_loop_shrinks [OF t1 assms(1)]
  have "\<exists>t'. tbl' = Some t'"
    using cap_wf_delete [OF shrinks_wf [OF s1], of c] tbl by (cases "cap_delete (Some t1) c") auto
  with shrinks_delete [OF shrinks_wf [OF s1], of c] s1 tbl show ?thesis
    by (auto intro: shrinks_trans)
qed

lemma cap_shrink_step_cases:
  assumes "cap_wf t" "cap_shrink_step t t'"
  obtains (derive) c r out rc h where "cap_derive (Some t) c r out = (rc, h, Some t')"
    | (shrink) "shrinks t t'"
  using assms(2)
proof (cases rule: cap_shrink_step.cases)
  case (step_delete c rc)
  with shrinks_delete [OF assms(1), of c] shrink show thesis by simp
next
  case (step_revoke fuel c rc)
  with cap_revoke_shrinks [OF assms(1)] shrink show thesis by blast
qed (use derive in blast)

lemma cap_shrink_step_wf:
  assumes "cap_shrink_step t t'" "cap_wf t"
  shows "cap_wf t'"
  using assms(2,1) by (rule cap_shrink_step_cases) (use assms(2) in \<open>auto dest: cap_wf_derive shrinks_wf\<close>)

lemma cap_step_wf: "cap_step t t' \<Longrightarrow> cap_wf t \<Longrightarrow> cap_wf t'"
  by (erule cap_stepE) (auto dest: cap_wf_insert cap_shrink_step_wf)

text \<open>
  (C20) The table invariant holds from creation through any sequence of operations: 256 slots, slot
  0 never in use, the used counter equal to the number of used slots, and every used slot naming
  a real object.
\<close>

theorem cap_wf_always:
  assumes "cap_table_create ok = Some t0" and "cap_step\<^sup>*\<^sup>* t0 t"
  shows "cap_wf t"
  using assms(2) by (induction rule: rtranclp_induct) (auto intro: cap_wf_create [OF assms(1)] cap_step_wf)

text \<open>Rule 1. A slot covered by another: same object, and no right the other lacks.\<close>

definition covered :: "af_cap_slot \<Rightarrow> af_cap_table \<Rightarrow> bool" where
  "covered s t \<longleftrightarrow> (\<exists>j < AF_CAP_MAX_SLOTS. slot_used (tbl_slots t ! j) \<and>
     slot_object s = slot_object (tbl_slots t ! j) \<and>
     slot_rights s AND slot_rights (tbl_slots t ! j) = slot_rights s)"

definition no_wider :: "af_cap_table \<Rightarrow> af_cap_table \<Rightarrow> bool" where
  "no_wider t t' \<longleftrightarrow> (\<forall>i < AF_CAP_MAX_SLOTS. slot_used (tbl_slots t' ! i) \<longrightarrow> covered (tbl_slots t' ! i) t)"

lemma no_wider_refl: "no_wider t t"
  by (auto simp: no_wider_def covered_def)

lemma covered_trans:
  assumes "covered s t'" "no_wider t t'"
  shows "covered s t"
proof -
  obtain j where j: "j < AF_CAP_MAX_SLOTS" "slot_used (tbl_slots t' ! j)"
    "slot_object s = slot_object (tbl_slots t' ! j)"
    "slot_rights s AND slot_rights (tbl_slots t' ! j) = slot_rights s"
    using assms(1) unfolding covered_def by blast
  then obtain k where "k < AF_CAP_MAX_SLOTS" "slot_used (tbl_slots t ! k)"
    "slot_object (tbl_slots t' ! j) = slot_object (tbl_slots t ! k)"
    "slot_rights (tbl_slots t' ! j) AND slot_rights (tbl_slots t ! k) = slot_rights (tbl_slots t' ! j)"
    using assms(2) unfolding no_wider_def covered_def by blast
  with j show ?thesis
    unfolding covered_def by (intro exI [of _ k]) (simp add: subset_mask_trans)
qed

lemma no_wider_trans: "no_wider t t' \<Longrightarrow> no_wider t' t'' \<Longrightarrow> no_wider t t''"
  using covered_trans unfolding no_wider_def by blast

lemma covered_self: "j < AF_CAP_MAX_SLOTS \<Longrightarrow> slot_used (tbl_slots t ! j) \<Longrightarrow> covered (tbl_slots t ! j) t"
  unfolding covered_def by auto

lemma no_wider_shrinks: "shrinks t t' \<Longrightarrow> no_wider t t'"
  unfolding no_wider_def by (auto simp: shrinks_used) (metis covered_self shrinks_used)

lemma no_wider_derive:
  assumes "cap_wf t" "cap_derive (Some t) c r out = (rc, h, Some t')"
  shows "no_wider t t'"
  using cap_derive_cases [OF assms]
proof
  assume "t' = t"
  then show ?thesis by (simp add: no_wider_refl)
next
  assume "\<exists>p i s. resolve (Some t) c = Some p \<and> free_slot t = Some i \<and>
      t' = (set_slot t i s)\<lparr>tbl_used := tbl_used t + 1\<rparr> \<and>
      r AND slot_rights (tbl_slots t ! p) = r \<and> slot_used s \<and> slot_rights s = r \<and>
      slot_object s = slot_object (tbl_slots t ! p) \<and>
      slot_generation s = slot_generation (tbl_slots t ! i)"
  then obtain p i s where p: "resolve (Some t) c = Some p" and i: "free_slot t = Some i"
    and t': "t' = (set_slot t i s)\<lparr>tbl_used := tbl_used t + 1\<rparr>"
    and s: "r AND slot_rights (tbl_slots t ! p) = r" "slot_rights s = r"
      "slot_object s = slot_object (tbl_slots t ! p)" by blast
  have "covered s t"
    unfolding covered_def using resolve_SomeD(2,3) [OF p] s by auto
  moreover have "covered (tbl_slots t ! j) t" if "j < AF_CAP_MAX_SLOTS" "slot_used (tbl_slots t ! j)" for j
    using that by (auto simp: covered_def)
  ultimately show ?thesis
    using t' assms(1) free_slotD(2) [OF i] by (auto simp: no_wider_def set_slot_def nth_list_update)
qed

text \<open>
  (C4) Authority only decreases. Whatever sequence of derivations, deletions and revocations a
  process performs, every capability it can look up afterwards names an object, with rights, that
  a capability it held at the start already covered: no operation widens a capability.
\<close>

theorem cap_authority_never_grows:
  assumes "cap_wf t" "cap_shrink_step\<^sup>*\<^sup>* t t'"
    and "cap_lookup (Some t') c required = (AF_OK, Some obj)"
  shows "\<exists>j < AF_CAP_MAX_SLOTS. slot_used (tbl_slots t ! j) \<and> slot_object (tbl_slots t ! j) = obj \<and>
     slot_rights (tbl_slots t ! j) AND required = required"
proof -
  from assms(2) have "cap_wf t' \<and> no_wider t t'"
  proof (induction rule: rtranclp_induct)
    case base
    from assms(1) show ?case by (simp add: no_wider_refl)
  next
    case (step t1 t2)
    then have "no_wider t1 t2"
      by (auto elim!: cap_shrink_step_cases [rotated] intro: no_wider_derive no_wider_shrinks)
    with step show ?case by (blast intro: no_wider_trans cap_shrink_step_wf)
  qed
  moreover from assms(3) obtain i where i: "resolve (Some t') c = Some i"
    and r: "slot_rights (tbl_slots t' ! i) AND required = required" "slot_object (tbl_slots t' ! i) = obj"
    by (auto simp: cap_lookup_def Let_def split: option.splits if_splits)
  ultimately obtain j where j: "j < AF_CAP_MAX_SLOTS" "slot_used (tbl_slots t ! j)"
    "slot_object (tbl_slots t ! j) = obj"
    "slot_rights (tbl_slots t' ! i) AND slot_rights (tbl_slots t ! j) = slot_rights (tbl_slots t' ! i)"
    using resolve_SomeD(2,3) [OF i] by (force simp: no_wider_def covered_def)
  have "required AND slot_rights (tbl_slots t' ! i) = required"
    using r(1) by (simp add: and.commute)
  from subset_mask_trans [OF this j(4)]
  have "required AND slot_rights (tbl_slots t ! j) = required" .
  with j show ?thesis by (auto simp: and.commute)
qed

section \<open>Handles over time\<close>

lemma shrinks_generation:
  "shrinks t t' \<Longrightarrow> j < AF_CAP_MAX_SLOTS \<Longrightarrow>
     slot_generation (tbl_slots t' ! j) = slot_generation (tbl_slots t ! j) \<or>
     slot_generation (tbl_slots t' ! j) = slot_generation (tbl_slots t ! j) + 1"
  unfolding shrinks_def by (metis cleared_slot_simps(2))

lemma cap_insert_eq:
  "free_slot t = Some i \<Longrightarrow> obj_type obj \<noteq> AF_OBJECT_NONE \<Longrightarrow>
     cap_insert (Some t) obj r = (pack (of_nat i) (slot_generation (tbl_slots t ! i)),
       Some ((set_slot t i ((tbl_slots t ! i)\<lparr>slot_object := obj, slot_rights := r,
          slot_parent := AF_CAP_NO_PARENT, slot_used := True\<rparr>))\<lparr>tbl_used := tbl_used t + 1\<rparr>))"
  by (simp add: Let_def)

lemma cap_insert_cases:
  assumes "cap_insert (Some t) obj r = (h, Some t')"
  shows "t' = t \<or> (\<exists>i. free_slot t = Some i \<and>
     t' = (set_slot t i ((tbl_slots t ! i)\<lparr>slot_object := obj, slot_rights := r,
          slot_parent := AF_CAP_NO_PARENT, slot_used := True\<rparr>))\<lparr>tbl_used := tbl_used t + 1\<rparr>)"
  using assms by (auto simp: Let_def split: if_splits option.splits)

lemma cap_step_generation:
  assumes "cap_step t t'" "cap_wf t" "j < AF_CAP_MAX_SLOTS"
  shows "slot_generation (tbl_slots t' ! j) = slot_generation (tbl_slots t ! j) \<or>
    slot_generation (tbl_slots t' ! j) = slot_generation (tbl_slots t ! j) + 1"
  using assms(1)
proof (cases rule: cap_step.cases)
  case (step_insert obj r h)
  from cap_insert_cases [OF this] show ?thesis
    using assms(2) free_slotD(2) by (auto simp: set_slot_def nth_list_update)
next
  case step_other
  from assms(2) this show ?thesis
  proof (cases rule: cap_shrink_step_cases)
    case (derive c r out rc h)
    from cap_derive_cases [OF assms(2) this] show ?thesis
      using assms(2) free_slotD(2) by (auto simp: set_slot_def nth_list_update)
  qed (rule shrinks_generation [OF _ assms(3)])
qed

lemma cap_steps_generation:
  "(cap_step ^^ n) t t' \<Longrightarrow> cap_wf t \<Longrightarrow> j < AF_CAP_MAX_SLOTS \<Longrightarrow>
     \<exists>k \<le> n. slot_generation (tbl_slots t' ! j) = slot_generation (tbl_slots t ! j) + of_nat k"
proof (induction n arbitrary: t)
  case 0
  then show ?case by simp
next
  case (Suc n)
  then obtain t1 where t1: "cap_step t t1" "(cap_step ^^ n) t1 t'" by (metis relpowp_Suc_D2)
  from Suc.IH [OF t1(2) cap_step_wf [OF t1(1) Suc.prems(2)] Suc.prems(3)] obtain k where
    "k \<le> n" "slot_generation (tbl_slots t' ! j) = slot_generation (tbl_slots t1 ! j) + of_nat k" by blast
  with cap_step_generation [OF t1(1) Suc.prems(2,3)] show ?case
    by (auto intro: exI [of _ k] exI [of _ "Suc k"] simp: algebra_simps)
qed

lemma cap_delete_okD:
  "cap_delete (Some t) c = (AF_OK, Some t') \<Longrightarrow> \<exists>i. resolve (Some t) c = Some i \<and> t' = clear_slot t i"
  by (auto simp: cap_delete_def split: option.splits)

declare cap_insert.simps(2) [simp del]

text \<open>
  (C7) A stale handle stays dead. Once a handle has been deleted, no sequence of fewer than
  \<open>2^32 - 1\<close> further operations of any kind (insertions into the recycled slot included) makes a
  lookup of it succeed: it keeps returning \<open>AF_ERR_CAP_INVALID\<close>, whatever rights are asked for.
\<close>

theorem stale_handle_never_resolves:
  assumes "cap_wf t" "cap_delete (Some t) c = (AF_OK, Some t1)"
    and "(cap_step ^^ n) t1 t2" "n < 2 ^ 32 - 1"
  shows "cap_lookup (Some t2) c required = (AF_ERR_CAP_INVALID, None)"
proof -
  obtain i where i: "resolve (Some t) c = Some i" and t1: "t1 = clear_slot t i"
    using cap_delete_okD [OF assms(2)] by blast
  note r = resolve_SomeD [OF i]
  have wf1: "cap_wf t1" using assms(1) r(2,3) by (simp add: t1 cap_wf_clear_slot)
  have g1: "slot_generation (tbl_slots t1 ! i) = unpack_generation c + 1"
    using assms(1) r by (simp add: t1 clear_slot_nth)
  from cap_steps_generation [OF assms(3) wf1 r(2)] obtain k where
    "k \<le> n" and g2: "slot_generation (tbl_slots t2 ! i) = unpack_generation c + of_nat (Suc k)"
    using g1 by (auto simp: algebra_simps)
  have "unat (of_nat (Suc k) :: u32) = Suc k"
    using \<open>k \<le> n\<close> assms(4) by (simp add: unat_of_nat del: of_nat_Suc)
  then have "(of_nat (Suc k) :: u32) \<noteq> 0" by (metis unat_0 nat.distinct(1))
  with g2 have "slot_generation (tbl_slots t2 ! i) \<noteq> unpack_generation c" by simp
  with r(4) have "resolve (Some t2) c = None"
    by (cases "resolve (Some t2) c") (auto dest: resolve_SomeD(4,5))
  then show ?thesis by (simp add: cap_lookup_def)
qed

lemma free_slot_exists:
  "0 < i \<Longrightarrow> i < AF_CAP_MAX_SLOTS \<Longrightarrow> \<not> slot_used (tbl_slots t ! i) \<Longrightarrow> \<exists>j. free_slot t = Some j"
  by (cases "free_slot t") (auto dest: free_slot_NoneD)

text \<open>Lookup in terms of the slot a handle resolves to.\<close>

lemma cap_lookup_eq:
  "resolve (Some t) c = Some i \<Longrightarrow> cap_lookup (Some t) c required =
     (if slot_rights (tbl_slots t ! i) AND required = required
      then (AF_OK, Some (slot_object (tbl_slots t ! i))) else (AF_ERR_PERM, None))"
  by (simp add: cap_lookup_def Let_def)

text \<open>
  Insertion round-trips. With a free slot whose generation fits a handle, \<open>cap_insert\<close>
  returns a non-zero handle that did not resolve before; looking it up gives back exactly the
  inserted object for exactly the rights granted and \<open>AF_ERR_PERM\<close> for any other request; and
  every capability held before is looked up as before.
\<close>

theorem cap_insert_lookup:
  assumes "cap_wf t" "obj_type obj \<noteq> AF_OBJECT_NONE"
    and "0 < i" "i < AF_CAP_MAX_SLOTS" "\<not> slot_used (tbl_slots t ! i)"
    and "\<forall>j < AF_CAP_MAX_SLOTS. unat (slot_generation (tbl_slots t ! j)) < 2 ^ 24"
  shows "\<exists>h t'. cap_insert (Some t) obj rights = (h, Some t') \<and> h \<noteq> AF_CAP_INVALID \<and>
    cap_lookup (Some t) h 0 = (AF_ERR_CAP_INVALID, None) \<and>
    (\<forall>required. cap_lookup (Some t') h required =
       (if rights AND required = required then (AF_OK, Some obj) else (AF_ERR_PERM, None))) \<and>
    (\<forall>c required. resolve (Some t) c \<noteq> None \<longrightarrow>
       cap_lookup (Some t') c required = cap_lookup (Some t) c required)"
proof -
  obtain j where j: "free_slot t = Some j" using free_slot_exists [OF assms(3-5)] by blast
  note j' = free_slotD [OF j]
  let ?g = "slot_generation (tbl_slots t ! j)"
  let ?s = "(tbl_slots t ! j)\<lparr>slot_object := obj, slot_rights := rights,
          slot_parent := AF_CAP_NO_PARENT, slot_used := True\<rparr>"
  let ?t' = "(set_slot t j ?s)\<lparr>tbl_used := tbl_used t + 1\<rparr>"
  let ?h = "pack (of_nat j) ?g"
  have new: "resolve (Some ?t') ?h = Some j"
    using assms(1,6) j' by (subst resolve_pack) auto
  then have "?h \<noteq> AF_CAP_INVALID" by (auto simp: resolve.simps)
  moreover have "resolve (Some t) ?h = None"
    using j'(2,3) resolve_SomeD(3,4) [of t ?h] by (cases "resolve (Some t) ?h") auto
  moreover have "resolve (Some ?t') c = Some k \<and> tbl_slots ?t' ! k = tbl_slots t ! k"
    if "resolve (Some t) c = Some k" for c k
    using that j'(3) resolve_SomeD(3) [OF that]
    by (cases "k = j") (auto simp: resolve_Some_iff)
  ultimately show ?thesis
    using assms(1,2) j' new
    by (intro exI [of _ ?h] exI [of _ ?t'])
      (auto simp: cap_insert_eq [OF j] cap_lookup_eq cap_lookup_def [of "Some t" ?h])
qed

text \<open>
  A slot whose generation has outgrown the handle is lost. After \<open>2^24\<close> reuses the handle
  \<open>cap_insert\<close> returns cannot be resolved, so the new capability can be neither used nor deleted,
  and the slot stays occupied.
\<close>

theorem cap_insert_dead_handle:
  assumes "cap_wf t" "obj_type obj \<noteq> AF_OBJECT_NONE" "free_slot t = Some i"
    and "2 ^ 24 \<le> unat (slot_generation (tbl_slots t ! i))"
  shows "\<exists>h t'. cap_insert (Some t) obj rights = (h, Some t') \<and> slot_used (tbl_slots t' ! i) \<and>
    cap_lookup (Some t') h 0 = (AF_ERR_CAP_INVALID, None) \<and>
    cap_delete (Some t') h = (AF_ERR_CAP_INVALID, Some t')"
proof -
  note i = free_slotD [OF assms(3)]
  let ?s = "(tbl_slots t ! i)\<lparr>slot_object := obj, slot_rights := rights,
          slot_parent := AF_CAP_NO_PARENT, slot_used := True\<rparr>"
  let ?t' = "(set_slot t i ?s)\<lparr>tbl_used := tbl_used t + 1\<rparr>"
  have "resolve (Some ?t') (pack (of_nat i) (slot_generation (tbl_slots t ! i))) = None"
    using assms(1,4) i by (subst resolve_pack) auto
  with assms(1) i show ?thesis
    by (simp add: cap_insert_eq [OF assms(3,2)] cap_lookup_def cap_delete_def)
qed

section \<open>Orphans\<close>

lemma no_parent_word: "p < AF_CAP_MAX_SLOTS \<Longrightarrow> (of_nat p :: u16) \<noteq> AF_CAP_NO_PARENT"
  by (simp add: word_unat_eq_iff unat_of_nat)

lemma derives_fill_root:
  assumes "cap_wf t" "i < AF_CAP_MAX_SLOTS" "slot_parent s = AF_CAP_NO_PARENT"
    "\<not> slot_used (tbl_slots t ! i)"
  shows "derives ((set_slot t i s)\<lparr>tbl_used := n\<rparr>) = derives t"
  using assms by (auto simp: derives_def set_slot_def nth_list_update no_parent_word no_parent_word [symmetric])

lemma revoke_reaches_children:
  assumes "cap_wf t" "fresh_generations t" "acyclic (derives t)"
    and "resolve (Some t) c = Some i" "slot_rights (tbl_slots t ! i) AND AF_RIGHT_REVOKE \<noteq> 0"
    and "(i, q) \<in> derives t"
  shows "\<exists>t'. cap_revoke 255 (Some t) c = Some (AF_OK, Some t') \<and> \<not> slot_used (tbl_slots t' ! q)"
proof -
  have "q < AF_CAP_MAX_SLOTS" using assms(6) by (simp add: derives_def)
  with revoke_exact [OF assms(1-5)] assms(6) show ?thesis by (auto dest: r_into_rtrancl)
qed

text \<open>
  A recycled slot adopts the previous occupant's orphans. When slot \<open>i\<close> is the next free one
  and a live capability \<open>q\<close> still names it as parent (its real parent was deleted, not revoked),
  inserting an unrelated capability and revoking just that one also destroys \<open>q\<close>.
\<close>

theorem cap_revoke_adopts_orphans:
  assumes "cap_wf t" "fresh_generations t" "acyclic (derives t)"
    and "free_slot t = Some i" "unat (slot_generation (tbl_slots t ! i)) < 2 ^ 24"
    and "(i, q) \<in> derives t"
    and "obj_type obj \<noteq> AF_OBJECT_NONE" "rights AND AF_RIGHT_REVOKE \<noteq> 0"
  shows "\<exists>h t1 t2. cap_insert (Some t) obj rights = (h, Some t1) \<and>
    tbl_slots t1 ! q = tbl_slots t ! q \<and>
    cap_revoke 255 (Some t1) h = Some (AF_OK, Some t2) \<and> \<not> slot_used (tbl_slots t2 ! q)"
proof -
  note i = free_slotD [OF assms(4)]
  let ?g = "slot_generation (tbl_slots t ! i)"
  let ?s = "(tbl_slots t ! i)\<lparr>slot_object := obj, slot_rights := rights,
          slot_parent := AF_CAP_NO_PARENT, slot_used := True\<rparr>"
  let ?t1 = "(set_slot t i ?s)\<lparr>tbl_used := tbl_used t + 1\<rparr>"
  have wf: "cap_wf ?t1" using assms(1,7) i by (intro cap_wf_fill) auto
  have der: "derives ?t1 = derives t" using assms(1) i by (intro derives_fill_root) auto
  have fresh: "fresh_generations ?t1"
    using assms(1,2,5) i(2) by (auto simp: fresh_generations_def set_slot_def nth_list_update)
  have res: "resolve (Some ?t1) (pack (of_nat i) ?g) = Some i"
    using assms(1,5) i by (subst resolve_pack) auto
  have "i \<noteq> q" using assms(6) i(3) by (auto simp: derives_def)
  moreover have "slot_rights (tbl_slots ?t1 ! i) AND AF_RIGHT_REVOKE \<noteq> 0"
    using assms(1,8) i by simp
  ultimately show ?thesis
    using revoke_reaches_children [OF wf fresh _ res, of q] der assms(3,6)
    by (auto simp: cap_insert_eq [OF assms(4,7)])
qed

section \<open>Witnesses\<close>

lemma example_free: "free_slot example_table = Some 5"
  by code_simp

lemma example_insert_eval:
  "case cap_delete (Some example_table) 0x104 of
     (rc, Some t1) \<Rightarrow> rc = AF_OK \<and>
       (case cap_insert (Some t1) \<lparr>obj_type = AF_OBJECT_IRQ, obj_id = 9\<rparr> 7 of
          (h, Some t2) \<Rightarrow> h = 0x204 | (h, None) \<Rightarrow> False)
   | (rc, None) \<Rightarrow> False"
  by code_simp

lemma stale_handle_never_resolves_witness:
  "\<exists>t1 t2. cap_delete (Some example_table) 0x104 = (AF_OK, Some t1) \<and>
     cap_insert (Some t1) \<lparr>obj_type = AF_OBJECT_IRQ, obj_id = 9\<rparr> 7 = (0x204, Some t2) \<and>
     cap_lookup (Some t2) 0x104 0 = (AF_ERR_CAP_INVALID, None)"
proof -
  obtain t1 where t1: "cap_delete (Some example_table) 0x104 = (AF_OK, Some t1)"
    using example_insert_eval by (cases "cap_delete (Some example_table) 0x104") (auto split: option.splits)
  then obtain t2 where
    t2: "cap_insert (Some t1) \<lparr>obj_type = AF_OBJECT_IRQ, obj_id = 9\<rparr> 7 = (0x204, Some t2)"
    using example_insert_eval
    by (cases "cap_insert (Some t1) \<lparr>obj_type = AF_OBJECT_IRQ, obj_id = 9\<rparr> 7") (auto split: option.splits)
  have "(cap_step ^^ 1) t1 t2" using step_insert [OF t2] by (auto simp: relcompp_apply)
  from stale_handle_never_resolves [OF example_wf t1 this] t1 t2 show ?thesis by auto
qed

lemma cap_wf_always_witness:
  "\<exists>t. cap_step\<^sup>*\<^sup>* (the (cap_table_create True)) t \<and> tbl_used t = 1 \<and> cap_wf t"
proof -
  let ?t0 = "the (cap_table_create True)" and ?obj = "\<lparr>obj_type = AF_OBJECT_IRQ, obj_id = 9\<rparr>"
  have t0: "cap_table_create True = Some ?t0" by (simp add: cap_table_create_def)
  have "case cap_insert (Some ?t0) ?obj 7 of (h, Some t) \<Rightarrow> tbl_used t = 1 | (h, None) \<Rightarrow> False"
    by code_simp
  then obtain h t where t: "cap_insert (Some ?t0) ?obj 7 = (h, Some t)" "tbl_used t = 1"
    by (auto split: prod.splits option.splits)
  from step_insert [OF t(1)] have "cap_step\<^sup>*\<^sup>* ?t0 t" by simp
  with cap_wf_always [OF t0 this] t(2) show ?thesis by blast
qed

lemma cap_authority_never_grows_witness:
  "\<exists>t'. cap_shrink_step\<^sup>*\<^sup>* example_table t' \<and>
     cap_lookup (Some t') 0x105 3 = (AF_OK, Some \<lparr>obj_type = AF_OBJECT_FRAME, obj_id = 0x1000\<rparr>) \<and>
     (\<exists>j < 256. slot_used (tbl_slots example_table ! j) \<and>
        slot_rights (tbl_slots example_table ! j) AND 3 = 3)"
proof -
  have "case cap_derive (Some example_table) 0x101 3 True of
      (rc, h, Some t') \<Rightarrow> cap_lookup (Some t') 0x105 3 = (AF_OK, Some \<lparr>obj_type = AF_OBJECT_FRAME, obj_id = 0x1000\<rparr>)
    | (rc, h, None) \<Rightarrow> False"
    by code_simp
  then obtain rc h t' where d: "cap_derive (Some example_table) 0x101 3 True = (rc, h, Some t')"
    and l: "cap_lookup (Some t') 0x105 3 = (AF_OK, Some \<lparr>obj_type = AF_OBJECT_FRAME, obj_id = 0x1000\<rparr>)"
    by (auto split: prod.splits option.splits)
  from step_derive [OF d] have s: "cap_shrink_step\<^sup>*\<^sup>* example_table t'" by simp
  from cap_authority_never_grows [OF example_wf s l] s l show ?thesis by blast
qed

lemma cap_insert_lookup_witness:
  "\<exists>h t'. cap_insert (Some example_table) \<lparr>obj_type = AF_OBJECT_IRQ, obj_id = 9\<rparr> 7 = (h, Some t') \<and>
     cap_lookup (Some t') h 8 = (AF_ERR_PERM, None) \<and>
     cap_lookup (Some t') h 5 = (AF_OK, Some \<lparr>obj_type = AF_OBJECT_IRQ, obj_id = 9\<rparr>)"
proof -
  have "\<forall>j < AF_CAP_MAX_SLOTS. unat (slot_generation (tbl_slots example_table ! j)) < 2 ^ 24"
    by (simp add: example_nth example_slot_def)
  from cap_insert_lookup [OF example_wf _ _ _ _ this, of "\<lparr>obj_type = AF_OBJECT_IRQ, obj_id = 9\<rparr>" 5 7]
  obtain h t' where "cap_insert (Some example_table) \<lparr>obj_type = AF_OBJECT_IRQ, obj_id = 9\<rparr> 7 = (h, Some t')"
    "\<And>required. cap_lookup (Some t') h required = (if 7 AND required = required
       then (AF_OK, Some \<lparr>obj_type = AF_OBJECT_IRQ, obj_id = 9\<rparr>) else (AF_ERR_PERM, None))"
    by (auto simp: example_nth zero_slot_def)
  then show ?thesis by (intro exI [of _ h] exI [of _ t']) simp
qed

definition worn_table :: af_cap_table where
  "worn_table = set_slot example_table 5 (zero_slot\<lparr>slot_generation := 0x1000000\<rparr>)"

lemma cap_insert_dead_handle_witness:
  "\<exists>h t'. cap_insert (Some worn_table) \<lparr>obj_type = AF_OBJECT_IRQ, obj_id = 9\<rparr> 7 = (h, Some t') \<and>
     slot_used (tbl_slots t' ! 5) \<and> cap_delete (Some t') h = (AF_ERR_CAP_INVALID, Some t')"
proof -
  have wf: "cap_wf worn_table"
    unfolding worn_table_def by (rule cap_wf_relabel [OF example_wf]) (simp_all add: example_nth zero_slot_def)
  have "free_slot worn_table = Some 5" by code_simp
  moreover have "tbl_slots worn_table ! 5 = zero_slot\<lparr>slot_generation := 0x1000000\<rparr>"
    by (simp add: worn_table_def cap_wf_length [OF example_wf])
  ultimately show ?thesis
    using cap_insert_dead_handle [OF wf, of "\<lparr>obj_type = AF_OBJECT_IRQ, obj_id = 9\<rparr>" 5 7] by auto
qed

text \<open>Slot 1 of the example deleted: slot 2 is its orphan.\<close>

lemma cap_revoke_adopts_orphans_witness:
  "\<exists>h t1 t2. cap_insert (Some (clear_slot example_table 1)) \<lparr>obj_type = AF_OBJECT_IRQ, obj_id = 9\<rparr> 16
       = (h, Some t1) \<and> slot_used (tbl_slots t1 ! 2) \<and>
     cap_revoke 255 (Some t1) h = Some (AF_OK, Some t2) \<and> \<not> slot_used (tbl_slots t2 ! 2)"
proof -
  let ?t = "clear_slot example_table 1"
  have u: "slot_used (tbl_slots example_table ! 1)" by (simp add: example_nth example_slot_def)
  note sh = shrinks_clear_slot [OF example_wf _ u]
  have nth: "tbl_slots ?t ! j = (if j = 1 then cleared_slot (example_slot 127 AF_CAP_NO_PARENT)
      else tbl_slots example_table ! j)" for j
    by (simp add: clear_slot_nth cap_wf_length [OF example_wf] example_nth)
  have 2: "slot_used (tbl_slots ?t ! 2)" "(1, 2) \<in> derives ?t"
    by (simp_all add: nth [unfolded One_nat_def] example_nth derives_def example_slot_def)
  have "free_slot ?t = Some 1" by code_simp
  moreover have "unat (slot_generation (tbl_slots ?t ! 1)) < 2 ^ 24"
    by (simp add: nth [unfolded One_nat_def] example_slot_def)
  ultimately show ?thesis
    using cap_revoke_adopts_orphans [OF _ fresh_generations_shrinks [OF _ example_fresh]
        acyclic_shrinks [OF _ example_acyclic], of ?t 1 2 "\<lparr>obj_type = AF_OBJECT_IRQ, obj_id = 9\<rparr>" 16]
      sh 2 shrinks_wf by auto
qed

section \<open>The interface the other components use\<close>

text \<open>
  A component that checks authority only needs this of a lookup: it succeeds exactly on handles that
  name an object with enough rights, it names one object per handle, and a failure names none.
\<close>

locale authority =
  fixes lookup :: "'t \<Rightarrow> u32 \<Rightarrow> u32 \<Rightarrow> af_status \<times> af_object option"
    and holds :: "'t \<Rightarrow> u32 \<Rightarrow> af_object \<Rightarrow> u32 \<Rightarrow> bool"
  assumes lookup_iff: "lookup t c r = (AF_OK, Some obj) \<longleftrightarrow> (\<exists>rights. holds t c obj rights \<and> rights AND r = r)"
    and holds_unique: "holds t c obj rights \<Longrightarrow> holds t c obj' rights' \<Longrightarrow> obj' = obj \<and> rights' = rights"
    and lookup_status: "lookup t c r = (rc, res) \<Longrightarrow> rc = AF_OK \<longleftrightarrow> res \<noteq> None"
begin

lemma lookup_cases:
  obtains (granted) obj rights where "lookup t c r = (AF_OK, Some obj)" "holds t c obj rights" "rights AND r = r"
  | (refused) rc where "lookup t c r = (rc, None)" "rc \<noteq> AF_OK"
proof (cases "lookup t c r")
  case (Pair rc res)
  with lookup_status [OF Pair] lookup_iff [of t c r] granted refused show thesis
    by (cases res) auto
qed

lemma lookup_fewer: "lookup t c r = (AF_OK, Some obj) \<Longrightarrow> r' AND r = r' \<Longrightarrow> lookup t c r' = (AF_OK, Some obj)"
  unfolding lookup_iff by (metis and.commute subset_mask_trans)

lemma lookup_both:
  assumes "lookup t c r = (AF_OK, Some obj)" "lookup t c r' = (AF_OK, Some obj')"
  shows "obj' = obj \<and> lookup t c (r OR r') = (AF_OK, Some obj)"
proof -
  obtain x y where xy: "holds t c obj x" "x AND r = r" "holds t c obj' y" "y AND r' = r'"
    using assms unfolding lookup_iff by blast
  with holds_unique [OF xy(1,3)] have "obj' = obj" "x AND r' = r'" by simp_all
  moreover have "x AND (r OR r') = r OR r'" using xy(2) \<open>x AND r' = r'\<close> by (simp add: and.commute bit.conj_disj_distrib)
  ultimately show ?thesis using xy(1) lookup_iff by blast
qed

end

definition cap_holds :: "af_cap_table option \<Rightarrow> u32 \<Rightarrow> af_object \<Rightarrow> u32 \<Rightarrow> bool" where
  "cap_holds table cap obj rights \<longleftrightarrow>
     (case resolve table cap of
        None \<Rightarrow> False
      | Some i \<Rightarrow> slot_object (tbl_slots (the table) ! i) = obj \<and> slot_rights (tbl_slots (the table) ! i) = rights)"

interpretation caps: authority cap_lookup cap_holds
  by unfold_locales (auto simp: cap_lookup_def cap_holds_def Let_def split: option.splits if_splits)

end
