(* ===== verification/Thread.thy ===== *)
theory Thread
  imports Cap
begin

text \<open>
  Thread and process objects (\<open>thread.h\<close>, \<open>process.h\<close>), the scheduler's static state
  (\<open>sched.c\<close>) and the thread table (\<open>kernel/core/thread.c\<close>).

  A thread pointer is a \<open>tptr\<close> and the objects live in a store from pointers to records. The
  intrusive lists the C code threads through \<open>next\<close>, \<open>wait_next\<close> and \<open>process_next\<close> are lists
  of pointers here; theory \<open>Chain\<close> has the pointer-level operations and shows that they
  implement the list ones. Effects on components modelled elsewhere are recorded as they are
  issued: stacks handed back to the frame allocator, address spaces
  destroyed, thread objects handed back to the heap.
\<close>

section \<open>Objects\<close>

type_synonym tptr = nat
type_synonym pslot = nat

datatype af_thread_state =
    AF_THREAD_FREE
  | AF_THREAD_CREATED
  | AF_THREAD_RUNNABLE
  | AF_THREAD_RUNNING
  | AF_THREAD_BLOCKED
  | AF_THREAD_SLEEPING
  | AF_THREAD_ZOMBIE
  | AF_THREAD_DEAD

text \<open>
  What a thread may be blocked on: the only objects the kernel passes to \<open>sched_block\<close> are
  processes (by table slot) and endpoints (by table slot).
\<close>

datatype wait_object = WaitProcess nat | WaitEndpoint nat

record af_context =
  ctx_rbx :: u64
  ctx_rbp :: u64
  ctx_r12 :: u64
  ctx_r13 :: u64
  ctx_r14 :: u64
  ctx_r15 :: u64
  ctx_rsp :: u64
  ctx_rip :: u64

record af_thread =
  th_context :: af_context
  th_tid :: u32
  th_state :: af_thread_state
  th_priority :: u8
  th_time_slice :: u32
  th_stack_base :: u64
  th_stack_size :: u32
  th_wake_tick :: u64
  th_total_ticks :: u64
  th_switches :: u64
  th_wait_obj :: "wait_object option"
  th_name :: string
  th_process :: "pslot option"

datatype af_process_state =
    AF_PROCESS_FREE
  | AF_PROCESS_ALIVE
  | AF_PROCESS_ZOMBIE
  | AF_PROCESS_DEAD

record af_process =
  pr_pid :: u32
  pr_state :: af_process_state
  pr_parent :: u32
  pr_addr_space :: u64
  pr_threads :: "tptr list"
  pr_thread_count :: u32
  pr_exit_code :: u32
  pr_waiter :: "tptr option"
  pr_created_tick :: u64
  pr_name :: string
  pr_caps :: "af_cap_table option"

text \<open>
  The static state of \<open>thread.c\<close>, \<open>sched.c\<close> and \<open>process.c\<close>. \<open>cr3\<close> is the hardware register
  \<open>hal_set_page_table\<close> writes. \<open>th_cur\<close> is \<open>thread.c\<close>'s own \<open>s_current\<close>, kept in step by
  \<open>thread_set_current\<close>.
\<close>

record kstate =
  threads :: "tptr \<Rightarrow> af_thread"
  s_threads :: "tptr option list"
  s_thread_count :: u32
  th_cur :: "tptr option"
  runq :: "tptr list list"
  runq_len :: "u32 list"
  s_current :: "tptr option"
  s_idle :: "tptr option"
  s_ticks :: u64
  s_switches :: u64
  s_need_resched :: bool
  s_kernel_root :: u64
  s_last_installed :: u64
  s_zombies :: "tptr list"
  cr3 :: u64
  freed_stacks :: "(u64 \<times> u32) list"
  s_table :: "af_process list"
  s_live :: u32
  s_next_pid :: u32
  destroyed_spaces :: "u64 list"
  kfreed :: "tptr list"

abbreviation (input) "AF_MAX_THREADS \<equiv> (1024 :: nat)"
abbreviation (input) "AF_MAX_PROCESSES \<equiv> (256 :: nat)"
abbreviation (input) "AF_PRIO_LEVELS \<equiv> (8 :: nat)"
abbreviation (input) "AF_PRIO_DEFAULT \<equiv> (4 :: u8)"
abbreviation (input) "AF_PRIO_IDLE \<equiv> (7 :: u8)"
abbreviation (input) "AF_TIME_SLICE_TICKS \<equiv> (2 :: u32)"
abbreviation (input) "AF_PAGE_SIZE \<equiv> (4096 :: u64)"
abbreviation (input) "AF_KERNEL_STACK_SIZE \<equiv> (16384 :: u64)"

definition upd_thread :: "tptr \<Rightarrow> (af_thread \<Rightarrow> af_thread) \<Rightarrow> 'a kstate_scheme \<Rightarrow> 'a kstate_scheme" where
  "upd_thread t f s = s\<lparr>threads := (threads s)(t := f (threads s t))\<rparr>"

definition upd_process :: "pslot \<Rightarrow> (af_process \<Rightarrow> af_process) \<Rightarrow> 'a kstate_scheme \<Rightarrow> 'a kstate_scheme" where
  "upd_process p f s = s\<lparr>s_table := (s_table s)[p := f (s_table s ! p)]\<rparr>"

section \<open>The thread table\<close>

definition thread_current :: "'a kstate_scheme \<Rightarrow> tptr option" where
  "thread_current s = th_cur s"

definition thread_set_current :: "tptr option \<Rightarrow> 'a kstate_scheme \<Rightarrow> 'a kstate_scheme" where
  "thread_set_current t s = s\<lparr>th_cur := t\<rparr>"

definition thread_by_tid :: "'a kstate_scheme \<Rightarrow> u32 \<Rightarrow> tptr option" where
  "thread_by_tid s tid =
     (if tid = 0 \<or> of_nat AF_MAX_THREADS < tid then None else s_threads s ! unat (tid - 1))"

definition thread_count :: "'a kstate_scheme \<Rightarrow> u32" where
  "thread_count s = s_thread_count s"

definition thread_live_count :: "'a kstate_scheme \<Rightarrow> nat" where
  "thread_live_count s =
     length (filter (\<lambda>e. case e of None \<Rightarrow> False | Some t \<Rightarrow> th_state (threads s t) \<noteq> AF_THREAD_DEAD)
       (s_threads s))"

fun thread_state_name :: "af_thread_state \<Rightarrow> string" where
  "thread_state_name AF_THREAD_FREE = ''free''"
| "thread_state_name AF_THREAD_CREATED = ''created''"
| "thread_state_name AF_THREAD_RUNNABLE = ''runnable''"
| "thread_state_name AF_THREAD_RUNNING = ''running''"
| "thread_state_name AF_THREAD_BLOCKED = ''blocked''"
| "thread_state_name AF_THREAD_SLEEPING = ''sleeping''"
| "thread_state_name AF_THREAD_ZOMBIE = ''zombie''"
| "thread_state_name AF_THREAD_DEAD = ''dead''"

definition register_thread :: "tptr \<Rightarrow> 'a kstate_scheme \<Rightarrow> u32 \<times> 'a kstate_scheme" where
  "register_thread t s =
     (case find (\<lambda>i. s_threads s ! i = None) [0..<AF_MAX_THREADS] of
        None \<Rightarrow> (0, s)
      | Some i \<Rightarrow>
          let tid = of_nat (i + 1);
              s1 = s\<lparr>s_threads := (s_threads s)[i := Some t]\<rparr>;
              s2 = upd_thread t (\<lambda>th. th\<lparr>th_tid := tid\<rparr>) s1
          in (tid, s2\<lparr>s_thread_count := s_thread_count s2 + 1\<rparr>))"

definition unregister_thread :: "tptr \<Rightarrow> 'a kstate_scheme \<Rightarrow> 'a kstate_scheme" where
  "unregister_thread t s =
     (let tid = th_tid (threads s t) in
      if tid = 0 \<or> of_nat AF_MAX_THREADS < tid then s
      else if s_threads s ! unat (tid - 1) = Some t
      then s\<lparr>s_threads := (s_threads s)[unat (tid - 1) := None],
             s_thread_count := (if 0 < s_thread_count s then s_thread_count s - 1 else s_thread_count s)\<rparr>
      else s)"

text \<open>A zeroed object, as \<open>kzalloc\<close> returns it.\<close>

definition zero_context :: af_context where
  "zero_context = \<lparr>ctx_rbx = 0, ctx_rbp = 0, ctx_r12 = 0, ctx_r13 = 0, ctx_r14 = 0, ctx_r15 = 0,
     ctx_rsp = 0, ctx_rip = 0\<rparr>"

definition zero_thread :: af_thread where
  "zero_thread = \<lparr>th_context = zero_context, th_tid = 0, th_state = AF_THREAD_FREE, th_priority = 0,
     th_time_slice = 0, th_stack_base = 0, th_stack_size = 0, th_wake_tick = 0, th_total_ticks = 0,
     th_switches = 0, th_wait_obj = None, th_name = [], th_process = None\<rparr>"

text \<open>
  \<open>af_strlcpy\<close> into a buffer of \<open>n\<close> bytes: the characters up to the terminator that fit with
  one byte to spare for it.
\<close>

definition strlcpy :: "nat \<Rightarrow> string \<Rightarrow> string" where
  "strlcpy n src = take (n - 1) (takeWhile (\<lambda>c. c \<noteq> CHR 0x00) src)"

text \<open>
  \<open>thread_create\<close>. The two allocations are arguments: \<open>fresh\<close> is what \<open>kzalloc\<close> returned (\<open>None\<close>
  is \<open>NULL\<close>) and \<open>stack\<close> what \<open>pmm_alloc_frames\<close> returned for the number of frames asked (0 is
  \<open>AF_FRAME_INVALID\<close>). \<open>entry = 0\<close> is a null function pointer. The word the code stores at the top
  of the new stack is the trampoline's address; the model keeps its location, \<open>ctx_rsp\<close>.
\<close>

definition stack_bytes :: "u64 \<Rightarrow> u64" where
  "stack_bytes stack_size =
     align_up (if stack_size = 0 then AF_KERNEL_STACK_SIZE else stack_size) AF_PAGE_SIZE"

definition stack_frames :: "u64 \<Rightarrow> u32" where
  "stack_frames stack_size = ucast (stack_bytes stack_size div AF_PAGE_SIZE)"

definition initial_context :: "u64 \<Rightarrow> u32 \<Rightarrow> u64 \<Rightarrow> u64 \<Rightarrow> af_context" where
  "initial_context stack_base stack_size entry arg =
     (let stack_top = ((stack_base + ucast stack_size) AND NOT 0xF) - 16
      in zero_context\<lparr>ctx_rsp := stack_top, ctx_r12 := entry, ctx_r13 := arg, ctx_rbp := 0\<rparr>)"

definition thread_create ::
  "tptr option \<Rightarrow> (u32 \<Rightarrow> u64) \<Rightarrow> string option \<Rightarrow> u64 \<Rightarrow> u64 \<Rightarrow> u64 \<Rightarrow> u8 \<Rightarrow> 'a kstate_scheme \<Rightarrow>
     tptr option \<times> 'a kstate_scheme" where
  "thread_create fresh stack name entry arg stack_size priority s =
     (if entry = 0 then (None, s)
      else let bytes = stack_bytes stack_size;
               prio = (if 8 \<le> priority then AF_PRIO_DEFAULT else priority)
        in case fresh of
            None \<Rightarrow> (None, s)
          | Some t \<Rightarrow>
              let s1 = upd_thread t (\<lambda>_. zero_thread) s;
                  frames = ucast (bytes div AF_PAGE_SIZE);
                  stack_phys = stack frames
              in if stack_phys = 0 then (None, s1\<lparr>kfreed := t # kfreed s1\<rparr>)
                 else let (tid, s2) = register_thread t s1 in
                   if tid = 0 then (None, s2\<lparr>freed_stacks := freed_stacks s2 @ [(stack_phys, frames)], kfreed := t # kfreed s2\<rparr>)
                   else (Some t, upd_thread t (\<lambda>th. th\<lparr>
                           th_stack_base := stack_phys,
                           th_stack_size := ucast bytes,
                           th_state := AF_THREAD_CREATED,
                           th_priority := prio,
                           th_time_slice := AF_TIME_SLICE_TICKS,
                           th_wait_obj := None,
                           th_name := strlcpy 32 (case name of None \<Rightarrow> ''thread'' | Some n \<Rightarrow> n),
                           th_context := initial_context stack_phys (ucast bytes) entry arg\<rparr>) s2))"

definition thread_adopt_current ::
  "tptr option \<Rightarrow> string option \<Rightarrow> 'a kstate_scheme \<Rightarrow> tptr option \<times> 'a kstate_scheme" where
  "thread_adopt_current fresh name s =
     (case fresh of
        None \<Rightarrow> (None, s)
      | Some t \<Rightarrow>
          let (tid, s1) = register_thread t (upd_thread t (\<lambda>_. zero_thread) s) in
          if tid = 0 then (None, s1\<lparr>kfreed := t # kfreed s1\<rparr>)
          else let s2 = upd_thread t (\<lambda>th. th\<lparr>
                     th_state := AF_THREAD_RUNNING,
                     th_priority := AF_PRIO_DEFAULT,
                     th_time_slice := AF_TIME_SLICE_TICKS,
                     th_stack_base := 0,
                     th_stack_size := 0,
                     th_name := strlcpy 32 (case name of None \<Rightarrow> ''boot'' | Some n \<Rightarrow> n)\<rparr>) s1
            in (Some t, s2\<lparr>th_cur := Some t\<rparr>))"

definition thread_reap :: "tptr \<Rightarrow> 'a kstate_scheme \<Rightarrow> 'a kstate_scheme" where
  "thread_reap t s =
     (let s1 = upd_thread t (\<lambda>th. th\<lparr>th_state := AF_THREAD_DEAD\<rparr>) s;
          th = threads s1 t;
          frames = th_stack_size th div 4096;
          s2 = (if th_stack_base th \<noteq> 0
                then upd_thread t (\<lambda>th. th\<lparr>th_stack_base := 0\<rparr>)
                       (s1\<lparr>freed_stacks := freed_stacks s1 @ [(th_stack_base th, frames)]\<rparr>)
                else s1);
          s3 = unregister_thread t s2
      in s3\<lparr>kfreed := t # kfreed s3\<rparr>)"

end
