(* ===== verification/Process.thy ===== *)
theory Process
  imports Thread
begin

text \<open>
  The process table (\<open>kernel/core/process.c\<close>): initialisation, lookup, creation, thread
  membership and teardown. A process pointer is its index in \<open>s_table\<close>. Exit and wait, which
  switch threads, are in theory \<open>Lifecycle\<close>. A definition whose C code would panic or touch memory
  outside an object there returns \<open>None\<close>.
\<close>

abbreviation (input) "AF_PID_INVALID \<equiv> (0 :: u32)"
abbreviation (input) "AF_PID_KERNEL \<equiv> (1 :: u32)"
abbreviation (input) "AF_PROCESS_NAME_LEN \<equiv> (24 :: nat)"

definition zero_process :: af_process where
  "zero_process = \<lparr>pr_pid = 0, pr_state = AF_PROCESS_FREE, pr_parent = 0, pr_addr_space = 0,
     pr_threads = [], pr_thread_count = 0, pr_exit_code = 0, pr_waiter = None, pr_created_tick = 0,
     pr_name = [], pr_caps = None\<rparr>"

definition process_init :: "'a kstate_scheme \<Rightarrow> 'a kstate_scheme" where
  "process_init s = s\<lparr>s_table := replicate AF_MAX_PROCESSES zero_process, s_live := 0, s_next_pid := 2\<rparr>"

section \<open>Lookup\<close>

text \<open>
  The outer \<open>None\<close> is a read outside \<open>s_table\<close>: the code indexes with \<open>pid - 1\<close> before it has any
  bound on \<open>pid\<close>.
\<close>

definition slot_for_pid :: "'a kstate_scheme \<Rightarrow> u32 \<Rightarrow> pslot option option" where
  "slot_for_pid s pid =
     (if pid = AF_PID_INVALID \<or> pid = AF_PID_KERNEL then Some None
      else let i = unat (pid - 1) in
        if AF_MAX_PROCESSES \<le> i then None
        else if pr_state (s_table s ! i) = AF_PROCESS_FREE \<or> pr_pid (s_table s ! i) \<noteq> pid
        then Some None else Some (Some i))"

definition process_find :: "'a kstate_scheme \<Rightarrow> u32 \<Rightarrow> pslot option option" where
  "process_find s pid = slot_for_pid s pid"

definition process_current :: "'a kstate_scheme \<Rightarrow> pslot option" where
  "process_current s = (case thread_current s of None \<Rightarrow> None | Some t \<Rightarrow> th_process (threads s t))"

definition process_live_count :: "'a kstate_scheme \<Rightarrow> u32" where
  "process_live_count s = s_live s"

section \<open>Creation\<close>

text \<open>
  \<open>space\<close> is what \<open>hal_pt_create_user\<close> returned (0 is failure) and \<open>caps_ok\<close> whether the heap gave
  \<open>cap_table_create\<close> its memory.
\<close>

definition free_process_slot :: "'a kstate_scheme \<Rightarrow> nat option" where
  "free_process_slot s =
     find (\<lambda>i. \<not> of_nat (i + 1) < s_next_pid s \<and> pr_state (s_table s ! i) = AF_PROCESS_FREE)
       [0..<AF_MAX_PROCESSES]"

definition process_create ::
  "u64 \<Rightarrow> bool \<Rightarrow> string \<Rightarrow> u32 \<Rightarrow> 'a kstate_scheme \<Rightarrow> pslot option \<times> 'a kstate_scheme" where
  "process_create space caps_ok name parent s =
     (case free_process_slot s of
        None \<Rightarrow> (None, s)
      | Some i \<Rightarrow>
          let s1 = upd_process i (\<lambda>p. p\<lparr>pr_pid := of_nat (i + 1)\<rparr>) s in
          if space = 0 then (None, upd_process i (\<lambda>p. p\<lparr>pr_pid := AF_PID_INVALID\<rparr>) s1)
          else case cap_table_create caps_ok of
            None \<Rightarrow>
              (None, upd_process i (\<lambda>p. p\<lparr>pr_pid := AF_PID_INVALID\<rparr>)
                       (s1\<lparr>destroyed_spaces := destroyed_spaces s1 @ [space]\<rparr>))
          | Some caps \<Rightarrow>
              let s2 = upd_process i (\<lambda>p. p\<lparr>
                         pr_state := AF_PROCESS_ALIVE,
                         pr_parent := parent,
                         pr_addr_space := space,
                         pr_caps := Some caps,
                         pr_threads := [],
                         pr_thread_count := 0,
                         pr_exit_code := 0,
                         pr_waiter := None,
                         pr_created_tick := s_ticks s,
                         pr_name := strlcpy AF_PROCESS_NAME_LEN name\<rparr>) s1;
                  pid = pr_pid (s_table s2 ! i);
                  s3 = (if s_next_pid s2 \<le> pid then s2\<lparr>s_next_pid := pid + 1\<rparr> else s2)
              in (Some i, s3\<lparr>s_live := s_live s3 + 1\<rparr>))"

section \<open>Thread membership\<close>

definition process_attach_thread :: "pslot option \<Rightarrow> tptr option \<Rightarrow> 'a kstate_scheme \<Rightarrow> 'a kstate_scheme" where
  "process_attach_thread proc thread s =
     (case (proc, thread) of
        (Some p, Some t) \<Rightarrow>
          upd_process p (\<lambda>pr. pr\<lparr>pr_threads := t # pr_threads pr, pr_thread_count := pr_thread_count pr + 1\<rparr>)
            (upd_thread t (\<lambda>th. th\<lparr>th_process := Some p\<rparr>) s)
      | _ \<Rightarrow> s)"

definition process_detach_thread :: "tptr option \<Rightarrow> 'a kstate_scheme \<Rightarrow> 'a kstate_scheme" where
  "process_detach_thread thread s =
     (case thread of
        None \<Rightarrow> s
      | Some t \<Rightarrow>
          (case th_process (threads s t) of
             None \<Rightarrow> s
           | Some p \<Rightarrow>
               upd_thread t (\<lambda>th. th\<lparr>th_process := None\<rparr>)
                 (upd_process p (\<lambda>pr. pr\<lparr>
                    pr_threads := remove1 t (pr_threads pr),
                    pr_thread_count := (if 0 < pr_thread_count pr then pr_thread_count pr - 1
                                        else pr_thread_count pr)\<rparr>) s)))"

section \<open>Teardown\<close>

text \<open>
  \<open>process_reap\<close>. \<open>None\<close> is the failed assertion: the process's page tables are the ones in \<open>CR3\<close>.
\<close>

definition process_reap :: "pslot option \<Rightarrow> 'a kstate_scheme \<Rightarrow> 'a kstate_scheme option" where
  "process_reap proc s =
     (case proc of
        None \<Rightarrow> Some s
      | Some p \<Rightarrow>
          if pr_state (s_table s ! p) = AF_PROCESS_FREE then Some s
          else if cr3 s = pr_addr_space (s_table s ! p) then None
          else
            let space = pr_addr_space (s_table s ! p);
                s1 = (if space \<noteq> 0
                      then upd_process p (\<lambda>pr. pr\<lparr>pr_addr_space := 0\<rparr>)
                             (s\<lparr>destroyed_spaces := destroyed_spaces s @ [space]\<rparr>)
                      else s);
                s2 = upd_process p (\<lambda>pr. pr\<lparr>pr_caps := None\<rparr>) s1
            in if pr_thread_count (s_table s2 ! p) \<noteq> 0 then Some s2
               else let s3 = upd_process p (\<lambda>pr. pr\<lparr>
                          pr_name := strlcpy AF_PROCESS_NAME_LEN [],
                          pr_state := AF_PROCESS_FREE,
                          pr_pid := AF_PID_INVALID,
                          pr_parent := AF_PID_INVALID\<rparr>) s2
                    in Some (s3\<lparr>s_live := (if 0 < s_live s3 then s_live s3 - 1 else s_live s3)\<rparr>))"

end
