(* ===== verification/Sched.thy ===== *)
theory Sched
  imports Process
begin

text \<open>
  The scheduler (\<open>kernel/core/sched.c\<close>): eight FIFO run queues, the switch between threads,
  blocking, sleeping, and the collection of exited threads.

  A function is atomic up to its call of \<open>context_switch\<close>: its result is the state in which the
  incoming thread continues, and what the outgoing thread does when it next runs is a definition
  of its own (\<open>sched_block_resume\<close>, \<open>sched_sleep_resume\<close>; the other callers simply return).
  \<open>None\<close> is a call through a null thread pointer or a panic.
\<close>

section \<open>Run queue\<close>

definition prio_level :: "u8 \<Rightarrow> nat" where
  "prio_level p = (if 8 \<le> p then 7 else unat p)"

definition runq_push :: "tptr \<Rightarrow> 'a kstate_scheme \<Rightarrow> 'a kstate_scheme" where
  "runq_push t s =
     (let p = prio_level (th_priority (threads s t));
          s1 = s\<lparr>runq := (runq s)[p := runq s ! p @ [t]], runq_len := (runq_len s)[p := runq_len s ! p + 1]\<rparr>
      in upd_thread t (\<lambda>th. th\<lparr>th_state := AF_THREAD_RUNNABLE\<rparr>) s1)"

definition dec_len :: "nat \<Rightarrow> 'a kstate_scheme \<Rightarrow> 'a kstate_scheme" where
  "dec_len p s = (if 0 < runq_len s ! p then s\<lparr>runq_len := (runq_len s)[p := runq_len s ! p - 1]\<rparr> else s)"

definition runq_pop :: "nat \<Rightarrow> 'a kstate_scheme \<Rightarrow> tptr option \<times> 'a kstate_scheme" where
  "runq_pop p s =
     (case runq s ! p of
        [] \<Rightarrow> (None, s)
      | t # ts \<Rightarrow> (Some t, dec_len p (s\<lparr>runq := (runq s)[p := ts]\<rparr>)))"

fun pop_levels :: "nat list \<Rightarrow> 'a kstate_scheme \<Rightarrow> tptr option \<times> 'a kstate_scheme" where
  "pop_levels [] s = (None, s)"
| "pop_levels (p # ps) s =
     (case runq_pop p s of
        (Some t, s1) \<Rightarrow> (Some t, s1)
      | (None, s1) \<Rightarrow> pop_levels ps s1)"

definition runq_pop_highest :: "'a kstate_scheme \<Rightarrow> tptr option \<times> 'a kstate_scheme" where
  "runq_pop_highest s = pop_levels [0..<AF_PRIO_LEVELS] s"

definition runq_remove :: "tptr \<Rightarrow> 'a kstate_scheme \<Rightarrow> bool \<times> 'a kstate_scheme" where
  "runq_remove t s =
     (case find (\<lambda>p. t \<in> set (runq s ! p)) [0..<AF_PRIO_LEVELS] of
        None \<Rightarrow> (False, s)
      | Some p \<Rightarrow> (True, dec_len p (s\<lparr>runq := (runq s)[p := remove1 t (runq s ! p)]\<rparr>)))"

section \<open>Initialisation and admission\<close>

definition sched_init ::
  "tptr option \<Rightarrow> tptr option \<Rightarrow> 'a kstate_scheme \<Rightarrow> af_status \<times> 'a kstate_scheme" where
  "sched_init boot_thread idle_thread s =
     (let s1 = s\<lparr>runq := replicate AF_PRIO_LEVELS [], runq_len := replicate AF_PRIO_LEVELS 0\<rparr> in
      case (boot_thread, idle_thread) of
        (Some b, Some i) \<Rightarrow>
          let s2 = upd_thread i (\<lambda>th. th\<lparr>th_priority := AF_PRIO_IDLE, th_state := AF_THREAD_CREATED\<rparr>)
                     (s1\<lparr>s_idle := Some i\<rparr>);
              s3 = upd_thread b (\<lambda>th. th\<lparr>th_state := AF_THREAD_RUNNING\<rparr>) (s2\<lparr>s_current := Some b\<rparr>)
          in (AF_OK, s3\<lparr>s_kernel_root := cr3 s3, s_last_installed := cr3 s3\<rparr>)
      | _ \<Rightarrow> (AF_ERR_INVAL, s1))"

definition sched_admit :: "tptr option \<Rightarrow> 'a kstate_scheme \<Rightarrow> 'a kstate_scheme" where
  "sched_admit thread s =
     (case thread of
        None \<Rightarrow> s
      | Some t \<Rightarrow>
          if th_state (threads s t) \<noteq> AF_THREAD_CREATED then s
          else if s_idle s = None then s
          else runq_push t s)"

section \<open>Reaping\<close>

definition sched_reap :: "tptr option \<Rightarrow> 'a kstate_scheme \<Rightarrow> 'a kstate_scheme" where
  "sched_reap thread s =
     (case thread of
        None \<Rightarrow> s
      | Some t \<Rightarrow>
          if th_state (threads s t) \<noteq> AF_THREAD_ZOMBIE then s
          else
            let s1 = snd (runq_remove t s) in
            if t \<in> set (s_zombies s1) then s1
            else if length (s_zombies s1) < 16 then s1\<lparr>s_zombies := s_zombies s1 @ [t]\<rparr>
            else let s2 = thread_reap (hd (s_zombies s1)) s1
                 in s2\<lparr>s_zombies := tl (s_zombies s2) @ [t]\<rparr>)"

section \<open>Picking and switching\<close>

definition pick_next :: "'a kstate_scheme \<Rightarrow> tptr option \<times> 'a kstate_scheme" where
  "pick_next s =
     (case runq_pop_highest s of
        (Some t, s1) \<Rightarrow> (Some t, s1)
      | (None, s1) \<Rightarrow>
          (case s_current s1 of
             Some c \<Rightarrow> if th_state (threads s1 c) = AF_THREAD_RUNNING then (Some c, s1) else (s_idle s1, s1)
           | None \<Rightarrow> (s_idle s1, s1)))"

text \<open>The root a thread runs on: its process's, or the kernel's.\<close>

definition wanted_root :: "pslot option \<Rightarrow> 'a kstate_scheme \<Rightarrow> u64" where
  "wanted_root proc s =
     (case proc of
        Some p \<Rightarrow> if pr_addr_space (s_table s ! p) \<noteq> 0 then pr_addr_space (s_table s ! p) else s_kernel_root s
      | None \<Rightarrow> s_kernel_root s)"

definition install_root :: "u64 \<Rightarrow> 'a kstate_scheme \<Rightarrow> 'a kstate_scheme" where
  "install_root want s =
     (if want \<noteq> 0 \<and> want \<noteq> s_last_installed s then s\<lparr>cr3 := want, s_last_installed := want\<rparr> else s)"

text \<open>What every path that gives the CPU to \<open>n\<close> writes.\<close>

definition make_current :: "tptr \<Rightarrow> 'a kstate_scheme \<Rightarrow> 'a kstate_scheme" where
  "make_current n s =
     (let s1 = upd_thread n (\<lambda>th. th\<lparr>th_state := AF_THREAD_RUNNING, th_time_slice := AF_TIME_SLICE_TICKS,
                 th_switches := th_switches th + 1\<rparr>) s
      in s1\<lparr>s_current := Some n, th_cur := Some n, s_switches := s_switches s1 + 1\<rparr>)"

definition switch_to :: "tptr option \<Rightarrow> 'a kstate_scheme \<Rightarrow> 'a kstate_scheme option" where
  "switch_to next s =
     (if next = s_current s then Some s
      else case (next, s_current s) of
        (Some n, Some p) \<Rightarrow>
          let s1 = (if th_state (threads s p) = AF_THREAD_RUNNING
                    then runq_push p (upd_thread p (\<lambda>th. th\<lparr>th_state := AF_THREAD_RUNNABLE\<rparr>) s) else s);
              s2 = (if th_state (threads s1 p) = AF_THREAD_ZOMBIE then sched_reap (Some p) s1 else s1);
              s3 = make_current n s2
          in Some (install_root (wanted_root (th_process (threads s3 n)) s3) s3)
      | _ \<Rightarrow> None)"

section \<open>Timer tick\<close>

definition wake_one :: "u64 \<Rightarrow> nat \<Rightarrow> 'a kstate_scheme \<Rightarrow> 'a kstate_scheme" where
  "wake_one now_tick i s =
     (case thread_by_tid s (of_nat (i + 1)) of
        None \<Rightarrow> s
      | Some t \<Rightarrow>
          if th_state (threads s t) = AF_THREAD_SLEEPING \<and> th_wake_tick (threads s t) \<le> now_tick
          then runq_push t s else s)"

definition sched_wake_sleepers :: "u64 \<Rightarrow> 'a kstate_scheme \<Rightarrow> 'a kstate_scheme" where
  "sched_wake_sleepers now_tick s = fold (wake_one now_tick) [0..<AF_MAX_THREADS] s"

definition sched_tick :: "'a kstate_scheme \<Rightarrow> 'a kstate_scheme option" where
  "sched_tick s =
     (let s1 = s\<lparr>s_ticks := s_ticks s + 1\<rparr>;
          s2 = sched_wake_sleepers (s_ticks s1) s1
      in case s_current s2 of
           None \<Rightarrow> Some s2
         | Some c \<Rightarrow>
             let s3 = upd_thread c (\<lambda>th. th\<lparr>th_total_ticks := th_total_ticks th + 1,
                        th_time_slice := (if 0 < th_time_slice th then th_time_slice th - 1 else th_time_slice th)\<rparr>) s2
             in if th_time_slice (threads s3 c) = 0 \<or> s_need_resched s3
                then let (n, s4) = pick_next (s3\<lparr>s_need_resched := False\<rparr>) in switch_to n s4
                else Some s3)"

section \<open>Voluntary operations\<close>

definition sched_yield :: "'a kstate_scheme \<Rightarrow> 'a kstate_scheme option" where
  "sched_yield s =
     (let s1 = (case s_current s of
                  Some c \<Rightarrow> if th_state (threads s c) = AF_THREAD_RUNNING
                            then upd_thread c (\<lambda>th. th\<lparr>th_time_slice := AF_TIME_SLICE_TICKS\<rparr>) s else s
                | None \<Rightarrow> s);
          (n, s2) = pick_next s1
      in switch_to n s2)"

text \<open>
  One round of the loops of \<open>sched_block\<close> and \<open>sched_sleep\<close>: give the CPU away. Unlike \<open>switch_to\<close>
  it does not touch \<open>CR3\<close>.
\<close>

definition give_away :: "tptr \<Rightarrow> 'a kstate_scheme \<Rightarrow> 'a kstate_scheme option" where
  "give_away self s =
     (let (next, s1) = pick_next s;
          next1 = (if next = Some self then s_idle s1 else next)
      in case (next1, s_current s1) of
           (Some n, Some p) \<Rightarrow> Some (make_current n s1)
         | _ \<Rightarrow> None)"

definition sched_block :: "wait_object \<Rightarrow> 'a kstate_scheme \<Rightarrow> 'a kstate_scheme option" where
  "sched_block obj s =
     (if s_current s = None \<or> s_current s = s_idle s then Some s
      else let self = the (s_current s) in
        give_away self (upd_thread self (\<lambda>th. th\<lparr>th_state := AF_THREAD_BLOCKED, th_wait_obj := Some obj\<rparr>) s))"

definition sched_block_resume :: "tptr \<Rightarrow> 'a kstate_scheme \<Rightarrow> 'a kstate_scheme option" where
  "sched_block_resume self s =
     (if th_state (threads s self) = AF_THREAD_BLOCKED then give_away self s
      else Some (upd_thread self (\<lambda>th. th\<lparr>th_wait_obj := None\<rparr>) s))"

definition sched_unblock :: "tptr option \<Rightarrow> 'a kstate_scheme \<Rightarrow> 'a kstate_scheme" where
  "sched_unblock thread s =
     (case thread of
        None \<Rightarrow> s
      | Some t \<Rightarrow> if th_state (threads s t) \<noteq> AF_THREAD_BLOCKED then s else runq_push t s)"

definition sched_sleep :: "u64 \<Rightarrow> 'a kstate_scheme \<Rightarrow> 'a kstate_scheme option" where
  "sched_sleep ticks s =
     (if s_current s = None \<or> s_current s = s_idle s \<or> ticks = 0 then Some s
      else let self = the (s_current s) in
        give_away self (upd_thread self (\<lambda>th. th\<lparr>th_state := AF_THREAD_SLEEPING,
          th_wake_tick := s_ticks s + ticks\<rparr>) s))"

definition sched_sleep_resume :: "tptr \<Rightarrow> 'a kstate_scheme \<Rightarrow> 'a kstate_scheme option" where
  "sched_sleep_resume self s =
     (if th_state (threads s self) = AF_THREAD_SLEEPING then give_away self s else Some s)"

text \<open>\<open>thread_exit\<close> (\<open>thread.c\<close>): a zombie's yield never comes back, so its loop has one round.\<close>

definition thread_exit :: "'a kstate_scheme \<Rightarrow> 'a kstate_scheme option" where
  "thread_exit s =
     (case th_cur s of
        None \<Rightarrow> None
      | Some self \<Rightarrow> sched_yield (upd_thread self (\<lambda>th. th\<lparr>th_state := AF_THREAD_ZOMBIE\<rparr>) s))"

section \<open>Collecting zombies\<close>

definition collect_one :: "tptr \<Rightarrow> 'a kstate_scheme \<Rightarrow> 'a kstate_scheme option" where
  "collect_one zombie s =
     (case th_process (threads s zombie) of
        None \<Rightarrow> Some (thread_reap zombie s)
      | Some p \<Rightarrow>
          let space = pr_addr_space (s_table s ! p);
              s1 = (if space \<noteq> 0 \<and> s_last_installed s = space
                    then s\<lparr>cr3 := s_kernel_root s, s_last_installed := s_kernel_root s\<rparr> else s);
              s2 = process_detach_thread (Some zombie) s1;
              pr = s_table s2 ! p
          in case (if pr_thread_count pr = 0 \<and> pr_state pr = AF_PROCESS_ZOMBIE \<and> pr_waiter pr = None
                   then process_reap (Some p) s2 else Some s2) of
               None \<Rightarrow> None
             | Some s3 \<Rightarrow> Some (thread_reap zombie s3))"

text \<open>The loop takes \<open>s_zombies\<close> from its end; the list it recurses on is that array, last first.\<close>

fun collect_from :: "tptr list \<Rightarrow> 'a kstate_scheme \<Rightarrow> 'a kstate_scheme option" where
  "collect_from [] s = Some s"
| "collect_from (z # zs) s =
     (case collect_one z (s\<lparr>s_zombies := rev zs\<rparr>) of
        None \<Rightarrow> None
      | Some s1 \<Rightarrow> collect_from zs s1)"

definition sched_collect_zombies :: "'a kstate_scheme \<Rightarrow> 'a kstate_scheme option" where
  "sched_collect_zombies s = collect_from (rev (s_zombies s)) s"

definition sched_set_process :: "pslot option \<Rightarrow> 'a kstate_scheme \<Rightarrow> 'a kstate_scheme" where
  "sched_set_process proc s =
     (let s1 = (case s_current s of
                  Some c \<Rightarrow> upd_thread c (\<lambda>th. th\<lparr>th_process := proc\<rparr>) s
                | None \<Rightarrow> s)
      in install_root (wanted_root proc s1) s1)"

section \<open>Queries\<close>

definition sched_idle_thread :: "'a kstate_scheme \<Rightarrow> tptr option" where
  "sched_idle_thread s = s_idle s"

definition sched_tick_count :: "'a kstate_scheme \<Rightarrow> u64" where
  "sched_tick_count s = s_ticks s"

section \<open>Frames\<close>

lemma upd_thread_simps [simp]:
  "threads (upd_thread t f s) = (threads s)(t := f (threads s t))"
  "s_threads (upd_thread t f s) = s_threads s"
  "s_thread_count (upd_thread t f s) = s_thread_count s"
  "th_cur (upd_thread t f s) = th_cur s"
  "runq (upd_thread t f s) = runq s"
  "runq_len (upd_thread t f s) = runq_len s"
  "s_current (upd_thread t f s) = s_current s"
  "s_idle (upd_thread t f s) = s_idle s"
  "s_ticks (upd_thread t f s) = s_ticks s"
  "s_switches (upd_thread t f s) = s_switches s"
  "s_need_resched (upd_thread t f s) = s_need_resched s"
  "s_kernel_root (upd_thread t f s) = s_kernel_root s"
  "s_last_installed (upd_thread t f s) = s_last_installed s"
  "s_zombies (upd_thread t f s) = s_zombies s"
  "cr3 (upd_thread t f s) = cr3 s"
  "freed_stacks (upd_thread t f s) = freed_stacks s"
  "s_table (upd_thread t f s) = s_table s"
  "s_live (upd_thread t f s) = s_live s"
  "s_next_pid (upd_thread t f s) = s_next_pid s"
  "destroyed_spaces (upd_thread t f s) = destroyed_spaces s"
  "kfreed (upd_thread t f s) = kfreed s"
  by (simp_all add: upd_thread_def)

lemma upd_process_simps [simp]:
  "threads (upd_process p f s) = threads s"
  "s_threads (upd_process p f s) = s_threads s"
  "s_thread_count (upd_process p f s) = s_thread_count s"
  "th_cur (upd_process p f s) = th_cur s"
  "runq (upd_process p f s) = runq s"
  "runq_len (upd_process p f s) = runq_len s"
  "s_current (upd_process p f s) = s_current s"
  "s_idle (upd_process p f s) = s_idle s"
  "s_ticks (upd_process p f s) = s_ticks s"
  "s_switches (upd_process p f s) = s_switches s"
  "s_need_resched (upd_process p f s) = s_need_resched s"
  "s_kernel_root (upd_process p f s) = s_kernel_root s"
  "s_last_installed (upd_process p f s) = s_last_installed s"
  "s_zombies (upd_process p f s) = s_zombies s"
  "cr3 (upd_process p f s) = cr3 s"
  "freed_stacks (upd_process p f s) = freed_stacks s"
  "s_table (upd_process p f s) = (s_table s)[p := f (s_table s ! p)]"
  "s_live (upd_process p f s) = s_live s"
  "s_next_pid (upd_process p f s) = s_next_pid s"
  "destroyed_spaces (upd_process p f s) = destroyed_spaces s"
  "kfreed (upd_process p f s) = kfreed s"
  by (simp_all add: upd_process_def)

section \<open>Invariants\<close>

text \<open>
  The run queues, with \<open>H\<close> the runnable threads that a caller has popped and not yet dispatched:
  a thread is in a queue exactly when it is runnable and not in hand, at its own priority, once.
\<close>

definition ready_ok :: "tptr set \<Rightarrow> 'a kstate_scheme \<Rightarrow> bool" where
  "ready_ok H s \<longleftrightarrow>
     length (runq s) = AF_PRIO_LEVELS \<and> length (runq_len s) = AF_PRIO_LEVELS \<and>
     (\<forall>p < AF_PRIO_LEVELS. distinct (runq s ! p) \<and> unat (runq_len s ! p) = length (runq s ! p)) \<and>
     (\<forall>p < AF_PRIO_LEVELS. \<forall>t. t \<in> set (runq s ! p) \<longleftrightarrow>
        th_state (threads s t) = AF_THREAD_RUNNABLE \<and> t \<notin> H \<and> prio_level (th_priority (threads s t)) = p) \<and>
     (\<forall>t \<in> H. th_state (threads s t) = AF_THREAD_RUNNABLE)"

text \<open>The thread table: an entry at index \<open>tid - 1\<close> for every thread that exists, and the counter.\<close>

definition threads_ok :: "'a kstate_scheme \<Rightarrow> bool" where
  "threads_ok s \<longleftrightarrow>
     length (s_threads s) = AF_MAX_THREADS \<and>
     (\<forall>i < AF_MAX_THREADS. \<forall>t. s_threads s ! i = Some t \<longrightarrow>
        unat (th_tid (threads s t)) = i + 1 \<and> th_state (threads s t) \<notin> {AF_THREAD_FREE, AF_THREAD_DEAD}) \<and>
     (\<forall>t. th_state (threads s t) \<notin> {AF_THREAD_FREE, AF_THREAD_DEAD} \<longrightarrow> Some t \<in> set (s_threads s)) \<and>
     unat (s_thread_count s) = length (filter (\<lambda>e. e \<noteq> None) (s_threads s))"

text \<open>Exited threads: all on the list (\<open>Z\<close> are the ones about to be put there), at most 16.\<close>

definition zombies_ok :: "tptr set \<Rightarrow> 'a kstate_scheme \<Rightarrow> bool" where
  "zombies_ok Z s \<longleftrightarrow>
     distinct (s_zombies s) \<and> length (s_zombies s) \<le> 16 \<and> 
     (\<forall>t. th_state (threads s t) = AF_THREAD_ZOMBIE \<longleftrightarrow> t \<in> set (s_zombies s) \<union> Z) \<and>
     set (s_zombies s) \<inter> Z = {}"

text \<open>Exactly one thread runs, and both copies of \<open>s_current\<close> name it. \<open>R\<close> is the running set.\<close>

definition running_ok :: "tptr set \<Rightarrow> 'a kstate_scheme \<Rightarrow> bool" where
  "running_ok R s \<longleftrightarrow> th_cur s = s_current s \<and> s_current s \<noteq> None \<and>
     (\<forall>t. th_state (threads s t) = AF_THREAD_RUNNING \<longleftrightarrow> t \<in> R)"

text \<open>There is an idle thread, and it is never blocked, asleep or gone.\<close>

definition idle_ok :: "'a kstate_scheme \<Rightarrow> bool" where
  "idle_ok s \<longleftrightarrow> (case s_idle s of None \<Rightarrow> False | Some i \<Rightarrow>
     th_state (threads s i) \<in> {AF_THREAD_CREATED, AF_THREAD_RUNNABLE, AF_THREAD_RUNNING})"

definition sched_inv :: "'a kstate_scheme \<Rightarrow> bool" where
  "sched_inv s \<longleftrightarrow> ready_ok {} s \<and> threads_ok s \<and> zombies_ok {} s \<and> idle_ok s \<and>
     running_ok {the (s_current s)} s"

lemma prio_level_less [simp]: "prio_level p < AF_PRIO_LEVELS"
  by (auto simp: prio_level_def word_le_nat_alt)

subsection \<open>Run queue\<close>

lemma registered_length:
  assumes "threads_ok s" "distinct ts" "\<And>t. t \<in> set ts \<Longrightarrow> Some t \<in> set (s_threads s)"
  shows "length ts \<le> AF_MAX_THREADS"
proof -
  have "length ts = card (Some ` set ts)"
    using assms(2) by (simp add: card_image distinct_card)
  also have "\<dots> \<le> card (set (s_threads s))"
    using assms(3) by (intro card_mono) auto
  also have "\<dots> \<le> length (s_threads s)" by (rule card_length)
  finally show ?thesis using assms(1) by (simp add: threads_ok_def)
qed

lemma live_registered:
  "threads_ok s \<Longrightarrow> th_state (threads s t) \<notin> {AF_THREAD_FREE, AF_THREAD_DEAD} \<Longrightarrow> Some t \<in> set (s_threads s)"
  unfolding threads_ok_def by blast

lemma runq_push_frame [simp]:
  "s_threads (runq_push t s) = s_threads s" "s_thread_count (runq_push t s) = s_thread_count s"
  "th_cur (runq_push t s) = th_cur s" "s_current (runq_push t s) = s_current s"
  "s_idle (runq_push t s) = s_idle s" "s_zombies (runq_push t s) = s_zombies s"
  "cr3 (runq_push t s) = cr3 s" "s_last_installed (runq_push t s) = s_last_installed s"
  "s_kernel_root (runq_push t s) = s_kernel_root s" "s_table (runq_push t s) = s_table s"
  "s_ticks (runq_push t s) = s_ticks s" "s_need_resched (runq_push t s) = s_need_resched s"
  "freed_stacks (runq_push t s) = freed_stacks s" "kfreed (runq_push t s) = kfreed s"
  "threads (runq_push t s) = (threads s)(t := (threads s t)\<lparr>th_state := AF_THREAD_RUNNABLE\<rparr>)"
  by (simp_all add: runq_push_def Let_def)

lemma ready_push:
  assumes r: "ready_ok H s" and tab: "threads_ok s" and reg: "Some t \<in> set (s_threads s)"
    and new: "th_state (threads s t) \<noteq> AF_THREAD_RUNNABLE \<or> t \<in> H"
  shows "ready_ok (H - {t}) (runq_push t s)"
proof -
  define p where "p = prio_level (th_priority (threads s t))"
  have p: "p < 8" by (simp add: p_def)
  have notin: "t \<notin> set (runq s ! q)" if "q < 8" for q
    using r new that by (auto simp: ready_ok_def)
  have reg': "Some u \<in> set (s_threads s)" if "u \<in> set (runq s ! p @ [t])" for u
  proof (cases "u = t")
    case False
    with that r p have "th_state (threads s u) = AF_THREAD_RUNNABLE" by (auto simp: ready_ok_def)
    with tab show ?thesis by (intro live_registered) auto
  qed (simp add: reg)
  have "length (runq s ! p @ [t]) \<le> AF_MAX_THREADS"
    using r p notin by (intro registered_length [OF tab _ reg']) (auto simp: ready_ok_def)
  then have len: "unat (runq_len s ! p + 1) = Suc (length (runq s ! p))"
    using r p by (subst unat_Suc_word) (auto simp: ready_ok_def)
  show ?thesis
    unfolding ready_ok_def
  proof (intro conjI allI impI ballI)
    fix q assume q: "q < (8::nat)"
    show "distinct (runq (runq_push t s) ! q)"
      using r q notin by (auto simp: ready_ok_def runq_push_def Let_def nth_list_update)
    show "unat (runq_len (runq_push t s) ! q) = length (runq (runq_push t s) ! q)"
      using r q p len unfolding runq_push_def Let_def p_def [symmetric]
      by (auto simp: ready_ok_def nth_list_update)
    fix u
    show "(u \<in> set (runq (runq_push t s) ! q)) =
      (th_state (threads (runq_push t s) u) = AF_THREAD_RUNNABLE \<and> u \<notin> H - {t} \<and>
       prio_level (th_priority (threads (runq_push t s) u)) = q)"
      using r q p notin [OF q] unfolding runq_push_def Let_def p_def [symmetric]
      by (auto simp: ready_ok_def nth_list_update p_def)
  qed (use r in \<open>auto simp: ready_ok_def runq_push_def Let_def\<close>)
qed

lemma ready_state:
  assumes "ready_ok H s" "th_state (threads s t) \<noteq> AF_THREAD_RUNNABLE \<or> t \<in> H"
    and "th_state (f (threads s t)) \<noteq> AF_THREAD_RUNNABLE"
  shows "ready_ok (H - {t}) (upd_thread t f s)"
  using assms by (auto simp: ready_ok_def)

lemma ready_hold:
  assumes "ready_ok H s" "th_state (threads s t) \<noteq> AF_THREAD_RUNNABLE \<or> t \<in> H"
    and "th_state (f (threads s t)) = AF_THREAD_RUNNABLE"
  shows "ready_ok (insert t H) (upd_thread t f s)"
  using assms by (auto simp: ready_ok_def)

lemma ready_same:
  assumes "ready_ok H s" "th_state (f (threads s t)) = th_state (threads s t)"
    and "th_priority (f (threads s t)) = th_priority (threads s t)"
  shows "ready_ok H (upd_thread t f s)"
  using assms by (auto simp: ready_ok_def)

lemma ready_cong:
  "ready_ok H s \<Longrightarrow> threads s' = threads s \<Longrightarrow> runq s' = runq s \<Longrightarrow> runq_len s' = runq_len s \<Longrightarrow> ready_ok H s'"
  by (simp add: ready_ok_def)

text \<open>Taking the first thread of a queue: it moves from the queue into the caller's hand.\<close>

lemma runq_pop_frame:
  assumes "runq_pop p s = (r, s')"
  shows "threads s' = threads s" "s_threads s' = s_threads s" "s_thread_count s' = s_thread_count s"
    "th_cur s' = th_cur s" "s_current s' = s_current s" "s_idle s' = s_idle s" "s_zombies s' = s_zombies s"
    "cr3 s' = cr3 s" "s_last_installed s' = s_last_installed s" "s_kernel_root s' = s_kernel_root s"
    "s_table s' = s_table s" "s_ticks s' = s_ticks s" "s_need_resched s' = s_need_resched s"
    "freed_stacks s' = freed_stacks s" "kfreed s' = kfreed s"
  using assms by (auto simp: runq_pop_def dec_len_def split: list.splits if_splits)

lemma runq_pop_None: "runq_pop p s = (None, s') \<Longrightarrow> s' = s \<and> runq s ! p = []"
  by (auto simp: runq_pop_def split: list.splits)

lemma ready_pop:
  assumes r: "ready_ok H s" and p: "p < AF_PRIO_LEVELS" and pop: "runq_pop p s = (Some t, s')"
  shows "ready_ok (insert t H) s' \<and> t \<notin> H \<and> runq s ! p = t # runq s' ! p \<and>
    (\<forall>q. q \<noteq> p \<longrightarrow> runq s' ! q = runq s ! q) \<and> th_state (threads s t) = AF_THREAD_RUNNABLE"
proof -
  obtain ts where q: "runq s ! p = t # ts" and s': "s' = dec_len p (s\<lparr>runq := (runq s)[p := ts]\<rparr>)"
    using pop by (auto simp: runq_pop_def split: list.splits)
  have len: "unat (runq_len s ! p) = Suc (length ts)" and "distinct (t # ts)"
    using r p q by (auto simp: ready_ok_def)
  from len have "runq_len s ! p \<noteq> 0" by auto
  with len have len': "runq_len s' = (runq_len s)[p := runq_len s ! p - 1]" "unat (runq_len s ! p - 1) = length ts"
    by (auto simp: s' dec_len_def word_gt_0 unat_minus_one_word unat_gt_0 [symmetric])
  have runq': "runq s' = (runq s)[p := ts]" "threads s' = threads s"
    by (simp_all add: s' dec_len_def)
  have mem: "u \<in> set (runq s ! q) \<longleftrightarrow> th_state (threads s u) = AF_THREAD_RUNNABLE \<and> u \<notin> H \<and>
      prio_level (th_priority (threads s u)) = q" if "q < 8" for q u
    using r that by (simp add: ready_ok_def)
  have t: "th_state (threads s t) = AF_THREAD_RUNNABLE" "t \<notin> H" "prio_level (th_priority (threads s t)) = p"
    using mem [OF p, of t] q by auto
  have mem': "u \<in> set (runq s' ! q) \<longleftrightarrow> th_state (threads s u) = AF_THREAD_RUNNABLE \<and> u \<notin> insert t H \<and>
      prio_level (th_priority (threads s u)) = q" if "q < 8" for q u
  proof (cases "q = p")
    case True
    with mem [OF p, of u] q \<open>distinct (t # ts)\<close> r p show ?thesis
      by (auto simp: runq' ready_ok_def)
  next
    case False
    with mem [OF that, of u] t show ?thesis by (auto simp: runq')
  qed
  have "ready_ok (insert t H) s'"
    unfolding ready_ok_def
  proof (intro conjI allI impI ballI)
    fix q assume "q < (8::nat)"
    then show "distinct (runq s' ! q)" "unat (runq_len s' ! q) = length (runq s' ! q)"
      using r p len' \<open>distinct (t # ts)\<close> by (auto simp: runq' ready_ok_def nth_list_update)
  next
    fix q u assume "q < (8::nat)"
    from mem' [OF this, of u] show "u \<in> set (runq s' ! q) \<longleftrightarrow>
      th_state (threads s' u) = AF_THREAD_RUNNABLE \<and> u \<notin> insert t H \<and> prio_level (th_priority (threads s' u)) = q"
      by (simp only: runq')
  qed (use r t in \<open>auto simp: runq' len' ready_ok_def\<close>)
  moreover have "length (runq s) = 8" using r by (simp add: ready_ok_def)
  ultimately show ?thesis using q p t by (auto simp: runq')
qed

subsection \<open>Picking\<close>

lemma pick_next_frame:
  assumes "pick_next s = (r, s')"
  shows "threads s' = threads s" "s_threads s' = s_threads s" "s_thread_count s' = s_thread_count s"
    "th_cur s' = th_cur s" "s_current s' = s_current s" "s_idle s' = s_idle s" "s_zombies s' = s_zombies s"
    "cr3 s' = cr3 s" "s_last_installed s' = s_last_installed s" "s_kernel_root s' = s_kernel_root s"
    "s_table s' = s_table s" "s_ticks s' = s_ticks s" "s_need_resched s' = s_need_resched s"
    "freed_stacks s' = freed_stacks s" "kfreed s' = kfreed s"
proof -
  have pop: "pop_levels ps s = (r, s') \<Longrightarrow>
    threads s' = threads s \<and> s_threads s' = s_threads s \<and> s_thread_count s' = s_thread_count s \<and>
    th_cur s' = th_cur s \<and> s_current s' = s_current s \<and> s_idle s' = s_idle s \<and> s_zombies s' = s_zombies s \<and>
    cr3 s' = cr3 s \<and> s_last_installed s' = s_last_installed s \<and> s_kernel_root s' = s_kernel_root s \<and>
    s_table s' = s_table s \<and> s_ticks s' = s_ticks s \<and> s_need_resched s' = s_need_resched s \<and>
    freed_stacks s' = freed_stacks s \<and> kfreed s' = kfreed s" for ps r s s'
  proof (induction ps arbitrary: s)
    case (Cons p ps)
    obtain r1 s1 where 1: "runq_pop p s = (r1, s1)" by fastforce
    show ?case
    proof (cases r1)
      case None
      with Cons 1 show ?thesis by (auto dest: runq_pop_None)
    next
      case (Some t)
      with Cons 1 runq_pop_frame [OF 1] show ?thesis by auto
    qed
  qed simp
  have "\<exists>r1. runq_pop_highest s = (r1, s')"
    using assms by (auto simp: pick_next_def split: prod.splits option.splits if_splits)
  then show "threads s' = threads s" "s_threads s' = s_threads s" "s_thread_count s' = s_thread_count s"
    "th_cur s' = th_cur s" "s_current s' = s_current s" "s_idle s' = s_idle s" "s_zombies s' = s_zombies s"
    "cr3 s' = cr3 s" "s_last_installed s' = s_last_installed s" "s_kernel_root s' = s_kernel_root s"
    "s_table s' = s_table s" "s_ticks s' = s_ticks s" "s_need_resched s' = s_need_resched s"
    "freed_stacks s' = freed_stacks s" "kfreed s' = kfreed s"
    using pop by (auto simp: runq_pop_highest_def)
qed

lemma pop_levels_cases:
  assumes "pop_levels ps s = (r, s')"
  shows "(r = None \<and> s' = s \<and> (\<forall>p \<in> set ps. runq s ! p = [])) \<or>
    (\<exists>t us p vs. r = Some t \<and> ps = us @ p # vs \<and> (\<forall>q \<in> set us. runq s ! q = []) \<and> runq_pop p s = (Some t, s'))"
  using assms
proof (induction ps)
  case (Cons p ps)
  show ?case
  proof (cases "runq_pop p s")
    case (Pair r1 s1)
    show ?thesis
    proof (cases r1)
      case None
      from Pair None have s1: "s1 = s" "runq s ! p = []" by (auto dest: runq_pop_None)
      with Cons.prems Pair None have "pop_levels ps s = (r, s')" by simp
      from Cons.IH [OF this] s1 show ?thesis
      proof (elim disjE exE conjE)
        fix t us q vs
        assume "r = Some t" "ps = us @ q # vs" "\<forall>x \<in> set us. runq s ! x = []" "runq_pop q s = (Some t, s')"
        with s1 show ?thesis by (intro disjI2 exI [of _ t] exI [of _ "p # us"] exI [of _ q] exI [of _ vs]) auto
      qed auto
    next
      case (Some t)
      with Cons.prems Pair have "r = Some t \<and> p # ps = [] @ p # ps \<and> (\<forall>q \<in> set []. runq s ! q = []) \<and>
        runq_pop p s = (Some t, s')" by auto
      then show ?thesis by blast
    qed
  qed
qed simp

text \<open>Either the head of the first non-empty queue, or, all being empty, the current or idle thread.\<close>

lemma pick_next_cases:
  assumes pick: "pick_next s = (n, s')"
  obtains (queued) t p where "n = Some t" "p < AF_PRIO_LEVELS" "\<forall>q < p. runq s ! q = []"
      "runq_pop p s = (Some t, s')"
  | (current) c where "n = Some c" "s' = s" "\<forall>q < AF_PRIO_LEVELS. runq s ! q = []" "s_current s = Some c"
      "th_state (threads s c) = AF_THREAD_RUNNING"
  | (idle) "n = s_idle s" "s' = s" "\<forall>q < AF_PRIO_LEVELS. runq s ! q = []"
      "\<forall>c. s_current s = Some c \<longrightarrow> th_state (threads s c) \<noteq> AF_THREAD_RUNNING"
proof -
  obtain r s1 where pop: "runq_pop_highest s = (r, s1)" by fastforce
  from pop_levels_cases [OF pop [unfolded runq_pop_highest_def]] show thesis
  proof (elim disjE exE conjE)
    assume "r = None" "s1 = s" "\<forall>p \<in> set [0..<AF_PRIO_LEVELS]. runq s ! p = []"
    then have none: "r = None" "s1 = s" "\<forall>q < AF_PRIO_LEVELS. runq s ! q = []" by auto
    show thesis
    proof (cases "\<exists>c. s_current s = Some c \<and> th_state (threads s c) = AF_THREAD_RUNNING")
      case True
      then obtain c where "s_current s = Some c" "th_state (threads s c) = AF_THREAD_RUNNING" by blast
      with pick pop none show thesis by (intro current [of c]) (simp_all add: pick_next_def)
    next
      case False
      with pick pop none show thesis by (intro idle) (auto simp: pick_next_def split: option.splits)
    qed
  next
    fix t us p vs
    assume r: "r = Some t" and us: "[0..<AF_PRIO_LEVELS] = us @ p # vs" and e: "\<forall>q \<in> set us. runq s ! q = []"
      and s1: "runq_pop p s = (Some t, s1)"
    have "p \<in> set [0..<AF_PRIO_LEVELS]" unfolding us by simp
    moreover have "us = [0..<p]"
      using us by (metis append_eq_conv_conj length_upt nth_append_length nth_upt add_0 diff_zero
        length_append length_Cons less_add_Suc1 take_upt le_add1 add_Suc_right minus_nat.diff_0 order_less_imp_le)
    ultimately show thesis using pick pop r e s1 by (intro queued) (auto simp: pick_next_def)
  qed
qed

subsection \<open>The thread table\<close>

lemma unregister_frame [simp]:
  "threads (unregister_thread t s) = threads s" "th_cur (unregister_thread t s) = th_cur s"
  "runq (unregister_thread t s) = runq s" "runq_len (unregister_thread t s) = runq_len s"
  "s_current (unregister_thread t s) = s_current s" "s_idle (unregister_thread t s) = s_idle s"
  "s_zombies (unregister_thread t s) = s_zombies s" "cr3 (unregister_thread t s) = cr3 s"
  "s_last_installed (unregister_thread t s) = s_last_installed s"
  "s_kernel_root (unregister_thread t s) = s_kernel_root s" "s_table (unregister_thread t s) = s_table s"
  "s_ticks (unregister_thread t s) = s_ticks s" "s_need_resched (unregister_thread t s) = s_need_resched s"
  "freed_stacks (unregister_thread t s) = freed_stacks s" "kfreed (unregister_thread t s) = kfreed s"
  by (simp_all add: unregister_thread_def Let_def)

lemma thread_reap_frame [simp]:
  "th_cur (thread_reap t s) = th_cur s" "runq (thread_reap t s) = runq s"
  "runq_len (thread_reap t s) = runq_len s" "s_current (thread_reap t s) = s_current s"
  "s_idle (thread_reap t s) = s_idle s" "s_zombies (thread_reap t s) = s_zombies s"
  "cr3 (thread_reap t s) = cr3 s" "s_last_installed (thread_reap t s) = s_last_installed s"
  "s_kernel_root (thread_reap t s) = s_kernel_root s" "s_table (thread_reap t s) = s_table s"
  "s_ticks (thread_reap t s) = s_ticks s" "s_need_resched (thread_reap t s) = s_need_resched s"
  "kfreed (thread_reap t s) = t # kfreed s"
  "threads (thread_reap t s) = (threads s)(t := (threads s t)\<lparr>th_state := AF_THREAD_DEAD, th_stack_base := 0\<rparr>)"
  by (simp_all add: thread_reap_def Let_def) (cases "threads s t"; simp)

lemma thread_reap_stacks:
  "freed_stacks (thread_reap t s) = freed_stacks s @
     (if th_stack_base (threads s t) = 0 then [] else [(th_stack_base (threads s t), th_stack_size (threads s t) div 4096)])"
  by (simp add: thread_reap_def Let_def)

lemma registered_index:
  assumes "threads_ok s" "Some t \<in> set (s_threads s)"
  obtains i where "i < AF_MAX_THREADS" "s_threads s ! i = Some t" "unat (th_tid (threads s t)) = i + 1"
    "unat (th_tid (threads s t) - 1) = i" "th_tid (threads s t) \<noteq> 0" "\<not> 1024 < th_tid (threads s t)"
    "\<And>j. j < AF_MAX_THREADS \<Longrightarrow> s_threads s ! j = Some t \<Longrightarrow> j = i"
proof -
  obtain i where i: "i < AF_MAX_THREADS" "s_threads s ! i = Some t"
    using assms by (auto simp: threads_ok_def in_set_conv_nth)
  then have tid: "unat (th_tid (threads s t)) = i + 1" using assms by (simp add: threads_ok_def)
  then have "th_tid (threads s t) \<noteq> 0" by auto
  moreover from this tid have "unat (th_tid (threads s t) - 1) = i" by (simp add: unat_minus_one_word)
  moreover have "\<not> 1024 < th_tid (threads s t)" using tid i by (simp add: word_less_nat_alt)
  moreover have "j = i" if "j < AF_MAX_THREADS" "s_threads s ! j = Some t" for j
    using that assms tid by (auto simp: threads_ok_def)
  ultimately show thesis using that i tid by blast
qed

lemma threads_ok_count_bound: "threads_ok s \<Longrightarrow> unat (s_thread_count s) \<le> AF_MAX_THREADS"
  unfolding threads_ok_def by (metis length_filter_le)

lemma threads_ok_reap:
  assumes ok: "threads_ok s" and t: "Some t \<in> set (s_threads s)"
  shows "threads_ok (thread_reap t s)"
proof -
  from registered_index [OF ok t] obtain i where i: "i < AF_MAX_THREADS" "s_threads s ! i = Some t"
      "unat (th_tid (threads s t)) = i + 1" "unat (th_tid (threads s t) - 1) = i" "th_tid (threads s t) \<noteq> 0"
      "\<not> 1024 < th_tid (threads s t)"
      and uniq: "\<And>j. j < AF_MAX_THREADS \<Longrightarrow> s_threads s ! j = Some t \<Longrightarrow> j = i" by metis
  have len: "length (s_threads s) = AF_MAX_THREADS" using ok by (simp add: threads_ok_def)
  have count: "Suc (length (filter (\<lambda>e. e \<noteq> None) ((s_threads s)[i := None]))) = unat (s_thread_count s)"
  proof -
    have "unat (s_thread_count s) = length (filter (\<lambda>e. e \<noteq> None) (s_threads s))"
      using ok by (simp only: threads_ok_def)
    moreover have "i < length (s_threads s)" "s_threads s ! i \<noteq> None" using i len by simp_all
    ultimately show ?thesis by (simp only: filter_update_clear not_not simp_thms)
  qed
  then have c0: "s_thread_count s \<noteq> 0" by auto
  have new: "s_threads (thread_reap t s) = (s_threads s)[i := None]"
    "s_thread_count (thread_reap t s) = s_thread_count s - 1"
    using i c0 by (simp_all add: thread_reap_def unregister_thread_def Let_def word_gt_0)
  have other: "Some u \<in> set ((s_threads s)[i := None])"
    if u: "u \<noteq> t" "th_state (threads s u) \<notin> {AF_THREAD_FREE, AF_THREAD_DEAD}" for u
  proof -
    from live_registered [OF ok u(2)] obtain j where "j < length (s_threads s)" "s_threads s ! j = Some u"
      by (auto simp: in_set_conv_nth)
    moreover from this u i have "j \<noteq> i" by auto
    ultimately have "(s_threads s)[i := None] ! j = Some u" "j < length ((s_threads s)[i := None])" by simp_all
    then show ?thesis by (metis nth_mem)
  qed
  show ?thesis
    unfolding threads_ok_def new
  proof (intro conjI allI impI)
    fix j u assume "j < AF_MAX_THREADS" "(s_threads s)[i := None] ! j = Some u"
    then have "j \<noteq> i" "s_threads s ! j = Some u" using i len by (auto simp: nth_list_update split: if_splits)
    moreover from this uniq \<open>j < AF_MAX_THREADS\<close> have "u \<noteq> t" by auto
    ultimately show "unat (th_tid (threads (thread_reap t s) u)) = j + 1"
      "th_state (threads (thread_reap t s) u) \<notin> {AF_THREAD_FREE, AF_THREAD_DEAD}"
      using ok \<open>j < AF_MAX_THREADS\<close> by (auto simp: threads_ok_def)
  next
    fix u assume "th_state (threads (thread_reap t s) u) \<notin> {AF_THREAD_FREE, AF_THREAD_DEAD}"
    then show "Some u \<in> set ((s_threads s)[i := None])" using other by (auto split: if_splits)
  qed (use len count c0 in \<open>simp_all add: unat_minus_one_word\<close>)
qed

lemma threads_ok_state:
  assumes "threads_ok s" "Some t \<in> set (s_threads s)" "th_tid (f (threads s t)) = th_tid (threads s t)"
    "th_state (f (threads s t)) \<notin> {AF_THREAD_FREE, AF_THREAD_DEAD}"
  shows "threads_ok (upd_thread t f s)"
  using assms by (auto simp: threads_ok_def)

lemma threads_ok_cong:
  "threads_ok s \<Longrightarrow> threads s' = threads s \<Longrightarrow> s_threads s' = s_threads s \<Longrightarrow>
     s_thread_count s' = s_thread_count s \<Longrightarrow> threads_ok s'"
  by (simp add: threads_ok_def)

definition sched_gen :: "tptr set \<Rightarrow> tptr set \<Rightarrow> tptr set \<Rightarrow> 'a kstate_scheme \<Rightarrow> bool" where
  "sched_gen H Z R s \<longleftrightarrow> ready_ok H s \<and> threads_ok s \<and> zombies_ok Z s \<and> idle_ok s \<and> running_ok R s"

lemma sched_inv_gen: "sched_inv s \<longleftrightarrow> sched_gen {} {} {the (s_current s)} s"
  by (simp add: sched_inv_def sched_gen_def)

lemma sched_gen_reg:
  "sched_gen H Z R s \<Longrightarrow> th_state (threads s t) \<notin> {AF_THREAD_FREE, AF_THREAD_DEAD} \<Longrightarrow> Some t \<in> set (s_threads s)"
  by (auto simp: sched_gen_def intro: live_registered)

lemma sched_gen_upd:
  assumes g: "sched_gen H Z R s"
    and t: "th_state (f (threads s t)) = th_state (threads s t)" "th_priority (f (threads s t)) = th_priority (threads s t)"
      "th_tid (f (threads s t)) = th_tid (threads s t)"
  shows "sched_gen H Z R (upd_thread t f s)"
  using g t by (auto simp: sched_gen_def ready_ok_def threads_ok_def zombies_ok_def idle_ok_def running_ok_def split: option.splits)

text \<open>Fields the invariant does not read.\<close>

lemma zombies_ok_cong: "zombies_ok Z s \<Longrightarrow> threads s' = threads s \<Longrightarrow> s_zombies s' = s_zombies s \<Longrightarrow> zombies_ok Z s'"
  by (simp add: zombies_ok_def)

lemma idle_ok_cong: "idle_ok s \<Longrightarrow> threads s' = threads s \<Longrightarrow> s_idle s' = s_idle s \<Longrightarrow> idle_ok s'"
  by (simp only: idle_ok_def)

lemma running_ok_cong:
  "running_ok R s \<Longrightarrow> threads s' = threads s \<Longrightarrow> th_cur s' = th_cur s \<Longrightarrow> s_current s' = s_current s \<Longrightarrow> running_ok R s'"
  by (simp add: running_ok_def)

lemma running_state: "running_ok R s \<Longrightarrow> t \<in> R \<Longrightarrow> th_state (threads s t) = AF_THREAD_RUNNING"
  by (simp add: running_ok_def)

lemma sched_gen_cong:
  "sched_gen H Z R s \<Longrightarrow> threads s' = threads s \<Longrightarrow> s_threads s' = s_threads s \<Longrightarrow>
     s_thread_count s' = s_thread_count s \<Longrightarrow> th_cur s' = th_cur s \<Longrightarrow> s_current s' = s_current s \<Longrightarrow>
     s_idle s' = s_idle s \<Longrightarrow> s_zombies s' = s_zombies s \<Longrightarrow> runq s' = runq s \<Longrightarrow> runq_len s' = runq_len s \<Longrightarrow>
     sched_gen H Z R s'"
  unfolding sched_gen_def by (auto intro: ready_cong threads_ok_cong zombies_ok_cong idle_ok_cong running_ok_cong)

lemma zombie_state: "zombies_ok Z s \<Longrightarrow> t \<in> set (s_zombies s) \<union> Z \<Longrightarrow> th_state (threads s t) = AF_THREAD_ZOMBIE"
  by (simp add: zombies_ok_def)

lemma zombies_ok_state:
  assumes "zombies_ok Z s" "th_state (threads s t) \<noteq> AF_THREAD_ZOMBIE" "th_state (f (threads s t)) \<noteq> AF_THREAD_ZOMBIE"
  shows "zombies_ok Z (upd_thread t f s)"
  using assms by (auto simp: zombies_ok_def)

lemma gen_push:
  assumes g: "sched_gen H Z R s" and t: "th_state (threads s t) \<noteq> AF_THREAD_RUNNABLE \<or> t \<in> H"
    and live: "th_state (threads s t) \<notin> {AF_THREAD_FREE, AF_THREAD_DEAD, AF_THREAD_ZOMBIE}"
  shows "sched_gen (H - {t}) Z (R - {t}) (runq_push t s)"
proof -
  have reg: "Some t \<in> set (s_threads s)" using sched_gen_reg [OF g] live by simp
  from g have parts: "ready_ok H s" "threads_ok s" "zombies_ok Z s" "idle_ok s" "running_ok R s"
    by (simp_all add: sched_gen_def)
  have "ready_ok (H - {t}) (runq_push t s)" using parts reg t by (intro ready_push)
  moreover have "threads_ok (runq_push t s)" using parts(2) reg by (auto simp: threads_ok_def)
  moreover have "zombies_ok Z (runq_push t s)" using parts(3) live by (auto simp: zombies_ok_def)
  moreover have "idle_ok (runq_push t s)" using parts(4) by (auto simp: idle_ok_def split: option.splits)
  moreover have "running_ok (R - {t}) (runq_push t s)" using parts(5) by (auto simp: running_ok_def)
  ultimately show ?thesis by (simp add: sched_gen_def)
qed

text \<open>A thread that leaves the CPU without going back to a queue: it blocks, sleeps or exits.\<close>

lemma gen_leave:
  assumes g: "sched_gen H {} R s" and t: "t \<in> R" "Some t \<noteq> s_idle s"
    and f: "th_state (f (threads s t)) \<in> {AF_THREAD_BLOCKED, AF_THREAD_SLEEPING, AF_THREAD_ZOMBIE}"
      "th_tid (f (threads s t)) = th_tid (threads s t)"
  shows "sched_gen H (if th_state (f (threads s t)) = AF_THREAD_ZOMBIE then {t} else {}) (R - {t}) (upd_thread t f s)"
proof -
  from g have parts: "ready_ok H s" "threads_ok s" "zombies_ok {} s" "idle_ok s" "running_ok R s"
    by (simp_all add: sched_gen_def)
  have run: "th_state (threads s t) = AF_THREAD_RUNNING" using parts(5) t by (simp add: running_ok_def)
  have reg: "Some t \<in> set (s_threads s)" using sched_gen_reg [OF g] run by simp
  have "t \<notin> H" using parts(1) run by (auto simp: ready_ok_def)
  then have "ready_ok H (upd_thread t f s)" using ready_state [OF parts(1), of t f] run f by auto
  moreover have "threads_ok (upd_thread t f s)" using parts(2) reg f by (intro threads_ok_state) auto
  moreover have "zombies_ok (if th_state (f (threads s t)) = AF_THREAD_ZOMBIE then {t} else {}) (upd_thread t f s)"
    using parts(3) run zombie_state [OF parts(3), of t] by (auto simp: zombies_ok_def)
  moreover have "idle_ok (upd_thread t f s)" using parts(4) t by (auto simp: idle_ok_def split: option.splits)
  moreover have "running_ok (R - {t}) (upd_thread t f s)" using parts(5) t f by (auto simp: running_ok_def)
  ultimately show ?thesis by (simp add: sched_gen_def)
qed

lemma make_current_simps [simp]:
  "s_current (make_current n s) = Some n" "th_cur (make_current n s) = Some n"
  "threads (make_current n s) = (threads s)(n := (threads s n)\<lparr>th_state := AF_THREAD_RUNNING,
     th_time_slice := AF_TIME_SLICE_TICKS, th_switches := th_switches (threads s n) + 1\<rparr>)"
  "s_idle (make_current n s) = s_idle s" "s_zombies (make_current n s) = s_zombies s"
  "s_threads (make_current n s) = s_threads s" "s_thread_count (make_current n s) = s_thread_count s"
  "runq (make_current n s) = runq s" "runq_len (make_current n s) = runq_len s"
  "cr3 (make_current n s) = cr3 s" "s_last_installed (make_current n s) = s_last_installed s"
  "s_kernel_root (make_current n s) = s_kernel_root s" "s_table (make_current n s) = s_table s"
  "s_ticks (make_current n s) = s_ticks s" "s_need_resched (make_current n s) = s_need_resched s"
  "freed_stacks (make_current n s) = freed_stacks s" "kfreed (make_current n s) = kfreed s"
  by (simp_all add: make_current_def Let_def)

text \<open>What may be given the CPU: a thread just popped, or an idle thread that was never queued.\<close>

definition can_run :: "tptr set \<Rightarrow> tptr \<Rightarrow> 'a kstate_scheme \<Rightarrow> bool" where
  "can_run H n s \<longleftrightarrow> n \<in> H \<or> (s_idle s = Some n \<and> th_state (threads s n) \<in> {AF_THREAD_CREATED, AF_THREAD_RUNNING})"

lemma gen_make_current:
  assumes g: "sched_gen H Z R s" and n: "can_run H n s" and H: "H \<subseteq> {n}" and R: "R \<subseteq> {n}"
  shows "sched_gen {} Z {n} (make_current n s)"
proof -
  from g have parts: "ready_ok H s" "threads_ok s" "zombies_ok Z s" "idle_ok s" "running_ok R s"
    by (simp_all add: sched_gen_def)
  have st: "th_state (threads s n) \<in> {AF_THREAD_CREATED, AF_THREAD_RUNNING, AF_THREAD_RUNNABLE}"
    "th_state (threads s n) = AF_THREAD_RUNNABLE \<Longrightarrow> n \<in> H"
    using n parts(1) by (auto simp: can_run_def ready_ok_def)
  have reg: "Some n \<in> set (s_threads s)" using sched_gen_reg [OF g, of n] st by auto
  have nz: "n \<notin> set (s_zombies s)" "n \<notin> Z" using zombie_state [OF parts(3), of n] st by auto
  have "H - {n} = {}" using H by auto
  with st parts(1) have "ready_ok {} (make_current n s)"
    by (auto simp: ready_ok_def)
  moreover have "threads_ok (make_current n s)" using parts(2) reg by (auto simp: threads_ok_def)
  moreover have "zombies_ok Z (make_current n s)"
    using parts(3) nz by (auto simp: zombies_ok_def)
  moreover have "idle_ok (make_current n s)" using parts(4) by (auto simp: idle_ok_def split: option.splits)
  moreover have "running_ok {n} (make_current n s)" using parts(5) R by (auto simp: running_ok_def)
  ultimately show ?thesis by (simp add: sched_gen_def)
qed

text \<open>An exited thread goes on the list, or takes the place of the one reaped to make room.\<close>

lemma runq_remove_notin:
  "ready_ok H s \<Longrightarrow> th_state (threads s t) \<noteq> AF_THREAD_RUNNABLE \<Longrightarrow> runq_remove t s = (False, s)"
  by (auto simp: runq_remove_def ready_ok_def find_None_iff split: option.split dest!: find_SomeD)

lemma gen_thread_reap:
  assumes g: "sched_gen H Z R s" and t: "th_state (threads s t) = AF_THREAD_ZOMBIE"
  shows "ready_ok H (thread_reap t s) \<and> threads_ok (thread_reap t s) \<and> idle_ok (thread_reap t s) \<and>
    running_ok R (thread_reap t s)"
proof -
  from g have parts: "ready_ok H s" "threads_ok s" "zombies_ok Z s" "idle_ok s" "running_ok R s"
    by (simp_all add: sched_gen_def)
  have "ready_ok H (thread_reap t s)" using parts(1) t by (auto simp: ready_ok_def)
  moreover have "threads_ok (thread_reap t s)"
    using parts(2) sched_gen_reg [OF g, of t] t by (intro threads_ok_reap) auto
  moreover have "idle_ok (thread_reap t s)" using parts(4) t by (auto simp: idle_ok_def split: option.splits)
  moreover have "running_ok R (thread_reap t s)" using parts(5) t running_state [OF parts(5), of t] by (auto simp: running_ok_def)
  ultimately show ?thesis by simp
qed

lemma gen_sched_reap:
  assumes g: "sched_gen H {t} R s"
  shows "sched_gen H {} R (sched_reap (Some t) s)"
proof -
  from g have parts: "ready_ok H s" "zombies_ok {t} s" by (simp_all add: sched_gen_def)
  have t: "th_state (threads s t) = AF_THREAD_ZOMBIE" "t \<notin> set (s_zombies s)"
    using parts(2) by (auto simp: zombies_ok_def)
  have rem: "snd (runq_remove t s) = s" using runq_remove_notin [OF parts(1)] t by simp
  show ?thesis
  proof (cases "length (s_zombies s) < 16")
    case True
    then have "sched_reap (Some t) s = s\<lparr>s_zombies := s_zombies s @ [t]\<rparr>"
      using t rem by (simp add: sched_reap_def Let_def)
    then show ?thesis using g True t
      by (auto simp: sched_gen_def ready_ok_def threads_ok_def zombies_ok_def idle_ok_def running_ok_def split: option.splits)
  next
    case False
    then obtain z zs where z: "s_zombies s = z # zs" by (cases "s_zombies s") auto
    then have zt: "z \<noteq> t" "th_state (threads s z) = AF_THREAD_ZOMBIE" "z \<notin> set zs" "t \<notin> set zs"
      using parts(2) t by (auto simp: zombies_ok_def)
    have e: "sched_reap (Some t) s = (thread_reap z s)\<lparr>s_zombies := zs @ [t]\<rparr>"
      using t rem z False by (simp add: sched_reap_def Let_def)
    have "zombies_ok {} ((thread_reap z s)\<lparr>s_zombies := zs @ [t]\<rparr>)"
      using parts(2) z zt by (auto simp: zombies_ok_def)
    with gen_thread_reap [OF g zt(2)] show ?thesis
      by (auto simp: e sched_gen_def intro: ready_cong threads_ok_cong idle_ok_cong running_ok_cong)
  qed
qed

lemma sched_reap_frame [simp]:
  "s_current (sched_reap t s) = s_current s" "s_idle (sched_reap t s) = s_idle s"
  "th_cur (sched_reap t s) = th_cur s"
  "cr3 (sched_reap t s) = cr3 s" "s_last_installed (sched_reap t s) = s_last_installed s"
  "s_kernel_root (sched_reap t s) = s_kernel_root s" "s_table (sched_reap t s) = s_table s"
  by (auto simp: sched_reap_def runq_remove_def dec_len_def Let_def split: option.split)

lemma install_root_simps [simp]:
  "threads (install_root r s) = threads s" "s_threads (install_root r s) = s_threads s"
  "s_thread_count (install_root r s) = s_thread_count s" "th_cur (install_root r s) = th_cur s"
  "s_current (install_root r s) = s_current s" "s_idle (install_root r s) = s_idle s"
  "s_zombies (install_root r s) = s_zombies s" "runq (install_root r s) = runq s"
  "runq_len (install_root r s) = runq_len s" "s_table (install_root r s) = s_table s"
  "s_kernel_root (install_root r s) = s_kernel_root s"
  by (simp_all add: install_root_def)

lemma gen_install_root: "sched_gen H Z R s \<Longrightarrow> sched_gen H Z R (install_root r s)"
  by (rule sched_gen_cong) simp_all

lemma can_run_reap:
  assumes "sched_gen H {t} R s" "can_run H n s" "n \<noteq> t"
  shows "can_run H n (sched_reap (Some t) s)"
proof -
  have "th_state (threads s n) \<noteq> AF_THREAD_ZOMBIE"
    using assms by (auto simp: can_run_def sched_gen_def ready_ok_def zombies_ok_def)
  moreover have "th_state (threads (sched_reap (Some t) s) n) = th_state (threads s n)"
    if "th_state (threads s n) \<noteq> AF_THREAD_ZOMBIE"
  proof -
    have z: "ready_ok H s" "th_state (threads s t) = AF_THREAD_ZOMBIE" "\<forall>z \<in> set (s_zombies s). th_state (threads s z) = AF_THREAD_ZOMBIE"
      using assms(1) by (auto simp: sched_gen_def zombies_ok_def)
    then have "16 \<le> length (s_zombies s) \<Longrightarrow> hd (s_zombies s) \<noteq> n"
      using that by (metis hd_in_set list.size(3) not_numeral_le_zero)
    then show ?thesis using runq_remove_notin [OF z(1), of t] z(2)
      by (auto simp: sched_reap_def Let_def)
  qed
  ultimately show ?thesis using assms(2) by (auto simp: can_run_def)
qed

text \<open>The switch: from a running thread, or from one that has just exited.\<close>

lemma switch_to_ok:
  assumes g: "sched_gen H Z R s" and cur: "s_current s = Some p" and n: "can_run H n s" "n \<noteq> p"
    and H: "H \<subseteq> {n}" and how: "Z = {} \<and> R = {p} \<or> Z = {p} \<and> R = {}"
  shows "\<exists>s'. switch_to (Some n) s = Some s' \<and> sched_inv s' \<and> s_current s' = Some n"
proof -
  define s1 where "s1 = (if th_state (threads s p) = AF_THREAD_RUNNING
      then runq_push p (upd_thread p (\<lambda>th. th\<lparr>th_state := AF_THREAD_RUNNABLE\<rparr>) s) else s)"
  define s2 where "s2 = (if th_state (threads s1 p) = AF_THREAD_ZOMBIE then sched_reap (Some p) s1 else s1)"
  have gen2: "sched_gen H {} {} s2 \<and> can_run H n s2"
    using how
  proof (elim disjE conjE)
    assume [simp]: "Z = {}" "R = {p}"
    have run: "th_state (threads s p) = AF_THREAD_RUNNING" using g by (simp add: sched_gen_def running_ok_def)
    have "p \<notin> H" using g run by (auto simp: sched_gen_def ready_ok_def)
    have same: "runq_push p (upd_thread p (\<lambda>th. th\<lparr>th_state := AF_THREAD_RUNNABLE\<rparr>) s) = runq_push p s"
      by (simp add: runq_push_def Let_def upd_thread_def)
    have "sched_gen (H - {p}) {} ({p} - {p}) (runq_push p s)" using g run by (intro gen_push) auto
    moreover have "can_run H n (runq_push p s)" using n by (simp add: can_run_def)
    moreover have "s2 = runq_push p s" by (simp add: s2_def s1_def run same)
    ultimately show ?thesis using \<open>p \<notin> H\<close> by simp
  next
    assume [simp]: "Z = {p}" "R = {}"
    have z: "th_state (threads s p) = AF_THREAD_ZOMBIE" using g by (simp add: sched_gen_def zombies_ok_def)
    then have "s2 = sched_reap (Some p) s" by (simp add: s2_def s1_def)
    then show ?thesis using gen_sched_reap [of H p R s] can_run_reap [of H p R s n] g n by simp
  qed
  then have "sched_gen {} {} {n} (make_current n s2)" using H by (intro gen_make_current [where H = H and R = "{}"]) auto
  moreover have "switch_to (Some n) s = Some (install_root
      (wanted_root (th_process (threads (make_current n s2) n)) (make_current n s2)) (make_current n s2))"
    using cur n by (simp add: switch_to_def s1_def s2_def Let_def)
  ultimately show ?thesis by (simp add: sched_inv_gen gen_install_root)
qed

text \<open>A state change of a thread that is neither queued nor running nor exited, to the like.\<close>

lemma gen_runq:
  assumes g: "sched_gen H Z R s" and "ready_ok H' s'" "threads s' = threads s" "s_threads s' = s_threads s"
    "s_thread_count s' = s_thread_count s" "th_cur s' = th_cur s" "s_current s' = s_current s"
    "s_idle s' = s_idle s" "s_zombies s' = s_zombies s"
  shows "sched_gen H' Z R s'"
  using assms unfolding sched_gen_def
  by (auto intro: threads_ok_cong zombies_ok_cong idle_ok_cong running_ok_cong)

text \<open>
  What \<open>pick_next\<close> hands back can be given the CPU, and the rest of the state is as it was.
\<close>

lemma ready_queued:
  "ready_ok H s \<Longrightarrow> th_state (threads s t) = AF_THREAD_RUNNABLE \<Longrightarrow> t \<notin> H \<Longrightarrow>
     t \<in> set (runq s ! prio_level (th_priority (threads s t)))"
  using prio_level_less [of "th_priority (threads s t)"] unfolding ready_ok_def by blast

lemma gen_pick:
  assumes g: "sched_gen {} Z R s" and cur: "s_current s = Some c" and pick: "pick_next s = (n, s')"
    and how: "R = {c} \<or> R = {} \<and> s_idle s \<noteq> Some c \<and> th_state (threads s c) \<noteq> AF_THREAD_RUNNABLE"
  obtains (same) "n = Some c" "s' = s" "R = {c}"
  | (other) t H where "n = Some t" "t \<noteq> c" "sched_gen H Z R s'" "H \<subseteq> {t}" "can_run H t s'"
proof -
  from g have parts: "ready_ok {} s" "threads_ok s" "zombies_ok Z s" "idle_ok s" "running_ok R s"
    by (simp_all add: sched_gen_def)
  have c: "th_state (threads s c) \<noteq> AF_THREAD_RUNNABLE" using how running_state [OF parts(5), of c] by auto
  show thesis
    using pick
  proof (cases rule: pick_next_cases)
    case (queued t p)
    from ready_pop [OF parts(1) queued(2,4)] have r: "ready_ok {t} s'" "th_state (threads s t) = AF_THREAD_RUNNABLE"
      by auto
    have "sched_gen {t} Z R s'" by (rule gen_runq [OF g r(1)]) (simp_all only: pick_next_frame [OF pick])
    with queued r c show thesis by (intro other [of t "{t}"]) (auto simp: can_run_def)
  next
    case (current d)
    then have "R = {c}" using cur parts(5) how by (auto simp: running_ok_def)
    then show thesis using current cur by (intro same) auto
  next
    case idle
    obtain i where i: "s_idle s = Some i" "th_state (threads s i) \<in> {AF_THREAD_CREATED, AF_THREAD_RUNNABLE, AF_THREAD_RUNNING}"
      using parts(4) by (auto simp: idle_ok_def split: option.splits)
    have nr: "th_state (threads s i) \<noteq> AF_THREAD_RUNNABLE"
    proof
      assume "th_state (threads s i) = AF_THREAD_RUNNABLE"
      then have "i \<in> set (runq s ! prio_level (th_priority (threads s i)))" by (rule ready_queued [OF parts(1)]) simp
      then show False using idle(3) prio_level_less [of "th_priority (threads s i)"] by auto
    qed
    have "R \<noteq> {c}" using idle(4) cur running_state [OF parts(5), of c] by auto
    with how i have "i \<noteq> c" by auto
    show thesis
    proof (rule other [of i "{}"])
      show "can_run {} i s'" using i nr idle(2) by (auto simp: can_run_def)
    qed (use i idle(1,2) g \<open>i \<noteq> c\<close> in auto)
  qed
qed

subsection \<open>The operations\<close>

lemma pick_switch_ok:
  assumes g: "sched_gen {} Z R s" and cur: "s_current s = Some c" and pick: "pick_next s = (n, s1)"
    and how: "Z = {} \<and> R = {c} \<or> Z = {c} \<and> R = {} \<and> s_idle s \<noteq> Some c"
  shows "\<exists>s'. switch_to n s1 = Some s' \<and> sched_inv s' \<and> s_current s' = n"
proof -
  have z: "Z = {c} \<Longrightarrow> th_state (threads s c) = AF_THREAD_ZOMBIE" using g by (auto simp: sched_gen_def zombies_ok_def)
  have cur1: "s_current s1 = Some c" using pick_next_frame(5) [OF pick] cur by simp
  from g cur pick show ?thesis
  proof (rule gen_pick)
    show "R = {c} \<or> R = {} \<and> s_idle s \<noteq> Some c \<and> th_state (threads s c) \<noteq> AF_THREAD_RUNNABLE"
      using how z by auto
  next
    assume "n = Some c" "s1 = s" "R = {c}"
    with g cur how show ?thesis by (auto simp: switch_to_def sched_inv_gen)
  next
    fix t H assume "n = Some t" "t \<noteq> c" "sched_gen H Z R s1" "H \<subseteq> {t}" "can_run H t s1"
    with switch_to_ok [OF _ cur1, of H Z R t] how show ?thesis by auto
  qed
qed

lemma sched_yield_ok:
  assumes "sched_inv s"
  shows "\<exists>s'. sched_yield s = Some s' \<and> sched_inv s'"
proof -
  obtain c where c: "s_current s = Some c" using assms by (auto simp: sched_inv_def running_ok_def)
  have g: "sched_gen {} {} {c} s" using assms c by (simp add: sched_inv_gen)
  then have run: "th_state (threads s c) = AF_THREAD_RUNNING" by (simp add: sched_gen_def running_ok_def)
  define s1 where "s1 = upd_thread c (\<lambda>th. th\<lparr>th_time_slice := AF_TIME_SLICE_TICKS\<rparr>) s"
  have "sched_gen {} {} {c} s1" using g by (auto simp: s1_def intro: sched_gen_upd)
  moreover obtain n s2 where "pick_next s1 = (n, s2)" by fastforce
  ultimately show ?thesis using pick_switch_ok [of "{}" "{c}" s1 c n s2] c run
    by (auto simp: sched_yield_def s1_def Let_def)
qed

lemma thread_exit_ok:
  assumes "sched_inv s" "s_current s \<noteq> s_idle s"
  shows "\<exists>s'. thread_exit s = Some s' \<and> sched_inv s'"
proof -
  obtain c where c: "s_current s = Some c" "th_cur s = Some c" using assms by (auto simp: sched_inv_def running_ok_def)
  have g: "sched_gen {} {} {c} s" using assms c by (simp add: sched_inv_gen)
  define s1 where "s1 = upd_thread c (\<lambda>th. th\<lparr>th_state := AF_THREAD_ZOMBIE\<rparr>) s"
  have "sched_gen {} {c} {} s1"
    using gen_leave [OF g, of c "\<lambda>th. th\<lparr>th_state := AF_THREAD_ZOMBIE\<rparr>"] assms(2) c by (simp add: s1_def)
  moreover have "th_state (threads s1 c) = AF_THREAD_ZOMBIE" "s_current s1 = Some c" "s_idle s1 \<noteq> Some c"
    using c assms(2) by (simp_all add: s1_def)
  moreover obtain n s2 where "pick_next s1 = (n, s2)" by fastforce
  ultimately show ?thesis using pick_switch_ok [of "{c}" "{}" s1 c n s2] c
    by (auto simp: thread_exit_def sched_yield_def s1_def [symmetric] Let_def)
qed

lemma give_away_ok:
  assumes g: "sched_gen {} {} {c} s" and c: "s_current s = Some c" "s_idle s \<noteq> Some c"
    and f: "th_state (f (threads s c)) \<in> {AF_THREAD_BLOCKED, AF_THREAD_SLEEPING}"
      "th_tid (f (threads s c)) = th_tid (threads s c)"
  shows "\<exists>s'. give_away c (upd_thread c f s) = Some s' \<and> sched_inv s' \<and> s_current s' \<noteq> Some c \<and> cr3 s' = cr3 s \<and>
    s_last_installed s' = s_last_installed s"
proof -
  define s1 where "s1 = upd_thread c f s"
  have g1: "sched_gen {} {} {} s1" using gen_leave [OF g, of c f] c f by (auto simp: s1_def split: if_splits)
  obtain n s2 where pick: "pick_next s1 = (n, s2)" by fastforce
  note frame = pick_next_frame [OF pick]
  have "s_current s1 = Some c" using c by (simp add: s1_def)
  from g1 this pick have "\<exists>s'. give_away c s1 = Some s' \<and> sched_inv s' \<and> s_current s' \<noteq> Some c \<and> cr3 s' = cr3 s1 \<and>
    s_last_installed s' = s_last_installed s1"
  proof (rule gen_pick)
    show "{} = {c} \<or> {} = {} \<and> s_idle s1 \<noteq> Some c \<and> th_state (threads s1 c) \<noteq> AF_THREAD_RUNNABLE"
      using c f by (auto simp: s1_def)
  next
    fix t H assume t: "n = Some t" "t \<noteq> c" "sched_gen H {} {} s2" "H \<subseteq> {t}" "can_run H t s2"
    have "sched_gen {} {} {t} (make_current t s2)" using t by (intro gen_make_current [where H = H and R = "{}"]) auto
    moreover have "s_current s2 = Some c" using frame(5) c by (simp add: s1_def)
    with t(1,2) have "give_away c s1 = Some (make_current t s2)" by (simp add: give_away_def pick)
    ultimately show ?thesis using t frame by (auto simp: sched_inv_gen)
  qed simp
  then show ?thesis by (simp add: s1_def)
qed

lemma sched_block_ok:
  assumes "sched_inv s"
  shows "\<exists>s'. sched_block obj s = Some s' \<and> sched_inv s' \<and> cr3 s' = cr3 s \<and> s_last_installed s' = s_last_installed s"
proof (cases "s_current s = None \<or> s_current s = s_idle s")
  case False
  then obtain c where c: "s_current s = Some c" "s_idle s \<noteq> Some c" by auto
  have "sched_gen {} {} {c} s" using assms c by (simp add: sched_inv_gen)
  from give_away_ok [OF this c, of "\<lambda>th. th\<lparr>th_state := AF_THREAD_BLOCKED, th_wait_obj := Some obj\<rparr>"] show ?thesis
    using False c by (auto simp: sched_block_def)
qed (use assms in \<open>auto simp: sched_block_def\<close>)

lemma sched_sleep_ok:
  assumes "sched_inv s"
  shows "\<exists>s'. sched_sleep n s = Some s' \<and> sched_inv s'"
proof (cases "s_current s = None \<or> s_current s = s_idle s \<or> n = 0")
  case False
  then obtain c where c: "s_current s = Some c" "s_idle s \<noteq> Some c" by auto
  have "sched_gen {} {} {c} s" using assms c by (simp add: sched_inv_gen)
  from give_away_ok [OF this c, of "\<lambda>th. th\<lparr>th_state := AF_THREAD_SLEEPING, th_wake_tick := s_ticks s + n\<rparr>"] show ?thesis
    using False c by (auto simp: sched_sleep_def)
qed (use assms in \<open>auto simp: sched_sleep_def\<close>)

lemma gen_unblock: "sched_gen {} Z R s \<Longrightarrow> sched_gen {} Z (R - {t}) (sched_unblock (Some t) s) \<or> sched_unblock (Some t) s = s"
  using gen_push [of "{}" Z R s t] by (auto simp: sched_unblock_def)

lemma gen_wake:
  assumes g: "sched_gen {} Z R s" and t: "th_state (threads s t) \<in> {AF_THREAD_BLOCKED, AF_THREAD_SLEEPING, AF_THREAD_CREATED}"
  shows "sched_gen {} Z R (runq_push t s)"
proof -
  have "t \<notin> R" using g t running_state [of R s t] by (auto simp: sched_gen_def)
  then have "R - {t} = R" by auto
  moreover have "th_state (threads s t) \<noteq> AF_THREAD_RUNNABLE \<or> t \<in> {}"
    "th_state (threads s t) \<notin> {AF_THREAD_FREE, AF_THREAD_DEAD, AF_THREAD_ZOMBIE}" using t by auto
  from gen_push [OF g this] have "sched_gen ({} - {t}) Z (R - {t}) (runq_push t s)" .
  ultimately show ?thesis by simp
qed

lemma sched_unblock_gen: "sched_gen {} Z R s \<Longrightarrow> sched_gen {} Z R (sched_unblock t s)"
  by (cases t) (auto simp: sched_unblock_def intro: gen_wake)

lemma sched_admit_gen: "sched_gen {} Z R s \<Longrightarrow> sched_gen {} Z R (sched_admit t s)"
  by (cases t) (auto simp: sched_admit_def intro: gen_wake)

lemma sched_unblock_frame [simp]:
  "s_current (sched_unblock t s) = s_current s" "th_cur (sched_unblock t s) = th_cur s"
  "s_idle (sched_unblock t s) = s_idle s" "s_zombies (sched_unblock t s) = s_zombies s"
  "cr3 (sched_unblock t s) = cr3 s" "s_last_installed (sched_unblock t s) = s_last_installed s"
  "s_kernel_root (sched_unblock t s) = s_kernel_root s" "s_table (sched_unblock t s) = s_table s"
  by (auto simp: sched_unblock_def split: option.split)

lemma sched_admit_frame [simp]:
  "s_current (sched_admit t s) = s_current s" "th_cur (sched_admit t s) = th_cur s"
  "s_idle (sched_admit t s) = s_idle s" "s_zombies (sched_admit t s) = s_zombies s"
  "cr3 (sched_admit t s) = cr3 s" "s_last_installed (sched_admit t s) = s_last_installed s"
  "s_kernel_root (sched_admit t s) = s_kernel_root s" "s_table (sched_admit t s) = s_table s"
  by (auto simp: sched_admit_def split: option.split)

subsection \<open>Sleepers\<close>

lemma thread_by_tid_nth: "i < AF_MAX_THREADS \<Longrightarrow> thread_by_tid s (of_nat (i + 1)) = s_threads s ! i"
proof -
  assume i: "i < AF_MAX_THREADS"
  then have u: "unat (of_nat (i + 1) :: u32) = i + 1"
    by (simp only: unat_of_nat) simp
  then have nz: "(of_nat (i + 1) :: u32) \<noteq> 0" by auto
  moreover have "unat ((of_nat (i + 1) :: u32) - 1) = i"
    by (simp only: unat_minus_one_word [OF nz] u diff_add_inverse2)
  moreover have "\<not> 1024 < (of_nat (i + 1) :: u32)" using u i by (simp add: word_less_nat_alt del: of_nat_Suc)
  ultimately show ?thesis by (simp add: thread_by_tid_def del: of_nat_Suc of_nat_add)
qed

definition expired :: "u64 \<Rightarrow> af_thread \<Rightarrow> bool" where
  "expired now th \<longleftrightarrow> th_state th = AF_THREAD_SLEEPING \<and> th_wake_tick th \<le> now"

lemma wake_one_eq:
  "i < AF_MAX_THREADS \<Longrightarrow> wake_one now i s =
     (case s_threads s ! i of None \<Rightarrow> s | Some t \<Rightarrow> if expired now (threads s t) then runq_push t s else s)"
  by (simp only: wake_one_def thread_by_tid_nth expired_def) 

lemma wake_fold:
  assumes "k \<le> AF_MAX_THREADS" "sched_gen {} Z R s"
  shows "let s' = fold (wake_one now) [0..<k] s in sched_gen {} Z R s' \<and>
    threads s' = (\<lambda>t. if Some t \<in> set (take k (s_threads s)) \<and> expired now (threads s t)
           then (threads s t)\<lparr>th_state := AF_THREAD_RUNNABLE\<rparr> else threads s t) \<and>
    s_threads s' = s_threads s \<and> s_current s' = s_current s \<and> s_idle s' = s_idle s \<and> s_ticks s' = s_ticks s \<and>
    s_zombies s' = s_zombies s \<and> cr3 s' = cr3 s \<and> s_last_installed s' = s_last_installed s \<and>
    s_kernel_root s' = s_kernel_root s \<and> s_table s' = s_table s"
  using assms
proof (induction k)
  case (Suc k)
  let ?s = "fold (wake_one now) [0..<k] s"
  have len: "k < length (s_threads s)" using Suc.prems by (simp add: sched_gen_def threads_ok_def)
  have tk: "take (Suc k) (s_threads s) = take k (s_threads s) @ [s_threads s ! k]" using len by (rule take_Suc_conv_app_nth)
  have IH: "sched_gen {} Z R ?s" "threads ?s = (\<lambda>t. if Some t \<in> set (take k (s_threads s)) \<and> expired now (threads s t)
           then (threads s t)\<lparr>th_state := AF_THREAD_RUNNABLE\<rparr> else threads s t)"
    "s_threads ?s = s_threads s" "s_current ?s = s_current s" "s_idle ?s = s_idle s" "s_ticks ?s = s_ticks s"
    "s_zombies ?s = s_zombies s" "cr3 ?s = cr3 s" "s_last_installed ?s = s_last_installed s"
    "s_kernel_root ?s = s_kernel_root s" "s_table ?s = s_table s"
    using Suc.IH [OF Suc_leD [OF Suc.prems(1)] Suc.prems(2)] by (simp_all only: Let_def)
  have step: "fold (wake_one now) [0..<Suc k] s =
      (case s_threads s ! k of None \<Rightarrow> ?s | Some t \<Rightarrow> if expired now (threads ?s t) then runq_push t ?s else ?s)"
    using Suc.prems wake_one_eq [of k now ?s] IH(3) by simp
  have new: "expired now (threads ?s t) \<longleftrightarrow> expired now (threads s t)"
    "threads ?s t = threads s t" if "s_threads s ! k = Some t" for t
  proof -
    have "Some t \<notin> set (take k (s_threads s))"
    proof
      assume "Some t \<in> set (take k (s_threads s))"
      then obtain j where j: "j < k" "s_threads s ! j = Some t" by (auto simp: in_set_conv_nth)
      have "unat (th_tid (threads s t)) = i + 1" if "i < AF_MAX_THREADS" "s_threads s ! i = Some t" for i
        using that Suc.prems(2) by (simp add: sched_gen_def threads_ok_def)
      from this [of j] this [of k] j \<open>s_threads s ! k = Some t\<close> Suc.prems(1) show False by simp
    qed
    then show "threads ?s t = threads s t" using IH(2) by simp
    then show "expired now (threads ?s t) \<longleftrightarrow> expired now (threads s t)" by simp
  qed
  show ?case
  proof (cases "s_threads s ! k")
    case None
    with IH step tk show ?thesis by (simp add: Let_def)
  next
    case (Some t)
    show ?thesis
    proof (cases "expired now (threads s t)")
      case False
      with IH step tk Some new show ?thesis by (auto simp: Let_def fun_eq_iff)
    next
      case True
      with step Some new have e: "fold (wake_one now) [0..<Suc k] s = runq_push t ?s" by simp
      have "sched_gen {} Z R (runq_push t ?s)" using IH(1) True Some new by (intro gen_wake) (auto simp: expired_def)
      then show ?thesis using IH True Some new unfolding e tk Let_def by (auto simp: fun_eq_iff)
    qed
  qed
qed simp

lemmas wake_foldD = wake_fold [unfolded Let_def, THEN conjunct1] wake_fold [unfolded Let_def, THEN conjunct2, THEN conjunct1]
  wake_fold [unfolded Let_def, THEN conjunct2, THEN conjunct2]

lemma wake_sleepers_gen:
  "sched_gen {} Z R s \<Longrightarrow> sched_gen {} Z R (sched_wake_sleepers now s)"
  unfolding sched_wake_sleepers_def by (rule wake_foldD(1)) simp_all

lemma sched_tick_ok:
  assumes "sched_inv s"
  shows "\<exists>s'. sched_tick s = Some s' \<and> sched_inv s'"
proof -
  obtain c where c: "s_current s = Some c" using assms by (auto simp: sched_inv_def running_ok_def)
  define s1 where "s1 = s\<lparr>s_ticks := s_ticks s + 1\<rparr>"
  define s2 where "s2 = sched_wake_sleepers (s_ticks s1) s1"
  have "sched_gen {} {} {c} s1"
    using assms c by (auto simp: sched_inv_gen s1_def elim!: sched_gen_cong)
  then have g2: "sched_gen {} {} {c} s2" unfolding s2_def by (rule wake_sleepers_gen)
  have c2: "s_current s2 = Some c"
    using wake_foldD(3) [OF order_refl \<open>sched_gen {} {} {c} s1\<close>] c
    by (simp add: s2_def sched_wake_sleepers_def s1_def)
  define s3 where "s3 = upd_thread c (\<lambda>th. th\<lparr>th_total_ticks := th_total_ticks th + 1,
      th_time_slice := (if 0 < th_time_slice th then th_time_slice th - 1 else th_time_slice th)\<rparr>) s2"
  have g3: "sched_gen {} {} {c} s3" using g2 by (auto simp: s3_def intro: sched_gen_upd)
  have run: "sched_tick s = (if th_time_slice (threads s3 c) = 0 \<or> s_need_resched s3
      then let (n, s4) = pick_next (s3\<lparr>s_need_resched := False\<rparr>) in switch_to n s4 else Some s3)"
    using c2 by (simp add: sched_tick_def Let_def s1_def [symmetric] s2_def [symmetric] s3_def [symmetric])
  have c3: "s_current s3 = Some c" using c2 by (simp add: s3_def)
  have g4: "sched_gen {} {} {c} (s3\<lparr>s_need_resched := False\<rparr>)" using g3 by (auto elim!: sched_gen_cong)
  obtain n s5 where p: "pick_next (s3\<lparr>s_need_resched := False\<rparr>) = (n, s5)" by fastforce
  have "\<exists>s'. switch_to n s5 = Some s' \<and> sched_inv s' \<and> s_current s' = n"
    using pick_switch_ok [OF g4 _ p, of c] c3 by simp
  with run p g3 c3 show ?thesis by (auto simp: sched_inv_gen)
qed

subsection \<open>Address-space roots\<close>

text \<open>
  The scheduler's record of \<open>CR3\<close> is right, the kernel's own root belongs to no process, and
  every thread's process pointer names a table entry.
\<close>

definition roots_ok :: "'a kstate_scheme \<Rightarrow> bool" where
  "roots_ok s \<longleftrightarrow> s_last_installed s = cr3 s \<and> s_kernel_root s \<noteq> 0 \<and> cr3 s \<noteq> 0 \<and>
     length (s_table s) = AF_MAX_PROCESSES \<and>
     (\<forall>p < AF_MAX_PROCESSES. pr_addr_space (s_table s ! p) \<noteq> s_kernel_root s) \<and>
     (\<forall>t p. th_process (threads s t) = Some p \<longrightarrow> p < AF_MAX_PROCESSES)"

lemma roots_ok_thread: "roots_ok s \<Longrightarrow> th_process (threads s t) = Some p \<Longrightarrow> p < AF_MAX_PROCESSES"
  by (auto simp: roots_ok_def)

text \<open>
  Collecting one exited thread: its stack and table entry go, and the process's page tables are
  never freed while \<open>CR3\<close> holds them.
\<close>

lemma sched_gen_upd_process [simp]: "sched_gen H Z R (upd_process p f s) \<longleftrightarrow> sched_gen H Z R s"
  by (auto elim!: sched_gen_cong)

lemma process_reap_frame:
  assumes "process_reap p s = Some s'"
  shows "threads s' = threads s" "s_threads s' = s_threads s" "s_thread_count s' = s_thread_count s"
    "th_cur s' = th_cur s" "s_current s' = s_current s" "s_idle s' = s_idle s" "s_zombies s' = s_zombies s"
    "cr3 s' = cr3 s" "s_last_installed s' = s_last_installed s" "s_kernel_root s' = s_kernel_root s"
    "runq s' = runq s" "runq_len s' = runq_len s" "length (s_table s') = length (s_table s)"
    "kfreed s' = kfreed s" "freed_stacks s' = freed_stacks s"
  using assms by (auto simp: process_reap_def Let_def split: option.splits if_splits)

lemma process_reap_gen:
  assumes "process_reap p s = Some s'"
  shows "sched_gen H Z R s' \<longleftrightarrow> sched_gen H Z R s"
  using process_reap_frame [OF assms] by (auto elim!: sched_gen_cong)

lemma process_reap_space:
  assumes "process_reap p s = Some s'" "q < length (s_table s)"
  shows "pr_addr_space (s_table s' ! q) \<in> {0, pr_addr_space (s_table s ! q)}"
  using assms by (auto simp: process_reap_def Let_def nth_update_if split: option.splits if_splits)

lemma process_detach_gen [simp]: "sched_gen H Z R s \<Longrightarrow> sched_gen H Z R (process_detach_thread t s)"
  by (auto simp: process_detach_thread_def intro!: sched_gen_upd split: option.split)

lemma process_detach_frame [simp]:
  "s_current (process_detach_thread t s) = s_current s" "s_idle (process_detach_thread t s) = s_idle s"
  "s_zombies (process_detach_thread t s) = s_zombies s" "cr3 (process_detach_thread t s) = cr3 s"
  "s_last_installed (process_detach_thread t s) = s_last_installed s"
  "s_kernel_root (process_detach_thread t s) = s_kernel_root s"
  "length (s_table (process_detach_thread t s)) = length (s_table s)"
  "th_state (threads (process_detach_thread t s) u) = th_state (threads s u)"
  "freed_stacks (process_detach_thread t s) = freed_stacks s" "kfreed (process_detach_thread t s) = kfreed s"
  by (auto simp: process_detach_thread_def split: option.split)

lemma process_detach_space:
  "q < length (s_table s) \<Longrightarrow> pr_addr_space (s_table (process_detach_thread t s) ! q) = pr_addr_space (s_table s ! q)"
  by (auto simp: process_detach_thread_def nth_update_if split: option.split)

lemma process_detach_process:
  "th_process (threads (process_detach_thread t s) u) = Some p \<Longrightarrow> th_process (threads s u) = Some p"
  by (auto simp: process_detach_thread_def split: option.splits if_splits)

lemma roots_ok_detach: "roots_ok s \<Longrightarrow> roots_ok (process_detach_thread t s)"
  by (auto simp: roots_ok_def process_detach_space dest: process_detach_process)

lemma roots_ok_reap:
  assumes "process_reap p s = Some s'" "roots_ok s"
  shows "roots_ok s'"
  using assms process_reap_frame [OF assms(1)] process_reap_space [OF assms(1)]
  unfolding roots_ok_def by (metis insert_iff singletonD)

lemma roots_ok_thread_reap: "roots_ok s \<Longrightarrow> roots_ok (thread_reap t s)"
  by (auto simp: roots_ok_def)

lemma roots_ok_zombies [simp]: "roots_ok (s\<lparr>s_zombies := zs\<rparr>) \<longleftrightarrow> roots_ok s"
  by (simp add: roots_ok_def)

definition stack_of :: "af_thread \<Rightarrow> (u64 \<times> u32) list" where
  "stack_of th = (if th_stack_base th = 0 then [] else [(th_stack_base th, th_stack_size th div 4096)])"

lemma thread_reap_stack_of: "freed_stacks (thread_reap t s) = freed_stacks s @ stack_of (threads s t)"
  by (simp add: thread_reap_stacks stack_of_def)

lemma process_detach_stack [simp]: "stack_of (threads (process_detach_thread t s) u) = stack_of (threads s u)"
  by (auto simp: process_detach_thread_def stack_of_def split: option.split)

lemma collect_one_frees:
  assumes "collect_one z s = Some s'"
  shows "kfreed s' = z # kfreed s \<and> freed_stacks s' = freed_stacks s @ stack_of (threads s z) \<and>
    (\<forall>t. t \<noteq> z \<longrightarrow> stack_of (threads s' t) = stack_of (threads s t))"
proof (cases "th_process (threads s z)")
  case None
  with assms show ?thesis by (auto simp: collect_one_def thread_reap_stack_of)
next
  case (Some p)
  define s1 where "s1 = (if pr_addr_space (s_table s ! p) \<noteq> 0 \<and> s_last_installed s = pr_addr_space (s_table s ! p)
      then s\<lparr>cr3 := s_kernel_root s, s_last_installed := s_kernel_root s\<rparr> else s)"
  have s1: "threads s1 = threads s" "kfreed s1 = kfreed s" "freed_stacks s1 = freed_stacks s" by (simp_all add: s1_def)
  define s2 where "s2 = process_detach_thread (Some z) s1"
  obtain s3 where s3: "s' = thread_reap z s3" "s3 = s2 \<or> process_reap (Some p) s2 = Some s3"
    using assms Some
    by (auto simp: collect_one_def Let_def s1_def [symmetric] s2_def [symmetric] split: option.splits if_splits)
  then have "threads s3 = threads s2" "kfreed s3 = kfreed s2" "freed_stacks s3 = freed_stacks s2"
    using process_reap_frame [of "Some p" s2 s3] by auto
  then show ?thesis using s1 by (simp add: s3(1) thread_reap_stack_of s2_def)
qed

lemma collect_from_frees:
  assumes "collect_from zs s = Some s'" "distinct zs"
  shows "kfreed s' = rev zs @ kfreed s \<and> freed_stacks s' = freed_stacks s @ concat (map (\<lambda>z. stack_of (threads s z)) zs)"
  using assms
proof (induction zs arbitrary: s)
  case (Cons z zs)
  then obtain s1 where s1: "collect_one z (s\<lparr>s_zombies := rev zs\<rparr>) = Some s1" "collect_from zs s1 = Some s'"
    by (auto split: option.splits)
  have "map (\<lambda>z. stack_of (threads s1 z)) zs = map (\<lambda>z. stack_of (threads s z)) zs"
    using collect_one_frees [OF s1(1)] Cons.prems(2) by auto
  with Cons.IH [OF s1(2)] Cons.prems(2) collect_one_frees [OF s1(1)] show ?case by auto
qed simp

lemma collect_one_ok:
  assumes g: "sched_gen {} {z} R s" and r: "roots_ok s"
  shows "\<exists>s'. collect_one z s = Some s' \<and> sched_gen {} {} R s' \<and> roots_ok s' \<and> s_zombies s' = s_zombies s \<and>
    s_current s' = s_current s \<and> th_state (threads s' z) = AF_THREAD_DEAD \<and>
    (\<forall>t. t \<noteq> z \<longrightarrow> th_state (threads s' t) = th_state (threads s t))"
proof -
  have zs: "th_state (threads s z) = AF_THREAD_ZOMBIE" "z \<notin> set (s_zombies s)"
    using g by (auto simp: sched_gen_def zombies_ok_def)
  have fin: "sched_gen {} {} R (thread_reap z s3) \<and> roots_ok (thread_reap z s3) \<and>
      th_state (threads (thread_reap z s3) z) = AF_THREAD_DEAD \<and>
      (\<forall>t. t \<noteq> z \<longrightarrow> th_state (threads (thread_reap z s3) t) = th_state (threads s t))"
    if "sched_gen {} {z} R s3" "roots_ok s3" "\<forall>t. th_state (threads s3 t) = th_state (threads s t)" for s3
  proof -
    have z3: "th_state (threads s3 z) = AF_THREAD_ZOMBIE" using that zs by simp
    have "zombies_ok {} (thread_reap z s3)"
      using that(1) by (auto simp: sched_gen_def zombies_ok_def)
    with gen_thread_reap [OF that(1) z3] have "sched_gen {} {} R (thread_reap z s3)" by (simp add: sched_gen_def)
    then show ?thesis using that by (simp add: roots_ok_thread_reap)
  qed
  show ?thesis
  proof (cases "th_process (threads s z)")
    case None
    with fin [of s] g r show ?thesis by (simp add: collect_one_def)
  next
    case (Some p)
    define s1 where "s1 = (if pr_addr_space (s_table s ! p) \<noteq> 0 \<and> s_last_installed s = pr_addr_space (s_table s ! p)
        then s\<lparr>cr3 := s_kernel_root s, s_last_installed := s_kernel_root s\<rparr> else s)"
    have p: "p < AF_MAX_PROCESSES" using roots_ok_thread [OF r Some] .
    have s1: "sched_gen {} {z} R s1" "roots_ok s1" "threads s1 = threads s" "s_zombies s1 = s_zombies s"
      "s_current s1 = s_current s" "s_table s1 = s_table s"
      using g r by (auto simp: s1_def roots_ok_def elim!: sched_gen_cong)
    have cr3: "cr3 s1 \<noteq> pr_addr_space (s_table s ! p)"
      using r p by (auto simp: s1_def roots_ok_def)
    define s2 where "s2 = process_detach_thread (Some z) s1"
    have s2: "sched_gen {} {z} R s2" "roots_ok s2" "s_zombies s2 = s_zombies s" "s_current s2 = s_current s"
      "cr3 s2 \<noteq> pr_addr_space (s_table s2 ! p)" "\<forall>t. th_state (threads s2 t) = th_state (threads s t)"
      using s1 cr3 p r roots_ok_detach [OF s1(2)] by (simp_all add: s2_def process_detach_space roots_ok_def)
    have "\<exists>s3. process_reap (Some p) s2 = Some s3" using s2(5) by (auto simp: process_reap_def Let_def)
    then obtain s3 where s3: "process_reap (Some p) s2 = Some s3" by blast
    have s3': "sched_gen {} {z} R s3" "roots_ok s3" "s_zombies s3 = s_zombies s" "s_current s3 = s_current s"
       "\<forall>t. th_state (threads s3 t) = th_state (threads s t)"
      using s2 process_reap_gen [OF s3] roots_ok_reap [OF s3] process_reap_frame [OF s3] by simp_all
    have "collect_one z s = Some (thread_reap z s2) \<or> collect_one z s = Some (thread_reap z s3)"
      using s3 by (simp add: collect_one_def Some Let_def s1_def [symmetric] s2_def [symmetric])
    then show ?thesis using fin [OF s2(1,2,6)] fin [OF s3'(1,2,5)] s2 s3' by auto
  qed
qed

lemma collect_from_ok:
  assumes "sched_gen {} {} R s" "roots_ok s" "zs = rev (s_zombies s)"
  shows "\<exists>s'. collect_from zs s = Some s' \<and> sched_gen {} {} R s' \<and> roots_ok s' \<and> s_zombies s' = [] \<and>
    s_current s' = s_current s \<and>
    (\<forall>t. th_state (threads s' t) = (if t \<in> set zs then AF_THREAD_DEAD else th_state (threads s t)))"
  using assms
proof (induction zs arbitrary: s)
  case (Cons z zs)
  define s0 where "s0 = s\<lparr>s_zombies := rev zs\<rparr>"
  have zl: "s_zombies s = rev zs @ [z]" using Cons.prems(3) by (metis rev_rev_ident rev.simps(2))
  have "sched_gen {} {z} R s0"
    using Cons.prems(1) zl unfolding sched_gen_def s0_def
    by (auto simp: zombies_ok_def intro: ready_cong threads_ok_cong idle_ok_cong running_ok_cong)
  moreover have "roots_ok s0" using Cons.prems(2) by (simp add: s0_def)
  ultimately obtain s1 where s1: "collect_one z s0 = Some s1" "sched_gen {} {} R s1" "roots_ok s1"
      "s_zombies s1 = s_zombies s0" "s_current s1 = s_current s0" "th_state (threads s1 z) = AF_THREAD_DEAD"
      "\<forall>t. t \<noteq> z \<longrightarrow> th_state (threads s1 t) = th_state (threads s0 t)"
    using collect_one_ok by blast
  have "zs = rev (s_zombies s1)" using s1 by (simp add: s0_def)
  from Cons.IH [OF s1(2,3) this] obtain s' where "collect_from zs s1 = Some s'" "sched_gen {} {} R s'" "roots_ok s'"
      "s_zombies s' = []" "s_current s' = s_current s1"
      "\<forall>t. th_state (threads s' t) = (if t \<in> set zs then AF_THREAD_DEAD else th_state (threads s1 t))" by blast
  with s1 show ?case by (auto simp: s0_def)
qed auto

text \<open>Operations that schedule: they leave processes and memberships alone.\<close>

definition same_procs :: "'a kstate_scheme \<Rightarrow> 'a kstate_scheme \<Rightarrow> bool" where
  "same_procs s s' \<longleftrightarrow> s_table s' = s_table s \<and> s_kernel_root s' = s_kernel_root s \<and>
     (\<forall>t. th_process (threads s' t) = th_process (threads s t))"

definition root_kept :: "'a kstate_scheme \<Rightarrow> 'a kstate_scheme \<Rightarrow> bool" where
  "root_kept s s' \<longleftrightarrow> same_procs s s' \<and> cr3 s' = cr3 s \<and> s_last_installed s' = s_last_installed s"

lemma root_kept_refl [simp]: "root_kept s s"
  by (simp add: root_kept_def same_procs_def)

lemma root_kept_trans [trans]: "root_kept s s' \<Longrightarrow> root_kept s' s'' \<Longrightarrow> root_kept s s''"
  by (simp add: root_kept_def same_procs_def)

lemma root_kept_upd: "th_process (f (threads s t)) = th_process (threads s t) \<Longrightarrow> root_kept s (upd_thread t f s)"
  by (simp add: root_kept_def same_procs_def)

lemma root_kept_push [simp]: "root_kept s (runq_push t s)"
  by (simp add: root_kept_def same_procs_def)

lemma root_kept_pick: "pick_next s = (n, s') \<Longrightarrow> root_kept s s'"
  using pick_next_frame [of s n s'] by (simp add: root_kept_def same_procs_def)

lemma root_kept_make_current [simp]: "root_kept s (make_current n s)"
  by (simp add: root_kept_def same_procs_def)

lemma root_kept_unblock [simp]: "root_kept s (sched_unblock t s)"
  by (auto simp: sched_unblock_def split: option.split)

lemma root_kept_admit [simp]: "root_kept s (sched_admit t s)"
  by (auto simp: sched_admit_def split: option.split)

lemma root_kept_reap [simp]: "root_kept s (sched_reap t s)"
  by (auto simp: root_kept_def same_procs_def sched_reap_def runq_remove_def dec_len_def Let_def split: option.split)

lemma root_kept_wake:
  assumes "sched_gen {} Z R s"
  shows "root_kept s (sched_wake_sleepers now s)"
  using wake_foldD(2,3) [OF order_refl assms] unfolding sched_wake_sleepers_def root_kept_def same_procs_def
  by (simp split: if_splits)

lemma root_kept_give_away: "give_away c s = Some s' \<Longrightarrow> root_kept s s'"
  by (auto simp: give_away_def split: prod.splits option.splits if_splits
      intro: root_kept_trans [OF root_kept_pick root_kept_make_current])

lemma root_kept_give_away_upd:
  "give_away c (upd_thread t f s) = Some s' \<Longrightarrow> th_process (f (threads s t)) = th_process (threads s t) \<Longrightarrow> root_kept s s'"
  by (rule root_kept_trans [OF root_kept_upd root_kept_give_away])

lemma root_kept_block: "sched_block obj s = Some s' \<Longrightarrow> root_kept s s'"
  by (auto simp: sched_block_def Let_def split: if_splits
      dest!: root_kept_give_away_upd)

lemma root_kept_sleep: "sched_sleep n s = Some s' \<Longrightarrow> root_kept s s'"
  by (auto simp: sched_sleep_def Let_def split: if_splits
      dest!: root_kept_give_away_upd)

lemma roots_ok_kept: "roots_ok s \<Longrightarrow> root_kept s s' \<Longrightarrow> roots_ok s'"
  by (simp add: roots_ok_def root_kept_def same_procs_def)

lemma wanted_root_nonzero: "s_kernel_root s \<noteq> 0 \<Longrightarrow> wanted_root p s \<noteq> 0"
  by (auto simp: wanted_root_def split: option.split)

lemma install_root_cr3:
  "s_last_installed s = cr3 s \<Longrightarrow> r \<noteq> 0 \<Longrightarrow> cr3 (install_root r s) = r \<and> s_last_installed (install_root r s) = r"
  by (auto simp: install_root_def)

lemma wanted_root_same: "same_procs s s' \<Longrightarrow> wanted_root p s' = wanted_root p s"
  by (auto simp: wanted_root_def same_procs_def split: option.split)

text \<open>The running thread is on its own process's page tables.\<close>

definition on_own_root :: "'a kstate_scheme \<Rightarrow> bool" where
  "on_own_root s \<longleftrightarrow> (\<forall>c. s_current s = Some c \<longrightarrow> cr3 s = wanted_root (th_process (threads s c)) s)"

lemma switch_to_root:
  assumes sw: "switch_to next s = Some s'" and r: "roots_ok s"
  shows "roots_ok s' \<and> same_procs s s' \<and> ((next = s_current s \<longrightarrow> on_own_root s) \<longrightarrow> on_own_root s')"
proof (cases "next = s_current s")
  case True
  with sw r show ?thesis by (simp add: switch_to_def same_procs_def)
next
  case False
  then obtain n p where np: "next = Some n" "s_current s = Some p"
    using sw by (auto simp: switch_to_def split: option.splits)
  define s1 where "s1 = (if th_state (threads s p) = AF_THREAD_RUNNING
      then runq_push p (upd_thread p (\<lambda>th. th\<lparr>th_state := AF_THREAD_RUNNABLE\<rparr>) s) else s)"
  define s2 where "s2 = (if th_state (threads s1 p) = AF_THREAD_ZOMBIE then sched_reap (Some p) s1 else s1)"
  define s3 where "s3 = make_current n s2"
  have "root_kept s s1" by (auto simp: s1_def intro: root_kept_trans [OF root_kept_upd root_kept_push])
  also have "root_kept s1 s2" by (simp add: s2_def)
  also have "root_kept s2 s3" by (simp add: s3_def)
  finally have k: "root_kept s s3" .
  then have r3: "roots_ok s3" using r roots_ok_kept by blast
  have s': "s' = install_root (wanted_root (th_process (threads s3 n)) s3) s3"
  proof -
    have "switch_to next s = Some (install_root (wanted_root (th_process (threads s3 n)) s3) s3)"
      using np False by (simp add: switch_to_def s1_def s2_def s3_def Let_def)
    with sw show ?thesis by simp
  qed
  have nz: "wanted_root (th_process (threads s3 n)) s3 \<noteq> 0"
    using r3 by (intro wanted_root_nonzero) (simp add: roots_ok_def)
  have cr: "cr3 s' = wanted_root (th_process (threads s3 n)) s3" "s_last_installed s' = cr3 s'"
    using install_root_cr3 [OF _ nz, of s3] r3 by (auto simp: s' roots_ok_def)
  have same: "same_procs s3 s'" by (simp add: s' same_procs_def)
  have "s_current s' = Some n" by (simp add: s' s3_def)
  then have "on_own_root s'" using cr same by (simp add: on_own_root_def wanted_root_same same_procs_def)
  moreover have "roots_ok s'" using r3 cr nz same by (simp add: roots_ok_def same_procs_def)
  moreover have "same_procs s s'" using k same by (simp add: root_kept_def same_procs_def)
  ultimately show ?thesis by simp
qed

lemma on_own_root_kept: "on_own_root s \<Longrightarrow> root_kept s s' \<Longrightarrow> s_current s' = s_current s \<Longrightarrow> on_own_root s'"
  using wanted_root_same [of s s'] by (simp add: on_own_root_def root_kept_def) (simp add: same_procs_def)

lemma pick_switch_root:
  assumes k: "root_kept s s1" "s_current s1 = s_current s" and p: "pick_next s1 = (n, s2)"
    and sw: "switch_to n s2 = Some s'" and r: "roots_ok s"
  shows "roots_ok s' \<and> same_procs s s' \<and> ((n = s_current s \<longrightarrow> on_own_root s) \<longrightarrow> on_own_root s')"
proof -
  have k2: "root_kept s s2" using root_kept_trans [OF k(1) root_kept_pick [OF p]] .
  have c: "s_current s2 = s_current s" using pick_next_frame(5) [OF p] k(2) by simp
  have "roots_ok s2" using r k2 by (rule roots_ok_kept)
  from switch_to_root [OF sw this] show ?thesis
    using k2 c on_own_root_kept [OF _ k2 c] by (simp add: root_kept_def same_procs_def)
qed

lemma sched_yield_root:
  assumes y: "sched_yield s = Some s'" and r: "roots_ok s"
  shows "roots_ok s' \<and> same_procs s s' \<and> ((s_current s' = s_current s \<longrightarrow> on_own_root s) \<longrightarrow> on_own_root s')"
proof -
  define s1 where "s1 = (case s_current s of
       Some c \<Rightarrow> if th_state (threads s c) = AF_THREAD_RUNNING
                 then upd_thread c (\<lambda>th. th\<lparr>th_time_slice := AF_TIME_SLICE_TICKS\<rparr>) s else s
     | None \<Rightarrow> s)"
  obtain n s2 where p: "pick_next s1 = (n, s2)" by fastforce
  have k: "root_kept s s1" "s_current s1 = s_current s"
    by (auto simp: s1_def intro!: root_kept_upd split: option.split)
  have sw: "switch_to n s2 = Some s'" using y p by (simp add: sched_yield_def s1_def Let_def)
  have "n = s_current s \<Longrightarrow> s_current s' = s_current s"
    using sw pick_next_frame(5) [OF p] k(2) by (auto simp: switch_to_def)
  then show ?thesis using pick_switch_root [OF k p sw r] by blast
qed

lemma thread_exit_root:
  assumes "thread_exit s = Some s'" "roots_ok s"
  shows "roots_ok s' \<and> same_procs s s' \<and> ((s_current s' = s_current s \<longrightarrow> on_own_root s) \<longrightarrow> on_own_root s')"
proof -
  obtain c where c: "th_cur s = Some c" using assms by (auto simp: thread_exit_def split: option.splits)
  define s1 where "s1 = upd_thread c (\<lambda>th. th\<lparr>th_state := AF_THREAD_ZOMBIE\<rparr>) s"
  have k: "root_kept s s1" "s_current s1 = s_current s" by (auto simp: s1_def intro: root_kept_upd)
  have "sched_yield s1 = Some s'" using assms(1) c by (simp add: thread_exit_def s1_def)
  from sched_yield_root [OF this roots_ok_kept [OF assms(2) k(1)]] show ?thesis
    using k on_own_root_kept [OF _ k] by (simp add: root_kept_def same_procs_def)
qed

lemma sched_tick_root:
  assumes tick: "sched_tick s = Some s'" and inv: "sched_inv s" and r: "roots_ok s"
  shows "roots_ok s' \<and> same_procs s s' \<and> ((s_current s' = s_current s \<longrightarrow> on_own_root s) \<longrightarrow> on_own_root s')"
proof -
  obtain c where c: "s_current s = Some c" using inv by (auto simp: sched_inv_def running_ok_def)
  define s1 where "s1 = s\<lparr>s_ticks := s_ticks s + 1\<rparr>"
  define s2 where "s2 = sched_wake_sleepers (s_ticks s1) s1"
  define s3 where "s3 = upd_thread c (\<lambda>th. th\<lparr>th_total_ticks := th_total_ticks th + 1,
      th_time_slice := (if 0 < th_time_slice th then th_time_slice th - 1 else th_time_slice th)\<rparr>) s2"
  define s4 where "s4 = s3\<lparr>s_need_resched := False\<rparr>"
  have g1: "sched_gen {} {} {c} s1"
    using inv c by (auto simp: sched_inv_gen s1_def elim!: sched_gen_cong)
  have "root_kept s s1" by (simp add: s1_def root_kept_def same_procs_def)
  also have "root_kept s1 s2" unfolding s2_def by (rule root_kept_wake [OF g1])
  also have "root_kept s2 s3" unfolding s3_def by (rule root_kept_upd) simp
  finally have k3: "root_kept s s3" .
  also have "root_kept s3 s4" by (simp add: s4_def root_kept_def same_procs_def)
  finally have k4: "root_kept s s4" .
  have c2: "s_current s2 = Some c"
    using wake_foldD(3) [OF order_refl g1] c by (simp add: s2_def sched_wake_sleepers_def s1_def)
  then have c34: "s_current s3 = s_current s" "s_current s4 = s_current s" using c by (simp_all add: s4_def s3_def)
  obtain n s5 where p: "pick_next s4 = (n, s5)" by fastforce
  have "switch_to n s5 = Some s' \<or> s' = s3"
    using tick c2 p
    by (auto simp: sched_tick_def Let_def s1_def [symmetric] s2_def [symmetric] s3_def [symmetric] s4_def [symmetric]
        split: if_splits)
  then show ?thesis
  proof
    assume sw: "switch_to n s5 = Some s'"
    have "n = s_current s \<Longrightarrow> s_current s' = s_current s"
      using sw pick_next_frame(5) [OF p] c34 by (auto simp: switch_to_def)
    then show ?thesis using pick_switch_root [OF k4 c34(2) p sw r] by blast
  next
    assume "s' = s3"
    then show ?thesis using on_own_root_kept [OF _ k3 c34(1)] c34 k3 roots_ok_kept [OF r k3]
      by (auto simp: root_kept_def)
  qed
qed

end
