(* ===== verification/Lifecycle.thy ===== *)
theory Lifecycle
  imports Sched
begin

text \<open>
  Exit and wait of \<open>kernel/core/process.c\<close>, which give the CPU away, and the kernel's transition
  relation over threads and processes.

  \<open>process_wait\<close> either returns or blocks the caller inside its loop; \<open>process_wait_resume\<close> is what
  the caller executes when it runs again.
\<close>

section \<open>Exit\<close>

definition process_exit :: "u32 \<Rightarrow> 'a kstate_scheme \<Rightarrow> 'a kstate_scheme option" where
  "process_exit code s =
     (case process_current s of
        None \<Rightarrow> thread_exit s
      | Some p \<Rightarrow>
          let s1 = upd_process p (\<lambda>pr. pr\<lparr>pr_exit_code := code, pr_state := AF_PROCESS_ZOMBIE\<rparr>) s;
              s2 = (case pr_waiter (s_table s1 ! p) of
                      None \<Rightarrow> s1
                    | Some w \<Rightarrow> upd_process p (\<lambda>pr. pr\<lparr>pr_waiter := None\<rparr>) (sched_unblock (Some w) s1))
          in thread_exit s2)"

section \<open>Wait\<close>

datatype wait_outcome =
    WaitReturned af_status "u32 option"
  | WaitBlocked pslot

definition wait_loop :: "pslot \<Rightarrow> 'a kstate_scheme \<Rightarrow> (wait_outcome \<times> 'a kstate_scheme) option" where
  "wait_loop child s =
     (if pr_state (s_table s ! child) = AF_PROCESS_ALIVE
      then let s1 = upd_process child (\<lambda>pr. pr\<lparr>pr_waiter := thread_current s\<rparr>) s
           in (case sched_block (WaitProcess child) s1 of
                 None \<Rightarrow> None
               | Some s2 \<Rightarrow> Some (WaitBlocked child, s2))
      else let code = pr_exit_code (s_table s ! child)
           in (case process_reap (Some child) s of
                 None \<Rightarrow> None
               | Some s1 \<Rightarrow> Some (WaitReturned AF_OK (Some code), s1)))"

definition process_wait :: "u32 \<Rightarrow> 'a kstate_scheme \<Rightarrow> (wait_outcome \<times> 'a kstate_scheme) option" where
  "process_wait pid s =
     (case slot_for_pid s pid of
        None \<Rightarrow> None
      | Some None \<Rightarrow> Some (WaitReturned AF_ERR_NOENT None, s)
      | Some (Some child) \<Rightarrow>
          (case process_current s of
             None \<Rightarrow> Some (WaitReturned AF_ERR_PERM None, s)
           | Some self \<Rightarrow>
               if pr_parent (s_table s ! child) \<noteq> pr_pid (s_table s ! self)
               then Some (WaitReturned AF_ERR_PERM None, s)
               else wait_loop child s))"

definition process_wait_resume ::
  "tptr \<Rightarrow> pslot \<Rightarrow> 'a kstate_scheme \<Rightarrow> (wait_outcome \<times> 'a kstate_scheme) option" where
  "process_wait_resume self child s =
     (case sched_block_resume self s of
        None \<Rightarrow> None
      | Some s1 \<Rightarrow> if s_current s1 = Some self then wait_loop child s1 else Some (WaitBlocked child, s1))"

section \<open>Creation keeps the invariants\<close>

lemma register_thread_cases:
  assumes "register_thread t s = (tid, s')"
  obtains (full) "tid = 0" "s' = s"
  | (slot) i where "i < AF_MAX_THREADS" "s_threads s ! i = None" "tid = of_nat (i + 1)" "tid \<noteq> 0" "unat tid = i + 1"
      "s' = (upd_thread t (\<lambda>th. th\<lparr>th_tid := tid\<rparr>) (s\<lparr>s_threads := (s_threads s)[i := Some t]\<rparr>))
              \<lparr>s_thread_count := s_thread_count s + 1\<rparr>"
proof (cases "find (\<lambda>i. s_threads s ! i = None) [0..<AF_MAX_THREADS]")
  case None
  with assms full show thesis by (simp add: register_thread_def)
next
  case (Some i)
  then have i: "i < AF_MAX_THREADS" "s_threads s ! i = None" by (auto dest: find_SomeD)
  then have u: "unat (of_nat (i + 1) :: u32) = i + 1" by (simp only: unat_of_nat) simp
  then have "(of_nat (i + 1) :: u32) \<noteq> 0" by auto
  with i u Some assms show thesis
    by (intro slot [of i]) (auto simp: register_thread_def Let_def upd_thread_def simp del: of_nat_Suc)
qed

text \<open>A new thread object, in memory no thread was using.\<close>

definition unused_thread :: "tptr \<Rightarrow> 'a kstate_scheme \<Rightarrow> bool" where
  "unused_thread t s \<longleftrightarrow> th_state (threads s t) \<in> {AF_THREAD_FREE, AF_THREAD_DEAD}"

lemma unused_not_registered: "threads_ok s \<Longrightarrow> unused_thread t s \<Longrightarrow> Some t \<notin> set (s_threads s)"
  by (auto simp: threads_ok_def unused_thread_def in_set_conv_nth)

lemma threads_ok_new:
  assumes ok: "threads_ok s" and u: "unused_thread t s" and i: "i < AF_MAX_THREADS" "s_threads s ! i = None"
    and f: "th_state (f (threads s t)) \<notin> {AF_THREAD_FREE, AF_THREAD_DEAD}" "unat (th_tid (f (threads s t))) = i + 1"
  shows "threads_ok ((upd_thread t f s)\<lparr>s_threads := (s_threads s)[i := Some t], s_thread_count := s_thread_count s + 1\<rparr>)"
    (is "threads_ok ?s")
proof -
  have len: "length (s_threads s) = AF_MAX_THREADS" using ok by (simp add: threads_ok_def)
  have notreg: "Some t \<notin> set (s_threads s)" using unused_not_registered [OF ok u] .
  show ?thesis
    unfolding threads_ok_def
  proof (intro conjI allI impI)
    fix j v assume j: "j < AF_MAX_THREADS" "s_threads ?s ! j = Some v"
    show "unat (th_tid (threads ?s v)) = j + 1" "th_state (threads ?s v) \<notin> {AF_THREAD_FREE, AF_THREAD_DEAD}"
    proof (atomize (full), cases "j = i")
      case True
      with j i len f show "unat (th_tid (threads ?s v)) = j + 1 \<and> th_state (threads ?s v) \<notin> {AF_THREAD_FREE, AF_THREAD_DEAD}"
        by auto
    next
      case False
      with j have e: "s_threads s ! j = Some v" by simp
      with notreg j len have "v \<noteq> t" by (metis nth_mem)
      then show "unat (th_tid (threads ?s v)) = j + 1 \<and> th_state (threads ?s v) \<notin> {AF_THREAD_FREE, AF_THREAD_DEAD}"
        using e j ok by (simp add: threads_ok_def)
    qed
  next
    fix v assume v: "th_state (threads ?s v) \<notin> {AF_THREAD_FREE, AF_THREAD_DEAD}"
    show "Some v \<in> set (s_threads ?s)"
    proof (cases "v = t")
      case True
      with i len show ?thesis by (simp add: set_update_memI)
    next
      case False
      with v have "Some v \<in> set (s_threads s)" using live_registered [OF ok, of v] by simp
      then obtain j where "j < length (s_threads s)" "s_threads s ! j = Some v" by (auto simp: in_set_conv_nth)
      moreover from this i have "j \<noteq> i" by auto
      ultimately have "(s_threads s)[i := Some t] ! j = Some v" "j < length ((s_threads s)[i := Some t])" by simp_all
      then show ?thesis by (metis nth_mem kstate.select_convs(2) kstate.ext_inject kstate.surjective
        kstate.update_convs(2) kstate.update_convs(3))
    qed
  next
    have "length (filter (\<lambda>e. e \<noteq> None) ((s_threads s)[i := Some t])) = Suc (length (filter (\<lambda>e. e \<noteq> None) (s_threads s)))"
      using i len by (intro filter_update_set) auto
    moreover have "unat (s_thread_count s) = length (filter (\<lambda>e. e \<noteq> None) (s_threads s))"
      using ok by (simp only: threads_ok_def)
    moreover have "unat (s_thread_count s + 1) = Suc (unat (s_thread_count s))"
      using threads_ok_count_bound [OF ok] by (intro unat_Suc_word) simp
    ultimately show "unat (s_thread_count ?s) = length (filter (\<lambda>e. e \<noteq> None) (s_threads ?s))" by simp
  qed (simp add: len)
qed

lemma sched_gen_new:
  assumes g: "sched_gen H Z R s" and u: "unused_thread t s" and i: "i < AF_MAX_THREADS" "s_threads s ! i = None"
    and f: "th_state (f (threads s t)) = AF_THREAD_CREATED" "unat (th_tid (f (threads s t))) = i + 1"
  shows "sched_gen H Z R ((upd_thread t f s)\<lparr>s_threads := (s_threads s)[i := Some t], s_thread_count := s_thread_count s + 1\<rparr>)"
    (is "sched_gen H Z R ?s")
proof -
  from g have parts: "ready_ok H s" "threads_ok s" "zombies_ok Z s" "idle_ok s" "running_ok R s"
    by (simp_all add: sched_gen_def)
  have old: "th_state (threads s t) \<in> {AF_THREAD_FREE, AF_THREAD_DEAD}" using u by (simp add: unused_thread_def)
  have nz: "th_state (threads s t) \<noteq> AF_THREAD_ZOMBIE" "t \<notin> set (s_zombies s)" "t \<notin> Z"
    using zombie_state [OF parts(3), of t] old by auto
  have nr: "t \<notin> R" using running_state [OF parts(5), of t] old by auto
  have "ready_ok H ?s" using parts(1) old f by (auto simp: ready_ok_def)
  moreover have "zombies_ok Z ?s" using parts(3) f nz by (auto simp: zombies_ok_def)
  moreover have "idle_ok ?s" using parts(4) old by (auto simp: idle_ok_def split: option.splits)
  moreover have "running_ok R ?s" using parts(5) f nr by (auto simp: running_ok_def)
  moreover have "threads_ok ?s" using parts(2) u i f by (intro threads_ok_new) simp_all
  ultimately show ?thesis by (simp add: sched_gen_def)
qed

lemma sched_gen_unused:
  assumes g: "sched_gen H Z R s" and u: "unused_thread t s" and f: "th_state (f (threads s t)) \<in> {AF_THREAD_FREE, AF_THREAD_DEAD}"
  shows "sched_gen H Z R (upd_thread t f s)"
proof -
  from g have parts: "ready_ok H s" "threads_ok s" "zombies_ok Z s" "idle_ok s" "running_ok R s"
    by (simp_all add: sched_gen_def)
  have old: "th_state (threads s t) \<in> {AF_THREAD_FREE, AF_THREAD_DEAD}" using u by (simp add: unused_thread_def)
  have notreg: "Some t \<notin> set (s_threads s)" using unused_not_registered [OF parts(2) u] .
  have nz: "t \<notin> set (s_zombies s)" "t \<notin> Z" using zombie_state [OF parts(3), of t] old by auto
  have nr: "t \<notin> R" using running_state [OF parts(5), of t] old by auto
  have "ready_ok H (upd_thread t f s)" using parts(1) old f by (auto simp: ready_ok_def)
  moreover have "zombies_ok Z (upd_thread t f s)" using parts(3) nz f by (auto simp: zombies_ok_def)
  moreover have "idle_ok (upd_thread t f s)" using parts(4) old by (auto simp: idle_ok_def split: option.splits)
  moreover have "running_ok R (upd_thread t f s)"
  proof -
    have "th_state (f (threads s t)) \<noteq> AF_THREAD_RUNNING" using f by auto
    with parts(5) nr show ?thesis by (simp add: running_ok_def)
  qed
  moreover have "threads_ok (upd_thread t f s)"
  proof -
    have "v \<noteq> t" if "j < AF_MAX_THREADS" "s_threads s ! j = Some v" for j v
    proof
      assume "v = t"
      moreover have "j < length (s_threads s)" using that parts(2) by (simp add: threads_ok_def)
      then have "s_threads s ! j \<in> set (s_threads s)" by (rule nth_mem)
      ultimately show False using that notreg by simp
    qed
    moreover have "Some v \<in> set (s_threads s)" if "th_state (threads (upd_thread t f s) v) \<notin> {AF_THREAD_FREE, AF_THREAD_DEAD}" for v
      using that f live_registered [OF parts(2), of v] by (auto split: if_splits)
    ultimately have ne: "\<And>j v. j < AF_MAX_THREADS \<Longrightarrow> s_threads s ! j = Some v \<Longrightarrow> v \<noteq> t"
      and live: "\<And>v. th_state (threads (upd_thread t f s) v) \<notin> {AF_THREAD_FREE, AF_THREAD_DEAD} \<Longrightarrow>
        Some v \<in> set (s_threads s)" by blast+
    show ?thesis
      unfolding threads_ok_def
    proof (intro conjI allI impI)
      fix j v assume "j < AF_MAX_THREADS" "s_threads (upd_thread t f s) ! j = Some v"
      with ne [of j v] parts(2) show "unat (th_tid (threads (upd_thread t f s) v)) = j + 1"
        "th_state (threads (upd_thread t f s) v) \<notin> {AF_THREAD_FREE, AF_THREAD_DEAD}"
        by (simp_all add: threads_ok_def)
    next
      fix v assume "th_state (threads (upd_thread t f s) v) \<notin> {AF_THREAD_FREE, AF_THREAD_DEAD}"
      then show "Some v \<in> set (s_threads (upd_thread t f s))" using live by simp
    qed (use parts(2) in \<open>simp_all only: threads_ok_def upd_thread_simps\<close>)
  qed
  ultimately show ?thesis by (simp add: sched_gen_def)
qed

lemma thread_create_cases:
  assumes "thread_create fresh stack name entry arg n prio s = (r, s')"
  obtains (unchanged) "r = None" "s' = s"
  | (undone) t where "r = None" "fresh = Some t" "\<exists>fs. s' = (upd_thread t (\<lambda>_. zero_thread) s)\<lparr>freed_stacks := fs, kfreed := t # kfreed s\<rparr>"
  | (created) t i th where "r = Some t" "fresh = Some t" "i < AF_MAX_THREADS" "s_threads s ! i = None"
      "th_state th = AF_THREAD_CREATED" "unat (th_tid th) = i + 1" "th_process th = None"
      "s' = (upd_thread t (\<lambda>_. th) s)\<lparr>s_threads := (s_threads s)[i := Some t], s_thread_count := s_thread_count s + 1\<rparr>"
proof (cases "entry = 0 \<or> fresh = None")
  case True
  with assms have "r = None \<and> s' = s" by (auto simp: thread_create_def Let_def split: if_splits)
  then show thesis using unchanged by blast
next
  case False
  then obtain t where t: "fresh = Some t" "entry \<noteq> 0" by auto
  define s1 where "s1 = upd_thread t (\<lambda>_. zero_thread) s"
  define frames where "frames = (ucast (stack_bytes n div 4096) :: u32)"
  show thesis
  proof (cases "stack frames = 0")
    case True
    with assms t show thesis
      by (intro undone [of t]) (auto simp: thread_create_def Let_def s1_def [symmetric] frames_def upd_thread_def
        intro!: exI [of _ "freed_stacks s"])
  next
    case False
    obtain tid s2 where reg: "register_thread t s1 = (tid, s2)" by fastforce
    have run: "(r, s') = (if tid = 0 then (None, s2\<lparr>freed_stacks := freed_stacks s2 @ [(stack frames, frames)], kfreed := t # kfreed s2\<rparr>)
        else (Some t, upd_thread t (\<lambda>th. th\<lparr>th_stack_base := stack frames, th_stack_size := ucast (stack_bytes n),
          th_state := AF_THREAD_CREATED, th_priority := (if 8 \<le> prio then AF_PRIO_DEFAULT else prio),
          th_time_slice := AF_TIME_SLICE_TICKS, th_wait_obj := None,
          th_name := strlcpy 32 (case name of None \<Rightarrow> ''thread'' | Some n \<Rightarrow> n),
          th_context := initial_context (stack frames) (ucast (stack_bytes n)) entry arg\<rparr>) s2))"
      unfolding assms [symmetric] using t False reg
      by (simp add: thread_create_def Let_def s1_def frames_def)
    from reg show thesis
    proof (cases rule: register_thread_cases)
      case full
      with run t show thesis by (intro undone [of t]) (auto simp: s1_def upd_thread_def)
    next
      case (slot i)
      define th where "th = zero_thread\<lparr>th_tid := tid, th_stack_base := stack frames, th_stack_size := ucast (stack_bytes n),
          th_state := AF_THREAD_CREATED, th_priority := (if 8 \<le> prio then AF_PRIO_DEFAULT else prio),
          th_time_slice := AF_TIME_SLICE_TICKS, th_wait_obj := None,
          th_name := strlcpy 32 (case name of None \<Rightarrow> ''thread'' | Some n \<Rightarrow> n),
          th_context := initial_context (stack frames) (ucast (stack_bytes n)) entry arg\<rparr>"
      have "r = Some t" "s' = (upd_thread t (\<lambda>_. th) s)\<lparr>s_threads := (s_threads s)[i := Some t], s_thread_count := s_thread_count s + 1\<rparr>"
        using run slot by (auto simp: s1_def th_def upd_thread_def)
      then show thesis using slot t
        by (intro created [of t i th]) (auto simp: s1_def th_def zero_thread_def)
    qed
  qed
qed

lemma thread_create_gen:
  assumes c: "thread_create fresh stack name entry arg n prio s = (r, s')" and g: "sched_gen H Z R s"
    and u: "\<And>t. fresh = Some t \<Longrightarrow> unused_thread t s"
  shows "sched_gen H Z R s'"
  using c
proof (cases rule: thread_create_cases)
  case (undone t)
  have "sched_gen H Z R (upd_thread t (\<lambda>_. zero_thread) s)"
    using g u [OF undone(2)] by (rule sched_gen_unused) (simp add: zero_thread_def)
  with undone show ?thesis by (auto elim!: sched_gen_cong)
next
  case (created t i th)
  have "sched_gen H Z R ((upd_thread t (\<lambda>_. th) s)\<lparr>s_threads := (s_threads s)[i := Some t], s_thread_count := s_thread_count s + 1\<rparr>)"
    using created by (intro sched_gen_new [OF g u]) simp_all
  with created show ?thesis by simp
qed (use g in simp)

lemma thread_create_frame:
  assumes c: "thread_create fresh stack name entry arg n prio s = (r, s')"
  shows "s_table s' = s_table s" "s_kernel_root s' = s_kernel_root s" "cr3 s' = cr3 s"
    "s_last_installed s' = s_last_installed s" "s_current s' = s_current s" "s_idle s' = s_idle s"
    "th_process (threads s' t) \<in> {None, th_process (threads s t)}"
  using c by (cases rule: thread_create_cases; auto simp: zero_thread_def)+

lemma thread_create_roots:
  assumes c: "thread_create fresh stack name entry arg n prio s = (r, s')" and r: "roots_ok s"
  shows "roots_ok s'"
  using r thread_create_frame [OF c] unfolding roots_ok_def by (metis insert_iff option.distinct(1) singletonD)

section \<open>The kernel's invariant\<close>

definition kernel_inv :: "'a kstate_scheme \<Rightarrow> bool" where
  "kernel_inv s \<longleftrightarrow> sched_inv s \<and> roots_ok s"

lemma sched_inv_cong_current:
  "sched_gen {} {} {the (s_current s)} s' \<Longrightarrow> s_current s' = s_current s \<Longrightarrow> sched_inv s'"
  by (simp add: sched_inv_gen)

lemma process_create_cases:
  assumes "process_create space ok name parent s = (r, s')"
  obtains (refused) "r = None" "threads s' = threads s" "length (s_table s') = length (s_table s)"
      "\<forall>q < length (s_table s). pr_addr_space (s_table s' ! q) = pr_addr_space (s_table s ! q)"
  | (created) i where "r = Some i" "i < AF_MAX_PROCESSES" "space \<noteq> 0" "threads s' = threads s"
      "length (s_table s') = length (s_table s)"
      "\<forall>q < length (s_table s). pr_addr_space (s_table s' ! q) = (if q = i then space else pr_addr_space (s_table s ! q))"
proof (cases "free_process_slot s")
  case None
  with assms show thesis by (intro refused) (auto simp: process_create_def)
next
  case (Some i)
  then have i: "i < AF_MAX_PROCESSES" by (auto simp: free_process_slot_def dest: find_SomeD)
  show thesis
  proof (cases "space = 0 \<or> cap_table_create ok = None")
    case True
    with assms Some show thesis
      by (intro refused) (auto simp: process_create_def Let_def nth_update_if split: if_splits)
  next
    case False
    then obtain caps where "cap_table_create ok = Some caps" by auto
    with assms Some False i show thesis
      by (intro created [of i]) (auto simp: process_create_def Let_def nth_update_if split: if_splits)
  qed
qed

lemma process_create_frame:
  assumes "process_create space ok name parent s = (r, s')"
  shows "s_threads s' = s_threads s" "s_thread_count s' = s_thread_count s"
    "th_cur s' = th_cur s" "s_current s' = s_current s" "s_idle s' = s_idle s" "s_zombies s' = s_zombies s"
    "cr3 s' = cr3 s" "s_last_installed s' = s_last_installed s" "s_kernel_root s' = s_kernel_root s"
    "runq s' = runq s" "runq_len s' = runq_len s" "threads s' = threads s"
  using assms by (auto simp: process_create_def Let_def split: option.splits if_splits)

lemma process_create_kernel_inv:
  assumes c: "process_create space ok name parent s = (r, s')" and inv: "kernel_inv s" and space: "space \<noteq> s_kernel_root s"
  shows "kernel_inv s'"
proof -
  have "sched_inv s'" using inv process_create_frame [OF c]
    by (auto simp: kernel_inv_def sched_inv_gen elim!: sched_gen_cong)
  moreover have "roots_ok s'"
    using c
  proof (cases rule: process_create_cases)
    case refused
    with inv process_create_frame [OF c] show ?thesis by (simp add: kernel_inv_def roots_ok_def)
  next
    case (created i)
    with inv space process_create_frame [OF c] show ?thesis by (simp add: kernel_inv_def roots_ok_def)
  qed
  ultimately show ?thesis by (simp add: kernel_inv_def)
qed

lemma process_attach_kernel_inv:
  assumes "kernel_inv s" "\<And>q. p = Some q \<Longrightarrow> q < AF_MAX_PROCESSES"
  shows "kernel_inv (process_attach_thread p t s)"
proof (cases "p = None \<or> t = None")
  case True
  then show ?thesis using assms(1) by (auto simp: process_attach_thread_def split: option.split)
next
  case False
  then obtain q u where pt: "p = Some q" "t = Some u" by auto
  have "sched_inv (process_attach_thread p t s)"
    using assms(1) by (auto simp: pt process_attach_thread_def kernel_inv_def sched_inv_gen intro!: sched_gen_upd)
  moreover have "roots_ok (process_attach_thread p t s)"
    using assms by (auto simp: pt process_attach_thread_def kernel_inv_def roots_ok_def nth_update_if)
  ultimately show ?thesis by (simp add: kernel_inv_def)
qed

lemma process_detach_kernel_inv: "kernel_inv s \<Longrightarrow> kernel_inv (process_detach_thread t s)"
  by (simp add: kernel_inv_def sched_inv_gen roots_ok_detach)

lemma sched_set_process_kernel_inv:
  assumes inv: "kernel_inv s" and p: "\<And>q. p = Some q \<Longrightarrow> q < AF_MAX_PROCESSES"
  shows "kernel_inv (sched_set_process p s) \<and> on_own_root (sched_set_process p s)"
proof -
  obtain c where c: "s_current s = Some c" using inv by (auto simp: kernel_inv_def sched_inv_def running_ok_def)
  define s1 where "s1 = upd_thread c (\<lambda>th. th\<lparr>th_process := p\<rparr>) s"
  have e: "sched_set_process p s = install_root (wanted_root p s1) s1"
    using c by (simp add: sched_set_process_def s1_def Let_def)
  have r1: "roots_ok s1" using inv p by (auto simp: s1_def kernel_inv_def roots_ok_def)
  have "sched_inv s1" using inv by (auto simp: s1_def kernel_inv_def sched_inv_gen intro!: sched_gen_upd)
  then have "sched_inv (sched_set_process p s)"
    unfolding e by (simp add: sched_inv_gen gen_install_root)
  moreover have nz: "wanted_root p s1 \<noteq> 0" using r1 by (intro wanted_root_nonzero) (simp add: roots_ok_def)
  then have cr: "cr3 (sched_set_process p s) = wanted_root p s1" "s_last_installed (sched_set_process p s) = wanted_root p s1"
    using install_root_cr3 [OF _ nz, of s1] r1 by (auto simp: e roots_ok_def)
  then have "roots_ok (sched_set_process p s)" using r1 nz by (simp add: e roots_ok_def)
  moreover have "wanted_root p (sched_set_process p s) = wanted_root p s1"
    by (rule wanted_root_same) (simp add: e same_procs_def)
  with cr have "on_own_root (sched_set_process p s)" using c by (simp add: on_own_root_def e s1_def)
  ultimately show ?thesis by (simp add: kernel_inv_def)
qed

lemma process_reap_kernel_inv:
  assumes "process_reap p s = Some s'" "kernel_inv s"
  shows "kernel_inv s'"
  using assms process_reap_gen [OF assms(1)] roots_ok_reap [OF assms(1)] process_reap_frame(5) [OF assms(1)]
  by (simp add: kernel_inv_def sched_inv_gen)

lemma kernel_inv_upd_process:
  assumes "kernel_inv s" "\<And>pr. pr_addr_space (f pr) = pr_addr_space pr"
  shows "kernel_inv (upd_process p f s)"
  using assms by (simp add: kernel_inv_def sched_inv_gen roots_ok_def nth_update_if)

lemma sched_unblock_kernel_inv: "kernel_inv s \<Longrightarrow> kernel_inv (sched_unblock t s)"
  by (simp add: kernel_inv_def sched_inv_gen sched_unblock_gen roots_ok_kept [OF _ root_kept_unblock])

lemma sched_block_kernel_inv:
  assumes "sched_block obj s = Some s'" "kernel_inv s"
  shows "kernel_inv s'"
  using sched_block_ok [of s obj] assms roots_ok_kept [OF _ root_kept_block [OF assms(1)]] by (auto simp: kernel_inv_def)

lemma thread_exit_kernel_inv:
  assumes "kernel_inv s" "s_current s \<noteq> s_idle s"
  shows "\<exists>s'. thread_exit s = Some s' \<and> kernel_inv s'"
  using thread_exit_ok [of s] thread_exit_root [of s] assms by (auto simp: kernel_inv_def)

lemma process_exit_kernel_inv:
  assumes inv: "kernel_inv s" and idle: "s_current s \<noteq> s_idle s"
  shows "\<exists>s'. process_exit code s = Some s' \<and> kernel_inv s'"
proof (cases "process_current s")
  case None
  with thread_exit_kernel_inv [OF assms] show ?thesis by (simp add: process_exit_def)
next
  case (Some p)
  define s1 where "s1 = upd_process p (\<lambda>pr. pr\<lparr>pr_exit_code := code, pr_state := AF_PROCESS_ZOMBIE\<rparr>) s"
  define s2 where "s2 = (case pr_waiter (s_table s1 ! p) of None \<Rightarrow> s1
      | Some w \<Rightarrow> upd_process p (\<lambda>pr. pr\<lparr>pr_waiter := None\<rparr>) (sched_unblock (Some w) s1))"
  have "kernel_inv s1" unfolding s1_def using inv by (rule kernel_inv_upd_process) simp
  then have "kernel_inv s2"
    by (auto simp: s2_def intro!: kernel_inv_upd_process sched_unblock_kernel_inv split: option.split)
  moreover have "s_current s2 \<noteq> s_idle s2" using idle by (simp add: s2_def s1_def split: option.split)
  ultimately show ?thesis using thread_exit_kernel_inv [of s2] Some
    by (simp add: process_exit_def s1_def [symmetric] s2_def [symmetric] Let_def)
qed

lemma wait_loop_kernel_inv:
  assumes "wait_loop child s = Some (r, s')" "kernel_inv s"
  shows "kernel_inv s'"
proof (cases "pr_state (s_table s ! child) = AF_PROCESS_ALIVE")
  case True
  have "kernel_inv (upd_process child (\<lambda>pr. pr\<lparr>pr_waiter := thread_current s\<rparr>) s)"
    using assms(2) by (rule kernel_inv_upd_process) simp
  with True assms(1) sched_block_kernel_inv show ?thesis
    by (auto simp: wait_loop_def Let_def split: option.splits)
next
  case False
  with assms process_reap_kernel_inv show ?thesis by (auto simp: wait_loop_def Let_def split: option.splits)
qed

text \<open>A thread that has been given the CPU is not blocked: the second half of \<open>sched_block\<close> only returns.\<close>

lemma sched_block_resume_running:
  assumes "sched_inv s" "s_current s = Some self"
  shows "sched_block_resume self s = Some (upd_thread self (\<lambda>th. th\<lparr>th_wait_obj := None\<rparr>) s)"
proof -
  have "th_state (threads s self) = AF_THREAD_RUNNING"
    using assms by (intro running_state [of "{self}"]) (auto simp: sched_inv_def)
  then show ?thesis by (simp add: sched_block_resume_def)
qed

lemma process_wait_resume_kernel_inv:
  assumes r: "process_wait_resume self child s = Some (r, s')" and inv: "kernel_inv s" and cur: "s_current s = Some self"
  shows "kernel_inv s'"
proof -
  have "kernel_inv (upd_thread self (\<lambda>th. th\<lparr>th_wait_obj := None\<rparr>) s)"
    using inv by (auto simp: kernel_inv_def sched_inv_gen intro!: sched_gen_upd roots_ok_kept [OF _ root_kept_upd])
  moreover have "wait_loop child (upd_thread self (\<lambda>th. th\<lparr>th_wait_obj := None\<rparr>) s) = Some (r, s')"
    using r sched_block_resume_running [of s self] inv cur by (simp add: process_wait_resume_def kernel_inv_def)
  ultimately show ?thesis using wait_loop_kernel_inv by blast
qed

lemma sched_collect_kernel_inv:
  assumes "kernel_inv s"
  shows "\<exists>s'. sched_collect_zombies s = Some s' \<and> kernel_inv s' \<and> s_zombies s' = [] \<and>
    (\<forall>t. th_state (threads s' t) = (if th_state (threads s t) = AF_THREAD_ZOMBIE then AF_THREAD_DEAD else th_state (threads s t)))"
proof -
  have "\<forall>t. t \<in> set (rev (s_zombies s)) \<longleftrightarrow> th_state (threads s t) = AF_THREAD_ZOMBIE"
    using assms by (simp add: kernel_inv_def sched_inv_def zombies_ok_def)
  then show ?thesis
    using collect_from_ok [of "{the (s_current s)}" s "rev (s_zombies s)"] assms
    by (auto simp: kernel_inv_def sched_inv_gen sched_collect_zombies_def)
qed

section \<open>Runs of the kernel\<close>

text \<open>
  One step: an operation the running thread (or the timer interrupt) performs, with any arguments
  its callers may give. The side conditions are what the environment guarantees: \<open>kzalloc\<close> returns
  memory no thread is using, \<open>hal_pt_create_user\<close> returns a new root, process pointers point into
  the table, and the idle thread, whose body is an endless loop, does not exit.
\<close>

inductive kernel_step :: "'a kstate_scheme \<Rightarrow> 'a kstate_scheme \<Rightarrow> bool" where
  step_tick: "sched_tick s = Some s' \<Longrightarrow> kernel_step s s'"
| step_yield: "sched_yield s = Some s' \<Longrightarrow> kernel_step s s'"
| step_block: "sched_block obj s = Some s' \<Longrightarrow> kernel_step s s'"
| step_sleep: "sched_sleep n s = Some s' \<Longrightarrow> kernel_step s s'"
| step_unblock: "kernel_step s (sched_unblock t s)"
| step_admit: "kernel_step s (sched_admit t s)"
| step_create: "(\<And>t. fresh = Some t \<Longrightarrow> unused_thread t s) \<Longrightarrow>
    thread_create fresh stack name entry arg n prio s = (r, s') \<Longrightarrow> kernel_step s s'"
| step_collect: "sched_collect_zombies s = Some s' \<Longrightarrow> kernel_step s s'"
| step_exit: "s_current s \<noteq> s_idle s \<Longrightarrow> thread_exit s = Some s' \<Longrightarrow> kernel_step s s'"
| step_process_create: "space \<noteq> s_kernel_root s \<Longrightarrow> process_create space ok pname parent s = (q, s') \<Longrightarrow> kernel_step s s'"
| step_attach: "(\<And>q. p = Some q \<Longrightarrow> q < AF_MAX_PROCESSES) \<Longrightarrow> kernel_step s (process_attach_thread p t s)"
| step_detach: "kernel_step s (process_detach_thread t s)"
| step_set_process: "(\<And>q. p = Some q \<Longrightarrow> q < AF_MAX_PROCESSES) \<Longrightarrow> kernel_step s (sched_set_process p s)"
| step_reap: "process_reap p s = Some s' \<Longrightarrow> kernel_step s s'"
| step_process_exit: "s_current s \<noteq> s_idle s \<Longrightarrow> process_exit code s = Some s' \<Longrightarrow> kernel_step s s'"
| step_wait: "process_wait pid s = Some (out, s') \<Longrightarrow> kernel_step s s'"
| step_resume: "s_current s = Some self \<Longrightarrow> process_wait_resume self child s = Some (out, s') \<Longrightarrow> kernel_step s s'"

lemma kernel_step_inv: "kernel_step s s' \<Longrightarrow> kernel_inv s \<Longrightarrow> kernel_inv s'"
proof (induction rule: kernel_step.induct)
  case (step_tick s s')
  then show ?case using sched_tick_ok [of s] sched_tick_root [of s s'] by (auto simp: kernel_inv_def)
next
  case (step_yield s s')
  then show ?case using sched_yield_ok [of s] sched_yield_root [of s s'] by (auto simp: kernel_inv_def)
next
  case (step_block obj s s')
  then show ?case by (rule sched_block_kernel_inv)
next
  case (step_sleep n s s')
  then show ?case using sched_sleep_ok [of s n] roots_ok_kept [OF _ root_kept_sleep [OF step_sleep.hyps]]
    by (auto simp: kernel_inv_def)
next
  case (step_unblock s t)
  then show ?case by (rule sched_unblock_kernel_inv)
next
  case (step_admit s t)
  then show ?case by (simp add: kernel_inv_def sched_inv_gen sched_admit_gen roots_ok_kept [OF _ root_kept_admit])
next
  case (step_create fresh s stack name entry arg n prio r s')
  have "sched_gen {} {} {the (s_current s)} s'"
    using step_create.prems thread_create_gen [OF step_create.hyps(2) _ step_create.hyps(1)]
    by (simp add: kernel_inv_def sched_inv_gen)
  then show ?case using step_create.prems thread_create_roots [OF step_create.hyps(2)]
      thread_create_frame(5) [OF step_create.hyps(2)]
    by (simp add: kernel_inv_def sched_inv_gen)
next
  case (step_collect s s')
  then show ?case using sched_collect_kernel_inv [of s] by auto
next
  case (step_exit s s')
  then show ?case using thread_exit_kernel_inv [of s] by auto
next
  case (step_process_create space s ok pname parent q s')
  then show ?case using process_create_kernel_inv by blast
next
  case (step_attach p s t)
  then show ?case using process_attach_kernel_inv by blast
next
  case (step_detach s t)
  then show ?case by (rule process_detach_kernel_inv)
next
  case (step_set_process p s)
  then show ?case using sched_set_process_kernel_inv by blast
next
  case (step_reap p s s')
  then show ?case by (rule process_reap_kernel_inv)
next
  case (step_process_exit s code s')
  then show ?case using process_exit_kernel_inv [of s code] by auto
next
  case (step_wait pid s out s')
  then show ?case using wait_loop_kernel_inv [of _ s out s']
    by (auto simp: process_wait_def split: option.splits if_splits)
next
  case (step_resume s self child out s')
  then show ?case using process_wait_resume_kernel_inv by blast
qed

lemma kernel_steps_inv: "kernel_step\<^sup>*\<^sup>* s s' \<Longrightarrow> kernel_inv s \<Longrightarrow> kernel_inv s'"
  by (induction rule: rtranclp_induct) (auto intro: kernel_step_inv)

text \<open>
  The start: \<open>kmain\<close> clears the process table, adopts the boot context, creates the idle thread,
  hands both to the scheduler and admits idle. \<open>b\<close> and \<open>i\<close> are the two objects the heap gives.
\<close>

definition kernel_boot :: "tptr \<Rightarrow> tptr \<Rightarrow> (u32 \<Rightarrow> u64) \<Rightarrow> u64 \<Rightarrow> 'a kstate_scheme \<Rightarrow> af_status \<times> 'a kstate_scheme" where
  "kernel_boot b i stack idle_entry s =
     (let s0 = process_init s;
          (boot, s1) = thread_adopt_current (Some b) (Some ''boot'') s0
      in if boot = None then (AF_ERR_NOMEM, s1)
         else let (idle, s2) = thread_create (Some i) stack (Some ''idle'') idle_entry 0 AF_KERNEL_STACK_SIZE AF_PRIO_IDLE s1
           in if idle = None then (AF_ERR_NOMEM, s2)
              else let (rc, s3) = sched_init boot idle s2
                in if af_status_err rc then (rc, s3) else (AF_OK, sched_admit idle s3))"

text \<open>The kernel's data segment before it: every pointer null, every counter zero.\<close>

definition cold :: "'a kstate_scheme \<Rightarrow> bool" where
  "cold s \<longleftrightarrow> s_threads s = replicate AF_MAX_THREADS None \<and> s_thread_count s = 0 \<and>
     (\<forall>t. threads s t = zero_thread) \<and> s_zombies s = [] \<and> cr3 s \<noteq> 0"

lemma register_first: "i < AF_MAX_THREADS \<Longrightarrow> s_threads s ! i = None \<Longrightarrow> \<not> (\<exists>s'. register_thread t s = (0, s'))"
proof
  assume i: "i < AF_MAX_THREADS" "s_threads s ! i = None" and "\<exists>s'. register_thread t s = (0, s')"
  then obtain s' where r: "register_thread t s = (0, s')" by blast
  show False
  proof (cases "find (\<lambda>i. s_threads s ! i = None) [0..<AF_MAX_THREADS]")
    case None
    with i show False by (auto dest: find_NoneD [where x = i])
  next
    case (Some j)
    from r show False
    proof (cases rule: register_thread_cases)
      case full
      have "s_thread_count s + 1 \<noteq> s_thread_count s" by simp
      with r full Some show False
        by (auto simp: register_thread_def Let_def upd_thread_def dest!: arg_cong [of _ _ s_thread_count])
    qed simp
  qed
qed

lemma thread_adopt_eq:
  assumes "i < AF_MAX_THREADS" "s_threads s ! i = None"
  obtains j th where "j < AF_MAX_THREADS" "s_threads s ! j = None" "th_state th = AF_THREAD_RUNNING"
    "unat (th_tid th) = j + 1" "th_process th = None"
    "thread_adopt_current (Some b) name s = (Some b, ((upd_thread b (\<lambda>_. th) s)
       \<lparr>s_threads := (s_threads s)[j := Some b], s_thread_count := s_thread_count s + 1\<rparr>)\<lparr>th_cur := Some b\<rparr>)"
proof -
  define s1 where "s1 = upd_thread b (\<lambda>_. zero_thread) s"
  obtain tid s2 where reg: "register_thread b s1 = (tid, s2)" by fastforce
  have "tid \<noteq> 0" using reg register_first [of i s1 b] assms by (auto simp: s1_def)
  from reg show thesis
  proof (cases rule: register_thread_cases)
    case (slot j)
    define th where "th = zero_thread\<lparr>th_tid := tid, th_state := AF_THREAD_RUNNING, th_priority := AF_PRIO_DEFAULT,
      th_time_slice := AF_TIME_SLICE_TICKS, th_stack_base := 0, th_stack_size := 0,
      th_name := strlcpy 32 (case name of None \<Rightarrow> ''boot'' | Some n \<Rightarrow> n)\<rparr>"
    have "thread_adopt_current (Some b) name s = (Some b, ((upd_thread b (\<lambda>_. th) s)
       \<lparr>s_threads := (s_threads s)[j := Some b], s_thread_count := s_thread_count s + 1\<rparr>)\<lparr>th_cur := Some b\<rparr>)"
      using reg slot by (simp add: thread_adopt_current_def s1_def [symmetric])
        (simp add: s1_def th_def upd_thread_def)
    with slot show thesis by (intro that [of j th]) (auto simp: s1_def th_def zero_thread_def)
  qed (use \<open>tid \<noteq> 0\<close> in simp)
qed

lemma thread_create_succeeds:
  assumes "i < AF_MAX_THREADS" "s_threads s ! i = None" "entry \<noteq> 0" "stack (stack_frames n) \<noteq> 0"
  shows "fst (thread_create (Some t) stack name entry arg n prio s) = Some t"
proof -
  obtain tid s2 where reg: "register_thread t (upd_thread t (\<lambda>_. zero_thread) s) = (tid, s2)" by fastforce
  have "tid \<noteq> 0" using reg register_first [of i "upd_thread t (\<lambda>_. zero_thread) s" t] assms by auto
  with reg assms show ?thesis by (simp add: thread_create_def stack_frames_def Let_def)
qed

lemma sched_init_inv:
  assumes tab: "threads_ok s" and b: "th_state (threads s b) = AF_THREAD_RUNNING" "th_cur s = Some b"
    and i: "th_state (threads s i) = AF_THREAD_CREATED" "b \<noteq> i"
    and rest: "\<And>t. t \<noteq> b \<Longrightarrow> t \<noteq> i \<Longrightarrow> th_state (threads s t) = AF_THREAD_FREE" and z: "s_zombies s = []"
  shows "\<exists>s'. sched_init (Some b) (Some i) s = (AF_OK, s') \<and> sched_inv s' \<and> threads s' =
     (threads s)(i := (threads s i)\<lparr>th_priority := AF_PRIO_IDLE\<rparr>) \<and> cr3 s' = cr3 s \<and>
     s_last_installed s' = cr3 s \<and> s_kernel_root s' = cr3 s \<and> s_table s' = s_table s \<and> s_current s' = Some b"
proof -
  define s1 where "s1 = s\<lparr>runq := replicate AF_PRIO_LEVELS [], runq_len := replicate AF_PRIO_LEVELS 0\<rparr>"
  define s2 where "s2 = upd_thread i (\<lambda>th. th\<lparr>th_priority := AF_PRIO_IDLE, th_state := AF_THREAD_CREATED\<rparr>)
      (s1\<lparr>s_idle := Some i\<rparr>)"
  define s3 where "s3 = upd_thread b (\<lambda>th. th\<lparr>th_state := AF_THREAD_RUNNING\<rparr>) (s2\<lparr>s_current := Some b\<rparr>)"
  define s4 where "s4 = s3\<lparr>s_kernel_root := cr3 s3, s_last_installed := cr3 s3\<rparr>"
  have run: "sched_init (Some b) (Some i) s = (AF_OK, s4)"
    by (simp add: sched_init_def Let_def s1_def s2_def s3_def s4_def)
  have th: "threads s4 = (threads s)(i := (threads s i)\<lparr>th_priority := AF_PRIO_IDLE\<rparr>)"
    using b i by (auto simp: s4_def s3_def s2_def s1_def fun_eq_iff)
  have st: "th_state (threads s4 t) = (if t = b then AF_THREAD_RUNNING else if t = i then AF_THREAD_CREATED else AF_THREAD_FREE)" for t
    using b i rest by (simp add: th)
  have "ready_ok {} s4" unfolding ready_ok_def
    by (simp add: st) (simp add: s4_def s3_def s2_def s1_def)
  moreover have "s_threads s4 = s_threads s" "s_thread_count s4 = s_thread_count s"
    by (simp_all add: s4_def s3_def s2_def s1_def)
  then have "threads_ok s4"
    using tab unfolding threads_ok_def th by (auto split: if_splits)
  moreover have "zombies_ok {} s4" unfolding zombies_ok_def
    using z by (simp add: st) (simp add: s4_def s3_def s2_def s1_def)
  moreover have "s_idle s4 = Some i" by (simp add: s4_def s3_def s2_def)
  then have "idle_ok s4" by (simp add: idle_ok_def st)
  moreover have "running_ok {b} s4" unfolding running_ok_def
    using b(2) by (simp add: st) (simp add: s4_def s3_def s2_def s1_def)
  moreover have "s_current s4 = Some b" by (simp add: s4_def s3_def)
  ultimately have "sched_inv s4" by (simp add: sched_inv_def)
  then show ?thesis using run th by (simp add: s4_def s3_def s2_def s1_def)
qed

lemma cold_threads_ok: "cold s \<Longrightarrow> threads_ok s"
  unfolding threads_ok_def by (auto simp: cold_def zero_thread_def)

theorem kernel_boot_inv:
  assumes cold: "cold s" and "b \<noteq> i" "idle_entry \<noteq> 0" "stack (stack_frames AF_KERNEL_STACK_SIZE) \<noteq> 0"
  shows "\<exists>s'. kernel_boot b i stack idle_entry s = (AF_OK, s') \<and> kernel_inv s' \<and> on_own_root s'"
proof -
  define s0 where "s0 = process_init s"
  have c0: "s_threads s0 = replicate AF_MAX_THREADS None" "\<forall>t. threads s0 t = zero_thread" "s_zombies s0 = []"
      "cr3 s0 \<noteq> 0" "s_table s0 = replicate AF_MAX_PROCESSES zero_process"
    using cold by (simp_all add: s0_def process_init_def cold_def)
  have t0: "threads_ok s0"
    using cold_threads_ok [OF cold] by (rule threads_ok_cong) (simp_all add: s0_def process_init_def)
  have "s_threads s0 ! 0 = None" by (simp add: c0)
  then obtain j bth where b: "j < AF_MAX_THREADS" "s_threads s0 ! j = None" "th_state bth = AF_THREAD_RUNNING"
    "unat (th_tid bth) = j + 1" "th_process bth = None"
    "thread_adopt_current (Some b) (Some ''boot'') s0 = (Some b, ((upd_thread b (\<lambda>_. bth) s0)
       \<lparr>s_threads := (s_threads s0)[j := Some b], s_thread_count := s_thread_count s0 + 1\<rparr>)\<lparr>th_cur := Some b\<rparr>)"
    by (rule thread_adopt_eq [rotated]) simp_all
  define s1 where "s1 = ((upd_thread b (\<lambda>_. bth) s0)
       \<lparr>s_threads := (s_threads s0)[j := Some b], s_thread_count := s_thread_count s0 + 1\<rparr>)\<lparr>th_cur := Some b\<rparr>"
  have u0: "unused_thread t s0" for t using c0 by (simp add: unused_thread_def zero_thread_def)
  have "threads_ok ((upd_thread b (\<lambda>_. bth) s0)
       \<lparr>s_threads := (s_threads s0)[j := Some b], s_thread_count := s_thread_count s0 + 1\<rparr>)"
    using t0 u0 b by (intro threads_ok_new) simp_all
  then have t1: "threads_ok s1" by (rule threads_ok_cong) (simp_all add: s1_def)
  have u1: "unused_thread i s1" using u0 [of i] assms(2) by (simp add: unused_thread_def s1_def)
  define k where "k = (if j = 0 then 1 else 0 :: nat)"
  have "s_threads s1 ! k = None" using b(1) by (simp add: s1_def c0 k_def nth_list_update)
  moreover have "k < AF_MAX_THREADS" by (simp add: k_def)
  ultimately have ok: "fst (thread_create (Some i) stack (Some ''idle'') idle_entry 0 AF_KERNEL_STACK_SIZE AF_PRIO_IDLE s1) = Some i"
    using assms by (intro thread_create_succeeds)
  then obtain s2 where c: "thread_create (Some i) stack (Some ''idle'') idle_entry 0 AF_KERNEL_STACK_SIZE AF_PRIO_IDLE s1 = (Some i, s2)"
    by (metis prod.collapse)
  then obtain m ith where i: "m < AF_MAX_THREADS" "s_threads s1 ! m = None" "th_state ith = AF_THREAD_CREATED"
      "unat (th_tid ith) = m + 1" "th_process ith = None"
      "s2 = (upd_thread i (\<lambda>_. ith) s1)\<lparr>s_threads := (s_threads s1)[m := Some i], s_thread_count := s_thread_count s1 + 1\<rparr>"
    by (cases rule: thread_create_cases) auto
  have t2: "threads_ok s2" unfolding i(6) using t1 u1 i by (intro threads_ok_new) simp_all
  have "\<exists>s3. sched_init (Some b) (Some i) s2 = (AF_OK, s3) \<and> sched_inv s3 \<and> threads s3 =
     (threads s2)(i := (threads s2 i)\<lparr>th_priority := AF_PRIO_IDLE\<rparr>) \<and> cr3 s3 = cr3 s2 \<and>
     s_last_installed s3 = cr3 s2 \<and> s_kernel_root s3 = cr3 s2 \<and> s_table s3 = s_table s2 \<and> s_current s3 = Some b"
    using t2 assms(2) b i c0 by (intro sched_init_inv) (auto simp: s1_def zero_thread_def)
  then obtain s3 where s3: "sched_init (Some b) (Some i) s2 = (AF_OK, s3)" "sched_inv s3" "threads s3 =
     (threads s2)(i := (threads s2 i)\<lparr>th_priority := AF_PRIO_IDLE\<rparr>)" "cr3 s3 = cr3 s2"
     "s_last_installed s3 = cr3 s2" "s_kernel_root s3 = cr3 s2" "s_table s3 = s_table s2" "s_current s3 = Some b" by blast
  have np: "th_process (threads s3 t) = None" for t
    using c0 b i by (simp add: s3 s1_def zero_thread_def)
  have "s_table s3 = replicate AF_MAX_PROCESSES zero_process" "cr3 s3 \<noteq> 0"
    using c0 by (simp_all add: s3 i s1_def)
  then have "kernel_inv s3" "on_own_root s3" using s3 np
    by (simp_all add: kernel_inv_def roots_ok_def on_own_root_def wanted_root_def zero_process_def)
  then have "kernel_inv (sched_admit (Some i) s3)" "on_own_root (sched_admit (Some i) s3)"
    using on_own_root_kept [OF _ root_kept_admit]
    by (simp_all add: kernel_inv_def sched_inv_gen sched_admit_gen roots_ok_kept [OF _ root_kept_admit])
  moreover have "kernel_boot b i stack idle_entry s = (AF_OK, sched_admit (Some i) s3)"
    by (simp add: kernel_boot_def s0_def [symmetric] b(6) s1_def [symmetric] c s3(1))
  ultimately show ?thesis by blast
qed

section \<open>Scheduling order\<close>

lemma queued_ready:
  "ready_ok H s \<Longrightarrow> q < AF_PRIO_LEVELS \<Longrightarrow> t \<in> set (runq s ! q) \<Longrightarrow>
     th_state (threads s t) = AF_THREAD_RUNNABLE \<and> t \<notin> H \<and> prio_level (th_priority (threads s t)) = q"
  unfolding ready_ok_def by blast

lemma pick_next_head:
  assumes inv: "sched_inv s" and p: "p < AF_PRIO_LEVELS" "\<forall>q < p. runq s ! q = []" "runq s ! p = t # ts"
  obtains s' where "pick_next s = (Some t, s')" "runq s' = (runq s)[p := ts]" "threads s' = threads s"
    "s_current s' = s_current s" "prio_level (th_priority (threads s t)) = p"
    "th_state (threads s t) = AF_THREAD_RUNNABLE"
proof -
  obtain n s' where pick: "pick_next s = (n, s')" by fastforce
  have mem: "t \<in> set (runq s ! p)" using p by simp
  with inv p have t: "prio_level (th_priority (threads s t)) = p" "th_state (threads s t) = AF_THREAD_RUNNABLE"
    using queued_ready [of "{}" s p t] by (auto simp: sched_inv_def)
  from pick show thesis
  proof (cases rule: pick_next_cases)
    case (queued t' q)
    have "runq s ! q \<noteq> []" using queued(4) by (auto simp: runq_pop_def)
    then have "q = p" using p queued(2,3) by (metis linorder_neqE_nat list.discI)
    with queued(4) p have e: "t' = t" "runq s' = (runq s)[p := ts]"
      by (auto simp: runq_pop_def dec_len_def split: if_splits)
    with pick queued t show thesis by (intro that [of s']) (auto simp: pick_next_frame [OF pick])
  qed (use p in auto)
qed

lemma sched_yield_step:
  assumes inv: "sched_inv s" and cur: "s_current s = Some c" and lev: "p \<le> prio_level (th_priority (threads s c))"
    and p: "p < AF_PRIO_LEVELS" "\<forall>q < p. runq s ! q = []" "runq s ! p = u # rest"
  shows "\<exists>s'. sched_yield s = Some s' \<and> sched_inv s' \<and> s_current s' = Some u \<and>
    (\<forall>q < p. runq s' ! q = []) \<and> (\<exists>ws. runq s' ! p = rest @ ws) \<and>
    prio_level (th_priority (threads s' u)) = p"
proof -
  have run: "th_state (threads s c) = AF_THREAD_RUNNING"
    using inv cur running_state [of "{c}" s c] by (auto simp: sched_inv_def)
  define s1 where "s1 = upd_thread c (\<lambda>th. th\<lparr>th_time_slice := AF_TIME_SLICE_TICKS\<rparr>) s"
  have "sched_gen {} {} {c} s1" using inv cur by (auto simp: s1_def sched_inv_gen intro!: sched_gen_upd)
  then have inv1: "sched_inv s1" using cur by (simp add: sched_inv_gen s1_def)
  have "runq s1 = runq s" by (simp add: s1_def)
  with p pick_next_head [OF inv1, of p u rest] obtain s2 where s2: "pick_next s1 = (Some u, s2)"
      "runq s2 = (runq s)[p := rest]" "threads s2 = threads s1" "s_current s2 = Some c"
      "prio_level (th_priority (threads s1 u)) = p" "th_state (threads s1 u) = AF_THREAD_RUNNABLE"
    using cur by (metis upd_thread_simps(7) s1_def)
  have uc: "u \<noteq> c" using s2(6) run by (auto simp: s1_def)
  have y: "sched_yield s = switch_to (Some u) s2" using cur run s2(1) by (simp add: sched_yield_def s1_def Let_def)
  obtain s' where s': "sched_yield s = Some s'" "sched_inv s'" using sched_yield_ok [OF inv] by blast
  define s3 where "s3 = runq_push c (upd_thread c (\<lambda>th. th\<lparr>th_state := AF_THREAD_RUNNABLE\<rparr>) s2)"
  have sw: "s' = install_root (wanted_root (th_process (threads (make_current u s3) u)) (make_current u s3)) (make_current u s3)"
  proof -
    have "switch_to (Some u) s2 =
      Some (install_root (wanted_root (th_process (threads (make_current u s3) u)) (make_current u s3)) (make_current u s3))"
      using uc run s2(3,4) by (simp add: switch_to_def s3_def s1_def Let_def)
    with y s' show ?thesis by simp
  qed
  define l where "l = prio_level (th_priority (threads s c))"
  have len: "length (runq s) = 8" using inv by (simp add: sched_inv_def ready_ok_def)
  have rq: "runq s' = (runq s2)[l := runq s2 ! l @ [c]]"
    unfolding sw by (simp add: s3_def runq_push_def Let_def s2 s1_def l_def)
  have "\<forall>q < p. runq s' ! q = []" using p lev len by (auto simp: rq s2 l_def nth_list_update)
  moreover have "\<exists>ws. runq s' ! p = rest @ ws" using p len by (auto simp: rq s2 nth_update_if)
  moreover have "prio_level (th_priority (threads s' u)) = p"
    using s2(3,5) uc by (simp add: sw s3_def)
  moreover have "s_current s' = Some u" by (simp add: sw)
  ultimately show ?thesis using s' by blast
qed

fun yields :: "nat \<Rightarrow> 'a kstate_scheme \<Rightarrow> 'a kstate_scheme option" where
  "yields 0 s = Some s"
| "yields (Suc n) s = (case sched_yield s of None \<Rightarrow> None | Some s' \<Rightarrow> yields n s')"

lemma yields_reach:
  assumes "sched_inv s" "s_current s = Some c" "p \<le> prio_level (th_priority (threads s c))"
    and "p < AF_PRIO_LEVELS" "\<forall>q < p. runq s ! q = []" "runq s ! p = us @ t # vs"
  shows "\<exists>s'. yields (Suc (length us)) s = Some s' \<and> s_current s' = Some t"
  using assms
proof (induction us arbitrary: s c vs)
  case Nil
  with sched_yield_step [of s c p t vs] show ?case by auto
next
  case (Cons u us)
  from Cons.prems sched_yield_step [of s c p u "us @ t # vs"] obtain s1 ws where s1: "sched_yield s = Some s1"
      "sched_inv s1" "s_current s1 = Some u" "\<forall>q < p. runq s1 ! q = []" "runq s1 ! p = (us @ t # vs) @ ws"
      "prio_level (th_priority (threads s1 u)) = p" by auto
  from Cons.IH [of s1 u "vs @ ws"] s1 Cons.prems(4) have "\<exists>s'. yields (Suc (length us)) s1 = Some s' \<and> s_current s' = Some t"
    by simp
  with s1 show ?case by simp
qed

section \<open>A concrete state\<close>

text \<open>
  Five threads: 0 runs in process 1 (pid 2), 1 is idle, 2 is ready in process 2 (pid 3, its child),
  3 is blocked in \<open>process_wait\<close>, 4 sleeps until tick 5.
\<close>

definition demo_thread :: "nat \<Rightarrow> af_thread" where
  "demo_thread t = zero_thread\<lparr>
     th_tid := of_nat (t + 1),
     th_state := [AF_THREAD_RUNNING, AF_THREAD_RUNNABLE, AF_THREAD_RUNNABLE, AF_THREAD_BLOCKED, AF_THREAD_SLEEPING] ! t,
     th_priority := [4, 7, 4, 4, 4] ! t,
     th_time_slice := 2,
     th_stack_base := of_nat (t * 0x10000 + 0x100000),
     th_stack_size := 0x4000,
     th_wake_tick := 5,
     th_process := [Some 1, None, Some 2, None, None] ! t\<rparr>"

definition demo_process :: "nat \<Rightarrow> af_process" where
  "demo_process p = zero_process\<lparr>pr_pid := of_nat (p + 1), pr_state := AF_PROCESS_ALIVE, pr_parent := of_nat p,
     pr_addr_space := [0, 0x2000, 0x3000] ! p, pr_threads := [[], [0], [2]] ! p, pr_thread_count := 1\<rparr>"

definition demo :: kstate where
  "demo = \<lparr>threads = \<lambda>t. if t < 5 then demo_thread t else zero_thread,
     s_threads = map (\<lambda>i. if i < 5 then Some i else None) [0..<AF_MAX_THREADS], s_thread_count = 5,
     th_cur = Some 0, runq = [[], [], [], [], [2], [], [], [1]], runq_len = [0, 0, 0, 0, 1, 0, 0, 1],
     s_current = Some 0, s_idle = Some 1, s_ticks = 4, s_switches = 0, s_need_resched = False,
     s_kernel_root = 0x1000, s_last_installed = 0x2000, s_zombies = [], cr3 = 0x2000, freed_stacks = [],
     s_table = map (\<lambda>p. if p = 1 \<or> p = 2 then demo_process p else zero_process) [0..<AF_MAX_PROCESSES], s_live = 2,
     s_next_pid = 4, destroyed_spaces = [], kfreed = []\<rparr>"

lemma less_8: "(\<forall>p < (8::nat). P p) \<longleftrightarrow> P 0 \<and> P 1 \<and> P 2 \<and> P 3 \<and> P 4 \<and> P 5 \<and> P 6 \<and> P 7"
  by (simp add: eval_nat_numeral All_less_Suc) blast

lemma demo_thread_states:
  "th_state (threads demo t) = (if t = 0 then AF_THREAD_RUNNING else if t = 1 \<or> t = 2 then AF_THREAD_RUNNABLE
     else if t = 3 then AF_THREAD_BLOCKED else if t = 4 then AF_THREAD_SLEEPING else AF_THREAD_FREE)"
proof (cases "t < 5")
  case True
  then have "t = 0 \<or> t = 1 \<or> t = 2 \<or> t = 3 \<or> t = 4" by auto
  then show ?thesis by (auto simp: demo_def demo_thread_def)
next
  case False
  then show ?thesis by (auto simp: demo_def zero_thread_def)
qed

lemma demo_thread_prio:
  "t \<in> {0, 1, 2, 3, 4} \<Longrightarrow> prio_level (th_priority (threads demo t)) = (if t = 1 then 7 else 4)"
  by (auto simp: demo_def demo_thread_def prio_level_def word_le_nat_alt)

lemma demo_ready: "ready_ok {} demo"
proof -
  have m: "t \<in> set (runq demo ! q) \<longleftrightarrow> th_state (threads demo t) = AF_THREAD_RUNNABLE \<and>
      prio_level (th_priority (threads demo t)) = q" if "q < 8" for q t
  proof (cases "t = 1 \<or> t = 2")
    case True
    moreover from that have "q \<in> {0,1,2,3,4,5,6,7}" by auto
    ultimately show ?thesis using demo_thread_prio [of t] by (auto simp: demo_thread_states) (simp_all add: demo_def)
  next
    case False
    moreover from that have "q \<in> {0,1,2,3,4,5,6,7}" by auto
    ultimately show ?thesis by (auto simp: demo_thread_states) (auto simp: demo_def)
  qed
  have "length (runq demo) = 8" "length (runq_len demo) = 8"
    "\<forall>p < 8. distinct (runq demo ! p) \<and> unat (runq_len demo ! p) = length (runq demo ! p)"
    by (simp_all add: less_8) (simp_all add: demo_def)
  with m show ?thesis by (simp add: ready_ok_def)
qed

lemma demo_threads_ok: "threads_ok demo"
  unfolding threads_ok_def
proof (intro conjI allI impI)
  fix i t assume "i < AF_MAX_THREADS" "s_threads demo ! i = Some t"
  then have t: "t = i" "i \<in> {0, 1, 2, 3, 4}" by (auto simp: demo_def split: if_splits)
  then show "unat (th_tid (threads demo t)) = i + 1" by (auto simp: demo_def demo_thread_def)
  show "th_state (threads demo t) \<notin> {AF_THREAD_FREE, AF_THREAD_DEAD}" using t by (auto simp: demo_thread_states)
next
  fix t assume "th_state (threads demo t) \<notin> {AF_THREAD_FREE, AF_THREAD_DEAD}"
  then have "t < 5" by (auto simp: demo_thread_states split: if_splits)
  then show "Some t \<in> set (s_threads demo)" by (auto simp: demo_def)
next
  have split: "[0..<1024] = [0..<5] @ [5..<(1024::nat)]" using upt_add_eq_append [of 0 5 1019] by simp
  show "unat (s_thread_count demo) = length (filter (\<lambda>e. e \<noteq> None) (s_threads demo))"
    unfolding demo_def kstate.select_convs split by (simp add: filter_map filter_empty_conv comp_def upt_rec)
qed (simp add: demo_def)

lemma demo_inv: "kernel_inv demo"
proof -
  have "zombies_ok {} demo" "idle_ok demo" "running_ok {0} demo"
    unfolding zombies_ok_def idle_ok_def running_ok_def
    by (simp_all add: demo_thread_states) (simp_all add: demo_def demo_thread_def)
  moreover have "s_current demo = Some 0" by (simp add: demo_def)
  ultimately have "sched_inv demo" using demo_ready demo_threads_ok by (simp add: sched_inv_def)
  moreover have "roots_ok demo"
  proof -
    have "th_process (threads demo t) = Some p \<Longrightarrow> p < 256" for t p
    proof (cases "t < 5")
      case True
      then have "t \<in> {0,1,2,3,4}" by auto
      then show "th_process (threads demo t) = Some p \<Longrightarrow> p < 256" by (auto simp: demo_def demo_thread_def)
    qed (simp add: demo_def zero_thread_def)
    moreover have "pr_addr_space (s_table demo ! p) \<noteq> 0x1000" if "p < 256" for p
    proof (cases "p = 1 \<or> p = 2")
      case True
      then show ?thesis by (auto simp: demo_def demo_process_def)
    qed (use that in \<open>simp add: demo_def zero_process_def\<close>)
    ultimately show ?thesis unfolding roots_ok_def by (auto simp: demo_def)
  qed
  ultimately show ?thesis by (simp add: kernel_inv_def)
qed

section \<open>Properties of the scheduler\<close>

definition cold_state :: kstate where
  "cold_state = \<lparr>threads = \<lambda>_. zero_thread, s_threads = replicate AF_MAX_THREADS None, s_thread_count = 0,
     th_cur = None, runq = replicate AF_PRIO_LEVELS [], runq_len = replicate AF_PRIO_LEVELS 0,
     s_current = None, s_idle = None, s_ticks = 0, s_switches = 0, s_need_resched = False,
     s_kernel_root = 0, s_last_installed = 0, s_zombies = [], cr3 = 0x1000, freed_stacks = [],
     s_table = replicate AF_MAX_PROCESSES zero_process, s_live = 0, s_next_pid = 0, destroyed_spaces = [], kfreed = []\<rparr>"

text \<open>
  (C2) The scheduler is sound from boot on. Once \<open>kmain\<close> has brought threads up, any sequence of
  ticks, yields, blocks, sleeps, wake-ups, creations, exits, waits and reaps keeps: one running
  thread, the one both copies of \<open>s_current\<close> name; every runnable thread in the queue of its own
  priority and nobody else there; every exited thread on the zombie list; the thread table and its
  counters consistent. In every such state the timer tick, yield, block, sleep, the collector and
  the exit of any thread but idle run through without a null thread pointer or a panic.
\<close>

theorem scheduler_sound:
  assumes "cold s0" "b \<noteq> i" "idle_entry \<noteq> 0" "stack (stack_frames AF_KERNEL_STACK_SIZE) \<noteq> 0"
    and "kernel_boot b i stack idle_entry s0 = (rc, s1)" "kernel_step\<^sup>*\<^sup>* s1 s"
  shows "rc = AF_OK \<and> kernel_inv s \<and>
    (\<exists>c. s_current s = Some c \<and> th_cur s = Some c \<and> (\<forall>t. th_state (threads s t) = AF_THREAD_RUNNING \<longleftrightarrow> t = c)) \<and>
    (\<forall>t. th_state (threads s t) = AF_THREAD_RUNNABLE \<longleftrightarrow> t \<in> set (runq s ! prio_level (th_priority (threads s t)))) \<and>
    (\<forall>t. th_state (threads s t) = AF_THREAD_ZOMBIE \<longleftrightarrow> t \<in> set (s_zombies s)) \<and>
    sched_tick s \<noteq> None \<and> sched_yield s \<noteq> None \<and> sched_block obj s \<noteq> None \<and> sched_sleep n s \<noteq> None \<and>
    sched_collect_zombies s \<noteq> None \<and> (s_current s = s_idle s \<or> thread_exit s \<noteq> None)"
proof -
  obtain s' where "kernel_boot b i stack idle_entry s0 = (AF_OK, s')" "kernel_inv s'"
    using kernel_boot_inv [where s = s0 and stack = stack and b = b and i = i and idle_entry = idle_entry] assms(1-4) by blast
  with assms(5) have rc: "rc = AF_OK" "kernel_inv s1" by auto
  with kernel_steps_inv [OF assms(6)] have inv: "kernel_inv s" by simp
  then have si: "sched_inv s" and ready: "ready_ok {} s" and z: "zombies_ok {} s" and r: "running_ok {the (s_current s)} s"
    by (simp_all add: kernel_inv_def sched_inv_def)
  have "\<exists>c. s_current s = Some c \<and> th_cur s = Some c \<and> (\<forall>t. th_state (threads s t) = AF_THREAD_RUNNING \<longleftrightarrow> t = c)"
    using r by (auto simp: running_ok_def)
  moreover have "\<forall>t. th_state (threads s t) = AF_THREAD_RUNNABLE \<longleftrightarrow> t \<in> set (runq s ! prio_level (th_priority (threads s t)))"
    using ready_queued [OF ready] queued_ready [OF ready prio_level_less] by blast
  moreover have "\<forall>t. th_state (threads s t) = AF_THREAD_ZOMBIE \<longleftrightarrow> t \<in> set (s_zombies s)"
    using z by (simp add: zombies_ok_def)
  moreover have "sched_tick s \<noteq> None" "sched_yield s \<noteq> None" "sched_block obj s \<noteq> None" "sched_sleep n s \<noteq> None"
    using sched_tick_ok [OF si] sched_yield_ok [OF si] sched_block_ok [OF si, of obj] sched_sleep_ok [OF si, of n] by auto
  moreover have "sched_collect_zombies s \<noteq> None" "s_current s = s_idle s \<or> thread_exit s \<noteq> None"
    using sched_collect_kernel_inv [OF inv] thread_exit_kernel_inv [OF inv] by auto
  ultimately show ?thesis using rc inv by blast
qed

theorem scheduler_sound_witness:
  "\<exists>s1. kernel_boot 0 1 (\<lambda>_. 0x100000) 0x2000 cold_state = (AF_OK, s1) \<and> kernel_inv s1 \<and> sched_tick s1 \<noteq> None"
proof -
  obtain rc s1 where b: "kernel_boot 0 1 (\<lambda>_. 0x100000) 0x2000 cold_state = (rc, s1)" by fastforce
  have "cold cold_state" by (simp add: cold_def cold_state_def)
  from scheduler_sound [OF this _ _ _ b rtranclp.rtrancl_refl] b show ?thesis by auto
qed


lemma demo_queues: "runq demo ! 4 = [2]" "\<forall>q < 4. runq demo ! q = []" "s_current demo = Some 0"
  "prio_level (th_priority (threads demo 0)) = 4" "prio_level (th_priority (threads demo 2)) = 4"
proof -
  have "runq demo ! q = []" if "q \<in> {0, 1, 2, 3}" for q using that by (auto simp: demo_def)
  moreover have "q \<in> {0, 1, 2, 3}" if "q < 4" for q :: nat using that by auto
  ultimately show "\<forall>q < 4. runq demo ! q = []" by blast
qed (simp_all add: demo_thread_prio, simp_all add: demo_def)

lemma demo_sched_inv: "sched_inv demo"
  using demo_inv by (simp add: kernel_inv_def)




text \<open>
  A timer tick wakes exactly the threads whose sleep has expired, and changes nothing else of
  any thread: after \<open>sched_wake_sleepers now\<close> a thread is runnable if it was, or if it was asleep
  with a wake tick not after \<open>now\<close>.
\<close>

theorem wake_sleepers_exact:
  assumes "sched_inv s"
  shows "sched_inv (sched_wake_sleepers now s) \<and>
    (\<forall>t. threads (sched_wake_sleepers now s) t =
       (if th_state (threads s t) = AF_THREAD_SLEEPING \<and> th_wake_tick (threads s t) \<le> now
        then (threads s t)\<lparr>th_state := AF_THREAD_RUNNABLE\<rparr> else threads s t))"
proof -
  have g: "sched_gen {} {} {the (s_current s)} s" using assms by (simp add: sched_inv_gen)
  have tab: "threads_ok s" using assms by (simp add: sched_inv_def)
  then have "take AF_MAX_THREADS (s_threads s) = s_threads s" by (simp add: threads_ok_def)
  moreover have "Some t \<in> set (s_threads s)" if "th_state (threads s t) = AF_THREAD_SLEEPING" for t
    using live_registered [OF tab, of t] that by simp
  ultimately show ?thesis
    using wake_foldD(2) [OF order_refl g, of now] wake_foldD(3) [OF order_refl g, of now] wake_sleepers_gen [OF g, of now]
    by (auto simp: sched_wake_sleepers_def sched_inv_gen expired_def)
qed

theorem wake_sleepers_exact_witness:
  "th_state (threads (sched_wake_sleepers 5 demo) 4) = AF_THREAD_RUNNABLE \<and>
   th_state (threads (sched_wake_sleepers 4 demo) 4) = AF_THREAD_SLEEPING"
  using wake_sleepers_exact [OF demo_sched_inv, of 5] wake_sleepers_exact [OF demo_sched_inv, of 4]
  by (simp add: demo_thread_states) (simp add: demo_def demo_thread_def)

text \<open>
  (C9) A switch installs the right page tables. From a state in which the running thread is on its
  own process's tables, a yield, a timer tick, an exit or \<open>sched_set_process\<close> leaves the thread
  that runs next on its own process's tables (the kernel's, when it has none or its process has
  no address space), with the scheduler's record of \<open>CR3\<close> still right.
\<close>

theorem switch_runs_on_own_root:
  assumes "kernel_inv s" "on_own_root s"
    and "sched_yield s = Some s' \<or> sched_tick s = Some s' \<or> s_current s \<noteq> s_idle s \<and> thread_exit s = Some s' \<or>
      (\<exists>p < AF_MAX_PROCESSES. s' = sched_set_process (Some p) s)"
  shows "kernel_inv s' \<and> on_own_root s' \<and> s_last_installed s' = cr3 s'"
proof -
  have si: "sched_inv s" "roots_ok s" using assms(1) by (simp_all add: kernel_inv_def)
  have "kernel_inv s' \<and> on_own_root s'"
    using assms(3)
  proof (elim disjE exE conjE)
    assume y: "sched_yield s = Some s'"
    with sched_yield_root [OF y si(2)] sched_yield_ok [OF si(1)] assms(2) show ?thesis by (auto simp: kernel_inv_def)
  next
    assume t: "sched_tick s = Some s'"
    with sched_tick_root [OF t si] sched_tick_ok [OF si(1)] assms(2) show ?thesis by (auto simp: kernel_inv_def)
  next
    assume x: "s_current s \<noteq> s_idle s" "thread_exit s = Some s'"
    with thread_exit_root [OF x(2) si(2)] thread_exit_kernel_inv [OF assms(1) x(1)] assms(2) show ?thesis by auto
  next
    fix p assume "p < AF_MAX_PROCESSES" "s' = sched_set_process (Some p) s"
    with sched_set_process_kernel_inv [OF assms(1), of "Some p"] show ?thesis by simp
  qed
  then show ?thesis by (simp add: kernel_inv_def roots_ok_def)
qed

lemma demo_own_root: "on_own_root demo"
  by (simp add: on_own_root_def wanted_root_def demo_def demo_thread_def demo_process_def)

theorem switch_runs_on_own_root_witness:
  "\<exists>s'. sched_yield demo = Some s' \<and> s_current s' = Some 2 \<and> on_own_root s'"
proof -
  obtain s' where y: "sched_yield demo = Some s'" using sched_yield_ok [OF demo_sched_inv] by blast
  have "s_current s' = Some 2"
    using sched_yield_step [OF demo_sched_inv, of 0 4 2 "[]"] demo_queues y by simp
  with y switch_runs_on_own_root [OF demo_inv demo_own_root, of s'] show ?thesis by auto
qed

text \<open>
  \<open>sched_block\<close> (and with it IPC and \<open>process_wait\<close>) does not install page tables: \<open>CR3\<close>
  keeps the blocked thread's root, so whenever the thread it hands the CPU to belongs to a process
  with other tables, that thread runs in the blocked process's address space.
\<close>

theorem sched_block_foreign_root:
  assumes "kernel_inv s" "on_own_root s" "sched_block obj s = Some s'"
    and "s_current s = Some c" "s_current s' = Some n"
    and "wanted_root (th_process (threads s n)) s \<noteq> wanted_root (th_process (threads s c)) s"
  shows "cr3 s' = wanted_root (th_process (threads s' c)) s' \<and> cr3 s' \<noteq> wanted_root (th_process (threads s' n)) s' \<and>
    \<not> on_own_root s'"
proof -
  have k: "root_kept s s'" using assms(3) by (rule root_kept_block)
  then have same: "same_procs s s'" and cr: "cr3 s' = cr3 s" by (simp_all add: root_kept_def)
  have "wanted_root (th_process (threads s' t)) s' = wanted_root (th_process (threads s t)) s" for t
    using wanted_root_same [OF same] same by (simp add: same_procs_def)
  with assms cr show ?thesis by (simp add: on_own_root_def)
qed

lemma give_away_step:
  assumes inv: "sched_inv s" and cur: "s_current s = Some c" "s_idle s \<noteq> Some c"
    and p: "p < AF_PRIO_LEVELS" "\<forall>q < p. runq s ! q = []" "runq s ! p = u # rest"
  shows "\<exists>s'. sched_block obj s = Some s' \<and> s_current s' = Some u"
proof -
  define s1 where "s1 = upd_thread c (\<lambda>th. th\<lparr>th_state := AF_THREAD_BLOCKED, th_wait_obj := Some obj\<rparr>) s"
  obtain n s2 where pick: "pick_next s1 = (n, s2)" by fastforce
  have "runq s1 = runq s" by (simp add: s1_def)
  from pick have n: "n = Some u"
  proof (cases rule: pick_next_cases)
    case (queued t q)
    have "runq s ! q \<noteq> []" using queued(4) \<open>runq s1 = runq s\<close> by (auto simp: runq_pop_def)
    then have "q = p" using p queued(2,3) \<open>runq s1 = runq s\<close> by (metis linorder_neqE_nat list.discI)
    with queued(1,4) p \<open>runq s1 = runq s\<close> show ?thesis by (auto simp: runq_pop_def)
  qed (use p \<open>runq s1 = runq s\<close> in auto)
  have "th_state (threads s u) = AF_THREAD_RUNNABLE" "th_state (threads s c) = AF_THREAD_RUNNING"
    using queued_ready [of "{}" s p u] p inv cur running_state [of "{c}" s c] by (auto simp: sched_inv_def)
  then have "u \<noteq> c" by auto
  have "s_current s2 = Some c" using pick_next_frame(5) [OF pick] cur by (simp add: s1_def)
  with n \<open>u \<noteq> c\<close> pick have "give_away c s1 = Some (make_current u s2)" by (simp add: give_away_def)
  then show ?thesis using cur by (simp add: sched_block_def s1_def)
qed

theorem sched_block_foreign_root_witness:
  "\<exists>s'. sched_block (WaitEndpoint 0) demo = Some s' \<and> s_current s' = Some 2 \<and> cr3 s' = 0x2000 \<and>
     wanted_root (th_process (threads s' 2)) s' \<noteq> 0x2000"
proof -
  have "s_idle demo \<noteq> Some 0" by (simp add: demo_def)
  then obtain s' where b: "sched_block (WaitEndpoint 0) demo = Some s'" "s_current s' = Some 2"
    using give_away_step [OF demo_sched_inv, of 0 4 2 "[]"] demo_queues by auto
  have w: "wanted_root (th_process (threads demo 2)) demo \<noteq> wanted_root (th_process (threads demo 0)) demo"
    by (simp add: wanted_root_def demo_def demo_thread_def demo_process_def)
  have "cr3 s' = 0x2000" using root_kept_block [OF b(1)] by (simp add: root_kept_def demo_def)
  with sched_block_foreign_root [OF demo_inv demo_own_root b(1) _ b(2) w] b demo_queues show ?thesis by auto
qed

text \<open>
  (C10) Collecting exited threads is complete and safe. In any sound state \<open>sched_collect_zombies\<close>
  runs to the end (in particular the assertion that the page tables being freed are not the ones
  in \<open>CR3\<close> never fires), leaves no zombie, marks exactly the zombies dead, and hands each one's
  object to the heap and its stack to the frame allocator once.
\<close>

theorem collect_zombies_safe:
  assumes "kernel_inv s"
  shows "\<exists>s'. sched_collect_zombies s = Some s' \<and> kernel_inv s' \<and> s_zombies s' = [] \<and>
    (\<forall>t. th_state (threads s' t) = (if th_state (threads s t) = AF_THREAD_ZOMBIE then AF_THREAD_DEAD else th_state (threads s t))) \<and>
    kfreed s' = s_zombies s @ kfreed s \<and> distinct (s_zombies s) \<and>
    freed_stacks s' = freed_stacks s @ concat (map (\<lambda>z. stack_of (threads s z)) (rev (s_zombies s)))"
proof -
  obtain s' where s': "sched_collect_zombies s = Some s'" "kernel_inv s'" "s_zombies s' = []"
      "\<forall>t. th_state (threads s' t) = (if th_state (threads s t) = AF_THREAD_ZOMBIE then AF_THREAD_DEAD else th_state (threads s t))"
    using sched_collect_kernel_inv [OF assms] by blast
  have d: "distinct (s_zombies s)" using assms by (simp add: kernel_inv_def sched_inv_def zombies_ok_def)
  with s' collect_from_frees [of "rev (s_zombies s)" s s'] show ?thesis by (auto simp: sched_collect_zombies_def)
qed

theorem collect_zombies_safe_witness:
  "\<exists>s1 s2. thread_exit demo = Some s1 \<and> sched_collect_zombies s1 = Some s2 \<and> s_zombies s2 = []"
proof -
  have "s_current demo \<noteq> s_idle demo" by (simp add: demo_def)
  then obtain s1 where "thread_exit demo = Some s1" "kernel_inv s1" using thread_exit_kernel_inv [OF demo_inv] by blast
  with collect_zombies_safe [of s1] show ?thesis by blast
qed

section \<open>Exit and wait\<close>

lemma sched_reap_states:
  assumes "ready_ok H s" "th_state (threads s z) = AF_THREAD_ZOMBIE"
    "\<forall>u \<in> set (s_zombies s). th_state (threads s u) = AF_THREAD_ZOMBIE"
    and t: "th_state (threads s t) \<noteq> AF_THREAD_ZOMBIE"
  shows "th_state (threads (sched_reap (Some z) s) t) = th_state (threads s t)"
proof -
  have "16 \<le> length (s_zombies s) \<Longrightarrow> hd (s_zombies s) \<noteq> t"
    using assms(3) t by (metis hd_in_set list.size(3) not_numeral_le_zero)
  then show ?thesis using runq_remove_notin [OF assms(1), of z] assms(2)
    by (auto simp: sched_reap_def Let_def)
qed

lemma switch_from_zombie:
  assumes sw: "switch_to (Some n) s = Some s'" and p: "s_current s = Some p" "n \<noteq> p"
    and z: "th_state (threads s p) = AF_THREAD_ZOMBIE" and r: "ready_ok H s"
    and zs: "\<forall>u \<in> set (s_zombies s). th_state (threads s u) = AF_THREAD_ZOMBIE"
  shows "(length (s_zombies s) < 16 \<longrightarrow> p \<notin> set (s_zombies s) \<longrightarrow> s_zombies s' = s_zombies s @ [p]) \<and>
    (\<forall>t. th_state (threads s t) = AF_THREAD_RUNNABLE \<longrightarrow>
       th_state (threads s' t) \<in> {AF_THREAD_RUNNABLE, AF_THREAD_RUNNING})"
proof -
  have e: "s' = install_root (wanted_root (th_process (threads (make_current n (sched_reap (Some p) s)) n))
      (make_current n (sched_reap (Some p) s))) (make_current n (sched_reap (Some p) s))"
    using sw p z by (simp add: switch_to_def Let_def)
  have "th_state (threads s' t) \<in> {AF_THREAD_RUNNABLE, AF_THREAD_RUNNING}"
    if "th_state (threads s t) = AF_THREAD_RUNNABLE" for t
    using sched_reap_states [OF r z zs, of t] that by (simp add: e)
  moreover have "s_zombies s' = s_zombies s @ [p]" if "length (s_zombies s) < 16" "p \<notin> set (s_zombies s)"
    using that z runq_remove_notin [OF r, of p] by (simp add: e sched_reap_def Let_def)
  ultimately show ?thesis by blast
qed

lemma thread_exit_effect:
  assumes inv: "sched_inv s" and cur: "s_current s = Some c" "s_idle s \<noteq> Some c" and x: "thread_exit s = Some s'"
  shows "(length (s_zombies s) < 16 \<longrightarrow> s_zombies s' = s_zombies s @ [c]) \<and>
    (\<forall>t. th_state (threads s t) = AF_THREAD_RUNNABLE \<longrightarrow>
       th_state (threads s' t) \<in> {AF_THREAD_RUNNABLE, AF_THREAD_RUNNING})"
proof -
  define s1 where "s1 = upd_thread c (\<lambda>th. th\<lparr>th_state := AF_THREAD_ZOMBIE\<rparr>) s"
  have g: "sched_gen {} {} {c} s" using inv cur by (simp add: sched_inv_gen)
  have g1: "sched_gen {} {c} {} s1"
    using gen_leave [OF g, of c "\<lambda>th. th\<lparr>th_state := AF_THREAD_ZOMBIE\<rparr>"] cur by (simp add: s1_def)
  have run: "th_state (threads s c) = AF_THREAD_RUNNING" using g running_state [of "{c}" s c] by (simp add: sched_gen_def)
  have c1: "s_current s1 = Some c" "s_zombies s1 = s_zombies s" using cur by (simp_all add: s1_def)
  obtain n s2 where pick: "pick_next s1 = (n, s2)" by fastforce
  have sw: "switch_to n s2 = Some s'"
    using x cur pick inv by (simp add: thread_exit_def sched_yield_def s1_def sched_inv_def running_ok_def Let_def)
  from g1 c1(1) pick show ?thesis
  proof (rule gen_pick)
    show "{} = {c} \<or> {} = {} \<and> s_idle s1 \<noteq> Some c \<and> th_state (threads s1 c) \<noteq> AF_THREAD_RUNNABLE"
      using cur by (simp add: s1_def)
  next
    fix t H assume t: "n = Some t" "t \<noteq> c" "sched_gen H {c} {} s2"
    note fr = pick_next_frame [OF pick]
    have z: "zombies_ok {c} s2" "ready_ok H s2" using t by (simp_all add: sched_gen_def)
    have "c \<notin> set (s_zombies s2)" using z(1) by (auto simp: zombies_ok_def)
    moreover have "\<forall>u \<in> set (s_zombies s2). th_state (threads s2 u) = AF_THREAD_ZOMBIE"
      "th_state (threads s2 c) = AF_THREAD_ZOMBIE" using zombie_state [OF z(1)] by auto
    moreover have "th_state (threads s2 u) = AF_THREAD_RUNNABLE" if "th_state (threads s u) = AF_THREAD_RUNNABLE" for u
      using that fr(1) run by (auto simp: s1_def)
    ultimately show ?thesis
      using switch_from_zombie [of t s2 s' c H] sw t z c1 fr(5,7) by auto
  qed simp
qed


definition demo_waiting :: kstate where
  "demo_waiting = upd_process 1 (\<lambda>pr. pr\<lparr>pr_waiter := Some 3\<rparr>) demo"

lemma demo_waiting_facts: "kernel_inv demo_waiting" "s_current demo_waiting = Some 0" "s_idle demo_waiting \<noteq> Some 0"
  "th_process (threads demo_waiting 0) = Some 1" "pr_waiter (s_table demo_waiting ! 1) = Some 3"
  "th_state (threads demo_waiting 3) = AF_THREAD_BLOCKED"
proof -
  show "kernel_inv demo_waiting" unfolding demo_waiting_def using demo_inv by (rule kernel_inv_upd_process) simp
qed (simp_all add: demo_waiting_def demo_def demo_thread_def)


lemma collect_one_last:
  assumes "collect_one z s = Some s'" "th_process (threads s z) = Some p" "p < length (s_table s)"
    "pr_thread_count (s_table s ! p) = 1" "pr_state (s_table s ! p) = AF_PROCESS_ZOMBIE" "pr_waiter (s_table s ! p) = None"
  shows "pr_state (s_table s' ! p) = AF_PROCESS_FREE"
proof -
  define s1 where "s1 = (if pr_addr_space (s_table s ! p) \<noteq> 0 \<and> s_last_installed s = pr_addr_space (s_table s ! p)
      then s\<lparr>cr3 := s_kernel_root s, s_last_installed := s_kernel_root s\<rparr> else s)"
  define s2 where "s2 = process_detach_thread (Some z) s1"
  have s1: "s_table s1 = s_table s" "threads s1 = threads s" by (simp_all add: s1_def)
  have s2: "pr_thread_count (s_table s2 ! p) = 0" "pr_state (s_table s2 ! p) = AF_PROCESS_ZOMBIE"
    "pr_waiter (s_table s2 ! p) = None" "length (s_table s2) = length (s_table s)"
    using s1 assms by (simp_all add: s2_def process_detach_thread_def)
  obtain s3 where s3: "process_reap (Some p) s2 = Some s3" "s' = thread_reap z s3"
    using assms(1,2) s2 by (auto simp: collect_one_def Let_def s1_def [symmetric] s2_def [symmetric] split: option.splits)
  then have "pr_state (s_table s3 ! p) = AF_PROCESS_FREE"
    using s2 assms(3) by (auto simp: process_reap_def Let_def split: if_splits)
  then show ?thesis by (simp add: s3(2))
qed

text \<open>
  A child that exits before its parent waits is gone by the time the parent asks. When the only
  thread of a process that nobody is waiting for calls \<open>process_exit\<close>, the next run of the zombie
  collector frees the table entry, although the parent never collected the code:
  \<open>process_wait\<close> on that pid then returns \<open>AF_ERR_NOENT\<close>.
\<close>

theorem exit_before_wait_lost:
  assumes "kernel_inv s" "s_current s = Some c" "s_idle s \<noteq> Some c" "s_zombies s = []"
    and "th_process (threads s c) = Some p" "0 < p" "pr_thread_count (s_table s ! p) = 1" "pr_waiter (s_table s ! p) = None"
  shows "\<exists>s1 s2. process_exit code s = Some s1 \<and> sched_collect_zombies s1 = Some s2 \<and>
    pr_state (s_table s2 ! p) = AF_PROCESS_FREE \<and>
    process_wait (of_nat (p + 1)) s2 = Some (WaitReturned AF_ERR_NOENT None, s2)"
proof -
  have p: "p < AF_MAX_PROCESSES" "length (s_table s) = AF_MAX_PROCESSES"
    using assms(1,5) by (auto simp: kernel_inv_def roots_ok_def)
  define s0 where "s0 = upd_process p (\<lambda>pr. pr\<lparr>pr_exit_code := code, pr_state := AF_PROCESS_ZOMBIE\<rparr>) s"
  have cur: "process_current s = Some p"
    using assms by (simp add: process_current_def thread_current_def kernel_inv_def sched_inv_def running_ok_def)
  have run: "process_exit code s = thread_exit s0"
    using cur assms(8) p by (simp add: process_exit_def s0_def Let_def)
  have inv0: "kernel_inv s0" unfolding s0_def using assms(1) by (rule kernel_inv_upd_process) simp
  have c0: "s_current s0 = Some c" "s_idle s0 \<noteq> Some c" using assms by (simp_all add: s0_def)
  obtain s1 where s1: "thread_exit s0 = Some s1" "kernel_inv s1" using thread_exit_kernel_inv [OF inv0] c0 by auto
  have si0: "sched_inv s0" "roots_ok s0" using inv0 by (simp_all add: kernel_inv_def)
  have z: "s_zombies s1 = [c]" using thread_exit_effect [OF si0(1) c0 s1(1)] assms(4) by (simp add: s0_def)
  have same: "s_table s1 = s_table s0" "th_process (threads s1 c) = Some p"
    using thread_exit_root [OF s1(1) si0(2)] assms(5) by (simp_all add: same_procs_def s0_def)
  obtain s2 where s2: "sched_collect_zombies s1 = Some s2" using sched_collect_kernel_inv [OF s1(2)] by blast
  then have one: "collect_one c (s1\<lparr>s_zombies := []\<rparr>) = Some s2"
    by (simp add: sched_collect_zombies_def z split: option.splits)
  have "pr_thread_count (s_table s1 ! p) = 1" "pr_state (s_table s1 ! p) = AF_PROCESS_ZOMBIE"
      "pr_waiter (s_table s1 ! p) = None" "length (s_table s1) = AF_MAX_PROCESSES"
    using p assms(7,8) by (simp_all add: same(1) s0_def)
  then have free: "pr_state (s_table s2 ! p) = AF_PROCESS_FREE"
    using collect_one_last [OF one] same(2) p by simp
  have u: "unat (of_nat (p + 1) :: u32) = p + 1" using p by (simp only: unat_of_nat) simp
  then have nz: "(of_nat (p + 1) :: u32) \<noteq> 0" by auto
  have "(of_nat (p + 1) :: u32) \<noteq> 1"
  proof
    assume "(of_nat (p + 1) :: u32) = 1"
    then have "unat (of_nat (p + 1) :: u32) = 1" by simp
    with u assms(6) show False by simp
  qed
  moreover have "unat ((of_nat (p + 1) :: u32) - 1) = p"
    by (simp only: unat_minus_one_word [OF nz] u diff_add_inverse2)
  ultimately have "slot_for_pid s2 (of_nat (p + 1)) = Some None"
    using nz p free by (simp add: slot_for_pid_def Let_def del: of_nat_add of_nat_Suc)
  then have "process_wait (of_nat (p + 1)) s2 = Some (WaitReturned AF_ERR_NOENT None, s2)"
    by (simp add: process_wait_def)
  moreover have "process_exit code s = Some s1" using run s1(1) by simp
  ultimately show ?thesis using s2 free by blast
qed

theorem exit_before_wait_lost_witness:
  "\<exists>s1 s2. process_exit 7 demo = Some s1 \<and> sched_collect_zombies s1 = Some s2 \<and>
     process_wait 2 s2 = Some (WaitReturned AF_ERR_NOENT None, s2)"
proof -
  have "s_current demo = Some 0" "s_idle demo \<noteq> Some 0" "s_zombies demo = []" "th_process (threads demo 0) = Some 1"
    "pr_thread_count (s_table demo ! 1) = 1" "pr_waiter (s_table demo ! 1) = None"
    by (simp_all add: demo_def demo_thread_def demo_process_def zero_process_def)
  from exit_before_wait_lost [OF demo_inv this(1-4) _ this(5,6), of 7] show ?thesis by auto
qed

section \<open>Process identifiers\<close>

text \<open>One life of a process that never gets a thread: created, then reaped.\<close>

definition spawn_reap :: "u64 \<Rightarrow> 'a kstate_scheme \<Rightarrow> 'a kstate_scheme option" where
  "spawn_reap space s =
     (case process_create space True ''p'' 1 s of
        (None, s1) \<Rightarrow> Some s1
      | (Some p, s1) \<Rightarrow> process_reap (Some p) s1)"

fun spawns :: "nat \<Rightarrow> u64 \<Rightarrow> 'a kstate_scheme \<Rightarrow> 'a kstate_scheme option" where
  "spawns 0 space s = Some s"
| "spawns (Suc n) space s = (case spawns n space s of None \<Rightarrow> None | Some s1 \<Rightarrow> spawn_reap space s1)"

definition all_free :: "'a kstate_scheme \<Rightarrow> bool" where
  "all_free s \<longleftrightarrow> length (s_table s) = AF_MAX_PROCESSES \<and> (\<forall>p < AF_MAX_PROCESSES. pr_state (s_table s ! p) = AF_PROCESS_FREE)"

lemma free_process_slot_all_free:
  assumes "all_free s" "unat (s_next_pid s) = k + 2" "k \<le> 255"
  shows "free_process_slot s = (if k < 255 then Some (k + 1) else None)"
proof -
  have *: "(of_nat (i + 1) < s_next_pid s) \<longleftrightarrow> i < k + 1" if "i < AF_MAX_PROCESSES" for i
  proof -
    have "unat (of_nat (i + 1) :: u32) = i + 1" using that by (simp only: unat_of_nat) simp
    then show ?thesis using assms(2) by (simp add: word_less_nat_alt del: of_nat_add of_nat_Suc)
  qed
  have f: "free_process_slot s = find (\<lambda>i. \<not> i < k + 1) [0..<AF_MAX_PROCESSES]"
    unfolding free_process_slot_def by (rule find_cong) (use * assms(1) in \<open>auto simp: all_free_def simp del: of_nat_add of_nat_Suc\<close>)
  show ?thesis
  proof (cases "k < 255")
    case True
    then show ?thesis unfolding f by (auto simp: find_Some_iff intro!: exI [of _ "k + 1"])
  next
    case False
    with assms(3) have "\<not> (\<exists>x. x \<in> set [0..<AF_MAX_PROCESSES] \<and> \<not> x < k + 1)" by auto
    then show ?thesis unfolding f using False by (simp add: find_None_iff)
  qed
qed

lemma spawn_reap_step:
  assumes "all_free s" "unat (s_next_pid s) = k + 2" "k < 255" "space \<noteq> 0" "cr3 s \<noteq> space"
  shows "\<exists>s'. spawn_reap space s = Some s' \<and> all_free s' \<and> unat (s_next_pid s') = k + 3 \<and> cr3 s' = cr3 s"
proof -
  have slot: "free_process_slot s = Some (k + 1)" using free_process_slot_all_free [OF assms(1,2)] assms(3) by simp
  have len: "length (s_table s) = AF_MAX_PROCESSES" using assms(1) by (simp add: all_free_def)
  have u: "unat (of_nat (k + 2) :: u32) = k + 2" using assms(3) by (simp only: unat_of_nat) simp
  then have nx: "s_next_pid s = of_nat (k + 2)" using assms(2) by (simp only: word_unat_eq_iff)
  have np: "unat (of_nat (k + 2) + 1 :: u32) = k + 3" using u assms(3) by (subst unat_Suc_word) (simp_all del: of_nat_add of_nat_Suc)
  define s1 where "s1 = snd (process_create space True ''p'' 1 s)"
  have c: "process_create space True ''p'' 1 s = (Some (k + 1), s1)"
    using slot assms(4) by (simp add: process_create_def s1_def cap_table_create_def Let_def)
  have s1: "pr_state (s_table s1 ! (k + 1)) = AF_PROCESS_ALIVE" "pr_addr_space (s_table s1 ! (k + 1)) = space"
    "pr_thread_count (s_table s1 ! (k + 1)) = 0" "cr3 s1 = cr3 s" "length (s_table s1) = AF_MAX_PROCESSES"
    "s_next_pid s1 = of_nat (k + 2) + 1"
    "\<forall>q < AF_MAX_PROCESSES. q \<noteq> k + 1 \<longrightarrow> s_table s1 ! q = s_table s ! q"
    using slot assms(3,4) len nx
    by (simp_all add: s1_def process_create_def cap_table_create_def Let_def add.commute [of 2])
  obtain s2 where s2: "process_reap (Some (k + 1)) s1 = Some s2" "s_table s2 = (s_table s1)[k + 1 :=
      (s_table s1 ! (k + 1))\<lparr>pr_addr_space := 0, pr_caps := None, pr_name := strlcpy AF_PROCESS_NAME_LEN [],
        pr_state := AF_PROCESS_FREE, pr_pid := 0, pr_parent := 0\<rparr>]" "cr3 s2 = cr3 s1" "s_next_pid s2 = s_next_pid s1"
    using s1 assms(3-5) by (simp add: process_reap_def Let_def)
  have "all_free s2" using s1 s2 assms(1,3) by (auto simp: all_free_def nth_update_if)
  then show ?thesis using c s2 s1 np by (simp add: spawn_reap_def)
qed

lemma spawns_state:
  assumes "all_free s" "s_next_pid s = 2" "space \<noteq> 0" "cr3 s \<noteq> space" "n \<le> 255"
  shows "\<exists>s'. spawns n space s = Some s' \<and> all_free s' \<and> unat (s_next_pid s') = n + 2 \<and> cr3 s' = cr3 s"
  using assms(5)
proof (induction n)
  case (Suc n)
  then obtain s1 where s1: "spawns n space s = Some s1" "all_free s1" "unat (s_next_pid s1) = n + 2" "cr3 s1 = cr3 s" by auto
  with spawn_reap_step [of s1 n space] Suc.prems assms(3,4) show ?case by auto
qed (use assms in simp)

text \<open>
  Process identifiers are never reused, so the table runs out. From \<open>process_init\<close> on, 255
  processes can be created and reaped one after the other; after that \<open>process_create\<close> refuses
  for ever although all 256 entries are free.
\<close>

theorem process_table_exhausts:
  assumes "space \<noteq> 0" "cr3 s \<noteq> space"
  shows "\<exists>s'. spawns 255 space (process_init s) = Some s' \<and> all_free s' \<and>
    (\<forall>space' ok nm par. process_create space' ok nm par s' = (None, s'))"
proof -
  have "all_free (process_init s)" by (simp add: all_free_def process_init_def zero_process_def)
  moreover have "s_next_pid (process_init s) = 2" "cr3 (process_init s) = cr3 s" by (simp_all add: process_init_def)
  ultimately obtain s' where s': "spawns 255 space (process_init s) = Some s'" "all_free s'" "unat (s_next_pid s') = 257"
    using spawns_state [of "process_init s" space 255] assms by auto
  have "free_process_slot s' = None" using free_process_slot_all_free [OF s'(2), of 255] s'(3) by simp
  with s' show ?thesis by (simp add: process_create_def)
qed

theorem process_table_exhausts_witness:
  "\<exists>s'. spawns 255 0x2000 (process_init cold_state) = Some s' \<and> process_create 0x2000 True ''x'' 1 s' = (None, s')"
proof -
  have "cr3 cold_state \<noteq> 0x2000" by (simp add: cold_state_def)
  with process_table_exhausts [of "0x2000" cold_state] show ?thesis by auto
qed

section \<open>Membership\<close>

text \<open>
  The process table and the thread lists: a process's list holds exactly the threads that point to
  it, once, and the counter is its length; a free entry has no threads; every other entry's pid is
  its index plus one and was handed out; the live counter is right.
\<close>

definition procs_ok :: "'a kstate_scheme \<Rightarrow> bool" where
  "procs_ok s \<longleftrightarrow> length (s_table s) = AF_MAX_PROCESSES \<and>
     (\<forall>t p. th_process (threads s t) = Some p \<longrightarrow> p < AF_MAX_PROCESSES \<and> Some t \<in> set (s_threads s)) \<and>
     (\<forall>p < AF_MAX_PROCESSES. distinct (pr_threads (s_table s ! p)) \<and>
        unat (pr_thread_count (s_table s ! p)) = length (pr_threads (s_table s ! p)) \<and>
        (\<forall>t. t \<in> set (pr_threads (s_table s ! p)) \<longleftrightarrow> th_process (threads s t) = Some p)) \<and>
     (\<forall>p < AF_MAX_PROCESSES. if pr_state (s_table s ! p) = AF_PROCESS_FREE then pr_threads (s_table s ! p) = []
        else unat (pr_pid (s_table s ! p)) = Suc p \<and> Suc p < unat (s_next_pid s)) \<and>
     unat (s_live s) = length (filter (\<lambda>pr. pr_state pr \<noteq> AF_PROCESS_FREE) (s_table s))"

lemma procs_okD:
  assumes "procs_ok s" "p < AF_MAX_PROCESSES"
  shows "distinct (pr_threads (s_table s ! p))" "unat (pr_thread_count (s_table s ! p)) = length (pr_threads (s_table s ! p))"
    "\<And>t. t \<in> set (pr_threads (s_table s ! p)) \<longleftrightarrow> th_process (threads s t) = Some p"
    "pr_state (s_table s ! p) = AF_PROCESS_FREE \<Longrightarrow> pr_threads (s_table s ! p) = []"
    "pr_state (s_table s ! p) \<noteq> AF_PROCESS_FREE \<Longrightarrow> unat (pr_pid (s_table s ! p)) = Suc p \<and> Suc p < unat (s_next_pid s)"
  using assms unfolding procs_ok_def by (auto split: if_splits)

lemma procs_ok_live: "procs_ok s \<Longrightarrow> unat (s_live s) = length (filter (\<lambda>pr. pr_state pr \<noteq> AF_PROCESS_FREE) (s_table s))"
  by (simp add: procs_ok_def)

lemma procs_ok_table: "procs_ok s \<Longrightarrow> length (s_table s) = AF_MAX_PROCESSES"
  by (simp add: procs_ok_def)

lemma procs_ok_thread: "procs_ok s \<Longrightarrow> th_process (threads s t) = Some p \<Longrightarrow> p < AF_MAX_PROCESSES \<and> Some t \<in> set (s_threads s)"
  by (simp add: procs_ok_def)

lemma procs_ok_attach:
  assumes ok: "procs_ok s" and tab: "threads_ok s" and t: "th_process (threads s t) = None" "Some t \<in> set (s_threads s)"
    and p: "p < AF_MAX_PROCESSES" "pr_state (s_table s ! p) \<noteq> AF_PROCESS_FREE"
  shows "procs_ok (process_attach_thread (Some p) (Some t) s)"
proof -
  note len = procs_ok_table [OF ok]
  have notin: "t \<notin> set (pr_threads (s_table s ! q))" if "q < AF_MAX_PROCESSES" for q
    using procs_okD(3) [OF ok that] t by simp
  have "length (t # pr_threads (s_table s ! p)) \<le> AF_MAX_THREADS"
    using procs_okD [OF ok p(1)] notin [OF p(1)] t procs_ok_thread [OF ok]
    by (intro registered_length [OF tab]) auto
  then have count: "unat (pr_thread_count (s_table s ! p) + 1) = Suc (length (pr_threads (s_table s ! p)))"
    using procs_okD(2) [OF ok p(1)] by (subst unat_Suc_word) auto
  let ?pr = "(s_table s ! p)\<lparr>pr_threads := t # pr_threads (s_table s ! p), pr_thread_count := pr_thread_count (s_table s ! p) + 1\<rparr>"
  have new: "s_table (process_attach_thread (Some p) (Some t) s) = (s_table s)[p := ?pr]"
    "threads (process_attach_thread (Some p) (Some t) s) = (threads s)(t := (threads s t)\<lparr>th_process := Some p\<rparr>)"
    "s_threads (process_attach_thread (Some p) (Some t) s) = s_threads s"
    "s_next_pid (process_attach_thread (Some p) (Some t) s) = s_next_pid s"
    "s_live (process_attach_thread (Some p) (Some t) s) = s_live s"
    by (simp_all add: process_attach_thread_def)
  have live: "length (filter (\<lambda>pr. pr_state pr \<noteq> AF_PROCESS_FREE) ((s_table s)[p := ?pr])) =
      length (filter (\<lambda>pr. pr_state pr \<noteq> AF_PROCESS_FREE) (s_table s))"
    using p len by (intro filter_update_same) simp_all
  show ?thesis
    unfolding procs_ok_def new live
  proof (intro conjI allI impI)
    fix q assume q: "q < AF_MAX_PROCESSES"
    note old = procs_okD [OF ok q]
    show "distinct (pr_threads ((s_table s)[p := ?pr] ! q))"
      "unat (pr_thread_count ((s_table s)[p := ?pr] ! q)) = length (pr_threads ((s_table s)[p := ?pr] ! q))"
      using old notin [OF q] count q len by (auto simp: nth_update_if)
    show "(u \<in> set (pr_threads ((s_table s)[p := ?pr] ! q))) = (th_process (((threads s)(t := (threads s t)\<lparr>th_process := Some p\<rparr>)) u) = Some q)" for u
      using old(3) [of u] notin [OF q] q len by (auto simp: nth_update_if)
    show "if pr_state ((s_table s)[p := ?pr] ! q) = AF_PROCESS_FREE then pr_threads ((s_table s)[p := ?pr] ! q) = []
      else unat (pr_pid ((s_table s)[p := ?pr] ! q)) = Suc q \<and> Suc q < unat (s_next_pid s)"
      using old(4,5) p q len by (auto simp: nth_update_if simp del: of_nat_add of_nat_Suc)
  qed (use len procs_ok_live [OF ok] procs_ok_thread [OF ok] t p in \<open>auto split: if_splits\<close>)
qed

lemma procs_ok_detach:
  assumes ok: "procs_ok s"
  shows "procs_ok (process_detach_thread (Some t) s)"
proof (cases "th_process (threads s t)")
  case None
  then show ?thesis using ok by (simp add: process_detach_thread_def)
next
  case (Some p)
  note len = procs_ok_table [OF ok]
  have p: "p < AF_MAX_PROCESSES" using procs_ok_thread [OF ok Some] by simp
  note this_p = procs_okD [OF ok p]
  have mem: "t \<in> set (pr_threads (s_table s ! p))" using this_p(3) Some by simp
  let ?c = "if 0 < pr_thread_count (s_table s ! p) then pr_thread_count (s_table s ! p) - 1 else pr_thread_count (s_table s ! p)"
  have "pr_thread_count (s_table s ! p) \<noteq> 0" using this_p(2) mem by (auto simp: length_pos_if_in_set)
  then have count: "unat ?c = length (remove1 t (pr_threads (s_table s ! p)))"
    using this_p(2) mem by (simp add: word_gt_0 unat_minus_one_word length_remove1)
  let ?pr = "(s_table s ! p)\<lparr>pr_threads := remove1 t (pr_threads (s_table s ! p)), pr_thread_count := ?c\<rparr>"
  have new: "s_table (process_detach_thread (Some t) s) = (s_table s)[p := ?pr]"
    "threads (process_detach_thread (Some t) s) = (threads s)(t := (threads s t)\<lparr>th_process := None\<rparr>)"
    "s_threads (process_detach_thread (Some t) s) = s_threads s"
    "s_next_pid (process_detach_thread (Some t) s) = s_next_pid s"
    "s_live (process_detach_thread (Some t) s) = s_live s"
    using Some by (simp_all add: process_detach_thread_def)
  have live: "length (filter (\<lambda>pr. pr_state pr \<noteq> AF_PROCESS_FREE) ((s_table s)[p := ?pr])) =
      length (filter (\<lambda>pr. pr_state pr \<noteq> AF_PROCESS_FREE) (s_table s))"
    using p len by (intro filter_update_same) simp_all
  show ?thesis
    unfolding procs_ok_def new live
  proof (intro conjI allI impI)
    fix q assume q: "q < AF_MAX_PROCESSES"
    note old = procs_okD [OF ok q]
    show "distinct (pr_threads ((s_table s)[p := ?pr] ! q))"
      "unat (pr_thread_count ((s_table s)[p := ?pr] ! q)) = length (pr_threads ((s_table s)[p := ?pr] ! q))"
      using old count q len by (auto simp: nth_update_if distinct_remove1)
    show "(u \<in> set (pr_threads ((s_table s)[p := ?pr] ! q))) = (th_process (((threads s)(t := (threads s t)\<lparr>th_process := None\<rparr>)) u) = Some q)" for u
      using old(1) old(3) [of u] this_p(1) Some q len by (auto simp: nth_update_if)
    show "if pr_state ((s_table s)[p := ?pr] ! q) = AF_PROCESS_FREE then pr_threads ((s_table s)[p := ?pr] ! q) = []
      else unat (pr_pid ((s_table s)[p := ?pr] ! q)) = Suc q \<and> Suc q < unat (s_next_pid s)"
      using old(4,5) p q len by (auto simp: nth_update_if simp del: of_nat_add of_nat_Suc)
  qed (use len procs_ok_live [OF ok] procs_ok_thread [OF ok] in \<open>auto split: if_splits\<close>)
qed

lemma procs_ok_reap:
  assumes ok: "procs_ok s" and r: "process_reap (Some p) s = Some s'" and p: "p < AF_MAX_PROCESSES"
  shows "procs_ok s' \<and> (pr_thread_count (s_table s ! p) = 0 \<longrightarrow> pr_state (s_table s' ! p) = AF_PROCESS_FREE)"
proof (cases "pr_state (s_table s ! p) = AF_PROCESS_FREE")
  case True
  with ok r show ?thesis by (simp add: process_reap_def)
next
  case False
  note len = procs_ok_table [OF ok]
  define space where "space = pr_addr_space (s_table s ! p)"
  have ne: "cr3 s \<noteq> space" using r False by (auto simp: process_reap_def space_def split: if_splits)
  define pr0 where "pr0 = (s_table s ! p)\<lparr>pr_addr_space := 0, pr_caps := None\<rparr>"
  show ?thesis
  proof (cases "pr_thread_count (s_table s ! p) = 0")
    case busy: False
    have new: "s_table s' = (s_table s)[p := pr0]" "threads s' = threads s" "s_threads s' = s_threads s"
      "s_next_pid s' = s_next_pid s" "s_live s' = s_live s"
      using r False ne busy p len
      by (auto simp: process_reap_def Let_def pr0_def space_def split: if_splits) (cases "s_table s ! p"; simp)
    have live: "length (filter (\<lambda>pr. pr_state pr \<noteq> AF_PROCESS_FREE) ((s_table s)[p := pr0])) =
        length (filter (\<lambda>pr. pr_state pr \<noteq> AF_PROCESS_FREE) (s_table s))"
      using p len by (intro filter_update_same) (simp_all add: pr0_def)
    have "pr_threads ((s_table s)[p := pr0] ! q) = pr_threads (s_table s ! q)"
      "pr_thread_count ((s_table s)[p := pr0] ! q) = pr_thread_count (s_table s ! q)"
      "pr_state ((s_table s)[p := pr0] ! q) = pr_state (s_table s ! q)"
      "pr_pid ((s_table s)[p := pr0] ! q) = pr_pid (s_table s ! q)" if "q < AF_MAX_PROCESSES" for q
      using that len by (auto simp: nth_update_if pr0_def)
    with ok live busy show ?thesis unfolding procs_ok_def new by (simp del: of_nat_add of_nat_Suc)
  next
    case idle: True
    define pr1 where "pr1 = pr0\<lparr>pr_name := strlcpy AF_PROCESS_NAME_LEN [], pr_state := AF_PROCESS_FREE, pr_pid := 0, pr_parent := 0\<rparr>"
    have pos: "0 < length (filter (\<lambda>pr. pr_state pr \<noteq> AF_PROCESS_FREE) (s_table s))"
      using p len False by (intro filter_length_pos [of p]) simp_all
    then have lv: "s_live s \<noteq> 0" using procs_ok_live [OF ok] by auto
    have new: "s_table s' = (s_table s)[p := pr1]" "threads s' = threads s" "s_threads s' = s_threads s"
      "s_next_pid s' = s_next_pid s" "s_live s' = s_live s - 1"
      using r False ne idle p len lv
      by (auto simp: process_reap_def Let_def pr0_def pr1_def space_def word_gt_0 split: if_splits) (cases "s_table s ! p"; simp)
    have live: "Suc (length (filter (\<lambda>pr. pr_state pr \<noteq> AF_PROCESS_FREE) ((s_table s)[p := pr1]))) =
        length (filter (\<lambda>pr. pr_state pr \<noteq> AF_PROCESS_FREE) (s_table s))"
      using p len False by (intro filter_update_clear) (simp_all add: pr1_def)
    have nt: "pr_threads (s_table s ! p) = []" using procs_okD(2) [OF ok p] idle by simp
    show ?thesis
    proof (intro conjI impI)
      show "procs_ok s'" unfolding procs_ok_def new
      proof (intro conjI allI impI)
        fix q assume q: "q < AF_MAX_PROCESSES"
        note old = procs_okD [OF ok q]
        have e: "pr_threads ((s_table s)[p := pr1] ! q) = pr_threads (s_table s ! q)"
          "pr_thread_count ((s_table s)[p := pr1] ! q) = pr_thread_count (s_table s ! q)"
          using q len by (auto simp: nth_update_if pr1_def pr0_def)
        show "distinct (pr_threads ((s_table s)[p := pr1] ! q))"
          "unat (pr_thread_count ((s_table s)[p := pr1] ! q)) = length (pr_threads ((s_table s)[p := pr1] ! q))"
          "\<And>t. (t \<in> set (pr_threads ((s_table s)[p := pr1] ! q))) = (th_process (threads s t) = Some q)"
          using old by (simp_all add: e)
        show "if pr_state ((s_table s)[p := pr1] ! q) = AF_PROCESS_FREE then pr_threads ((s_table s)[p := pr1] ! q) = []
          else unat (pr_pid ((s_table s)[p := pr1] ! q)) = Suc q \<and> Suc q < unat (s_next_pid s)"
          using old(4,5) nt p q len by (auto simp: nth_update_if pr1_def pr0_def simp del: of_nat_add of_nat_Suc)
      qed (use len procs_ok_live [OF ok] procs_ok_thread [OF ok] live lv in \<open>auto simp: unat_minus_one_word\<close>)
      show "pr_state (s_table s' ! p) = AF_PROCESS_FREE" using p len by (simp add: new pr1_def)
    qed
  qed
qed

lemma procs_ok_create:
  assumes ok: "procs_ok s" and c: "process_create space caps name parent s = (r, s')" and bound: "unat (s_next_pid s) \<le> 257"
  shows "procs_ok s' \<and> unat (s_next_pid s') \<le> 257 \<and>
    (\<forall>p. r = Some p \<longrightarrow> p < AF_MAX_PROCESSES \<and> pr_pid (s_table s' ! p) = of_nat (p + 1) \<and>
       s_next_pid s \<le> of_nat (p + 1) \<and> s_next_pid s' = of_nat (p + 1) + 1)"
proof (cases "free_process_slot s")
  case None
  with ok c bound show ?thesis by (simp add: process_create_def)
next
  case (Some i)
  note len = procs_ok_table [OF ok]
  from Some have i: "i < AF_MAX_PROCESSES" "\<not> of_nat (i + 1) < s_next_pid s" "pr_state (s_table s ! i) = AF_PROCESS_FREE"
    by (auto simp: free_process_slot_def simp del: of_nat_add of_nat_Suc dest: find_SomeD)
  have same: "procs_ok (s\<lparr>s_table := (s_table s)[i := pr], destroyed_spaces := ds\<rparr>)"
    if "pr_threads pr = pr_threads (s_table s ! i)" "pr_thread_count pr = pr_thread_count (s_table s ! i)"
      "pr_state pr = AF_PROCESS_FREE" for pr ds
  proof -
    have "length (filter (\<lambda>pr. pr_state pr \<noteq> AF_PROCESS_FREE) ((s_table s)[i := pr])) =
        length (filter (\<lambda>pr. pr_state pr \<noteq> AF_PROCESS_FREE) (s_table s))"
      using i len that by (intro filter_update_same) simp_all
    moreover have "pr_threads ((s_table s)[i := pr] ! q) = pr_threads (s_table s ! q)"
      "pr_thread_count ((s_table s)[i := pr] ! q) = pr_thread_count (s_table s ! q)"
      "pr_state ((s_table s)[i := pr] ! q) = pr_state (s_table s ! q)"
      "pr_state (s_table s ! q) \<noteq> AF_PROCESS_FREE \<Longrightarrow> pr_pid ((s_table s)[i := pr] ! q) = pr_pid (s_table s ! q)"
      if "q < AF_MAX_PROCESSES" for q
      using that i len \<open>pr_threads pr = _\<close> \<open>pr_thread_count pr = _\<close> \<open>pr_state pr = _\<close> by (auto simp: nth_update_if)
    ultimately show ?thesis using ok unfolding procs_ok_def by (simp del: of_nat_add of_nat_Suc)
  qed
  show ?thesis
  proof (cases "space = 0 \<or> \<not> caps")
    case True
    define ds where "ds = (if space = 0 then destroyed_spaces s else destroyed_spaces s @ [space])"
    have "(r, s') = (None, s\<lparr>s_table := (s_table s)[i := (s_table s ! i)\<lparr>pr_pid := 0\<rparr>], destroyed_spaces := ds\<rparr>)"
      unfolding c [symmetric] using True i(1) len
      by (cases "space = 0") (simp_all add: process_create_def cap_table_create_def Let_def upd_process_def ds_def Some)
    then have "r = None" "s' = s\<lparr>s_table := (s_table s)[i := (s_table s ! i)\<lparr>pr_pid := 0\<rparr>], destroyed_spaces := ds\<rparr>" by simp_all
    moreover have "procs_ok (s\<lparr>s_table := (s_table s)[i := (s_table s ! i)\<lparr>pr_pid := 0\<rparr>], destroyed_spaces := ds\<rparr>)"
      using i(3) by (intro same) simp_all
    ultimately show ?thesis using bound by simp
  next
    case False
    define pr where "pr = (s_table s ! i)\<lparr>pr_pid := of_nat (i + 1), pr_state := AF_PROCESS_ALIVE, pr_parent := parent,
        pr_addr_space := space, pr_caps := cap_table_create True, pr_threads := [], pr_thread_count := 0,
        pr_exit_code := 0, pr_waiter := None, pr_created_tick := s_ticks s, pr_name := strlcpy AF_PROCESS_NAME_LEN name\<rparr>"
    have new: "r = Some i" "s_table s' = (s_table s)[i := pr]" "threads s' = threads s" "s_threads s' = s_threads s"
      "s_next_pid s' = of_nat (i + 1) + 1" "s_live s' = s_live s + 1"
      using c Some False i len
      by (auto simp: process_create_def cap_table_create_def Let_def pr_def not_less simp del: of_nat_add of_nat_Suc)
    have u: "unat (of_nat (i + 1) :: u32) = i + 1" using i(1) by (simp only: unat_of_nat) simp
    then have u1: "unat (of_nat (i + 1) + 1 :: u32) = i + 2" using i(1) by (subst unat_Suc_word) simp_all
    have live: "length (filter (\<lambda>pr. pr_state pr \<noteq> AF_PROCESS_FREE) ((s_table s)[i := pr])) =
        Suc (length (filter (\<lambda>pr. pr_state pr \<noteq> AF_PROCESS_FREE) (s_table s)))"
      using i len by (intro filter_update_set) (simp_all add: pr_def)
    have "length (filter (\<lambda>pr. pr_state pr \<noteq> AF_PROCESS_FREE) (s_table s)) \<le> AF_MAX_PROCESSES"
      using len by (metis length_filter_le)
    then have lv: "unat (s_live s + 1) = Suc (unat (s_live s))"
      using procs_ok_live [OF ok] by (intro unat_Suc_word) simp
    have empty: "pr_threads (s_table s ! i) = []" using procs_okD(4) [OF ok i(1,3)] .
    have "procs_ok s'" unfolding procs_ok_def new
    proof (intro conjI allI impI)
      fix q assume q: "q < AF_MAX_PROCESSES"
      note old = procs_okD [OF ok q]
      show "distinct (pr_threads ((s_table s)[i := pr] ! q))"
        "unat (pr_thread_count ((s_table s)[i := pr] ! q)) = length (pr_threads ((s_table s)[i := pr] ! q))"
        "\<And>t. (t \<in> set (pr_threads ((s_table s)[i := pr] ! q))) = (th_process (threads s t) = Some q)"
        using old empty q len by (auto simp: nth_update_if pr_def)
      have "Suc q < unat (of_nat (i + 1) + 1 :: u32)" if "Suc q < unat (s_next_pid s) \<or> q = i"
        using that i(2) u unfolding u1 by (auto simp: word_less_nat_alt simp del: of_nat_add of_nat_Suc)
      then show "if pr_state ((s_table s)[i := pr] ! q) = AF_PROCESS_FREE then pr_threads ((s_table s)[i := pr] ! q) = []
        else unat (pr_pid ((s_table s)[i := pr] ! q)) = Suc q \<and> Suc q < unat (of_nat (i + 1) + 1 :: u32)"
        using old(4,5) q len u by (auto simp: nth_update_if pr_def simp del: of_nat_add of_nat_Suc)
    qed (use len procs_ok_live [OF ok] procs_ok_thread [OF ok] live lv in auto)
    moreover have "pr_pid (s_table s' ! i) = of_nat (i + 1)" using i len by (simp add: new pr_def del: of_nat_add of_nat_Suc)
    ultimately show ?thesis using new i u1 by (auto simp: not_less simp del: of_nat_add of_nat_Suc)
  qed
qed

lemma procs_ok_cong:
  assumes "procs_ok s" "s_table s' = s_table s" "\<And>t. th_process (threads s' t) = th_process (threads s t)"
    "\<And>t p. th_process (threads s t) = Some p \<Longrightarrow> Some t \<in> set (s_threads s) \<Longrightarrow> Some t \<in> set (s_threads s')"
    "s_next_pid s' = s_next_pid s" "s_live s' = s_live s"
  shows "procs_ok s'"
  using assms unfolding procs_ok_def by (simp del: of_nat_add of_nat_Suc)

text \<open>
  The operations on membership: creating and reaping processes and threads, attaching a live thread
  that belongs to nobody to a process that exists, detaching, and freeing a thread that has left its
  process.
\<close>

inductive member_step :: "'a kstate_scheme \<Rightarrow> 'a kstate_scheme \<Rightarrow> bool" where
  member_create: "process_create space caps name parent s = (r, s') \<Longrightarrow> member_step s s'"
| member_attach: "th_process (threads s t) = None \<Longrightarrow> Some t \<in> set (s_threads s) \<Longrightarrow> p < AF_MAX_PROCESSES \<Longrightarrow>
    pr_state (s_table s ! p) \<noteq> AF_PROCESS_FREE \<Longrightarrow> member_step s (process_attach_thread (Some p) (Some t) s)"
| member_detach: "member_step s (process_detach_thread (Some t) s)"
| member_reap: "p < AF_MAX_PROCESSES \<Longrightarrow> process_reap (Some p) s = Some s' \<Longrightarrow> member_step s s'"
| member_new_thread: "(\<And>t. fresh = Some t \<Longrightarrow> unused_thread t s) \<Longrightarrow>
    thread_create fresh stack name entry arg n prio s = (r, s') \<Longrightarrow> member_step s s'"
| member_free_thread: "Some t \<in> set (s_threads s) \<Longrightarrow> th_process (threads s t) = None \<Longrightarrow> member_step s (thread_reap t s)"

definition member_inv :: "'a kstate_scheme \<Rightarrow> bool" where
  "member_inv s \<longleftrightarrow> threads_ok s \<and> procs_ok s \<and> unat (s_next_pid s) \<le> 257"

lemma threads_ok_create:
  assumes c: "thread_create fresh stack name entry arg n prio s = (r, s')" and ok: "threads_ok s"
    and u: "\<And>t. fresh = Some t \<Longrightarrow> unused_thread t s"
  shows "threads_ok s' \<and> (\<forall>t. Some t \<in> set (s_threads s) \<longrightarrow> Some t \<in> set (s_threads s') \<and> threads s' t = threads s t)"
  using c
proof (cases rule: thread_create_cases)
  case (undone t)
  have un: "Some t \<notin> set (s_threads s)" using unused_not_registered [OF ok u [OF undone(2)]] .
  then have ne: "v \<noteq> t" if "j < AF_MAX_THREADS" "s_threads s ! j = Some v" for j v
    using that ok nth_mem [of j "s_threads s"] by (auto simp: threads_ok_def)
  obtain fs where s': "s' = (upd_thread t (\<lambda>_. zero_thread) s)\<lparr>freed_stacks := fs, kfreed := t # kfreed s\<rparr>"
    using undone(3) by blast
  have "threads_ok s'" unfolding threads_ok_def
  proof (intro conjI allI impI)
    fix j v assume "j < AF_MAX_THREADS" "s_threads s' ! j = Some v"
    with ne [of j v] ok show "unat (th_tid (threads s' v)) = j + 1" "th_state (threads s' v) \<notin> {AF_THREAD_FREE, AF_THREAD_DEAD}"
      by (simp_all add: s' threads_ok_def)
  next
    fix v assume "th_state (threads s' v) \<notin> {AF_THREAD_FREE, AF_THREAD_DEAD}"
    then show "Some v \<in> set (s_threads s')" using live_registered [OF ok, of v]
      by (auto simp: s' zero_thread_def split: if_splits)
  next
    have "unat (s_thread_count s) = length (filter (\<lambda>e. e \<noteq> None) (s_threads s))" "length (s_threads s) = AF_MAX_THREADS"
      using ok by (simp_all only: threads_ok_def)
    then show "length (s_threads s') = AF_MAX_THREADS" "unat (s_thread_count s') = length (filter (\<lambda>e. e \<noteq> None) (s_threads s'))"
      by (simp_all add: s')
  qed
  then show ?thesis using un by (auto simp: s')
next
  case (created t i th)
  have un: "Some t \<notin> set (s_threads s)" using unused_not_registered [OF ok u [OF created(2)]] .
  have "threads_ok s'" unfolding created(8) using ok u [OF created(2)] created by (intro threads_ok_new) simp_all
  moreover have "Some v \<in> set (s_threads s')" if "Some v \<in> set (s_threads s)" for v
  proof -
    from that obtain j where j: "j < length (s_threads s)" "s_threads s ! j = Some v" by (auto simp: in_set_conv_nth)
    then have "j \<noteq> i" using created(4) by auto
    with j have "s_threads s' ! j = Some v" "j < length (s_threads s')" by (simp_all add: created(8))
    then show ?thesis by (metis nth_mem)
  qed
  ultimately show ?thesis using un by (auto simp: created(8))
qed (use ok in simp)

lemma member_step_inv: "member_step s s' \<Longrightarrow> member_inv s \<Longrightarrow> member_inv s'"
proof (induction rule: member_step.induct)
  case (member_create space caps name parent s r s')
  then show ?case using procs_ok_create [OF _ member_create.hyps] process_create_frame [OF member_create.hyps]
    by (auto simp: member_inv_def intro: threads_ok_cong)
next
  case (member_attach s t p)
  have "threads_ok (process_attach_thread (Some p) (Some t) s)"
    using member_attach.prems by (auto simp: member_inv_def process_attach_thread_def threads_ok_def)
  with member_attach procs_ok_attach [of s t p] show ?case
    by (simp add: member_inv_def) (simp add: process_attach_thread_def)
next
  case (member_detach s t)
  have "threads_ok (process_detach_thread (Some t) s)"
    using member_detach by (auto simp: member_inv_def process_detach_thread_def threads_ok_def split: option.split)
  moreover have "s_next_pid (process_detach_thread (Some t) s) = s_next_pid s"
    by (auto simp: process_detach_thread_def split: option.split)
  ultimately show ?case using member_detach procs_ok_detach [of s t] by (simp add: member_inv_def)
next
  case (member_reap p s s')
  have "s_next_pid s' = s_next_pid s"
    using member_reap.hyps by (auto simp: process_reap_def Let_def split: if_splits)
  with member_reap procs_ok_reap [of s p s'] process_reap_frame [of "Some p" s s'] show ?case
    by (auto simp: member_inv_def intro: threads_ok_cong)
next
  case (member_new_thread fresh s stack name entry arg n prio r s')
  have inv: "threads_ok s" "procs_ok s" using member_new_thread.prems by (simp_all add: member_inv_def)
  note t = threads_ok_create [OF member_new_thread.hyps(2) inv(1) member_new_thread.hyps(1)]
  note f = thread_create_frame [OF member_new_thread.hyps(2)]
  have "th_process (threads s' t) = th_process (threads s t)" for t
  proof (cases "th_process (threads s t)")
    case None
    then show ?thesis using f(7) [of t] by auto
  next
    case (Some p)
    then have "Some t \<in> set (s_threads s)" using procs_ok_thread [OF inv(2)] by blast
    with t show ?thesis by auto
  qed
  moreover have "s_next_pid s' = s_next_pid s" "s_live s' = s_live s"
    using member_new_thread.hyps(2) by (cases rule: thread_create_cases; auto)+
  ultimately have "procs_ok s'" using t f(1) by (intro procs_ok_cong [OF inv(2)]) auto
  then show ?case using t member_new_thread.prems \<open>s_next_pid s' = s_next_pid s\<close> by (simp add: member_inv_def)
next
  case (member_free_thread t s)
  have inv: "threads_ok s" "procs_ok s" using member_free_thread.prems by (simp_all add: member_inv_def)
  have reap: "s_next_pid (thread_reap t s) = s_next_pid s" "s_live (thread_reap t s) = s_live s"
    by (simp_all add: thread_reap_def unregister_thread_def Let_def)
  have keep: "Some u \<in> set (s_threads (thread_reap t s))" if "Some u \<in> set (s_threads s)" "u \<noteq> t" for u
  proof -
    have "threads_ok (thread_reap t s)" using threads_ok_reap [OF inv(1) member_free_thread.hyps(1)] .
    moreover have "th_state (threads s u) \<notin> {AF_THREAD_FREE, AF_THREAD_DEAD}"
      using that(1) inv(1) by (auto simp: threads_ok_def in_set_conv_nth)
    ultimately show ?thesis using that(2) by (intro live_registered) simp_all
  qed
  have "procs_ok (thread_reap t s)"
  proof (rule procs_ok_cong [OF inv(2)])
    fix u p assume "th_process (threads s u) = Some p" "Some u \<in> set (s_threads s)"
    moreover from this member_free_thread.hyps(2) have "u \<noteq> t" by (metis option.distinct(1))
    ultimately show "Some u \<in> set (s_threads (thread_reap t s))" using keep [of u] by blast
  qed (use reap in simp_all)
  with threads_ok_reap [OF inv(1) member_free_thread.hyps(1)] member_free_thread.prems reap show ?case
    by (simp add: member_inv_def)
qed

text \<open>
  Process membership stays consistent. From the empty tables on, any sequence of process and
  thread creations, attachments, detachments and reaps keeps, for every entry of the process table:
  its list names exactly the threads that point to it, each once; its counter is the length of the
  list; a free entry lists nobody; an entry in use has the pid its index says, below the next one.
\<close>

theorem membership_always:
  assumes "member_inv s0" "member_step\<^sup>*\<^sup>* s0 s" "p < AF_MAX_PROCESSES"
  shows "(\<forall>t. t \<in> set (pr_threads (s_table s ! p)) \<longleftrightarrow> th_process (threads s t) = Some p) \<and>
    distinct (pr_threads (s_table s ! p)) \<and>
    unat (pr_thread_count (s_table s ! p)) = length (pr_threads (s_table s ! p)) \<and>
    (pr_state (s_table s ! p) = AF_PROCESS_FREE \<longrightarrow> pr_threads (s_table s ! p) = []) \<and>
    (pr_state (s_table s ! p) \<noteq> AF_PROCESS_FREE \<longrightarrow>
       unat (pr_pid (s_table s ! p)) = p + 1 \<and> p + 1 < unat (s_next_pid s)) \<and>
    unat (s_live s) = length (filter (\<lambda>pr. pr_state pr \<noteq> AF_PROCESS_FREE) (s_table s))"
proof -
  have "member_inv s" using assms(2,1) by (induction rule: rtranclp_induct) (auto intro: member_step_inv)
  then have ok: "procs_ok s" by (simp add: member_inv_def)
  show ?thesis using procs_okD [OF ok assms(3)] procs_ok_live [OF ok] by auto
qed

lemma cold_member_inv: "member_inv (process_init cold_state)"
proof -
  have "threads_ok (process_init cold_state)"
    by (rule threads_ok_cong [OF cold_threads_ok, of cold_state]) (simp_all add: cold_def cold_state_def process_init_def)
  moreover have "procs_ok (process_init cold_state)"
    by (simp add: procs_ok_def process_init_def cold_state_def zero_thread_def zero_process_def)
  ultimately show ?thesis by (simp add: member_inv_def process_init_def)
qed

theorem membership_always_witness:
  "\<exists>r s. process_create 0x2000 True ''init'' 1 (process_init cold_state) = (r, s) \<and>
     unat (s_live s) = length (filter (\<lambda>pr. pr_state pr \<noteq> AF_PROCESS_FREE) (s_table s))"
proof -
  obtain r s where c: "process_create 0x2000 True ''init'' 1 (process_init cold_state) = (r, s)" by fastforce
  then have "member_step\<^sup>*\<^sup>* (process_init cold_state) s" by (blast intro: member_create)
  from membership_always [OF cold_member_inv this, of 1] c show ?thesis by auto
qed

text \<open>
  The overflow path of \<open>sched_reap\<close> leaves a dangling pointer. With 16 threads waiting to be
  collected, the exit of another frees the oldest one's object without detaching it from its
  process: afterwards the process's thread list and counter still include a freed object.
\<close>

theorem zombie_overflow_dangles:
  assumes "th_state (threads s t) = AF_THREAD_ZOMBIE" "t \<notin> set (s_zombies s)" "ready_ok {} s"
    and "length (s_zombies s) = 16" "z = hd (s_zombies s)" "z \<in> set (pr_threads (s_table s ! p))"
  shows "z \<in> set (kfreed (sched_reap (Some t) s)) \<and> th_state (threads (sched_reap (Some t) s) z) = AF_THREAD_DEAD \<and>
    z \<in> set (pr_threads (s_table (sched_reap (Some t) s) ! p)) \<and>
    pr_thread_count (s_table (sched_reap (Some t) s) ! p) = pr_thread_count (s_table s ! p)"
  using assms runq_remove_notin [OF assms(3), of t] by (simp add: sched_reap_def Let_def)

definition crowded :: kstate where
  "crowded = (upd_thread 0 (\<lambda>th. th\<lparr>th_state := AF_THREAD_ZOMBIE\<rparr>) (upd_thread 2 (\<lambda>th. th\<lparr>th_state := AF_THREAD_ZOMBIE\<rparr>) demo))
     \<lparr>s_zombies := 2 # [10..<25], runq := replicate 8 [], runq_len := replicate 8 0, 
      threads := \<lambda>t. if t = 0 \<or> t = 2 \<or> (10 \<le> t \<and> t < 25) then (threads demo t)\<lparr>th_state := AF_THREAD_ZOMBIE\<rparr>
         else (threads demo t)\<lparr>th_state := AF_THREAD_DEAD\<rparr>\<rparr>"

theorem zombie_overflow_dangles_witness:
  "2 \<in> set (kfreed (sched_reap (Some 0) crowded)) \<and> 2 \<in> set (pr_threads (s_table (sched_reap (Some 0) crowded) ! 2))"
proof -
  have "ready_ok {} crowded" by (auto simp: ready_ok_def crowded_def)
  moreover have "s_table crowded = s_table demo" by (simp add: crowded_def)
  then have "2 \<in> set (pr_threads (s_table crowded ! 2))" by (simp add: demo_def demo_process_def)
  moreover have "th_state (threads crowded 0) = AF_THREAD_ZOMBIE" "0 \<notin> set (s_zombies crowded)"
    "length (s_zombies crowded) = 16" "2 = hd (s_zombies crowded)" by (simp_all add: crowded_def)
  ultimately show ?thesis using zombie_overflow_dangles [of crowded 0 2 2] by blast
qed

end
