(* ===== verification/Ipc.thy ===== *)
theory Ipc
  imports Lifecycle
begin

text \<open>
  Inter-process communication (\<open>kernel/core/ipc.c\<close>): a table of 64 endpoints, each an 8-entry ring
  of messages with a list of blocked receivers and one of blocked senders. The state extends the
  scheduler's; an endpoint pointer is its index in \<open>s_endpoints\<close>.

  Send and receive are loops around \<open>sched_block\<close>. One round is \<open>send_round\<close> or \<open>recv_round\<close>: it
  returns a status or leaves the caller blocked, and \<open>send_resume\<close> / \<open>recv_resume\<close> is what the
  caller executes when it is given the CPU again.
\<close>

section \<open>Messages and endpoints\<close>

record af_msg =
  msg_label :: u64
  msg_cap_count :: u32
  msg_caps :: "u32 list"
  msg_words :: "u64 list"

record af_endpoint =
  ep_used :: bool
  ep_id :: u32
  ep_refs :: u32
  ep_name :: string
  ep_queue :: "af_msg list"
  ep_head :: u32
  ep_tail :: u32
  ep_count :: u32
  ep_waiters :: "tptr list"
  ep_senders :: "tptr list"

record ipc_state = kstate +
  s_endpoints :: "af_endpoint list"
  s_ep_live :: u32
  s_next_id :: u32
  s_sent :: u32

abbreviation (input) "AF_MAX_ENDPOINTS \<equiv> (64 :: nat)"
abbreviation (input) "AF_EP_QUEUE_LEN \<equiv> (8 :: u32)"
abbreviation (input) "AF_EP_INVALID \<equiv> (0 :: u32)"
abbreviation (input) "AF_EP_NAME_LEN \<equiv> (16 :: nat)"
abbreviation (input) "AF_MSG_WORD_REPLY_EP \<equiv> (0 :: nat)"

definition zero_msg :: af_msg where
  "zero_msg = \<lparr>msg_label = 0, msg_cap_count = 0, msg_caps = replicate 4 0, msg_words = replicate 4 0\<rparr>"

definition zero_endpoint :: af_endpoint where
  "zero_endpoint = \<lparr>ep_used = False, ep_id = 0, ep_refs = 0, ep_name = [], ep_queue = replicate 8 zero_msg,
     ep_head = 0, ep_tail = 0, ep_count = 0, ep_waiters = [], ep_senders = []\<rparr>"

definition upd_ep :: "nat \<Rightarrow> (af_endpoint \<Rightarrow> af_endpoint) \<Rightarrow> 'a ipc_state_scheme \<Rightarrow> 'a ipc_state_scheme" where
  "upd_ep i f s = s\<lparr>s_endpoints := (s_endpoints s)[i := f (s_endpoints s ! i)]\<rparr>"

section \<open>Wait lists\<close>

definition waiter_add :: "tptr \<Rightarrow> tptr list \<Rightarrow> tptr list" where
  "waiter_add t ws = ws @ [t]"

definition waiter_remove :: "tptr \<Rightarrow> tptr list \<Rightarrow> tptr list" where
  "waiter_remove t ws = remove1 t ws"

fun waiter_pop :: "tptr list \<Rightarrow> tptr option \<times> tptr list" where
  "waiter_pop [] = (None, [])"
| "waiter_pop (t # ts) = (Some t, ts)"

section \<open>Lookup and lifecycle\<close>

definition endpoint_from_id :: "'a ipc_state_scheme \<Rightarrow> u32 \<Rightarrow> nat option" where
  "endpoint_from_id s eid =
     (if eid = AF_EP_INVALID then None
      else find (\<lambda>i. ep_used (s_endpoints s ! i) \<and> ep_id (s_endpoints s ! i) = eid) [0..<AF_MAX_ENDPOINTS])"

definition ipc_endpoint_create :: "string option \<Rightarrow> 'a ipc_state_scheme \<Rightarrow> nat option \<times> 'a ipc_state_scheme" where
  "ipc_endpoint_create name s =
     (case find (\<lambda>i. \<not> ep_used (s_endpoints s ! i)) [0..<AF_MAX_ENDPOINTS] of
        None \<Rightarrow> (None, s)
      | Some i \<Rightarrow>
          let s1 = upd_ep i (\<lambda>_. zero_endpoint\<lparr>ep_used := True, ep_id := s_next_id s, ep_refs := 1,
                     ep_name := strlcpy AF_EP_NAME_LEN (case name of None \<Rightarrow> ''?'' | Some n \<Rightarrow> n)\<rparr>) s
          in (Some i, s1\<lparr>s_next_id := s_next_id s + 1, s_ep_live := s_ep_live s1 + 1\<rparr>))"

definition ipc_endpoint_ref :: "nat option \<Rightarrow> 'a ipc_state_scheme \<Rightarrow> 'a ipc_state_scheme" where
  "ipc_endpoint_ref ep s =
     (case ep of
        None \<Rightarrow> s
      | Some i \<Rightarrow> if ep_used (s_endpoints s ! i) then upd_ep i (\<lambda>e. e\<lparr>ep_refs := ep_refs e + 1\<rparr>) s else s)"

definition unblock_all :: "tptr list \<Rightarrow> 'a ipc_state_scheme \<Rightarrow> 'a ipc_state_scheme" where
  "unblock_all ts s = fold (\<lambda>t. sched_unblock (Some t)) ts s"

definition ipc_endpoint_unref :: "nat option \<Rightarrow> 'a ipc_state_scheme \<Rightarrow> 'a ipc_state_scheme" where
  "ipc_endpoint_unref ep s =
     (case ep of
        None \<Rightarrow> s
      | Some i \<Rightarrow>
          if \<not> ep_used (s_endpoints s ! i) \<or> ep_refs (s_endpoints s ! i) = 0 then s
          else
            let s1 = upd_ep i (\<lambda>e. e\<lparr>ep_refs := ep_refs e - 1\<rparr>) s in
            if 0 < ep_refs (s_endpoints s1 ! i) then s1
            else
              let s2 = unblock_all (ep_waiters (s_endpoints s1 ! i)) (upd_ep i (\<lambda>e. e\<lparr>ep_waiters := []\<rparr>) s1);
                  s3 = unblock_all (ep_senders (s_endpoints s2 ! i)) (upd_ep i (\<lambda>e. e\<lparr>ep_senders := []\<rparr>) s2);
                  s4 = upd_ep i (\<lambda>e. e\<lparr>ep_used := False, ep_id := AF_EP_INVALID\<rparr>) s3
              in s4\<lparr>s_ep_live := (if 0 < s_ep_live s4 then s_ep_live s4 - 1 else s_ep_live s4)\<rparr>)"

definition ipc_endpoint_lookup :: "'a ipc_state_scheme \<Rightarrow> u32 \<Rightarrow> nat option" where
  "ipc_endpoint_lookup s eid = endpoint_from_id s eid"

definition ipc_endpoint_id :: "'a ipc_state_scheme \<Rightarrow> nat option \<Rightarrow> u32" where
  "ipc_endpoint_id s ep = (case ep of None \<Rightarrow> AF_EP_INVALID | Some i \<Rightarrow> ep_id (s_endpoints s ! i))"

definition ipc_endpoint_name :: "'a ipc_state_scheme \<Rightarrow> nat option \<Rightarrow> string" where
  "ipc_endpoint_name s ep = (case ep of None \<Rightarrow> ''?'' | Some i \<Rightarrow> ep_name (s_endpoints s ! i))"

section \<open>The ring\<close>

text \<open>The writes of \<open>ipc_send\<close> and \<open>ipc_recv\<close> to \<open>queue\<close>, \<open>head\<close>, \<open>tail\<close> and \<open>count\<close>.\<close>

definition ring_put :: "af_msg \<Rightarrow> af_endpoint \<Rightarrow> af_endpoint" where
  "ring_put m e = e\<lparr>
     ep_queue := (ep_queue e)[unat (ep_tail e) := m],
     ep_tail := (ep_tail e + 1) mod AF_EP_QUEUE_LEN,
     ep_count := ep_count e + 1\<rparr>"

definition ring_take :: "af_endpoint \<Rightarrow> af_msg \<times> af_endpoint" where
  "ring_take e = (ep_queue e ! unat (ep_head e), e\<lparr>
     ep_head := (ep_head e + 1) mod AF_EP_QUEUE_LEN,
     ep_count := ep_count e - 1\<rparr>)"

section \<open>Send\<close>

datatype ipc_outcome = Done af_status "af_msg option" | Blocked

definition send_round :: "nat \<Rightarrow> af_msg \<Rightarrow> 'a ipc_state_scheme \<Rightarrow> (ipc_outcome \<times> 'a ipc_state_scheme) option" where
  "send_round i msg s =
     (let e = s_endpoints s ! i in
      if \<not> ep_used e then Some (Done AF_ERR_NOOBJ None, s)
      else case waiter_pop (ep_waiters e) of
        (Some receiver, ws) \<Rightarrow>
          let s1 = upd_ep i (\<lambda>e. ring_put msg (e\<lparr>ep_waiters := ws\<rparr>)) s
          in Some (Done AF_OK None, sched_unblock (Some receiver) (s1\<lparr>s_sent := s_sent s1 + 1\<rparr>))
      | (None, _) \<Rightarrow>
          if ep_count e < AF_EP_QUEUE_LEN
          then let s1 = upd_ep i (ring_put msg) s in Some (Done AF_OK None, s1\<lparr>s_sent := s_sent s1 + 1\<rparr>)
          else case thread_current s of
            None \<Rightarrow> Some (Done AF_ERR_AGAIN None, s)
          | Some self \<Rightarrow>
              if s_idle s = Some self then Some (Done AF_ERR_AGAIN None, s)
              else (case sched_block (WaitEndpoint i) (upd_ep i (\<lambda>e. e\<lparr>ep_senders := waiter_add self (ep_senders e)\<rparr>) s) of
                      None \<Rightarrow> None
                    | Some s1 \<Rightarrow> Some (Blocked, s1)))"

definition send_resume :: "tptr \<Rightarrow> nat \<Rightarrow> af_msg \<Rightarrow> 'a ipc_state_scheme \<Rightarrow> (ipc_outcome \<times> 'a ipc_state_scheme) option" where
  "send_resume self i msg s =
     (case sched_block_resume self s of
        None \<Rightarrow> None
      | Some s1 \<Rightarrow>
          if s_current s1 \<noteq> Some self then Some (Blocked, s1)
          else send_round i msg (upd_ep i (\<lambda>e. e\<lparr>ep_senders := waiter_remove self (ep_senders e)\<rparr>) s1))"

definition ipc_send :: "nat option \<Rightarrow> af_msg option \<Rightarrow> 'a ipc_state_scheme \<Rightarrow> (ipc_outcome \<times> 'a ipc_state_scheme) option" where
  "ipc_send ep msg s =
     (case (ep, msg) of
        (Some i, Some m) \<Rightarrow> send_round i m s
      | _ \<Rightarrow> Some (Done AF_ERR_INVAL None, s))"

section \<open>Receive\<close>

definition recv_round :: "nat \<Rightarrow> 'a ipc_state_scheme \<Rightarrow> (ipc_outcome \<times> 'a ipc_state_scheme) option" where
  "recv_round i s =
     (let e = s_endpoints s ! i in
      if \<not> ep_used e then Some (Done AF_ERR_NOOBJ None, s)
      else if 0 < ep_count e
      then let (m, e1) = ring_take e;
               (sender, ss) = waiter_pop (ep_senders e1)
           in Some (Done AF_OK (Some m), sched_unblock sender (upd_ep i (\<lambda>_. e1\<lparr>ep_senders := ss\<rparr>) s))
      else case thread_current s of
        None \<Rightarrow> Some (Done AF_ERR_AGAIN None, s)
      | Some self \<Rightarrow>
          if s_idle s = Some self then Some (Done AF_ERR_AGAIN None, s)
          else (case sched_block (WaitEndpoint i) (upd_ep i (\<lambda>e. e\<lparr>ep_waiters := waiter_add self (ep_waiters e)\<rparr>) s) of
                  None \<Rightarrow> None
                | Some s1 \<Rightarrow> Some (Blocked, s1)))"

definition recv_resume :: "tptr \<Rightarrow> nat \<Rightarrow> 'a ipc_state_scheme \<Rightarrow> (ipc_outcome \<times> 'a ipc_state_scheme) option" where
  "recv_resume self i s =
     (case sched_block_resume self s of
        None \<Rightarrow> None
      | Some s1 \<Rightarrow>
          if s_current s1 \<noteq> Some self then Some (Blocked, s1)
          else recv_round i (upd_ep i (\<lambda>e. e\<lparr>ep_waiters := waiter_remove self (ep_waiters e)\<rparr>) s1))"

definition ipc_recv :: "nat option \<Rightarrow> bool \<Rightarrow> 'a ipc_state_scheme \<Rightarrow> (ipc_outcome \<times> 'a ipc_state_scheme) option" where
  "ipc_recv ep out_given s =
     (case ep of
        None \<Rightarrow> Some (Done AF_ERR_INVAL None, s)
      | Some i \<Rightarrow> if out_given then recv_round i s else Some (Done AF_ERR_INVAL None, s))"

section \<open>Call and reply\<close>

text \<open>
  A call blocks at most twice: in its send, and in its receive on the private reply endpoint \<open>r\<close>.
  \<open>CallBlockedSend r\<close> and \<open>CallBlockedRecv r\<close> say where; the two \<open>resume\<close> functions go on from there.
\<close>

datatype call_outcome = CallDone af_status "af_msg option" | CallBlockedSend nat | CallBlockedRecv nat

definition call_after_recv :: "nat \<Rightarrow> (ipc_outcome \<times> 'a ipc_state_scheme) option \<Rightarrow> (call_outcome \<times> 'a ipc_state_scheme) option" where
  "call_after_recv r res =
     (case res of
        None \<Rightarrow> None
      | Some (Blocked, s) \<Rightarrow> Some (CallBlockedRecv r, s)
      | Some (Done got m, s) \<Rightarrow> Some (CallDone got m, ipc_endpoint_unref (Some r) s))"

definition call_after_send :: "nat \<Rightarrow> (ipc_outcome \<times> 'a ipc_state_scheme) option \<Rightarrow> (call_outcome \<times> 'a ipc_state_scheme) option" where
  "call_after_send r res =
     (case res of
        None \<Rightarrow> None
      | Some (Blocked, s) \<Rightarrow> Some (CallBlockedSend r, s)
      | Some (Done rc _, s) \<Rightarrow>
          if af_status_err rc then Some (CallDone rc None, ipc_endpoint_unref (Some r) s)
          else call_after_recv r (ipc_recv (Some r) True s))"

definition ipc_call :: "nat option \<Rightarrow> af_msg option \<Rightarrow> bool \<Rightarrow> 'a ipc_state_scheme \<Rightarrow> (call_outcome \<times> 'a ipc_state_scheme) option" where
  "ipc_call ep msg out_given s =
     (case (ep, msg) of
        (Some i, Some m) \<Rightarrow>
          if \<not> out_given then Some (CallDone AF_ERR_INVAL None, s)
          else (case ipc_endpoint_create (Some ''reply'') s of
                  (None, s1) \<Rightarrow> Some (CallDone AF_ERR_NOMEM None, s1)
                | (Some r, s1) \<Rightarrow>
                    let request = m\<lparr>msg_words := (msg_words m)[AF_MSG_WORD_REPLY_EP := ucast (ipc_endpoint_id s1 (Some r))]\<rparr>
                    in call_after_send r (ipc_send (Some i) (Some request) s1))
      | _ \<Rightarrow> Some (CallDone AF_ERR_INVAL None, s))"

definition call_resume_send ::
  "tptr \<Rightarrow> nat \<Rightarrow> af_msg \<Rightarrow> nat \<Rightarrow> 'a ipc_state_scheme \<Rightarrow> (call_outcome \<times> 'a ipc_state_scheme) option" where
  "call_resume_send self i request r s = call_after_send r (send_resume self i request s)"

definition call_resume_recv :: "tptr \<Rightarrow> nat \<Rightarrow> 'a ipc_state_scheme \<Rightarrow> (call_outcome \<times> 'a ipc_state_scheme) option" where
  "call_resume_recv self r s = call_after_recv r (recv_resume self r s)"

definition ipc_reply :: "nat option \<Rightarrow> af_msg option \<Rightarrow> 'a ipc_state_scheme \<Rightarrow> (ipc_outcome \<times> 'a ipc_state_scheme) option" where
  "ipc_reply reply_ep msg s = ipc_send reply_ep msg s"

section \<open>Capability-checked forms\<close>

definition endpoint_from_cap ::
  "af_cap_table option \<Rightarrow> u32 \<Rightarrow> u32 \<Rightarrow> 'a ipc_state_scheme \<Rightarrow> af_status \<times> nat option" where
  "endpoint_from_cap table cap required s =
     (case cap_lookup table cap required of
        (rc, None) \<Rightarrow> (rc, None)
      | (rc, Some object) \<Rightarrow>
          if af_status_err rc then (rc, None)
          else if obj_type object \<noteq> AF_OBJECT_ENDPOINT then (AF_ERR_INVAL, None)
          else (case endpoint_from_id s (ucast (obj_id object)) of
                  None \<Rightarrow> (AF_ERR_NOOBJ, None)
                | Some i \<Rightarrow> (AF_OK, Some i)))"

definition ipc_send_cap ::
  "af_cap_table option \<Rightarrow> u32 \<Rightarrow> af_msg option \<Rightarrow> 'a ipc_state_scheme \<Rightarrow> (ipc_outcome \<times> 'a ipc_state_scheme) option" where
  "ipc_send_cap table cap msg s =
     (case endpoint_from_cap table cap AF_RIGHT_SIGNAL s of
        (rc, ep) \<Rightarrow> if af_status_err rc then Some (Done rc None, s) else ipc_send ep msg s)"

definition ipc_recv_cap ::
  "af_cap_table option \<Rightarrow> u32 \<Rightarrow> bool \<Rightarrow> 'a ipc_state_scheme \<Rightarrow> (ipc_outcome \<times> 'a ipc_state_scheme) option" where
  "ipc_recv_cap table cap out_given s =
     (case endpoint_from_cap table cap AF_RIGHT_WAIT s of
        (rc, ep) \<Rightarrow> if af_status_err rc then Some (Done rc None, s) else ipc_recv ep out_given s)"

definition ipc_call_cap ::
  "af_cap_table option \<Rightarrow> u32 \<Rightarrow> af_msg option \<Rightarrow> bool \<Rightarrow> 'a ipc_state_scheme \<Rightarrow> (call_outcome \<times> 'a ipc_state_scheme) option" where
  "ipc_call_cap table cap msg out_given s =
     (case endpoint_from_cap table cap AF_RIGHT_SIGNAL s of
        (rc, ep) \<Rightarrow> if af_status_err rc then Some (CallDone rc None, s) else ipc_call ep msg out_given s)"

section \<open>A bounded queue\<close>

text \<open>
  What the users of a message queue rely on: an operation that appends, one that takes the oldest,
  the sequence they work on, a capacity, and an invariant of the representation.
\<close>

locale bounded_fifo =
  fixes put :: "'m \<Rightarrow> 'q \<Rightarrow> 'q" and take1 :: "'q \<Rightarrow> 'm \<times> 'q" and contents :: "'q \<Rightarrow> 'm list"
    and ok :: "'q \<Rightarrow> bool" and cap :: nat
  assumes put_contents: "ok q \<Longrightarrow> length (contents q) < cap \<Longrightarrow> contents (put m q) = contents q @ [m]"
    and put_ok: "ok q \<Longrightarrow> length (contents q) < cap \<Longrightarrow> ok (put m q)"
    and take_contents: "ok q \<Longrightarrow> contents q = m # ms \<Longrightarrow> fst (take1 q) = m \<and> contents (snd (take1 q)) = ms"
    and take_ok: "ok q \<Longrightarrow> contents q \<noteq> [] \<Longrightarrow> ok (snd (take1 q))"
begin

lemma puts: "ok q \<Longrightarrow> length (contents q) + length ms \<le> cap \<Longrightarrow>
   ok (fold put ms q) \<and> contents (fold put ms q) = contents q @ ms"
proof (induction ms arbitrary: q)
  case (Cons m ms)
  then have "length (contents q) < cap" by simp
  with Cons.prems have "ok (put m q)" "contents (put m q) = contents q @ [m]" by (simp_all add: put_ok put_contents)
  with Cons.IH [of "put m q"] Cons.prems show ?case by simp
qed simp

primrec takes :: "nat \<Rightarrow> 'q \<Rightarrow> 'm list \<times> 'q" where
  "takes 0 q = ([], q)"
| "takes (Suc n) q = (let (m, q1) = take1 q; (ms, q2) = takes n q1 in (m # ms, q2))"

lemma takes: "ok q \<Longrightarrow> contents q = ms @ rest \<Longrightarrow> fst (takes (length ms) q) = ms \<and>
   contents (snd (takes (length ms) q)) = rest \<and> ok (snd (takes (length ms) q))"
proof (induction ms arbitrary: q)
  case (Cons m ms)
  from Cons.prems have t: "fst (take1 q) = m" "contents (snd (take1 q)) = ms @ rest" "ok (snd (take1 q))"
    using take_contents [of q m "ms @ rest"] take_ok [of q] by auto
  with Cons.IH [of "snd (take1 q)"] show ?case by (simp add: Let_def split_beta)
qed simp

text \<open>First in, first out: what is put into an empty queue comes out in the same order.\<close>

lemma fifo: "ok q \<Longrightarrow> contents q = [] \<Longrightarrow> length ms \<le> cap \<Longrightarrow> fst (takes (length ms) (fold put ms q)) = ms"
  using puts [of q ms] takes [of "fold put ms q" ms "[]"] by simp

end

section \<open>The ring is one\<close>

definition ring_ok :: "af_endpoint \<Rightarrow> bool" where
  "ring_ok e \<longleftrightarrow> length (ep_queue e) = 8 \<and> unat (ep_head e) < 8 \<and> unat (ep_count e) \<le> 8 \<and>
     unat (ep_tail e) = (unat (ep_head e) + unat (ep_count e)) mod 8"

definition ring_contents :: "af_endpoint \<Rightarrow> af_msg list" where
  "ring_contents e = map (\<lambda>k. ep_queue e ! ((unat (ep_head e) + k) mod 8)) [0..<unat (ep_count e)]"

lemma ring_length [simp]: "length (ring_contents e) = unat (ep_count e)"
  by (simp add: ring_contents_def)

lemma ring_contents_Nil [simp]: "ring_contents e = [] \<longleftrightarrow> ep_count e = 0"
  by (simp add: ring_contents_def unat_eq_0)

lemma mod8_wrap: "a < 16 \<Longrightarrow> a mod 8 = (if a < 8 then a else a - (8::nat))"
  by (simp add: mod_if)

lemma ring_index:
  assumes "h < 8" "k < 8" "c < (8::nat)"
  shows "(h + k) mod 8 = (h + c) mod 8 \<longleftrightarrow> k = c"
proof -
  have "h + k < 16" "h + c < 16" using assms by simp_all
  then show ?thesis using assms by (simp only: mod8_wrap) (auto split: if_splits)
qed

lemma mod8_Suc: "unat x < 8 \<Longrightarrow> unat ((x + 1) mod 8 :: u32) = (unat x + 1) mod 8"
  by (simp add: unat_mod_distrib unat_Suc_word)

lemma ring_put_ok:
  assumes ok: "ring_ok e" and c: "unat (ep_count e) < 8"
  shows "ring_ok (ring_put m e) \<and> ring_contents (ring_put m e) = ring_contents e @ [m]"
proof -
  define h where "h = unat (ep_head e)"
  define n where "n = unat (ep_count e)"
  have b: "length (ep_queue e) = 8" "h < 8" "n < 8" "unat (ep_tail e) = (h + n) mod 8"
    using ok c by (simp_all add: ring_ok_def h_def n_def)
  have n1: "unat (ep_count e + 1) = Suc n" using b by (simp add: n_def unat_Suc_word)
  have t1: "unat ((ep_tail e + 1) mod 8) = (h + Suc n) mod 8"
    using b by (subst mod8_Suc) (simp_all add: mod_Suc_eq)
  have "ring_contents (ring_put m e) = map (\<lambda>k. (ep_queue e)[(h + n) mod 8 := m] ! ((h + k) mod 8)) [0..<Suc n]"
    using b n1 by (simp add: ring_contents_def ring_put_def h_def)
  also have "\<dots> = map (\<lambda>k. ep_queue e ! ((h + k) mod 8)) [0..<n] @ [m]"
  proof -
    have "(ep_queue e)[(h + n) mod 8 := m] ! ((h + k) mod 8) = ep_queue e ! ((h + k) mod 8)" if "k < n" for k
      using ring_index [of h k n] b that by (intro nth_list_update_neq) auto
    moreover have "(ep_queue e)[(h + n) mod 8 := m] ! ((h + n) mod 8) = m" using b by simp
    ultimately show ?thesis by simp
  qed
  finally have "ring_contents (ring_put m e) = ring_contents e @ [m]"
    by (simp add: ring_contents_def h_def n_def)
  moreover have "ring_ok (ring_put m e)"
    using b n1 t1 by (simp add: ring_ok_def ring_put_def h_def)
  ultimately show ?thesis by simp
qed

lemma ring_take_ok:
  assumes ok: "ring_ok e" and c: "ep_count e \<noteq> 0"
  shows "ring_ok (snd (ring_take e)) \<and> ring_contents e = fst (ring_take e) # ring_contents (snd (ring_take e))"
proof -
  define h where "h = unat (ep_head e)"
  define n where "n = unat (ep_count e)"
  have b: "length (ep_queue e) = 8" "h < 8" "n \<le> 8" "unat (ep_tail e) = (h + n) mod 8" "0 < n"
    using ok c by (simp_all add: ring_ok_def h_def n_def unat_gt_0)
  have n1: "unat (ep_count e - 1) = n - 1" using c by (simp add: n_def unat_minus_one_word)
  have h1: "unat ((ep_head e + 1) mod 8) = (h + 1) mod 8" using b by (simp add: h_def mod8_Suc)
  have "[0..<n] = 0 # map Suc [0..<n - 1]" using b(5) by (simp add: upt_conv_Cons map_Suc_upt)
  then have "ring_contents e = ep_queue e ! (h mod 8) # map (\<lambda>k. ep_queue e ! ((h + Suc k) mod 8)) [0..<n - 1]"
    by (simp add: ring_contents_def h_def n_def)
  also have "map (\<lambda>k. ep_queue e ! ((h + Suc k) mod 8)) [0..<n - 1] =
      map (\<lambda>k. ep_queue e ! (((h + 1) mod 8 + k) mod 8)) [0..<n - 1]"
    by (simp add: mod_simps)
  finally have c: "ring_contents e = fst (ring_take e) # ring_contents (snd (ring_take e))"
    using b h1 n1 by (simp add: ring_take_def ring_contents_def h_def)
  have "(h + n) mod 8 = ((h + 1) mod 8 + (n - 1)) mod 8"
    using b(5) by (cases n) (simp_all add: mod_simps)
  moreover have "n - 1 \<le> 8" "(h + 1) mod 8 < 8" using b(3) by simp_all
  ultimately have "ring_ok (snd (ring_take e))"
    unfolding ring_ok_def ring_take_def snd_conv af_endpoint.select_convs af_endpoint.update_convs
    using b(1,4) n1 h1 by simp
  with c show ?thesis by simp
qed

interpretation ring: bounded_fifo ring_put ring_take ring_contents ring_ok 8
proof
  fix q m assume "ring_ok q" "length (ring_contents q) < 8"
  then show "ring_contents (ring_put m q) = ring_contents q @ [m]" "ring_ok (ring_put m q)"
    using ring_put_ok [of q m] by simp_all
next
  fix q m ms assume "ring_ok q" "ring_contents q = m # ms"
  moreover from this have "ep_count q \<noteq> 0" by (metis list.distinct(1) ring_contents_Nil)
  ultimately show "fst (ring_take q) = m \<and> ring_contents (snd (ring_take q)) = ms" using ring_take_ok [of q] by simp
next
  fix q assume "ring_ok q" "ring_contents q \<noteq> []"
  then show "ring_ok (snd (ring_take q))" using ring_take_ok [of q] by simp
qed

section \<open>What scheduling leaves alone\<close>

lemma upd_ep_simps [simp]:
  "s_endpoints (upd_ep i f s) = (s_endpoints s)[i := f (s_endpoints s ! i)]"
  "threads (upd_ep i f s) = threads s" "th_cur (upd_ep i f s) = th_cur s" "s_current (upd_ep i f s) = s_current s"
  "s_idle (upd_ep i f s) = s_idle s" "s_ep_live (upd_ep i f s) = s_ep_live s" "s_next_id (upd_ep i f s) = s_next_id s"
  "s_sent (upd_ep i f s) = s_sent s" "s_threads (upd_ep i f s) = s_threads s"
  "s_thread_count (upd_ep i f s) = s_thread_count s" "s_zombies (upd_ep i f s) = s_zombies s"
  "runq (upd_ep i f s) = runq s" "runq_len (upd_ep i f s) = runq_len s"
  by (simp_all add: upd_ep_def)

lemma sched_unblock_eps [simp]:
  "s_endpoints (sched_unblock t s) = s_endpoints s" "s_ep_live (sched_unblock t s) = s_ep_live s"
  "s_next_id (sched_unblock t s) = s_next_id s" "s_sent (sched_unblock t s) = s_sent s"
  by (auto simp: sched_unblock_def runq_push_def upd_thread_def Let_def split: option.split)

lemma pick_next_eps:
  assumes "pick_next s = (n, s')"
  shows "s_endpoints s' = s_endpoints s \<and> s_ep_live s' = s_ep_live s \<and> s_next_id s' = s_next_id s \<and> s_sent s' = s_sent s"
  using assms
proof (cases rule: pick_next_cases)
  case (queued t p)
  then show ?thesis by (auto simp: runq_pop_def dec_len_def split: list.splits if_splits)
qed simp_all

lemma sched_block_eps:
  assumes "sched_block obj s = Some s'"
  shows "s_endpoints s' = s_endpoints s \<and> s_ep_live s' = s_ep_live s \<and> s_next_id s' = s_next_id s \<and> s_sent s' = s_sent s"
proof (cases "s_current s = None \<or> s_current s = s_idle s")
  case False
  define s1 where "s1 = upd_thread (the (s_current s))
      (\<lambda>th. th\<lparr>th_state := AF_THREAD_BLOCKED, th_wait_obj := Some obj\<rparr>) s"
  obtain n s2 where p: "pick_next s1 = (n, s2)" by fastforce
  have "give_away (the (s_current s)) s1 = Some s'" using assms False by (simp add: sched_block_def s1_def Let_def)
  then obtain m where "s' = make_current m s2" by (auto simp: give_away_def p split: option.splits if_splits)
  then show ?thesis using pick_next_eps [OF p] by (simp add: make_current_def Let_def s1_def upd_thread_def)
qed (use assms in \<open>auto simp: sched_block_def\<close>)

lemma sched_gen_eps [simp]: "sched_gen H Z R (upd_ep i f s) \<longleftrightarrow> sched_gen H Z R s"
  by (auto elim!: sched_gen_cong)

lemma sched_inv_eps [simp]: "sched_inv (upd_ep i f s) \<longleftrightarrow> sched_inv s"
  by (simp add: sched_inv_gen)

text \<open>The thread that blocks stays blocked until somebody wakes it, and others keep their state.\<close>

lemma sched_block_states:
  assumes inv: "sched_inv s" and cur: "s_current s = Some c" "s_idle s \<noteq> Some c" and b: "sched_block obj s = Some s'"
  shows "sched_inv s' \<and> th_state (threads s' c) = AF_THREAD_BLOCKED \<and> th_wait_obj (threads s' c) = Some obj \<and>
    (\<forall>t. th_state (threads s t) = AF_THREAD_BLOCKED \<longrightarrow> th_state (threads s' t) = AF_THREAD_BLOCKED)"
proof -
  define f :: "af_thread \<Rightarrow> af_thread" where "f = (\<lambda>th. th\<lparr>th_state := AF_THREAD_BLOCKED, th_wait_obj := Some obj\<rparr>)"
  define s1 where "s1 = upd_thread c f s"
  have g: "sched_gen {} {} {c} s" using inv cur by (simp add: sched_inv_gen)
  have g1: "sched_gen {} {} {} s1" using gen_leave [OF g, of c f] cur by (auto simp: s1_def f_def)
  obtain n s2 where pick: "pick_next s1 = (n, s2)" by fastforce
  have ga: "give_away c s1 = Some s'" using b cur by (simp add: sched_block_def s1_def f_def)
  have "\<exists>s''. give_away c s1 = Some s'' \<and> sched_inv s''"
    using give_away_ok [OF g cur, of f] by (auto simp: s1_def f_def)
  with ga have inv': "sched_inv s'" by simp
  have "s_current s1 = Some c" using cur by (simp add: s1_def)
  from g1 this pick have "\<exists>t. s' = make_current t s2 \<and> t \<noteq> c \<and> th_state (threads s t) \<noteq> AF_THREAD_BLOCKED"
  proof (rule gen_pick)
    show "{} = {c} \<or> {} = {} \<and> s_idle s1 \<noteq> Some c \<and> th_state (threads s1 c) \<noteq> AF_THREAD_RUNNABLE"
      using cur by (simp add: s1_def f_def)
  next
    fix t H assume t: "n = Some t" "t \<noteq> c" "sched_gen H {} {} s2" "can_run H t s2"
    have "s_current s2 = Some c" using pick_next_frame(5) [OF pick] cur by (simp add: s1_def)
    with t ga pick have "s' = make_current t s2" by (simp add: give_away_def)
    moreover have "th_state (threads s2 t) \<noteq> AF_THREAD_BLOCKED"
      using t by (auto simp: can_run_def sched_gen_def ready_ok_def)
    then have "th_state (threads s t) \<noteq> AF_THREAD_BLOCKED" using pick_next_frame(1) [OF pick] t by (simp add: s1_def)
    ultimately show ?thesis using t by blast
  qed simp
  then show ?thesis using inv' pick_next_frame(1) [OF pick] by (auto simp: s1_def f_def)
qed

section \<open>Sending and receiving\<close>

fun send_all :: "nat \<Rightarrow> af_msg list \<Rightarrow> 'a ipc_state_scheme \<Rightarrow> 'a ipc_state_scheme option" where
  "send_all i [] s = Some s"
| "send_all i (m # ms) s =
     (case send_round i m s of
        Some (Done AF_OK None, s1) \<Rightarrow> send_all i ms s1
      | _ \<Rightarrow> None)"

fun recv_all :: "nat \<Rightarrow> nat \<Rightarrow> 'a ipc_state_scheme \<Rightarrow> (af_msg list \<times> 'a ipc_state_scheme) option" where
  "recv_all i 0 s = Some ([], s)"
| "recv_all i (Suc n) s =
     (case recv_round i s of
        Some (Done AF_OK (Some m), s1) \<Rightarrow>
          (case recv_all i n s1 of None \<Rightarrow> None | Some (ms, s2) \<Rightarrow> Some (m # ms, s2))
      | _ \<Rightarrow> None)"

lemma send_queues:
  assumes "i < length (s_endpoints s)" "ep_used (s_endpoints s ! i)" "ring_ok (s_endpoints s ! i)"
    "ep_waiters (s_endpoints s ! i) = []" "unat (ep_count (s_endpoints s ! i)) < 8"
  shows "\<exists>s'. send_round i m s = Some (Done AF_OK None, s') \<and>
    s_endpoints s' = (s_endpoints s)[i := ring_put m (s_endpoints s ! i)]"
  using assms by (simp add: send_round_def Let_def word_less_nat_alt)

lemma ring_put_fields [simp]: "ep_used (ring_put m e) = ep_used e" "ep_waiters (ring_put m e) = ep_waiters e"
  "ep_senders (ring_put m e) = ep_senders e"
  by (simp_all add: ring_put_def)

lemma ring_take_fields [simp]: "ep_used (snd (ring_take e)) = ep_used e" "ep_waiters (snd (ring_take e)) = ep_waiters e"
  "ep_senders (snd (ring_take e)) = ep_senders e"
  by (simp_all add: ring_take_def)

lemma ring_ok_lists [simp]: "ring_ok (e\<lparr>ep_waiters := ws\<rparr>) = ring_ok e" "ring_ok (e\<lparr>ep_senders := ss\<rparr>) = ring_ok e"
  "ring_contents (e\<lparr>ep_waiters := ws\<rparr>) = ring_contents e" "ring_contents (e\<lparr>ep_senders := ss\<rparr>) = ring_contents e"
  by (simp_all add: ring_ok_def ring_contents_def)

lemma send_all_ring:
  assumes "i < length (s_endpoints s)" "ep_used (s_endpoints s ! i)" "ring_ok (s_endpoints s ! i)"
    "ep_waiters (s_endpoints s ! i) = []" "unat (ep_count (s_endpoints s ! i)) + length ms \<le> 8"
  shows "\<exists>s'. send_all i ms s = Some s' \<and> s_endpoints s' = (s_endpoints s)[i := fold ring_put ms (s_endpoints s ! i)]"
  using assms
proof (induction ms arbitrary: s)
  case (Cons m ms)
  then have c: "unat (ep_count (s_endpoints s ! i)) < 8" by simp
  with send_queues [of i s m] Cons.prems obtain s1 where s1: "send_round i m s = Some (Done AF_OK None, s1)"
      "s_endpoints s1 = (s_endpoints s)[i := ring_put m (s_endpoints s ! i)]" by blast
  have r: "ring_ok (ring_put m (s_endpoints s ! i))" "length (ring_contents (ring_put m (s_endpoints s ! i))) =
      Suc (unat (ep_count (s_endpoints s ! i)))"
    using ring_put_ok [OF Cons.prems(3) c, of m] by simp_all
  with Cons.IH [of s1] Cons.prems s1 show ?case by auto
qed simp

lemma recv_takes:
  assumes "i < length (s_endpoints s)" "ep_used (s_endpoints s ! i)" "ring_ok (s_endpoints s ! i)"
    "ep_count (s_endpoints s ! i) \<noteq> 0"
  shows "\<exists>s' ss. recv_round i s = Some (Done AF_OK (Some (fst (ring_take (s_endpoints s ! i)))), s') \<and>
    s_endpoints s' = (s_endpoints s)[i := (snd (ring_take (s_endpoints s ! i)))\<lparr>ep_senders := ss\<rparr>]"
proof -
  obtain m e1 where t: "ring_take (s_endpoints s ! i) = (m, e1)" by fastforce
  obtain w ss where p: "waiter_pop (ep_senders e1) = (w, ss)" by fastforce
  have "0 < ep_count (s_endpoints s ! i)" using assms(4) by (simp add: word_gt_0)
  with assms t p show ?thesis by (auto simp: recv_round_def Let_def)
qed

lemma recv_all_ring:
  assumes "i < length (s_endpoints s)" "ep_used (s_endpoints s ! i)" "ring_ok (s_endpoints s ! i)"
    "ring_contents (s_endpoints s ! i) = ms @ rest"
  shows "\<exists>s'. recv_all i (length ms) s = Some (ms, s') \<and> ring_contents (s_endpoints s' ! i) = rest"
  using assms
proof (induction ms arbitrary: s)
  case (Cons m ms)
  then have c: "ep_count (s_endpoints s ! i) \<noteq> 0" by (metis append_Cons list.distinct(1) ring_contents_Nil)
  from recv_takes [OF Cons.prems(1-3) c] obtain s1 ss where
    s1: "recv_round i s = Some (Done AF_OK (Some (fst (ring_take (s_endpoints s ! i)))), s1)"
      "s_endpoints s1 = (s_endpoints s)[i := (snd (ring_take (s_endpoints s ! i)))\<lparr>ep_senders := ss\<rparr>]" by blast
  have r: "ring_ok (snd (ring_take (s_endpoints s ! i)))" "fst (ring_take (s_endpoints s ! i)) = m"
    "ring_contents (snd (ring_take (s_endpoints s ! i))) = ms @ rest"
    using ring_take_ok [OF Cons.prems(3) c] Cons.prems(4) by simp_all
  with Cons.IH [of s1] Cons.prems s1 obtain s' where "recv_all i (length ms) s1 = Some (ms, s')"
    "ring_contents (s_endpoints s' ! i) = rest" by auto
  with s1 r show ?case by simp
qed simp

text \<open>
  (C5) Messages arrive in the order they were sent, none lost and none made up. On a live endpoint
  nobody is waiting at, with room for them, sending \<open>ms\<close> never blocks, and receiving afterwards
  returns first what was queued already and then \<open>ms\<close>, in order.
\<close>

theorem ipc_fifo:
  assumes "i < length (s_endpoints s)" "ep_used (s_endpoints s ! i)" "ring_ok (s_endpoints s ! i)"
    "ep_waiters (s_endpoints s ! i) = []" "unat (ep_count (s_endpoints s ! i)) + length ms \<le> 8"
  shows "\<exists>s1 s2. send_all i ms s = Some s1 \<and>
    recv_all i (unat (ep_count (s_endpoints s ! i)) + length ms) s1 = Some (ring_contents (s_endpoints s ! i) @ ms, s2) \<and>
    ep_count (s_endpoints s2 ! i) = 0"
proof -
  obtain s1 where s1: "send_all i ms s = Some s1" "s_endpoints s1 = (s_endpoints s)[i := fold ring_put ms (s_endpoints s ! i)]"
    using send_all_ring [OF assms] by blast
  have used: "ep_used (fold ring_put ms e) = ep_used e" for e by (induction ms arbitrary: e) simp_all
  from ring.puts [OF assms(3), of ms] assms(5) have
    r: "ring_ok (fold ring_put ms (s_endpoints s ! i))"
      "ring_contents (fold ring_put ms (s_endpoints s ! i)) = ring_contents (s_endpoints s ! i) @ ms" by simp_all
  have "\<exists>s2. recv_all i (length (ring_contents (s_endpoints s ! i) @ ms)) s1 = Some (ring_contents (s_endpoints s ! i) @ ms, s2) \<and>
      ring_contents (s_endpoints s2 ! i) = []"
    using s1 assms(1,2) r used by (intro recv_all_ring) simp_all
  then show ?thesis using s1 by auto
qed

section \<open>The endpoint table's invariant\<close>

text \<open>
  A ring holds at most eight messages as long as the messages queued and the receivers waiting are
  together at most eight: a send to a waiting receiver does not look at the count.
\<close>

definition ep_ok :: "af_endpoint \<Rightarrow> bool" where
  "ep_ok e \<longleftrightarrow> ring_ok e \<and> unat (ep_count e) + length (ep_waiters e) \<le> 8"

definition ipc_inv :: "'a ipc_state_scheme \<Rightarrow> bool" where
  "ipc_inv s \<longleftrightarrow> length (s_endpoints s) = AF_MAX_ENDPOINTS \<and>
     (\<forall>i < AF_MAX_ENDPOINTS. ep_ok (s_endpoints s ! i)) \<and>
     (\<forall>i < AF_MAX_ENDPOINTS. ep_used (s_endpoints s ! i) \<longrightarrow>
        0 < ep_id (s_endpoints s ! i) \<and> ep_id (s_endpoints s ! i) < s_next_id s) \<and>
     (\<forall>i < AF_MAX_ENDPOINTS. \<forall>j < AF_MAX_ENDPOINTS. ep_used (s_endpoints s ! i) \<longrightarrow> ep_used (s_endpoints s ! j) \<longrightarrow>
        ep_id (s_endpoints s ! i) = ep_id (s_endpoints s ! j) \<longrightarrow> i = j) \<and>
     unat (s_ep_live s) = length (filter ep_used (s_endpoints s)) \<and> 0 < s_next_id s"

lemma ipc_invD:
  assumes "ipc_inv s" "i < AF_MAX_ENDPOINTS"
  shows "ep_ok (s_endpoints s ! i)"
    "ep_used (s_endpoints s ! i) \<Longrightarrow> 0 < ep_id (s_endpoints s ! i) \<and> ep_id (s_endpoints s ! i) < s_next_id s"
  using assms by (simp_all add: ipc_inv_def)

text \<open>A write to one endpoint that keeps its identity and its ring.\<close>

lemma ipc_inv_update:
  assumes inv: "ipc_inv s" and i: "i < AF_MAX_ENDPOINTS"
    and f: "ep_ok e" "ep_used e = ep_used (s_endpoints s ! i)" "ep_id e = ep_id (s_endpoints s ! i)"
    and s': "s_endpoints s' = (s_endpoints s)[i := e]" "s_next_id s' = s_next_id s" "s_ep_live s' = s_ep_live s"
  shows "ipc_inv s'"
proof -
  have len: "length (s_endpoints s) = AF_MAX_ENDPOINTS" using inv by (simp add: ipc_inv_def)
  have same: "ep_used ((s_endpoints s)[i := e] ! j) = ep_used (s_endpoints s ! j)"
    "ep_id ((s_endpoints s)[i := e] ! j) = ep_id (s_endpoints s ! j)" if "j < AF_MAX_ENDPOINTS" for j
    using that f len by (auto simp: nth_update_if)
  have "length (filter ep_used ((s_endpoints s)[i := e])) = length (filter ep_used (s_endpoints s))"
    using i len f by (intro filter_update_same) simp_all
  moreover have "\<forall>j < AF_MAX_ENDPOINTS. ep_ok ((s_endpoints s)[i := e] ! j)"
    using inv f(1) len by (auto simp: ipc_inv_def nth_update_if)
  ultimately show ?thesis using inv len unfolding ipc_inv_def s' by (simp add: same)
qed

lemma ipc_inv_cong:
  "ipc_inv s \<Longrightarrow> s_endpoints s' = s_endpoints s \<Longrightarrow> s_next_id s' = s_next_id s \<Longrightarrow> s_ep_live s' = s_ep_live s \<Longrightarrow> ipc_inv s'"
  by (simp add: ipc_inv_def)

lemma waiter_pop_cases: "waiter_pop ws = (None, []) \<and> ws = [] \<or> (\<exists>t ts. waiter_pop ws = (Some t, ts) \<and> ws = t # ts)"
  by (cases ws) auto

lemma ipc_inv_send:
  assumes inv: "ipc_inv s" and i: "i < AF_MAX_ENDPOINTS" and r: "send_round i m s = Some (out, s')"
  shows "ipc_inv s'"
proof -
  define e where "e = s_endpoints s ! i"
  have ok: "ring_ok e" "unat (ep_count e) + length (ep_waiters e) \<le> 8" using ipc_invD(1) [OF inv i] by (simp_all add: e_def ep_ok_def)
  show ?thesis
  proof (cases "ep_used e")
    case False
    with r inv show ?thesis by (simp add: send_round_def e_def Let_def)
  next
    case used: True
    show ?thesis
    proof (cases "ep_waiters e")
      case (Cons t ts)
      have c: "unat (ep_count e) < 8" using ok Cons by simp
      have r1: "ring_ok (ring_put m (e\<lparr>ep_waiters := ts\<rparr>))" "ep_count (ring_put m (e\<lparr>ep_waiters := ts\<rparr>)) = ep_count e + 1"
        using ring_put_ok [of "e\<lparr>ep_waiters := ts\<rparr>" m] ok c by (simp_all add: ring_put_def)
      have "ep_ok (ring_put m (e\<lparr>ep_waiters := ts\<rparr>))"
        using r1 ok Cons c by (simp add: ep_ok_def unat_Suc_word)
      then show ?thesis using r used Cons inv i
        by (intro ipc_inv_update [OF inv i, where e = "ring_put m (e\<lparr>ep_waiters := ts\<rparr>)"])
          (auto simp: send_round_def e_def [symmetric] Let_def ring_put_def)
    next
      case Nil
      show ?thesis
      proof (cases "ep_count e < 8")
        case True
        then have c: "unat (ep_count e) < 8" by (simp add: word_less_nat_alt)
        have "ep_ok (ring_put m e)" using ring_put_ok [OF ok(1) c, of m] Nil c
          by (simp add: ep_ok_def) (simp add: ring_put_def unat_Suc_word)
        then show ?thesis using r used Nil True
          by (intro ipc_inv_update [OF inv i, where e = "ring_put m e"])
            (auto simp: send_round_def e_def [symmetric] Let_def ring_put_def)
      next
        case full: False
        show ?thesis
        proof (cases "thread_current s = None \<or> thread_current s = s_idle s")
          case True
          with r used Nil full inv show ?thesis
            by (auto simp: send_round_def e_def [symmetric] Let_def split: option.splits)
        next
          case False
          then obtain self where self: "thread_current s = Some self" "s_idle s \<noteq> Some self" by auto
          define s1 where "s1 = upd_ep i (\<lambda>e. e\<lparr>ep_senders := waiter_add self (ep_senders e)\<rparr>) s"
          have "sched_block (WaitEndpoint i) s1 = Some s'"
            using r used Nil full self by (auto simp: send_round_def e_def [symmetric] Let_def s1_def split: option.splits)
          note eps = sched_block_eps [OF this]
          have "ep_ok (e\<lparr>ep_senders := waiter_add self (ep_senders e)\<rparr>)" using ok by (simp add: ep_ok_def)
          then show ?thesis using eps
            by (intro ipc_inv_update [OF inv i, where e = "e\<lparr>ep_senders := waiter_add self (ep_senders e)\<rparr>"])
              (simp_all add: s1_def e_def)
        qed
      qed
    qed
  qed
qed

lemma ipc_inv_recv:
  assumes inv: "ipc_inv s" and i: "i < AF_MAX_ENDPOINTS" and r: "recv_round i s = Some (out, s')"
    and few: "out = Blocked \<Longrightarrow> length (ep_waiters (s_endpoints s ! i)) < 8"
  shows "ipc_inv s'"
proof -
  define e where "e = s_endpoints s ! i"
  have ok: "ring_ok e" "unat (ep_count e) + length (ep_waiters e) \<le> 8" using ipc_invD(1) [OF inv i] by (simp_all add: e_def ep_ok_def)
  show ?thesis
  proof (cases "ep_used e")
    case False
    with r inv show ?thesis by (simp add: recv_round_def e_def Let_def)
  next
    case used: True
    show ?thesis
    proof (cases "ep_count e = 0")
      case False
      obtain m e1 where t: "ring_take e = (m, e1)" by fastforce
      obtain w ss where p: "waiter_pop (ep_senders e1) = (w, ss)" by fastforce
      have "0 < ep_count e" using False by (simp add: word_gt_0)
      then have s': "s_endpoints s' = (s_endpoints s)[i := e1\<lparr>ep_senders := ss\<rparr>]" "s_next_id s' = s_next_id s" "s_ep_live s' = s_ep_live s"
        using r used t p by (auto simp: recv_round_def e_def [symmetric] Let_def)
      have e1: "e1 = snd (ring_take e)" "unat (ep_count e1) = unat (ep_count e) - 1" "ep_waiters e1 = ep_waiters e"
        "ep_used e1 = ep_used e" "ep_id e1 = ep_id e"
        using t False by (auto simp: ring_take_def unat_minus_one_word)
      have "ep_ok (e1\<lparr>ep_senders := ss\<rparr>)" using ring_take_ok [OF ok(1) False] ok e1 by (simp add: ep_ok_def)
      then show ?thesis using e1 s' by (intro ipc_inv_update [OF inv i]) (simp_all add: e_def)
    next
      case empty: True
      show ?thesis
      proof (cases "thread_current s = None \<or> thread_current s = s_idle s")
        case True
        with r used empty inv show ?thesis
          by (auto simp: recv_round_def e_def [symmetric] Let_def split: option.splits)
      next
        case False
        then obtain self where self: "thread_current s = Some self" "s_idle s \<noteq> Some self" by auto
        define s1 where "s1 = upd_ep i (\<lambda>e. e\<lparr>ep_waiters := waiter_add self (ep_waiters e)\<rparr>) s"
        have b: "sched_block (WaitEndpoint i) s1 = Some s'" "out = Blocked"
          using r used empty self by (auto simp: recv_round_def e_def [symmetric] Let_def s1_def split: option.splits)
        note eps = sched_block_eps [OF b(1)]
        have "ep_ok (e\<lparr>ep_waiters := waiter_add self (ep_waiters e)\<rparr>)"
          using ok empty few [OF b(2)] by (simp add: ep_ok_def waiter_add_def e_def)
        then show ?thesis using eps
          by (intro ipc_inv_update [OF inv i, where e = "e\<lparr>ep_waiters := waiter_add self (ep_waiters e)\<rparr>"])
            (simp_all add: s1_def e_def)
      qed
    qed
  qed
qed

lemma ipc_create_cases:
  assumes "ipc_endpoint_create name s = (r, s')"
  obtains (full) "r = None" "s' = s"
  | (slot) i e where "r = Some i" "i < AF_MAX_ENDPOINTS" "\<not> ep_used (s_endpoints s ! i)" "ep_used e" "ep_id e = s_next_id s"
      "ring_ok e" "ep_count e = 0" "ep_waiters e = []" "ep_senders e = []" "ep_refs e = 1"
      "s_endpoints s' = (s_endpoints s)[i := e]" "s_next_id s' = s_next_id s + 1" "s_ep_live s' = s_ep_live s + 1"
      "threads s' = threads s" "s_current s' = s_current s" "s_idle s' = s_idle s" "th_cur s' = th_cur s"
      "find (\<lambda>i. \<not> ep_used (s_endpoints s ! i)) [0..<AF_MAX_ENDPOINTS] = Some i"
      "sched_inv s \<longrightarrow> sched_inv s'"
proof (cases "find (\<lambda>i. \<not> ep_used (s_endpoints s ! i)) [0..<AF_MAX_ENDPOINTS]")
  case None
  with assms show thesis by (intro full) (auto simp: ipc_endpoint_create_def)
next
  case (Some i)
  then have i: "i < AF_MAX_ENDPOINTS" "\<not> ep_used (s_endpoints s ! i)" by (auto dest: find_SomeD)
  define e where "e = zero_endpoint\<lparr>ep_used := True, ep_id := s_next_id s, ep_refs := 1,
      ep_name := strlcpy AF_EP_NAME_LEN (case name of None \<Rightarrow> ''?'' | Some n \<Rightarrow> n)\<rparr>"
  have s': "r = Some i" "s' = (upd_ep i (\<lambda>_. e) s)\<lparr>s_next_id := s_next_id s + 1, s_ep_live := s_ep_live s + 1\<rparr>"
    using assms Some by (auto simp: ipc_endpoint_create_def Let_def e_def)
  have "sched_inv s \<longrightarrow> sched_inv s'"
    unfolding s'(2) sched_inv_gen by (auto elim!: sched_gen_cong)
  moreover have "ring_ok e" "ep_count e = 0" by (simp_all add: e_def ring_ok_def zero_endpoint_def)
  ultimately show thesis using i s' Some
    by (intro slot [of i e]) (simp_all add: e_def zero_endpoint_def)
qed

lemma ipc_inv_create:
  assumes inv: "ipc_inv s" and c: "ipc_endpoint_create name s = (r, s')" and wrap: "s_next_id s + 1 \<noteq> 0"
  shows "ipc_inv s'"
  using c
proof (cases rule: ipc_create_cases)
  case full
  with inv show ?thesis by simp
next
  case (slot i e)
  have len: "length (s_endpoints s) = AF_MAX_ENDPOINTS" using inv by (simp add: ipc_inv_def)
  have "unat (s_next_id s + 1) = Suc (unat (s_next_id s))" using wrap unatSuc [of "s_next_id s"] by (simp add: add.commute)
  then have n: "x < s_next_id s \<Longrightarrow> x < s_next_id s + 1" "s_next_id s < s_next_id s + 1" "0 < s_next_id s + 1" for x
    by (simp_all add: word_less_nat_alt)
  have nz: "0 < s_next_id s" using inv by (simp add: ipc_inv_def)
  have ids: "ep_used (s_endpoints s ! j) \<Longrightarrow> ep_id (s_endpoints s ! j) \<noteq> s_next_id s" if "j < AF_MAX_ENDPOINTS" for j
    using ipc_invD(2) [OF inv that] by auto
  have cnt: "length (filter ep_used ((s_endpoints s)[i := e])) = Suc (length (filter ep_used (s_endpoints s)))"
    using slot len by (intro filter_update_set) simp_all
  have "length (filter ep_used (s_endpoints s)) \<le> AF_MAX_ENDPOINTS" using len by (metis length_filter_le)
  then have live: "unat (s_ep_live s + 1) = Suc (unat (s_ep_live s))"
    using inv by (intro unat_Suc_word) (simp add: ipc_inv_def)
  show ?thesis
    unfolding ipc_inv_def slot(11-13) cnt live
  proof (intro conjI allI impI)
    fix j assume j: "j < AF_MAX_ENDPOINTS"
    show "ep_ok ((s_endpoints s)[i := e] ! j)"
      using ipc_invD(1) [OF inv j] slot j len by (auto simp: nth_update_if ep_ok_def)
    assume u: "ep_used ((s_endpoints s)[i := e] ! j)"
    show "0 < ep_id ((s_endpoints s)[i := e] ! j)" "ep_id ((s_endpoints s)[i := e] ! j) < s_next_id s + 1"
      using ipc_invD(2) [OF inv j] n nz slot u j len by (auto simp: nth_update_if split: if_splits)
    fix k assume k: "k < AF_MAX_ENDPOINTS" "ep_used ((s_endpoints s)[i := e] ! k)"
      "ep_id ((s_endpoints s)[i := e] ! j) = ep_id ((s_endpoints s)[i := e] ! k)"
    have uniq: "ep_used (s_endpoints s ! j) \<Longrightarrow> ep_used (s_endpoints s ! k) \<Longrightarrow>
        ep_id (s_endpoints s ! j) = ep_id (s_endpoints s ! k) \<Longrightarrow> j = k"
      using inv j k(1) unfolding ipc_inv_def by blast
    have at: "(s_endpoints s)[i := e] ! i = e" "\<And>l. l \<noteq> i \<Longrightarrow> (s_endpoints s)[i := e] ! l = s_endpoints s ! l"
      using slot(2) len by simp_all
    show "j = k"
    proof (cases "j = i"; cases "k = i")
      assume "j = i" "k \<noteq> i"
      with at u k(2,3) ids [OF k(1)] slot(5) show ?thesis by simp
    next
      assume "j \<noteq> i" "k = i"
      with at u k(2,3) ids [OF j] slot(5) show ?thesis by simp
    next
      assume "j \<noteq> i" "k \<noteq> i"
      with at u k(2,3) uniq show ?thesis by simp
    qed simp
  qed (use inv len n in \<open>simp_all add: ipc_inv_def\<close>)
qed

lemma unblock_all_eps [simp]:
  "s_endpoints (unblock_all ts s) = s_endpoints s" "s_ep_live (unblock_all ts s) = s_ep_live s"
  "s_next_id (unblock_all ts s) = s_next_id s" "s_sent (unblock_all ts s) = s_sent s"
  unfolding unblock_all_def by (induction ts arbitrary: s) simp_all

lemma sched_unblock_state:
  "th_state (threads (sched_unblock (Some t) s) u) =
     (if u = t \<and> th_state (threads s t) = AF_THREAD_BLOCKED then AF_THREAD_RUNNABLE else th_state (threads s u))"
  by (simp add: sched_unblock_def)

lemma unblock_all_Cons: "unblock_all (t # ts) s = unblock_all ts (sched_unblock (Some t) s)"
  by (simp add: unblock_all_def)

lemma unblock_all_state:
  "th_state (threads (unblock_all ts s) t) =
     (if t \<in> set ts \<and> th_state (threads s t) = AF_THREAD_BLOCKED then AF_THREAD_RUNNABLE else th_state (threads s t))"
proof (induction ts arbitrary: s)
  case (Cons u ts)
  show ?case unfolding unblock_all_Cons Cons.IH sched_unblock_state by auto
qed (simp add: unblock_all_def)

lemma unblock_all_inv: "sched_inv s \<Longrightarrow> sched_inv (unblock_all ts s)"
  unfolding unblock_all_def
proof (induction ts arbitrary: s)
  case (Cons t ts)
  have "sched_inv (sched_unblock (Some t) s)" using Cons.prems sched_unblock_gen by (simp add: sched_inv_gen)
  with Cons.IH show ?case by simp
qed simp

text \<open>The last reference: everybody is woken and the endpoint is gone.\<close>

lemma unref_last:
  assumes i: "i < length (s_endpoints s)" and used: "ep_used (s_endpoints s ! i)" "ep_refs (s_endpoints s ! i) = 1"
  shows "s_endpoints (ipc_endpoint_unref (Some i) s) = (s_endpoints s)[i := (s_endpoints s ! i)\<lparr>ep_refs := 0,
       ep_waiters := [], ep_senders := [], ep_used := False, ep_id := 0\<rparr>]"
    "threads (ipc_endpoint_unref (Some i) s) =
       threads (unblock_all (ep_waiters (s_endpoints s ! i) @ ep_senders (s_endpoints s ! i)) s)"
    "s_next_id (ipc_endpoint_unref (Some i) s) = s_next_id s"
    "s_ep_live (ipc_endpoint_unref (Some i) s) = (if 0 < s_ep_live s then s_ep_live s - 1 else s_ep_live s)"
    "sched_inv s \<Longrightarrow> sched_inv (ipc_endpoint_unref (Some i) s)"
proof -
  define e where "e = s_endpoints s ! i"
  have th: "threads (unblock_all ts s1) = threads (unblock_all ts s2)" if "threads s1 = threads s2" for ts and s1 s2 :: "'a ipc_state_scheme"
    using that unfolding unblock_all_def
  proof (induction ts arbitrary: s1 s2)
    case (Cons t ts)
    have "threads (sched_unblock (Some t) s1) = threads (sched_unblock (Some t) s2)"
      using Cons.prems by (simp add: sched_unblock_def)
    from Cons.IH [OF this] show ?case by simp
  qed simp
  define s1 where "s1 = upd_ep i (\<lambda>e. e\<lparr>ep_refs := ep_refs e - 1\<rparr>) s"
  define s2 where "s2 = unblock_all (ep_waiters e) (upd_ep i (\<lambda>e. e\<lparr>ep_waiters := []\<rparr>) s1)"
  define s3 where "s3 = unblock_all (ep_senders e) (upd_ep i (\<lambda>e. e\<lparr>ep_senders := []\<rparr>) s2)"
  define s4 where "s4 = upd_ep i (\<lambda>e. e\<lparr>ep_used := False, ep_id := AF_EP_INVALID\<rparr>) s3"
  have e1: "s_endpoints s1 ! i = e\<lparr>ep_refs := 0\<rparr>" using i used by (simp add: s1_def e_def)
  have e2: "s_endpoints s2 ! i = e\<lparr>ep_refs := 0, ep_waiters := []\<rparr>" using i e1 by (simp add: s2_def s1_def)
  have lv: "s_ep_live s4 = s_ep_live s2" by (simp add: s4_def s3_def)
  have run: "ipc_endpoint_unref (Some i) s = s4\<lparr>s_ep_live := (if 0 < s_ep_live s4 then s_ep_live s4 - 1 else s_ep_live s4)\<rparr>"
    using used e1 e2 lv by (simp add: ipc_endpoint_unref_def Let_def s1_def [symmetric] s2_def [symmetric] s3_def [symmetric] s4_def [symmetric])
  show "s_endpoints (ipc_endpoint_unref (Some i) s) = (s_endpoints s)[i := (s_endpoints s ! i)\<lparr>ep_refs := 0,
       ep_waiters := [], ep_senders := [], ep_used := False, ep_id := 0\<rparr>]"
    using i used by (simp add: run s4_def s3_def s2_def s1_def)
  have "threads s2 = threads (unblock_all (ep_waiters e) s)" unfolding s2_def by (rule th) (simp add: s1_def)
  then have "threads s3 = threads (unblock_all (ep_senders e) (unblock_all (ep_waiters e) s))"
    unfolding s3_def by (intro th) simp
  then show "threads (ipc_endpoint_unref (Some i) s) =
       threads (unblock_all (ep_waiters (s_endpoints s ! i) @ ep_senders (s_endpoints s ! i)) s)"
    by (simp add: run s4_def e_def unblock_all_def)
  show "s_next_id (ipc_endpoint_unref (Some i) s) = s_next_id s"
    "s_ep_live (ipc_endpoint_unref (Some i) s) = (if 0 < s_ep_live s then s_ep_live s - 1 else s_ep_live s)"
    by (simp_all add: run s4_def s3_def s2_def s1_def)
  assume "sched_inv s"
  then have "sched_inv s4" by (simp add: s4_def s3_def s2_def s1_def unblock_all_inv)
  then show "sched_inv (ipc_endpoint_unref (Some i) s)"
    unfolding run sched_inv_gen by (auto elim!: sched_gen_cong)
qed

lemma ipc_inv_ref:
  assumes "ipc_inv s" "\<And>i. ep = Some i \<Longrightarrow> i < AF_MAX_ENDPOINTS"
  shows "ipc_inv (ipc_endpoint_ref ep s)"
proof (cases ep)
  case (Some i)
  define e where "e = (s_endpoints s ! i)\<lparr>ep_refs := ep_refs (s_endpoints s ! i) + 1\<rparr>"
  have "ep_ok e" using ipc_invD(1) [OF assms(1), of i] assms(2) Some
    by (simp add: e_def ep_ok_def ring_ok_def)
  then have "ipc_inv (upd_ep i (\<lambda>e. e\<lparr>ep_refs := ep_refs e + 1\<rparr>) s)"
    using assms Some by (intro ipc_inv_update [OF assms(1), of i e]) (simp_all add: e_def)
  then show ?thesis using assms(1) Some by (simp add: ipc_endpoint_ref_def)
qed (use assms in \<open>simp add: ipc_endpoint_ref_def\<close>)

lemma ipc_inv_unref:
  assumes inv: "ipc_inv s" and i: "i < AF_MAX_ENDPOINTS"
  shows "ipc_inv (ipc_endpoint_unref (Some i) s)"
proof -
  have len: "length (s_endpoints s) = AF_MAX_ENDPOINTS" using inv by (simp add: ipc_inv_def)
  define e where "e = s_endpoints s ! i"
  have ok: "ep_ok e" using ipc_invD(1) [OF inv i] by (simp add: e_def)
  show ?thesis
  proof (cases "\<not> ep_used e \<or> ep_refs e = 0")
    case True
    with inv show ?thesis by (auto simp: ipc_endpoint_unref_def e_def)
  next
    case False
    then have used: "ep_used e" "ep_refs e \<noteq> 0" by simp_all
    show ?thesis
    proof (cases "ep_refs e = 1")
      case more: False
      then have "0 < ep_refs e - 1" by (simp add: word_gt_0)
      then have run: "ipc_endpoint_unref (Some i) s = upd_ep i (\<lambda>e. e\<lparr>ep_refs := ep_refs e - 1\<rparr>) s"
        using used i len by (simp add: ipc_endpoint_unref_def Let_def e_def)
      have "ep_ok (e\<lparr>ep_refs := ep_refs e - 1\<rparr>)" using ok by (simp add: ep_ok_def ring_ok_def)
      then show ?thesis unfolding run
        by (intro ipc_inv_update [OF inv i, of "e\<lparr>ep_refs := ep_refs e - 1\<rparr>"]) (simp_all add: e_def)
    next
      case True
      define e' where "e' = e\<lparr>ep_refs := 0, ep_waiters := [], ep_senders := [], ep_used := False, ep_id := 0\<rparr>"
      have il: "i < length (s_endpoints s)" using i len by simp
      note u = unref_last [OF il used(1) [unfolded e_def] True [unfolded e_def]]
      have s': "s_endpoints (ipc_endpoint_unref (Some i) s) = (s_endpoints s)[i := e']" by (simp add: u(1) e'_def e_def)
      have ok': "ep_ok e'" using ok by (simp add: e'_def ep_ok_def ring_ok_def)
      have cnt: "Suc (length (filter ep_used ((s_endpoints s)[i := e']))) = length (filter ep_used (s_endpoints s))"
        using il used by (intro filter_update_clear) (simp_all add: e'_def e_def)
      have lv: "unat (s_ep_live s) = length (filter ep_used (s_endpoints s))" using inv by (simp add: ipc_inv_def)
      with cnt have l0: "s_ep_live s \<noteq> 0" by auto
      have same: "ep_used ((s_endpoints s)[i := e'] ! j) \<Longrightarrow> j \<noteq> i \<and> (s_endpoints s)[i := e'] ! j = s_endpoints s ! j"
        if "j < AF_MAX_ENDPOINTS" for j using that len by (auto simp: nth_update_if e'_def split: if_splits)
      show ?thesis unfolding ipc_inv_def s' u(3,4)
      proof (intro conjI allI impI)
        fix j assume j: "j < AF_MAX_ENDPOINTS"
        show "ep_ok ((s_endpoints s)[i := e'] ! j)"
          using ipc_invD(1) [OF inv j] ok' j len by (auto simp: nth_update_if)
        assume uj: "ep_used ((s_endpoints s)[i := e'] ! j)"
        show "0 < ep_id ((s_endpoints s)[i := e'] ! j)" "ep_id ((s_endpoints s)[i := e'] ! j) < s_next_id s"
          using same [OF j uj] ipc_invD(2) [OF inv j] uj by simp_all
        fix k assume k: "k < AF_MAX_ENDPOINTS" "ep_used ((s_endpoints s)[i := e'] ! k)"
          "ep_id ((s_endpoints s)[i := e'] ! j) = ep_id ((s_endpoints s)[i := e'] ! k)"
        have "ep_used (s_endpoints s ! j) \<Longrightarrow> ep_used (s_endpoints s ! k) \<Longrightarrow>
            ep_id (s_endpoints s ! j) = ep_id (s_endpoints s ! k) \<Longrightarrow> j = k"
          using inv j k(1) unfolding ipc_inv_def by blast
        then show "j = k" using same [OF j uj] same [OF k(1,2)] uj k by simp
      qed (use inv len cnt lv l0 in \<open>simp_all add: ipc_inv_def word_gt_0 unat_minus_one_word\<close>)
    qed
  qed
qed

section \<open>Properties\<close>

text \<open>A state with two endpoints for the examples: the scheduler's \<open>demo\<close> and an otherwise empty table.\<close>

definition demo_ep :: "nat \<Rightarrow> af_endpoint" where
  "demo_ep k = zero_endpoint\<lparr>ep_used := True, ep_id := of_nat k + 1, ep_refs := 1\<rparr>"

definition demo_ipc :: ipc_state where
  "demo_ipc = kstate.extend demo
     \<lparr>s_endpoints = map (\<lambda>i. if i < 2 then demo_ep i else zero_endpoint) [0..<AF_MAX_ENDPOINTS],
      s_ep_live = 2, s_next_id = 3, s_sent = 0\<rparr>"

lemma demo_ipc_kstate [simp]:
  "threads demo_ipc = threads demo" "s_current demo_ipc = s_current demo" "th_cur demo_ipc = th_cur demo"
  "s_idle demo_ipc = s_idle demo" "s_threads demo_ipc = s_threads demo" "s_thread_count demo_ipc = s_thread_count demo"
  "s_zombies demo_ipc = s_zombies demo" "runq demo_ipc = runq demo" "runq_len demo_ipc = runq_len demo"
  by (simp_all add: demo_ipc_def kstate.extend_def)

lemma demo_ipc_inv: "sched_inv demo_ipc"
  using demo_sched_inv
  unfolding sched_inv_def ready_ok_def threads_ok_def zombies_ok_def idle_ok_def running_ok_def demo_ipc_kstate .

lemma demo_ipc_ep: "i < AF_MAX_ENDPOINTS \<Longrightarrow> s_endpoints demo_ipc ! i = (if i < 2 then demo_ep i else zero_endpoint)"
  "length (s_endpoints demo_ipc) = AF_MAX_ENDPOINTS" "s_next_id demo_ipc = 3" "s_ep_live demo_ipc = 2"
  by (simp_all add: demo_ipc_def kstate.extend_def)

lemma demo_ep_ok: "ep_ok (demo_ep k)" "ep_used (demo_ep k)" "ep_waiters (demo_ep k) = []" "ep_senders (demo_ep k) = []"
  "ring_ok (demo_ep k)" "ep_count (demo_ep k) = 0" "ring_contents (demo_ep k) = []" "ep_refs (demo_ep k) = 1"
  by (simp_all add: demo_ep_def ep_ok_def ring_ok_def zero_endpoint_def ring_contents_def)

theorem ipc_fifo_witness:
  "\<exists>s1 s2. send_all 0 [zero_msg, zero_msg\<lparr>msg_label := 7\<rparr>] demo_ipc = Some s1 \<and>
     recv_all 0 2 s1 = Some ([zero_msg, zero_msg\<lparr>msg_label := 7\<rparr>], s2)"
  using ipc_fifo [of 0 demo_ipc "[zero_msg, zero_msg\<lparr>msg_label := 7\<rparr>]"]
  by (auto simp: demo_ipc_ep demo_ep_ok numeral_2_eq_2)


definition full_ep :: "nat list \<Rightarrow> af_endpoint" where
  "full_ep ws = (demo_ep 0)\<lparr>ep_count := 8, ep_waiters := ws\<rparr>"

definition demo_full :: ipc_state where
  "demo_full = upd_ep 0 (\<lambda>_. full_ep []) demo_ipc"

lemma full_ep_facts: "ep_used (full_ep ws)" "ring_ok (full_ep ws)" "ep_waiters (full_ep ws) = ws" "ep_count (full_ep ws) = 8"
  "ep_senders (full_ep ws) = []"
  by (simp_all add: full_ep_def demo_ep_def ring_ok_def zero_endpoint_def)

lemma demo_current: "s_current demo = Some 0" "s_idle demo = Some 1"
  by (simp_all add: demo_def)


section \<open>Every reachable state of the table\<close>

text \<open>
  The steps that touch the endpoint table. A receiver joins a wait list only while it has fewer than
  eight entries, and the 32-bit id counter has not wrapped: what happens outside these two is
  \<open>ninth_handoff_overwrites\<close> and the reuse of an id.
\<close>

inductive ipc_step :: "'a ipc_state_scheme \<Rightarrow> 'a ipc_state_scheme \<Rightarrow> bool" where
  Send: "i < AF_MAX_ENDPOINTS \<Longrightarrow> send_round i m s = Some (out, s') \<Longrightarrow> ipc_step s s'"
| Send_woken: "i < AF_MAX_ENDPOINTS \<Longrightarrow> send_resume t i m s = Some (out, s') \<Longrightarrow> ipc_step s s'"
| Recv: "i < AF_MAX_ENDPOINTS \<Longrightarrow> recv_round i s = Some (out, s') \<Longrightarrow>
    length (ep_waiters (s_endpoints s ! i)) < 8 \<Longrightarrow> ipc_step s s'"
| Recv_woken: "i < AF_MAX_ENDPOINTS \<Longrightarrow> recv_resume t i s = Some (out, s') \<Longrightarrow>
    length (ep_waiters (s_endpoints s ! i)) < 8 \<Longrightarrow> ipc_step s s'"
| Create: "ipc_endpoint_create name s = (r, s') \<Longrightarrow> s_next_id s + 1 \<noteq> 0 \<Longrightarrow> ipc_step s s'"
| Ref: "i < AF_MAX_ENDPOINTS \<Longrightarrow> ipc_step s (ipc_endpoint_ref (Some i) s)"
| Unref: "i < AF_MAX_ENDPOINTS \<Longrightarrow> ipc_step s (ipc_endpoint_unref (Some i) s)"
| Elsewhere: "s_endpoints s' = s_endpoints s \<Longrightarrow> s_next_id s' = s_next_id s \<Longrightarrow> s_ep_live s' = s_ep_live s \<Longrightarrow>
    ipc_step s s'"

lemma give_away_eps:
  assumes "give_away t s = Some s'"
  shows "s_endpoints s' = s_endpoints s \<and> s_ep_live s' = s_ep_live s \<and> s_next_id s' = s_next_id s \<and> s_sent s' = s_sent s"
proof -
  obtain n s2 where p: "pick_next s = (n, s2)" by fastforce
  from assms obtain m where "s' = make_current m s2" by (auto simp: give_away_def p split: option.splits if_splits)
  with pick_next_eps [OF p] show ?thesis by (simp add: make_current_def Let_def upd_thread_def)
qed

lemma resume_eps:
  assumes "sched_block_resume t s = Some s'"
  shows "s_endpoints s' = s_endpoints s \<and> s_ep_live s' = s_ep_live s \<and> s_next_id s' = s_next_id s"
  using assms give_away_eps [of t s s'] by (auto simp: sched_block_resume_def upd_thread_def split: if_splits)

lemma ipc_inv_shrink:
  assumes inv: "ipc_inv s" and i: "i < AF_MAX_ENDPOINTS"
  shows "ipc_inv (upd_ep i (\<lambda>e. e\<lparr>ep_senders := ss\<rparr>) s)"
    "length ws \<le> length (ep_waiters (s_endpoints s ! i)) \<Longrightarrow> ipc_inv (upd_ep i (\<lambda>e. e\<lparr>ep_waiters := ws\<rparr>) s)"
  using ipc_invD(1) [OF inv i]
  by (intro ipc_inv_update [OF inv i, of "(s_endpoints s ! i)\<lparr>ep_senders := ss\<rparr>"]
        ipc_inv_update [OF inv i, of "(s_endpoints s ! i)\<lparr>ep_waiters := ws\<rparr>"]; simp add: ep_ok_def)+

lemma ipc_inv_step: "ipc_step s s' \<Longrightarrow> ipc_inv s \<Longrightarrow> ipc_inv s'"
proof (induction rule: ipc_step.induct)
  case (Send_woken i t m s out s')
  from Send_woken(2) obtain s1 where s1: "sched_block_resume t s = Some s1"
    and r: "s' = s1 \<or> send_round i m (upd_ep i (\<lambda>e. e\<lparr>ep_senders := waiter_remove t (ep_senders e)\<rparr>) s1) = Some (out, s')"
    by (auto simp: send_resume_def split: option.splits if_splits)
  have inv1: "ipc_inv s1" using resume_eps [OF s1] by (intro ipc_inv_cong [OF Send_woken(3)]) simp_all
  then have "ipc_inv (upd_ep i (\<lambda>e. e\<lparr>ep_senders := waiter_remove t (ep_senders e)\<rparr>) s1)"
    using ipc_inv_shrink(1) [OF inv1 Send_woken(1), of "waiter_remove t (ep_senders (s_endpoints s1 ! i))"]
    by (simp add: upd_ep_def)
  with r inv1 ipc_inv_send Send_woken(1) show ?case by blast
next
  case (Recv_woken i t s out s')
  from Recv_woken(2) obtain s1 where s1: "sched_block_resume t s = Some s1"
    and r: "s' = s1 \<or> recv_round i (upd_ep i (\<lambda>e. e\<lparr>ep_waiters := waiter_remove t (ep_waiters e)\<rparr>) s1) = Some (out, s')"
    by (auto simp: recv_resume_def split: option.splits if_splits)
  define s2 where "s2 = upd_ep i (\<lambda>e. e\<lparr>ep_waiters := waiter_remove t (ep_waiters e)\<rparr>) s1"
  have inv1: "ipc_inv s1" using resume_eps [OF s1] by (intro ipc_inv_cong [OF Recv_woken(4)]) simp_all
  have le: "length (waiter_remove t (ep_waiters (s_endpoints s1 ! i))) \<le> length (ep_waiters (s_endpoints s1 ! i))"
    by (simp add: waiter_remove_def length_remove1)
  have inv2: "ipc_inv s2"
    using ipc_inv_shrink(2) [OF inv1 Recv_woken(1) le] by (simp add: upd_ep_def s2_def)
  have "length (s_endpoints s1) = AF_MAX_ENDPOINTS" using inv1 by (simp add: ipc_inv_def)
  then have "length (ep_waiters (s_endpoints s2 ! i)) < 8"
    using le Recv_woken(1,3) resume_eps [OF s1] by (simp add: s2_def)
  with r inv1 inv2 Recv_woken(1) show ?case by (auto simp: s2_def [symmetric] intro: ipc_inv_recv)
qed (blast intro: ipc_inv_send ipc_inv_recv ipc_inv_create ipc_inv_unref ipc_inv_ref ipc_inv_cong)+

lemma ipc_inv_steps: "ipc_step\<^sup>*\<^sup>* s s' \<Longrightarrow> ipc_inv s \<Longrightarrow> ipc_inv s'"
  by (induction rule: rtranclp_induct) (auto intro: ipc_inv_step)


lemma demo_ipc_table: "ipc_inv demo_ipc"
proof -
  have "length (filter ep_used (s_endpoints demo_ipc)) = card {i. i < AF_MAX_ENDPOINTS \<and> ep_used (s_endpoints demo_ipc ! i)}"
    using demo_ipc_ep(2) by (simp add: length_filter_conv_card)
  also have "{i. i < AF_MAX_ENDPOINTS \<and> ep_used (s_endpoints demo_ipc ! i)} = {0, 1}"
    by (auto simp: demo_ipc_ep demo_ep_ok zero_endpoint_def split: if_splits)
  finally have "unat (s_ep_live demo_ipc) = length (filter ep_used (s_endpoints demo_ipc))" by (simp add: demo_ipc_ep)
  moreover have "ep_ok zero_endpoint" by (simp add: ep_ok_def ring_ok_def zero_endpoint_def)
  moreover have "i = 0 \<or> i = 1" if "i < AF_MAX_ENDPOINTS" "ep_used (s_endpoints demo_ipc ! i)" for i
    using that by (auto simp: demo_ipc_ep zero_endpoint_def split: if_splits)
  ultimately show ?thesis
    unfolding ipc_inv_def
  proof (intro conjI allI impI, goal_cases)
    case (2 i)
    then show ?case by (simp add: demo_ipc_ep demo_ep_ok)
  next
    case (3 i)
    then have "i = 0 \<or> i = 1" by blast
    then show ?case by (auto simp: demo_ipc_ep demo_ep_def)
  next
    case (4 i)
    then have "i = 0 \<or> i = 1" by blast
    then show ?case by (auto simp: demo_ipc_ep demo_ep_def)
  next
    case (5 i j)
    then have "i = 0 \<or> i = 1" "j = 0 \<or> j = 1" by blast+
    with 5(8) show ?case by (auto simp: demo_ipc_ep demo_ep_def)
  qed (simp_all add: demo_ipc_ep)
qed


section \<open>The hand-off to a waiting receiver\<close>

lemma send_hands_off:
  assumes "i < length (s_endpoints s)" "ep_used (s_endpoints s ! i)" "ep_waiters (s_endpoints s ! i) = t # ts"
  shows "\<exists>s'. send_round i m s = Some (Done AF_OK None, s') \<and>
    s_endpoints s' = (s_endpoints s)[i := ring_put m ((s_endpoints s ! i)\<lparr>ep_waiters := ts\<rparr>)]"
  using assms by (simp add: send_round_def Let_def)

lemma ring_put_waiters: "ring_put m (e\<lparr>ep_waiters := ws\<rparr>) = (ring_put m e)\<lparr>ep_waiters := ws\<rparr>"
  by (simp add: ring_put_def)

lemma fold_ring_put_waiters: "fold ring_put ms (e\<lparr>ep_waiters := ws\<rparr>) = (fold ring_put ms e)\<lparr>ep_waiters := ws\<rparr>"
  by (induction ms arbitrary: e) (simp_all add: ring_put_waiters)

lemma send_all_hands_off:
  assumes "i < length (s_endpoints s)" "ep_used (s_endpoints s ! i)" "length ms \<le> length (ep_waiters (s_endpoints s ! i))"
  shows "\<exists>s'. send_all i ms s = Some s' \<and> s_endpoints s' = (s_endpoints s)[i :=
    (fold ring_put ms (s_endpoints s ! i))\<lparr>ep_waiters := drop (length ms) (ep_waiters (s_endpoints s ! i))\<rparr>]"
  using assms
proof (induction ms arbitrary: s)
  case (Cons m ms)
  then obtain t ts where w: "ep_waiters (s_endpoints s ! i) = t # ts" by (cases "ep_waiters (s_endpoints s ! i)") auto
  from send_hands_off [OF Cons.prems(1,2) w, of m] obtain s1 where s1: "send_round i m s = Some (Done AF_OK None, s1)"
    "s_endpoints s1 = (s_endpoints s)[i := ring_put m ((s_endpoints s ! i)\<lparr>ep_waiters := ts\<rparr>)]" by blast
  have "length ms \<le> length ts" using Cons.prems(3) w by simp
  with Cons.IH [of s1] s1 Cons.prems w show ?case by (auto simp: ring_put_waiters fold_ring_put_waiters)
qed simp

lemma ring_take_waiters: "ring_take (e\<lparr>ep_waiters := ws\<rparr>) = (fst (ring_take e), (snd (ring_take e))\<lparr>ep_waiters := ws\<rparr>)"
  by (simp add: ring_take_def)

lemma full_tail: "ring_ok e \<Longrightarrow> ep_count e = 8 \<Longrightarrow> ep_tail e = ep_head e \<and> unat (ep_head e) < 8 \<and> length (ep_queue e) = 8"
  by (simp add: ring_ok_def word_unat_eq_iff)

lemma overfull_take:
  assumes ok: "ring_ok e" and c: "ep_count e = 8"
  shows "fst (ring_take (ring_put m e)) = m" "snd (ring_take (ring_put m e)) = ring_put m (snd (ring_take e))"
  using full_tail [OF ok c] c by (simp_all add: ring_take_def ring_put_def)

text \<open>
  The hand-off ignores the capacity. With nine receivers blocked on an empty endpoint, nine sends
  in a row (before any of the receivers runs) all report success, the ring then counts nine messages
  in eight slots, and the ninth message has overwritten the first: receiving nine times returns the
  ninth message twice, at the front and at the end, and never the first.
\<close>

theorem ninth_handoff_overwrites:
  assumes "i < length (s_endpoints s)" "ep_used (s_endpoints s ! i)" "ring_ok (s_endpoints s ! i)" "ep_count (s_endpoints s ! i) = 0"
    and "9 \<le> length (ep_waiters (s_endpoints s ! i))" "length ms = 8"
  shows "\<exists>s1 s2. send_all i (ms @ [m]) s = Some s1 \<and> ep_count (s_endpoints s1 ! i) = 9 \<and>
    recv_all i 9 s1 = Some (m # tl ms @ [m], s2)"
proof -
  define e where "e = s_endpoints s ! i"
  define e8 where "e8 = fold ring_put ms e"
  have "ring_contents e = []" using assms(4) by (simp add: e_def)
  with ring.puts [of e ms] assms(3,6) have e8: "ring_ok e8" "ring_contents e8 = ms" by (simp_all add: e8_def e_def)
  have c8: "unat (ep_count e8) = 8" using e8(2) assms(6) ring_length [of e8] by simp
  then have c8': "ep_count e8 = 8" by (simp add: word_unat_eq_iff)
  note over = overfull_take [OF e8(1) c8', of m]
  define ws where "ws = drop 9 (ep_waiters e)"
  define e9 where "e9 = (ring_put m e8)\<lparr>ep_waiters := ws\<rparr>"
  from send_all_hands_off [of i s "ms @ [m]"] assms
  obtain s1 where s1: "send_all i (ms @ [m]) s = Some s1" "s_endpoints s1 = (s_endpoints s)[i := e9]"
    by (auto simp: e9_def ws_def e8_def e_def)
  have used8: "ep_used (fold ring_put xs x) = ep_used x" for xs x by (induction xs arbitrary: x) simp_all
  have at: "s_endpoints s1 ! i = e9" "i < length (s_endpoints s1)" "ep_used e9"
    using s1 assms(1,2) by (simp_all add: e9_def e8_def used8 e_def)
  have c9: "ep_count e9 = 9" using c8' by (simp add: e9_def ring_put_def)
  have tk: "ring_take e9 = (m, (ring_put m (snd (ring_take e8)))\<lparr>ep_waiters := ws\<rparr>)"
    using over by (simp add: e9_def ring_take_waiters)
  have t8: "ring_ok (snd (ring_take e8))" "ring_contents (snd (ring_take e8)) = tl ms"
    using ring_take_ok [OF e8(1)] c8' e8(2) by simp_all
  have "unat (ep_count (snd (ring_take e8))) = 7" using t8(2) assms(6) ring_length [of "snd (ring_take e8)"] by simp
  with ring_put_ok [OF t8(1), of m] t8(2)
  have p8: "ring_ok (ring_put m (snd (ring_take e8)))" "ring_contents (ring_put m (snd (ring_take e8))) = tl ms @ [m]" by simp_all
  obtain w ss where p: "waiter_pop (ep_senders (snd (ring_take e9))) = (w, ss)" by fastforce
  define s2 where "s2 = sched_unblock w (upd_ep i (\<lambda>_. (snd (ring_take e9))\<lparr>ep_senders := ss\<rparr>) s1)"
  have first: "recv_round i s1 = Some (Done AF_OK (Some m), s2)"
    using at c9 tk p by (simp add: recv_round_def s2_def Let_def)
  have s2: "s_endpoints s2 ! i = (snd (ring_take e9))\<lparr>ep_senders := ss\<rparr>" "i < length (s_endpoints s2)"
    using at by (simp_all add: s2_def)
  have r2: "ring_ok (s_endpoints s2 ! i)" "ring_contents (s_endpoints s2 ! i) = (tl ms @ [m]) @ []"
    "ep_used (s_endpoints s2 ! i)"
    using p8 assms(2) unfolding s2(1) tk by (simp_all add: e8_def used8 e_def)
  from recv_all_ring [OF s2(2) r2(3,1,2)] assms(6)
  obtain s3 where "recv_all i 8 s2 = Some (tl ms @ [m], s3)" by auto
  then have "recv_all i 9 s1 = Some (m # tl ms @ [m], s3)"
    using first by (simp add: eval_nat_numeral)
  with s1 at(1) c9 show ?thesis by auto
qed

lemma nine_waiters: "s_endpoints (upd_ep 0 (\<lambda>_. (demo_ep 0)\<lparr>ep_waiters := [2..<11]\<rparr>) demo_ipc) ! 0 = (demo_ep 0)\<lparr>ep_waiters := [2..<11]\<rparr>"
  "0 < length (s_endpoints (upd_ep 0 f demo_ipc))"
  by (simp_all add: demo_ipc_ep)

theorem ninth_handoff_overwrites_witness:
  "\<exists>s1 s2. send_all 0 (map (\<lambda>k. zero_msg\<lparr>msg_label := of_nat k\<rparr>) [0..<8] @ [zero_msg\<lparr>msg_label := 99\<rparr>])
       (upd_ep 0 (\<lambda>_. (demo_ep 0)\<lparr>ep_waiters := [2..<11]\<rparr>) demo_ipc) = Some s1 \<and>
     recv_all 0 9 s1 = Some (zero_msg\<lparr>msg_label := 99\<rparr> #
       map (\<lambda>k. zero_msg\<lparr>msg_label := of_nat k\<rparr>) [1..<8] @ [zero_msg\<lparr>msg_label := 99\<rparr>], s2)"
proof -
  have "tl (map (\<lambda>k. zero_msg\<lparr>msg_label := of_nat k\<rparr>) [0..<8]) = map (\<lambda>k. zero_msg\<lparr>msg_label := of_nat k\<rparr>) [1..<8]"
    by (simp add: map_tl [symmetric])
  moreover have "s_endpoints demo_ipc \<noteq> []" using demo_ipc_ep(2) by auto
  moreover note ninth_handoff_overwrites [of 0 "upd_ep 0 (\<lambda>_. (demo_ep 0)\<lparr>ep_waiters := [2..<11]\<rparr>) demo_ipc"
      "map (\<lambda>k. zero_msg\<lparr>msg_label := of_nat k\<rparr>) [0..<8]" "zero_msg\<lparr>msg_label := 99\<rparr>"]
  ultimately show ?thesis by (auto simp: nine_waiters demo_ep_ok)
qed

section \<open>Destruction\<close>



section \<open>Call and reply, end to end\<close>

lemma recv_blocks:
  assumes inv: "sched_inv s" "s_current s = Some c" "s_idle s \<noteq> Some c"
    and r: "ep_used (s_endpoints s ! r)" "ep_count (s_endpoints s ! r) = 0"
  shows "\<exists>s'. recv_round r s = Some (Blocked, s') \<and> sched_inv s' \<and> th_state (threads s' c) = AF_THREAD_BLOCKED \<and>
    s_endpoints s' = (s_endpoints s)[r := (s_endpoints s ! r)\<lparr>ep_waiters := ep_waiters (s_endpoints s ! r) @ [c]\<rparr>]"
proof -
  define s1 where "s1 = upd_ep r (\<lambda>e. e\<lparr>ep_waiters := waiter_add c (ep_waiters e)\<rparr>) s"
  have tc: "thread_current s = Some c" using inv by (simp add: thread_current_def sched_inv_def running_ok_def)
  have inv1: "sched_inv s1" "s_current s1 = Some c" "s_idle s1 \<noteq> Some c" using inv by (simp_all add: s1_def)
  obtain s' where b: "sched_block (WaitEndpoint r) s1 = Some s'" using sched_block_ok [OF inv1(1)] by blast
  have "recv_round r s = Some (Blocked, s')" using tc r inv(3) b by (simp add: recv_round_def Let_def s1_def)
  with sched_block_states [OF inv1 b] sched_block_eps [OF b] show ?thesis
    by (auto simp: s1_def waiter_add_def)
qed

lemma recv_delivers:
  assumes inv: "sched_inv s" "s_current s = Some c" and r: "r < length (s_endpoints s)" "s_endpoints s ! r = ring_put m e"
    and e: "ep_used e" "ring_ok e" "ep_count e = 0" "ep_waiters e = []" "ep_senders e = []" "ep_refs e = 1"
  shows "\<exists>s'. call_resume_recv c r s = Some (CallDone AF_OK (Some m), s') \<and> \<not> ep_used (s_endpoints s' ! r)"
proof -
  define s1 where "s1 = upd_ep r (\<lambda>e. e\<lparr>ep_waiters := waiter_remove c (ep_waiters e)\<rparr>)
      (upd_thread c (\<lambda>th. th\<lparr>th_wait_obj := None\<rparr>) s)"
  have eps: "s_endpoints (upd_thread c f s) = s_endpoints s" for f by (simp add: upd_thread_def)
  have s1: "s_endpoints s1 ! r = ring_put m e" "r < length (s_endpoints s1)"
    using r e(4) by (simp_all add: s1_def eps waiter_remove_def ring_put_def)
  have p: "ring_contents (ring_put m e) = [m]" "ring_ok (ring_put m e)" "ep_count (ring_put m e) = 1"
    using ring_put_ok [OF e(2), of m] e(3) by (simp_all add: ring_put_def)
  have t: "fst (ring_take (ring_put m e)) = m" using ring_take_ok [OF p(2)] p by simp
  have rr: "recv_resume c r s = recv_round r s1"
    using sched_block_resume_running [OF inv] inv(2) by (simp add: recv_resume_def s1_def)
  define e2 where "e2 = (snd (ring_take (ring_put m e)))\<lparr>ep_senders := []\<rparr>"
  define s2 where "s2 = upd_ep r (\<lambda>_. e2) s1"
  have "ep_used (ring_put m e)" "waiter_pop (ep_senders (snd (ring_take (ring_put m e)))) = (None, [])"
    using e by simp_all
  then have "recv_round r s1 = Some (Done AF_OK (Some m), s2)"
    using s1 p t by (cases "ring_take (ring_put m e)") (simp add: recv_round_def Let_def sched_unblock_def s2_def e2_def)
  then have run: "call_resume_recv c r s = Some (CallDone AF_OK (Some m), ipc_endpoint_unref (Some r) s2)"
    by (simp add: call_resume_recv_def call_after_recv_def rr)
  have "ep_refs e2 = 1" "ep_used e2" using e by (simp_all add: e2_def ring_take_def ring_put_def)
  then have "\<not> ep_used (s_endpoints (ipc_endpoint_unref (Some r) s2) ! r)"
    using unref_last(1) [of r s2] s1(2) by (simp add: s2_def)
  with run show ?thesis by blast
qed

text \<open>
  (C3) A call gets its answer. Calling a live endpoint that has room, with a free slot in the table,
  queues the request with the id of a fresh reply endpoint in its first word, under which the server
  finds that endpoint, and leaves the caller blocked on it. The first reply sent there, whenever that
  is, succeeds at once and makes the caller runnable; and when the caller runs again the call returns
  \<open>AF_OK\<close> with exactly that reply and the reply endpoint is destroyed.
\<close>

theorem call_gets_reply:
  fixes s :: "'a ipc_state_scheme"
  assumes "ipc_inv s" "sched_inv s" "s_current s = Some c" "s_idle s \<noteq> Some c" "i < AF_MAX_ENDPOINTS"
    and "ep_used (s_endpoints s ! i)" "ep_waiters (s_endpoints s ! i) = []" "ep_count (s_endpoints s ! i) < 8"
    and "\<exists>j < AF_MAX_ENDPOINTS. \<not> ep_used (s_endpoints s ! j)"
  shows "\<exists>r s1. ipc_call (Some i) (Some m) True s = Some (CallBlockedRecv r, s1) \<and> sched_inv s1 \<and>
    th_state (threads s1 c) = AF_THREAD_BLOCKED \<and>
    ring_contents (s_endpoints s1 ! i) = ring_contents (s_endpoints s ! i) @
      [m\<lparr>msg_words := (msg_words m)[0 := ucast (ipc_endpoint_id s1 (Some r))]\<rparr>] \<and>
    endpoint_from_id s1 (ipc_endpoint_id s1 (Some r)) = Some r \<and>
    (\<forall>reply. \<forall>s2 :: 'a ipc_state_scheme. r < length (s_endpoints s2) \<longrightarrow> s_endpoints s2 ! r = s_endpoints s1 ! r \<longrightarrow>
       (\<exists>s3. ipc_reply (Some r) (Some reply) s2 = Some (Done AF_OK None, s3) \<and>
          (th_state (threads s2 c) = AF_THREAD_BLOCKED \<longrightarrow> th_state (threads s3 c) = AF_THREAD_RUNNABLE) \<and>
          (\<forall>s4 :: 'a ipc_state_scheme. sched_inv s4 \<longrightarrow> s_current s4 = Some c \<longrightarrow> r < length (s_endpoints s4) \<longrightarrow>
             s_endpoints s4 ! r = s_endpoints s3 ! r \<longrightarrow>
             (\<exists>s5. call_resume_recv c r s4 = Some (CallDone AF_OK (Some reply), s5) \<and> \<not> ep_used (s_endpoints s5 ! r)))))"
proof -
  have len: "length (s_endpoints s) = AF_MAX_ENDPOINTS" using assms(1) by (simp add: ipc_inv_def)
  obtain q s0 where create: "ipc_endpoint_create (Some ''reply'') s = (q, s0)" by fastforce
  have some: "find (\<lambda>i. \<not> ep_used (s_endpoints s ! i)) [0..<AF_MAX_ENDPOINTS] \<noteq> None"
    using assms(9) by (auto simp: find_None_iff)
  from create show ?thesis
  proof (cases rule: ipc_create_cases)
    case full
    with some create show ?thesis by (auto simp: ipc_endpoint_create_def Let_def split: option.splits)
  next
    case (slot r e)
    have ri: "r \<noteq> i" using slot(3) assms(6) by auto
    define w where "w = m\<lparr>msg_words := (msg_words m)[0 := ucast (ep_id e)]\<rparr>"
    define s1 where "s1 = (upd_ep i (ring_put w) s0)\<lparr>s_sent := s_sent s0 + 1\<rparr>"
    have at0: "s_endpoints s0 ! i = s_endpoints s ! i" "s_endpoints s0 ! r = e" "length (s_endpoints s0) = AF_MAX_ENDPOINTS"
      using slot(2,11) ri len by simp_all
    have send: "ipc_send (Some i) (Some w) s0 = Some (Done AF_OK None, s1)"
      using assms(6-8) at0 by (simp add: ipc_send_def send_round_def s1_def Let_def)
    have at1: "s_endpoints s1 ! i = ring_put w (s_endpoints s ! i)" "s_endpoints s1 ! r = e" "length (s_endpoints s1) = AF_MAX_ENDPOINTS"
      using at0 assms(5) ri by (simp_all add: s1_def)
    have inv1: "sched_inv s1" "s_current s1 = Some c" "s_idle s1 \<noteq> Some c"
      using slot assms(2-4) by (auto simp: s1_def sched_inv_gen elim!: sched_gen_cong)
    from recv_blocks [OF inv1, of r] at1(2) slot(4,7,8) obtain s2 where
      s2: "recv_round r s1 = Some (Blocked, s2)" "sched_inv s2" "th_state (threads s2 c) = AF_THREAD_BLOCKED"
        "s_endpoints s2 = (s_endpoints s1)[r := e\<lparr>ep_waiters := [c]\<rparr>]" by auto
    have call: "ipc_call (Some i) (Some m) True s = Some (CallBlockedRecv r, s2)"
      using create slot(1) send s2(1) at0(2)
      by (simp add: ipc_call_def ipc_endpoint_id_def Let_def w_def call_after_send_def call_after_recv_def ipc_recv_def)
    have at2: "s_endpoints s2 ! r = e\<lparr>ep_waiters := [c]\<rparr>" "s_endpoints s2 ! i = ring_put w (s_endpoints s ! i)"
      using s2(4) at1 slot(2) ri by simp_all
    have "ring_ok (s_endpoints s ! i)" "unat (ep_count (s_endpoints s ! i)) < 8"
      using ipc_invD(1) [OF assms(1,5)] assms(8) by (simp_all add: ep_ok_def word_less_nat_alt)
    then have queued: "ring_contents (s_endpoints s2 ! i) = ring_contents (s_endpoints s ! i) @ [w]"
      using ring_put_ok at2(2) by simp
    have found: "endpoint_from_id s2 (ep_id e) = Some r"
    proof -
      have old: "ep_id (s_endpoints s2 ! j) \<noteq> s_next_id s" if "j < AF_MAX_ENDPOINTS" "ep_used (s_endpoints s2 ! j)" "j \<noteq> r" for j
      proof -
        have "s_endpoints s2 ! j = (if j = i then ring_put w (s_endpoints s ! i) else s_endpoints s ! j)"
          using that s2(4) slot(11) len by (simp add: s1_def nth_update_if)
        then show ?thesis using ipc_invD(2) [OF assms(1) that(1)] that(2)
          by (auto simp: ring_put_def split: if_splits)
      qed
      have "s_next_id s \<noteq> 0" using assms(1) by (auto simp: ipc_inv_def)
      moreover have "find (\<lambda>j. ep_used (s_endpoints s2 ! j) \<and> ep_id (s_endpoints s2 ! j) = s_next_id s) [0..<AF_MAX_ENDPOINTS] \<noteq> None"
        using slot(2,4,5) at2(1) by (auto simp: find_None_iff intro!: exI [of _ r])
      then obtain j where j: "find (\<lambda>j. ep_used (s_endpoints s2 ! j) \<and> ep_id (s_endpoints s2 ! j) = s_next_id s) [0..<AF_MAX_ENDPOINTS] = Some j"
        by blast
      moreover have "j = r" using find_SomeD [OF j] old by auto
      ultimately show ?thesis by (simp add: endpoint_from_id_def slot(5))
    qed
    have reply: "\<exists>s4. ipc_reply (Some r) (Some reply) s3 = Some (Done AF_OK None, s4) \<and>
        (th_state (threads s3 c) = AF_THREAD_BLOCKED \<longrightarrow> th_state (threads s4 c) = AF_THREAD_RUNNABLE) \<and>
        (\<forall>s5 :: 'a ipc_state_scheme. sched_inv s5 \<longrightarrow> s_current s5 = Some c \<longrightarrow> r < length (s_endpoints s5) \<longrightarrow>
           s_endpoints s5 ! r = s_endpoints s4 ! r \<longrightarrow>
           (\<exists>s6. call_resume_recv c r s5 = Some (CallDone AF_OK (Some reply), s6) \<and> \<not> ep_used (s_endpoints s6 ! r)))"
      if s3: "r < length (s_endpoints s3)" "s_endpoints s3 ! r = s_endpoints s2 ! r" for reply and s3 :: "'a ipc_state_scheme"
    proof -
      define e' where "e' = e\<lparr>ep_waiters := []\<rparr>"
      define t1 where "t1 = upd_ep r (\<lambda>e. ring_put reply (e\<lparr>ep_waiters := []\<rparr>)) s3"
      define s4 where "s4 = sched_unblock (Some c) (t1\<lparr>s_sent := s_sent t1 + 1\<rparr>)"
      have "ipc_reply (Some r) (Some reply) s3 = Some (Done AF_OK None, s4)"
        using s3 at2(1) slot(4) by (simp add: ipc_reply_def ipc_send_def send_round_def Let_def s4_def t1_def)
      moreover have "s_endpoints s4 ! r = ring_put reply e'"
        using s3 at2(1) by (simp add: s4_def t1_def e'_def)
      moreover have "th_state (threads s3 c) = AF_THREAD_BLOCKED \<Longrightarrow> th_state (threads s4 c) = AF_THREAD_RUNNABLE"
        unfolding s4_def sched_unblock_state by (simp add: t1_def)
      moreover have "ep_used e'" "ring_ok e'" "ep_count e' = 0" "ep_waiters e' = []" "ep_senders e' = []" "ep_refs e' = 1"
        using slot by (simp_all add: e'_def)
      ultimately show ?thesis using recv_delivers [of _ c r reply e'] by auto
    qed
    have rid: "ipc_endpoint_id s2 (Some r) = ep_id e" by (simp add: ipc_endpoint_id_def at2(1))
    show ?thesis
      using call s2(2,3) queued found reply by (intro exI [of _ r] exI [of _ s2]) (simp add: rid w_def)
  qed
qed

theorem call_gets_reply_witness:
  "\<exists>r s1. ipc_call (Some 0) (Some zero_msg) True demo_ipc = Some (CallBlockedRecv r, s1) \<and>
     th_state (threads s1 0) = AF_THREAD_BLOCKED \<and> endpoint_from_id s1 (ipc_endpoint_id s1 (Some r)) = Some r"
proof -
  have "\<exists>j < AF_MAX_ENDPOINTS. \<not> ep_used (s_endpoints demo_ipc ! j)"
    by (intro exI [of _ 5]) (simp add: demo_ipc_ep zero_endpoint_def)
  moreover have "(0::nat) < AF_MAX_ENDPOINTS" "s_current demo_ipc = Some 0" "s_idle demo_ipc \<noteq> Some 0" "ep_used (s_endpoints demo_ipc ! 0)"
    "ep_waiters (s_endpoints demo_ipc ! 0) = []" "ep_count (s_endpoints demo_ipc ! 0) < 8"
    by (simp_all add: demo_current demo_ipc_ep demo_ep_ok)
  ultimately show ?thesis using call_gets_reply [OF demo_ipc_table demo_ipc_inv, of 0 0 zero_msg] by blast
qed

section \<open>Authority\<close>

text \<open>What lets a holder of \<open>table\<close> use endpoint \<open>i\<close> through a handle, for the rights \<open>r\<close>.\<close>

definition may_use :: "af_cap_table option \<Rightarrow> u32 \<Rightarrow> u32 \<Rightarrow> 'a ipc_state_scheme \<Rightarrow> nat \<Rightarrow> bool" where
  "may_use table cap r s i \<longleftrightarrow> (\<exists>obj rights. cap_holds table cap obj rights \<and> rights AND r = r \<and>
     obj_type obj = AF_OBJECT_ENDPOINT \<and> endpoint_from_id s (ucast (obj_id obj)) = Some i)"

lemma endpoint_from_cap_cases:
  obtains (granted) i where "endpoint_from_cap table cap r s = (AF_OK, Some i)" "\<And>j. may_use table cap r s j \<longleftrightarrow> j = i"
  | (refused) rc where "endpoint_from_cap table cap r s = (rc, None)" "af_status_err rc" "\<And>j. \<not> may_use table cap r s j"
proof (cases rule: caps.lookup_cases [where t = table and c = cap and r = r])
  case (granted obj rights)
  have only: "may_use table cap r s j \<longleftrightarrow> obj_type obj = AF_OBJECT_ENDPOINT \<and> endpoint_from_id s (ucast (obj_id obj)) = Some j" for j
    using granted(2,3) caps.holds_unique [OF granted(2)] unfolding may_use_def by blast
  show thesis
  proof (cases "obj_type obj = AF_OBJECT_ENDPOINT \<and> endpoint_from_id s (ucast (obj_id obj)) \<noteq> None")
    case True
    then obtain i where i: "endpoint_from_id s (ucast (obj_id obj)) = Some i" by blast
    show thesis
    proof (rule that(1) [of i])
      show "endpoint_from_cap table cap r s = (AF_OK, Some i)"
        using granted(1) True i by (simp add: endpoint_from_cap_def)
      show "may_use table cap r s j \<longleftrightarrow> j = i" for j using only True i by auto
    qed
  next
    case False
    show thesis
    proof (rule that(2) [of "if obj_type obj = AF_OBJECT_ENDPOINT then AF_ERR_NOOBJ else AF_ERR_INVAL"])
      show "endpoint_from_cap table cap r s = (if obj_type obj = AF_OBJECT_ENDPOINT then AF_ERR_NOOBJ else AF_ERR_INVAL, None)"
        using granted(1) False by (simp add: endpoint_from_cap_def split: option.split)
      show "\<not> may_use table cap r s j" for j using only False by simp
    qed simp
  qed
next
  case (refused rc)
  have "\<not> may_use table cap r s j" for j
    using refused(1) caps.lookup_iff [of table cap r] unfolding may_use_def by (metis prod.inject option.distinct(1))
  with refused show thesis by (intro that(2) [of rc]) (simp_all add: endpoint_from_cap_def)
qed

text \<open>
  (C8) No endpoint without a capability for it. The checked forms do exactly what the plain operation
  does on the endpoint the handle names, when the caller's table holds a live capability for it with
  the right the operation needs (\<open>SIGNAL\<close> to send or call, \<open>WAIT\<close> to receive); a handle that does not
  give that authority returns an error and changes nothing, whatever the endpoints are.
\<close>

theorem ipc_cap_gate:
  "(if \<exists>i. may_use table cap AF_RIGHT_SIGNAL s i
    then \<exists>i. may_use table cap AF_RIGHT_SIGNAL s i \<and> ipc_send_cap table cap msg s = ipc_send (Some i) msg s \<and>
      ipc_call_cap table cap msg g s = ipc_call (Some i) msg g s
    else \<exists>rc. af_status_err rc \<and> ipc_send_cap table cap msg s = Some (Done rc None, s) \<and>
      ipc_call_cap table cap msg g s = Some (CallDone rc None, s)) \<and>
   (if \<exists>i. may_use table cap AF_RIGHT_WAIT s i
    then \<exists>i. may_use table cap AF_RIGHT_WAIT s i \<and> ipc_recv_cap table cap g s = ipc_recv (Some i) g s
    else \<exists>rc. af_status_err rc \<and> ipc_recv_cap table cap g s = Some (Done rc None, s))"
  apply (rule conjI)
  subgoal
    by (cases rule: endpoint_from_cap_cases [where table = table and cap = cap and r = AF_RIGHT_SIGNAL and s = s])
      (auto simp: ipc_send_cap_def ipc_call_cap_def)
  subgoal
    by (cases rule: endpoint_from_cap_cases [where table = table and cap = cap and r = AF_RIGHT_WAIT and s = s])
      (auto simp: ipc_recv_cap_def)
  done

section \<open>A slot changes hands\<close>

text \<open>
  An endpoint pointer outlives its endpoint. A receiver blocked on an endpoint that is destroyed
  and whose slot is given to a new endpoint before the receiver runs does not learn of the
  destruction: it takes the first message sent to the new endpoint, whose id it never held.
\<close>

theorem recv_after_reuse:
  fixes s :: "'a ipc_state_scheme"
  assumes "ipc_inv s" "i < AF_MAX_ENDPOINTS" "ep_used (s_endpoints s ! i)" "ep_refs (s_endpoints s ! i) = 1"
    and "\<forall>j < i. ep_used (s_endpoints s ! j)"
  shows "\<exists>s1 s2. ipc_endpoint_create name (ipc_endpoint_unref (Some i) s) = (Some i, s1) \<and>
    ep_id (s_endpoints s1 ! i) \<noteq> ep_id (s_endpoints s ! i) \<and>
    send_round i m s1 = Some (Done AF_OK None, s2) \<and>
    (\<forall>s3 :: 'a ipc_state_scheme. \<forall>t. sched_inv s3 \<longrightarrow> s_current s3 = Some t \<longrightarrow> i < length (s_endpoints s3) \<longrightarrow>
       s_endpoints s3 ! i = s_endpoints s2 ! i \<longrightarrow>
       (\<exists>s4. recv_resume t i s3 = Some (Done AF_OK (Some m), s4)))"
proof -
  define s0 where "s0 = ipc_endpoint_unref (Some i) s"
  have len: "length (s_endpoints s) = AF_MAX_ENDPOINTS" using assms(1) by (simp add: ipc_inv_def)
  have u: "s_endpoints s0 = (s_endpoints s)[i := (s_endpoints s ! i)\<lparr>ep_refs := 0, ep_waiters := [], ep_senders := [],
       ep_used := False, ep_id := 0\<rparr>]" "s_next_id s0 = s_next_id s"
    using unref_last(1,3) [of i s] assms len by (simp_all add: s0_def)
  have free: "find (\<lambda>j. \<not> ep_used (s_endpoints s0 ! j)) [0..<AF_MAX_ENDPOINTS] = Some i"
    unfolding find_Some_iff using assms(2,5) len u by (intro exI [of _ i]) auto
  obtain s1 where s1: "ipc_endpoint_create name s0 = (Some i, s1)"
    using free by (simp add: ipc_endpoint_create_def Let_def)
  from s1 show ?thesis
  proof (cases rule: ipc_create_cases)
    case (slot k e)
    have at: "s_endpoints s1 ! i = e" "i < length (s_endpoints s1)" using slot len u assms(2) by simp_all
    have "ep_id e \<noteq> ep_id (s_endpoints s ! i)" using ipc_invD(2) [OF assms(1,2)] assms(3) slot(5) u(2) by auto
    moreover obtain s2 where s2: "send_round i m s1 = Some (Done AF_OK None, s2)" "s_endpoints s2 = (s_endpoints s1)[i := ring_put m e]"
      using send_queues [of i s1 m] at slot by auto
    moreover have "\<exists>s4. recv_resume t i s3 = Some (Done AF_OK (Some m), s4)"
      if "sched_inv s3" "s_current s3 = Some t" "i < length (s_endpoints s3)" "s_endpoints s3 ! i = s_endpoints s2 ! i"
      for s3 :: "'a ipc_state_scheme" and t
    proof -
      have "s_endpoints s3 ! i = ring_put m e" using that(4) s2(2) at(2) by simp
      from recv_delivers [OF that(1-3) this slot(4,6-10)]
      show ?thesis by (auto simp: call_resume_recv_def call_after_recv_def split: option.splits prod.splits ipc_outcome.splits)
    qed
    ultimately show ?thesis using s1 at by (auto simp: s0_def [symmetric])
  qed simp
qed

theorem recv_after_reuse_witness:
  "\<exists>s1 s2. ipc_endpoint_create (Some ''b'') (ipc_endpoint_unref (Some 0) demo_ipc) = (Some 0, s1) \<and>
     send_round 0 zero_msg s1 = Some (Done AF_OK None, s2)"
  using recv_after_reuse [OF demo_ipc_table, of 0 "Some ''b''" zero_msg] by (auto simp: demo_ipc_ep demo_ep_ok)

end
