(* ===== verification/Bootinfo.thy ===== *)
theory Bootinfo
  imports Prelude
begin

text \<open>
  The boot handoff (\<open>kernel/core/boot_info.c\<close>, \<open>kernel/include/afriyie/boot_info.h\<close>): the memory
  map and the framebuffer the loader describes, their validation, and the queries the physical
  memory manager asks. The structure comes from outside the kernel, so the enumerations are the
  32-bit numbers the loader wrote.
\<close>

section \<open>The structure\<close>

record af_memory_region =
  mr_base :: u64
  mr_length :: u64
  mr_type :: u32

record af_boot_framebuffer =
  fb_address :: u64
  fb_size :: u64
  fb_width :: u32
  fb_height :: u32
  fb_pitch :: u32
  fb_bpp :: u16
  fb_format :: u32

record af_boot_info =
  bi_magic :: u64
  bi_version :: u32
  bi_size :: u32
  bi_firmware :: u32
  bi_boot_flags :: u32
  bi_kernel_phys_base :: u64
  bi_kernel_phys_size :: u64
  bi_ramdisk_phys_base :: u64
  bi_ramdisk_size :: u64
  bi_framebuffer :: af_boot_framebuffer
  bi_memory_region_count :: u32
  bi_memory_regions :: "af_memory_region list"

abbreviation (input) "AF_BOOT_INFO_MAGIC \<equiv> (0x4146524F20212121 :: u64)"
abbreviation (input) "AF_BOOT_INFO_VERSION \<equiv> (1 :: u32)"
abbreviation (input) "AF_MAX_MEMORY_REGIONS \<equiv> (512 :: nat)"
abbreviation (input) "SIZEOF_BOOT_INFO \<equiv> (12740 :: u32)"
abbreviation (input) "BOOT_PAGE_SIZE \<equiv> (4096 :: u64)"
abbreviation (input) "AF_MEM_USABLE \<equiv> (0 :: u32)"
abbreviation (input) "AF_MEM_BOOTLOADER \<equiv> (5 :: u32)"
abbreviation (input) "AF_BOOT_FLAG_FRAMEBUFFER \<equiv> (1 :: u32)"
abbreviation (input) "AF_BOOT_FLAG_RAMDISK \<equiv> (16 :: u32)"

text \<open>The regions the map says it has, as every loop of the file goes through them.\<close>

definition regions :: "af_boot_info \<Rightarrow> af_memory_region list" where
  "regions bi = map ((!) (bi_memory_regions bi)) [0..<unat (bi_memory_region_count bi)]"

section \<open>Names\<close>

definition k_memory_type_names :: "string list" where
  "k_memory_type_names = [''usable'', ''reserved'', ''acpi-reclaim'', ''acpi-nvs'', ''bad'', ''bootloader'',
     ''kernel'', ''framebuffer'', ''runtime'', ''table'']"

definition af_memory_type_name :: "u32 \<Rightarrow> string" where
  "af_memory_type_name type =
     (if unat type < length k_memory_type_names then k_memory_type_names ! unat type else ''unknown'')"

definition af_firmware_name :: "u32 \<Rightarrow> string" where
  "af_firmware_name firmware =
     (if firmware = 1 then ''UEFI'' else if firmware = 2 then ''U-Boot'' else if firmware = 3 then ''Little Kernel''
      else if firmware = 4 then ''Multiboot'' else ''unknown'')"

definition af_pixel_format_name :: "u32 \<Rightarrow> string" where
  "af_pixel_format_name format =
     (if format = 0 then ''BGRX8888'' else if format = 1 then ''RGBX8888'' else if format = 2 then ''RGB565''
      else if format = 3 then ''indexed'' else ''invalid'')"

section \<open>Validation\<close>

fun check_regions :: "af_memory_region list \<Rightarrow> bool \<Rightarrow> bool option" where
  "check_regions [] has_usable = Some has_usable"
| "check_regions (r # rs) has_usable =
     (if mr_length r = 0 then None
      else if \<not> is_aligned (mr_base r) BOOT_PAGE_SIZE \<or> \<not> is_aligned (mr_length r) BOOT_PAGE_SIZE then None
      else check_regions rs (has_usable \<or> mr_type r = AF_MEM_USABLE))"

definition check_framebuffer :: "af_boot_framebuffer \<Rightarrow> af_status" where
  "check_framebuffer fb =
     (if fb_address fb = 0 \<or> fb_width fb = 0 \<or> fb_height fb = 0 then AF_ERR_BOOT_NOFB
      else if fb_bpp fb = 0 then AF_ERR_BOOT_NOFB
      else let min_pitch = (fb_width fb * ucast (fb_bpp fb)) div 8
        in if fb_pitch fb < min_pitch then AF_ERR_BOOT_NOFB else AF_OK)"

definition af_boot_info_validate :: "af_boot_info option \<Rightarrow> af_status" where
  "af_boot_info_validate bio =
     (case bio of
        None \<Rightarrow> AF_ERR_INVAL
      | Some bi \<Rightarrow>
          if bi_magic bi \<noteq> AF_BOOT_INFO_MAGIC then AF_ERR_BOOT_MAGIC
          else if bi_version bi \<noteq> AF_BOOT_INFO_VERSION then AF_ERR_BOOT_VERSION
          else if bi_size bi < SIZEOF_BOOT_INFO then AF_ERR_BOOT_VERSION
          else if bi_memory_region_count bi = 0 then AF_ERR_BOOT_MEMMAP
          else if AF_MAX_MEMORY_REGIONS < unat (bi_memory_region_count bi) then AF_ERR_BOOT_MEMMAP
          else (case check_regions (regions bi) False of
                  None \<Rightarrow> AF_ERR_BOOT_MEMMAP
                | Some has_usable \<Rightarrow>
                    if \<not> has_usable then AF_ERR_BOOT_MEMMAP
                    else if bi_boot_flags bi AND AF_BOOT_FLAG_FRAMEBUFFER \<noteq> 0
                    then check_framebuffer (bi_framebuffer bi)
                    else AF_OK))"

section \<open>Queries\<close>

definition allocatable :: "af_memory_region \<Rightarrow> bool" where
  "allocatable r \<longleftrightarrow> mr_type r = AF_MEM_USABLE \<or> mr_type r = AF_MEM_BOOTLOADER"

definition af_boot_info_usable_bytes :: "af_boot_info option \<Rightarrow> u64" where
  "af_boot_info_usable_bytes bio =
     (case bio of
        None \<Rightarrow> 0
      | Some bi \<Rightarrow> fold (\<lambda>r total. if allocatable r then total + mr_length r else total) (regions bi) 0)"

definition max_end :: "af_memory_region \<Rightarrow> u64 \<Rightarrow> u64" where
  "max_end r m = (if m < mr_base r + mr_length r then mr_base r + mr_length r else m)"

definition af_boot_info_max_address :: "af_boot_info option \<Rightarrow> u64" where
  "af_boot_info_max_address bio =
     (case bio of None \<Rightarrow> 0 | Some bi \<Rightarrow> fold max_end (regions bi) 0)"

definition af_boot_info_max_usable_address :: "af_boot_info option \<Rightarrow> u64" where
  "af_boot_info_max_usable_address bio =
     (case bio of
        None \<Rightarrow> 0
      | Some bi \<Rightarrow>
          let m = fold (\<lambda>r m. if allocatable r then max_end r m else m) (regions bi) 0
          in if m \<noteq> 0 then m else af_boot_info_max_address bio)"

definition af_boot_info_find_region :: "af_boot_info option \<Rightarrow> u64 \<Rightarrow> af_memory_region option" where
  "af_boot_info_find_region bio addr =
     (case bio of
        None \<Rightarrow> None
      | Some bi \<Rightarrow> find (\<lambda>r. mr_base r \<le> addr \<and> addr < mr_base r + mr_length r) (regions bi))"

end
