(* ===== verification/Pmm.thy ===== *)
theory Pmm
  imports Bootinfo
begin

text \<open>
  The physical memory manager (\<open>kernel/core/pmm.c\<close>): one bit and one reference count per 4 KiB
  frame. A bitmap of length 0 is the null pointer the state starts with. A failed assertion (the
  debug build panics) is \<open>None\<close>. Frame numbers are the 32-bit words of the code where they are
  computed from addresses; a loop over frames runs over their values.
\<close>

section \<open>State\<close>

record pmm_state =
  s_bitmap :: "u8 list"
  s_refcount :: "u8 list"
  s_frame_count :: u32
  s_usable_frames :: u32
  s_free_frames :: u32
  s_search_hint :: u32
  phys_mem :: "u64 \<Rightarrow> u8"

abbreviation (input) "AF_FRAME_SIZE \<equiv> (4096 :: u64)"
abbreviation (input) "AF_FRAME_INVALID \<equiv> (0 :: u64)"
abbreviation (input) "AF_REFCOUNT_MAX \<equiv> (255 :: u8)"
abbreviation (input) "AF_BOOT_INFO_BACKUP_ADDR \<equiv> (0x7000 :: u64)"
abbreviation (input) "AF_MIB \<equiv> (1048576 :: u64)"

section \<open>Bitmap primitives\<close>

definition frame_is_used :: "nat \<Rightarrow> pmm_state \<Rightarrow> bool" where
  "frame_is_used f s \<longleftrightarrow> s_bitmap s ! (f div 8) AND push_bit (f mod 8) 1 \<noteq> 0"

definition frame_mark_used :: "nat \<Rightarrow> pmm_state \<Rightarrow> pmm_state" where
  "frame_mark_used f s = s\<lparr>s_bitmap := (s_bitmap s)[f div 8 := s_bitmap s ! (f div 8) OR push_bit (f mod 8) 1]\<rparr>"

definition frame_mark_free :: "nat \<Rightarrow> pmm_state \<Rightarrow> pmm_state" where
  "frame_mark_free f s = s\<lparr>s_bitmap := (s_bitmap s)[f div 8 := s_bitmap s ! (f div 8) AND NOT (push_bit (f mod 8) 1)]\<rparr>"

definition addr_to_frame :: "u64 \<Rightarrow> u32" where
  "addr_to_frame pa = ucast (drop_bit 12 pa)"

definition frame_to_addr :: "u32 \<Rightarrow> u64" where
  "frame_to_addr f = push_bit 12 (ucast f)"

definition set_refcount :: "nat \<Rightarrow> u8 \<Rightarrow> pmm_state \<Rightarrow> pmm_state" where
  "set_refcount f c s = s\<lparr>s_refcount := (s_refcount s)[f := c]\<rparr>"

section \<open>Ranges\<close>

text \<open>The frames a loop \<open>for (f = first; f < last; f++)\<close> visits, with \<open>last\<close> clamped to the frame count.\<close>

definition frame_range :: "u32 \<Rightarrow> u32 \<Rightarrow> pmm_state \<Rightarrow> nat list" where
  "frame_range first stop s = [unat first ..< unat (if s_frame_count s < stop then s_frame_count s else stop)]"

definition inner_frames :: "u64 \<Rightarrow> u64 \<Rightarrow> pmm_state \<Rightarrow> nat list" where
  "inner_frames base len s =
     frame_range (addr_to_frame (align_up base AF_FRAME_SIZE)) (addr_to_frame (align_down (base + len) AF_FRAME_SIZE)) s"

definition outer_frames :: "u64 \<Rightarrow> u64 \<Rightarrow> pmm_state \<Rightarrow> nat list" where
  "outer_frames base len s =
     frame_range (addr_to_frame (align_down base AF_FRAME_SIZE)) (addr_to_frame (align_up (base + len) AF_FRAME_SIZE)) s"

definition mark_range_free :: "u64 \<Rightarrow> u64 \<Rightarrow> pmm_state \<Rightarrow> pmm_state" where
  "mark_range_free base len s =
     (if len = 0 then s
      else fold (\<lambda>f s. if frame_is_used f s then frame_mark_free f s else s) (inner_frames base len s) s)"

definition reserve_one :: "nat \<Rightarrow> u32 \<times> pmm_state \<Rightarrow> u32 \<times> pmm_state" where
  "reserve_one f = (\<lambda>(before, s).
     if \<not> frame_is_used f s then (before + 1, set_refcount f 0 (frame_mark_used f s)) else (before, s))"

definition pmm_reserve_range :: "u64 \<Rightarrow> u64 \<Rightarrow> pmm_state \<Rightarrow> pmm_state" where
  "pmm_reserve_range base len s =
     (if s_bitmap s = [] \<or> len = 0 then s
      else let (before, s1) = fold reserve_one (outer_frames base len s) (0, s)
        in if 0 < before then s1\<lparr>s_free_frames := s_free_frames s1 - before\<rparr> else s1)"

definition release_one :: "nat \<Rightarrow> pmm_state \<Rightarrow> pmm_state" where
  "release_one f s =
     (if frame_is_used f s \<and> s_refcount s ! f = 0
      then let s1 = frame_mark_free f s in s1\<lparr>s_free_frames := s_free_frames s1 + 1\<rparr> else s)"

definition pmm_release_range :: "u64 \<Rightarrow> u64 \<Rightarrow> pmm_state \<Rightarrow> pmm_state" where
  "pmm_release_range base len s =
     (if s_bitmap s = [] \<or> len = 0 then s else fold release_one (inner_frames base len s) s)"

section \<open>Initialisation\<close>

text \<open>Where the metadata goes: the largest usable region that does not touch the kernel image.\<close>

definition pick_region :: "af_boot_info \<Rightarrow> af_memory_region \<Rightarrow> u64 \<times> u64 \<Rightarrow> u64 \<times> u64" where
  "pick_region bi r = (\<lambda>(region_base, region_size).
     if mr_type r \<noteq> AF_MEM_USABLE then (region_base, region_size)
     else if mr_base r < bi_kernel_phys_base bi + bi_kernel_phys_size bi \<and> bi_kernel_phys_base bi < mr_base r + mr_length r
     then (region_base, region_size)
     else if region_size < mr_length r then (mr_base r, mr_length r) else (region_base, region_size))"

definition count_free :: "nat \<Rightarrow> pmm_state \<Rightarrow> pmm_state" where
  "count_free f s =
     (if \<not> frame_is_used f s
      then s\<lparr>s_free_frames := s_free_frames s + 1, s_usable_frames := s_usable_frames s + 1\<rparr> else s)"

definition bitmap_bytes :: "u32 \<Rightarrow> u32" where
  "bitmap_bytes frames = ((frames + 7) div 8 + 4096 - 1) div 4096 * 4096"

definition metadata_bytes :: "u32 \<Rightarrow> u64" where
  "metadata_bytes frames = ucast (bitmap_bytes frames) + ucast frames"

text \<open>
  \<open>kernel_start\<close> and \<open>image_end\<close> are the linker's \<open>__kernel_start\<close> and \<open>__kernel_end\<close>. The six
  reservations are the numbered steps of the code, in its order.
\<close>

definition pmm_reservations :: "u64 \<Rightarrow> u64 \<Rightarrow> af_boot_info \<Rightarrow> u64 \<Rightarrow> u32 \<Rightarrow> (u64 \<times> u64) list" where
  "pmm_reservations kernel_start image_end bi region_base frames =
     (let reported_end = bi_kernel_phys_base bi + bi_kernel_phys_size bi;
          kernel_end = (if image_end < reported_end then reported_end else image_end)
      in [(0, AF_FRAME_SIZE), (AF_BOOT_INFO_BACKUP_ADDR, ucast SIZEOF_BOOT_INFO)] @
         (if kernel_start < kernel_end then [(kernel_start, kernel_end - kernel_start)] else []) @
         [(region_base, metadata_bytes frames)] @
         (if bi_boot_flags bi AND AF_BOOT_FLAG_FRAMEBUFFER \<noteq> 0
          then [(fb_address (bi_framebuffer bi), fb_size (bi_framebuffer bi))] else []) @
         (if bi_boot_flags bi AND AF_BOOT_FLAG_RAMDISK \<noteq> 0 \<and> 0 < bi_ramdisk_size bi
          then [(bi_ramdisk_phys_base bi, bi_ramdisk_size bi)] else []))"

definition pmm_init :: "u64 \<Rightarrow> u64 \<Rightarrow> af_boot_info option \<Rightarrow> pmm_state \<Rightarrow> af_status \<times> pmm_state" where
  "pmm_init kernel_start image_end bio s =
     (case bio of
        None \<Rightarrow> (AF_ERR_INVAL, s)
      | Some bi \<Rightarrow>
          let highest = af_boot_info_max_usable_address (Some bi) in
          if highest = 0 then (AF_ERR_BOOT_MEMMAP, s)
          else let frames = addr_to_frame (align_down highest AF_FRAME_SIZE);
                   s1 = s\<lparr>s_frame_count := frames\<rparr>
            in if frames < 1024 then (AF_ERR_BOOT_MEMMAP, s1)
               else let (region_base, region_size) = fold (pick_region bi) (regions bi) (0, 0)
                 in if region_base = 0 \<or> region_size < metadata_bytes frames + AF_MIB then (AF_ERR_NOMEM, s1)
                    else let s2 = s1\<lparr>s_bitmap := replicate (unat (bitmap_bytes frames)) 0xFF,
                                s_refcount := replicate (unat frames) 0,
                                s_free_frames := 0, s_usable_frames := 0, s_search_hint := 0\<rparr>;
                             s3 = fold (\<lambda>r s. if allocatable r then mark_range_free (mr_base r) (mr_length r) s else s)
                                    (regions bi) s2;
                             s4 = fold count_free [0..<unat frames] s3;
                             s5 = fold (\<lambda>(base, len). pmm_reserve_range base len)
                                    (pmm_reservations kernel_start image_end bi region_base frames) s4
                      in (AF_OK, s5\<lparr>s_search_hint := 0\<rparr>))"

section \<open>Allocation\<close>

definition take_frame :: "nat \<Rightarrow> pmm_state \<Rightarrow> pmm_state" where
  "take_frame f s = set_refcount f 1 (frame_mark_used f s)"

text \<open>The scan from the hint: the first index \<open>i\<close> whose frame \<open>(hint + i) % count\<close> is free.\<close>

definition hinted :: "pmm_state \<Rightarrow> nat \<Rightarrow> u32" where
  "hinted s i = (s_search_hint s + of_nat i) mod s_frame_count s"

text \<open>The scan for a run: \<open>find_run\<close> goes over the frames still to be looked at.\<close>

fun find_run :: "u32 \<Rightarrow> nat list \<Rightarrow> nat \<Rightarrow> u32 \<Rightarrow> pmm_state \<Rightarrow> nat option" where
  "find_run count [] run_start run_length s = None"
| "find_run count (f # fs) run_start run_length s =
     (if frame_is_used f s then find_run count fs run_start 0 s
      else let run_start1 = (if run_length = 0 then f else run_start);
               run_length1 = run_length + 1
        in if run_length1 = count then Some run_start1 else find_run count fs run_start1 run_length1 s)"

definition pmm_alloc_frames :: "u32 \<Rightarrow> pmm_state \<Rightarrow> u64 \<times> pmm_state" where
  "pmm_alloc_frames count s =
     (if s_bitmap s = [] \<or> count = 0 then (AF_FRAME_INVALID, s)
      else if s_free_frames s < count then (AF_FRAME_INVALID, s)
      else if count = 1 then
        (case find (\<lambda>i. \<not> frame_is_used (unat (hinted s i)) s) [0..<unat (s_frame_count s)] of
           None \<Rightarrow> (AF_FRAME_INVALID, s)
         | Some i \<Rightarrow>
             let f = hinted s i; s1 = take_frame (unat f) s
             in (frame_to_addr f, s1\<lparr>s_free_frames := s_free_frames s1 - 1, s_search_hint := (f + 1) mod s_frame_count s1\<rparr>))
      else
        (case find_run count [0..<unat (s_frame_count s)] 0 0 s of
           None \<Rightarrow> (AF_FRAME_INVALID, s)
         | Some start \<Rightarrow>
             let s1 = fold take_frame [start..<start + unat count] s
             in (frame_to_addr (of_nat start), s1\<lparr>s_free_frames := s_free_frames s1 - count\<rparr>)))"

definition pmm_alloc_frame :: "pmm_state \<Rightarrow> u64 \<times> pmm_state" where
  "pmm_alloc_frame s = pmm_alloc_frames 1 s"

definition pmm_alloc_frame_z :: "pmm_state \<Rightarrow> u64 \<times> pmm_state" where
  "pmm_alloc_frame_z s =
     (let (frame, s1) = pmm_alloc_frame s
      in if frame \<noteq> AF_FRAME_INVALID
         then (frame, s1\<lparr>phys_mem := \<lambda>a. if a - frame < AF_FRAME_SIZE then 0 else phys_mem s1 a\<rparr>)
         else (frame, s1))"

section \<open>Freeing and reference counts\<close>

definition frame_valid :: "u64 \<Rightarrow> pmm_state \<Rightarrow> bool" where
  "frame_valid frame s \<longleftrightarrow>
     \<not> (s_bitmap s = [] \<or> frame = AF_FRAME_INVALID) \<and> is_aligned frame AF_FRAME_SIZE \<and> addr_to_frame frame < s_frame_count s"

definition pmm_free_frame :: "u64 \<Rightarrow> pmm_state \<Rightarrow> pmm_state option" where
  "pmm_free_frame frame s =
     (if \<not> frame_valid frame s then Some s
      else let f = unat (addr_to_frame frame) in
        if \<not> frame_is_used f s then None
        else if 1 < s_refcount s ! f then None
        else let s1 = set_refcount f 0 (frame_mark_free f s);
                 s2 = s1\<lparr>s_free_frames := s_free_frames s1 + 1\<rparr>
          in Some (if addr_to_frame frame < s_search_hint s2 then s2\<lparr>s_search_hint := addr_to_frame frame\<rparr> else s2))"

fun free_each :: "u64 list \<Rightarrow> pmm_state \<Rightarrow> pmm_state option" where
  "free_each [] s = Some s"
| "free_each (a # as) s = (case pmm_free_frame a s of None \<Rightarrow> None | Some s1 \<Rightarrow> free_each as s1)"

definition pmm_free_frames :: "u64 \<Rightarrow> u32 \<Rightarrow> pmm_state \<Rightarrow> pmm_state option" where
  "pmm_free_frames base count s = free_each (map (\<lambda>i. base + of_nat i * AF_FRAME_SIZE) [0..<unat count]) s"

definition pmm_frame_ref :: "u64 \<Rightarrow> pmm_state \<Rightarrow> pmm_state" where
  "pmm_frame_ref frame s =
     (if \<not> frame_valid frame s then s
      else let f = unat (addr_to_frame frame)
        in if s_refcount s ! f = AF_REFCOUNT_MAX then s else set_refcount f (s_refcount s ! f + 1) s)"

definition pmm_frame_unref :: "u64 \<Rightarrow> pmm_state \<Rightarrow> pmm_state" where
  "pmm_frame_unref frame s =
     (if \<not> frame_valid frame s then s
      else let f = unat (addr_to_frame frame) in
        if s_refcount s ! f = 0 then s
        else let s1 = set_refcount f (s_refcount s ! f - 1) s
          in if s_refcount s1 ! f = 0
             then let s2 = frame_mark_free f s1 in s2\<lparr>s_free_frames := s_free_frames s2 + 1\<rparr> else s1)"

definition pmm_frame_refcount :: "u64 \<Rightarrow> pmm_state \<Rightarrow> u32" where
  "pmm_frame_refcount frame s =
     (if \<not> frame_valid frame s then 0 else ucast (s_refcount s ! unat (addr_to_frame frame)))"

section \<open>Queries\<close>

definition pmm_max_address :: "pmm_state \<Rightarrow> u64" where
  "pmm_max_address s = frame_to_addr (s_frame_count s)"

record af_pmm_stats =
  st_total_bytes :: u64
  st_usable_bytes :: u64
  st_free_bytes :: u64
  st_used_bytes :: u64
  st_reserved_bytes :: u64
  st_total_frames :: u32
  st_free_frames :: u32
  st_used_frames :: u32
  st_largest_free_run :: u32
  st_bitmap_bytes :: u32
  st_refcount_bytes :: u32

definition longest_run :: "nat list \<Rightarrow> pmm_state \<Rightarrow> u32" where
  "longest_run fs s = fst (fold (\<lambda>f (longest, cur).
     if frame_is_used f s then (longest, 0)
     else (if longest < cur + 1 then cur + 1 else longest, cur + 1)) fs (0, 0))"

definition pmm_stats :: "pmm_state \<Rightarrow> af_pmm_stats" where
  "pmm_stats s = \<lparr>
     st_total_bytes = ucast (s_frame_count s) * AF_FRAME_SIZE,
     st_usable_bytes = ucast (s_usable_frames s) * AF_FRAME_SIZE,
     st_free_bytes = ucast (s_free_frames s) * AF_FRAME_SIZE,
     st_used_bytes = ucast (s_frame_count s - s_free_frames s) * AF_FRAME_SIZE,
     st_reserved_bytes = ucast (s_frame_count s) * AF_FRAME_SIZE - ucast (s_usable_frames s) * AF_FRAME_SIZE,
     st_total_frames = s_frame_count s,
     st_free_frames = s_free_frames s,
     st_used_frames = s_frame_count s - s_free_frames s,
     st_largest_free_run = longest_run [0..<unat (s_frame_count s)] s,
     st_bitmap_bytes = (s_frame_count s + 7) div 8,
     st_refcount_bytes = s_frame_count s\<rparr>"

section \<open>The bitmap as a set\<close>

lemma and_single: "(x :: 'a::len word) AND push_bit k 1 = (if bit x k then push_bit k 1 else 0)"
  by (rule bit_word_eqI) (auto simp: bit_simps)

lemma used_bit: "frame_is_used f s \<longleftrightarrow> bit (s_bitmap s ! (f div 8)) (f mod 8)"
proof -
  have "f mod 8 < 8" by simp
  then have "bit (push_bit (f mod 8) 1 :: u8) (f mod 8)" by (simp add: bit_simps)
  then have "push_bit (f mod 8) (1 :: u8) \<noteq> 0" by (metis bit_0_eq bot_apply bot_bool_def)
  then show ?thesis unfolding frame_is_used_def and_single by simp
qed

lemma same_frame: "g div 8 = f div 8 \<Longrightarrow> g mod 8 = f mod 8 \<longleftrightarrow> g = (f :: nat)"
  by (metis div_mult_mod_eq)

lemma mark_used_iff:
  assumes "f < 8 * length (s_bitmap s)"
  shows "frame_is_used g (frame_mark_used f s) \<longleftrightarrow> g = f \<or> frame_is_used g s"
proof (cases "g div 8 = f div 8")
  case True
  have l: "f div 8 < length (s_bitmap s)" using assms by linarith
  with True same_frame [OF True] show ?thesis by (auto simp: used_bit frame_mark_used_def bit_simps)
next
  case False
  then have "g \<noteq> f" by auto
  with False show ?thesis by (simp add: used_bit frame_mark_used_def)
qed

lemma mark_free_iff:
  assumes "f < 8 * length (s_bitmap s)"
  shows "frame_is_used g (frame_mark_free f s) \<longleftrightarrow> g \<noteq> f \<and> frame_is_used g s"
proof (cases "g div 8 = f div 8")
  case True
  have l: "f div 8 < length (s_bitmap s)" using assms by linarith
  with True same_frame [OF True] show ?thesis by (auto simp: used_bit frame_mark_free_def bit_simps)
next
  case False
  then have "g \<noteq> f" by auto
  with False show ?thesis by (simp add: used_bit frame_mark_free_def)
qed

lemma mark_frame [simp]:
  "length (s_bitmap (frame_mark_used f s)) = length (s_bitmap s)" "length (s_bitmap (frame_mark_free f s)) = length (s_bitmap s)"
  "s_bitmap (frame_mark_used f s) = [] \<longleftrightarrow> s_bitmap s = []" "s_bitmap (frame_mark_free f s) = [] \<longleftrightarrow> s_bitmap s = []"
  "s_refcount (frame_mark_used f s) = s_refcount s" "s_refcount (frame_mark_free f s) = s_refcount s"
  "s_frame_count (frame_mark_used f s) = s_frame_count s" "s_frame_count (frame_mark_free f s) = s_frame_count s"
  "s_free_frames (frame_mark_used f s) = s_free_frames s" "s_free_frames (frame_mark_free f s) = s_free_frames s"
  "s_search_hint (frame_mark_used f s) = s_search_hint s" "s_search_hint (frame_mark_free f s) = s_search_hint s"
  "s_usable_frames (frame_mark_used f s) = s_usable_frames s" "s_usable_frames (frame_mark_free f s) = s_usable_frames s"
  "phys_mem (frame_mark_used f s) = phys_mem s" "phys_mem (frame_mark_free f s) = phys_mem s"
  by (simp_all add: frame_mark_used_def frame_mark_free_def)

lemma set_refcount_frame [simp]:
  "s_bitmap (set_refcount f c s) = s_bitmap s" "s_frame_count (set_refcount f c s) = s_frame_count s"
  "s_free_frames (set_refcount f c s) = s_free_frames s" "s_search_hint (set_refcount f c s) = s_search_hint s"
  "s_refcount (set_refcount f c s) = (s_refcount s)[f := c]" "frame_is_used g (set_refcount f c s) = frame_is_used g s"
  "s_usable_frames (set_refcount f c s) = s_usable_frames s" "phys_mem (set_refcount f c s) = phys_mem s"
  by (simp_all add: set_refcount_def frame_is_used_def)

lemma used_frame [simp]:
  "frame_is_used g (s\<lparr>s_free_frames := n\<rparr>) = frame_is_used g s" "frame_is_used g (s\<lparr>s_search_hint := n\<rparr>) = frame_is_used g s"
  "frame_is_used g (s\<lparr>s_usable_frames := n\<rparr>) = frame_is_used g s"
  "frame_is_used g (s\<lparr>phys_mem := m\<rparr>) = frame_is_used g s" "frame_is_used g (s\<lparr>s_refcount := r\<rparr>) = frame_is_used g s"
  by (simp_all add: frame_is_used_def)

definition free_set :: "pmm_state \<Rightarrow> nat set" where
  "free_set s = {f. f < unat (s_frame_count s) \<and> \<not> frame_is_used f s}"

text \<open>The representation: room for a bit and a count per frame, and at most $2^{31}$ frames (8 TiB).\<close>

definition pmm_rep :: "pmm_state \<Rightarrow> bool" where
  "pmm_rep s \<longleftrightarrow> s_bitmap s \<noteq> [] \<and> unat (s_frame_count s) \<le> 8 * length (s_bitmap s) \<and>
     length (s_refcount s) = unat (s_frame_count s) \<and> 0 < s_frame_count s \<and> unat (s_frame_count s) \<le> 2 ^ 31"

definition pmm_counts :: "pmm_state \<Rightarrow> bool" where
  "pmm_counts s \<longleftrightarrow> pmm_rep s \<and> unat (s_free_frames s) = card (free_set s) \<and>
     s_search_hint s < s_frame_count s \<and> (\<forall>f \<in> free_set s. s_refcount s ! f = 0)"

text \<open>Frame 0 is never free: its address is how the allocator says that it failed.\<close>

definition pmm_inv :: "pmm_state \<Rightarrow> bool" where
  "pmm_inv s \<longleftrightarrow> pmm_counts s \<and> 0 \<notin> free_set s"

lemma finite_free_set [simp]: "finite (free_set s)"
  by (simp add: free_set_def)

lemma free_set_iff: "f \<in> free_set s \<longleftrightarrow> f < unat (s_frame_count s) \<and> \<not> frame_is_used f s"
  by (simp add: free_set_def)

lemma card_free_set: "card (free_set s) \<le> unat (s_frame_count s)"
proof -
  have "free_set s \<subseteq> {..<unat (s_frame_count s)}" by (auto simp: free_set_def)
  then show ?thesis using card_mono [of "{..<unat (s_frame_count s)}" "free_set s"] by simp
qed

lemma pmm_rep_frames [simp]:
  "pmm_rep (frame_mark_used f s) = pmm_rep s" "pmm_rep (frame_mark_free f s) = pmm_rep s" "pmm_rep (set_refcount f c s) = pmm_rep s"
  "pmm_rep (s\<lparr>s_free_frames := n\<rparr>) = pmm_rep s" "pmm_rep (s\<lparr>s_search_hint := h\<rparr>) = pmm_rep s" "pmm_rep (s\<lparr>phys_mem := m\<rparr>) = pmm_rep s"
  "pmm_rep (s\<lparr>s_usable_frames := n\<rparr>) = pmm_rep s"
  by (simp_all add: pmm_rep_def)

lemma free_set_frames [simp]:
  "free_set (set_refcount f c s) = free_set s" "free_set (s\<lparr>s_free_frames := n\<rparr>) = free_set s"
  "free_set (s\<lparr>s_search_hint := h\<rparr>) = free_set s" "free_set (s\<lparr>phys_mem := m\<rparr>) = free_set s"
  "free_set (s\<lparr>s_usable_frames := n\<rparr>) = free_set s"
  by (simp_all add: free_set_def)

lemma free_set_mark_used: "pmm_rep s \<Longrightarrow> f < unat (s_frame_count s) \<Longrightarrow> free_set (frame_mark_used f s) = free_set s - {f}"
  using mark_used_iff [of f s] by (auto simp: free_set_def pmm_rep_def)

lemma free_set_mark_free: "pmm_rep s \<Longrightarrow> f < unat (s_frame_count s) \<Longrightarrow> free_set (frame_mark_free f s) = insert f (free_set s)"
  using mark_free_iff [of f s] by (auto simp: free_set_def pmm_rep_def)

section \<open>Addresses\<close>

lemma unat_frame_to_addr: "unat (frame_to_addr f) = unat f * 4096"
proof -
  have "unat f < 2 ^ 32" using unsigned_less [of f] by simp
  then have "unat f * 4096 < 2 ^ 64" by simp
  then show ?thesis
    by (simp add: frame_to_addr_def unsigned_push_bit_eq unsigned_ucast_eq push_bit_nat_def take_bit_nat_eq_self)
qed

lemma unat_addr_to_frame: "unat (addr_to_frame a) = unat a div 4096 mod 2 ^ 32"
  using unat_bound [of a]
  by (simp add: addr_to_frame_def unsigned_ucast_eq unsigned_drop_bit_eq drop_bit_nat_def take_bit_eq_mod)

lemma addr_frame [simp]: "addr_to_frame (frame_to_addr f) = f"
proof -
  have "unat f < 2 ^ 32" using unsigned_less [of f] by simp
  then show ?thesis unfolding word_unat_eq_iff by (simp add: unat_addr_to_frame unat_frame_to_addr)
qed

lemma frame_to_addr_0 [simp]: "frame_to_addr f = 0 \<longleftrightarrow> f = 0"
  using unat_frame_to_addr [of f] by (metis mult_eq_0_iff unat_eq_0 zero_neq_numeral)

lemma mask12: "(4095 :: u64) = mask 12"
  by (simp add: mask_eq_exp_minus_1)

lemma aligned_iff: "is_aligned a AF_FRAME_SIZE \<longleftrightarrow> unat a mod 4096 = 0"
  by (simp add: is_aligned_def mask12 take_bit_eq_mask [symmetric] word_unat_eq_iff unsigned_take_bit_eq take_bit_nat_def)

lemma unat_align_down: "unat (align_down a AF_FRAME_SIZE) = unat a div 4096 * 4096"
proof -
  have "align_down a AF_FRAME_SIZE = push_bit 12 (drop_bit 12 a)"
    unfolding align_down_def by (rule bit_word_eqI) (auto simp: mask12 bit_simps)
  moreover have "unat a div 4096 * 4096 < 2 ^ 64"
    using unat_bound [of a] div_times_less_eq_dividend [of "unat a" 4096] by (simp add: le_less_trans)
  ultimately show ?thesis
    by (simp add: unsigned_push_bit_eq unsigned_drop_bit_eq drop_bit_nat_def push_bit_nat_def take_bit_nat_eq_self)
qed

lemma unat_align_up:
  assumes "unat a + 4096 \<le> 2 ^ 64"
  shows "unat (align_up a AF_FRAME_SIZE) = (unat a + 4095) div 4096 * 4096"
proof -
  have "unat (a + 4095) = unat a + 4095" using assms by (simp add: unat_word_ariths)
  moreover have "align_up a AF_FRAME_SIZE = align_down (a + 4095) AF_FRAME_SIZE" by (simp add: align_up_def align_down_def)
  ultimately show ?thesis by (simp only: unat_align_down)
qed

lemma frame_valid_iff: "pmm_rep s \<Longrightarrow> frame_valid a s \<longleftrightarrow>
    a \<noteq> 0 \<and> unat a mod 4096 = 0 \<and> unat a div 4096 mod 2 ^ 32 < unat (s_frame_count s)"
  by (auto simp: frame_valid_def pmm_rep_def aligned_iff word_less_nat_alt unat_addr_to_frame)

lemma frame_valid_addr: "pmm_rep s \<Longrightarrow> frame_valid (frame_to_addr f) s \<longleftrightarrow> f \<noteq> 0 \<and> f < s_frame_count s"
  by (auto simp: frame_valid_def pmm_rep_def aligned_iff unat_frame_to_addr)

section \<open>Taking frames\<close>

lemma take_frame_simps [simp]:
  "s_frame_count (take_frame f s) = s_frame_count s" "s_free_frames (take_frame f s) = s_free_frames s"
  "s_search_hint (take_frame f s) = s_search_hint s" "s_refcount (take_frame f s) = (s_refcount s)[f := 1]"
  "pmm_rep (take_frame f s) = pmm_rep s" "s_usable_frames (take_frame f s) = s_usable_frames s"
  "phys_mem (take_frame f s) = phys_mem s" "s_bitmap (take_frame f s) = [] \<longleftrightarrow> s_bitmap s = []"
  by (simp_all add: take_frame_def)

lemma free_set_take: "pmm_rep s \<Longrightarrow> f < unat (s_frame_count s) \<Longrightarrow> free_set (take_frame f s) = free_set s - {f}"
  by (simp add: take_frame_def free_set_mark_used)

lemma fold_take:
  assumes "pmm_rep s" "set fs \<subseteq> {..<unat (s_frame_count s)}"
  shows "pmm_rep (fold take_frame fs s) \<and> s_frame_count (fold take_frame fs s) = s_frame_count s \<and>
    s_free_frames (fold take_frame fs s) = s_free_frames s \<and> s_search_hint (fold take_frame fs s) = s_search_hint s \<and>
    s_usable_frames (fold take_frame fs s) = s_usable_frames s \<and> phys_mem (fold take_frame fs s) = phys_mem s \<and>
    free_set (fold take_frame fs s) = free_set s - set fs \<and>
    (\<forall>g < unat (s_frame_count s). s_refcount (fold take_frame fs s) ! g = (if g \<in> set fs then 1 else s_refcount s ! g))"
  using assms
proof (induction fs arbitrary: s)
  case (Cons f fs)
  define s1 where "s1 = take_frame f s"
  have f: "f < unat (s_frame_count s)" using Cons.prems(2) by simp
  have s1: "pmm_rep s1" "s_frame_count s1 = s_frame_count s" "free_set s1 = free_set s - {f}"
    "s_refcount s1 = (s_refcount s)[f := 1]"
    using Cons.prems(1) f by (simp_all add: s1_def free_set_take)
  have len: "length (s_refcount s) = unat (s_frame_count s)" using Cons.prems(1) by (simp add: pmm_rep_def)
  have "set fs \<subseteq> {..<unat (s_frame_count s1)}" using Cons.prems(2) s1(2) by simp
  from Cons.IH [OF s1(1) this] s1 len show ?case
    by (auto simp: s1_def nth_update_if)
qed simp_all

section \<open>The searches\<close>

text \<open>\<open>find_run\<close> finds the lowest run that is long enough, and finds one whenever there is one.\<close>

definition run_at :: "pmm_state \<Rightarrow> nat \<Rightarrow> nat \<Rightarrow> bool" where
  "run_at s n f \<longleftrightarrow> {f..<f + n} \<subseteq> free_set s"

lemma find_run_spec:
  assumes "k \<le> m" "m = unat (s_frame_count s)" "unat len < unat count" "m \<le> 2 ^ 31" "0 < unat count"
    and "unat len \<le> k" "\<forall>g \<in> {k - unat len..<k}. g \<in> free_set s" "len \<noteq> 0 \<Longrightarrow> start = k - unat len"
    and "\<forall>f. f + unat count \<le> k \<longrightarrow> \<not> run_at s (unat count) f"
    and "unat len < k \<Longrightarrow> k - unat len - 1 \<notin> free_set s"
  shows "case find_run count [k..<m] start len s of
      None \<Rightarrow> \<forall>f. \<not> run_at s (unat count) f
    | Some f \<Rightarrow> run_at s (unat count) f \<and> (\<forall>g < f. \<not> run_at s (unat count) g)"
  using assms
proof (induction "m - k" arbitrary: k start len)
  case 0
  then have km: "k = m" by simp
  have "\<not> run_at s (unat count) f" for f
  proof
    assume r: "run_at s (unat count) f"
    have "f + unat count - 1 \<in> {f..<f + unat count}" using 0 by auto
    with r have "f + unat count - 1 \<in> free_set s" unfolding run_at_def by blast
    then have "f + unat count \<le> m" using 0 by (auto simp: free_set_iff)
    with r 0 km show False by blast
  qed
  with km show ?case by simp
next
  case (Suc d)
  then have km: "k < m" by simp
  then have up: "[k..<m] = k # [Suc k..<m]" by (rule upt_conv_Cons)
  show ?case
  proof (cases "frame_is_used k s")
    case True
    then have nk: "k \<notin> free_set s" by (simp add: free_set_iff)
    have "\<not> run_at s (unat count) f" if "f + unat count \<le> Suc k" for f
    proof (cases "f + unat count \<le> k")
      case False
      with that have "k \<in> {f..<f + unat count}" using Suc.prems(5) by auto
      with nk show ?thesis by (auto simp: run_at_def)
    qed (use Suc.prems(9) in blast)
    then have "case find_run count [Suc k..<m] start 0 s of
          None \<Rightarrow> \<forall>f. \<not> run_at s (unat count) f
        | Some f \<Rightarrow> run_at s (unat count) f \<and> (\<forall>g < f. \<not> run_at s (unat count) g)"
      using Suc.prems(2,4,5) Suc.hyps(2) km nk by (intro Suc.hyps(1)) simp_all
    with True up show ?thesis by simp
  next
    case False
    then have ik: "k \<in> free_set s" using km Suc.prems(2) by (simp add: free_set_iff)
    have "unat len + 1 \<le> 2 ^ 31" using Suc.prems(6) km Suc.prems(4) by simp
    then have l1: "unat (len + 1) = Suc (unat len)" by (intro unat_Suc_word) simp
    define start1 where "start1 = (if len = 0 then k else start)"
    have st: "start1 = k - unat len" using Suc.prems(8) by (simp add: start1_def)
    have ball: "\<forall>g \<in> {k - unat len..<Suc k}. g \<in> free_set s" using Suc.prems(7) ik by (auto simp: less_Suc_eq)
    show ?thesis
    proof (cases "len + 1 = count")
      case True
      then have c: "unat count = Suc (unat len)" using l1 by simp
      have "run_at s (unat count) start1" using ball Suc.prems(6) by (auto simp: run_at_def st c)
      moreover have "\<not> run_at s (unat count) g" if "g < start1" for g
        using Suc.prems(9) that Suc.prems(6) by (simp add: st c)
      ultimately show ?thesis using False up True by (simp add: start1_def Let_def)
    next
      case no: False
      then have c: "Suc (unat len) < unat count" using Suc.prems(3) l1 by (metis Suc_lessI word_unat_eq_iff)
      have "\<not> run_at s (unat count) f" if "f + unat count \<le> Suc k" for f
      proof (cases "f + unat count \<le> k")
        case n: False
        with that have fk: "f + unat count = Suc k" by simp
        with c have "unat len < k" "f \<le> k - unat len - 1" by simp_all
        with Suc.prems(10) fk show ?thesis by (auto simp: run_at_def subset_iff)
      qed (use Suc.prems(9) in blast)
      then have "case find_run count [Suc k..<m] start1 (len + 1) s of
          None \<Rightarrow> \<forall>f. \<not> run_at s (unat count) f
        | Some f \<Rightarrow> run_at s (unat count) f \<and> (\<forall>g < f. \<not> run_at s (unat count) g)"
        using Suc.prems Suc.hyps(2) km c l1 st ball
        by (intro Suc.hyps(1)) simp_all
      with False up no show ?thesis by (simp add: start1_def Let_def)
    qed
  qed
qed

lemma find_run_ok:
  assumes "pmm_rep s" "0 < count"
  shows "case find_run count [0..<unat (s_frame_count s)] 0 0 s of
      None \<Rightarrow> \<forall>f. \<not> run_at s (unat count) f
    | Some f \<Rightarrow> run_at s (unat count) f \<and> (\<forall>g < f. \<not> run_at s (unat count) g)"
  using assms by (intro find_run_spec) (simp_all add: pmm_rep_def word_less_nat_alt)

text \<open>The scan from the hint meets every frame once around.\<close>

lemma unat_hinted:
  assumes "pmm_rep s" "s_search_hint s < s_frame_count s" "i < unat (s_frame_count s)"
  shows "unat (hinted s i) = (unat (s_search_hint s) + i) mod unat (s_frame_count s)"
proof -
  have "unat (s_search_hint s) < 2 ^ 31" "i < 2 ^ 31" using assms by (auto simp: pmm_rep_def word_less_nat_alt)
  then have "unat (s_search_hint s + of_nat i) = unat (s_search_hint s) + i"
    by (simp add: unat_word_ariths unat_of_nat)
  then show ?thesis by (simp add: hinted_def unat_mod_distrib)
qed

lemma hinted_less: "pmm_rep s \<Longrightarrow> hinted s i < s_frame_count s"
  by (simp add: hinted_def pmm_rep_def word_mod_less_divisor)

lemma hinted_covers:
  assumes "pmm_rep s" "s_search_hint s < s_frame_count s" "f < unat (s_frame_count s)"
  shows "\<exists>i < unat (s_frame_count s). unat (hinted s i) = f"
proof -
  define n h where "n = unat (s_frame_count s)" and "h = unat (s_search_hint s)"
  have hn: "h < n" "f < n" using assms by (simp_all add: n_def h_def word_less_nat_alt)
  define i where "i = (if h \<le> f then f - h else f + n - h)"
  have "i < n" "(h + i) mod n = f" using hn by (auto simp: i_def)
  then show ?thesis using unat_hinted [OF assms(1,2)] by (auto simp: n_def h_def)
qed

section \<open>Allocation\<close>

lemma pmm_invD:
  assumes "pmm_inv s"
  shows "pmm_rep s" "unat (s_free_frames s) = card (free_set s)" "0 \<notin> free_set s" "s_search_hint s < s_frame_count s"
    "f \<in> free_set s \<Longrightarrow> s_refcount s ! f = 0"
  using assms by (simp_all add: pmm_inv_def pmm_counts_def)

lemma pmm_repD:
  assumes "pmm_rep s"
  shows "s_bitmap s \<noteq> []" "length (s_refcount s) = unat (s_frame_count s)" "0 < unat (s_frame_count s)" "unat (s_frame_count s) \<le> 2 ^ 31"
  using assms by (auto simp: pmm_rep_def word_less_nat_alt)

lemma run_card: "run_at s n f \<Longrightarrow> n \<le> card (free_set s)"
  unfolding run_at_def by (metis card_atLeastLessThan card_mono diff_add_inverse finite_free_set)

lemma run_less: "run_at s n f \<Longrightarrow> 0 < n \<Longrightarrow> f < unat (s_frame_count s) \<and> f + n \<le> unat (s_frame_count s)"
proof -
  assume r: "run_at s n f" "0 < n"
  then have "f + n - 1 \<in> {f..<f + n}" by auto
  with r have "f + n - 1 \<in> free_set s" unfolding run_at_def by blast
  then show ?thesis using r(2) by (auto simp: free_set_iff)
qed

lemma take_run:
  assumes inv: "pmm_inv s" and run: "run_at s (unat count) f" and c: "0 < count"
    and s': "s' = (fold take_frame [f..<f + unat count] s)\<lparr>s_free_frames := s_free_frames s - count, s_search_hint := h\<rparr>"
    and h: "h < s_frame_count s"
  shows "pmm_inv s' \<and> free_set s' = free_set s - {f..<f + unat count} \<and> s_frame_count s' = s_frame_count s \<and> f \<noteq> 0 \<and>
    (\<forall>g < unat (s_frame_count s). s_refcount s' ! g = (if f \<le> g \<and> g < f + unat count then 1 else s_refcount s ! g))"
proof -
  note i = pmm_invD [OF inv]
  have "0 < unat count" using c by (simp add: word_less_nat_alt)
  note rl = run_less [OF run this]
  then have sub: "set [f..<f + unat count] \<subseteq> {..<unat (s_frame_count s)}" by auto
  note ft = fold_take [OF i(1) sub]
  have card: "card (free_set s - {f..<f + unat count}) = card (free_set s) - unat count"
    using run by (simp add: run_at_def card_Diff_subset)
  have "unat (s_free_frames s - count) = unat (s_free_frames s) - unat count"
    using run_card [OF run] i(2) by (intro unat_sub) (simp add: word_le_nat_alt)
  moreover have "f \<noteq> 0" using run i(3) \<open>0 < unat count\<close> unfolding run_at_def by (metis atLeastLessThan_iff add_0 le0 subsetD)
  moreover have "s_refcount s' ! g = 0" if "g \<in> free_set s'" for g
  proof -
    have g: "g \<in> free_set s" "g \<notin> {f..<f + unat count}" "g < unat (s_frame_count s)"
      using that ft s' by (auto simp: free_set_iff)
    with i(5) ft s' show ?thesis by simp
  qed
  ultimately show ?thesis using ft i h card s' by (auto simp: pmm_inv_def pmm_counts_def)
qed

lemma alloc_cases:
  assumes inv: "pmm_inv s" and c: "0 < count"
  obtains (none) "pmm_alloc_frames count s = (0, s)" "\<And>f. \<not> run_at s (unat count) f"
  | (got) f s' where "pmm_alloc_frames count s = (frame_to_addr (of_nat f), s')" "run_at s (unat count) f"
      "pmm_inv s'" "free_set s' = free_set s - {f..<f + unat count}" "s_frame_count s' = s_frame_count s" "f \<noteq> 0"
      "\<And>g. g < unat (s_frame_count s) \<Longrightarrow> s_refcount s' ! g = (if f \<le> g \<and> g < f + unat count then 1 else s_refcount s ! g)"
      "count \<noteq> 1 \<Longrightarrow> \<forall>g < f. \<not> run_at s (unat count) g"
proof -
  note i = pmm_invD [OF inv]
  note r = pmm_repD [OF i(1)]
  have nz: "count \<noteq> 0" using c by auto
  consider (few) "s_free_frames s < count" | (one) "\<not> s_free_frames s < count" "count = 1" | (many) "\<not> s_free_frames s < count" "count \<noteq> 1" by blast
  then show thesis
  proof cases
    case few
    then have "\<not> run_at s (unat count) f" for f using run_card [of s "unat count" f] i(2) by (auto simp: word_less_nat_alt)
    with few show thesis by (intro none) (simp_all add: pmm_alloc_frames_def)
  next
    case one
    then have "card (free_set s) \<noteq> 0" using i(2) by (auto simp: word_less_nat_alt)
    then obtain f0 where "f0 \<in> free_set s" by (metis card.empty ex_in_conv)
    then obtain j where j: "j < unat (s_frame_count s)" "\<not> frame_is_used (unat (hinted s j)) s"
      using hinted_covers [OF i(1,4), of f0] by (auto simp: free_set_iff)
    have "find (\<lambda>i. \<not> frame_is_used (unat (hinted s i)) s) [0..<unat (s_frame_count s)] \<noteq> None"
      using j by (auto simp: find_None_iff)
    then obtain k where k: "find (\<lambda>i. \<not> frame_is_used (unat (hinted s i)) s) [0..<unat (s_frame_count s)] = Some k" by blast
    define f where "f = unat (hinted s k)"
    have free: "f < unat (s_frame_count s)" "\<not> frame_is_used f s"
      using find_SomeD [OF k] hinted_less [OF i(1), of k] by (simp_all add: f_def word_less_nat_alt)
    then have run: "run_at s (unat count) f" using one by (simp add: run_at_def free_set_iff)
    define s' where "s' = (fold take_frame [f..<f + unat count] s)\<lparr>s_free_frames := s_free_frames s - count,
       s_search_hint := (hinted s k + 1) mod s_frame_count s\<rparr>"
    have "pmm_alloc_frames count s = (frame_to_addr (of_nat f), s')"
      using one r(1) k by (simp add: pmm_alloc_frames_def Let_def s'_def f_def)
    moreover have "(hinted s k + 1) mod s_frame_count s < s_frame_count s" using i(1) by (simp add: pmm_rep_def word_mod_less_divisor)
    note tr = take_run [OF inv run c s'_def this]
    ultimately show thesis using tr run one by (intro got [of f s']) simp_all
  next
    case many
    have rep: "pmm_rep s" using i(1) .
    show thesis
    proof (cases "find_run count [0..<unat (s_frame_count s)] 0 0 s")
      case None
      with find_run_ok [OF rep c] have "\<And>f. \<not> run_at s (unat count) f" by simp
      with None many nz show thesis by (intro none) (simp_all add: pmm_alloc_frames_def)
    next
      case (Some f)
      with find_run_ok [OF rep c] have run: "run_at s (unat count) f" "\<forall>g < f. \<not> run_at s (unat count) g" by simp_all
      define s' where "s' = (fold take_frame [f..<f + unat count] s)\<lparr>s_free_frames := s_free_frames s - count,
         s_search_hint := s_search_hint s\<rparr>"
      have "0 < unat count" using c by (simp add: word_less_nat_alt)
      then have sub: "set [f..<f + unat count] \<subseteq> {..<unat (s_frame_count s)}" using run_less [OF run(1)] by auto
      have "pmm_alloc_frames count s = (frame_to_addr (of_nat f), s')"
        using many nz r(1) Some fold_take [OF rep sub] by (simp add: pmm_alloc_frames_def Let_def s'_def)
      with take_run [OF inv run(1) c s'_def i(4)] run show thesis by (intro got [of f s']) simp_all
    qed
  qed
qed

section \<open>Freeing\<close>

lemma free_frame_ok:
  assumes inv: "pmm_inv s" and f: "f < unat (s_frame_count s)" "f \<noteq> 0" "f \<notin> free_set s" and rc: "s_refcount s ! f \<le> 1"
  obtains s' where "pmm_free_frame (frame_to_addr (of_nat f)) s = Some s'" "pmm_inv s'" "free_set s' = insert f (free_set s)"
    "s_frame_count s' = s_frame_count s" "s_refcount s' = (s_refcount s)[f := 0]"
proof -
  note i = pmm_invD [OF inv]
  note r = pmm_repD [OF i(1)]
  have uf: "unat (of_nat f :: u32) = f" using f(1) r(4) by (simp add: unat_of_nat)
  have valid: "frame_valid (frame_to_addr (of_nat f)) s"
    unfolding frame_valid_addr [OF i(1)]
  proof
    show "(of_nat f :: u32) \<noteq> 0" using uf f(2) by (metis unat_0)
    show "of_nat f < s_frame_count s" unfolding word_less_nat_alt uf by (rule f(1))
  qed
  have used: "frame_is_used f s" using f by (simp add: free_set_iff)
  define s1 where "s1 = set_refcount f 0 (frame_mark_free f s)"
  define s2 where "s2 = s1\<lparr>s_free_frames := s_free_frames s1 + 1\<rparr>"
  define s' where "s' = (if (of_nat f :: u32) < s_search_hint s2 then s2\<lparr>s_search_hint := of_nat f\<rparr> else s2)"
  have "\<not> 1 < s_refcount s ! f" using rc by simp
  then have run: "pmm_free_frame (frame_to_addr (of_nat f)) s = Some s'"
    using valid used \<open>\<not> 1 < s_refcount s ! f\<close> uf by (simp add: pmm_free_frame_def Let_def s'_def s2_def s1_def)
  have fs: "free_set s' = insert f (free_set s)" using free_set_mark_free [OF i(1) f(1)] by (simp add: s'_def s2_def s1_def)
  have fr: "s_frame_count s' = s_frame_count s" "s_refcount s' = (s_refcount s)[f := 0]" "pmm_rep s'"
    "s_free_frames s' = s_free_frames s + 1"
    using i(1) by (simp_all add: s'_def s2_def s1_def)
  have card: "card (insert f (free_set s)) = Suc (card (free_set s))" using f(3) by simp
  have "card (insert f (free_set s)) \<le> unat (s_frame_count s)" using card_free_set [of s'] fs fr(1) by simp
  then have "unat (s_free_frames s + 1) = Suc (unat (s_free_frames s))"
    using card i(2) r(4) by (intro unat_Suc_word) simp
  moreover have "s_search_hint s' < s_frame_count s"
    using i(4) f(1) uf by (simp add: s'_def s2_def s1_def word_less_nat_alt)
  ultimately have "pmm_inv s'"
    using i fs fr card f r by (auto simp: pmm_inv_def pmm_counts_def nth_update_if free_set_iff)
  with run fs fr that show thesis by blast
qed

lemma free_each_ok:
  assumes "pmm_inv s" "distinct fs" "set fs \<subseteq> {..<unat (s_frame_count s)}" "0 \<notin> set fs" "set fs \<inter> free_set s = {}"
    "\<forall>f \<in> set fs. s_refcount s ! f \<le> 1"
  shows "\<exists>s'. free_each (map (\<lambda>f. frame_to_addr (of_nat f)) fs) s = Some s' \<and> pmm_inv s' \<and> free_set s' = free_set s \<union> set fs \<and>
    s_frame_count s' = s_frame_count s \<and>
    (\<forall>g < unat (s_frame_count s). s_refcount s' ! g = (if g \<in> set fs then 0 else s_refcount s ! g))"
  using assms
proof (induction fs arbitrary: s)
  case (Cons f fs)
  obtain s1 where s1: "pmm_free_frame (frame_to_addr (of_nat f)) s = Some s1" "pmm_inv s1" "free_set s1 = insert f (free_set s)"
    "s_frame_count s1 = s_frame_count s" "s_refcount s1 = (s_refcount s)[f := 0]"
    using Cons.prems by (auto intro: free_frame_ok [of s f])
  have len: "length (s_refcount s) = unat (s_frame_count s)" using pmm_repD pmm_invD(1) [OF Cons.prems(1)] by blast
  have "\<forall>g \<in> set fs. s_refcount s1 ! g \<le> 1" using Cons.prems(2,6) s1(5) by (metis distinct.simps(2) list.set_intros(2) nth_list_update_neq)
  moreover have "set fs \<inter> free_set s1 = {}" using Cons.prems(2,5) s1(3) by auto
  ultimately obtain s2 where s2: "free_each (map (\<lambda>f. frame_to_addr (of_nat f)) fs) s1 = Some s2" "pmm_inv s2"
    "free_set s2 = free_set s1 \<union> set fs" "s_frame_count s2 = s_frame_count s1"
    "\<forall>g < unat (s_frame_count s1). s_refcount s2 ! g = (if g \<in> set fs then 0 else s_refcount s1 ! g)"
    using Cons.IH [of s1] Cons.prems s1 by auto
  show ?case using s1 s2 len by (intro exI [of _ s2]) (auto simp: nth_update_if)
qed simp

lemma block_addresses:
  assumes "f + n \<le> 2 ^ 31"
  shows "map (\<lambda>i. frame_to_addr (of_nat f) + of_nat i * AF_FRAME_SIZE) [0..<n] = map (\<lambda>f. frame_to_addr (of_nat f)) [f..<f + n]"
proof -
  have "frame_to_addr (of_nat f) + of_nat i * AF_FRAME_SIZE = frame_to_addr (of_nat (f + i))" if "i < n" for i
  proof -
    have u: "unat (of_nat f :: u32) = f" "unat (of_nat (f + i) :: u32) = f + i" "unat (of_nat i :: u64) = i"
      using that assms by (simp_all only: unat_of_nat) simp_all
    have "unat (of_nat i * AF_FRAME_SIZE) = i * 4096" using u(3) that assms by (simp add: unat_word_ariths unat_of_nat)
    then have "unat (frame_to_addr (of_nat f) + of_nat i * AF_FRAME_SIZE) = (f + i) * 4096"
      using u(1) that assms by (simp add: unat_word_ariths unat_frame_to_addr)
    then show ?thesis unfolding word_unat_eq_iff by (simp only: unat_frame_to_addr u(2))
  qed
  then show ?thesis by (intro nth_equalityI) (simp_all add: add.commute)
qed

lemma free_frames_ok:
  assumes "pmm_inv s" "f + unat n \<le> unat (s_frame_count s)" "f \<noteq> 0" "{f..<f + unat n} \<inter> free_set s = {}"
    "\<And>g. f \<le> g \<Longrightarrow> g < f + unat n \<Longrightarrow> s_refcount s ! g \<le> 1"
  shows "\<exists>s'. pmm_free_frames (frame_to_addr (of_nat f)) n s = Some s' \<and> pmm_inv s' \<and> free_set s' = free_set s \<union> {f..<f + unat n} \<and>
    s_frame_count s' = s_frame_count s \<and>
    (\<forall>g < unat (s_frame_count s). s_refcount s' ! g = (if f \<le> g \<and> g < f + unat n then 0 else s_refcount s ! g))"
proof -
  have "f + unat n \<le> 2 ^ 31" using assms(2) pmm_repD(4) [OF pmm_invD(1) [OF assms(1)]] by simp
  note b = block_addresses [OF this]
  have "\<exists>s'. free_each (map (\<lambda>f. frame_to_addr (of_nat f)) [f..<f + unat n]) s = Some s' \<and> pmm_inv s' \<and>
    free_set s' = free_set s \<union> set [f..<f + unat n] \<and> s_frame_count s' = s_frame_count s \<and>
    (\<forall>g < unat (s_frame_count s). s_refcount s' ! g = (if g \<in> set [f..<f + unat n] then 0 else s_refcount s ! g))"
    using assms by (intro free_each_ok) auto
  then show ?thesis unfolding pmm_free_frames_def b by simp
qed

section \<open>Ranges\<close>

lemma unat_add_small: "unat a + unat b < 2 ^ LENGTH('a) \<Longrightarrow> unat (a + b :: 'a::len word) = unat a + unat b"
  by (simp add: unat_word_ariths)

lemma frame_bounds:
  "((b :: nat) + 4095) div 4096 \<le> f \<longleftrightarrow> b \<le> f * 4096" "f < b div 4096 \<longleftrightarrow> f * 4096 + 4096 \<le> b"
  "b div 4096 \<le> f \<longleftrightarrow> b < f * 4096 + 4096" "f < (b + 4095) div 4096 \<longleftrightarrow> f * 4096 < b"
proof -
  have lt: "f < x div 4096 \<longleftrightarrow> f * 4096 + 4096 \<le> x" for x :: nat
    using less_eq_div_iff_mult_less_eq [of 4096 "Suc f" x] by (simp add: Suc_le_eq add.commute)
  then have le: "x div 4096 \<le> f \<longleftrightarrow> x < f * 4096 + 4096" for x :: nat by (metis not_le)
  show "f < b div 4096 \<longleftrightarrow> f * 4096 + 4096 \<le> b" "b div 4096 \<le> f \<longleftrightarrow> b < f * 4096 + 4096" by (fact lt le)+
  show "(b + 4095) div 4096 \<le> f \<longleftrightarrow> b \<le> f * 4096" "f < (b + 4095) div 4096 \<longleftrightarrow> f * 4096 < b"
    unfolding lt le by linarith+
qed

text \<open>The frames wholly inside, and the frames touched by, a range that ends below $2^{43}$.\<close>

lemma range_frames:
  assumes "unat b + unat n \<le> 2 ^ 43" "unat (s_frame_count s) \<le> 2 ^ 31"
  shows "set (inner_frames b n s) = {f. f < unat (s_frame_count s) \<and> unat b \<le> f * 4096 \<and> f * 4096 + 4096 \<le> unat b + unat n}"
    "set (outer_frames b n s) = {f. f < unat (s_frame_count s) \<and> unat b < f * 4096 + 4096 \<and> f * 4096 < unat b + unat n}"
    "distinct (inner_frames b n s)" "distinct (outer_frames b n s)"
proof -
  have sum: "unat (b + n) = unat b + unat n" using assms(1) by (intro unat_add_small) simp
  have up: "unat (addr_to_frame (align_up x AF_FRAME_SIZE)) = (unat x + 4095) div 4096" if "unat x \<le> 2 ^ 43" for x
  proof -
    have "unat (align_up x AF_FRAME_SIZE) = (unat x + 4095) div 4096 * 4096" using that by (intro unat_align_up) simp
    moreover have "(unat x + 4095) div 4096 < 2 ^ 32" using that by (simp add: div_less_iff_less_mult)
    ultimately show ?thesis by (simp add: unat_addr_to_frame)
  qed
  have down: "unat (addr_to_frame (align_down x AF_FRAME_SIZE)) = unat x div 4096" if "unat x \<le> 2 ^ 43" for x
  proof -
    have "unat x div 4096 < 2 ^ 32" using that by (simp add: div_less_iff_less_mult)
    then show ?thesis by (simp add: unat_addr_to_frame unat_align_down)
  qed
  have cl: "unat (if s_frame_count s < w then s_frame_count s else w) = min (unat (s_frame_count s)) (unat w)" for w
    by (simp add: word_less_nat_alt min_def)
  have bs: "unat b \<le> 2 ^ 43" "unat (b + n) \<le> 2 ^ 43" using assms(1) sum by simp_all
  show "set (inner_frames b n s) = {f. f < unat (s_frame_count s) \<and> unat b \<le> f * 4096 \<and> f * 4096 + 4096 \<le> unat b + unat n}"
    unfolding inner_frames_def frame_range_def cl up [OF bs(1)] down [OF bs(2)] sum set_upt by (auto simp: frame_bounds)
  show "set (outer_frames b n s) = {f. f < unat (s_frame_count s) \<and> unat b < f * 4096 + 4096 \<and> f * 4096 < unat b + unat n}"
    unfolding outer_frames_def frame_range_def cl down [OF bs(1)] up [OF bs(2)] sum set_upt by (auto simp: frame_bounds)
  show "distinct (inner_frames b n s)" "distinct (outer_frames b n s)"
    by (simp_all add: inner_frames_def outer_frames_def frame_range_def)
qed

text \<open>What the loops over a range do to the set of free frames.\<close>

lemma fold_mark_free:
  assumes "pmm_rep s" "set fs \<subseteq> {..<unat (s_frame_count s)}"
  defines "s' \<equiv> fold (\<lambda>f s. if frame_is_used f s then frame_mark_free f s else s) fs s"
  shows "pmm_rep s' \<and> free_set s' = free_set s \<union> set fs \<and> s_frame_count s' = s_frame_count s \<and> s_refcount s' = s_refcount s \<and>
    s_free_frames s' = s_free_frames s \<and> s_usable_frames s' = s_usable_frames s \<and> s_search_hint s' = s_search_hint s"
  using assms(1,2) unfolding s'_def
proof (induction fs arbitrary: s)
  case (Cons f fs)
  define s1 where "s1 = (if frame_is_used f s then frame_mark_free f s else s)"
  have f: "f < unat (s_frame_count s)" using Cons.prems(2) by simp
  have s1: "pmm_rep s1" "free_set s1 = insert f (free_set s)" "s_frame_count s1 = s_frame_count s"
    using Cons.prems(1) f free_set_mark_free [of s f] by (auto simp: s1_def free_set_iff)
  have "set fs \<subseteq> {..<unat (s_frame_count s1)}" using Cons.prems(2) s1(3) by simp
  from Cons.IH [OF s1(1) this] show ?case unfolding fold_simps s1_def [symmetric] using s1
    by (simp add: s1_def split: if_splits)
qed simp

lemma mark_range_free_ok:
  assumes "pmm_rep s" "unat b + unat n \<le> 2 ^ 43"
  shows "pmm_rep (mark_range_free b n s) \<and> s_frame_count (mark_range_free b n s) = s_frame_count s \<and>
    s_refcount (mark_range_free b n s) = s_refcount s \<and> s_free_frames (mark_range_free b n s) = s_free_frames s \<and>
    s_usable_frames (mark_range_free b n s) = s_usable_frames s \<and> s_search_hint (mark_range_free b n s) = s_search_hint s \<and>
    free_set (mark_range_free b n s) = free_set s \<union>
      {f. f < unat (s_frame_count s) \<and> unat b \<le> f * 4096 \<and> f * 4096 + 4096 \<le> unat b + unat n}"
proof (cases "n = 0")
  case False
  note r = range_frames [OF assms(2) pmm_repD(4) [OF assms(1)]]
  have "set (inner_frames b n s) \<subseteq> {..<unat (s_frame_count s)}" using r(1) by auto
  from fold_mark_free [OF assms(1) this] r(1) False show ?thesis by (simp add: mark_range_free_def)
next
  case True
  then show ?thesis using assms(1) by (auto simp: mark_range_free_def)
qed

lemma reserve_one_eq: "reserve_one f (k, s) =
    (if frame_is_used f s then (k, s) else (k + 1, set_refcount f 0 (frame_mark_used f s)))"
  by (simp add: reserve_one_def)

lemma fold_reserve:
  assumes "pmm_rep s" "set fs \<subseteq> {..<unat (s_frame_count s)}" "distinct fs" "\<forall>f \<in> free_set s. s_refcount s ! f = 0"
  shows "\<exists>k s'. fold reserve_one fs (k0, s) = (k0 + of_nat k, s') \<and> k = card (free_set s \<inter> set fs) \<and> pmm_rep s' \<and>
    free_set s' = free_set s - set fs \<and> s_frame_count s' = s_frame_count s \<and> s_refcount s' = s_refcount s \<and>
    s_free_frames s' = s_free_frames s \<and> s_usable_frames s' = s_usable_frames s \<and> s_search_hint s' = s_search_hint s"
  using assms
proof (induction fs arbitrary: s k0)
  case (Cons f fs)
  have f: "f < unat (s_frame_count s)" using Cons.prems(2) by simp
  show ?case
  proof (cases "frame_is_used f s")
    case True
    then have nf: "f \<notin> free_set s" by (simp add: free_set_iff)
    from Cons.IH [of s k0] Cons.prems obtain k s' where
      "fold reserve_one fs (k0, s) = (k0 + of_nat k, s') \<and> k = card (free_set s \<inter> set fs) \<and> pmm_rep s' \<and>
       free_set s' = free_set s - set fs \<and> s_frame_count s' = s_frame_count s \<and> s_refcount s' = s_refcount s \<and>
       s_free_frames s' = s_free_frames s \<and> s_usable_frames s' = s_usable_frames s \<and> s_search_hint s' = s_search_hint s" by auto
    then show ?thesis using True nf by (intro exI [of _ k] exI [of _ s']) (auto simp: reserve_one_eq)
  next
    case False
    define s1 where "s1 = set_refcount f 0 (frame_mark_used f s)"
    have ff: "f \<in> free_set s" using False f by (simp add: free_set_iff)
    have "s_refcount s ! f = 0" using ff Cons.prems(4) by blast
    then have rc: "(s_refcount s)[f := 0] = s_refcount s" by (metis list_update_id)
    have s1: "pmm_rep s1" "free_set s1 = free_set s - {f}" "s_frame_count s1 = s_frame_count s" "s_refcount s1 = s_refcount s"
      using Cons.prems(1) f rc by (simp_all add: s1_def free_set_mark_used)
    from Cons.IH [of s1 "k0 + 1"] Cons.prems s1 obtain k s' where k:
      "fold reserve_one fs (k0 + 1, s1) = (k0 + 1 + of_nat k, s') \<and> k = card (free_set s1 \<inter> set fs) \<and> pmm_rep s' \<and>
       free_set s' = free_set s1 - set fs \<and> s_frame_count s' = s_frame_count s1 \<and> s_refcount s' = s_refcount s1 \<and>
       s_free_frames s' = s_free_frames s1 \<and> s_usable_frames s' = s_usable_frames s1 \<and> s_search_hint s' = s_search_hint s1" by auto
    have "free_set s \<inter> set (f # fs) = insert f (free_set s1 \<inter> set fs)" using ff s1(2) Cons.prems(3) by auto
    moreover have "f \<notin> free_set s1 \<inter> set fs" using s1(2) by simp
    ultimately have "card (free_set s \<inter> set (f # fs)) = Suc k" using k by simp
    then show ?thesis using False k s1 by (intro exI [of _ "Suc k"] exI [of _ s']) (auto simp: reserve_one_eq s1_def)
  qed
qed simp

lemma pmm_countsD:
  assumes "pmm_counts s"
  shows "pmm_rep s" "unat (s_free_frames s) = card (free_set s)" "s_search_hint s < s_frame_count s"
    "f \<in> free_set s \<Longrightarrow> s_refcount s ! f = 0"
  using assms by (simp_all add: pmm_counts_def)

lemma reserve_ok:
  assumes inv: "pmm_counts s" and r: "unat b + unat n \<le> 2 ^ 43"
  shows "pmm_counts (pmm_reserve_range b n s) \<and> s_frame_count (pmm_reserve_range b n s) = s_frame_count s \<and>
    free_set (pmm_reserve_range b n s) = free_set s -
      {f. n \<noteq> 0 \<and> unat b < f * 4096 + 4096 \<and> f * 4096 < unat b + unat n}"
proof (cases "n = 0")
  case False
  note i = pmm_countsD [OF inv]
  note rr = range_frames [OF r pmm_repD(4) [OF i(1)]]
  have "set (outer_frames b n s) \<subseteq> {..<unat (s_frame_count s)}" using rr(2) by auto
  from fold_reserve [OF i(1) this rr(4), of 0] i(4) obtain k s1 where
    s1: "fold reserve_one (outer_frames b n s) (0, s) = (of_nat k, s1)" "k = card (free_set s \<inter> set (outer_frames b n s))"
      "pmm_rep s1" "free_set s1 = free_set s - set (outer_frames b n s)" "s_frame_count s1 = s_frame_count s"
      "s_refcount s1 = s_refcount s" "s_free_frames s1 = s_free_frames s" "s_search_hint s1 = s_search_hint s" by auto
  have le: "k \<le> card (free_set s)" unfolding s1(2) by (intro card_mono) simp_all
  then have uk: "unat (of_nat k :: u32) = k" using card_free_set [of s] pmm_repD(4) [OF i(1)] by (simp add: unat_of_nat)
  have c: "card (free_set s1) = card (free_set s) - k" unfolding s1(2,4) by (rule card_Diff_subset_Int) simp
  define s' where "s' = (if 0 < (of_nat k :: u32) then s1\<lparr>s_free_frames := s_free_frames s1 - of_nat k\<rparr> else s1)"
  have run: "pmm_reserve_range b n s = s'"
    using False pmm_repD(1) [OF i(1)] s1(1) by (simp add: pmm_reserve_range_def s'_def Let_def)
  have "unat (s_free_frames s') = card (free_set s1)"
  proof (cases "0 < (of_nat k :: u32)")
    case True
    have "unat (s_free_frames s - of_nat k) = unat (s_free_frames s) - k"
      using le i(2) by (subst unat_sub) (simp_all add: word_le_nat_alt uk)
    with True c i(2) s1(7) show ?thesis by (simp add: s'_def)
  next
    case 0: False
    then have "k = 0" using uk by (metis unat_0 word_gt_0)
    with 0 c i(2) s1(7) show ?thesis by (simp add: s'_def)
  qed
  moreover have "free_set s' = free_set s1" "pmm_rep s'" "s_frame_count s' = s_frame_count s" "s_search_hint s' = s_search_hint s"
    "s_refcount s' = s_refcount s" using s1 by (simp_all add: s'_def)
  moreover have "free_set s1 = free_set s - {f. n \<noteq> 0 \<and> unat b < f * 4096 + 4096 \<and> f * 4096 < unat b + unat n}"
    using s1(4) rr(2) False by (auto simp: free_set_iff)
  ultimately show ?thesis unfolding run using i by (simp add: pmm_inv_def pmm_counts_def)
qed (use inv in \<open>simp add: pmm_reserve_range_def\<close>)

lemma fold_release:
  assumes "pmm_inv s" "set fs \<subseteq> {..<unat (s_frame_count s)}" "0 \<notin> set fs"
  shows "pmm_inv (fold release_one fs s) \<and> s_frame_count (fold release_one fs s) = s_frame_count s \<and>
    s_refcount (fold release_one fs s) = s_refcount s \<and>
    free_set (fold release_one fs s) = free_set s \<union> {f \<in> set fs. s_refcount s ! f = 0}"
  using assms
proof (induction fs arbitrary: s)
  case (Cons f fs)
  define s1 where "s1 = release_one f s"
  note i = pmm_invD [OF Cons.prems(1)]
  have f: "f < unat (s_frame_count s)" "f \<noteq> 0" using Cons.prems(2,3) by auto
  have "pmm_inv s1 \<and> s_frame_count s1 = s_frame_count s \<and> s_refcount s1 = s_refcount s \<and>
      free_set s1 = free_set s \<union> (if s_refcount s ! f = 0 then {f} else {})"
  proof (cases "frame_is_used f s \<and> s_refcount s ! f = 0")
    case True
    then have nf: "f \<notin> free_set s" by (simp add: free_set_iff)
    have s1: "s1 = (frame_mark_free f s)\<lparr>s_free_frames := s_free_frames s + 1\<rparr>" using True by (simp add: s1_def release_one_def)
    have fs: "free_set s1 = insert f (free_set s)" using free_set_mark_free [OF i(1) f(1)] by (simp add: s1)
    have "card (free_set s1) \<le> unat (s_frame_count s)" using card_free_set [of s1] by (simp add: s1)
    then have "unat (s_free_frames s + 1) = Suc (unat (s_free_frames s))"
      using nf fs i(2) pmm_repD(4) [OF i(1)] by (intro unat_Suc_word) simp
    then show ?thesis using True i f fs nf by (auto simp: pmm_inv_def pmm_counts_def s1)
  next
    case False
    then have "s1 = s" unfolding s1_def release_one_def by (rule if_not_P)
    with False Cons.prems(1) f show ?thesis by (auto simp: free_set_iff)
  qed
  with Cons.IH [of s1] Cons.prems show ?case by (auto simp: s1_def)
qed simp

lemma release_ok:
  assumes inv: "pmm_inv s" and r: "unat b + unat n \<le> 2 ^ 43" "4096 \<le> unat b"
  shows "pmm_inv (pmm_release_range b n s) \<and> s_frame_count (pmm_release_range b n s) = s_frame_count s"
proof -
  have "unat (s_frame_count s) \<le> 2 ^ 31" using pmm_repD(4) pmm_invD(1) [OF inv] by blast
  note rr = range_frames [OF r(1) this]
  have "set (inner_frames b n s) \<subseteq> {..<unat (s_frame_count s)}" "0 \<notin> set (inner_frames b n s)" using rr(1) r(2) by auto
  from fold_release [OF inv this] inv show ?thesis by (simp add: pmm_release_range_def)
qed

section \<open>What the users of frames rely on\<close>

definition frame_address :: "u64 \<Rightarrow> bool" where
  "frame_address a \<longleftrightarrow> a = frame_to_addr (addr_to_frame a)"

definition block :: "u64 \<Rightarrow> u32 \<Rightarrow> nat set" where
  "block a n = {unat (addr_to_frame a) ..< unat (addr_to_frame a) + unat n}"

text \<open>
  A client that takes blocks of frames and gives whole blocks back, from the list of those it holds.
  \<open>None\<close> is a failed assertion of the allocator.
\<close>

datatype request = Take u32 | Give nat

fun serve :: "(u32 \<Rightarrow> 's \<Rightarrow> u64 \<times> 's) \<Rightarrow> (u64 \<Rightarrow> u32 \<Rightarrow> 's \<Rightarrow> 's option) \<Rightarrow> request list \<Rightarrow>
    (u64 \<times> u32) list \<times> 's \<Rightarrow> ((u64 \<times> u32) list \<times> 's) option" where
  "serve alloc free [] (live, s) = Some (live, s)"
| "serve alloc free (Take n # rs) (live, s) =
     (let (a, s1) = alloc n s in serve alloc free rs (if a = 0 then (live, s1) else ((a, n) # live, s1)))"
| "serve alloc free (Give k # rs) (live, s) =
     (if k < length live
      then case free (fst (live ! k)) (snd (live ! k)) s of
          None \<Rightarrow> None
        | Some s1 \<Rightarrow> serve alloc free rs (take k live @ drop (Suc k) live, s1)
      else serve alloc free rs (live, s))"

definition blocks :: "(u64 \<times> u32) list \<Rightarrow> nat set" where
  "blocks live = (\<Union>(a, n) \<in> set live. block a n)"

definition disjoint_blocks :: "(u64 \<times> u32) list \<Rightarrow> bool" where
  "disjoint_blocks live \<longleftrightarrow> (\<forall>i < length live. \<forall>j < length live. i \<noteq> j \<longrightarrow>
     block (fst (live ! i)) (snd (live ! i)) \<inter> block (fst (live ! j)) (snd (live ! j)) = {})"

lemma blocks_Cons: "blocks ((a, n) # live) = block a n \<union> blocks live"
  by (simp add: blocks_def)

lemma blocks_split: "k < length live \<Longrightarrow> blocks live = block (fst (live ! k)) (snd (live ! k)) \<union> blocks (take k live @ drop (Suc k) live)"
proof -
  assume k: "k < length live"
  have "set live = set (take k live @ live ! k # drop (Suc k) live)" using id_take_nth_drop [OF k] by simp
  then have "set live = insert (live ! k) (set (take k live @ drop (Suc k) live))" by simp
  then show ?thesis unfolding blocks_def by (simp only: UN_insert split_beta)
qed

lemma disjoint_Cons:
  assumes "disjoint_blocks live" "block a n \<inter> blocks live = {}"
  shows "disjoint_blocks ((a, n) # live)"
  unfolding disjoint_blocks_def
proof (intro allI impI)
  fix i j assume ij: "i < length ((a, n) # live)" "j < length ((a, n) # live)" "i \<noteq> j"
  have sub: "block (fst (live ! k)) (snd (live ! k)) \<subseteq> blocks live" if "k < length live" for k
    using that nth_mem unfolding blocks_def by fastforce
  show "block (fst (((a, n) # live) ! i)) (snd (((a, n) # live) ! i)) \<inter> block (fst (((a, n) # live) ! j)) (snd (((a, n) # live) ! j)) = {}"
  proof (cases i; cases j)
    fix i' j' assume "i = Suc i'" "j = Suc j'"
    with ij assms(1) show ?thesis by (simp add: disjoint_blocks_def)
  next
    fix j' assume "i = 0" "j = Suc j'"
    with ij sub [of j'] assms(2) show ?thesis by auto
  next
    fix i' assume "i = Suc i'" "j = 0"
    with ij sub [of i'] assms(2) show ?thesis by auto
  qed (use ij in simp)
qed

lemma disjoint_remove:
  assumes d: "disjoint_blocks live" and k: "k < length live"
  shows "disjoint_blocks (take k live @ drop (Suc k) live)"
    "block (fst (live ! k)) (snd (live ! k)) \<inter> blocks (take k live @ drop (Suc k) live) = {}"
proof -
  define g where "g i = (if i < k then i else Suc i)" for i
  have at: "(take k live @ drop (Suc k) live) ! i = live ! g i" "g i < length live" "g i \<noteq> k"
    if "i < length (take k live @ drop (Suc k) live)" for i
    using that k by (auto simp: g_def nth_append min_def)
  have inj: "g i = g j \<Longrightarrow> i = j" for i j by (auto simp: g_def split: if_splits)
  show "disjoint_blocks (take k live @ drop (Suc k) live)"
    unfolding disjoint_blocks_def using at inj d by (metis disjoint_blocks_def)
  have "block (fst (live ! k)) (snd (live ! k)) \<inter> block a n = {}" if "(a, n) \<in> set (take k live @ drop (Suc k) live)" for a n
  proof -
    from that obtain i where i: "i < length (take k live @ drop (Suc k) live)" "(take k live @ drop (Suc k) live) ! i = (a, n)"
      by (auto simp only: in_set_conv_nth)
    then have "live ! g i = (a, n)" using at(1) by simp
    then show ?thesis using d k at(2,3) [OF i(1)] unfolding disjoint_blocks_def by (metis fst_conv snd_conv)
  qed
  then show "block (fst (live ! k)) (snd (live ! k)) \<inter> blocks (take k live @ drop (Suc k) live) = {}"
    unfolding blocks_def by blast
qed

locale frame_allocator =
  fixes alloc :: "u32 \<Rightarrow> 's \<Rightarrow> u64 \<times> 's" and free :: "u64 \<Rightarrow> u32 \<Rightarrow> 's \<Rightarrow> 's option"
    and ok :: "'s \<Rightarrow> bool" and avail :: "'s \<Rightarrow> nat set" and owned :: "'s \<Rightarrow> nat \<Rightarrow> bool"
  assumes alloc_some: "ok s \<Longrightarrow> alloc n s = (a, s') \<Longrightarrow> a \<noteq> 0 \<Longrightarrow>
      ok s' \<and> 0 < n \<and> frame_address a \<and> block a n \<subseteq> avail s \<and> avail s' = avail s - block a n \<and>
      (\<forall>g. owned s' g \<longleftrightarrow> g \<in> block a n \<or> owned s g)"
    and alloc_none: "ok s \<Longrightarrow> alloc n s = (0, s') \<Longrightarrow> s' = s"
    and free_block: "ok s \<Longrightarrow> 0 < n \<Longrightarrow> frame_address a \<Longrightarrow> (\<forall>g \<in> block a n. owned s g) \<Longrightarrow>
      \<exists>s'. free a n s = Some s' \<and> ok s' \<and> avail s' = avail s \<union> block a n \<and> (\<forall>g. owned s' g \<longleftrightarrow> g \<notin> block a n \<and> owned s g)"
    and owned_avail: "ok s \<Longrightarrow> owned s g \<Longrightarrow> g \<notin> avail s"
begin

definition live_ok :: "(u64 \<times> u32) list \<Rightarrow> 's \<Rightarrow> bool" where
  "live_ok live s \<longleftrightarrow> disjoint_blocks live \<and> (\<forall>g \<in> blocks live. owned s g) \<and>
     (\<forall>(a, n) \<in> set live. 0 < n \<and> frame_address a)"

lemma served:
  assumes "ok s" "live_ok live s"
  shows "\<exists>live' s'. serve alloc free rs (live, s) = Some (live', s') \<and> ok s' \<and> live_ok live' s' \<and>
    avail s' \<inter> blocks live' = {} \<and> avail s' \<union> blocks live' = avail s \<union> blocks live"
  using assms
proof (induction rs arbitrary: live s)
  case Nil
  then show ?case using owned_avail by (auto simp: live_ok_def)
next
  case (Cons r rs)
  show ?case
  proof (cases r)
    case (Take n)
    obtain a s1 where a: "alloc n s = (a, s1)" by fastforce
    show ?thesis
    proof (cases "a = 0")
      case True
      with alloc_none [OF Cons.prems(1), of n s1] a have "s1 = s" by simp
      with Cons.IH [OF Cons.prems] True a Take show ?thesis by simp
    next
      case False
      note got = alloc_some [OF Cons.prems(1) a False]
      have "block a n \<inter> blocks live = {}"
        using got owned_avail [OF Cons.prems(1)] Cons.prems(2) by (auto simp: live_ok_def)
      then have "live_ok ((a, n) # live) s1"
        using Cons.prems(2) got disjoint_Cons by (auto simp: live_ok_def blocks_Cons)
      moreover have "ok s1" using got by blast
      ultimately have ih: "\<exists>live' s'. serve alloc free rs ((a, n) # live, s1) = Some (live', s') \<and> ok s' \<and> live_ok live' s' \<and>
          avail s' \<inter> blocks live' = {} \<and> avail s' \<union> blocks live' = avail s1 \<union> blocks ((a, n) # live)"
        by (intro Cons.IH)
      moreover have "avail s1 \<union> blocks ((a, n) # live) = avail s \<union> blocks live" using got by (auto simp: blocks_Cons)
      moreover have "serve alloc free (r # rs) (live, s) = serve alloc free rs ((a, n) # live, s1)" using False a Take by simp
      ultimately show ?thesis by simp
    qed
  next
    case (Give k)
    show ?thesis
    proof (cases "k < length live")
      case True
      define rest where "rest = take k live @ drop (Suc k) live"
      obtain a n where an: "live ! k = (a, n)" by fastforce
      note d = disjoint_remove [OF _ True]
      have dis: "disjoint_blocks live" using Cons.prems(2) by (simp add: live_ok_def)
      have bl: "blocks live = block a n \<union> blocks rest" using blocks_split [OF True] an by (simp add: rest_def)
      have "(a, n) \<in> set live" using True an nth_mem by metis
      then have "0 < n" "frame_address a" "\<forall>g \<in> block a n. owned s g"
        using Cons.prems(2) bl by (auto simp: live_ok_def)
      from free_block [OF Cons.prems(1) this] obtain s1 where s1: "free a n s = Some s1" "ok s1" "avail s1 = avail s \<union> block a n"
        "\<And>g. owned s1 g \<longleftrightarrow> g \<notin> block a n \<and> owned s g" by blast
      have sub: "set rest \<subseteq> set live" unfolding rest_def by (metis le_sup_iff set_append set_drop_subset set_take_subset)
      have "live_ok rest s1" unfolding live_ok_def
      proof (intro conjI ballI)
        show "disjoint_blocks rest" using d(1) [OF dis] by (simp add: rest_def)
        show "owned s1 g" if "g \<in> blocks rest" for g
        proof -
          have "g \<notin> block a n" using d(2) [OF dis] that an by (auto simp: rest_def)
          moreover have "owned s g" using that bl Cons.prems(2) by (simp add: live_ok_def)
          ultimately show ?thesis by (simp add: s1(4))
        qed
        show "case x of (a, n) \<Rightarrow> 0 < n \<and> frame_address a" if "x \<in> set rest" for x
          using that sub Cons.prems(2) unfolding live_ok_def by blast
      qed
      from Cons.IH [OF s1(2) this]
      have "\<exists>live' s'. serve alloc free rs (rest, s1) = Some (live', s') \<and> ok s' \<and> live_ok live' s' \<and>
          avail s' \<inter> blocks live' = {} \<and> avail s' \<union> blocks live' = avail s1 \<union> blocks rest" .
      moreover have "avail s1 \<union> blocks rest = avail s \<union> blocks live" using s1(3) bl by auto
      moreover have "serve alloc free (r # rs) (live, s) = serve alloc free rs (rest, s1)"
        using True an Give s1(1) by (simp add: rest_def)
      ultimately show ?thesis by simp
    next
      case False
      with Cons.IH [OF Cons.prems] Give show ?thesis by simp
    qed
  qed
qed

end

definition frame_owned :: "pmm_state \<Rightarrow> nat \<Rightarrow> bool" where
  "frame_owned s g \<longleftrightarrow> g < unat (s_frame_count s) \<and> g \<noteq> 0 \<and> frame_is_used g s \<and> s_refcount s ! g = 1"

lemma unat_frame_number: "pmm_rep s \<Longrightarrow> f < unat (s_frame_count s) \<Longrightarrow> unat (of_nat f :: u32) = f"
  using pmm_repD(4) [of s] by (simp add: unat_of_nat)

lemma pmm_alloc_zero: "fst (pmm_alloc_frames 0 s) = 0 \<and> snd (pmm_alloc_frames 0 s) = s"
  by (simp add: pmm_alloc_frames_def)

interpretation pmm: frame_allocator pmm_alloc_frames pmm_free_frames pmm_inv free_set frame_owned
proof
  fix s n a s' assume inv: "pmm_inv s" and a: "pmm_alloc_frames n s = (a, s')" "a \<noteq> 0"
  have rep: "pmm_rep s" using inv by (simp add: pmm_inv_def pmm_counts_def)
  have n: "0 < n" using a pmm_alloc_zero [of s] by (auto simp: word_gt_0)
  show "pmm_inv s' \<and> 0 < n \<and> frame_address a \<and> block a n \<subseteq> free_set s \<and>
      free_set s' = free_set s - block a n \<and> (\<forall>g. frame_owned s' g \<longleftrightarrow> g \<in> block a n \<or> frame_owned s g)"
  proof (cases rule: alloc_cases [OF inv n])
    case 1
    with a show ?thesis by simp
  next
    case (2 f s1)
    have un: "0 < unat n" using n by (simp add: word_less_nat_alt)
    note rl = run_less [OF 2(2) un]
    have eq: "a = frame_to_addr (of_nat f)" "s1 = s'" using a 2(1) by simp_all
    have b: "block a n = {f..<f + unat n}" using unat_frame_number [OF rep] rl by (simp add: block_def eq)
    have "frame_owned s' g \<longleftrightarrow> g \<in> block a n \<or> frame_owned s g" for g
    proof (cases "g < unat (s_frame_count s)")
      case True
      have "frame_is_used g s' \<longleftrightarrow> g \<notin> free_set s'" "frame_is_used g s \<longleftrightarrow> g \<notin> free_set s"
        using True 2(5) eq by (simp_all add: free_set_iff)
      moreover have "{f..<f + unat n} \<subseteq> free_set s" using 2(2) by (simp add: run_at_def)
      moreover have "g \<in> {f..<f + unat n} \<Longrightarrow> g \<noteq> 0" using 2(6) by auto
      ultimately show ?thesis using True 2(4,5,7) eq b by (auto simp: frame_owned_def)
    next
      case False
      with rl b 2(5) eq show ?thesis by (auto simp: frame_owned_def)
    qed
    with 2 eq b n show ?thesis by (simp add: run_at_def frame_address_def)
  qed
next
  fix s n s' assume inv: "pmm_inv s" and a: "pmm_alloc_frames n s = (0, s')"
  show "s' = s"
  proof (cases "n = 0")
    case True
    with a pmm_alloc_zero [of s] show ?thesis by simp
  next
    case False
    then have n: "0 < n" by (simp add: word_gt_0)
    show ?thesis
    proof (cases rule: alloc_cases [OF inv n])
      case (2 f s1)
      have "f < unat (s_frame_count s)" using run_less [OF 2(2)] n by (simp add: word_less_nat_alt)
      then have "unat (of_nat f :: u32) = f" using unat_frame_number pmm_invD(1) [OF inv] by blast
      then have "(of_nat f :: u32) \<noteq> 0" using 2(6) by (metis unat_0)
      with 2(1) a show ?thesis by simp
    qed (use a in simp)
  qed
next
  fix s n a assume inv: "pmm_inv s" and n: "0 < n" and a: "frame_address a"
    and own: "\<forall>g \<in> block a n. frame_owned s g"
  define f where "f = unat (addr_to_frame a)"
  have b: "block a n = {f..<f + unat n}" by (simp add: block_def f_def)
  have af: "a = frame_to_addr (of_nat f)" using a by (simp add: f_def frame_address_def)
  have un: "0 < unat n" using n by (simp add: word_less_nat_alt)
  have "frame_owned s (f + unat n - 1)" "frame_owned s f" using own un by (auto simp: b)
  then have l: "f + unat n \<le> unat (s_frame_count s)" "f \<noteq> 0" using un by (auto simp: frame_owned_def)
  have "{f..<f + unat n} \<inter> free_set s = {}" using own by (auto simp: b frame_owned_def free_set_iff)
  moreover have "s_refcount s ! g \<le> 1" if "f \<le> g" "g < f + unat n" for g using own that by (auto simp: b frame_owned_def)
  ultimately obtain s' where s': "pmm_free_frames a n s = Some s'" "pmm_inv s'" "free_set s' = free_set s \<union> {f..<f + unat n}"
    "s_frame_count s' = s_frame_count s"
    "\<forall>g < unat (s_frame_count s). s_refcount s' ! g = (if f \<le> g \<and> g < f + unat n then 0 else s_refcount s ! g)"
    using free_frames_ok [OF inv l] af by auto
  have "frame_owned s' g \<longleftrightarrow> g \<notin> block a n \<and> frame_owned s g" for g
  proof (cases "g < unat (s_frame_count s)")
    case True
    have "frame_is_used g s' \<longleftrightarrow> g \<notin> free_set s'" "frame_is_used g s \<longleftrightarrow> g \<notin> free_set s"
      using True s'(4) by (simp_all add: free_set_iff)
    then show ?thesis using True s' by (auto simp: frame_owned_def b)
  qed (use s'(4) in \<open>simp add: frame_owned_def\<close>)
  with s' b show "\<exists>s'. pmm_free_frames a n s = Some s' \<and> pmm_inv s' \<and> free_set s' = free_set s \<union> block a n \<and>
      (\<forall>g. frame_owned s' g \<longleftrightarrow> g \<notin> block a n \<and> frame_owned s g)" by blast
next
  fix s g assume "pmm_inv s" "frame_owned s g"
  then show "g \<notin> free_set s" by (simp add: frame_owned_def free_set_iff)
qed

section \<open>Frames by number\<close>

definition frame_number :: "u64 \<Rightarrow> nat" where
  "frame_number t = unat (addr_to_frame t)"

lemma frame_number_inj: "frame_address a \<Longrightarrow> frame_address b \<Longrightarrow> frame_number a = frame_number b \<Longrightarrow> a = b"
  unfolding frame_address_def frame_number_def by (metis word_unat_eq_iff)

lemma memory_frame [simp]:
  "pmm_inv (s\<lparr>phys_mem := m\<rparr>) = pmm_inv s" "free_set (s\<lparr>phys_mem := m\<rparr>) = free_set s"
  "frame_owned (s\<lparr>phys_mem := m\<rparr>) g = frame_owned s g"
  by (simp_all add: pmm_inv_def pmm_counts_def pmm_rep_def free_set_def frame_owned_def frame_is_used_def)

lemma frame_offset:
  assumes "frame_address f" "k < 4096"
  shows "unat (f + of_nat k) = unat f + k" "frame_number (f + of_nat k) = frame_number f"
proof -
  have f: "unat f = frame_number f * 4096" "frame_number f < 2 ^ 32"
    using assms(1) unat_frame_to_addr [of "addr_to_frame f"] unat_bound [of "addr_to_frame f"]
    by (simp_all add: frame_address_def frame_number_def)
  have k: "unat (of_nat k :: u64) = k" using assms(2) by (simp add: unat_of_nat)
  show s: "unat (f + of_nat k) = unat f + k"
    using f assms(2) k by (subst unat_add_small) simp_all
  show "frame_number (f + of_nat k) = frame_number f"
    using f assms(2) s by (simp add: frame_number_def unat_addr_to_frame)
qed

lemma in_frame:
  assumes "frame_address f"
  shows "a - f < 4096 \<longleftrightarrow> (\<exists>k < 4096. a = f + of_nat k)"
proof
  assume "a - f < 4096"
  then have "unat (a - f) < 4096" "a = f + of_nat (unat (a - f))" by (simp_all add: word_less_nat_alt)
  then show "\<exists>k < 4096. a = f + of_nat k" by blast
next
  assume "\<exists>k < 4096. a = f + of_nat k"
  then show "a - f < 4096" by (auto simp: word_less_nat_alt unat_of_nat)
qed

lemma in_frame_number: "frame_address f \<Longrightarrow> a - f < 4096 \<Longrightarrow> frame_number a = frame_number f"
  using in_frame [of f a] frame_offset(2) [of f] by metis

lemma alloc_one_mem: "pmm_alloc_frames 1 p = (f, p1) \<Longrightarrow> phys_mem p1 = phys_mem p"
  by (auto simp: pmm_alloc_frames_def Let_def split: if_splits option.splits)

lemma alloc_z_ok:
  assumes inv: "pmm_inv p" and a: "pmm_alloc_frame_z p = (f, p1)" and f: "f \<noteq> 0"
  shows "pmm_inv p1" "frame_address f" "frame_number f \<in> free_set p" "free_set p1 = free_set p - {frame_number f}"
     "frame_owned p1 g \<longleftrightarrow> g = frame_number f \<or> frame_owned p g"
     "phys_mem p1 x = (if x - f < 4096 then 0 else phys_mem p x)"
proof -
  obtain p2 where p2: "pmm_alloc_frames 1 p = (f, p2)" "p1 = p2\<lparr>phys_mem := \<lambda>a. if a - f < 4096 then 0 else phys_mem p2 a\<rparr>"
    using a f by (auto simp: pmm_alloc_frame_z_def pmm_alloc_frame_def Let_def split: prod.splits if_splits)
  have "block f 1 = {frame_number f}" by (auto simp: block_def frame_number_def)
  note al = pmm.alloc_some [OF inv p2(1) f, unfolded this]
  show "pmm_inv p1" "frame_address f" "frame_number f \<in> free_set p" "free_set p1 = free_set p - {frame_number f}"
     "frame_owned p1 g \<longleftrightarrow> g = frame_number f \<or> frame_owned p g"
     "phys_mem p1 x = (if x - f < 4096 then 0 else phys_mem p x)"
    using al p2(2) alloc_one_mem [OF p2(1)] by auto
qed

lemma alloc_z_none: "pmm_inv p \<Longrightarrow> pmm_alloc_frame_z p = (0, p1) \<Longrightarrow> p1 = p"
  using pmm.alloc_none [of p 1 p1]
  by (auto simp: pmm_alloc_frame_z_def pmm_alloc_frame_def Let_def split: prod.splits if_splits)

section \<open>Reference counts\<close>

lemma ref_ok:
  assumes inv: "pmm_inv s" and a: "unat (addr_to_frame a) \<notin> free_set s"
  shows "pmm_inv (pmm_frame_ref a s) \<and> free_set (pmm_frame_ref a s) = free_set s \<and> s_frame_count (pmm_frame_ref a s) = s_frame_count s"
proof -
  have "s_refcount (set_refcount (unat (addr_to_frame a)) c s) ! f = 0" if "f \<in> free_set s" for f c
    using that a inv by (cases "f = unat (addr_to_frame a)") (auto simp: pmm_inv_def pmm_counts_def)
  then show ?thesis using inv by (auto simp: pmm_frame_ref_def Let_def pmm_inv_def pmm_counts_def)
qed

lemma unref_ok:
  assumes inv: "pmm_inv s" and a: "frame_valid a s \<Longrightarrow> unat (addr_to_frame a) \<noteq> 0"
  shows "pmm_inv (pmm_frame_unref a s) \<and> s_frame_count (pmm_frame_unref a s) = s_frame_count s"
proof -
  define f where "f = unat (addr_to_frame a)"
  note i = pmm_invD [OF inv]
  show ?thesis
  proof (cases "frame_valid a s \<and> s_refcount s ! f \<noteq> 0")
    case False
    with inv show ?thesis by (auto simp: pmm_frame_unref_def f_def)
  next
    case True
    have f: "f < unat (s_frame_count s)" "f \<noteq> 0" using True a by (auto simp: frame_valid_def f_def word_less_nat_alt)
    have nf: "f \<notin> free_set s" using True i(5) by auto
    define s1 where "s1 = set_refcount f (s_refcount s ! f - 1) s"
    have at: "s_refcount s1 ! f = s_refcount s ! f - 1" using f pmm_repD(2) [OF i(1)] by (simp add: s1_def)
    show ?thesis
    proof (cases "s_refcount s ! f - 1 = 0")
      case 0: True
      define s2 where "s2 = (frame_mark_free f s1)\<lparr>s_free_frames := s_free_frames s + 1\<rparr>"
      have run: "pmm_frame_unref a s = s2" using True 0 at by (simp add: pmm_frame_unref_def f_def [symmetric] s1_def [symmetric] Let_def s2_def) (simp add: s1_def)
      have fs: "free_set s2 = insert f (free_set s)" using free_set_mark_free [of s1 f] i(1) f by (simp add: s2_def s1_def)
      have rc: "s_refcount s2 = (s_refcount s)[f := 0]" using 0 by (simp add: s2_def s1_def)
      have "card (free_set s2) \<le> unat (s_frame_count s)" using card_free_set [of s2] by (simp add: s2_def s1_def)
      then have "unat (s_free_frames s + 1) = Suc (unat (s_free_frames s))"
        using nf fs i(2) pmm_repD(4) [OF i(1)] by (intro unat_Suc_word) simp
      moreover have "pmm_rep s2" "s_frame_count s2 = s_frame_count s" "s_search_hint s2 = s_search_hint s"
        "s_free_frames s2 = s_free_frames s + 1" using i(1) by (simp_all add: s2_def s1_def)
      moreover have "s_refcount s2 ! g = 0" if "g \<in> free_set s2" for g
        using that fs rc i(5) f pmm_repD(2) [OF i(1)] by (cases "g = f") auto
      ultimately show ?thesis unfolding run using i fs f nf by (auto simp: pmm_inv_def pmm_counts_def)
    next
      case False
      have "pmm_frame_unref a s = s1"
        using True False at by (simp add: pmm_frame_unref_def f_def [symmetric] s1_def [symmetric] Let_def)
      moreover have "s_refcount s1 ! g = 0" if "g \<in> free_set s" for g
        using that nf i(5) by (cases "g = f") (auto simp: s1_def)
      ultimately show ?thesis using i by (auto simp: pmm_inv_def pmm_counts_def s1_def)
    qed
  qed
qed

section \<open>Every reachable state\<close>

text \<open>
  The operations as steps. A reference is taken on a frame in use, addresses are below 16 TiB (the
  32-bit frame number is not truncated), and released ranges stay clear of the null page.
\<close>

inductive pmm_step :: "pmm_state \<Rightarrow> pmm_state \<Rightarrow> bool" where
  Alloc: "pmm_alloc_frames n s = (a, s') \<Longrightarrow> pmm_step s s'"
| Alloc_z: "pmm_alloc_frame_z s = (a, s') \<Longrightarrow> pmm_step s s'"
| Free: "unat a < 2 ^ 44 \<Longrightarrow> pmm_free_frame a s = Some s' \<Longrightarrow> pmm_step s s'"
| Ref: "unat (addr_to_frame a) \<notin> free_set s \<Longrightarrow> pmm_step s (pmm_frame_ref a s)"
| Unref: "unat a < 2 ^ 44 \<Longrightarrow> pmm_step s (pmm_frame_unref a s)"
| Reserve: "unat b + unat n \<le> 2 ^ 43 \<Longrightarrow> pmm_step s (pmm_reserve_range b n s)"
| Release: "unat b + unat n \<le> 2 ^ 43 \<Longrightarrow> 4096 \<le> unat b \<Longrightarrow> pmm_step s (pmm_release_range b n s)"

lemma valid_low:
  assumes "unat a < 2 ^ 44" "pmm_rep s" "frame_valid a s"
  shows "unat (addr_to_frame a) \<noteq> 0" "a = frame_to_addr (of_nat (unat (addr_to_frame a)))" "unat (addr_to_frame a) < unat (s_frame_count s)"
proof -
  have d: "unat a div 4096 < 2 ^ 32" using assms(1) by (simp add: div_less_iff_less_mult)
  have v: "unat a mod 4096 = 0" "a \<noteq> 0" using assms(3) frame_valid_iff [OF assms(2)] by simp_all
  have u: "unat (addr_to_frame a) = unat a div 4096" using d by (simp add: unat_addr_to_frame)
  have m: "unat a = unat a div 4096 * 4096" using v(1) by (metis add.right_neutral div_mult_mod_eq)
  have "unat a \<noteq> 0" using v(2) by (simp add: unat_eq_0)
  then show "unat (addr_to_frame a) \<noteq> 0" using m unfolding u by (metis mult_zero_left)
  show "a = frame_to_addr (of_nat (unat (addr_to_frame a)))"
    unfolding word_unat_eq_iff unat_frame_to_addr u using m d by (simp only: unat_of_nat) simp
  show "unat (addr_to_frame a) < unat (s_frame_count s)" using assms(3) by (simp add: frame_valid_def word_less_nat_alt)
qed

lemma pmm_inv_step: "pmm_step s s' \<Longrightarrow> pmm_inv s \<Longrightarrow> pmm_inv s' \<and> s_frame_count s' = s_frame_count s"
proof (induction rule: pmm_step.induct)
  case (Alloc n s a s')
  show ?case
  proof (cases "0 < n")
    case True
    from Alloc show ?thesis by (cases rule: alloc_cases [OF Alloc(2) True]) auto
  next
    case False
    then have "n = 0" by (simp add: word_gt_0)
    with Alloc pmm_alloc_zero [of s] show ?thesis by simp
  qed
next
  case (Alloc_z s a s')
  have mem: "pmm_inv (t\<lparr>phys_mem := m\<rparr>) \<longleftrightarrow> pmm_inv t" for t m by (simp add: pmm_inv_def pmm_counts_def)
  have one: "(0 :: u32) < 1" by simp
  obtain b t where t: "pmm_alloc_frames 1 s = (b, t)" by fastforce
  then have "pmm_inv t \<and> s_frame_count t = s_frame_count s"
    by (cases rule: alloc_cases [OF Alloc_z(2) one]) (use Alloc_z(2) in auto)
  with Alloc_z(1) t mem show ?case by (auto simp: pmm_alloc_frame_z_def pmm_alloc_frame_def split: if_splits)
next
  case (Free a s s')
  show ?case
  proof (cases "frame_valid a s")
    case True
    note v = valid_low [OF Free(1) pmm_invD(1) [OF Free(3)] True]
    have "unat (addr_to_frame a) \<notin> free_set s" "s_refcount s ! unat (addr_to_frame a) \<le> 1"
      using Free(2) True by (auto simp: pmm_free_frame_def Let_def free_set_iff split: if_splits)
    from free_frame_ok [OF Free(3) v(3,1) this] obtain s1 where
      "pmm_free_frame (frame_to_addr (of_nat (unat (addr_to_frame a)))) s = Some s1" "pmm_inv s1" "s_frame_count s1 = s_frame_count s" .
    then show ?thesis using Free(2) v(2) by (metis option.inject)
  qed (use Free in \<open>simp add: pmm_free_frame_def\<close>)
next
  case (Unref a s)
  then show ?case using unref_ok valid_low pmm_invD(1) by blast
next
  case (Reserve b n s)
  then show ?case using reserve_ok [of s b n] by (auto simp: pmm_inv_def)
qed (use ref_ok release_ok in blast)+

section \<open>Initialisation\<close>

lemma fold_max_end:
  "m \<le> fold (\<lambda>r m. if P r then max_end r m else m) rs m \<and>
   (\<forall>r \<in> set rs. P r \<longrightarrow> mr_base r + mr_length r \<le> fold (\<lambda>r m. if P r then max_end r m else m) rs m)"
proof (induction rs arbitrary: m)
  case (Cons r rs)
  define m1 where "m1 = (if P r then max_end r m else m)"
  have "m \<le> m1" "P r \<longrightarrow> mr_base r + mr_length r \<le> m1" by (auto simp: m1_def max_end_def)
  with Cons.IH [of m1] show ?case by (auto simp: m1_def [symmetric])
qed simp

lemma fold_max_bound:
  assumes "\<forall>r \<in> set rs. mr_base r + mr_length r \<le> B" "m \<le> B"
  shows "fold (\<lambda>r m. if P r then max_end r m else m) rs m \<le> B"
  using assms by (induction rs arbitrary: m) (auto simp: max_end_def)

lemma max_usable_bounds:
  assumes b: "\<forall>r \<in> set (regions bi). unat (mr_base r) + unat (mr_length r) \<le> 2 ^ 43"
  shows "unat (af_boot_info_max_usable_address (Some bi)) \<le> 2 ^ 43"
    "r \<in> set (regions bi) \<Longrightarrow> allocatable r \<Longrightarrow> unat (mr_base r) + unat (mr_length r) \<le> unat (af_boot_info_max_usable_address (Some bi))"
proof -
  have sum: "unat (mr_base r + mr_length r) = unat (mr_base r) + unat (mr_length r)" if "r \<in> set (regions bi)" for r
    using b that by (intro unat_add_small) force
  have le: "\<forall>r \<in> set (regions bi). mr_base r + mr_length r \<le> 2 ^ 43"
    using b sum by (auto simp: word_le_nat_alt)
  define u where "u = fold (\<lambda>r m. if allocatable r then max_end r m else m) (regions bi) 0"
  have "fold max_end (regions bi) 0 \<le> 2 ^ 43" using fold_max_bound [OF le, of 0 "\<lambda>_. True"] by simp
  moreover have "u \<le> 2 ^ 43" using fold_max_bound [OF le, of 0 allocatable] by (simp add: u_def)
  ultimately have "af_boot_info_max_usable_address (Some bi) \<le> 2 ^ 43"
    by (simp add: af_boot_info_max_usable_address_def af_boot_info_max_address_def u_def [symmetric] Let_def)
  then show "unat (af_boot_info_max_usable_address (Some bi)) \<le> 2 ^ 43" by (simp add: word_le_nat_alt)
  assume r: "r \<in> set (regions bi)" "allocatable r"
  then have "mr_base r + mr_length r \<le> u" using fold_max_end [of 0 allocatable "regions bi"] by (auto simp: u_def)
  then have le: "unat (mr_base r) + unat (mr_length r) \<le> unat u" using sum [OF r(1)] by (simp add: word_le_nat_alt)
  show "unat (mr_base r) + unat (mr_length r) \<le> unat (af_boot_info_max_usable_address (Some bi))"
  proof (cases "u = 0")
    case True
    then show ?thesis using le by simp
  next
    case False
    then show ?thesis using le by (simp add: af_boot_info_max_usable_address_def u_def [symmetric] Let_def)
  qed
qed

lemma bitmap_room:
  assumes "unat n \<le> 2 ^ 31" "0 < n"
  shows "unat n \<le> 8 * unat (bitmap_bytes n)" "bitmap_bytes n \<noteq> 0"
proof -
  define x where "x = (unat n + 7) div 8"
  have x: "x \<le> 2 ^ 29" "unat n \<le> 8 * x" using assms(1) by (auto simp: x_def)
  have "unat (n + 7) = unat n + 7" using assms(1) by (simp add: unat_word_ariths)
  then have "unat ((n + 7) div 8) = x" by (simp add: unat_div x_def)
  then have "unat ((n + 7) div 8 + 4096 - 1) = x + 4095" using x(1) by (simp add: unat_word_ariths)
  then have "unat (((n + 7) div 8 + 4096 - 1) div 4096) = (x + 4095) div 4096" by (simp add: unat_div)
  moreover have "(x + 4095) div 4096 * 4096 < 2 ^ 32"
    using x(1) div_times_less_eq_dividend [of "x + 4095" 4096] by simp
  ultimately have u: "unat (bitmap_bytes n) = (x + 4095) div 4096 * 4096"
    by (simp add: bitmap_bytes_def unat_word_ariths)
  have "x \<le> (x + 4095) div 4096 * 4096" by (metis frame_bounds(1) le_refl)
  with u x(2) show "unat n \<le> 8 * unat (bitmap_bytes n)" by linarith
  moreover have "0 < unat n" using assms(2) by (simp add: word_less_nat_alt)
  ultimately show "bitmap_bytes n \<noteq> 0" by (metis mult_zero_right not_less unat_0)
qed

lemma replicate_used:
  assumes "f < 8 * n" "s_bitmap s = replicate n 0xFF"
  shows "frame_is_used f s"
proof -
  have "f div 8 < n" using assms(1) by linarith
  moreover have "bit (0xFF :: u8) (f mod 8)"
  proof -
    have "(0xFF :: u8) = mask 8" by (simp add: mask_eq_exp_minus_1)
    then show ?thesis by (simp only: bit_mask_iff) simp
  qed
  ultimately show ?thesis unfolding used_bit assms(2) by simp
qed

lemma fold_regions:
  assumes "pmm_rep s" "\<forall>r \<in> set rs. unat (mr_base r) + unat (mr_length r) \<le> 2 ^ 43"
  defines "s' \<equiv> fold (\<lambda>r s. if allocatable r then mark_range_free (mr_base r) (mr_length r) s else s) rs s"
  shows "pmm_rep s' \<and> s_frame_count s' = s_frame_count s \<and> s_refcount s' = s_refcount s \<and> s_free_frames s' = s_free_frames s \<and>
    s_search_hint s' = s_search_hint s \<and>
    free_set s' = free_set s \<union> {f. f < unat (s_frame_count s) \<and> (\<exists>r \<in> set rs. allocatable r \<and>
      unat (mr_base r) \<le> f * 4096 \<and> f * 4096 + 4096 \<le> unat (mr_base r) + unat (mr_length r))}"
  using assms(1,2) unfolding s'_def
proof (induction rs arbitrary: s)
  case (Cons r rs)
  define s1 where "s1 = (if allocatable r then mark_range_free (mr_base r) (mr_length r) s else s)"
  have b: "unat (mr_base r) + unat (mr_length r) \<le> 2 ^ 43" using Cons.prems(2) by simp
  note m = mark_range_free_ok [OF Cons.prems(1) b]
  have fs: "free_set s1 = free_set s \<union> {f. f < unat (s_frame_count s) \<and> allocatable r \<and> unat (mr_base r) \<le> f * 4096 \<and>
      f * 4096 + 4096 \<le> unat (mr_base r) + unat (mr_length r)}"
    using m by (cases "allocatable r") (simp_all add: s1_def)
  have s1: "pmm_rep s1" "s_frame_count s1 = s_frame_count s" "s_refcount s1 = s_refcount s" "s_free_frames s1 = s_free_frames s"
    "s_search_hint s1 = s_search_hint s" using m Cons.prems(1) by (simp_all add: s1_def)
  have "\<forall>r \<in> set rs. unat (mr_base r) + unat (mr_length r) \<le> 2 ^ 43" using Cons.prems(2) by simp
  note ih = Cons.IH [OF s1(1) this]
  define P where "P r f \<longleftrightarrow> allocatable r \<and> unat (mr_base r) \<le> f * 4096 \<and> f * 4096 + 4096 \<le> unat (mr_base r) + unat (mr_length r)"
    for r and f :: nat
  define t where "t = fold (\<lambda>r s. if allocatable r then mark_range_free (mr_base r) (mr_length r) s else s) rs s1"
  have "free_set t = free_set s \<union> {f. f < unat (s_frame_count s) \<and> (\<exists>r \<in> set (r # rs). allocatable r \<and>
      unat (mr_base r) \<le> f * 4096 \<and> f * 4096 + 4096 \<le> unat (mr_base r) + unat (mr_length r))}"
  proof -
    have "free_set t = (free_set s \<union> {f. f < unat (s_frame_count s) \<and> P r f}) \<union> {f. f < unat (s_frame_count s) \<and> (\<exists>r \<in> set rs. P r f)}"
      using ih unfolding t_def [symmetric] s1(2) fs P_def by simp
    then show ?thesis unfolding P_def [symmetric] by auto
  qed
  with ih s1 show ?case unfolding fold_simps s1_def [symmetric] t_def [symmetric] by simp
qed simp

lemma fold_count:
  assumes "pmm_rep s" "n \<le> unat (s_frame_count s)"
  shows "pmm_rep (fold count_free [0..<n] s) \<and> free_set (fold count_free [0..<n] s) = free_set s \<and>
    s_frame_count (fold count_free [0..<n] s) = s_frame_count s \<and> s_refcount (fold count_free [0..<n] s) = s_refcount s \<and>
    s_search_hint (fold count_free [0..<n] s) = s_search_hint s \<and>
    (s_free_frames s = 0 \<longrightarrow> unat (s_free_frames (fold count_free [0..<n] s)) = card (free_set s \<inter> {..<n}))"
  using assms(2)
proof (induction n)
  case (Suc n)
  define s1 where "s1 = fold count_free [0..<n] s"
  have ih: "pmm_rep s1" "free_set s1 = free_set s" "s_frame_count s1 = s_frame_count s" "s_refcount s1 = s_refcount s"
    "s_search_hint s1 = s_search_hint s" "s_free_frames s = 0 \<longrightarrow> unat (s_free_frames s1) = card (free_set s \<inter> {..<n})"
    using Suc by (simp_all add: s1_def)
  have step: "fold count_free [0..<Suc n] s = count_free n s1" by (simp add: s1_def)
  have iff: "frame_is_used n s1 \<longleftrightarrow> n \<notin> free_set s" using ih(2,3) Suc.prems free_set_iff [of n s1] by auto
  show ?case
  proof (cases "n \<in> free_set s")
    case False
    then have "free_set s \<inter> {..<Suc n} = free_set s \<inter> {..<n}" by (auto simp: less_Suc_eq)
    moreover have "fold count_free [0..<Suc n] s = s1" using False iff step by (simp add: count_free_def)
    ultimately show ?thesis using ih by simp
  next
    case True
    then have "free_set s \<inter> {..<Suc n} = insert n (free_set s \<inter> {..<n})" by (auto simp: less_Suc_eq)
    then have c: "card (free_set s \<inter> {..<Suc n}) = Suc (card (free_set s \<inter> {..<n}))" by simp
    have "card (free_set s \<inter> {..<Suc n}) \<le> card {..<Suc n}" by (intro card_mono) auto
    then have "card (free_set s \<inter> {..<n}) < 2 ^ 31" using c Suc.prems pmm_repD(4) [OF assms(1)] by simp
    then have "s_free_frames s = 0 \<longrightarrow> unat (s_free_frames s1 + 1) = Suc (unat (s_free_frames s1))"
      using ih(6) by (intro impI unat_Suc_word) simp
    moreover have "fold count_free [0..<Suc n] s =
        s1\<lparr>s_free_frames := s_free_frames s1 + 1, s_usable_frames := s_usable_frames s1 + 1\<rparr>"
      using True iff step by (simp add: count_free_def)
    ultimately show ?thesis using ih c by simp
  qed
qed (use assms(1) in simp)

definition clear_of :: "nat \<Rightarrow> u64 \<times> u64 \<Rightarrow> bool" where
  "clear_of f = (\<lambda>(b, n). n = 0 \<or> f * 4096 + 4096 \<le> unat b \<or> unat b + unat n \<le> f * 4096)"

lemma fold_reservations:
  assumes "pmm_counts s" "\<forall>(b, n) \<in> set rs. unat b + unat n \<le> 2 ^ 43"
  shows "pmm_counts (fold (\<lambda>(b, n). pmm_reserve_range b n) rs s) \<and>
    s_frame_count (fold (\<lambda>(b, n). pmm_reserve_range b n) rs s) = s_frame_count s \<and>
    free_set (fold (\<lambda>(b, n). pmm_reserve_range b n) rs s) = {f \<in> free_set s. \<forall>r \<in> set rs. clear_of f r}"
  using assms
proof (induction rs arbitrary: s)
  case (Cons r rs)
  obtain b n where r: "r = (b, n)" by fastforce
  have "unat b + unat n \<le> 2 ^ 43" using Cons.prems(2) r by simp
  note ok = reserve_ok [OF Cons.prems(1) this]
  have "\<forall>(b, n) \<in> set rs. unat b + unat n \<le> 2 ^ 43" using Cons.prems(2) by simp
  from Cons.IH [OF _ this, of "pmm_reserve_range b n s"] ok
  show ?case by (auto simp: r clear_of_def not_less)
qed simp

lemma fold_keeps: "(\<And>x s. g (f x s) = g s) \<Longrightarrow> g (fold f xs s) = g s"
  by (induction xs arbitrary: s) simp_all

lemma frame_count_kept [simp]:
  "s_frame_count (pmm_reserve_range b n s) = s_frame_count s" "s_frame_count (mark_range_free b n s) = s_frame_count s"
  "s_frame_count (count_free f s) = s_frame_count s"
proof -
  have "s_frame_count (snd (fold reserve_one fs x)) = s_frame_count (snd x)" for fs x
    by (rule fold_keeps) (auto simp: reserve_one_def split: prod.splits)
  then show "s_frame_count (pmm_reserve_range b n s) = s_frame_count s"
    by (simp add: pmm_reserve_range_def split_beta Let_def)
  show "s_frame_count (mark_range_free b n s) = s_frame_count s"
    by (simp add: mark_range_free_def) (intro impI fold_keeps, simp)
qed (simp add: count_free_def)

lemma pmm_init_frames:
  assumes "pmm_init kernel_start image_end (Some bi) s = (AF_OK, s')"
  shows "s_frame_count s' = addr_to_frame (align_down (af_boot_info_max_usable_address (Some bi)) AF_FRAME_SIZE)"
proof -
  have r: "s_frame_count (fold (\<lambda>(b, n). pmm_reserve_range b n) rs t) = s_frame_count t" for rs t
    by (rule fold_keeps) (simp split: prod.split)
  have m: "s_frame_count (fold (\<lambda>r s. if allocatable r then mark_range_free (mr_base r) (mr_length r) s else s) rs t) = s_frame_count t" for rs t
    by (rule fold_keeps) simp
  have c: "s_frame_count (fold count_free fs t) = s_frame_count t" for fs t by (rule fold_keeps) simp
  show ?thesis using assms unfolding pmm_init_def Let_def option.case
    by (auto simp: r m c split_beta split: if_splits)
qed

text \<open>Where \<open>pmm_init\<close> puts its metadata.\<close>

definition metadata_base :: "af_boot_info \<Rightarrow> u64" where
  "metadata_base bi = fst (fold (pick_region bi) (regions bi) (0, 0))"

text \<open>
  (C22) Nothing that must survive is ever handed out. When \<open>pmm_init\<close> accepts a boot map (whose ranges
  end below 8 TiB), a frame is free exactly when it lies wholly inside one usable or bootloader
  region and touches none of the reserved ranges: the null page, the boot information's backup, the
  kernel image up to the larger of the two ends reported for it, the manager's own metadata, the
  framebuffer and the ramdisk. The counters are right from the start.
\<close>

theorem pmm_init_safe:
  assumes "pmm_init kernel_start image_end (Some bi) s = (AF_OK, s')"
    and "\<forall>r \<in> set (regions bi). unat (mr_base r) + unat (mr_length r) \<le> 2 ^ 43"
    and "\<forall>(b, n) \<in> set (pmm_reservations kernel_start image_end bi (metadata_base bi) (s_frame_count s')).
      unat b + unat n \<le> 2 ^ 43"
  shows "pmm_inv s' \<and> (\<forall>f. f \<in> free_set s' \<longleftrightarrow>
    (\<exists>r \<in> set (regions bi). allocatable r \<and> unat (mr_base r) \<le> f * 4096 \<and>
       f * 4096 + 4096 \<le> unat (mr_base r) + unat (mr_length r)) \<and>
    (\<forall>(b, n) \<in> set (pmm_reservations kernel_start image_end bi (metadata_base bi) (s_frame_count s')).
       n = 0 \<or> f * 4096 + 4096 \<le> unat b \<or> unat b + unat n \<le> f * 4096))"
proof -
  define highest where "highest = af_boot_info_max_usable_address (Some bi)"
  define frames where "frames = addr_to_frame (align_down highest AF_FRAME_SIZE)"
  define s2 where "s2 = s\<lparr>s_frame_count := frames, s_bitmap := replicate (unat (bitmap_bytes frames)) 0xFF,
      s_refcount := replicate (unat frames) 0, s_free_frames := 0, s_usable_frames := 0, s_search_hint := 0\<rparr>"
  define s3 where "s3 = fold (\<lambda>r s. if allocatable r then mark_range_free (mr_base r) (mr_length r) s else s) (regions bi) s2"
  define s4 where "s4 = fold count_free [0..<unat frames] s3"
  define res where "res = pmm_reservations kernel_start image_end bi (metadata_base bi) frames"
  define s5 where "s5 = fold (\<lambda>(b, n). pmm_reserve_range b n) res s4"
  have ok: "s' = s5\<lparr>s_search_hint := 0\<rparr>" "\<not> frames < 1024"
    using assms(1) unfolding pmm_init_def Let_def option.case highest_def [symmetric] frames_def [symmetric]
    by (auto simp: s5_def s4_def s3_def s2_def res_def metadata_base_def split_beta split: if_splits)
  have hb: "unat highest \<le> 2 ^ 43" using max_usable_bounds(1) [OF assms(2)] by (simp add: highest_def)
  have uf: "unat frames = unat highest div 4096"
    using hb by (simp add: frames_def unat_addr_to_frame unat_align_down div_less_iff_less_mult)
  then have fl: "unat frames \<le> 2 ^ 31" "0 < frames" using hb ok(2) by (simp, auto simp: word_less_nat_alt)
  note room = bitmap_room [OF fl]
  have rep2: "pmm_rep s2" using room fl by (simp add: pmm_rep_def s2_def unat_gt_0)
  have "free_set s2 = {}"
    using room(1) by (auto simp: free_set_def s2_def intro: replicate_used [where n = "unat (bitmap_bytes frames)"])
  with fold_regions [OF rep2 assms(2)]
  have s3: "pmm_rep s3" "s_frame_count s3 = frames" "s_refcount s3 = replicate (unat frames) 0" "s_free_frames s3 = 0"
    "s_search_hint s3 = 0" "free_set s3 = {f. f < unat frames \<and> (\<exists>r \<in> set (regions bi). allocatable r \<and>
      unat (mr_base r) \<le> f * 4096 \<and> f * 4096 + 4096 \<le> unat (mr_base r) + unat (mr_length r))}"
    by (simp_all add: s3_def s2_def)
  have "free_set s3 \<inter> {..<unat frames} = free_set s3" by (auto simp: s3(6))
  with fold_count [OF s3(1), of "unat frames"] s3
  have s4: "pmm_counts s4" "free_set s4 = free_set s3" "s_frame_count s4 = frames"
    using fl(2) by (auto simp: s4_def pmm_counts_def)
  have fc: "s_frame_count s' = frames"
    using pmm_init_frames [OF assms(1)] by (simp add: frames_def highest_def)
  have rb: "\<forall>(b, n) \<in> set res. unat b + unat n \<le> 2 ^ 43" using assms(3) by (simp add: res_def fc)
  note s5 = fold_reservations [OF s4(1) rb, folded s5_def]
  have fs: "free_set s' = {f \<in> free_set s3. \<forall>r \<in> set res. clear_of f r}" using s5 s4(2) by (simp add: ok(1))
  have "(0, AF_FRAME_SIZE) \<in> set res" by (simp add: res_def pmm_reservations_def Let_def)
  then have "0 \<notin> free_set s'" using fs by (force simp: clear_of_def)
  moreover have "pmm_counts s'" using s5 fl(2) s4(3) by (auto simp: ok(1) pmm_counts_def)
  moreover have "f < unat frames" if "r \<in> set (regions bi)" "allocatable r" "f * 4096 + 4096 \<le> unat (mr_base r) + unat (mr_length r)" for f r
    using max_usable_bounds(2) [OF assms(2) that(1,2)] that(3) uf frame_bounds(2) [of f "unat highest"]
    by (simp add: highest_def)
  ultimately show ?thesis
    unfolding fc res_def [symmetric] by (auto simp: pmm_inv_def fs s3(6) clear_of_def split_beta)
qed

text \<open>A machine with 16 MiB at 1 MiB and the kernel image at 2 MiB below it, for the examples.\<close>

definition demo_boot :: af_boot_info where
  "demo_boot = \<lparr>bi_magic = AF_BOOT_INFO_MAGIC, bi_version = 1, bi_size = 12740, bi_firmware = 1, bi_boot_flags = 0,
     bi_kernel_phys_base = 0x2000000, bi_kernel_phys_size = 0x40000, bi_ramdisk_phys_base = 0, bi_ramdisk_size = 0,
     bi_framebuffer = \<lparr>fb_address = 0, fb_size = 0, fb_width = 0, fb_height = 0, fb_pitch = 0, fb_bpp = 0, fb_format = 0\<rparr>,
     bi_memory_region_count = 1,
     bi_memory_regions = replicate 512 \<lparr>mr_base = 0x100000, mr_length = 0x1000000, mr_type = 0\<rparr>\<rparr>"

lemma demo_regions: "regions demo_boot = [\<lparr>mr_base = 0x100000, mr_length = 0x1000000, mr_type = 0\<rparr>]"
  by (simp add: regions_def demo_boot_def)

lemma demo_boot_fields: "bi_kernel_phys_base demo_boot = 0x2000000" "bi_kernel_phys_size demo_boot = 0x40000"
  "bi_boot_flags demo_boot = 0"
  by (simp_all add: demo_boot_def)

lemma demo_highest: "af_boot_info_max_usable_address (Some demo_boot) = 0x1100000"
  by (simp add: af_boot_info_max_usable_address_def af_boot_info_max_address_def demo_regions max_end_def allocatable_def Let_def)

lemma demo_metadata: "fold (pick_region demo_boot) (regions demo_boot) (0, 0) = (0x100000, 0x1000000)"
  by (simp add: demo_regions pick_region_def demo_boot_fields)

lemma demo_frames: "addr_to_frame (align_down 0x1100000 AF_FRAME_SIZE) = 4352"
proof -
  have "unat (align_down (0x1100000 :: u64) AF_FRAME_SIZE) = 0x1100000" unfolding unat_align_down by simp
  then have "unat (addr_to_frame (align_down 0x1100000 AF_FRAME_SIZE)) = 4352" unfolding unat_addr_to_frame by simp
  then show ?thesis unfolding word_unat_eq_iff by simp
qed

lemma demo_metadata_bytes: "metadata_bytes 4352 = 8448"
  by (simp add: metadata_bytes_def bitmap_bytes_def)

theorem pmm_init_safe_witness:
  "\<forall>s. \<exists>s'. pmm_init 0x2000000 0x2060000 (Some demo_boot) s = (AF_OK, s') \<and> 0x200 \<in> free_set s' \<and> 0x100 \<notin> free_set s'"
proof
  fix s
  obtain s' where r: "pmm_init 0x2000000 0x2060000 (Some demo_boot) s = (AF_OK, s')"
    unfolding pmm_init_def Let_def option.case demo_highest demo_frames demo_metadata
    by (simp add: demo_metadata_bytes)
  have fc: "s_frame_count s' = 4352" using pmm_init_frames [OF r] by (simp only: demo_highest demo_frames)
  have res: "pmm_reservations 0x2000000 0x2060000 demo_boot (metadata_base demo_boot) 4352 =
      [(0, 4096), (0x7000, 12740), (0x2000000, 0x60000), (0x100000, 8448)]"
    by (simp add: pmm_reservations_def metadata_base_def demo_metadata demo_boot_fields demo_metadata_bytes Let_def)
  from pmm_init_safe [OF r, unfolded fc res demo_regions] r
  show "\<exists>s'. pmm_init 0x2000000 0x2060000 (Some demo_boot) s = (AF_OK, s') \<and> 0x200 \<in> free_set s' \<and> 0x100 \<notin> free_set s'"
    by (auto simp: allocatable_def)
qed


text \<open>Eight frames, the first two in use.\<close>

definition demo_pmm :: pmm_state where
  "demo_pmm = \<lparr>s_bitmap = [3], s_refcount = [0, 1, 0, 0, 0, 0, 0, 0], s_frame_count = 8, s_usable_frames = 6,
     s_free_frames = 6, s_search_hint = 2, phys_mem = \<lambda>_. 0\<rparr>"

lemma demo_pmm_used: "f < 8 \<Longrightarrow> frame_is_used f demo_pmm \<longleftrightarrow> f < 2"
proof -
  assume "f < 8"
  then have "f = 0 \<or> f = 1 \<or> f = 2 \<or> f = 3 \<or> f = 4 \<or> f = 5 \<or> f = 6 \<or> f = 7" by linarith
  then show ?thesis by (elim disjE) (simp_all add: frame_is_used_def demo_pmm_def)
qed

lemma demo_pmm_free: "free_set demo_pmm = {2..<8}"
  using demo_pmm_used by (auto simp: free_set_def) (auto simp: demo_pmm_def)

lemma demo_pmm_inv: "pmm_inv demo_pmm"
proof -
  have "s_refcount demo_pmm ! f = 0" if "f \<in> {2..<8}" for f
  proof -
    from that have "f = 2 \<or> f = 3 \<or> f = 4 \<or> f = 5 \<or> f = 6 \<or> f = 7" by (simp, linarith)
    then show ?thesis by (elim disjE) (simp_all add: demo_pmm_def)
  qed
  then show ?thesis unfolding pmm_inv_def pmm_counts_def pmm_rep_def demo_pmm_free by (simp add: demo_pmm_def)
qed




text \<open>
  (C23) No frame has two owners. A client that takes blocks of any sizes and gives back whole blocks it
  holds, in any order, always gets an answer, and at every point the blocks it holds are pairwise
  disjoint, disjoint from what is still free, and together with it make up exactly what was free or
  held at the start.
\<close>

theorem pmm_blocks_disjoint:
  assumes "pmm_inv s"
  shows "\<exists>live s'. serve pmm_alloc_frames pmm_free_frames rs ([], s) = Some (live, s') \<and> pmm_inv s' \<and>
    disjoint_blocks live \<and> free_set s' \<inter> blocks live = {} \<and> free_set s' \<union> blocks live = free_set s"
proof -
  have "pmm.live_ok [] s" by (simp add: pmm.live_ok_def disjoint_blocks_def blocks_def)
  from pmm.served [OF assms this, of rs] show ?thesis by (auto simp: pmm.live_ok_def blocks_def)
qed

theorem pmm_blocks_disjoint_witness:
  "\<exists>live s'. serve pmm_alloc_frames pmm_free_frames [Take 2, Take 1, Give 1, Take 3] ([], demo_pmm) = Some (live, s') \<and>
     free_set s' \<union> blocks live = {2..<8}"
  using pmm_blocks_disjoint [OF demo_pmm_inv, of "[Take 2, Take 1, Give 1, Take 3]"] by (auto simp: demo_pmm_free)

section \<open>Where the reference counts fail\<close>

text \<open>
  The count saturates at 255 when references are taken but not when they are dropped: a frame with
  256 owners is freed when 255 of them have let go.
\<close>

lemma ref_adds:
  assumes "pmm_rep s" "frame_valid a s" "unat (s_refcount s ! unat (addr_to_frame a)) + n \<le> 255"
  shows "pmm_rep ((pmm_frame_ref a ^^ n) s) \<and> frame_valid a ((pmm_frame_ref a ^^ n) s) \<and>
    s_frame_count ((pmm_frame_ref a ^^ n) s) = s_frame_count s \<and>
    unat (s_refcount ((pmm_frame_ref a ^^ n) s) ! unat (addr_to_frame a)) = unat (s_refcount s ! unat (addr_to_frame a)) + n"
  using assms
proof (induction n)
  case (Suc n)
  define t where "t = (pmm_frame_ref a ^^ n) s"
  define f where "f = unat (addr_to_frame a)"
  have t: "pmm_rep t" "frame_valid a t" "s_frame_count t = s_frame_count s" "unat (s_refcount t ! f) = unat (s_refcount s ! f) + n"
    using Suc by (simp_all add: t_def f_def)
  have l: "f < length (s_refcount t)" using t(2) pmm_repD(2) [OF t(1)] by (simp add: frame_valid_def f_def word_less_nat_alt)
  have "unat (s_refcount t ! f) < 255" using t(4) Suc.prems(3) by (simp add: f_def)
  then have "s_refcount t ! f \<noteq> 255" "unat (s_refcount t ! f + 1) = Suc (unat (s_refcount t ! f))"
    by (auto intro!: unat_Suc_word)
  then have "pmm_frame_ref a t = set_refcount f (s_refcount t ! f + 1) t"
    "unat (s_refcount (pmm_frame_ref a t) ! f) = Suc (unat (s_refcount t ! f))"
    using t(2) l by (simp_all add: pmm_frame_ref_def f_def [symmetric] Let_def)
  then show ?case using t by (simp add: t_def [symmetric] f_def [symmetric] frame_valid_def)
qed simp

lemma unref_drops:
  assumes "pmm_rep s" "frame_valid a s" "n < unat (s_refcount s ! unat (addr_to_frame a))"
  shows "pmm_rep ((pmm_frame_unref a ^^ n) s) \<and> frame_valid a ((pmm_frame_unref a ^^ n) s) \<and>
    s_frame_count ((pmm_frame_unref a ^^ n) s) = s_frame_count s \<and>
    unat (s_refcount ((pmm_frame_unref a ^^ n) s) ! unat (addr_to_frame a)) = unat (s_refcount s ! unat (addr_to_frame a)) - n"
  using assms
proof (induction n)
  case (Suc n)
  define t where "t = (pmm_frame_unref a ^^ n) s"
  define f where "f = unat (addr_to_frame a)"
  have t: "pmm_rep t" "frame_valid a t" "s_frame_count t = s_frame_count s" "unat (s_refcount t ! f) = unat (s_refcount s ! f) - n"
    using Suc by (simp_all add: t_def f_def)
  have l: "f < length (s_refcount t)" using t(2) pmm_repD(2) [OF t(1)] by (simp add: frame_valid_def f_def word_less_nat_alt)
  have more: "1 < unat (s_refcount t ! f)" using t(4) Suc.prems(3) by (simp add: f_def)
  then have nz: "s_refcount t ! f \<noteq> 0" by auto
  then have u: "unat (s_refcount t ! f - 1) = unat (s_refcount t ! f) - 1" by (rule unat_minus_one_word)
  then have "s_refcount t ! f - 1 \<noteq> 0" using more by (metis One_nat_def diff_is_0_eq not_less unat_0)
  then have "pmm_frame_unref a t = set_refcount f (s_refcount t ! f - 1) t"
    using t(2) l nz by (simp add: pmm_frame_unref_def f_def [symmetric] Let_def)
  then show ?case using t u l by (simp add: t_def [symmetric] f_def [symmetric] frame_valid_def)
qed simp

theorem saturated_frame_freed:
  assumes "pmm_inv s" "0 < f" "f < s_frame_count s" "s_refcount s ! unat f = 1"
  shows "unat f \<in> free_set ((pmm_frame_unref (frame_to_addr f) ^^ 255) ((pmm_frame_ref (frame_to_addr f) ^^ 255) s))"
proof -
  define a where "a = frame_to_addr f"
  have rep: "pmm_rep s" using assms(1) by (rule pmm_invD)
  have v: "frame_valid a s" using frame_valid_addr [OF rep] assms(2,3) by (auto simp: a_def)
  have af: "unat (addr_to_frame a) = unat f" by (simp add: a_def)
  define t where "t = (pmm_frame_ref a ^^ 254) s"
  have t: "pmm_rep t" "frame_valid a t" "s_frame_count t = s_frame_count s" "unat (s_refcount t ! unat f) = 255"
    using ref_adds [OF rep v, of 254] assms(4) by (simp_all add: af t_def)
  have t255: "s_refcount t ! unat f = 255" using t(4) by (simp add: word_unat_eq_iff)
  have last_ref: "pmm_frame_ref a t = t" using t255 t(2) by (simp add: pmm_frame_ref_def af Let_def)
  have "(pmm_frame_ref a ^^ Suc 254) s = t" using last_ref by (simp only: funpow.simps comp_apply t_def [symmetric])
  then have up: "(pmm_frame_ref a ^^ 255) s = t" by (simp only: numeral_eq_Suc pred_numeral_simps BitM.simps)
  define w where "w = (pmm_frame_unref a ^^ 254) t"
  have w: "pmm_rep w" "frame_valid a w" "s_frame_count w = s_frame_count s" "unat (s_refcount w ! unat f) = 1"
    using unref_drops [OF t(1,2), of 254] t(3,4) by (simp_all add: af w_def)
  have w1: "s_refcount w ! unat f = 1" using w(4) by (simp add: word_unat_eq_iff)
  have l: "unat f < unat (s_frame_count w)" using assms(3) w(3) by (simp add: word_less_nat_alt)
  then have ll: "unat f < length (s_refcount w)" using pmm_repD(2) [OF w(1)] by simp
  have "free_set (pmm_frame_unref a w) = insert (unat f) (free_set w)"
    using w(2) w1 ll l w(1) free_set_mark_free [of "set_refcount (unat f) 0 w" "unat f"]
    by (simp add: pmm_frame_unref_def af Let_def)
  moreover have "(pmm_frame_unref a ^^ 255) t = pmm_frame_unref a w"
  proof -
    have "(255 :: nat) = Suc 254" by simp
    then show ?thesis by (simp only: funpow.simps comp_apply w_def)
  qed
  ultimately show ?thesis by (simp add: up a_def [symmetric])
qed

text \<open>
  \<open>frame_valid\<close> looks at the frame number after it has been cut to 32 bits, so an address 16 TiB up is
  taken for frame 0: freeing it makes the null frame available, and the next single allocation takes
  that frame and returns its address 0, which tells the caller that memory has run out.
\<close>

theorem free_beyond_16T_frees_null:
  assumes "pmm_inv s" "s_refcount s ! 0 \<le> 1"
  shows "\<exists>s' s''. pmm_free_frame 0x100000000000 s = Some s' \<and> 0 \<in> free_set s' \<and>
    pmm_alloc_frames 1 s' = (AF_FRAME_INVALID, s'') \<and> s_free_frames s'' = s_free_frames s' - 1 \<and> 0 \<notin> free_set s''"
proof -
  note i = pmm_invD [OF assms(1)]
  note r = pmm_repD [OF i(1)]
  have a0: "addr_to_frame 0x100000000000 = 0" unfolding word_unat_eq_iff unat_addr_to_frame by simp
  have v: "frame_valid 0x100000000000 s"
    using r i(1) by (simp add: frame_valid_def a0 aligned_iff word_less_nat_alt)
  have used: "frame_is_used 0 s" using i(3) r(3) by (simp add: free_set_iff)
  have rc: "\<not> 1 < s_refcount s ! 0" using assms(2) by simp
  define s1 where "s1 = (set_refcount 0 0 (frame_mark_free 0 s))\<lparr>s_free_frames := s_free_frames s + 1\<rparr>"
  define s' where "s' = (if 0 < s_search_hint s then s1\<lparr>s_search_hint := 0\<rparr> else s1)"
  have run: "pmm_free_frame 0x100000000000 s = Some s'"
    using v used rc by (simp add: pmm_free_frame_def a0 Let_def s'_def s1_def)
  have fs: "free_set s' = insert 0 (free_set s)" "pmm_rep s'" "s_frame_count s' = s_frame_count s" "s_search_hint s' = 0"
    "s_free_frames s' = s_free_frames s + 1"
    using free_set_mark_free [OF i(1) r(3)] i(1) by (auto simp: s'_def s1_def word_gt_0)
  have "card (free_set s) < 2 ^ 31"
  proof -
    have "free_set s \<subseteq> {1..<unat (s_frame_count s)}"
      using i(3) by (auto simp: free_set_iff) (metis One_nat_def Suc_leI not_gr_zero free_set_iff)
    then have "card (free_set s) \<le> unat (s_frame_count s) - 1" using card_mono [of "{1..<unat (s_frame_count s)}"] by force
    then show ?thesis using r(3,4) by simp
  qed
  then have "unat (s_free_frames s + 1) = Suc (unat (s_free_frames s))" using i(2) by (intro unat_Suc_word) simp
  then have enough: "\<not> s_free_frames s' < 1" using fs(5) by (simp add: word_less_nat_alt)
  have h0: "hinted s' 0 = 0" using fs(4) by (simp add: hinted_def)
  have "\<not> frame_is_used 0 s'" using fs(1,3) r(3) free_set_iff [of 0 s'] by simp
  then have "find (\<lambda>i. \<not> frame_is_used (unat (hinted s' i)) s') [0..<unat (s_frame_count s')] = Some 0"
    using r(3) fs(3) h0 by (simp add: upt_conv_Cons)
  then have al: "pmm_alloc_frames 1 s' = (0, (take_frame 0 s')\<lparr>s_free_frames := s_free_frames s' - 1,
      s_search_hint := (0 + 1) mod s_frame_count s'\<rparr>)"
    using pmm_repD(1) [OF fs(2)] enough h0 by (simp add: pmm_alloc_frames_def Let_def)
  have "0 \<notin> free_set (take_frame 0 s')" using free_set_take [OF fs(2), of 0] r(3) fs(3) by simp
  with run fs al show ?thesis by simp
qed

end
