(* ===== verification/Paging.thy ===== *)
theory Paging
  imports Pmm
begin

text \<open>
  The page tables (\<open>kernel/arch/x86_64/paging.c\<close>), behind the address-space calls of \<open>hal.h\<close>. Physical
  memory is identity-mapped, so a table is its frame address; the frames that hold tables are seen as
  512 entries each. CR3 is a field; the TLB is not modelled.
\<close>

section \<open>Entries\<close>

abbreviation (input) "PTE_PRESENT \<equiv> (0x1 :: u64)"
abbreviation (input) "PTE_WRITABLE \<equiv> (0x2 :: u64)"
abbreviation (input) "PTE_USER \<equiv> (0x4 :: u64)"
abbreviation (input) "PTE_PWT \<equiv> (0x8 :: u64)"
abbreviation (input) "PTE_PCD \<equiv> (0x10 :: u64)"
abbreviation (input) "PTE_HUGE \<equiv> (0x80 :: u64)"
abbreviation (input) "PTE_GLOBAL \<equiv> (0x100 :: u64)"
abbreviation (input) "PTE_NX \<equiv> (0x8000000000000000 :: u64)"
abbreviation (input) "PTE_ADDR_MASK \<equiv> (0x000FFFFFFFFFF000 :: u64)"

abbreviation (input) "HAL_PRESENT \<equiv> (0x1 :: u32)"
abbreviation (input) "HAL_WRITABLE \<equiv> (0x2 :: u32)"
abbreviation (input) "HAL_USER \<equiv> (0x4 :: u32)"
abbreviation (input) "HAL_EXEC \<equiv> (0x8 :: u32)"
abbreviation (input) "HAL_GLOBAL \<equiv> (0x10 :: u32)"
abbreviation (input) "HAL_NOCACHE \<equiv> (0x20 :: u32)"
abbreviation (input) "HAL_DEVICE \<equiv> (0x40 :: u32)"
abbreviation (input) "HAL_HUGE \<equiv> (0x80 :: u32)"

abbreviation (input) "AF_PAGE_SIZE \<equiv> (4096 :: u64)"
abbreviation (input) "AF_GIB \<equiv> (0x40000000 :: u64)"
abbreviation (input) "AF_USER_PML4_INDEX \<equiv> (1 :: nat)"

definition hal_flags_to_pte :: "u32 \<Rightarrow> u64" where
  "hal_flags_to_pte flags =
     (if flags AND HAL_PRESENT \<noteq> 0 then PTE_PRESENT else 0) OR
     (if flags AND HAL_WRITABLE \<noteq> 0 then PTE_WRITABLE else 0) OR
     (if flags AND HAL_USER \<noteq> 0 then PTE_USER else 0) OR
     (if flags AND HAL_GLOBAL \<noteq> 0 then PTE_GLOBAL else 0) OR
     (if flags AND HAL_NOCACHE \<noteq> 0 then PTE_PCD else 0) OR
     (if flags AND HAL_DEVICE \<noteq> 0 then PTE_PCD OR PTE_PWT else 0) OR
     (if flags AND HAL_HUGE \<noteq> 0 then PTE_HUGE else 0) OR
     (if flags AND HAL_EXEC = 0 then PTE_NX else 0)"

definition pte_to_hal_flags :: "u64 \<Rightarrow> u32" where
  "pte_to_hal_flags pte =
     (if pte AND PTE_PRESENT \<noteq> 0 then HAL_PRESENT else 0) OR
     (if pte AND PTE_WRITABLE \<noteq> 0 then HAL_WRITABLE else 0) OR
     (if pte AND PTE_USER \<noteq> 0 then HAL_USER else 0) OR
     (if pte AND PTE_GLOBAL \<noteq> 0 then HAL_GLOBAL else 0) OR
     (if pte AND PTE_HUGE \<noteq> 0 then HAL_HUGE else 0) OR
     (if pte AND PTE_PCD \<noteq> 0 then HAL_NOCACHE else 0) OR
     (if pte AND PTE_NX = 0 then HAL_EXEC else 0)"

definition present :: "u64 \<Rightarrow> bool" where
  "present e \<longleftrightarrow> e AND PTE_PRESENT \<noteq> 0"

definition huge :: "u64 \<Rightarrow> bool" where
  "huge e \<longleftrightarrow> e AND PTE_HUGE \<noteq> 0"

definition table_of :: "u64 \<Rightarrow> u64" where
  "table_of e = e AND PTE_ADDR_MASK"

definition pml4_index :: "u64 \<Rightarrow> nat" where
  "pml4_index va = unat (drop_bit 39 va AND 0x1FF)"

definition pdpt_index :: "u64 \<Rightarrow> nat" where
  "pdpt_index va = unat (drop_bit 30 va AND 0x1FF)"

definition pd_index :: "u64 \<Rightarrow> nat" where
  "pd_index va = unat (drop_bit 21 va AND 0x1FF)"

definition pt_index :: "u64 \<Rightarrow> nat" where
  "pt_index va = unat (drop_bit 12 va AND 0x1FF)"

section \<open>State\<close>

record vm_state =
  frames :: pmm_state
  entries :: "u64 \<Rightarrow> nat \<Rightarrow> u64"
  page_root :: u64

definition set_entry :: "u64 \<Rightarrow> nat \<Rightarrow> u64 \<Rightarrow> vm_state \<Rightarrow> vm_state" where
  "set_entry t i e s = s\<lparr>entries := (entries s)(t := (entries s t)(i := e))\<rparr>"

text \<open>A fresh table is a zeroed frame; 0 is the failure.\<close>

definition alloc_table :: "vm_state \<Rightarrow> u64 \<times> vm_state" where
  "alloc_table s =
     (let (frame, p) = pmm_alloc_frame_z (frames s)
      in if frame = AF_FRAME_INVALID then (AF_FRAME_INVALID, s\<lparr>frames := p\<rparr>)
         else (frame, s\<lparr>frames := p, entries := (entries s)(frame := (\<lambda>_. 0))\<rparr>))"

definition walk_to_next_level :: "u64 \<Rightarrow> nat \<Rightarrow> u32 \<Rightarrow> vm_state \<Rightarrow> u64 option \<times> vm_state" where
  "walk_to_next_level parent index flags s =
     (let entry = entries s parent index in
      if present entry then
        if huge entry then (None, s)
        else if flags AND HAL_USER \<noteq> 0 \<and> entry AND PTE_USER = 0
          then (Some (table_of entry), set_entry parent index (entry OR PTE_USER) s)
          else (Some (table_of entry), s)
      else
        let (table, s1) = alloc_table s in
        if table = AF_FRAME_INVALID then (None, s1)
        else let new_entry = table OR PTE_PRESENT OR PTE_WRITABLE OR (if flags AND HAL_USER \<noteq> 0 then PTE_USER else 0)
          in (Some table, set_entry parent index new_entry s1))"

section \<open>Address spaces\<close>

definition hal_get_page_table :: "vm_state \<Rightarrow> u64" where
  "hal_get_page_table s = page_root s"

definition hal_set_page_table :: "u64 \<Rightarrow> vm_state \<Rightarrow> vm_state" where
  "hal_set_page_table root s = s\<lparr>page_root := root\<rparr>"

definition hal_pt_create :: "vm_state \<Rightarrow> u64 \<times> vm_state" where
  "hal_pt_create s =
     (let (root, s1) = alloc_table s in if root = AF_FRAME_INVALID then (0, s1) else (root, s1))"

definition hal_pt_create_user :: "vm_state \<Rightarrow> u64 \<times> vm_state" where
  "hal_pt_create_user s =
     (let current = hal_get_page_table s in
      if current = 0 then (0, s)
      else let (root, s1) = alloc_table s in
        if root = AF_FRAME_INVALID then (0, s1)
        else (root, fold (\<lambda>i t. if i = AF_USER_PML4_INDEX then t else set_entry root i (entries t current i) t) [0..<512] s1))"

text \<open>A loop that a failed assertion in the memory manager ends.\<close>

fun each :: "('a \<Rightarrow> 's \<Rightarrow> 's option) \<Rightarrow> 'a list \<Rightarrow> 's \<Rightarrow> 's option" where
  "each f [] s = Some s"
| "each f (x # xs) s = (case f x s of None \<Rightarrow> None | Some s1 \<Rightarrow> each f xs s1)"

definition unref_frame :: "u64 \<Rightarrow> vm_state \<Rightarrow> vm_state option" where
  "unref_frame a s = Some (s\<lparr>frames := pmm_frame_unref a (frames s)\<rparr>)"

definition free_frame :: "u64 \<Rightarrow> vm_state \<Rightarrow> vm_state option" where
  "free_frame a s = (case pmm_free_frame a (frames s) of None \<Rightarrow> None | Some p \<Rightarrow> Some (s\<lparr>frames := p\<rparr>))"

definition destroy_pte :: "u64 \<Rightarrow> nat \<Rightarrow> vm_state \<Rightarrow> vm_state option" where
  "destroy_pte pt i s =
     (let pte = entries s pt i in if present pte then unref_frame (table_of pte) s else Some s)"

definition destroy_pde :: "u64 \<Rightarrow> nat \<Rightarrow> vm_state \<Rightarrow> vm_state option" where
  "destroy_pde pd i s =
     (let pde = entries s pd i in
      if \<not> present pde then Some s
      else if huge pde then unref_frame (table_of pde) s
      else case each (destroy_pte (table_of pde)) [0..<512] s of
          None \<Rightarrow> None | Some s1 \<Rightarrow> free_frame (table_of pde) s1)"

definition destroy_pdpte :: "u64 \<Rightarrow> nat \<Rightarrow> vm_state \<Rightarrow> vm_state option" where
  "destroy_pdpte pdpt i s =
     (let pdpte = entries s pdpt i in
      if \<not> present pdpte then Some s
      else case each (destroy_pde (table_of pdpte)) [0..<512] s of
          None \<Rightarrow> None | Some s1 \<Rightarrow> free_frame (table_of pdpte) s1)"

definition destroy_pml4e :: "u64 \<Rightarrow> nat \<Rightarrow> vm_state \<Rightarrow> vm_state option" where
  "destroy_pml4e pml4 i s =
     (let pml4e = entries s pml4 i in
      if \<not> present pml4e then Some s
      else if pml4e AND PTE_USER = 0 then Some s
      else case each (destroy_pdpte (table_of pml4e)) [0..<512] s of
          None \<Rightarrow> None | Some s1 \<Rightarrow> free_frame (table_of pml4e) s1)"

definition hal_pt_destroy :: "u64 \<Rightarrow> vm_state \<Rightarrow> vm_state option" where
  "hal_pt_destroy root s =
     (if root = 0 then Some s
      else case each (destroy_pml4e root) [0..<512] s of None \<Rightarrow> None | Some s1 \<Rightarrow> free_frame root s1)"

section \<open>Mapping\<close>

definition hal_map_page :: "u64 \<Rightarrow> u64 \<Rightarrow> u64 \<Rightarrow> u32 \<Rightarrow> vm_state \<Rightarrow> af_status \<times> vm_state" where
  "hal_map_page root va pa flags s =
     (if root = 0 then (AF_ERR_INVAL, s)
      else if \<not> is_aligned va AF_PAGE_SIZE \<or> \<not> is_aligned pa AF_PAGE_SIZE then (AF_ERR_INVAL, s)
      else case walk_to_next_level root (pml4_index va) flags s of
          (None, s1) \<Rightarrow> (AF_ERR_NOMEM, s1)
        | (Some pdpt, s1) \<Rightarrow>
      (case walk_to_next_level pdpt (pdpt_index va) flags s1 of
          (None, s2) \<Rightarrow> (AF_ERR_NOMEM, s2)
        | (Some pd, s2) \<Rightarrow>
      (case walk_to_next_level pd (pd_index va) flags s2 of
          (None, s3) \<Rightarrow> (AF_ERR_NOMEM, s3)
        | (Some pt, s3) \<Rightarrow>
            let pte = entries s3 pt (pt_index va) in
            if present pte \<and> table_of pte \<noteq> pa then (AF_ERR_EXIST, s3)
            else (AF_OK, set_entry pt (pt_index va) ((pa AND PTE_ADDR_MASK) OR hal_flags_to_pte flags) s3))))"

text \<open>The pages still to map, by their index.\<close>

fun map_pages :: "u64 list \<Rightarrow> u64 \<Rightarrow> u64 \<Rightarrow> u64 \<Rightarrow> u32 \<Rightarrow> vm_state \<Rightarrow> af_status \<times> vm_state" where
  "map_pages [] root va pa flags s = (AF_OK, s)"
| "map_pages (i # is) root va pa flags s =
     (let (rc, s1) = hal_map_page root (va + i * AF_PAGE_SIZE) (pa + i * AF_PAGE_SIZE) flags s
      in if af_status_err rc then (rc, s1) else map_pages is root va pa flags s1)"

definition hal_map_range :: "u64 \<Rightarrow> u64 \<Rightarrow> u64 \<Rightarrow> u64 \<Rightarrow> u32 \<Rightarrow> vm_state \<Rightarrow> af_status \<times> vm_state" where
  "hal_map_range root va pa len flags s =
     (if len = 0 then (AF_ERR_INVAL, s)
      else map_pages (map of_nat [0..<unat (align_up len AF_PAGE_SIZE div AF_PAGE_SIZE)]) root va pa flags s)"

definition hal_unmap_page :: "u64 \<Rightarrow> u64 \<Rightarrow> vm_state \<Rightarrow> af_status \<times> vm_state" where
  "hal_unmap_page root va s =
     (if root = 0 then (AF_ERR_INVAL, s)
      else let pml4e = entries s root (pml4_index va) in
        if \<not> present pml4e then (AF_ERR_NOENT, s)
        else let pdpte = entries s (table_of pml4e) (pdpt_index va) in
          if \<not> present pdpte then (AF_ERR_NOENT, s)
          else if huge pdpte then (AF_ERR_NOTSUP, s)
          else let pde = entries s (table_of pdpte) (pd_index va) in
            if \<not> present pde then (AF_ERR_NOENT, s)
            else if huge pde then (AF_ERR_NOTSUP, s)
            else if \<not> present (entries s (table_of pde) (pt_index va)) then (AF_ERR_NOENT, s)
            else (AF_OK, set_entry (table_of pde) (pt_index va) 0 s))"

definition hal_unmap_range :: "u64 \<Rightarrow> u64 \<Rightarrow> u64 \<Rightarrow> vm_state \<Rightarrow> vm_state" where
  "hal_unmap_range root va len s =
     fold (\<lambda>i t. snd (hal_unmap_page root (va + of_nat i * AF_PAGE_SIZE) t))
       [0..<unat (align_up len AF_PAGE_SIZE div AF_PAGE_SIZE)] s"

definition hal_translate :: "u64 \<Rightarrow> u64 \<Rightarrow> vm_state \<Rightarrow> u64" where
  "hal_translate root va s =
     (if root = 0 then 0
      else let pml4e = entries s root (pml4_index va) in
        if \<not> present pml4e then 0
        else let pdpte = entries s (table_of pml4e) (pdpt_index va) in
          if \<not> present pdpte then 0
          else if huge pdpte then table_of pdpte OR (va AND 0x3FFFFFFF)
          else let pde = entries s (table_of pdpte) (pd_index va) in
            if \<not> present pde then 0
            else if huge pde then table_of pde OR (va AND 0x1FFFFF)
            else let pte = entries s (table_of pde) (pt_index va) in
              if \<not> present pte then 0 else table_of pte OR (va AND 0xFFF))"

definition hal_query_flags :: "u64 \<Rightarrow> u64 \<Rightarrow> vm_state \<Rightarrow> u32" where
  "hal_query_flags root va s =
     (if root = 0 then 0
      else let pml4e = entries s root (pml4_index va) in
        if \<not> present pml4e then 0
        else let pdpte = entries s (table_of pml4e) (pdpt_index va) in
          if \<not> present pdpte then 0
          else if huge pdpte then pte_to_hal_flags pdpte
          else let pde = entries s (table_of pdpte) (pd_index va) in
            if \<not> present pde then 0
            else if huge pde then pte_to_hal_flags pde
            else let pte = entries s (table_of pde) (pt_index va) in
              if \<not> present pte then 0 else pte_to_hal_flags pte)"

section \<open>The boot-time tables\<close>

text \<open>\<open>fb\<close> is the end of the framebuffer when the loader reported one. A failed allocation panics.\<close>

definition identity_limit :: "u64 option \<Rightarrow> vm_state \<Rightarrow> u64" where
  "identity_limit fb s =
     (let highest = pmm_max_address (frames s) in
      case fb of None \<Rightarrow> highest | Some fb_end \<Rightarrow> if highest < fb_end then fb_end else highest)"

definition pdpt_needed :: "u64 \<Rightarrow> u32" where
  "pdpt_needed highest =
     (let bytes0 = align_up highest AF_GIB;
          bytes = (if 512 * AF_GIB < bytes0 then 512 * AF_GIB else bytes0);
          n = ucast (bytes div AF_GIB)
      in if n = 0 then 1 else n)"

fun fill_pd :: "u64 \<Rightarrow> u64 \<Rightarrow> nat \<Rightarrow> nat list \<Rightarrow> vm_state \<Rightarrow> vm_state" where
  "fill_pd highest pd gib [] s = s"
| "fill_pd highest pd gib (i # is) s =
     (let phys = push_bit 30 (of_nat gib) + push_bit 21 (of_nat i) in
      if highest \<le> phys then s
      else fill_pd highest pd gib is (set_entry pd i (phys OR PTE_PRESENT OR PTE_WRITABLE OR PTE_HUGE) s))"

definition map_gib :: "u64 \<Rightarrow> u64 \<Rightarrow> nat \<Rightarrow> vm_state \<Rightarrow> vm_state option" where
  "map_gib highest pdpt gib s =
     (let (pd, s1) = alloc_table s in
      if pd = AF_FRAME_INVALID then None
      else Some (fill_pd highest pd gib [0..<512] (set_entry pdpt gib (pd OR PTE_PRESENT OR PTE_WRITABLE) s1)))"

definition af_x86_paging_bootstrap :: "u64 option \<Rightarrow> vm_state \<Rightarrow> vm_state option" where
  "af_x86_paging_bootstrap fb s =
     (let (root, s1) = alloc_table s in
      if root = AF_FRAME_INVALID then None
      else let highest = identity_limit fb s1; (pdpt, s2) = alloc_table s1 in
        if pdpt = AF_FRAME_INVALID then None
        else case each (map_gib highest pdpt) [0..<unat (pdpt_needed highest)]
                 (set_entry root 0 (pdpt OR PTE_PRESENT OR PTE_WRITABLE) s2) of
            None \<Rightarrow> None
          | Some s3 \<Rightarrow> Some (hal_set_page_table root s3))"

section \<open>Frames for tables\<close>

definition table_frame :: "vm_state \<Rightarrow> u64 \<Rightarrow> bool" where
  "table_frame s t \<longleftrightarrow> t \<noteq> 0 \<and> frame_address t \<and> frame_number t \<notin> free_set (frames s)"

lemma set_entry_frame [simp]:
  "frames (set_entry t i e s) = frames s" "page_root (set_entry t i e s) = page_root s"
  "entries (set_entry t i e s) t' i' = (if t' = t \<and> i' = i then e else entries s t' i')"
  by (simp_all add: set_entry_def)

lemma alloc_table_ok:
  assumes "pmm_inv (frames s)" "alloc_table s = (t, s')"
  shows "page_root s' = page_root s \<and> pmm_inv (frames s') \<and>
     (if t = 0 then entries s' = entries s \<and> free_set (frames s') = free_set (frames s)
      else frame_address t \<and> frame_number t \<in> free_set (frames s) \<and>
        free_set (frames s') = free_set (frames s) - {frame_number t} \<and> entries s' = (entries s)(t := (\<lambda>_. 0)))"
proof -
  obtain p where p: "pmm_alloc_frames 1 (frames s) = (t, p)"
    using assms(2)
    by (auto simp: alloc_table_def pmm_alloc_frame_z_def pmm_alloc_frame_def Let_def split: prod.splits if_splits)
  show ?thesis
  proof (cases "t = 0")
    case True
    then show ?thesis
      using pmm.alloc_none [OF assms(1), of 1 p] p assms
      by (auto simp: alloc_table_def pmm_alloc_frame_z_def pmm_alloc_frame_def)
  next
    case False
    have "block t 1 = {frame_number t}" by (auto simp: block_def frame_number_def)
    then show ?thesis
      using pmm.alloc_some [OF assms(1) p False] assms(2) p False
      by (auto simp: alloc_table_def pmm_alloc_frame_z_def pmm_alloc_frame_def)
  qed
qed

section \<open>Entry bits\<close>

lemma addr_mask: "PTE_ADDR_MASK = push_bit 12 (mask 40)"
  by (simp add: mask_eq_exp_minus_1 push_bit_eq_mult)

lemma bit_table_of: "bit (table_of e) n \<longleftrightarrow> bit e n \<and> 12 \<le> n \<and> n < 52"
  unfolding table_of_def addr_mask by (auto simp: bit_simps)

lemma frame_bits: "frame_address t \<Longrightarrow> bit t n \<Longrightarrow> 12 \<le> n \<and> n < 44"
proof -
  assume "frame_address t" "bit t n"
  then have "bit (push_bit 12 (ucast (addr_to_frame t) :: u64)) n"
    by (simp add: frame_address_def frame_to_addr_def)
  then have "12 \<le> n" "bit (addr_to_frame t) (n - 12)" by (auto simp: bit_simps)
  then show ?thesis using bit_imp_le_length [of "addr_to_frame t" "n - 12"] by simp
qed

lemma present_bit: "present e \<longleftrightarrow> bit e 0"
  by (simp add: present_def and_one_eq bit_0 odd_iff_mod_2_eq_one)

lemma huge_bit: "huge e \<longleftrightarrow> bit e 7"
  using and_single [of e 7] by (simp add: huge_def push_bit_eq_mult)

lemma table_of_frame: "frame_address t \<Longrightarrow> table_of t = t"
  by (rule bit_word_eqI) (auto simp: bit_table_of dest: frame_bits)

lemma new_entry_bits:
  assumes "frame_address t" "u = 0 \<or> u = 4"
  shows "table_of (t OR 1 OR 2 OR u) = t" "present (t OR 1 OR 2 OR u)" "\<not> huge (t OR 1 OR 2 OR u)"
proof -
  have "(1 OR 2 OR u) AND PTE_ADDR_MASK = 0" using assms(2) by auto
  then have "table_of (t OR (1 OR 2 OR u)) = table_of t"
    unfolding table_of_def bit.conj_disj_distrib2 by simp
  then show "table_of (t OR 1 OR 2 OR u) = t"
    using table_of_frame [OF assms(1)] by (simp add: or.assoc)
  show "present (t OR 1 OR 2 OR u)" by (simp add: present_bit bit_or_iff)
  show "\<not> huge (t OR 1 OR 2 OR u)"
    using frame_bits [OF assms(1), of 7] assms(2) by (auto simp: huge_bit bit_or_iff)
qed

lemma user_bit_kept:
  "table_of (e OR 4) = table_of e" "present (e OR 4) = present e" "huge (e OR 4) = huge e"
  by (simp_all add: table_of_def present_bit huge_bit bit.conj_disj_distrib2 bit_or_iff)

section \<open>The walk as one function\<close>

text \<open>
  What the processor, \<open>hal_translate\<close> and \<open>hal_query_flags\<close> read: the entry a list of indices leads to,
  with the number of indices it leaves unused.
\<close>

fun lookup :: "vm_state \<Rightarrow> u64 \<Rightarrow> nat list \<Rightarrow> (u64 \<times> nat) option" where
  "lookup s t [] = None"
| "lookup s t (i # is) =
     (let e = entries s t i in
      if \<not> present e then None
      else if is = [] then Some (e, 0)
      else if huge e then Some (e, length is)
      else lookup s (table_of e) is)"

definition slot :: "u64 \<Rightarrow> nat list" where
  "slot va = [pml4_index va, pdpt_index va, pd_index va, pt_index va]"

definition offset_mask :: "nat \<Rightarrow> u64" where
  "offset_mask k = (if k = 0 then 0xFFF else if k = 1 then 0x1FFFFF else 0x3FFFFFFF)"

definition root_ok :: "vm_state \<Rightarrow> u64 \<Rightarrow> bool" where
  "root_ok s root \<longleftrightarrow> root \<noteq> 0 \<and> (\<forall>i < 512. present (entries s root i) \<longrightarrow> \<not> huge (entries s root i))"

lemma index_less:
  "pml4_index va < 512" "pdpt_index va < 512" "pd_index va < 512" "pt_index va < 512"
proof -
  have "unat (x AND 0x1FF) < 512" for x :: u64
  proof -
    have "x AND 0x1FF = take_bit 9 x" by (simp add: take_bit_eq_mask mask_eq_exp_minus_1)
    then show ?thesis using unat_take_bit_less [of 9 x] by simp
  qed
  then show "pml4_index va < 512" "pdpt_index va < 512" "pd_index va < 512" "pt_index va < 512"
    by (simp_all add: pml4_index_def pdpt_index_def pd_index_def pt_index_def)
qed

lemma translate_lookup:
  "root_ok s root \<Longrightarrow> hal_translate root va s =
     (case lookup s root (slot va) of None \<Rightarrow> 0 | Some (e, k) \<Rightarrow> table_of e OR (va AND offset_mask k))"
  using index_less(1) [of va] by (auto simp: hal_translate_def slot_def root_ok_def offset_mask_def Let_def)

lemma query_lookup:
  "root_ok s root \<Longrightarrow> hal_query_flags root va s =
     (case lookup s root (slot va) of None \<Rightarrow> 0 | Some (e, k) \<Rightarrow> pte_to_hal_flags e)"
  using index_less(1) [of va] by (auto simp: hal_query_flags_def slot_def root_ok_def Let_def)

section \<open>Well-formed tables\<close>

text \<open>
  Every table below a root has a place: the region it belongs to and the indices that lead to it. Two
  roots may share the region behind an index of theirs, as address spaces share the kernel's, or have
  it to themselves.
\<close>

type_synonym place = "nat \<times> nat list"

definition tables_wf :: "u64 set \<Rightarrow> (u64 \<Rightarrow> nat \<Rightarrow> nat) \<Rightarrow> (u64 \<Rightarrow> place option) \<Rightarrow> vm_state \<Rightarrow> bool" where
  "tables_wf R reg lab s \<longleftrightarrow> pmm_inv (frames s) \<and>
     (\<forall>r \<in> R. table_frame s r \<and> lab r = None \<and> root_ok s r) \<and>
     (\<forall>t p. lab t = Some p \<longrightarrow> table_frame s t) \<and>
     (\<forall>r \<in> R. \<forall>j < 512. present (entries s r j) \<longrightarrow> lab (table_of (entries s r j)) = Some (reg r j, [j])) \<and>
     (\<forall>t g p. lab t = Some (g, p) \<longrightarrow> length p < 3 \<longrightarrow>
        (\<forall>j < 512. present (entries s t j) \<longrightarrow> \<not> huge (entries s t j) \<longrightarrow>
           lab (table_of (entries s t j)) = Some (g, p @ [j])))"

definition depth :: "u64 set \<Rightarrow> (u64 \<Rightarrow> place option) \<Rightarrow> u64 \<Rightarrow> nat \<Rightarrow> bool" where
  "depth R lab t n \<longleftrightarrow> (if n = 0 then t \<in> R else \<exists>g p. lab t = Some (g, p) \<and> length p = n)"

lemma wfD:
  assumes "tables_wf R reg lab s"
  shows "pmm_inv (frames s)"
    "\<And>r. r \<in> R \<Longrightarrow> table_frame s r \<and> lab r = None \<and> root_ok s r"
    "\<And>t p. lab t = Some p \<Longrightarrow> table_frame s t"
    "\<And>r j. \<lbrakk>r \<in> R; j < 512; present (entries s r j)\<rbrakk> \<Longrightarrow> lab (table_of (entries s r j)) = Some (reg r j, [j])"
    "\<And>t g p j. \<lbrakk>lab t = Some (g, p); length p < 3; j < 512; present (entries s t j); \<not> huge (entries s t j)\<rbrakk> \<Longrightarrow>
       lab (table_of (entries s t j)) = Some (g, p @ [j])"
  using assms unfolding tables_wf_def by blast+

lemma depth_frame: "tables_wf R reg lab s \<Longrightarrow> depth R lab t n \<Longrightarrow> table_frame s t"
  using wfD(2,3) by (fastforce simp: depth_def split: if_splits)

lemma depth_unique: "tables_wf R reg lab s \<Longrightarrow> depth R lab t n \<Longrightarrow> depth R lab t m \<Longrightarrow> n = m"
  using wfD(2) by (fastforce simp: depth_def split: if_splits)

lemma depth_child:
  assumes "tables_wf R reg lab s" "depth R lab t n" "n < 3" "j < 512" "present (entries s t j)" "\<not> huge (entries s t j)"
  shows "depth R lab (table_of (entries s t j)) (Suc n)"
  using assms wfD(4,5) [OF assms(1)] by (fastforce simp: depth_def split: if_splits)

text \<open>The place a new table gets below a table that has one.\<close>

definition below :: "u64 set \<Rightarrow> (u64 \<Rightarrow> nat \<Rightarrow> nat) \<Rightarrow> (u64 \<Rightarrow> place option) \<Rightarrow> u64 \<Rightarrow> nat \<Rightarrow> place" where
  "below R reg lab t j = (if t \<in> R then (reg t j, [j]) else case lab t of Some (g, p) \<Rightarrow> (g, p @ [j]) | None \<Rightarrow> (0, []))"

lemma child_place:
  assumes "tables_wf R reg lab s" "depth R lab t n" "n < 3" "j < 512" "present (entries s t j)" "\<not> huge (entries s t j)"
  shows "lab (table_of (entries s t j)) = Some (below R reg lab t j)"
proof (cases "n = 0")
  case True
  then show ?thesis using assms wfD(4) [OF assms(1)] by (auto simp: depth_def below_def)
next
  case False
  then obtain g p where g: "lab t = Some (g, p)" "length p = n" using assms(2) by (auto simp: depth_def)
  then have "t \<notin> R" using wfD(2) [OF assms(1)] by auto
  then show ?thesis using g wfD(5) [OF assms(1) g(1)] assms by (simp add: below_def)
qed

text \<open>
  A step that only fills in the missing table of one entry, or only sets its user bit, leaves every
  lookup as it was.
\<close>

definition harmless :: "u64 set \<Rightarrow> (u64 \<Rightarrow> place option) \<Rightarrow> vm_state \<Rightarrow> vm_state \<Rightarrow> u64 \<Rightarrow> nat \<Rightarrow> nat \<Rightarrow> bool" where
  "harmless R lab s s' t n i \<longleftrightarrow> n < 3 \<and> depth R lab t n \<and>
     (\<forall>x m j. depth R lab x m \<longrightarrow> (x, j) \<noteq> (t, i) \<longrightarrow> entries s' x j = entries s x j) \<and>
     (let e = entries s t i; e' = entries s' t i in
      present e' \<and> \<not> huge e' \<and>
      (if present e then \<not> huge e \<and> table_of e' = table_of e else \<forall>j. \<not> present (entries s' (table_of e') j)))"

lemma lookup_harmless:
  assumes "tables_wf R reg lab s" "harmless R lab s s' t n i" "depth R lab x m" "m + length p = 4" "\<forall>j \<in> set p. j < 512"
  shows "lookup s' x p = lookup s x p"
  using assms(3-5)
proof (induction p arbitrary: x m)
  case (Cons j p)
  note h = assms(2) [unfolded harmless_def Let_def]
  show ?case
  proof (cases "x = t \<and> j = i")
    case False
    then have same: "entries s' x j = entries s x j" using h Cons.prems(1) by blast
    show ?thesis
    proof (cases "present (entries s x j) \<and> p \<noteq> [] \<and> \<not> huge (entries s x j)")
      case True
      then have "m < 3" using Cons.prems(2) by (cases p) auto
      then have "depth R lab (table_of (entries s x j)) (Suc m)"
        using depth_child [OF assms(1) Cons.prems(1)] True Cons.prems(3) by simp
      then have "lookup s' (table_of (entries s x j)) p = lookup s (table_of (entries s x j)) p"
        by (rule Cons.IH) (use Cons.prems in auto)
      then show ?thesis using same by (simp add: Let_def)
    next
      case False
      then show ?thesis using same by (auto simp: Let_def)
    qed
  next
    case True
    then have m: "m = n" using depth_unique [OF assms(1) Cons.prems(1)] h by blast
    then obtain k q where p: "p = k # q" using Cons.prems(2) h by (cases p) auto
    show ?thesis
    proof (cases "present (entries s t i)")
      case False
      then show ?thesis using True h p by (simp add: Let_def)
    next
      case pres: True
      then have hg: "\<not> huge (entries s t i)" "table_of (entries s' t i) = table_of (entries s t i)" using h by auto
      have "depth R lab (table_of (entries s t i)) (Suc m)"
        using depth_child [OF assms(1) Cons.prems(1)] True Cons.prems(3) pres hg m h by simp
      then have "lookup s' (table_of (entries s t i)) p = lookup s (table_of (entries s t i)) p"
        by (rule Cons.IH) (use Cons.prems in auto)
      then show ?thesis using True h pres hg p by (simp add: Let_def)
    qed
  qed
qed simp

lemma slot_less: "\<forall>j \<in> set (slot va). j < 512"
  using index_less [of va] by (simp add: slot_def)

lemma not_present_0 [simp]: "\<not> present 0"
  by (simp add: present_def)

lemma wf_set_entry:
  assumes wf: "tables_wf R reg lab s" and t: "depth R lab t n"
    and e: "n < 3 \<Longrightarrow> i < 512 \<Longrightarrow> present e \<Longrightarrow>
      (if huge e then n \<noteq> 0 else lab (table_of e) = Some (below R reg lab t i))"
  shows "tables_wf R reg lab (set_entry t i e s)"
proof -
  have root: "\<not> huge e \<and> lab (table_of e) = Some (reg t i, [i])" if "t \<in> R" "i < 512" "present e"
  proof -
    have "n = 0" using t that(1) wfD(2) [OF wf] by (auto simp: depth_def split: if_splits)
    then show ?thesis using e that by (auto simp: below_def split: if_splits)
  qed
  have inner: "lab (table_of e) = Some (g, p @ [i])"
    if "lab t = Some (g, p)" "length p < 3" "i < 512" "present e" "\<not> huge e" for g p
  proof -
    have nR: "t \<notin> R" using that(1) wfD(2) [OF wf] by auto
    then have "n < 3" using t that(1,2) by (auto simp: depth_def split: if_splits)
    then show ?thesis using e that nR by (simp add: below_def)
  qed
  show ?thesis
    unfolding tables_wf_def
  proof (intro conjI ballI allI impI)
    show "pmm_inv (frames (set_entry t i e s))" using wfD(1) [OF wf] by simp
    show "table_frame (set_entry t i e s) r" "lab r = None" "root_ok (set_entry t i e s) r" if "r \<in> R" for r
      using wfD(2) [OF wf that] root that by (auto simp: table_frame_def root_ok_def)
    show "table_frame (set_entry t i e s) x" if "lab x = Some p" for x p
      using wfD(3) [OF wf that] by (simp add: table_frame_def)
    show "lab (table_of (entries (set_entry t i e s) r j)) = Some (reg r j, [j])"
      if "r \<in> R" "j < 512" "present (entries (set_entry t i e s) r j)" for r j
      using wfD(4) [OF wf that(1,2)] root that by (auto split: if_splits)
    show "lab (table_of (entries (set_entry t i e s) x j)) = Some (g, p @ [j])"
      if "lab x = Some (g, p)" "length p < 3" "j < 512" "present (entries (set_entry t i e s) x j)"
        "\<not> huge (entries (set_entry t i e s) x j)" for x g p j
      using wfD(5) [OF wf that(1-3)] inner that by (auto split: if_splits)
  qed
qed

lemma wf_frames:
  assumes "tables_wf R reg lab s" "entries s' = entries s" "pmm_inv (frames s')" "free_set (frames s') \<subseteq> free_set (frames s)"
  shows "tables_wf R reg lab s'"
  using assms unfolding tables_wf_def table_frame_def root_ok_def by (auto 0 4)

lemma wf_alloc:
  assumes wf: "tables_wf R reg lab s" and a: "alloc_table s = (c, s1)" "c \<noteq> 0"
  shows "tables_wf R reg (lab(c \<mapsto> pl)) s1" "lab c = None" "c \<notin> R" "frame_address c"
    "\<And>x n j. depth R lab x n \<Longrightarrow> x \<noteq> c \<and> entries s1 x j = entries s x j" "\<And>j. entries s1 c j = 0"
    "page_root s1 = page_root s"
proof -
  have ok: "pmm_inv (frames s1)" "frame_address c" "frame_number c \<in> free_set (frames s)"
      "free_set (frames s1) = free_set (frames s) - {frame_number c}" "entries s1 = (entries s)(c := (\<lambda>_. 0))"
      "page_root s1 = page_root s"
    using alloc_table_ok [OF wfD(1) [OF wf] a(1)] a(2) by auto
  have fresh: "x \<noteq> c" if "table_frame s x" for x using that ok(3) by (auto simp: table_frame_def)
  show f: "frame_address c" "\<And>j. entries s1 c j = 0" "page_root s1 = page_root s" by (simp_all add: ok)
  show lc: "lab c = None" using wfD(3) [OF wf] fresh by (metis option.exhaust_sel)
  show cR: "c \<notin> R" using wfD(2) [OF wf] fresh by blast
  show "x \<noteq> c \<and> entries s1 x j = entries s x j" if "depth R lab x n" for x n j
    using fresh [OF depth_frame [OF wf that]] ok(5) by simp
  have tf: "table_frame s1 x" if "table_frame s x" for x
    using that ok(4) by (auto simp: table_frame_def)
  have labs: "lab x = Some p \<Longrightarrow> x \<noteq> c" for x p using lc by auto
  have tc: "table_frame s1 c" using ok a(2) by (simp add: table_frame_def)
  show "tables_wf R reg (lab(c \<mapsto> pl)) s1"
    unfolding tables_wf_def
  proof (intro conjI ballI allI impI)
    show "pmm_inv (frames s1)" by (rule ok(1))
    show "table_frame s1 r" "(lab(c \<mapsto> pl)) r = None" "root_ok s1 r" if "r \<in> R" for r
      using wfD(2) [OF wf that] tf cR that ok(5) by (auto simp: root_ok_def)
    show "table_frame s1 x" if "(lab(c \<mapsto> pl)) x = Some p" for x p
      using that tf tc wfD(3) [OF wf] by (auto split: if_splits)
    show "(lab(c \<mapsto> pl)) (table_of (entries s1 r j)) = Some (reg r j, [j])"
      if "r \<in> R" "j < 512" "present (entries s1 r j)" for r j
      using wfD(4) [OF wf that(1,2)] that ok(5) cR labs by (auto split: if_splits)
    show "(lab(c \<mapsto> pl)) (table_of (entries s1 x j)) = Some (g, p @ [j])"
      if "(lab(c \<mapsto> pl)) x = Some (g, p)" "length p < 3" "j < 512" "present (entries s1 x j)" "\<not> huge (entries s1 x j)" for x g p j
    proof (cases "x = c")
      case True
      then show ?thesis using that(4) ok(5) by simp
    next
      case False
      then have "lab (table_of (entries s x j)) = Some (g, p @ [j])"
        using wfD(5) [OF wf] that ok(5) by auto
      then show ?thesis using False ok(5) labs by auto
    qed
  qed
qed

lemma depth_upd: "lab c = None \<Longrightarrow> c \<notin> R \<Longrightarrow> depth R lab t n \<Longrightarrow> depth R (lab(c \<mapsto> pl)) t n"
  by (auto simp: depth_def split: if_splits)

definition quiet :: "u64 set \<Rightarrow> (u64 \<Rightarrow> place option) \<Rightarrow> vm_state \<Rightarrow> vm_state \<Rightarrow> bool" where
  "quiet R lab s s' \<longleftrightarrow> page_root s' = page_root s \<and>
     (\<forall>x m q. depth R lab x m \<longrightarrow> m + length q = 4 \<longrightarrow> (\<forall>j \<in> set q. j < 512) \<longrightarrow> lookup s' x q = lookup s x q)"

definition extends :: "(u64 \<Rightarrow> place option) \<Rightarrow> (u64 \<Rightarrow> place option) \<Rightarrow> bool" where
  "extends lab lab' \<longleftrightarrow> (\<forall>x p. lab x = Some p \<longrightarrow> lab' x = Some p)"

definition kept_but :: "u64 set \<Rightarrow> (u64 \<Rightarrow> place option) \<Rightarrow> vm_state \<Rightarrow> vm_state \<Rightarrow> u64 \<Rightarrow> nat \<Rightarrow> bool" where
  "kept_but R lab s s' t i \<longleftrightarrow> (\<forall>x m j. depth R lab x m \<longrightarrow> (x, j) \<noteq> (t, i) \<longrightarrow> entries s' x j = entries s x j)"

lemma quiet_refl [simp]: "quiet R lab s s"
  by (simp add: quiet_def)

lemma extends_refl [simp]: "extends lab lab"
  by (simp add: extends_def)

lemma kept_refl [simp]: "kept_but R lab s s t i"
  by (simp add: kept_but_def)

lemma walk_step:
  assumes wf: "tables_wf R reg lab s" and t: "depth R lab t n" "n < 3" "i < 512"
    and w: "walk_to_next_level t i flags s = (res, s')"
  obtains lab' where "tables_wf R reg lab' s'" "extends lab lab'" "quiet R lab s s'" "kept_but R lab s s' t i"
    "\<And>c. res = Some c \<Longrightarrow> lab' c = Some (below R reg lab t i) \<and> present (entries s' t i) \<and>
       \<not> huge (entries s' t i) \<and> table_of (entries s' t i) = c"
proof (cases "present (entries s t i)")
  case True
  note pres = True
  show thesis
  proof (cases "huge (entries s t i)")
    case True
    then have "res = None" "s' = s" using w pres by (simp_all add: walk_to_next_level_def)
    then show thesis using that [of lab] wf by simp
  next
    case False
    define e' where "e' = (if flags AND HAL_USER \<noteq> 0 \<and> entries s t i AND PTE_USER = 0 then entries s t i OR 4 else entries s t i)"
    have s': "res = Some (table_of (entries s t i))" "s' = set_entry t i e' s"
      using w pres False by (auto simp: walk_to_next_level_def Let_def e'_def set_entry_def split: if_splits)
    have e': "table_of e' = table_of (entries s t i)" "present e'" "\<not> huge e'"
      using pres False user_bit_kept [of "entries s t i"] by (simp_all add: e'_def)
    have child: "lab (table_of (entries s t i)) = Some (below R reg lab t i)"
      using child_place [OF wf t pres False] .
    have "harmless R lab s s' t n i"
      using t pres False e' by (simp add: harmless_def s' Let_def)
    then have "quiet R lab s s'"
      using lookup_harmless [OF wf] by (simp add: quiet_def s'(2))
    moreover have "tables_wf R reg lab s'"
      unfolding s'(2) using wf_set_entry [OF wf t(1)] e' child by simp
    ultimately show thesis
      using that [of lab] child e' s' by (auto simp: kept_but_def)
  qed
next
  case False
  obtain c s1 where a: "alloc_table s = (c, s1)" by fastforce
  show thesis
  proof (cases "c = 0")
    case True
    then have eq: "res = None" "s' = s1" using w False a by (simp_all add: walk_to_next_level_def)
    have al: "page_root s1 = page_root s" "pmm_inv (frames s1)" "entries s1 = entries s" "free_set (frames s1) = free_set (frames s)"
      using alloc_table_ok [OF wfD(1) [OF wf] a] True by auto
    have same: "lookup s1 x q = lookup s x q" for x q
      by (induction q arbitrary: x) (simp_all add: al(3) Let_def)
    have "tables_wf R reg lab s1" using wf_frames [OF wf] al by simp
    then show thesis using that [of lab] eq al same by (simp add: quiet_def kept_but_def)
  next
    case ok: False
    define e' where "e' = c OR 1 OR 2 OR (if flags AND HAL_USER \<noteq> 0 then PTE_USER else 0)"
    have s': "res = Some c" "s' = set_entry t i e' s1"
      using w False a ok by (simp_all add: walk_to_next_level_def e'_def)
    define lab' where "lab' = lab(c \<mapsto> below R reg lab t i)"
    note al = wf_alloc(1) [OF wf a ok, of "below R reg lab t i", folded lab'_def] wf_alloc(2-) [OF wf a ok]
    have e': "table_of e' = c" "present e'" "\<not> huge e'"
      using new_entry_bits [OF al(4), of "if flags AND HAL_USER \<noteq> 0 then PTE_USER else 0"] by (simp_all add: e'_def)
    have tc: "t \<noteq> c" using al(5) [OF t(1)] by blast
    have dt: "depth R lab' t n" using depth_upd [OF al(2,3) t(1)] by (simp add: lab'_def)
    have bl: "below R reg lab' t i = below R reg lab t i" using tc by (simp add: below_def lab'_def)
    have "tables_wf R reg lab' s'"
      unfolding s'(2) using wf_set_entry [OF al(1) dt] e' bl by (simp add: lab'_def)
    moreover have "harmless R lab s s' t n i"
      using t False e' al(5,6) tc by (auto simp: harmless_def s'(2) Let_def)
    then have "quiet R lab s s'"
      using lookup_harmless [OF wf] al(7) by (simp add: quiet_def s'(2))
    moreover have "kept_but R lab s s' t i"
      using al(5) by (auto simp: kept_but_def s'(2))
    moreover have "extends lab lab'" using al(2) by (auto simp: extends_def lab'_def)
    ultimately show thesis
      using that [of lab'] e' s' tc by (auto simp: lab'_def)
  qed
qed

section \<open>Mapping and unmapping\<close>

lemma depth_extends: "extends lab lab' \<Longrightarrow> depth R lab t n \<Longrightarrow> depth R lab' t n"
  by (auto simp: extends_def depth_def split: if_splits)

lemma below_extends: "extends lab lab' \<Longrightarrow> tables_wf R reg lab s \<Longrightarrow> depth R lab t n \<Longrightarrow> below R reg lab' t j = below R reg lab t j"
  by (auto simp: extends_def depth_def below_def split: if_splits)

lemma quiet_trans: "extends lab lab' \<Longrightarrow> quiet R lab s s1 \<Longrightarrow> quiet R lab' s1 s2 \<Longrightarrow> quiet R lab s s2"
  using depth_extends unfolding quiet_def by metis

lemma extends_trans: "extends a b \<Longrightarrow> extends b c \<Longrightarrow> extends a c"
  by (simp add: extends_def)

text \<open>The table a path of three indices ends in has the place of that path.\<close>

fun follow :: "vm_state \<Rightarrow> u64 \<Rightarrow> nat list \<Rightarrow> u64 option" where
  "follow s t [] = Some t"
| "follow s t (i # is) =
     (let e = entries s t i in if present e \<and> \<not> huge e then follow s (table_of e) is else None)"

lemma follow_place:
  assumes wf: "tables_wf R reg lab s"
  shows "lab t = Some (g, p) \<Longrightarrow> length p + length is \<le> 3 \<Longrightarrow> \<forall>j \<in> set is. j < 512 \<Longrightarrow>
    follow s t is = Some x \<Longrightarrow> lab x = Some (g, p @ is)"
proof (induction "is" arbitrary: t p)
  case (Cons i "is")
  then have e: "present (entries s t i)" "\<not> huge (entries s t i)" "follow s (table_of (entries s t i)) is = Some x"
    by (auto simp: Let_def split: if_splits)
  have "lab (table_of (entries s t i)) = Some (g, p @ [i])"
    using wfD(5) [OF wf Cons.prems(1)] Cons.prems e by simp
  then show ?case using Cons.IH [of _ "p @ [i]"] Cons.prems e by simp
qed simp

lemma follow_root:
  assumes wf: "tables_wf R reg lab s" and r: "r \<in> R" "follow s r (i # is) = Some x" "length is \<le> 2" "\<forall>j \<in> set (i # is). j < 512"
  shows "lab x = Some (reg r i, i # is)"
proof -
  have e: "present (entries s r i)" "follow s (table_of (entries s r i)) is = Some x"
    using r(2) by (auto simp: Let_def split: if_splits)
  have "lab (table_of (entries s r i)) = Some (reg r i, [i])"
    using wfD(4) [OF wf r(1)] r(4) e by simp
  from follow_place [OF wf this _ _ e(2)] show ?thesis using r(3,4) by simp
qed

text \<open>Writing the last-level entry changes only the lookups that end in it.\<close>

lemma lookup_leaf:
  assumes wf: "tables_wf R reg lab s" and t: "lab t = Some (g, q)" "length q = 3"
  shows "depth R lab x m \<Longrightarrow> m + length p + 1 = 4 \<Longrightarrow> \<forall>j \<in> set (p @ [k]). j < 512 \<Longrightarrow>
    lookup (set_entry t i e s) x (p @ [k]) =
    (if follow s x p = Some t \<and> k = i then (if present e then Some (e, 0) else None) else lookup s x (p @ [k]))"
proof (induction p arbitrary: x m)
  case Nil
  then show ?case by (auto simp: Let_def)
next
  case (Cons j p)
  have dt: "depth R lab t 3" using t by (simp add: depth_def)
  have ne: "x \<noteq> t" using depth_unique [OF wf Cons.prems(1)] dt Cons.prems(2) by fastforce
  show ?case
  proof (cases "present (entries s x j) \<and> \<not> huge (entries s x j)")
    case True
    have "depth R lab (table_of (entries s x j)) (Suc m)"
      using depth_child [OF wf Cons.prems(1)] Cons.prems True by simp
    then have "lookup (set_entry t i e s) (table_of (entries s x j)) (p @ [k]) =
        (if follow s (table_of (entries s x j)) p = Some t \<and> k = i then (if present e then Some (e, 0) else None)
         else lookup s (table_of (entries s x j)) (p @ [k]))"
      by (rule Cons.IH) (use Cons.prems in auto)
    then show ?thesis using True ne by (simp add: Let_def)
  qed (use ne in \<open>auto simp: Let_def\<close>)
qed

lemma slot_split: "slot va = [pml4_index va, pdpt_index va, pd_index va] @ [pt_index va]"
  by (simp add: slot_def)

lemma leaf_elsewhere:
  assumes wf: "tables_wf R reg lab s" and t: "lab t = Some (reg r (pml4_index va), [pml4_index va, pdpt_index va, pd_index va])"
    and r': "r' \<in> R" "slot v \<noteq> slot va \<or> reg r' (pml4_index v) \<noteq> reg r (pml4_index va)"
  shows "lookup (set_entry t (pt_index va) e s) r' (slot v) = lookup s r' (slot v)"
proof -
  have d: "depth R lab r' 0" using r'(1) by (simp add: depth_def)
  have "\<not> (follow s r' [pml4_index v, pdpt_index v, pd_index v] = Some t \<and> pt_index v = pt_index va)"
  proof
    assume a: "follow s r' [pml4_index v, pdpt_index v, pd_index v] = Some t \<and> pt_index v = pt_index va"
    then have "lab t = Some (reg r' (pml4_index v), [pml4_index v, pdpt_index v, pd_index v])"
      by (intro follow_root [OF wf r'(1)]) (use index_less [of v] in auto)
    then show False using t a r'(2) by (auto simp: slot_def simp del: follow.simps)
  qed
  then show ?thesis
    using lookup_leaf [OF wf t _ d, of "[pml4_index v, pdpt_index v, pd_index v]" "pt_index v" "pt_index va" e]
      index_less [of v] unfolding slot_split by (auto simp del: lookup.simps follow.simps append.simps)
qed


text \<open>The three walks of \<open>hal_map_page\<close>.\<close>

lemma map_walks:
  assumes wf: "tables_wf R reg lab s" and r: "r \<in> R"
    and w: "walk_to_next_level r (pml4_index va) flags s = (r1, s1)"
    and w2: "\<And>t1. r1 = Some t1 \<Longrightarrow> walk_to_next_level t1 (pdpt_index va) flags s1 = (r2, s2)"
    and w3: "\<And>t1 t2. r1 = Some t1 \<Longrightarrow> r2 = Some t2 \<Longrightarrow> walk_to_next_level t2 (pd_index va) flags s2 = (r3, s3)"
  defines "s' \<equiv> (if r1 = None then s1 else if r2 = None then s2 else s3)"
  obtains lab' where "tables_wf R reg lab' s'" "extends lab lab'" "quiet R lab s s'"
    "\<And>t1 t2 t. \<lbrakk>r1 = Some t1; r2 = Some t2; r3 = Some t\<rbrakk> \<Longrightarrow>
       lab' t = Some (reg r (pml4_index va), [pml4_index va, pdpt_index va, pd_index va]) \<and>
       follow s' r [pml4_index va, pdpt_index va, pd_index va] = Some t"
proof -
  note ix = index_less [of va]
  have d0: "depth R lab r 0" using r by (simp add: depth_def)
  obtain lab1 where l1: "tables_wf R reg lab1 s1" "extends lab lab1" "quiet R lab s s1" "kept_but R lab s s1 r (pml4_index va)"
      "\<And>c. r1 = Some c \<Longrightarrow> lab1 c = Some (below R reg lab r (pml4_index va)) \<and> present (entries s1 r (pml4_index va)) \<and>
         \<not> huge (entries s1 r (pml4_index va)) \<and> table_of (entries s1 r (pml4_index va)) = c"
    by (rule walk_step [OF wf d0 _ ix(1) w]) auto
  show thesis
  proof (cases r1)
    case None
    then show thesis using that [of lab1] l1 by (simp add: s'_def)
  next
    case (Some t1)
    have p1: "lab1 t1 = Some (reg r (pml4_index va), [pml4_index va])"
      using l1(5) [OF Some] r by (simp add: below_def)
    then have d1: "depth R lab1 t1 1" by (simp add: depth_def)
    have n1: "t1 \<notin> R" using p1 wfD(2) [OF l1(1)] by auto
    obtain lab2 where l2: "tables_wf R reg lab2 s2" "extends lab1 lab2" "quiet R lab1 s1 s2" "kept_but R lab1 s1 s2 t1 (pdpt_index va)"
        "\<And>c. r2 = Some c \<Longrightarrow> lab2 c = Some (below R reg lab1 t1 (pdpt_index va)) \<and> present (entries s2 t1 (pdpt_index va)) \<and>
           \<not> huge (entries s2 t1 (pdpt_index va)) \<and> table_of (entries s2 t1 (pdpt_index va)) = c"
      by (rule walk_step [OF l1(1) d1 _ ix(2) w2 [OF Some]]) auto
    have r_d1: "depth R lab1 r 0" using r by (simp add: depth_def)
    have root2: "entries s2 r j = entries s1 r j" for j
      using l2(4) r_d1 n1 r by (auto simp: kept_but_def)
    show thesis
    proof (cases r2)
      case None
      then show thesis
        using that [of lab2] l1 l2 quiet_trans [OF l1(2,3) l2(3)] extends_trans [OF l1(2) l2(2)] Some by (simp add: s'_def)
    next
      case some2: (Some t2)
      have p2: "lab2 t2 = Some (reg r (pml4_index va), [pml4_index va, pdpt_index va])"
        using l2(5) [OF some2] p1 n1 by (simp add: below_def)
      then have d2: "depth R lab2 t2 2" by (simp add: depth_def)
      have n2: "t2 \<notin> R" using p2 wfD(2) [OF l2(1)] by auto
      have p1': "lab2 t1 = Some (reg r (pml4_index va), [pml4_index va])" using p1 l2(2) by (simp add: extends_def)
      then have d1': "depth R lab2 t1 1" and ne: "t1 \<noteq> t2" using p2 by (auto simp: depth_def)
      obtain lab3 where l3: "tables_wf R reg lab3 s3" "extends lab2 lab3" "quiet R lab2 s2 s3" "kept_but R lab2 s2 s3 t2 (pd_index va)"
          "\<And>c. r3 = Some c \<Longrightarrow> lab3 c = Some (below R reg lab2 t2 (pd_index va)) \<and> present (entries s3 t2 (pd_index va)) \<and>
             \<not> huge (entries s3 t2 (pd_index va)) \<and> table_of (entries s3 t2 (pd_index va)) = c"
        by (rule walk_step [OF l2(1) d2 _ ix(3) w3 [OF Some some2]]) auto
      have r_d2: "depth R lab2 r 0" using r by (simp add: depth_def)
      have root3: "entries s3 r j = entries s1 r j" for j
      proof -
        have "r \<noteq> t2" using n2 r by auto
        then show ?thesis using l3(4) r_d2 root2 by (auto simp: kept_but_def)
      qed
      have t13: "entries s3 t1 j = entries s2 t1 j" for j
        using l3(4) d1' ne by (auto simp: kept_but_def)
      have leaf: "lab3 t = Some (reg r (pml4_index va), [pml4_index va, pdpt_index va, pd_index va]) \<and>
          follow s3 r [pml4_index va, pdpt_index va, pd_index va] = Some t" if "r3 = Some t" for t
      proof
        show "lab3 t = Some (reg r (pml4_index va), [pml4_index va, pdpt_index va, pd_index va])"
          using l3(5) [OF that] p2 n2 by (simp add: below_def)
        have e1: "present (entries s3 r (pml4_index va)) \<and> \<not> huge (entries s3 r (pml4_index va)) \<and>
            table_of (entries s3 r (pml4_index va)) = t1"
          unfolding root3 using l1(5) [OF Some] by blast
        have e2: "present (entries s3 t1 (pdpt_index va)) \<and> \<not> huge (entries s3 t1 (pdpt_index va)) \<and>
            table_of (entries s3 t1 (pdpt_index va)) = t2"
          unfolding t13 using l2(5) [OF some2] by blast
        show "follow s3 r [pml4_index va, pdpt_index va, pd_index va] = Some t"
          using e1 e2 l3(5) [OF that] by (simp add: Let_def)
      qed
      have q: "quiet R lab s s3"
        using quiet_trans [OF extends_trans [OF l1(2) l2(2)] quiet_trans [OF l1(2,3) l2(3)] l3(3)] .
      have x: "extends lab lab3" using extends_trans [OF extends_trans [OF l1(2) l2(2)] l3(2)] .
      show thesis
        by (rule that [of lab3]) (use Some some2 l3(1) q x leaf in \<open>simp_all add: s'_def\<close>)
    qed
  qed
qed

definition leaf_entry :: "u64 \<Rightarrow> u32 \<Rightarrow> u64" where
  "leaf_entry pa flags = (pa AND PTE_ADDR_MASK) OR hal_flags_to_pte flags"

text \<open>What a call may change: one page of one address space, and of those that share its region.\<close>

definition only_page :: "u64 set \<Rightarrow> (u64 \<Rightarrow> nat \<Rightarrow> nat) \<Rightarrow> u64 \<Rightarrow> u64 \<Rightarrow> vm_state \<Rightarrow> vm_state \<Rightarrow> bool" where
  "only_page R reg root va s s' \<longleftrightarrow> (\<forall>r \<in> R. \<forall>v.
     slot v \<noteq> slot va \<or> reg r (pml4_index v) \<noteq> reg root (pml4_index va) \<longrightarrow>
       lookup s' r (slot v) = lookup s r (slot v))"

definition same_lookups :: "u64 set \<Rightarrow> vm_state \<Rightarrow> vm_state \<Rightarrow> bool" where
  "same_lookups R s s' \<longleftrightarrow> (\<forall>r \<in> R. \<forall>v. lookup s' r (slot v) = lookup s r (slot v))"

lemma slot_length: "length (slot va) = 4"
  by (simp add: slot_def)

lemma quiet_lookups: "quiet R lab s s' \<Longrightarrow> same_lookups R s s'"
  unfolding same_lookups_def
proof (intro ballI allI)
  fix r v assume "quiet R lab s s'" "r \<in> R"
  then show "lookup s' r (slot v) = lookup s r (slot v)"
    using slot_less [of v] slot_length [of v] unfolding quiet_def depth_def
    by (metis add_0)
qed

lemma follow_lookup:
  "follow s t p = Some x \<Longrightarrow> lookup s t (p @ [k]) = (if present (entries s x k) then Some (entries s x k, 0) else None)"
  by (induction p arbitrary: t) (auto simp: Let_def split: if_splits)

lemma set_leaf:
  assumes wf: "tables_wf R reg lab s" and r: "r \<in> R"
    and t: "lab t = Some (reg r (pml4_index va), [pml4_index va, pdpt_index va, pd_index va])"
      "follow s r [pml4_index va, pdpt_index va, pd_index va] = Some t"
  shows "tables_wf R reg lab (set_entry t (pt_index va) e s)"
    "only_page R reg r va s (set_entry t (pt_index va) e s)"
    "lookup (set_entry t (pt_index va) e s) r (slot va) = (if present e then Some (e, 0) else None)"
proof -
  have d3: "depth R lab t 3" using t(1) by (simp add: depth_def)
  show "tables_wf R reg lab (set_entry t (pt_index va) e s)"
    by (rule wf_set_entry [OF wf d3]) simp
  show "only_page R reg r va s (set_entry t (pt_index va) e s)"
    using leaf_elsewhere [OF wf t(1)] by (auto simp: only_page_def)
  have "depth R lab r 0" using r by (simp add: depth_def)
  then show "lookup (set_entry t (pt_index va) e s) r (slot va) = (if present e then Some (e, 0) else None)"
    using lookup_leaf [OF wf t(1) _, of r 0 "[pml4_index va, pdpt_index va, pd_index va]" "pt_index va" "pt_index va" e]
      t(2) index_less [of va] unfolding slot_split
    by (simp del: lookup.simps follow.simps append.simps)
qed

lemma map_page_lookup:
  assumes wf: "tables_wf R reg lab s" and r: "r \<in> R" and m: "hal_map_page r va pa flags s = (rc, s')"
  obtains lab' where "tables_wf R reg lab' s'" "extends lab lab'" "page_root s' = page_root s"
    "rc \<noteq> AF_OK \<Longrightarrow> same_lookups R s s'"
    "rc = AF_OK \<Longrightarrow> only_page R reg r va s s' \<and>
       lookup s' r (slot va) = (if present (leaf_entry pa flags) then Some (leaf_entry pa flags, 0) else None) \<and>
       (\<forall>e k. lookup s r (slot va) = Some (e, k) \<longrightarrow> k = 0 \<and> table_of e = pa)"
    "rc = AF_ERR_EXIST \<Longrightarrow> \<exists>e. lookup s r (slot va) = Some (e, 0) \<and> table_of e \<noteq> pa"
proof (cases "is_aligned va AF_PAGE_SIZE \<and> is_aligned pa AF_PAGE_SIZE")
  case False
  then have "rc = AF_ERR_INVAL" "s' = s" using m by (auto simp: hal_map_page_def split: if_splits)
  then show thesis using that [of lab] wf by (simp add: same_lookups_def)
next
  case True
  have nz: "r \<noteq> 0" using wfD(2) [OF wf r] by (auto simp: table_frame_def)
  obtain r1 s1 where w1: "walk_to_next_level r (pml4_index va) flags s = (r1, s1)" by fastforce
  obtain r2 s2 where w2: "walk_to_next_level (the r1) (pdpt_index va) flags s1 = (r2, s2)" by fastforce
  obtain r3 s3 where w3: "walk_to_next_level (the r2) (pd_index va) flags s2 = (r3, s3)" by fastforce
  define sw where "sw = (if r1 = None then s1 else if r2 = None then s2 else s3)"
  have a2: "\<And>t1. r1 = Some t1 \<Longrightarrow> walk_to_next_level t1 (pdpt_index va) flags s1 = (r2, s2)" using w2 by simp
  have a3: "\<And>t1 t2. r1 = Some t1 \<Longrightarrow> r2 = Some t2 \<Longrightarrow> walk_to_next_level t2 (pd_index va) flags s2 = (r3, s3)"
    using w3 by simp
  have "\<exists>lab'. tables_wf R reg lab' sw \<and> extends lab lab' \<and> quiet R lab s sw \<and>
      (\<forall>t1 t2 t. r1 = Some t1 \<longrightarrow> r2 = Some t2 \<longrightarrow> r3 = Some t \<longrightarrow>
         lab' t = Some (reg r (pml4_index va), [pml4_index va, pdpt_index va, pd_index va]) \<and>
         follow sw r [pml4_index va, pdpt_index va, pd_index va] = Some t)"
    unfolding sw_def by (rule map_walks [OF wf r w1 a2 a3]) blast+
  then obtain lab' where l: "tables_wf R reg lab' sw" "extends lab lab'" "quiet R lab s sw"
      "\<And>t1 t2 t. \<lbrakk>r1 = Some t1; r2 = Some t2; r3 = Some t\<rbrakk> \<Longrightarrow>
         lab' t = Some (reg r (pml4_index va), [pml4_index va, pdpt_index va, pd_index va]) \<and>
         follow sw r [pml4_index va, pdpt_index va, pd_index va] = Some t"
    by blast
  note same = quiet_lookups [OF l(3)]
  have pr: "page_root sw = page_root s" using l(3) by (simp add: quiet_def)
  show thesis
  proof (cases "r1 = None \<or> r2 = None \<or> r3 = None")
    case none: True
    then have "rc = AF_ERR_NOMEM" "s' = sw"
      using m True nz w1 w2 w3 by (auto simp: hal_map_page_def sw_def split: option.splits)
    then show thesis using that [of lab'] l same pr by simp
  next
    case False
    then obtain t1 t2 t where ts: "r1 = Some t1" "r2 = Some t2" "r3 = Some t" by auto
    then have sw: "sw = s3" by (simp add: sw_def)
    note t = l(4) [OF ts]
    define e where "e = entries s3 t (pt_index va)"
    have old: "lookup s r (slot va) = (if present e then Some (e, 0) else None)"
    proof -
      have "lookup s r (slot va) = lookup sw r (slot va)" using same r by (simp only: same_lookups_def)
      also have "\<dots> = (if present e then Some (e, 0) else None)"
        unfolding slot_split e_def sw [symmetric] by (rule follow_lookup) (use t in blast)
      finally show ?thesis .
    qed
    have step: "(rc, s') = (if present e \<and> table_of e \<noteq> pa then (AF_ERR_EXIST, s3)
        else (AF_OK, set_entry t (pt_index va) (leaf_entry pa flags) s3))"
      using m True nz w1 w2 w3 ts by (auto simp: hal_map_page_def e_def leaf_entry_def Let_def split: if_splits)
    show thesis
    proof (cases "present e \<and> table_of e \<noteq> pa")
      case True
      then show thesis using that [of lab'] l same pr old step sw by simp
    next
      case False
      then have s': "rc = AF_OK" "s' = set_entry t (pt_index va) (leaf_entry pa flags) sw" using step sw by (auto split: if_splits)
      note leaf = set_leaf [OF l(1) r, of t va "leaf_entry pa flags"]
      have "only_page R reg r va s s'"
        using leaf(2) t same r by (auto simp: only_page_def same_lookups_def s'(2))
      then show thesis
        using that [of lab'] leaf t l(2) pr old False s' by (auto split: if_splits)
    qed
  qed
qed

lemma unmap_page_lookup:
  assumes wf: "tables_wf R reg lab s" and r: "r \<in> R" and m: "hal_unmap_page r va s = (rc, s')"
  shows "tables_wf R reg lab s' \<and> page_root s' = page_root s \<and> (rc \<noteq> AF_OK \<longrightarrow> s' = s) \<and>
    (rc = AF_OK \<longleftrightarrow> (\<exists>e. lookup s r (slot va) = Some (e, 0))) \<and>
    (rc = AF_ERR_NOENT \<longleftrightarrow> lookup s r (slot va) = None) \<and>
    (rc = AF_OK \<longrightarrow> lookup s' r (slot va) = None \<and> only_page R reg r va s s')"
proof -
  let ?p = "[pml4_index va, pdpt_index va, pd_index va]"
  have nz: "r \<noteq> 0" and rok: "root_ok s r" using wfD(2) [OF wf r] by (auto simp: table_frame_def)
  note h0 = rok [unfolded root_ok_def, THEN conjunct2, rule_format, OF index_less(1)]
  show ?thesis
  proof (cases "\<exists>t. follow s r ?p = Some t \<and> present (entries s t (pt_index va))")
    case True
    then obtain t where t: "follow s r ?p = Some t" "present (entries s t (pt_index va))" by blast
    have place: "lab t = Some (reg r (pml4_index va), ?p)"
      by (rule follow_root [OF wf r t(1)]) (use index_less [of va] in auto)
    have e: "rc = AF_OK" "s' = set_entry t (pt_index va) 0 s"
      using t m nz by (auto simp: hal_unmap_page_def Let_def split: if_splits)
    have "lookup s r (slot va) = Some (entries s t (pt_index va), 0)"
      using follow_lookup [OF t(1), of "pt_index va"] t(2) unfolding slot_split by simp
    then show ?thesis using set_leaf [OF wf r place t(1), of 0] e by (simp add: set_entry_def)
  next
    case False
    define a where "a = entries s r (pml4_index va)"
    define b where "b = entries s (table_of a) (pdpt_index va)"
    define c where "c = entries s (table_of b) (pd_index va)"
    define d where "d = entries s (table_of c) (pt_index va)"
    have run: "hal_unmap_page r va s =
        (if \<not> present a then (AF_ERR_NOENT, s) else if \<not> present b then (AF_ERR_NOENT, s)
         else if huge b then (AF_ERR_NOTSUP, s) else if \<not> present c then (AF_ERR_NOENT, s)
         else if huge c then (AF_ERR_NOTSUP, s) else if \<not> present d then (AF_ERR_NOENT, s)
         else (AF_OK, set_entry (table_of c) (pt_index va) 0 s))"
      using nz by (simp add: hal_unmap_page_def Let_def a_def b_def c_def d_def)
    have look: "lookup s r (slot va) =
        (if \<not> present a then None else if \<not> present b then None else if huge b then Some (b, 2)
         else if \<not> present c then None else if huge c then Some (c, 1) else if \<not> present d then None else Some (d, 0))"
      using h0 by (simp add: slot_def Let_def a_def b_def c_def d_def)
    have none: "\<not> (present a \<and> present b \<and> \<not> huge b \<and> present c \<and> \<not> huge c \<and> present d)"
      using False h0 by (auto simp: Let_def a_def b_def c_def d_def)
    then have "s' = s \<and> (rc = AF_ERR_NOENT \<or> rc = AF_ERR_NOTSUP) \<and> (rc = AF_ERR_NOENT \<longleftrightarrow> lookup s r (slot va) = None) \<and>
        (\<forall>e. lookup s r (slot va) \<noteq> Some (e, 0))"
      using m unfolding run look by (auto split: if_splits)
    then show ?thesis using wf by auto
  qed
qed

section \<open>What the calls promise\<close>

lemma wf_root_ok: "tables_wf R reg lab s \<Longrightarrow> r \<in> R \<Longrightarrow> root_ok s r"
  using wfD(2) by blast

lemma same_slot_offset: "slot v = slot va \<Longrightarrow> pml4_index v = pml4_index va"
  by (simp add: slot_def)

lemma bit_flag: "bit (if c then k else 0 :: u64) n \<longleftrightarrow> c \<and> bit k n"
  by simp

lemma mask_flag: "(if c then k else 0 :: u64) AND m = (if c then k AND m else 0)"
  by simp

lemma leaf_address: "table_of (leaf_entry pa flags) = table_of pa"
proof -
  have "hal_flags_to_pte flags AND PTE_ADDR_MASK = 0"
    unfolding hal_flags_to_pte_def bit.conj_disj_distrib2 mask_flag by (simp del: if_split cong: if_weak_cong)
  then show ?thesis by (simp add: table_of_def leaf_entry_def bit.conj_disj_distrib2 and.assoc)
qed

lemma leaf_present: "present (leaf_entry pa flags) \<longleftrightarrow> flags AND HAL_PRESENT \<noteq> 0"
  unfolding present_bit leaf_entry_def hal_flags_to_pte_def bit_or_iff bit_and_iff bit_flag by simp

definition unchanged :: "u64 set \<Rightarrow> (u64 \<times> u64) set \<Rightarrow> vm_state \<Rightarrow> vm_state \<Rightarrow> bool" where
  "unchanged R except s s' \<longleftrightarrow> (\<forall>r \<in> R. \<forall>v. (r, v) \<notin> except \<longrightarrow>
     hal_translate r v s' = hal_translate r v s \<and> hal_query_flags r v s' = hal_query_flags r v s)"

lemma lookups_unchanged:
  assumes "tables_wf R reg lab s" "tables_wf R reg lab' s'"
    and "\<And>r v. r \<in> R \<Longrightarrow> (r, v) \<notin> except \<Longrightarrow> lookup s' r (slot v) = lookup s r (slot v)"
  shows "unchanged R except s s'"
  using assms wf_root_ok [OF assms(1)] wf_root_ok [OF assms(2)]
  by (simp add: unchanged_def translate_lookup query_lookup)

text \<open>The addresses a call for one page may affect: that page, wherever the region is shared.\<close>

definition page_in :: "(u64 \<Rightarrow> nat \<Rightarrow> nat) \<Rightarrow> u64 \<Rightarrow> u64 \<Rightarrow> (u64 \<times> u64) set" where
  "page_in reg root va = {(r, v). slot v = slot va \<and> reg r (pml4_index v) = reg root (pml4_index va)}"

lemma map_page_ok:
  assumes "tables_wf R reg lab s" "root \<in> R" "flags AND HAL_PRESENT \<noteq> 0" "hal_map_page root va pa flags s = (rc, s')"
  shows "(\<exists>lab'. tables_wf R reg lab' s' \<and> extends lab lab') \<and>
     unchanged R (if rc = AF_OK then page_in reg root va else {}) s s' \<and>
     (rc = AF_OK \<longrightarrow> (\<forall>v. slot v = slot va \<longrightarrow>
        hal_translate root v s' = table_of pa OR (v AND 0xFFF) \<and>
        hal_query_flags root v s' = pte_to_hal_flags (leaf_entry pa flags)) \<and>
       (hal_query_flags root va s \<noteq> 0 \<longrightarrow> table_of (hal_translate root va s) = pa))"
proof -
  obtain lab' where l: "tables_wf R reg lab' s'" "extends lab lab'" "page_root s' = page_root s"
    "rc \<noteq> AF_OK \<Longrightarrow> same_lookups R s s'"
    "rc = AF_OK \<Longrightarrow> only_page R reg root va s s' \<and>
       lookup s' root (slot va) = (if present (leaf_entry pa flags) then Some (leaf_entry pa flags, 0) else None) \<and>
       (\<forall>e k. lookup s root (slot va) = Some (e, k) \<longrightarrow> k = 0 \<and> table_of e = pa)"
    "rc = AF_ERR_EXIST \<Longrightarrow> \<exists>e. lookup s root (slot va) = Some (e, 0) \<and> table_of e \<noteq> pa"
    by (rule map_page_lookup [OF assms(1,2,4)], rule that; blast)
  note ok = wf_root_ok [OF assms(1,2)] wf_root_ok [OF l(1) assms(2)]
  have un: "unchanged R (if rc = AF_OK then page_in reg root va else {}) s s'"
    by (rule lookups_unchanged [OF assms(1) l(1)])
      (use l(4,5) in \<open>auto simp: page_in_def only_page_def same_lookups_def split: if_splits\<close>)
  have new: "hal_translate root v s' = table_of pa OR (v AND 0xFFF) \<and>
        hal_query_flags root v s' = pte_to_hal_flags (leaf_entry pa flags)" if "rc = AF_OK" "slot v = slot va" for v
    using l(5) that assms(3) ok
    by (simp add: translate_lookup query_lookup leaf_present leaf_address offset_mask_def)
  have old: "table_of (hal_translate root va s) = pa" if rc: "rc = AF_OK" and q: "hal_query_flags root va s \<noteq> 0"
  proof -
    obtain e k where e: "lookup s root (slot va) = Some (e, k)"
      using q ok(1) by (auto simp: query_lookup split: option.splits)
    then have k: "k = 0" "table_of e = pa" using l(5) rc by blast+
    have "table_of (table_of e OR (va AND 0xFFF)) = table_of e"
      by (simp add: table_of_def bit.conj_disj_distrib2 and.assoc)
    then show ?thesis using e k ok(1) by (simp add: translate_lookup offset_mask_def)
  qed
  show ?thesis using l(1,2) un new old by blast
qed


text \<open>
  Unmapping a page removes that page, and only in the spaces that share its region; a failing call
  changes nothing at all.
\<close>

theorem unmap_page_exact:
  assumes "tables_wf R reg lab s" "root \<in> R" "hal_unmap_page root va s = (rc, s')"
  shows "tables_wf R reg lab s' \<and> unchanged R (if rc = AF_OK then page_in reg root va else {}) s s' \<and>
     (rc \<noteq> AF_OK \<longrightarrow> s' = s) \<and>
     (rc = AF_OK \<longrightarrow> (\<forall>v. slot v = slot va \<longrightarrow> hal_translate root v s' = 0 \<and> hal_query_flags root v s' = 0))"
proof -
  note u = unmap_page_lookup [OF assms]
  then have wf': "tables_wf R reg lab s'" by blast
  have un: "unchanged R (if rc = AF_OK then page_in reg root va else {}) s s'"
    by (rule lookups_unchanged [OF assms(1) wf'])
      (use u in \<open>auto simp: page_in_def only_page_def split: if_splits\<close>)
  show ?thesis
    using u un wf_root_ok [OF wf' assms(2)] by (auto simp: translate_lookup query_lookup)
qed

section \<open>Address spaces\<close>

definition own_half :: "(u64 \<Rightarrow> nat \<Rightarrow> nat) \<Rightarrow> u64 \<Rightarrow> u64 \<Rightarrow> nat \<Rightarrow> u64 \<Rightarrow> nat \<Rightarrow> nat" where
  "own_half reg t cur k r j = (if r = t then (if j = AF_USER_PML4_INDEX then k else reg cur j) else reg r j)"

lemma copy_entries:
  assumes "cur \<noteq> t" "\<forall>j. entries s t j = 0"
  shows "let s' = fold (\<lambda>i u. if i = AF_USER_PML4_INDEX then u else set_entry t i (entries u cur i) u) [0..<n] s
     in frames s' = frames s \<and> page_root s' = page_root s \<and>
        entries s' = (entries s)(t := (\<lambda>j. if j < n \<and> j \<noteq> AF_USER_PML4_INDEX then entries s cur j else 0))"
proof (induction n)
  case 0
  then show ?case using assms by (auto simp: Let_def fun_eq_iff)
next
  case (Suc n)
  then show ?case using assms by (auto simp: Let_def set_entry_def fun_eq_iff less_Suc_eq)
qed

lemma create_user_ok:
  assumes wf: "tables_wf R reg lab s" and cur: "page_root s \<in> R" and c: "hal_pt_create_user s = (t, s')" "t \<noteq> 0"
  shows "tables_wf (insert t R) (own_half reg t (page_root s) k) lab s' \<and> t \<notin> R \<and> unchanged R {} s s' \<and>
     (\<forall>v. hal_translate t v s' = (if pml4_index v = AF_USER_PML4_INDEX then 0 else hal_translate (page_root s) v s) \<and>
          hal_query_flags t v s' = (if pml4_index v = AF_USER_PML4_INDEX then 0 else hal_query_flags (page_root s) v s))"
proof -
  let ?cur = "page_root s"
  obtain s1 where a: "alloc_table s = (t, s1)"
    using c by (auto simp: hal_pt_create_user_def hal_get_page_table_def Let_def split: prod.splits if_splits)
  have al: "page_root s1 = page_root s" "pmm_inv (frames s1)" "frame_address t" "frame_number t \<in> free_set (frames s)"
      "free_set (frames s1) = free_set (frames s) - {frame_number t}" "entries s1 = (entries s)(t := (\<lambda>_. 0))"
    using alloc_table_ok [OF wfD(1) [OF wf] a] c(2) by auto
  have fresh: "x \<noteq> t" if "table_frame s x" for x using that al(4) by (auto simp: table_frame_def)
  have tR: "t \<notin> R" using wfD(2) [OF wf] fresh by blast
  have lt: "lab t = None" using wfD(3) [OF wf] fresh by (metis option.exhaust_sel)
  have ne: "?cur \<noteq> t" using cur tR by auto
  have labs: "lab x = Some p \<Longrightarrow> x \<noteq> t" for x p using lt by auto
  have cz: "?cur \<noteq> 0" using wfD(2) [OF wf cur] by (auto simp: table_frame_def)
  have s': "s' = fold (\<lambda>i u. if i = AF_USER_PML4_INDEX then u else set_entry t i (entries u ?cur i) u) [0..<512] s1"
    using c a cz by (simp add: hal_pt_create_user_def hal_get_page_table_def)
  have curE: "entries s1 ?cur = entries s ?cur" using al(6) ne by simp
  have f: "frames s' = frames s1" "page_root s' = page_root s1"
      "entries s' = (entries s)(t := (\<lambda>j. if j < 512 \<and> j \<noteq> AF_USER_PML4_INDEX then entries s ?cur j else 0))"
    using copy_entries [OF ne, of s1 512] unfolding s' Let_def curE by (simp_all add: al(6))
  have e_old: "entries s' x j = entries s x j" if "x \<noteq> t" for x j using that f(3) by simp
  have e_new: "entries s' t j = (if j < 512 \<and> j \<noteq> AF_USER_PML4_INDEX then entries s ?cur j else 0)" for j using f(3) by simp
  have tf: "table_frame s' x" if "table_frame s x" for x using that al(5) f(1) by (auto simp: table_frame_def)
  have wf': "tables_wf (insert t R) (own_half reg t ?cur k) lab s'"
    unfolding tables_wf_def
  proof (intro conjI ballI allI impI)
    show "pmm_inv (frames s')" using al(2) f(1) by simp
    show "table_frame s' r" if "r \<in> insert t R" for r
      using that tf wfD(2) [OF wf] al(3,5) f(1) c(2) by (auto simp: table_frame_def)
    show "lab r = None" if "r \<in> insert t R" for r using that lt wfD(2) [OF wf] by auto
    show "root_ok s' r" if "r \<in> insert t R" for r
    proof (cases "r = t")
      case True
      then show ?thesis using wf_root_ok [OF wf cur] c(2) by (auto simp: root_ok_def e_new)
    next
      case False
      then show ?thesis using that wf_root_ok [OF wf] by (auto simp: root_ok_def e_old)
    qed
    show "table_frame s' x" if "lab x = Some p" for x p using tf wfD(3) [OF wf that] by blast
    show "lab (table_of (entries s' r j)) = Some (own_half reg t ?cur k r j, [j])"
      if "r \<in> insert t R" "j < 512" "present (entries s' r j)" for r j
      using that wfD(4) [OF wf] cur by (cases "r = t") (auto simp: e_new e_old own_half_def split: if_splits)
    show "lab (table_of (entries s' x j)) = Some (g, p @ [j])"
      if "lab x = Some (g, p)" "length p < 3" "j < 512" "present (entries s' x j)" "\<not> huge (entries s' x j)" for x g p j
      using that wfD(5) [OF wf that(1-3)] labs [OF that(1)] by (simp add: e_old)
  qed
  have deep: "lookup s' x q = lookup s x q" if "depth R lab x m" "m + length q = 4" "\<forall>j \<in> set q. j < 512" for x m q
    using that
  proof (induction q arbitrary: x m)
    case (Cons j q)
    have xt: "x \<noteq> t" using fresh [OF depth_frame [OF wf Cons.prems(1)]] .
    show ?case
    proof (cases "present (entries s x j) \<and> q \<noteq> [] \<and> \<not> huge (entries s x j)")
      case True
      then have "m < 3" using Cons.prems(2) by (cases q) auto
      then have "depth R lab (table_of (entries s x j)) (Suc m)"
        using depth_child [OF wf Cons.prems(1)] True Cons.prems(3) by simp
      then have "lookup s' (table_of (entries s x j)) q = lookup s (table_of (entries s x j)) q"
        by (rule Cons.IH) (use Cons.prems in auto)
      then show ?thesis using xt by (simp add: e_old Let_def)
    qed (use xt in \<open>auto simp: e_old Let_def\<close>)
  qed simp
  have old: "lookup s' r (slot v) = lookup s r (slot v)" if "r \<in> R" for r v
    using deep [of r 0 "slot v"] that slot_less [of v] by (simp add: depth_def slot_length)
  have new: "lookup s' t (slot v) = (if pml4_index v = AF_USER_PML4_INDEX then None else lookup s ?cur (slot v))" for v
  proof -
    define i where "i = pml4_index v"
    define q where "q = [pdpt_index v, pd_index v, pt_index v]"
    have sl: "slot v = i # q" and q: "length q = 3" "\<forall>j \<in> set q. j < 512" and i: "i < 512"
      using index_less [of v] by (simp_all add: slot_def i_def q_def)
    have sub: "lookup s' (table_of (entries s ?cur i)) q = lookup s (table_of (entries s ?cur i)) q"
      if "present (entries s ?cur i)"
    proof -
      have "lab (table_of (entries s ?cur i)) = Some (reg ?cur i, [i])" using wfD(4) [OF wf cur i that] .
      then have "depth R lab (table_of (entries s ?cur i)) 1" by (simp add: depth_def)
      then show ?thesis by (rule deep) (use q in auto)
    qed
    show ?thesis
      unfolding sl using sub i q by (cases q) (auto simp: e_new Let_def i_def [symmetric])
  qed
  have "unchanged R {} s s'"
    using old wf_root_ok [OF wf] wf_root_ok [OF wf'] by (simp add: unchanged_def translate_lookup query_lookup)
  moreover have "hal_translate t v s' = (if pml4_index v = AF_USER_PML4_INDEX then 0 else hal_translate ?cur v s) \<and>
      hal_query_flags t v s' = (if pml4_index v = AF_USER_PML4_INDEX then 0 else hal_query_flags ?cur v s)" for v
    using new [of v] wf_root_ok [OF wf cur] wf_root_ok [OF wf', of t] by (simp add: translate_lookup query_lookup)
  ultimately show ?thesis using wf' tR by blast
qed

text \<open>What a process may do to its own half of its address space.\<close>

inductive user_step :: "u64 \<Rightarrow> vm_state \<Rightarrow> vm_state \<Rightarrow> bool" for root where
  Map: "pml4_index va = AF_USER_PML4_INDEX \<Longrightarrow> user_step root s (snd (hal_map_page root va pa flags s))"
| Unmap: "pml4_index va = AF_USER_PML4_INDEX \<Longrightarrow> user_step root s (snd (hal_unmap_page root va s))"

inductive_cases user_stepE: "user_step root s s'"

definition private_half :: "u64 set \<Rightarrow> (u64 \<Rightarrow> nat \<Rightarrow> nat) \<Rightarrow> u64 \<Rightarrow> bool" where
  "private_half R reg root \<longleftrightarrow>
     (\<forall>r \<in> R. \<forall>j < 512. reg r j = reg root AF_USER_PML4_INDEX \<longrightarrow> r = root \<and> j = AF_USER_PML4_INDEX)"

definition user_half :: "u64 \<Rightarrow> (u64 \<times> u64) set" where
  "user_half root = {(r, v). r = root \<and> pml4_index v = AF_USER_PML4_INDEX}"

lemma unchanged_trans: "unchanged R X s s1 \<Longrightarrow> unchanged R X s1 s2 \<Longrightarrow> unchanged R X s s2"
  by (simp add: unchanged_def)

lemma unchanged_mono: "unchanged R X s s' \<Longrightarrow> (\<And>r v. r \<in> R \<Longrightarrow> (r, v) \<in> X \<Longrightarrow> (r, v) \<in> Y) \<Longrightarrow> unchanged R Y s s'"
  by (auto simp: unchanged_def)

lemma page_in_half:
  "private_half R reg root \<Longrightarrow> pml4_index va = AF_USER_PML4_INDEX \<Longrightarrow> r \<in> R \<Longrightarrow> (r, v) \<in> page_in reg root va \<Longrightarrow>
     (r, v) \<in> user_half root"
  using index_less(1) [of v] by (auto simp: private_half_def page_in_def user_half_def)

lemma user_step_isolated:
  assumes "tables_wf R reg lab s" "root \<in> R" "private_half R reg root" "user_step root s s'"
  shows "(\<exists>lab'. tables_wf R reg lab' s') \<and> unchanged R (user_half root) s s'"
  using assms(4)
proof cases
  case (Map va pa flags)
  obtain rc where m: "hal_map_page root va pa flags s = (rc, s')" using Map by (metis prod.collapse)
  show ?thesis
  proof (rule map_page_lookup [OF assms(1,2) m])
    fix lab' assume l: "tables_wf R reg lab' s'" "rc \<noteq> AF_OK \<Longrightarrow> same_lookups R s s'"
      "rc = AF_OK \<Longrightarrow> only_page R reg root va s s' \<and>
       lookup s' root (slot va) = (if present (leaf_entry pa flags) then Some (leaf_entry pa flags, 0) else None) \<and>
       (\<forall>e k. lookup s root (slot va) = Some (e, k) \<longrightarrow> k = 0 \<and> table_of e = pa)"
    have "unchanged R (page_in reg root va) s s'"
      by (rule lookups_unchanged [OF assms(1) l(1)])
        (use l(2,3) in \<open>cases "rc = AF_OK"; auto simp: page_in_def only_page_def same_lookups_def\<close>)
    then show ?thesis using l(1) page_in_half [OF assms(3) Map(2)] unchanged_mono by blast
  qed
next
  case (Unmap va)
  obtain rc where m: "hal_unmap_page root va s = (rc, s')" using Unmap by (metis prod.collapse)
  note u = unmap_page_exact [OF assms(1,2) m]
  have "unchanged R (page_in reg root va) s s'" by (rule unchanged_mono [OF conjunct1 [OF conjunct2 [OF u]]]) (auto split: if_splits)
  then show ?thesis using u page_in_half [OF assms(3) Unmap(2)] unchanged_mono by blast
qed

lemma user_steps_isolated:
  assumes "tables_wf R reg lab s" "root \<in> R" "private_half R reg root" "(user_step root)\<^sup>*\<^sup>* s s'"
  shows "(\<exists>lab'. tables_wf R reg lab' s') \<and> unchanged R (user_half root) s s'"
  using assms(4)
proof (induction rule: rtranclp_induct)
  case base
  then show ?case using assms(1) by (auto simp: unchanged_def)
next
  case (step s1 s2)
  then obtain lab1 where "tables_wf R reg lab1 s1" by blast
  from user_step_isolated [OF this assms(2,3) step.hyps(2)] step.IH show ?case
    using unchanged_trans by blast
qed

lemma user_spaces_separate:
  assumes wf: "tables_wf R reg lab s" and fin: "finite R" and cur: "page_root s \<in> R"
    and c: "hal_pt_create_user s = (t, s1)" "t \<noteq> 0" and steps: "(user_step t)\<^sup>*\<^sup>* s1 s'"
  shows "t \<notin> R \<and>
     (\<forall>r \<in> R. \<forall>v. hal_translate r v s' = hal_translate r v s \<and> hal_query_flags r v s' = hal_query_flags r v s) \<and>
     (\<forall>v. pml4_index v \<noteq> AF_USER_PML4_INDEX \<longrightarrow>
        hal_translate t v s' = hal_translate (page_root s) v s \<and> hal_query_flags t v s' = hal_query_flags (page_root s) v s)"
proof -
  have "finite (\<Union>r \<in> R. reg r ` {..<512})" using fin by simp
  then obtain k where k: "k \<notin> (\<Union>r \<in> R. reg r ` {..<512})" using ex_new_if_finite by blast
  note made = create_user_ok [OF wf cur c, of k]
  have "private_half (insert t R) (own_half reg t (page_root s) k) t"
    using k cur made by (auto simp: private_half_def own_half_def split: if_splits)
  then have "unchanged (insert t R) (user_half t) s1 s'"
    using user_steps_isolated [of "insert t R" _ lab s1 t s'] made steps by blast
  then show ?thesis using made by (auto simp: unchanged_def user_half_def)
qed

text \<open>
  (C26) A process address space is created from the one that is current and then used: pages of its own half
  are mapped and unmapped in any number and order, by calls that may fail part-way. Whatever they do,
  no other address space sees any change, and outside its own half the new space maps exactly what the
  current one maps.
\<close>

theorem user_spaces_isolated:
  assumes wf: "tables_wf R reg lab s" and fin: "finite R" and cur: "page_root s \<in> R"
    and c: "hal_pt_create_user s = (t, s1)" "t \<noteq> 0" and steps: "(user_step t)\<^sup>*\<^sup>* s1 s'"
  shows "t \<notin> R \<and>
     (\<forall>r \<in> R. \<forall>v. hal_translate r v s' = hal_translate r v s \<and> hal_query_flags r v s' = hal_query_flags r v s) \<and>
     (\<forall>v. pml4_index v \<noteq> AF_USER_PML4_INDEX \<longrightarrow>
        hal_translate t v s' = hal_translate (page_root s) v s \<and> hal_query_flags t v s' = hal_query_flags (page_root s) v s)"
  by (rule user_spaces_separate [OF assms])

section \<open>The identity map\<close>

lemma alloc_table_count: "pmm_inv (frames s) \<Longrightarrow> alloc_table s = (t, s1) \<Longrightarrow> s_frame_count (frames s1) = s_frame_count (frames s)"
proof -
  assume inv: "pmm_inv (frames s)" and a: "alloc_table s = (t, s1)"
  have "s_frame_count p = s_frame_count (frames s)" if "pmm_alloc_frames 1 (frames s) = (u, p)" for u p
    by (rule alloc_cases [OF inv, of 1]) (use that in auto)
  then show ?thesis
    using a by (auto simp: alloc_table_def pmm_alloc_frame_z_def pmm_alloc_frame_def Let_def split: prod.splits if_splits)
qed

lemma wf_new_root:
  assumes wf: "tables_wf R reg lab s" and a: "alloc_table s = (c, s1)" "c \<noteq> 0"
  shows "tables_wf (insert c R) reg lab s1"
proof -
  note al = wf_alloc(1) [OF wf a, of "(0, [])"] wf_alloc(2-) [OF wf a]
  have ok: "frame_address c" "free_set (frames s1) = free_set (frames s) - {frame_number c}"
    using alloc_table_ok [OF wfD(1) [OF wf] a(1)] a(2) by auto
  have labs: "lab x = Some p \<Longrightarrow> x \<noteq> c" for x p using al(2) by auto
  show ?thesis
    unfolding tables_wf_def
  proof (intro conjI ballI allI impI)
    show "pmm_inv (frames s1)" using wfD(1) [OF al(1)] .
    show "lab r = None" if "r \<in> insert c R" for r using that wfD(2) [OF wf] al(2) by auto
    show "table_frame s1 r" "root_ok s1 r" if "r \<in> insert c R" for r
      using that wfD(2) [OF al(1)] al ok a(2) by (auto simp: table_frame_def root_ok_def split: if_splits)
    show "table_frame s1 x" if "lab x = Some p" for x p
      using wfD(3) [OF al(1), of x p] labs [OF that] that by simp
    show "lab (table_of (entries s1 r j)) = Some (reg r j, [j])"
      if "r \<in> insert c R" "j < 512" "present (entries s1 r j)" for r j
      using that al(6) wfD(4) [OF wf, of r j] al(5) [of r 0 j] by (auto simp: depth_def)
    show "lab (table_of (entries s1 x j)) = Some (g, p @ [j])"
      if "lab x = Some (g, p)" "length p < 3" "j < 512" "present (entries s1 x j)" "\<not> huge (entries s1 x j)" for x g p j
    proof -
      have "entries s1 x = entries s x"
        using alloc_table_ok [OF wfD(1) [OF wf] a(1)] a(2) labs [OF that(1)] by simp
      then show ?thesis using wfD(5) [OF wf that(1-3)] that by simp
    qed
  qed
qed

lemma wf_empty: "pmm_inv (frames s) \<Longrightarrow> tables_wf {} reg Map.empty s"
  by (simp add: tables_wf_def)

definition huge_entry :: "u64 \<Rightarrow> u64" where
  "huge_entry phys = phys OR 1 OR 2 OR 0x80"

definition huge_phys :: "nat \<Rightarrow> nat \<Rightarrow> u64" where
  "huge_phys gib i = push_bit 30 (of_nat gib) + push_bit 21 (of_nat i)"

lemma unat_huge_phys: "gib < 512 \<Longrightarrow> i < 512 \<Longrightarrow> unat (huge_phys gib i) = gib * 2 ^ 30 + i * 2 ^ 21"
proof -
  assume b: "gib < 512" "i < 512"
  have "unat (push_bit 30 (of_nat gib) :: u64) = gib * 2 ^ 30" "unat (push_bit 21 (of_nat i) :: u64) = i * 2 ^ 21"
    using b by (simp_all add: unsigned_push_bit_eq push_bit_nat_def unat_of_nat take_bit_nat_eq_self)
  then show ?thesis using b by (simp add: huge_phys_def unat_add_small)
qed

lemma fill_pd_step: "fill_pd highest pd gib (k # is) s =
    (if highest \<le> huge_phys gib k then s else fill_pd highest pd gib is (set_entry pd k (huge_entry (huge_phys gib k)) s))"
  by (simp add: huge_phys_def huge_entry_def Let_def)

lemma fill_pd_entries:
  assumes "gib < 512" "k \<le> 512"
  shows "let s' = fill_pd highest pd gib [k..<512] s in
     frames s' = frames s \<and> page_root s' = page_root s \<and>
     entries s' = (entries s)(pd := (\<lambda>i. if k \<le> i \<and> i < 512 \<and> huge_phys gib i < highest then huge_entry (huge_phys gib i) else entries s pd i))"
  using assms(2)
proof (induction "512 - k" arbitrary: k s)
  case 0
  then show ?case by (auto simp: Let_def fun_eq_iff)
next
  case (Suc m)
  then have k: "k < 512" and up: "[k..<512] = k # [Suc k..<512]" by (simp_all add: upt_rec)
  show ?case
  proof (cases "highest \<le> huge_phys gib k")
    case True
    have "highest \<le> huge_phys gib i" if "k \<le> i" "i < 512" for i
      using True that unat_huge_phys [OF assms(1)] k by (simp add: word_le_nat_alt)
    then show ?thesis
      using True unfolding up fill_pd_step by (auto simp: fun_eq_iff Let_def not_less [symmetric])
  next
    case False
    let ?s = "set_entry pd k (huge_entry (huge_phys gib k)) s"
    have "let s' = fill_pd highest pd gib [Suc k..<512] ?s in
       frames s' = frames ?s \<and> page_root s' = page_root ?s \<and>
       entries s' = (entries ?s)(pd := (\<lambda>i. if Suc k \<le> i \<and> i < 512 \<and> huge_phys gib i < highest then huge_entry (huge_phys gib i) else entries ?s pd i))"
      by (rule Suc.hyps) (use Suc.hyps(2) k in auto)
    then show ?thesis
      using False k unfolding up fill_pd_step by (auto simp: fun_eq_iff Let_def le_less Suc_le_eq not_le)
  qed
qed


lemma huge_phys_shift: "gib < 512 \<Longrightarrow> i < 512 \<Longrightarrow> m = gib * 512 + i \<Longrightarrow> huge_phys gib i = push_bit 21 (of_nat m)"
proof -
  assume b: "gib < 512" "i < 512" and m: "m = gib * 512 + i"
  have "m < 262144" using b m by simp
  then have "unat (push_bit 21 (of_nat m) :: u64) = m * 2 ^ 21"
    by (simp add: unsigned_push_bit_eq push_bit_nat_def unat_of_nat take_bit_nat_eq_self)
  then show ?thesis using unat_huge_phys [OF b] m by (simp add: word_unat_eq_iff)
qed

lemma huge_phys_bits: "gib < 512 \<Longrightarrow> i < 512 \<Longrightarrow> bit (huge_phys gib i) n \<Longrightarrow> 21 \<le> n \<and> n < 39"
proof -
  assume b: "gib < 512" "i < 512" and n: "bit (huge_phys gib i) n"
  define m where "m = gib * 512 + i"
  have "m < 2 ^ 18" using b m_def by simp
  then have "unat (of_nat m :: u64) < 2 ^ 18" by (simp add: unat_of_nat)
  then have "take_bit 18 (of_nat m :: u64) = of_nat m" by (rule take_bit_small)
  then have "bit (of_nat m :: u64) k \<Longrightarrow> k < 18" for k by (metis bit_take_bit_iff)
  then show ?thesis using n unfolding huge_phys_shift [OF b m_def] by (fastforce simp: bit_push_bit_iff)
qed

lemma flag_bits:
  "(e :: u64) AND 1 \<noteq> 0 \<longleftrightarrow> bit e 0" "e AND 2 \<noteq> 0 \<longleftrightarrow> bit e 1" "e AND 4 \<noteq> 0 \<longleftrightarrow> bit e 2"
  "e AND 0x100 \<noteq> 0 \<longleftrightarrow> bit e 8" "e AND 0x80 \<noteq> 0 \<longleftrightarrow> bit e 7" "e AND 0x10 \<noteq> 0 \<longleftrightarrow> bit e 4"
  "e AND 0x8000000000000000 = 0 \<longleftrightarrow> \<not> bit e 63"
  using and_single [of e 0] and_single [of e 1] and_single [of e 2] and_single [of e 8] and_single [of e 7]
    and_single [of e 4] and_single [of e 63]
  by (simp_all add: push_bit_eq_mult)

lemma huge_entry_bits:
  assumes "gib < 512" "i < 512"
  shows "present (huge_entry (huge_phys gib i))" "huge (huge_entry (huge_phys gib i))"
    "table_of (huge_entry (huge_phys gib i)) = huge_phys gib i"
    "pte_to_hal_flags (huge_entry (huge_phys gib i)) = 0x8B"
proof -
  note low = huge_phys_bits [OF assms]
  have no: "\<not> bit (huge_phys gib i) n" if "n < 21 \<or> 39 \<le> n" for n using low [of n] that by auto
  show "present (huge_entry (huge_phys gib i))" "huge (huge_entry (huge_phys gib i))"
    by (simp_all add: present_bit huge_bit huge_entry_def bit_or_iff)
  have "table_of (huge_phys gib i) = huge_phys gib i"
    by (rule bit_word_eqI) (auto simp: bit_table_of dest: low)
  then show "table_of (huge_entry (huge_phys gib i)) = huge_phys gib i"
    by (simp add: table_of_def huge_entry_def bit.conj_disj_distrib2)
  show "pte_to_hal_flags (huge_entry (huge_phys gib i)) = 0x8B"
    unfolding pte_to_hal_flags_def flag_bits huge_entry_def bit_or_iff by (simp add: no)
qed

lemma wf_fill_pd:
  assumes "gib < 512"
  shows "tables_wf R reg lab s \<Longrightarrow> depth R lab pd 2 \<Longrightarrow> set is \<subseteq> {..<512} \<Longrightarrow>
    tables_wf R reg lab (fill_pd highest pd gib is s)"
proof (induction "is" arbitrary: s)
  case (Cons i "is")
  have "tables_wf R reg lab (set_entry pd i (huge_entry (huge_phys gib i)) s)"
    by (rule wf_set_entry [OF Cons.prems(1,2)]) (use huge_entry_bits(2) [OF assms] in simp)
  then show ?case using Cons unfolding fill_pd_step by simp
qed simp

text \<open>What the loop over the gigabytes has built when it comes to gigabyte \<open>g\<close>.\<close>

definition built :: "u64 \<Rightarrow> (u64 \<Rightarrow> nat \<Rightarrow> nat) \<Rightarrow> u64 \<Rightarrow> u64 \<Rightarrow> nat \<Rightarrow> vm_state \<Rightarrow> bool" where
  "built highest reg root pdpt g s \<longleftrightarrow> (\<exists>lab. tables_wf {root} reg lab s \<and>
     (\<forall>j. entries s root j = (if j = 0 then pdpt OR 1 OR 2 OR 0 else 0)) \<and> lab pdpt = Some (reg root 0, [0]) \<and>
     frame_address pdpt \<and>
     (\<forall>j < 512. if j < g
        then \<exists>pd. frame_address pd \<and> entries s pdpt j = pd OR 1 OR 2 OR 0 \<and> lab pd = Some (reg root 0, [0, j]) \<and>
          (\<forall>i < 512. entries s pd i = (if huge_phys j i < highest then huge_entry (huge_phys j i) else 0))
        else entries s pdpt j = 0))"

lemma map_gib_built:
  assumes b: "built highest reg root pdpt g s" and g: "g < 512" and m: "map_gib highest pdpt g s = Some s'"
  shows "built highest reg root pdpt (Suc g) s'"
proof -
  obtain lab where l: "tables_wf {root} reg lab s"
      "\<And>j. entries s root j = (if j = 0 then pdpt OR 1 OR 2 OR 0 else 0)" "lab pdpt = Some (reg root 0, [0])"
      "frame_address pdpt"
      "\<And>j. j < 512 \<Longrightarrow> if j < g
        then \<exists>pd. frame_address pd \<and> entries s pdpt j = pd OR 1 OR 2 OR 0 \<and> lab pd = Some (reg root 0, [0, j]) \<and>
          (\<forall>i < 512. entries s pd i = (if huge_phys j i < highest then huge_entry (huge_phys j i) else 0))
        else entries s pdpt j = 0"
    using b unfolding built_def by blast
  obtain pd s1 where a: "alloc_table s = (pd, s1)" by fastforce
  have nz: "pd \<noteq> 0" using m a by (auto simp: map_gib_def)
  define s2 where "s2 = set_entry pdpt g (pd OR 1 OR 2 OR 0) s1"
  have s': "s' = fill_pd highest pd g [0..<512] s2" using m a nz by (simp add: map_gib_def s2_def)
  define lab' where "lab' = lab(pd \<mapsto> (reg root 0, [0, g]))"
  note al = wf_alloc(1) [OF l(1) a nz, of "(reg root 0, [0, g])", folded lab'_def] wf_alloc(2-) [OF l(1) a nz]
  have dp: "depth {root} lab pdpt 1" "depth {root} lab' pdpt 1" "depth {root} lab' pd 2"
    using l(3) al(2) by (auto simp: depth_def lab'_def)
  have nr: "pdpt \<noteq> root" "pd \<noteq> root" "pd \<noteq> pdpt" using al(2,3) l(3) wfD(2) [OF l(1)] by auto
  note pdb = new_entry_bits [OF al(4), of 0]
  have wf2: "tables_wf {root} reg lab' s2"
    unfolding s2_def
    by (rule wf_set_entry [OF al(1) dp(2)]) (use pdb l(3) nr in \<open>simp add: below_def lab'_def\<close>)
  have filled: "frames s' = frames s2" "page_root s' = page_root s2"
      "entries s' = (entries s2)(pd := (\<lambda>i. if i < 512 \<and> huge_phys g i < highest then huge_entry (huge_phys g i) else entries s2 pd i))"
    using fill_pd_entries [OF g, of 0 highest pd s2] unfolding s' Let_def by simp_all
  have e2: "entries s2 x j = (if x = pdpt \<and> j = g then pd OR 1 OR 2 OR 0 else entries s1 x j)" for x j
    by (simp add: s2_def)
  have pd0: "entries s2 pd j = 0" for j using e2 nr al(6) by simp
  have wf': "tables_wf {root} reg lab' s'"
    unfolding s' by (rule wf_fill_pd [OF g wf2 dp(3)]) auto
  have ent: "entries s' x j = (if x = pdpt \<and> j = g then pd OR 1 OR 2 OR 0 else entries s x j)"
    if "depth {root} lab x n" for x n j
    using al(5) [OF that, of j] filled(3) e2 by simp
  show ?thesis
    unfolding built_def
  proof (intro exI [of _ lab'] conjI allI impI)
    show "entries s' root j = (if j = 0 then pdpt OR 1 OR 2 OR 0 else 0)" for j
      using ent [of root 0 j] l(2) nr by (simp add: depth_def)
    show "lab' pdpt = Some (reg root 0, [0])" using l(3) nr by (simp add: lab'_def)
    fix j :: nat assume j: "j < 512"
    show "if j < Suc g
        then \<exists>pd. frame_address pd \<and> entries s' pdpt j = pd OR 1 OR 2 OR 0 \<and> lab' pd = Some (reg root 0, [0, j]) \<and>
          (\<forall>i < 512. entries s' pd i = (if huge_phys j i < highest then huge_entry (huge_phys j i) else 0))
        else entries s' pdpt j = 0"
    proof (cases "j = g")
      case True
      have "entries s' pdpt g = pd OR 1 OR 2 OR 0" using ent [OF dp(1), of g] by simp
      moreover have "entries s' pd i = (if huge_phys g i < highest then huge_entry (huge_phys g i) else 0)" if "i < 512" for i
        using filled(3) pd0 that by simp
      moreover have "lab' pd = Some (reg root 0, [0, g])" by (simp add: lab'_def)
      ultimately show ?thesis using True al(4) by auto
    next
      case False
      have same: "entries s' pdpt j = entries s pdpt j" using ent [OF dp(1), of j] False by simp
      show ?thesis
      proof (cases "j < g")
        case True
        then obtain p where p: "frame_address p" "entries s pdpt j = p OR 1 OR 2 OR 0" "lab p = Some (reg root 0, [0, j])"
            "\<forall>i < 512. entries s p i = (if huge_phys j i < highest then huge_entry (huge_phys j i) else 0)"
          using l(5) [OF j] by auto
        have "depth {root} lab p 2" using p(3) by (simp add: depth_def)
        then have "entries s' p i = entries s p i" for i
          using ent [of p 2 i] p(3) l(3) by auto
        moreover have "lab' p = Some (reg root 0, [0, j])" using p(3) al(2) by (auto simp: lab'_def)
        ultimately show ?thesis using p same True by auto
      next
        case False
        then show ?thesis using l(5) [OF j] same \<open>j \<noteq> g\<close> by auto
      qed
    qed
  qed (use wf' l(4) in auto)
qed

lemma huge_phys_index:
  "huge_phys (pdpt_index v) (pd_index v) = take_bit 39 v AND NOT 0x1FFFFF"
proof -
  have nine: "of_nat (unat (x AND 0x1FF)) = take_bit 9 x" for x :: u64
    by (simp add: take_bit_eq_mask mask_eq_exp_minus_1)
  have m: "(0x1FFFFF :: u64) = mask 21" by (simp add: mask_eq_exp_minus_1)
  let ?a = "push_bit 30 (take_bit 9 (drop_bit 30 v))" and ?b = "push_bit 21 (take_bit 9 (drop_bit 21 v))"
  have "?a AND ?b = 0"
    by (rule bit_word_eqI) (auto simp: bit_and_iff bit_push_bit_iff bit_take_bit_iff bit_drop_bit_eq)
  then have "?a + ?b = ?a OR ?b" using word_plus_and_or [of ?a ?b] by simp
  also have "\<dots> = take_bit 39 v AND NOT 0x1FFFFF"
    unfolding m
    by (rule bit_word_eqI)
      (auto simp: bit_simps)
  finally have "?a + ?b = take_bit 39 v AND NOT 0x1FFFFF" .
  then show ?thesis
    unfolding huge_phys_def pdpt_index_def pd_index_def nine .
qed

lemma huge_phys_offset:
  "huge_phys (pdpt_index v) (pd_index v) OR (v AND 0x1FFFFF) = take_bit 39 v"
proof -
  have m: "(0x1FFFFF :: u64) = mask 21" by (simp add: mask_eq_exp_minus_1)
  show ?thesis
    unfolding huge_phys_index m by (rule bit_word_eqI) (auto simp: bit_simps)
qed

lemma built_lookup:
  assumes b: "built highest reg root pdpt g s" and g: "g \<le> 512" and top: "unat highest \<le> g * 2 ^ 30 \<or> g = 512"
  shows "root_ok s root"
    "lookup s root (slot v) =
       (if pml4_index v = 0 \<and> take_bit 39 v AND NOT 0x1FFFFF < highest
        then Some (huge_entry (huge_phys (pdpt_index v) (pd_index v)), 1) else None)"
proof -
  obtain lab where l: "tables_wf {root} reg lab s"
      "\<And>j. entries s root j = (if j = 0 then pdpt OR 1 OR 2 OR 0 else 0)" "lab pdpt = Some (reg root 0, [0])"
      "frame_address pdpt"
      "\<And>j. j < 512 \<Longrightarrow> if j < g
        then \<exists>pd. frame_address pd \<and> entries s pdpt j = pd OR 1 OR 2 OR 0 \<and> lab pd = Some (reg root 0, [0, j]) \<and>
          (\<forall>i < 512. entries s pd i = (if huge_phys j i < highest then huge_entry (huge_phys j i) else 0))
        else entries s pdpt j = 0"
    using b unfolding built_def by blast
  show "root_ok s root" using wfD(2) [OF l(1)] by simp
  note r = new_entry_bits [OF l(4), of 0]
  have z: "\<not> present 0" by (simp add: present_def)
  let ?j = "pdpt_index v" and ?i = "pd_index v"
  note js = index_less [of v]
  show "lookup s root (slot v) =
       (if pml4_index v = 0 \<and> take_bit 39 v AND NOT 0x1FFFFF < highest
        then Some (huge_entry (huge_phys ?j ?i), 1) else None)"
  proof (cases "pml4_index v = 0")
    case False
    then show ?thesis by (simp add: slot_def l(2) z)
  next
    case True
    have one: "lookup s root (slot v) = lookup s pdpt [?j, ?i, pt_index v]"
      using r l(2) [of 0] True by (simp add: slot_def)
    show ?thesis
    proof (cases "?j < g")
      case True
      obtain pd where pd: "frame_address pd" "entries s pdpt ?j = pd OR 1 OR 2 OR 0"
          "\<forall>i < 512. entries s pd i = (if huge_phys ?j i < highest then huge_entry (huge_phys ?j i) else 0)"
        using l(5) [OF js(2)] True by auto
      have "lookup s root (slot v) = lookup s pd [?i, pt_index v]"
        using new_entry_bits [OF pd(1), of 0] pd(2) one by simp
      also have "\<dots> = (if huge_phys ?j ?i < highest then Some (huge_entry (huge_phys ?j ?i), 1) else None)"
        using pd(3) js huge_entry_bits [OF js(2,3)] z by simp
      finally show ?thesis using \<open>pml4_index v = 0\<close> huge_phys_index [of v] by simp
    next
      case False
      then have "unat highest \<le> unat (huge_phys ?j ?i)"
        using top unat_huge_phys [OF js(2,3)] js(2) mult_le_mono1 [of g ?j "2 ^ 30"] by simp
      then have "\<not> huge_phys ?j ?i < highest" by (simp add: word_less_nat_alt)
      moreover have "lookup s root (slot v) = None" using one l(5) [OF js(2)] False z by simp
      ultimately show ?thesis using huge_phys_index [of v] by simp
    qed
  qed
qed

lemma each_built:
  "built highest reg root pdpt g s \<Longrightarrow> g + n \<le> 512 \<Longrightarrow> each (map_gib highest pdpt) [g..<g + n] s = Some s' \<Longrightarrow>
    built highest reg root pdpt (g + n) s'"
proof (induction n arbitrary: g s)
  case (Suc n)
  have "[g..<g + Suc n] = g # [Suc g..<Suc g + n]" by (simp add: upt_rec)
  then obtain s1 where s1: "map_gib highest pdpt g s = Some s1" "each (map_gib highest pdpt) [Suc g..<Suc g + n] s1 = Some s'"
    using Suc.prems(3) by (auto split: option.splits)
  show ?case using Suc.IH [OF map_gib_built [OF Suc.prems(1) _ s1(1)] _ s1(2)] Suc.prems(2) by simp
qed simp

lemma pdpt_needed_covers:
  assumes "unat highest \<le> 2 ^ 63"
  shows "unat (pdpt_needed highest) \<le> 512" "unat highest \<le> unat (pdpt_needed highest) * 2 ^ 30 \<or> unat (pdpt_needed highest) = 512"
proof -
  let ?up = "align_up highest AF_GIB"
  have m: "(0x3FFFFFFF :: u64) = mask 30" by (simp add: mask_eq_exp_minus_1)
  have "unat (highest + 0x3FFFFFFF) = unat highest + 0x3FFFFFFF"
    using assms by (simp add: unat_word_ariths)
  moreover have "(unat highest + 0x3FFFFFFF) div 2 ^ 30 * 2 ^ 30 < 2 ^ 64"
    using assms div_times_less_eq_dividend [of "unat highest + 0x3FFFFFFF" "2 ^ 30"] by (simp add: le_less_trans)
  moreover have "?up = push_bit 30 (drop_bit 30 (highest + 0x3FFFFFFF))"
    unfolding align_up_def by (simp add: m) (rule bit_word_eqI, auto simp: bit_simps)
  ultimately have up: "unat ?up = (unat highest + 0x3FFFFFFF) div 2 ^ 30 * 2 ^ 30"
    by (simp add: unsigned_push_bit_eq unsigned_drop_bit_eq drop_bit_nat_def push_bit_nat_def take_bit_nat_eq_self)
  define c where "c = (unat highest + 0x3FFFFFFF) div 2 ^ 30"
  have c: "unat highest \<le> c * 2 ^ 30" unfolding c_def by simp
  define n where "n = (if 512 < c then 512 else c)"
  have "unat (if 512 * AF_GIB < ?up then 512 * AF_GIB else ?up) = n * 2 ^ 30"
    using up unfolding c_def [symmetric] n_def by (simp add: word_less_nat_alt)
  moreover define bytes where "bytes = (if 512 * AF_GIB < ?up then 512 * AF_GIB else ?up)"
  ultimately have "unat (bytes div AF_GIB) = n" by (simp add: unat_div)
  moreover have n: "n \<le> 512" by (simp add: n_def)
  ultimately have "unat (ucast (bytes div AF_GIB) :: u32) = n"
    by (simp add: unsigned_ucast_eq take_bit_nat_eq_self)
  then have "unat (pdpt_needed highest) = (if n = 0 then 1 else n)"
    unfolding pdpt_needed_def Let_def bytes_def [symmetric] by (auto simp: unat_eq_zero unat_gt_0)
  then show "unat (pdpt_needed highest) \<le> 512"
     "unat highest \<le> unat (pdpt_needed highest) * 2 ^ 30 \<or> unat (pdpt_needed highest) = 512"
    using c n by (auto simp: n_def split: if_splits)
qed


lemma entries_only:
  "entries s = entries t \<Longrightarrow> hal_translate r v s = hal_translate r v t"
  "entries s = entries t \<Longrightarrow> hal_query_flags r v s = hal_query_flags r v t"
  by (simp_all only: hal_translate_def hal_query_flags_def)

definition identity_mapped :: "u64 \<Rightarrow> u64 \<Rightarrow> bool" where
  "identity_mapped highest v \<longleftrightarrow> pml4_index v = 0 \<and> take_bit 39 v AND NOT 0x1FFFFF < highest"

lemma bootstrap_maps:
  assumes inv: "pmm_inv (frames s)" and boot: "af_x86_paging_bootstrap fb s = Some s'"
    and limit: "unat (identity_limit fb s) \<le> 2 ^ 63"
  shows "(\<exists>lab. tables_wf {page_root s'} (\<lambda>_ _. 0) lab s') \<and>
     (\<forall>v. hal_translate (page_root s') v s' = (if identity_mapped (identity_limit fb s) v then take_bit 39 v else 0) \<and>
          hal_query_flags (page_root s') v s' = (if identity_mapped (identity_limit fb s) v
            then HAL_PRESENT OR HAL_WRITABLE OR HAL_EXEC OR HAL_HUGE else 0))"
proof -
  let ?reg = "\<lambda>(_ :: u64) (_ :: nat). 0 :: nat"
  obtain root s1 where a1: "alloc_table s = (root, s1)" by fastforce
  have r0: "root \<noteq> 0" using boot a1 by (auto simp: af_x86_paging_bootstrap_def)
  define highest where "highest = identity_limit fb s1"
  have lim: "highest = identity_limit fb s"
    using alloc_table_count [OF inv a1] by (simp add: highest_def identity_limit_def pmm_max_address_def)
  obtain pdpt s2 where a2: "alloc_table s1 = (pdpt, s2)" by fastforce
  have p0: "pdpt \<noteq> 0" using boot a1 r0 a2 by (auto simp: af_x86_paging_bootstrap_def Let_def)
  define s2' where "s2' = set_entry root 0 (pdpt OR 1 OR 2 OR 0) s2"
  let ?n = "unat (pdpt_needed highest)"
  obtain s3 where s3: "each (map_gib highest pdpt) [0..<?n] s2' = Some s3" "s' = hal_set_page_table root s3"
    using boot a1 a2 r0 p0 unfolding af_x86_paging_bootstrap_def Let_def s2'_def highest_def
    by (auto split: option.splits)
  have wf1: "tables_wf {root} ?reg Map.empty s1" using wf_new_root [OF wf_empty [OF inv] a1 r0] by simp
  define lab where "lab = [pdpt \<mapsto> (0 :: nat, [0 :: nat])]"
  note al = wf_alloc(1) [OF wf1 a2 p0, of "(0, [0])", folded lab_def] wf_alloc(2-) [OF wf1 a2 p0]
  have root0: "entries s1 root j = 0" for j using alloc_table_ok [OF inv a1] r0 by simp
  have nr: "pdpt \<noteq> root" using al(3) by auto
  note pb = new_entry_bits [OF al(4), of 0]
  have wf2: "tables_wf {root} ?reg lab s2'"
    unfolding s2'_def
    by (rule wf_set_entry [OF al(1), of root 0]) (use pb nr in \<open>simp_all add: below_def lab_def depth_def\<close>)
  have "built highest ?reg root pdpt 0 s2'"
    unfolding built_def
  proof (intro exI [of _ lab] conjI allI impI)
    show "entries s2' root j = (if j = 0 then pdpt OR 1 OR 2 OR 0 else 0)" for j
      using al(5) [of root 0 j] root0 by (simp add: s2'_def depth_def)
    show "if j < 0
        then \<exists>pd. frame_address pd \<and> entries s2' pdpt j = pd OR 1 OR 2 OR 0 \<and> lab pd = Some (0, [0, j]) \<and>
          (\<forall>i < 512. entries s2' pd i = (if huge_phys j i < highest then huge_entry (huge_phys j i) else 0))
        else entries s2' pdpt j = 0" for j
      using al(6) nr by (simp add: s2'_def)
  qed (use wf2 al(4) in \<open>auto simp: lab_def\<close>)
  moreover note cover = pdpt_needed_covers [OF limit [folded lim]]
  ultimately have b: "built highest ?reg root pdpt ?n s3"
    using each_built [of highest ?reg root pdpt 0 s2' ?n s3] s3(1) by simp
  obtain lab3 where wf3: "tables_wf {root} ?reg lab3 s3" using b unfolding built_def by blast
  have s': "page_root s' = root" "\<And>r v. hal_translate r v s' = hal_translate r v s3"
      "\<And>r v. hal_query_flags r v s' = hal_query_flags r v s3"
    using entries_only [of s' s3] by (simp_all add: s3(2) hal_set_page_table_def)
  have wf': "tables_wf {root} ?reg lab3 s'"
    using wf3 by (simp add: s3(2) hal_set_page_table_def tables_wf_def table_frame_def root_ok_def)
  note lk = built_lookup [OF b cover]
  have "hal_translate root v s3 = (if identity_mapped highest v then take_bit 39 v else 0)" for v
    unfolding translate_lookup [OF lk(1)] lk(2) identity_mapped_def
    using huge_phys_offset [of v] huge_entry_bits(3) [OF index_less(2,3), of v v] by (simp add: offset_mask_def)
  moreover have "hal_query_flags root v s3 = (if identity_mapped highest v then 0x8B else 0)" for v
    unfolding query_lookup [OF lk(1)] lk(2) identity_mapped_def
    using huge_entry_bits(4) [OF index_less(2,3), of v v] by simp
  ultimately show ?thesis using wf' unfolding s' lim by auto
qed

text \<open>
  (C29) The boot-time tables map every address below the limit (the end of memory, or of the framebuffer
  when that is higher), and the rest of the last 2 MiB page, to itself, writable and executable for the
  kernel only; they map nothing else. Only the low 39 bits of an address in the first slot count.
\<close>

theorem bootstrap_identity:
  assumes inv: "pmm_inv (frames s)" and boot: "af_x86_paging_bootstrap fb s = Some s'"
    and limit: "unat (identity_limit fb s) \<le> 2 ^ 63"
  shows "(\<exists>lab. tables_wf {page_root s'} (\<lambda>_ _. 0) lab s') \<and>
     (\<forall>v. hal_translate (page_root s') v s' = (if identity_mapped (identity_limit fb s) v then take_bit 39 v else 0) \<and>
          hal_query_flags (page_root s') v s' = (if identity_mapped (identity_limit fb s) v
            then HAL_PRESENT OR HAL_WRITABLE OR HAL_EXEC OR HAL_HUGE else 0))"
  by (rule bootstrap_maps [OF assms])

section \<open>Destroying an address space\<close>

definition releases :: "nat set \<Rightarrow> nat set \<Rightarrow> vm_state \<Rightarrow> vm_state \<Rightarrow> bool" where
  "releases L A s s' \<longleftrightarrow> entries s' = entries s \<and> page_root s' = page_root s \<and> pmm_inv (frames s') \<and>
     free_set (frames s') - L = free_set (frames s) - L \<union> A \<and>
     (\<forall>g. g \<notin> L \<union> A \<longrightarrow> frame_owned (frames s') g = frame_owned (frames s) g)"

lemma releases_refl: "pmm_inv (frames s) \<Longrightarrow> releases L {} s s"
  by (simp add: releases_def)

lemma releases_trans: "releases L A s s1 \<Longrightarrow> releases L B s1 s2 \<Longrightarrow> releases L (A \<union> B) s s2"
  unfolding releases_def by auto

lemma owned_iff: "frame_owned p g \<longleftrightarrow> g < unat (s_frame_count p) \<and> g \<noteq> 0 \<and> g \<notin> free_set p \<and> s_refcount p ! g = 1"
  by (auto simp: frame_owned_def free_set_iff)

lemma frame_number_addr: "frame_address t \<Longrightarrow> frame_to_addr (of_nat (frame_number t)) = t"
  by (simp add: frame_address_def frame_number_def)

lemma release_free:
  assumes inv: "pmm_inv (frames s)" and t: "frame_address t" "frame_owned (frames s) (frame_number t)" "frame_number t \<notin> L"
  shows "\<exists>s'. free_frame t s = Some s' \<and> releases L {frame_number t} s s'"
proof -
  let ?f = "frame_number t"
  obtain p where p: "pmm_free_frame (frame_to_addr (of_nat ?f)) (frames s) = Some p" "pmm_inv p"
      "free_set p = insert ?f (free_set (frames s))" "s_frame_count p = s_frame_count (frames s)"
      "s_refcount p = (s_refcount (frames s))[?f := 0]"
    by (rule free_frame_ok [OF inv, of ?f]) (use t(2) in \<open>auto simp: owned_iff\<close>)
  then show ?thesis
    using t by (auto simp: free_frame_def frame_number_addr releases_def owned_iff)
qed

lemma unref_effect:
  assumes "pmm_inv p"
  shows "f = unat (addr_to_frame a) \<Longrightarrow>
    (\<forall>g. g \<noteq> f \<longrightarrow> (g \<in> free_set (pmm_frame_unref a p) \<longleftrightarrow> g \<in> free_set p) \<and>
       s_refcount (pmm_frame_unref a p) ! g = s_refcount p ! g)"
proof -
  assume f: "f = unat (addr_to_frame a)"
  have rep: "pmm_rep p" using pmm_invD(1) [OF assms] .
  have "free_set (frame_mark_free f (set_refcount f c p)) = insert f (free_set p)" if "frame_valid a p" for c
    using free_set_mark_free [of "set_refcount f c p" f] rep that f
    by (simp add: frame_valid_def word_less_nat_alt)
  then show ?thesis
    by (auto simp: pmm_frame_unref_def f [symmetric] Let_def)
qed

lemma release_unref:
  assumes inv: "pmm_inv (frames s)" and a: "frame_address a" "frame_number a \<in> L"
  shows "\<exists>s'. unref_frame a s = Some s' \<and> releases L {} s s'"
proof -
  have "unat (addr_to_frame a) \<noteq> 0" if "frame_valid a (frames s)"
    using that a(1) by (auto simp: frame_valid_def frame_address_def frame_to_addr_def unat_eq_zero)
  note ok = unref_ok [OF inv this]
  let ?p = "pmm_frame_unref a (frames s)"
  have same: "g \<in> free_set ?p \<longleftrightarrow> g \<in> free_set (frames s)" "s_refcount ?p ! g = s_refcount (frames s) ! g"
    if "g \<notin> L" for g
  proof -
    have "g \<noteq> unat (addr_to_frame a)" using a(2) that by (auto simp: frame_number_def)
    with unref_effect [OF inv refl, of a] show "g \<in> free_set ?p \<longleftrightarrow> g \<in> free_set (frames s)"
      "s_refcount ?p ! g = s_refcount (frames s) ! g" by blast+
  qed
  then have "free_set ?p - L = free_set (frames s) - L" by blast
  moreover have "frame_owned ?p g = frame_owned (frames s) g" if "g \<notin> L" for g
    using same [OF that] ok by (simp add: owned_iff)
  ultimately show ?thesis using ok by (simp add: unref_frame_def releases_def)
qed

lemma each_releases:
  assumes "\<And>i s. i \<in> set is \<Longrightarrow> pmm_inv (frames s) \<Longrightarrow> entries s = E \<Longrightarrow> \<forall>g \<in> A i. frame_owned (frames s) g \<Longrightarrow>
      \<exists>s'. f i s = Some s' \<and> releases L (A i) s s'"
    and "distinct is" "\<And>i j. i \<in> set is \<Longrightarrow> j \<in> set is \<Longrightarrow> i \<noteq> j \<Longrightarrow> A i \<inter> A j = {}" "\<And>i. i \<in> set is \<Longrightarrow> A i \<inter> L = {}"
    and "pmm_inv (frames s)" "entries s = E" "\<forall>i \<in> set is. \<forall>g \<in> A i. frame_owned (frames s) g"
  shows "\<exists>s'. each f is s = Some s' \<and> releases L (\<Union>i \<in> set is. A i) s s'"
  using assms
proof (induction "is" arbitrary: s)
  case Nil
  then show ?case by (simp add: releases_refl)
next
  case (Cons i "is")
  obtain s1 where s1: "f i s = Some s1" "releases L (A i) s s1"
    using Cons.prems(1) [of i s] Cons.prems(5-7) by auto
  have "\<exists>s'. each f is s1 = Some s' \<and> releases L (\<Union>i \<in> set is. A i) s1 s'"
  proof (rule Cons.IH)
    show "\<forall>j \<in> set is. \<forall>g \<in> A j. frame_owned (frames s1) g"
    proof (intro ballI)
      fix j g assume j: "j \<in> set is" "g \<in> A j"
      then have "i \<noteq> j" using Cons.prems(2) by auto
      then have "g \<notin> L \<union> A i" using Cons.prems(3) [of i j] Cons.prems(4) [of j] j by auto
      then show "frame_owned (frames s1) g" using s1(2) Cons.prems(7) j by (simp add: releases_def)
    qed
  qed (use Cons.prems s1(2) in \<open>auto simp: releases_def\<close>)
  then show ?case using s1 releases_trans by fastforce
qed


text \<open>The tables a table leads to, and its own frame.\<close>

fun subtree :: "(u64 \<Rightarrow> nat \<Rightarrow> u64) \<Rightarrow> nat \<Rightarrow> u64 \<Rightarrow> u64 set" where
  "subtree E 0 t = {t}"
| "subtree E (Suc n) t = insert t (\<Union>i \<in> set [0..<512].
     if present (E t i) \<and> \<not> huge (E t i) then subtree E n (table_of (E t i)) else {})"

definition branch :: "(u64 \<Rightarrow> nat \<Rightarrow> u64) \<Rightarrow> nat \<Rightarrow> u64 \<Rightarrow> nat \<Rightarrow> u64 set" where
  "branch E n t i = (if present (E t i) \<and> \<not> huge (E t i) then subtree E n (table_of (E t i)) else {})"

lemma subtree_step: "subtree E (Suc n) t = insert t (\<Union>i \<in> set [0..<512]. branch E n t i)"
  by (simp add: branch_def)

lemma subtree_place:
  assumes wf: "tables_wf R reg lab s"
  shows "lab t = Some (k, p) \<Longrightarrow> length p + n \<le> 3 \<Longrightarrow> x \<in> subtree (entries s) n t \<Longrightarrow> \<exists>q. lab x = Some (k, p @ q)"
proof (induction n arbitrary: t p)
  case (Suc n)
  show ?case
  proof (cases "x = t")
    case False
    then obtain i where i: "i < 512" "present (entries s t i)" "\<not> huge (entries s t i)" "x \<in> subtree (entries s) n (table_of (entries s t i))"
      using Suc.prems(3) by (auto split: if_splits)
    then show ?thesis
      using Suc.IH [OF wfD(5) [OF wf Suc.prems(1)]] Suc.prems(2) by fastforce
  qed (use Suc.prems in auto)
qed auto

lemma branch_place:
  assumes wf: "tables_wf R reg lab s" and t: "lab t = Some (k, p)" "length p + n \<le> 2" "i < 512" "x \<in> branch (entries s) n t i"
  shows "\<exists>q. lab x = Some (k, p @ i # q)"
  using subtree_place [OF wf wfD(5) [OF wf t(1)], of i n x] t by (auto simp: branch_def split: if_splits)

text \<open>
  What is mapped in region \<open>k\<close>: pages whose frames are in \<open>L\<close>, none of which holds a table.
\<close>

definition mapped_in :: "nat set \<Rightarrow> nat \<Rightarrow> u64 set \<Rightarrow> (u64 \<Rightarrow> place option) \<Rightarrow> vm_state \<Rightarrow> bool" where
  "mapped_in L k R lab s \<longleftrightarrow>
     (\<forall>t p i. lab t = Some (k, p) \<longrightarrow> i < 512 \<longrightarrow> present (entries s t i) \<longrightarrow> length p = 3 \<or> huge (entries s t i) \<longrightarrow>
        length p \<noteq> 1 \<and> frame_address (table_of (entries s t i)) \<and> frame_number (table_of (entries s t i)) \<in> L) \<and>
     (\<forall>t. t \<in> R \<or> lab t \<noteq> None \<longrightarrow> frame_number t \<notin> L)"

definition owns :: "vm_state \<Rightarrow> u64 set \<Rightarrow> bool" where
  "owns s T \<longleftrightarrow> (\<forall>t \<in> T. frame_owned (frames s) (frame_number t))"

lemma placed_disjoint:
  assumes wf: "tables_wf R reg lab s" and "\<forall>x \<in> X. lab x \<noteq> None" "\<forall>x \<in> Y. lab x \<noteq> None" "X \<inter> Y = {}"
  shows "frame_number ` X \<inter> frame_number ` Y = {}"
proof -
  have fa: "frame_address x" if "x \<in> X \<union> Y" for x
    using that assms(2,3) wfD(3) [OF wf, of x] by (auto simp: table_frame_def)
  show ?thesis
  proof (rule equals0I)
    fix g assume "g \<in> frame_number ` X \<inter> frame_number ` Y"
    then obtain x y where "x \<in> X" "y \<in> Y" "frame_number x = frame_number y" by auto
    then show False using fa [of x] fa [of y] frame_number_inj [of x y] assms(4) by blast
  qed
qed

lemma branches_release:
  assumes wf: "tables_wf R reg lab s0" and L: "mapped_in L k R lab s0"
    and t: "lab t = Some (k, p)" "length p + n \<le> 2"
    and f: "\<And>i s. i < 512 \<Longrightarrow> pmm_inv (frames s) \<Longrightarrow> entries s = entries s0 \<Longrightarrow> owns s (branch (entries s0) n t i) \<Longrightarrow>
      \<exists>s'. f i s = Some s' \<and> releases L (frame_number ` branch (entries s0) n t i) s s'"
    and s: "pmm_inv (frames s)" "entries s = entries s0" "owns s (subtree (entries s0) (Suc n) t)"
  shows "\<exists>s1 s2. each f [0..<512] s = Some s1 \<and> free_frame t s1 = Some s2 \<and>
     releases L (frame_number ` subtree (entries s0) (Suc n) t) s s2"
proof -
  let ?B = "branch (entries s0) n t"
  have place: "\<exists>q. lab x = Some (k, p @ i # q)" if "x \<in> ?B i" "i < 512" for x i
    using branch_place [OF wf t(1,2) that(2,1)] .
  have dj: "frame_number ` ?B i \<inter> frame_number ` ?B j = {}" if "i < 512" "j < 512" "i \<noteq> j" for i j
  proof (rule placed_disjoint [OF wf])
    show "?B i \<inter> ?B j = {}" using place [OF _ that(1)] place [OF _ that(2)] that(3) by fastforce
    show "\<forall>x \<in> ?B i. lab x \<noteq> None" "\<forall>x \<in> ?B j. lab x \<noteq> None"
      using place [OF _ that(1)] place [OF _ that(2)] by fastforce+
  qed
  have nl: "frame_number ` ?B i \<inter> L = {}" if "i < 512" for i
    using place that L unfolding mapped_in_def by fastforce
  have own: "owns s (?B i)" if "i < 512" for i using s(3) that unfolding owns_def subtree_step by auto
  have "\<exists>s1. each f [0..<512] s = Some s1 \<and> releases L (\<Union>i \<in> set [0..<512]. frame_number ` ?B i) s s1"
    by (rule each_releases [of _ "entries s0"])
      (use f dj nl s(1,2) own in \<open>auto simp: owns_def\<close>)
  then obtain s1 where s1: "each f [0..<512] s = Some s1" "releases L (\<Union>i \<in> set [0..<512]. frame_number ` ?B i) s s1"
    by blast
  have tt: "table_frame s0 t" using wfD(3) [OF wf t(1)] .
  have "t \<notin> ?B i" if "i < 512" for i using place [OF _ that] t(1) by fastforce
  then have "frame_number ` {t} \<inter> frame_number ` (\<Union>i \<in> set [0..<512]. ?B i) = {}"
  proof (intro placed_disjoint [OF wf] ballI)
    show "lab x \<noteq> None" if "x \<in> (\<Union>i \<in> set [0..<512]. ?B i)" for x using that place by fastforce
  qed (use t(1) \<open>\<And>i. i < 512 \<Longrightarrow> t \<notin> ?B i\<close> in auto)
  moreover have tL: "frame_number t \<notin> L" using L t(1) unfolding mapped_in_def by auto
  ultimately have "frame_number t \<notin> L \<union> (\<Union>i \<in> set [0..<512]. frame_number ` ?B i)" by blast
  moreover have "frame_owned (frames s) (frame_number t)" using s(3) unfolding owns_def subtree_step by blast
  ultimately have "frame_owned (frames s1) (frame_number t)"
    using s1(2) unfolding releases_def by blast
  then obtain s2 where s2: "free_frame t s1 = Some s2" "releases L {frame_number t} s1 s2"
    using release_free [of s1 t L] s1(2) tt tL by (auto simp: releases_def table_frame_def)
  have "frame_number ` subtree (entries s0) (Suc n) t = (\<Union>i \<in> set [0..<512]. frame_number ` ?B i) \<union> {frame_number t}"
    unfolding subtree_step by auto
  then show ?thesis using s1(1) s2(1) releases_trans [OF s1(2) s2(2)] by auto
qed


lemma leaf_in:
  assumes "mapped_in L k R lab s0" "lab t = Some (k, p)" "i < 512" "present (entries s0 t i)" "length p = 3 \<or> huge (entries s0 t i)"
  shows "length p \<noteq> 1" "frame_address (table_of (entries s0 t i))" "frame_number (table_of (entries s0 t i)) \<in> L"
  using assms unfolding mapped_in_def by blast+

lemma destroy_pt_releases:
  assumes L: "mapped_in L k R lab s0" and t: "lab t = Some (k, p)" "length p = 3"
    and s: "pmm_inv (frames s)" "entries s = entries s0"
  shows "\<exists>s'. each (destroy_pte t) [0..<512] s = Some s' \<and> releases L {} s s'"
proof -
  have "\<exists>s'. each (destroy_pte t) [0..<512] s = Some s' \<and> releases L (\<Union>i \<in> set [0..<512]. {}) s s'"
  proof (rule each_releases [of _ "entries s0"])
    fix i and s :: vm_state assume "i \<in> set [0..<512]" "pmm_inv (frames s)" "entries s = entries s0"
    then show "\<exists>s'. destroy_pte t i s = Some s' \<and> releases L {} s s'"
      using leaf_in [OF L t(1), of i] release_unref [of s "table_of (entries s t i)" L] t(2)
      by (cases "present (entries s t i)") (auto simp: destroy_pte_def releases_refl)
  qed (use s in auto)
  then show ?thesis by simp
qed

lemma destroy_pde_releases:
  assumes wf: "tables_wf R reg lab s0" and L: "mapped_in L k R lab s0" and t: "lab t = Some (k, p)" "length p = 2" "i < 512"
    and s: "pmm_inv (frames s)" "entries s = entries s0" "owns s (branch (entries s0) 0 t i)"
  shows "\<exists>s'. destroy_pde t i s = Some s' \<and> releases L (frame_number ` branch (entries s0) 0 t i) s s'"
proof -
  let ?e = "entries s0 t i"
  consider "\<not> present ?e" | "present ?e" "huge ?e" | "present ?e" "\<not> huge ?e" by blast
  then show ?thesis
  proof cases
    case 1
    then show ?thesis using s by (simp add: destroy_pde_def branch_def releases_refl)
  next
    case 2
    then show ?thesis
      using leaf_in [OF L t(1,3)] release_unref [OF s(1), of "table_of ?e" L] s by (simp add: destroy_pde_def branch_def)
  next
    case 3
    have pt: "lab (table_of ?e) = Some (k, p @ [i])" using wfD(5) [OF wf t(1) _ t(3)] 3 t(2) by simp
    obtain s1 where s1: "each (destroy_pte (table_of ?e)) [0..<512] s = Some s1" "releases L {} s s1"
      using destroy_pt_releases [OF L pt _ s(1,2)] t(2) by auto
    have tL: "frame_number (table_of ?e) \<notin> L" using L pt unfolding mapped_in_def by auto
    moreover have "frame_address (table_of ?e)" using wfD(3) [OF wf pt] by (simp add: table_frame_def)
    moreover have "frame_owned (frames s1) (frame_number (table_of ?e))"
      using s1(2) s(3) 3 tL by (simp add: releases_def owns_def branch_def)
    ultimately obtain s2 where "free_frame (table_of ?e) s1 = Some s2" "releases L {frame_number (table_of ?e)} s1 s2"
      using release_free [of s1 "table_of ?e" L] s1(2) by (auto simp: releases_def)
    then show ?thesis using s1 s(2) 3 releases_trans [OF s1(2)] by (auto simp: destroy_pde_def branch_def Let_def)
  qed
qed

lemma destroy_pdpte_releases:
  assumes wf: "tables_wf R reg lab s0" and L: "mapped_in L k R lab s0" and t: "lab t = Some (k, p)" "length p = 1" "i < 512"
    and s: "pmm_inv (frames s)" "entries s = entries s0" "owns s (branch (entries s0) 1 t i)"
  shows "\<exists>s'. destroy_pdpte t i s = Some s' \<and> releases L (frame_number ` branch (entries s0) 1 t i) s s'"
proof -
  let ?e = "entries s0 t i"
  have nh: "\<not> huge ?e" if "present ?e" using leaf_in(1) [OF L t(1,3) that] t(2) by blast
  show ?thesis
  proof (cases "present ?e")
    case False
    then show ?thesis using s by (simp add: destroy_pdpte_def branch_def releases_refl)
  next
    case True
    have pd: "lab (table_of ?e) = Some (k, p @ [i])" using wfD(5) [OF wf t(1) _ t(3)] True nh t(2) by simp
    have "\<exists>s1 s2. each (destroy_pde (table_of ?e)) [0..<512] s = Some s1 \<and> free_frame (table_of ?e) s1 = Some s2 \<and>
        releases L (frame_number ` subtree (entries s0) (Suc 0) (table_of ?e)) s s2"
      by (rule branches_release [OF wf L pd]) (use destroy_pde_releases [OF wf L pd] t(2) s True nh in \<open>auto simp: branch_def [of _ "Suc 0"]\<close>)
    then show ?thesis using s(2) True nh by (auto simp: destroy_pdpte_def branch_def Let_def)
  qed
qed

lemma destroy_region_releases:
  assumes wf: "tables_wf R reg lab s0" and L: "mapped_in L k R lab s0" and t: "lab t = Some (k, [j])"
    and s: "pmm_inv (frames s)" "entries s = entries s0" "owns s (subtree (entries s0) 2 t)"
  shows "\<exists>s1 s2. each (destroy_pdpte t) [0..<512] s = Some s1 \<and> free_frame t s1 = Some s2 \<and>
     releases L (frame_number ` subtree (entries s0) 2 t) s s2"
  unfolding numeral_2_eq_2
  by (rule branches_release [OF wf L t]) (use destroy_pdpte_releases [OF wf L t] s in \<open>auto simp: numeral_2_eq_2\<close>)


text \<open>The tables that belong to the address space alone.\<close>

definition space_tables :: "vm_state \<Rightarrow> u64 \<Rightarrow> u64 set" where
  "space_tables s root = insert root
     (let e = entries s root AF_USER_PML4_INDEX
      in if present e \<and> e AND PTE_USER \<noteq> 0 then subtree (entries s) 2 (table_of e) else {})"

definition drop_region :: "nat \<Rightarrow> (u64 \<Rightarrow> place option) \<Rightarrow> u64 \<Rightarrow> place option" where
  "drop_region k lab t = (case lab t of Some (g, p) \<Rightarrow> if g = k then None else Some (g, p) | None \<Rightarrow> None)"

lemma each_keep: "(\<And>x. x \<in> set xs \<Longrightarrow> f x s = Some s) \<Longrightarrow> each f xs s = Some s"
  by (induction xs) auto

lemma each_append: "each f (xs @ ys) s = (case each f xs s of None \<Rightarrow> None | Some s1 \<Rightarrow> each f ys s1)"
  by (induction xs arbitrary: s) (auto split: option.splits)

lemma first_two: "2 \<le> n \<Longrightarrow> [0..<n] = [0] @ [1] @ [2..<n]"
  by (simp add: upt_conv_Cons numeral_2_eq_2)

lemma destroy_root:
  assumes others: "\<forall>i < 512. i \<noteq> AF_USER_PML4_INDEX \<longrightarrow> present (entries s root i) \<longrightarrow> entries s root i AND PTE_USER = 0"
    and e: "e = entries s root AF_USER_PML4_INDEX" "present e" "e AND PTE_USER \<noteq> 0"
    and r: "each (destroy_pdpte (table_of e)) [0..<512] s = Some s1" "free_frame (table_of e) s1 = Some s2" "entries s2 = entries s"
  shows "each (destroy_pml4e root) [0..<512] s = Some s2"
proof -
  have split: "[0..<512] = [0] @ [AF_USER_PML4_INDEX] @ [2..<512]" by (rule first_two) simp
  have skip: "each (destroy_pml4e root) is t = Some t" if "entries t = entries s" "set is \<subseteq> {..<512} - {AF_USER_PML4_INDEX}" for "is" t
    by (rule each_keep) (use that others in \<open>auto simp: destroy_pml4e_def Let_def\<close>)
  have "destroy_pml4e root AF_USER_PML4_INDEX s = Some s2"
    using e r by (simp add: destroy_pml4e_def Let_def)
  then have mid: "each (destroy_pml4e root) [AF_USER_PML4_INDEX] s = Some s2" by simp
  show ?thesis
    unfolding split each_append using skip [of s "[0]"] skip [of s2 "[2..<512]"] mid r(3) by (simp del: each.simps)
qed


section \<open>A small machine\<close>

lemma alloc_table_some:
  assumes "pmm_inv (frames s)" "free_set (frames s) \<noteq> {}" "alloc_table s = (t, s1)"
  shows "t \<noteq> 0"
proof -
  have "pmm_alloc_frames 1 (frames s) = (u, p) \<Longrightarrow> u \<noteq> 0" for u p
  proof (cases rule: alloc_cases [OF assms(1), of 1])
    case 2
    then show ?thesis using assms(2) by (auto simp: run_at_def)
  next
    case (3 f s')
    have "f < unat (s_frame_count (frames s))" using run_less [OF 3(2)] by simp
    then have "unat (of_nat f :: u32) = f" using unat_frame_number pmm_invD(1) [OF assms(1)] by blast
    then have "unat (frame_to_addr (of_nat f)) \<noteq> 0" using 3 by (simp add: unat_frame_to_addr)
    then have "frame_to_addr (of_nat f) \<noteq> 0" by (metis unat_0)
    then show "pmm_alloc_frames 1 (frames s) = (u, p) \<Longrightarrow> u \<noteq> 0" using 3 by auto
  qed auto
  then show ?thesis
    using assms(3) by (auto simp: alloc_table_def pmm_alloc_frame_z_def pmm_alloc_frame_def Let_def split: prod.splits if_splits)
qed


definition demo_vm :: vm_state where
  "demo_vm = \<lparr>frames = demo_pmm, entries = \<lambda>_ _. 0, page_root = 0\<rparr>"

definition demo_root :: u64 where
  "demo_root = fst (hal_pt_create demo_vm)"

definition demo_kernel :: vm_state where
  "demo_kernel = hal_set_page_table demo_root (snd (hal_pt_create demo_vm))"

lemma demo_kernel_ok:
  "demo_root \<noteq> 0" "page_root demo_kernel = demo_root" "free_set (frames demo_kernel) = {2..<8} - {frame_number demo_root}"
  "tables_wf {demo_root} (\<lambda>_ _. 0) Map.empty demo_kernel" "entries demo_kernel = (\<lambda>_ _. 0)"
proof -
  obtain t s where a: "alloc_table demo_vm = (t, s)" by fastforce
  have inv: "pmm_inv (frames demo_vm)" and fs: "free_set (frames demo_vm) = {2..<8}"
    by (simp_all add: demo_vm_def demo_pmm_inv demo_pmm_free)
  have t: "t \<noteq> 0" using alloc_table_some [OF inv _ a] fs by simp
  then have d: "demo_root = t" "demo_kernel = s\<lparr>page_root := t\<rparr>"
    using a by (simp_all add: demo_root_def demo_kernel_def hal_pt_create_def hal_set_page_table_def)
  show "demo_root \<noteq> 0" "page_root demo_kernel = demo_root" unfolding d using t by simp_all
  have al: "free_set (frames s) = {2..<8} - {frame_number t}" "entries s = (entries demo_vm)(t := (\<lambda>_. 0))"
    using alloc_table_ok [OF inv a] t fs by auto
  then show "free_set (frames demo_kernel) = {2..<8} - {frame_number demo_root}" "entries demo_kernel = (\<lambda>_ _. 0)"
    unfolding d by (simp_all add: demo_vm_def fun_eq_iff)
  have "tables_wf {t} (\<lambda>_ _. 0) Map.empty s" using wf_new_root [OF wf_empty [OF inv] a t] by simp
  then show "tables_wf {demo_root} (\<lambda>_ _. 0) Map.empty demo_kernel"
    unfolding d by (simp add: tables_wf_def table_frame_def root_ok_def)
qed

lemma demo_free: "free_set (frames demo_kernel) \<noteq> {}"
proof
  assume "free_set (frames demo_kernel) = {}"
  then have sub: "{2..<8} \<subseteq> {frame_number demo_root}" unfolding demo_kernel_ok(3) by auto
  have "2 \<in> {frame_number demo_root}" "3 \<in> {frame_number demo_root}" by (rule subsetD [OF sub]; simp)+
  then show False by simp
qed

lemma demo_create: "\<exists>t s'. hal_pt_create_user demo_kernel = (t, s') \<and> t \<noteq> 0"
proof -
  obtain t s1 where a: "alloc_table demo_kernel = (t, s1)" by fastforce
  have "t \<noteq> 0" using alloc_table_some [OF wfD(1) [OF demo_kernel_ok(4)] demo_free a] .
  then show ?thesis using a demo_kernel_ok(1,2) by (simp add: hal_pt_create_user_def hal_get_page_table_def Let_def)
qed

lemma user_spaces_isolated_witness:
  "\<exists>t s1 rc s'. hal_pt_create_user demo_kernel = (t, s1) \<and> hal_map_page t 0x8000001000 0x5000 7 s1 = (rc, s') \<and>
     (\<forall>v. hal_translate demo_root v s' = hal_translate demo_root v demo_kernel)"
proof -
  obtain t s1 where c: "hal_pt_create_user demo_kernel = (t, s1)" "t \<noteq> 0" using demo_create by blast
  obtain rc s' where m: "hal_map_page t 0x8000001000 0x5000 7 s1 = (rc, s')" by fastforce
  have "pml4_index 0x8000001000 = AF_USER_PML4_INDEX" by (simp add: pml4_index_def)
  then have "user_step t s1 s'" using user_step.Map [of "0x8000001000" t s1 "0x5000" 7] m by simp
  then have "(user_step t)\<^sup>*\<^sup>* s1 s'" by blast
  from user_spaces_isolated [OF demo_kernel_ok(4) _ _ c this] demo_kernel_ok(2) c(1) m show ?thesis by auto
qed

text \<open>A walk that has to make the table.\<close>

lemma walk_fresh:
  assumes "pmm_inv (frames s)" "0 < card (free_set (frames s))" "frame_number parent \<notin> free_set (frames s)" "entries s parent i = 0"
  obtains t s' where "walk_to_next_level parent i flags s = (Some t, s')" "pmm_inv (frames s')"
     "card (free_set (frames s')) = card (free_set (frames s)) - 1" "frame_number t \<notin> free_set (frames s')" "entries s' t = (\<lambda>_. 0)"
proof -
  obtain t s1 where a: "alloc_table s = (t, s1)" by fastforce
  have "free_set (frames s) \<noteq> {}" using assms(2) by auto
  then have t: "t \<noteq> 0" using alloc_table_some [OF assms(1) _ a] by blast
  note al = alloc_table_ok [OF assms(1) a]
  have ne: "parent \<noteq> t" using al t assms(3) by auto
  define s2 where "s2 = set_entry parent i (t OR 1 OR 2 OR (if flags AND HAL_USER \<noteq> 0 then 4 else 0)) s1"
  have "walk_to_next_level parent i flags s = (Some t, s2)"
    unfolding walk_to_next_level_def assms(4) Let_def a s2_def using t by (simp add: present_def)
  moreover have "entries s2 t = (\<lambda>_. 0)" using al t ne by (simp add: s2_def fun_eq_iff)
  moreover have "card (free_set (frames s2)) = card (free_set (frames s)) - 1"
    using al t by (simp add: s2_def card_Diff_singleton)
  moreover have "frame_number t \<notin> free_set (frames s2)" "pmm_inv (frames s2)" using al t by (simp_all add: s2_def)
  ultimately show thesis using that by blast
qed

lemma map_page_fresh:
  assumes "pmm_inv (frames s)" "3 \<le> card (free_set (frames s))" "frame_number root \<notin> free_set (frames s)"
    and "root \<noteq> 0" "entries s root (pml4_index va) = 0" "is_aligned va AF_PAGE_SIZE" "is_aligned pa AF_PAGE_SIZE"
  shows "\<exists>s'. hal_map_page root va pa flags s = (AF_OK, s')"
proof -
  obtain t1 s1 where 1: "walk_to_next_level root (pml4_index va) flags s = (Some t1, s1)" "pmm_inv (frames s1)"
      "card (free_set (frames s1)) = card (free_set (frames s)) - 1" "frame_number t1 \<notin> free_set (frames s1)" "entries s1 t1 = (\<lambda>_. 0)"
    by (rule walk_fresh [OF assms(1) _ assms(3,5)]) (use assms(2) in auto)
  obtain t2 s2 where 2: "walk_to_next_level t1 (pdpt_index va) flags s1 = (Some t2, s2)" "pmm_inv (frames s2)"
      "card (free_set (frames s2)) = card (free_set (frames s1)) - 1" "frame_number t2 \<notin> free_set (frames s2)" "entries s2 t2 = (\<lambda>_. 0)"
    by (rule walk_fresh [OF 1(2) _ 1(4)]) (use assms(2) 1(3,5) in auto)
  obtain t3 s3 where 3: "walk_to_next_level t2 (pd_index va) flags s2 = (Some t3, s3)" "entries s3 t3 = (\<lambda>_. 0)"
    by (rule walk_fresh [OF 2(2) _ 2(4)]) (use assms(2) 1(3) 2(3,5) in auto)
  have "\<not> (\<not> is_aligned va AF_PAGE_SIZE \<or> \<not> is_aligned pa AF_PAGE_SIZE)" using assms(6,7) by blast
  then show ?thesis unfolding hal_map_page_def 1(1) using 2(1) 3 assms(4) by (simp add: present_def)
qed

lemma demo_map: "\<exists>s'. hal_map_page demo_root 0x8000001000 0x5000 7 demo_kernel = (AF_OK, s')"
proof -
  note k = demo_kernel_ok
  have "card ({2..<8} - {frame_number demo_root}) \<ge> 5" using card_Diff1_le [of "{2..<8}" "frame_number demo_root"]
    by (simp add: card_Diff_singleton_if)
  moreover have "is_aligned (0x8000001000 :: u64) AF_PAGE_SIZE" "is_aligned (0x5000 :: u64) AF_PAGE_SIZE"
    by (simp_all add: is_aligned_def)
  ultimately show ?thesis
    using map_page_fresh [OF wfD(1) [OF k(4)], of demo_root "0x8000001000" "0x5000" 7] k(1,3,5) by auto
qed


lemma create_user_owned:
  assumes "pmm_inv (frames s)" "table_frame s (page_root s)" "hal_pt_create_user s = (t, s')" "t \<noteq> 0"
  shows "frame_owned (frames s') (frame_number t)"
    "entries s' t i = (if i < 512 \<and> i \<noteq> AF_USER_PML4_INDEX then entries s (page_root s) i else 0)"
proof -
  obtain s1 where a: "alloc_table s = (t, s1)"
    using assms(3,4) by (auto simp: hal_pt_create_user_def hal_get_page_table_def Let_def split: prod.splits if_splits)
  have al: "entries s1 = (entries s)(t := (\<lambda>_. 0))" "frame_number t \<in> free_set (frames s)"
    using alloc_table_ok [OF assms(1) a] assms(4) by auto
  have ne: "page_root s \<noteq> t" using assms(2) al(2) by (auto simp: table_frame_def)
  have z: "\<forall>j. entries s1 t j = 0" by (simp add: al)
  have s': "s' = fold (\<lambda>i u. if i = AF_USER_PML4_INDEX then u else set_entry t i (entries u (page_root s) i) u) [0..<512] s1"
    using assms(2-4) a by (simp add: hal_pt_create_user_def hal_get_page_table_def Let_def split: if_splits)
  note copy = copy_entries [OF ne z, of 512, unfolded Let_def s' [symmetric]]
  show "entries s' t i = (if i < 512 \<and> i \<noteq> AF_USER_PML4_INDEX then entries s (page_root s) i else 0)"
    using copy al ne by simp
  obtain p where p: "pmm_alloc_frames 1 (frames s) = (t, p)"
    using a by (auto simp: alloc_table_def pmm_alloc_frame_z_def pmm_alloc_frame_def Let_def split: prod.splits if_splits)
  have "block t 1 = {frame_number t}" by (auto simp: block_def frame_number_def)
  then have "frame_owned p (frame_number t)" using pmm.alloc_some [OF assms(1) p assms(4)] by simp
  moreover have "frame_owned (frames s1) g = frame_owned p g" for g
    using a p assms(4) by (auto simp: alloc_table_def pmm_alloc_frame_z_def pmm_alloc_frame_def)
  ultimately show "frame_owned (frames s') (frame_number t)" using copy by simp
qed



lemma demo_vm_inv: "pmm_inv (frames demo_vm)"
  by (simp add: demo_vm_def demo_pmm_inv)

lemma demo_limit: "identity_limit None demo_vm = 0x8000"
  by (simp add: identity_limit_def pmm_max_address_def demo_vm_def demo_pmm_def frame_to_addr_def)

lemma alloc_table_card:
  assumes "pmm_inv (frames s)" "card (free_set (frames s)) = Suc n"
  obtains t s1 where "alloc_table s = (t, s1)" "t \<noteq> 0" "pmm_inv (frames s1)" "card (free_set (frames s1)) = n" "page_root s1 = page_root s"
proof -
  obtain t s1 where a: "alloc_table s = (t, s1)" by fastforce
  have "free_set (frames s) \<noteq> {}" using assms(2) by auto
  then have t: "t \<noteq> 0" using alloc_table_some [OF assms(1) _ a] by blast
  then show thesis
    using that [OF a] alloc_table_ok [OF assms(1) a] assms(2) by (auto simp: card_Diff_singleton)
qed

lemma demo_boot:
  "\<exists>v1 t v2. af_x86_paging_bootstrap None demo_vm = Some v1 \<and> hal_pt_create_user v1 = (t, v2) \<and> t \<noteq> 0"
proof -
  have "card (free_set (frames demo_vm)) = Suc 5" by (simp add: demo_vm_def demo_pmm_free)
  from alloc_table_card [OF demo_vm_inv this] obtain r s1
    where 1: "alloc_table demo_vm = (r, s1)" "r \<noteq> 0" "pmm_inv (frames s1)" "card (free_set (frames s1)) = Suc 4" by (metis Suc_numeral semiring_norm(5) eval_nat_numeral(3))
  from alloc_table_card [OF 1(3,4)] obtain t s2
    where 2: "alloc_table s1 = (t, s2)" "t \<noteq> 0" "pmm_inv (frames s2)" "card (free_set (frames s2)) = 4" by metis
  let ?s = "set_entry r 0 (t OR 1 OR 2) s2"
  obtain d s3 where 3: "alloc_table ?s = (d, s3)" "d \<noteq> 0" "pmm_inv (frames s3)" "card (free_set (frames s3)) = Suc 2"
    by (rule alloc_table_card [of ?s 3]) (use 2 in auto)
  have lim: "identity_limit None s1 = 0x8000"
    using demo_limit alloc_table_count [OF demo_vm_inv 1(1)] by (simp add: identity_limit_def pmm_max_address_def)
  have need: "unat (pdpt_needed 0x8000) = 1" by (simp add: pdpt_needed_def align_up_def)
  let ?s4 = "fill_pd 0x8000 d 0 [0..<512] (set_entry t 0 (d OR 1 OR 2) s3)"
  have boot: "af_x86_paging_bootstrap None demo_vm = Some (hal_set_page_table r ?s4)"
    using 1 2 3 lim need by (simp add: af_x86_paging_bootstrap_def map_gib_def)
  have fr: "frames ?s4 = frames s3"
    using fill_pd_entries [of 0 0 "0x8000" d "set_entry t 0 (d OR 1 OR 2) s3"] by (simp add: Let_def)
  obtain u s5 where u: "alloc_table (hal_set_page_table r ?s4) = (u, s5)" "u \<noteq> 0"
    by (rule alloc_table_card [of "hal_set_page_table r ?s4" 2]) (use fr 3 in \<open>auto simp: hal_set_page_table_def\<close>)
  then have "\<exists>v2. hal_pt_create_user (hal_set_page_table r ?s4) = (u, v2)"
    using 1(2) by (simp add: hal_pt_create_user_def hal_get_page_table_def hal_set_page_table_def)
  then show ?thesis using boot u(2) by blast
qed

lemma bootstrap_identity_witness:
  "\<exists>s'. af_x86_paging_bootstrap None demo_vm = Some s' \<and> hal_translate (page_root s') 0x1234 s' = 0x1234"
proof -
  obtain s' where s': "af_x86_paging_bootstrap None demo_vm = Some s'" using demo_boot by blast
  have "identity_mapped 0x8000 0x1234" by (simp add: identity_mapped_def pml4_index_def)
  then show ?thesis
    using bootstrap_identity [of demo_vm None s'] demo_vm_inv s' demo_limit by simp
qed

section \<open>Kernel pages of another space\<close>

text \<open>
  Tables built by a mapping without the user flag are not released: a space that holds only such
  mappings gives back its root frame and nothing else.
\<close>

theorem destroy_keeps_kernel_tables:
  assumes "root \<noteq> 0" "\<forall>i < 512. present (entries s root i) \<longrightarrow> entries s root i AND PTE_USER = 0"
  shows "hal_pt_destroy root s = free_frame root s"
proof -
  have "each (destroy_pml4e root) [0..<512] s = Some s"
    by (rule each_keep) (use assms(2) in \<open>auto simp: destroy_pml4e_def Let_def\<close>)
  then show ?thesis using assms(1) by (simp add: hal_pt_destroy_def)
qed

text \<open>
  A user mapping at an address of the shared part, which the loader does not exclude, marks the shared
  entry as a user entry of this space even when the call fails later: the space's destruction then walks
  the kernel's own tables.
\<close>

theorem user_mapping_marks_shared_entry:
  assumes "root \<noteq> 0" "is_aligned va AF_PAGE_SIZE" "is_aligned pa AF_PAGE_SIZE" "flags AND HAL_USER \<noteq> 0"
    and e: "e = entries s root (pml4_index va)" "present e" "\<not> huge e" "e AND PTE_USER = 0"
    and f: "f = entries s (table_of e) (pdpt_index va)" "present f" "\<not> huge f" "f AND PTE_USER = 0"
    and p: "huge (entries s (table_of f) (pd_index va))" "present (entries s (table_of f) (pd_index va))"
      "distinct [root, table_of e, table_of f]"
  shows "\<exists>s'. hal_map_page root va pa flags s = (AF_ERR_NOMEM, s') \<and> entries s' root (pml4_index va) AND PTE_USER \<noteq> 0"
proof -
  let ?s1 = "set_entry root (pml4_index va) (e OR PTE_USER) s"
  let ?s2 = "set_entry (table_of e) (pdpt_index va) (f OR PTE_USER) ?s1"
  have ne: "table_of e \<noteq> root" "table_of f \<noteq> root" "table_of f \<noteq> table_of e" using p(3) by auto
  have w1: "walk_to_next_level root (pml4_index va) flags s = (Some (table_of e), ?s1)"
    using e assms(4) by (simp add: walk_to_next_level_def Let_def)
  have w2: "walk_to_next_level (table_of e) (pdpt_index va) flags ?s1 = (Some (table_of f), ?s2)"
    using f assms(4) ne by (simp add: walk_to_next_level_def Let_def)
  have w3: "walk_to_next_level (table_of f) (pd_index va) flags ?s2 = (None, ?s2)"
    using p(1,2) ne by (simp add: walk_to_next_level_def Let_def)
  have "(e OR PTE_USER) AND PTE_USER \<noteq> 0" by (simp add: bit.conj_disj_distrib2)
  then show ?thesis using w1 w2 w3 ne assms(1-3) by (simp add: hal_map_page_def)
qed

end
