(* ===== verification/Syscall.thy ===== *)
theory Syscall
  imports Lifecycle Paging
begin

text \<open>
  System calls (\<open>kernel/core/syscall.c\<close>): the checks on a buffer a program names, the four calls, the
  dispatcher and the entry from the interrupt frame. The scheduler and the process table are those of
  \<open>Sched\<close> and \<open>Lifecycle\<close>, the page tables those of \<open>Paging\<close>; CR3 is the scheduler's \<open>cr3\<close>.
\<close>

section \<open>State\<close>

record sys_state =
  kern :: kstate
  vm :: vm_state
  s_syscall_count :: u64
  s_syscall_by_number :: "u64 list"
  s_user_ok_emitted :: bool
  console :: "u8 list"

record isr_frame =
  f_rax :: u64
  f_rdi :: u64
  f_rsi :: u64
  f_rdx :: u64
  f_r10 :: u64
  f_r8 :: u64

abbreviation (input) "AF_SYS_DEBUG_WRITE \<equiv> (0 :: u64)"
abbreviation (input) "AF_SYS_EXIT \<equiv> (1 :: u64)"
abbreviation (input) "AF_SYS_YIELD \<equiv> (3 :: u64)"
abbreviation (input) "AF_SYS_CLOCK_GET \<equiv> (5 :: u64)"
abbreviation (input) "AF_SYS_MAX \<equiv> (64 :: u64)"
abbreviation (input) "AF_USER_BASE \<equiv> (0x1000 :: u64)"
abbreviation (input) "AF_USER_TOP \<equiv> (0xFFFFFFFFFFF :: u64)"
abbreviation (input) "AF_PAGE_MASK \<equiv> (0xFFF :: u64)"
abbreviation (input) "AF_MAX_VALIDATED_PAGES \<equiv> (4096 :: u64)"

text \<open>The page tables in the state CR3 puts them in.\<close>

definition current_vm :: "sys_state \<Rightarrow> vm_state" where
  "current_vm s = (vm s)\<lparr>page_root := cr3 (kern s)\<rparr>"

text \<open>A status in RAX, and what the kernel reads at a virtual address.\<close>

definition status_word :: "af_status \<Rightarrow> u64" where
  "status_word e = word_of_int (status_code e)"

definition user_byte :: "vm_state \<Rightarrow> u64 \<Rightarrow> u8" where
  "user_byte v a = phys_mem (frames v) (hal_translate (hal_get_page_table v) a v)"

section \<open>Checking a buffer\<close>

definition user_range_ok :: "u64 \<Rightarrow> u64 \<Rightarrow> bool" where
  "user_range_ok addr len =
     (if len = 0 then False
      else if addr < AF_USER_BASE then False
      else let end_addr = addr + len in
        if end_addr < addr then False
        else if AF_USER_TOP < end_addr then False
        else True)"

fun each_page_ok :: "nat \<Rightarrow> u64 \<Rightarrow> bool \<Rightarrow> vm_state \<Rightarrow> bool" where
  "each_page_ok 0 page needs_write v = True"
| "each_page_ok (Suc n) page needs_write v =
     (let flags = hal_query_flags (hal_get_page_table v) page v in
      if flags AND HAL_PRESENT = 0 then False
      else if flags AND HAL_USER = 0 then False
      else if needs_write \<and> flags AND HAL_WRITABLE = 0 then False
      else each_page_ok n (page + AF_PAGE_SIZE) needs_write v)"

definition user_pages_ok :: "u64 \<Rightarrow> u64 \<Rightarrow> bool \<Rightarrow> vm_state \<Rightarrow> bool" where
  "user_pages_ok addr len needs_write v =
     (let pages = ((addr AND AF_PAGE_MASK) + len + AF_PAGE_MASK) div AF_PAGE_SIZE in
      if pages = 0 \<or> AF_MAX_VALIDATED_PAGES < pages then False
      else each_page_ok (unat pages) (addr AND NOT AF_PAGE_MASK) needs_write v)"

definition user_buffer_ok :: "u64 \<Rightarrow> u64 \<Rightarrow> bool \<Rightarrow> vm_state \<Rightarrow> bool" where
  "user_buffer_ok addr len needs_write v \<longleftrightarrow> user_range_ok addr len \<and> user_pages_ok addr len needs_write v"

section \<open>The calls\<close>

definition sys_debug_write :: "u64 \<Rightarrow> u64 \<Rightarrow> sys_state \<Rightarrow> u64 \<times> sys_state" where
  "sys_debug_write buf len0 s =
     (let len = (if 4096 < len0 then 4096 else len0) in
      if \<not> user_buffer_ok buf len False (current_vm s) then (status_word AF_ERR_FAULT, s)
      else (len, s\<lparr>console := console s @ map (\<lambda>i. user_byte (current_vm s) (buf + of_nat i)) [0..<unat len]\<rparr>))"

text \<open>The clock is read from the hardware.\<close>

definition sys_clock_get :: "u64 \<Rightarrow> u64 \<Rightarrow> u64" where
  "sys_clock_get hal_time_ns clock_id = hal_time_ns"

text \<open>
  How a call ends: the thread goes on (at once, or when the scheduler comes back to it) with a value in
  RAX, it is gone, or an assertion of the scheduler failed.
\<close>

datatype sys_outcome = Returns u64 sys_state | Gone sys_state | Panic

definition count_call :: "u64 \<Rightarrow> sys_state \<Rightarrow> sys_state" where
  "count_call number s =
     (let s1 = s\<lparr>s_syscall_count := s_syscall_count s + 1\<rparr> in
      if number < AF_SYS_MAX
      then s1\<lparr>s_syscall_by_number := (s_syscall_by_number s1)[unat number := s_syscall_by_number s1 ! unat number + 1]\<rparr>
      else s1)"

definition syscall_dispatch :: "u64 \<Rightarrow> u64 \<Rightarrow> u64 \<Rightarrow> u64 \<Rightarrow> sys_state \<Rightarrow> sys_outcome" where
  "syscall_dispatch hal_time_ns number a1 a2 s0 =
     (let s = count_call number s0 in
      if number = AF_SYS_DEBUG_WRITE then
        let (r, s1) = sys_debug_write a1 a2 s in Returns r s1
      else if number = AF_SYS_CLOCK_GET then Returns (sys_clock_get hal_time_ns a1) s
      else if number = AF_SYS_YIELD then
        (case sched_yield (kern s) of
           None \<Rightarrow> Panic
         | Some k \<Rightarrow> Returns (status_word AF_OK) (s\<lparr>kern := k\<rparr>))
      else if number = AF_SYS_EXIT then
        let s1 = (if 3 \<le> s_syscall_count s \<and> \<not> s_user_ok_emitted s then s\<lparr>s_user_ok_emitted := True\<rparr> else s)
        in (case process_exit (ucast a1) (kern s1) of
              None \<Rightarrow> Panic
            | Some k \<Rightarrow> Gone (s1\<lparr>kern := k\<rparr>))
      else Returns (status_word AF_ERR_NOTSUP) s)"

text \<open>\<open>None\<close> for the frame: nothing of the interrupted program goes on.\<close>

definition syscall_entry :: "u64 \<Rightarrow> isr_frame option \<Rightarrow> sys_state \<Rightarrow> (isr_frame option \<times> sys_state) option" where
  "syscall_entry hal_time_ns frame s =
     (case frame of
        None \<Rightarrow> Some (None, s)
      | Some f \<Rightarrow>
          (case syscall_dispatch hal_time_ns (f_rax f) (f_rdi f) (f_rsi f) s of
             Panic \<Rightarrow> None
           | Gone s1 \<Rightarrow> Some (None, s1)
           | Returns result s1 \<Rightarrow> Some (Some (f\<lparr>f_rax := result\<rparr>), s1)))"

section \<open>What the buffer check decides\<close>

definition reachable :: "vm_state \<Rightarrow> bool \<Rightarrow> u64 \<Rightarrow> bool" where
  "reachable v needs_write x \<longleftrightarrow>
     (let f = hal_query_flags (hal_get_page_table v) x v in
      f AND HAL_PRESENT \<noteq> 0 \<and> f AND HAL_USER \<noteq> 0 \<and> (needs_write \<longrightarrow> f AND HAL_WRITABLE \<noteq> 0))"

lemma each_page_iff: "each_page_ok n p w v \<longleftrightarrow> (\<forall>i < n. reachable v w (p + of_nat i * AF_PAGE_SIZE))"
proof (induction n arbitrary: p)
  case (Suc n)
  have "each_page_ok (Suc n) p w v \<longleftrightarrow> reachable v w p \<and> each_page_ok n (p + AF_PAGE_SIZE) w v"
    by (auto simp: reachable_def Let_def)
  also have "\<dots> \<longleftrightarrow> (\<forall>i < Suc n. reachable v w (p + of_nat i * AF_PAGE_SIZE))"
    unfolding Suc.IH All_less_Suc2 by (simp add: algebra_simps)
  finally show ?case .
qed simp

lemma slot_page: "slot (x AND NOT AF_PAGE_MASK) = slot x"
proof -
  have m: "(0xFFF :: u64) = mask 12" by (simp add: mask_eq_exp_minus_1)
  have "drop_bit n (x AND NOT (mask 12)) = drop_bit n x" if "12 \<le> n" for n
  proof (rule bit_word_eqI)
    fix k
    show "bit (drop_bit n (x AND NOT (mask 12))) k \<longleftrightarrow> bit (drop_bit n x) k"
      using that bit_imp_le_length [of x "n + k"] by (auto simp: bit_simps)
  qed
  then show ?thesis unfolding m by (simp add: slot_def pml4_index_def pdpt_index_def pd_index_def pt_index_def)
qed

lemma query_same_slot: "slot x = slot y \<Longrightarrow> hal_query_flags r x v = hal_query_flags r y v"
  by (simp only: hal_query_flags_def slot_def list.inject)

lemma reachable_page: "reachable v w (x AND NOT AF_PAGE_MASK) = reachable v w x"
  by (simp only: reachable_def query_same_slot [OF slot_page])

lemma page_address:
  assumes "unat x div 4096 = unat a div 4096 + i" "unat a + 4096 * i < 2 ^ 64"
  shows "x AND NOT AF_PAGE_MASK = (a AND NOT AF_PAGE_MASK) + of_nat i * AF_PAGE_SIZE"
proof -
  have d: "unat (y AND NOT AF_PAGE_MASK) = unat y div 4096 * 4096" for y :: u64
    using unat_align_down [of y] by (simp add: align_down_def)
  have "unat (of_nat i * AF_PAGE_SIZE) = i * 4096" using assms(2) by (simp add: unat_word_ariths unat_of_nat)
  moreover have "unat a div 4096 * 4096 + i * 4096 < 2 ^ 64"
    using assms(2) div_times_less_eq_dividend [of "unat a" 4096] by linarith
  ultimately have "unat ((a AND NOT AF_PAGE_MASK) + of_nat i * AF_PAGE_SIZE) = unat a div 4096 * 4096 + i * 4096"
    using d [of a] by (simp add: unat_add_small)
  then have "unat ((a AND NOT AF_PAGE_MASK) + of_nat i * AF_PAGE_SIZE) = (unat a div 4096 + i) * 4096"
    by (simp only: distrib_right)
  then show ?thesis using d [of x] assms(1) by (simp add: word_unat_eq_iff)
qed

lemma user_range_iff:
  "user_range_ok a len \<longleftrightarrow> 0 < unat len \<and> 0x1000 \<le> unat a \<and> unat a + unat len \<le> unat AF_USER_TOP"
proof -
  have "unat (a + len) = unat a + unat len \<and> \<not> a + len < a" if "unat a + unat len < 2 ^ 64"
    using that by (simp add: word_less_nat_alt unat_add_small)
  moreover have "a + len < a" if "\<not> unat a + unat len < 2 ^ 64"
    using that unat_bound [of a] unat_bound [of len] by (simp add: word_less_nat_alt unat_plus_if')
  ultimately show ?thesis
    by (cases "unat a + unat len < 2 ^ 64")
      (auto simp: user_range_ok_def Let_def word_less_nat_alt unat_gt_0 [symmetric])
qed


lemma pages_cover:
  fixes a x n i :: nat
  assumes "a \<le> x" "x < a + n" "x div 4096 = a div 4096 + i"
  shows "i < (a mod 4096 + n + 4095) div 4096" "a + 4096 * i \<le> x + 4096"
proof -
  have x: "x = a div 4096 * 4096 + i * 4096 + x mod 4096"
    using div_mult_mod_eq [of x 4096] assms(3) by (simp add: distrib_right)
  have a: "a = a div 4096 * 4096 + a mod 4096" "a mod 4096 < 4096" by simp_all
  have "i * 4096 + 4096 \<le> a mod 4096 + n + 4095" using x a assms(1,2) by linarith
  then have "Suc i * 4096 \<le> a mod 4096 + n + 4095" by simp
  then have "Suc i \<le> (a mod 4096 + n + 4095) div 4096" by (simp only: less_eq_div_iff_mult_less_eq)
  then show "i < (a mod 4096 + n + 4095) div 4096" by simp
  show "a + 4096 * i \<le> x + 4096" using x a by linarith
qed

lemma pages_hit:
  fixes a n i k :: nat
  assumes "i < (a mod 4096 + n + 4095) div 4096" "0 < n" "k = max a ((a div 4096 + i) * 4096)"
  shows "a \<le> k" "k < a + n" "k div 4096 = a div 4096 + i"
proof -
  have "Suc i \<le> (a mod 4096 + n + 4095) div 4096" using assms(1) by simp
  then have "Suc i * 4096 \<le> a mod 4096 + n + 4095" by (simp only: less_eq_div_iff_mult_less_eq)
  then have s: "i * 4096 + 4096 \<le> a mod 4096 + n + 4095" by simp
  have a: "a = a div 4096 * 4096 + a mod 4096" "a mod 4096 < 4096" by simp_all
  show "a \<le> k" using assms(3) by simp
  show "k < a + n" using s a assms(2,3) by (simp add: distrib_right max_def; linarith)
  show "k div 4096 = a div 4096 + i"
  proof (cases "i = 0")
    case True
    then have "k = a" using a assms(3) times_div_less_eq_dividend [of 4096 a] by (simp add: max_def mult.commute)
    then show ?thesis using True by simp
  next
    case False
    then have "a \<le> (a div 4096 + i) * 4096" using a by (simp add: distrib_right; linarith)
    then have "k = (a div 4096 + i) * 4096" using assms(3) by (simp add: max_def)
    then show ?thesis by (simp del: distrib_right)
  qed
qed

lemma user_buffer_exact:
  "user_buffer_ok a len w v \<longleftrightarrow>
     0 < unat len \<and> 0x1000 \<le> unat a \<and> unat a + unat len \<le> 0xFFFFFFFFFFF \<and>
     (unat a mod 4096 + unat len + 4095) div 4096 \<le> 4096 \<and>
     (\<forall>x. unat a \<le> unat x \<and> unat x < unat a + unat len \<longrightarrow> reachable v w x)"
proof (cases "0 < unat len \<and> 0x1000 \<le> unat a \<and> unat a + unat len \<le> 0xFFFFFFFFFFF")
  case True
  let ?n = "(unat a mod 4096 + unat len + 4095) div 4096"
  let ?p = "a AND NOT AF_PAGE_MASK"
  have m: "unat (a AND AF_PAGE_MASK) = unat a mod 4096"
  proof -
    have "a AND AF_PAGE_MASK = take_bit 12 a" by (simp add: take_bit_eq_mask mask_eq_exp_minus_1)
    then show ?thesis by (simp add: unsigned_take_bit_eq take_bit_eq_mod unat_mod)
  qed
  have n: "unat (((a AND AF_PAGE_MASK) + len + AF_PAGE_MASK) div AF_PAGE_SIZE) = ?n"
  proof -
    have "unat (a AND AF_PAGE_MASK) < 4096" using m by simp
    then have "unat ((a AND AF_PAGE_MASK) + len) = unat (a AND AF_PAGE_MASK) + unat len" using True by (intro unat_add_small) simp
    moreover from this have "unat ((a AND AF_PAGE_MASK) + len + AF_PAGE_MASK) = unat ((a AND AF_PAGE_MASK) + len) + 4095"
      using True m mod_less_divisor [of 4096 "unat a"] by (subst unat_add_small) (simp, linarith, simp)
    ultimately show ?thesis using m by (simp add: unat_div)
  qed
  have n0: "0 < ?n" unfolding div_greater_zero_iff using True by simp
  have walk: "each_page_ok ?n ?p w v \<longleftrightarrow> (\<forall>x. unat a \<le> unat x \<and> unat x < unat a + unat len \<longrightarrow> reachable v w x)"
    unfolding each_page_iff
  proof (intro iffI allI impI)
    fix x :: u64 assume all: "\<forall>i < ?n. reachable v w (?p + of_nat i * AF_PAGE_SIZE)" and x: "unat a \<le> unat x \<and> unat x < unat a + unat len"
    define i where "i = unat x div 4096 - unat a div 4096"
    have i: "unat x div 4096 = unat a div 4096 + i" using x div_le_mono [of "unat a" "unat x" 4096] by (simp add: i_def)
    have "i < ?n" using pages_cover(1) [of "unat a" "unat x" "unat len" i] x i by blast
    moreover have "unat a + 4096 * i < 2 ^ 64" using pages_cover(2) [of "unat a" "unat x" "unat len" i] x i True by simp
    ultimately have "reachable v w (x AND NOT AF_PAGE_MASK)" using all page_address [OF i] by simp
    then show "reachable v w x" by (simp only: reachable_page)
  next
    fix i assume all: "\<forall>x. unat a \<le> unat x \<and> unat x < unat a + unat len \<longrightarrow> reachable v w x" and i: "i < ?n"
    define k where "k = max (unat a) ((unat a div 4096 + i) * 4096)"
    have "0 < unat len" using True by blast
    note k = pages_hit [OF i this k_def]
    moreover from this have "k < 2 ^ 64" "unat a + 4096 * i < 2 ^ 64"
      using pages_cover(2) [of "unat a" k "unat len" i] True by simp_all
    ultimately have k: "unat a \<le> k" "k < unat a + unat len" "k div 4096 = unat a div 4096 + i" "k < 2 ^ 64" "unat a + 4096 * i < 2 ^ 64"
      by blast+
    have x: "unat (of_nat k :: u64) = k" using k(4) by (simp add: unat_of_nat)
    have "reachable v w (of_nat k)" using all k x by simp
    then show "reachable v w (?p + of_nat i * AF_PAGE_SIZE)"
      using page_address [of "of_nat k" a i] k x reachable_page by metis
  qed
  show ?thesis
    using True n0 n walk unfolding user_buffer_ok_def user_range_iff user_pages_ok_def Let_def
    by (auto simp: word_less_nat_alt word_unat_eq_iff)
next
  case False
  then show ?thesis by (auto simp: user_buffer_ok_def user_range_iff)
qed

section \<open>Printing\<close>

lemma debug_write_entry:
  assumes "f_rax f = AF_SYS_DEBUG_WRITE" "n = min (unat (f_rsi f)) 4096" "v = current_vm s"
    and "ok \<longleftrightarrow> 0 < n \<and> 0x1000 \<le> unat (f_rdi f) \<and> unat (f_rdi f) + n \<le> 0xFFFFFFFFFFF \<and>
      (\<forall>x. unat (f_rdi f) \<le> unat x \<and> unat x < unat (f_rdi f) + n \<longrightarrow> reachable v False x)"
  shows "\<exists>s'. syscall_entry now (Some f) s = Some (Some (f\<lparr>f_rax := if ok then of_nat n else status_word AF_ERR_FAULT\<rparr>), s') \<and>
     vm s' = vm s \<and> kern s' = kern s \<and>
     console s' = console s @ (if ok then map (\<lambda>i. user_byte v (f_rdi f + of_nat i)) [0..<n] else [])"
proof -
  define len where "len = (if 4096 < f_rsi f then 4096 else f_rsi f)"
  have n: "unat len = n" using assms(2) by (auto simp: len_def word_less_nat_alt min_def)
  have n4: "n \<le> 4096" using assms(2) by simp
  have "(unat (f_rdi f) mod 4096 + n + 4095) div 4096 \<le> 4096"
    using n4 mod_less_divisor [of 4096 "unat (f_rdi f)"] by linarith
  then have ok: "user_buffer_ok (f_rdi f) len False v = ok"
    unfolding user_buffer_exact n assms(4) by blast
  define s0 where "s0 = count_call 0 s"
  have s0: "current_vm s0 = v" "vm s0 = vm s" "kern s0 = kern s" "console s0 = console s"
    by (simp_all add: s0_def count_call_def current_vm_def assms(3))
  have len: "len = of_nat n" using n n4 by (simp add: word_unat_eq_iff unat_of_nat)
  have w: "sys_debug_write (f_rdi f) (f_rsi f) s0 =
      (if ok then (of_nat n, s0\<lparr>console := console s0 @ map (\<lambda>i. user_byte v (f_rdi f + of_nat i)) [0..<n]\<rparr>)
       else (status_word AF_ERR_FAULT, s0))"
    unfolding sys_debug_write_def len_def [symmetric] Let_def s0(1) ok n using len by simp
  show ?thesis
    using w s0 by (simp add: syscall_entry_def syscall_dispatch_def assms(1) s0_def [symmetric] Let_def)
qed

text \<open>
  (C30) A program asks for its message to be printed. It is printed, up to 4096 bytes of it, exactly when
  every byte of it lies in pages the program may read itself; otherwise nothing is read or printed and
  the program gets \<open>AF_ERR_FAULT\<close>. Either way the page tables, the processes and the registers other
  than RAX are as they were.
\<close>

theorem debug_write_exact:
  assumes "f_rax f = AF_SYS_DEBUG_WRITE" "n = min (unat (f_rsi f)) 4096" "v = current_vm s"
    and "ok \<longleftrightarrow> 0 < n \<and> 0x1000 \<le> unat (f_rdi f) \<and> unat (f_rdi f) + n \<le> 0xFFFFFFFFFFF \<and>
      (\<forall>x. unat (f_rdi f) \<le> unat x \<and> unat x < unat (f_rdi f) + n \<longrightarrow> reachable v False x)"
  shows "\<exists>s'. syscall_entry now (Some f) s = Some (Some (f\<lparr>f_rax := if ok then of_nat n else status_word AF_ERR_FAULT\<rparr>), s') \<and>
     vm s' = vm s \<and> kern s' = kern s \<and>
     console s' = console s @ (if ok then map (\<lambda>i. user_byte v (f_rdi f + of_nat i)) [0..<n] else [])"
  by (rule debug_write_entry [OF assms])



section \<open>A system call on a small machine\<close>

definition demo_kern :: "u64 \<Rightarrow> kstate" where
  "demo_kern root = \<lparr>threads = \<lambda>_. undefined, s_threads = [], s_thread_count = 0, th_cur = None, runq = replicate 8 [],
     runq_len = replicate 8 0, s_current = None, s_idle = None, s_ticks = 0, s_switches = 0, s_need_resched = False,
     s_kernel_root = root, s_last_installed = root, s_zombies = [], cr3 = root, freed_stacks = [], s_table = [],
     s_live = 0, s_next_pid = 1, destroyed_spaces = [], kfreed = []\<rparr>"

definition demo_sys :: "u64 \<Rightarrow> vm_state \<Rightarrow> sys_state" where
  "demo_sys root v = \<lparr>kern = demo_kern root, vm = v, s_syscall_count = 0, s_syscall_by_number = replicate 64 0,
     s_user_ok_emitted = False, console = []\<rparr>"

definition demo_frame :: "u64 \<Rightarrow> isr_frame" where
  "demo_frame a = \<lparr>f_rax = 0, f_rdi = a, f_rsi = 2, f_rdx = 0, f_r10 = 0, f_r8 = 0\<rparr>"

lemma demo_sys_vm: "current_vm (demo_sys root v) = v\<lparr>page_root := root\<rparr>"
  by (simp add: current_vm_def demo_sys_def demo_kern_def)

lemma two_addresses: "unat a \<le> unat x \<Longrightarrow> unat x < unat a + 2 \<Longrightarrow> unat a < 2 ^ 63 \<Longrightarrow> x = a \<or> x = a + 1" for a x :: u64
proof -
  assume x: "unat a \<le> unat x" "unat x < unat a + 2" "unat a < 2 ^ 63"
  have "unat (a + 1) = unat a + 1" using x(3) by (subst unat_add_small) simp_all
  moreover have "unat x = unat a \<or> unat x = unat a + 1" using x by linarith
  ultimately show ?thesis by (metis word_unat_eq_iff)
qed

lemma debug_write_exact_witness:
  "\<exists>v s'. hal_translate demo_root 0x8000001000 v = 0x5000 \<and>
     syscall_entry 0 (Some (demo_frame 0x8000001000)) (demo_sys demo_root v) = Some (Some ((demo_frame 0x8000001000)\<lparr>f_rax := 2\<rparr>), s') \<and>
     length (console s') = 2"
proof -
  obtain v where v: "hal_map_page demo_root 0x8000001000 0x5000 7 demo_kernel = (AF_OK, v)" using demo_map by blast
  have fl: "pte_to_hal_flags (leaf_entry 0x5000 7) = 7"
    by (simp add: leaf_entry_def hal_flags_to_pte_def pte_to_hal_flags_def)
  have ok: "hal_translate demo_root x v = table_of 0x5000 OR (x AND 0xFFF)" "hal_query_flags demo_root x v = 7"
    if "slot x = slot 0x8000001000" for x
    using map_page_ok [OF demo_kernel_ok(4) _ _ v] that fl by auto
  have sl: "slot 0x8000001001 = slot 0x8000001000"
    by (simp add: slot_def pml4_index_def pdpt_index_def pd_index_def pt_index_def)
  let ?s = "demo_sys demo_root v" and ?f = "demo_frame 0x8000001000"
  have q: "hal_query_flags demo_root x (current_vm ?s) = hal_query_flags demo_root x v" for x
    by (rule entries_only) (simp add: demo_sys_vm)
  have "reachable (current_vm ?s) False x" if "unat (0x8000001000 :: u64) \<le> unat x" "unat x < unat (0x8000001000 :: u64) + 2" for x
  proof -
    have "x = 0x8000001000 \<or> x = 0x8000001001" using two_addresses [OF that] by simp
    then have "hal_query_flags demo_root x (current_vm ?s) = 7" unfolding q using ok(2) [OF sl] ok(2) [OF refl] by auto
    then show ?thesis by (simp add: reachable_def hal_get_page_table_def demo_sys_vm)
  qed
  moreover have "f_rax ?f = 0" "f_rdi ?f = 0x8000001000" "f_rsi ?f = 2" by (simp_all add: demo_frame_def)
  ultimately obtain s' where "syscall_entry 0 (Some ?f) ?s = Some (Some (?f\<lparr>f_rax := if True then of_nat 2 else status_word AF_ERR_FAULT\<rparr>), s')"
      "console s' = console ?s @ (if True then map (\<lambda>i. user_byte (current_vm ?s) (f_rdi ?f + of_nat i)) [0..<2] else [])"
    using debug_write_exact [of ?f 2 "current_vm ?s" ?s True 0] by auto
  then have "syscall_entry 0 (Some ?f) ?s = Some (Some (?f\<lparr>f_rax := 2\<rparr>), s') \<and> length (console s') = 2"
    by (simp add: demo_sys_def)
  moreover have "hal_translate demo_root 0x8000001000 v = 0x5000" using ok(1) [OF refl] by (simp add: table_of_def)
  ultimately show ?thesis by blast
qed


end
