(* ===== verification/Bytes.thy ===== *)
theory Bytes
  imports Prelude
begin

text \<open>
  What the parsers of on-disk and in-memory formats share: the result of a call that may fail or may
  touch memory it must not, and the little-endian readers every parser has a copy of.
\<close>

section \<open>Outcomes\<close>

text \<open>
  \<open>Ok\<close> is \<open>AF_OK\<close> with what the call stored through its out-pointers, \<open>Fail\<close> any other status. \<open>Fault\<close>
  is a read outside the buffer, or of bytes of it that nothing has written since the call began.
\<close>

datatype 'a outcome = Ok 'a | Fail af_status | Fault

fun andthen :: "'a outcome \<Rightarrow> ('a \<Rightarrow> 'b outcome) \<Rightarrow> 'b outcome" where
  "andthen (Ok x) k = k x"
| "andthen (Fail e) k = Fail e"
| "andthen Fault k = Fault"

lemma andthen_Ok [simp]: "andthen r Ok = r"
  by (cases r) simp_all

lemma andthen_Fault: "andthen r k = Fault \<longleftrightarrow> r = Fault \<or> (\<exists>x. r = Ok x \<and> k x = Fault)"
  by (cases r) simp_all

lemma andthen_eq_Ok: "andthen r k = Ok y \<longleftrightarrow> (\<exists>x. r = Ok x \<and> k x = Ok y)"
  by (cases r) simp_all

section \<open>Little-endian readers\<close>

definition rd16 :: "u8 list \<Rightarrow> nat \<Rightarrow> u32" where
  "rd16 p i = ucast (p ! i) OR push_bit 8 (ucast (p ! (i + 1)))"

definition rd32 :: "u8 list \<Rightarrow> nat \<Rightarrow> u32" where
  "rd32 p i = ucast (p ! i) OR push_bit 8 (ucast (p ! (i + 1))) OR
     push_bit 16 (ucast (p ! (i + 2))) OR push_bit 24 (ucast (p ! (i + 3)))"

definition rd64 :: "u8 list \<Rightarrow> nat \<Rightarrow> u64" where
  "rd64 p i = ucast (rd32 p i) OR push_bit 32 (ucast (rd32 p (i + 4)))"

text \<open>The encoders the formats are written with, for the round trips.\<close>

definition le16 :: "u16 \<Rightarrow> u8 list" where
  "le16 x = [ucast x, ucast (drop_bit 8 x)]"

definition le32 :: "u32 \<Rightarrow> u8 list" where
  "le32 x = [ucast x, ucast (drop_bit 8 x), ucast (drop_bit 16 x), ucast (drop_bit 24 x)]"

definition le64 :: "u64 \<Rightarrow> u8 list" where
  "le64 x = le32 (ucast x) @ le32 (ucast (drop_bit 32 x))"

lemma le_lengths [simp]: "length (le16 x) = 2" "length (le32 y) = 4" "length (le64 z) = 8"
  by (simp_all add: le16_def le32_def le64_def)

lemma nth_append_at: "j < length ys \<Longrightarrow> (xs @ ys @ zs) ! (length xs + j) = ys ! j"
  by (simp add: nth_append)

lemma rd32_le32: "rd32 (xs @ le32 v @ ys) (length xs) = v"
proof -
  have "rd32 (xs @ le32 v @ ys) (length xs) =
     ucast (ucast v :: u8) OR push_bit 8 (ucast (ucast (drop_bit 8 v) :: u8)) OR
     push_bit 16 (ucast (ucast (drop_bit 16 v) :: u8)) OR push_bit 24 (ucast (ucast (drop_bit 24 v) :: u8))"
    using nth_append_at [of 0 "le32 v" xs ys] nth_append_at [of 1 "le32 v" xs ys]
      nth_append_at [of 2 "le32 v" xs ys] nth_append_at [of 3 "le32 v" xs ys]
    by (simp add: rd32_def le32_def)
  also have "\<dots> = v"
  proof (rule bit_word_eqI)
    fix n assume "n < LENGTH(32)"
    then consider "n < 8" | "8 \<le> n" "n < 16" | "16 \<le> n" "n < 24" | "24 \<le> n" "n < 32"
      by fastforce
    then show "bit (ucast (ucast v :: u8) OR push_bit 8 (ucast (ucast (drop_bit 8 v) :: u8)) OR
       push_bit 16 (ucast (ucast (drop_bit 16 v) :: u8)) OR
       push_bit 24 (ucast (ucast (drop_bit 24 v) :: u8)) :: u32) n = bit v n"
      by cases (simp_all add: bit_simps, linarith+)
  qed
  finally show ?thesis .
qed

section \<open>Checked reads\<close>

text \<open>A read of one byte, and a view of \<open>n\<close> bytes (a pointer into the buffer with a length).\<close>

definition fetch :: "u8 list \<Rightarrow> nat \<Rightarrow> u8 outcome" where
  "fetch d i = (if i < length d then Ok (d ! i) else Fault)"

definition fetches :: "u8 list \<Rightarrow> nat \<Rightarrow> nat \<Rightarrow> u8 list outcome" where
  "fetches d i n = (if i + n \<le> length d then Ok (take n (drop i d)) else Fault)"

lemma fetch_Ok [simp]: "i < length d \<Longrightarrow> fetch d i = Ok (d ! i)"
  by (simp add: fetch_def)

lemma fetches_Ok [simp]: "i + n \<le> length d \<Longrightarrow> fetches d i n = Ok (take n (drop i d))"
  by (simp add: fetches_def)

lemma andthen_cong [fundef_cong]:
  "r = r' \<Longrightarrow> (\<And>x. r' = Ok x \<Longrightarrow> k x = k' x) \<Longrightarrow> andthen r k = andthen r' k'"
  by (cases r') simp_all

text \<open>
  What a call may do: deliver a result with a property, or fail with one of some errors; never an access outside.
\<close>

definition yields :: "af_status set \<Rightarrow> ('a \<Rightarrow> bool) \<Rightarrow> 'a outcome \<Rightarrow> bool" where
  "yields E P r = (case r of Ok x \<Rightarrow> P x | Fail e \<Rightarrow> e \<in> E | Fault \<Rightarrow> False)"

lemma yields_simps [simp]: "yields E P (Ok x) = P x" "yields E P (Fail e) \<longleftrightarrow> e \<in> E" "\<not> yields E P Fault"
  by (simp_all add: yields_def)

lemma yields_bind: "yields E P r \<Longrightarrow> (\<And>x. P x \<Longrightarrow> yields E Q (k x)) \<Longrightarrow> yields E Q (andthen r k)"
  by (cases r) simp_all

lemma yields_mono: "yields E P r \<Longrightarrow> E \<subseteq> F \<Longrightarrow> (\<And>x. P x \<Longrightarrow> Q x) \<Longrightarrow> yields F Q r"
  by (cases r) auto

lemma yields_Ok: "yields E P r \<Longrightarrow> r = Ok x \<Longrightarrow> P x"
  by simp

text \<open>One rule for each form of a call, so that a goal is split along the code.\<close>

lemma yields_if: "(c \<Longrightarrow> yields E P a) \<Longrightarrow> (\<not> c \<Longrightarrow> yields E P b) \<Longrightarrow> yields E P (if c then a else b)"
  by simp

lemma yields_Let: "(\<And>x. x = t \<Longrightarrow> yields E P (f x)) \<Longrightarrow> yields E P (Let t f)"
  by simp

lemma yields_pair: "(\<And>a b. x = (a, b) \<Longrightarrow> yields E P (f a b)) \<Longrightarrow> yields E P (case x of (a, b) \<Rightarrow> f a b)"
  by (cases x) simp

lemma yields_fetch: "i < length d \<Longrightarrow> yields E P (k (d ! i)) \<Longrightarrow> yields E P (andthen (fetch d i) k)"
  by simp

lemma yields_fetches: "i + n \<le> length d \<Longrightarrow> yields E P (k (take n (drop i d))) \<Longrightarrow> yields E P (andthen (fetches d i n) k)"
  by simp

lemmas yields_intros = yields_if yields_Let yields_pair yields_fetch yields_fetches

section \<open>Strings in fixed buffers\<close>

text \<open>The bytes of a C string, and what \<open>af_strlcpy\<close> leaves of one in a buffer of \<open>n\<close> bytes.\<close>

definition cstr :: "u8 list \<Rightarrow> u8 list" where
  "cstr xs = takeWhile (\<lambda>c. c \<noteq> 0) xs"

definition strlcpy_bytes :: "nat \<Rightarrow> u8 list \<Rightarrow> u8 list" where
  "strlcpy_bytes n src = take (n - 1) (cstr src)"

end
