(* ===== verification/Block.thy ===== *)
theory Block
  imports Bytes
begin

text \<open>
  The block device layer (\<open>kernel/core/block.c\<close>) and the partition table reader (\<open>kernel/fs/gpt.c\<close>).
  A device carries the state of its driver; its two function pointers are functions of that state.
  The driver itself talks to hardware and is an argument of the model.
\<close>

section \<open>Devices\<close>

record 'd af_block_device =
  dev_name :: string
  sector_count :: u64
  sector_size :: u32
  dev_read :: "('d \<Rightarrow> u64 \<Rightarrow> u32 \<Rightarrow> u8 list outcome) option"
  dev_write :: "('d \<Rightarrow> u64 \<Rightarrow> u32 \<Rightarrow> u8 list \<Rightarrow> af_status \<times> 'd) option"
  read_only :: bool
  driver_data :: 'd

abbreviation (input) "SECTOR_SIZE \<equiv> (512 :: nat)"

definition check_range :: "'d af_block_device option \<Rightarrow> u64 \<Rightarrow> u32 \<Rightarrow> af_status" where
  "check_range dev lba count =
     (case dev of
        None \<Rightarrow> AF_ERR_NODEV
      | Some d \<Rightarrow>
          if count = 0 then AF_ERR_INVAL
          else if sector_count d \<le> lba then AF_ERR_INVAL
          else if sector_count d < lba + ucast count then AF_ERR_INVAL
          else AF_OK)"

definition block_read :: "'d af_block_device option \<Rightarrow> u64 \<Rightarrow> u32 \<Rightarrow> u8 list outcome" where
  "block_read dev lba count =
     (let rc = check_range dev lba count in
      if af_status_err rc then Fail rc
      else case dev_read (the dev) of
          None \<Rightarrow> Fail AF_ERR_NOTSUP
        | Some rd \<Rightarrow> rd (driver_data (the dev)) lba count)"

definition block_write ::
  "'d af_block_device option \<Rightarrow> u64 \<Rightarrow> u32 \<Rightarrow> u8 list \<Rightarrow> af_status \<times> 'd af_block_device option" where
  "block_write dev lba count buffer =
     (let rc = check_range dev lba count in
      if af_status_err rc then (rc, dev)
      else case dev_write (the dev) of
          None \<Rightarrow> (AF_ERR_ROFS, dev)
        | Some wr \<Rightarrow>
            if read_only (the dev) then (AF_ERR_ROFS, dev)
            else let (st, d) = wr (driver_data (the dev)) lba count buffer
              in (st, map_option (\<lambda>x. x\<lparr>driver_data := d\<rparr>) dev))"

text \<open>A one-sector read into a static buffer, as the parsers use it.\<close>

definition read_sector :: "'d af_block_device option \<Rightarrow> u64 \<Rightarrow> u8 list outcome" where
  "read_sector dev lba = andthen (block_read dev lba 1) (\<lambda>data. if length data < SECTOR_SIZE then Fault else Ok data)"

text \<open>
  What the parsers rely on from a driver: a read delivers exactly the sectors asked for, or an error.
\<close>

definition whole_sectors :: "'d af_block_device option \<Rightarrow> bool" where
  "whole_sectors d \<longleftrightarrow>
     (\<forall>lba n. case block_read d lba n of Ok data \<Rightarrow> length data = 512 * unat n | Fail e \<Rightarrow> e \<noteq> AF_OK | Fault \<Rightarrow> False)"

lemma whole_sectors_read:
  assumes "whole_sectors d"
  shows "block_read d lba n \<noteq> Fault" "block_read d lba n = Ok data \<Longrightarrow> length data = 512 * unat n"
    "block_read d lba n = Fail e \<Longrightarrow> e \<noteq> AF_OK"
  using assms unfolding whole_sectors_def by (auto dest: spec [of _ lba] split: outcome.splits)

lemma read_sector_whole:
  assumes "whole_sectors d"
  shows "read_sector d lba \<noteq> Fault" "read_sector d lba = Ok data \<Longrightarrow> length data = 512"
  using whole_sectors_read [OF assms, of lba 1] unfolding read_sector_def
  by (cases "block_read d lba 1"; auto)+

text \<open>
  The range check is exact as long as \<open>lba + count\<close> cannot pass the top of 64 bits.
\<close>

lemma check_range_exact:
  assumes "unat (sector_count d) + 2 ^ 32 \<le> 2 ^ 64"
  shows "check_range (Some d) lba count = AF_OK \<longleftrightarrow>
     0 < unat count \<and> unat lba + unat count \<le> unat (sector_count d)"
proof (cases "sector_count d \<le> lba")
  case True
  then have "\<not> (0 < unat count \<and> unat lba + unat count \<le> unat (sector_count d))"
    by (simp only: word_le_nat_alt) linarith
  then show ?thesis using True by (simp add: check_range_def)
next
  case False
  then have "unat lba + unat count < 2 ^ 64"
    using assms unat_bound [of count] by (simp add: word_le_nat_alt)
  then have "unat (lba + ucast count) = unat lba + unat count"
    by (simp add: unat_word_ariths unsigned_ucast_eq take_bit_nat_eq_self less_trans [OF unat_bound])
  then show ?thesis
    using False by (auto simp: check_range_def word_le_nat_alt word_less_nat_alt unat_gt_0)
qed

text \<open>Above that the sum wraps, and a read past the end of the device is let through.\<close>

theorem check_range_wraps:
  "check_range (Some (d\<lparr>sector_count := 0xFFFFFFFFFFFFFFFF\<rparr>)) 0xFFFFFFFFFFFFFFFE 5 = AF_OK"
  by (simp add: check_range_def)

section \<open>Partition tables\<close>

record af_partition =
  start_lba :: u64
  part_sectors :: u64
  part_name :: "u8 list"
  type_guid :: "u8 list"

record af_partition_table =
  pt_entries :: "af_partition list"
  is_gpt :: bool

abbreviation (input) "AF_MAX_PARTITIONS \<equiv> (8 :: nat)"

definition k_esp_type_guid :: "u8 list" where
  "k_esp_type_guid = [0x28, 0x73, 0x2A, 0xC1, 0x1F, 0xF8, 0xD2, 0x11, 0xBA, 0x4B, 0x00, 0xA0, 0xC9, 0x3E, 0xC9, 0x3B]"

text \<open>\<open>"EFI PART"\<close>\<close>

definition gpt_signature :: "u8 list" where
  "gpt_signature = [0x45, 0x46, 0x49, 0x20, 0x50, 0x41, 0x52, 0x54]"

text \<open>The name loop, from code unit \<open>c\<close> on: at most 36 units, ending at a zero unit.\<close>

fun gpt_name :: "u8 list \<Rightarrow> nat list \<Rightarrow> u8 list" where
  "gpt_name name [] = []"
| "gpt_name name (c # cs) =
     (let unit = rd16 name (c * 2) in
      if unit = 0 then [] else (if unit < 128 then ucast unit else 0x3F) # gpt_name name cs)"

definition gpt_entry :: "u8 list \<Rightarrow> af_partition" where
  "gpt_entry e = \<lparr>start_lba = rd64 e 32, part_sectors = rd64 e 40 - rd64 e 32 + 1,
     part_name = gpt_name (drop 56 e) [0..<36], type_guid = take 16 e\<rparr>"

text \<open>The loop over the entries still to be read.\<close>

fun gpt_entries ::
  "'d af_block_device option \<Rightarrow> u64 \<Rightarrow> u32 \<Rightarrow> u32 \<Rightarrow> u32 list \<Rightarrow> af_partition list \<Rightarrow> af_partition list outcome" where
  "gpt_entries dev entries_lba entry_size per_sector [] found = Ok found"
| "gpt_entries dev entries_lba entry_size per_sector (i # is) found =
     (if AF_MAX_PARTITIONS \<le> length found then Ok found
      else andthen (read_sector dev (entries_lba + ucast (i div per_sector))) (\<lambda>entries.
        let offset = unat ((i mod per_sector) * entry_size) in
        if length entries < offset + 128 then Fault
        else let e = take 128 (drop offset entries) in
          if \<forall>b \<in> set [0..<16]. e ! b = 0
          then gpt_entries dev entries_lba entry_size per_sector is found
          else gpt_entries dev entries_lba entry_size per_sector is (found @ [gpt_entry e])))"

definition partition_table_read :: "'d af_block_device option \<Rightarrow> bool \<Rightarrow> af_partition_table outcome" where
  "partition_table_read dev out_given =
     (if dev = None \<or> \<not> out_given then Fail AF_ERR_INVAL
      else andthen (read_sector dev 0) (\<lambda>sector.
        if sector ! 510 \<noteq> 0x55 \<or> sector ! 511 \<noteq> 0xAA then Fail AF_ERR_NOENT
        else andthen (read_sector dev 1) (\<lambda>header.
          if take 8 header \<noteq> gpt_signature then Fail AF_ERR_NOTSUP
          else let entries_lba = rd64 header 72;
                   entry_count = rd32 header 80;
                   entry_size = rd32 header 84
            in if entry_size < 128 \<or> 512 < entry_size then Fail AF_ERR_FS_CORRUPT
               else let entry_count1 = (if 128 < entry_count then 128 else entry_count);
                        per_sector0 = 512 div entry_size;
                        per_sector = (if per_sector0 = 0 then 1 else per_sector0)
                 in andthen (gpt_entries dev entries_lba entry_size per_sector (map of_nat [0..<unat entry_count1]) [])
                      (\<lambda>es. Ok \<lparr>pt_entries = es, is_gpt = True\<rparr>))))"

definition partition_find_esp :: "af_partition_table option \<Rightarrow> bool \<Rightarrow> af_partition outcome" where
  "partition_find_esp table out_given =
     (case table of
        None \<Rightarrow> Fail AF_ERR_INVAL
      | Some t \<Rightarrow>
          if \<not> out_given then Fail AF_ERR_INVAL
          else (case find (\<lambda>p. type_guid p = k_esp_type_guid) (pt_entries t) of
                  None \<Rightarrow> Fail AF_ERR_NOENT
                | Some p \<Rightarrow> Ok p))"

text \<open>
  The reference: the entry array is one run of bytes, and entry \<open>i\<close> starts at \<open>i * entry_size\<close> in it.
\<close>

definition sector_bytes :: "'d af_block_device option \<Rightarrow> u64 \<Rightarrow> u8 list" where
  "sector_bytes d lba = (case read_sector d lba of Ok data \<Rightarrow> data | _ \<Rightarrow> [])"

definition gpt_array :: "'d af_block_device option \<Rightarrow> u64 \<Rightarrow> nat \<Rightarrow> u8 list" where
  "gpt_array d entries_lba sectors = concat (map (\<lambda>k. sector_bytes d (entries_lba + of_nat k)) [0..<sectors])"

definition raw_entry :: "u8 list \<Rightarrow> nat \<Rightarrow> nat \<Rightarrow> u8 list" where
  "raw_entry array entry_size i = take 128 (drop (i * entry_size) array)"

definition used_entry :: "u8 list \<Rightarrow> bool" where
  "used_entry e \<longleftrightarrow> (\<exists>b \<in> set [0..<16]. e ! b \<noteq> 0)"

lemma drop_concat_blocks:
  "\<forall>x \<in> set xs. length x = n \<Longrightarrow> k < length xs \<Longrightarrow> j \<le> n \<Longrightarrow>
     drop (k * n + j) (concat xs) = drop j (xs ! k) @ concat (drop (Suc k) xs)"
proof (induction xs arbitrary: k)
  case (Cons x xs)
  then show ?case by (cases k) (auto simp: algebra_simps)
qed simp

lemma raw_entry_sector:
  assumes "\<forall>k < sectors. length (sector_bytes d (lba + of_nat k)) = 512"
    and "p * z = 512" "128 \<le> z" "i div p < sectors" "0 < p"
  shows "raw_entry (gpt_array d lba sectors) z i = take 128 (drop (i mod p * z) (sector_bytes d (lba + of_nat (i div p))))"
proof -
  have le: "i mod p * z + 128 \<le> 512"
  proof -
    have "i mod p * z + z = Suc (i mod p) * z" by simp
    also have "\<dots> \<le> p * z" using assms(5) by (intro mult_le_mono1) (simp add: Suc_le_eq)
    finally show ?thesis using assms(2,3) by simp
  qed
  have split: "i * z = i div p * 512 + i mod p * z"
  proof -
    have "i = i div p * p + i mod p" by simp
    then have "i * z = i div p * (p * z) + i mod p * z" by (metis add_mult_distrib mult.assoc)
    then show ?thesis using assms(2) by simp
  qed
  have "drop (i div p * 512 + i mod p * z) (gpt_array d lba sectors) =
      drop (i mod p * z) (sector_bytes d (lba + of_nat (i div p))) @
      concat (drop (Suc (i div p)) (map (\<lambda>k. sector_bytes d (lba + of_nat k)) [0..<sectors]))"
    unfolding gpt_array_def using assms(1,4) le by (subst drop_concat_blocks [where n = 512]) auto
  then show ?thesis
    unfolding raw_entry_def split using assms(1,4) le by simp
qed

lemma gpt_entries_from:
  assumes "\<forall>i \<in> set is. \<exists>data. read_sector d (lba + ucast (i div per)) = Ok data \<and>
      unat ((i mod per) * z) + 128 \<le> length data \<and> raw i = take 128 (drop (unat ((i mod per) * z)) data)"
    and "length found \<le> 8"
  shows "gpt_entries d lba z per is found = Ok (take 8 (found @ map gpt_entry (filter used_entry (map raw is))))"
  using assms
proof (induction "is" arbitrary: found)
  case (Cons i "is")
  then obtain data where data: "read_sector d (lba + ucast (i div per)) = Ok data"
      "unat ((i mod per) * z) + 128 \<le> length data" "raw i = take 128 (drop (unat ((i mod per) * z)) data)"
    by auto
  show ?case
  proof (cases "8 \<le> length found")
    case False
    then have "8 - length found = Suc (7 - length found)" using Cons.prems(2) by simp
    then show ?thesis
      using False Cons data by (auto simp: Let_def used_entry_def not_less)
  qed (use Cons.prems in simp)
qed simp

text \<open>
  (C21) The partition table reader is exact. For the entry sizes the standard allows, the partitions found are the first eight used entries of
  the array, in its order, decoded at their place in it.
\<close>

theorem gpt_reads_array:
  assumes "whole_sectors d" "read_sector d 0 = Ok mbr" "mbr ! 510 = 0x55" "mbr ! 511 = 0xAA"
    and "read_sector d 1 = Ok header" "take 8 header = gpt_signature"
    and "rd32 header 84 \<in> {128, 256, 512}" "n = min 128 (unat (rd32 header 80))"
    and "n * unat (rd32 header 84) \<le> 512 * sectors"
    and "\<forall>k < sectors. \<exists>data. read_sector d (rd64 header 72 + of_nat k) = Ok data"
  shows "partition_table_read d True = Ok \<lparr>
     pt_entries = take 8 (map gpt_entry (filter used_entry
       (map (raw_entry (gpt_array d (rd64 header 72) sectors) (unat (rd32 header 84))) [0..<n]))),
     is_gpt = True\<rparr>"
proof -
  define lba where "lba = rd64 header 72"
  define w where "w = rd32 header 84"
  define z where "z = unat w"
  define p where "p = 512 div z"
  have w: "w \<in> {128, 256, 512}" using assms(7) by (simp add: w_def)
  have z: "z \<in> {128, 256, 512}" using w by (auto simp: z_def)
  then have pz: "p * z = 512" "128 \<le> z" "0 < p" by (auto simp: p_def)
  have per: "unat (512 div w) = p" using w by (auto simp: p_def z_def)
  have per_nz: "512 div w \<noteq> 0" using per pz(3) by auto
  have n: "n \<le> 128" "n * z \<le> 512 * sectors" using assms(8,9) by (simp_all add: z_def w_def)
  let ?raw = "\<lambda>i :: u32. raw_entry (gpt_array d lba sectors) z (unat i)"
  have entry: "\<exists>data. read_sector d (lba + ucast (i div (512 div w))) = Ok data \<and>
      unat ((i mod (512 div w)) * w) + 128 \<le> length data \<and> ?raw i = take 128 (drop (unat ((i mod (512 div w)) * w)) data)"
    if i: "i \<in> set (map of_nat [0..<n])" for i :: u32
  proof -
    obtain k where k: "i = of_nat k" "k < n" using i by auto
    have ui: "unat i = k" using k n(1) by (simp add: unat_of_nat)
    have km: "k div p < sectors"
    proof -
      have "k * z < 512 * sectors" using k(2) n(2) pz(2) by (metis less_le_trans mult_less_mono1 not_gr_zero not_numeral_le_zero)
      then have "k div p * (p * z) < 512 * sectors"
        by (metis div_times_less_eq_dividend le_less_trans mult.assoc mult_le_mono1)
      then show ?thesis using pz(1) by simp
    qed
    have le: "k mod p * z + 128 \<le> 512"
    proof -
      have "Suc (k mod p) * z \<le> p * z" using pz(3) by (intro mult_le_mono1) (simp add: Suc_le_eq)
      then show ?thesis using pz by simp
    qed
    have off: "unat ((i mod (512 div w)) * w) = k mod p * z"
      unfolding unat_word_ariths(2) unat_mod_distrib per ui z_def [symmetric] using le by simp
    have idx: "(ucast (i div (512 div w)) :: u64) = of_nat (k div p)"
    proof -
      have "unat (i div (512 div w)) = k div p" using per ui by (simp add: unat_div)
      then show ?thesis by (metis of_nat_unat)
    qed
    obtain data where data: "read_sector d (lba + of_nat (k div p)) = Ok data"
      using assms(10) km by (auto simp: lba_def)
    have "\<forall>j < sectors. length (sector_bytes d (lba + of_nat j)) = 512"
      using assms(10) read_sector_whole(2) [OF assms(1)] by (fastforce simp: sector_bytes_def lba_def)
    then have "?raw i = take 128 (drop (k mod p * z) data)"
      using raw_entry_sector [of sectors d lba p z k] pz km data ui by (simp add: sector_bytes_def)
    then show ?thesis
      using data off idx le read_sector_whole(2) [OF assms(1) data] by simp
  qed
  have "gpt_entries d lba w (512 div w) (map of_nat [0..<n]) [] =
      Ok (take 8 ([] @ map gpt_entry (filter used_entry (map ?raw (map of_nat [0..<n])))))"
    by (rule gpt_entries_from) (use entry in auto)
  moreover have "map ?raw (map of_nat [0..<n]) = map (raw_entry (gpt_array d lba sectors) z) [0..<n]"
    using n(1) by (auto simp: unat_of_nat)
  ultimately have entries: "gpt_entries d lba w (512 div w) (map of_nat [0..<n]) [] =
      Ok (take 8 (map gpt_entry (filter used_entry (map (raw_entry (gpt_array d lba sectors) z) [0..<n]))))"
    by (simp only: append_Nil)
  have count: "unat (if 128 < rd32 header 80 then 128 else rd32 header 80) = n"
    using assms(8) by (auto simp: word_less_nat_alt)
  have size: "\<not> (w < 128 \<or> 512 < w)" using w by auto
  have "d \<noteq> None" using assms(2) by (cases d) (auto simp: read_sector_def block_read_def check_range_def)
  then show ?thesis
    unfolding lba_def [symmetric] z_def [symmetric] w_def [symmetric]
    using assms(2-6) per_nz entries size
    by (simp add: partition_table_read_def Let_def lba_def [symmetric] w_def [symmetric] count)
qed

text \<open>A disk with an empty entry and the EFI System Partition.\<close>

definition esp_entry :: "u8 list" where
  "esp_entry = k_esp_type_guid @ replicate 16 1 @ [0, 8, 0, 0, 0, 0, 0, 0, 0xFF, 0x0F, 0, 0, 0, 0, 0, 0] @ replicate 8 0 @
     [0x45, 0, 0x46, 0, 0x49, 0x20] @ replicate 66 0"

definition gpt_sector :: "u64 \<Rightarrow> u8 list" where
  "gpt_sector lba =
     (if lba = 0 then replicate 510 0 @ [0x55, 0xAA]
      else if lba = 1 then gpt_signature @ replicate 64 0 @ [2, 0, 0, 0, 0, 0, 0, 0, 4, 0, 0, 0, 128, 0, 0, 0] @ replicate 424 0
      else if lba = 2 then replicate 128 0 @ esp_entry @ replicate 256 0
      else replicate 512 0)"

definition gpt_disk :: "unit af_block_device" where
  "gpt_disk = \<lparr>dev_name = ''gpt'', sector_count = 8192, sector_size = 512,
     dev_read = Some (\<lambda>d lba n. Ok (concat (map (\<lambda>k. gpt_sector (lba + of_nat k)) [0..<unat n]))),
     dev_write = None, read_only = True, driver_data = ()\<rparr>"

lemma gpt_sector_length [simp]: "length (gpt_sector lba) = 512"
  by (simp add: gpt_sector_def gpt_signature_def esp_entry_def k_esp_type_guid_def)

lemma gpt_disk_whole: "whole_sectors (Some gpt_disk)"
proof -
  have "length (concat (map (\<lambda>k. gpt_sector (lba + of_nat k)) [0..<n])) = 512 * n" for lba n
    by (induction n) simp_all
  then show ?thesis
    by (auto simp: whole_sectors_def block_read_def check_range_def gpt_disk_def Let_def)
qed

lemma gpt_disk_read: "lba < 8192 \<Longrightarrow> read_sector (Some gpt_disk) lba = Ok (gpt_sector lba)"
  using inc_le [of lba 8192]
  by (simp add: read_sector_def block_read_def check_range_def gpt_disk_def Let_def not_less [symmetric] upt_rec)

theorem gpt_reads_array_witness:
  "andthen (partition_table_read (Some gpt_disk) True) (\<lambda>t. partition_find_esp (Some t) True) =
     Ok \<lparr>start_lba = 2048, part_sectors = 2048, part_name = [0x45, 0x46, 0x3F], type_guid = k_esp_type_guid\<rparr>"
proof -
  have header: "rd32 (gpt_sector 1) 84 = 128" "rd32 (gpt_sector 1) 80 = 4" "rd64 (gpt_sector 1) 72 = 2"
    by (simp_all add: gpt_sector_def gpt_signature_def rd32_def rd64_def nth_append)
  have sig: "take 8 (gpt_sector 1) = gpt_signature" by (simp add: gpt_sector_def gpt_signature_def)
  have mbr: "gpt_sector 0 ! 510 = 0x55" "gpt_sector 0 ! 511 = 0xAA"
    by (simp_all add: gpt_sector_def nth_append)
  have array: "gpt_array (Some gpt_disk) 2 1 = replicate 128 0 @ esp_entry @ replicate 256 0"
    by (simp add: gpt_array_def sector_bytes_def gpt_disk_read, simp add: gpt_sector_def)
  have len: "length esp_entry = 128" by (simp add: esp_entry_def k_esp_type_guid_def)
  have raws: "map (raw_entry (replicate 128 0 @ esp_entry @ replicate 256 0) 128) [0..<4] =
      [replicate 128 0, esp_entry, replicate 128 0, replicate 128 0]"
    by (simp add: raw_entry_def upt_rec len)
  have unused: "\<not> used_entry (replicate 128 0)" by (auto simp: used_entry_def)
  have used: "used_entry esp_entry"
    unfolding used_entry_def by (rule bexI [of _ 0]) (simp_all add: esp_entry_def k_esp_type_guid_def)
  have "partition_table_read (Some gpt_disk) True = Ok \<lparr>pt_entries = [gpt_entry esp_entry], is_gpt = True\<rparr>"
  proof -
    have reads: "read_sector (Some gpt_disk) 0 = Ok (gpt_sector 0)" "read_sector (Some gpt_disk) 1 = Ok (gpt_sector 1)"
      by (simp_all add: gpt_disk_read)
    have "128 \<in> {128 :: u32, 256, 512}" "(4 :: nat) = min 128 (unat (4 :: u32))" "4 * unat (128 :: u32) \<le> 512 * 1"
        "\<forall>k < (1 :: nat). \<exists>data. read_sector (Some gpt_disk) (2 + of_nat k) = Ok data"
      by (simp_all add: gpt_disk_read)
    note * = gpt_reads_array [OF gpt_disk_whole reads(1) mbr reads(2) sig, unfolded header, OF this, unfolded array]
    show ?thesis unfolding * using raws unused used by simp
  qed
  moreover have "gpt_entry esp_entry = \<lparr>start_lba = 2048, part_sectors = 2048, part_name = [0x45, 0x46, 0x3F], type_guid = k_esp_type_guid\<rparr>"
  proof -
    have up: "[0..<36] = 0 # 1 # 2 # 3 # [4..<36]" by (simp add: upt_rec [of _ 36])
    have lba: "rd64 esp_entry 32 = 2048" "rd64 esp_entry 40 = 4095" "take 16 esp_entry = k_esp_type_guid"
      by (simp_all add: esp_entry_def k_esp_type_guid_def rd64_def rd32_def nth_append)
    have "drop 56 esp_entry = [0x45, 0, 0x46, 0, 0x49, 0x20] @ replicate 66 0"
      by (simp add: esp_entry_def k_esp_type_guid_def)
    then have "gpt_name (drop 56 esp_entry) [0..<36] = [0x45, 0x46, 0x3F]"
      unfolding up by (simp add: rd16_def nth_append)
    then show ?thesis by (simp add: gpt_entry_def lba)
  qed
  ultimately show ?thesis by (simp add: partition_find_esp_def)
qed

end
