(* ===== verification/Fat32.thy ===== *)
theory Fat32
  imports Block
begin

text \<open>
  The FAT32 reader (\<open>kernel/fs/fat32.c\<close>): mount, the cluster chain, directory iteration with long
  names, path lookup, and the table of open files. Everything is read through the block layer; the
  volume keeps the device it was mounted from. Buffers are the bytes the device delivered, so a read
  past them is a \<open>Fault\<close>. Strings are the bytes before the terminator.
\<close>

section \<open>Volumes\<close>

record 'd fat32_volume =
  dev :: "'d af_block_device option"
  partition_start :: u64
  bytes_per_sector :: u32
  sectors_per_cluster :: u32
  reserved_sectors :: u32
  num_fats :: u32
  fat_sectors :: u32
  root_cluster :: u32
  bytes_per_cluster :: u32
  fat_start_lba :: u64
  data_start_lba :: u64
  cluster_count :: u32
  mounted :: bool

record fat32_entry =
  first_cluster :: u32
  file_bytes :: u32
  is_directory :: bool
  entry_name :: "u8 list"

abbreviation (input) "AF_NAME_MAX \<equiv> (256 :: nat)"
abbreviation (input) "AF_FAT_MAX_OPEN \<equiv> (16 :: nat)"
abbreviation (input) "FAT32_ATTR_VOLUME_ID \<equiv> (0x08 :: u8)"
abbreviation (input) "FAT32_ATTR_DIRECTORY \<equiv> (0x10 :: u8)"
abbreviation (input) "FAT32_ATTR_LONG_NAME \<equiv> (0x0F :: u8)"
abbreviation (input) "FAT32_EOC \<equiv> (0x0FFFFFF8 :: u32)"
abbreviation (input) "CLUSTER_BUFFER \<equiv> (65536 :: u32)"

definition is_power_of_two :: "u32 \<Rightarrow> bool" where
  "is_power_of_two v \<longleftrightarrow> v \<noteq> 0 \<and> v AND (v - 1) = 0"

definition zero_volume :: "'d fat32_volume" where
  "zero_volume = \<lparr>dev = None, partition_start = 0, bytes_per_sector = 0, sectors_per_cluster = 0,
     reserved_sectors = 0, num_fats = 0, fat_sectors = 0, root_cluster = 0, bytes_per_cluster = 0,
     fat_start_lba = 0, data_start_lba = 0, cluster_count = 0, mounted = False\<rparr>"

text \<open>The fields taken from the boot sector, and the tests they must pass, in the order of the code.\<close>

definition bpb_fields :: "u8 list \<Rightarrow> 'd fat32_volume \<Rightarrow> 'd fat32_volume" where
  "bpb_fields bpb vol = vol\<lparr>bytes_per_sector := rd16 bpb 11, sectors_per_cluster := ucast (bpb ! 13),
     reserved_sectors := rd16 bpb 14, num_fats := ucast (bpb ! 16), fat_sectors := rd32 bpb 36,
     root_cluster := rd32 bpb 44\<rparr>"

definition bpb_fields_ok :: "'d fat32_volume \<Rightarrow> bool" where
  "bpb_fields_ok vol \<longleftrightarrow>
     bytes_per_sector vol \<in> {512, 1024, 2048, 4096} \<and>
     is_power_of_two (sectors_per_cluster vol) \<and> sectors_per_cluster vol \<le> 128 \<and>
     reserved_sectors vol \<noteq> 0 \<and>
     num_fats vol \<noteq> 0 \<and> num_fats vol \<le> 4 \<and>
     fat_sectors vol \<noteq> 0 \<and>
     2 \<le> root_cluster vol"

definition derived_fields :: "af_partition \<Rightarrow> 'd fat32_volume \<Rightarrow> 'd fat32_volume" where
  "derived_fields part vol =
     (let fat_start = start_lba part + ucast (reserved_sectors vol);
          fats = ucast (num_fats vol) * ucast (fat_sectors vol);
          data_sectors = part_sectors part - ucast (reserved_sectors vol) - fats
      in vol\<lparr>bytes_per_cluster := bytes_per_sector vol * sectors_per_cluster vol,
             fat_start_lba := fat_start, data_start_lba := fat_start + fats,
             cluster_count := ucast (data_sectors div ucast (sectors_per_cluster vol))\<rparr>)"

definition fat32_mount ::
  "'d fat32_volume option \<Rightarrow> 'd af_block_device option \<Rightarrow> af_partition option \<Rightarrow>
   'd fat32_volume option \<times> unit outcome" where
  "fat32_mount vol device part =
     (if vol = None \<or> device = None \<or> part = None then (vol, Fail AF_ERR_INVAL)
      else
        let v0 = zero_volume\<lparr>dev := device, partition_start := start_lba (the part)\<rparr> in
        case read_sector device (start_lba (the part)) of
          Fail e \<Rightarrow> (Some v0, Fail e)
        | Fault \<Rightarrow> (Some v0, Fault)
        | Ok bpb \<Rightarrow>
            if bpb ! 510 \<noteq> 0x55 \<or> bpb ! 511 \<noteq> 0xAA then (Some v0, Fail AF_ERR_FS_CORRUPT)
            else let v1 = bpb_fields bpb v0 in
              if \<not> bpb_fields_ok v1 then (Some v1, Fail AF_ERR_FS_CORRUPT)
              else let v2 = derived_fields (the part) v1 in
                if cluster_count v2 < 65525 then (Some v2, Fail AF_ERR_FS_CORRUPT)
                else (Some (v2\<lparr>mounted := True\<rparr>), Ok ()))"

section \<open>Clusters\<close>

definition cluster_to_lba :: "'d fat32_volume \<Rightarrow> u32 \<Rightarrow> u64" where
  "cluster_to_lba vol cluster = data_start_lba vol + ucast (cluster - 2) * ucast (sectors_per_cluster vol)"

text \<open>The sector buffer holds 512 bytes whatever \<open>bytes_per_sector\<close> says.\<close>

definition fat_next_cluster :: "'d fat32_volume \<Rightarrow> u32 \<Rightarrow> u32 outcome" where
  "fat_next_cluster vol cluster =
     (let fat_offset = ucast cluster * 4 :: u64;
          sector = fat_start_lba vol + fat_offset div ucast (bytes_per_sector vol);
          offset = unat (ucast (fat_offset mod ucast (bytes_per_sector vol)) :: u32)
      in case read_sector (dev vol) sector of
           Fail e \<Rightarrow> Ok FAT32_EOC
         | Fault \<Rightarrow> Fault
         | Ok sector_data \<Rightarrow>
             if length sector_data < offset + 4 then Fault
             else Ok (rd32 sector_data offset AND 0x0FFFFFFF))"

definition read_cluster :: "'d fat32_volume \<Rightarrow> u32 \<Rightarrow> u8 list outcome" where
  "read_cluster vol cluster =
     (if cluster < 2 \<or> cluster_count vol + 2 \<le> cluster then Fail AF_ERR_FS_CORRUPT
      else block_read (dev vol) (cluster_to_lba vol cluster) (sectors_per_cluster vol))"

text \<open>The loop condition of every chain walk.\<close>

definition in_chain :: "u32 \<Rightarrow> bool" where
  "in_chain cluster \<longleftrightarrow> 2 \<le> cluster \<and> cluster < FAT32_EOC"

section \<open>Directories\<close>

definition short_name_checksum :: "u8 list \<Rightarrow> u8" where
  "short_name_checksum short_name =
     foldl (\<lambda>sum c. push_bit 7 (sum AND 1) + drop_bit 1 sum + c) 0 (take 11 short_name)"

text \<open>What the scan carries from entry to entry: the visible entries passed, and the long name so far.\<close>

record scan_state =
  found :: u32
  lfn :: "u8 list"
  lfn_checksum :: u8
  have_lfn :: bool

definition scan_start :: scan_state where
  "scan_start = \<lparr>found = 0, lfn = [], lfn_checksum = 0, have_lfn = False\<rparr>"

definition drop_lfn :: "scan_state \<Rightarrow> scan_state" where
  "drop_lfn s = s\<lparr>have_lfn := False, lfn := []\<rparr>"

definition unit_pos :: "nat \<Rightarrow> nat" where
  "unit_pos u = (if u < 5 then 1 + u * 2 else if u < 11 then 14 + (u - 5) * 2 else 28 + (u - 11) * 2)"

text \<open>The fragment loop over the code units \<open>us\<close> still to be read.\<close>

fun lfn_fragment :: "u8 list \<Rightarrow> nat list \<Rightarrow> u8 list" where
  "lfn_fragment e [] = []"
| "lfn_fragment e (u # us) =
     (let unit = rd16 e (unit_pos u) in
      if unit = 0 \<or> unit = 0xFFFF then []
      else (if unit < 128 then ucast unit else 0x3F) # lfn_fragment e us)"

definition take_fragment :: "u8 list \<Rightarrow> scan_state \<Rightarrow> scan_state" where
  "take_fragment e s =
     (let ordinal = e ! 0 AND 0x1F in
      if ordinal = 0 \<or> 20 < ordinal then drop_lfn s
      else let fragment = lfn_fragment e [0..<13] in
        if length fragment + length (lfn s) + 1 < AF_NAME_MAX
        then s\<lparr>lfn := fragment @ lfn s, lfn_checksum := e ! 13, have_lfn := True\<rparr>
        else s)"

definition short_name :: "u8 list \<Rightarrow> u8 list" where
  "short_name e =
     (let base = takeWhile (\<lambda>c. c \<noteq> 0x20) (take 8 e);
          ext = takeWhile (\<lambda>c. c \<noteq> 0x20) (take 3 (drop 8 e))
      in if cstr ext \<noteq> [] then cstr base @ [0x2E] @ cstr ext else cstr base)"

definition decode_entry :: "u8 list \<Rightarrow> scan_state \<Rightarrow> fat32_entry" where
  "decode_entry e s = \<lparr>
     first_cluster = push_bit 16 (rd16 e 20) OR rd16 e 26,
     file_bytes = rd32 e 28,
     is_directory = (e ! 11 AND FAT32_ATTR_DIRECTORY \<noteq> 0),
     entry_name =
       (if e ! 0 = 0x2E then (if e ! 1 = 0x2E then [0x2E, 0x2E] else [0x2E])
        else if have_lfn s \<and> lfn_checksum s = short_name_checksum e then lfn s
        else short_name e)\<rparr>"

text \<open>One pass of the inner loop: it returns, or goes on with the next entry.\<close>

datatype scan = Return "fat32_entry outcome" | Go scan_state

definition scan_entry :: "u8 list \<Rightarrow> u32 \<Rightarrow> scan_state \<Rightarrow> scan" where
  "scan_entry e index s =
     (if e ! 0 = 0 then Return (Fail AF_ERR_NOENT)
      else if e ! 0 = 0xE5 then Go (drop_lfn s)
      else if e ! 11 = FAT32_ATTR_LONG_NAME then Go (take_fragment e s)
      else if e ! 11 AND FAT32_ATTR_VOLUME_ID \<noteq> 0 \<and> e ! 11 AND FAT32_ATTR_DIRECTORY = 0 then Go s
      else if found s = index then Return (Ok (decode_entry e s))
      else Go (drop_lfn (s\<lparr>found := found s + 1\<rparr>)))"

fun scan_cluster :: "u8 list \<Rightarrow> nat list \<Rightarrow> u32 \<Rightarrow> scan_state \<Rightarrow> scan" where
  "scan_cluster data [] index s = Go s"
| "scan_cluster data (offset # os) index s =
     (if length data < offset + 32 then Return Fault
      else case scan_entry (take 32 (drop offset data)) index s of
             Return r \<Rightarrow> Return r
           | Go s' \<Rightarrow> scan_cluster data os index s')"

definition entry_offsets :: "'d fat32_volume \<Rightarrow> nat list" where
  "entry_offsets vol = map (\<lambda>k. 32 * k) [0..<(unat (bytes_per_cluster vol) + 31) div 32]"

text \<open>
  The outer loop. The first argument is what is left of the guard: \<open>cluster_count\<close> clusters may be
  read before the chain is taken to be cyclic.
\<close>

fun readdir_walk :: "nat \<Rightarrow> 'd fat32_volume \<Rightarrow> u32 \<Rightarrow> u32 \<Rightarrow> scan_state \<Rightarrow> fat32_entry outcome" where
  "readdir_walk left vol cluster index s =
     (if \<not> in_chain cluster then Fail AF_ERR_NOENT
      else case left of
        0 \<Rightarrow> Fail AF_ERR_FS_CORRUPT
      | Suc left' \<Rightarrow>
          andthen (read_cluster vol cluster) (\<lambda>data.
            case scan_cluster data (entry_offsets vol) index s of
              Return r \<Rightarrow> r
            | Go s' \<Rightarrow> andthen (fat_next_cluster vol cluster) (\<lambda>next_cluster.
                readdir_walk left' vol next_cluster index s')))"

declare readdir_walk.simps [simp del]

definition fat32_readdir :: "'d fat32_volume option \<Rightarrow> u32 \<Rightarrow> u32 \<Rightarrow> bool \<Rightarrow> fat32_entry outcome" where
  "fat32_readdir volume dir_cluster index out_given =
     (case volume of
        None \<Rightarrow> Fail AF_ERR_INVAL
      | Some vol \<Rightarrow>
          if \<not> mounted vol \<or> \<not> out_given then Fail AF_ERR_INVAL
          else if CLUSTER_BUFFER < bytes_per_cluster vol then Fail AF_ERR_NOTSUP
          else readdir_walk (unat (cluster_count vol)) vol dir_cluster index scan_start)"

section \<open>Paths\<close>

definition is_separator :: "u8 \<Rightarrow> bool" where
  "is_separator c \<longleftrightarrow> c = 0x2F \<or> c = 0x5C"

definition skip_separators :: "u8 list \<Rightarrow> u8 list" where
  "skip_separators cursor = dropWhile is_separator cursor"

definition path_component :: "u8 list \<Rightarrow> u8 list" where
  "path_component cursor = take (AF_NAME_MAX - 1) (takeWhile (\<lambda>c. \<not> is_separator c) cursor)"

definition after_component :: "u8 list \<Rightarrow> u8 list" where
  "after_component cursor = skip_separators (dropWhile (\<lambda>c. \<not> is_separator c) cursor)"

definition upper :: "u8 \<Rightarrow> u8" where
  "upper c = (if 0x61 \<le> c \<and> c \<le> 0x7A then c - 32 else c)"

definition name_matches :: "u8 list \<Rightarrow> u8 list \<Rightarrow> bool" where
  "name_matches a b \<longleftrightarrow> a = b \<or> (length a = length b \<and> list_all2 (\<lambda>x y. upper x = upper y) a b)"

text \<open>
  The search loop has no bound of its own: it ends when \<open>fat32_readdir\<close> runs out of entries.
  \<open>None\<close> is a search that never ends; \<open>Ok None\<close> one that finds nothing.
\<close>

partial_function (option) search_dir ::
  "'d fat32_volume \<Rightarrow> u32 \<Rightarrow> u8 list \<Rightarrow> u32 \<Rightarrow> fat32_entry option outcome option" where
  "search_dir vol cluster component i =
     (case fat32_readdir (Some vol) cluster i True of
        Fault \<Rightarrow> Some Fault
      | Fail e \<Rightarrow> if e = AF_ERR_NOENT then Some (Ok None) else Some (Fail e)
      | Ok entry \<Rightarrow>
          if name_matches (entry_name entry) component then Some (Ok (Some entry))
          else search_dir vol cluster component (i + 1))"

lemma after_component_shorter: "path_component cursor \<noteq> [] \<Longrightarrow> length (after_component cursor) < length cursor"
  unfolding path_component_def after_component_def skip_separators_def
  by (cases cursor) (auto intro: le_less_trans [OF length_dropWhile_le] split: if_splits
      simp: less_Suc_eq_le le_trans [OF length_dropWhile_le length_dropWhile_le])

function lookup_walk ::
  "'d fat32_volume \<Rightarrow> u32 \<Rightarrow> u8 list \<Rightarrow> nat \<Rightarrow> fat32_entry outcome option" where
  "lookup_walk vol cluster cursor guard =
     (if cursor = [] then Some (Fail AF_ERR_NOENT)
      else let component = path_component cursor;
               cursor' = after_component cursor
        in if component = [] then Some (Fail AF_ERR_NOENT)
           else case search_dir vol cluster component 0 of
               None \<Rightarrow> None
             | Some Fault \<Rightarrow> Some Fault
             | Some (Fail e) \<Rightarrow> Some (Fail e)
             | Some (Ok None) \<Rightarrow> Some (Fail AF_ERR_NOENT)
             | Some (Ok (Some entry)) \<Rightarrow>
                 if cursor' = [] then Some (Ok entry)
                 else if \<not> is_directory entry then Some (Fail AF_ERR_NOTDIR)
                 else if 32 < guard + 1 then Some (Fail AF_ERR_INVAL)
                 else lookup_walk vol (first_cluster entry) cursor' (guard + 1))"
  by pat_completeness auto
termination
  by (relation "measure (\<lambda>(vol, cluster, cursor, guard). length cursor)") (auto simp: after_component_shorter)

declare lookup_walk.simps [simp del]

definition fat32_lookup :: "'d fat32_volume option \<Rightarrow> u8 list option \<Rightarrow> bool \<Rightarrow> fat32_entry outcome option" where
  "fat32_lookup volume path out_given =
     (case (volume, path) of
        (Some vol, Some p) \<Rightarrow>
          if \<not> mounted vol \<or> \<not> out_given then Some (Fail AF_ERR_INVAL)
          else let cursor = skip_separators (cstr p) in
            if cursor = []
            then Some (Ok \<lparr>first_cluster = root_cluster vol, file_bytes = 0, is_directory = True, entry_name = [0x2F]\<rparr>)
            else lookup_walk vol (root_cluster vol) cursor 0
      | _ \<Rightarrow> Some (Fail AF_ERR_INVAL))"

section \<open>Open files\<close>

text \<open>
  A volume is a structure of the caller, so a file refers to it by its address; the table of open
  files is static.
\<close>

record fat32_file =
  in_use :: bool
  volume :: nat
  entry :: fat32_entry
  offset :: u32

record 'd fat32_state =
  volumes :: "nat \<Rightarrow> 'd fat32_volume"
  s_open_files :: "fat32_file list"

definition fat32_open ::
  "'d fat32_state \<Rightarrow> nat option \<Rightarrow> u8 list option \<Rightarrow> bool \<Rightarrow> ('d fat32_state \<times> nat outcome) option" where
  "fat32_open s vol path out_given =
     (if \<not> out_given then Some (s, Fail AF_ERR_INVAL)
      else case fat32_lookup (map_option (volumes s) vol) path True of
          None \<Rightarrow> None
        | Some Fault \<Rightarrow> Some (s, Fault)
        | Some (Fail e) \<Rightarrow> Some (s, Fail e)
        | Some (Ok ent) \<Rightarrow>
            if is_directory ent then Some (s, Fail AF_ERR_ISDIR)
            else case find (\<lambda>i. \<not> in_use (s_open_files s ! i)) [0..<AF_FAT_MAX_OPEN] of
                None \<Rightarrow> Some (s, Fail AF_ERR_TOOMANY)
              | Some i \<Rightarrow>
                  Some (s\<lparr>s_open_files := (s_open_files s)[i :=
                      \<lparr>in_use = True, volume = the vol, entry = ent, offset = 0\<rparr>]\<rparr>, Ok i))"

text \<open>The two loops of \<open>fat32_read\<close>: whole clusters skipped, then clusters copied.\<close>

fun skip_clusters :: "'d fat32_volume \<Rightarrow> nat \<Rightarrow> u32 \<Rightarrow> u32 outcome" where
  "skip_clusters vol 0 cluster = Ok cluster"
| "skip_clusters vol (Suc n) cluster =
     (if \<not> in_chain cluster then Fail AF_ERR_FS_CORRUPT
      else andthen (fat_next_cluster vol cluster) (skip_clusters vol n))"

text \<open>
  \<open>todo\<close> is \<open>bytes - done\<close> and \<open>left\<close> what remains of the guard. The bytes copied are returned beside
  the outcome: on an error they are in the caller's buffer all the same.
\<close>

fun copy_clusters :: "nat \<Rightarrow> 'd fat32_volume \<Rightarrow> u32 \<Rightarrow> nat \<Rightarrow> nat \<Rightarrow> u8 list \<times> unit outcome" where
  "copy_clusters left vol cluster within todo =
     (if todo = 0 then ([], Ok ())
      else if \<not> in_chain cluster then ([], Fail AF_ERR_FS_CORRUPT)
      else case left of
        0 \<Rightarrow> ([], Fail AF_ERR_FS_CORRUPT)
      | Suc left' \<Rightarrow>
          (case read_cluster vol cluster of
             Fault \<Rightarrow> ([], Fault)
           | Fail e \<Rightarrow> ([], Fail e)
           | Ok cluster_data \<Rightarrow>
               let available = unat (bytes_per_cluster vol) - within;
                   n = (if available < todo then available else todo)
               in if length cluster_data < within + n then ([], Fault)
                  else let piece = take n (drop within cluster_data)
                    in if n < todo
                       then (case fat_next_cluster vol cluster of
                               Fault \<Rightarrow> (piece, Fault)
                             | Fail e \<Rightarrow> (piece, Fail e)
                             | Ok next_cluster \<Rightarrow>
                                 let (rest, r) = copy_clusters left' vol next_cluster 0 (todo - n)
                                 in (piece @ rest, r))
                       else (piece, Ok ())))"

declare copy_clusters.simps [simp del]

text \<open>
  The result is what lands in the buffer, the status, and the state; \<open>*bytes_read\<close> is the number of
  bytes delivered on success and 0 otherwise. A zero \<open>bytes_per_cluster\<close>, of a volume that is not
  mounted, divides by zero.
\<close>

definition fat32_read ::
  "'d fat32_state \<Rightarrow> nat option \<Rightarrow> bool \<Rightarrow> u32 \<Rightarrow> u8 list \<times> unit outcome \<times> 'd fat32_state" where
  "fat32_read s file buffer_given bytes =
     (case file of
        None \<Rightarrow> ([], Fail AF_ERR_INVAL, s)
      | Some h \<Rightarrow>
          let f = s_open_files s ! h in
          if \<not> in_use f \<or> \<not> buffer_given then ([], Fail AF_ERR_INVAL, s)
          else let vol = volumes s (volume f) in
            if file_bytes (entry f) \<le> offset f then ([], Ok (), s)
            else let remaining = file_bytes (entry f) - offset f;
                     count = (if remaining < bytes then remaining else bytes)
              in if bytes_per_cluster vol = 0 then ([], Fault, s)
                 else let skip = offset f div bytes_per_cluster vol;
                          within = offset f mod bytes_per_cluster vol
                   in case skip_clusters vol (unat skip) (first_cluster (entry f)) of
                        Fault \<Rightarrow> ([], Fault, s)
                      | Fail e \<Rightarrow> ([], Fail e, s)
                      | Ok cluster \<Rightarrow>
                          let (data, r) = copy_clusters (unat (cluster_count vol)) vol cluster (unat within) (unat count)
                          in if r = Ok ()
                             then (data, Ok (), s\<lparr>s_open_files := (s_open_files s)[h := f\<lparr>offset := offset f + of_nat (length data)\<rparr>]\<rparr>)
                             else (data, r, s))"

definition fat32_close :: "'d fat32_state \<Rightarrow> nat option \<Rightarrow> 'd fat32_state \<times> af_status" where
  "fat32_close s file =
     (case file of
        None \<Rightarrow> (s, AF_ERR_INVAL)
      | Some h \<Rightarrow>
          if \<not> in_use (s_open_files s ! h) then (s, AF_ERR_INVAL)
          else (s\<lparr>s_open_files := (s_open_files s)[h := (s_open_files s ! h)\<lparr>in_use := False\<rparr>]\<rparr>, AF_OK))"

text \<open>On success the bytes are the whole of \<open>*bytes_read\<close>.\<close>

definition fat32_read_file ::
  "'d fat32_state \<Rightarrow> nat option \<Rightarrow> u8 list option \<Rightarrow> u32 \<Rightarrow> (u8 list \<times> unit outcome \<times> 'd fat32_state) option" where
  "fat32_read_file s vol path buffer_size =
     (case fat32_lookup (map_option (volumes s) vol) path True of
        None \<Rightarrow> None
      | Some Fault \<Rightarrow> Some ([], Fault, s)
      | Some (Fail e) \<Rightarrow> Some ([], Fail e, s)
      | Some (Ok ent) \<Rightarrow>
          if is_directory ent then Some ([], Fail AF_ERR_ISDIR, s)
          else if buffer_size < file_bytes ent then Some ([], Fail AF_ERR_OVERFLOW, s)
          else case fat32_open s vol path True of
              None \<Rightarrow> None
            | Some (s', Fault) \<Rightarrow> Some ([], Fault, s')
            | Some (s', Fail e) \<Rightarrow> Some ([], Fail e, s')
            | Some (s1, Ok h) \<Rightarrow>
                (case fat32_read s1 (Some h) True (file_bytes ent) of
                   (data, Fault, s2) \<Rightarrow> Some (data, Fault, s2)
                 | (data, r, s2) \<Rightarrow>
                     let s3 = fst (fat32_close s2 (Some h)) in
                     if r \<noteq> Ok () then Some (data, r, s3)
                     else if of_nat (length data) \<noteq> file_bytes ent then Some (data, Fail AF_ERR_IO, s3)
                     else Some (data, Ok (), s3)))"

section \<open>The directory as a list\<close>

text \<open>
  The reference: one pass over the directory that lists every visible entry, and how it ends. \<open>Inl\<close>
  is an end, \<open>Inr\<close> the state in which the next cluster is entered.
\<close>

definition visible :: "u8 list \<Rightarrow> bool" where
  "visible e \<longleftrightarrow> e ! 0 \<noteq> 0 \<and> e ! 0 \<noteq> 0xE5 \<and> e ! 11 \<noteq> FAT32_ATTR_LONG_NAME \<and>
     (e ! 11 AND FAT32_ATTR_VOLUME_ID = 0 \<or> e ! 11 AND FAT32_ATTR_DIRECTORY \<noteq> 0)"

definition pass_entry :: "u8 list \<Rightarrow> scan_state \<Rightarrow> scan_state" where
  "pass_entry e s =
     (if e ! 0 = 0xE5 then drop_lfn s
      else if e ! 11 = FAT32_ATTR_LONG_NAME then take_fragment e s
      else if visible e then drop_lfn s else s)"

fun list_cluster :: "u8 list \<Rightarrow> nat list \<Rightarrow> scan_state \<Rightarrow> fat32_entry list \<times> (fat32_entry outcome + scan_state)" where
  "list_cluster data [] s = ([], Inr s)"
| "list_cluster data (off # os) s =
     (if length data < off + 32 then ([], Inl Fault)
      else let e = take 32 (drop off data) in
        if e ! 0 = 0 then ([], Inl (Fail AF_ERR_NOENT))
        else let (es, r) = list_cluster data os (pass_entry e s)
          in (if visible e then decode_entry e s # es else es, r))"

fun list_dir :: "nat \<Rightarrow> 'd fat32_volume \<Rightarrow> u32 \<Rightarrow> scan_state \<Rightarrow> fat32_entry list \<times> fat32_entry outcome" where
  "list_dir left vol cluster s =
     (if \<not> in_chain cluster then ([], Fail AF_ERR_NOENT)
      else case left of
        0 \<Rightarrow> ([], Fail AF_ERR_FS_CORRUPT)
      | Suc left' \<Rightarrow>
          (case read_cluster vol cluster of
             Fault \<Rightarrow> ([], Fault)
           | Fail e \<Rightarrow> ([], Fail e)
           | Ok data \<Rightarrow>
               (case list_cluster data (entry_offsets vol) s of
                  (es, Inl r) \<Rightarrow> (es, r)
                | (es, Inr s') \<Rightarrow>
                    (case fat_next_cluster vol cluster of
                       Fault \<Rightarrow> (es, Fault)
                     | Fail e \<Rightarrow> (es, Fail e)
                     | Ok next_cluster \<Rightarrow>
                         let (es', r) = list_dir left' vol next_cluster s' in (es @ es', r)))))"

declare list_dir.simps [simp del]

definition listing :: "'d fat32_volume \<Rightarrow> u32 \<Rightarrow> fat32_entry list \<times> fat32_entry outcome" where
  "listing vol cluster = list_dir (unat (cluster_count vol)) vol cluster scan_start"

lemma scan_entry_pass:
  "e ! 0 \<noteq> 0 \<Longrightarrow> scan_entry e index s =
     (if visible e then (if found s = index then Return (Ok (decode_entry e s))
        else Go ((pass_entry e s)\<lparr>found := found s + 1\<rparr>)) else Go (pass_entry e s))"
  by (auto simp: scan_entry_def visible_def pass_entry_def drop_lfn_def)

lemma scan_irrelevant_found [simp]:
  "decode_entry e (s\<lparr>found := n\<rparr>) = decode_entry e s"
  "pass_entry e (s\<lparr>found := n\<rparr>) = (pass_entry e s)\<lparr>found := n\<rparr>"
  "found (pass_entry e s) = found s"
  by (simp_all add: decode_entry_def pass_entry_def drop_lfn_def take_fragment_def Let_def)

lemma list_cluster_found:
  "list_cluster data os (s\<lparr>found := n\<rparr>) =
     (case list_cluster data os s of (es, Inl r) \<Rightarrow> (es, Inl r) | (es, Inr s') \<Rightarrow> (es, Inr (s'\<lparr>found := n\<rparr>)))"
  by (induction data os s rule: list_cluster.induct)
     (auto simp: Let_def split: prod.splits sum.splits)

lemma list_cluster_keeps_found: "list_cluster data os s = (es, Inr s') \<Longrightarrow> found s' = found s"
  by (induction data os s arbitrary: es rule: list_cluster.induct)
     (auto simp: Let_def split: prod.splits sum.splits if_splits)

lemma list_cluster_length: "list_cluster data os s = (es, r) \<Longrightarrow> length es \<le> length os"
proof (induction os arbitrary: s es)
  case (Cons off os)
  then show ?case
    by (fastforce simp: Let_def split: prod.splits if_splits)
qed simp

lemma list_dir_length: "list_dir left vol cluster s = (es, r) \<Longrightarrow> length es \<le> left * length (entry_offsets vol)"
proof (induction left arbitrary: cluster s es)
  case 0
  then show ?case by (auto simp: list_dir.simps split: if_splits)
next
  case (Suc left)
  have part: "length xs \<le> length (entry_offsets vol)" if "list_cluster d (entry_offsets vol) t = (xs, q)" for d t xs q
    using list_cluster_length [OF that] .
  from Suc.prems show ?case
    by (subst (asm) list_dir.simps)
      (auto simp: trans_le_add1 part intro!: add_mono Suc.IH split: prod.splits sum.splits outcome.splits if_splits)
qed

lemma list_dir_found: "list_dir left vol cluster (s\<lparr>found := n\<rparr>) = list_dir left vol cluster s"
proof (induction left arbitrary: cluster s)
  case (Suc left)
  then show ?case
    by (subst (1 2) list_dir.simps) (auto simp: list_cluster_found split: prod.splits sum.splits outcome.splits)
qed (simp add: list_dir.simps)

text \<open>Scanning for an index is indexing the list.\<close>

lemma scan_cluster_lists:
  assumes "list_cluster data os s = (es, r)" "unat (found s) + length es < 2 ^ 32" "found s \<le> index"
  shows "scan_cluster data os index s =
     (let k = unat index - unat (found s) in
      if k < length es then Return (Ok (es ! k))
      else case r of Inl x \<Rightarrow> Return x | Inr s' \<Rightarrow> Go (s'\<lparr>found := found s + of_nat (length es)\<rparr>))"
  using assms
proof (induction os arbitrary: s es r)
  case Nil
  then show ?case by auto
next
  case (Cons off os)
  let ?e = "take 32 (drop off data)"
  let ?p = "pass_entry ?e s"
  consider "length data < off + 32" | "\<not> length data < off + 32" "?e ! 0 = 0"
    | "\<not> length data < off + 32" "?e ! 0 \<noteq> 0" by blast
  then show ?case
  proof cases
    case 3
    obtain es1 where l: "list_cluster data os ?p = (es1, r)"
        and es: "es = (if visible ?e then decode_entry ?e s # es1 else es1)"
      using Cons.prems(1) 3 by (auto simp: Let_def split: prod.splits if_splits)
    show ?thesis
    proof (cases "visible ?e")
      case False
      have "scan_cluster data os index ?p =
         (let k = unat index - unat (found ?p) in
          if k < length es1 then Return (Ok (es1 ! k))
          else case r of Inl x \<Rightarrow> Return x | Inr s' \<Rightarrow> Go (s'\<lparr>found := found ?p + of_nat (length es1)\<rparr>))"
        by (rule Cons.IH [OF l]) (use Cons.prems es False in auto)
      then show ?thesis
        using 3 False es by (simp add: scan_entry_pass Let_def split: sum.splits)
    next
      case vis: True
      show ?thesis
      proof (cases "found s = index")
        case True
        then show ?thesis using 3 vis es by (simp add: scan_entry_pass)
      next
        case False
        let ?q = "?p\<lparr>found := found s + 1\<rparr>"
        define r' where "r' = (case r of Inl x \<Rightarrow> Inl x | Inr s' \<Rightarrow> Inr (s'\<lparr>found := found s + 1\<rparr>))"
        have lq: "list_cluster data os ?q = (es1, r')"
          using l by (auto simp: list_cluster_found r'_def split: sum.splits)
        have less: "unat (found s) < unat index"
          using False Cons.prems(3) by (metis order_le_neq_trans word_less_nat_alt)
        then have suc: "unat (found s + 1) = Suc (unat (found s))"
          by (intro unat_Suc_word) (use unat_bound [of index] in simp)
        have "scan_cluster data os index ?q =
           (let k = unat index - unat (found ?q) in
            if k < length es1 then Return (Ok (es1 ! k))
            else case r' of Inl x \<Rightarrow> Return x | Inr s' \<Rightarrow> Go (s'\<lparr>found := found ?q + of_nat (length es1)\<rparr>))"
          by (rule Cons.IH [OF lq]) (use Cons.prems(2) es vis less suc in \<open>auto simp: word_le_nat_alt\<close>)
        then show ?thesis
          using 3 vis es less False
          by (auto simp: scan_entry_pass suc suc [unfolded add.commute [of _ 1]] Let_def nth_Cons' r'_def ac_simps split: sum.splits)
      qed
    qed
  qed (use Cons.prems in \<open>auto simp: scan_entry_def\<close>)
qed


lemma readdir_walk_lists:
  assumes "list_dir left vol cluster s = (es, r)" "unat (found s) + length es < 2 ^ 32" "found s \<le> index"
  shows "readdir_walk left vol cluster index s =
     (let k = unat index - unat (found s) in if k < length es then Ok (es ! k) else r)"
  using assms
proof (induction left arbitrary: cluster s es r)
  case 0
  then show ?case by (auto simp: list_dir.simps readdir_walk.simps split: if_splits)
next
  case (Suc left)
  show ?case
  proof (cases "in_chain cluster")
    case in_chain: True
    show ?thesis
    proof (cases "read_cluster vol cluster")
      case (Ok data)
      obtain es1 q where l: "list_cluster data (entry_offsets vol) s = (es1, q)" by fastforce
      have le: "unat (found s) + length es1 < 2 ^ 32"
        using Suc.prems(1,2) in_chain Ok l
        by (auto simp: list_dir.simps split: sum.splits outcome.splits prod.splits)
      note scan = scan_cluster_lists [OF l le Suc.prems(3)]
      show ?thesis
      proof (cases q)
        case (Inl x)
        then show ?thesis
          using Suc.prems(1) in_chain Ok l scan
          by (auto simp: list_dir.simps readdir_walk.simps Let_def)
      next
        case (Inr s')
        note same = list_cluster_keeps_found [OF l [unfolded Inr]]
        show ?thesis
        proof (cases "fat_next_cluster vol cluster")
          case next_ok: (Ok n)
          obtain es2 where l2: "list_dir left vol n s' = (es2, r)" and es: "es = es1 @ es2"
            using Suc.prems(1) in_chain Ok l Inr next_ok by (auto simp: list_dir.simps split: prod.splits)
          show ?thesis
          proof (cases "unat index - unat (found s) < length es1")
            case True
            then show ?thesis using in_chain Ok scan es by (simp add: readdir_walk.simps Let_def nth_append)
          next
            case False
            let ?t = "s'\<lparr>found := found s + of_nat (length es1)\<rparr>"
            have f: "unat (found ?t) = unat (found s) + length es1"
              using le by (simp add: unat_word_ariths unat_of_nat)
            have l3: "list_dir left vol n ?t = (es2, r)"
              using l2 by (simp add: list_dir_found)
            have "readdir_walk left vol n index ?t =
                (let k = unat index - unat (found ?t) in if k < length es2 then Ok (es2 ! k) else r)"
              by (rule Suc.IH [OF l3])
                (use Suc.prems(2,3) es f False in \<open>auto simp: word_le_nat_alt\<close>)
            moreover have "readdir_walk (Suc left) vol cluster index s = readdir_walk left vol n index ?t"
              using in_chain Ok scan False next_ok Inr by (subst readdir_walk.simps) (simp add: Let_def)
            ultimately show ?thesis
              using es False f by (auto simp: Let_def nth_append)
          qed
        qed (use Suc.prems(1) in_chain Ok l scan Inr in
             \<open>auto simp: list_dir.simps readdir_walk.simps Let_def\<close>)
      qed
    qed (use Suc.prems(1) in_chain in \<open>auto simp: list_dir.simps readdir_walk.simps\<close>)
  qed (use Suc.prems(1) in \<open>auto simp: list_dir.simps readdir_walk.simps\<close>)
qed


theorem readdir_lists:
  assumes "mounted vol" "bytes_per_cluster vol \<le> CLUSTER_BUFFER" "listing vol cluster = (es, r)" "length es < 2 ^ 32"
  shows "fat32_readdir (Some vol) cluster index True =
     (if unat index < length es then Ok (es ! unat index) else r)"
  using readdir_walk_lists [of "unat (cluster_count vol)" vol cluster scan_start es r index] assms
  by (auto simp: fat32_readdir_def listing_def scan_start_def Let_def)

section \<open>Volumes the reader can trust\<close>

definition plain_geometry :: "'d fat32_volume \<Rightarrow> bool" where
  "plain_geometry vol \<longleftrightarrow> mounted vol \<and> bytes_per_sector vol = 512 \<and>
     bytes_per_cluster vol = 512 * sectors_per_cluster vol \<and>
     0 < sectors_per_cluster vol \<and> sectors_per_cluster vol \<le> 128 \<and> whole_sectors (dev vol)"

lemma geometry_cluster_bytes:
  assumes "plain_geometry vol"
  shows "unat (bytes_per_cluster vol) = 512 * unat (sectors_per_cluster vol)"
    "bytes_per_cluster vol \<le> CLUSTER_BUFFER" "0 < unat (bytes_per_cluster vol)"
    "length (entry_offsets vol) = 16 * unat (sectors_per_cluster vol)"
proof -
  have s: "0 < unat (sectors_per_cluster vol)" "unat (sectors_per_cluster vol) \<le> 128"
    using assms by (auto simp: plain_geometry_def word_less_nat_alt word_le_nat_alt)
  then show b: "unat (bytes_per_cluster vol) = 512 * unat (sectors_per_cluster vol)"
    using assms by (simp add: plain_geometry_def unat_word_ariths)
  then show "bytes_per_cluster vol \<le> CLUSTER_BUFFER" "0 < unat (bytes_per_cluster vol)"
    using s by (auto simp: word_le_nat_alt)
  show "length (entry_offsets vol) = 16 * unat (sectors_per_cluster vol)"
    unfolding entry_offsets_def b by simp
qed

lemma fat_offset_in_sector: "4 * k mod 512 + 4 \<le> (512 :: nat)"
  using mult_mod_right [of 4 k 128] mod_less_divisor [of 128 k] by simp

lemma unat_fat_offset: "unat (ucast (cluster :: u32) * 4 :: u64) = 4 * unat cluster"
  using unat_bound [of cluster] by (simp add: unat_word_ariths unsigned_ucast_eq take_bit_nat_eq_self)

lemma fat_next_total:
  assumes "plain_geometry vol"
  shows "\<exists>n. fat_next_cluster vol cluster = Ok n"
proof -
  have g: "bytes_per_sector vol = 512" "whole_sectors (dev vol)"
    using assms by (auto simp: plain_geometry_def)
  let ?m = "(ucast cluster * 4 :: u64) mod 512"
  have "unat ?m = 4 * unat cluster mod 512"
    unfolding unat_mod_distrib unat_fat_offset by simp
  then have "unat (ucast ?m :: u32) = 4 * unat cluster mod 512"
    by (simp add: unsigned_ucast_eq take_bit_nat_eq_self del: mult_mod_right)
  then have off: "unat (ucast ?m :: u32) + 4 \<le> 512"
    using fat_offset_in_sector [of "unat cluster"] by simp
  show ?thesis
    using read_sector_whole [OF g(2)] off
    by (auto simp: fat_next_cluster_def Let_def g(1) not_less split: outcome.splits)
qed

lemma read_cluster_total:
  assumes "plain_geometry vol"
  shows "read_cluster vol cluster \<noteq> Fault" "read_cluster vol cluster = Fail e \<Longrightarrow> e \<noteq> AF_OK"
    "read_cluster vol cluster = Ok data \<Longrightarrow> length data = unat (bytes_per_cluster vol)"
  using assms whole_sectors_read [of "dev vol" "cluster_to_lba vol cluster" "sectors_per_cluster vol"]
    geometry_cluster_bytes(1) [OF assms]
  by (auto simp: read_cluster_def plain_geometry_def split: if_splits)

lemma list_cluster_ends:
  "list_cluster data os s = (es, Inl r) \<Longrightarrow> \<forall>off \<in> set os. off + 32 \<le> length data \<Longrightarrow> r = Fail AF_ERR_NOENT"
proof (induction os arbitrary: s es)
  case (Cons off os)
  then show ?case by (fastforce simp: Let_def split: prod.splits if_splits)
qed simp

lemma sixteen_per_sector: "(512 * k + 31) div 32 = 16 * (k :: nat)"
  by simp

lemma list_dir_ends:
  assumes "plain_geometry vol" "list_dir left vol cluster s = (es, r)"
  shows "\<exists>e. r = Fail e \<and> e \<noteq> AF_OK"
  using assms(2)
proof (induction left arbitrary: cluster s es)
  case 0
  then show ?case by (auto simp: list_dir.simps split: if_splits)
next
  case (Suc left)
  have inside: "\<forall>off \<in> set (entry_offsets vol). off + 32 \<le> unat (bytes_per_cluster vol)"
    unfolding entry_offsets_def geometry_cluster_bytes(1) [OF assms(1)] by (auto simp: sixteen_per_sector)
  note step = Suc.prems [unfolded list_dir.simps [of "Suc left"]]
  obtain n where n: "fat_next_cluster vol cluster = Ok n" using fat_next_total [OF assms(1)] by blast
  show ?case
  proof (cases "read_cluster vol cluster")
    case (Ok data)
    have len: "length data = unat (bytes_per_cluster vol)"
      using read_cluster_total(3) [OF assms(1) Ok] .
    obtain es1 q where l: "list_cluster data (entry_offsets vol) s = (es1, q)" by fastforce
    show ?thesis
      using step Ok l n list_cluster_ends [of data "entry_offsets vol" s es1] inside len
      by (cases q) (auto dest: Suc.IH split: if_splits prod.splits)
  qed (use step read_cluster_total(1,2) [OF assms(1), of cluster] in
      \<open>auto split: if_splits\<close>)
qed

section \<open>Searching by index\<close>

text \<open>
  The interface \<open>fat32_lookup\<close> uses: entries are fetched by number until a fetch fails. Whoever
  provides it promises that the numbers run through a list.
\<close>

locale indexed_directory =
  fixes usable :: "'k \<Rightarrow> bool"
    and fetch :: "'k \<Rightarrow> u32 \<Rightarrow> 'e outcome"
    and contents :: "'k \<Rightarrow> 'e list \<times> 'e outcome"
    and matches :: "'n \<Rightarrow> 'e \<Rightarrow> bool"
    and search :: "'k \<Rightarrow> 'n \<Rightarrow> u32 \<Rightarrow> 'e option outcome option"
  assumes fetch_in: "\<lbrakk>usable k; contents k = (es, r); unat i < length es\<rbrakk> \<Longrightarrow> fetch k i = Ok (es ! unat i)"
    and fetch_past: "\<lbrakk>usable k; contents k = (es, r); length es \<le> unat i\<rbrakk> \<Longrightarrow> fetch k i = r"
    and ends_badly: "\<lbrakk>usable k; contents k = (es, r)\<rbrakk> \<Longrightarrow> \<exists>e. r = Fail e"
    and countable: "\<lbrakk>usable k; contents k = (es, r)\<rbrakk> \<Longrightarrow> length es < 2 ^ 32"
    and search_step: "search k n i =
      (case fetch k i of
         Fault \<Rightarrow> Some Fault
       | Fail e \<Rightarrow> if e = AF_ERR_NOENT then Some (Ok None) else Some (Fail e)
       | Ok x \<Rightarrow> if matches n x then Some (Ok (Some x)) else search k n (i + 1))"
begin

definition outcome_of :: "'n \<Rightarrow> 'e list \<Rightarrow> 'e outcome \<Rightarrow> 'e option outcome" where
  "outcome_of n es r = (case find (matches n) es of
     Some x \<Rightarrow> Ok (Some x)
   | None \<Rightarrow> (case r of Fail e \<Rightarrow> if e = AF_ERR_NOENT then Ok None else Fail e | _ \<Rightarrow> Fault))"

lemma search_from:
  assumes "usable k" "contents k = (es, r)" "unat i \<le> length es"
  shows "search k n i = Some (outcome_of n (drop (unat i) es) r)"
  using assms(3)
proof (induction "length es - unat i" arbitrary: i)
  case 0
  then have "length es \<le> unat i" by simp
  then show ?case
    using ends_badly [OF assms(1,2)] fetch_past [OF assms(1,2)]
    by (subst search_step) (auto simp: outcome_of_def)
next
  case (Suc m)
  then have i: "unat i < length es" by simp
  then have suc: "unat (i + 1) = Suc (unat i)"
    by (intro unat_Suc_word) (use countable [OF assms(1,2)] in simp)
  have d: "drop (unat i) es = es ! unat i # drop (Suc (unat i)) es"
    using i by (simp add: Cons_nth_drop_Suc)
  have rest: "search k n (i + 1) = Some (outcome_of n (drop (unat (i + 1)) es) r)"
    by (rule Suc.hyps) (use Suc.hyps(2) i suc in simp_all)
  show ?case
    using fetch_in [OF assms(1,2) i] rest suc
    by (subst search_step) (simp add: d outcome_of_def)
qed

lemma search_finds:
  "usable k \<Longrightarrow> contents k = (es, r) \<Longrightarrow> search k n 0 = Some (outcome_of n es r)"
  using search_from [of k es r 0 n] by simp

end

text \<open>
  No directory of the volume can have more entries than an index can count: short of 128 GiB of
  clusters.
\<close>

definition countable_dirs :: "'d fat32_volume \<Rightarrow> bool" where
  "countable_dirs vol \<longleftrightarrow> unat (cluster_count vol) * length (entry_offsets vol) < 2 ^ 32"

lemma listing_countable: "countable_dirs vol \<Longrightarrow> listing vol cluster = (es, r) \<Longrightarrow> length es < 2 ^ 32"
  using list_dir_length [of _ vol cluster scan_start es r] unfolding listing_def countable_dirs_def
  by (meson le_less_trans)

lemma readdir_fetches:
  assumes "plain_geometry vol" "countable_dirs vol" "listing vol cluster = (es, r)"
  shows "fat32_readdir (Some vol) cluster index True =
     (if unat index < length es then Ok (es ! unat index) else r)"
  using assms listing_countable [OF assms(2,3)] geometry_cluster_bytes(2) [OF assms(1)]
  by (intro readdir_lists) (simp_all add: plain_geometry_def)

interpretation fat: indexed_directory
  "\<lambda>(vol, cluster). plain_geometry vol \<and> countable_dirs vol"
  "\<lambda>(vol, cluster) i. fat32_readdir (Some vol) cluster i True"
  "\<lambda>(vol, cluster). listing vol cluster"
  "\<lambda>component e. name_matches (entry_name e) component"
  "\<lambda>(vol, cluster) component i. search_dir vol cluster component i"
proof (unfold_locales, goal_cases)
  case (1 k es r i)
  then show ?case
    using readdir_fetches [of "fst k" "snd k" es r i] by (auto split: prod.splits)
next
  case (2 k es r i)
  then show ?case
    using readdir_fetches [of "fst k" "snd k" es r i] by (auto split: prod.splits)
next
  case (3 k es r)
  then show ?case using list_dir_ends [of "fst k" _ "snd k" scan_start es r]
    by (auto simp: listing_def split: prod.splits)
next
  case (4 k es r)
  then show ?case using listing_countable [of "fst k" "snd k" es r] by (auto split: prod.splits)
next
  case (5 k n i)
  obtain vol cluster where "k = (vol, cluster)" by fastforce
  then show ?case by (simp only: prod.case, subst search_dir.simps) (rule refl)
qed

section \<open>Path resolution\<close>

text \<open>The reference: split the path at separators, then resolve name by name through the listings.\<close>

fun split_on :: "('a \<Rightarrow> bool) \<Rightarrow> 'a list \<Rightarrow> 'a list list" where
  "split_on P [] = [[]]"
| "split_on P (x # xs) = (if P x then [] # split_on P xs else (x # hd (split_on P xs)) # tl (split_on P xs))"

definition path_names :: "u8 list \<Rightarrow> u8 list list" where
  "path_names p = map (take 255) (filter (\<lambda>w. w \<noteq> []) (split_on is_separator p))"

fun resolve :: "'d fat32_volume \<Rightarrow> u32 \<Rightarrow> u8 list list \<Rightarrow> nat \<Rightarrow> fat32_entry outcome" where
  "resolve vol cluster [] depth = Fail AF_ERR_NOENT"
| "resolve vol cluster (name # names) depth =
     (case find (\<lambda>e. name_matches (entry_name e) name) (fst (listing vol cluster)) of
        None \<Rightarrow> snd (listing vol cluster)
      | Some e \<Rightarrow>
          if names = [] then Ok e
          else if \<not> is_directory e then Fail AF_ERR_NOTDIR
          else if 32 \<le> depth then Fail AF_ERR_INVAL
          else resolve vol (first_cluster e) names (depth + 1))"

lemma split_on_nonempty [simp]: "split_on P xs \<noteq> []"
  by (cases xs) auto

lemma split_on_takeWhile:
  "split_on P xs = takeWhile (\<lambda>x. \<not> P x) xs #
     (case dropWhile (\<lambda>x. \<not> P x) xs of [] \<Rightarrow> [] | _ # ys \<Rightarrow> split_on P ys)"
  by (induction xs) auto

lemma split_on_skip: "filter (\<lambda>w. w \<noteq> []) (split_on P (dropWhile P xs)) = filter (\<lambda>w. w \<noteq> []) (split_on P xs)"
  by (induction xs) auto

lemma path_names_skip: "path_names (skip_separators p) = path_names p"
  by (simp add: path_names_def skip_separators_def split_on_skip)

lemma path_names_step:
  assumes "cursor \<noteq> []" "\<not> is_separator (hd cursor)"
  shows "path_names cursor = path_component cursor # path_names (after_component cursor)"
    and "path_component cursor \<noteq> []"
proof -
  let ?w = "takeWhile (\<lambda>c. \<not> is_separator c) cursor"
  let ?r = "dropWhile (\<lambda>c. \<not> is_separator c) cursor"
  have w: "?w \<noteq> []" using assms by (cases cursor) auto
  then show "path_component cursor \<noteq> []" by (simp add: path_component_def)
  have "filter (\<lambda>w. w \<noteq> []) (split_on is_separator cursor) =
      ?w # filter (\<lambda>w. w \<noteq> []) (split_on is_separator (skip_separators ?r))"
  proof (cases ?r)
    case Nil
    then show ?thesis
      using w by (simp only: split_on_takeWhile [of is_separator cursor] Nil) (simp add: skip_separators_def)
  next
    case (Cons c ys)
    then have "is_separator c" by (simp add: dropWhile_eq_Cons_conv)
    then show ?thesis
      using w Cons by (subst split_on_takeWhile) (simp add: skip_separators_def split_on_skip)
  qed
  then show "path_names cursor = path_component cursor # path_names (after_component cursor)"
    by (simp add: path_names_def path_component_def after_component_def)
qed

lemma skipped_no_separator: "skip_separators p \<noteq> [] \<Longrightarrow> \<not> is_separator (hd (skip_separators p))"
  by (simp add: skip_separators_def hd_dropWhile)

lemma path_names_empty: "path_names p = [] \<longleftrightarrow> skip_separators p = []"
proof
  assume "path_names p = []"
  then show "skip_separators p = []"
    using path_names_step(1) [of "skip_separators p"] skipped_no_separator [of p] path_names_skip [of p] by auto
next
  assume "skip_separators p = []"
  then show "path_names p = []"
    using path_names_skip [of p] by (simp add: path_names_def)
qed

lemma lookup_walk_resolves:
  assumes "plain_geometry vol" "countable_dirs vol"
  shows "cursor = [] \<or> \<not> is_separator (hd cursor) \<Longrightarrow>
     lookup_walk vol cluster cursor guard = Some (resolve vol cluster (path_names cursor) guard)"
proof (induction cursor arbitrary: cluster guard rule: measure_induct_rule [of length])
  case (less cursor)
  show ?case
  proof (cases "cursor = []")
    case True
    then show ?thesis by (simp add: lookup_walk.simps path_names_def)
  next
    case False
    note step = path_names_step [OF False]
    have names: "path_names cursor = path_component cursor # path_names (after_component cursor)"
        "path_component cursor \<noteq> []"
      using less.prems False step by auto
    obtain es r where l: "listing vol cluster = (es, r)" by fastforce
    obtain e where r: "r = Fail e" "e \<noteq> AF_OK"
      using list_dir_ends [OF assms(1)] l unfolding listing_def by blast
    have find: "search_dir vol cluster (path_component cursor) 0 = Some (fat.outcome_of (path_component cursor) es r)"
      using fat.search_finds [of "(vol, cluster)" es r "path_component cursor"] assms l by simp
    have rest: "lookup_walk vol (first_cluster x) (after_component cursor) (guard + 1) =
        Some (resolve vol (first_cluster x) (path_names (after_component cursor)) (guard + 1))" for x
      by (rule less.IH)
        (use after_component_shorter [OF names(2)] skipped_no_separator in \<open>auto simp: after_component_def\<close>)
    have empty: "path_names (after_component cursor) = [] \<longleftrightarrow> after_component cursor = []"
      using path_names_empty [of "after_component cursor"]
      by (simp add: after_component_def skip_separators_def)
    show ?thesis
      using False names find l r rest empty
      by (subst lookup_walk.simps)
        (auto simp: Let_def fat.outcome_of_def split: option.splits)
  qed
qed

text \<open>
  (C16) A path lookup ends, never leaves its buffers, and finds what the reference finds: the path is split
  at either separator, empty parts are ignored, and each name selects the first entry of the
  directory's listing that equals it up to ASCII case.
\<close>

theorem lookup_resolves:
  assumes "plain_geometry vol" "countable_dirs vol"
  shows "fat32_lookup (Some vol) (Some path) True = Some
     (if path_names (cstr path) = []
      then Ok \<lparr>first_cluster = root_cluster vol, file_bytes = 0, is_directory = True, entry_name = [0x2F]\<rparr>
      else resolve vol (root_cluster vol) (path_names (cstr path)) 0)"
  using lookup_walk_resolves [OF assms, of "skip_separators (cstr path)"] skipped_no_separator [of "cstr path"]
    path_names_empty [of "cstr path"] assms(1)
  by (auto simp: fat32_lookup_def Let_def path_names_skip plain_geometry_def)

section \<open>Long names\<close>

text \<open>
  How a long name is written: pieces of 13 code units, the last piece first, each entry carrying its
  ordinal and the checksum of the short entry that follows. \<open>ordinal\<close> is that of the first piece.
\<close>

definition lfn_unit :: "u8 list \<Rightarrow> nat \<Rightarrow> u16" where
  "lfn_unit piece u = (if u < length piece then ucast (piece ! u) else if u = length piece then 0 else 0xFFFF)"

definition lfn_units :: "u8 list \<Rightarrow> nat list \<Rightarrow> u8 list" where
  "lfn_units piece us = concat (map (\<lambda>u. le16 (lfn_unit piece u)) us)"

definition lfn_record :: "nat \<Rightarrow> bool \<Rightarrow> u8 \<Rightarrow> u8 list \<Rightarrow> u8 list" where
  "lfn_record ordinal final ck piece =
     [of_nat ordinal OR (if final then 0x40 else 0)] @ lfn_units piece [0..<5] @ [0x0F, 0, ck] @
     lfn_units piece [5..<11] @ [0, 0] @ lfn_units piece [11..<13]"

function lfn_records :: "nat \<Rightarrow> u8 \<Rightarrow> u8 list \<Rightarrow> u8 list list" where
  "lfn_records ordinal ck name =
     (if name = [] then []
      else lfn_records (ordinal + 1) ck (drop 13 name) @ [lfn_record ordinal (length name \<le> 13) ck (take 13 name)])"
  by pat_completeness auto
termination
  by (relation "measure (\<lambda>(k, ck, name). length name)") auto

declare lfn_records.simps [simp del]

text \<open>Names the reader represents: ASCII, without a terminator inside.\<close>

definition plain_name :: "u8 list \<Rightarrow> bool" where
  "plain_name name \<longleftrightarrow> (\<forall>c \<in> set name. c \<noteq> 0 \<and> c < 128)"

lemma rd16_le16: "e ! p = ucast x \<Longrightarrow> e ! (p + 1) = ucast (drop_bit 8 x) \<Longrightarrow> rd16 e p = ucast (x :: u16)"
proof -
  assume e: "e ! p = ucast x" "e ! (p + 1) = ucast (drop_bit 8 x)"
  show ?thesis
    unfolding rd16_def e
  proof (rule bit_word_eqI)
    fix n assume "n < LENGTH(32)"
    then consider "n < 8" | "8 \<le> n" "n < 16" | "16 \<le> n" by fastforce
    then show "bit (ucast (ucast x :: u8) OR push_bit 8 (ucast (ucast (drop_bit 8 x) :: u8)) :: u32) n =
        bit (ucast x :: u32) n"
      by cases (use bit_imp_le_length [of x n] in \<open>auto simp: bit_simps\<close>)
  qed
qed

lemma lfn_record_length [simp]: "length (lfn_record k f ck piece) = 32"
  by (simp add: lfn_record_def lfn_units_def upt_rec)

lemma lfn_record_fields [simp]:
  "lfn_record k f ck piece ! 0 = of_nat k OR (if f then 0x40 else 0)"
  "lfn_record k f ck piece ! 11 = 0x0F"
  "lfn_record k f ck piece ! 13 = ck"
  by (simp_all add: lfn_record_def lfn_units_def le16_def upt_rec)

lemma lfn_record_unit: "u < 13 \<Longrightarrow> rd16 (lfn_record k f ck piece) (unit_pos u) = ucast (lfn_unit piece u)"
proof -
  assume "u < 13"
  then have "u = 0 \<or> u = 1 \<or> u = 2 \<or> u = 3 \<or> u = 4 \<or> u = 5 \<or> u = 6 \<or> u = 7 \<or> u = 8 \<or> u = 9 \<or> u = 10 \<or> u = 11 \<or> u = 12"
    by presburger
  then show ?thesis
    by (intro rd16_le16; auto simp: lfn_record_def lfn_units_def le16_def upt_rec unit_pos_def; (simp add: eval_nat_numeral)?)
qed

lemma ucast_via_16: "(ucast (ucast (c :: u8) :: u16) :: u32) = ucast c"
  by (rule bit_word_eqI) (auto simp: bit_simps dest: bit_imp_le_length)

lemma ucast_via_32: "(ucast (ucast (c :: u8) :: u32) :: u8) = c"
  by (rule bit_word_eqI) (auto simp: bit_simps dest: bit_imp_le_length)

lemma lfn_fragment_record:
  assumes "plain_name piece" "length piece \<le> 13" "j \<le> 13"
  shows "j \<le> length piece \<Longrightarrow> lfn_fragment (lfn_record k f ck piece) [j..<13] = drop j piece"
  using assms(3)
proof (induction "13 - j" arbitrary: j)
  case 0
  then show ?case using assms(2) by simp
next
  case (Suc m)
  then have j: "j < 13" and up: "[j..<13] = j # [Suc j..<13]" by (simp_all add: upt_rec)
  show ?case
  proof (cases "j < length piece")
    case True
    then have c: "piece ! j \<noteq> 0" "piece ! j < 128"
      using assms(1) by (auto simp: plain_name_def)
    have u: "rd16 (lfn_record k f ck piece) (unit_pos j) = ucast (piece ! j)"
      using lfn_record_unit [OF j] True by (simp add: lfn_unit_def ucast_via_16)
    have small: "unat (piece ! j) < 128" using c(2) by (simp add: word_less_nat_alt)
    have "ucast (piece ! j) \<noteq> (0 :: u32)" "ucast (piece ! j) \<noteq> (0xFFFF :: u32)" "(ucast (piece ! j) :: u32) < 128"
      using c(1) small by (auto simp: word_less_nat_alt word_unat_eq_iff unsigned_ucast_eq take_bit_nat_eq_self)
    moreover have "lfn_fragment (lfn_record k f ck piece) [Suc j..<13] = drop (Suc j) piece"
      by (rule Suc.hyps) (use Suc.hyps(2) j True in auto)
    ultimately show ?thesis
      unfolding up using u True by (simp add: Let_def Cons_nth_drop_Suc ucast_via_32)
  next
    case False
    then have "rd16 (lfn_record k f ck piece) (unit_pos j) = 0"
      using lfn_record_unit [OF j] Suc.prems by (simp add: lfn_unit_def)
    then show ?thesis unfolding up using False by simp
  qed
qed

lemma ordinal_bits:
  assumes "0 < k" "k \<le> 20"
  shows "(of_nat k OR (if f then 0x40 else 0)) AND 0x1F = (of_nat k :: u8)" "of_nat k \<noteq> (0 :: u8)"
    "\<not> (20 :: u8) < of_nat k" "of_nat k OR (if f then 0x40 else 0) \<noteq> (0 :: u8)" "of_nat k OR (if f then 0x40 else 0) \<noteq> (0xE5 :: u8)"
proof -
  have k: "k = 1 \<or> k = 2 \<or> k = 3 \<or> k = 4 \<or> k = 5 \<or> k = 6 \<or> k = 7 \<or> k = 8 \<or> k = 9 \<or> k = 10 \<or>
      k = 11 \<or> k = 12 \<or> k = 13 \<or> k = 14 \<or> k = 15 \<or> k = 16 \<or> k = 17 \<or> k = 18 \<or> k = 19 \<or> k = 20"
    using assms by presburger
  show "(of_nat k OR (if f then 0x40 else 0)) AND 0x1F = (of_nat k :: u8)" using k by (elim disjE) simp_all
  show "of_nat k \<noteq> (0 :: u8)" using k by (elim disjE) simp_all
  show "\<not> (20 :: u8) < of_nat k" using k by (elim disjE) simp_all
  show "of_nat k OR (if f then 0x40 else 0) \<noteq> (0 :: u8)" using k by (elim disjE) simp_all
  show "of_nat k OR (if f then 0x40 else 0) \<noteq> (0xE5 :: u8)" using k by (elim disjE) simp_all
qed

text \<open>One entry of a long name is prepended when the whole still fits in the buffer.\<close>

lemma pass_record:
  assumes "plain_name piece" "length piece \<le> 13" "0 < k" "k \<le> 20"
  shows "pass_entry (lfn_record k f ck piece) s =
     (if length piece + length (lfn s) + 1 < 256
      then s\<lparr>lfn := piece @ lfn s, lfn_checksum := ck, have_lfn := True\<rparr> else s)"
  using lfn_fragment_record [OF assms(1,2), of 0 k f ck]
  by (simp add: pass_entry_def take_fragment_def Let_def ordinal_bits [OF assms(3,4)])

definition pass_entries :: "u8 list list \<Rightarrow> scan_state \<Rightarrow> scan_state" where
  "pass_entries es s = foldl (\<lambda>t e. pass_entry e t) s es"

lemma pass_records:
  assumes "plain_name name" "name \<noteq> []" "length name + length (lfn s) \<le> 254" "0 < k" "k * 13 + length name \<le> 273"
  shows "pass_entries (lfn_records k ck name) s = s\<lparr>lfn := name @ lfn s, lfn_checksum := ck, have_lfn := True\<rparr>"
  using assms
proof (induction "length name" arbitrary: name k rule: less_induct)
  case less
  have k: "k \<le> 20" using less.prems(2,5) by (cases name) auto
  have p: "plain_name (take 13 name)" using less.prems(1) by (auto simp: plain_name_def dest: in_set_takeD)
  show ?case
  proof (cases "drop 13 name = []")
    case True
    then show ?thesis
      using pass_record [OF p _ less.prems(4) k] less.prems
      by (simp add: lfn_records.simps [of k] lfn_records.simps [of "Suc k"] pass_entries_def)
  next
    case False
    have "pass_entries (lfn_records (k + 1) ck (drop 13 name)) s =
        s\<lparr>lfn := drop 13 name @ lfn s, lfn_checksum := ck, have_lfn := True\<rparr>"
      by (rule less.hyps) (use less.prems False in \<open>auto simp: plain_name_def dest: in_set_dropD\<close>)
    then show ?thesis
      using pass_record [OF p _ less.prems(4) k] less.prems False
      by (simp add: lfn_records.simps [of k] pass_entries_def)
  qed
qed

lemma records_invisible:
  assumes "e \<in> set (lfn_records k ck name)" "0 < k" "k * 13 + length name \<le> 273"
  shows "length e = 32 \<and> e ! 0 \<noteq> 0 \<and> \<not> visible e"
  using assms
proof (induction "length name" arbitrary: name k rule: less_induct)
  case less
  have ne: "name \<noteq> []" using less.prems(1) by (auto simp: lfn_records.simps)
  then have k: "k \<le> 20" using less.prems(3) by (cases name) auto
  from less.prems(1) ne consider "e \<in> set (lfn_records (k + 1) ck (drop 13 name))"
    | "e = lfn_record k (length name \<le> 13) ck (take 13 name)"
    by (subst (asm) lfn_records.simps) auto
  then show ?case
  proof cases
    case 1
    then have "drop 13 name \<noteq> []" by (auto simp: lfn_records.simps [of _ _ "[]"])
    then show ?thesis
      by (intro less.hyps [of "drop 13 name" "k + 1"]) (use ne less.prems 1 in auto)
  next
    case 2
    then show ?thesis using ordinal_bits(4) [OF less.prems(2) k] by (simp add: visible_def)
  qed
qed


text \<open>A run of entries that neither end the directory nor show is carried through the state.\<close>

lemma scan_invisible:
  assumes "\<forall>e \<in> set es. length e = 32 \<and> e ! 0 \<noteq> 0 \<and> \<not> visible e"
  shows "scan_cluster (pre @ concat es @ rest) (map (\<lambda>k. length pre + 32 * k) [0..<length es] @ os) index s =
     scan_cluster (pre @ concat es @ rest) os index (pass_entries es s)"
  using assms
proof (induction es arbitrary: pre s)
  case Nil
  then show ?case by (simp add: pass_entries_def)
next
  case (Cons e es)
  have offs: "map (\<lambda>k. length pre + 32 * k) [0..<length (e # es)] =
      length pre # map (\<lambda>k. length (pre @ e) + 32 * k) [0..<length es]"
    using Cons.prems by (simp add: upt_conv_Cons map_Suc_upt [symmetric] comp_def del: upt_Suc)
  have "scan_cluster ((pre @ e) @ concat es @ rest) (map (\<lambda>k. length (pre @ e) + 32 * k) [0..<length es] @ os) index (pass_entry e s) =
      scan_cluster ((pre @ e) @ concat es @ rest) os index (pass_entries es (pass_entry e s))"
    by (rule Cons.IH) (use Cons.prems in auto)
  moreover have "scan_entry e index s = Go (pass_entry e s)"
    using Cons.prems by (simp add: scan_entry_pass)
  ultimately show ?case
    unfolding offs using Cons.prems by (simp add: pass_entries_def)
qed

lemma concat_records_length: "\<forall>e \<in> set es. length e = 32 \<Longrightarrow> length (concat es) = 32 * length es"
  by (induction es) auto

text \<open>The entry that follows is returned with the state the run leaves.\<close>

lemma scan_after_run:
  assumes "\<forall>e \<in> set es. length e = 32 \<and> e ! 0 \<noteq> 0 \<and> \<not> visible e"
    and "length e = 32" "visible e" "length es < n"
  shows "scan_cluster (concat es @ e @ rest) (map (\<lambda>k. 32 * k) [0..<n]) 0 scan_start =
     Return (Ok (decode_entry e (pass_entries es scan_start)))"
proof -
  have split: "map (\<lambda>k. 32 * k) [0..<n] =
      map (\<lambda>k. 32 * k) [0..<length es] @ 32 * length es # map (\<lambda>k. 32 * k) [Suc (length es)..<n]"
    using upt_add_eq_append [of 0 "length es" "n - length es"] assms(4) by (simp add: upt_conv_Cons)
  have len: "length (concat es) = 32 * length es"
    using assms(1) by (simp add: concat_records_length)
  have f: "found (pass_entries es scan_start) = 0"
    unfolding pass_entries_def by (induction es rule: rev_induct) (simp_all add: scan_start_def)
  have "scan_entry e 0 (pass_entries es scan_start) = Return (Ok (decode_entry e (pass_entries es scan_start)))"
    using assms(3) f by (subst scan_entry_pass) (auto simp: visible_def)
  then show ?thesis
    unfolding split using scan_invisible [OF assms(1), of "[]" "e @ rest" "32 * length es # map (\<lambda>k. 32 * k) [Suc (length es)..<n]" 0 scan_start]
      len assms(2) by simp
qed

lemma readdir_first:
  assumes "plain_geometry vol" "in_chain cluster" "cluster_count vol \<noteq> 0"
    and "read_cluster vol cluster = Ok data" "scan_cluster data (entry_offsets vol) 0 scan_start = Return r"
  shows "fat32_readdir (Some vol) cluster 0 True = r"
proof -
  obtain n where "unat (cluster_count vol) = Suc n"
    using assms(3) by (metis not0_implies_Suc unat_eq_0)
  then show ?thesis
    using assms geometry_cluster_bytes(2) [OF assms(1)]
    by (simp add: fat32_readdir_def readdir_walk.simps plain_geometry_def not_less [symmetric])
qed

lemma readdir_after_run:
  assumes "plain_geometry vol" "in_chain cluster" "cluster_count vol \<noteq> 0"
    and inv: "\<forall>x \<in> set es. length x = 32 \<and> x ! 0 \<noteq> 0 \<and> \<not> visible x"
    and "length e = 32" "visible e"
    and "read_cluster vol cluster = Ok (concat es @ e @ rest)"
  shows "fat32_readdir (Some vol) cluster 0 True = Ok (decode_entry e (pass_entries es scan_start))"
proof -
  have "length (concat es) = 32 * length es"
    by (rule concat_records_length) (use inv in blast)
  then have "32 * length es + 32 \<le> unat (bytes_per_cluster vol)"
    using read_cluster_total(3) [OF assms(1,7), unfolded length_append] assms(5) by linarith
  then have fits: "length es < (unat (bytes_per_cluster vol) + 31) div 32"
    by (simp add: Suc_le_eq [symmetric] less_eq_div_iff_mult_less_eq)
  show ?thesis
    by (rule readdir_first [OF assms(1-3,7)])
      (unfold entry_offsets_def, rule scan_after_run [OF inv assms(5,6) fits])
qed


text \<open>
  FAT allows names of 255 characters. Such a name no longer fits once its last fragment to arrive,
  the first 13 characters, is to be prepended; the fragment is dropped and the checksum still agrees,
  so the entry goes by a name that lacks its beginning.
\<close>

theorem lfn_255_loses_its_head:
  assumes "plain_geometry vol" "in_chain cluster" "cluster_count vol \<noteq> 0"
    and "plain_name name" "length name = 255"
    and "length e = 32" "visible e" "e ! 0 \<noteq> 0x2E"
    and "read_cluster vol cluster = Ok (concat (lfn_records 1 (short_name_checksum e) name) @ e @ rest)"
  shows "map_outcome entry_name (fat32_readdir (Some vol) cluster 0 True) = Ok (drop 13 name)"
proof -
  let ?ck = "short_name_checksum e"
  let ?s = "scan_start\<lparr>lfn := drop 13 name, lfn_checksum := ?ck, have_lfn := True\<rparr>"
  have plain: "plain_name (drop 13 name)" "plain_name (take 13 name)"
    using assms(4) by (auto simp: plain_name_def dest: in_set_dropD in_set_takeD)
  have "pass_entries (lfn_records 2 ?ck (drop 13 name)) scan_start = ?s"
    using pass_records [OF plain(1), where k = 2 and s = scan_start and ck = ?ck] assms(5)
    by (auto simp: scan_start_def)
  moreover have "pass_entry (lfn_record 1 False ?ck (take 13 name)) ?s = ?s"
    using pass_record [OF plain(2), where k = 1 and f = False and ck = ?ck and s = ?s] assms(5) by simp
  ultimately have "pass_entries (lfn_records 1 ?ck name) scan_start = ?s"
    using assms(5) by (subst lfn_records.simps) (auto simp: pass_entries_def numeral_2_eq_2)
  then show ?thesis
    using readdir_after_run [OF assms(1-3) _ assms(6,7,9)] records_invisible [of _ 1 _ name] assms(5,8)
    by (simp add: decode_entry_def)
qed

text \<open>
  Only the checksum of the last fragment is kept, and a fragment that begins a new name, by its bit
  \<open>0x40\<close>, does not start the buffer afresh. Fragments that lost their entry are joined to the name that
  follows, whatever their own checksum.
\<close>

theorem orphan_fragments_join:
  assumes "plain_geometry vol" "in_chain cluster" "cluster_count vol \<noteq> 0"
    and "plain_name orphan" "orphan \<noteq> []" "plain_name name" "name \<noteq> []" "length name + length orphan \<le> 254"
    and "length e = 32" "visible e" "e ! 0 \<noteq> 0x2E"
    and "read_cluster vol cluster =
      Ok (concat (lfn_records 1 ck orphan @ lfn_records 1 (short_name_checksum e) name) @ e @ rest)"
  shows "map_outcome entry_name (fat32_readdir (Some vol) cluster 0 True) = Ok (name @ orphan)"
proof -
  let ?es = "lfn_records 1 ck orphan @ lfn_records 1 (short_name_checksum e) name"
  have inv: "\<forall>x \<in> set ?es. length x = 32 \<and> x ! 0 \<noteq> 0 \<and> \<not> visible x"
    using records_invisible [of _ 1 _ name] records_invisible [of _ 1 _ orphan] assms(8) by fastforce
  have "pass_entries (lfn_records 1 ck orphan) scan_start = scan_start\<lparr>lfn := orphan, lfn_checksum := ck, have_lfn := True\<rparr>"
    using assms(8) by (subst pass_records [OF assms(4,5)]) (auto simp: scan_start_def)
  then have "pass_entries ?es scan_start =
      scan_start\<lparr>lfn := name @ orphan, lfn_checksum := short_name_checksum e, have_lfn := True\<rparr>"
    using pass_records [OF assms(6,7), where k = 1 and ck = "short_name_checksum e" and
        s = "scan_start\<lparr>lfn := orphan, lfn_checksum := ck, have_lfn := True\<rparr>"] assms(8)
    by (simp add: pass_entries_def)
  then show ?thesis
    using readdir_after_run [OF assms(1-3) inv assms(9,10,12)] assms(11) by (simp add: decode_entry_def)
qed

section \<open>Files as slices of their chain\<close>

fun is_chain :: "'d fat32_volume \<Rightarrow> u32 list \<Rightarrow> bool" where
  "is_chain vol [] = True"
| "is_chain vol [c] = in_chain c"
| "is_chain vol (c # d # cs) \<longleftrightarrow> in_chain c \<and> fat_next_cluster vol c = Ok d \<and> is_chain vol (d # cs)"

definition cluster_bytes :: "'d fat32_volume \<Rightarrow> u32 \<Rightarrow> u8 list" where
  "cluster_bytes vol c = (case read_cluster vol c of Ok data \<Rightarrow> data | _ \<Rightarrow> [])"

definition readable :: "'d fat32_volume \<Rightarrow> u32 \<Rightarrow> bool" where
  "readable vol c \<longleftrightarrow> read_cluster vol c = Ok (cluster_bytes vol c)"

definition file_contents :: "'d fat32_volume \<Rightarrow> u32 list \<Rightarrow> fat32_entry \<Rightarrow> u8 list" where
  "file_contents vol cs e = take (unat (file_bytes e)) (concat (map (cluster_bytes vol) cs))"

lemma is_chain_tl: "is_chain vol (c # cs) \<Longrightarrow> in_chain c \<and> is_chain vol cs"
  by (cases cs) auto

lemma is_chain_next: "is_chain vol (c # cs) \<Longrightarrow> cs \<noteq> [] \<Longrightarrow> fat_next_cluster vol c = Ok (hd cs)"
  by (cases cs) auto

lemma is_chain_drop: "is_chain vol cs \<Longrightarrow> is_chain vol (drop n cs)"
proof (induction cs arbitrary: n)
  case (Cons c cs)
  then show ?case using is_chain_tl [OF Cons.prems] by (cases n) auto
qed simp

lemma cluster_bytes_length:
  "plain_geometry vol \<Longrightarrow> readable vol c \<Longrightarrow> length (cluster_bytes vol c) = unat (bytes_per_cluster vol)"
  using read_cluster_total(3) unfolding readable_def by blast

lemma chain_bytes_length:
  "plain_geometry vol \<Longrightarrow> \<forall>c \<in> set cs. readable vol c \<Longrightarrow>
     length (concat (map (cluster_bytes vol) cs)) = length cs * unat (bytes_per_cluster vol)"
  by (induction cs) (auto simp: cluster_bytes_length)

lemma chain_bytes_drop:
  "plain_geometry vol \<Longrightarrow> \<forall>c \<in> set cs. readable vol c \<Longrightarrow>
     drop (n * unat (bytes_per_cluster vol)) (concat (map (cluster_bytes vol) cs)) =
     concat (map (cluster_bytes vol) (drop n cs))"
proof (induction cs arbitrary: n)
  case (Cons c cs)
  show ?case
  proof (cases n)
    case (Suc m)
    then show ?thesis using Cons by (simp add: cluster_bytes_length)
  qed simp
qed simp

lemma skip_chain: "is_chain vol cs \<Longrightarrow> n < length cs \<Longrightarrow> skip_clusters vol n (hd cs) = Ok (cs ! n)"
proof (induction n arbitrary: cs)
  case 0
  then show ?case by (cases cs) auto
next
  case (Suc n)
  then obtain c ds where cs: "cs = c # ds" "ds \<noteq> []" by (cases cs) fastforce+
  then show ?case
    using Suc is_chain_tl [of vol c ds] is_chain_next [of vol c ds] by simp
qed

lemma copy_chain:
  assumes "plain_geometry vol"
  shows "\<lbrakk>is_chain vol cs; cs \<noteq> []; \<forall>c \<in> set cs. readable vol c; within < unat (bytes_per_cluster vol);
     within + todo \<le> length cs * unat (bytes_per_cluster vol); length cs \<le> left\<rbrakk> \<Longrightarrow>
     copy_clusters left vol (hd cs) within todo = (take todo (drop within (concat (map (cluster_bytes vol) cs))), Ok ())"
proof (induction cs arbitrary: left within todo)
  case (Cons c cs)
  let ?B = "unat (bytes_per_cluster vol)"
  obtain left' where left: "left = Suc left'" using Cons.prems(6) by (cases left) auto
  have c: "in_chain c" "is_chain vol cs" using is_chain_tl Cons.prems(1) by auto
  have r: "read_cluster vol c = Ok (cluster_bytes vol c)" and len: "length (cluster_bytes vol c) = ?B"
    using Cons.prems(3) assms by (auto simp: readable_def cluster_bytes_length)
  show ?case
  proof (cases "?B - within < todo")
    case False
    then show ?thesis
      using c r len left Cons.prems(4) by (subst copy_clusters.simps) (simp add: Let_def)
  next
    case True
    then have ne: "cs \<noteq> []" using Cons.prems(4,5) by (cases cs) auto
    have rest: "copy_clusters left' vol (hd cs) 0 (todo - (?B - within)) =
        (take (todo - (?B - within)) (drop 0 (concat (map (cluster_bytes vol) cs))), Ok ())"
      by (rule Cons.IH) (use Cons.prems True c ne left in auto)
    show ?thesis
      using True c r len left Cons.prems(4) is_chain_next [OF Cons.prems(1) ne] rest
      by (subst copy_clusters.simps) (simp add: Let_def)
  qed
qed simp

text \<open>
  (C17) Reading from an open file delivers exactly the bytes of its cluster chain from the cursor on, at most
  as many as asked for and none past the file's size, and moves the cursor by what was delivered.
\<close>

theorem read_slices:
  assumes "in_use (s_open_files s ! h)" "vol = volumes s (volume (s_open_files s ! h))" "plain_geometry vol"
    and "e = entry (s_open_files s ! h)" "pos = offset (s_open_files s ! h)"
    and "is_chain vol cs" "\<forall>c \<in> set cs. readable vol c" "cs = [] \<or> hd cs = first_cluster e"
    and "unat (file_bytes e) \<le> length cs * unat (bytes_per_cluster vol)"
    and "length cs \<le> unat (cluster_count vol)"
  shows "fat32_read s (Some h) True bytes =
     (let piece = take (unat bytes) (drop (unat pos) (file_contents vol cs e))
      in (piece, Ok (), s\<lparr>s_open_files := (s_open_files s)[h := (s_open_files s ! h)\<lparr>offset := pos + of_nat (length piece)\<rparr>]\<rparr>))"
proof (cases "file_bytes e \<le> pos")
  case True
  then have "unat (file_bytes e) \<le> unat pos" by (simp add: word_le_nat_alt)
  then show ?thesis
    using assms True by (simp add: fat32_read_def file_contents_def Let_def)
next
  case False
  let ?B = "unat (bytes_per_cluster vol)"
  let ?all = "concat (map (cluster_bytes vol) cs)"
  have lt: "unat pos < unat (file_bytes e)" using False by (simp add: word_le_nat_alt)
  define k where "k = unat pos div ?B"
  define within where "within = unat pos mod ?B"
  define count where "count = min (unat bytes) (unat (file_bytes e) - unat pos)"
  have B: "0 < ?B" using geometry_cluster_bytes(3) [OF assms(3)] .
  have pos: "unat pos = k * ?B + within" "within < ?B"
    using B by (simp_all add: k_def within_def)
  have k: "k < length cs"
  proof (rule ccontr)
    assume "\<not> k < length cs"
    then have "length cs * ?B \<le> k * ?B" by (intro mult_le_mono1) simp
    then show False using lt assms(9) pos(1) by linarith
  qed
  have hd: "hd cs = first_cluster e" using assms(8) k by auto
  have fits: "within + count \<le> length (drop k cs) * ?B"
  proof -
    have "k * ?B + (within + count) \<le> length cs * ?B"
      using pos(1) lt assms(9) by (simp add: count_def)
    then show ?thesis by (simp add: diff_mult_distrib)
  qed
  have all: "length ?all = length cs * ?B" using chain_bytes_length [OF assms(3,7)] .
  have copy: "copy_clusters (unat (cluster_count vol)) vol (cs ! k) within count =
      (take count (drop within (concat (map (cluster_bytes vol) (drop k cs)))), Ok ())"
    using copy_chain [OF assms(3) is_chain_drop [OF assms(6), of k] _ _ pos(2) fits, of "unat (cluster_count vol)"]
      k assms(7,10) by (simp add: hd_drop_conv_nth in_set_dropD [of _ k cs])
  have piece: "take count (drop within (concat (map (cluster_bytes vol) (drop k cs)))) =
      take (unat bytes) (drop (unat pos) (file_contents vol cs e))"
    unfolding chain_bytes_drop [OF assms(3,7), symmetric] file_contents_def count_def
    by (simp add: drop_take pos(1) add.commute min.commute take_take [symmetric] del: take_take)
  define cw where "cw = (if file_bytes e - pos < bytes then file_bytes e - pos else bytes)"
  have cnt: "unat cw = count"
    using False by (simp add: cw_def count_def word_less_nat_alt unat_sub min_def)
  have nz: "bytes_per_cluster vol \<noteq> 0" using B by auto
  have kw: "unat (pos div bytes_per_cluster vol) = k" "unat (pos mod bytes_per_cluster vol) = within"
    by (simp_all add: unat_div unat_mod k_def within_def)
  show ?thesis
    unfolding fat32_read_def option.case Let_def assms(2,4,5) [symmetric] cw_def [symmetric] kw cnt
      hd [symmetric] skip_chain [OF assms(6) k]
    using assms(1) False nz by (simp add: copy piece)
qed

section \<open>Staying inside the buffers\<close>

lemma scan_cluster_inside:
  assumes "\<forall>off \<in> set os. off + 32 \<le> length data" "scan_cluster data os index s = Return r"
  shows "r \<noteq> Fault"
  using assms
proof (induction os arbitrary: s)
  case (Cons off os)
  have entry: "scan_entry x index t = Return q \<Longrightarrow> q \<noteq> Fault" for x t q
    by (auto simp: scan_entry_def split: if_splits)
  show ?case
    using Cons.prems Cons.IH entry by (auto split: scan.splits)
qed simp

lemma entry_offsets_inside:
  "plain_geometry vol \<Longrightarrow> \<forall>off \<in> set (entry_offsets vol). off + 32 \<le> unat (bytes_per_cluster vol)"
  unfolding entry_offsets_def by (auto simp: geometry_cluster_bytes(1) sixteen_per_sector)

lemma readdir_walk_inside: "plain_geometry vol \<Longrightarrow> readdir_walk left vol cluster index s \<noteq> Fault"
proof (induction left arbitrary: cluster s)
  case 0
  then show ?case by (simp add: readdir_walk.simps)
next
  case (Suc left)
  show ?case
    unfolding readdir_walk.simps [of "Suc left"]
    using Suc read_cluster_total(1,3) [OF Suc.prems, of cluster] fat_next_total [OF Suc.prems, of cluster]
      entry_offsets_inside [OF Suc.prems]
    by (auto simp: andthen_Fault dest!: scan_cluster_inside [rotated] split: scan.splits)
qed

lemma skip_inside: "plain_geometry vol \<Longrightarrow> skip_clusters vol n cluster \<noteq> Fault"
proof (induction n arbitrary: cluster)
  case (Suc n)
  then show ?case using fat_next_total [OF Suc.prems, of cluster] by auto
qed simp

lemma copy_inside:
  assumes "plain_geometry vol"
  shows "within \<le> unat (bytes_per_cluster vol) \<Longrightarrow> copy_clusters left vol cluster within todo = (data, r) \<Longrightarrow>
     r \<noteq> Fault \<and> length data \<le> todo \<and> (r = Ok () \<longrightarrow> length data = todo)"
proof (induction left arbitrary: cluster within todo data)
  case 0
  then show ?case by (auto simp: copy_clusters.simps split: if_splits)
next
  case (Suc left)
  obtain n where n: "fat_next_cluster vol cluster = Ok n" using fat_next_total [OF assms] by blast
  note step = Suc.prems(2) [unfolded copy_clusters.simps [of "Suc left"]]
  show ?case
  proof (cases "read_cluster vol cluster")
    case (Ok d)
    note len = read_cluster_total(3) [OF assms Ok]
    show ?thesis
      using step Ok n len Suc.prems(1)
      by (auto simp: Let_def dest!: Suc.IH [rotated] split: if_splits prod.splits)
  qed (use step read_cluster_total(1) [OF assms, of cluster] in \<open>auto split: if_splits\<close>)
qed

theorem read_bounded:
  assumes "plain_geometry (volumes s (volume (s_open_files s ! h)))"
    and "fat32_read s (Some h) True bytes = (data, r, s')"
  shows "r \<noteq> Fault \<and> length data \<le> unat bytes \<and>
     (r = Ok () \<and> in_use (s_open_files s ! h) \<longrightarrow>
        length data = min (unat bytes) (unat (file_bytes (entry (s_open_files s ! h))) - unat (offset (s_open_files s ! h)))) \<and>
     (r \<noteq> Ok () \<longrightarrow> s' = s)"
proof -
  let ?f = "s_open_files s ! h"
  let ?vol = "volumes s (volume ?f)"
  define cw where "cw = (if file_bytes (entry ?f) - offset ?f < bytes then file_bytes (entry ?f) - offset ?f else bytes)"
  have nz: "bytes_per_cluster ?vol \<noteq> 0" using geometry_cluster_bytes(3) [OF assms(1)] by auto
  have w: "unat (offset ?f mod bytes_per_cluster ?vol) \<le> unat (bytes_per_cluster ?vol)"
    using geometry_cluster_bytes(3) [OF assms(1)] by (simp add: unat_mod less_imp_le)
  have copy: "q \<noteq> Fault \<and> length d \<le> unat cw \<and> (q = Ok () \<longrightarrow> length d = unat cw)"
    if "copy_clusters left ?vol c (unat (offset ?f mod bytes_per_cluster ?vol)) (unat cw) = (d, q)" for left c d q
    using copy_inside [OF assms(1) w that] .
  have cnt: "unat cw = min (unat bytes) (unat (file_bytes (entry ?f)) - unat (offset ?f))"
    if "\<not> file_bytes (entry ?f) \<le> offset ?f"
    using that by (simp add: cw_def word_less_nat_alt unat_sub min_def)
  note eq = assms(2) [unfolded fat32_read_def option.case Let_def, folded cw_def]
  show ?thesis
  proof (cases "file_bytes (entry ?f) \<le> offset ?f")
    case True
    then show ?thesis using eq by (auto simp: word_le_nat_alt split: if_splits)
  next
    case False
    let ?skip = "skip_clusters ?vol (unat (offset ?f div bytes_per_cluster ?vol)) (first_cluster (entry ?f))"
    show ?thesis
    proof (cases "in_use ?f \<and> (\<exists>c. ?skip = Ok c)")
      case True
      then obtain c where c: "?skip = Ok c" by blast
      obtain d q where cp: "copy_clusters (unat (cluster_count ?vol)) ?vol c
          (unat (offset ?f mod bytes_per_cluster ?vol)) (unat cw) = (d, q)" by fastforce
      have "data = d \<and> r = q \<and> (q \<noteq> Ok () \<longrightarrow> s' = s)"
        using eq False nz True c cp by (auto split: if_splits)
      then show ?thesis using copy [OF cp] cnt [OF False] by simp
    next
      case other: False
      then show ?thesis
        using eq False nz skip_inside [OF assms(1)] by (auto split: if_splits outcome.splits)
    qed
  qed
qed

lemma bpb_ok_geometry:
  assumes "fat32_mount vol device (Some part) = (Some v, Ok ())"
  shows "mounted v \<and> bytes_per_cluster v = bytes_per_sector v * sectors_per_cluster v \<and>
     0 < sectors_per_cluster v \<and> sectors_per_cluster v \<le> 128 \<and> dev v = device \<and> 65525 \<le> cluster_count v \<and>
     2 \<le> root_cluster v"
  using assms
  by (auto simp: fat32_mount_def Let_def bpb_fields_ok_def derived_fields_def bpb_fields_def zero_volume_def
      is_power_of_two_def word_gt_0 split: if_splits outcome.splits)

text \<open>
  (C19) After a successful mount of a volume with 512-byte sectors, whatever its directories and its FAT
  contain, neither listing a directory nor reading an open file touches a byte outside the sector and
  cluster buffers.
\<close>

theorem mounted_stays_inside:
  assumes "fat32_mount vol device part = (Some v, Ok ())" "whole_sectors device" "bytes_per_sector v = 512"
  shows "plain_geometry v \<and> 65525 \<le> cluster_count v \<and>
     fat32_readdir (Some v) cluster index out_given \<noteq> Fault \<and>
     (volumes s (volume (s_open_files s ! h)) = v \<longrightarrow> fst (snd (fat32_read s (Some h) buffer_given bytes)) \<noteq> Fault)"
proof -
  obtain p where p: "part = Some p"
    using assms(1) by (cases part) (auto simp: fat32_mount_def)
  have g: "plain_geometry v" "65525 \<le> cluster_count v"
    using bpb_ok_geometry [OF assms(1) [unfolded p]] assms(2,3) by (auto simp: plain_geometry_def)
  have "fst (snd (fat32_read s (Some h) buffer_given bytes)) \<noteq> Fault"
    if "volumes s (volume (s_open_files s ! h)) = v"
  proof (cases buffer_given)
    case True
    obtain d r s' where "fat32_read s (Some h) True bytes = (d, r, s')" by (metis prod_cases3)
    then show ?thesis using read_bounded [of s h bytes d r s'] g(1) that True by auto
  qed (simp add: fat32_read_def Let_def)
  then show ?thesis
    using g readdir_walk_inside [OF g(1)] by (simp add: fat32_readdir_def)
qed

text \<open>
  The other sector sizes \<open>fat32_mount\<close> accepts. The sector buffer has 512 bytes and one device sector
  is read into it, but the offset of the entry runs up to \<open>bytes_per_sector - 4\<close>: three entries of
  four, or more, are read from beyond the buffer.
\<close>

theorem large_sectors_overread:
  assumes "whole_sectors (dev vol)" "bytes_per_sector vol \<in> {1024, 2048, 4096}"
    and "512 \<le> unat cluster * 4 mod unat (bytes_per_sector vol)"
    and "block_read (dev vol) (fat_start_lba vol + ucast cluster * 4 div ucast (bytes_per_sector vol)) 1 = Ok data"
  shows "fat_next_cluster vol cluster = Fault"
proof -
  let ?m = "(ucast cluster * 4 :: u64) mod ucast (bytes_per_sector vol)"
  have b: "unat (bytes_per_sector vol) \<in> {1024, 2048, 4096}" using assms(2) by auto
  have "unat (ucast (bytes_per_sector vol) :: u64) = unat (bytes_per_sector vol)"
    by (simp add: unsigned_ucast_eq take_bit_nat_eq_self less_trans [OF unat_bound])
  then have m: "unat ?m = 4 * unat cluster mod unat (bytes_per_sector vol)"
    unfolding unat_mod_distrib unat_fat_offset by simp
  then have "unat ?m < 2 ^ 32" using b by (auto intro: less_trans [OF mod_less_divisor])
  then have "unat (ucast ?m :: u32) = 4 * unat cluster mod unat (bytes_per_sector vol)"
    using m by (simp add: unsigned_ucast_eq take_bit_nat_eq_self)
  then have off: "512 \<le> unat (ucast ?m :: u32)"
    using assms(3) by (simp add: mult.commute)
  have "read_sector (dev vol) (fat_start_lba vol + ucast cluster * 4 div ucast (bytes_per_sector vol)) = Ok data"
      "length data = 512"
    using whole_sectors_read(2) [OF assms(1,4)] assms(4) by (simp_all add: read_sector_def)
  then show ?thesis using off by (simp add: fat_next_cluster_def Let_def)
qed

section \<open>A volume to run the reader on\<close>

text \<open>
  A disk of 70000 sectors: the boot sector, a FAT of 512 sectors, and from sector 513 the clusters.
  The root directory holds \<open>hello.txt\<close>, of 520 bytes in clusters 3 and 4.
\<close>

definition pad_sector :: "u8 list \<Rightarrow> u8 list" where
  "pad_sector xs = take 512 (xs @ replicate 512 0)"

definition demo_name :: "u8 list" where
  "demo_name = [0x68, 0x65, 0x6C, 0x6C, 0x6F, 0x2E, 0x74, 0x78, 0x74]"

definition demo_short :: "u8 list" where
  "demo_short = [0x48, 0x45, 0x4C, 0x4C, 0x4F, 0x20, 0x20, 0x20, 0x54, 0x58, 0x54, 0x20, 0, 0, 0, 0,
     0, 0, 0, 0, 0, 0, 0, 0, 0, 0, 3, 0, 0x08, 0x02, 0, 0]"

definition demo_bpb :: "u8 list" where
  "demo_bpb = [0xEB, 0x58, 0x90, 0, 0, 0, 0, 0, 0, 0, 0, 0x00, 0x02, 1, 1, 0, 1, 0, 0, 0, 0, 0, 0, 0,
     0, 0, 0, 0, 0, 0, 0, 0, 0, 0, 0, 0, 0x00, 0x02, 0, 0, 0, 0, 0, 0, 2, 0, 0, 0] @ replicate 462 0 @ [0x55, 0xAA]"

definition demo_fat :: "u8 list" where
  "demo_fat = [0xF8, 0xFF, 0xFF, 0x0F, 0xFF, 0xFF, 0xFF, 0x0F, 0xFF, 0xFF, 0xFF, 0x0F, 4, 0, 0, 0, 0xFF, 0xFF, 0xFF, 0x0F]"

definition demo_sector :: "u64 \<Rightarrow> u8 list" where
  "demo_sector lba = pad_sector (
     if lba = 0 then demo_bpb
     else if lba = 1 then demo_fat
     else if lba = 513 then concat (lfn_records 1 (short_name_checksum demo_short) demo_name) @ demo_short
     else if lba = 514 then replicate 512 7
     else if lba = 515 then [1, 2, 3, 4, 5, 6, 7, 8]
     else [])"

definition demo_disk :: "unit af_block_device" where
  "demo_disk = \<lparr>dev_name = ''demo'', sector_count = 70000, sector_size = 512,
     dev_read = Some (\<lambda>d lba n. Ok (concat (map (\<lambda>k. demo_sector (lba + of_nat k)) [0..<unat n]))),
     dev_write = None, read_only = True, driver_data = ()\<rparr>"

definition demo_partition :: af_partition where
  "demo_partition = \<lparr>start_lba = 0, part_sectors = 70000, part_name = [], type_guid = k_esp_type_guid\<rparr>"

definition demo_volume :: "unit fat32_volume" where
  "demo_volume = \<lparr>dev = Some demo_disk, partition_start = 0, bytes_per_sector = 512, sectors_per_cluster = 1,
     reserved_sectors = 1, num_fats = 1, fat_sectors = 512, root_cluster = 2, bytes_per_cluster = 512,
     fat_start_lba = 1, data_start_lba = 513, cluster_count = 69487, mounted = True\<rparr>"

lemma demo_sector_length [simp]: "length (demo_sector lba) = 512"
  by (simp add: demo_sector_def pad_sector_def)

lemma demo_whole: "whole_sectors (Some demo_disk)"
proof -
  have "length (concat (map (\<lambda>k. demo_sector (lba + of_nat k)) [0..<n])) = 512 * n" for lba n
    by (induction n) simp_all
  then show ?thesis
    by (auto simp: whole_sectors_def block_read_def check_range_def demo_disk_def Let_def)
qed

lemma demo_read: "lba < 70000 \<Longrightarrow> block_read (Some demo_disk) lba 1 = Ok (demo_sector lba)"
  using inc_le [of lba 70000]
  by (simp add: block_read_def check_range_def demo_disk_def Let_def not_less [symmetric] upt_rec)

lemma demo_mounts: "fat32_mount (Some zero_volume) (Some demo_disk) (Some demo_partition) = (Some demo_volume, Ok ())"
proof -
  have s: "read_sector (Some demo_disk) 0 = Ok demo_bpb"
    by (simp add: read_sector_def demo_read demo_sector_def pad_sector_def demo_bpb_def)
  show ?thesis
    unfolding fat32_mount_def demo_partition_def
    by (simp add: s zero_volume_def Let_def bpb_fields_def demo_bpb_def bpb_fields_ok_def is_power_of_two_def derived_fields_def
        rd16_def rd32_def demo_volume_def nth_append)
qed


lemma demo_geometry: "plain_geometry demo_volume" "countable_dirs demo_volume"
  using demo_whole by (simp_all add: plain_geometry_def countable_dirs_def demo_volume_def entry_offsets_def)

lemma demo_clusters:
  "read_cluster demo_volume 2 = Ok (demo_sector 513)"
  "read_cluster demo_volume 3 = Ok (demo_sector 514)"
  "read_cluster demo_volume 4 = Ok (demo_sector 515)"
  by (simp_all add: read_cluster_def cluster_to_lba_def demo_volume_def demo_read)

lemma demo_fat_links:
  "fat_next_cluster demo_volume 2 = Ok 0x0FFFFFFF" "fat_next_cluster demo_volume 3 = Ok 4"
  by (simp_all add: fat_next_cluster_def demo_volume_def read_sector_def demo_read demo_sector_def
      pad_sector_def demo_fat_def rd32_def)

lemma demo_records: "lfn_records 1 ck demo_name = [lfn_record 1 True ck demo_name]"
  by (simp add: demo_name_def lfn_records.simps)

lemma demo_short_length: "length demo_short = 32"
  by (simp add: demo_short_def)

lemma demo_root: "demo_sector 513 =
    concat (lfn_records 1 (short_name_checksum demo_short) demo_name) @ demo_short @ replicate 448 0"
  by (simp add: demo_sector_def pad_sector_def demo_records [simplified] demo_short_length)



definition demo_entry :: fat32_entry where
  "demo_entry = \<lparr>first_cluster = 3, file_bytes = 520, is_directory = False, entry_name = demo_name\<rparr>"

definition demo_files :: "unit fat32_state" where
  "demo_files = \<lparr>volumes = (\<lambda>_. demo_volume),
     s_open_files = [\<lparr>in_use = True, volume = 0, entry = demo_entry, offset = 510\<rparr>]\<rparr>"

theorem mounted_stays_inside_witness:
  "plain_geometry demo_volume \<and> fat32_readdir (Some demo_volume) 2 7 True \<noteq> Fault \<and>
   fst (snd (fat32_read demo_files (Some 0) True 100)) \<noteq> Fault"
proof -
  have "volumes demo_files (volume (s_open_files demo_files ! 0)) = demo_volume"
    by (simp add: demo_files_def)
  then show ?thesis
    using mounted_stays_inside [OF demo_mounts demo_whole, of 2 7 True demo_files 0 True 100]
    by (simp add: demo_volume_def)
qed

theorem read_slices_witness:
  "fst (fat32_read demo_files (Some 0) True 100) = [7, 7, 1, 2, 3, 4, 5, 6, 7, 8]"
proof -
  have two: "replicate 2 x = [x, x]" for x :: u8 by (simp add: numeral_2_eq_2)
  have chain: "is_chain demo_volume [3, 4]"
    by (simp add: in_chain_def demo_fat_links)
  have bytes: "cluster_bytes demo_volume 3 = demo_sector 514" "cluster_bytes demo_volume 4 = demo_sector 515"
    by (simp_all add: cluster_bytes_def demo_clusters)
  have reads: "\<forall>c \<in> set [3, 4]. readable demo_volume c"
    using bytes by (simp add: readable_def demo_clusters)
  have "fat32_read demo_files (Some 0) True 100 =
     (let piece = take (unat (100 :: u32)) (drop (unat (510 :: u32)) (file_contents demo_volume [3, 4] demo_entry))
      in (piece, Ok (), demo_files\<lparr>s_open_files := (s_open_files demo_files)[0 := (s_open_files demo_files ! 0)\<lparr>offset := 510 + of_nat (length piece)\<rparr>]\<rparr>))"
    by (rule read_slices [OF _ _ demo_geometry(1) _ _ chain reads])
      (simp_all add: demo_files_def demo_entry_def demo_volume_def)
  then show ?thesis
    by (simp add: Let_def file_contents_def bytes demo_entry_def, simp add: demo_sector_def pad_sector_def two)
qed

lemma demo_listing: "listing demo_volume 2 = ([demo_entry], Fail AF_ERR_NOENT)"
proof -
  let ?rec = "lfn_record 1 True (short_name_checksum demo_short) demo_name"
  have root: "demo_sector 513 = ?rec @ demo_short @ replicate 448 0"
    using demo_root by (simp add: demo_records [simplified])
  have offs: "entry_offsets demo_volume = 0 # 32 # 64 # map (\<lambda>k. 32 * k) [3..<16]"
    by (simp add: entry_offsets_def demo_volume_def upt_rec)
  have n: "plain_name demo_name" "length demo_name \<le> 13"
    by (simp_all add: plain_name_def demo_name_def)
  have pass: "pass_entry ?rec scan_start = scan_start\<lparr>lfn := demo_name, lfn_checksum := short_name_checksum demo_short, have_lfn := True\<rparr>"
    using pass_record [OF n, of 1 True "short_name_checksum demo_short" scan_start] n(2)
    by (simp add: scan_start_def)
  have vis: "\<not> visible ?rec" "?rec ! 0 \<noteq> 0" "visible demo_short" "demo_short ! 0 \<noteq> 0" "demo_short ! 0 \<noteq> 0x2E"
    by (simp_all add: visible_def demo_short_def)
  have dec: "decode_entry demo_short (scan_start\<lparr>lfn := demo_name, lfn_checksum := short_name_checksum demo_short, have_lfn := True\<rparr>) = demo_entry"
    using vis(5) by (simp add: decode_entry_def demo_entry_def, simp add: demo_short_def rd16_def rd32_def)
  have "list_cluster (demo_sector 513) (entry_offsets demo_volume) scan_start = ([demo_entry], Inl (Fail AF_ERR_NOENT))"
    unfolding offs root using vis pass dec by (simp add: demo_short_length)
  moreover have count: "unat (cluster_count demo_volume) = Suc 69486" by (simp add: demo_volume_def)
  ultimately show ?thesis
    unfolding listing_def count list_dir.simps [of "Suc 69486"] by (simp add: in_chain_def demo_clusters)
qed

definition shouted_path :: "u8 list" where
  "shouted_path = [0x5C, 0x2F, 0x48, 0x45, 0x4C, 0x4C, 0x4F, 0x2E, 0x54, 0x58, 0x54]"

theorem lookup_resolves_witness:
  "fat32_lookup (Some demo_volume) (Some shouted_path) True = Some (Ok demo_entry)"
proof -
  have names: "path_names (cstr shouted_path) = [[0x48, 0x45, 0x4C, 0x4C, 0x4F, 0x2E, 0x54, 0x58, 0x54]]"
    by (simp add: path_names_def shouted_path_def cstr_def is_separator_def)
  have root: "root_cluster demo_volume = 2" by (simp add: demo_volume_def)
  show ?thesis
    using lookup_resolves [OF demo_geometry, of shouted_path] names root demo_listing
    by (simp add: name_matches_def demo_entry_def demo_name_def upper_def)
qed

theorem large_sectors_overread_witness:
  "fat_next_cluster (demo_volume\<lparr>bytes_per_sector := 4096\<rparr>) 200 = Fault"
  by (rule large_sectors_overread [where data = "demo_sector 1"])
    (simp_all add: demo_volume_def demo_whole demo_read)

theorem partition_size_wraps:
  "fat32_mount (Some zero_volume) (Some demo_disk) (Some (demo_partition\<lparr>part_sectors := 1\<rparr>)) =
     (Some (demo_volume\<lparr>cluster_count := 4294966784\<rparr>), Ok ())"
proof -
  have s: "read_sector (Some demo_disk) 0 = Ok demo_bpb"
    by (simp add: read_sector_def demo_read demo_sector_def pad_sector_def demo_bpb_def)
  show ?thesis
    unfolding fat32_mount_def demo_partition_def
    by (simp add: s zero_volume_def Let_def bpb_fields_def demo_bpb_def bpb_fields_ok_def is_power_of_two_def derived_fields_def
        rd16_def rd32_def demo_volume_def nth_append)
qed

end
