(* ===== verification/Elf.thy ===== *)
theory Elf
  imports Syscall Fat32
begin

text \<open>
  The ELF64 loader (\<open>kernel/core/elf.c\<close>): header validation, the segments of a program mapped page by
  page into the current address space, the stack, and the start of the first program. The file comes
  from \<open>Fat32\<close>, frames from \<open>Pmm\<close>, mappings from \<open>Paging\<close>, the process from \<open>Process\<close> and \<open>Sched\<close>.
\<close>

section \<open>Headers\<close>

abbreviation (input) "AF_ELF_MAX_IMAGE \<equiv> (0x400000 :: u32)"
abbreviation (input) "AF_ELF_STACK_TOP \<equiv> (0x8000100000 :: u64)"
abbreviation (input) "AF_ELF_STACK_SIZE \<equiv> (0x10000 :: u64)"

abbreviation (input) "e_type img \<equiv> rd16 img 16"
abbreviation (input) "e_machine img \<equiv> rd16 img 18"
abbreviation (input) "e_entry img \<equiv> rd64 img 24"
abbreviation (input) "e_phoff img \<equiv> rd64 img 32"
abbreviation (input) "e_phentsize img \<equiv> rd16 img 54"
abbreviation (input) "e_phnum img \<equiv> rd16 img 56"

definition validate_header :: "u8 list \<Rightarrow> af_status" where
  "validate_header img =
     (let file_size = of_nat (length img) :: u64 in
      if file_size < 64 then AF_ERR_INVAL
      else if img ! 0 \<noteq> 0x7F \<or> img ! 1 \<noteq> 0x45 \<or> img ! 2 \<noteq> 0x4C \<or> img ! 3 \<noteq> 0x46 then AF_ERR_INVAL
      else if img ! 4 \<noteq> 2 then AF_ERR_NOTSUP
      else if img ! 5 \<noteq> 1 then AF_ERR_NOTSUP
      else if e_type img \<noteq> 2 \<and> e_type img \<noteq> 3 then AF_ERR_NOTSUP
      else if e_machine img \<noteq> 62 then AF_ERR_NOTSUP
      else if e_phnum img = 0 then AF_ERR_INVAL
      else if e_phentsize img \<noteq> 56 then AF_ERR_INVAL
      else let table_end = e_phoff img + ucast (e_phnum img) * ucast (e_phentsize img) in
        if file_size < e_phoff img \<or> file_size < table_end then AF_ERR_INVAL
        else AF_OK)"

record elf64_program_header =
  p_type :: u32
  p_flags :: u32
  p_offset :: u64
  p_vaddr :: u64
  p_filesz :: u64
  p_memsz :: u64

definition program_header :: "u8 list \<Rightarrow> nat \<Rightarrow> elf64_program_header" where
  "program_header img i =
     (let p = unat (e_phoff img) + i * unat (e_phentsize img) in
      \<lparr>p_type = rd32 img p, p_flags = rd32 img (p + 4), p_offset = rd64 img (p + 8),
       p_vaddr = rd64 img (p + 16), p_filesz = rd64 img (p + 32), p_memsz = rd64 img (p + 40)\<rparr>)"

definition segment_to_hal_flags :: "u32 \<Rightarrow> u32" where
  "segment_to_hal_flags flags =
     (HAL_PRESENT OR HAL_USER) OR (if flags AND 2 \<noteq> 0 then HAL_WRITABLE else 0) OR
     (if flags AND 1 \<noteq> 0 then HAL_EXEC else 0)"

section \<open>Segments\<close>

definition write_phys :: "u64 \<Rightarrow> u8 list \<Rightarrow> vm_state \<Rightarrow> vm_state" where
  "write_phys dst bytes s =
     s\<lparr>frames := (frames s)\<lparr>phys_mem := \<lambda>a. if unat (a - dst) < length bytes then bytes ! unat (a - dst) else phys_mem (frames s) a\<rparr>\<rparr>"

text \<open>
  Copying into a frame. The memory behind the image and behind the frame belongs to others: a copy that
  leaves either is a \<open>Fault\<close>.
\<close>

definition copy_page :: "u8 list \<Rightarrow> elf64_program_header \<Rightarrow> u64 \<Rightarrow> u64 \<Rightarrow> vm_state \<Rightarrow> unit outcome \<times> vm_state" where
  "copy_page img ph page_start frame s =
     (let file_start = p_vaddr ph;
          file_end = p_vaddr ph + p_filesz ph
      in if page_start < file_end \<and> file_start < page_start + AF_PAGE_SIZE
         then let copy_from = (if file_start < page_start then page_start else file_start);
                  copy_to = (if page_start + AF_PAGE_SIZE < file_end then page_start + AF_PAGE_SIZE else file_end);
                  offset_in_page = copy_from - page_start;
                  len = copy_to - copy_from;
                  offset_in_file = p_offset ph + (copy_from - p_vaddr ph)
              in if 4096 < unat offset_in_page + unat len \<or> length img < unat offset_in_file + unat len then (Fault, s)
                 else (Ok (), write_phys (frame + offset_in_page) (take (unat len) (drop (unat offset_in_file) img)) s)
         else (Ok (), s))"

text \<open>The outer \<open>None\<close> is an assertion of the memory manager.\<close>

definition load_page ::
  "u8 list \<Rightarrow> u64 \<Rightarrow> elf64_program_header \<Rightarrow> u32 \<Rightarrow> u64 \<Rightarrow> vm_state \<Rightarrow> (unit outcome \<times> vm_state) option" where
  "load_page img root ph flags va s =
     (let (frame, p) = pmm_alloc_frame_z (frames s); s1 = s\<lparr>frames := p\<rparr> in
      if frame = AF_FRAME_INVALID then Some (Fail AF_ERR_NOMEM, s1)
      else let (rc, s2) = hal_map_page root va frame flags s1 in
        if af_status_err rc
        then (case free_frame frame s2 of None \<Rightarrow> None | Some s3 \<Rightarrow> Some (Fail rc, s3))
        else Some (copy_page img ph va frame s2))"

fun load_pages ::
  "nat \<Rightarrow> u8 list \<Rightarrow> u64 \<Rightarrow> elf64_program_header \<Rightarrow> u32 \<Rightarrow> u64 \<Rightarrow> vm_state \<Rightarrow> (unit outcome \<times> vm_state) option" where
  "load_pages 0 img root ph flags va s = Some (Ok (), s)"
| "load_pages (Suc n) img root ph flags va s =
     (case load_page img root ph flags va s of
        None \<Rightarrow> None
      | Some (Ok _, s1) \<Rightarrow> load_pages n img root ph flags (va + AF_PAGE_SIZE) s1
      | Some (r, s1) \<Rightarrow> Some (r, s1))"

text \<open>The result says whether the segment counts as loaded.\<close>

definition load_segment ::
  "u8 list \<Rightarrow> u64 \<Rightarrow> elf64_program_header \<Rightarrow> vm_state \<Rightarrow> (bool outcome \<times> vm_state) option" where
  "load_segment img root ph s =
     (let file_size = of_nat (length img) :: u64 in
      if p_type ph \<noteq> 1 then Some (Ok False, s)
      else if p_memsz ph = 0 then Some (Ok False, s)
      else if file_size < p_offset ph \<or> file_size < p_offset ph + p_filesz ph then Some (Fail AF_ERR_INVAL, s)
      else if p_memsz ph < p_filesz ph then Some (Fail AF_ERR_INVAL, s)
      else let start = align_down (p_vaddr ph) AF_PAGE_SIZE;
               end_addr = align_up (p_vaddr ph + p_memsz ph) AF_PAGE_SIZE;
               pages = (end_addr - start) div AF_PAGE_SIZE
        in if start AND NOT AF_USER_TOP \<noteq> 0 then Some (Fail AF_ERR_INVAL, s)
           else case load_pages (unat pages) img root ph (segment_to_hal_flags (p_flags ph)) start s of
               None \<Rightarrow> None
             | Some (r, s1) \<Rightarrow> Some (andthen r (\<lambda>_. Ok True), s1))"

fun load_segments ::
  "nat list \<Rightarrow> u8 list \<Rightarrow> u64 \<Rightarrow> u32 \<Rightarrow> vm_state \<Rightarrow> (u32 outcome \<times> vm_state) option" where
  "load_segments [] img root loaded s = Some (Ok loaded, s)"
| "load_segments (i # is) img root loaded s =
     (case load_segment img root (program_header img i) s of
        None \<Rightarrow> None
      | Some (Ok counted, s1) \<Rightarrow> load_segments is img root (if counted then loaded + 1 else loaded) s1
      | Some (Fail e, s1) \<Rightarrow> Some (Fail e, s1)
      | Some (Fault, s1) \<Rightarrow> Some (Fault, s1))"

section \<open>The stack\<close>

fun map_stack :: "nat \<Rightarrow> u64 \<Rightarrow> u64 \<Rightarrow> vm_state \<Rightarrow> (unit outcome \<times> vm_state) option" where
  "map_stack 0 root va s = Some (Ok (), s)"
| "map_stack (Suc n) root va s =
     (let (frame, p) = pmm_alloc_frame_z (frames s); s1 = s\<lparr>frames := p\<rparr> in
      if frame = AF_FRAME_INVALID then Some (Fail AF_ERR_NOMEM, s1)
      else let (rc, s2) = hal_map_page root va frame (HAL_PRESENT OR HAL_WRITABLE OR HAL_USER) s1 in
        if af_status_err rc
        then (case free_frame frame s2 of None \<Rightarrow> None | Some s3 \<Rightarrow> Some (Fail rc, s3))
        else map_stack n root (va + AF_PAGE_SIZE) s2)"

section \<open>Loading a program\<close>

text \<open>From the image in memory to the entry point and the top of the stack.\<close>

definition map_image :: "u8 list \<Rightarrow> vm_state \<Rightarrow> ((u64 \<times> u64) outcome \<times> vm_state) option" where
  "map_image img s =
     (if af_status_err (validate_header img) then Some (Fail (validate_header img), s)
      else let root = hal_get_page_table s in
        case load_segments [0..<unat (e_phnum img)] img root 0 s of
            None \<Rightarrow> None
          | Some (Fail e, s1) \<Rightarrow> Some (Fail e, s1)
          | Some (Fault, s1) \<Rightarrow> Some (Fault, s1)
          | Some (Ok loaded, s1) \<Rightarrow>
              if loaded = 0 then Some (Fail AF_ERR_INVAL, s1)
              else case map_stack (unat (AF_ELF_STACK_SIZE div AF_PAGE_SIZE)) root (AF_ELF_STACK_TOP - AF_ELF_STACK_SIZE) s1 of
                  None \<Rightarrow> None
                | Some (r, s2) \<Rightarrow> Some (andthen r (\<lambda>_. Ok (e_entry img, AF_ELF_STACK_TOP)), s2))"

text \<open>\<open>heap_ok\<close>: whether \<open>kmalloc\<close> finds room for the image.\<close>

definition elf_load ::
  "bool \<Rightarrow> 'd fat32_state \<Rightarrow> nat option \<Rightarrow> u8 list option \<Rightarrow> bool \<Rightarrow> vm_state \<Rightarrow>
     ((u64 \<times> u64) outcome \<times> 'd fat32_state \<times> vm_state) option" where
  "elf_load heap_ok fs vol path out_given s =
     (if vol = None \<or> path = None \<or> \<not> out_given then Some (Fail AF_ERR_INVAL, fs, s)
      else case fat32_lookup (map_option (volumes fs) vol) path True of
          None \<Rightarrow> None
        | Some (Fail e) \<Rightarrow> Some (Fail e, fs, s)
        | Some Fault \<Rightarrow> Some (Fault, fs, s)
        | Some (Ok ent) \<Rightarrow>
            if is_directory ent then Some (Fail AF_ERR_ISDIR, fs, s)
            else if file_bytes ent = 0 \<or> AF_ELF_MAX_IMAGE < file_bytes ent then Some (Fail AF_ERR_INVAL, fs, s)
            else if \<not> heap_ok then Some (Fail AF_ERR_NOMEM, fs, s)
            else case fat32_read_file fs vol path (file_bytes ent) of
                None \<Rightarrow> None
              | Some (img, Fail e, fs1) \<Rightarrow> Some (Fail e, fs1, s)
              | Some (img, Fault, fs1) \<Rightarrow> Some (Fault, fs1, s)
              | Some (img, Ok _, fs1) \<Rightarrow>
                  (case map_image img s of
                     None \<Rightarrow> None
                   | Some (r, s1) \<Rightarrow> Some (r, fs1, s1)))"

section \<open>Starting the first program\<close>

text \<open>
  \<open>None\<close> is a panic (no thread, no process, a program that cannot be loaded), the result otherwise the
  entry point and the stack with which ring 3 is entered. The name of the process is its path.
\<close>

definition elf_exec ::
  "bool \<Rightarrow> bool \<Rightarrow> 'd fat32_state \<Rightarrow> nat option \<Rightarrow> u8 list \<Rightarrow> sys_state \<Rightarrow>
     (u64 \<times> u64 \<times> 'd fat32_state \<times> sys_state) option" where
  "elf_exec heap_ok caps_ok fs vol path s =
     (case thread_current (kern s) of
        None \<Rightarrow> None
      | Some self \<Rightarrow>
          let (space, v1) = (case free_process_slot (kern s) of None \<Rightarrow> (0, current_vm s) | Some _ \<Rightarrow> hal_pt_create_user (current_vm s));
              (proc, k1) = process_create space caps_ok (map (char_of \<circ> unat) (cstr path)) AF_PID_KERNEL (kern s)
          in case proc of
              None \<Rightarrow> None
            | Some p \<Rightarrow>
                let k2 = sched_set_process (Some p) (process_attach_thread (Some p) (Some self) k1);
                    s1 = s\<lparr>kern := k2, vm := v1\<rparr>
                in case elf_load heap_ok fs vol (Some path) True (current_vm s1) of
                    Some (Ok (entry_point, stack_top), fs1, v2) \<Rightarrow> Some (entry_point, stack_top, fs1, s1\<lparr>vm := v2\<rparr>)
                  | _ \<Rightarrow> None)"

section \<open>Memory under the page tables\<close>

text \<open>The bytes of a frame.\<close>

lemma frame_byte:
  assumes "frame_address f" "k < 4096"
  shows "unat (f + of_nat k) = unat f + k" "frame_number (f + of_nat k) = frame_number f" "f OR of_nat k = f + of_nat k"
proof -
  have k: "unat (of_nat k :: u64) = k" using assms(2) by (simp add: unat_of_nat)
  show "unat (f + of_nat k) = unat f + k" "frame_number (f + of_nat k) = frame_number f"
    using frame_offset [OF assms] by simp_all
  have "f AND of_nat k = 0"
  proof (rule bit_word_eqI)
    fix n
    have "bit (of_nat k :: u64) n \<Longrightarrow> n < 12"
      using take_bit_small [of "of_nat k :: u64" 12] k assms(2) by (simp add: bit_take_bit_iff) (metis bit_take_bit_iff)
    then show "bit (f AND of_nat k) n \<longleftrightarrow> bit (0 :: u64) n"
      using frame_bits [OF assms(1), of n] by (auto simp: bit_and_iff)
  qed
  then show "f OR of_nat k = f + of_nat k" using word_plus_and_or [of f "of_nat k"] by simp
qed

text \<open>The mapping code only clears frames that were free.\<close>

definition mem_kept :: "vm_state \<Rightarrow> vm_state \<Rightarrow> bool" where
  "mem_kept s s' \<longleftrightarrow> pmm_inv (frames s') \<and> free_set (frames s') \<subseteq> free_set (frames s) \<and> page_root s' = page_root s \<and>
     (\<forall>g. frame_owned (frames s) g \<longrightarrow> frame_owned (frames s') g) \<and>
     (\<forall>a. frame_number a \<notin> free_set (frames s) \<longrightarrow> phys_mem (frames s') a = phys_mem (frames s) a)"

lemma mem_kept_trans: "mem_kept s s1 \<Longrightarrow> mem_kept s1 s2 \<Longrightarrow> mem_kept s s2"
  unfolding mem_kept_def by auto

lemma mem_kept_refl: "pmm_inv (frames s) \<Longrightarrow> mem_kept s s"
  by (simp add: mem_kept_def)

lemma alloc_table_kept:
  assumes "pmm_inv (frames s)" "alloc_table s = (t, s1)"
  shows "mem_kept s s1"
proof -
  obtain p where a: "pmm_alloc_frame_z (frames s) = (t, p)" and s1: "frames s1 = p" "page_root s1 = page_root s"
    using assms(2) by (auto simp: alloc_table_def Let_def split: prod.splits if_splits)
  show ?thesis
  proof (cases "t = 0")
    case True
    then show ?thesis using alloc_z_none [OF assms(1)] a s1 assms(1) by (auto simp: mem_kept_def)
  next
    case False
    note al = alloc_z_ok [OF assms(1) a False]
    have "phys_mem p x = phys_mem (frames s) x" if "frame_number x \<notin> free_set (frames s)" for x
      using in_frame_number [OF al(2), of x] al(3,6) that by metis
    then show ?thesis unfolding mem_kept_def s1 using al(1,4,5) by blast
  qed
qed

lemma walk_kept: "pmm_inv (frames s) \<Longrightarrow> walk_to_next_level parent i flags s = (r, s1) \<Longrightarrow> mem_kept s s1"
proof -
  assume inv: "pmm_inv (frames s)" and w: "walk_to_next_level parent i flags s = (r, s1)"
  obtain t s2 where a: "alloc_table s = (t, s2)" by fastforce
  have "frames s1 = frames s2 \<and> page_root s1 = page_root s2 \<or> frames s1 = frames s \<and> page_root s1 = page_root s"
    using w a by (auto simp: walk_to_next_level_def Let_def split: if_splits)
  then show ?thesis using alloc_table_kept [OF inv a] inv by (auto simp: mem_kept_def)
qed

lemma map_page_kept: "pmm_inv (frames s) \<Longrightarrow> hal_map_page root va pa flags s = (rc, s') \<Longrightarrow> mem_kept s s'"
proof -
  assume inv: "pmm_inv (frames s)" and m: "hal_map_page root va pa flags s = (rc, s')"
  obtain r1 s1 where 1: "walk_to_next_level root (pml4_index va) flags s = (r1, s1)" by fastforce
  obtain r2 s2 where 2: "walk_to_next_level (the r1) (pdpt_index va) flags s1 = (r2, s2)" by fastforce
  obtain r3 s3 where 3: "walk_to_next_level (the r2) (pd_index va) flags s2 = (r3, s3)" by fastforce
  have k1: "mem_kept s s1" using walk_kept [OF inv 1] .
  have k2: "mem_kept s1 s2" using walk_kept [OF _ 2] k1 by (simp add: mem_kept_def)
  have k3: "mem_kept s2 s3" using walk_kept [OF _ 3] k2 by (simp add: mem_kept_def)
  define t where "t = (if r1 = None then s1 else if r2 = None then s2 else s3)"
  have kt: "mem_kept s t"
    using k1 mem_kept_trans [OF k1 k2] mem_kept_trans [OF mem_kept_trans [OF k1 k2] k3] by (simp add: t_def)
  have "s' = s \<or> s' = t \<or> (\<exists>x i e. s' = set_entry x i e t)"
  proof (cases "root = 0 \<or> \<not> is_aligned va AF_PAGE_SIZE \<or> \<not> is_aligned pa AF_PAGE_SIZE \<or> r1 = None \<or> r2 = None")
    case True
    then show ?thesis using m 1 2 by (auto simp: hal_map_page_def t_def split: if_splits option.splits)
  next
    case False
    then obtain pdpt pd where r: "r1 = Some pdpt" "r2 = Some pd" by auto
    show ?thesis
      using m False 1 2 3 unfolding r by (cases r3) (auto simp: hal_map_page_def t_def r Let_def split: if_splits)
  qed
  then show ?thesis using kt mem_kept_refl [OF inv] by (auto simp: mem_kept_def)
qed

section \<open>Copying\<close>

lemma write_phys_frame [simp]:
  "entries (write_phys d b s) = entries s" "page_root (write_phys d b s) = page_root s"
  "pmm_inv (frames (write_phys d b s)) = pmm_inv (frames s)" "free_set (frames (write_phys d b s)) = free_set (frames s)"
  "frame_owned (frames (write_phys d b s)) g = frame_owned (frames s) g"
  by (simp_all add: write_phys_def)

lemma write_phys_inside:
  assumes f: "frame_address f" and off: "unat off + length b \<le> 4096"
  shows "k < 4096 \<Longrightarrow> phys_mem (frames (write_phys (f + off) b s)) (f + of_nat k) =
      (if unat off \<le> k \<and> k < unat off + length b then b ! (k - unat off) else phys_mem (frames s) (f + of_nat k))"
    "frame_number a \<noteq> frame_number f \<Longrightarrow> phys_mem (frames (write_phys (f + off) b s)) a = phys_mem (frames s) a"
proof -
  have uk: "unat (of_nat k :: u64) = k" if "k < 4096" for k using that by (simp add: unat_of_nat)
  have d: "unat ((f + of_nat k) - (f + off)) = (if unat off \<le> k then k - unat off else k + 2 ^ 64 - unat off)" if "k < 4096" for k
  proof -
    have "(f + of_nat k) - (f + off) = of_nat k - off" by simp
    then show ?thesis using uk [OF that] unat_bound [of off] by (simp add: unat_sub_if' word_le_nat_alt)
  qed
  show "k < 4096 \<Longrightarrow> phys_mem (frames (write_phys (f + off) b s)) (f + of_nat k) =
      (if unat off \<le> k \<and> k < unat off + length b then b ! (k - unat off) else phys_mem (frames s) (f + of_nat k))"
    using off d [of k] by (auto simp: write_phys_def)
  assume a: "frame_number a \<noteq> frame_number f"
  have "\<not> unat (a - (f + off)) < length b"
  proof
    assume less: "unat (a - (f + off)) < length b"
    define k where "k = unat off + unat (a - (f + off))"
    have "k < 4096" using less off by (simp add: k_def)
    moreover have "a = f + of_nat k" by (simp add: k_def)
    ultimately show False using frame_byte(2) [OF f] a by blast
  qed
  then show "phys_mem (frames (write_phys (f + off) b s)) a = phys_mem (frames s) a" by (simp add: write_phys_def)
qed

text \<open>What a page of a segment holds.\<close>

definition page_content :: "u8 list \<Rightarrow> elf64_program_header \<Rightarrow> u64 \<Rightarrow> nat \<Rightarrow> u8" where
  "page_content img ph va k =
     (let v = unat va + k in
      if unat (p_vaddr ph) \<le> v \<and> v < unat (p_vaddr ph) + unat (p_filesz ph)
      then img ! (unat (p_offset ph) + (v - unat (p_vaddr ph))) else 0)"

definition file_part_fits :: "u8 list \<Rightarrow> elf64_program_header \<Rightarrow> bool" where
  "file_part_fits img ph \<longleftrightarrow> unat (p_vaddr ph) + unat (p_filesz ph) < 2 ^ 64 \<and>
     unat (p_offset ph) + unat (p_filesz ph) \<le> length img \<and> length img < 2 ^ 64"

lemma copy_page_ok:
  assumes fit: "file_part_fits img ph" and f: "frame_address f" and va: "unat va + 4096 < 2 ^ 64"
    and zero: "\<forall>k < 4096. phys_mem (frames s) (f + of_nat k) = 0"
  shows "\<exists>s'. copy_page img ph va f s = (Ok (), s') \<and> entries s' = entries s \<and> page_root s' = page_root s \<and>
     pmm_inv (frames s') = pmm_inv (frames s) \<and> free_set (frames s') = free_set (frames s) \<and>
     (\<forall>g. frame_owned (frames s') g = frame_owned (frames s) g) \<and>
     (\<forall>k < 4096. phys_mem (frames s') (f + of_nat k) = page_content img ph va k) \<and>
     (\<forall>a. frame_number a \<noteq> frame_number f \<longrightarrow> phys_mem (frames s') a = phys_mem (frames s) a)"
proof -
  define A V F P where "A = unat va" and "V = unat (p_vaddr ph)" and "F = unat (p_filesz ph)" and "P = unat (p_offset ph)"
  have bounds: "V + F < 2 ^ 64" "P + F \<le> length img" "length img < 2 ^ 64" "A + 4096 < 2 ^ 64"
    using fit va by (simp_all add: file_part_fits_def A_def V_def F_def P_def)
  have fe: "unat (p_vaddr ph + p_filesz ph) = V + F" using bounds by (simp add: unat_add_small V_def F_def)
  have pe: "unat (va + AF_PAGE_SIZE) = A + 4096" using bounds by (subst unat_add_small) (simp_all add: A_def)
  show ?thesis
  proof (cases "A < V + F \<and> V < A + 4096")
    case False
    then have "\<not> (va < p_vaddr ph + p_filesz ph \<and> p_vaddr ph < va + AF_PAGE_SIZE)"
      using fe pe by (simp add: word_less_nat_alt A_def V_def)
    then have run: "copy_page img ph va f s = (Ok (), s)" unfolding copy_page_def Let_def by (rule if_not_P)
    have "page_content img ph va k = 0" if "k < 4096" for k
      using False that by (auto simp: page_content_def Let_def A_def V_def F_def)
    then show ?thesis using run zero by simp
  next
    case True
    then have c: "va < p_vaddr ph + p_filesz ph \<and> p_vaddr ph < va + AF_PAGE_SIZE"
      using fe pe by (simp add: word_less_nat_alt A_def V_def)
    define from_a where "from_a = (if p_vaddr ph < va then va else p_vaddr ph)"
    define to_a where "to_a = (if va + AF_PAGE_SIZE < p_vaddr ph + p_filesz ph then va + AF_PAGE_SIZE else p_vaddr ph + p_filesz ph)"
    have fr: "unat from_a = max A V" by (simp add: from_a_def word_less_nat_alt A_def V_def)
    have to: "unat to_a = min (A + 4096) (V + F)" using fe pe by (simp add: to_a_def word_less_nat_alt min_def)
    have off: "unat (from_a - va) = max A V - A" using fr by (subst unat_sub) (simp_all add: word_le_nat_alt A_def)
    have len: "unat (to_a - from_a) = min (A + 4096) (V + F) - max A V"
      using fr to True by (subst unat_sub) (auto simp: word_le_nat_alt)
    have src: "unat (p_offset ph + (from_a - p_vaddr ph)) = P + (max A V - V)"
    proof -
      have d: "unat (from_a - p_vaddr ph) = max A V - V" using fr by (subst unat_sub) (simp_all add: word_le_nat_alt V_def)
      have "P + (max A V - V) < 2 ^ 64" using True bounds by auto
      then show ?thesis using d by (simp add: unat_add_small P_def)
    qed
    define b where "b = take (unat (to_a - from_a)) (drop (unat (p_offset ph + (from_a - p_vaddr ph))) img)"
    define s' where "s' = write_phys (f + (from_a - va)) b s"
    have inside: "\<not> (4096 < unat (from_a - va) + unat (to_a - from_a) \<or>
        length img < unat (p_offset ph + (from_a - p_vaddr ph)) + unat (to_a - from_a))"
      using off len src True bounds by auto
    have run: "copy_page img ph va f s = (Ok (), s')"
      unfolding copy_page_def Let_def if_P [OF c] from_a_def [symmetric] to_a_def [symmetric] if_not_P [OF inside]
      by (simp add: s'_def b_def)
    have lb: "length b = min (A + 4096) (V + F) - max A V" 
    proof -
      have "unat (to_a - from_a) \<le> length img - unat (p_offset ph + (from_a - p_vaddr ph))" using inside by linarith
      then show ?thesis using len by (simp add: b_def)
    qed
    have fits: "unat (from_a - va) + length b \<le> 4096" using off lb True by auto
    note w = write_phys_inside [OF f fits, of _ s, folded s'_def]
    have "phys_mem (frames s') (f + of_nat k) = page_content img ph va k" if k: "k < 4096" for k
    proof (cases "V \<le> A + k \<and> A + k < V + F")
      case True
      then have i: "unat (from_a - va) \<le> k" "k < unat (from_a - va) + length b" "k - unat (from_a - va) = A + k - max A V"
        using off lb k by auto
      then have "phys_mem (frames s') (f + of_nat k) = b ! (A + k - max A V)" using w(1) [OF k] by simp
      also have "\<dots> = img ! (P + (max A V - V) + (A + k - max A V))"
      proof -
        have "A + k - max A V < unat (to_a - from_a)" using i unfolding lb len by linarith
        moreover have "P + (max A V - V) \<le> length img" using inside unfolding src by linarith
        ultimately show ?thesis unfolding b_def src by (simp only: nth_take nth_drop)
      qed
      also have "P + (max A V - V) + (A + k - max A V) = P + (A + k - V)"
        using i(1) True max.cobounded1 [of A V] max.cobounded2 [of V A] unfolding off by linarith
      finally show ?thesis using True by (simp add: page_content_def Let_def A_def V_def F_def P_def)
    next
      case False
      then have "\<not> (unat (from_a - va) \<le> k \<and> k < unat (from_a - va) + length b)" using off lb k by auto
      then show ?thesis using w(1) [OF k] zero k False by (auto simp: page_content_def Let_def A_def V_def F_def)
    qed
    then show ?thesis using run w(2) by (auto simp: s'_def)
  qed
qed

section \<open>Pages a program can rely on\<close>

text \<open>
  The page at \<open>va\<close> is mapped in \<open>root\<close> with the flags \<open>fl\<close> and holds the bytes \<open>c\<close>, in a frame that nobody
  will be given again.
\<close>

definition holds_page :: "u64 \<Rightarrow> vm_state \<Rightarrow> u64 \<Rightarrow> u32 \<Rightarrow> (nat \<Rightarrow> u8) \<Rightarrow> bool" where
  "holds_page root s va fl c \<longleftrightarrow> fl AND HAL_PRESENT \<noteq> 0 \<and>
     (\<exists>f. f \<noteq> 0 \<and> frame_address f \<and> frame_number f \<notin> free_set (frames s) \<and>
       (\<forall>v. slot v = slot va \<longrightarrow> hal_translate root v s = f OR (v AND 0xFFF) \<and>
          hal_query_flags root v s = pte_to_hal_flags (leaf_entry f fl)) \<and>
       (\<forall>k < 4096. phys_mem (frames s) (f + of_nat k) = c k))"

definition keeps :: "u64 set \<Rightarrow> (u64 \<Rightarrow> nat \<Rightarrow> nat) \<Rightarrow> u64 \<Rightarrow> vm_state \<Rightarrow> vm_state \<Rightarrow> bool" where
  "keeps R reg root s s' \<longleftrightarrow> (\<exists>lab'. tables_wf R reg lab' s') \<and> page_root s' = page_root s \<and>
     (\<forall>va fl c. holds_page root s va fl c \<longrightarrow> holds_page root s' va fl c)"

lemma keeps_trans: "keeps R reg root s s1 \<Longrightarrow> keeps R reg root s1 s2 \<Longrightarrow> keeps R reg root s s2"
  by (auto simp: keeps_def)

lemma keeps_refl: "tables_wf R reg lab s \<Longrightarrow> keeps R reg root s s"
  by (auto simp: keeps_def)

lemma wf_fewer_free:
  assumes "tables_wf R reg lab s" "entries s' = entries s" "pmm_inv (frames s')" "free_set (frames s') \<subseteq> free_set (frames s)"
  shows "tables_wf R reg lab s'"
  using assms unfolding tables_wf_def table_frame_def root_ok_def by (simp add: subset_iff) meson

lemma holds_frames:
  assumes "holds_page root s va fl c" "entries s' = entries s" "free_set (frames s') \<subseteq> free_set (frames s)"
    and "\<And>a. frame_number a \<notin> free_set (frames s) \<Longrightarrow> phys_mem (frames s') a = phys_mem (frames s) a"
  shows "holds_page root s' va fl c"
proof -
  obtain f where f: "f \<noteq> 0" "frame_address f" "frame_number f \<notin> free_set (frames s)"
      "\<forall>v. slot v = slot va \<longrightarrow> hal_translate root v s = f OR (v AND 0xFFF) \<and> hal_query_flags root v s = pte_to_hal_flags (leaf_entry f fl)"
      "\<forall>k < 4096. phys_mem (frames s) (f + of_nat k) = c k"
    using assms(1) unfolding holds_page_def by blast
  have "phys_mem (frames s') (f + of_nat k) = c k" if "k < 4096" for k
    using assms(4) [of "f + of_nat k"] frame_byte(2) [OF f(2) that] f(3,5) that by simp
  moreover have "frame_number f \<notin> free_set (frames s')" using assms(3) f(3) by blast
  ultimately show ?thesis
    using assms(1) f(1,2,4) entries_only [OF assms(2)] unfolding holds_page_def by auto
qed

lemma leaf_flags_present: "fl AND HAL_PRESENT \<noteq> 0 \<Longrightarrow> pte_to_hal_flags (leaf_entry f fl) \<noteq> 0"
proof -
  assume "fl AND HAL_PRESENT \<noteq> 0"
  then have "leaf_entry f fl AND PTE_PRESENT \<noteq> 0" using leaf_present [of f fl] by (simp add: present_def)
  then have "bit (pte_to_hal_flags (leaf_entry f fl)) 0" by (simp add: pte_to_hal_flags_def bit_or_iff)
  then show ?thesis by auto
qed

lemma table_of_byte: "frame_address f \<Longrightarrow> table_of (f OR (v AND 0xFFF)) = f"
proof -
  assume f: "frame_address f"
  have "table_of (f OR (v AND 0xFFF)) = table_of f"
    by (simp add: table_of_def bit.conj_disj_distrib2 and.assoc)
  then show ?thesis using table_of_frame [OF f] by simp
qed

text \<open>One page from start to end: a frame, the mapping, the copy.\<close>

lemma map_fresh_page:
  assumes wf: "tables_wf R reg lab s" and root: "root \<in> R" and pr: "fl AND HAL_PRESENT \<noteq> 0"
    and a: "pmm_alloc_frame_z (frames s) = (f, p)" "f \<noteq> 0"
    and m: "hal_map_page root va f fl (s\<lparr>frames := p\<rparr>) = (rc, s2)"
  shows "if rc = AF_OK
    then (\<exists>lab'. tables_wf R reg lab' s2) \<and> keeps R reg root s s2 \<and> holds_page root s2 va fl (\<lambda>_. 0) \<and>
       (\<forall>v. slot v = slot va \<longrightarrow> hal_translate root v s2 = f OR (v AND 0xFFF) \<and> hal_query_flags root v s2 = pte_to_hal_flags (leaf_entry f fl)) \<and>
       (\<forall>va' fl' c'. holds_page root s va' fl' c' \<longrightarrow> slot va' \<noteq> slot va \<and> hal_translate root va' s2 = hal_translate root va' s) \<and>
       frame_address f \<and> frame_number f \<in> free_set (frames s) \<and> frame_number f \<notin> free_set (frames s2) \<and>
       (\<forall>k < 4096. phys_mem (frames s2) (f + of_nat k) = 0) \<and> free_set (frames s2) \<subset> free_set (frames s)
    else \<exists>s3. free_frame f s2 = Some s3"
proof -
  let ?s1 = "s\<lparr>frames := p\<rparr>"
  have inv: "pmm_inv (frames s)" using wfD(1) [OF wf] .
  note al = alloc_z_ok [OF inv a]
  have wf1: "tables_wf R reg lab ?s1" by (rule wf_fewer_free [OF wf]) (use al in auto)
  have kept: "mem_kept ?s1 s2" using map_page_kept [OF _ m] al(1) by simp
  note mp = map_page_ok [OF wf1 root pr m]
  have fn: "frame_number f \<notin> free_set p" using al(4) by simp
  show ?thesis
  proof (cases "rc = AF_OK")
    case False
    have "frame_owned (frames s2) (frame_number f)" using kept al(5) by (simp add: mem_kept_def)
    then have "\<exists>s3. free_frame f s2 = Some s3"
      using release_free [of s2 f "{}"] kept al(2) by (auto simp: mem_kept_def)
    then show ?thesis using False by simp
  next
    case True
    have hold1: "holds_page root ?s1 va' fl' c'" if "holds_page root s va' fl' c'" for va' fl' c'
    proof (rule holds_frames [OF that])
      show "phys_mem (frames ?s1) x = phys_mem (frames s) x" if "frame_number x \<notin> free_set (frames s)" for x
        using al(3,6) in_frame_number [OF al(2), of x] that by auto
    qed (use al in auto)
    have other: "slot va' \<noteq> slot va" if h: "holds_page root s va' fl' c'" for va' fl' c'
    proof
      assume sl: "slot va' = slot va"
      obtain f' where f': "frame_address f'" "frame_number f' \<notin> free_set (frames s)" "fl' AND HAL_PRESENT \<noteq> 0"
          "hal_translate root va s = f' OR (va AND 0xFFF)" "hal_query_flags root va s = pte_to_hal_flags (leaf_entry f' fl')"
        using h sl unfolding holds_page_def by metis
      have e1: "hal_translate root va ?s1 = f' OR (va AND 0xFFF)" "hal_query_flags root va ?s1 = pte_to_hal_flags (leaf_entry f' fl')"
        using f'(4,5) entries_only [of ?s1 s root va] by simp_all
      then have "table_of (hal_translate root va ?s1) = f"
        using mp True leaf_flags_present [OF f'(3)] by simp
      then have "f' = f" using table_of_byte [OF f'(1)] e1(1) by simp
      then show False using f'(2) al(3) by simp
    qed
    have hold2: "holds_page root s2 va' fl' c'" if h: "holds_page root s va' fl' c'" for va' fl' c'
    proof -
      obtain f' where f': "fl' AND HAL_PRESENT \<noteq> 0" "f' \<noteq> 0" "frame_address f'" "frame_number f' \<notin> free_set p"
          "\<forall>v. slot v = slot va' \<longrightarrow> hal_translate root v ?s1 = f' OR (v AND 0xFFF) \<and> hal_query_flags root v ?s1 = pte_to_hal_flags (leaf_entry f' fl')"
          "\<forall>k < 4096. phys_mem p (f' + of_nat k) = c' k"
        using hold1 [OF h] unfolding holds_page_def by auto
      have "hal_translate root v s2 = hal_translate root v ?s1 \<and> hal_query_flags root v s2 = hal_query_flags root v ?s1"
        if "slot v = slot va'" for v
        using mp root True other [OF h] that by (auto simp: unchanged_def page_in_def)
      moreover have "phys_mem (frames s2) (f' + of_nat k) = c' k" if "k < 4096" for k
        using kept f'(4,6) frame_byte(2) [OF f'(3) that] that by (simp add: mem_kept_def)
      moreover have "frame_number f' \<notin> free_set (frames s2)" using kept f'(4) by (auto simp: mem_kept_def)
      ultimately show ?thesis using f' unfolding holds_page_def by auto
    qed
    have same: "hal_translate root va' s2 = hal_translate root va' s" if h: "holds_page root s va' fl' c'" for va' fl' c'
      using mp root True other [OF h] entries_only(1) [of ?s1 s root va'] by (auto simp: unchanged_def page_in_def)
    have ex: "\<exists>lab'. tables_wf R reg lab' s2" using mp by blast
    have tr: "\<forall>v. slot v = slot va \<longrightarrow> hal_translate root v s2 = f OR (v AND 0xFFF) \<and> hal_query_flags root v s2 = pte_to_hal_flags (leaf_entry f fl)"
      using mp True table_of_frame [OF al(2)] by simp
    have z: "\<forall>k < 4096. phys_mem (frames s2) (f + of_nat k) = 0"
    proof (intro allI impI)
      fix k :: nat assume k: "k < 4096"
      have "phys_mem p (f + of_nat k) = 0" using al(6) in_frame [OF al(2), of "f + of_nat k"] k by auto
      then show "phys_mem (frames s2) (f + of_nat k) = 0"
        using kept fn frame_byte(2) [OF al(2) k] by (simp add: mem_kept_def)
    qed
    have nf: "frame_number f \<notin> free_set (frames s2)" using kept fn by (auto simp: mem_kept_def)
    have "free_set (frames s2) \<subset> free_set (frames s)" using kept al(3,4) by (auto simp: mem_kept_def)
    then show ?thesis
      using True ex hold2 other same tr z nf al(2,3) a(2) pr kept by (auto simp: keeps_def holds_page_def mem_kept_def)
  qed
qed

section \<open>Pages of a segment\<close>

lemma holds_write:
  assumes h: "holds_page root s va fl c" and fn: "frame_number (table_of (hal_translate root va s)) \<noteq> frame_number f"
    and s': "entries s' = entries s" "free_set (frames s') = free_set (frames s)"
      "\<forall>a. frame_number a \<noteq> frame_number f \<longrightarrow> phys_mem (frames s') a = phys_mem (frames s) a"
  shows "holds_page root s' va fl c"
proof -
  obtain g where g: "g \<noteq> 0" "frame_address g" "frame_number g \<notin> free_set (frames s)"
      "\<forall>v. slot v = slot va \<longrightarrow> hal_translate root v s = g OR (v AND 0xFFF) \<and> hal_query_flags root v s = pte_to_hal_flags (leaf_entry g fl)"
      "\<forall>k < 4096. phys_mem (frames s) (g + of_nat k) = c k" and pr: "fl AND HAL_PRESENT \<noteq> 0"
    using h unfolding holds_page_def by blast
  have "frame_number g \<noteq> frame_number f" using fn g(4) table_of_byte [OF g(2)] by simp
  then have "phys_mem (frames s') (g + of_nat k) = c k" if "k < 4096" for k
    using s'(3) frame_byte(2) [OF g(2) that] g(5) that by simp
  then show ?thesis using g pr s'(2) entries_only [OF s'(1)] unfolding holds_page_def by auto
qed

lemma held_frame: "holds_page root s va fl c \<Longrightarrow> frame_number (table_of (hal_translate root va s)) \<notin> free_set (frames s)"
  unfolding holds_page_def using table_of_byte by fastforce

lemma load_page_ok:
  assumes wf: "tables_wf R reg lab s" and root: "root \<in> R" and pr: "fl AND HAL_PRESENT \<noteq> 0"
    and fit: "file_part_fits img ph" "unat va + 4096 < 2 ^ 64"
  shows "\<exists>r s'. load_page img root ph fl va s = Some (r, s') \<and> r \<noteq> Fault \<and>
     (r = Ok () \<longrightarrow> keeps R reg root s s' \<and> holds_page root s' va fl (page_content img ph va))"
proof -
  obtain f p where a: "pmm_alloc_frame_z (frames s) = (f, p)" by fastforce
  obtain rc s2 where m: "hal_map_page root va f fl (s\<lparr>frames := p\<rparr>) = (rc, s2)" by fastforce
  show ?thesis
  proof (cases "f = 0")
    case True
    then show ?thesis using a by (simp add: load_page_def)
  next
    case False
    note fresh = map_fresh_page [OF wf root pr a False m]
    show ?thesis
    proof (cases "rc = AF_OK")
      case rc: False
      then have "af_status_err rc" by (cases rc) (simp_all add: af_status_err_def)
      then show ?thesis using fresh rc a False m by (auto simp: load_page_def)
    next
      case True
      then have err: "\<not> af_status_err rc" by (simp add: af_status_err_def)
      note fresh = fresh [unfolded True, simplified]
      obtain s' where c: "copy_page img ph va f s2 = (Ok (), s')" "entries s' = entries s2" "page_root s' = page_root s2"
          "pmm_inv (frames s') = pmm_inv (frames s2)" "free_set (frames s') = free_set (frames s2)"
          "\<forall>k < 4096. phys_mem (frames s') (f + of_nat k) = page_content img ph va k"
          "\<forall>a. frame_number a \<noteq> frame_number f \<longrightarrow> phys_mem (frames s') a = phys_mem (frames s2) a"
        using copy_page_ok [OF fit(1) _ fit(2), of f s2] fresh by auto
      have run: "load_page img root ph fl va s = Some (Ok (), s')"
        using a m err False c(1) by (simp add: load_page_def)
      have old: "holds_page root s' va' fl' c'" if h: "holds_page root s va' fl' c'" for va' fl' c'
      proof (rule holds_write [OF _ _ c(2,5,7)])
        show "holds_page root s2 va' fl' c'" using fresh h by (auto simp: keeps_def)
        show "frame_number (table_of (hal_translate root va' s2)) \<noteq> frame_number f"
        proof -
          have "hal_translate root va' s2 = hal_translate root va' s" "frame_number f \<in> free_set (frames s)"
            using fresh h by blast+
          then show ?thesis using held_frame [OF h] by metis
        qed
      qed
      obtain lab' where w2: "tables_wf R reg lab' s2" using fresh by blast
      have "tables_wf R reg lab' s'" by (rule wf_fewer_free [OF w2]) (use c wfD(1) [OF w2] in auto)
      moreover have "holds_page root s' va fl (page_content img ph va)"
        using fresh c pr False entries_only [OF c(2)] unfolding holds_page_def by auto
      ultimately show ?thesis using run old c(3) fresh by (auto simp: keeps_def)
    qed
  qed
qed

lemma load_pages_ok:
  assumes "tables_wf R reg lab s" "root \<in> R" "fl AND HAL_PRESENT \<noteq> 0" "file_part_fits img ph" "unat va + n * 4096 < 2 ^ 64"
  shows "\<exists>r s'. load_pages n img root ph fl va s = Some (r, s') \<and> r \<noteq> Fault \<and>
     (r = Ok () \<longrightarrow> keeps R reg root s s' \<and>
        (\<forall>i < n. holds_page root s' (va + of_nat i * AF_PAGE_SIZE) fl (page_content img ph (va + of_nat i * AF_PAGE_SIZE))))"
  using assms
proof (induction n arbitrary: va s lab)
  case 0
  then show ?case by (simp add: keeps_refl)
next
  case (Suc n)
  obtain r s1 where 1: "load_page img root ph fl va s = Some (r, s1)" "r \<noteq> Fault"
      "r = Ok () \<longrightarrow> keeps R reg root s s1 \<and> holds_page root s1 va fl (page_content img ph va)"
    using load_page_ok [OF Suc.prems(1-4), of va] Suc.prems(5) by auto
  show ?case
  proof (cases r)
    case (Ok u)
    then obtain lab1 where wf1: "tables_wf R reg lab1 s1" using 1(3) by (auto simp: keeps_def)
    have "unat (va + AF_PAGE_SIZE) = unat va + 4096" using Suc.prems(5) by (subst unat_add_small) simp_all
    then have "unat (va + AF_PAGE_SIZE) + n * 4096 < 2 ^ 64" using Suc.prems(5) by simp
    from Suc.IH [OF wf1 Suc.prems(2-4) this] obtain r2 s2
      where 2: "load_pages n img root ph fl (va + AF_PAGE_SIZE) s1 = Some (r2, s2)" "r2 \<noteq> Fault"
        "r2 = Ok () \<longrightarrow> keeps R reg root s1 s2 \<and>
          (\<forall>i < n. holds_page root s2 (va + AF_PAGE_SIZE + of_nat i * AF_PAGE_SIZE) fl (page_content img ph (va + AF_PAGE_SIZE + of_nat i * AF_PAGE_SIZE)))"
      by blast
    have run: "load_pages (Suc n) img root ph fl va s = Some (r2, s2)" using 1(1) 2(1) Ok by simp
    have "keeps R reg root s s2 \<and>
        (\<forall>i < Suc n. holds_page root s2 (va + of_nat i * AF_PAGE_SIZE) fl (page_content img ph (va + of_nat i * AF_PAGE_SIZE)))"
      if "r2 = Ok ()"
      unfolding All_less_Suc2 using 1(3) 2(3) that Ok keeps_trans by (auto simp: algebra_simps keeps_def)
    then show ?thesis using run 2(2) by blast
  qed (use 1 in auto)
qed

section \<open>Segments\<close>

definition segment_sane :: "elf64_program_header \<Rightarrow> bool" where
  "segment_sane ph \<longleftrightarrow> (p_type ph = 1 \<and> p_memsz ph \<noteq> 0 \<longrightarrow>
     unat (p_vaddr ph) + unat (p_memsz ph) + 4096 < 2 ^ 64 \<and> unat (p_offset ph) + unat (p_filesz ph) < 2 ^ 64)"

definition segment_page :: "elf64_program_header \<Rightarrow> nat \<Rightarrow> u64" where
  "segment_page ph i = (p_vaddr ph AND NOT AF_PAGE_MASK) + of_nat i * AF_PAGE_SIZE"

definition segment_held :: "u64 \<Rightarrow> vm_state \<Rightarrow> u8 list \<Rightarrow> elf64_program_header \<Rightarrow> bool" where
  "segment_held root s img ph \<longleftrightarrow> (p_type ph = 1 \<longrightarrow>
     (\<forall>i < (unat (p_vaddr ph) mod 4096 + unat (p_memsz ph) + 4095) div 4096. p_memsz ph \<noteq> 0 \<longrightarrow>
        holds_page root s (segment_page ph i) (segment_to_hal_flags (p_flags ph)) (page_content img ph (segment_page ph i))))"

lemma segment_held_keeps: "keeps R reg root s s' \<Longrightarrow> segment_held root s img ph \<Longrightarrow> segment_held root s' img ph"
  by (auto simp: segment_held_def keeps_def)

lemma segment_present: "segment_to_hal_flags fl AND HAL_PRESENT \<noteq> 0"
  by (simp add: segment_to_hal_flags_def bit.conj_disj_distrib2)

lemma page_span:
  fixes V M :: nat
  assumes "0 < M"
  shows "(V + M + 4095) div 4096 * 4096 - V div 4096 * 4096 = (V mod 4096 + M + 4095) div 4096 * 4096"
proof -
  have "V + M + 4095 = V div 4096 * 4096 + (V mod 4096 + M + 4095)" by simp
  then have "(V + M + 4095) div 4096 = V div 4096 + (V mod 4096 + M + 4095) div 4096"
    by (metis add.commute div_mult_self3 zero_neq_numeral)
  then show ?thesis by (simp add: distrib_right)
qed

lemma segment_pages:
  assumes "unat v + unat m + 4096 < 2 ^ 64" "m \<noteq> 0"
  shows "unat ((align_up (v + m) AF_PAGE_SIZE - align_down v AF_PAGE_SIZE) div AF_PAGE_SIZE) =
    (unat v mod 4096 + unat m + 4095) div 4096"
proof -
  have m0: "0 < unat m" using assms(2) by (simp add: unat_gt_0)
  have vm: "unat (v + m) = unat v + unat m" using assms(1) by (intro unat_add_small) simp
  have up: "unat (align_up (v + m) AF_PAGE_SIZE) = (unat v + unat m + 4095) div 4096 * 4096"
    using assms(1) vm by (subst unat_align_up) simp_all
  have down: "unat (align_down v AF_PAGE_SIZE) = unat v div 4096 * 4096" by (rule unat_align_down)
  have "unat v div 4096 \<le> (unat v + unat m + 4095) div 4096" by (intro div_le_mono) simp
  then have "align_down v AF_PAGE_SIZE \<le> align_up (v + m) AF_PAGE_SIZE" unfolding word_le_nat_alt up down by simp
  then have "unat (align_up (v + m) AF_PAGE_SIZE - align_down v AF_PAGE_SIZE) = (unat v mod 4096 + unat m + 4095) div 4096 * 4096"
    using page_span [OF m0, of "unat v"] by (simp add: unat_sub up down)
  then show ?thesis by (simp add: unat_div)
qed

lemma load_segment_ok:
  assumes wf: "tables_wf R reg lab s" and root: "root \<in> R" and sane: "segment_sane ph" and img: "length img < 2 ^ 64"
  shows "\<exists>r s'. load_segment img root ph s = Some (r, s') \<and> r \<noteq> Fault \<and>
     (\<forall>b. r = Ok b \<longrightarrow> keeps R reg root s s' \<and> segment_held root s' img ph)"
proof (cases "p_type ph \<noteq> 1 \<or> p_memsz ph = 0")
  case True
  then have "load_segment img root ph s = Some (Ok False, s)" by (auto simp: load_segment_def Let_def)
  then show ?thesis using True keeps_refl [OF wf] by (auto simp: segment_held_def)
next
  case False
  let ?size = "of_nat (length img) :: u64" and ?start = "align_down (p_vaddr ph) AF_PAGE_SIZE"
  let ?fl = "segment_to_hal_flags (p_flags ph)"
  let ?n = "(unat (p_vaddr ph) mod 4096 + unat (p_memsz ph) + 4095) div 4096"
  show ?thesis
  proof (cases "?size < p_offset ph \<or> ?size < p_offset ph + p_filesz ph \<or> p_memsz ph < p_filesz ph \<or> ?start AND NOT AF_USER_TOP \<noteq> 0")
    case True
    then show ?thesis using False by (auto simp: load_segment_def Let_def)
  next
    case ok: False
    have s: "unat (p_vaddr ph) + unat (p_memsz ph) + 4096 < 2 ^ 64" "unat (p_offset ph) + unat (p_filesz ph) < 2 ^ 64"
      using sane False by (simp_all add: segment_sane_def)
    have size: "unat ?size = length img" using img by (simp add: unat_of_nat)
    have "unat (p_offset ph + p_filesz ph) = unat (p_offset ph) + unat (p_filesz ph)" using s(2) by (intro unat_add_small) simp
    then have fit: "file_part_fits img ph"
      using ok size s img by (simp add: file_part_fits_def word_less_nat_alt)
    have n: "unat ((align_up (p_vaddr ph + p_memsz ph) AF_PAGE_SIZE - ?start) div AF_PAGE_SIZE) = ?n"
      using segment_pages [OF s(1)] False by simp
    have "?n * 4096 \<le> unat (p_vaddr ph) mod 4096 + unat (p_memsz ph) + 4095" by (rule div_times_less_eq_dividend)
    moreover have "unat ?start = unat (p_vaddr ph) div 4096 * 4096" by (rule unat_align_down)
    ultimately have "unat ?start + ?n * 4096 < 2 ^ 64" using s(1) div_mult_mod_eq [of "unat (p_vaddr ph)" 4096] by linarith
    from load_pages_ok [OF wf root segment_present fit this] obtain r s'
      where r: "load_pages ?n img root ph ?fl ?start s = Some (r, s')" "r \<noteq> Fault"
        "r = Ok () \<longrightarrow> keeps R reg root s s' \<and>
          (\<forall>i < ?n. holds_page root s' (?start + of_nat i * AF_PAGE_SIZE) ?fl (page_content img ph (?start + of_nat i * AF_PAGE_SIZE)))"
      by blast
    have run: "load_segment img root ph s = Some (andthen r (\<lambda>_. Ok True), s')"
      using False ok r(1) by (simp add: load_segment_def Let_def n)
    have page: "segment_page ph i = ?start + of_nat i * AF_PAGE_SIZE" for i
      by (simp add: segment_page_def align_down_def)
    show ?thesis using run r(2,3) by (cases r) (auto simp: segment_held_def page)
  qed
qed

lemma load_segments_ok:
  assumes "tables_wf R reg lab s" "root \<in> R" "\<forall>i \<in> set is. segment_sane (program_header img i)" "length img < 2 ^ 64"
  shows "\<exists>r s'. load_segments is img root loaded s = Some (r, s') \<and> r \<noteq> Fault \<and>
     (\<forall>b. r = Ok b \<longrightarrow> keeps R reg root s s' \<and> (\<forall>i \<in> set is. segment_held root s' img (program_header img i)))"
  using assms
proof (induction "is" arbitrary: s lab loaded)
  case Nil
  then show ?case by (simp add: keeps_refl)
next
  case (Cons i "is")
  have sane: "segment_sane (program_header img i)" using Cons.prems(3) by simp
  obtain r s1 where 1: "load_segment img root (program_header img i) s = Some (r, s1)" "r \<noteq> Fault"
      "\<forall>b. r = Ok b \<longrightarrow> keeps R reg root s s1 \<and> segment_held root s1 img (program_header img i)"
    using load_segment_ok [OF Cons.prems(1,2) sane Cons.prems(4)] by blast
  show ?case
  proof (cases r)
    case (Ok b)
    then obtain lab1 where wf1: "tables_wf R reg lab1 s1" using 1(3) by (auto simp: keeps_def)
    have "\<forall>i \<in> set is. segment_sane (program_header img i)" using Cons.prems(3) by simp
    from Cons.IH [OF wf1 Cons.prems(2) this Cons.prems(4), of "if b then loaded + 1 else loaded"] obtain r2 s2
      where 2: "load_segments is img root (if b then loaded + 1 else loaded) s1 = Some (r2, s2)" "r2 \<noteq> Fault"
        "\<forall>b. r2 = Ok b \<longrightarrow> keeps R reg root s1 s2 \<and> (\<forall>i \<in> set is. segment_held root s2 img (program_header img i))" by blast
    have run: "load_segments (i # is) img root loaded s = Some (r2, s2)" using 1(1) 2(1) Ok by simp
    then show ?thesis
      using 1(3) 2(2,3) Ok keeps_trans segment_held_keeps by (metis set_ConsD)
  qed (use 1 in auto)
qed

section \<open>The stack\<close>

lemma map_stack_ok:
  assumes "tables_wf R reg lab s" "root \<in> R" "unat va + n * 4096 < 2 ^ 64"
  shows "\<exists>r s'. map_stack n root va s = Some (r, s') \<and> r \<noteq> Fault \<and>
     (r = Ok () \<longrightarrow> keeps R reg root s s' \<and> (\<forall>i < n. holds_page root s' (va + of_nat i * AF_PAGE_SIZE) 7 (\<lambda>_. 0)))"
  using assms
proof (induction n arbitrary: va s lab)
  case 0
  then show ?case by (simp add: keeps_refl)
next
  case (Suc n)
  have seven: "HAL_PRESENT OR HAL_WRITABLE OR HAL_USER = 7" by simp
  obtain f p where a: "pmm_alloc_frame_z (frames s) = (f, p)" by fastforce
  obtain rc s1 where m: "hal_map_page root va f 7 (s\<lparr>frames := p\<rparr>) = (rc, s1)" by fastforce
  show ?case
  proof (cases "f = 0")
    case True
    then show ?thesis using a by simp
  next
    case False
    note fresh = map_fresh_page [OF Suc.prems(1,2) _ a False m]
    show ?thesis
    proof (cases "rc = AF_OK")
      case rc: False
      then have "af_status_err rc" by (cases rc) (simp_all add: af_status_err_def)
      then show ?thesis using fresh rc a False m by auto
    next
      case True
      then obtain lab1 where 1: "tables_wf R reg lab1 s1" "keeps R reg root s s1" "holds_page root s1 va 7 (\<lambda>_. 0)"
        using fresh by auto
      have "unat (va + AF_PAGE_SIZE) = unat va + 4096" using Suc.prems(3) by (subst unat_add_small) simp_all
      then have "unat (va + AF_PAGE_SIZE) + n * 4096 < 2 ^ 64" using Suc.prems(3) by simp
      from Suc.IH [OF 1(1) Suc.prems(2) this] obtain r2 s2
        where 2: "map_stack n root (va + AF_PAGE_SIZE) s1 = Some (r2, s2)" "r2 \<noteq> Fault"
          "r2 = Ok () \<longrightarrow> keeps R reg root s1 s2 \<and> (\<forall>i < n. holds_page root s2 (va + AF_PAGE_SIZE + of_nat i * AF_PAGE_SIZE) 7 (\<lambda>_. 0))"
        by blast
      have run: "map_stack (Suc n) root va s = Some (r2, s2)"
        using a False m True 2(1) by (simp add: af_status_err_def)
      have "keeps R reg root s s2 \<and> (\<forall>i < Suc n. holds_page root s2 (va + of_nat i * AF_PAGE_SIZE) 7 (\<lambda>_. 0))" if "r2 = Ok ()"
        unfolding All_less_Suc2 using 1 2(3) that keeps_trans by (auto simp: algebra_simps keeps_def)
      then show ?thesis using run 2(2) by blast
    qed
  qed
qed

section \<open>The whole program\<close>

definition byte_at :: "u64 \<Rightarrow> vm_state \<Rightarrow> u64 \<Rightarrow> u8" where
  "byte_at root s v = phys_mem (frames s) (hal_translate root v s)"

text \<open>A segment is in memory: every byte of it, from the file or zero, with the rights its flags ask for.\<close>

definition segment_loaded :: "u64 \<Rightarrow> vm_state \<Rightarrow> u8 list \<Rightarrow> elf64_program_header \<Rightarrow> bool" where
  "segment_loaded root s img ph \<longleftrightarrow> (p_type ph = 1 \<longrightarrow> (\<forall>j < unat (p_memsz ph).
     hal_query_flags root (p_vaddr ph + of_nat j) s = segment_to_hal_flags (p_flags ph) \<and>
     byte_at root s (p_vaddr ph + of_nat j) = (if j < unat (p_filesz ph) then img ! (unat (p_offset ph) + j) else 0)))"

lemma leaf_hal_flags:
  assumes "frame_address f" "fl = 5 \<or> fl = 7 \<or> fl = 13 \<or> fl = 15"
  shows "pte_to_hal_flags (leaf_entry f fl) = fl"
proof -
  have "\<not> bit f n" if "n < 12 \<or> n = 63" for n using frame_bits [OF assms(1), of n] that by auto
  then show ?thesis
    using assms(2) unfolding pte_to_hal_flags_def flag_bits leaf_entry_def bit_or_iff bit_and_iff
    by (elim disjE) (simp_all add: hal_flags_to_pte_def)
qed

lemma segment_flag_values: "segment_to_hal_flags p = 5 \<or> segment_to_hal_flags p = 7 \<or> segment_to_hal_flags p = 13 \<or> segment_to_hal_flags p = 15"
  by (simp add: segment_to_hal_flags_def)

lemma held_byte:
  assumes h: "holds_page root s va fl c" and v: "v AND NOT AF_PAGE_MASK = va" and fl: "fl = 5 \<or> fl = 7 \<or> fl = 13 \<or> fl = 15"
  shows "hal_query_flags root v s = fl" "byte_at root s v = c (unat v mod 4096)"
proof -
  have sl: "slot v = slot va" using slot_page [of v] v by simp
  obtain f where f: "frame_address f"
      "hal_translate root v s = f OR (v AND 0xFFF)" "hal_query_flags root v s = pte_to_hal_flags (leaf_entry f fl)"
      "\<forall>k < 4096. phys_mem (frames s) (f + of_nat k) = c k"
    using h sl unfolding holds_page_def by blast
  show "hal_query_flags root v s = fl" using f(3) leaf_hal_flags [OF f(1) fl] by simp
  have "v AND 0xFFF = of_nat (unat v mod 4096)"
  proof -
    have "v AND 0xFFF = take_bit 12 v" by (simp add: take_bit_eq_mask mask_eq_exp_minus_1)
    moreover have "unat (take_bit 12 v) = unat v mod 4096" by (simp add: unsigned_take_bit_eq take_bit_eq_mod unat_mod)
    ultimately show ?thesis by (simp add: word_unat_eq_iff unat_of_nat)
  qed
  then show "byte_at root s v = c (unat v mod 4096)"
    using f(2,4) frame_byte(3) [OF f(1), of "unat v mod 4096"] by (simp add: byte_at_def)
qed

lemma held_loaded:
  assumes "segment_held root s img ph" "segment_sane ph"
  shows "segment_loaded root s img ph"
  unfolding segment_loaded_def
proof (intro impI allI)
  fix j assume t: "p_type ph = 1" and j: "j < unat (p_memsz ph)"
  let ?V = "unat (p_vaddr ph)" and ?M = "unat (p_memsz ph)"
  define v where "v = p_vaddr ph + of_nat j"
  have m: "p_memsz ph \<noteq> 0" using j by auto
  then have b: "?V + ?M + 4096 < 2 ^ 64" using assms(2) t by (simp add: segment_sane_def)
  have uj: "unat (of_nat j :: u64) = j" using j b by (simp add: unat_of_nat)
  have uv: "unat v = ?V + j" unfolding v_def using uj j b by (subst unat_add_small) simp_all
  define i where "i = unat v div 4096 - ?V div 4096"
  have i: "unat v div 4096 = ?V div 4096 + i" using uv div_le_mono [of ?V "unat v" 4096] by (simp add: i_def)
  note cover = pages_cover [OF _ _ i, of ?M]
  have "i < (?V mod 4096 + ?M + 4095) div 4096" using cover(1) uv j by simp
  then have h: "holds_page root s (segment_page ph i) (segment_to_hal_flags (p_flags ph)) (page_content img ph (segment_page ph i))"
    using assms(1) t m by (simp add: segment_held_def)
  have "?V + 4096 * i < 2 ^ 64" using cover(2) uv j b by simp
  then have page: "v AND NOT AF_PAGE_MASK = segment_page ph i"
    using page_address [OF i] by (simp add: segment_page_def)
  note held = held_byte [OF h page segment_flag_values]
  have "unat (segment_page ph i) = unat v div 4096 * 4096"
    using unat_align_down [of v] page by (simp add: align_down_def)
  then have "unat (segment_page ph i) + unat v mod 4096 = ?V + j" using uv by simp
  then have "page_content img ph (segment_page ph i) (unat v mod 4096) =
      (if j < unat (p_filesz ph) then img ! (unat (p_offset ph) + j) else 0)"
    by (simp add: page_content_def)
  then show "hal_query_flags root (p_vaddr ph + of_nat j) s = segment_to_hal_flags (p_flags ph) \<and>
      byte_at root s (p_vaddr ph + of_nat j) = (if j < unat (p_filesz ph) then img ! (unat (p_offset ph) + j) else 0)"
    using held unfolding v_def by simp
qed

definition stack_loaded :: "u64 \<Rightarrow> vm_state \<Rightarrow> bool" where
  "stack_loaded root s \<longleftrightarrow> (\<forall>v. unat (AF_ELF_STACK_TOP - AF_ELF_STACK_SIZE) \<le> unat v \<and> unat v < unat AF_ELF_STACK_TOP \<longrightarrow>
     hal_query_flags root v s = HAL_PRESENT OR HAL_WRITABLE OR HAL_USER \<and> byte_at root s v = 0)"

lemma held_stack:
  assumes "\<forall>i < 16. holds_page root s (0x80000F0000 + of_nat i * AF_PAGE_SIZE) 7 (\<lambda>_. 0)"
  shows "stack_loaded root s"
  unfolding stack_loaded_def
proof (intro allI impI)
  fix v :: u64 assume v: "unat (AF_ELF_STACK_TOP - AF_ELF_STACK_SIZE) \<le> unat v \<and> unat v < unat AF_ELF_STACK_TOP"
  let ?b = "0x80000F0000 :: u64"
  have b: "unat ?b \<le> unat v" "unat v < unat ?b + 65536" using v by simp_all
  define i where "i = unat v div 4096 - unat ?b div 4096"
  have i: "unat v div 4096 = unat ?b div 4096 + i" using div_le_mono [OF b(1), of 4096] by (simp add: i_def)
  note cover = pages_cover [OF b i]
  have "i < 16" using cover(1) by simp
  moreover have "v AND NOT AF_PAGE_MASK = ?b + of_nat i * AF_PAGE_SIZE"
    using page_address [OF i] cover(2) b by simp
  ultimately show "hal_query_flags root v s = HAL_PRESENT OR HAL_WRITABLE OR HAL_USER \<and> byte_at root s v = 0"
    using held_byte [of root s _ 7 "\<lambda>_. 0" v] assms by auto
qed

text \<open>
  (C32) Loading never fails an assertion and never leaves the buffers, and when it succeeds the program is in
  memory as its file describes it: every byte of every loadable segment, the part the file does not
  provide zero, with the rights of its segment, and a zeroed stack that cannot be executed. The
  assumption is that no segment's sizes wrap around the address space.
\<close>

theorem elf_loads_image:
  assumes wf: "tables_wf R reg lab s" and root: "page_root s \<in> R" and img: "length img < 2 ^ 64"
    and sane: "\<forall>i < unat (e_phnum img). segment_sane (program_header img i)"
  shows "\<exists>r s'. map_image img s = Some (r, s') \<and> r \<noteq> Fault \<and>
     (\<forall>entry_point stack_top. r = Ok (entry_point, stack_top) \<longrightarrow>
        entry_point = e_entry img \<and> stack_top = AF_ELF_STACK_TOP \<and>
        (\<forall>i < unat (e_phnum img). segment_loaded (page_root s) s' img (program_header img i)) \<and>
        stack_loaded (page_root s) s')"
proof (cases "af_status_err (validate_header img)")
  case True
  then show ?thesis by (simp add: map_image_def)
next
  case False
  let ?root = "page_root s" and ?n = "unat (e_phnum img)"
  have "\<forall>i \<in> set [0..<?n]. segment_sane (program_header img i)" using sane by simp
  from load_segments_ok [OF wf root this img, of 0] obtain r1 s1
    where 1: "load_segments [0..<?n] img ?root 0 s = Some (r1, s1)" "r1 \<noteq> Fault"
      "\<forall>b. r1 = Ok b \<longrightarrow> keeps R reg ?root s s1 \<and> (\<forall>i \<in> set [0..<?n]. segment_held ?root s1 img (program_header img i))" by blast
  show ?thesis
  proof (cases "\<exists>n. r1 = Ok n \<and> n \<noteq> 0")
    case no: False
    then show ?thesis using False 1(1,2) by (cases r1) (auto simp: map_image_def hal_get_page_table_def)
  next
    case True
    then obtain n where n: "r1 = Ok n" "n \<noteq> 0" by blast
    then obtain lab1 where wf1: "tables_wf R reg lab1 s1" using 1(3) by (auto simp: keeps_def)
    have top: "AF_ELF_STACK_TOP - AF_ELF_STACK_SIZE = 0x80000F0000" "unat (AF_ELF_STACK_SIZE div AF_PAGE_SIZE) = 16" by simp_all
    have "unat (0x80000F0000 :: u64) + 16 * 4096 < 2 ^ 64" by simp
    from map_stack_ok [OF wf1 root this] obtain r2 s2
      where 2: "map_stack 16 ?root 0x80000F0000 s1 = Some (r2, s2)" "r2 \<noteq> Fault"
        "r2 = Ok () \<longrightarrow> keeps R reg ?root s1 s2 \<and> (\<forall>i < 16. holds_page ?root s2 (0x80000F0000 + of_nat i * AF_PAGE_SIZE) 7 (\<lambda>_. 0))"
      by blast
    have run: "map_image img s = Some (andthen r2 (\<lambda>_. Ok (e_entry img, AF_ELF_STACK_TOP)), s2)"
      unfolding map_image_def Let_def hal_get_page_table_def using False 1(1) n 2(1) top by simp
    show ?thesis
    proof (cases r2)
      case (Ok u)
      then have "keeps R reg ?root s1 s2" "stack_loaded ?root s2" using 2(3) held_stack by auto
      then have "segment_loaded ?root s2 img (program_header img i)" if "i < ?n" for i
        using held_loaded [of ?root s2 img "program_header img i"] segment_held_keeps 1(3) n(1) sane that by auto
      then show ?thesis using run Ok \<open>stack_loaded ?root s2\<close> by simp
    qed (use run 2(2) in auto)
  qed
qed

section \<open>A small program\<close>

definition leads_to :: "u64 \<Rightarrow> u64 \<Rightarrow> bool" where
  "leads_to e t \<longleftrightarrow> present e \<and> \<not> huge e \<and> e AND PTE_USER \<noteq> 0 \<and> table_of e = t"

definition user_path :: "vm_state \<Rightarrow> u64 \<Rightarrow> u64 \<Rightarrow> u64 list \<Rightarrow> bool" where
  "user_path s root va ts \<longleftrightarrow> leads_to (entries s root (pml4_index va)) (ts ! 0) \<and>
     leads_to (entries s (ts ! 0) (pdpt_index va)) (ts ! 1) \<and> leads_to (entries s (ts ! 1) (pd_index va)) (ts ! 2) \<and>
     root \<noteq> ts ! 2 \<and> ts ! 0 \<noteq> ts ! 2 \<and> ts ! 1 \<noteq> ts ! 2"

lemma user_path_entries:
  assumes "user_path s root va ts" "\<And>t i. t \<noteq> ts ! 2 \<Longrightarrow> entries s' t i = entries s t i"
    "pml4_index va' = pml4_index va" "pdpt_index va' = pdpt_index va" "pd_index va' = pd_index va"
  shows "user_path s' root va' ts"
  using assms(1) assms(2) [of root] assms(2) [of "ts ! 0"] assms(2) [of "ts ! 1"] assms(3-5)
  unfolding user_path_def by simp

lemma map_in_table:
  assumes "user_path s root va ts" "root \<noteq> 0" "is_aligned va AF_PAGE_SIZE" "is_aligned pa AF_PAGE_SIZE"
    "\<not> present (entries s (ts ! 2) (pt_index va))"
  shows "hal_map_page root va pa flags s = (AF_OK, set_entry (ts ! 2) (pt_index va) (leaf_entry pa flags) s)"
proof -
  have "walk_to_next_level root (pml4_index va) flags s = (Some (ts ! 0), s)"
    "walk_to_next_level (ts ! 0) (pdpt_index va) flags s = (Some (ts ! 1), s)"
    "walk_to_next_level (ts ! 1) (pd_index va) flags s = (Some (ts ! 2), s)"
    using assms(1) by (simp_all add: walk_to_next_level_def user_path_def leads_to_def Let_def)
  then show ?thesis using assms(2-5) by (simp add: hal_map_page_def leaf_entry_def)
qed

lemma frame_aligned: "frame_address f \<Longrightarrow> is_aligned f AF_PAGE_SIZE"
  using unat_frame_to_addr [of "addr_to_frame f"] by (simp add: frame_address_def aligned_iff)

lemma map_stack_runs:
  assumes "root \<noteq> 0" "pmm_inv (frames s)" "n \<le> card (free_set (frames s))" "user_path s root va ts"
    "\<forall>i < n. let v = va + of_nat i * AF_PAGE_SIZE in is_aligned v AF_PAGE_SIZE \<and> pt_index v = k + i \<and>
       pml4_index v = pml4_index va \<and> pdpt_index v = pdpt_index va \<and> pd_index v = pd_index va"
    "\<forall>i < n. \<not> present (entries s (ts ! 2) (k + i))"
  shows "\<exists>s'. map_stack n root va s = Some (Ok (), s')"
  using assms
proof (induction n arbitrary: va s k)
  case (Suc n)
  obtain f p where a: "pmm_alloc_frame_z (frames s) = (f, p)" by fastforce
  have "free_set (frames s) \<noteq> {}" using Suc.prems(3) by auto
  moreover have "fst (alloc_table s) = f" using a by (simp add: alloc_table_def)
  ultimately have f: "f \<noteq> 0" using alloc_table_some [OF Suc.prems(2), of f "snd (alloc_table s)"] by (metis prod.collapse)
  note al = alloc_z_ok [OF Suc.prems(2) a f]
  let ?s1 = "s\<lparr>frames := p\<rparr>" and ?e = "leaf_entry f 7"
  let ?s2 = "set_entry (ts ! 2) (pt_index va) ?e ?s1"
  have "user_path ?s1 root va ts" by (rule user_path_entries [OF Suc.prems(4)]) simp_all
  moreover have at: "is_aligned va AF_PAGE_SIZE" "pt_index va = k" using Suc.prems(5) by (auto simp: Let_def dest!: spec [of _ 0])
  moreover have "\<not> present (entries ?s1 (ts ! 2) (pt_index va))" using Suc.prems(6) at by (auto dest!: spec [of _ 0])
  ultimately have m: "hal_map_page root va f 7 ?s1 = (AF_OK, ?s2)"
    using map_in_table Suc.prems(1) frame_aligned [OF al(2)] by blast
  have next_va: "va + AF_PAGE_SIZE + of_nat i * AF_PAGE_SIZE = va + of_nat (Suc i) * AF_PAGE_SIZE" for i
    by (simp add: algebra_simps)
  have idx: "pml4_index v = pml4_index va \<and> pdpt_index v = pdpt_index va \<and> pd_index v = pd_index va \<and> is_aligned v AF_PAGE_SIZE \<and> pt_index v = Suc k + i"
    if "i < n" "v = va + AF_PAGE_SIZE + of_nat i * AF_PAGE_SIZE" for i v
    using Suc.prems(5) that(1) unfolding that(2) next_va Let_def by (auto dest!: spec [of _ "Suc i"])
  have "\<exists>s'. map_stack n root (va + AF_PAGE_SIZE) ?s2 = Some (Ok (), s')" if "0 < n"
  proof (rule Suc.IH [OF Suc.prems(1), where k = "Suc k"])
    show "pmm_inv (frames ?s2)" using al(1) by simp
    show "n \<le> card (free_set (frames ?s2))" using al(3,4) Suc.prems(3) by (simp add: card_Diff_singleton)
    have same: "pml4_index (va + AF_PAGE_SIZE) = pml4_index va" "pdpt_index (va + AF_PAGE_SIZE) = pdpt_index va"
        "pd_index (va + AF_PAGE_SIZE) = pd_index va"
      using idx [OF that refl] by simp_all
    show "user_path ?s2 root (va + AF_PAGE_SIZE) ts"
      by (rule user_path_entries [OF Suc.prems(4)]) (use same in simp_all)
    show "\<forall>i < n. let v = va + AF_PAGE_SIZE + of_nat i * AF_PAGE_SIZE in is_aligned v AF_PAGE_SIZE \<and> pt_index v = Suc k + i \<and>
       pml4_index v = pml4_index (va + AF_PAGE_SIZE) \<and> pdpt_index v = pdpt_index (va + AF_PAGE_SIZE) \<and> pd_index v = pd_index (va + AF_PAGE_SIZE)"
      using idx same by (simp add: Let_def)
    show "\<forall>i < n. \<not> present (entries ?s2 (ts ! 2) (Suc k + i))" using Suc.prems(6) at by auto
  qed
  then show ?case using a f m by (cases n) (auto simp: af_status_err_def)
qed simp

lemma walk_fresh_user:
  assumes "pmm_inv (frames s)" "0 < card (free_set (frames s))" "frame_number parent \<notin> free_set (frames s)" "entries s parent i = 0"
    and "flags AND HAL_USER \<noteq> 0"
  obtains t s' where "walk_to_next_level parent i flags s = (Some t, s')" "pmm_inv (frames s')"
     "card (free_set (frames s')) = card (free_set (frames s)) - 1" "free_set (frames s') \<subseteq> free_set (frames s)"
     "frame_number t \<notin> free_set (frames s')" "frame_number t \<in> free_set (frames s)" "leads_to (entries s' parent i) t"
     "entries s' t = (\<lambda>_. 0)" "\<And>x j. x \<noteq> t \<Longrightarrow> x \<noteq> parent \<Longrightarrow> entries s' x j = entries s x j"
proof -
  obtain t s1 where a: "alloc_table s = (t, s1)" by fastforce
  have "free_set (frames s) \<noteq> {}" using assms(2) by auto
  then have t: "t \<noteq> 0" using alloc_table_some [OF assms(1) _ a] by blast
  note al = alloc_table_ok [OF assms(1) a]
  have ne: "parent \<noteq> t" using al t assms(3) by auto
  define s2 where "s2 = set_entry parent i (t OR 1 OR 2 OR 4) s1"
  have fa: "frame_address t" using al t by simp
  have run: "walk_to_next_level parent i flags s = (Some t, s2)"
    unfolding walk_to_next_level_def assms(4) Let_def a s2_def using t assms(5) by (simp add: present_def)
  have l: "leads_to (entries s2 parent i) t"
    using new_entry_bits [OF fa, of 4] by (simp add: s2_def leads_to_def bit.conj_disj_distrib2)
  have z: "entries s2 t = (\<lambda>_. 0)" using al t ne by (simp add: s2_def fun_eq_iff)
  have o: "entries s2 x j = entries s x j" if "x \<noteq> t" "x \<noteq> parent" for x j using al t that by (simp add: s2_def)
  have f: "pmm_inv (frames s2)" "card (free_set (frames s2)) = card (free_set (frames s)) - 1"
      "free_set (frames s2) \<subseteq> free_set (frames s)" "frame_number t \<notin> free_set (frames s2)" "frame_number t \<in> free_set (frames s)"
    using al t by (auto simp: s2_def card_Diff_singleton)
  show thesis by (rule that [OF run f(1-5) l z o])
qed

lemma map_fresh_user:
  assumes "pmm_inv (frames s)" "3 \<le> card (free_set (frames s))" "frame_number root \<notin> free_set (frames s)"
    and "root \<noteq> 0" "entries s root (pml4_index va) = 0" "is_aligned va AF_PAGE_SIZE" "is_aligned pa AF_PAGE_SIZE"
    and u: "flags AND HAL_USER \<noteq> 0"
  obtains s' ts where "hal_map_page root va pa flags s = (AF_OK, s')" "user_path s' root va ts" "pmm_inv (frames s')"
    "card (free_set (frames s')) = card (free_set (frames s)) - 3" "\<And>j. j \<noteq> pt_index va \<Longrightarrow> entries s' (ts ! 2) j = 0"
proof -
  obtain t1 s1 where 1: "walk_to_next_level root (pml4_index va) flags s = (Some t1, s1)" "pmm_inv (frames s1)"
      "card (free_set (frames s1)) = card (free_set (frames s)) - 1" "free_set (frames s1) \<subseteq> free_set (frames s)"
      "frame_number t1 \<notin> free_set (frames s1)" "frame_number t1 \<in> free_set (frames s)" "leads_to (entries s1 root (pml4_index va)) t1"
      "entries s1 t1 = (\<lambda>_. 0)"
    by (rule walk_fresh_user [OF assms(1) _ assms(3,5) u]) (use assms(2) in auto)
  obtain t2 s2 where 2: "walk_to_next_level t1 (pdpt_index va) flags s1 = (Some t2, s2)" "pmm_inv (frames s2)"
      "card (free_set (frames s2)) = card (free_set (frames s1)) - 1" "free_set (frames s2) \<subseteq> free_set (frames s1)"
      "frame_number t2 \<notin> free_set (frames s2)" "frame_number t2 \<in> free_set (frames s1)" "leads_to (entries s2 t1 (pdpt_index va)) t2"
      "entries s2 t2 = (\<lambda>_. 0)" "\<And>x j. x \<noteq> t2 \<Longrightarrow> x \<noteq> t1 \<Longrightarrow> entries s2 x j = entries s1 x j"
    by (rule walk_fresh_user [OF 1(2) _ 1(5) _ u, of "pdpt_index va"]) (use assms(2) 1(3,8) in auto)
  obtain t3 s3 where 3: "walk_to_next_level t2 (pd_index va) flags s2 = (Some t3, s3)" "pmm_inv (frames s3)"
      "card (free_set (frames s3)) = card (free_set (frames s2)) - 1" "free_set (frames s3) \<subseteq> free_set (frames s2)"
      "frame_number t3 \<notin> free_set (frames s3)" "frame_number t3 \<in> free_set (frames s2)" "leads_to (entries s3 t2 (pd_index va)) t3"
      "entries s3 t3 = (\<lambda>_. 0)" "\<And>x j. x \<noteq> t3 \<Longrightarrow> x \<noteq> t2 \<Longrightarrow> entries s3 x j = entries s2 x j"
    by (rule walk_fresh_user [OF 2(2) _ 2(5) _ u, of "pd_index va"]) (use assms(2) 1(3) 2(3,8) in auto)
  have ne: "root \<noteq> t1" "root \<noteq> t2" "root \<noteq> t3" "t1 \<noteq> t2" "t1 \<noteq> t3" "t2 \<noteq> t3"
    using assms(3) 1(4-6) 2(4-6) 3(6) by auto
  let ?s' = "set_entry t3 (pt_index va) (leaf_entry pa flags) s3"
  have run: "hal_map_page root va pa flags s = (AF_OK, ?s')"
    using 1(1) 2(1) 3(1,8) assms(4,6,7) by (simp add: hal_map_page_def present_def leaf_entry_def)
  have path: "user_path ?s' root va [t1, t2, t3]"
    using ne 1(7) 2(7,9) 3(7,9) by (simp add: user_path_def)
  show thesis
    by (rule that [OF run path]) (use 1(3) 2(3) 3(2,3,8) in auto)
qed

definition tiny_elf :: "u8 list" where
  "tiny_elf = [0x7F, 0x45, 0x4C, 0x46, 2, 1, 1, 0, 0, 0, 0, 0, 0, 0, 0, 0] @ le16 2 @ le16 62 @ le32 1 @
     le64 0x8000000078 @ le64 64 @ le64 0 @ le32 0 @ le16 64 @ le16 56 @ le16 1 @ le16 0 @ le16 0 @ le16 0 @
     le32 1 @ le32 5 @ le64 0 @ le64 0x8000000000 @ le64 0 @ le64 122 @ le64 0x800 @ le64 0x1000 @ [0xEB, 0xFE]"

definition demo_pmm32 :: pmm_state where
  "demo_pmm32 = \<lparr>s_bitmap = [7, 0, 0, 0], s_refcount = [0, 1, 1] @ replicate 29 0, s_frame_count = 32, s_usable_frames = 30,
     s_free_frames = 29, s_search_hint = 3, phys_mem = \<lambda>_. 0\<rparr>"

definition demo_vm32 :: vm_state where
  "demo_vm32 = \<lparr>frames = demo_pmm32, entries = \<lambda>_ _. 0, page_root = 0x2000\<rparr>"


lemma demo32_used: "f < 32 \<Longrightarrow> frame_is_used f demo_pmm32 \<longleftrightarrow> f < 3"
proof -
  assume f: "f < 32"
  have "\<forall>f < 32. frame_is_used f demo_pmm32 = (f < 3)" by code_simp
  then show ?thesis using f by blast
qed

lemma demo32_free: "free_set demo_pmm32 = {3..<32}"
  using demo32_used by (auto simp: free_set_def) (auto simp: demo_pmm32_def)

lemma demo32_inv: "pmm_inv demo_pmm32"
proof -
  have "\<forall>f < 32. 3 \<le> f \<longrightarrow> s_refcount demo_pmm32 ! f = 0" by code_simp
  then have "\<forall>f \<in> {3..<32}. s_refcount demo_pmm32 ! f = 0" by simp
  then show ?thesis unfolding pmm_inv_def pmm_counts_def pmm_rep_def demo32_free
    by (intro conjI) (simp_all add: demo_pmm32_def)
qed

lemma demo32_wf: "tables_wf {0x2000} reg Map.empty demo_vm32"
  using demo32_inv
  by (simp add: tables_wf_def demo_vm32_def table_frame_def root_ok_def present_def frame_number_def demo32_free
      frame_address_def frame_to_addr_def addr_to_frame_def)


lemma tiny_header: "validate_header tiny_elf = AF_OK" "unat (e_phnum tiny_elf) = 1" "length tiny_elf = 122"
    "e_entry tiny_elf = 0x8000000078"
    "program_header tiny_elf 0 = \<lparr>p_type = 1, p_flags = 5, p_offset = 0, p_vaddr = 0x8000000000, p_filesz = 122, p_memsz = 0x800\<rparr>"
  by code_simp+

lemma stack_slots: "\<forall>i < 16. let v = 0x80000F0000 + of_nat i * AF_PAGE_SIZE in is_aligned v AF_PAGE_SIZE \<and> pt_index v = 0xF0 + i \<and>
       pml4_index v = pml4_index 0x80000F0000 \<and> pdpt_index v = pdpt_index 0x80000F0000 \<and> pd_index v = pd_index 0x80000F0000"
proof -
  have all: "(\<forall>i < 16. P i) \<longleftrightarrow> P 0 \<and> P 1 \<and> P 2 \<and> P 3 \<and> P 4 \<and> P 5 \<and> P 6 \<and> P 7 \<and> P 8 \<and> P 9 \<and> P 10 \<and> P 11 \<and>
      P 12 \<and> P 13 \<and> P 14 \<and> P 15" for P :: "nat \<Rightarrow> bool"
    by (simp add: eval_nat_numeral All_less_Suc conj_ac)
  show ?thesis
    unfolding all Let_def is_aligned_def pt_index_def pml4_index_def pdpt_index_def pd_index_def by simp
qed

lemma tiny_loads: "\<exists>s'. map_image tiny_elf demo_vm32 = Some (Ok (0x8000000078, AF_ELF_STACK_TOP), s')"
proof -
  let ?ph = "program_header tiny_elf 0" and ?va = "0x8000000000 :: u64"
  have inv: "pmm_inv (frames demo_vm32)" by (simp add: demo_vm32_def demo32_inv)
  obtain f p where a: "pmm_alloc_frame_z (frames demo_vm32) = (f, p)" by fastforce
  have fs: "free_set (frames demo_vm32) = {3..<32}" by (simp add: demo_vm32_def demo32_free)
  have "fst (alloc_table demo_vm32) = f" using a by (simp add: alloc_table_def)
  then have f: "f \<noteq> 0" using alloc_table_some [OF inv, of f "snd (alloc_table demo_vm32)"] fs by (cases "alloc_table demo_vm32") auto
  note al = alloc_z_ok [OF inv a f]
  let ?s1 = "demo_vm32\<lparr>frames := p\<rparr>"
  have c1: "card (free_set p) = 28" using al(3,4) fs by (simp add: card_Diff_singleton)
  have r: "frame_number 0x2000 \<notin> free_set (frames ?s1)"
    using al(4) fs by (simp add: frame_number_def addr_to_frame_def)
  obtain s2 ts where 2: "hal_map_page 0x2000 ?va f 13 ?s1 = (AF_OK, s2)" "user_path s2 0x2000 ?va ts" "pmm_inv (frames s2)"
      "card (free_set (frames s2)) = card (free_set (frames ?s1)) - 3" "\<And>j. j \<noteq> pt_index ?va \<Longrightarrow> entries s2 (ts ! 2) j = 0"
  proof (rule map_fresh_user [of ?s1 "0x2000" ?va f 13])
    show "pmm_inv (frames ?s1)" using al(1) by simp
    show "3 \<le> card (free_set (frames ?s1))" using c1 by simp
    show "frame_number 0x2000 \<notin> free_set (frames ?s1)" by (rule r)
    show "entries ?s1 0x2000 (pml4_index ?va) = 0" by (simp add: demo_vm32_def)
    show "is_aligned ?va AF_PAGE_SIZE" by (simp add: is_aligned_def)
    show "is_aligned f AF_PAGE_SIZE" by (rule frame_aligned [OF al(2)])
  qed simp_all
  have wf1: "tables_wf {0x2000} (\<lambda>_ _. 0) Map.empty demo_vm32" by (rule demo32_wf)
  have fl: "segment_to_hal_flags (p_flags ?ph) = 13" by (simp add: tiny_header segment_to_hal_flags_def)
  have z: "\<forall>k < 4096. phys_mem (frames s2) (f + of_nat k) = 0"
    using map_fresh_page [OF wf1 _ _ a f 2(1)] by simp
  have fit: "file_part_fits tiny_elf ?ph" by (simp add: file_part_fits_def tiny_header)
  obtain s3 where 3: "copy_page tiny_elf ?ph ?va f s2 = (Ok (), s3)" "entries s3 = entries s2" "page_root s3 = page_root s2"
      "pmm_inv (frames s3) = pmm_inv (frames s2)" "free_set (frames s3) = free_set (frames s2)"
    using copy_page_ok [OF fit al(2) _ z, of ?va] by auto
  have page: "load_page tiny_elf 0x2000 ?ph 13 ?va demo_vm32 = Some (Ok (), s3)"
    using a f 2(1) 3(1) by (simp add: load_page_def af_status_err_def)
  have n: "unat ((align_up (p_vaddr ?ph + p_memsz ?ph) AF_PAGE_SIZE - align_down (p_vaddr ?ph) AF_PAGE_SIZE) div AF_PAGE_SIZE) = 1"
    "align_down (p_vaddr ?ph) AF_PAGE_SIZE = ?va"
    by (simp_all add: tiny_header align_up_def align_down_def)
  have seg: "load_segment tiny_elf 0x2000 ?ph demo_vm32 = Some (Ok True, s3)"
    unfolding load_segment_def Let_def n fl using page by (simp add: tiny_header align_up_def)
  have "user_path s3 0x2000 0x80000F0000 ts"
    by (rule user_path_entries [OF 2(2)]) (use 3(2) in \<open>simp_all add: pml4_index_def pdpt_index_def pd_index_def\<close>)
  moreover have "\<forall>i < 16. \<not> present (entries s3 (ts ! 2) (0xF0 + i))"
    using 2(5) 3(2) by (simp add: present_def pt_index_def)
  moreover have "16 \<le> card (free_set (frames s3))" using 3(5) 2(4) c1 by simp
  ultimately obtain s4 where 4: "map_stack 16 0x2000 0x80000F0000 s3 = Some (Ok (), s4)"
    using map_stack_runs [of "0x2000" s3 16 "0x80000F0000" ts, OF _ _ _ _ stack_slots] 3(4) 2(3) by auto
  have "AF_ELF_STACK_TOP - AF_ELF_STACK_SIZE = 0x80000F0000" "unat (AF_ELF_STACK_SIZE div AF_PAGE_SIZE) = 16" by simp_all
  moreover have "hal_get_page_table demo_vm32 = 0x2000" by (simp add: hal_get_page_table_def demo_vm32_def)
  ultimately show ?thesis
    unfolding map_image_def Let_def using seg 4 tiny_header by (simp add: af_status_err_def)
qed

lemma elf_loads_image_witness:
  "\<exists>s'. map_image tiny_elf demo_vm32 = Some (Ok (0x8000000078, AF_ELF_STACK_TOP), s') \<and>
     byte_at 0x2000 s' 0x8000000078 = 0xEB \<and> byte_at 0x2000 s' 0x80000007FF = 0 \<and>
     hal_query_flags 0x2000 0x8000000078 s' = HAL_PRESENT OR HAL_USER OR HAL_EXEC \<and> stack_loaded 0x2000 s'"
proof -
  obtain s' where run: "map_image tiny_elf demo_vm32 = Some (Ok (0x8000000078, AF_ELF_STACK_TOP), s')" using tiny_loads by blast
  have root: "page_root demo_vm32 = 0x2000" by (simp add: demo_vm32_def)
  have "\<forall>i < unat (e_phnum tiny_elf). segment_sane (program_header tiny_elf i)"
    by (simp add: tiny_header segment_sane_def)
  moreover have "page_root demo_vm32 \<in> {0x2000}" "length tiny_elf < 2 ^ 64" by (simp_all add: root tiny_header(3))
  ultimately have "\<exists>r t. map_image tiny_elf demo_vm32 = Some (r, t) \<and> r \<noteq> Fault \<and>
     (\<forall>entry_point stack_top. r = Ok (entry_point, stack_top) \<longrightarrow>
        entry_point = e_entry tiny_elf \<and> stack_top = AF_ELF_STACK_TOP \<and>
        (\<forall>i < unat (e_phnum tiny_elf). segment_loaded 0x2000 t tiny_elf (program_header tiny_elf i)) \<and>
        stack_loaded 0x2000 t)"
    using elf_loads_image [OF demo32_wf [where reg = "\<lambda>_ _. 0"], of tiny_elf] unfolding root by blast
  then have "(\<forall>i < unat (e_phnum tiny_elf). segment_loaded 0x2000 s' tiny_elf (program_header tiny_elf i)) \<and> stack_loaded 0x2000 s'"
    unfolding run by blast
  then have l: "segment_loaded 0x2000 s' tiny_elf (program_header tiny_elf 0)" "stack_loaded 0x2000 s'"
    unfolding tiny_header(2) by simp_all
  have b: "tiny_elf ! 120 = 0xEB" by code_simp
  have fl: "segment_to_hal_flags 5 = 13" by (simp add: segment_to_hal_flags_def)
  have at: "hal_query_flags 0x2000 (0x8000000000 + of_nat j) s' = 13 \<and>
      byte_at 0x2000 s' (0x8000000000 + of_nat j) = (if j < 122 then tiny_elf ! j else 0)" if "j < 0x800" for j
    using l(1) that by (simp add: segment_loaded_def tiny_header fl)
  have "(120::nat) < 0x800" "(0x7FF::nat) < 0x800" by simp_all
  from at [OF this(1)] at [OF this(2)] show ?thesis using run l(2) b by simp
qed

section \<open>What the checks let through\<close>

text \<open>
  The range check adds offset and size in 64 bits. A size of \<open>2 ^ 64 - 1\<close> wraps it to a small end, the
  segment comes out one page long, and the copy runs with a length of \<open>2 ^ 64 - 1\<close> out of the frame.
\<close>

theorem wrapped_size_overruns:
  assumes ph: "ph = \<lparr>p_type = 1, p_flags = fl, p_offset = 1, p_vaddr = 0x8000000FFF, p_filesz = -1, p_memsz = -1\<rparr>"
    and frame: "pmm_alloc_frame_z (frames s) = (f, p)" "f \<noteq> 0"
    and mapped: "hal_map_page root 0x8000000000 f (segment_to_hal_flags fl) (s\<lparr>frames := p\<rparr>) = (AF_OK, s2)"
    and img: "img \<noteq> []" "length img < 2 ^ 64"
  shows "load_segment img root ph s = Some (Fault, s2)"
proof -
  have size: "\<not> (of_nat (length img) :: u64) < 1"
    proof -
    have "unat (of_nat (length img) :: u64) = length img" using img by (simp add: unat_of_nat)
    then show ?thesis using img(1) unfolding word_less_nat_alt by simp
  qed
  have big: "unat (- 1 :: u64) = 2 ^ 64 - 1" by (simp add: unsigned_minus_1_eq_mask mask_eq_exp_minus_1)
  have copy: "copy_page img ph 0x8000000000 f s2 = (Fault, s2)"
    by (simp add: copy_page_def ph Let_def big)
  have pages: "unat ((align_up (p_vaddr ph + p_memsz ph) AF_PAGE_SIZE - align_down (p_vaddr ph) AF_PAGE_SIZE) div AF_PAGE_SIZE) = 1"
      "align_down (p_vaddr ph) AF_PAGE_SIZE = 0x8000000000"
    by (simp_all add: ph align_up_def align_down_def)
  have "load_page img root ph (segment_to_hal_flags (p_flags ph)) 0x8000000000 s = Some (Fault, s2)"
    using frame mapped copy by (simp add: load_page_def af_status_err_def ph)
  then show ?thesis
    unfolding load_segment_def Let_def pages using size by (simp add: ph align_up_def)
qed

text \<open>
  The test for the user half only refuses addresses with a bit above \<open>AF_USER_TOP\<close>: a segment in the
  entries of the top table that every address space shares with the kernel goes on to be mapped.
\<close>

theorem shared_slots_accepted:
  assumes "p_type ph = 1" "p_memsz ph = AF_PAGE_SIZE" "p_filesz ph = 0" "p_offset ph = 0" "p_vaddr ph = va"
    and "is_aligned va AF_PAGE_SIZE" "unat va < 2 ^ 43"
  shows "load_segment img root ph s =
     (case load_pages 1 img root ph (segment_to_hal_flags (p_flags ph)) va s of
        None \<Rightarrow> None | Some (r, s1) \<Rightarrow> Some (andthen r (\<lambda>_. Ok True), s1))"
proof -
  have m: "(4095 :: u64) = mask 12" "NOT (0xFFFFFFFFFFF :: u64) = NOT (mask 44)" "(0xFFFFFFFFFFF :: u64) = mask 44"
    by (simp_all add: mask_eq_exp_minus_1)
  have d: "align_down va AF_PAGE_SIZE = va" by (rule word_unat_eq_iff [THEN iffD2]) (use unat_align_down [of va] assms(6) in \<open>simp add: aligned_iff mod_0_imp_dvd dvd_div_mult_self\<close>)
  have w: "unat (va + AF_PAGE_SIZE) = unat va + 4096" using assms(7) by (subst unat_add_small) simp_all
  have "unat va mod 4096 = 0" using assms(6) by (simp add: aligned_iff)
  then obtain q where q: "unat va = 4096 * q" by (auto elim!: dvdE simp: mod_eq_0_iff_dvd)
  have "(8191 + q * 4096) div 4096 = q + 8191 div (4096::nat)" by (rule div_mult_self1) simp
  then have e1: "(unat va + 4096 + 4095) div 4096 * 4096 = unat va + 4096" unfolding q by (simp add: mult.commute)
  have e2: "unat (align_up (va + AF_PAGE_SIZE) AF_PAGE_SIZE) = (unat (va + AF_PAGE_SIZE) + 4095) div 4096 * 4096"
    by (rule unat_align_up) (use w assms(7) in simp)
  have "unat (align_up (va + AF_PAGE_SIZE) AF_PAGE_SIZE) = unat (va + AF_PAGE_SIZE)"
    unfolding e2 w by (rule e1)
  then have u: "align_up (va + AF_PAGE_SIZE) AF_PAGE_SIZE = va + AF_PAGE_SIZE"
    by (rule word_unat_eq_iff [THEN iffD2])
  have nb: "\<not> bit va n" if "44 \<le> n" for n
  proof -
    have "take_bit 44 va = va" using assms(7) by (simp add: word_unat_eq_iff unsigned_take_bit_eq take_bit_nat_eq_self)
    then show ?thesis using that by (metis bit_take_bit_iff linorder_not_le)
  qed
  have low: "va AND NOT AF_USER_TOP = 0"
    unfolding m by (intro bit_word_eqI) (use nb in \<open>auto simp: bit_simps linorder_not_less [symmetric]\<close>)
  have "unat ((va + AF_PAGE_SIZE - va) div AF_PAGE_SIZE) = 1" by simp
  then show ?thesis
    unfolding load_segment_def Let_def assms(2,5) d u using assms low by simp
qed

end
