(* ===== verification/KString.thy ===== *)
theory KString
  imports Bytes
begin

text \<open>
  Memory and string helpers (\<open>kernel/core/kstring.c\<close>), on a byte-addressed memory. Pointers are
  addresses and the arithmetic on them wraps; the pointer 0 is \<open>NULL\<close>. A loop that looks for a
  terminating zero is a partial function: \<open>None\<close> means that it does not return.
\<close>

type_synonym mem = "u64 \<Rightarrow> u8"

section \<open>Bytes of memory\<close>

definition bytes_at :: "mem \<Rightarrow> u64 \<Rightarrow> nat \<Rightarrow> u8 list" where
  "bytes_at m a n = map (\<lambda>i. m (a + of_nat i)) [0..<n]"

definition put_bytes :: "u64 \<Rightarrow> u8 list \<Rightarrow> mem \<Rightarrow> mem" where
  "put_bytes a bs m = (\<lambda>x. if unat (x - a) < length bs then bs ! unat (x - a) else m x)"

definition get64 :: "mem \<Rightarrow> u64 \<Rightarrow> u64" where
  "get64 m a = rd64 (bytes_at m a 8) 0"

definition put64 :: "u64 \<Rightarrow> u64 \<Rightarrow> mem \<Rightarrow> mem" where
  "put64 a v m = put_bytes a (le64 v) m"

definition get32 :: "mem \<Rightarrow> u64 \<Rightarrow> u32" where
  "get32 m a = rd32 (bytes_at m a 4) 0"

definition put32 :: "u64 \<Rightarrow> u32 \<Rightarrow> mem \<Rightarrow> mem" where
  "put32 a v m = put_bytes a (le32 v) m"

section \<open>Memory functions\<close>

fun memset_align :: "nat \<Rightarrow> u64 \<Rightarrow> u8 \<Rightarrow> mem \<Rightarrow> nat \<times> u64 \<times> mem" where
  "memset_align n d v m =
     (if 8 \<le> n \<and> \<not> is_aligned d 8 then memset_align (n - 1) (d + 1) v (m(d := v)) else (n, d, m))"

fun memset_words :: "nat \<Rightarrow> u64 \<Rightarrow> u64 \<Rightarrow> mem \<Rightarrow> nat \<times> u64 \<times> mem" where
  "memset_words n d pattern m =
     (if 8 \<le> n then memset_words (n - 8) (d + 8) pattern (put64 d pattern m) else (n, d, m))"

fun memset_tail :: "nat \<Rightarrow> u64 \<Rightarrow> u8 \<Rightarrow> mem \<Rightarrow> mem" where
  "memset_tail 0 d v m = m"
| "memset_tail (Suc n) d v m = memset_tail n (d + 1) v (m(d := v))"

declare memset_align.simps [simp del] memset_words.simps [simp del]

definition af_memset :: "u64 \<Rightarrow> int \<Rightarrow> u64 \<Rightarrow> mem \<Rightarrow> mem" where
  "af_memset dst value n m =
     (let v = word_of_int value :: u8;
          w = ucast v :: u64;
          pattern = push_bit 56 w OR push_bit 48 w OR push_bit 40 w OR push_bit 32 w OR
            push_bit 24 w OR push_bit 16 w OR push_bit 8 w OR w;
          (n1, d1, m1) = memset_align (unat n) dst v m;
          (n2, d2, m2) = memset_words n1 d1 pattern m1
      in memset_tail n2 d2 v m2)"

fun copy_up :: "nat \<Rightarrow> u64 \<Rightarrow> u64 \<Rightarrow> mem \<Rightarrow> mem" where
  "copy_up 0 d s m = m"
| "copy_up (Suc n) d s m = copy_up n (d + 1) (s + 1) (m(d := m s))"

fun copy_down :: "nat \<Rightarrow> u64 \<Rightarrow> u64 \<Rightarrow> mem \<Rightarrow> mem" where
  "copy_down 0 d s m = m"
| "copy_down (Suc n) d s m = copy_down n (d - 1) (s - 1) (m(d - 1 := m (s - 1)))"

definition af_memcpy :: "u64 \<Rightarrow> u64 \<Rightarrow> u64 \<Rightarrow> mem \<Rightarrow> mem" where
  "af_memcpy dst src n m = copy_up (unat n) dst src m"

definition af_memmove :: "u64 \<Rightarrow> u64 \<Rightarrow> u64 \<Rightarrow> mem \<Rightarrow> mem" where
  "af_memmove dst src n m =
     (if dst = src \<or> n = 0 then m
      else if dst < src then copy_up (unat n) dst src m
      else copy_down (unat n) (dst + n) (src + n) m)"

fun memcmp_loop :: "nat \<Rightarrow> mem \<Rightarrow> u64 \<Rightarrow> u64 \<Rightarrow> int" where
  "memcmp_loop 0 m a b = 0"
| "memcmp_loop (Suc n) m a b =
     (if m a \<noteq> m b then int (unat (m a)) - int (unat (m b)) else memcmp_loop n m (a + 1) (b + 1))"

definition af_memcmp :: "u64 \<Rightarrow> u64 \<Rightarrow> u64 \<Rightarrow> mem \<Rightarrow> int" where
  "af_memcmp a b n m = memcmp_loop (unat n) m a b"

section \<open>Strings\<close>

partial_function (option) strlen_from :: "mem \<Rightarrow> u64 \<Rightarrow> u64 \<Rightarrow> u64 option" where
  "strlen_from m s n = (if m (s + n) = 0 then Some n else strlen_from m s (n + 1))"

definition af_strlen :: "mem \<Rightarrow> u64 \<Rightarrow> u64 option" where
  "af_strlen m s = (if s = 0 then Some 0 else strlen_from m s 0)"

partial_function (option) strcmp_loop :: "mem \<Rightarrow> u64 \<Rightarrow> u64 \<Rightarrow> int option" where
  "strcmp_loop m a b =
     (if m a \<noteq> 0 \<and> m a = m b then strcmp_loop m (a + 1) (b + 1)
      else Some (int (unat (m a)) - int (unat (m b))))"

definition af_strcmp :: "mem \<Rightarrow> u64 \<Rightarrow> u64 \<Rightarrow> int option" where
  "af_strcmp m a b =
     (if a = b then Some 0 else if a = 0 then Some (-1) else if b = 0 then Some 1 else strcmp_loop m a b)"

fun strncmp_loop :: "nat \<Rightarrow> mem \<Rightarrow> u64 \<Rightarrow> u64 \<Rightarrow> int" where
  "strncmp_loop 0 m a b = 0"
| "strncmp_loop (Suc n) m a b =
     (if m a \<noteq> m b then int (unat (m a)) - int (unat (m b))
      else if m a = 0 then 0
      else strncmp_loop n m (a + 1) (b + 1))"

definition af_strncmp :: "mem \<Rightarrow> u64 \<Rightarrow> u64 \<Rightarrow> u64 \<Rightarrow> int" where
  "af_strncmp m a b n =
     (if a = b \<or> n = 0 then 0 else if a = 0 then -1 else if b = 0 then 1 else strncmp_loop (unat n) m a b)"

partial_function (option) strchr_loop :: "mem \<Rightarrow> u64 \<Rightarrow> u8 \<Rightarrow> u64 option" where
  "strchr_loop m s target =
     (if m s \<noteq> 0 then (if m s = target then Some s else strchr_loop m (s + 1) target)
      else Some (if target = 0 then s else 0))"

definition af_strchr :: "mem \<Rightarrow> u64 \<Rightarrow> int \<Rightarrow> u64 option" where
  "af_strchr m s c = (if s = 0 then Some 0 else strchr_loop m s (word_of_int c))"

text \<open>The loop of \<open>af_strlcpy\<close>: the index at which it stops, and the memory then.\<close>

function strlcpy_loop :: "u64 \<Rightarrow> u64 \<Rightarrow> nat \<Rightarrow> nat \<Rightarrow> mem \<Rightarrow> nat \<times> mem" where
  "strlcpy_loop dst src sz i m =
     (if i + 1 < sz \<and> m (src + of_nat i) \<noteq> 0
      then strlcpy_loop dst src sz (i + 1) (m(dst + of_nat i := m (src + of_nat i)))
      else (i, m))"
  by pat_completeness auto
termination by (relation "measure (\<lambda>(dst, src, sz, i, m). sz - i)") auto

declare strlcpy_loop.simps [simp del]

definition af_strlcpy :: "u64 \<Rightarrow> u64 \<Rightarrow> u64 \<Rightarrow> mem \<Rightarrow> u64 \<times> mem" where
  "af_strlcpy dst src sz m =
     (if dst = 0 \<or> sz = 0 then (0, m)
      else if src = 0 then (0, m(dst := 0))
      else let (i, m1) = strlcpy_loop dst src (unat sz) 0 m in (of_nat i, m1(dst + of_nat i := 0)))"

definition af_strlcat :: "u64 \<Rightarrow> u64 \<Rightarrow> u64 \<Rightarrow> mem \<Rightarrow> (u64 \<times> mem) option" where
  "af_strlcat dst src sz m =
     (if dst = 0 \<or> sz = 0 then Some (0, m)
      else case af_strlen m dst of
          None \<Rightarrow> None
        | Some dlen \<Rightarrow>
            if sz \<le> dlen then Some (sz - 1, m)
            else let (n, m1) = af_strlcpy (dst + dlen) src (sz - dlen) m in Some (dlen + n, m1))"

partial_function (option) prefix_loop :: "mem \<Rightarrow> u64 \<Rightarrow> u64 \<Rightarrow> bool option" where
  "prefix_loop m s p =
     (if m p = 0 then Some True else if m s \<noteq> m p then Some False else prefix_loop m (s + 1) (p + 1))"

definition af_str_has_prefix :: "mem \<Rightarrow> u64 \<Rightarrow> u64 \<Rightarrow> bool option" where
  "af_str_has_prefix m s p = (if s = 0 \<or> p = 0 then Some False else prefix_loop m s p)"

section \<open>Numbers\<close>

definition digit_char :: "bool \<Rightarrow> u64 \<Rightarrow> u8" where
  "digit_char uppercase d =
     map (of_char) (if uppercase then ''0123456789ABCDEF'' else ''0123456789abcdef'') ! unat d"

text \<open>The digits of a nonzero value, the least significant first; \<open>room\<close> is what is left of \<open>tmp[24]\<close>.\<close>

fun digit_loop :: "nat \<Rightarrow> u64 \<Rightarrow> u64 \<Rightarrow> bool \<Rightarrow> u8 list" where
  "digit_loop 0 base value uppercase = []"
| "digit_loop (Suc room) base value uppercase =
     (if value = 0 then []
      else digit_char uppercase (value mod base) # digit_loop room base (value div base) uppercase)"

text \<open>What the last loop leaves at \<open>out\<close>: as many of the leading digits as fit, and a terminator.\<close>

definition utoa_digits :: "u64 \<Rightarrow> u32 \<Rightarrow> bool \<Rightarrow> u8 list" where
  "utoa_digits value base uppercase =
     rev (if value = 0 then [0x30] else digit_loop 24 (ucast base) value uppercase)"

definition af_utoa_base :: "u64 \<Rightarrow> u64 \<Rightarrow> u64 \<Rightarrow> u32 \<Rightarrow> bool \<Rightarrow> mem \<Rightarrow> mem" where
  "af_utoa_base value out out_size base uppercase m =
     (if out = 0 \<or> out_size = 0 then m
      else if base < 2 \<or> 16 < base then m(out := 0)
      else put_bytes out (take (unat out_size - 1) (utoa_digits value base uppercase) @ [0]) m)"

definition af_itoa :: "64 word \<Rightarrow> u64 \<Rightarrow> u64 \<Rightarrow> mem \<Rightarrow> mem" where
  "af_itoa value out out_size m =
     (if out = 0 \<or> out_size = 0 then m
      else if value <s 0
      then let magnitude = NOT value + 1 in af_utoa_base magnitude (out + 1) (out_size - 1) 10 False (m(out := 0x2D))
      else af_utoa_base value out out_size 10 False m)"

text \<open>
  The local buffers of the two formatters are lists here: \<open>af_strlcpy\<close> from one of them copies the
  bytes before its terminator.
\<close>

definition copy_out :: "u8 list \<Rightarrow> u64 \<Rightarrow> u64 \<Rightarrow> mem \<Rightarrow> int \<times> mem" where
  "copy_out src out out_size m =
     (if out = 0 \<or> out_size = 0 then (0, m)
      else let bs = strlcpy_bytes (unat out_size) src in (int (length bs), put_bytes out (bs @ [0]) m))"

definition af_format_u64 :: "u64 \<Rightarrow> u64 \<Rightarrow> u64 \<Rightarrow> mem \<Rightarrow> int \<times> mem" where
  "af_format_u64 value out out_size m = copy_out (take 23 (utoa_digits value 10 False) @ [0]) out out_size m"

definition af_format_hex :: "u64 \<Rightarrow> bool \<Rightarrow> bool \<Rightarrow> u64 \<Rightarrow> u64 \<Rightarrow> mem \<Rightarrow> int \<times> mem" where
  "af_format_hex value prefix zero_pad_16 out out_size m =
     (if out = 0 \<or> out_size = 0 then (0, m)
      else let digits = take 23 (utoa_digits value 16 False)
        in copy_out ((if prefix then [0x30, 0x78] else []) @
             (if zero_pad_16 then replicate (16 - length digits) 0x30 else []) @ digits @ [0]) out out_size m)"

section \<open>Blocks of memory\<close>

lemma unat_of_nat_64: "n < 2 ^ 64 \<Longrightarrow> unat (of_nat n :: u64) = n"
  by (simp add: unat_of_nat)

lemma length_bytes_at [simp]: "length (bytes_at m a n) = n"
  by (simp add: bytes_at_def)

lemma nth_bytes_at [simp]: "i < n \<Longrightarrow> bytes_at m a n ! i = m (a + of_nat i)"
  by (simp add: bytes_at_def)

lemma bytes_at_0 [simp]: "bytes_at m a 0 = []"
  by (simp add: bytes_at_def)

lemma bytes_at_Suc: "bytes_at m a (Suc n) = m a # bytes_at m (a + 1) n"
  by (rule nth_equalityI) (auto simp: nth_Cons algebra_simps split: nat.splits)

lemma bytes_at_snoc: "bytes_at m a (Suc n) = bytes_at m a n @ [m (a + of_nat n)]"
  by (simp add: bytes_at_def)

lemma bytes_at_add: "bytes_at m a (n + k) = bytes_at m a n @ bytes_at m (a + of_nat n) k"
  by (induction n arbitrary: a) (auto simp: bytes_at_Suc algebra_simps)

lemma bytes_at_cong: "(\<And>i. i < n \<Longrightarrow> m' (a + of_nat i) = m (a + of_nat i)) \<Longrightarrow> bytes_at m' a n = bytes_at m a n"
  by (rule nth_equalityI) simp_all

lemma put_bytes_Nil [simp]: "put_bytes a [] m = m"
  by (simp add: put_bytes_def)

lemma offset_Suc: "x \<noteq> a \<Longrightarrow> unat (x - a :: u64) = Suc (unat (x - (a + 1)))"
proof -
  assume "x \<noteq> a"
  moreover have "x - (a + 1) = x - a - 1" by simp
  ultimately have "unat (x - (a + 1)) = unat (x - a) - 1" using unat_minus_one_word [of "x - a"] by (simp only: right_minus_eq not_False_eq_True simp_thms)
  moreover have "unat (x - a) \<noteq> 0" using \<open>x \<noteq> a\<close> by (simp add: unat_eq_zero)
  ultimately show ?thesis by simp
qed

lemma put_bytes_Cons:
  assumes "length bs < 2 ^ 64"
  shows "put_bytes a (b # bs) m = put_bytes (a + 1) bs (m(a := b))"
proof
  fix x
  have "a - (a + 1) = (-1 :: u64)" by simp
  then have "unat (a - (a + 1)) = 2 ^ 64 - 1" by (simp only: unsigned_minus_1_eq_mask) (simp add: mask_eq_exp_minus_1)
  then have "\<not> unat (a - (a + 1)) < length bs" using assms by simp
  then show "put_bytes a (b # bs) m x = put_bytes (a + 1) bs (m(a := b)) x"
    using offset_Suc [of x a] by (cases "x = a") (simp_all add: put_bytes_def)
qed

lemma put_bytes_append:
  "length bs + length cs \<le> 2 ^ 64 \<Longrightarrow> put_bytes a (bs @ cs) m = put_bytes (a + of_nat (length bs)) cs (put_bytes a bs m)"
proof (induction bs arbitrary: a m)
  case (Cons b bs)
  then show ?case by (simp add: put_bytes_Cons add.assoc)
qed simp

lemma put_bytes_at: "i < length bs \<Longrightarrow> length bs \<le> 2 ^ 64 \<Longrightarrow> put_bytes a bs m (a + of_nat i) = bs ! i"
  using unat_of_nat_64 [of i] by (simp add: put_bytes_def)

lemma bytes_at_put [simp]: "length bs \<le> 2 ^ 64 \<Longrightarrow> n = length bs \<Longrightarrow> bytes_at (put_bytes a bs m) a n = bs"
  by (rule nth_equalityI) (simp_all add: put_bytes_at)

lemma put_bytes_other: "length bs \<le> unat (x - a) \<Longrightarrow> put_bytes a bs m x = m x"
  by (simp add: put_bytes_def)

lemma put_bytes_same: "bytes_at m a (length bs) = bs \<Longrightarrow> put_bytes a bs m = m"
proof
  fix x assume "bytes_at m a (length bs) = bs"
  then have "unat (x - a) < length bs \<Longrightarrow> m (a + of_nat (unat (x - a))) = bs ! unat (x - a)"
    using nth_bytes_at [of "unat (x - a)" "length bs" m a] by simp
  then show "put_bytes a bs m x = m x" by (simp add: put_bytes_def)
qed

text \<open>Two blocks that do not overlap; neither may wrap.\<close>

definition apart :: "u64 \<Rightarrow> nat \<Rightarrow> u64 \<Rightarrow> nat \<Rightarrow> bool" where
  "apart a n b k \<longleftrightarrow> unat a + n \<le> unat b \<and> unat b + k \<le> 2 ^ 64 \<or> unat b + k \<le> unat a \<and> unat a + n \<le> 2 ^ 64"

lemma unat_offset: "unat a + i < 2 ^ 64 \<Longrightarrow> unat (a + of_nat i :: u64) = unat a + i"
  by (simp add: unat_word_ariths unat_of_nat)

lemma apart_offset: "apart a n b k \<Longrightarrow> i < n \<Longrightarrow> k \<le> unat (a + of_nat i - b)"
proof -
  assume h: "apart a n b k" "i < n"
  then have "unat a + i < 2 ^ 64" using unat_bound [of b] by (auto simp: apart_def)
  then have x: "unat (a + of_nat i) = unat a + i" by (rule unat_offset)
  have "unat (a + of_nat i - b) = (if unat b \<le> unat a + i then unat a + i - unat b else 2 ^ 64 + (unat a + i) - unat b)"
    using unat_bound [of b] x by (auto simp: unat_sub_if')
  then show ?thesis using h unat_bound [of b] by (auto simp: apart_def)
qed

lemma bytes_at_apart: "apart a n b (length bs) \<Longrightarrow> bytes_at (put_bytes b bs m) a n = bytes_at m a n"
  by (rule bytes_at_cong) (simp add: put_bytes_other apart_offset)

section \<open>Words in memory\<close>

lemma rd64_le64: "rd64 (le64 v) 0 = v"
proof -
  have a: "rd32 (le64 v) 0 = ucast v" "rd32 (le64 v) 4 = ucast (drop_bit 32 v)"
    using rd32_le32 [of "[]" "ucast v" "le32 (ucast (drop_bit 32 v))"] rd32_le32 [of "le32 (ucast v)" "ucast (drop_bit 32 v)" "[]"]
    by (simp_all add: le64_def)
  show ?thesis unfolding rd64_def add_0 a
    by (rule bit_word_eqI) (auto simp: bit_simps)
qed

lemma get_put [simp]: "get64 (put64 a v m) a = v" "get32 (put32 a w m) a = w"
  using rd32_le32 [of "[]" w "[]"] by (simp_all add: get64_def put64_def get32_def put32_def rd64_le64)

lemma get64_cong: "(\<And>i. i < 8 \<Longrightarrow> m' (a + of_nat i) = m (a + of_nat i)) \<Longrightarrow> get64 m' a = get64 m a"
  using bytes_at_cong [of 8 m' a m] by (simp add: get64_def)

lemma get32_cong: "(\<And>i. i < 4 \<Longrightarrow> m' (a + of_nat i) = m (a + of_nat i)) \<Longrightarrow> get32 m' a = get32 m a"
  using bytes_at_cong [of 4 m' a m] by (simp add: get32_def)

lemma get_apart [simp]:
  "apart a 8 b (length bs) \<Longrightarrow> get64 (put_bytes b bs m) a = get64 m a"
  "apart a 4 b (length bs) \<Longrightarrow> get32 (put_bytes b bs m) a = get32 m a"
  by (simp_all add: get64_def get32_def bytes_at_apart)

section \<open>Copying\<close>

lemma copy_up_ok:
  "n \<le> 2 ^ 64 \<Longrightarrow> (\<And>i j. j < i \<Longrightarrow> i < n \<Longrightarrow> s + of_nat i \<noteq> d + of_nat j) \<Longrightarrow>
     copy_up n d s m = put_bytes d (bytes_at m s n) m"
proof (induction n arbitrary: d s m)
  case (Suc n)
  have ahead: "s + 1 + of_nat i \<noteq> d + 1 + of_nat j" if "j < i" "i < n" for i j
    using Suc.prems(2) [of "Suc j" "Suc i"] that by (simp add: algebra_simps)
  have "bytes_at (m(d := m s)) (s + 1) n = bytes_at m (s + 1) n"
  proof (rule bytes_at_cong)
    fix i assume "i < n"
    then have "s + 1 + of_nat i \<noteq> d" using Suc.prems(2) [of 0 "Suc i"] by (simp add: algebra_simps)
    then show "(m(d := m s)) (s + 1 + of_nat i) = m (s + 1 + of_nat i)" by simp
  qed
  then have "copy_up n (d + 1) (s + 1) (m(d := m s)) = put_bytes (d + 1) (bytes_at m (s + 1) n) (m(d := m s))"
    using Suc.IH [of "s + 1" "d + 1" "m(d := m s)"] ahead Suc.prems(1) by (simp del: fun_upd_apply)
  then show ?case using Suc.prems(1) by (simp add: bytes_at_Suc put_bytes_Cons)
qed simp

lemma copy_down_ok:
  "n \<le> 2 ^ 64 \<Longrightarrow> (\<And>i j. i < j \<Longrightarrow> j < n \<Longrightarrow> s + of_nat i \<noteq> d + of_nat j) \<Longrightarrow>
     copy_down n (d + of_nat n) (s + of_nat n) m = put_bytes d (bytes_at m s n) m"
proof (induction n arbitrary: m)
  case (Suc n)
  let ?m = "m(d + of_nat n := m (s + of_nat n))"
  have "bytes_at ?m s n = bytes_at m s n"
    by (rule bytes_at_cong) (use Suc.prems(2) in auto)
  then have "copy_down n (d + of_nat n) (s + of_nat n) ?m = put_bytes d (bytes_at m s n) ?m"
    using Suc.IH [of ?m] Suc.prems by (simp del: fun_upd_apply)
  also have "\<dots> = put_bytes (d + of_nat n) [m (s + of_nat n)] (put_bytes d (bytes_at m s n) m)"
  proof
    fix x
    have "unat (d + of_nat n - d) = n" using Suc.prems(1) by (simp add: unat_of_nat)
    then show "put_bytes d (bytes_at m s n) ?m x = put_bytes (d + of_nat n) [m (s + of_nat n)] (put_bytes d (bytes_at m s n) m) x"
      by (cases "x = d + of_nat n") (auto simp: put_bytes_def unat_eq_zero)
  qed
  also have "\<dots> = put_bytes d (bytes_at m s (Suc n)) m"
    using Suc.prems(1) by (simp add: bytes_at_snoc put_bytes_append)
  finally show ?case by (simp add: algebra_simps)
qed simp

lemma no_wrap_offset: "unat (a :: u64) + n \<le> 2 ^ 64 \<Longrightarrow> i < n \<Longrightarrow> unat (a + of_nat i) = unat a + i"
  using unat_offset [of a i] by simp

lemma memcpy_ok:
  assumes "apart dst (unat n) src (unat n)"
  shows "af_memcpy dst src n m = put_bytes dst (bytes_at m src (unat n)) m"
  unfolding af_memcpy_def
proof (rule copy_up_ok)
  show "unat n \<le> 2 ^ 64" using unat_bound [of n] by simp
  fix i j :: nat assume ij: "j < i" "i < unat n"
  have w: "unat dst + unat n \<le> 2 ^ 64" "unat src + unat n \<le> 2 ^ 64" using assms by (auto simp: apart_def)
  have "unat (src + of_nat i) \<noteq> unat (dst + of_nat j)"
    using no_wrap_offset [OF w(2) ij(2)] no_wrap_offset [OF w(1), of j] ij assms by (auto simp: apart_def)
  then show "src + of_nat i \<noteq> dst + of_nat j" by metis
qed

text \<open>
  (C33) \<open>af_memmove\<close> copies as if through a second buffer, however the two blocks overlap.
\<close>

theorem memmove_exact:
  assumes "unat dst + unat n \<le> 2 ^ 64" "unat src + unat n \<le> 2 ^ 64"
  shows "af_memmove dst src n m = put_bytes dst (bytes_at m src (unat n)) m"
proof -
  have le: "unat n \<le> 2 ^ 64" using unat_bound [of n] by simp
  have order: "src + of_nat i \<noteq> dst + of_nat j" if "i < unat n" "j < unat n" "i + unat src \<noteq> j + unat dst" for i j
    using no_wrap_offset [OF assms(2) that(1)] no_wrap_offset [OF assms(1) that(2)] that(3) by (metis add.commute)
  consider "dst = src \<or> n = 0" | "dst < src" "n \<noteq> 0" | "src < dst" "n \<noteq> 0" by fastforce
  then show ?thesis
  proof cases
    case 1
    have "put_bytes src (bytes_at m src k) m = m" for k by (rule put_bytes_same) simp
    then show ?thesis using 1 by (auto simp: af_memmove_def)
  next
    case 2
    have "copy_up (unat n) dst src m = put_bytes dst (bytes_at m src (unat n)) m"
      by (rule copy_up_ok [OF le]) (use 2 order in \<open>auto simp: word_less_nat_alt\<close>)
    then show ?thesis using 2 by (auto simp: af_memmove_def)
  next
    case 3
    have "copy_down (unat n) (dst + of_nat (unat n)) (src + of_nat (unat n)) m = put_bytes dst (bytes_at m src (unat n)) m"
      by (rule copy_down_ok [OF le]) (use 3 order in \<open>auto simp: word_less_nat_alt\<close>)
    then show ?thesis using 3 by (auto simp: af_memmove_def)
  qed
qed

lemma unat_max: "unat (- 1 :: u64) = 2 ^ 64 - 1"
  by (simp only: unsigned_minus_1_eq_mask) (simp add: mask_eq_exp_minus_1)

lemma memmove_exact_witness:
  "bytes_at (af_memmove 0x1002 0x1000 4 (\<lambda>a. ucast a)) 0x1000 6 = [0, 1, 0, 1, 2, 3]"
proof -
  have "af_memmove 0x1002 0x1000 4 (\<lambda>a. ucast a) = put_bytes 0x1002 (bytes_at (\<lambda>a. ucast a) 0x1000 (unat (4 :: u64))) (\<lambda>a. ucast a)"
    by (rule memmove_exact) simp_all
  moreover have "bytes_at (\<lambda>a :: u64. ucast a) 0x1000 (unat (4 :: u64)) = [0, 1, 2, 3]" by (simp add: bytes_at_def upt_rec)
  ultimately show ?thesis by (simp add: bytes_at_def put_bytes_def upt_rec unat_max)
qed

section \<open>Filling\<close>

lemma le64_bytes: "le64 p = map (\<lambda>k. ucast (drop_bit (8 * k) p)) [0..<8]"
proof -
  have "ucast (drop_bit k (ucast p :: u32)) = (ucast (drop_bit k p) :: u8)"
      "ucast (drop_bit k (ucast (drop_bit 32 p) :: u32)) = (ucast (drop_bit (32 + k) p) :: u8)" if "k \<le> 24" for k
    using that by (auto intro!: bit_word_eqI simp: bit_simps add.assoc)
  note b = this(1) [of 0] this(1) [of 8] this(1) [of 16] this(1) [of 24]
    this(2) [of 0] this(2) [of 8] this(2) [of 16] this(2) [of 24]
  have "[0..<8] = [0, 1, 2, 3, 4, 5, 6, 7 :: nat]" by (simp add: upt_rec)
  then show ?thesis using b by (simp add: le64_def le32_def)
qed

lemma fill_words: "le64 (push_bit 56 (ucast v) OR push_bit 48 (ucast v) OR push_bit 40 (ucast v) OR push_bit 32 (ucast v) OR
     push_bit 24 (ucast v) OR push_bit 16 (ucast v) OR push_bit 8 (ucast v) OR ucast v) = replicate 8 (v :: u8)"
  (is "le64 ?p = _")
proof -
  have "ucast (drop_bit (8 * k) ?p) = v" if "k < 8" for k
  proof (rule bit_word_eqI)
    fix n assume n: "n < LENGTH(8)"
    have "k = 0 \<or> k = 1 \<or> k = 2 \<or> k = 3 \<or> k = 4 \<or> k = 5 \<or> k = 6 \<or> k = 7" using that by auto
    then show "bit (ucast (drop_bit (8 * k) ?p) :: u8) n = bit v n"
      using n by (elim disjE) (auto simp: bit_simps dest: bit_imp_le_length)
  qed
  then have "map (\<lambda>k. ucast (drop_bit (8 * k) ?p)) [0..<8] = map (\<lambda>_. v) [0..<8]" by (intro map_cong) auto
  then show ?thesis unfolding le64_bytes by (simp only: map_replicate_const length_upt diff_zero)
qed

lemma replicate_put: "n < 2 ^ 64 \<Longrightarrow> put_bytes (d + 1) (replicate n v) (m(d := v)) = put_bytes d (replicate (Suc n) v) m"
  by (simp add: put_bytes_Cons)

lemma tail_ok: "n \<le> 2 ^ 64 \<Longrightarrow> memset_tail n d v m = put_bytes d (replicate n v) m"
  by (induction n arbitrary: d m) (simp_all add: replicate_put)

lemma words_ok:
  "le64 p = replicate 8 v \<Longrightarrow> n \<le> 2 ^ 64 \<Longrightarrow> memset_words n d p m = (n1, d1, m1) \<Longrightarrow> put_bytes d1 (replicate n1 v) m1 = put_bytes d (replicate n v) m \<and> n1 \<le> n"
proof (induction n d p m rule: memset_words.induct)
  case (1 n d p m)
  show ?case
  proof (cases "8 \<le> n")
    case True
    then have ih: "put_bytes d1 (replicate n1 v) m1 = put_bytes (d + 8) (replicate (n - 8) v) (put64 d p m) \<and> n1 \<le> n - 8"
      using 1 by (simp add: memset_words.simps [of n])
    have r: "replicate n v = replicate 8 v @ replicate (n - 8) v" using True by (simp add: replicate_add [symmetric])
    have "put_bytes d (replicate n v) m = put_bytes (d + 8) (replicate (n - 8) v) (put64 d p m)"
      unfolding r put64_def using True 1(2,3) by (subst put_bytes_append) (simp_all del: replicate.simps)
    then show ?thesis using ih by auto
  qed (use 1 in \<open>simp add: memset_words.simps [of n]\<close>)
qed

lemma align_ok:
  "n \<le> 2 ^ 64 \<Longrightarrow> memset_align n d v m = (n1, d1, m1) \<Longrightarrow> put_bytes d1 (replicate n1 v) m1 = put_bytes d (replicate n v) m \<and> n1 \<le> n"
proof (induction n d v m rule: memset_align.induct)
  case (1 n d v m)
  show ?case
  proof (cases "8 \<le> n \<and> \<not> is_aligned d 8")
    case True
    then have ih: "put_bytes d1 (replicate n1 v) m1 = put_bytes (d + 1) (replicate (n - 1) v) (m(d := v)) \<and> n1 \<le> n - 1"
      using 1 by (simp add: memset_align.simps [of n] del: fun_upd_apply)
    then show ?thesis using True 1(2) replicate_put [of "n - 1" d v m] by (auto simp del: fun_upd_apply)
  qed (use 1 in \<open>simp add: memset_align.simps [of n] split: if_splits\<close>)
qed

lemma memset_ok: "af_memset dst value n m = put_bytes dst (replicate (unat n) (word_of_int value)) m"
proof -
  let ?v = "word_of_int value :: u8" and ?w = "ucast (word_of_int value :: u8) :: u64"
  define p where "p = push_bit 56 ?w OR push_bit 48 ?w OR push_bit 40 ?w OR push_bit 32 ?w OR
     push_bit 24 ?w OR push_bit 16 ?w OR push_bit 8 ?w OR ?w"
  have p: "le64 p = replicate 8 ?v" unfolding p_def by (rule fill_words)
  have le: "unat n \<le> 2 ^ 64" using unat_bound [of n] by simp
  obtain n1 d1 m1 n2 d2 m2 where 1: "memset_align (unat n) dst ?v m = (n1, d1, m1)" and 2: "memset_words n1 d1 p m1 = (n2, d2, m2)"
    by (metis prod.exhaust)
  have a: "put_bytes d1 (replicate n1 ?v) m1 = put_bytes dst (replicate (unat n) ?v) m" "n1 \<le> 2 ^ 64"
    using align_ok [OF le 1] le by auto
  have "put_bytes d2 (replicate n2 ?v) m2 = put_bytes d1 (replicate n1 ?v) m1" "n2 \<le> 2 ^ 64"
    using words_ok [OF p a(2) 2] a(2) by auto
  then have "memset_tail n2 d2 ?v m2 = put_bytes dst (replicate (unat n) ?v) m" using a tail_ok by simp
  then show ?thesis using 1 2 by (simp add: af_memset_def Let_def p_def [symmetric])
qed

section \<open>Strings in memory\<close>

text \<open>The bytes \<open>cs\<close> and a terminator at \<open>s\<close>.\<close>

definition string_at :: "mem \<Rightarrow> u64 \<Rightarrow> u8 list \<Rightarrow> bool" where
  "string_at m s cs \<longleftrightarrow> s \<noteq> 0 \<and> unat s + length cs < 2 ^ 64 \<and> bytes_at m s (length cs) = cs \<and>
     m (s + of_nat (length cs)) = 0 \<and> 0 \<notin> set cs"

lemma string_at_nth: "string_at m s cs \<Longrightarrow> i < length cs \<Longrightarrow> m (s + of_nat i) = cs ! i \<and> cs ! i \<noteq> 0"
  unfolding string_at_def by (metis nth_bytes_at nth_mem)

lemma strlen_from_ok: "string_at m s cs \<Longrightarrow> i \<le> length cs \<Longrightarrow> strlen_from m s (of_nat i) = Some (of_nat (length cs))"
proof (induction "length cs - i" arbitrary: i)
  case 0
  then show ?case by (subst strlen_from.simps) (simp add: string_at_def)
next
  case (Suc k)
  then have "i < length cs" by simp
  moreover have "strlen_from m s (of_nat (Suc i)) = Some (of_nat (length cs))" using Suc by (intro Suc(1)) auto
  ultimately show ?case using string_at_nth [OF Suc.prems(1)] by (subst strlen_from.simps) (simp add: add.commute)
qed

lemma strlen_ok: "string_at m s cs \<Longrightarrow> af_strlen m s = Some (of_nat (length cs))"
  using strlen_from_ok [of m s cs 0] by (simp add: af_strlen_def string_at_def)

lemma string_at_tl: "string_at m s (c # cs) \<Longrightarrow> m s = c \<and> c \<noteq> 0 \<and> (s + 1 \<noteq> 0 \<longrightarrow> string_at m (s + 1) cs)"
proof -
  assume h: "string_at m s (c # cs)"
  have "unat (s + 1) = Suc (unat s)" using h by (intro unat_Suc_word) (simp add: string_at_def)
  moreover have "s + 1 + of_nat (length cs) = s + of_nat (length (c # cs))" by simp
  ultimately show ?thesis using h by (simp add: string_at_def bytes_at_Suc add.assoc)
qed

lemma string_at_next: "string_at m s (c # cs) \<Longrightarrow> s + 1 \<noteq> 0"
proof
  assume h: "string_at m s (c # cs)" and z: "s + 1 = 0"
  then have "unat (s + 1) = unat s + 1" by (intro unat_Suc_word [unfolded Suc_eq_plus1]) (simp add: string_at_def)
  then show False using z by simp
qed

lemma strcmp_loop_ok:
  "string_at m a xs \<Longrightarrow> string_at m b ys \<Longrightarrow> \<exists>r. strcmp_loop m a b = Some r \<and> (r = 0 \<longleftrightarrow> xs = ys)"
proof (induction xs arbitrary: a b ys)
  case Nil
  then have a: "m a = 0" by (simp add: string_at_def)
  show ?case
  proof (cases ys)
    case Nil
    then show ?thesis using a \<open>string_at m b ys\<close> by (subst strcmp_loop.simps) (simp add: string_at_def)
  next
    case (Cons y ys')
    then have "m b \<noteq> 0" using \<open>string_at m b ys\<close> string_at_tl by metis
    then show ?thesis using a Cons by (subst strcmp_loop.simps) (simp add: unsigned_eq_0_iff)
  qed
next
  case (Cons x xs)
  note x = string_at_tl [OF Cons.prems(1)] string_at_next [OF Cons.prems(1)]
  show ?case
  proof (cases ys)
    case Nil
    then show ?thesis using x Cons.prems(2) by (subst strcmp_loop.simps) (simp add: string_at_def unsigned_eq_0_iff)
  next
    case ys: (Cons y ys')
    note y = string_at_tl [OF Cons.prems(2) [unfolded ys]] string_at_next [OF Cons.prems(2) [unfolded ys]]
    show ?thesis
    proof (cases "x = y")
      case True
      then have "strcmp_loop m a b = strcmp_loop m (a + 1) (b + 1)" using x y by (subst strcmp_loop.simps) simp
      then show ?thesis using Cons.IH [of "a + 1" "b + 1" ys'] x y ys True by simp
    next
      case False
      then show ?thesis using x y ys by (subst strcmp_loop.simps) (simp add: word_uint_eq_iff)
    qed
  qed
qed

lemma strcmp_ok: "string_at m a xs \<Longrightarrow> string_at m b ys \<Longrightarrow> \<exists>r. af_strcmp m a b = Some r \<and> (r = 0 \<longleftrightarrow> xs = ys)"
proof -
  assume h: "string_at m a xs" "string_at m b ys"
  have "xs = ys" if "a = b"
  proof -
    obtain r where "strcmp_loop m a b = Some r" "r = 0 \<longleftrightarrow> xs = ys" using strcmp_loop_ok [OF h] by blast
    moreover obtain r' where "strcmp_loop m a a = Some r'" "r' = 0 \<longleftrightarrow> xs = xs" using strcmp_loop_ok [OF h(1) h(1)] by blast
    ultimately show ?thesis using that by simp
  qed
  then show ?thesis using strcmp_loop_ok [OF h] h by (auto simp: af_strcmp_def string_at_def)
qed

lemma prefix_loop_ok:
  "string_at m s xs \<Longrightarrow> string_at m p ys \<Longrightarrow> prefix_loop m s p = Some (take (length ys) xs = ys)"
proof (induction ys arbitrary: s p xs)
  case Nil
  then show ?case by (subst prefix_loop.simps) (simp add: string_at_def)
next
  case (Cons y ys)
  note y = string_at_tl [OF Cons.prems(2)] string_at_next [OF Cons.prems(2)]
  show ?case
  proof (cases xs)
    case Nil
    then show ?thesis using y Cons.prems(1) by (subst prefix_loop.simps) (simp add: string_at_def)
  next
    case xs: (Cons x xs')
    note x = string_at_tl [OF Cons.prems(1) [unfolded xs]] string_at_next [OF Cons.prems(1) [unfolded xs]]
    then show ?thesis using Cons.IH [of "s + 1" xs' "p + 1"] x y xs by (subst prefix_loop.simps) auto
  qed
qed

section \<open>Bounded copies\<close>

lemma strlcpy_loop_ok:
  assumes "string_at m src cs" "apart dst n src (Suc (length cs))" "0 < n"
  shows "i \<le> length cs \<Longrightarrow> i < n \<Longrightarrow>
     strlcpy_loop dst src n i (put_bytes dst (take i cs) m) = (min (length cs) (n - 1), put_bytes dst (take (min (length cs) (n - 1)) cs) m)"
proof (induction "n - i" arbitrary: i)
  case (Suc k)
  have room: "n \<le> 2 ^ 64" using assms(2) by (auto simp: apart_def)
  have read: "put_bytes dst (take i cs) m (src + of_nat i) = m (src + of_nat i)"
  proof -
    have "apart src (Suc (length cs)) dst n" using assms(2) by (auto simp: apart_def)
    then have "n \<le> unat (src + of_nat i - dst)" using Suc.prems(1) by (intro apart_offset) auto
    then show ?thesis using Suc.prems by (intro put_bytes_other) simp
  qed
  show ?case
  proof (cases "i + 1 < n \<and> i < length cs")
    case True
    then have i: "i < length cs" "i + 1 < n" by auto
    have "(put_bytes dst (take i cs) m)(dst + of_nat i := cs ! i) = put_bytes dst (take (Suc i) cs) m"
    proof -
      have "put_bytes dst (take i cs @ [cs ! i]) m = put_bytes (dst + of_nat i) [cs ! i] (put_bytes dst (take i cs) m)"
        using i room by (subst put_bytes_append) simp_all
      moreover have "put_bytes (dst + of_nat i) [cs ! i] m' = m'(dst + of_nat i := cs ! i)" for m'
        by (simp add: put_bytes_Cons)
      ultimately show ?thesis using i by (simp add: take_Suc_conv_app_nth)
    qed
    moreover have "strlcpy_loop dst src n (Suc i) (put_bytes dst (take (Suc i) cs) m) = (min (length cs) (n - 1), put_bytes dst (take (min (length cs) (n - 1)) cs) m)"
      using Suc i by (intro Suc(1)) auto
    ultimately show ?thesis
      using read string_at_nth [OF assms(1) i(1)] i by (subst strlcpy_loop.simps) simp
  next
    case False
    then have "i = min (length cs) (n - 1)" using Suc.prems by auto
    moreover have "i = length cs \<or> \<not> i + 1 < n" using False Suc.prems by auto
    moreover have "m (src + of_nat (length cs)) = 0" using assms(1) by (simp add: string_at_def)
    ultimately show ?thesis using read by (subst strlcpy_loop.simps) auto
  qed
qed simp

text \<open>
  The bounded copy writes the bytes that fit and a terminator, inside the \<open>size\<close> bytes of the buffer.
\<close>

lemma strlcpy_ok:
  assumes "string_at m src cs" "apart dst (unat n) src (Suc (length cs))" "0 < n" "dst \<noteq> 0"
  shows "af_strlcpy dst src n m = (of_nat (length (take (unat n - 1) cs)), put_bytes dst (take (unat n - 1) cs @ [0]) m)"
proof -
  let ?k = "min (length cs) (unat n - 1)"
  have pos: "0 < unat n" using assms(3) by (simp add: word_less_nat_alt)
  have "take 0 cs = []" by simp
  then have "strlcpy_loop dst src (unat n) 0 m = (?k, put_bytes dst (take ?k cs) m)"
    using strlcpy_loop_ok [OF assms(1,2) pos, of 0] pos by simp
  moreover have "put_bytes dst (take ?k cs @ [0]) m = (put_bytes dst (take ?k cs) m)(dst + of_nat ?k := 0)"
    using unat_bound [of n] by (subst put_bytes_append) (auto simp: put_bytes_Cons min_def)
  moreover have "take ?k cs = take (unat n - 1) cs" by (simp add: min_def)
  moreover have "src \<noteq> 0" "n \<noteq> 0" using assms(1,3) by (auto simp: string_at_def)
  ultimately show ?thesis using assms(4) by (simp add: af_strlcpy_def min.commute)
qed

section \<open>Printing numbers\<close>

definition digit_value :: "u8 \<Rightarrow> nat" where
  "digit_value c = (if c \<le> 0x39 then unat c - 0x30 else unat (c OR 0x20) - 0x57)"

definition parse :: "nat \<Rightarrow> u8 list \<Rightarrow> nat" where
  "parse b cs = foldl (\<lambda>a c. a * b + digit_value c) 0 cs"

lemma digit_value_char: "d < 16 \<Longrightarrow> digit_value (digit_char up (of_nat d)) = d \<and> digit_char up (of_nat d) \<noteq> 0"
proof -
  have "\<forall>d < 16. digit_value (digit_char True (of_nat d)) = d \<and> digit_char True (of_nat d) \<noteq> 0 \<and>
      digit_value (digit_char False (of_nat d)) = d \<and> digit_char False (of_nat d) \<noteq> 0"
    by code_simp
  then show "d < 16 \<Longrightarrow> digit_value (digit_char up (of_nat d)) = d \<and> digit_char up (of_nat d) \<noteq> 0"
    by (cases up) simp_all
qed

lemma parse_rev_Cons: "parse b (rev (c # cs)) = parse b (rev cs) * b + digit_value c"
  by (simp add: parse_def)

lemma digit_loop_value:
  assumes b: "2 \<le> unat base" "unat base \<le> 16"
  shows "parse (unat base) (rev (digit_loop room base v up)) = unat v mod unat base ^ room \<and>
     0 \<notin> set (digit_loop room base v up) \<and> length (digit_loop room base v up) \<le> room"
proof (induction room arbitrary: v)
  case 0
  then show ?case by (simp add: parse_def)
next
  case (Suc room)
  let ?b = "unat base"
  show ?case
  proof (cases "v = 0")
    case True
    then show ?thesis by (simp add: parse_def)
  next
    case False
    have d: "unat (v mod base) < 16" "unat (v mod base) = unat v mod ?b"
      using b mod_less_divisor [of ?b "unat v"] by (simp_all add: unat_mod del: mod_less_divisor)
    have "digit_value (digit_char up (v mod base)) = unat (v mod base) \<and> digit_char up (v mod base) \<noteq> 0"
      using digit_value_char [OF d(1), of up] by simp
    then have c: "digit_value (digit_char up (v mod base)) = unat v mod ?b" "digit_char up (v mod base) \<noteq> 0"
      unfolding d(2) by simp_all
    have "parse ?b (rev (digit_loop (Suc room) base v up)) = unat v div ?b mod ?b ^ room * ?b + unat v mod ?b"
      using False Suc [of "v div base"] c(1) by (simp add: parse_rev_Cons unat_div del: rev.simps)
    also have "\<dots> = unat v mod ?b ^ Suc room"
      using mod_mult2_eq [of "unat v" ?b "?b ^ room"] by (simp add: mult.commute)
    finally show ?thesis using False Suc [of "v div base"] c(2) by auto
  qed
qed

lemma utoa_digits_value:
  assumes "2 \<le> base" "base \<le> 16"
  shows "parse (unat base) (utoa_digits v base up) = unat v mod unat base ^ 24"
    "0 \<notin> set (utoa_digits v base up)" "length (utoa_digits v base up) \<le> 24"
proof -
  have b: "unat (ucast base :: u64) = unat base" by (simp add: unsigned_ucast_eq take_bit_nat_eq_self order_less_le_trans [OF unat_bound])
  have "2 \<le> unat base" "unat base \<le> 16" using assms by (simp_all add: word_le_nat_alt)
  note d = digit_loop_value [of "ucast base", unfolded b, OF this, of 24 v up]
  show "parse (unat base) (utoa_digits v base up) = unat v mod unat base ^ 24"
    "0 \<notin> set (utoa_digits v base up)" "length (utoa_digits v base up) \<le> 24"
    using d by (auto simp: utoa_digits_def parse_def digit_value_def)
qed

text \<open>
  A number is printed as a terminated string that reads back as the number, whenever its digits fit the
  24 characters of the local buffer and the caller's buffer.
\<close>

theorem utoa_roundtrip:
  assumes base: "2 \<le> base" "base \<le> 16" and small: "unat v < unat base ^ 24"
    and out: "out \<noteq> 0" "unat out + unat out_size \<le> 2 ^ 64" "length (utoa_digits v base upper) < unat out_size"
  shows "\<exists>cs. string_at (af_utoa_base v out out_size base upper m) out cs \<and> parse (unat base) cs = unat v"
proof (intro exI conjI)
  let ?ds = "utoa_digits v base upper"
  note d = utoa_digits_value [OF base, of v upper]
  show "parse (unat base) ?ds = unat v" using d(1) small by simp
  have run: "af_utoa_base v out out_size base upper m = put_bytes out (?ds @ [0]) m"
    using base out by (auto simp: af_utoa_base_def not_less)
  have "bytes_at (put_bytes out (?ds @ [0]) m) out (length (?ds @ [0])) = ?ds @ [0]"
    using out by (intro bytes_at_put) simp_all
  then have "bytes_at (put_bytes out (?ds @ [0]) m) out (length ?ds) = ?ds \<and>
      put_bytes out (?ds @ [0]) m (out + of_nat (length ?ds)) = 0"
    by (simp add: bytes_at_snoc)
  then show "string_at (af_utoa_base v out out_size base upper m) out ?ds"
    using run out d(2) by (simp add: string_at_def)
qed

lemma utoa_roundtrip_witness:
  "\<exists>cs. string_at (af_utoa_base 255 0x1000 24 16 False (\<lambda>_. 7)) 0x1000 cs \<and> parse (unat (16 :: u32)) cs = unat (255 :: u64)"
proof (rule utoa_roundtrip)
  have "length (utoa_digits 255 16 False) \<le> 2" by code_simp
  then show "length (utoa_digits 255 16 False) < unat (24 :: u64)" by simp
qed simp_all

text \<open>The local buffer has 24 characters: a number with more binary digits loses the leading ones.\<close>

theorem utoa_binary_truncates: "parse 2 (utoa_digits (2 ^ 24 + 5) 2 upper) = 5"
  using utoa_digits_value(1) [of 2 "2 ^ 24 + 5" upper] by simp

text \<open>A negative number in a buffer of one byte: the sign fills it and there is no terminator.\<close>

theorem itoa_unterminated: "out \<noteq> 0 \<Longrightarrow> af_itoa (- 5) out 1 m = m(out := 0x2D)"
  by (simp add: af_itoa_def af_utoa_base_def word_sless_alt)

end
