(* ===== verification/Heap.thy ===== *)
theory Heap
  imports Pmm KString
begin

text \<open>
  The kernel heap (\<open>kernel/core/heap.c\<close>): slabs of equal objects threaded by a free list through the free
  objects themselves, large blocks with a trailer in front, guard bands around every object. The headers,
  the free lists and the guard bands are bytes of the memory of \<open>Pmm\<close>, read and written at the offsets of
  the C structures. The outer \<open>None\<close> is a failed assertion or a walk that does not end.
\<close>

section \<open>State\<close>

record heap_cache =
  object_size :: u32
  slabs :: u64
  slab_count :: u32
  live_objects :: u32

record heap_state =
  pmm :: pmm_state
  s_caches :: "heap_cache list"
  s_ready :: bool
  s_allocated_bytes :: u64
  s_live_allocations :: u32
  s_total_allocations :: u32
  s_free_allocations :: u32

abbreviation memory :: "heap_state \<Rightarrow> mem" where
  "memory s \<equiv> phys_mem (pmm s)"

definition set_memory :: "mem \<Rightarrow> heap_state \<Rightarrow> heap_state" where
  "set_memory m s = s\<lparr>pmm := (pmm s)\<lparr>phys_mem := m\<rparr>\<rparr>"

abbreviation (input) "SLAB_MAGIC \<equiv> (0xA51AB51A :: u64)"
abbreviation (input) "LARGE_MAGIC \<equiv> (0x1A26E1A2 :: u64)"
abbreviation (input) "REDZONE_BYTE \<equiv> (0xAF :: u8)"
abbreviation (input) "REDZONE_LEN \<equiv> (8 :: u32)"
abbreviation (input) "SLAB_OBJECT_OFFSET \<equiv> (64 :: u64)"
abbreviation (input) "LARGE_TRAILER_SIZE \<equiv> (24 :: u64)"

definition k_class_sizes :: "u32 list" where
  "k_class_sizes = [16, 32, 64, 128, 256, 512, 1024, 2048]"

text \<open>The fields of \<open>slab_t\<close>, by the address of the slab.\<close>

abbreviation (input) "slab_magic m slab \<equiv> get64 m slab"
abbreviation (input) "slab_next m slab \<equiv> get64 m (slab + 8)"
abbreviation (input) "slab_class_index m slab \<equiv> get32 m (slab + 16)"
abbreviation (input) "slab_object_size m slab \<equiv> get32 m (slab + 20)"
abbreviation (input) "slab_capacity_of m slab \<equiv> get32 m (slab + 24)"
abbreviation (input) "slab_in_use m slab \<equiv> get32 m (slab + 28)"
abbreviation (input) "slab_free_list m slab \<equiv> get64 m (slab + 32)"

text \<open>The fields of \<open>large_trailer_t\<close>, by the address of the trailer.\<close>

abbreviation (input) "trailer_magic m t \<equiv> get64 m t"
abbreviation (input) "trailer_base m t \<equiv> get64 m (t + 8)"
abbreviation (input) "trailer_frame_count m t \<equiv> get32 m (t + 16)"
abbreviation (input) "trailer_requested m t \<equiv> get32 m (t + 20)"

section \<open>Helpers\<close>

definition class_for_size :: "u64 \<Rightarrow> nat option" where
  "class_for_size n = find (\<lambda>i. n \<le> ucast (k_class_sizes ! i)) [0..<8]"

definition is_power_of_two :: "u64 \<Rightarrow> bool" where
  "is_power_of_two v \<longleftrightarrow> v \<noteq> 0 \<and> v AND (v - 1) = 0"

definition redzone_front :: "u64 \<Rightarrow> u64" where
  "redzone_front object = object - ucast REDZONE_LEN"

definition redzone_back :: "u64 \<Rightarrow> u32 \<Rightarrow> u64" where
  "redzone_back object sz = object + ucast sz"

definition paint_redzones :: "u64 \<Rightarrow> u32 \<Rightarrow> mem \<Rightarrow> mem" where
  "paint_redzones object sz m =
     af_memset (redzone_back object sz) 0xAF (ucast REDZONE_LEN) (af_memset (redzone_front object) 0xAF (ucast REDZONE_LEN) m)"

definition redzones_intact :: "u64 \<Rightarrow> u32 \<Rightarrow> mem \<Rightarrow> bool" where
  "redzones_intact object sz m \<longleftrightarrow>
     (\<forall>i \<in> set [0..<8]. m (redzone_front object + of_nat i) = REDZONE_BYTE \<and> m (redzone_back object sz + of_nat i) = REDZONE_BYTE)"

section \<open>Slabs\<close>

definition slab_stride :: "u32 \<Rightarrow> u32" where
  "slab_stride sz = align_up (sz + REDZONE_LEN) 8"

definition slab_capacity :: "u32 \<Rightarrow> u32" where
  "slab_capacity sz = (4096 - 64 - REDZONE_LEN) div slab_stride sz"

fun thread_objects :: "nat \<Rightarrow> u64 \<Rightarrow> u32 \<Rightarrow> mem \<Rightarrow> mem" where
  "thread_objects 0 slab sz m = m"
| "thread_objects (Suc i) slab sz m =
     (let object = slab + SLAB_OBJECT_OFFSET + of_nat i * ucast (slab_stride sz);
          m1 = paint_redzones object sz m;
          m2 = put64 object (slab_free_list m1 slab) m1
      in thread_objects i slab sz (put64 (slab + 32) object m2))"

definition slab_create :: "nat \<Rightarrow> heap_state \<Rightarrow> u64 \<times> heap_state" where
  "slab_create class_index s =
     (let sz = k_class_sizes ! class_index;
          (slab, p) = pmm_alloc_frame_z (pmm s);
          s1 = s\<lparr>pmm := p\<rparr>
      in if slab = AF_FRAME_INVALID then (0, s1)
         else let m1 = put64 slab SLAB_MAGIC (memory s1);
                  m2 = put32 (slab + 16) (of_nat class_index) m1;
                  m3 = put32 (slab + 20) sz m2;
                  m4 = put32 (slab + 24) (slab_capacity sz) m3;
                  m5 = put32 (slab + 28) 0 m4;
                  m6 = put64 (slab + 8) 0 m5;
                  m7 = put64 (slab + 32) 0 m6
           in (slab, set_memory (thread_objects (unat (slab_capacity sz)) slab sz m7) s1))"

definition heap_init :: "heap_state \<Rightarrow> af_status \<times> heap_state" where
  "heap_init s =
     (AF_OK, s\<lparr>s_caches := map (\<lambda>sz. \<lparr>object_size = sz, slabs = 0, slab_count = 0, live_objects = 0\<rparr>) k_class_sizes,
        s_ready := True\<rparr>)"

section \<open>Large blocks\<close>

definition trailer_of :: "u64 \<Rightarrow> u64" where
  "trailer_of ptr = ptr - LARGE_TRAILER_SIZE"

definition large_alloc :: "u64 \<Rightarrow> u64 \<Rightarrow> heap_state \<Rightarrow> u64 \<times> heap_state" where
  "large_alloc sz alignment s =
     (let total = sz + LARGE_TRAILER_SIZE + 4096;
          n = ucast ((total + 4096 - 1) div 4096) :: u32;
          (base, p) = pmm_alloc_frames n (pmm s);
          s1 = s\<lparr>pmm := p\<rparr>
      in if base = AF_FRAME_INVALID then (0, s1)
         else let user0 = base + LARGE_TRAILER_SIZE;
                  user = (if 8 < alignment then align_up user0 alignment else user0);
                  trailer = user - LARGE_TRAILER_SIZE;
                  m1 = put64 trailer LARGE_MAGIC (memory s1);
                  m2 = put64 (trailer + 8) base m1;
                  m3 = put32 (trailer + 16) n m2;
                  m4 = put32 (trailer + 20) (ucast sz) m3
           in (user, set_memory m4 s1))"

section \<open>Allocating\<close>

text \<open>The first slab from \<open>slab\<close> on that has a free object; \<open>otherwise\<close> if there is none.\<close>

partial_function (option) slab_with_space :: "mem \<Rightarrow> u64 \<Rightarrow> u64 \<Rightarrow> u64 option" where
  "slab_with_space m otherwise slab =
     (if slab = 0 then Some otherwise
      else if slab_free_list m slab \<noteq> 0 then Some slab
      else slab_with_space m otherwise (slab_next m slab))"

definition count_alloc :: "u64 \<Rightarrow> heap_state \<Rightarrow> heap_state" where
  "count_alloc n s =
     s\<lparr>s_allocated_bytes := s_allocated_bytes s + n, s_live_allocations := s_live_allocations s + 1,
       s_total_allocations := s_total_allocations s + 1\<rparr>"

definition update_cache :: "nat \<Rightarrow> (heap_cache \<Rightarrow> heap_cache) \<Rightarrow> heap_state \<Rightarrow> heap_state" where
  "update_cache i f s = s\<lparr>s_caches := (s_caches s)[i := f (s_caches s ! i)]\<rparr>"

text \<open>The cache's first slab after the check for space; 0 when a new slab was needed and there was no frame.\<close>

definition ensure_slab :: "nat \<Rightarrow> heap_state \<Rightarrow> bool \<times> heap_state" where
  "ensure_slab i s =
     (let head = slabs (s_caches s ! i) in
      if head = 0 \<or> slab_free_list (memory s) head = 0
      then let (slab, s1) = slab_create i s in
        if slab = 0 then (False, s1)
        else (True, update_cache i (\<lambda>c. c\<lparr>slabs := slab, slab_count := slab_count c + 1\<rparr>)
               (set_memory (put64 (slab + 8) (slabs (s_caches s1 ! i)) (memory s1)) s1))
      else (True, s))"

definition take_object :: "nat \<Rightarrow> u64 \<Rightarrow> heap_state \<Rightarrow> u64 \<times> heap_state" where
  "take_object i slab s =
     (let m = memory s;
          object = slab_free_list m slab;
          m1 = put64 (slab + 32) (get64 m object) m;
          m2 = put32 (slab + 28) (slab_in_use m1 slab + 1) m1;
          m3 = paint_redzones object (slab_object_size m2 slab) m2
      in (object, update_cache i (\<lambda>c. c\<lparr>live_objects := live_objects c + 1\<rparr>) (set_memory m3 s)))"

definition kmalloc :: "u64 \<Rightarrow> heap_state \<Rightarrow> (u64 \<times> heap_state) option" where
  "kmalloc n s =
     (if \<not> s_ready s then Some (0, s)
      else let sz = (if n = 0 then 1 else n) in
        case class_for_size sz of
          None \<Rightarrow>
            let (ptr, s1) = large_alloc sz 8 s in
            Some (if ptr \<noteq> 0 then (ptr, count_alloc sz s1) else (0, s1))
        | Some i \<Rightarrow>
            let (ready, s1) = ensure_slab i s in
            if \<not> ready then Some (0, s1)
            else let head = slabs (s_caches s1 ! i) in
              case (if slab_free_list (memory s1) head = 0 then slab_with_space (memory s1) head head else Some head) of
                None \<Rightarrow> None
              | Some slab \<Rightarrow> let (object, s2) = take_object i slab s1 in Some (object, count_alloc sz s2))"

definition page_of :: "u64 \<Rightarrow> u64" where
  "page_of ptr = ptr AND NOT (4096 - 1)"

definition kmalloc_usable_size :: "u64 \<Rightarrow> heap_state \<Rightarrow> u64" where
  "kmalloc_usable_size ptr s =
     (if ptr = 0 then 0
      else let slab = page_of ptr in
        if slab_magic (memory s) slab = SLAB_MAGIC then ucast (slab_object_size (memory s) slab)
        else let t = trailer_of ptr in
          if trailer_magic (memory s) t = LARGE_MAGIC then ucast (trailer_requested (memory s) t)
          else 0)"

definition kzalloc :: "u64 \<Rightarrow> heap_state \<Rightarrow> (u64 \<times> heap_state) option" where
  "kzalloc n s =
     (case kmalloc n s of
        None \<Rightarrow> None
      | Some (ptr, s1) \<Rightarrow>
          Some (ptr, if ptr \<noteq> 0 then set_memory (af_memset ptr 0 (kmalloc_usable_size ptr s1) (memory s1)) s1 else s1))"

section \<open>Freeing\<close>

definition count_free_alloc :: "heap_state \<Rightarrow> heap_state" where
  "count_free_alloc s =
     s\<lparr>s_free_allocations := s_free_allocations s + 1, s_live_allocations := s_live_allocations s - 1\<rparr>"

definition kfree :: "u64 \<Rightarrow> heap_state \<Rightarrow> heap_state option" where
  "kfree ptr s =
     (if ptr = 0 then Some s
      else let m = memory s; slab = page_of ptr in
        if slab_magic m slab = SLAB_MAGIC
        then let i = unat (slab_class_index m slab); sz = slab_object_size m slab in
          if \<not> redzones_intact ptr sz m then None
          else let m1 = paint_redzones ptr sz m;
                   m2 = put64 ptr (slab_free_list m1 slab) m1;
                   m3 = put64 (slab + 32) ptr m2;
                   m4 = put32 (slab + 28) (slab_in_use m3 slab - 1) m3
            in Some (count_free_alloc (update_cache i
                 (\<lambda>c. if 0 < live_objects c then c\<lparr>live_objects := live_objects c - 1\<rparr> else c) (set_memory m4 s)))
        else let t = trailer_of ptr in
          if trailer_magic m t = LARGE_MAGIC
          then let base = trailer_base m t;
                   n = trailer_frame_count m t;
                   s1 = count_free_alloc (set_memory (put64 t 0 m) s)
            in (case pmm_free_frames base n (pmm s1) of None \<Rightarrow> None | Some p \<Rightarrow> Some (s1\<lparr>pmm := p\<rparr>))
          else None)"

section \<open>Growing and aligning\<close>

definition large_realloc :: "u64 \<Rightarrow> u64 \<Rightarrow> heap_state \<Rightarrow> (u64 \<times> heap_state) option" where
  "large_realloc ptr new_size s =
     (let m = memory s; t = trailer_of ptr in
      if trailer_magic m t \<noteq> LARGE_MAGIC then Some (0, s)
      else if new_size \<le> ucast (trailer_frame_count m t) * 4096
      then Some (ptr, set_memory (put32 (t + 20) (ucast new_size) m) s)
      else case kmalloc new_size s of
          None \<Rightarrow> None
        | Some (fresh, s1) \<Rightarrow>
            if fresh = 0 then Some (0, s1)
            else let requested = ucast (trailer_requested (memory s1) t) :: u64;
                     copy = (if requested < new_size then requested else new_size)
              in (case kfree ptr (set_memory (af_memcpy fresh ptr copy (memory s1)) s1) of
                    None \<Rightarrow> None
                  | Some s2 \<Rightarrow> Some (fresh, s2)))"

definition krealloc :: "u64 \<Rightarrow> u64 \<Rightarrow> heap_state \<Rightarrow> (u64 \<times> heap_state) option" where
  "krealloc ptr new_size s =
     (if ptr = 0 then kmalloc new_size s
      else let old_size = kmalloc_usable_size ptr s in
        if old_size = 0 then Some (0, s)
        else if new_size \<le> old_size then Some (ptr, s)
        else if slab_magic (memory s) (page_of ptr) = SLAB_MAGIC
        then case kmalloc new_size s of
            None \<Rightarrow> None
          | Some (fresh, s1) \<Rightarrow>
              if fresh = 0 then Some (0, s1)
              else (case kfree ptr (set_memory (af_memcpy fresh ptr old_size (memory s1)) s1) of
                      None \<Rightarrow> None
                    | Some s2 \<Rightarrow> Some (fresh, s2))
        else large_realloc ptr new_size s)"

definition kmalloc_aligned :: "u64 \<Rightarrow> u64 \<Rightarrow> heap_state \<Rightarrow> (u64 \<times> heap_state) option" where
  "kmalloc_aligned n alignment s =
     (if \<not> is_power_of_two alignment then Some (0, s)
      else if alignment \<le> 8 then kmalloc n s
      else Some (large_alloc n alignment s))"

section \<open>Statistics and verification\<close>

record af_heap_stats =
  total_bytes :: u64
  allocated_bytes :: u64
  live_allocations :: u32
  total_allocations :: u32
  free_allocations :: u32
  slabs_in_use :: u32
  class_objects :: "u32 list"
  class_slabs :: "u32 list"

definition heap_stats :: "heap_state \<Rightarrow> af_heap_stats" where
  "heap_stats s =
     \<lparr>total_bytes = ucast (s_live_allocations s) * 4096, allocated_bytes = s_allocated_bytes s,
      live_allocations = s_live_allocations s, total_allocations = s_total_allocations s,
      free_allocations = s_free_allocations s, slabs_in_use = sum_list (map slab_count (s_caches s)),
      class_objects = map live_objects (s_caches s), class_slabs = map slab_count (s_caches s)\<rparr>"

text \<open>The number of nodes on a free list, \<open>None\<close> when there are more than \<open>room\<close>.\<close>

fun free_nodes :: "nat \<Rightarrow> mem \<Rightarrow> u64 \<Rightarrow> nat option" where
  "free_nodes 0 m node = (if node = 0 then Some 0 else None)"
| "free_nodes (Suc room) m node =
     (if node = 0 then Some 0 else map_option Suc (free_nodes room m (get64 m node)))"

definition check_slab :: "nat \<Rightarrow> mem \<Rightarrow> u64 \<Rightarrow> bool" where
  "check_slab i m slab \<longleftrightarrow>
     slab_magic m slab = SLAB_MAGIC \<and> slab_class_index m slab = of_nat i \<and>
     (case free_nodes (unat (slab_capacity_of m slab)) m (slab_free_list m slab) of
        None \<Rightarrow> False
      | Some free_seen \<Rightarrow> of_nat free_seen = slab_capacity_of m slab - slab_in_use m slab)"

partial_function (option) check_slabs :: "nat \<Rightarrow> mem \<Rightarrow> u64 \<Rightarrow> bool option" where
  "check_slabs i m slab =
     (if slab = 0 then Some True
      else if \<not> check_slab i m slab then Some False
      else check_slabs i m (slab_next m slab))"

fun check_classes :: "nat list \<Rightarrow> heap_state \<Rightarrow> af_status option" where
  "check_classes [] s = Some AF_OK"
| "check_classes (i # is) s =
     (case check_slabs i (memory s) (slabs (s_caches s ! i)) of
        None \<Rightarrow> None
      | Some False \<Rightarrow> Some AF_ERR_FS_CORRUPT
      | Some True \<Rightarrow> check_classes is s)"

definition heap_check :: "heap_state \<Rightarrow> af_status option" where
  "heap_check s = check_classes [0..<8] s"

section \<open>Regions\<close>

definition region :: "u64 \<Rightarrow> nat \<Rightarrow> u64 set" where
  "region a n = {x. unat a \<le> unat x \<and> unat x < unat a + n}"

lemma put_outside: "unat a + length bs \<le> 2 ^ 64 \<Longrightarrow> x \<notin> region a (length bs) \<Longrightarrow> put_bytes a bs m x = m x"
proof (rule put_bytes_other)
  assume h: "unat a + length bs \<le> 2 ^ 64" "x \<notin> region a (length bs)"
  then show "length bs \<le> unat (x - a)" using unat_bound [of a] by (auto simp: region_def unat_sub_if')
qed

lemma region_offset: "unat a + n \<le> 2 ^ 64 \<Longrightarrow> i < n \<Longrightarrow> a + of_nat i \<in> region a n"
  using no_wrap_offset [of a n i] by (simp add: region_def)

lemma bytes_at_region:
  "unat a + n \<le> 2 ^ 64 \<Longrightarrow> (\<And>x. x \<in> region a n \<Longrightarrow> m' x = m x) \<Longrightarrow> bytes_at m' a n = bytes_at m a n"
  by (rule bytes_at_cong) (simp add: region_offset)

lemma get_region:
  "unat a + 8 \<le> 2 ^ 64 \<Longrightarrow> (\<And>x. x \<in> region a 8 \<Longrightarrow> m' x = m x) \<Longrightarrow> get64 m' a = get64 m a"
  "unat a + 4 \<le> 2 ^ 64 \<Longrightarrow> (\<And>x. x \<in> region a 4 \<Longrightarrow> m' x = m x) \<Longrightarrow> get32 m' a = get32 m a"
  using bytes_at_region [of a 8 m' m] bytes_at_region [of a 4 m' m] by (simp_all add: get64_def get32_def)

lemma put64_bytes: "put64 a v m = put_bytes a (le64 v) m" "put32 a w m = put_bytes a (le32 w) m"
  by (simp_all add: put64_def put32_def)

section \<open>Size classes\<close>

definition class_size :: "nat \<Rightarrow> nat" where
  "class_size i = unat (k_class_sizes ! i)"

definition stride :: "nat \<Rightarrow> nat" where
  "stride i = class_size i + 8"

definition cap :: "nat \<Rightarrow> nat" where
  "cap i = 4024 div stride i"

definition class_ok :: "nat \<Rightarrow> bool" where
  "class_ok i \<longleftrightarrow> 16 \<le> class_size i \<and> class_size i \<le> 2048 \<and> 0 < cap i \<and> cap i < 256 \<and>
     64 + cap i * stride i \<le> 4096 \<and> ucast (k_class_sizes ! i) = (of_nat (class_size i) :: u64) \<and>
     ucast (slab_stride (k_class_sizes ! i)) = (of_nat (stride i) :: u64) \<and>
     slab_capacity (k_class_sizes ! i) = of_nat (cap i) \<and> unat (slab_capacity (k_class_sizes ! i)) = cap i"

lemma classes_ok: "i < 8 \<Longrightarrow> class_ok i"
proof -
  assume "i < 8"
  then have "i = 0 \<or> i = 1 \<or> i = 2 \<or> i = 3 \<or> i = 4 \<or> i = 5 \<or> i = 6 \<or> i = 7" by auto
  then show ?thesis
    unfolding class_ok_def cap_def stride_def class_size_def slab_capacity_def slab_stride_def align_up_def
    by (elim disjE) (simp_all add: k_class_sizes_def)
qed

lemma classD:
  assumes "i < 8"
  shows "16 \<le> class_size i" "class_size i \<le> 2048" "stride i = class_size i + 8" "0 < cap i" "cap i < 256"
    "64 + cap i * stride i \<le> 4096" "ucast (k_class_sizes ! i) = (of_nat (class_size i) :: u64)"
    "unat (k_class_sizes ! i) = class_size i" "ucast (slab_stride (k_class_sizes ! i)) = (of_nat (stride i) :: u64)"
    "slab_capacity (k_class_sizes ! i) = of_nat (cap i)" "unat (slab_capacity (k_class_sizes ! i)) = cap i"
  using classes_ok [OF assms] unfolding class_ok_def by (blast, blast, simp add: stride_def, blast+, simp add: class_size_def, blast+)

lemma slot_bound: "i < 8 \<Longrightarrow> k < cap i \<Longrightarrow> 64 + k * stride i + stride i \<le> 4096"
proof -
  assume i: "i < 8" "k < cap i"
  have "Suc k * stride i \<le> cap i * stride i" using i(2) by (intro mult_le_mono1) simp
  then show ?thesis using classD(6) [OF i(1)] by simp
qed

lemma slot_order: "k < k' \<Longrightarrow> k * stride i + stride i \<le> k' * stride i"
  using mult_le_mono1 [of "Suc k" k' "stride i"] by simp

definition obj :: "nat \<Rightarrow> u64 \<Rightarrow> nat \<Rightarrow> u64" where
  "obj i slab k = slab + of_nat (64 + k * stride i)"

definition band :: "nat \<Rightarrow> u64 \<Rightarrow> nat \<Rightarrow> u64" where
  "band i slab k = slab + of_nat (56 + k * stride i)"

text \<open>Everything inside a page, as numbers.\<close>

lemma page_unat:
  assumes "unat (slab :: u64) + 4096 \<le> 2 ^ 64"
  shows "unat (slab + 8) = unat slab + 8" "unat (slab + 16) = unat slab + 16" "unat (slab + 20) = unat slab + 20"
    "unat (slab + 24) = unat slab + 24" "unat (slab + 28) = unat slab + 28" "unat (slab + 32) = unat slab + 32"
  using no_wrap_offset [OF assms, of 8] no_wrap_offset [OF assms, of 16] no_wrap_offset [OF assms, of 20]
    no_wrap_offset [OF assms, of 24] no_wrap_offset [OF assms, of 28] no_wrap_offset [OF assms, of 32]
  by simp_all

lemma unat_slot:
  assumes "unat (slab :: u64) + 4096 \<le> 2 ^ 64" "i < 8" "k \<le> cap i"
  shows "unat (band i slab k) = unat slab + 56 + k * stride i"
    and "k < cap i \<Longrightarrow> unat (obj i slab k) = unat slab + 64 + k * stride i"
proof -
  have "k * stride i \<le> cap i * stride i" using assms(3) by (rule mult_le_mono1)
  then show "unat (band i slab k) = unat slab + 56 + k * stride i"
    unfolding band_def using no_wrap_offset [OF assms(1), of "56 + k * stride i"] classD(6) [OF assms(2)] by linarith
  show "unat (obj i slab k) = unat slab + 64 + k * stride i" if "k < cap i"
    using no_wrap_offset [OF assms(1), of "64 + k * stride i"] slot_bound [OF assms(2) that] classD(3) [OF assms(2)]
    unfolding obj_def by linarith
qed

lemma obj_code: "i < 8 \<Longrightarrow> slab + SLAB_OBJECT_OFFSET + of_nat k * ucast (slab_stride (k_class_sizes ! i)) = obj i slab k"
  by (simp add: obj_def classD(9))

lemma front_band: "redzone_front (obj i slab k) = band i slab k"
  by (simp add: redzone_front_def obj_def band_def)

lemma back_band: "i < 8 \<Longrightarrow> redzone_back (obj i slab k) (k_class_sizes ! i) = band i slab (Suc k)"
  by (simp add: redzone_back_def classD(7) obj_def band_def stride_def)

definition guard :: "mem \<Rightarrow> nat \<Rightarrow> u64 \<Rightarrow> nat \<Rightarrow> bool" where
  "guard m i slab k \<longleftrightarrow> bytes_at m (band i slab k) 8 = replicate 8 REDZONE_BYTE"

lemma paint_bands: "i < 8 \<Longrightarrow> paint_redzones (obj i slab k) (k_class_sizes ! i) m =
    put_bytes (band i slab (Suc k)) (replicate 8 REDZONE_BYTE) (put_bytes (band i slab k) (replicate 8 REDZONE_BYTE) m)"
  by (simp add: paint_redzones_def memset_ok front_band back_band)

lemma intact_guards: "i < 8 \<Longrightarrow> redzones_intact (obj i slab k) (k_class_sizes ! i) m \<longleftrightarrow> guard m i slab k \<and> guard m i slab (Suc k)"
  unfolding redzones_intact_def front_band back_band guard_def list_eq_iff_nth_eq by auto

lemma paint_guarded: "i < 8 \<Longrightarrow> guard m i slab k \<Longrightarrow> guard m i slab (Suc k) \<Longrightarrow> paint_redzones (obj i slab k) (k_class_sizes ! i) m = m"
  by (simp add: paint_bands put_bytes_same guard_def)

section \<open>One slab\<close>

definition node :: "nat \<Rightarrow> u64 \<Rightarrow> nat list \<Rightarrow> u64" where
  "node i slab fl = (case fl of [] \<Rightarrow> 0 | k # _ \<Rightarrow> obj i slab k)"

fun links :: "mem \<Rightarrow> nat \<Rightarrow> u64 \<Rightarrow> nat list \<Rightarrow> bool" where
  "links m i slab [] = True"
| "links m i slab (k # fl) = (get64 m (obj i slab k) = node i slab fl \<and> links m i slab fl)"

text \<open>A slab of class \<open>i\<close>, followed by \<open>nx\<close> in its cache, whose free objects are those of \<open>fl\<close>, in order.\<close>

definition slab_rep :: "mem \<Rightarrow> nat \<Rightarrow> u64 \<Rightarrow> u64 \<Rightarrow> nat list \<Rightarrow> bool" where
  "slab_rep m i slab nx fl \<longleftrightarrow> slab \<noteq> 0 \<and> frame_address slab \<and>
     slab_magic m slab = SLAB_MAGIC \<and> slab_next m slab = nx \<and> slab_class_index m slab = of_nat i \<and>
     slab_object_size m slab = k_class_sizes ! i \<and> slab_capacity_of m slab = slab_capacity (k_class_sizes ! i) \<and>
     slab_in_use m slab = of_nat (cap i - length fl) \<and> slab_free_list m slab = node i slab fl \<and> links m i slab fl \<and>
     distinct fl \<and> set fl \<subseteq> {..<cap i} \<and> (\<forall>k \<le> cap i. guard m i slab k)"

definition meta :: "nat \<Rightarrow> u64 \<Rightarrow> nat list \<Rightarrow> u64 set" where
  "meta i slab fl = region slab 40 \<union> (\<Union>k \<in> set fl. region (obj i slab k) 8) \<union> (\<Union>k \<in> {..cap i}. region (band i slab k) 8)"

lemma frame_room: "frame_address slab \<Longrightarrow> unat slab + 4096 \<le> 2 ^ 64"
  using frame_offset(1) [of slab 4095] unat_bound [of "slab + of_nat 4095"] by simp

lemma slab_repD: "slab_rep m i slab nx fl \<Longrightarrow> unat slab + 4096 \<le> 2 ^ 64 \<and> set fl \<subseteq> {..<cap i}"
  unfolding slab_rep_def using frame_room by blast

lemma region_mono: "unat a \<le> unat b \<Longrightarrow> unat b + k \<le> unat a + n \<Longrightarrow> region b k \<subseteq> region a n"
  by (auto simp: region_def)

lemma field_regions:
  assumes "unat (slab :: u64) + 4096 \<le> 2 ^ 64"
  shows "region slab 8 \<subseteq> region slab 40" "region (slab + 8) 8 \<subseteq> region slab 40" "region (slab + 16) 4 \<subseteq> region slab 40"
    "region (slab + 20) 4 \<subseteq> region slab 40" "region (slab + 24) 4 \<subseteq> region slab 40" "region (slab + 28) 4 \<subseteq> region slab 40"
    "region (slab + 32) 8 \<subseteq> region slab 40"
  using page_unat [OF assms] by (auto simp: region_def)

lemma fields_agree:
  assumes r: "unat (slab :: u64) + 4096 \<le> 2 ^ 64" and a: "\<And>x. x \<in> region slab 40 \<Longrightarrow> m' x = m x"
  shows "get64 m' slab = get64 m slab" "get64 m' (slab + 8) = get64 m (slab + 8)" "get32 m' (slab + 16) = get32 m (slab + 16)"
    "get32 m' (slab + 20) = get32 m (slab + 20)" "get32 m' (slab + 24) = get32 m (slab + 24)"
    "get32 m' (slab + 28) = get32 m (slab + 28)" "get64 m' (slab + 32) = get64 m (slab + 32)"
proof -
  note f = field_regions [OF r]
  note u = page_unat [OF r]
  show "get64 m' slab = get64 m slab" by (rule get_region) (use r f(1) a in auto)
  show "get64 m' (slab + 8) = get64 m (slab + 8)" by (rule get_region) (use r u f(2) a in auto)
  show "get32 m' (slab + 16) = get32 m (slab + 16)" by (rule get_region) (use r u f(3) a in auto)
  show "get32 m' (slab + 20) = get32 m (slab + 20)" by (rule get_region) (use r u f(4) a in auto)
  show "get32 m' (slab + 24) = get32 m (slab + 24)" by (rule get_region) (use r u f(5) a in auto)
  show "get32 m' (slab + 28) = get32 m (slab + 28)" by (rule get_region) (use r u f(6) a in auto)
  show "get64 m' (slab + 32) = get64 m (slab + 32)" by (rule get_region) (use r u f(7) a in auto)
qed

lemma slot_room:
  assumes "unat (slab :: u64) + 4096 \<le> 2 ^ 64" "i < 8"
  shows "k < cap i \<Longrightarrow> unat (obj i slab k) + stride i \<le> unat slab + 4096" "k \<le> cap i \<Longrightarrow> unat (band i slab k) + 8 \<le> unat slab + 4096"
proof -
  show "unat (obj i slab k) + stride i \<le> unat slab + 4096" if "k < cap i"
    using unat_slot(2) [OF assms, of k] slot_bound [OF assms(2) that] that by simp
  show "unat (band i slab k) + 8 \<le> unat slab + 4096" if "k \<le> cap i"
  proof -
    have "k * stride i \<le> cap i * stride i" using that by (rule mult_le_mono1)
    then show ?thesis using unat_slot(1) [OF assms that] classD(6) [OF assms(2)] by linarith
  qed
qed

lemma links_agree:
  assumes r: "unat (slab :: u64) + 4096 \<le> 2 ^ 64" and i: "i < 8"
  shows "set fl \<subseteq> {..<cap i} \<Longrightarrow> (\<And>k x. k \<in> set fl \<Longrightarrow> x \<in> region (obj i slab k) 8 \<Longrightarrow> m' x = m x) \<Longrightarrow>
     links m' i slab fl = links m i slab fl"
proof (induction fl)
  case (Cons k fl)
  have "unat (obj i slab k) + 8 \<le> 2 ^ 64" using slot_room(1) [OF r i, of k] Cons.prems(1) classD(1,3) [OF i] r by simp
  then have "get64 m' (obj i slab k) = get64 m (obj i slab k)" using Cons.prems(2) by (intro get_region) auto
  moreover have "links m' i slab fl = links m i slab fl" using Cons.prems by (intro Cons.IH) auto
  ultimately show ?case by simp
qed simp

lemma guard_agree:
  assumes r: "unat (slab :: u64) + 4096 \<le> 2 ^ 64" and i: "i < 8" and k: "k \<le> cap i"
    and a: "\<And>x. x \<in> region (band i slab k) 8 \<Longrightarrow> m' x = m x"
  shows "guard m' i slab k = guard m i slab k"
proof -
  have "unat (band i slab k) + 8 \<le> 2 ^ 64" using slot_room(2) [OF r i k] r by simp
  then have "bytes_at m' (band i slab k) 8 = bytes_at m (band i slab k) 8" using a by (intro bytes_at_region)
  then show ?thesis by (simp add: guard_def)
qed

lemma slab_rep_agree:
  assumes rep: "slab_rep m i slab nx fl" and i: "i < 8" and a: "\<And>x. x \<in> meta i slab fl \<Longrightarrow> m' x = m x"
  shows "slab_rep m' i slab nx fl"
proof -
  have r: "unat slab + 4096 \<le> 2 ^ 64" and fl: "set fl \<subseteq> {..<cap i}" using slab_repD [OF rep] by blast+
  have "\<And>x. x \<in> region slab 40 \<Longrightarrow> m' x = m x" using a by (simp add: meta_def)
  note f = fields_agree [OF r this]
  have "links m' i slab fl = links m i slab fl" by (rule links_agree [OF r i fl]) (use a in \<open>auto simp: meta_def\<close>)
  moreover have "guard m' i slab k = guard m i slab k" if "k \<le> cap i" for k
    by (rule guard_agree [OF r i that]) (use a that in \<open>auto simp: meta_def\<close>)
  ultimately show ?thesis using rep f unfolding slab_rep_def by simp
qed

lemma meta_page: 
  assumes "unat (slab :: u64) + 4096 \<le> 2 ^ 64" "i < 8" "set fl \<subseteq> {..<cap i}"
  shows "meta i slab fl \<subseteq> region slab 4096"
proof -
  have "region slab 40 \<subseteq> region slab 4096" by (rule region_mono) simp_all
  moreover have "region (obj i slab k) 8 \<subseteq> region slab 4096" if "k < cap i" for k
    using slot_room(1) [OF assms(1,2) that] unat_slot(2) [OF assms(1,2) _ that] that classD(3) [OF assms(2)] by (intro region_mono) simp_all
  moreover have "region (band i slab k) 8 \<subseteq> region slab 4096" if "k \<le> cap i" for k
    using slot_room(2) [OF assms(1,2) that] unat_slot(1) [OF assms(1,2) that] by (intro region_mono) simp_all
  ultimately show ?thesis using assms(3) unfolding meta_def by blast
qed

text \<open>The two fields an allocation or a free changes.\<close>

definition set_list :: "u64 \<Rightarrow> u64 \<Rightarrow> u32 \<Rightarrow> mem \<Rightarrow> mem" where
  "set_list slab head use m = put32 (slab + 28) use (put64 (slab + 32) head m)"

lemma set_list_outside:
  assumes "unat (slab :: u64) + 4096 \<le> 2 ^ 64" "x \<notin> region (slab + 28) 12"
  shows "set_list slab head use m x = m x"
proof -
  note u = page_unat [OF assms(1)]
  have "x \<notin> region (slab + 28) 4" "x \<notin> region (slab + 32) 8" using assms u by (auto simp: region_def)
  then show ?thesis using assms(1) u unfolding set_list_def put64_bytes by (simp add: put_outside)
qed

lemma set_list_fields:
  assumes r: "unat (slab :: u64) + 4096 \<le> 2 ^ 64"
    and m': "m' = set_list slab head use m"
  shows "get64 m' slab = get64 m slab" "get64 m' (slab + 8) = get64 m (slab + 8)" "get32 m' (slab + 16) = get32 m (slab + 16)"
    "get32 m' (slab + 20) = get32 m (slab + 20)" "get32 m' (slab + 24) = get32 m (slab + 24)"
    "get32 m' (slab + 28) = use" "get64 m' (slab + 32) = head"
proof -
  note u = page_unat [OF r]
  have o: "m' x = m x" if "unat x < unat slab + 28" for x
    unfolding m' by (rule set_list_outside [OF r]) (use that u in \<open>auto simp: region_def\<close>)
  show "get64 m' slab = get64 m slab" by (rule get_region) (use r o in \<open>auto simp: region_def\<close>)
  show "get64 m' (slab + 8) = get64 m (slab + 8)" by (rule get_region) (use r u o in \<open>auto simp: region_def\<close>)
  show "get32 m' (slab + 16) = get32 m (slab + 16)" by (rule get_region) (use r u o in \<open>auto simp: region_def\<close>)
  show "get32 m' (slab + 20) = get32 m (slab + 20)" by (rule get_region) (use r u o in \<open>auto simp: region_def\<close>)
  show "get32 m' (slab + 24) = get32 m (slab + 24)" by (rule get_region) (use r u o in \<open>auto simp: region_def\<close>)
  show "get32 m' (slab + 28) = use" by (simp add: m' set_list_def)
  have "apart (slab + 32) 8 (slab + 28) (length (le32 use))" using r u by (simp add: apart_def)
  then show "get64 m' (slab + 32) = head"
    by (simp add: m' set_list_def put64_bytes(2) get_put)
qed

lemma set_list_rep:
  assumes r: "unat (slab :: u64) + 4096 \<le> 2 ^ 64" and i: "i < 8" and fl: "set fl \<subseteq> {..<cap i}"
  shows "links (set_list slab head use m) i slab fl = links m i slab fl"
    "k \<le> cap i \<Longrightarrow> guard (set_list slab head use m) i slab k = guard m i slab k"
proof -
  note u = page_unat [OF r]
  have o: "set_list slab head use m x = m x" if "unat slab + 40 \<le> unat x" for x
    by (rule set_list_outside [OF r]) (use that u in \<open>auto simp: region_def\<close>)
  show "links (set_list slab head use m) i slab fl = links m i slab fl"
    by (rule links_agree [OF r i fl]) (use fl unat_slot(2) [OF r i] in \<open>auto simp: region_def intro!: o\<close>)
  show "guard (set_list slab head use m) i slab k = guard m i slab k" if "k \<le> cap i"
    by (rule guard_agree [OF r i that]) (use unat_slot(1) [OF r i that] in \<open>auto simp: region_def intro!: o\<close>)
qed

lemma take_rep:
  assumes "slab_rep m i slab nx (k # fl)" "i < 8"
  shows "slab_rep (set_list slab (node i slab fl) (of_nat (cap i - length fl)) m) i slab nx fl"
proof -
  have r: "unat slab + 4096 \<le> 2 ^ 64" and fl: "set fl \<subseteq> {..<cap i}" using slab_repD [OF assms(1)] by auto
  note f = set_list_fields [OF r refl] and l = set_list_rep [OF r assms(2) fl]
  show ?thesis using assms(1) unfolding slab_rep_def f l(1) using l(2) by auto
qed

lemma obj_region_other:
  assumes "unat (slab :: u64) + 4096 \<le> 2 ^ 64" "i < 8" "j < cap i" "k < cap i" "j \<noteq> k"
  shows "unat (obj i slab j) + stride i \<le> unat (obj i slab k) \<or> unat (obj i slab k) + stride i \<le> unat (obj i slab j)"
  using unat_slot(2) [OF assms(1,2), of j] unat_slot(2) [OF assms(1,2), of k] assms(3-5) slot_order [of j k i] slot_order [of k j i]
  by (cases "j < k") auto

lemma obj_band_apart:
  assumes "unat (slab :: u64) + 4096 \<le> 2 ^ 64" "i < 8" "j < cap i" "k \<le> cap i"
  shows "unat (obj i slab j) + class_size i \<le> unat (band i slab k) \<or> unat (band i slab k) + 8 \<le> unat (obj i slab j)"
proof (cases "k \<le> j")
  case True
  then have "k * stride i \<le> j * stride i" by (rule mult_le_mono1)
  then show ?thesis using unat_slot(2) [OF assms(1,2), of j] unat_slot(1) [OF assms(1,2,4)] assms(3) by simp
next
  case False
  then show ?thesis
    using unat_slot(2) [OF assms(1,2), of j] unat_slot(1) [OF assms(1,2,4)] assms(3) slot_order [of j k i] classD(3) [OF assms(2)] by simp
qed

lemma free_rep:
  assumes rep: "slab_rep m i slab nx fl" and i: "i < 8" and k: "k < cap i" "k \<notin> set fl"
  shows "slab_rep (set_list slab (obj i slab k) (of_nat (cap i - Suc (length fl))) (put64 (obj i slab k) (node i slab fl) m)) i slab nx (k # fl)"
proof -
  let ?m = "put64 (obj i slab k) (node i slab fl) m"
  have r: "unat slab + 4096 \<le> 2 ^ 64" and fl: "set fl \<subseteq> {..<cap i}" using slab_repD [OF rep] by blast+
  have fl': "set (k # fl) \<subseteq> {..<cap i}" using fl k by simp
  note f = set_list_fields [OF r refl] and l = set_list_rep [OF r i fl']
  have ok: "unat (obj i slab k) + 8 \<le> 2 ^ 64" using slot_room(1) [OF r i k(1)] classD(1,3) [OF i] r by simp
  have o: "?m x = m x" if "x \<notin> region (obj i slab k) 8" for x
    unfolding put64_bytes using that ok by (simp add: put_outside)
  have "unat slab + 64 \<le> unat (obj i slab k)" using unat_slot(2) [OF r i _ k(1)] k(1) by simp
  then have "?m x = m x" if "x \<in> region slab 40" for x by (rule_tac o) (use that in \<open>auto simp: region_def\<close>)
  then have g: "get64 ?m slab = get64 m slab" "get64 ?m (slab + 8) = get64 m (slab + 8)" "get32 ?m (slab + 16) = get32 m (slab + 16)"
    "get32 ?m (slab + 20) = get32 m (slab + 20)" "get32 ?m (slab + 24) = get32 m (slab + 24)"
    using fields_agree [OF r, of ?m m] by blast+
  have s: "8 \<le> class_size i" "8 \<le> stride i" using classD(1,3) [OF i] by simp_all
  have "links ?m i slab fl = links m i slab fl"
  proof (rule links_agree [OF r i fl])
    fix j x assume j: "j \<in> set fl" and x: "x \<in> region (obj i slab j) 8"
    then have "j < cap i" "j \<noteq> k" using fl k by auto
    then show "?m x = m x" using obj_region_other [OF r i _ k(1), of j] x s by (intro o) (auto simp: region_def)
  qed
  then have links: "links ?m i slab (k # fl)" using rep by (simp add: slab_rep_def)
  have guards: "guard ?m i slab j" if "j \<le> cap i" for j
  proof -
    have "guard ?m i slab j = guard m i slab j"
      by (rule guard_agree [OF r i that]) (use obj_band_apart [OF r i k(1) that] s in \<open>auto simp: region_def intro!: o\<close>)
    then show ?thesis using rep that by (simp add: slab_rep_def)
  qed
  have "cap i - length (k # fl) = cap i - Suc (length fl)" "node i slab (k # fl) = obj i slab k" by (simp_all add: node_def)
  then show ?thesis using rep k fl' links guards l unfolding slab_rep_def f g by simp
qed

section \<open>A new slab\<close>

lemma get_others:
  "apart a 8 b 8 \<Longrightarrow> get64 (put64 b v m) a = get64 m a" "apart a 8 b 4 \<Longrightarrow> get64 (put32 b w m) a = get64 m a"
  "apart a 4 b 8 \<Longrightarrow> get32 (put64 b v m) a = get32 m a" "apart a 4 b 4 \<Longrightarrow> get32 (put32 b w m) a = get32 m a"
  by (simp_all add: put64_bytes)

lemma put_word_outside:
  "unat a + 8 \<le> 2 ^ 64 \<Longrightarrow> x \<notin> region a 8 \<Longrightarrow> put64 a v m x = m x" "unat a + 4 \<le> 2 ^ 64 \<Longrightarrow> x \<notin> region a 4 \<Longrightarrow> put32 a w m x = m x"
  by (simp_all add: put64_bytes put_outside)

definition threaded :: "mem \<Rightarrow> nat \<Rightarrow> u64 \<Rightarrow> nat \<Rightarrow> bool" where
  "threaded m i slab j \<longleftrightarrow> get64 m (slab + 32) = node i slab [j..<cap i] \<and> links m i slab [j..<cap i] \<and>
     (\<forall>k. j < cap i \<and> j \<le> k \<and> k \<le> cap i \<longrightarrow> guard m i slab k)"

lemma painted:
  assumes r: "unat (slab :: u64) + 4096 \<le> 2 ^ 64" and i: "i < 8" and j: "j < cap i"
  defines "m' m \<equiv> paint_redzones (obj i slab j) (k_class_sizes ! i) m"
  shows "x \<notin> region (band i slab j) 8 \<Longrightarrow> x \<notin> region (band i slab (Suc j)) 8 \<Longrightarrow> m' m x = m x"
    "guard (m' m) i slab j" "guard (m' m) i slab (Suc j)" "k \<le> cap i \<Longrightarrow> guard m i slab k \<Longrightarrow> guard (m' m) i slab k"
proof -
  let ?b = "band i slab j" and ?b' = "band i slab (Suc j)" and ?r = "replicate 8 REDZONE_BYTE"
  have b: "unat ?b + 8 \<le> 2 ^ 64" "unat ?b' + 8 \<le> 2 ^ 64"
    using slot_room(2) [OF r i, of j] slot_room(2) [OF r i, of "Suc j"] j r by simp_all
  have m': "m' m = put_bytes ?b' ?r (put_bytes ?b ?r m)" by (simp add: m'_def paint_bands [OF i])
  show o: "m' m x = m x" if "x \<notin> region ?b 8" "x \<notin> region ?b' 8"
    unfolding m' using that b by (simp add: put_outside)
  have s: "stride i = class_size i + 8" "16 \<le> class_size i" using classD [OF i] by simp_all
  have u: "unat ?b = unat slab + 56 + j * stride i" "unat ?b' = unat slab + 56 + j * stride i + stride i"
    using unat_slot(1) [OF r i, of j] unat_slot(1) [OF r i, of "Suc j"] j by simp_all
  have "apart ?b 8 ?b' (length ?r)" using u s b by (simp add: apart_def)
  then show g: "guard (m' m) i slab j" unfolding guard_def m' by (simp add: bytes_at_apart del: replicate.simps)
  show g': "guard (m' m) i slab (Suc j)" unfolding guard_def m' by (simp del: replicate.simps)
  show "guard (m' m) i slab k" if k: "k \<le> cap i" "guard m i slab k"
  proof (cases "k = j \<or> k = Suc j")
    case True
    then show ?thesis using g g' by blast
  next
    case False
    have "guard (m' m) i slab k = guard m i slab k"
    proof (rule guard_agree [OF r i k(1)])
      fix x assume x: "x \<in> region (band i slab k) 8"
      have "k * stride i + stride i \<le> j * stride i \<or> Suc j * stride i + stride i \<le> k * stride i"
        using False slot_order [of k j i] slot_order [of "Suc j" k i] by fastforce
      then have "x \<notin> region ?b 8" "x \<notin> region ?b' 8"
        using x u s unat_slot(1) [OF r i k(1)] by (auto simp: region_def)
      then show "m' m x = m x" unfolding m' using b by (simp add: put_outside)
    qed
    then show ?thesis using k(2) by simp
  qed
qed

lemma thread_ok:
  assumes r: "unat (slab :: u64) + 4096 \<le> 2 ^ 64" and i: "i < 8"
  shows "j \<le> cap i \<Longrightarrow> threaded m i slab j \<Longrightarrow>
     threaded (thread_objects j slab (k_class_sizes ! i) m) i slab 0 \<and>
     (\<forall>x. unat x < unat slab + 32 \<or> unat slab + 4096 \<le> unat x \<longrightarrow> thread_objects j slab (k_class_sizes ! i) m x = m x)"
proof (induction j arbitrary: m)
  case (Suc j)
  then have j: "j < cap i" by simp
  let ?o = "obj i slab j" and ?h = "node i slab [Suc j..<cap i]"
  define m1 where "m1 = paint_redzones ?o (k_class_sizes ! i) m"
  define m2 where "m2 = put64 ?o ?h m1"
  define m3 where "m3 = put64 (slab + 32) ?o m2"
  note u = page_unat [OF r] and p = painted [OF r i j, folded m1_def]
  note ob = unat_slot(2) [OF r i _ j] and room = slot_room(1) [OF r i j]
  have s: "stride i = class_size i + 8" "16 \<le> class_size i" using classD [OF i] by simp_all
  have bands: "unat (band i slab j) = unat slab + 56 + j * stride i" "unat (band i slab (Suc j)) = unat slab + 56 + j * stride i + stride i"
    using unat_slot(1) [OF r i, of j] unat_slot(1) [OF r i, of "Suc j"] j by simp_all
  have broom: "unat (band i slab (Suc j)) + 8 \<le> unat slab + 4096" using slot_room(2) [OF r i, of "Suc j"] j by simp
  have o1: "m1 x = m x" if "unat x < unat slab + 56 \<or> unat slab + 4096 \<le> unat x" for x
    unfolding m1_def by (rule p(1) [unfolded m1_def]) (use that bands broom in \<open>auto simp: region_def\<close>)
  have head: "get64 m1 (slab + 32) = ?h"
  proof -
    have "get64 m1 (slab + 32) = get64 m (slab + 32)" by (rule get_region) (use u r in \<open>auto simp: region_def intro!: o1\<close>)
    then show ?thesis using Suc.prems(2) by (simp add: threaded_def)
  qed
  have o2: "m2 x = m1 x" if "x \<notin> region ?o 8" for x
    unfolding m2_def using that room s r by (simp add: put_word_outside)
  have o3: "m3 x = m2 x" if "x \<notin> region (slab + 32) 8" for x
    unfolding m3_def using that u r by (simp add: put_word_outside)
  have up: "[j..<cap i] = j # [Suc j..<cap i]" using j by (simp add: upt_conv_Cons)
  have "threaded m3 i slab j" unfolding threaded_def
  proof (intro conjI allI impI)
    show "get64 m3 (slab + 32) = node i slab [j..<cap i]" by (simp add: m3_def up node_def)
    have "get64 m3 ?o = get64 m2 ?o" by (rule get_region) (use ob u j room r s in \<open>auto simp: region_def intro!: o3\<close>)
    then have "get64 m3 ?o = ?h" by (simp add: m2_def)
    moreover have "links m3 i slab [Suc j..<cap i] = links m i slab [Suc j..<cap i]"
    proof (rule links_agree [OF r i])
      fix k x assume k: "k \<in> set [Suc j..<cap i]" and x: "x \<in> region (obj i slab k) 8"
      then have k': "k < cap i" "j < k" by auto
      have ok: "unat (obj i slab k) = unat slab + 64 + k * stride i" using unat_slot(2) [OF r i _ k'(1)] k'(1) by simp
      have le: "j * stride i + stride i \<le> k * stride i" by (rule slot_order [OF k'(2)])
      have "m3 x = m2 x" by (rule o3) (use x ok u in \<open>auto simp: region_def\<close>)
      moreover have "m2 x = m1 x" by (rule o2) (use x ok le ob j s in \<open>auto simp: region_def\<close>)
      moreover have "m1 x = m x" unfolding m1_def by (rule p(1)) (use x ok le bands in \<open>auto simp: region_def\<close>)
      ultimately show "m3 x = m x" by simp
    qed auto
    ultimately show "links m3 i slab [j..<cap i]" using Suc.prems(2) by (simp add: up threaded_def)
    fix k assume k: "j < cap i \<and> j \<le> k \<and> k \<le> cap i"
    have "guard m3 i slab k = guard m1 i slab k"
    proof (rule guard_agree [OF r i])
      fix x assume x: "x \<in> region (band i slab k) 8"
      have "m3 x = m2 x" by (rule o3) (use x u unat_slot(1) [OF r i] k in \<open>auto simp: region_def\<close>)
      moreover have "m2 x = m1 x" by (rule o2) (use obj_band_apart [OF r i j, of k] k s x in \<open>auto simp: region_def\<close>)
      ultimately show "m3 x = m1 x" by simp
    qed (use k in simp)
    moreover have "guard m1 i slab k"
    proof (cases "k \<le> Suc j")
      case True
      then have "k = j \<or> k = Suc j" using k by auto
      then show ?thesis using p(2,3) by (auto simp: m1_def)
    next
      case False
      then have "Suc j < cap i" "Suc j \<le> k" using k by auto
      then show ?thesis using Suc.prems(2) k p(4) by (simp add: threaded_def m1_def)
    qed
    ultimately show "guard m3 i slab k" by simp
  qed
  note ih = Suc.IH [OF _ this]
  have step: "thread_objects (Suc j) slab (k_class_sizes ! i) m = thread_objects j slab (k_class_sizes ! i) m3"
    by (simp add: Let_def obj_code [OF i] m3_def m2_def head [unfolded m1_def] m1_def)
  have "m3 x = m x" if "unat x < unat slab + 32 \<or> unat slab + 4096 \<le> unat x" for x
  proof -
    have "m3 x = m2 x" by (rule o3) (use that u in \<open>auto simp: region_def\<close>)
    moreover have "m2 x = m1 x" by (rule o2) (use that ob j room s in \<open>auto simp: region_def\<close>)
    moreover have "m1 x = m x" by (rule o1) (use that in auto)
    ultimately show ?thesis by simp
  qed
  then show ?case using ih j unfolding step by auto
qed simp

definition slab_header :: "nat \<Rightarrow> u64 \<Rightarrow> mem \<Rightarrow> mem" where
  "slab_header i slab m = put64 (slab + 32) 0 (put64 (slab + 8) 0 (put32 (slab + 28) 0 (put32 (slab + 24) (slab_capacity (k_class_sizes ! i))
     (put32 (slab + 20) (k_class_sizes ! i) (put32 (slab + 16) (of_nat i) (put64 slab SLAB_MAGIC m))))))"

lemma slab_header_fields:
  assumes r: "unat (slab :: u64) + 4096 \<le> 2 ^ 64" and m': "m' = slab_header i slab m"
  shows "get64 m' slab = SLAB_MAGIC" "get64 m' (slab + 8) = 0" "get32 m' (slab + 16) = of_nat i" "get32 m' (slab + 20) = k_class_sizes ! i"
    "get32 m' (slab + 24) = slab_capacity (k_class_sizes ! i)" "get32 m' (slab + 28) = 0" "get64 m' (slab + 32) = 0"
  using r page_unat [OF r] unfolding m' slab_header_def by (simp_all add: get_others apart_def)

lemma slab_header_outside:
  assumes r: "unat (slab :: u64) + 4096 \<le> 2 ^ 64" and x: "x \<notin> region slab 40"
  shows "slab_header i slab m x = m x"
proof -
  note u = page_unat [OF r]
  have "x \<notin> region slab 8" "x \<notin> region (slab + 8) 8" "x \<notin> region (slab + 16) 4" "x \<notin> region (slab + 20) 4"
    "x \<notin> region (slab + 24) 4" "x \<notin> region (slab + 28) 4" "x \<notin> region (slab + 32) 8"
    using x field_regions [OF r] by blast+
  then show ?thesis unfolding slab_header_def using r u by (simp add: put_word_outside)
qed

lemma new_slab_rep:
  assumes f: "slab \<noteq> 0" "frame_address slab" and i: "i < 8"
    and m': "m' = thread_objects (unat (slab_capacity (k_class_sizes ! i))) slab (k_class_sizes ! i) (slab_header i slab m)"
  shows "slab_rep m' i slab 0 [0..<cap i]" "x \<notin> region slab 4096 \<Longrightarrow> m' x = m x"
proof -
  have r: "unat slab + 4096 \<le> 2 ^ 64" using f(2) by (rule frame_room)
  let ?h = "slab_header i slab m"
  note h = slab_header_fields [OF r refl, of i m] and u = page_unat [OF r]
  have "threaded ?h i slab (cap i)" using h by (simp add: threaded_def node_def)
  from thread_ok [OF r i order_refl this]
  have "threaded m' i slab 0 \<and> (\<forall>x. unat x < unat slab + 32 \<or> unat slab + 4096 \<le> unat x \<longrightarrow> m' x = ?h x)"
    unfolding m' classD(11) [OF i] .
  then have t: "threaded m' i slab 0" and o: "\<And>x. unat x < unat slab + 32 \<or> unat slab + 4096 \<le> unat x \<Longrightarrow> m' x = ?h x"
    by blast+
  have g: "get64 m' slab = get64 ?h slab" "get64 m' (slab + 8) = get64 ?h (slab + 8)"
    by (rule get_region; use r u in \<open>auto simp: region_def intro!: o\<close>)+
  have g': "get32 m' (slab + 16) = get32 ?h (slab + 16)" "get32 m' (slab + 20) = get32 ?h (slab + 20)"
     "get32 m' (slab + 24) = get32 ?h (slab + 24)" "get32 m' (slab + 28) = get32 ?h (slab + 28)"
    by (rule get_region; use r u in \<open>auto simp: region_def intro!: o\<close>)+
  show "slab_rep m' i slab 0 [0..<cap i]"
    unfolding slab_rep_def g g' h using t f classD(4) [OF i] by (auto simp: threaded_def)
  show "m' x = m x" if "x \<notin> region slab 4096"
  proof -
    have "unat x < unat slab \<or> unat slab + 4096 \<le> unat x" using that by (auto simp: region_def)
    then have "m' x = ?h x" "x \<notin> region slab 40" using o by (auto simp: region_def)
    then show ?thesis using slab_header_outside [OF r] by simp
  qed
qed

section \<open>The whole heap\<close>

text \<open>The chain of slabs of each class, the free objects of each slab, and the large blocks: frames and size by their base.\<close>

record heap_view =
  chain :: "nat \<Rightarrow> u64 list"
  frees :: "u64 \<Rightarrow> nat list"
  big :: "u64 \<Rightarrow> (u32 \<times> u32) option"

definition first_of :: "u64 list \<Rightarrow> u64" where
  "first_of ss = (case ss of [] \<Rightarrow> 0 | s # _ \<Rightarrow> s)"

fun slab_chain :: "mem \<Rightarrow> nat \<Rightarrow> (u64 \<Rightarrow> nat list) \<Rightarrow> u64 list \<Rightarrow> bool" where
  "slab_chain m i fr [] = True"
| "slab_chain m i fr (s # ss) = (slab_rep m i s (first_of ss) (fr s) \<and> slab_chain m i fr ss)"

definition big_rep :: "mem \<Rightarrow> u64 \<Rightarrow> u32 \<times> u32 \<Rightarrow> bool" where
  "big_rep m b = (\<lambda>(n, q). b \<noteq> 0 \<and> frame_address b \<and> 2 \<le> unat n \<and> unat q + 24 \<le> unat n * 4096 \<and> 0 < q \<and>
     trailer_magic m b = LARGE_MAGIC \<and> trailer_base m b = b \<and> trailer_frame_count m b = n \<and> trailer_requested m b = q)"

definition held :: "heap_view \<Rightarrow> (u64 \<times> u32) set" where
  "held V = {(s, 1) | s i. i < 8 \<and> s \<in> set (chain V i)} \<union> {(b, fst r) | b r. big V b = Some r}"

definition area :: "u64 \<times> u32 \<Rightarrow> u64 set" where
  "area = (\<lambda>(a, n). region a (unat n * 4096))"

definition chains_ok :: "heap_state \<Rightarrow> heap_view \<Rightarrow> bool" where
  "chains_ok h V \<longleftrightarrow> (\<forall>i < 8. slabs (s_caches h ! i) = first_of (chain V i) \<and> slab_chain (memory h) i (frees V) (chain V i) \<and>
     distinct (chain V i)) \<and> (\<forall>i < 8. \<forall>j < 8. i \<noteq> j \<longrightarrow> set (chain V i) \<inter> set (chain V j) = {})"

definition frames_ok :: "pmm_state \<Rightarrow> (u64 \<times> u32) set \<Rightarrow> bool" where
  "frames_ok p H \<longleftrightarrow> pmm_inv p \<and> (\<forall>x \<in> H. frame_address (fst x) \<and> (\<forall>g \<in> block (fst x) (snd x). frame_owned p g)) \<and>
     (\<forall>x \<in> H. \<forall>y \<in> H. x \<noteq> y \<longrightarrow> block (fst x) (snd x) \<inter> block (fst y) (snd y) = {})"

definition heap_rep :: "heap_state \<Rightarrow> heap_view \<Rightarrow> bool" where
  "heap_rep h V \<longleftrightarrow> s_ready h \<and> length (s_caches h) = 8 \<and> chains_ok h V \<and>
     (\<forall>b r. big V b = Some r \<longrightarrow> big_rep (memory h) b r) \<and> frames_ok (pmm h) (held V)"

text \<open>The blocks handed out: where they start and how many bytes the caller may use.\<close>

definition live :: "heap_view \<Rightarrow> u64 \<Rightarrow> nat \<Rightarrow> bool" where
  "live V p n \<longleftrightarrow> (\<exists>i s k. i < 8 \<and> s \<in> set (chain V i) \<and> k < cap i \<and> k \<notin> set (frees V s) \<and> p = obj i s k \<and> n = class_size i) \<or>
     (\<exists>b r. big V b = Some r \<and> p = b + 24 \<and> n = unat (snd r))"

lemma memory_set [simp]: "memory (set_memory m h) = m" "s_caches (set_memory m h) = s_caches h" "s_ready (set_memory m h) = s_ready h"
  "pmm (set_memory m h) = (pmm h)\<lparr>phys_mem := m\<rparr>"
  by (simp_all add: set_memory_def)

lemma frames_ok_memory [simp]: "frames_ok (p\<lparr>phys_mem := m\<rparr>) H = frames_ok p H"
  by (simp add: frames_ok_def)

lemma unat_frame: "frame_address a \<Longrightarrow> unat a = unat (addr_to_frame a) * 4096"
  using unat_frame_to_addr [of "addr_to_frame a"] by (simp add: frame_address_def)

lemma area_block: "frame_address a \<Longrightarrow> x \<in> area (a, n) \<longleftrightarrow> unat x div 4096 \<in> block a n"
proof -
  assume "frame_address a"
  then have a: "unat a = unat (addr_to_frame a) * 4096" by (rule unat_frame)
  let ?f = "unat (addr_to_frame a)"
  have "?f * 4096 \<le> unat x \<longleftrightarrow> ?f \<le> unat x div 4096" by (simp add: less_eq_div_iff_mult_less_eq)
  moreover have "unat x < (?f + unat n) * 4096 \<longleftrightarrow> unat x div 4096 < ?f + unat n" by (simp add: div_less_iff_less_mult)
  ultimately show ?thesis by (simp add: area_def region_def block_def a algebra_simps)
qed

lemma areas_apart: "frames_ok p H \<Longrightarrow> x \<in> H \<Longrightarrow> y \<in> H \<Longrightarrow> x \<noteq> y \<Longrightarrow> area x \<inter> area y = {}"
proof -
  assume h: "frames_ok p H" "x \<in> H" "y \<in> H" "x \<noteq> y"
  then have f: "frame_address (fst x)" "frame_address (fst y)" and d: "block (fst x) (snd x) \<inter> block (fst y) (snd y) = {}"
    unfolding frames_ok_def by blast+
  show ?thesis using area_block [OF f(1), of _ "snd x"] area_block [OF f(2), of _ "snd y"] d by (cases x; cases y) auto
qed

lemma area_room:
  assumes "frames_ok p H" "(a, n) \<in> H" "0 < unat n"
  shows "unat a + unat n * 4096 \<le> 2 ^ 43"
proof -
  let ?f = "unat (addr_to_frame a)"
  have fa: "frame_address a" and own: "\<forall>g \<in> block a n. frame_owned p g" and inv: "pmm_inv p"
    using assms(1,2) by (auto simp: frames_ok_def)
  have "?f + unat n - 1 \<in> block a n" using assms(3) by (auto simp: block_def)
  then have "?f + unat n - 1 < unat (s_frame_count p)" using own by (auto simp: frame_owned_def)
  moreover have "unat (s_frame_count p) \<le> 2 ^ 31" using pmm_repD(4) [OF pmm_invD(1) [OF inv]] by simp
  ultimately show ?thesis using unat_frame [OF fa] by simp
qed

section \<open>Writes that stay inside one held area\<close>

lemma slab_chain_mono:
  "slab_chain m i fr ss \<Longrightarrow> (\<And>s nx. s \<in> set ss \<Longrightarrow> slab_rep m i s nx (fr s) \<Longrightarrow> slab_rep m' i s nx (fr' s)) \<Longrightarrow> slab_chain m' i fr' ss"
  by (induction ss) auto

lemma slab_rep_page:
  assumes "slab_rep m i s nx fl" "i < 8" "\<And>x. x \<in> area (s, 1) \<Longrightarrow> m' x = m x"
  shows "slab_rep m' i s nx fl"
proof (rule slab_rep_agree [OF assms(1,2)])
  fix x assume "x \<in> meta i s fl"
  then have "x \<in> region s 4096" using meta_page [of s i fl] slab_repD [OF assms(1)] assms(2) by blast
  then show "m' x = m x" using assms(3) by (simp add: area_def)
qed

lemma big_rep_area:
  assumes "big_rep m b r" "unat b + unat (fst r) * 4096 \<le> 2 ^ 64" "\<And>x. x \<in> region b 24 \<Longrightarrow> m' x = m x"
  shows "big_rep m' b r"
proof -
  have r: "unat b + 4096 \<le> 2 ^ 64" using assms(1,2) by (auto simp: big_rep_def split: prod.splits)
  note u = page_unat [OF r]
  have "get64 m' b = get64 m b" by (rule get_region) (use r assms(3) in \<open>auto simp: region_def\<close>)
  moreover have "get64 m' (b + 8) = get64 m (b + 8)" by (rule get_region) (use r u assms(3) in \<open>auto simp: region_def\<close>)
  moreover have "get32 m' (b + 16) = get32 m (b + 16)" by (rule get_region) (use r u assms(3) in \<open>auto simp: region_def\<close>)
  moreover have "get32 m' (b + 20) = get32 m (b + 20)" by (rule get_region) (use r u assms(3) in \<open>auto simp: region_def\<close>)
  ultimately show ?thesis using assms(1) by (auto simp: big_rep_def)
qed

lemma big_front: "big_rep m b r \<Longrightarrow> region b 24 \<subseteq> area (b, fst r)"
proof -
  assume "big_rep m b r"
  then have "2 \<le> unat (fst r)" by (cases r) (simp add: big_rep_def)
  then show ?thesis unfolding area_def by (simp add: region_mono)
qed

lemma heap_repD:
  assumes "heap_rep h V"
  shows "s_ready h" "length (s_caches h) = 8" "frames_ok (pmm h) (held V)" "pmm_inv (pmm h)"
    "i < 8 \<Longrightarrow> slabs (s_caches h ! i) = first_of (chain V i)" "i < 8 \<Longrightarrow> slab_chain (memory h) i (frees V) (chain V i)"
    "i < 8 \<Longrightarrow> distinct (chain V i)" "i < 8 \<Longrightarrow> j < 8 \<Longrightarrow> s \<in> set (chain V i) \<Longrightarrow> s \<in> set (chain V j) \<Longrightarrow> i = j"
    "big V b = Some r \<Longrightarrow> big_rep (memory h) b r"
  using assms unfolding heap_rep_def chains_ok_def frames_ok_def by (blast, blast, blast, blast, blast, blast, blast, blast, blast)

lemma chain_rep: "slab_chain m i fr ss \<Longrightarrow> s \<in> set ss \<Longrightarrow> \<exists>nx. slab_rep m i s nx (fr s)"
  by (induction ss) auto

lemma heldI: "i < 8 \<Longrightarrow> s \<in> set (chain V i) \<Longrightarrow> (s, 1) \<in> held V" "big V b = Some r \<Longrightarrow> (b, fst r) \<in> held V"
  unfolding held_def by blast+

lemma big_room: "heap_rep h V \<Longrightarrow> big V b = Some r \<Longrightarrow> unat b + unat (fst r) * 4096 \<le> 2 ^ 43"
  using area_room [OF heap_repD(3) heldI(2), of h V b r] heap_repD(9) [of h V b r] by (auto simp: big_rep_def split: prod.splits)

lemma big_page_clash: "heap_rep h V \<Longrightarrow> big V b = Some r \<Longrightarrow> (b, fst r) \<noteq> (s, 1)"
  using heap_repD(9) [of h V b r] by (auto simp: big_rep_def split: prod.splits)

text \<open>
  A write inside the area \<open>x\<close> keeps every other structure; what it does to its own is the caller's
  obligation. The new view may differ in the free list of a slab.
\<close>

lemma heap_rep_write:
  assumes rep: "heap_rep h V" and x: "x \<in> held V" and m': "\<And>a. a \<notin> area x \<Longrightarrow> m' a = memory h a"
    and slab: "\<And>i s nx. i < 8 \<Longrightarrow> s \<in> set (chain V i) \<Longrightarrow> x = (s, 1) \<Longrightarrow> slab_rep (memory h) i s nx (frees V s) \<Longrightarrow> slab_rep m' i s nx (fr s)"
    and other: "\<And>s. x \<noteq> (s, 1) \<Longrightarrow> fr s = frees V s"
    and large: "\<And>b r. big V b = Some r \<Longrightarrow> x = (b, fst r) \<Longrightarrow> big_rep m' b r"
    and h': "s_ready h'" "length (s_caches h') = 8" "\<And>i. i < 8 \<Longrightarrow> slabs (s_caches h' ! i) = slabs (s_caches h ! i)"
      "pmm h' = (pmm h)\<lparr>phys_mem := m'\<rparr>"
  shows "heap_rep h' (V\<lparr>frees := fr\<rparr>)"
proof -
  note D = heap_repD [OF rep]
  have away: "m' a = memory h a" if "y \<in> held V" "y \<noteq> x" "a \<in> area y" for y a
    using areas_apart [OF D(3) that(1) x that(2)] that(3) m' by blast
  have chain: "slab_chain m' i fr (chain V i)" if i: "i < 8" for i
  proof (rule slab_chain_mono [OF D(6) [OF i]])
    fix s nx assume s: "s \<in> set (chain V i)" "slab_rep (memory h) i s nx (frees V s)"
    show "slab_rep m' i s nx (fr s)"
    proof (cases "x = (s, 1)")
      case False
      then show ?thesis
        using slab_rep_page [OF s(2) i, of m'] away [OF heldI(1) [OF i s(1)]] other [OF False] by metis
    qed (use slab i s in blast)
  qed
  have bigs: "big_rep m' b r" if b: "big V b = Some r" for b r
  proof (cases "x = (b, fst r)")
    case False
    have "m' a = memory h a" if "a \<in> region b 24" for a
    proof -
      have "region b 24 \<subseteq> area (b, fst r)"
        using big_front [OF D(9) [OF b]] .
      then show ?thesis using away [OF heldI(2) [OF b]] False that by blast
    qed
    then show ?thesis using big_rep_area [OF D(9) [OF b]] big_room [OF rep b] by simp
  qed (use large b in blast)
  have held: "held (V\<lparr>frees := fr\<rparr>) = held V" by (simp add: held_def)
  have "chains_ok h' (V\<lparr>frees := fr\<rparr>)"
    unfolding chains_ok_def
  proof (intro conjI allI impI)
    fix i :: nat assume i: "i < 8"
    show "slabs (s_caches h' ! i) = first_of (chain (V\<lparr>frees := fr\<rparr>) i)" using D(5) h'(3) i by simp
    show "slab_chain (memory h') i (frees (V\<lparr>frees := fr\<rparr>)) (chain (V\<lparr>frees := fr\<rparr>) i)" using chain [OF i] h'(4) by simp
    show "distinct (chain (V\<lparr>frees := fr\<rparr>) i)" using D(7) [OF i] by simp
    fix j :: nat assume "j < 8" "i \<noteq> j"
    then show "set (chain (V\<lparr>frees := fr\<rparr>) i) \<inter> set (chain (V\<lparr>frees := fr\<rparr>) j) = {}" using D(8) [OF i] by auto
  qed
  then show ?thesis using h' bigs D(3) unfolding heap_rep_def held by simp
qed

section \<open>Where the blocks lie\<close>

lemma slab_at:
  assumes "heap_rep h V" "i < 8" "s \<in> set (chain V i)"
  obtains nx where "slab_rep (memory h) i s nx (frees V s)" "unat s + 4096 \<le> 2 ^ 64" "set (frees V s) \<subseteq> {..<cap i}"
    "distinct (frees V s)" "length (frees V s) \<le> cap i" "frame_address s"
proof -
  obtain nx where r: "slab_rep (memory h) i s nx (frees V s)" using chain_rep [OF heap_repD(6) [OF assms(1,2)] assms(3)] by blast
  then have d: "distinct (frees V s)" "set (frees V s) \<subseteq> {..<cap i}" "frame_address s" unfolding slab_rep_def by blast+
  have "length (frees V s) \<le> cap i" using card_mono [OF _ d(2)] distinct_card [OF d(1)] by simp
  then show thesis using that r d slab_repD [OF r] by blast
qed

lemma live_cases:
  assumes "heap_rep h V" "live V q n"
  obtains (slab) i s k where "i < 8" "s \<in> set (chain V i)" "k < cap i" "k \<notin> set (frees V s)" "q = obj i s k" "n = class_size i"
      "unat q = unat s + 64 + k * stride i" "unat q + n \<le> unat s + 4096" "unat s + 4096 \<le> 2 ^ 64"
  | (large) b r where "big V b = Some r" "q = b + 24" "n = unat (snd r)" "unat q = unat b + 24" "unat q + n \<le> unat b + unat (fst r) * 4096"
      "unat b + unat (fst r) * 4096 \<le> 2 ^ 43"
  using assms(2) unfolding live_def
proof (elim disjE exE conjE)
  fix i s k assume a: "i < 8" "s \<in> set (chain V i)" "k < cap i" "k \<notin> set (frees V s)" "q = obj i s k" "n = class_size i"
  obtain nx where r: "unat s + 4096 \<le> 2 ^ 64" using slab_at [OF assms(1) a(1,2)] by blast
  have "unat q = unat s + 64 + k * stride i" using unat_slot(2) [OF r a(1) _ a(3)] a(3,5) by simp
  moreover have "unat q + n \<le> unat s + 4096" using slot_room(1) [OF r a(1,3)] a(5,6) classD(3) [OF a(1)] by simp
  ultimately show thesis using slab [OF a] r by blast
next
  fix b r assume a: "big V b = Some r" "q = b + 24" "n = unat (snd r)"
  note rep = heap_repD(9) [OF assms(1) a(1)] and room = big_room [OF assms(1) a(1)]
  have f: "2 \<le> unat (fst r)" "unat (snd r) + 24 \<le> unat (fst r) * 4096" using rep by (cases r, simp add: big_rep_def)+
  have "unat q = unat b + 24" using no_wrap_offset [of b 25 24] room f(1) a(2) by simp
  then show thesis using large [OF a] f room a(3) by simp
qed

lemma live_area:
  assumes "heap_rep h V" "live V q n"
  obtains x where "x \<in> held V" "region q n \<subseteq> area x" "unat (fst x) + 24 \<le> unat q" "unat q + n \<le> 2 ^ 64" "snd x = 1 \<Longrightarrow> unat (fst x) + 64 \<le> unat q"
proof (cases rule: live_cases [OF assms])
  case (1 i s k)
  have "region q n \<subseteq> area (s, 1)" unfolding area_def using 1(7,8) by (simp add: region_mono)
  then show thesis using that [OF heldI(1) [OF 1(1,2)]] 1(7-9) by simp
next
  case (2 b r)
  have "region q n \<subseteq> area (b, fst r)" unfolding area_def using 2(4,5) by (simp add: region_mono)
  moreover have "fst r \<noteq> 1" using heap_repD(9) [OF assms(1) 2(1)] by (cases r) (auto simp: big_rep_def)
  ultimately show thesis using that [OF heldI(2) [OF 2(1)]] 2(4-6) by simp
qed

lemma live_apart:
  assumes rep: "heap_rep h V" and l: "live V q n" "live V q' n'"
  shows "q \<noteq> q' \<Longrightarrow> region q n \<inter> region q' n' = {}" "q = q' \<Longrightarrow> n = n'"
proof -
  note D = heap_repD [OF rep]
  have differ: "region q n \<inter> region q' n' = {}" if "x \<in> held V" "y \<in> held V" "x \<noteq> y" "region q n \<subseteq> area x" "region q' n' \<subseteq> area y" for x y
    using areas_apart [OF D(3) that(1-3)] that(4,5) by blast
  have pos: "region q n \<noteq> {}"
  proof -
    have "0 < n \<and> unat q + n \<le> 2 ^ 64"
    proof (cases rule: live_cases [OF rep l(1)])
      case (1 i s k)
      then show ?thesis using classD(1) [OF 1(1)] by simp
    next
      case (2 b r)
      have "0 < snd r" using D(9) [OF 2(1)] by (cases r) (simp add: big_rep_def)
      then show ?thesis using 2 by (simp add: word_less_nat_alt)
    qed
    then show ?thesis using region_offset [of q n 0] by auto
  qed
  have "(q \<noteq> q' \<longrightarrow> region q n \<inter> region q' n' = {}) \<and> (q = q' \<longrightarrow> n = n')"
  proof (cases rule: live_cases [OF rep l(1)])
    case a: (1 i s k)
    note ha = heldI(1) [OF a(1,2)] and sa = region_mono [of s q n "unat (1 :: u32) * 4096"]
    have ra: "region q n \<subseteq> area (s, 1)" unfolding area_def using a(7,8) by (simp add: region_mono)
    show ?thesis
    proof (cases rule: live_cases [OF rep l(2)])
      case b: (1 i' s' k')
      have rb: "region q' n' \<subseteq> area (s', 1)" unfolding area_def using b(7,8) by (simp add: region_mono)
      show ?thesis
      proof (cases "s = s'")
        case True
        then have "i = i'" using D(8) [OF a(1) b(1)] a(2) b(2) by blast
        have "region q n \<inter> region q' n' = {}" if "q \<noteq> q'"
        proof -
          have "k \<noteq> k'" using that a(5) b(5) True \<open>i = i'\<close> by auto
          have "stride i = n + 8" "n = n'" using classD(3) [OF a(1)] a(6) b(6) \<open>i = i'\<close> by simp_all
          then show ?thesis using obj_region_other [OF a(9,1,3) _ \<open>k \<noteq> k'\<close>] a(5) b(3,5) True \<open>i = i'\<close> by (auto simp: region_def)
        qed
        then show ?thesis using a(6) b(6) \<open>i = i'\<close> by simp
      next
        case False
        then have e: "region q n \<inter> region q' n' = {}" using differ [OF ha heldI(1) [OF b(1,2)] _ ra rb] by simp
        then have "q \<noteq> q'"
          using pos classD(1) [OF b(1)] b(6) region_offset [of q' n' 0] b(8,9) a(8,9) classD(1) [OF a(1)] a(6) region_offset [of q n 0] by auto
        then show ?thesis using e by simp
      qed
    next
      case b: (2 b r)
      have rb: "region q' n' \<subseteq> area (b, fst r)" unfolding area_def using b(4,5) by (simp add: region_mono)
      have e: "region q n \<inter> region q' n' = {}" using differ [OF ha heldI(2) [OF b(1)] _ ra rb] big_page_clash [OF rep b(1)] by metis
      moreover have "q \<noteq> q'"
      proof
        assume "q = q'"
        moreover have "0 < n'" using D(9) [OF b(1)] b(3) by (cases r) (simp add: big_rep_def word_less_nat_alt)
        ultimately have "q \<in> region q n \<inter> region q' n'" using classD(1) [OF a(1)] a(6) by (simp add: region_def)
        then show False using e by blast
      qed
      ultimately show ?thesis by simp
    qed
  next
    case a: (2 b r)
    have ra: "region q n \<subseteq> area (b, fst r)" unfolding area_def using a(4,5) by (simp add: region_mono)
    have na: "0 < n" using D(9) [OF a(1)] a(3) by (cases r) (simp add: big_rep_def word_less_nat_alt)
    show ?thesis
    proof (cases rule: live_cases [OF rep l(2)])
      case b: (1 i' s' k')
      have rb: "region q' n' \<subseteq> area (s', 1)" unfolding area_def using b(7,8) by (simp add: region_mono)
      have e: "region q n \<inter> region q' n' = {}" using differ [OF heldI(2) [OF a(1)] heldI(1) [OF b(1,2)] _ ra rb] big_page_clash [OF rep a(1)] by metis
      moreover have "q \<noteq> q'"
      proof
        assume "q = q'"
        then have "q \<in> region q n \<inter> region q' n'" using classD(1) [OF b(1)] b(6) na by (simp add: region_def)
        then show False using e by blast
      qed
      ultimately show ?thesis by simp
    next
      case b: (2 b' r')
      have rb: "region q' n' \<subseteq> area (b', fst r')" unfolding area_def using b(4,5) by (simp add: region_mono)
      have "region q n \<inter> region q' n' = {}" if "q \<noteq> q'"
        using differ [OF heldI(2) [OF a(1)] heldI(2) [OF b(1)] _ ra rb] that a(2) b(2) by auto
      moreover have "n = n'" if "q = q'" using that a(1-3) b(1-3) by simp
      ultimately show ?thesis by blast
    qed
  qed
  then show "q \<noteq> q' \<Longrightarrow> region q n \<inter> region q' n' = {}" "q = q' \<Longrightarrow> n = n'" by blast+
qed

section \<open>Taking an object from the first slab\<close>

lemma take_memory:
  assumes rep: "slab_rep m i s nx (k # fl)" and i: "i < 8"
  shows "slab_free_list m s = obj i s k"
    "paint_redzones (obj i s k) (slab_object_size (put32 (s + 28) (slab_in_use (put64 (s + 32) (get64 m (obj i s k)) m) s + 1)
       (put64 (s + 32) (get64 m (obj i s k)) m)) s)
     (put32 (s + 28) (slab_in_use (put64 (s + 32) (get64 m (obj i s k)) m) s + 1) (put64 (s + 32) (get64 m (obj i s k)) m)) =
     set_list s (node i s fl) (of_nat (cap i - length fl)) m"
proof -
  have r: "unat s + 4096 \<le> 2 ^ 64" and fl: "set (k # fl) \<subseteq> {..<cap i}" "distinct (k # fl)"
    using slab_repD [OF rep] rep by (auto simp: slab_rep_def)
  note u = page_unat [OF r]
  show "slab_free_list m s = obj i s k" using rep by (simp add: slab_rep_def node_def)
  have l: "length (k # fl) \<le> cap i" using card_mono [OF _ fl(1)] distinct_card [OF fl(2)] by simp
  have link: "get64 m (obj i s k) = node i s fl" using rep by (simp add: slab_rep_def)
  have "slab_in_use (put64 (s + 32) (node i s fl) m) s = slab_in_use m s" using r u by (simp add: get_others apart_def)
  moreover have "slab_in_use m s = of_nat (cap i - length (k # fl))" using rep by (simp add: slab_rep_def)
  moreover have "of_nat (cap i - length (k # fl)) + 1 = (of_nat (cap i - length fl) :: u32)"
    using l by (metis Suc_diff_Suc Suc_le_lessD add.commute length_Cons of_nat_Suc)
  ultimately have m2: "put32 (s + 28) (slab_in_use (put64 (s + 32) (node i s fl) m) s + 1) (put64 (s + 32) (node i s fl) m) =
      set_list s (node i s fl) (of_nat (cap i - length fl)) m" by (simp add: set_list_def)
  note t = take_rep [OF rep i]
  have "slab_object_size (set_list s (node i s fl) (of_nat (cap i - length fl)) m) s = k_class_sizes ! i" using t by (simp add: slab_rep_def)
  moreover have "guard (set_list s (node i s fl) (of_nat (cap i - length fl)) m) i s j" if "j \<le> cap i" for j
    using t that by (simp add: slab_rep_def)
  ultimately show "paint_redzones (obj i s k) (slab_object_size (put32 (s + 28) (slab_in_use (put64 (s + 32) (get64 m (obj i s k)) m) s + 1)
       (put64 (s + 32) (get64 m (obj i s k)) m)) s)
     (put32 (s + 28) (slab_in_use (put64 (s + 32) (get64 m (obj i s k)) m) s + 1) (put64 (s + 32) (get64 m (obj i s k)) m)) =
     set_list s (node i s fl) (of_nat (cap i - length fl)) m"
    unfolding link m2 using fl(1) paint_guarded [OF i] by simp
qed

lemma update_cache_simps [simp]:
  "pmm (update_cache i f h) = pmm h" "s_ready (update_cache i f h) = s_ready h" "length (s_caches (update_cache i f h)) = length (s_caches h)"
  by (simp_all add: update_cache_def)

lemma update_cache_slabs: "(\<And>c. slabs (f c) = slabs c) \<Longrightarrow> j < length (s_caches h) \<Longrightarrow> slabs (s_caches (update_cache i f h) ! j) = slabs (s_caches h ! j)"
  by (cases "i = j") (simp_all add: update_cache_def)

lemma live_slabI: "i < 8 \<Longrightarrow> s \<in> set (chain V i) \<Longrightarrow> k < cap i \<Longrightarrow> k \<notin> set (frees V s) \<Longrightarrow> live V (obj i s k) (class_size i)"
  unfolding live_def by blast

lemma live_bigI: "big V b = Some r \<Longrightarrow> live V (b + 24) (unat (snd r))"
  unfolding live_def by blast

lemma header_apart:
  assumes rep: "heap_rep h V" and l: "live V q n" and s: "i < 8" "s \<in> set (chain V i)"
  shows "region q n \<inter> region (s + 28) 12 = {}"
proof -
  obtain nx where "unat s + 4096 \<le> 2 ^ 64" using slab_at [OF rep s] by blast
  note u = page_unat [OF this]
  have sub: "region (s + 28) 12 \<subseteq> area (s, 1)" unfolding area_def using u by (simp add: region_mono)
  obtain x where x: "x \<in> held V" "region q n \<subseteq> area x" "snd x = 1 \<Longrightarrow> unat (fst x) + 64 \<le> unat q"
    using live_area [OF rep l] by blast
  show ?thesis
  proof (cases "x = (s, 1)")
    case True
    then show ?thesis using x(3) u by (auto simp: region_def)
  next
    case False
    then show ?thesis using areas_apart [OF heap_repD(3) [OF rep] x(1) heldI(1) [OF s]] x(2) sub by blast
  qed
qed

definition kept :: "heap_view \<Rightarrow> mem \<Rightarrow> mem \<Rightarrow> bool" where
  "kept V m m' \<longleftrightarrow> (\<forall>q n. live V q n \<longrightarrow> bytes_at m' q n = bytes_at m q n)"

lemma live_bytes:
  assumes "heap_rep h V" "live V q n" "\<And>x. x \<in> region q n \<Longrightarrow> m' x = m x"
  shows "bytes_at m' q n = bytes_at m q n"
  using live_area [OF assms(1,2)] assms(3) by (metis bytes_at_region)

lemma take_ok:
  assumes rep: "heap_rep h V" and i: "i < 8" and s: "s \<in> set (chain V i)" and fl: "frees V s = k # fl"
    and run: "take_object i s h = (p, h')"
  defines "V' \<equiv> V\<lparr>frees := (frees V)(s := fl)\<rparr>"
  shows "heap_rep h' V'" "p = obj i s k" "kept V (memory h) (memory h')" "live V' q n \<longleftrightarrow> live V q n \<or> q = p \<and> n = class_size i"
    "\<not> live V p n"
proof -
  obtain nx where sr: "slab_rep (memory h) i s nx (k # fl)" "unat s + 4096 \<le> 2 ^ 64" "set (k # fl) \<subseteq> {..<cap i}" "distinct (k # fl)"
    using slab_at [OF rep i s] fl by metis
  let ?m = "set_list s (node i s fl) (of_nat (cap i - length fl)) (memory h)"
  note t = take_memory [OF sr(1) i]
  have run': "p = obj i s k \<and> h' = update_cache i (\<lambda>c. c\<lparr>live_objects := live_objects c + 1\<rparr>) (set_memory ?m h)"
    using run unfolding take_object_def Let_def t by simp
  then show p: "p = obj i s k" by simp
  have h': "pmm h' = (pmm h)\<lparr>phys_mem := ?m\<rparr>" "s_ready h' = s_ready h" "length (s_caches h') = length (s_caches h)"
    using run' by simp_all
  have sl: "slabs (s_caches h' ! j) = slabs (s_caches h ! j)" if "j < 8" for j
    using run' that heap_repD(2) [OF rep] by (simp add: update_cache_slabs)
  note u = page_unat [OF sr(2)]
  show "heap_rep h' V'" unfolding V'_def
  proof (rule heap_rep_write [OF rep heldI(1) [OF i s], where m' = ?m])
    fix a assume "a \<notin> area (s, 1)"
    then have "a \<notin> region (s + 28) 12" using u by (auto simp: area_def region_def)
    then show "?m a = memory h a" by (rule set_list_outside [OF sr(2)])
  next
    fix j s' nx' assume a: "j < 8" "s' \<in> set (chain V j)" "(s, 1) = (s', 1 :: u32)" "slab_rep (memory h) j s' nx' (frees V s')"
    then have "j = i" "s' = s" using heap_repD(8) [OF rep a(1) i] s by auto
    then show "slab_rep ?m j s' nx' (((frees V)(s := fl)) s')" using a(4) fl take_rep [OF _ i] by simp
  qed (use h' sl heap_repD(1,2) [OF rep] big_page_clash [OF rep] in auto)
  show "kept V (memory h) (memory h')" unfolding kept_def
  proof (intro allI impI)
    fix q n assume l: "live V q n"
    show "bytes_at (memory h') q n = bytes_at (memory h) q n"
    proof (rule live_bytes [OF rep l])
      fix x assume "x \<in> region q n"
      then have "x \<notin> region (s + 28) 12" using header_apart [OF rep l i s] by blast
      then show "memory h' x = memory h x" using set_list_outside [OF sr(2)] h'(1) by simp
    qed
  qed
  have only: "j = i" if "j < 8" "s \<in> set (chain V j)" for j using heap_repD(8) [OF rep that(1) i that(2) s] .
  show "live V' q n \<longleftrightarrow> live V q n \<or> q = p \<and> n = class_size i"
  proof
    assume "live V' q n"
    then show "live V q n \<or> q = p \<and> n = class_size i"
      unfolding live_def V'_def p
    proof (elim disjE exE conjE)
      fix i' s' k'
      assume a: "i' < 8" "s' \<in> set (chain (V\<lparr>frees := (frees V)(s := fl)\<rparr>) i')" "k' < cap i'"
        "k' \<notin> set (frees (V\<lparr>frees := (frees V)(s := fl)\<rparr>) s')" "q = obj i' s' k'" "n = class_size i'"
      show "((\<exists>i s k. i < 8 \<and> s \<in> set (chain V i) \<and> k < cap i \<and> k \<notin> set (frees V s) \<and> q = obj i s k \<and> n = class_size i) \<or>
          (\<exists>b r. big V b = Some r \<and> q = b + 24 \<and> n = unat (snd r))) \<or> q = obj i s k \<and> n = class_size i"
      proof (cases "s' = s \<and> k' = k")
        case True
        then show ?thesis using a only [of i'] by simp
      next
        case False
        then have "k' \<notin> set (frees V s')" using a(4) fl by (auto split: if_splits)
        then show ?thesis using a by auto
      qed
    qed auto
  next
    assume "live V q n \<or> q = p \<and> n = class_size i"
    then show "live V' q n"
    proof
      assume l: "live V q n"
      show ?thesis
      proof (cases rule: live_cases [OF rep l])
        case (1 i' s' k')
        then have "k' \<notin> set (frees V' s')" using fl by (auto simp: V'_def)
        then show ?thesis using live_slabI [of i' s' V' k'] 1(1-3,5,6) by (simp add: V'_def)
      next
        case (2 b r)
        then show ?thesis using live_bigI [of V' b r] by (simp add: V'_def)
      qed
    next
      assume "q = p \<and> n = class_size i"
      then show ?thesis using i s sr(3,4) p live_slabI [of i s V' k] by (simp add: V'_def)
    qed
  qed
  show "\<not> live V p n"
  proof
    assume l: "live V p n"
    show False
    proof (cases rule: live_cases [OF rep l])
      case (1 i' s' k')
      show ?thesis
      proof (cases "s' = s")
        case True
        then have "i' = i" using only 1 by simp
        moreover have "k' \<noteq> k" using 1(4) fl True by auto
        ultimately show ?thesis
          using obj_region_other [OF sr(2) i, of k' k] 1(3,5) p sr(3) True classD(3) [OF i] by simp
      next
        case False
        have "p \<in> area (s', 1)" using 1(6-8) classD(1) [OF 1(1)] by (simp add: area_def region_def)
        moreover have "p \<in> area (s, 1)" using unat_slot(2) [OF sr(2) i, of k] sr(3) slot_room(1) [OF sr(2) i, of k] classD(3) [OF i] p
          by (simp add: area_def region_def)
        ultimately show ?thesis using areas_apart [OF heap_repD(3) [OF rep] heldI(1) [OF 1(1,2)] heldI(1) [OF i s]] False by auto
      qed
    next
      case (2 b r)
      have "0 < n" using heap_repD(9) [OF rep 2(1)] 2(3) by (cases r) (simp add: big_rep_def word_less_nat_alt)
      then have "p \<in> area (b, fst r)" using 2 by (simp add: area_def region_def)
      moreover have "p \<in> area (s, 1)" using unat_slot(2) [OF sr(2) i, of k] sr(3) slot_room(1) [OF sr(2) i, of k] classD(3) [OF i] p
        by (simp add: area_def region_def)
      ultimately show ?thesis
        using areas_apart [OF heap_repD(3) [OF rep] heldI(2) [OF 2(1)] heldI(1) [OF i s]] big_page_clash [OF rep 2(1)] by blast
    qed
  qed
qed

section \<open>Giving an object back\<close>

lemma page_of_page: "frame_address s \<Longrightarrow> unat p = unat s + off \<Longrightarrow> off < 4096 \<Longrightarrow> page_of p = s"
proof -
  assume h: "frame_address s" "unat p = unat s + off" "off < 4096"
  have "page_of p = align_down p 4096" by (simp add: page_of_def align_down_def)
  then have "unat (page_of p) = unat p div 4096 * 4096" by (simp only: unat_align_down)
  then have "unat (page_of p) = unat s" using h unat_frame [OF h(1)] by simp
  then show ?thesis by (rule word_unat_eq_iff [THEN iffD2])
qed

lemma free_memory:
  assumes rep: "slab_rep m i s nx fl" and i: "i < 8" and k: "k < cap i" "k \<notin> set fl"
  shows "page_of (obj i s k) = s" "redzones_intact (obj i s k) (slab_object_size m s) m"
    "paint_redzones (obj i s k) (slab_object_size m s) m = m"
    "put32 (s + 28) (slab_in_use (put64 (s + 32) (obj i s k) (put64 (obj i s k) (slab_free_list m s) m)) s - 1)
       (put64 (s + 32) (obj i s k) (put64 (obj i s k) (slab_free_list m s) m)) =
     set_list s (obj i s k) (of_nat (cap i - Suc (length fl))) (put64 (obj i s k) (node i s fl) m)"
proof -
  have r: "unat s + 4096 \<le> 2 ^ 64" and fl: "set fl \<subseteq> {..<cap i}" "distinct fl" "frame_address s" and os: "slab_object_size m s = k_class_sizes ! i"
    using slab_repD [OF rep] rep by (auto simp: slab_rep_def)
  note u = page_unat [OF r]
  have ob: "unat (obj i s k) = unat s + (64 + k * stride i)" using unat_slot(2) [OF r i _ k(1)] k(1) by simp
  show "page_of (obj i s k) = s"
    by (rule page_of_page [OF fl(3) ob]) (use slot_bound [OF i k(1)] classD(3) [OF i] in simp)
  have g: "guard m i s k" "guard m i s (Suc k)" using rep k(1) by (auto simp: slab_rep_def)
  then show "redzones_intact (obj i s k) (slab_object_size m s) m" "paint_redzones (obj i s k) (slab_object_size m s) m = m"
    unfolding os using intact_guards [OF i] paint_guarded [OF i] by simp_all
  have "length fl < cap i"
  proof -
    have "set (k # fl) \<subseteq> {..<cap i}" "distinct (k # fl)" using fl k by auto
    then show ?thesis using card_mono [of "{..<cap i}" "set (k # fl)"] distinct_card [of "k # fl"] by simp
  qed
  then have "of_nat (cap i - length fl) - 1 = (of_nat (cap i - Suc (length fl)) :: u32)"
    by (metis Suc_diff_Suc add_diff_cancel_left' of_nat_Suc)
  moreover have "slab_in_use (put64 (s + 32) (obj i s k) (put64 (obj i s k) (node i s fl) m)) s = of_nat (cap i - length fl)"
  proof -
    have "apart (s + 28) 4 (s + 32) 8" "apart (s + 28) 4 (obj i s k) 8"
      using r u ob slot_room(1) [OF r i k(1)] classD(1,3) [OF i] by (simp_all add: apart_def)
    then show ?thesis using rep by (simp add: get_others slab_rep_def)
  qed
  moreover have "slab_free_list m s = node i s fl" using rep by (simp add: slab_rep_def)
  ultimately show "put32 (s + 28) (slab_in_use (put64 (s + 32) (obj i s k) (put64 (obj i s k) (slab_free_list m s) m)) s - 1)
       (put64 (s + 32) (obj i s k) (put64 (obj i s k) (slab_free_list m s) m)) =
     set_list s (obj i s k) (of_nat (cap i - Suc (length fl))) (put64 (obj i s k) (node i s fl) m)"
    by (simp add: set_list_def)
qed

lemma count_simps [simp]:
  "pmm (count_free_alloc h) = pmm h" "s_ready (count_free_alloc h) = s_ready h" "s_caches (count_free_alloc h) = s_caches h"
  "pmm (count_alloc n h) = pmm h" "s_ready (count_alloc n h) = s_ready h" "s_caches (count_alloc n h) = s_caches h"
  by (simp_all add: count_free_alloc_def count_alloc_def)

lemma heap_rep_count [simp]: "heap_rep (count_free_alloc h) V = heap_rep h V" "heap_rep (count_alloc n h) V = heap_rep h V"
  by (simp_all add: heap_rep_def chains_ok_def)

lemma free_object_ok:
  assumes rep: "heap_rep h V" and i: "i < 8" and s: "s \<in> set (chain V i)" and k: "k < cap i" "k \<notin> set (frees V s)"
  defines "p \<equiv> obj i s k" and "V' \<equiv> V\<lparr>frees := (frees V)(s := k # frees V s)\<rparr>"
  obtains h' where "kfree p h = Some h'" "heap_rep h' V'" "\<And>q n. live V' q n \<longleftrightarrow> live V q n \<and> q \<noteq> p" "kept V' (memory h) (memory h')"
proof -
  let ?fl = "frees V s"
  obtain nx where sr: "slab_rep (memory h) i s nx ?fl" "unat s + 4096 \<le> 2 ^ 64" "set ?fl \<subseteq> {..<cap i}"
    using slab_at [OF rep i s] by metis
  note f = free_memory [OF sr(1) i k, folded p_def]
  let ?m = "set_list s p (of_nat (cap i - Suc (length ?fl))) (put64 p (node i s ?fl) (memory h))"
  let ?u = "\<lambda>c. if 0 < live_objects c then c\<lparr>live_objects := live_objects c - 1\<rparr> else c"
  define h' where "h' = count_free_alloc (update_cache i ?u (set_memory ?m h))"
  have ob: "unat p = unat s + 64 + k * stride i" using unat_slot(2) [OF sr(2) i _ k(1)] k(1) by (simp add: p_def)
  have room: "unat p + stride i \<le> unat s + 4096" "stride i = class_size i + 8" "16 \<le> class_size i"
    using slot_room(1) [OF sr(2) i k(1)] classD [OF i] by (simp_all add: p_def)
  have "p \<noteq> 0" using ob by (metis add_is_0 unat_0 zero_neq_numeral)
  moreover have "slab_magic (memory h) s = SLAB_MAGIC" "slab_class_index (memory h) s = of_nat i" using sr(1) by (simp_all add: slab_rep_def)
  moreover have "unat (of_nat i :: u32) = i" using i by (simp add: unat_of_nat)
  ultimately have run: "kfree p h = Some h'"
    using f by (simp add: kfree_def Let_def h'_def)
  have h': "pmm h' = (pmm h)\<lparr>phys_mem := ?m\<rparr>" "s_ready h' = s_ready h" "length (s_caches h') = length (s_caches h)"
    by (simp_all add: h'_def)
  have sl: "slabs (s_caches h' ! j) = slabs (s_caches h ! j)" if "j < 8" for j
    using that heap_repD(2) [OF rep] by (simp add: h'_def update_cache_slabs)
  note u = page_unat [OF sr(2)]
  have out: "?m a = memory h a" if "a \<notin> region (s + 28) 12" "a \<notin> region p 8" for a
    using set_list_outside [OF sr(2) that(1)] put_word_outside(1) [of p a] that(2) room sr(2) by simp
  have rep': "heap_rep h' V'" unfolding V'_def
  proof (rule heap_rep_write [OF rep heldI(1) [OF i s], where m' = ?m])
    fix a assume "a \<notin> area (s, 1)"
    then show "?m a = memory h a" using u ob room by (intro out) (auto simp: area_def region_def)
  next
    fix j s' nx' assume a: "j < 8" "s' \<in> set (chain V j)" "(s, 1) = (s', 1 :: u32)" "slab_rep (memory h) j s' nx' (frees V s')"
    then have "j = i" "s' = s" using heap_repD(8) [OF rep a(1) i] s by auto
    then show "slab_rep ?m j s' nx' (((frees V)(s := k # ?fl)) s')" using a(4) free_rep [OF _ i k] by (simp add: p_def)
  qed (use h' sl heap_repD(1,2) [OF rep] big_page_clash [OF rep] in auto)
  have only: "j = i" if "j < 8" "s \<in> set (chain V j)" for j using heap_repD(8) [OF rep that(1) i that(2) s] .
  have lp: "live V p (class_size i)" using live_slabI [OF i s k] by (simp add: p_def)
  have live: "live V' q n \<longleftrightarrow> live V q n \<and> q \<noteq> p" for q n
  proof
    assume l: "live V' q n"
    show "live V q n \<and> q \<noteq> p"
    proof (cases rule: live_cases [OF rep' l])
      case (1 i' s' k')
      then have k': "k' \<notin> set (frees V s')" "s' = s \<Longrightarrow> k' \<noteq> k" "s' \<in> set (chain V i')" by (auto simp: V'_def split: if_splits)
      have lq: "live V q n" using live_slabI [OF 1(1) k'(3) 1(3) k'(1)] 1(5,6) by simp
      have "q \<noteq> p"
      proof
        assume e: "q = p"
        show False
        proof (cases "s' = s")
          case True
          then have "i' = i" using only 1(1) k'(3) by simp
          then show False using obj_region_other [OF sr(2) i _ k(1), of k'] 1(3,5) k'(2) True e room by (simp add: p_def)
        next
          case False
          have "p \<in> area (s, 1)" "p \<in> area (s', 1)"
            using ob room 1(6-8) classD(1) [OF 1(1)] e by (simp_all add: area_def region_def)
          then show False using areas_apart [OF heap_repD(3) [OF rep] heldI(1) [OF 1(1) k'(3)] heldI(1) [OF i s]] False by auto
        qed
      qed
      then show ?thesis using lq by simp
    next
      case (2 b r)
      then have b: "big V b = Some r" by (simp add: V'_def)
      have lq: "live V q n" using live_bigI [OF b] 2 by simp
      have "q \<noteq> p"
      proof
        assume e: "q = p"
        have "p \<in> area (s, 1)" using ob room by (simp add: area_def region_def)
        moreover have "0 < n" using heap_repD(9) [OF rep b] 2(3) by (cases r) (simp add: big_rep_def word_less_nat_alt)
        then have "p \<in> area (b, fst r)" using 2 e by (simp add: area_def region_def)
        ultimately show False
          using areas_apart [OF heap_repD(3) [OF rep] heldI(2) [OF b] heldI(1) [OF i s]] big_page_clash [OF rep b] by blast
      qed
      then show ?thesis using lq by simp
    qed
  next
    assume l: "live V q n \<and> q \<noteq> p"
    then have l': "live V q n" by simp
    show "live V' q n"
    proof (cases rule: live_cases [OF rep l'])
      case (1 i' s' k')
      have "s' = s \<Longrightarrow> k' \<noteq> k" using l 1(1,2,5) only [of i'] by (auto simp: p_def)
      then have "k' \<notin> set (frees V' s')" using 1(4) by (auto simp: V'_def)
      then show ?thesis using live_slabI [of i' s' V' k'] 1(1-3,5,6) by (simp add: V'_def)
    next
      case (2 b r)
      then show ?thesis using live_bigI [of V' b r] by (simp add: V'_def)
    qed
  qed
  have "kept V' (memory h) (memory h')" unfolding kept_def
  proof (intro allI impI)
    fix q n assume "live V' q n"
    then have l: "live V q n" "q \<noteq> p" using live by simp_all
    show "bytes_at (memory h') q n = bytes_at (memory h) q n"
    proof (rule live_bytes [OF rep l(1)])
      fix x assume x: "x \<in> region q n"
      then have "x \<notin> region (s + 28) 12" using header_apart [OF rep l(1) i s] by blast
      moreover have "x \<notin> region p 8"
        using live_apart(1) [OF rep l(1) lp l(2)] x region_mono [of p p 8 "class_size i"] room by auto
      ultimately show "memory h' x = memory h x" using out h'(1) by simp
    qed
  qed
  then show thesis using that run rep' live by blast
qed

section \<open>Taking frames\<close>

lemma alloc_frames_mem: "pmm_alloc_frames n p = (f, p1) \<Longrightarrow> phys_mem p1 = phys_mem p"
proof -
  have t: "phys_mem (fold take_frame fs q) = phys_mem q" for fs q
    by (induction fs arbitrary: q) (simp_all add: take_frame_def frame_mark_used_def set_refcount_def)
  assume "pmm_alloc_frames n p = (f, p1)"
  then show ?thesis by (auto simp: pmm_alloc_frames_def Let_def t split: if_splits option.splits)
qed

lemma frames_ok_alloc:
  assumes ok: "frames_ok p H" and a: "pmm_alloc_frames n p = (a, p1)" "a \<noteq> 0"
  shows "frames_ok p1 (insert (a, n) H)" "(a, n) \<notin> H" "\<And>y. y \<in> H \<Longrightarrow> area y \<inter> area (a, n) = {}" "frame_address a" "0 < n"
    "phys_mem p1 = phys_mem p" "\<And>k. (a, k) \<in> H \<Longrightarrow> 0 < k \<Longrightarrow> False"
proof -
  have inv: "pmm_inv p" using ok by (simp add: frames_ok_def)
  note al = pmm.alloc_some [OF inv a]
  show "frame_address a" "0 < n" using al by simp_all
  have un: "0 < unat n" using al by (simp add: word_less_nat_alt)
  have dis: "block (fst y) (snd y) \<inter> block a n = {}" if "y \<in> H" for y
  proof -
    have "frame_owned p g" if "g \<in> block (fst y) (snd y)" for g using ok \<open>y \<in> H\<close> that by (simp add: frames_ok_def)
    then show ?thesis using al pmm.owned_avail [OF inv] by blast
  qed
  have first: "unat (addr_to_frame a) \<in> block a n" using un by (simp add: block_def)
  show nin: "(a, n) \<notin> H" using dis [of "(a, n)"] first by auto
  show "False" if "(a, k) \<in> H" "0 < k" for k
  proof -
    have "unat (addr_to_frame a) \<in> block a k" using that(2) by (simp add: block_def word_less_nat_alt)
    then show False using dis [OF that(1)] first by auto
  qed
  show ok': "frames_ok p1 (insert (a, n) H)"
    using ok al dis unfolding frames_ok_def by (auto simp: Int_commute)
  show "area y \<inter> area (a, n) = {}" if "y \<in> H" for y
    using areas_apart [OF ok', of y "(a, n)"] that nin by auto
  show "phys_mem p1 = phys_mem p" by (rule alloc_frames_mem [OF a(1)])
qed

lemma alloc_z_frames: "pmm_alloc_frame_z p = (f, p1) \<Longrightarrow> f \<noteq> 0 \<Longrightarrow>
    \<exists>p2. pmm_alloc_frames 1 p = (f, p2) \<and> p1 = p2\<lparr>phys_mem := \<lambda>a. if a - f < 4096 then 0 else phys_mem p2 a\<rparr>"
  by (auto simp: pmm_alloc_frame_z_def pmm_alloc_frame_def Let_def split: prod.splits if_splits)

text \<open>What the structures already there need of a memory that grew elsewhere.\<close>

lemma structures_kept:
  assumes rep: "heap_rep h V" and m': "\<forall>y \<in> held V. \<forall>a \<in> area y. m' a = memory h a"
  shows "i < 8 \<Longrightarrow> s \<in> set (chain V i) \<Longrightarrow> slab_rep (memory h) i s nx fl \<Longrightarrow> slab_rep m' i s nx fl"
    "i < 8 \<Longrightarrow> slab_chain m' i (frees V) (chain V i)" "big V b = Some r \<Longrightarrow> big_rep m' b r" "kept V (memory h) m'"
proof -
  note D = heap_repD [OF rep]
  show one: "slab_rep m' i s nx fl" if "i < 8" "s \<in> set (chain V i)" "slab_rep (memory h) i s nx fl" for i s nx fl
    by (rule slab_rep_page [OF that(3,1)]) (use m' heldI(1) that in blast)
  show "slab_chain m' i (frees V) (chain V i)" if "i < 8"
    by (rule slab_chain_mono [OF D(6) [OF that]]) (use one that in blast)
  show "big_rep m' b r" if "big V b = Some r"
  proof -
    have "m' a = memory h a" if "a \<in> region b 24" for a
      using big_front [OF D(9) [OF \<open>big V b = Some r\<close>]] m' heldI(2) [OF \<open>big V b = Some r\<close>] that by blast
    then show ?thesis using big_rep_area [OF D(9) [OF that]] big_room [OF rep that] by simp
  qed
  show "kept V (memory h) m'" unfolding kept_def
  proof (intro allI impI)
    fix q n assume l: "live V q n"
    obtain x where "x \<in> held V" "region q n \<subseteq> area x" using live_area [OF rep l] by blast
    then show "bytes_at m' q n = bytes_at (memory h) q n" using live_bytes [OF rep l] m' by blast
  qed
qed

section \<open>A new slab in front of its cache\<close>

lemma slab_rep_next: 
  assumes "slab_rep m i s nx fl" "i < 8"
  shows "slab_rep (put64 (s + 8) nx' m) i s nx' fl"
proof -
  have r: "unat s + 4096 \<le> 2 ^ 64" and fl: "set fl \<subseteq> {..<cap i}" using slab_repD [OF assms(1)] by blast+
  note u = page_unat [OF r]
  let ?m = "put64 (s + 8) nx' m"
  have f: "get64 ?m s = get64 m s" "get64 ?m (s + 8) = nx'" "get32 ?m (s + 16) = get32 m (s + 16)" "get32 ?m (s + 20) = get32 m (s + 20)"
     "get32 ?m (s + 24) = get32 m (s + 24)" "get32 ?m (s + 28) = get32 m (s + 28)" "get64 ?m (s + 32) = get64 m (s + 32)"
    using r u by (simp_all add: get_others apart_def)
  have o: "?m x = m x" if "unat s + 40 \<le> unat x" for x
    by (rule put_word_outside(1)) (use that u r in \<open>auto simp: region_def\<close>)
  have "links ?m i s fl = links m i s fl"
    by (rule links_agree [OF r assms(2) fl]) (use fl unat_slot(2) [OF r assms(2)] in \<open>auto simp: region_def intro!: o\<close>)
  moreover have "guard ?m i s k = guard m i s k" if "k \<le> cap i" for k
    by (rule guard_agree [OF r assms(2) that]) (use unat_slot(1) [OF r assms(2) that] in \<open>auto simp: region_def intro!: o\<close>)
  ultimately show ?thesis using assms(1) unfolding slab_rep_def f by simp
qed

lemma slab_create_eq:
  assumes "pmm_alloc_frame_z (pmm h) = (slab, p)"
  shows "slab_create i h = (if slab = 0 then (0, h\<lparr>pmm := p\<rparr>)
     else (slab, set_memory (thread_objects (unat (slab_capacity (k_class_sizes ! i))) slab (k_class_sizes ! i)
       (slab_header i slab (phys_mem p))) (h\<lparr>pmm := p\<rparr>)))"
  using assms by (simp add: slab_create_def Let_def slab_header_def)

lemma add_slab_ok:
  assumes rep: "heap_rep h V" and i: "i < 8" and run: "slab_create i h = (slab, h1)" "slab \<noteq> 0"
  defines "h' \<equiv> update_cache i (\<lambda>c. c\<lparr>slabs := slab, slab_count := slab_count c + 1\<rparr>)
      (set_memory (put64 (slab + 8) (slabs (s_caches h1 ! i)) (memory h1)) h1)"
    and "V' \<equiv> V\<lparr>chain := (chain V)(i := slab # chain V i), frees := (frees V)(slab := [0..<cap i])\<rparr>"
  shows "heap_rep h' V'" "kept V (memory h) (memory h')" "live V' q n \<longleftrightarrow> live V q n"
proof -
  obtain p where z: "pmm_alloc_frame_z (pmm h) = (slab, p)" using run slab_create_eq [of h _ _ i] by (cases "pmm_alloc_frame_z (pmm h)") (auto split: if_splits)
  obtain p2 where p2: "pmm_alloc_frames 1 (pmm h) = (slab, p2)" "p = p2\<lparr>phys_mem := \<lambda>a. if a - slab < 4096 then 0 else phys_mem p2 a\<rparr>"
    using alloc_z_frames [OF z run(2)] by blast
  note D = heap_repD [OF rep]
  note fo = frames_ok_alloc [OF D(3) p2(1) run(2)]
  note room = frame_room [OF fo(4)]
  define m1 where "m1 = thread_objects (unat (slab_capacity (k_class_sizes ! i))) slab (k_class_sizes ! i) (slab_header i slab (phys_mem p))"
  have h1: "h1 = set_memory m1 (h\<lparr>pmm := p\<rparr>)" using run slab_create_eq [OF z, of i] by (simp add: m1_def)
  note nr = new_slab_rep [OF run(2) fo(4) i m1_def]
  define m' where "m' = put64 (slab + 8) (first_of (chain V i)) m1"
  have sl1: "slabs (s_caches h1 ! i) = first_of (chain V i)" using D(5) [OF i] by (simp add: h1)
  have mem': "memory h' = m'" "pmm h' = p2\<lparr>phys_mem := m'\<rparr>" "s_ready h' = s_ready h" "length (s_caches h') = length (s_caches h)"
    using p2(2) D(5) [OF i] by (simp_all add: h'_def m'_def h1)
  have new: "slab_rep m' i slab (first_of (chain V i)) [0..<cap i]" unfolding m'_def by (rule slab_rep_next [OF nr(1) i])
  have notin: "slab \<notin> set (chain V j)" if "j < 8" for j using fo(2) heldI(1) [OF that, of slab V] by blast
  have agree: "m' a = memory h a" if "a \<notin> area (slab, 1)" for a
  proof -
    have a: "a \<notin> region slab 4096" using that by (simp add: area_def)
    then have "a \<notin> region (slab + 8) 8" using page_unat [OF room] by (auto simp: region_def)
    then have "m' a = m1 a" unfolding m'_def using page_unat [OF room] room by (intro put_word_outside(1)) simp_all
    moreover have "\<not> a - slab < 4096"
    proof
      assume "a - slab < 4096"
      then obtain k where "k < 4096" "a = slab + of_nat k" using in_frame [OF fo(4)] by blast
      then show False using a frame_offset(1) [OF fo(4), of k] by (simp add: region_def)
    qed
    ultimately show ?thesis using nr(2) [OF a] p2(2) fo(6) by simp
  qed
  have keep: "\<forall>y \<in> held V. \<forall>a \<in> area y. m' a = memory h a"
    using agree fo(3) by blast
  note sk = structures_kept [OF rep keep]
  have old: "slab_chain m' j (frees V') (chain V j)" if "j < 8" for j
    by (rule slab_chain_mono [OF sk(2) [OF that]]) (use notin [OF that] in \<open>auto simp: V'_def\<close>)
  have held: "held V' = insert (slab, 1) (held V)"
    using i unfolding held_def V'_def by (auto split: if_splits)
  show "heap_rep h' V'" unfolding heap_rep_def
  proof (intro conjI allI impI)
    show "s_ready h'" "length (s_caches h') = 8" using mem' D(1,2) by simp_all
    show "frames_ok (pmm h') (held V')" unfolding held mem'(2) frames_ok_memory by (rule fo(1))
    show "big_rep (memory h') b r" if "big V' b = Some r" for b r using sk(3) that mem'(1) by (simp add: V'_def)
    show "chains_ok h' V'" unfolding chains_ok_def
    proof (intro conjI allI impI)
      fix j :: nat assume j: "j < 8"
      show "slabs (s_caches h' ! j) = first_of (chain V' j)"
        using D(2,5) j i by (simp add: h'_def h1 update_cache_def V'_def first_of_def nth_list_update)
      show "slab_chain (memory h') j (frees V') (chain V' j)"
        using old [OF j] new by (auto simp: mem'(1) V'_def)
      show "distinct (chain V' j)" using D(7) [OF j] notin [OF j] by (auto simp: V'_def)
      fix l :: nat assume l: "l < 8" "j \<noteq> l"
      have "set (chain V j) \<inter> set (chain V l) = {}" using D(8) [OF j l(1)] l(2) by blast
      then show "set (chain V' j) \<inter> set (chain V' l) = {}" using notin [OF j] notin [OF l(1)] l(2) by (auto simp: V'_def)
    qed
  qed
  show "kept V (memory h) (memory h')" using sk(4) mem'(1) by simp
  show "live V' q n \<longleftrightarrow> live V q n"
  proof
    assume "live V' q n"
    then show "live V q n" unfolding live_def
    proof (elim disjE exE conjE)
      fix j s k assume a: "j < 8" "s \<in> set (chain V' j)" "k < cap j" "k \<notin> set (frees V' s)" "q = obj j s k" "n = class_size j"
      have "s \<noteq> slab"
      proof
        assume e: "s = slab"
        then have "j = i" using a(1,2) notin by (auto simp: V'_def split: if_splits)
        then show False using a(3,4) e by (simp add: V'_def)
      qed
      then have "s \<in> set (chain V j)" "k \<notin> set (frees V s)" using a(2,4) by (auto simp: V'_def split: if_splits)
      then show "(\<exists>i s k. i < 8 \<and> s \<in> set (chain V i) \<and> k < cap i \<and> k \<notin> set (frees V s) \<and> q = obj i s k \<and> n = class_size i) \<or>
          (\<exists>b r. big V b = Some r \<and> q = b + 24 \<and> n = unat (snd r))" using a by blast
    qed (auto simp: V'_def)
  next
    assume l: "live V q n"
    show "live V' q n"
    proof (cases rule: live_cases [OF rep l])
      case (1 j s k)
      then have "s \<noteq> slab" using notin by blast
      moreover have "s \<in> set (chain V' j)" using 1(2) by (auto simp: V'_def)
      ultimately show ?thesis using live_slabI [of j s V' k] 1 by (simp add: V'_def)
    next
      case (2 b r)
      then show ?thesis using live_bigI [of V' b r] by (simp add: V'_def)
    qed
  qed
qed

section \<open>Large blocks\<close>

definition trailer :: "u64 \<Rightarrow> u32 \<Rightarrow> u32 \<Rightarrow> mem \<Rightarrow> mem" where
  "trailer b n q m = put32 (b + 20) q (put32 (b + 16) n (put64 (b + 8) b (put64 b LARGE_MAGIC m)))"

lemma trailer_fields:
  assumes r: "unat (b :: u64) + 4096 \<le> 2 ^ 64" and m': "m' = trailer b n q m"
  shows "get64 m' b = LARGE_MAGIC" "get64 m' (b + 8) = b" "get32 m' (b + 16) = n" "get32 m' (b + 20) = q"
    "x \<notin> region b 24 \<Longrightarrow> m' x = m x"
proof -
  note u = page_unat [OF r]
  show "get64 m' b = LARGE_MAGIC" "get64 m' (b + 8) = b" "get32 m' (b + 16) = n" "get32 m' (b + 20) = q"
    using r u unfolding m' trailer_def by (simp_all add: get_others apart_def)
  assume "x \<notin> region b 24"
  then have "x \<notin> region b 8" "x \<notin> region (b + 8) 8" "x \<notin> region (b + 16) 4" "x \<notin> region (b + 20) 4"
    using u by (auto simp: region_def)
  then show "m' x = m x" unfolding m' trailer_def using r u by (simp add: put_word_outside)
qed

definition large_frames :: "u64 \<Rightarrow> u32" where
  "large_frames sz = ucast ((sz + LARGE_TRAILER_SIZE + 4096 + 4096 - 1) div 4096)"

lemma large_frames_value:
  assumes "unat sz < 2 ^ 32" "0 < unat sz"
  shows "unat (large_frames sz) = (unat sz + 8215) div 4096" "2 \<le> unat (large_frames sz)" "unat sz + 24 \<le> unat (large_frames sz) * 4096"
proof -
  have e: "sz + 24 + 4096 + 4096 - 1 = sz + 8215" by simp
  have "unat (sz + 8215) = unat sz + 8215" using assms(1) by (subst unat_add_small) simp_all
  then have "unat ((sz + 24 + 4096 + 4096 - 1) div 4096) = (unat sz + 8215) div 4096" unfolding e by (simp add: unat_div)
  moreover have "(unat sz + 8215) div 4096 < 2 ^ 32"
    using assms(1) by (simp add: div_less_iff_less_mult)
  ultimately show v: "unat (large_frames sz) = (unat sz + 8215) div 4096"
    unfolding large_frames_def by (simp add: unsigned_ucast_eq take_bit_nat_eq_self)
  show "2 \<le> unat (large_frames sz)" unfolding v by (simp add: less_eq_div_iff_mult_less_eq)
  have "unat sz + 8215 < ((unat sz + 8215) div 4096 + 1) * 4096" using dividend_less_div_times [of 4096 "unat sz + 8215"] by simp
  then show "unat sz + 24 \<le> unat (large_frames sz) * 4096" unfolding v by simp
qed

lemma large_alloc_ok:
  assumes rep: "heap_rep h V" and sz: "unat sz < 2 ^ 32" "0 < unat sz" and run: "large_alloc sz 8 h = (p, h')"
  shows "p = 0 \<Longrightarrow> heap_rep h' V \<and> memory h' = memory h"
    "p \<noteq> 0 \<Longrightarrow> \<exists>b. p = b + 24 \<and> heap_rep h' (V\<lparr>big := (big V)(b := Some (large_frames sz, ucast sz))\<rparr>) \<and> kept V (memory h) (memory h') \<and>
      big V b = None \<and> \<not> live V p n"
proof -
  note D = heap_repD [OF rep] and lf = large_frames_value [OF sz]
  let ?n = "large_frames sz" and ?q = "ucast sz :: u32"
  obtain b p1 where a: "pmm_alloc_frames ?n (pmm h) = (b, p1)" by fastforce
  have run': "(p, h') = (if b = 0 then (0, h\<lparr>pmm := p1\<rparr>) else (b + 24, set_memory (trailer b ?n ?q (phys_mem p1)) (h\<lparr>pmm := p1\<rparr>)))"
    using run a unfolding large_alloc_def Let_def large_frames_def [symmetric] by (cases "b = 0") (simp_all add: trailer_def)
  have uq: "unat ?q = unat sz" using sz(1) by (simp add: unsigned_ucast_eq take_bit_nat_eq_self)
  have "heap_rep h' V \<and> memory h' = memory h" if b0: "b = 0"
  proof -
    have "p1 = pmm h" using pmm.alloc_none [OF D(4)] a b0 by simp
    then have "h' = h" using run' b0 by simp
    then show ?thesis using rep by simp
  qed
  moreover have "p \<noteq> 0 \<and> (\<exists>b. p = b + 24 \<and> heap_rep h' (V\<lparr>big := (big V)(b := Some (?n, ?q))\<rparr>) \<and> kept V (memory h) (memory h') \<and>
      big V b = None \<and> \<not> live V p n)" if b0: "b \<noteq> 0"
  proof -
    note fo = frames_ok_alloc [OF D(3) a b0]
    note r = frame_room [OF fo(4)]
    let ?m = "trailer b ?n ?q (phys_mem p1)" and ?V = "V\<lparr>big := (big V)(b := Some (?n, ?q))\<rparr>"
    have h': "p = b + 24" "pmm h' = p1\<lparr>phys_mem := ?m\<rparr>" "s_ready h' = s_ready h" "s_caches h' = s_caches h"
      using run' b0 by simp_all
    note t = trailer_fields [OF r, of ?m ?n ?q "phys_mem p1", OF refl]
    have none: "big V b = None"
    proof (rule ccontr)
      assume "big V b \<noteq> None"
      then obtain r where r: "big V b = Some r" by blast
      have "0 < fst r" using D(9) [OF r] by (cases r) (auto simp: big_rep_def word_less_nat_alt)
      then show False using fo(7) [OF heldI(2) [OF r]] by simp
    qed
    have "region b 24 \<subseteq> area (b, ?n)" unfolding area_def using lf(2) by (simp add: region_mono)
    then have "a \<notin> region b 24" if "y \<in> held V" "a \<in> area y" for y a using fo(3) [OF that(1)] that(2) by blast
    then have keep: "\<forall>y \<in> held V. \<forall>a \<in> area y. ?m a = memory h a" using t(5) fo(6) by simp
    note sk = structures_kept [OF rep keep]
    have held: "held ?V = insert (b, ?n) (held V)" using none unfolding held_def by (auto split: if_splits)
    have newbig: "big_rep ?m b (?n, ?q)" using t b0 fo(4) lf sz(2) uq by (simp add: big_rep_def word_less_nat_alt)
    have "heap_rep h' ?V" unfolding heap_rep_def
    proof (intro conjI allI impI)
      show "s_ready h'" "length (s_caches h') = 8" using h' D(1,2) by simp_all
      show "frames_ok (pmm h') (held ?V)" unfolding held h'(2) frames_ok_memory by (rule fo(1))
      show "big_rep (memory h') b' r" if "big ?V b' = Some r" for b' r
        using sk(3) [of b' r] newbig that h'(2) by (simp split: if_splits)
      show "chains_ok h' ?V" unfolding chains_ok_def using sk(2) D(5,7,8) h'(2,4) by (simp add: disjoint_iff) blast
    qed
    moreover have "p \<noteq> 0" using h'(1) r no_wrap_offset [of b 4096 24] by auto
    moreover have "\<not> live V p n"
    proof
      assume l: "live V p n"
      obtain x where x: "x \<in> held V" "region p n \<subseteq> area x" using live_area [OF rep l] by blast
      have "0 < n"
      proof (cases rule: live_cases [OF rep l])
        case (1 i s k)
        then show ?thesis using classD(1) [OF 1(1)] by simp
      next
        case (2 b' r)
        then show ?thesis using D(9) [OF 2(1)] by (cases r) (simp add: big_rep_def word_less_nat_alt)
      qed
      then have "p \<in> area x" using x(2) by (auto simp: region_def)
      moreover have "p \<in> area (b, ?n)" using no_wrap_offset [of b 4096 24] r lf(2) h'(1) by (simp add: area_def region_def)
      ultimately show False using fo(3) [OF x(1)] by blast
    qed
    ultimately show ?thesis using h'(1) sk(4) none h'(2) by (intro conjI exI [of _ b]) simp_all
  qed
  ultimately show "p = 0 \<Longrightarrow> heap_rep h' V \<and> memory h' = memory h"
    "p \<noteq> 0 \<Longrightarrow> \<exists>b. p = b + 24 \<and> heap_rep h' (V\<lparr>big := (big V)(b := Some (?n, ?q))\<rparr>) \<and> kept V (memory h) (memory h') \<and>
      big V b = None \<and> \<not> live V p n"
    using run' by (cases "b = 0"; simp)+
qed

lemma free_frames_mem: "pmm_free_frames a n p = Some p1 \<Longrightarrow> phys_mem p1 = phys_mem p"
proof -
  have one: "phys_mem q1 = phys_mem q" if "pmm_free_frame a q = Some q1" for a q q1
    using that by (auto simp: pmm_free_frame_def Let_def frame_mark_free_def set_refcount_def split: if_splits)
  have each: "free_each as q = Some q1 \<Longrightarrow> phys_mem q1 = phys_mem q" for as q q1
    by (induction as arbitrary: q) (auto simp: one split: option.splits)
  assume "pmm_free_frames a n p = Some p1"
  then show ?thesis unfolding pmm_free_frames_def by (rule each)
qed

lemma page_of_large: "heap_rep h V \<Longrightarrow> big V b = Some r \<Longrightarrow> page_of (b + 24) = b"
proof -
  assume h: "heap_rep h V" "big V b = Some r"
  then have f: "frame_address b" using heap_repD(9) [OF h] by (cases r) (simp add: big_rep_def)
  show ?thesis by (rule page_of_page [OF f, of _ 24]) (use no_wrap_offset [of b 4096 24] frame_room [OF f] in simp_all)
qed

lemma free_large_ok:
  assumes rep: "heap_rep h V" and b: "big V b = Some r"
  defines "V' \<equiv> V\<lparr>big := (big V)(b := None)\<rparr>"
  obtains h' where "kfree (b + 24) h = Some h'" "heap_rep h' V'" "\<And>q n. live V' q n \<longleftrightarrow> live V q n \<and> q \<noteq> b + 24" "kept V' (memory h) (memory h')"
proof -
  note D = heap_repD [OF rep]
  obtain n q where rr: "r = (n, q)" by (cases r)
  have br: "b \<noteq> 0" "frame_address b" "2 \<le> unat n" "unat q + 24 \<le> unat n * 4096" "0 < q" "trailer_magic (memory h) b = LARGE_MAGIC"
    "trailer_base (memory h) b = b" "trailer_frame_count (memory h) b = n"
    using D(9) [OF b] by (simp_all add: big_rep_def rr)
  note r = frame_room [OF br(2)]
  let ?m = "put64 b 0 (memory h)"
  let ?h1 = "count_free_alloc (set_memory ?m h)"
  have own: "\<forall>g \<in> block b n. frame_owned (pmm h) g" and fo: "frames_ok (pmm h) (held V)" and inv: "pmm_inv (pmm ?h1)"
    using D(3,4) heldI(2) [OF b] by (auto simp: frames_ok_def rr)
  have "0 < n" using br(3) by (simp add: word_less_nat_alt)
  from pmm.free_block [OF inv this br(2)] own obtain p where p: "pmm_free_frames b n (pmm ?h1) = Some p" "pmm_inv p"
    "\<And>g. frame_owned p g \<longleftrightarrow> g \<notin> block b n \<and> frame_owned (pmm h) g"
    by auto
  define h' where "h' = ?h1\<lparr>pmm := p\<rparr>"
  have "b + 24 \<noteq> 0" using r no_wrap_offset [of b 4096 24] by auto
  then have run: "kfree (b + 24) h = Some h'"
    using br(6-8) page_of_large [OF rep b] p(1) by (simp add: kfree_def Let_def trailer_of_def h'_def)
  have h': "memory h' = ?m" "s_caches h' = s_caches h" "s_ready h' = s_ready h" "pmm h' = p"
    using free_frames_mem [OF p(1)] by (simp_all add: h'_def)
  have out: "?m a = memory h a" if "a \<notin> area (b, n)" for a
  proof -
    have "a \<notin> region b 8" using that br(3) by (auto simp: area_def region_def)
    then show ?thesis using r by (intro put_word_outside(1)) simp_all
  qed
  have held: "held V = insert (b, n) (held V')" "(b, n) \<notin> held V'"
  proof -
    show "held V = insert (b, n) (held V')" using b rr unfolding held_def V'_def by (auto split: if_splits)
    show "(b, n) \<notin> held V'"
      using big_page_clash [OF rep b] heldI unfolding held_def V'_def rr by auto
  qed
  have keep: "?m a = memory h a" if "y \<in> held V'" "a \<in> area y" for y a
  proof -
    have "y \<noteq> (b, n)" "y \<in> held V" "(b, n) \<in> held V" using held that(1) by auto
    then have "area y \<inter> area (b, n) = {}" using areas_apart [OF fo] by blast
    then show ?thesis using out that(2) by blast
  qed
  have fo': "frames_ok (pmm h') (held V')"
    unfolding frames_ok_def h'(4)
  proof (intro conjI ballI impI)
    show "pmm_inv p" by (rule p(2))
    fix x assume x: "x \<in> held V'"
    then have xb: "x \<noteq> (b, n)" "x \<in> held V" "(b, n) \<in> held V" using held by auto
    show "frame_address (fst x)" using fo xb(2) by (simp add: frames_ok_def)
    show "frame_owned p g" if "g \<in> block (fst x) (snd x)" for g
    proof -
      have "block (fst x) (snd x) \<inter> block b n = {}" using fo xb unfolding frames_ok_def by fastforce
      then show ?thesis using p(3) that fo xb(2) unfolding frames_ok_def by blast
    qed
    show "block (fst x) (snd x) \<inter> block (fst y) (snd y) = {}" if "y \<in> held V'" "x \<noteq> y" for y
      using fo xb(2) held that unfolding frames_ok_def by blast
  qed
  have sub: "y \<in> held V' \<Longrightarrow> y \<in> held V" for y using held by blast
  have chains: "slab_chain ?m i (frees V) (chain V i)" if "i < 8" for i
  proof (rule slab_chain_mono [OF D(6) [OF that]])
    fix s nx assume s: "s \<in> set (chain V i)" "slab_rep (memory h) i s nx (frees V s)"
    show "slab_rep ?m i s nx (frees V s)"
      by (rule slab_rep_page [OF s(2) that]) (use keep heldI(1) [OF that, of s V'] s(1) in \<open>auto simp: V'_def\<close>)
  qed
  have bigs: "big_rep ?m b' r'" if b': "big V' b' = Some r'" for b' r'
  proof -
    have bv: "big V b' = Some r'" using b' by (auto simp: V'_def split: if_splits)
    have "?m a = memory h a" if "a \<in> region b' 24" for a
      using big_front [OF D(9) [OF bv]] keep [OF heldI(2) [OF b']] that by blast
    then show ?thesis using big_rep_area [OF D(9) [OF bv]] big_room [OF rep bv] by simp
  qed
  have rep': "heap_rep h' V'" unfolding heap_rep_def
  proof (intro conjI allI impI)
    show "s_ready h'" "length (s_caches h') = 8" using h' D(1,2) by simp_all
    show "chains_ok h' V'" unfolding chains_ok_def using chains D(5,7,8) h'(1,2) by (simp add: disjoint_iff V'_def) blast
  qed (use bigs h'(1) fo' in auto)
  have live: "live V' q' n' \<longleftrightarrow> live V q' n' \<and> q' \<noteq> b + 24" for q' n'
  proof
    assume l: "live V' q' n'"
    then have l': "live V q' n'" unfolding live_def V'_def by (auto split: if_splits)
    moreover have "q' \<noteq> b + 24"
    proof
      assume e: "q' = b + 24"
      show False
      proof (cases rule: live_cases [OF rep' l])
        case (1 i s k)
        have "q' \<in> area (s, 1)" using 1(6-8) classD(1) [OF 1(1)] by (simp add: area_def region_def)
        moreover have "q' \<in> area (b, n)" using e no_wrap_offset [of b 4096 24] r br(3) by (simp add: area_def region_def)
        moreover have "(s, 1) \<in> held V'" using heldI(1) [OF 1(1,2)] .
        ultimately show False using areas_apart [OF fo sub [OF \<open>(s, 1) \<in> held V'\<close>], of "(b, n)"] held by auto
      next
        case (2 b' r')
        then show False using e by (simp add: V'_def split: if_splits)
      qed
    qed
    ultimately show "live V q' n' \<and> q' \<noteq> b + 24" by simp
  next
    assume "live V q' n' \<and> q' \<noteq> b + 24"
    then show "live V' q' n'" unfolding live_def V'_def by auto
  qed
  have "kept V' (memory h) (memory h')" unfolding kept_def
  proof (intro allI impI)
    fix q' n' assume l: "live V' q' n'"
    obtain x where x: "x \<in> held V'" "region q' n' \<subseteq> area x" using live_area [OF rep' l] by blast
    show "bytes_at (memory h') q' n' = bytes_at (memory h) q' n'"
    proof (rule live_bytes [OF rep])
      show "live V q' n'" using l live by simp
      show "memory h' a = memory h a" if "a \<in> region q' n'" for a using keep [OF x(1)] x(2) that h'(1) by auto
    qed
  qed
  then show thesis using that run rep' live by blast
qed

section \<open>Allocating\<close>

definition same_live :: "heap_view \<Rightarrow> heap_view \<Rightarrow> bool" where
  "same_live V V' \<longleftrightarrow> (\<forall>q n. live V' q n \<longleftrightarrow> live V q n)"

lemma kept_live: "same_live V V' \<Longrightarrow> kept V' m m' = kept V m m'"
  by (simp add: kept_def same_live_def)

lemma kept_further: "kept V m m1 \<Longrightarrow> kept V m1 m2 \<Longrightarrow> kept V m m2"
  by (simp add: kept_def)

lemma kept_same [simp]: "kept V m m"
  by (simp add: kept_def)

lemma node_0: "slab_rep m i s nx fl \<Longrightarrow> i < 8 \<Longrightarrow> node i s fl = 0 \<longleftrightarrow> fl = []"
proof (cases fl)
  case (Cons k ks)
  assume rep: "slab_rep m i s nx fl" and i: "i < 8"
  have r: "unat s + 4096 \<le> 2 ^ 64" and k: "k < cap i" using slab_repD [OF rep] Cons by auto
  have "unat (obj i s k) \<noteq> 0" using unat_slot(2) [OF r i _ k] k by simp
  then have "obj i s k \<noteq> 0" by (metis unat_0)
  then show ?thesis using Cons by (simp add: node_def)
qed (simp add: node_def)

lemma ensure_ok:
  assumes rep: "heap_rep h V" and i: "i < 8" and run: "ensure_slab i h = (ready, h1)"
  shows "\<not> ready \<Longrightarrow> heap_rep h1 V \<and> memory h1 = memory h"
    "ready \<Longrightarrow> \<exists>V1 s ss k fl. heap_rep h1 V1 \<and> kept V (memory h) (memory h1) \<and> same_live V V1 \<and> chain V1 i = s # ss \<and> frees V1 s = k # fl"
proof -
  note D = heap_repD [OF rep]
  let ?head = "slabs (s_caches h ! i)"
  let ?new = "?head = 0 \<or> slab_free_list (memory h) ?head = 0"
  obtain slab h0 where c: "slab_create i h = (slab, h0)" by fastforce
  have one: "\<not> ready \<and> heap_rep h1 V \<and> memory h1 = memory h" if new: ?new and z: "slab = 0"
  proof -
    obtain p where p: "pmm_alloc_frame_z (pmm h) = (0, p)"
      using c z slab_create_eq [of h _ _ i] by (cases "pmm_alloc_frame_z (pmm h)") (auto split: if_splits)
    have "p = pmm h" by (rule alloc_z_none [OF D(4) p])
    then have "h0 = h" using c slab_create_eq [OF p, of i] by simp
    then show ?thesis using run new z c rep by (simp add: ensure_slab_def Let_def)
  qed
  have two: "ready \<and> (\<exists>V1 s ss k fl. heap_rep h1 V1 \<and> kept V (memory h) (memory h1) \<and> same_live V V1 \<and> chain V1 i = s # ss \<and> frees V1 s = k # fl)"
    if new: ?new and z: "slab \<noteq> 0"
  proof -
    let ?V = "V\<lparr>chain := (chain V)(i := slab # chain V i), frees := (frees V)(slab := [0..<cap i])\<rparr>"
    have h1: "ready \<and> h1 = update_cache i (\<lambda>c. c\<lparr>slabs := slab, slab_count := slab_count c + 1\<rparr>)
        (set_memory (put64 (slab + 8) (slabs (s_caches h0 ! i)) (memory h0)) h0)"
      using run new z c by (auto simp: ensure_slab_def Let_def)
    note a = add_slab_ok [OF rep i c z]
    have "[0..<cap i] = 0 # [1..<cap i]" using classD(4) [OF i] by (simp add: upt_conv_Cons)
    then have "chain ?V i = slab # chain V i \<and> frees ?V slab = 0 # [1..<cap i]" by simp
    moreover have "same_live V ?V" using a(3) by (simp add: same_live_def)
    ultimately show ?thesis using h1 a(1,2) by blast
  qed
  have three: "ready \<and> (\<exists>V1 s ss k fl. heap_rep h1 V1 \<and> kept V (memory h) (memory h1) \<and> same_live V V1 \<and> chain V1 i = s # ss \<and> frees V1 s = k # fl)"
    if old: "\<not> ?new"
  proof -
    have h1: "ready \<and> h1 = h" using run old by (simp add: ensure_slab_def Let_def)
    obtain s ss where ch: "chain V i = s # ss" using old D(5) [OF i] by (cases "chain V i") (auto simp: first_of_def)
    obtain nx where sr: "slab_rep (memory h) i s nx (frees V s)" using slab_at [OF rep i, of s] ch by auto
    have "slab_free_list (memory h) s = node i s (frees V s)" using sr by (simp add: slab_rep_def)
    then have "frees V s \<noteq> []" using old D(5) [OF i] ch node_0 [OF sr i] by (auto simp: first_of_def)
    then show ?thesis using h1 rep ch by (cases "frees V s") (auto simp: same_live_def intro!: exI [of _ V])
  qed
  show "\<not> ready \<Longrightarrow> heap_rep h1 V \<and> memory h1 = memory h"
    "ready \<Longrightarrow> \<exists>V1 s ss k fl. heap_rep h1 V1 \<and> kept V (memory h) (memory h1) \<and> same_live V V1 \<and> chain V1 i = s # ss \<and> frees V1 s = k # fl"
    using one two three by blast+
qed

definition adds :: "heap_view \<Rightarrow> u64 \<Rightarrow> nat \<Rightarrow> heap_view \<Rightarrow> bool" where
  "adds V p k V' \<longleftrightarrow> (\<forall>q n. live V' q n \<longleftrightarrow> live V q n \<or> q = p \<and> n = k) \<and> (\<forall>n. \<not> live V p n)"

lemma class_for_size_ok: "class_for_size n = Some i \<Longrightarrow> i < 8 \<and> unat n \<le> class_size i"
proof -
  assume "class_for_size n = Some i"
  then have i: "i < 8" "n \<le> ucast (k_class_sizes ! i)" using find_SomeD [of _ "[0..<8]" i] by (auto simp: class_for_size_def)
  have "unat (of_nat (class_size i) :: u64) = class_size i" using classD(2) [OF i(1)] by (simp add: unat_of_nat)
  then show ?thesis using i classD(7) [OF i(1)] by (simp add: word_le_nat_alt)
qed

lemma kmalloc_ok:
  assumes rep: "heap_rep h V" and n: "unat n < 2 ^ 32"
  obtains p h' V' where "kmalloc n h = Some (p, h')" "heap_rep h' V'" "kept V (memory h) (memory h')"
    "p = 0 \<Longrightarrow> same_live V V'" "p \<noteq> 0 \<Longrightarrow> \<exists>k. unat n \<le> k \<and> adds V p k V'"
proof -
  note D = heap_repD [OF rep]
  define sz where "sz = (if n = 0 then 1 else n)"
  have sz: "unat sz < 2 ^ 32" "0 < unat sz" "unat n \<le> unat sz" using n by (auto simp: sz_def unat_gt_0)
  show thesis
  proof (cases "class_for_size sz")
    case None
    obtain p h1 where l: "large_alloc sz 8 h = (p, h1)" by fastforce
    note la = large_alloc_ok [OF rep sz(1,2) l]
    have run: "kmalloc n h = Some (if p \<noteq> 0 then (p, count_alloc sz h1) else (0, h1))"
      using D(1) None l by (simp add: kmalloc_def sz_def [symmetric])
    show thesis
    proof (cases "p = 0")
      case True
      then show thesis using that [of 0 h1 V] run la(1) by (simp add: same_live_def)
    next
      case False
      obtain b where b: "p = b + 24" "heap_rep h1 (V\<lparr>big := (big V)(b := Some (large_frames sz, ucast sz))\<rparr>)" "kept V (memory h) (memory h1)"
          "big V b = None" using la(2) [OF False] by blast
      let ?V = "V\<lparr>big := (big V)(b := Some (large_frames sz, ucast sz))\<rparr>"
      have uq: "unat (ucast sz :: u32) = unat sz" using sz(1) by (simp add: unsigned_ucast_eq take_bit_nat_eq_self)
      have "live ?V q m \<longleftrightarrow> live V q m \<or> q = p \<and> m = unat sz" for q m
      proof
        assume "live ?V q m"
        then show "live V q m \<or> q = p \<and> m = unat sz" unfolding live_def using b(1) uq by (auto split: if_splits)
      next
        assume l: "live V q m \<or> q = p \<and> m = unat sz"
        show "live ?V q m"
        proof (cases "live V q m")
          case True
          show ?thesis
          proof (cases rule: live_cases [OF rep True])
            case (1 i s k)
            then show ?thesis using live_slabI [of i s ?V k] by simp
          next
            case (2 b' r)
            then have "big ?V b' = Some r" using b(4) by auto
            then show ?thesis using live_bigI [of ?V b' r] 2 by simp
          qed
        next
          case False
          then show ?thesis using l live_bigI [of ?V b "(large_frames sz, ucast sz)"] b(1) uq by simp
        qed
      qed
      moreover have "\<not> live V p m" for m using large_alloc_ok(2) [OF rep sz(1,2) l False] by blast
      ultimately have "adds V p (unat sz) ?V" by (simp add: adds_def)
      then show thesis using that [of p "count_alloc sz h1" ?V] run b False sz(3) by auto
    qed
  next
    case (Some i)
    note i = class_for_size_ok [OF Some]
    obtain ready h1 where e: "ensure_slab i h = (ready, h1)" by fastforce
    note en = ensure_ok [OF rep conjunct1 [OF i] e]
    show thesis
    proof (cases ready)
      case False
      then have "kmalloc n h = Some (0, h1)" using D(1) Some e by (simp add: kmalloc_def sz_def [symmetric])
      then show thesis using that [of 0 h1 V] en(1) [OF False] by (simp add: same_live_def)
    next
      case True
      obtain V1 s ss k fl where v: "heap_rep h1 V1" "kept V (memory h) (memory h1)" "same_live V V1" "chain V1 i = s # ss" "frees V1 s = k # fl"
        using en(2) [OF True] by blast
      have s: "s \<in> set (chain V1 i)" using v(4) by simp
      have head: "slabs (s_caches h1 ! i) = s" using heap_repD(5) [OF v(1)] i v(4) by (simp add: first_of_def)
      obtain nx where sr: "slab_rep (memory h1) i s nx (frees V1 s)" using slab_at [OF v(1) conjunct1 [OF i] s] by blast
      have fl: "slab_free_list (memory h1) s \<noteq> 0" using sr node_0 [OF sr] i v(5) by (simp add: slab_rep_def)
      obtain p h2 where t: "take_object i s h1 = (p, h2)" by fastforce
      note tk = take_ok [OF v(1) conjunct1 [OF i] s v(5) t]
      have run: "kmalloc n h = Some (p, count_alloc sz h2)"
        using D(1) Some e True head fl t by (simp add: kmalloc_def sz_def [symmetric] Let_def)
      let ?V = "V1\<lparr>frees := (frees V1)(s := fl)\<rparr>"
      have "adds V p (class_size i) ?V" using tk(4,5) v(3) by (simp add: adds_def same_live_def)
      moreover have "kept V (memory h) (memory (count_alloc sz h2))"
        using kept_further [OF v(2)] tk(3) kept_live [OF v(3)] by simp
      moreover have "p \<noteq> 0"
      proof -
        have "node i s (frees V1 s) = p" using v(5) tk(2) by (simp add: node_def)
        then show ?thesis using node_0 [OF sr] i v(5) by simp
      qed
      moreover have "unat n \<le> class_size i" using i sz(3) by simp
      ultimately show thesis using that [of p "count_alloc sz h2" ?V] run tk(1) heap_rep_count(2) by blast
    qed
  qed
qed

lemma kfree_ok:
  assumes rep: "heap_rep h V" and l: "live V p k"
  obtains h' V' where "kfree p h = Some h'" "heap_rep h' V'" "\<And>q n. live V' q n \<longleftrightarrow> live V q n \<and> q \<noteq> p" "kept V' (memory h) (memory h')"
proof (cases rule: live_cases [OF rep l])
  case (1 i s j)
  then show thesis using free_object_ok [OF rep 1(1-4)] that by metis
next
  case (2 b r)
  then show thesis using free_large_ok [OF rep 2(1)] that by metis
qed

section \<open>Writing to a block, and its size\<close>

lemma usable_ok: "heap_rep h V \<Longrightarrow> live V p k \<Longrightarrow> unat (kmalloc_usable_size p h) = k \<and> p \<noteq> 0"
proof -
  assume rep: "heap_rep h V" and l: "live V p k"
  show ?thesis
  proof (cases rule: live_cases [OF rep l])
    case (1 i s j)
    obtain nx where sr: "slab_rep (memory h) i s nx (frees V s)" "unat s + 4096 \<le> 2 ^ 64" using slab_at [OF rep 1(1,2)] by metis
    have "page_of p = s" using free_memory(1) [OF sr(1) 1(1,3,4)] 1(5) by simp
    moreover have "p \<noteq> 0" using 1(7) by (metis add_is_0 unat_0 zero_neq_numeral)
    ultimately have "kmalloc_usable_size p h = ucast (k_class_sizes ! i)" using sr(1) by (simp add: kmalloc_usable_size_def Let_def slab_rep_def)
    also have "\<dots> = of_nat (class_size i)" by (rule classD(7) [OF 1(1)])
    finally show ?thesis using \<open>p \<noteq> 0\<close> 1(6) classD(2) [OF 1(1)] by (simp add: unat_of_nat)
  next
    case (2 b r)
    have br: "trailer_magic (memory h) b = LARGE_MAGIC" "trailer_requested (memory h) b = snd r"
      using heap_repD(9) [OF rep 2(1)] by (cases r, simp add: big_rep_def)+
    have "p \<noteq> 0" using 2(4) by (metis add_is_0 unat_0 zero_neq_numeral)
    then have "kmalloc_usable_size p h = ucast (snd r)"
      using br page_of_large [OF rep 2(1)] 2(2) by (simp add: kmalloc_usable_size_def Let_def trailer_of_def)
    then show ?thesis using \<open>p \<noteq> 0\<close> 2(3) unat_bound [of "snd r"] by (simp add: unsigned_ucast_eq take_bit_nat_eq_self)
  qed
qed

text \<open>A caller may write anywhere in a block it holds.\<close>

lemma write_ok:
  assumes rep: "heap_rep h V" and l: "live V p k" and m': "\<And>a. a \<notin> region p k \<Longrightarrow> m' a = memory h a"
  shows "heap_rep (set_memory m' h) V" "live V q n \<Longrightarrow> q \<noteq> p \<Longrightarrow> bytes_at m' q n = bytes_at (memory h) q n"
proof -
  note D = heap_repD [OF rep]
  have "heap_rep (set_memory m' h) (V\<lparr>frees := frees V\<rparr>)"
  proof (cases rule: live_cases [OF rep l])
    case (1 i s j)
    show ?thesis
    proof (rule heap_rep_write [OF rep heldI(1) [OF 1(1,2)], where m' = m'])
      fix a assume "a \<notin> area (s, 1)"
      then show "m' a = memory h a" using 1(7,8) by (intro m') (auto simp: area_def region_def)
    next
      fix i' s' nx assume a: "i' < 8" "s' \<in> set (chain V i')" "(s, 1) = (s', 1 :: u32)" "slab_rep (memory h) i' s' nx (frees V s')"
      then have e: "s' = s" "i' = i" using D(8) [OF a(1) 1(1)] 1(2) by auto
      have sub: "set (frees V s) \<subseteq> {..<cap i}" using slab_repD [OF a(4)] e by simp
      show "slab_rep m' i' s' nx (frees V s')" unfolding e
      proof (rule slab_rep_agree [OF _ 1(1)])
        show "slab_rep (memory h) i s nx (frees V s)" using a(4) e by simp
        fix x assume x: "x \<in> meta i s (frees V s)"
        have sd: "stride i = k + 8" "16 \<le> k" using classD [OF 1(1)] 1(6) by simp_all
        have "x \<notin> region p k" using x unfolding meta_def
        proof (elim UnE UN_E)
          assume "x \<in> region s 40"
          then show ?thesis using 1(7) by (auto simp: region_def)
        next
          fix j' assume j': "j' \<in> set (frees V s)" "x \<in> region (obj i s j') 8"
          then have "j' < cap i" "j' \<noteq> j" using sub 1(4) by auto
          then show ?thesis using obj_region_other [OF 1(9,1) _ 1(3), of j'] j'(2) 1(5) sd by (auto simp: region_def)
        next
          fix j' assume j': "j' \<in> {..cap i}" "x \<in> region (band i s j') 8"
          then show ?thesis using obj_band_apart [OF 1(9,1,3), of j'] 1(5,6) by (auto simp: region_def)
        qed
        then show "m' x = memory h x" by (rule m')
      qed
    qed (use big_page_clash [OF rep] D(1,2) in auto)
  next
    case (2 b r)
    show ?thesis
    proof (rule heap_rep_write [OF rep heldI(2) [OF 2(1)], where m' = m'])
      fix a assume "a \<notin> area (b, fst r)"
      then show "m' a = memory h a" using 2(4,5) by (intro m') (auto simp: area_def region_def)
    next
      fix b' r' assume a: "big V b' = Some r'" "(b, fst r) = (b', fst r')"
      have "m' x = memory h x" if "x \<in> region b' 24" for x using that a 2(4) by (intro m') (auto simp: region_def)
      then show "big_rep m' b' r'" using big_rep_area [OF D(9) [OF a(1)]] big_room [OF rep a(1)] by simp
    qed (use big_page_clash [OF rep 2(1)] D(1,2) in auto)
  qed
  then show "heap_rep (set_memory m' h) V" by simp
  show "bytes_at m' q n = bytes_at (memory h) q n" if "live V q n" "q \<noteq> p"
    by (rule live_bytes [OF rep that(1)]) (use live_apart(1) [OF rep that(1) l that(2)] m' in blast)
qed

section \<open>The integrity check\<close>

lemma free_nodes_ok:
  "links m i s fl \<Longrightarrow> (\<And>k. k \<in> set fl \<Longrightarrow> obj i s k \<noteq> 0) \<Longrightarrow> length fl \<le> room \<Longrightarrow> free_nodes room m (node i s fl) = Some (length fl)"
proof (induction fl arbitrary: room)
  case Nil
  then show ?case by (cases room) (simp_all add: node_def)
next
  case (Cons k fl)
  then obtain r where "room = Suc r" by (cases room) auto
  then show ?case using Cons by (simp add: node_def [of i s "k # fl"])
qed

lemma check_slab_ok:
  assumes rep: "slab_rep m i s nx fl" and i: "i < 8"
  shows "check_slab i m s"
proof -
  have r: "unat s + 4096 \<le> 2 ^ 64" and fl: "set fl \<subseteq> {..<cap i}" "distinct fl" "links m i s fl" using slab_repD [OF rep] rep by (auto simp: slab_rep_def)
  have l: "length fl \<le> cap i" using card_mono [OF _ fl(1)] distinct_card [OF fl(2)] by simp
  have "obj i s k \<noteq> 0" if "k \<in> set fl" for k
  proof -
    have "k < cap i" using fl(1) that by auto
    then have "unat (obj i s k) \<noteq> 0" using unat_slot(2) [OF r i, of k] by simp
    then show ?thesis by (metis unat_0)
  qed
  note f = free_nodes_ok [OF fl(3) this l]
  have "of_nat (length fl) = (of_nat (cap i) - of_nat (cap i - length fl) :: u32)" using l by (simp add: of_nat_diff)
  then show ?thesis using rep f classD(10,11) [OF i] unfolding check_slab_def slab_rep_def by simp
qed

lemma check_slabs_ok: "slab_chain m i fr ss \<Longrightarrow> i < 8 \<Longrightarrow> check_slabs i m (first_of ss) = Some True"
proof (induction ss)
  case Nil
  then show ?case by (subst check_slabs.simps) (simp add: first_of_def)
next
  case (Cons s ss)
  then have rep: "slab_rep m i s (first_of ss) (fr s)" by simp
  then have "slab_next m s = first_of ss" "s \<noteq> 0" by (simp_all add: slab_rep_def)
  then show ?case using Cons check_slab_ok [OF rep] by (subst check_slabs.simps) (simp add: first_of_def [of "s # ss"])
qed

lemma heap_check_ok: "heap_rep h V \<Longrightarrow> heap_check h = Some AF_OK"
proof -
  assume rep: "heap_rep h V"
  have "check_classes is h = Some AF_OK" if "set is \<subseteq> {..<8}" for "is"
    using that
  proof (induction "is")
    case (Cons i "is")
    then show ?case using check_slabs_ok [OF heap_repD(6) [OF rep], of i] heap_repD(5) [OF rep, of i] by simp
  qed simp
  from this [of "[0..<8]"] show ?thesis by (simp add: heap_check_def atLeast0LessThan)
qed

section \<open>The contract of a block allocator\<close>

text \<open>
  What a client may count on, with \<open>ok s L\<close>: in state \<open>s\<close> the blocks \<open>L\<close> are handed out, each with its size.
\<close>

locale block_allocator =
  fixes malloc :: "u64 \<Rightarrow> 's \<Rightarrow> (u64 \<times> 's) option" and free :: "u64 \<Rightarrow> 's \<Rightarrow> 's option"
    and peek :: "'s \<Rightarrow> u64 \<Rightarrow> u8" and poke :: "u64 \<Rightarrow> u8 \<Rightarrow> 's \<Rightarrow> 's" and ok :: "'s \<Rightarrow> (u64 \<Rightarrow> nat option) \<Rightarrow> bool"
  assumes malloc_law: "ok s L \<Longrightarrow> unat n < 2 ^ 32 \<Longrightarrow> \<exists>p s'. malloc n s = Some (p, s') \<and> (p = 0 \<longrightarrow> ok s' L) \<and>
      (p \<noteq> 0 \<longrightarrow> L p = None \<and> (\<exists>k \<ge> unat n. ok s' (L(p \<mapsto> k)))) \<and>
      (\<forall>q k j. L q = Some k \<longrightarrow> j < k \<longrightarrow> peek s' (q + of_nat j) = peek s (q + of_nat j))"
    and free_law: "ok s L \<Longrightarrow> L p = Some k \<Longrightarrow> \<exists>s'. free p s = Some s' \<and> ok s' (L(p := None)) \<and>
      (\<forall>q m j. q \<noteq> p \<longrightarrow> L q = Some m \<longrightarrow> j < m \<longrightarrow> peek s' (q + of_nat j) = peek s (q + of_nat j))"
    and poke_law: "ok s L \<Longrightarrow> L p = Some k \<Longrightarrow> j < k \<Longrightarrow> ok (poke (p + of_nat j) b s) L \<and>
      (\<forall>x. peek (poke (p + of_nat j) b s) x = (if x = p + of_nat j then b else peek s x))"
    and apart_law: "ok s L \<Longrightarrow> L p = Some k \<Longrightarrow> L q = Some m \<Longrightarrow> j < k \<Longrightarrow> l < m \<Longrightarrow> p + of_nat j = q + of_nat l \<Longrightarrow> p = q \<and> j = l"

text \<open>
  A client: it asks for blocks, gives them back and writes bytes into them. It remembers for each block
  it holds the address, the size it asked for and the bytes it has written.
\<close>

datatype heap_op = Alloc u64 | Release nat | Store nat nat u8

type_synonym held_block = "u64 \<times> nat \<times> (nat \<Rightarrow> u8 option)"

fun client :: "(u64 \<Rightarrow> 's \<Rightarrow> (u64 \<times> 's) option) \<Rightarrow> (u64 \<Rightarrow> 's \<Rightarrow> 's option) \<Rightarrow> (u64 \<Rightarrow> u8 \<Rightarrow> 's \<Rightarrow> 's) \<Rightarrow>
    heap_op list \<Rightarrow> held_block list \<times> 's \<Rightarrow> (held_block list \<times> 's) option" where
  "client malloc free poke [] (bs, s) = Some (bs, s)"
| "client malloc free poke (Alloc n # ops) (bs, s) =
     (case malloc n s of
        None \<Rightarrow> None
      | Some (p, s1) \<Rightarrow> client malloc free poke ops (if p = 0 then bs else (p, unat n, Map.empty) # bs, s1))"
| "client malloc free poke (Release k # ops) (bs, s) =
     (if k < length bs
      then case free (fst (bs ! k)) s of
          None \<Rightarrow> None
        | Some s1 \<Rightarrow> client malloc free poke ops (take k bs @ drop (Suc k) bs, s1)
      else client malloc free poke ops (bs, s))"
| "client malloc free poke (Store k j b # ops) (bs, s) =
     (if k < length bs \<and> j < fst (snd (bs ! k))
      then client malloc free poke ops
        (bs[k := (fst (bs ! k), fst (snd (bs ! k)), (snd (snd (bs ! k)))(j \<mapsto> b))], poke (fst (bs ! k) + of_nat j) b s)
      else client malloc free poke ops (bs, s))"

definition op_ok :: "heap_op \<Rightarrow> bool" where
  "op_ok op = (case op of Alloc n \<Rightarrow> unat n < 2 ^ 32 | _ \<Rightarrow> True)"

lemma distinct_fst: "distinct (map fst xs) \<Longrightarrow> i < length xs \<Longrightarrow> j < length xs \<Longrightarrow> fst (xs ! i) = fst (xs ! j) \<Longrightarrow> i = j"
  using nth_eq_iff_index_eq [of "map fst xs" i j] by simp

context block_allocator
begin

definition backed :: "held_block list \<Rightarrow> 's \<Rightarrow> (u64 \<Rightarrow> nat option) \<Rightarrow> bool" where
  "backed bs s L \<longleftrightarrow> ok s L \<and> distinct (map fst bs) \<and> (\<forall>(p, n, d) \<in> set bs. \<exists>k \<ge> n. L p = Some k \<and>
     (\<forall>j b. d j = Some b \<longrightarrow> j < k \<and> peek s (p + of_nat j) = b))"

lemma backedD: "backed bs s L \<Longrightarrow> (p, n, d) \<in> set bs \<Longrightarrow> \<exists>k \<ge> n. L p = Some k \<and> (\<forall>j b. d j = Some b \<longrightarrow> j < k \<and> peek s (p + of_nat j) = b)"
  by (auto simp: backed_def)

lemma client_served:
  assumes "backed bs s L" "\<forall>op \<in> set ops. op_ok op"
  shows "\<exists>bs' s' L'. client malloc free poke ops (bs, s) = Some (bs', s') \<and> backed bs' s' L'"
  using assms
proof (induction ops arbitrary: bs s L)
  case Nil
  then show ?case by auto
next
  case (Cons op ops)
  have ok: "ok s L" and rest: "\<forall>op \<in> set ops. op_ok op" using Cons.prems by (auto simp: backed_def)
  show ?case
  proof (cases op)
    case (Alloc n)
    then have "unat n < 2 ^ 32" using Cons.prems(2) by (simp add: op_ok_def)
    from malloc_law [OF ok this] obtain p s1 where m: "malloc n s = Some (p, s1)" "p = 0 \<longrightarrow> ok s1 L"
      "p \<noteq> 0 \<longrightarrow> L p = None \<and> (\<exists>k \<ge> unat n. ok s1 (L(p \<mapsto> k)))"
      "\<And>q k j. L q = Some k \<Longrightarrow> j < k \<Longrightarrow> peek s1 (q + of_nat j) = peek s (q + of_nat j)" by blast
    show ?thesis
    proof (cases "p = 0")
      case True
      have "backed bs s1 L" using Cons.prems(1) m(2,4) True unfolding backed_def by fastforce
      then show ?thesis using Cons.IH rest m(1) True Alloc by simp
    next
      case False
      then obtain k where k: "unat n \<le> k" "ok s1 (L(p \<mapsto> k))" "L p = None" using m(3) by blast
      have new: "p \<notin> fst ` set bs" using backedD [OF Cons.prems(1)] k(3) by fastforce
      have "backed ((p, unat n, Map.empty) # bs) s1 (L(p \<mapsto> k))"
        unfolding backed_def
      proof (intro conjI ballI)
        show "ok s1 (L(p \<mapsto> k))" "distinct (map fst ((p, unat n, Map.empty) # bs))" using k(2) new Cons.prems(1) by (simp_all add: backed_def)
        fix x assume x: "x \<in> set ((p, unat n, Map.empty) # bs)"
        show "case x of (q, n, d) \<Rightarrow> \<exists>m \<ge> n. (L(p \<mapsto> k)) q = Some m \<and> (\<forall>j b. d j = Some b \<longrightarrow> j < m \<and> peek s1 (q + of_nat j) = b)"
        proof (cases "x = (p, unat n, Map.empty)")
          case False
          obtain q n' d where xe: "x = (q, n', d)" by (cases x)
          then have b: "(q, n', d) \<in> set bs" using x False by (metis set_ConsD)
          obtain m' where m': "n' \<le> m'" "L q = Some m'" "\<forall>j b. d j = Some b \<longrightarrow> j < m' \<and> peek s (q + of_nat j) = b"
            using backedD [OF Cons.prems(1) b] by blast
          have "q \<noteq> p" using m'(2) k(3) by auto
          then show ?thesis using m' m(4) [OF m'(2)] xe by auto
        qed (use k in auto)
      qed
      then show ?thesis using Cons.IH [OF _ rest] m(1) False Alloc by simp
    qed
  next
    case (Release i)
    show ?thesis
    proof (cases "i < length bs")
      case True
      define bs1 where "bs1 = take i bs @ drop (Suc i) bs"
      obtain p n d where b: "bs ! i = (p, n, d)" by (cases "bs ! i")
      have "(p, n, d) \<in> set bs" using True b nth_mem by metis
      then obtain k where k: "L p = Some k" using backedD [OF Cons.prems(1)] by blast
      from free_law [OF ok k] obtain s1 where s1: "free p s = Some s1" "ok s1 (L(p := None))"
        "\<And>q m j. q \<noteq> p \<Longrightarrow> L q = Some m \<Longrightarrow> j < m \<Longrightarrow> peek s1 (q + of_nat j) = peek s (q + of_nat j)" by blast
      have split: "bs = take i bs @ bs ! i # drop (Suc i) bs" using id_take_nth_drop [OF True] .
      have dist: "distinct (map fst bs)" using Cons.prems(1) by (simp add: backed_def)
      have d1: "distinct (map fst bs1)" "p \<notin> fst ` set bs1"
      proof -
        have "distinct (map fst (take i bs @ bs ! i # drop (Suc i) bs))" using dist split by simp
        then show "distinct (map fst bs1)" "p \<notin> fst ` set bs1" using b by (auto simp: bs1_def)
      qed
      have sub: "set bs1 \<subseteq> set bs" unfolding bs1_def by (metis le_sup_iff set_append set_drop_subset set_take_subset)
      have "backed bs1 s1 (L(p := None))" unfolding backed_def
      proof (intro conjI ballI)
        fix x assume x: "x \<in> set bs1"
        obtain q n' d' where xe: "x = (q, n', d')" by (cases x)
        have "q \<noteq> p" using d1(2) x xe by force
        moreover obtain m' where m': "n' \<le> m'" "L q = Some m'" "\<forall>j b. d' j = Some b \<longrightarrow> j < m' \<and> peek s (q + of_nat j) = b"
          using backedD [OF Cons.prems(1)] x xe sub by blast
        ultimately show "case x of (q, n, d) \<Rightarrow> \<exists>m \<ge> n. (L(p := None)) q = Some m \<and> (\<forall>j b. d j = Some b \<longrightarrow> j < m \<and> peek s1 (q + of_nat j) = b)"
          using s1(3) xe by auto
      qed (use s1(2) d1 in auto)
      then show ?thesis using Cons.IH [OF _ rest] s1(1) True Release b by (simp add: bs1_def)
    qed (use Cons.IH [OF Cons.prems(1) rest] Release in simp)
  next
    case (Store i j b)
    show ?thesis
    proof (cases "i < length bs \<and> j < fst (snd (bs ! i))")
      case True
      obtain p n d where e: "bs ! i = (p, n, d)" by (cases "bs ! i")
      have mem: "(p, n, d) \<in> set bs" using True e nth_mem by metis
      obtain k where k: "n \<le> k" "L p = Some k" "\<forall>j b. d j = Some b \<longrightarrow> j < k \<and> peek s (p + of_nat j) = b"
        using backedD [OF Cons.prems(1) mem] by blast
      have jk: "j < k" using True e k(1) by simp
      note w = poke_law [OF ok k(2) jk, of b]
      let ?s = "poke (p + of_nat j) b s" and ?bs = "bs[i := (p, n, d(j \<mapsto> b))]"
      have dist: "distinct (map fst bs)" using Cons.prems(1) by (simp add: backed_def)
      have fsts: "map fst ?bs = map fst bs" using True e by (simp add: map_update list_update_same_conv)
      have "backed ?bs ?s L" unfolding backed_def
      proof (intro conjI ballI)
        show "ok ?s L" using w by blast
        show "distinct (map fst ?bs)" unfolding fsts by (rule dist)
        fix x assume "x \<in> set ?bs"
        then obtain l where l: "l < length bs" "x = ?bs ! l" by (metis in_set_conv_nth length_list_update)
        obtain q n' d' where xe: "bs ! l = (q, n', d')" by (cases "bs ! l")
        obtain m' where m': "n' \<le> m'" "L q = Some m'" "\<forall>j b. d' j = Some b \<longrightarrow> j < m' \<and> peek s (q + of_nat j) = b"
          using backedD [OF Cons.prems(1)] nth_mem [OF l(1)] xe by metis
        show "case x of (q, n, d) \<Rightarrow> \<exists>m \<ge> n. L q = Some m \<and> (\<forall>j' b'. d j' = Some b' \<longrightarrow> j' < m \<and> peek ?s (q + of_nat j') = b')"
        proof (cases "l = i")
          case True
          then have "x = (p, n, d(j \<mapsto> b))" using l by simp
          moreover have "j' = j" if "j' < k" "p + of_nat j' = p + of_nat j" for j' :: nat using apart_law [OF ok k(2,2) that(1) jk that(2)] by simp
          ultimately show ?thesis using k jk w by auto
        next
          case False
          then have x: "x = (q, n', d')" using l xe by simp
          have "q \<noteq> p"
          proof
            assume "q = p"
            then show False using distinct_fst [OF dist l(1), of i] True False xe e by simp
          qed
          then have "q + of_nat j' \<noteq> p + of_nat j" if "j' < m'" for j' using apart_law [OF ok m'(2) k(2) that jk] by auto
          then show ?thesis using m' w x by auto
        qed
      qed
      then show ?thesis using Cons.IH [OF _ rest] True Store e by simp
    next
      case False
      then have "client malloc free poke (op # ops) (bs, s) = client malloc free poke ops (bs, s)" using Store by auto
      then show ?thesis using Cons.IH [OF Cons.prems(1) rest] by simp
    qed
  qed
qed

end

section \<open>The kernel heap keeps the contract\<close>

definition heap_ok :: "heap_state \<Rightarrow> (u64 \<Rightarrow> nat option) \<Rightarrow> bool" where
  "heap_ok h L \<longleftrightarrow> (\<exists>V. heap_rep h V \<and> (\<forall>p n. L p = Some n \<longleftrightarrow> live V p n))"

definition poke_byte :: "u64 \<Rightarrow> u8 \<Rightarrow> heap_state \<Rightarrow> heap_state" where
  "poke_byte a b h = set_memory ((memory h)(a := b)) h"

lemma kept_peek: "kept V m m' \<Longrightarrow> live V q k \<Longrightarrow> j < k \<Longrightarrow> m' (q + of_nat j) = m (q + of_nat j)"
  unfolding kept_def by (metis nth_bytes_at)

lemma live_bound: "heap_rep h V \<Longrightarrow> live V q n \<Longrightarrow> unat q + n \<le> 2 ^ 64"
  using live_area by metis

interpretation kernel_heap: block_allocator kmalloc kfree memory poke_byte heap_ok
proof
  fix s L and n :: u64 assume "heap_ok s L" and n: "unat n < 2 ^ 32"
  then obtain V where V: "heap_rep s V" "\<And>p n. L p = Some n \<longleftrightarrow> live V p n" by (auto simp: heap_ok_def)
  obtain p h' V' where k: "kmalloc n s = Some (p, h')" "heap_rep h' V'" "kept V (memory s) (memory h')"
    "p = 0 \<Longrightarrow> same_live V V'" "p \<noteq> 0 \<Longrightarrow> \<exists>k. unat n \<le> k \<and> adds V p k V'" using kmalloc_ok [OF V(1) n] by blast
  show "\<exists>p s'. kmalloc n s = Some (p, s') \<and> (p = 0 \<longrightarrow> heap_ok s' L) \<and>
      (p \<noteq> 0 \<longrightarrow> L p = None \<and> (\<exists>k \<ge> unat n. heap_ok s' (L(p \<mapsto> k)))) \<and>
      (\<forall>q k j. L q = Some k \<longrightarrow> j < k \<longrightarrow> memory s' (q + of_nat j) = memory s (q + of_nat j))"
  proof -
    have 0: "heap_ok h' L" if "p = 0" using k(2,4) that V(2) by (auto simp: heap_ok_def same_live_def)
    have 1: "L p = None" if "p \<noteq> 0"
    proof (rule ccontr)
      assume "L p \<noteq> None"
      then obtain m where "live V p m" using V(2) by auto
      then show False using k(5) [OF that] by (auto simp: adds_def)
    qed
    have 2: "\<exists>k \<ge> unat n. heap_ok h' (L(p \<mapsto> k))" if p: "p \<noteq> 0"
    proof -
      obtain k where kk: "unat n \<le> k" "adds V p k V'" using k(5) [OF p] by blast
      have "(L(p \<mapsto> k)) q = Some m \<longleftrightarrow> live V' q m" for q m using kk(2) V(2) by (auto simp: adds_def)
      then have "heap_ok h' (L(p \<mapsto> k))" unfolding heap_ok_def using k(2) by blast
      then show ?thesis using kk(1) by blast
    qed
    have "memory h' (q + of_nat j) = memory s (q + of_nat j)" if "L q = Some k" "j < k" for q k j
      using kept_peek [OF k(3)] that V(2) by blast
    then show ?thesis using k(1) 0 1 2 by blast
  qed
next
  fix s L p k assume "heap_ok s L" and p: "L p = Some k"
  then obtain V where V: "heap_rep s V" "\<And>p n. L p = Some n \<longleftrightarrow> live V p n" by (auto simp: heap_ok_def)
  have "live V p k" using V(2) p by simp
  from kfree_ok [OF V(1) this] obtain h' V' where f: "kfree p s = Some h'" "heap_rep h' V'"
    "\<And>q n. live V' q n \<longleftrightarrow> live V q n \<and> q \<noteq> p" "kept V' (memory s) (memory h')" by blast
  show "\<exists>s'. kfree p s = Some s' \<and> heap_ok s' (L(p := None)) \<and>
      (\<forall>q m j. q \<noteq> p \<longrightarrow> L q = Some m \<longrightarrow> j < m \<longrightarrow> memory s' (q + of_nat j) = memory s (q + of_nat j))"
  proof (intro exI conjI allI impI)
    show "kfree p s = Some h'" by (rule f(1))
    have "(L(p := None)) q = Some m \<longleftrightarrow> live V' q m" for q m using f(3) V(2) by auto
    then show "heap_ok h' (L(p := None))" using f(2) by (auto simp: heap_ok_def)
    show "memory h' (q + of_nat j) = memory s (q + of_nat j)" if "q \<noteq> p" "L q = Some m" "j < m" for q m j
      using kept_peek [OF f(4)] f(3) V(2) that by blast
  qed
next
  fix s L p k and j :: nat and b assume "heap_ok s L" and p: "L p = Some k" "j < k"
  then obtain V where V: "heap_rep s V" "\<And>p n. L p = Some n \<longleftrightarrow> live V p n" by (auto simp: heap_ok_def)
  have l: "live V p k" using V(2) p by simp
  have "p + of_nat j \<in> region p k" using region_offset [OF live_bound [OF V(1) l] p(2)] .
  then have "heap_rep (poke_byte (p + of_nat j) b s) V" unfolding poke_byte_def by (intro write_ok(1) [OF V(1) l]) auto
  then show "heap_ok (poke_byte (p + of_nat j) b s) L \<and>
      (\<forall>x. memory (poke_byte (p + of_nat j) b s) x = (if x = p + of_nat j then b else memory s x))"
    using V(2) by (auto simp: heap_ok_def poke_byte_def)
next
  fix s L p k q m and j l :: nat
  assume "heap_ok s L" and p: "L p = Some k" "L q = Some m" "j < k" "l < m" "p + of_nat j = q + of_nat l"
  then obtain V where V: "heap_rep s V" "\<And>p n. L p = Some n \<longleftrightarrow> live V p n" by (auto simp: heap_ok_def)
  have lp: "live V p k" and lq: "live V q m" using V(2) p by simp_all
  note b = live_bound [OF V(1) lp] live_bound [OF V(1) lq]
  have "p = q"
  proof (rule ccontr)
    assume "p \<noteq> q"
    then show False using live_apart(1) [OF V(1) lp lq] region_offset [OF b(1) p(3)] region_offset [OF b(2) p(4)] p(5) by auto
  qed
  moreover have "unat p + j = unat q + l"
    using no_wrap_offset [OF b(1) p(3)] no_wrap_offset [OF b(2) p(4)] p(5) by metis
  ultimately show "p = q \<and> j = l" by (simp only: add_left_cancel)
qed

section \<open>From the start\<close>

definition empty_view :: heap_view where
  "empty_view = \<lparr>chain = (\<lambda>_. []), frees = (\<lambda>_. []), big = Map.empty\<rparr>"

lemma heap_init_rep:
  assumes "pmm_inv (pmm h)"
  shows "heap_rep (snd (heap_init h)) empty_view"
proof -
  let ?c = "\<lambda>sz. \<lparr>object_size = sz, slabs = 0, slab_count = 0, live_objects = 0\<rparr>"
  have h': "s_caches (snd (heap_init h)) = map ?c k_class_sizes" "s_ready (snd (heap_init h))" "pmm (snd (heap_init h)) = pmm h"
    by (simp_all add: heap_init_def)
  have len: "length k_class_sizes = 8" by (simp add: k_class_sizes_def)
  have "held empty_view = {}" by (simp add: held_def empty_view_def)
  moreover have "chains_ok (snd (heap_init h)) empty_view"
    unfolding chains_ok_def h'(1) using len by (simp add: empty_view_def first_of_def)
  ultimately show ?thesis
    unfolding heap_rep_def using h' len assms by (simp add: frames_ok_def) (simp add: empty_view_def)
qed

lemma heap_init_ok: "pmm_inv (pmm h) \<Longrightarrow> heap_ok (snd (heap_init h)) Map.empty"
  using heap_init_rep [of h] by (auto simp: heap_ok_def live_def empty_view_def)

definition block_region :: "held_block \<Rightarrow> u64 set" where
  "block_region = (\<lambda>(p, n, d). region p n)"

text \<open>
  (C34) Whatever sequence of requests, releases and writes inside its blocks a client makes, from the moment the
  heap is set up no assertion fails, the blocks held never overlap, every byte written is still there, and
  the integrity check finds nothing.
\<close>

theorem heap_serves:
  assumes "pmm_inv (pmm h)" "\<forall>op \<in> set ops. op_ok op"
  shows "\<exists>bs h'. client kmalloc kfree poke_byte ops ([], snd (heap_init h)) = Some (bs, h') \<and>
     (\<forall>(p, n, d) \<in> set bs. \<forall>j b. d j = Some b \<longrightarrow> memory h' (p + of_nat j) = b) \<and>
     (\<forall>i < length bs. \<forall>j < length bs. i \<noteq> j \<longrightarrow> block_region (bs ! i) \<inter> block_region (bs ! j) = {}) \<and>
     heap_check h' = Some AF_OK"
proof -
  have "kernel_heap.backed [] (snd (heap_init h)) Map.empty"
    using heap_init_ok [OF assms(1)] by (simp add: kernel_heap.backed_def)
  from kernel_heap.client_served [OF this assms(2)] obtain bs h' L
    where run: "client kmalloc kfree poke_byte ops ([], snd (heap_init h)) = Some (bs, h')" and b: "kernel_heap.backed bs h' L" by blast
  obtain V where V: "heap_rep h' V" "\<And>p n. L p = Some n \<longleftrightarrow> live V p n" using b by (auto simp: kernel_heap.backed_def heap_ok_def)
  have "\<forall>(p, n, d) \<in> set bs. \<forall>j b. d j = Some b \<longrightarrow> memory h' (p + of_nat j) = b"
    using kernel_heap.backedD [OF b] by fastforce
  moreover have "block_region (bs ! i) \<inter> block_region (bs ! j) = {}" if ij: "i < length bs" "j < length bs" "i \<noteq> j" for i j
  proof -
    obtain p n d q m e where x: "bs ! i = (p, n, d)" "bs ! j = (q, m, e)" by (metis prod_cases3)
    have "(p, n, d) \<in> set bs" "(q, m, e) \<in> set bs" using x ij nth_mem by metis+
    then obtain k l where "n \<le> k" "live V p k" "m \<le> l" "live V q l" using kernel_heap.backedD [OF b] V(2) by metis
    moreover have "p \<noteq> q"
    proof
      assume "p = q"
      moreover have "distinct (map fst bs)" using b by (simp add: kernel_heap.backed_def)
      ultimately show False using distinct_fst [of bs i j] x ij by simp
    qed
    ultimately have "region p k \<inter> region q l = {}" "region p n \<subseteq> region p k" "region q m \<subseteq> region q l"
      using live_apart(1) [OF V(1)] by (auto simp: region_def)
    then show ?thesis using x by (auto simp: block_region_def)
  qed
  ultimately show ?thesis using run heap_check_ok [OF V(1)] by blast
qed

definition demo_heap :: heap_state where
  "demo_heap = \<lparr>pmm = demo_pmm, s_caches = [], s_ready = False, s_allocated_bytes = 0, s_live_allocations = 0,
     s_total_allocations = 0, s_free_allocations = 0\<rparr>"

lemma heap_serves_witness:
  "\<exists>bs h'. client kmalloc kfree poke_byte [Alloc 10, Store 0 3 7, Alloc 5000, Release 1, Alloc 16] ([], snd (heap_init demo_heap)) =
     Some (bs, h') \<and> heap_check h' = Some AF_OK"
proof -
  have "pmm_inv (pmm demo_heap)" by (simp add: demo_heap_def demo_pmm_inv)
  moreover have "\<forall>op \<in> set [Alloc 10, Store 0 3 7, Alloc 5000, Release 1, Alloc 16]. op_ok op" by (simp add: op_ok_def)
  ultimately show ?thesis using heap_serves by blast
qed

section \<open>Growing a block\<close>

lemma copy_block:
  assumes rep: "heap_rep h V" and p: "live V p k" and q: "live V q m" "q \<noteq> p" and n: "unat n \<le> k" "unat n \<le> m"
  defines "m' \<equiv> af_memcpy q p n (memory h)"
  shows "heap_rep (set_memory m' h) V" "bytes_at m' q (unat n) = bytes_at (memory h) p (unat n)"
    "live V r l \<Longrightarrow> r \<noteq> q \<Longrightarrow> bytes_at m' r l = bytes_at (memory h) r l"
proof -
  note b = live_bound [OF rep p] live_bound [OF rep q(1)]
  have sub: "region p (unat n) \<subseteq> region p k" "region q (unat n) \<subseteq> region q m" using n by (auto simp: region_def)
  have dis: "region q (unat n) \<inter> region p (unat n) = {}" using live_apart(1) [OF rep q(1) p q(2)] sub by blast
  have "apart q (unat n) p (unat n)"
  proof (cases "n = 0")
    case True
    then show ?thesis using unat_bound [of p] unat_bound [of q] by (simp add: apart_def) linarith
  next
    case False
    then have pos: "0 < unat n" by (simp add: unat_gt_0)
    then have "p \<in> region p (unat n)" "q \<in> region q (unat n)" by (auto simp: region_def)
    then have "p \<notin> region q (unat n)" "q \<notin> region p (unat n)" using dis by blast+
    then show ?thesis using b n by (auto simp: apart_def region_def)
  qed
  then have m': "m' = put_bytes q (bytes_at (memory h) p (unat n)) (memory h)" unfolding m'_def by (rule memcpy_ok)
  have out: "m' a = memory h a" if "a \<notin> region q m" for a
    unfolding m' using that sub(2) b(2) n(2) by (intro put_outside) auto
  show "heap_rep (set_memory m' h) V" by (rule write_ok(1) [OF rep q(1) out])
  show "bytes_at m' r l = bytes_at (memory h) r l" if "live V r l" "r \<noteq> q" by (rule write_ok(2) [OF rep q(1) out that])
  show "bytes_at m' q (unat n) = bytes_at (memory h) p (unat n)"
    unfolding m' using unat_bound [of n] by (intro bytes_at_put) simp_all
qed

lemma move_block:
  assumes rep: "heap_rep h V" and p: "live V p k" and n: "unat n < 2 ^ 32" "k < unat n" and k: "unat old = k"
  obtains q h' V' where "(case kmalloc n h of None \<Rightarrow> None | Some (fresh, s1) \<Rightarrow> if fresh = 0 then Some (0, s1)
        else (case kfree p (set_memory (af_memcpy fresh p old (memory s1)) s1) of None \<Rightarrow> None | Some s2 \<Rightarrow> Some (fresh, s2))) = Some (q, h')"
    "heap_rep h' V'" "q = 0 \<longrightarrow> same_live V V' \<and> kept V (memory h) (memory h')"
    "q \<noteq> 0 \<longrightarrow> (\<exists>m \<ge> unat n. \<forall>r l. live V' r l \<longleftrightarrow> live V r l \<and> r \<noteq> p \<or> r = q \<and> l = m) \<and>
       bytes_at (memory h') q k = bytes_at (memory h) p k \<and> (\<forall>r l. live V r l \<longrightarrow> r \<noteq> p \<longrightarrow> bytes_at (memory h') r l = bytes_at (memory h) r l)"
proof -
  obtain q h1 V1 where a: "kmalloc n h = Some (q, h1)" "heap_rep h1 V1" "kept V (memory h) (memory h1)"
    "q = 0 \<Longrightarrow> same_live V V1" "q \<noteq> 0 \<Longrightarrow> \<exists>k. unat n \<le> k \<and> adds V q k V1" using kmalloc_ok [OF rep n(1)] by blast
  show thesis
  proof (cases "q = 0")
    case True
    then show thesis using that [of 0 h1 V1] a by simp
  next
    case False
    obtain m where m: "unat n \<le> m" "adds V q m V1" using a(5) [OF False] by blast
    have l1: "live V1 p k" "live V1 q m" "q \<noteq> p" using m(2) p by (auto simp: adds_def)
    let ?m = "af_memcpy q p old (memory h1)"
    note c = copy_block [OF a(2) l1, of old]
    have le: "unat old \<le> k" "unat old \<le> m" using k n(2) m(1) by simp_all
    from kfree_ok [OF c(1) [OF le] l1(1)] obtain h2 V2 where f: "kfree p (set_memory ?m h1) = Some h2" "heap_rep h2 V2"
      "\<And>r l. live V2 r l \<longleftrightarrow> live V1 r l \<and> r \<noteq> p" "kept V2 (memory (set_memory ?m h1)) (memory h2)" by blast
    have live: "live V2 r l \<longleftrightarrow> live V r l \<and> r \<noteq> p \<or> r = q \<and> l = m" for r l
      using f(3) m(2) l1(3) by (auto simp: adds_def)
    have lq: "live V2 q m" using live by simp
    have "bytes_at (memory h2) q k = bytes_at ?m q k"
    proof -
      have "bytes_at (memory h2) q m = bytes_at ?m q m" using f(4) lq by (simp add: kept_def)
      moreover have "k \<le> m" using n(2) m(1) by simp
      ultimately show ?thesis
        by (intro nth_equalityI) (metis length_bytes_at, metis length_bytes_at nth_bytes_at order_less_le_trans)
    qed
    also have "\<dots> = bytes_at (memory h1) p k" using c(2) [OF le] k by simp
    also have "\<dots> = bytes_at (memory h) p k" using a(3) p by (simp add: kept_def)
    finally have data: "bytes_at (memory h2) q k = bytes_at (memory h) p k" .
    have others: "bytes_at (memory h2) r l = bytes_at (memory h) r l" if "live V r l" "r \<noteq> p" for r l
    proof -
      have r: "live V1 r l" "r \<noteq> q" using that(1) m(2) by (auto simp: adds_def)
      have "bytes_at (memory h2) r l = bytes_at ?m r l" using f(4) live that by (simp add: kept_def)
      also have "\<dots> = bytes_at (memory h1) r l" by (rule c(3) [OF le r])
      also have "\<dots> = bytes_at (memory h) r l" using a(3) that(1) by (simp add: kept_def)
      finally show ?thesis .
    qed
    show thesis
      by (rule that [of q h2 V2]) (use a(1) f(1,2) False m(1) live data others in auto)
  qed
qed

text \<open>
  \<open>krealloc\<close> returns a block of at least the new size that starts with the bytes of the old one, and
  touches no other block, except when a large block grows into the last 24 bytes of its frames.
\<close>

theorem krealloc_keeps:
  assumes rep: "heap_rep h V" and p: "live V p k" "0 < k" and n: "unat n < 2 ^ 32"
    and tail: "\<And>b r. big V b = Some r \<Longrightarrow> p = b + 24 \<Longrightarrow> unat n + 24 \<le> unat (fst r) * 4096 \<or> unat (fst r) * 4096 < unat n"
  shows "\<exists>q h' V'. krealloc p n h = Some (q, h') \<and> heap_rep h' V' \<and>
     (q \<noteq> 0 \<longrightarrow> (\<exists>m \<ge> unat n. live V' q m) \<and>
        bytes_at (memory h') q (min k (unat n)) = bytes_at (memory h) p (min k (unat n))) \<and>
     (\<forall>r l. live V r l \<longrightarrow> r \<noteq> p \<longrightarrow> live V' r l \<and> bytes_at (memory h') r l = bytes_at (memory h) r l)"
proof -
  note u = usable_ok [OF rep p(1)]
  have old: "kmalloc_usable_size p h \<noteq> 0" using u p(2) by (metis less_irrefl unat_0)
  show ?thesis
  proof (cases "unat n \<le> k")
    case True
    then have "n \<le> kmalloc_usable_size p h" using u by (simp add: word_le_nat_alt)
    then have "krealloc p n h = Some (p, h)" using u old by (simp add: krealloc_def Let_def)
    then show ?thesis using rep p(1) True by (intro exI [of _ p] exI [of _ h] exI [of _ V]) auto
  next
    case False
    then have big_n: "k < unat n" "\<not> n \<le> kmalloc_usable_size p h" using u by (simp_all add: word_le_nat_alt)
    have finish: ?thesis
      if eq: "krealloc p n h = (case kmalloc n h of None \<Rightarrow> None | Some (fresh, s1) \<Rightarrow> if fresh = 0 then Some (0, s1)
        else (case kfree p (set_memory (af_memcpy fresh p old (memory s1)) s1) of None \<Rightarrow> None | Some s2 \<Rightarrow> Some (fresh, s2)))"
        and ko: "unat old = k" for old
    proof -
      obtain q h' V' where m: "krealloc p n h = Some (q, h')" "heap_rep h' V'" "q = 0 \<longrightarrow> same_live V V' \<and> kept V (memory h) (memory h')"
        "q \<noteq> 0 \<longrightarrow> (\<exists>m \<ge> unat n. \<forall>r l. live V' r l \<longleftrightarrow> live V r l \<and> r \<noteq> p \<or> r = q \<and> l = m) \<and>
           bytes_at (memory h') q k = bytes_at (memory h) p k \<and> (\<forall>r l. live V r l \<longrightarrow> r \<noteq> p \<longrightarrow> bytes_at (memory h') r l = bytes_at (memory h) r l)"
        using move_block [OF rep p(1) n big_n(1) ko] unfolding eq by blast
      have min: "min k (unat n) = k" using big_n(1) by simp
      show ?thesis
      proof (cases "q = 0")
        case True
        then show ?thesis using m(1-3) True by (intro exI [of _ q] exI [of _ h'] exI [of _ V']) (auto simp: same_live_def kept_def)
      next
        case False
        then show ?thesis using m(1,2,4) False min by (intro exI [of _ q] exI [of _ h'] exI [of _ V']) auto
      qed
    qed
    show ?thesis
    proof (cases rule: live_cases [OF rep p(1)])
      case (1 i s j)
      obtain nx where sr: "slab_rep (memory h) i s nx (frees V s)" using slab_at [OF rep 1(1,2)] by metis
      have "slab_magic (memory h) (page_of p) = SLAB_MAGIC" using free_memory(1) [OF sr 1(1,3,4)] 1(5) sr by (simp add: slab_rep_def)
      then have "krealloc p n h = (case kmalloc n h of None \<Rightarrow> None | Some (fresh, s1) \<Rightarrow> if fresh = 0 then Some (0, s1)
        else (case kfree p (set_memory (af_memcpy fresh p (kmalloc_usable_size p h) (memory s1)) s1) of None \<Rightarrow> None | Some s2 \<Rightarrow> Some (fresh, s2)))"
        using u old big_n(2) by (simp add: krealloc_def Let_def)
      then show ?thesis using finish u by blast
    next
      case (2 b r)
      obtain f q where r: "r = (f, q)" by (cases r)
      have br: "trailer_magic (memory h) b = LARGE_MAGIC" "trailer_base (memory h) b = b" "trailer_frame_count (memory h) b = f"
        "trailer_requested (memory h) b = q" "b \<noteq> 0" "frame_address b" "2 \<le> unat f" "0 < q"
        using heap_repD(9) [OF rep 2(1)] by (simp_all add: big_rep_def r)
      have uf: "unat (ucast f * 4096 :: u64) = unat f * 4096"
        using 2(6) r by (simp add: unat_word_ariths unsigned_ucast_eq take_bit_nat_eq_self)
      have "slab_magic (memory h) (page_of p) \<noteq> SLAB_MAGIC" using page_of_large [OF rep 2(1)] 2(2) br(1) by simp
      then have run: "krealloc p n h = large_realloc p n h" using u old big_n(2) by (simp add: krealloc_def Let_def)
      have t: "trailer_of p = b" using 2(2) by (simp add: trailer_of_def)
      show ?thesis
      proof (cases "n \<le> ucast f * 4096")
        case True
        let ?m = "put32 (b + 20) (ucast n) (memory h)" and ?V = "V\<lparr>big := (big V)(b := Some (f, ucast n))\<rparr>"
        have fit: "unat n + 24 \<le> unat f * 4096" using tail [OF 2(1,2)] True uf r by (simp add: word_le_nat_alt)
        have un: "unat (ucast n :: u32) = unat n" using n by (simp add: unsigned_ucast_eq take_bit_nat_eq_self)
        note rm = frame_room [OF br(6)] and pu = page_unat [OF frame_room [OF br(6)]]
        have run': "krealloc p n h = Some (p, set_memory ?m h)"
          unfolding run large_realloc_def Let_def t using br(1,3) True by simp
        have out: "?m a = memory h a" if "a \<notin> region (b + 20) 4" for a using that pu rm by (intro put_word_outside(2)) simp_all
        have out': "?m a = memory h a" if "a \<notin> area (b, f)" for a
          by (rule out) (use that pu br(7) in \<open>auto simp: area_def region_def\<close>)
        have held: "held ?V = held V" using 2(1) r unfolding held_def by (auto split: if_splits)
        have keep: "?m a = memory h a" if "y \<in> held V" "y \<noteq> (b, f)" "a \<in> area y" for y a
          using areas_apart [OF heap_repD(3) [OF rep] that(1) heldI(2) [OF 2(1)]] that out' r by auto
        have new: "big_rep ?m b (f, ucast n)"
          using br pu rm fit un n big_n(1) by (simp add: big_rep_def get_others apart_def word_less_nat_alt)
        have "heap_rep (set_memory ?m h) ?V" unfolding heap_rep_def held
        proof (intro conjI allI impI)
          show "big_rep (memory (set_memory ?m h)) b' r'" if b': "big ?V b' = Some r'" for b' r'
          proof (cases "b' = b")
            case False
            then have bv: "big V b' = Some r'" using b' by simp
            have "?m a = memory h a" if "a \<in> region b' 24" for a
              using big_front [OF heap_repD(9) [OF rep bv]] keep [OF heldI(2) [OF bv]] that False by auto
            then show ?thesis using big_rep_area [OF heap_repD(9) [OF rep bv]] big_room [OF rep bv] by simp
          qed (use new b' in simp)
          have "slab_chain ?m i (frees V) (chain V i)" if "i < 8" for i
          proof (rule slab_chain_mono [OF heap_repD(6) [OF rep that]])
            fix s nx assume s: "s \<in> set (chain V i)" "slab_rep (memory h) i s nx (frees V s)"
            have "(s, 1) \<noteq> (b, f)" using br(7) by auto
            then show "slab_rep ?m i s nx (frees V s)"
              using slab_rep_page [OF s(2) that] keep [OF heldI(1) [OF that s(1)]] by blast
          qed
          then show "chains_ok (set_memory ?m h) ?V"
            unfolding chains_ok_def using heap_repD(5,7,8) [OF rep] by (simp add: disjoint_iff) blast
        qed (use heap_repD [OF rep] in auto)
        moreover have "live ?V p (unat n)" using live_bigI [of ?V b "(f, ucast n)"] 2(2) un by simp
        moreover have "bytes_at ?m r' l = bytes_at (memory h) r' l" if lv: "live V r' l" for r' l
        proof (rule live_bytes [OF rep lv])
          fix x assume x: "x \<in> region r' l"
          obtain y where y: "y \<in> held V" "region r' l \<subseteq> area y" "unat (fst y) + 24 \<le> unat r'" using live_area [OF rep lv] by metis
          show "?m x = memory h x"
          proof (cases "y = (b, f)")
            case True
            then show ?thesis using x y(3) pu by (intro out) (auto simp: region_def)
          qed (use keep y x in blast)
        qed
        moreover have "live ?V r' l" if l: "live V r' l" "r' \<noteq> p" for r' l
        proof (cases rule: live_cases [OF rep l(1)])
          case (1 i s k)
          then show ?thesis using live_slabI [of i s ?V k] by simp
        next
          case b': (2 b' r'')
          then have "b' \<noteq> b" using l(2) 2(2) by auto
          then have "big ?V b' = Some r''" using b'(1) by simp
          then show ?thesis using live_bigI b'(2,3) by metis
        qed
        moreover have "min k (unat n) = k" using big_n(1) by simp
        ultimately show ?thesis using run' p(1) by (intro exI [of _ p] exI [of _ "set_memory ?m h"] exI [of _ ?V]) auto
      next
        case False
        have qk: "unat (ucast q :: u64) = k" using 2(3) r unat_bound [of q] by (simp add: unsigned_ucast_eq take_bit_nat_eq_self)
        then have lt: "(ucast q :: u64) < n" using big_n(1) by (simp add: word_less_nat_alt)
        have "trailer_requested (memory h1) b = q" if "kmalloc n h = Some (q', h1)" "q' \<noteq> 0" for q' h1
        proof -
          obtain q2 h2 V2 where a: "kmalloc n h = Some (q2, h2)" "heap_rep h2 V2" "kept V (memory h) (memory h2)"
              "q2 = 0 \<Longrightarrow> same_live V V2" "q2 \<noteq> 0 \<Longrightarrow> \<exists>k. unat n \<le> k \<and> adds V q2 k V2"
            using kmalloc_ok [OF rep n] by blast
          then have e: "q2 = q'" "h2 = h1" using that(1) by simp_all
          have lp: "live V2 p k" using a(5) e that(2) p(1) by (auto simp: adds_def)
          show ?thesis
          proof (cases rule: live_cases [OF a(2) lp])
            case s: (1 i s j)
            obtain nx where sr: "slab_rep (memory h2) i s nx (frees V2 s)" "frame_address s" using slab_at [OF a(2) s(1,2)] by metis
            have "page_of p = s" using free_memory(1) [OF sr(1) s(1,3,4)] s(5) by simp
            then have "s = b" using page_of_large [OF rep 2(1)] 2(2) by simp
            then show ?thesis using s(7) 2(4) by simp
          next
            case l: (2 b2 r2)
            then have "b2 = b" using 2(2) by simp
            then have "trailer_requested (memory h2) b = snd r2" "unat (snd r2) = unat q" using heap_repD(9) [OF a(2) l(1)] l(3) 2(3) r by (cases r2, simp add: big_rep_def)+
            then show ?thesis using e by (simp add: word_unat_eq_iff)
          qed
        qed
        then have "krealloc p n h = (case kmalloc n h of None \<Rightarrow> None | Some (fresh, s1) \<Rightarrow> if fresh = 0 then Some (0, s1)
          else (case kfree p (set_memory (af_memcpy fresh p (ucast q) (memory s1)) s1) of None \<Rightarrow> None | Some s2 \<Rightarrow> Some (fresh, s2)))"
          unfolding run large_realloc_def Let_def t using br(1,3) False lt by (auto split: option.split prod.split)
        then show ?thesis using finish qk by blast
      qed
    qed
  qed
qed

section \<open>Where the code falls short\<close>

text \<open>
  Only the first slab of a cache is ever allocated from: when it is full and no frame is left, the request
  fails, however many free objects the slabs behind it have.
\<close>

theorem full_head_fails:
  assumes rep: "heap_rep h V" and i: "class_for_size n = Some i" "n \<noteq> 0"
    and full: "chain V i = s # ss" "frees V s = []" and none: "pmm_alloc_frame_z (pmm h) = (0, p)"
  shows "kmalloc n h = Some (0, h)"
proof -
  have i8: "i < 8" using class_for_size_ok [OF i(1)] by simp
  note D = heap_repD [OF rep]
  obtain nx where sr: "slab_rep (memory h) i s nx (frees V s)" using slab_at [OF rep i8, of s] full by auto
  have head: "slabs (s_caches h ! i) = s" using D(5) [OF i8] full by (simp add: first_of_def)
  have "slab_free_list (memory h) s = 0" using sr full by (simp add: slab_rep_def node_def)
  moreover have "slab_create i h = (0, h)"
    using slab_create_eq [OF none, of i] alloc_z_none [OF D(4) none] by simp
  ultimately have "ensure_slab i h = (False, h)" using head by (simp add: ensure_slab_def)
  then show ?thesis using D(1) i by (simp add: kmalloc_def)
qed

text \<open>
  An alignment above a page is not refused: the aligned address can lie behind the frames that were taken.
\<close>

theorem aligned_past_the_block:
  assumes "pmm_alloc_frames 2 (pmm h) = (0x5000, p)"
  shows "fst (the (kmalloc_aligned 100 0x4000 h)) = 0x8000" "0x5000 + 2 * 4096 \<le> (0x8000 :: u64)"
proof -
  have n: "(ucast ((100 + 24 + 4096 + 4096 - 1) div 4096 :: u64) :: u32) = 2" by simp
  have "is_power_of_two 0x4000" by (simp add: is_power_of_two_def)
  moreover have "align_up (0x5000 + 24) 0x4000 = (0x8000 :: u64)" by (simp add: align_up_def)
  ultimately show "fst (the (kmalloc_aligned 100 0x4000 h)) = 0x8000"
    using assms by (simp add: kmalloc_aligned_def large_alloc_def Let_def)
qed simp

text \<open>A request close to \<open>2 ^ 64\<close> bytes wraps in the size computation and is served with two frames.\<close>

theorem huge_request_served:
  assumes "s_ready h" "pmm_alloc_frames 2 (pmm h) = (b, p)" "b \<noteq> 0" "b + 24 \<noteq> 0"
  shows "\<exists>h'. kmalloc (- 1) h = Some (b + 24, h')"
proof -
  have "class_for_size (- 1) = None"
    by (simp add: class_for_size_def k_class_sizes_def upt_rec find_None_iff word_le_nat_alt unat_max)
  moreover have "\<exists>h'. large_alloc (- 1) 8 h = (b + 24, h')"
    using assms(2,3) by (simp add: large_alloc_def Let_def)
  ultimately show ?thesis using assms(1,4) by (auto simp: kmalloc_def)
qed

text \<open>
  A large block may be grown in place up to the size of its frames, although 24 of their bytes lie in front
  of the pointer: the caller is told it owns 24 bytes of the next frame.
\<close>

theorem realloc_past_the_block:
  assumes rep: "heap_rep h V" and b: "big V b = Some (f, q)" and n: "unat n = unat f * 4096" and small: "unat f * 4096 < 2 ^ 32"
  shows "\<exists>h'. krealloc (b + 24) n h = Some (b + 24, h') \<and> unat (kmalloc_usable_size (b + 24) h') = unat f * 4096"
    "unat (b + 24) + unat n = unat b + unat f * 4096 + 24"
proof -
  have br: "trailer_magic (memory h) b = LARGE_MAGIC" "trailer_frame_count (memory h) b = f"
      "trailer_requested (memory h) b = q" "frame_address b" "2 \<le> unat f" "0 < q" "unat q + 24 \<le> unat f * 4096"
    using heap_repD(9) [OF rep b] by (simp_all add: big_rep_def)
  note r = frame_room [OF br(4)] and u = page_unat [OF frame_room [OF br(4)]]
  have p: "unat (b + 24) = unat b + 24" using no_wrap_offset [of b 4096 24] r by simp
  then show "unat (b + 24) + unat n = unat b + unat f * 4096 + 24" using n by simp
  have nz: "b + 24 \<noteq> 0" using p by (metis add_is_0 unat_0 zero_neq_numeral)
  have live: "live V (b + 24) (unat q)" using live_bigI [OF b] by simp
  note us = usable_ok [OF rep live]
  have pg: "page_of (b + 24) = b" by (rule page_of_large [OF rep b])
  have old: "kmalloc_usable_size (b + 24) h \<noteq> 0" using us br(6) by (metis unat_0 unat_gt_0 less_irrefl word_gt_0)
  have lt: "\<not> n \<le> kmalloc_usable_size (b + 24) h" using us n br(7) by (simp add: word_le_nat_alt)
  have uf: "unat (ucast f * 4096 :: u64) = unat f * 4096"
    using small by (simp add: unat_word_ariths unsigned_ucast_eq take_bit_nat_eq_self)
  have le: "n \<le> ucast f * 4096" using n uf by (simp add: word_le_nat_alt)
  let ?m = "put32 (b + 20) (ucast n) (memory h)"
  have "krealloc (b + 24) n h = Some (b + 24, set_memory ?m h)"
    using nz old lt br(1,2) pg le by (simp add: krealloc_def large_realloc_def Let_def trailer_of_def)
  moreover have "kmalloc_usable_size (b + 24) (set_memory ?m h) = ucast (ucast n :: u32)"
    using nz pg br(1) r u by (simp add: kmalloc_usable_size_def Let_def trailer_of_def get_others apart_def)
  moreover have "unat (ucast (ucast n :: u32) :: u64) = unat f * 4096"
    using n small by (simp add: unsigned_ucast_eq unsigned_take_bit_eq take_bit_nat_eq_self)
  ultimately show "\<exists>h'. krealloc (b + 24) n h = Some (b + 24, h') \<and> unat (kmalloc_usable_size (b + 24) h') = unat f * 4096"
    by auto
qed

text \<open>
  An aligned block is not counted when it is handed out but is when it comes back: the count of live
  allocations goes below zero.
\<close>

theorem aligned_not_counted:
  assumes "kmalloc_aligned n alignment h = Some (p, h1)" "8 < alignment"
  shows "s_live_allocations h1 = s_live_allocations h"
  using assms by (auto simp: kmalloc_aligned_def large_alloc_def Let_def set_memory_def split: if_splits prod.splits)

end
