(* ===== verification/Binfmt.thy ===== *)
theory Binfmt
  imports Bytes
begin

text \<open>
  Identification of executable and package formats (\<open>kernel/core/binfmt.c\<close>): the answer to what a file is
  and what it needs to run, from its first bytes or from its last. The buffer is a list of bytes, \<open>None\<close>
  for a null pointer; \<open>Fault\<close> is a read outside it. The explanation in prose that goes with every answer
  (the field \<open>reason\<close>) is left out.
\<close>

section \<open>Formats, personalities, answers\<close>

datatype af_binfmt =
    AF_BINFMT_UNKNOWN
  | AF_BINFMT_ELF | AF_BINFMT_PE | AF_BINFMT_MACHO | AF_BINFMT_DEX | AF_BINFMT_WASM | AF_BINFMT_SCRIPT
  | AF_BINFMT_DEB | AF_BINFMT_RPM | AF_BINFMT_PACMAN | AF_BINFMT_APK_PKG | AF_BINFMT_APK_ANDROID
  | AF_BINFMT_AAB | AF_BINFMT_FLATPAK | AF_BINFMT_SNAP | AF_BINFMT_MSI | AF_BINFMT_DMG
  | AF_BINFMT_APPIMAGE | AF_BINFMT_JAR
  | AF_BINFMT_ZIP | AF_BINFMT_TAR | AF_BINFMT_SQUASHFS | AF_BINFMT_ZSTD | AF_BINFMT_GZIP | AF_BINFMT_XZ

datatype af_personality =
    AF_PERSONALITY_NONE | AF_PERSONALITY_NATIVE | AF_PERSONALITY_LINUX | AF_PERSONALITY_WINDOWS
  | AF_PERSONALITY_ANDROID | AF_PERSONALITY_DARWIN | AF_PERSONALITY_WASM | AF_PERSONALITY_SCRIPT
  | AF_PERSONALITY_PACKAGE

abbreviation (input) "AF_BINFMT_F_CONTAINER \<equiv> (1 :: u32)"
abbreviation (input) "AF_BINFMT_F_64BIT \<equiv> (2 :: u32)"
abbreviation (input) "AF_BINFMT_F_TRUNCATED \<equiv> (8 :: u32)"
abbreviation (input) "AF_BINFMT_F_AMBIGUOUS \<equiv> (16 :: u32)"
abbreviation (input) "AF_BINFMT_F_NOEXEC \<equiv> (32 :: u32)"

record af_binfmt_info =
  format :: af_binfmt
  personality :: af_personality
  flags :: u32
  outer_format :: af_binfmt
  decided_at :: u32

section \<open>Readers and bounds\<close>

definition rd16le :: "u8 list \<Rightarrow> nat \<Rightarrow> u16" where
  "rd16le p i = ucast (p ! i) OR push_bit 8 (ucast (p ! (i + 1)))"

definition rd32be :: "u8 list \<Rightarrow> nat \<Rightarrow> u32" where
  "rd32be p i = push_bit 24 (ucast (p ! i)) OR push_bit 16 (ucast (p ! (i + 1))) OR
     push_bit 8 (ucast (p ! (i + 2))) OR ucast (p ! (i + 3))"

definition has :: "u8 list \<Rightarrow> nat \<Rightarrow> nat \<Rightarrow> bool" where
  "has data at n \<longleftrightarrow> at \<le> length data \<and> n \<le> length data - at"

definition match :: "u8 list \<Rightarrow> nat \<Rightarrow> u8 list \<Rightarrow> bool" where
  "match data at sig \<longleftrightarrow> has data at (length sig) \<and> (\<forall>i \<in> set [0..<length sig]. data ! (at + i) = sig ! i)"

text \<open>A read of \<open>n\<close> bytes at \<open>at\<close> that the code makes without a test of its own in front of it.\<close>

definition reading :: "u8 list \<Rightarrow> nat \<Rightarrow> nat \<Rightarrow> 'a outcome \<Rightarrow> 'a outcome" where
  "reading data at n r = (if at + n \<le> length data then r else Fault)"

definition ascii :: "string \<Rightarrow> u8 list" where
  "ascii s = map of_char s"

definition set_info :: "af_binfmt \<Rightarrow> af_personality \<Rightarrow> u32 \<Rightarrow> u32 \<Rightarrow> af_binfmt_info" where
  "set_info fmt who fl at =
     \<lparr>format = fmt, personality = who, flags = fl, outer_format = AF_BINFMT_UNKNOWN, decided_at = at\<rparr>"

definition unknown :: "u32 \<Rightarrow> af_binfmt_info" where
  "unknown at = set_info AF_BINFMT_UNKNOWN AF_PERSONALITY_NONE 0 at"

definition add_flags :: "u32 \<Rightarrow> af_binfmt_info \<Rightarrow> af_binfmt_info" where
  "add_flags fl out = out\<lparr>flags := flags out OR fl\<rparr>"

section \<open>ZIP\<close>

text \<open>The name with its terminator, as left in the caller's buffer of \<open>name_size\<close> bytes.\<close>

definition zip_first_name :: "u8 list \<Rightarrow> nat \<Rightarrow> nat \<Rightarrow> u8 list option" where
  "zip_first_name data hdr_at name_size =
     (if \<not> has data hdr_at 30 then None
      else if rd32 data hdr_at \<noteq> 0x04034b50 then None
      else let name_len = unat (rd16le data (hdr_at + 26)) in
        if \<not> has data (hdr_at + 30) name_len \<or> name_size \<le> name_len then None
        else Some (take name_len (drop (hdr_at + 30) data) @ [0]))"

fun name_startswith :: "u8 list \<Rightarrow> u8 list \<Rightarrow> bool" where
  "name_startswith name [] = True"
| "name_startswith [] (p # ps) = False"
| "name_startswith (n # ns) (p # ps) = (n = p \<and> name_startswith ns ps)"

definition classify_zip :: "u8 list \<Rightarrow> af_binfmt_info" where
  "classify_zip data =
     (case zip_first_name data 0 128 of
        None \<Rightarrow> set_info AF_BINFMT_ZIP AF_PERSONALITY_NONE AF_BINFMT_F_NOEXEC 0
      | Some name \<Rightarrow>
          if name_startswith name (ascii ''base/manifest/'')
          then set_info AF_BINFMT_AAB AF_PERSONALITY_ANDROID (AF_BINFMT_F_CONTAINER OR AF_BINFMT_F_NOEXEC) 30
          else if name_startswith name (ascii ''AndroidManifest.xml'') \<or> name_startswith name (ascii ''classes.dex'')
          then set_info AF_BINFMT_APK_ANDROID AF_PERSONALITY_ANDROID AF_BINFMT_F_CONTAINER 30
          else if name_startswith name (ascii ''META-INF/'')
          then set_info AF_BINFMT_JAR AF_PERSONALITY_NONE (AF_BINFMT_F_CONTAINER OR AF_BINFMT_F_NOEXEC) 30
          else if name_startswith name (ascii ''metadata'') \<or> name_startswith name (ascii ''export'')
          then set_info AF_BINFMT_FLATPAK AF_PERSONALITY_PACKAGE (AF_BINFMT_F_CONTAINER OR AF_BINFMT_F_NOEXEC) 30
          else set_info AF_BINFMT_ZIP AF_PERSONALITY_NONE AF_BINFMT_F_NOEXEC 30)"

section \<open>ELF, PE, Mach-O\<close>

definition classify_elf :: "u8 list \<Rightarrow> af_binfmt_info" where
  "classify_elf data =
     (if \<not> has data 0 20 then add_flags AF_BINFMT_F_TRUNCATED (unknown 0)
      else let ei_class = data ! 4; ei_data = data ! 5; e_type = rd16le data 16 in
        if ei_class \<noteq> 1 \<and> ei_class \<noteq> 2 then unknown 4
        else if ei_data \<noteq> 1 \<and> ei_data \<noteq> 2 then unknown 5
        else let fl = (if ei_class = 2 then AF_BINFMT_F_64BIT else 0);
                 fl = (if e_type = 2 then fl
                       else if e_type = 3 then fl OR AF_BINFMT_F_AMBIGUOUS
                       else if e_type = 1 then fl OR AF_BINFMT_F_NOEXEC
                       else fl OR AF_BINFMT_F_AMBIGUOUS)
          in add_flags AF_BINFMT_F_AMBIGUOUS (set_info AF_BINFMT_ELF AF_PERSONALITY_NONE fl 0))"

definition classify_pe :: "u8 list \<Rightarrow> af_binfmt_info outcome" where
  "classify_pe data =
     (if \<not> has data 0 0x40 then Ok (add_flags AF_BINFMT_F_TRUNCATED (unknown 0))
      else let lfanew = rd32 data 0x3C; at = unat lfanew in
        if \<not> has data at 24
        then Ok (set_info AF_BINFMT_PE AF_PERSONALITY_WINDOWS (AF_BINFMT_F_TRUNCATED OR AF_BINFMT_F_AMBIGUOUS) 0x3C)
        else if \<not> match data at [0x50, 0x45, 0, 0] then Ok (unknown lfanew)
        else reading data (at + 24) 2
          (let magic = rd16le data (at + 24) in
           if magic = 0x20B then Ok (set_info AF_BINFMT_PE AF_PERSONALITY_WINDOWS AF_BINFMT_F_64BIT lfanew)
           else if magic \<noteq> 0x10B then Ok (unknown (lfanew + 24))
           else Ok (set_info AF_BINFMT_PE AF_PERSONALITY_WINDOWS 0 lfanew)))"

text \<open>The last line is the end of the function without a match: the caller's structure stays as it was.\<close>

definition classify_macho :: "u8 list \<Rightarrow> af_binfmt_info \<Rightarrow> af_binfmt_info" where
  "classify_macho data out =
     (if \<not> has data 0 8 then add_flags AF_BINFMT_F_TRUNCATED (unknown 0)
      else let magic_be = rd32be data 0; magic_le = rd32 data 0 in
        if magic_be = 0xCAFEBABE \<or> magic_be = 0xCAFEBABF
        then let nfat = rd32be data 4;
                 fl = (if magic_be = 0xCAFEBABF then AF_BINFMT_F_AMBIGUOUS OR AF_BINFMT_F_64BIT else AF_BINFMT_F_AMBIGUOUS);
                 fl = (if nfat = 0 \<or> 64 < nfat then fl OR AF_BINFMT_F_TRUNCATED else fl)
             in set_info AF_BINFMT_MACHO AF_PERSONALITY_DARWIN fl 4
        else if magic_le = 0xFEEDFACF \<or> magic_le = 0xFEEDFACE
        then set_info AF_BINFMT_MACHO AF_PERSONALITY_DARWIN (if magic_le = 0xFEEDFACF then AF_BINFMT_F_64BIT else 0) 0
        else if magic_be = 0xFEEDFACF \<or> magic_be = 0xFEEDFACE
        then set_info AF_BINFMT_MACHO AF_PERSONALITY_DARWIN (if magic_be = 0xFEEDFACF then AF_BINFMT_F_64BIT else 0) 0
        else out)"

section \<open>From the first bytes\<close>

abbreviation (input) "sig_elf \<equiv> [0x7F, 0x45, 0x4C, 0x46] :: u8 list"
abbreviation (input) "sig_mz \<equiv> [0x4D, 0x5A] :: u8 list"
abbreviation (input) "sig_dex \<equiv> [0x64, 0x65, 0x78, 0x0A] :: u8 list"
abbreviation (input) "sig_script \<equiv> [0x23, 0x21] :: u8 list"
abbreviation (input) "sig_wasm \<equiv> [0, 0x61, 0x73, 0x6D] :: u8 list"

definition macho_magic :: "u8 list \<Rightarrow> bool" where
  "macho_magic data \<longleftrightarrow>
     (let be = rd32be data 0; le = rd32 data 0 in
      be = 0xCAFEBABE \<or> be = 0xCAFEBABF \<or> le = 0xFEEDFACF \<or> le = 0xFEEDFACE \<or> be = 0xFEEDFACF \<or> be = 0xFEEDFACE)"

definition af_binfmt_detect :: "u8 list option \<Rightarrow> af_binfmt_info \<Rightarrow> af_binfmt_info outcome" where
  "af_binfmt_detect buf out =
     (case buf of None \<Rightarrow> Ok (unknown 0) | Some data \<Rightarrow>
      if data = [] then Ok (unknown 0)
      else if match data 0 sig_elf then Ok (classify_elf data)
      else if match data 0 sig_mz then classify_pe data
      else if has data 0 4 \<and> macho_magic data then Ok (classify_macho data out)
      else if match data 0 sig_dex then Ok (set_info AF_BINFMT_DEX AF_PERSONALITY_ANDROID 0 0)
      else if has data 0 4 \<and> data ! 0 = 0x28 \<and> data ! 1 = 0xB5 \<and> data ! 2 = 0x2F \<and> data ! 3 = 0xFD
      then Ok (set_info AF_BINFMT_ZSTD AF_PERSONALITY_NONE AF_BINFMT_F_NOEXEC 0)
      else if has data 0 4 \<and> data ! 0 = 0xED \<and> data ! 1 = 0xAB \<and> data ! 2 = 0xEE \<and> data ! 3 = 0xDB
      then Ok (set_info AF_BINFMT_RPM AF_PERSONALITY_PACKAGE 0 0)
      else if match data 0 (ascii ''!<arch>'' @ [0x0A])
      then (if match data 8 (ascii ''debian-binary'') then Ok (set_info AF_BINFMT_DEB AF_PERSONALITY_PACKAGE 0 8)
            else Ok (unknown 8))
      else if match data 0 (ascii ''hsqs'') \<or> match data 0 (ascii ''sqsh'')
      then Ok (set_info AF_BINFMT_SQUASHFS AF_PERSONALITY_PACKAGE AF_BINFMT_F_NOEXEC 0)
      else if has data 0 2 \<and> data ! 0 = 0x1F \<and> data ! 1 = 0x8B
      then Ok (set_info AF_BINFMT_GZIP AF_PERSONALITY_NONE AF_BINFMT_F_NOEXEC 0)
      else if match data 0 (0xFD # ascii ''7zXZ'')
      then Ok (set_info AF_BINFMT_XZ AF_PERSONALITY_NONE AF_BINFMT_F_NOEXEC 0)
      else if match data 0 (ascii ''ustar'') \<or> match data 257 (ascii ''ustar'')
      then Ok (set_info AF_BINFMT_TAR AF_PERSONALITY_NONE AF_BINFMT_F_NOEXEC 0)
      else if match data 0 sig_script then Ok (set_info AF_BINFMT_SCRIPT AF_PERSONALITY_SCRIPT 0 0)
      else if match data 0 sig_wasm then Ok (set_info AF_BINFMT_WASM AF_PERSONALITY_WASM 0 0)
      else if match data 0 [0x50, 0x4B, 3, 4] then Ok (classify_zip data)
      else if has data 0 8 \<and> data ! 0 = 0xD0 \<and> data ! 1 = 0xCF \<and> data ! 2 = 0x11 \<and> data ! 3 = 0xE0
      then Ok (set_info AF_BINFMT_MSI AF_PERSONALITY_PACKAGE AF_BINFMT_F_NOEXEC 0)
      else Ok (unknown 0))"

section \<open>From the last bytes\<close>

text \<open>The two backward scans, by the loop variable \<open>i\<close>.\<close>

fun scan_appimage :: "u8 list \<Rightarrow> nat \<Rightarrow> nat option" where
  "scan_appimage tail i =
     (if i < 8 then None
      else if match tail (i - 8) [0x41, 0x49, 2] \<or> match tail (i - 8) [0x41, 0x49, 1] then Some (i - 8)
      else if i mod 0x400 = 0 \<and> i < 0x10000 then None
      else scan_appimage tail (i - 1))"

fun scan_eocd :: "u8 list \<Rightarrow> nat \<Rightarrow> nat option" where
  "scan_eocd tail i =
     (if i < 22 then None
      else if rd32 tail (i - 22) = 0x06054b50 then Some (i - 22)
      else if 65535 < length tail - i then None
      else scan_eocd tail (i - 1))"

declare scan_appimage.simps [simp del] scan_eocd.simps [simp del]

definition af_binfmt_detect_tail :: "u8 list option \<Rightarrow> af_binfmt_info" where
  "af_binfmt_detect_tail buf =
     (case buf of None \<Rightarrow> unknown 0 | Some tail \<Rightarrow>
      if tail = [] then unknown 0
      else if 512 \<le> length tail \<and> match tail (length tail - 512) (ascii ''koly'')
      then set_info AF_BINFMT_DMG AF_PERSONALITY_DARWIN (AF_BINFMT_F_CONTAINER OR AF_BINFMT_F_NOEXEC)
             (of_nat (length tail - 512))
      else case scan_appimage tail (length tail) of
          Some at \<Rightarrow> set_info AF_BINFMT_APPIMAGE AF_PERSONALITY_LINUX AF_BINFMT_F_CONTAINER (of_nat at)
        | None \<Rightarrow>
            (case scan_eocd tail (length tail) of
               Some at \<Rightarrow> set_info AF_BINFMT_ZIP AF_PERSONALITY_NONE AF_BINFMT_F_NOEXEC (of_nat at)
             | None \<Rightarrow> unknown 0))"

section \<open>Names and the question whether a file can run\<close>

fun af_binfmt_name :: "af_binfmt \<Rightarrow> string" where
  "af_binfmt_name AF_BINFMT_UNKNOWN = ''unknown''"
| "af_binfmt_name AF_BINFMT_ELF = ''ELF''"
| "af_binfmt_name AF_BINFMT_PE = ''PE''"
| "af_binfmt_name AF_BINFMT_MACHO = ''Mach-O''"
| "af_binfmt_name AF_BINFMT_DEX = ''DEX''"
| "af_binfmt_name AF_BINFMT_WASM = ''WebAssembly''"
| "af_binfmt_name AF_BINFMT_SCRIPT = ''script''"
| "af_binfmt_name AF_BINFMT_DEB = ''deb''"
| "af_binfmt_name AF_BINFMT_RPM = ''rpm''"
| "af_binfmt_name AF_BINFMT_PACMAN = ''pacman''"
| "af_binfmt_name AF_BINFMT_APK_PKG = ''Alpine apk''"
| "af_binfmt_name AF_BINFMT_APK_ANDROID = ''Android apk''"
| "af_binfmt_name AF_BINFMT_AAB = ''Android App Bundle''"
| "af_binfmt_name AF_BINFMT_FLATPAK = ''Flatpak''"
| "af_binfmt_name AF_BINFMT_SNAP = ''Snap''"
| "af_binfmt_name AF_BINFMT_MSI = ''MSI''"
| "af_binfmt_name AF_BINFMT_DMG = ''DMG''"
| "af_binfmt_name AF_BINFMT_APPIMAGE = ''AppImage''"
| "af_binfmt_name AF_BINFMT_JAR = ''JAR''"
| "af_binfmt_name AF_BINFMT_ZIP = ''ZIP''"
| "af_binfmt_name AF_BINFMT_TAR = ''tar''"
| "af_binfmt_name AF_BINFMT_SQUASHFS = ''Squashfs''"
| "af_binfmt_name AF_BINFMT_ZSTD = ''Zstandard''"
| "af_binfmt_name AF_BINFMT_GZIP = ''gzip''"
| "af_binfmt_name AF_BINFMT_XZ = ''xz''"

fun af_personality_name :: "af_personality \<Rightarrow> string" where
  "af_personality_name AF_PERSONALITY_NONE = ''none''"
| "af_personality_name AF_PERSONALITY_NATIVE = ''native''"
| "af_personality_name AF_PERSONALITY_LINUX = ''linux''"
| "af_personality_name AF_PERSONALITY_WINDOWS = ''windows''"
| "af_personality_name AF_PERSONALITY_ANDROID = ''android''"
| "af_personality_name AF_PERSONALITY_DARWIN = ''darwin''"
| "af_personality_name AF_PERSONALITY_WASM = ''wasm''"
| "af_personality_name AF_PERSONALITY_SCRIPT = ''script''"
| "af_personality_name AF_PERSONALITY_PACKAGE = ''package''"

definition af_binfmt_is_executable :: "af_binfmt \<Rightarrow> bool" where
  "af_binfmt_is_executable fmt \<longleftrightarrow>
     fmt \<in> {AF_BINFMT_ELF, AF_BINFMT_PE, AF_BINFMT_MACHO, AF_BINFMT_DEX, AF_BINFMT_WASM, AF_BINFMT_SCRIPT}"

definition af_binfmt_can_run :: "af_binfmt_info option \<Rightarrow> bool" where
  "af_binfmt_can_run info =
     (case info of None \<Rightarrow> False
      | Some i \<Rightarrow>
          if \<not> af_binfmt_is_executable (format i) then False
          else if flags i AND AF_BINFMT_F_NOEXEC \<noteq> 0 then False
          else if flags i AND AF_BINFMT_F_TRUNCATED \<noteq> 0 then False
          else True)"

section \<open>Every answer is well typed\<close>

text \<open>The personality each format needs, as the architecture document assigns them.\<close>

fun needs :: "af_binfmt \<Rightarrow> af_personality" where
  "needs AF_BINFMT_PE = AF_PERSONALITY_WINDOWS"
| "needs AF_BINFMT_MACHO = AF_PERSONALITY_DARWIN"
| "needs AF_BINFMT_DMG = AF_PERSONALITY_DARWIN"
| "needs AF_BINFMT_DEX = AF_PERSONALITY_ANDROID"
| "needs AF_BINFMT_APK_ANDROID = AF_PERSONALITY_ANDROID"
| "needs AF_BINFMT_AAB = AF_PERSONALITY_ANDROID"
| "needs AF_BINFMT_WASM = AF_PERSONALITY_WASM"
| "needs AF_BINFMT_SCRIPT = AF_PERSONALITY_SCRIPT"
| "needs AF_BINFMT_APPIMAGE = AF_PERSONALITY_LINUX"
| "needs AF_BINFMT_DEB = AF_PERSONALITY_PACKAGE"
| "needs AF_BINFMT_RPM = AF_PERSONALITY_PACKAGE"
| "needs AF_BINFMT_FLATPAK = AF_PERSONALITY_PACKAGE"
| "needs AF_BINFMT_SQUASHFS = AF_PERSONALITY_PACKAGE"
| "needs AF_BINFMT_MSI = AF_PERSONALITY_PACKAGE"
| "needs f = AF_PERSONALITY_NONE"

text \<open>
  The right personality, only the flags the header defines, nothing runnable that came out of a container,
  and none of the three formats the detector has no signature for.
\<close>

definition info_typed :: "af_binfmt_info \<Rightarrow> bool" where
  "info_typed i \<longleftrightarrow>
     personality i = needs (format i) \<and> flags i AND NOT 0x3B = 0 \<and> outer_format i = AF_BINFMT_UNKNOWN \<and>
     (af_binfmt_can_run (Some i) \<longrightarrow> flags i AND AF_BINFMT_F_CONTAINER = 0) \<and>
     (format i = AF_BINFMT_UNKNOWN \<longrightarrow> \<not> af_binfmt_can_run (Some i)) \<and>
     format i \<notin> {AF_BINFMT_PACMAN, AF_BINFMT_APK_PKG, AF_BINFMT_SNAP}"

named_theorems answer_simps

lemmas [answer_simps] = info_typed_def set_info_def unknown_def add_flags_def af_binfmt_can_run_def
  af_binfmt_is_executable_def

lemma typed_elf: "info_typed (classify_elf data)"
  by (auto simp: classify_elf_def answer_simps Let_def)

lemma typed_zip: "info_typed (classify_zip data)"
  by (auto simp: classify_zip_def answer_simps split: option.split)

lemma typed_fixed:
  "info_typed (set_info f w fl at) \<longleftrightarrow> w = needs f \<and> fl AND NOT 0x3B = 0 \<and>
     (af_binfmt_is_executable f \<and> fl AND AF_BINFMT_F_NOEXEC = 0 \<and> fl AND AF_BINFMT_F_TRUNCATED = 0 \<longrightarrow> fl AND AF_BINFMT_F_CONTAINER = 0) \<and>
     f \<notin> {AF_BINFMT_PACMAN, AF_BINFMT_APK_PKG, AF_BINFMT_SNAP}"
  "info_typed (unknown at)"
  by (auto simp: answer_simps)

lemma typed_pe: "classify_pe data = Ok i \<Longrightarrow> info_typed i"
  by (auto simp: classify_pe_def answer_simps Let_def reading_def split: if_splits)

lemma typed_macho:
  assumes "has data 0 4" "macho_magic data"
  shows "info_typed (classify_macho data out)"
  using assms by (auto simp: classify_macho_def macho_magic_def answer_simps Let_def)

text \<open>The one image whose optional header starts in front of the end of the buffer and ends behind it.\<close>

definition pe_cut :: "u8 list \<Rightarrow> bool" where
  "pe_cut data \<longleftrightarrow> match data 0 sig_mz \<and> has data 0 0x40 \<and>
     (let at = unat (rd32 data 0x3C) in match data at [0x50, 0x45, 0, 0] \<and> at + 24 \<le> length data \<and> length data < at + 26)"

lemma classify_pe_total: "classify_pe data = Fault \<longleftrightarrow> has data 0 0x40 \<and>
     (let at = unat (rd32 data 0x3C) in match data at [0x50, 0x45, 0, 0] \<and> at + 24 \<le> length data \<and> length data < at + 26)"
  by (auto simp: classify_pe_def reading_def Let_def has_def)

lemma classify_pe_no_error: "classify_pe data \<noteq> Fail e"
  by (auto simp: classify_pe_def reading_def Let_def)

lemma not_elf_mz: "match data 0 sig_elf \<Longrightarrow> \<not> match data 0 sig_mz"
  by (auto simp: match_def upt_rec)

text \<open>A predicate on the answer, if there is one.\<close>

fun answers :: "(af_binfmt_info \<Rightarrow> bool) \<Rightarrow> af_binfmt_info outcome \<Rightarrow> bool" where
  "answers P (Ok i) = P i"
| "answers P (Fail e) = False"
| "answers P Fault = True"

lemma answers_if: "answers P (if b then x else y) \<longleftrightarrow> (b \<longrightarrow> answers P x) \<and> (\<not> b \<longrightarrow> answers P y)"
  by simp

lemma answers_pe: "answers info_typed (classify_pe data)"
  using typed_pe [of data] classify_pe_no_error [of data] by (cases "classify_pe data") auto

lemma detect_answers: "answers info_typed (af_binfmt_detect buf out)"
  by (cases buf)
    (simp_all add: af_binfmt_detect_def answers_if typed_fixed typed_elf typed_zip typed_macho answers_pe
      af_binfmt_is_executable_def del: if_image_distrib split del: if_split)

lemma detect_fault: "af_binfmt_detect buf out = Fault \<longleftrightarrow> (\<exists>data. buf = Some data \<and> pe_cut data)"
proof (cases buf)
  case None
  then show ?thesis by (simp add: af_binfmt_detect_def)
next
  case (Some data)
  have mz: "data \<noteq> []" "\<not> match data 0 sig_elf" if "match data 0 sig_mz"
    using that not_elf_mz [of data] by (auto simp: match_def has_def)
  show ?thesis
  proof (cases "match data 0 sig_mz")
    case True
    then show ?thesis using mz [OF True] by (simp add: af_binfmt_detect_def Some pe_cut_def classify_pe_total)
  next
    case False
    then show ?thesis by (simp add: af_binfmt_detect_def Some pe_cut_def)
  qed
qed



section \<open>What can run\<close>

text \<open>The images a loader may enter, stated on their bytes.\<close>

definition enterable_elf :: "u8 list \<Rightarrow> bool" where
  "enterable_elf data \<longleftrightarrow> match data 0 sig_elf \<and> 20 \<le> length data \<and> data ! 4 \<in> {1, 2} \<and> data ! 5 \<in> {1, 2} \<and> rd16le data 16 \<noteq> 1"

definition enterable_pe :: "u8 list \<Rightarrow> bool" where
  "enterable_pe data \<longleftrightarrow> match data 0 sig_mz \<and> 0x40 \<le> length data \<and>
     (let at = unat (rd32 data 0x3C) in
        at + 26 \<le> length data \<and> match data at [0x50, 0x45, 0, 0] \<and> rd16le data (at + 24) \<in> {0x10B, 0x20B})"

definition enterable_macho :: "u8 list \<Rightarrow> bool" where
  "enterable_macho data \<longleftrightarrow> 8 \<le> length data \<and>
     (rd32be data 0 \<in> {0xCAFEBABE, 0xCAFEBABF} \<and> rd32be data 4 \<noteq> 0 \<and> rd32be data 4 \<le> 64 \<or>
      rd32be data 0 \<in> {0xFEEDFACF, 0xFEEDFACE} \<or> rd32 data 0 \<in> {0xFEEDFACF, 0xFEEDFACE})"

text \<open>A tar archive is recognised by a mark at offset 257, in front of the signatures of scripts and WebAssembly.\<close>

definition enterable :: "u8 list \<Rightarrow> bool" where
  "enterable data \<longleftrightarrow> enterable_elf data \<or> enterable_pe data \<or> enterable_macho data \<or> match data 0 sig_dex \<or>
     (match data 0 sig_script \<or> match data 0 sig_wasm) \<and> \<not> match data 257 (ascii ''ustar'')"

fun runs :: "af_binfmt_info outcome \<Rightarrow> bool" where
  "runs (Ok i) = af_binfmt_can_run (Some i)"
| "runs r = False"

lemma runs_if: "runs (if b then x else y) \<longleftrightarrow> (if b then runs x else runs y)"
  by simp

lemma runs_fixed:
  "af_binfmt_can_run (Some (set_info f w fl at)) \<longleftrightarrow> af_binfmt_is_executable f \<and> fl AND AF_BINFMT_F_NOEXEC = 0 \<and> fl AND AF_BINFMT_F_TRUNCATED = 0"
  "\<not> af_binfmt_can_run (Some (unknown at))" "\<not> af_binfmt_can_run (Some (add_flags fl (unknown at)))"
  "\<not> af_binfmt_can_run (Some (classify_zip data))"
  by (auto simp: answer_simps classify_zip_def split: option.split)

lemma runs_elf: "match data 0 sig_elf \<Longrightarrow> af_binfmt_can_run (Some (classify_elf data)) \<longleftrightarrow> enterable_elf data"
  by (auto simp: classify_elf_def enterable_elf_def answer_simps Let_def has_def)

lemma runs_pe: "match data 0 sig_mz \<Longrightarrow> runs (classify_pe data) \<longleftrightarrow> enterable_pe data"
  by (auto simp: classify_pe_def enterable_pe_def runs_fixed af_binfmt_is_executable_def reading_def Let_def has_def)

lemma macho_enterable: "enterable_macho data \<Longrightarrow> has data 0 4 \<and> macho_magic data"
  by (auto simp: enterable_macho_def macho_magic_def has_def Let_def)

lemma match_head: "match data 0 (b # bs) \<Longrightarrow> data ! 0 = b"
proof -
  assume "match data 0 (b # bs)"
  then have "\<forall>i < length (b # bs). data ! i = (b # bs) ! i" by (auto simp only: match_def atLeastLessThan_upt [symmetric] add_0 atLeastLessThan_iff)
  then show ?thesis by force
qed

lemma no_high_bit [simp]: "\<not> bit (x :: u8) (8 + n)" "\<not> bit (x :: u8) (16 + n)" "\<not> bit (x :: u8) (24 + n)"
  by (auto dest: bit_imp_le_length)

lemma match_other: "data ! 0 = c \<Longrightarrow> b \<noteq> c \<Longrightarrow> \<not> match data 0 (b # bs)"
  using match_head by blast

lemma ascii_marks:
  "ascii ''!<arch>'' = [0x21, 0x3C, 0x61, 0x72, 0x63, 0x68, 0x3E]" "ascii ''hsqs'' = [0x68, 0x73, 0x71, 0x73]"
  "ascii ''sqsh'' = [0x73, 0x71, 0x73, 0x68]" "ascii ''7zXZ'' = [0x37, 0x7A, 0x58, 0x5A]"
  "ascii ''ustar'' = [0x75, 0x73, 0x74, 0x61, 0x72]"
  by (simp_all add: ascii_def)

lemma first_byte_be: "rd32be data 0 = v \<Longrightarrow> data ! 0 = ucast (drop_bit 24 v)"
  by (auto simp: rd32be_def intro!: bit_word_eqI simp: bit_simps dest: bit_imp_le_length)

lemma first_byte_le: "rd32 data 0 = v \<Longrightarrow> data ! 0 = ucast v"
  by (auto simp: rd32_def intro!: bit_word_eqI simp: bit_simps dest: bit_imp_le_length)

lemma be_not_le: "rd32be data 0 \<in> {0xCAFEBABE, 0xCAFEBABF} \<Longrightarrow> rd32 data 0 \<notin> {0xFEEDFACF, 0xFEEDFACE}"
  "rd32be data 0 \<in> {0xCAFEBABE, 0xCAFEBABF} \<Longrightarrow> rd32be data 0 \<notin> {0xFEEDFACF, 0xFEEDFACE}"
  using first_byte_be [of data "rd32be data 0"] first_byte_le [of data "rd32 data 0"] by auto

lemma runs_macho:
  assumes "macho_magic data"
  shows "af_binfmt_can_run (Some (classify_macho data out)) \<longleftrightarrow> enterable_macho data"
proof (cases "rd32be data 0 \<in> {0xCAFEBABE, 0xCAFEBABF}")
  case True
  then show ?thesis using be_not_le [OF True]
    by (auto simp: classify_macho_def enterable_macho_def runs_fixed af_binfmt_is_executable_def Let_def has_def)
next
  case False
  then show ?thesis using assms
    by (auto simp: classify_macho_def enterable_macho_def macho_magic_def runs_fixed af_binfmt_is_executable_def Let_def has_def)
qed

lemma macho_head: "macho_magic data \<Longrightarrow> data ! 0 \<in> {0xCA, 0xFE, 0xCF, 0xCE}"
  by (auto simp: macho_magic_def Let_def dest!: first_byte_be first_byte_le)

text \<open>
  (C36) The detector and \<open>af_binfmt_can_run\<close> together accept exactly the enterable images.
\<close>

theorem can_run_exact:
  "(\<exists>i. af_binfmt_detect (Some data) out = Ok i \<and> af_binfmt_can_run (Some i)) \<longleftrightarrow> enterable data"
proof -
  have "(\<exists>i. af_binfmt_detect (Some data) out = Ok i \<and> af_binfmt_can_run (Some i)) \<longleftrightarrow> runs (af_binfmt_detect (Some data) out)"
    by (cases "af_binfmt_detect (Some data) out") simp_all
  also have "\<dots> \<longleftrightarrow> enterable data"
  proof (cases "data = []")
    case True
    then show ?thesis
      by (simp add: af_binfmt_detect_def runs_fixed enterable_def enterable_elf_def enterable_pe_def enterable_macho_def match_def has_def)
  next
    case False
    note D = af_binfmt_detect_def runs_if runs_fixed af_binfmt_is_executable_def enterable_def
    note heads = match_head [of data "0x7F" "[0x45, 0x4C, 0x46]"] match_head [of data "0x4D" "[0x5A]"]
      match_head [of data "0x64" "[0x65, 0x78, 0x0A]"] match_head [of data "0x23" "[0x21]"]
      match_head [of data 0 "[0x61, 0x73, 0x6D]"] macho_head [of data]
    have none: "\<not> enterable_elf data" if "\<not> match data 0 sig_elf" using that by (simp add: enterable_elf_def)
    have none': "\<not> enterable_pe data" if "\<not> match data 0 sig_mz" using that by (simp add: enterable_pe_def)
    consider (elf) "match data 0 sig_elf" | (mz) "\<not> match data 0 sig_elf" "match data 0 sig_mz"
      | (macho) "\<not> match data 0 sig_elf" "\<not> match data 0 sig_mz" "has data 0 4 \<and> macho_magic data"
      | (other) "\<not> match data 0 sig_elf" "\<not> match data 0 sig_mz" "\<not> (has data 0 4 \<and> macho_magic data)" by blast
    then show ?thesis
    proof cases
      case elf
      then show ?thesis using False heads none' macho_enterable [of data] by (auto simp: D runs_elf)
    next
      case mz
      then show ?thesis using False heads none macho_enterable [of data] by (auto simp: D runs_pe)
    next
      case macho
      then show ?thesis using False heads none none' by (auto simp: D runs_macho)
    next
      case other
      then have no: "\<not> enterable_elf data" "\<not> enterable_pe data" "\<not> enterable_macho data"
        using none none' macho_enterable by blast+
      consider "data ! 0 = 0x64" | "data ! 0 = 0x23" | "data ! 0 = 0" | "data ! 0 \<notin> {0x64, 0x23, 0}" by blast
      then show ?thesis
        by cases (cases "has data 0 4"; use False other no in \<open>simp add: D ascii_marks match_other\<close>)+
    qed
  qed
  finally show ?thesis .
qed

section \<open>The trailer of an archive\<close>

lemma scan_eocd_from:
  assumes "i \<le> length tail" "length tail - i \<le> 65536"
  shows "scan_eocd tail i = Some at \<longleftrightarrow> at + 22 \<le> i \<and> length tail - (at + 22) \<le> 65536 \<and> rd32 tail at = 0x06054b50 \<and>
     (\<forall>j. at < j \<longrightarrow> j + 22 \<le> i \<longrightarrow> rd32 tail j \<noteq> 0x06054b50)"
  using assms
proof (induction tail i rule: scan_eocd.induct)
  case (1 tail i)
  consider (short) "i < 22" | (here) "22 \<le> i" "rd32 tail (i - 22) = 0x06054b50"
    | (stop) "22 \<le> i" "rd32 tail (i - 22) \<noteq> 0x06054b50" "65535 < length tail - i"
    | (on) "22 \<le> i" "rd32 tail (i - 22) \<noteq> 0x06054b50" "length tail - i \<le> 65535" by linarith
  then show ?case
  proof cases
    case short
    then show ?thesis by (simp add: scan_eocd.simps)
  next
    case here
    then have "scan_eocd tail i = Some (i - 22)" by (simp add: scan_eocd.simps [of tail i])
    moreover have "at = i - 22" if "at + 22 \<le> i" "\<forall>j. at < j \<longrightarrow> j + 22 \<le> i \<longrightarrow> rd32 tail j \<noteq> 0x06054b50"
      using that here by (metis add_le_imp_le_diff le_add_diff_inverse2 le_neq_implies_less order_refl)
    ultimately show ?thesis using here 1(3) by auto
  next
    case stop
    then have "scan_eocd tail i = None" by (simp add: scan_eocd.simps [of tail i])
    moreover have "at + 22 \<noteq> i" if "rd32 tail at = 0x06054b50" using that stop(2) by auto
    ultimately show ?thesis using stop by auto
  next
    case on
    have eq: "scan_eocd tail i = scan_eocd tail (i - 1)" using on by (simp add: scan_eocd.simps [of tail i])
    have "at + 22 \<noteq> i" if "rd32 tail at = 0x06054b50" using that on(2) by auto
    moreover have "rd32 tail j \<noteq> 0x06054b50" if "j + 22 \<le> i" "\<not> j + 22 \<le> i - 1" for j
      using that on(1,2) by (metis Suc_pred' add_diff_cancel_right' le_SucE less_le_trans zero_less_numeral diff_Suc_1 le_eq_less_or_eq One_nat_def)
    ultimately show ?thesis
      unfolding eq using 1(1) on 1(2) by (auto intro: le_neq_implies_less)
  qed
qed

text \<open>
  The last end-of-central-directory record within reach of the largest archive comment is the one reported.
\<close>

theorem eocd_found:
  "scan_eocd tail (length tail) = Some at \<longleftrightarrow> at + 22 \<le> length tail \<and> length tail - (at + 22) \<le> 65536 \<and>
     rd32 tail at = 0x06054b50 \<and> (\<forall>j. at < j \<longrightarrow> j + 22 \<le> length tail \<longrightarrow> rd32 tail j \<noteq> 0x06054b50)"
  by (simp add: scan_eocd_from)

section \<open>Where the code falls short\<close>

text \<open>The optional-header magic is read behind a buffer that ends with the 24 bytes of the PE header.\<close>

theorem pe_overread:
  assumes "length data = 88" "match data 0 sig_mz" "rd32 data 0x3C = 0x40" "match data 0x40 [0x50, 0x45, 0, 0]"
  shows "af_binfmt_detect (Some data) out = Fault"
  using assms by (simp add: detect_fault pe_cut_def has_def)

text \<open>
  The scan for the AppImage mark stops at the first multiple of 1024 below 64 KiB, counted from the start of
  the tail: with a tail of 4096 bytes it looks at the last eight bytes only.
\<close>

theorem appimage_missed:
  assumes "length tail = 4096" "\<not> match tail 4088 [0x41, 0x49, 2]" "\<not> match tail 4088 [0x41, 0x49, 1]"
  shows "scan_appimage tail (length tail) = None"
  using assms by (simp add: scan_appimage.simps [of tail 4096])

end
