(* ===== verification/Inflate.thy ===== *)
theory Inflate
  imports Bytes
begin

text \<open>
  The DEFLATE decompressor of the package library (\<open>libs/libafpkg/inflate.c\<close>). The input is a list of
  bytes, the output buffer the list of the bytes written so far; \<open>Fault\<close> is an access outside a table or
  the buffer, or a read of a table entry that was never written. The explanation in prose that goes with
  every result (\<open>why\<close>) is left out. Positions and counts of bits are natural numbers: they never exceed
  the size of the input by more than a few bytes.
\<close>

section \<open>Bit reader\<close>

record bitreader =
  br_data :: "u8 list"
  br_byte :: nat
  br_buffer :: u32
  br_count :: nat
  br_overrun :: bool

definition br_init :: "u8 list \<Rightarrow> bitreader" where
  "br_init data = \<lparr>br_data = data, br_byte = 0, br_buffer = 0, br_count = 0, br_overrun = False\<rparr>"

definition br_load_byte :: "bitreader \<Rightarrow> bitreader" where
  "br_load_byte br =
     br\<lparr>br_buffer := br_buffer br OR push_bit (br_count br) (ucast (br_data br ! br_byte br)),
        br_byte := br_byte br + 1, br_count := br_count br + 8\<rparr>"

text \<open>The loop that loads bytes until there are \<open>n\<close> bits or no bytes.\<close>

function br_load :: "nat \<Rightarrow> bitreader \<Rightarrow> bitreader" where
  "br_load n br =
     (if br_count br < n \<and> br_byte br < length (br_data br) then br_load n (br_load_byte br) else br)"
  by auto
termination by (relation "measure (\<lambda>(n, br). n - br_count br)") (auto simp: br_load_byte_def)

declare br_load.simps [simp del]

definition br_bits :: "nat \<Rightarrow> bitreader \<Rightarrow> u32 \<times> bitreader" where
  "br_bits n br =
     (if n = 0 then (0, br)
      else let br1 = br_load n br in
        if br_count br1 < n then (0, br1\<lparr>br_overrun := True\<rparr>)
        else (br_buffer br1 AND (push_bit n 1 - 1),
              br1\<lparr>br_buffer := drop_bit n (br_buffer br1), br_count := br_count br1 - n\<rparr>))"

definition br_bit :: "bitreader \<Rightarrow> u32 \<times> bitreader" where
  "br_bit br = br_bits 1 br"

fun br_unread :: "bitreader \<Rightarrow> nat \<Rightarrow> bitreader" where
  "br_unread br 0 = br"
| "br_unread br (Suc k) =
     (if 8 \<le> br_count br
      then br_unread (br\<lparr>br_byte := br_byte br - 1, br_count := br_count br - 8, br_buffer := drop_bit 8 (br_buffer br)\<rparr>) k
      else br)"

definition br_align_unread :: "bitreader \<Rightarrow> bitreader" where
  "br_align_unread br =
     (let n = br_count br mod 8;
          br1 = br\<lparr>br_buffer := drop_bit n (br_buffer br), br_count := br_count br - n\<rparr>
      in br_unread br1 (br_count br1))"

section \<open>Huffman tables\<close>

abbreviation (input) "HUFF_MAX_BITS \<equiv> (15 :: nat)"
abbreviation (input) "HUFF_MAX_SYMS \<equiv> (288 :: nat)"

text \<open>\<open>None\<close> is an entry nothing has been stored in.\<close>

record huff =
  counts :: "u16 list"
  symbols :: "u16 option list"

definition fresh_huff :: huff where
  "fresh_huff = \<lparr>counts = replicate (HUFF_MAX_BITS + 1) 0, symbols = replicate HUFF_MAX_SYMS None\<rparr>"

definition count_lengths :: "u8 list \<Rightarrow> u16 list" where
  "count_lengths lengths =
     fold (\<lambda>l c. c[unat l := c ! unat l + 1]) lengths (replicate (HUFF_MAX_BITS + 1) 0)"

fun kraft_left :: "u16 list \<Rightarrow> nat list \<Rightarrow> int \<Rightarrow> int option" where
  "kraft_left c [] left = Some left"
| "kraft_left c (len # lens) left =
     (let left1 = 2 * left - int (unat (c ! len)) in if left1 < 0 then None else kraft_left c lens left1)"

definition code_offsets :: "u16 list \<Rightarrow> u16 list" where
  "code_offsets c = fold (\<lambda>len offs. offs[len + 1 := offs ! len + c ! len]) [1..<16] (replicate (HUFF_MAX_BITS + 2) 0)"

definition place_symbol :: "u8 list \<Rightarrow> nat \<Rightarrow> u16 list \<times> u16 option list \<Rightarrow> u16 list \<times> u16 option list" where
  "place_symbol lengths i st =
     (let (offs, syms) = st; l = unat (lengths ! i) in
      if l \<noteq> 0 then (offs[l := offs ! l + 1], syms[unat (offs ! l) := Some (of_nat i)]) else (offs, syms))"

text \<open>The result code and the table; lengths and symbols beyond the tables are a \<open>Fault\<close>.\<close>

definition huff_build :: "u8 list \<Rightarrow> (int \<times> huff) outcome" where
  "huff_build lengths =
     (if HUFF_MAX_SYMS < length lengths \<or> (\<exists>l \<in> set lengths. 15 < l) then Fault
      else let c = count_lengths lengths; h = fresh_huff\<lparr>counts := c\<rparr> in
        if unat (c ! 0) = length lengths then Ok (int (length lengths), h)
        else case kraft_left c [1..<16] 1 of
            None \<Rightarrow> Ok (-1, h)
          | Some left \<Rightarrow>
              let (offs, syms) = fold (place_symbol lengths) [0..<length lengths] (code_offsets c, symbols h)
              in Ok (left, h\<lparr>symbols := syms\<rparr>))"

definition symbol_at :: "huff \<Rightarrow> int \<Rightarrow> bitreader \<Rightarrow> (int \<times> bitreader) outcome" where
  "symbol_at h i br =
     (if i < 0 \<or> int (length (symbols h)) \<le> i then Fault
      else case symbols h ! nat i of None \<Rightarrow> Fault | Some s \<Rightarrow> Ok (int (unat s), br))"

fun decode_loop :: "nat list \<Rightarrow> int \<Rightarrow> int \<Rightarrow> int \<Rightarrow> huff \<Rightarrow> bitreader \<Rightarrow> (int \<times> bitreader) outcome" where
  "decode_loop [] code first index h br = Ok (-1, br)"
| "decode_loop (len # lens) code first index h br =
     (let (b, br1) = br_bit br; code1 = code OR int (unat b) in
      if br_overrun br1 then Ok (-1, br1)
      else let n = int (unat (counts h ! len)) in
        if code1 - first < n then symbol_at h (index + (code1 - first)) br1
        else decode_loop lens (2 * code1) (2 * (first + n)) (index + n) h br1)"

definition huff_decode :: "bitreader \<Rightarrow> huff \<Rightarrow> (int \<times> bitreader) outcome" where
  "huff_decode br h = decode_loop [1..<16] 0 0 0 h br"

definition fixed_literal_lengths :: "u8 list" where
  "fixed_literal_lengths = replicate 144 8 @ replicate 112 9 @ replicate 24 7 @ replicate 8 8"

definition fixed_distance_lengths :: "u8 list" where
  "fixed_distance_lengths = replicate 30 5"

definition build_fixed_literal :: "huff outcome" where
  "build_fixed_literal = andthen (huff_build fixed_literal_lengths) (\<lambda>r. Ok (snd r))"

definition build_fixed_distance :: "huff outcome" where
  "build_fixed_distance = andthen (huff_build fixed_distance_lengths) (\<lambda>r. Ok (snd r))"

section \<open>Length and distance codes\<close>

definition s_len_base :: "nat list" where
  "s_len_base = [3, 4, 5, 6, 7, 8, 9, 10, 11, 13, 15, 17, 19, 23, 27, 31, 35, 43, 51, 59, 67, 83, 99, 115, 131, 163, 195, 227, 258]"

definition s_len_extra :: "nat list" where
  "s_len_extra = [0, 0, 0, 0, 0, 0, 0, 0, 1, 1, 1, 1, 2, 2, 2, 2, 3, 3, 3, 3, 4, 4, 4, 4, 5, 5, 5, 5, 0]"

definition s_dist_base :: "nat list" where
  "s_dist_base = [1, 2, 3, 4, 5, 7, 9, 13, 17, 25, 33, 49, 65, 97, 129, 193, 257, 385, 513,
     769, 1025, 1537, 2049, 3073, 4097, 6145, 8193, 12289, 16385, 24577]"

definition s_dist_extra :: "nat list" where
  "s_dist_extra = [0, 0, 0, 0, 1, 1, 2, 2, 3, 3, 4, 4, 5, 5, 6, 6, 7, 7, 8, 8, 9, 9, 10, 10, 11, 11, 12, 12, 13, 13]"

definition s_clc_order :: "nat list" where
  "s_clc_order = [16, 17, 18, 0, 8, 7, 9, 6, 10, 5, 11, 4, 12, 3, 13, 2, 14, 1, 15]"

section \<open>Output\<close>

record sink =
  sk_bytes :: "u8 list"
  sk_size :: nat
  sk_full :: bool

definition sink_byte :: "u8 \<Rightarrow> sink \<Rightarrow> sink" where
  "sink_byte v out =
     (if sk_size out \<le> length (sk_bytes out) then out\<lparr>sk_full := True\<rparr> else out\<lparr>sk_bytes := sk_bytes out @ [v]\<rparr>)"

fun sink_copy :: "nat \<Rightarrow> nat \<Rightarrow> sink \<Rightarrow> sink" where
  "sink_copy distance 0 out = out"
| "sink_copy distance (Suc n) out =
     (if length (sk_bytes out) < distance then out\<lparr>sk_full := True\<rparr>
      else sink_copy distance n (sink_byte (sk_bytes out ! (length (sk_bytes out) - distance)) out))"

section \<open>Blocks\<close>

text \<open>What is left to read, in bits: it goes down with every symbol.\<close>

definition bits_left :: "bitreader \<Rightarrow> nat" where
  "bits_left br = 8 * (length (br_data br) - br_byte br) + br_count br"

lemma bits_left_load: "bits_left (br_load n br) = bits_left br"
proof (induction n br rule: br_load.induct)
  case (1 n br)
  then show ?case by (cases "br_count br < n \<and> br_byte br < length (br_data br)")
    (auto simp: br_load.simps [of n br] bits_left_def br_load_byte_def)
qed

lemma bits_left_bits: "br_bits n br = (v, br1) \<Longrightarrow> bits_left br1 \<le> bits_left br"
  using bits_left_load [of n br] by (auto simp: br_bits_def Let_def bits_left_def split: if_splits)

lemma bits_left_bit: "br_bit br = (v, br1) \<Longrightarrow> \<not> br_overrun br1 \<Longrightarrow> bits_left br1 < bits_left br"
  using bits_left_load [of 1 br] by (auto simp: br_bit_def br_bits_def Let_def bits_left_def split: if_splits)

lemma bits_left_loop: "decode_loop lens code first index h br = Ok (s, br1) \<Longrightarrow> 0 \<le> s \<Longrightarrow> bits_left br1 < bits_left br"
proof (induction lens code first index h br rule: decode_loop.induct)
  case (2 len lens code first index h br)
  obtain b br2 where b: "br_bit br = (b, br2)" by fastforce
  then have less: "bits_left br2 < bits_left br" if "\<not> br_overrun br2" using that by (rule bits_left_bit)
  show ?case
    using 2 b less by (fastforce simp: Let_def symbol_at_def split: if_splits option.splits)
qed simp

lemma bits_left_decode: "huff_decode br h = Ok (s, br1) \<Longrightarrow> 0 \<le> s \<Longrightarrow> bits_left br1 < bits_left br"
  unfolding huff_decode_def by (rule bits_left_loop)

lemma bits_left_round:
  assumes "huff_decode br lit = Ok (x, br1)" "\<not> x < 0" "(lx, br2) = br_bits n br1"
    "huff_decode br2 dist = Ok (y, br3)" "\<not> y < 0" "(dx, br4) = br_bits m br3"
  shows "bits_left br4 < bits_left br"
  using bits_left_decode [OF assms(1)] bits_left_bits [OF assms(3) [symmetric]] bits_left_decode [OF assms(4)]
    bits_left_bits [OF assms(6) [symmetric]] assms(2,5) by simp

function inflate_block :: "huff \<Rightarrow> huff \<Rightarrow> bitreader \<Rightarrow> sink \<Rightarrow> (bitreader \<times> sink) outcome" where
  "inflate_block lit dist br out =
     (case huff_decode br lit of Fault \<Rightarrow> Fault | Fail e \<Rightarrow> Fail e
      | Ok (symbol, br1) \<Rightarrow>
          if symbol < 0 then Fail AF_ERR_FS_CORRUPT
          else if symbol < 256 then
            let out1 = sink_byte (of_int symbol) out in
            if sk_full out1 then Fail AF_ERR_TOOMANY else inflate_block lit dist br1 out1
          else if symbol = 256 then Ok (br1, out)
          else let length_code = symbol - 257 in
            if length_code < 0 \<or> 28 < length_code then Fail AF_ERR_FS_CORRUPT
            else (case br_bits (s_len_extra ! nat length_code) br1 of (lx, br2) \<Rightarrow>
              (case huff_decode br2 dist of Fault \<Rightarrow> Fault | Fail e \<Rightarrow> Fail e
               | Ok (dist_symbol, br3) \<Rightarrow>
                   if dist_symbol < 0 \<or> 29 < dist_symbol then Fail AF_ERR_FS_CORRUPT
                   else (case br_bits (s_dist_extra ! nat dist_symbol) br3 of (dx, br4) \<Rightarrow>
                     if br_overrun br4 then Fail AF_ERR_FS_CORRUPT
                     else let out1 = sink_copy (s_dist_base ! nat dist_symbol + unat dx) (s_len_base ! nat length_code + unat lx) out in
                       if sk_full out1 then Fail AF_ERR_TOOMANY else inflate_block lit dist br4 out1))))"
  by auto
termination
proof (relation "measure (\<lambda>(l, d, br, out). bits_left br)", goal_cases)
  case 1
  then show ?case by simp
next
  case prems: 2
  then show ?case using bits_left_decode by fastforce
next
  case prems: 3
  then show ?case by (auto intro: bits_left_round)
qed

declare inflate_block.simps [simp del]

definition region_ok :: "u8 list \<Rightarrow> nat \<Rightarrow> nat \<Rightarrow> bool" where
  "region_ok data at n \<longleftrightarrow> at \<le> length data \<and> n \<le> length data - at"

definition inflate_stored :: "bitreader \<Rightarrow> sink \<Rightarrow> (bitreader \<times> sink) outcome" where
  "inflate_stored br0 out =
     (let br = br_align_unread br0 in
      if \<not> region_ok (br_data br) (br_byte br) 4 then Fail AF_ERR_FS_CORRUPT
      else let blen = rd16 (br_data br) (br_byte br);
               nlen = rd16 (br_data br) (br_byte br + 2);
               br1 = br\<lparr>br_byte := br_byte br + 4\<rparr>
        in if blen XOR nlen \<noteq> 0xFFFF then Fail AF_ERR_FS_CORRUPT
           else if \<not> region_ok (br_data br1) (br_byte br1) (unat blen) then Fail AF_ERR_FS_CORRUPT
           else if sk_size out < length (sk_bytes out) + unat blen then Fail AF_ERR_TOOMANY
           else Ok (br1\<lparr>br_byte := br_byte br1 + unat blen\<rparr>,
                    fold sink_byte (take (unat blen) (drop (br_byte br1) (br_data br1))) out))"

section \<open>The tables of a dynamic block\<close>

fun clc_lengths :: "nat list \<Rightarrow> u8 list \<Rightarrow> bitreader \<Rightarrow> u8 list \<times> bitreader" where
  "clc_lengths [] ls br = (ls, br)"
| "clc_lengths (k # ks) ls br = (let (v, br1) = br_bits 3 br in clc_lengths ks (ls[k := ucast v]) br1)"

text \<open>The lengths read so far are \<open>xs\<close>.\<close>

function code_lengths :: "huff \<Rightarrow> nat \<Rightarrow> u8 list \<Rightarrow> bitreader \<Rightarrow> (u8 list \<times> bitreader) outcome" where
  "code_lengths clc want xs br =
     (if want \<le> length xs then Ok (xs, br)
      else (case huff_decode br clc of Fault \<Rightarrow> Fault | Fail e \<Rightarrow> Fail e
        | Ok (symbol, br1) \<Rightarrow>
            if symbol < 0 then Fail AF_ERR_FS_CORRUPT
            else if symbol < 16 then code_lengths clc want (xs @ [of_int symbol]) br1
            else if symbol = 16 \<and> xs = [] then Fail AF_ERR_FS_CORRUPT
            else let v = (if symbol = 16 then last xs else 0);
                     (base, n) = (if symbol = 16 then (3, 2) else if symbol = 17 then (3, 3) else (11, 7));
                     (rx, br2) = br_bits n br1;
                     repeat = base + unat rx
              in if want < length xs + repeat then Fail AF_ERR_FS_CORRUPT
                 else code_lengths clc want (xs @ replicate repeat v) br2))"
  by auto
termination
  by (relation "measure (\<lambda>(clc, want, xs, br). want - length xs)") (auto split: if_splits)

declare code_lengths.simps [simp del]

definition read_dynamic_tables :: "bitreader \<Rightarrow> (huff \<times> huff \<times> bitreader) outcome" where
  "read_dynamic_tables br =
     (let (a, br1) = br_bits 5 br; hlit = unat a + 257;
          (b, br2) = br_bits 5 br1; hdist = unat b + 1;
          (c, br3) = br_bits 4 br2; hclen = unat c + 4
      in if br_overrun br3 \<or> 286 < hlit \<or> 30 < hdist then Fail AF_ERR_FS_CORRUPT
         else let (clens, br4) = clc_lengths (take hclen s_clc_order) (replicate 19 0) br3 in
           andthen (huff_build clens) (\<lambda>(r, clc).
             if r < 0 then Fail AF_ERR_FS_CORRUPT
             else andthen (code_lengths clc (hlit + hdist) [] br4) (\<lambda>(lengths, br5).
               if br_overrun br5 then Fail AF_ERR_FS_CORRUPT
               else andthen (huff_build (take hlit lengths)) (\<lambda>(r1, lit).
                 if r1 < 0 then Fail AF_ERR_FS_CORRUPT
                 else andthen (huff_build (drop hlit lengths)) (\<lambda>(r2, dist).
                   if r2 < 0 then Fail AF_ERR_FS_CORRUPT else Ok (lit, dist, br5))))))"

section \<open>The entry point\<close>

definition inflate_type :: "u32 \<Rightarrow> bitreader \<Rightarrow> sink \<Rightarrow> (bitreader \<times> sink) outcome" where
  "inflate_type typ br out =
     (if typ = 0 then inflate_stored br out
      else if typ = 1 then andthen build_fixed_literal (\<lambda>lit. andthen build_fixed_distance (\<lambda>dist. inflate_block lit dist br out))
      else if typ = 2 then andthen (read_dynamic_tables br) (\<lambda>(lit, dist, br1). inflate_block lit dist br1 out)
      else Fail AF_ERR_FS_CORRUPT)"

function inflate_loop :: "nat \<Rightarrow> bitreader \<Rightarrow> sink \<Rightarrow> (bitreader \<times> sink) outcome" where
  "inflate_loop blocks br out =
     (case br_bit br of (final, br1) \<Rightarrow> (case br_bits 2 br1 of (typ, br2) \<Rightarrow>
        if br_overrun br2 then Fail AF_ERR_FS_CORRUPT
        else (case inflate_type typ br2 out of Fault \<Rightarrow> Fault | Fail e \<Rightarrow> Fail e
          | Ok (br3, out1) \<Rightarrow>
              if final \<noteq> 0 then Ok (br3, out1)
              else if 0x100000 < blocks + 1 then Fail AF_ERR_FS_CORRUPT
              else if length (br_data br3) \<le> br_byte br3 \<and> br_count br3 = 0 then Fail AF_ERR_FS_CORRUPT
              else inflate_loop (blocks + 1) br3 out1)))"
  by auto
termination by (relation "measure (\<lambda>(blocks, br, out). 0x100001 - blocks)") auto

declare inflate_loop.simps [simp del]

text \<open>
  \<open>None\<close> stands for a null pointer; the result is the bytes written and how many bytes of the input were
  used.
\<close>

definition afpkg_inflate :: "u8 list option \<Rightarrow> nat option \<Rightarrow> bool \<Rightarrow> (u8 list \<times> nat) outcome" where
  "afpkg_inflate data out_size has_out_len =
     (case (data, out_size) of
        (Some d, Some sz) \<Rightarrow>
          if \<not> has_out_len then Fail AF_ERR_INVAL
          else andthen (inflate_loop 0 (br_init d) \<lparr>sk_bytes = [], sk_size = sz, sk_full = False\<rparr>) (\<lambda>(br, out).
            let bits_used = br_byte br * 8 - br_count br;
                bytes_used = (bits_used + 7) div 8
            in Ok (sk_bytes out, if bytes_used \<le> length d then bytes_used else length d))
      | _ \<Rightarrow> Fail AF_ERR_INVAL)"

section \<open>The stream as a list of bits\<close>

text \<open>
  RFC 1951 describes the stream bit by bit: the bits of a byte from the least significant one up, numbers
  with their least significant bit first, Huffman codes with their most significant bit first.
\<close>

definition low_bits :: "nat \<Rightarrow> 'a::semiring_bit_operations \<Rightarrow> bool list" where
  "low_bits n v = map (bit v) [0..<n]"

definition bits_of :: "u8 list \<Rightarrow> bool list" where
  "bits_of data = concat (map (low_bits 8) data)"

definition bits_val :: "bool list \<Rightarrow> nat" where
  "bits_val bs = horner_sum of_bool 2 bs"

lemma length_low_bits [simp]: "length (low_bits n v) = n"
  by (simp add: low_bits_def)

lemma low_bits_0 [simp]: "low_bits 0 v = []"
  by (simp add: low_bits_def)

lemma bits_of_simps [simp]: "bits_of [] = []" "bits_of (b # bs) = low_bits 8 b @ bits_of bs" "bits_of (xs @ ys) = bits_of xs @ bits_of ys"
  by (simp_all add: bits_of_def)

lemma length_bits_of [simp]: "length (bits_of data) = 8 * length data"
  by (induction data) simp_all

lemma drop_bits_of: "drop (8 * k) (bits_of data) = bits_of (drop k data)"
proof (induction k arbitrary: data)
  case (Suc k)
  then show ?case by (cases data) simp_all
qed simp

lemma take_bits_of: "take (8 * k) (bits_of data) = bits_of (take k data)"
proof (induction k arbitrary: data)
  case (Suc k)
  then show ?case by (cases data) simp_all
qed simp

lemma val_low_bits: "bits_val (low_bits n v) = take_bit n v"
  by (simp add: bits_val_def low_bits_def horner_sum_bit_eq_take_bit)

lemma unat_low_bits: "bits_val (low_bits n v) = unat (take_bit n (v :: 'a::len word))"
proof -
  have "low_bits n v = low_bits n (unat v)" by (simp add: low_bits_def bit_unsigned_iff)
  then show ?thesis by (simp add: val_low_bits unsigned_take_bit_eq)
qed

lemma bits_val_less: "bits_val bs < 2 ^ length bs"
  by (simp add: bits_val_def horner_sum_of_bool_2_less)

lemma low_bits_val: "low_bits (length bs) (bits_val bs) = bs"
  by (rule nth_equalityI) (simp_all add: low_bits_def bits_val_def bit_horner_sum_bit_iff)

lemma bits_val_inj: "length bs = length cs \<Longrightarrow> bits_val bs = bits_val cs \<Longrightarrow> bs = cs"
  by (metis low_bits_val)

lemma low_bits_eq_val: "length bs = n \<Longrightarrow> (v :: nat) < 2 ^ n \<Longrightarrow> bs = low_bits n v \<longleftrightarrow> bits_val bs = v"
  by (metis low_bits_val val_low_bits take_bit_nat_eq_self)

lemma take_low_bits: "n \<le> m \<Longrightarrow> take n (low_bits m v) = low_bits n v"
  by (simp add: low_bits_def take_map)

lemma drop_low_bits: "drop n (low_bits m v) = low_bits (m - n) (drop_bit n v)"
  by (rule nth_equalityI) (simp_all add: low_bits_def bit_drop_bit_eq add.commute)

section \<open>The bit reader\<close>

definition rest :: "bitreader \<Rightarrow> bool list" where
  "rest br = low_bits (br_count br) (br_buffer br) @ bits_of (drop (br_byte br) (br_data br))"

definition br_wf :: "bitreader \<Rightarrow> bool" where
  "br_wf br \<longleftrightarrow> br_byte br \<le> length (br_data br) \<and> take_bit (br_count br) (br_buffer br) = br_buffer br"

definition br_ok :: "bitreader \<Rightarrow> bool" where
  "br_ok br \<longleftrightarrow> br_wf br \<and> br_count br < 8 \<and> \<not> br_overrun br"

lemma length_rest: "br_wf br \<Longrightarrow> length (rest br) = bits_left br"
  by (simp add: rest_def br_wf_def bits_left_def)

lemma take_bit_all: "(\<And>i. bit (x :: 'a::len word) i \<Longrightarrow> i < n) \<Longrightarrow> take_bit n x = x"
  by (rule bit_word_eqI) (auto simp: bit_take_bit_iff)

lemma br_load_stop: "\<not> (br_count br < n \<and> br_byte br < length (br_data br)) \<Longrightarrow> br_load n br = br"
  by (subst br_load.simps) (rule if_not_P)

lemma br_load_more: "br_count br < n \<and> br_byte br < length (br_data br) \<Longrightarrow> br_load n br = br_load n (br_load_byte br)"
  by (subst br_load.simps) (rule if_P)

lemma load_byte_ok:
  assumes wf: "br_wf br" and room: "br_count br + 8 \<le> 32" and more: "br_byte br < length (br_data br)"
  shows "br_wf (br_load_byte br)" "rest (br_load_byte br) = rest br"
proof -
  let ?c = "br_count br" and ?b = "br_buffer br" and ?x = "br_data br ! br_byte br"
  have z: "bit ?b i \<Longrightarrow> i < ?c" for i using wf unfolding br_wf_def by (metis bit_take_bit_iff)
  have "bit (?b OR push_bit ?c (ucast ?x)) i \<Longrightarrow> i < ?c + 8" for i
    using z [of i] bit_imp_le_length [of ?x "i - ?c"] by (fastforce simp: bit_simps)
  then have "take_bit (?c + 8) (?b OR push_bit ?c (ucast ?x)) = ?b OR push_bit ?c (ucast ?x)"
    by (rule take_bit_all)
  then show "br_wf (br_load_byte br)" using wf more by (simp add: br_wf_def br_load_byte_def)
  have "low_bits (?c + 8) (?b OR push_bit ?c (ucast ?x)) = low_bits ?c ?b @ low_bits 8 ?x"
    by (rule nth_equalityI) (use z room in \<open>auto simp: low_bits_def nth_append bit_simps\<close>)
  moreover have "drop (br_byte br) (br_data br) = ?x # drop (Suc (br_byte br)) (br_data br)"
    using more by (simp add: Cons_nth_drop_Suc)
  ultimately show "rest (br_load_byte br) = rest br" by (simp add: rest_def br_load_byte_def)
qed

lemma load_ok:
  assumes "br_wf br" "n \<le> 24"
  shows "br_wf (br_load n br) \<and> rest (br_load n br) = rest br \<and> br_overrun (br_load n br) = br_overrun br \<and>
     br_data (br_load n br) = br_data br \<and> (br_count (br_load n br) < n \<longrightarrow> length (rest br) < n) \<and>
     br_count (br_load n br) \<le> max (br_count br) (n + 7)"
  using assms
proof (induction n br rule: br_load.induct)
  case (1 n br)
  show ?case
  proof (cases "br_count br < n \<and> br_byte br < length (br_data br)")
    case True
    then have eq: "br_load n br = br_load n (br_load_byte br)" by (rule br_load_more)
    have lb: "br_wf (br_load_byte br)" "rest (br_load_byte br) = rest br"
      using load_byte_ok [OF 1(2)] True 1(3) by simp_all
    have "br_overrun (br_load_byte br) = br_overrun br" "br_data (br_load_byte br) = br_data br"
        "br_count (br_load_byte br) = br_count br + 8" by (simp_all add: br_load_byte_def)
    then show ?thesis using 1(1) [OF True lb(1) 1(3)] lb(2) True unfolding eq by fastforce
  next
    case False
    then have eq: "br_load n br = br" by (rule br_load_stop)
    have "br_count br < n \<longrightarrow> length (rest br) < n"
      using False 1(2) by (auto simp: length_rest bits_left_def)
    then show ?thesis using 1(2) by (simp add: eq)
  qed
qed

lemma load_overrun: "br_overrun (br_load n br) = br_overrun br"
proof (induction n br rule: br_load.induct)
  case (1 n br)
  then show ?case
    by (cases "br_count br < n \<and> br_byte br < length (br_data br)") (simp_all add: br_load_more br_load_stop br_load_byte_def)
qed

text \<open>A read that asks for no more than there is takes the next bits.\<close>

lemma br_bits_ok:
  assumes ok: "br_ok br" and n: "n \<le> 16" "n \<le> length (rest br)" and r: "br_bits n br = (v, br1)"
  shows "unat v = bits_val (take n (rest br))" "rest br1 = drop n (rest br)" "br_ok br1" "br_data br1 = br_data br"
proof -
  have wf: "br_wf br" using ok by (simp add: br_ok_def)
  let ?l = "br_load n br"
  have L: "br_wf ?l" "rest ?l = rest br" "br_overrun ?l = br_overrun br" "br_data ?l = br_data br"
      "\<not> br_count ?l < n" "br_count ?l \<le> max (br_count br) (n + 7)"
    using load_ok [OF wf, of n] n by auto
  have "unat v = bits_val (take n (rest br)) \<and> rest br1 = drop n (rest br) \<and> br_ok br1 \<and> br_data br1 = br_data br"
  proof (cases "n = 0")
    case True
    then show ?thesis using r ok by (simp add: br_bits_def bits_val_def)
  next
    case False
    have v: "v = take_bit n (br_buffer ?l)"
        "br1 = ?l\<lparr>br_buffer := drop_bit n (br_buffer ?l), br_count := br_count ?l - n\<rparr>"
      using r False L(5) by (auto simp: br_bits_def Let_def take_bit_eq_mask mask_eq_exp_minus_1 push_bit_eq_mult)
    have R: "rest br = low_bits (br_count ?l) (br_buffer ?l) @ bits_of (drop (br_byte ?l) (br_data ?l))"
      unfolding L(2) [symmetric] by (simp only: rest_def)
    have "take n (rest br) = low_bits n (br_buffer ?l)"
      using L(5) unfolding R by (simp add: take_low_bits)
    moreover have "rest br1 = drop n (rest br)"
      using L(5) unfolding R by (simp add: v(2) rest_def drop_low_bits)
    moreover have "take_bit (br_count ?l - n) (drop_bit n (br_buffer ?l)) = drop_bit n (br_buffer ?l)"
      using L(1,5) by (metis br_wf_def drop_bit_take_bit linorder_not_less)
    then have "br_ok br1"
      using L ok by (auto simp: br_ok_def br_wf_def v(2))
    ultimately show ?thesis by (simp add: v unat_low_bits L(4))
  qed
  then show "unat v = bits_val (take n (rest br))" "rest br1 = drop n (rest br)" "br_ok br1" "br_data br1 = br_data br" by blast+
qed

lemma br_bits_short:
  assumes ok: "br_ok br" and n: "n \<le> 16" "length (rest br) < n" and r: "br_bits n br = (v, br1)"
  shows "br_overrun br1" "v = 0"
proof -
  have wf: "br_wf br" using ok by (simp add: br_ok_def)
  have L: "br_wf (br_load n br)" "rest (br_load n br) = rest br" using load_ok [OF wf, of n] n by auto
  have "br_count (br_load n br) \<le> length (rest (br_load n br))" by (simp add: rest_def)
  then have "br_count (br_load n br) < n" using n L(2) by simp
  then show "br_overrun br1" "v = 0" using r n by (auto simp: br_bits_def Let_def)
qed

lemma br_bits_sticky: "br_bits n br = (v, br1) \<Longrightarrow> br_overrun br \<Longrightarrow> br_overrun br1"
  by (auto simp: br_bits_def Let_def load_overrun split: if_splits)

lemma br_bits_read:
  assumes "br_ok br" "n \<le> 16" "br_bits n br = (v, br1)" "\<not> br_overrun br1"
  shows "n \<le> length (rest br)"
  using br_bits_short [OF assms(1,2) _ assms(3)] assms(4) by (meson linorder_not_less)

lemma br_bits_small: "br_bits n br = (v, br1) \<Longrightarrow> n < 32 \<Longrightarrow> unat v < 2 ^ n"
proof -
  assume a: "br_bits n br = (v, br1)" "n < 32"
  have "v = 0 \<or> (\<exists>x. v = take_bit n x)"
    using a(1) by (auto simp: br_bits_def Let_def take_bit_eq_mask mask_eq_exp_minus_1 push_bit_eq_mult split: if_splits)
  then show ?thesis by (auto simp: unsigned_take_bit_eq)
qed

lemma br_init_ok: "br_ok (br_init data)" "rest (br_init data) = bits_of data"
  by (simp_all add: br_ok_def br_wf_def br_init_def rest_def)

section \<open>Canonical Huffman codes\<close>

text \<open>
  RFC 1951, section 3.2.2: the codes of one length are consecutive numbers in the order of the symbols, and
  the first code of a length follows from the number of shorter codes. A code is \<open>of_len\<close>-many bits, the
  most significant first; length 0 means no code.
\<close>

definition of_len :: "nat list \<Rightarrow> nat \<Rightarrow> nat list" where
  "of_len ls l = filter (\<lambda>s. ls ! s = l) [0..<length ls]"

definition cnt :: "nat list \<Rightarrow> nat \<Rightarrow> nat" where
  "cnt ls l = length (of_len ls l)"

fun first_code :: "nat list \<Rightarrow> nat \<Rightarrow> nat" where
  "first_code ls 0 = 0"
| "first_code ls (Suc 0) = 0"
| "first_code ls (Suc (Suc l)) = 2 * (first_code ls (Suc l) + cnt ls (Suc l))"

definition code_number :: "nat list \<Rightarrow> nat \<Rightarrow> nat" where
  "code_number ls s = first_code ls (ls ! s) + length (filter (\<lambda>t. ls ! t = ls ! s) [0..<s])"

definition msb_bits :: "nat \<Rightarrow> nat \<Rightarrow> bool list" where
  "msb_bits l v = rev (low_bits l v)"

definition code_bits :: "nat list \<Rightarrow> nat \<Rightarrow> bool list" where
  "code_bits ls s = msb_bits (ls ! s) (code_number ls s)"

definition has_code :: "nat list \<Rightarrow> nat \<Rightarrow> bool" where
  "has_code ls s \<longleftrightarrow> s < length ls \<and> ls ! s \<noteq> 0"

text \<open>Kraft's inequality: the code words fit.\<close>

definition kraft :: "nat list \<Rightarrow> bool" where
  "kraft ls \<longleftrightarrow> (\<Sum>l\<leftarrow>[1..<16]. cnt ls l * 2 ^ (15 - l)) \<le> 2 ^ 15"

definition used_space :: "nat list \<Rightarrow> nat \<Rightarrow> nat" where
  "used_space ls l = first_code ls l + (if l = 0 then 0 else cnt ls l)"

lemma used_space_Suc: "used_space ls (Suc l) = 2 * used_space ls l + cnt ls (Suc l)"
  by (cases l) (simp_all add: used_space_def)

lemma used_space_sum: "used_space ls l = (\<Sum>k\<leftarrow>[1..<Suc l]. cnt ls k * 2 ^ (l - k))"
proof (induction l)
  case 0
  then show ?case by (simp add: used_space_def)
next
  case (Suc l)
  have "(\<Sum>k\<leftarrow>[1..<Suc l]. cnt ls k * 2 ^ (Suc l - k)) = 2 * (\<Sum>k\<leftarrow>[1..<Suc l]. cnt ls k * 2 ^ (l - k))"
    unfolding sum_list_const_mult [symmetric] by (intro arg_cong [of _ _ sum_list] map_cong) (auto simp: Suc_diff_le)
  then show ?case using Suc by (simp add: used_space_Suc)
qed

lemma used_space_grows: "used_space ls l * 2 ^ k \<le> used_space ls (l + k)"
proof (induction k)
  case (Suc k)
  have "used_space ls l * 2 ^ Suc k \<le> 2 * used_space ls (l + k)" using Suc by simp
  then show ?case using used_space_Suc [of ls "l + k"] by simp
qed simp

lemma kraft_space: "kraft ls \<longleftrightarrow> (\<forall>l \<in> set [1..<16]. used_space ls l \<le> 2 ^ l)"
proof -
  have "kraft ls \<longleftrightarrow> used_space ls 15 \<le> 2 ^ 15" by (simp add: kraft_def used_space_sum)
  moreover have "used_space ls l \<le> 2 ^ l" if "used_space ls 15 \<le> 2 ^ 15" "l \<in> set [1..<16]" for l
  proof -
    have "used_space ls l * 2 ^ (15 - l) \<le> 2 ^ l * 2 ^ (15 - l)"
      using used_space_grows [of ls l "15 - l"] that by (simp flip: power_add)
    then show ?thesis by simp
  qed
  moreover have "15 \<in> set [1..<16]" by simp
  ultimately show ?thesis by blast
qed

section \<open>Bits and numbers, most significant first\<close>

definition msb_val :: "bool list \<Rightarrow> nat" where
  "msb_val p = bits_val (rev p)"

lemma msb_val_snoc: "msb_val (p @ [b]) = 2 * msb_val p + of_bool b"
  by (simp add: msb_val_def bits_val_def)

lemma length_msb_bits [simp]: "length (msb_bits l v) = l"
  by (simp add: msb_bits_def)

lemma msb_bits_val: "msb_bits (length p) (msb_val p) = p"
  using low_bits_val [of "rev p"] by (simp add: msb_bits_def msb_val_def)

lemma msb_val_bits: "v < 2 ^ l \<Longrightarrow> msb_val (msb_bits l v) = v"
  by (simp add: msb_val_def msb_bits_def val_low_bits take_bit_nat_eq_self)

lemma take_msb_bits: "k \<le> l \<Longrightarrow> take k (msb_bits l v) = msb_bits k (v div 2 ^ (l - k))"
  by (simp add: msb_bits_def take_rev drop_low_bits drop_bit_eq_div)

lemma msb_val_Nil [simp]: "msb_val [] = 0"
  by (simp add: msb_val_def bits_val_def)

lemma length_code_bits [simp]: "length (code_bits ls s) = ls ! s"
  by (simp add: code_bits_def)

section \<open>Decoding a symbol\<close>

definition start_at :: "nat list \<Rightarrow> nat \<Rightarrow> nat" where
  "start_at ls l = (\<Sum>k\<leftarrow>[1..<l]. cnt ls k)"

text \<open>What \<open>huff_build\<close> leaves: the counts and the symbols by length.\<close>

definition table_ok :: "huff \<Rightarrow> nat list \<Rightarrow> bool" where
  "table_ok h ls \<longleftrightarrow> length ls \<le> 288 \<and> length (symbols h) = 288 \<and>
     (\<forall>l \<in> {1..15}. unat (counts h ! l) = cnt ls l) \<and>
     (\<forall>l \<in> {1..15}. \<forall>k < cnt ls l. start_at ls l + k < 288 \<and> symbols h ! (start_at ls l + k) = Some (of_nat (of_len ls l ! k)))"

lemma of_len_split:
  assumes "s < length ls" "ls ! s = l"
  shows "of_len ls l = filter (\<lambda>t. ls ! t = l) [0..<s] @ s # filter (\<lambda>t. ls ! t = l) [Suc s..<length ls]"
proof -
  have "[0..<length ls] = [0..<s] @ s # [Suc s..<length ls]"
    using assms(1) by (metis less_imp_le_nat upt_add_eq_append upt_conv_Cons zero_le le_add_diff_inverse add_0)
  then show ?thesis using assms(2) by (simp add: of_len_def)
qed

lemma of_len_nth:
  assumes "k < cnt ls l" "of_len ls l ! k = s"
  shows "s < length ls" "ls ! s = l" "length (filter (\<lambda>t. ls ! t = l) [0..<s]) = k"
proof -
  have "s \<in> set (of_len ls l)" using assms by (auto simp: cnt_def)
  then show s: "s < length ls" "ls ! s = l" by (auto simp: of_len_def)
  note o = of_len_split [OF s]
  have "distinct (of_len ls l)" by (simp add: of_len_def)
  moreover have "of_len ls l ! length (filter (\<lambda>t. ls ! t = l) [0..<s]) = s" "length (filter (\<lambda>t. ls ! t = l) [0..<s]) < cnt ls l"
    by (simp_all add: o cnt_def)
  ultimately show "length (filter (\<lambda>t. ls ! t = l) [0..<s]) = k"
    using assms by (metis cnt_def nth_eq_iff_index_eq)
qed

lemma symbol_index:
  assumes "has_code ls s"
  shows "length (filter (\<lambda>t. ls ! t = ls ! s) [0..<s]) < cnt ls (ls ! s)"
    "of_len ls (ls ! s) ! length (filter (\<lambda>t. ls ! t = ls ! s) [0..<s]) = s"
  using assms by (simp_all add: has_code_def cnt_def of_len_split [of s ls])

lemma code_in_range:
  assumes "has_code ls s" "kraft ls" "ls ! s \<le> 15"
  shows "first_code ls (ls ! s) \<le> code_number ls s" "code_number ls s < used_space ls (ls ! s)" "code_number ls s < 2 ^ (ls ! s)"
proof -
  show "first_code ls (ls ! s) \<le> code_number ls s" by (simp add: code_number_def)
  show *: "code_number ls s < used_space ls (ls ! s)"
    using symbol_index(1) [OF assms(1)] assms(1) by (simp add: code_number_def used_space_def has_code_def)
  have "used_space ls (ls ! s) \<le> 2 ^ (ls ! s)"
    using assms by (auto simp: kraft_space has_code_def)
  then show "code_number ls s < 2 ^ (ls ! s)" using * by simp
qed

text \<open>The number of the first \<open>l\<close> bits of a longer code lies above all codes of length \<open>l\<close>.\<close>

lemma prefix_above:
  assumes "has_code ls s" "kraft ls" "ls ! s \<le> 15" "l < ls ! s"
  shows "used_space ls l \<le> code_number ls s div 2 ^ (ls ! s - l)"
proof -
  obtain k where k: "ls ! s = Suc (l + k)" using assms(4) less_iff_Suc_add by blast
  have "used_space ls l * 2 ^ Suc k \<le> 2 * used_space ls (l + k)"
    using used_space_grows [of ls l k] by simp
  also have "\<dots> = first_code ls (Suc (l + k))"
    by (cases "l + k") (simp_all add: used_space_def)
  also have "\<dots> \<le> code_number ls s" using code_in_range(1) [OF assms(1,2,3)] k by simp
  finally show ?thesis using k by (simp add: less_eq_div_iff_mult_less_eq)
qed

lemma br_bit_cases:
  assumes ok: "br_ok br" and r: "br_bit br = (b, br1)"
  obtains (none) "br_overrun br1" "rest br = []"
    | (bit) x where "\<not> br_overrun br1" "rest br = x # rest br1" "int (unat b) = of_bool x" "br_ok br1" "br_data br1 = br_data br"
proof (cases "rest br")
  case Nil
  then show ?thesis using br_bits_short [OF ok, of 1 b br1] r none by (simp add: br_bit_def)
next
  case (Cons x bs)
  then have "unat b = bits_val [x]" "rest br1 = bs" "br_ok br1" "br_data br1 = br_data br"
    using br_bits_ok [OF ok, of 1 b br1] r by (simp_all add: br_bit_def)
  then show ?thesis using Cons bit [of x] by (auto simp: br_ok_def bits_val_def)
qed

lemma start_at_Suc: "1 \<le> l \<Longrightarrow> start_at ls (Suc l) = start_at ls l + cnt ls l"
  by (simp add: start_at_def)

lemma first_code_next: "1 \<le> l \<Longrightarrow> first_code ls (Suc l) = 2 * used_space ls l"
  by (cases l) (simp_all add: used_space_def)

lemma code_or_bit: "2 * int v OR of_bool x = int (2 * v + of_bool x)"
proof -
  have "\<not> (bit (2 * int v) n \<and> bit (of_bool x :: int) n)" for n by (cases n) (auto simp: bit_simps)
  then have "2 * int v OR of_bool x = 2 * int v + of_bool x" by (intro disjunctive_add [symmetric]) auto
  then show ?thesis by simp
qed

text \<open>One level of the walk: bits below the space used so far are the code of a symbol.\<close>

lemma level:
  assumes t: "table_ok h ls" and l: "1 \<le> l" "l \<le> 15" and p: "length q = l" and above: "first_code ls l \<le> msb_val q"
    and less: "msb_val q < used_space ls l"
  obtains s where "has_code ls s" "ls ! s = l" "code_bits ls s = q"
     "symbol_at h (int (start_at ls l) + (int (msb_val q) - int (first_code ls l))) br = Ok (int s, br)"
proof -
  let ?k = "msb_val q - first_code ls l"
  have k: "?k < cnt ls l" using less above l by (simp add: used_space_def)
  obtain s where s: "of_len ls l ! ?k = s" by blast
  note S = of_len_nth [OF k s]
  have "code_number ls s = msb_val q" using S above by (simp add: code_number_def)
  then have c: "code_bits ls s = q" using S(2) p msb_bits_val [of q] by (simp add: code_bits_def)
  have h: "has_code ls s" using S l by (simp add: has_code_def)
  have "symbols h ! (start_at ls l + ?k) = Some (of_nat s)" "start_at ls l + ?k < 288" "length (symbols h) = 288" "length ls \<le> 288"
    using t k l s by (auto simp: table_ok_def)
  moreover have "unat (of_nat s :: u16) = s" using S(1) \<open>length ls \<le> 288\<close> by (simp add: unat_of_nat take_bit_nat_eq_self)
  ultimately have "symbol_at h (int (start_at ls l + ?k)) br = Ok (int s, br)" by (simp add: symbol_at_def del: of_nat_add)
  moreover have "int (start_at ls l) + (int (msb_val q) - int (first_code ls l)) = int (start_at ls l + ?k)" using above by simp
  ultimately show ?thesis using that [OF h S(2) c] by presburger
qed

definition walk :: "huff \<Rightarrow> nat list \<Rightarrow> nat \<Rightarrow> bool list \<Rightarrow> bitreader \<Rightarrow> (int \<times> bitreader) outcome" where
  "walk h ls l p br = decode_loop [l..<16] (2 * int (msb_val p)) (int (first_code ls l)) (int (start_at ls l)) h br"

lemma walk_level:
  assumes t: "table_ok h ls" and l: "1 \<le> l" "l \<le> 15"
    and b: "br_bit br = (b, br1)" "\<not> br_overrun br1" "int (unat b) = of_bool x"
  shows "walk h ls l p br =
     (if msb_val (p @ [x]) < used_space ls l
      then symbol_at h (int (start_at ls l) + (int (msb_val (p @ [x])) - int (first_code ls l))) br1
      else walk h ls (Suc l) (p @ [x]) br1)"
proof -
  have u: "[l..<16] = l # [Suc l..<16]" using l by (simp add: upt_conv_Cons)
  have n: "int (unat (counts h ! l)) = int (cnt ls l)" using t l by (simp add: table_ok_def)
  have lt: "int (msb_val (p @ [x])) - int (first_code ls l) < int (cnt ls l) \<longleftrightarrow> msb_val (p @ [x]) < used_space ls l"
    using l by (auto simp: used_space_def)
  have us: "2 * (int (first_code ls l) + int (cnt ls l)) = int (first_code ls (Suc l))"
    using l first_code_next [of l ls] by (simp add: used_space_def)
  have code: "2 * int (msb_val p) OR int (unat b) = int (msb_val (p @ [x]))"
    by (simp only: b(3) code_or_bit msb_val_snoc)
  show ?thesis
    unfolding walk_def u decode_loop.simps b(1) Let_def case_prod_conv code n lt us
    using b(2) by (simp add: start_at_Suc [OF l(1)])
qed

lemma walk_over:
  assumes "l \<le> 15" "br_bit br = (b, br1)" "br_overrun br1"
  shows "walk h ls l p br = Ok (-1, br1)"
proof -
  have u: "[l..<16] = l # [Suc l..<16]" using assms(1) by (simp add: upt_conv_Cons)
  show ?thesis unfolding walk_def u decode_loop.simps using assms by simp
qed

text \<open>
  Whatever the bits, the walk ends with a symbol and the bits of its code consumed, or without a symbol.
\<close>

lemma walk_sound:
  assumes "table_ok h ls" "br_ok br" "1 \<le> l" "l \<le> 16" "Suc (length p) = l" "first_code ls l \<le> 2 * msb_val p"
  shows "\<exists>s br'. walk h ls l p br = Ok (s, br') \<and>
     (s = -1 \<or> (\<exists>t. s = int t \<and> has_code ls t \<and> ls ! t \<le> 15 \<and> p @ rest br = code_bits ls t @ rest br' \<and> br_ok br' \<and> br_data br' = br_data br))"
  using assms
proof (induction "16 - l" arbitrary: l p br)
  case 0
  then show ?case by (simp add: walk_def)
next
  case (Suc k)
  then have l: "l \<le> 15" by simp
  obtain b br1 where b: "br_bit br = (b, br1)" by fastforce
  from Suc.prems(2) b show ?case
  proof (cases rule: br_bit_cases)
    case none
    then show ?thesis using walk_over [OF l b] by simp
  next
    case (bit x)
    let ?q = "p @ [x]"
    have q: "length ?q = l" "first_code ls l \<le> msb_val ?q" using Suc.prems(5,6) by (simp_all add: msb_val_snoc)
    note step = walk_level [OF Suc.prems(1,3) l b bit(1,3), of p]
    show ?thesis
    proof (cases "msb_val ?q < used_space ls l")
      case True
      obtain s where "has_code ls s" "ls ! s = l" "code_bits ls s = ?q"
        "symbol_at h (int (start_at ls l) + (int (msb_val ?q) - int (first_code ls l))) br1 = Ok (int s, br1)"
        using level [OF Suc.prems(1,3) l q True] by blast
      then show ?thesis using step True bit l by auto
    next
      case False
      have "first_code ls (Suc l) \<le> 2 * msb_val ?q" using False first_code_next [OF Suc.prems(3), of ls] by simp
      then have "\<exists>s br'. walk h ls (Suc l) ?q br1 = Ok (s, br') \<and>
         (s = -1 \<or> (\<exists>t. s = int t \<and> has_code ls t \<and> ls ! t \<le> 15 \<and> ?q @ rest br1 = code_bits ls t @ rest br' \<and> br_ok br' \<and> br_data br' = br_data br1))"
        using Suc.hyps(1) [of "Suc l" br1 ?q] Suc.hyps(2) Suc.prems(1) bit(4) l q(1) by simp
      then show ?thesis using step False bit by simp
    qed
  qed
qed

lemma code_number_inj:
  assumes "has_code ls s" "has_code ls t" "ls ! s = ls ! t" "code_number ls s = code_number ls t"
  shows "s = t"
proof -
  have "length (filter (\<lambda>u. ls ! u = ls ! s) [0..<s]) = length (filter (\<lambda>u. ls ! u = ls ! t) [0..<t])"
    using assms(3,4) unfolding code_number_def by simp
  then show ?thesis using symbol_index(2) [OF assms(1)] symbol_index(2) [OF assms(2)] assms(3) by metis
qed

text \<open>A stream that starts with the code of a symbol decodes to it.\<close>

lemma walk_complete:
  assumes "table_ok h ls" "kraft ls" "has_code ls t" "ls ! t \<le> 15" "br_ok br" "1 \<le> l" "l \<le> ls ! t" "Suc (length p) = l"
    "p @ rest br = code_bits ls t @ r"
  shows "\<exists>br'. walk h ls l p br = Ok (int t, br') \<and> rest br' = r \<and> br_ok br' \<and> br_data br' = br_data br"
  using assms
proof (induction "16 - l" arbitrary: l p br)
  case 0
  then show ?case by simp
next
  case (Suc k)
  then have l: "l \<le> 15" by simp
  obtain b br1 where b: "br_bit br = (b, br1)" by fastforce
  let ?L = "ls ! t" and ?v = "code_number ls t"
  note v = code_in_range [OF Suc.prems(3,2,4)]
  from Suc.prems(5) b show ?case
  proof (cases rule: br_bit_cases)
    case none
    then have "length p = length (code_bits ls t @ r)" using Suc.prems(9) by simp
    then show ?thesis using Suc.prems(7,8) by simp
  next
    case (bit x)
    let ?q = "p @ [x]"
    have split: "?q @ rest br1 = code_bits ls t @ r" using Suc.prems(9) bit(2) by simp
    have "?q = take l (?q @ rest br1)" by (simp flip: Suc.prems(8))
    also have "\<dots> = msb_bits l (?v div 2 ^ (?L - l))"
      unfolding split using Suc.prems(7) by (simp add: code_bits_def take_msb_bits)
    finally have q: "?q = msb_bits l (?v div 2 ^ (?L - l))" .
    have "?v div 2 ^ (?L - l) < 2 ^ l" using v(3) Suc.prems(7) by (simp add: less_mult_imp_div_less flip: power_add)
    then have val: "msb_val ?q = ?v div 2 ^ (?L - l)" unfolding q by (rule msb_val_bits)
    note step = walk_level [OF Suc.prems(1,6) l b bit(1,3), of p]
    show ?thesis
    proof (cases "l = ?L")
      case True
      then have mv: "msb_val ?q = ?v" using val by simp
      have same: "code_bits ls t = ?q" using q True by (simp add: code_bits_def)
      obtain s where s: "has_code ls s" "ls ! s = l" "code_bits ls s = ?q"
        "symbol_at h (int (start_at ls l) + (int (msb_val ?q) - int (first_code ls l))) br1 = Ok (int s, br1)"
        using level [OF Suc.prems(1,6) l, of ?q] Suc.prems(8) v(1,2) mv True by auto
      have "code_number ls s = ?v"
        using s(2,3) same True code_in_range(3) [OF s(1) Suc.prems(2)] l v(3) by (metis code_bits_def msb_val_bits)
      then have "s = t"
        using code_number_inj [OF s(1) Suc.prems(3)] s(2) True by simp
      moreover have "rest br1 = r" using split same by simp
      ultimately show ?thesis using step s(4) v(2) mv True bit by simp
    next
      case False
      then have less: "l < ?L" using Suc.prems(7) by simp
      have ge: "\<not> msb_val ?q < used_space ls l" using prefix_above [OF Suc.prems(3,2,4) less] val by simp
      have "\<exists>br'. walk h ls (Suc l) ?q br1 = Ok (int t, br') \<and> rest br' = r \<and> br_ok br' \<and> br_data br' = br_data br1"
        using less Suc.prems(8) Suc.hyps(2)
        by (intro Suc.hyps(1) [OF _ Suc.prems(1,2,3,4) bit(4) _ _ _ split]) simp_all
      then show ?thesis using step ge bit by simp
    qed
  qed
qed

lemma decode_walk: "huff_decode br h = walk h ls 1 [] br"
  by (simp add: huff_decode_def walk_def start_at_def)

lemmas decode_sound = walk_sound [where l = 1 and p = "[]", folded decode_walk, simplified]
lemmas decode_complete = walk_complete [where l = 1 and p = "[]", folded decode_walk, simplified]

lemma decode_overrun: "br_overrun br \<Longrightarrow> \<exists>br'. huff_decode br h = Ok (-1, br') \<and> br_overrun br'"
proof -
  assume o: "br_overrun br"
  obtain b br1 where b: "br_bit br = (b, br1)" by fastforce
  then have "br_overrun br1" using br_bits_sticky o by (simp add: br_bit_def)
  then show ?thesis using walk_over [OF _ b, of 1 h "[]" "[]"] by (simp add: decode_walk [of br h "[]"])
qed

section \<open>Building a table\<close>

lemma cnt_filter: "cnt ls l = length (filter (\<lambda>x. x = l) ls)"
proof -
  have "length (filter (\<lambda>x. x = l) (map ((!) ls) [0..<length ls])) = cnt ls l"
    by (simp add: filter_map cnt_def of_len_def comp_def)
  then show ?thesis by (simp add: map_nth)
qed

lemma cnt_le: "cnt ls l \<le> length ls"
  by (simp add: cnt_filter)

lemma cnt_snoc: "cnt (ls @ [x]) l = cnt ls l + of_bool (x = l)"
  by (simp add: cnt_filter)

lemma start_at_mono: "l \<le> m \<Longrightarrow> start_at ls l \<le> start_at ls m"
proof (induction m rule: dec_induct)
  case (step m)
  then show ?case by (cases "1 \<le> m") (simp_all add: start_at_Suc, simp add: start_at_def)
qed simp

lemma start_at_total: "start_at ls 16 \<le> length ls"
proof -
  have "(\<Sum>l\<leftarrow>ks. length (filter (\<lambda>x. x = l) ls)) \<le> length ls" if "distinct ks" for ks :: "nat list"
  proof (induction ls)
    case (Cons x ls)
    have "(\<Sum>l\<leftarrow>ks. of_bool (x = l)) \<le> (1 :: nat)"
      using that by (induction ks) auto
    moreover have "(\<Sum>l\<leftarrow>ks. length (filter (\<lambda>y. y = l) (x # ls))) =
        (\<Sum>l\<leftarrow>ks. of_bool (x = l)) + (\<Sum>l\<leftarrow>ks. length (filter (\<lambda>y. y = l) ls))"
      by (simp add: sum_list_addf flip: sum_list_addf) (rule arg_cong [of _ _ sum_list], simp)
    ultimately show ?case using Cons by simp
  qed simp
  then show ?thesis by (simp add: start_at_def cnt_filter)
qed

lemma start_at_room:
  assumes "1 \<le> l" "l \<le> 15"
  shows "start_at ls l + cnt ls l \<le> length ls"
  using start_at_Suc [OF assms(1), of ls] start_at_mono [of "Suc l" 16 ls] start_at_total [of ls] assms(2) by simp

lemma segments_apart:
  assumes "1 \<le> l" "1 \<le> m" "l \<noteq> m" "i < cnt ls l" "j < cnt ls m"
  shows "start_at ls l + i \<noteq> start_at ls m + j"
proof (cases "l < m")
  case True
  then show ?thesis using start_at_Suc [OF assms(1), of ls] start_at_mono [of "Suc l" m ls] assms(4) by simp
next
  case False
  then show ?thesis using start_at_Suc [OF assms(2), of ls] start_at_mono [of "Suc m" l ls] assms(3,5) by simp
qed

lemma count_lengths_ok:
  assumes "length lengths \<le> 288" "\<forall>l \<in> set lengths. l \<le> 15"
  shows "length (count_lengths lengths) = 16 \<and> (\<forall>l < 16. unat (count_lengths lengths ! l) = cnt (map unat lengths) l)"
  using assms
proof (induction lengths rule: rev_induct)
  case Nil
  then show ?case by (simp add: count_lengths_def cnt_filter)
next
  case (snoc x xs)
  let ?c = "count_lengths xs"
  have IH: "length ?c = 16" "\<And>l. l < 16 \<Longrightarrow> unat (?c ! l) = cnt (map unat xs) l" using snoc by simp_all
  have x: "unat x \<le> 15" using snoc.prems by (simp add: word_le_nat_alt)
  have "cnt (map unat xs) l \<le> 288" for l using snoc.prems(1) cnt_le [of "map unat xs" l] by simp
  then have up: "unat (?c ! l + 1) = cnt (map unat xs) l + 1" if "l < 16" for l
    using IH(2) [OF that] unat_Suc_word [of "?c ! l"] le_less_trans [of "cnt (map unat xs) l" 288 "2 ^ 16 - 1"] by simp
  have "count_lengths (xs @ [x]) = ?c[unat x := ?c ! unat x + 1]" by (simp add: count_lengths_def)
  then show ?case using IH x up by (simp add: cnt_snoc nth_list_update)
qed

lemma kraft_left_ok:
  assumes c: "\<And>l. l < 16 \<Longrightarrow> unat (c ! l) = cnt ls l" and k: "k \<le> 15"
  shows "kraft_left c [Suc k..<16] (2 ^ k - int (used_space ls k)) =
     (if \<forall>m \<in> set [Suc k..<16]. used_space ls m \<le> 2 ^ m then Some (2 ^ 15 - int (used_space ls 15)) else None)"
  using k
proof (induction "15 - k" arbitrary: k)
  case 0
  then show ?case by simp
next
  case (Suc j)
  then have k: "Suc k \<le> 15" by simp
  have u: "[Suc k..<16] = Suc k # [Suc (Suc k)..<16]" using k by (simp add: upt_conv_Cons)
  have "int (unat (c ! Suc k)) = int (cnt ls (Suc k))" using c k by simp
  then have left: "2 * (2 ^ k - int (used_space ls k)) - int (unat (c ! Suc k)) = 2 ^ Suc k - int (used_space ls (Suc k))"
    by (simp add: used_space_Suc)
  have neg: "2 ^ Suc k - int (used_space ls (Suc k)) < 0 \<longleftrightarrow> \<not> used_space ls (Suc k) \<le> 2 ^ Suc k"
    by (metis (mono_tags) diff_less_0_iff_less linorder_not_le of_nat_less_iff of_nat_numeral of_nat_power)
  have "kraft_left c [Suc (Suc k)..<16] (2 ^ Suc k - int (used_space ls (Suc k))) =
     (if \<forall>m \<in> set [Suc (Suc k)..<16]. used_space ls m \<le> 2 ^ m then Some (2 ^ 15 - int (used_space ls 15)) else None)"
    using Suc.hyps(1) [of "Suc k"] Suc.hyps(2) k by simp
  then show ?case unfolding u kraft_left.simps Let_def left neg by simp
qed

lemma code_offsets_ok:
  assumes c: "\<And>l. l < 16 \<Longrightarrow> unat (c ! l) = cnt ls l" and n: "length ls \<le> 288"
  shows "length (code_offsets c) = 17" "1 \<le> l \<Longrightarrow> l \<le> 15 \<Longrightarrow> unat (code_offsets c ! l) = start_at ls l"
proof -
  let ?f = "\<lambda>len (offs :: u16 list). offs[len + 1 := offs ! len + c ! len]"
  have P: "length (fold ?f [1..<m] (replicate 17 0)) = 17 \<and> (\<forall>l \<in> {1..m}. unat (fold ?f [1..<m] (replicate 17 0) ! l) = start_at ls l)"
    if "1 \<le> m" "m \<le> 16" for m
    using that
  proof (induction m rule: dec_induct)
    case base
    then show ?case by (simp add: start_at_def)
  next
    case (step m)
    let ?o = "fold ?f [1..<m] (replicate 17 0)"
    have IH: "length ?o = 17" "\<And>l. l \<in> {1..m} \<Longrightarrow> unat (?o ! l) = start_at ls l" using step by simp_all
    have m: "1 \<le> m" "m \<le> 15" using step by simp_all
    have "unat (?o ! m) = start_at ls m" "unat (c ! m) = cnt ls m" using IH(2) m c by simp_all
    then have "unat (?o ! m + c ! m) = start_at ls (Suc m)"
      using start_at_room [OF m, of ls] n start_at_Suc [OF m(1), of ls] unat_add_lem [of "?o ! m" "c ! m"] by simp
    moreover have "fold ?f [1..<Suc m] (replicate 17 0) = ?o[Suc m := ?o ! m + c ! m]" using m by simp
    ultimately show ?case using IH m by (auto simp: nth_list_update le_Suc_eq)
  qed
  show "length (code_offsets c) = 17" using P [of 16] by (simp add: code_offsets_def)
  show "unat (code_offsets c ! l) = start_at ls l" if "1 \<le> l" "l \<le> 15"
    using P [of 16] that by (simp add: code_offsets_def)
qed

definition placed :: "nat list \<Rightarrow> nat \<Rightarrow> nat \<Rightarrow> nat" where
  "placed ls i l = length (filter (\<lambda>t. ls ! t = l) [0..<i])"

lemma placed_Suc: "placed ls (Suc i) l = placed ls i l + of_bool (ls ! i = l)"
  by (simp add: placed_def)

lemma placed_le: "i \<le> length ls \<Longrightarrow> placed ls i l \<le> cnt ls l"
proof (induction i rule: inc_induct)
  case base
  then show ?case by (simp add: placed_def cnt_def of_len_def)
next
  case (step i)
  then show ?case by (simp add: placed_Suc)
qed

lemma place_ok:
  assumes lens: "ls = map unat lengths" "length lengths \<le> 288" "\<forall>l \<in> set lengths. l \<le> 15"
    and o: "length offs = 17" "\<And>l. 1 \<le> l \<Longrightarrow> l \<le> 15 \<Longrightarrow> unat (offs ! l) = start_at ls l"
    and s: "length syms = 288" and i: "i \<le> length lengths"
  shows "\<exists>offs' syms'. fold (place_symbol lengths) [0..<i] (offs, syms) = (offs', syms') \<and> length offs' = 17 \<and> length syms' = 288 \<and>
     (\<forall>l \<in> {1..15}. unat (offs' ! l) = start_at ls l + placed ls i l \<and>
        (\<forall>k < placed ls i l. syms' ! (start_at ls l + k) = Some (of_nat (of_len ls l ! k))))"
  using i
proof (induction i)
  case 0
  then show ?case using o s by (simp add: placed_def)
next
  case (Suc i)
  then obtain offs1 syms1 where st: "fold (place_symbol lengths) [0..<i] (offs, syms) = (offs1, syms1)"
    and L: "length offs1 = 17" "length syms1 = 288"
    and I: "\<And>l. l \<in> {1..15} \<Longrightarrow> unat (offs1 ! l) = start_at ls l + placed ls i l"
      "\<And>l k. l \<in> {1..15} \<Longrightarrow> k < placed ls i l \<Longrightarrow> syms1 ! (start_at ls l + k) = Some (of_nat (of_len ls l ! k))"
    by auto
  let ?l = "unat (lengths ! i)"
  have li: "ls ! i = ?l" "i < length ls" using lens(1) Suc.prems by simp_all
  have le: "?l \<le> 15" using lens(3) Suc.prems by (simp add: word_le_nat_alt)
  show ?case
  proof (cases "?l = 0")
    case True
    have "placed ls (Suc i) l = placed ls i l" if "l \<in> {1..15}" for l using that li True by (simp add: placed_Suc)
    moreover have "place_symbol lengths i (offs1, syms1) = (offs1, syms1)" using True by (simp add: place_symbol_def)
    then have "fold (place_symbol lengths) [0..<Suc i] (offs, syms) = (offs1, syms1)" using st by simp
    ultimately show ?thesis using L I by auto
  next
    case False
    have l15: "?l \<in> {1..15}" using False le by simp
    have hc: "has_code ls i" using li False by (simp add: has_code_def)
    let ?p = "start_at ls ?l + placed ls i ?l"
    have pl: "placed ls i ?l < cnt ls ?l" "of_len ls ?l ! placed ls i ?l = i"
      using symbol_index [OF hc] by (simp_all add: li placed_def)
    have p288: "?p < 288" using pl(1) start_at_room [of ?l ls] l15 lens(1,2) by simp
    have "place_symbol lengths i (offs1, syms1) = (offs1[?l := offs1 ! ?l + 1], syms1[?p := Some (of_nat i)])"
      using False I(1) [OF l15] by (simp add: place_symbol_def Let_def)
    then have new: "fold (place_symbol lengths) [0..<Suc i] (offs, syms) = (offs1[?l := offs1 ! ?l + 1], syms1[?p := Some (of_nat i)])"
      using st by simp
    have up: "unat (offs1 ! ?l + 1) = ?p + 1" using I(1) [OF l15] p288 unat_Suc_word [of "offs1 ! ?l"] by simp
    have "unat (offs1[?l := offs1 ! ?l + 1] ! l) = start_at ls l + placed ls (Suc i) l" if "l \<in> {1..15}" for l
      using I(1) [OF that] up L(1) that l15 by (cases "l = ?l") (auto simp: placed_Suc li)
    moreover have "syms1[?p := Some (of_nat i)] ! (start_at ls l + k) = Some (of_nat (of_len ls l ! k))"
      if l: "l \<in> {1..15}" and k: "k < placed ls (Suc i) l" for l k
    proof (cases "l = ?l \<and> k = placed ls i ?l")
      case True
      then show ?thesis using pl(2) p288 L(2) by simp
    next
      case False
      then have ki: "k < placed ls i l" using k by (cases "l = ?l") (auto simp: placed_Suc li)
      moreover have "placed ls i l \<le> cnt ls l" using placed_le [of i ls l] li(2) by simp
      ultimately have "start_at ls l + k \<noteq> ?p"
        using False segments_apart [of l ?l k ls "placed ls i ?l"] l l15 pl(1) by (cases "l = ?l") auto
      then show ?thesis using I(2) [OF l ki] by simp
    qed
    ultimately show ?thesis using new L by auto
  qed
qed

text \<open>
  The table is built exactly from lengths within Kraft's inequality, and then decodes their canonical code.
\<close>

lemma huff_build_ok:
  assumes "length lengths \<le> 288" "\<forall>l \<in> set lengths. l \<le> 15"
  obtains r h where "huff_build lengths = Ok (r, h)" "r < 0 \<longleftrightarrow> \<not> kraft (map unat lengths)"
    "kraft (map unat lengths) \<longrightarrow> table_ok h (map unat lengths)"
proof -
  let ?ls = "map unat lengths" and ?c = "count_lengths lengths"
  have c: "length ?c = 16" "\<And>l. l < 16 \<Longrightarrow> unat (?c ! l) = cnt ?ls l" using count_lengths_ok [OF assms] by simp_all
  have co: "length (code_offsets ?c) = 17" "\<And>l. 1 \<le> l \<Longrightarrow> l \<le> 15 \<Longrightarrow> unat (code_offsets ?c ! l) = start_at ?ls l"
    using code_offsets_ok [of ?c ?ls] c(2) assms(1) by simp_all
  have g: "\<not> (288 < length lengths \<or> (\<exists>l \<in> set lengths. 15 < l))" using assms by (meson linorder_not_le)
  have c0: "unat (?c ! 0) = length lengths \<longleftrightarrow> cnt ?ls 0 = length ?ls" using c(2) [of 0] by simp
  show ?thesis
  proof (cases "cnt ?ls 0 = length ?ls")
    case True
    have zero: "x = 0" if "x \<in> set ?ls" for x
      using True length_filter_less [of x ?ls "\<lambda>x. x = 0"] that unfolding cnt_filter by force
    then have none: "cnt ?ls l = 0" if "l \<noteq> 0" for l using that unfolding cnt_filter length_0_conv filter_empty_conv by blast
    have "(\<Sum>l\<leftarrow>[1..<16]. cnt ?ls l * 2 ^ (15 - l)) = (\<Sum>l\<leftarrow>[1..<16]. 0)"
      using none by (intro arg_cong [of _ _ sum_list] map_cong) auto
    then have "kraft ?ls" unfolding kraft_def by (metis sum_list_0 zero_le)
    moreover have "table_ok (fresh_huff\<lparr>counts := ?c\<rparr>) ?ls" using none c(2) assms(1) by (simp add: table_ok_def fresh_huff_def)
    moreover have "huff_build lengths = Ok (int (length lengths), fresh_huff\<lparr>counts := ?c\<rparr>)"
      using True c0 g by (simp add: huff_build_def Let_def)
    ultimately show ?thesis using that by simp
  next
    case False
    have k: "kraft_left ?c [1..<16] 1 = (if kraft ?ls then Some (2 ^ 15 - int (used_space ?ls 15)) else None)"
      using kraft_left_ok [of ?c ?ls 0] c(2) by (simp add: kraft_space used_space_def)
    show ?thesis
    proof (cases "kraft ?ls")
      case True
      obtain offs syms where pl: "fold (place_symbol lengths) [0..<length lengths] (code_offsets ?c, replicate 288 None) = (offs, syms)"
        and s: "length syms = 288"
          "\<And>l k. l \<in> {1..15} \<Longrightarrow> k < placed ?ls (length lengths) l \<Longrightarrow> syms ! (start_at ?ls l + k) = Some (of_nat (of_len ?ls l ! k))"
        using place_ok [OF refl assms, of "code_offsets ?c" "replicate 288 None" "length lengths"] co by auto
      have full: "placed ?ls (length lengths) l = cnt ?ls l" for l by (simp add: placed_def cnt_def of_len_def)
      let ?h = "fresh_huff\<lparr>counts := ?c, symbols := syms\<rparr>"
      have "huff_build lengths = Ok (2 ^ 15 - int (used_space ?ls 15), ?h)"
        using g c0 False True k pl by (simp add: huff_build_def Let_def fresh_huff_def)
      moreover have "start_at ?ls l + kk < 288" if "l \<in> {1..15}" "kk < cnt ?ls l" for l kk
        using start_at_room [of l ?ls] that assms(1) by simp
      then have "table_ok ?h ?ls" using s c(2) assms(1) full by (simp add: table_ok_def)
      moreover have "used_space ?ls 15 \<le> 2 ^ 15" using True unfolding kraft_space by (rule bspec) simp
      ultimately show ?thesis using that [of "2 ^ 15 - int (used_space ?ls 15)" ?h] True by simp
    next
      case nk: False
      then have "huff_build lengths = Ok (-1, fresh_huff\<lparr>counts := ?c\<rparr>)"
        using g c0 False k by (simp add: huff_build_def Let_def)
      then show ?thesis using that nk by simp
    qed
  qed
qed

section \<open>Compressed blocks\<close>

text \<open>
  RFC 1951, section 3.2.3: a compressed block is a sequence of literal bytes and of copies of earlier output,
  ended by symbol 256. A copy may reach into the bytes it produces: with distance \<open>d\<close> it repeats the last
  \<open>d\<close> bytes as often as its length asks for.
\<close>

definition copied :: "nat \<Rightarrow> nat \<Rightarrow> u8 list \<Rightarrow> u8 list" where
  "copied d n out = out @ map (\<lambda>i. out ! (length out - d + i mod d)) [0..<n]"

inductive block_bits :: "nat list \<Rightarrow> nat list \<Rightarrow> bool list \<Rightarrow> u8 list \<Rightarrow> u8 list \<Rightarrow> bool" for ll dl where
  end_of_block: "has_code ll 256 \<Longrightarrow> block_bits ll dl (code_bits ll 256) out out"
| literal: "has_code ll (unat b) \<Longrightarrow> block_bits ll dl bs (out @ [b]) w \<Longrightarrow>
     block_bits ll dl (code_bits ll (unat b) @ bs) out w"
| back_reference: "lc < 29 \<Longrightarrow> has_code ll (257 + lc) \<Longrightarrow> le < 2 ^ (s_len_extra ! lc) \<Longrightarrow>
     dc < 30 \<Longrightarrow> has_code dl dc \<Longrightarrow> de < 2 ^ (s_dist_extra ! dc) \<Longrightarrow> s_dist_base ! dc + de \<le> length out \<Longrightarrow>
     block_bits ll dl bs (copied (s_dist_base ! dc + de) (s_len_base ! lc + le) out) w \<Longrightarrow>
     block_bits ll dl (code_bits ll (257 + lc) @ low_bits (s_len_extra ! lc) le @ code_bits dl dc @ low_bits (s_dist_extra ! dc) de @ bs) out w"

lemma copied_simps [simp]: "length (copied d n out) = length out + n" "copied d 0 out = out"
  by (simp_all add: copied_def)

lemma block_grows: "block_bits ll dl bs out w \<Longrightarrow> length out \<le> length w"
  by (induction rule: block_bits.induct) simp_all

lemma copied_Suc:
  assumes "1 \<le> d" "d \<le> length out"
  shows "copied d (Suc n) out = copied d n (out @ [out ! (length out - d)])"
proof -
  let ?x = "out ! (length out - d)"
  have "out ! (length out - d + Suc i mod d) = (out @ [?x]) ! (Suc (length out) - d + i mod d)" for i
  proof (cases "Suc (i mod d) = d")
    case True
    then have "Suc i mod d = 0" by (simp add: mod_Suc)
    moreover have "Suc (length out) - d + i mod d = length out" using True assms by simp
    ultimately show ?thesis by simp
  next
    case False
    moreover have "i mod d < d" using assms(1) by simp
    ultimately have "Suc i mod d = Suc (i mod d)" "Suc (i mod d) < d" by (simp_all add: mod_Suc)
    moreover have "Suc (length out) - d + i mod d = length out - d + Suc (i mod d)" "length out - d + Suc (i mod d) < length out"
      using assms \<open>Suc (i mod d) < d\<close> by linarith+
    ultimately show ?thesis by (simp only: nth_append if_True)
  qed
  then have "map (\<lambda>i. out ! (length out - d + i mod d)) [1..<Suc n] = map (\<lambda>i. (out @ [?x]) ! (Suc (length out) - d + i mod d)) [0..<n]"
    unfolding One_nat_def map_Suc_upt [symmetric] map_map comp_def by simp
  moreover have "[0..<Suc n] = 0 # [1..<Suc n]" by (simp add: upt_conv_Cons)
  ultimately show ?thesis by (simp add: copied_def)
qed

lemma sink_byte_room: "length (sk_bytes out) < sk_size out \<Longrightarrow> sink_byte v out = out\<lparr>sk_bytes := sk_bytes out @ [v]\<rparr>"
  by (simp add: sink_byte_def)

lemma sink_byte_full: "sk_size out \<le> length (sk_bytes out) \<Longrightarrow> sk_full (sink_byte v out)"
  by (simp add: sink_byte_def)

lemma copy_stays_full: "sk_full out \<Longrightarrow> sk_full (sink_copy d n out)"
  by (induction d n out rule: sink_copy.induct) (simp_all add: sink_byte_def)

lemma sink_copy_ok:
  assumes "1 \<le> d" "d \<le> length (sk_bytes out)" "length (sk_bytes out) \<le> sk_size out" "\<not> sk_full out"
  shows "length (sk_bytes out) + n \<le> sk_size out \<Longrightarrow> sink_copy d n out = out\<lparr>sk_bytes := copied d n (sk_bytes out)\<rparr>"
    "sk_size out < length (sk_bytes out) + n \<Longrightarrow> sk_full (sink_copy d n out)"
proof -
  have "(length (sk_bytes out) + n \<le> sk_size out \<longrightarrow> sink_copy d n out = out\<lparr>sk_bytes := copied d n (sk_bytes out)\<rparr>) \<and>
     (sk_size out < length (sk_bytes out) + n \<longrightarrow> sk_full (sink_copy d n out))"
    using assms
  proof (induction n arbitrary: out)
    case (Suc n)
    let ?x = "sk_bytes out ! (length (sk_bytes out) - d)"
    show ?case
    proof (cases "length (sk_bytes out) < sk_size out")
      case True
      note b = sink_byte_room [OF True, of ?x]
      show ?thesis
        using Suc.IH [of "sink_byte ?x out"] Suc.prems True by (simp add: b copied_Suc)
    next
      case False
      then show ?thesis using Suc.prems by (simp add: sink_byte_full copy_stays_full)
    qed
  qed simp
  then show "length (sk_bytes out) + n \<le> sk_size out \<Longrightarrow> sink_copy d n out = out\<lparr>sk_bytes := copied d n (sk_bytes out)\<rparr>"
    "sk_size out < length (sk_bytes out) + n \<Longrightarrow> sk_full (sink_copy d n out)" by blast+
qed

lemma copy_too_far: "length (sk_bytes out) < d \<Longrightarrow> 0 < n \<Longrightarrow> sk_full (sink_copy d n out)"
  by (cases n) simp_all

lemma code_tables:
  "lc < 29 \<Longrightarrow> s_len_extra ! lc \<le> 5 \<and> 3 \<le> s_len_base ! lc" "dc < 30 \<Longrightarrow> s_dist_extra ! dc \<le> 13 \<and> 1 \<le> s_dist_base ! dc"
proof -
  have "length s_len_extra = 29" "\<forall>x \<in> set s_len_extra. x \<le> 5" "length s_len_base = 29" "\<forall>x \<in> set s_len_base. 3 \<le> x"
    by (simp_all add: s_len_extra_def s_len_base_def)
  then show "lc < 29 \<Longrightarrow> s_len_extra ! lc \<le> 5 \<and> 3 \<le> s_len_base ! lc" by (metis nth_mem)
  have "length s_dist_extra = 30" "\<forall>x \<in> set s_dist_extra. x \<le> 13" "length s_dist_base = 30" "\<forall>x \<in> set s_dist_base. 1 \<le> x"
    by (simp_all add: s_dist_extra_def s_dist_base_def)
  then show "dc < 30 \<Longrightarrow> s_dist_extra ! dc \<le> 13 \<and> 1 \<le> s_dist_base ! dc" by (metis nth_mem)
qed

lemma low_bits_take: "n \<le> length bs \<Longrightarrow> low_bits n (bits_val (take n bs)) = take n bs"
  using low_bits_val [of "take n bs"] by simp

definition lens_ok :: "nat list \<Rightarrow> bool" where
  "lens_ok ls \<longleftrightarrow> length ls \<le> 288 \<and> (\<forall>l \<in> set ls. l \<le> 15) \<and> kraft ls"

lemma lens_ok_nth: "lens_ok ls \<Longrightarrow> has_code ls s \<Longrightarrow> ls ! s \<le> 15"
  by (simp add: lens_ok_def has_code_def)

text \<open>One read of a symbol, by the form of its result.\<close>

lemma decode_cases:
  assumes "table_ok h ls" "br_ok br"
  obtains (bad) br1 where "huff_decode br h = Ok (-1, br1)"
    | (symbol) t br1 where "huff_decode br h = Ok (int t, br1)" "has_code ls t" "rest br = code_bits ls t @ rest br1" "br_ok br1" "br_data br1 = br_data br"
  using decode_sound [OF assms] by auto

lemma decode_symbol:
  assumes "table_ok h ls" "lens_ok ls" "has_code ls t" "br_ok br" "rest br = code_bits ls t @ r"
  obtains br1 where "huff_decode br h = Ok (int t, br1)" "rest br1 = r" "br_ok br1" "br_data br1 = br_data br"
proof -
  have "ls ! t \<noteq> 0" using assms(3) by (simp add: has_code_def)
  then show ?thesis
    using decode_complete [OF assms(1) _ assms(3) lens_ok_nth [OF assms(2,3)] assms(4) _ assms(5)] assms(2) that
    by (auto simp: lens_ok_def)
qed

lemma literal_symbol: "t < 256 \<Longrightarrow> unat (of_int (int t) :: u8) = t"
  by (simp add: unat_of_nat take_bit_nat_eq_self)

text \<open>The results a block may have: refused, or decoded as the RFC says.\<close>

definition block_result :: "nat list \<Rightarrow> nat list \<Rightarrow> bitreader \<Rightarrow> sink \<Rightarrow> (bitreader \<times> sink) outcome \<Rightarrow> bool" where
  "block_result ll dl br out r \<longleftrightarrow> r = Fail AF_ERR_FS_CORRUPT \<or> r = Fail AF_ERR_TOOMANY \<or>
     (\<exists>br1 bs w. r = Ok (br1, out\<lparr>sk_bytes := w\<rparr>) \<and> block_bits ll dl bs (sk_bytes out) w \<and>
        rest br = bs @ rest br1 \<and> length w \<le> sk_size out \<and> br_ok br1 \<and> br_data br1 = br_data br)"

lemma block_result_fail: "block_result ll dl br out (Fail AF_ERR_FS_CORRUPT)" "block_result ll dl br out (Fail AF_ERR_TOOMANY)"
  by (simp_all add: block_result_def)

lemma block_extend:
  assumes "block_result ll dl br1 (out\<lparr>sk_bytes := o1\<rparr>) r" "rest br = pre @ rest br1" "br_data br1 = br_data br"
    "\<And>bs w. block_bits ll dl bs o1 w \<Longrightarrow> block_bits ll dl (pre @ bs) (sk_bytes out) w"
  shows "block_result ll dl br out r"
  using assms(1) unfolding block_result_def
proof (elim disjE exE conjE)
  fix br2 bs w
  assume a: "r = Ok (br2, out\<lparr>sk_bytes := o1, sk_bytes := w\<rparr>)" "block_bits ll dl bs (sk_bytes (out\<lparr>sk_bytes := o1\<rparr>)) w"
    "rest br1 = bs @ rest br2" "length w \<le> sk_size (out\<lparr>sk_bytes := o1\<rparr>)" "br_ok br2" "br_data br2 = br_data br1"
  then have "r = Ok (br2, out\<lparr>sk_bytes := w\<rparr>)" "block_bits ll dl (pre @ bs) (sk_bytes out) w" "rest br = (pre @ bs) @ rest br2"
    "length w \<le> sk_size out" using assms(2,4) by simp_all
  then show "r = Fail AF_ERR_FS_CORRUPT \<or> r = Fail AF_ERR_TOOMANY \<or>
     (\<exists>br1 bs w. r = Ok (br1, out\<lparr>sk_bytes := w\<rparr>) \<and> block_bits ll dl bs (sk_bytes out) w \<and>
        rest br = bs @ rest br1 \<and> length w \<le> sk_size out \<and> br_ok br1 \<and> br_data br1 = br_data br)"
    using a(5,6) assms(3) by metis
qed auto

text \<open>A block that is decoded is a block in the sense of the RFC, and the output is what it stands for.\<close>

lemma block_sound:
  assumes t: "table_ok lit ll" "table_ok dist dl"
    and "br_ok br" "\<not> sk_full out" "length (sk_bytes out) \<le> sk_size out"
  shows "block_result ll dl br out (inflate_block lit dist br out)"
  using assms(3-)
proof (induction "bits_left br" arbitrary: br out rule: less_induct)
  case less
  note eq = inflate_block.simps [of lit dist br out]
  from t(1) less.prems(1) show ?case
  proof (cases rule: decode_cases)
    case (bad br1)
    then show ?thesis unfolding eq by (simp add: block_result_fail)
  next
    case (symbol k br1)
    have fewer: "bits_left br1 < bits_left br" using bits_left_decode [OF symbol(1)] by simp
    consider (lit) "k < 256" | (stop) "k = 256" | (invalid) "285 < k" | (ref) lc where "k = 257 + lc" "lc < 29"
    proof -
      have "k < 256 \<or> k = 256 \<or> 285 < k \<or> k = 257 + (k - 257) \<and> k - 257 < 29" by linarith
      then show ?thesis using that by blast
    qed
    then show ?thesis
    proof cases
      case lit
      let ?b = "of_int (int k) :: u8"
      show ?thesis
      proof (cases "length (sk_bytes out) < sk_size out")
        case True
        note b = sink_byte_room [OF True, of ?b]
        have step: "inflate_block lit dist br out = inflate_block lit dist br1 (out\<lparr>sk_bytes := sk_bytes out @ [?b]\<rparr>)"
          unfolding eq using symbol(1) lit b less.prems(2) by simp
        have IH: "block_result ll dl br1 (out\<lparr>sk_bytes := sk_bytes out @ [?b]\<rparr>) (inflate_block lit dist br out)"
          unfolding step using less.prems(2) True by (intro less.hyps [OF fewer symbol(4)]) simp_all
        show ?thesis
          by (rule block_extend [OF IH symbol(3,5)])
            (use symbol(2) block_bits.literal [of ll ?b dl] literal_symbol [OF lit] in simp)
      next
        case False
        then show ?thesis unfolding eq using symbol(1) lit sink_byte_full [of out ?b] by (simp add: block_result_fail)
      qed
    next
      case stop
      then have "inflate_block lit dist br out = Ok (br1, out\<lparr>sk_bytes := sk_bytes out\<rparr>)" unfolding eq using symbol(1) by simp
      then show ?thesis
        unfolding block_result_def using symbol stop block_bits.end_of_block [of ll dl "sk_bytes out"] less.prems(3) by blast
    next
      case invalid
      then show ?thesis unfolding eq using symbol(1) by (simp add: block_result_fail)
    next
      case (ref lc)
      have lc: "nat (int k - 257) = lc" "\<not> int k < 256" "\<not> (int k - 257 < 0 \<or> 28 < int k - 257)" "int k \<noteq> 256" using ref by simp_all
      obtain lx br2 where l: "br_bits (s_len_extra ! lc) br1 = (lx, br2)" by fastforce
      have n16: "s_len_extra ! lc \<le> 16" using code_tables(1) [OF ref(2)] by simp
      show ?thesis
      proof (cases "br_overrun br2")
        case True
        then obtain br3 where "huff_decode br2 dist = Ok (-1, br3)" using decode_overrun by blast
        then show ?thesis unfolding eq using symbol(1) lc l by (simp add: block_result_fail)
      next
        case False
        note L = br_bits_ok [OF symbol(4) n16 br_bits_read [OF symbol(4) n16 l False] l]
        from t(2) L(3) show ?thesis
        proof (cases rule: decode_cases)
          case (bad br3)
          then show ?thesis unfolding eq using symbol(1) lc l by (simp add: block_result_fail)
        next
          case dist: (symbol dc br3)
          obtain dx br4 where d: "br_bits (s_dist_extra ! dc) br3 = (dx, br4)" by fastforce
          let ?d = "s_dist_base ! dc + unat dx" and ?n = "s_len_base ! lc + unat lx"
          let ?out1 = "sink_copy ?d ?n out"
          have eq1: "inflate_block lit dist br out =
             (if 29 < dc then Fail AF_ERR_FS_CORRUPT
              else if br_overrun br4 then Fail AF_ERR_FS_CORRUPT
              else if sk_full ?out1 then Fail AF_ERR_TOOMANY else inflate_block lit dist br4 ?out1)"
            unfolding eq using symbol(1) lc l dist(1) d by simp
          show ?thesis
          proof (cases "29 < dc \<or> br_overrun br4 \<or> sk_full ?out1")
            case True
            then show ?thesis unfolding eq1 by (auto simp: block_result_fail)
          next
            case False
            then have dc: "dc < 30" by simp
            have m16: "s_dist_extra ! dc \<le> 16" using code_tables(2) [OF dc] by simp
            have no: "\<not> br_overrun br4" using False by simp
            note D = br_bits_ok [OF dist(4) m16 br_bits_read [OF dist(4) m16 d no] d]
            have far: "?d \<le> length (sk_bytes out)"
              using copy_too_far [of out ?d ?n] False code_tables(1) [OF ref(2)] by force
            have room: "length (sk_bytes out) + ?n \<le> sk_size out"
              using sink_copy_ok(2) [of ?d out ?n] far False less.prems code_tables(2) [OF dc] by force
            have o: "?out1 = out\<lparr>sk_bytes := copied ?d ?n (sk_bytes out)\<rparr>"
              using sink_copy_ok(1) [of ?d out ?n] far room less.prems code_tables(2) [OF dc] by simp
            have less4: "bits_left br4 < bits_left br"
              using bits_left_round [OF symbol(1) _ l [symmetric] dist(1) _ d [symmetric]] by simp
            have step: "inflate_block lit dist br out = inflate_block lit dist br4 ?out1" using False by (simp add: eq1)
            have IH: "block_result ll dl br4 (out\<lparr>sk_bytes := copied ?d ?n (sk_bytes out)\<rparr>) (inflate_block lit dist br out)"
              unfolding step o using less.prems(2) room False by (intro less.hyps [OF less4 D(3)]) simp_all
            have vals: "take (s_len_extra ! lc) (rest br1) = low_bits (s_len_extra ! lc) (unat lx)"
                "take (s_dist_extra ! dc) (rest br3) = low_bits (s_dist_extra ! dc) (unat dx)"
              using L(1) D(1) low_bits_take [OF br_bits_read [OF symbol(4) n16 l \<open>\<not> br_overrun br2\<close>]]
                low_bits_take [OF br_bits_read [OF dist(4) m16 d no]] by simp_all
            have bits: "rest br = (code_bits ll (257 + lc) @ low_bits (s_len_extra ! lc) (unat lx) @ code_bits dl dc @
               low_bits (s_dist_extra ! dc) (unat dx)) @ rest br4"
              using symbol(3) ref(1) dist(3) append_take_drop_id [of "s_len_extra ! lc" "rest br1"]
                append_take_drop_id [of "s_dist_extra ! dc" "rest br3"] L(2) D(2) by (simp add: vals)
            have small: "unat lx < 2 ^ (s_len_extra ! lc)" "unat dx < 2 ^ (s_dist_extra ! dc)"
              using br_bits_small [OF l] br_bits_small [OF d] n16 m16 by simp_all
            show ?thesis
            proof (rule block_extend [OF IH bits])
              show "br_data br4 = br_data br" using D(4) dist(5) L(4) symbol(5) by simp
              show "block_bits ll dl ((code_bits ll (257 + lc) @ low_bits (s_len_extra ! lc) (unat lx) @ code_bits dl dc @
                 low_bits (s_dist_extra ! dc) (unat dx)) @ bs) (sk_bytes out) w"
                if "block_bits ll dl bs (copied ?d ?n (sk_bytes out)) w" for bs w
                using block_bits.back_reference [OF ref(2) _ small(1) dc dist(2) small(2) far that] symbol(2) ref(1) by simp
            qed
          qed
        qed
      qed
    qed
  qed
qed

text \<open>A block in the sense of the RFC whose output fits is decoded.\<close>

lemma br_bits_value:
  assumes "br_ok br" "n \<le> 16" "rest br = low_bits n v @ r" "v < 2 ^ n"
  obtains x br1 where "br_bits n br = (x, br1)" "unat x = v" "rest br1 = r" "br_ok br1" "br_data br1 = br_data br"
proof -
  obtain x br1 where x: "br_bits n br = (x, br1)" by fastforce
  have "n \<le> length (rest br)" using assms(3) by simp
  note b = br_bits_ok [OF assms(1,2) this x]
  have "unat x = v" using b(1) assms(3,4) by (simp add: val_low_bits take_bit_nat_eq_self)
  then show ?thesis using that [OF x _ _ b(3,4)] b(2) assms(3) by simp
qed

lemma block_complete:
  assumes t: "table_ok lit ll" "table_ok dist dl" and l: "lens_ok ll" "lens_ok dl"
    and "block_bits ll dl bs (sk_bytes out) w" "br_ok br" "rest br = bs @ r" "\<not> sk_full out" "length w \<le> sk_size out"
  shows "\<exists>br1. inflate_block lit dist br out = Ok (br1, out\<lparr>sk_bytes := w\<rparr>) \<and> rest br1 = r \<and> br_ok br1 \<and> br_data br1 = br_data br"
  using assms(5-)
proof (induction bs "sk_bytes out" w arbitrary: out br rule: block_bits.induct)
  case end_of_block
  obtain br1 where "huff_decode br lit = Ok (int 256, br1)" "rest br1 = r" "br_ok br1" "br_data br1 = br_data br"
    using decode_symbol [OF t(1) l(1) end_of_block(1,2,3)] by blast
  then show ?case by (simp add: inflate_block.simps [of lit dist br out])
next
  case (literal b bs w)
  have b256: "unat b < 256" using unat_bound [of b] by simp
  have rb: "rest br = code_bits ll (unat b) @ bs @ r" using literal.prems(2) by simp
  obtain br1 where d: "huff_decode br lit = Ok (int (unat b), br1)" "rest br1 = bs @ r" "br_ok br1" "br_data br1 = br_data br"
    using decode_symbol [OF t(1) l(1) literal.hyps(1) literal.prems(1) rb] by blast
  have "length (sk_bytes out) < sk_size out" using block_grows [OF literal.hyps(2)] literal.prems(4) by simp
  note s = sink_byte_room [OF this, of b]
  have "inflate_block lit dist br out = inflate_block lit dist br1 (sink_byte b out)"
    using d(1) uint_lt2p [of b] literal.prems(3) by (simp add: inflate_block.simps [of lit dist br out] s)
  then show ?case using literal.hyps(3) [of "sink_byte b out" br1] literal.prems(3,4) d by (simp add: s)
next
  case (back_reference lc le dc de bs w)
  let ?d = "s_dist_base ! dc + de" and ?n = "s_len_base ! lc + le"
  have n16: "s_len_extra ! lc \<le> 16" "s_dist_extra ! dc \<le> 16" "1 \<le> s_dist_base ! dc"
    using code_tables back_reference.hyps(1,4) by fastforce+
  have rb: "rest br = code_bits ll (257 + lc) @ low_bits (s_len_extra ! lc) le @ code_bits dl dc @ low_bits (s_dist_extra ! dc) de @ bs @ r"
    using back_reference.prems(2) by simp
  obtain br1 where d1: "huff_decode br lit = Ok (int (257 + lc), br1)" and br1: "rest br1 = low_bits (s_len_extra ! lc) le @ code_bits dl dc @ low_bits (s_dist_extra ! dc) de @ bs @ r" "br_ok br1" "br_data br1 = br_data br"
    using decode_symbol [OF t(1) l(1) back_reference.hyps(2) back_reference.prems(1) rb] by blast
  obtain lx br2 where d2: "br_bits (s_len_extra ! lc) br1 = (lx, br2)" "unat lx = le" and br2: "rest br2 = code_bits dl dc @ low_bits (s_dist_extra ! dc) de @ bs @ r" "br_ok br2" "br_data br2 = br_data br1"
    using br_bits_value [OF br1(2) n16(1) br1(1) back_reference.hyps(3)] by blast
  obtain br3 where d3: "huff_decode br2 dist = Ok (int dc, br3)" and br3: "rest br3 = low_bits (s_dist_extra ! dc) de @ bs @ r" "br_ok br3" "br_data br3 = br_data br2"
    using decode_symbol [OF t(2) l(2) back_reference.hyps(5) br2(2,1)] by blast
  obtain dx br4 where d4: "br_bits (s_dist_extra ! dc) br3 = (dx, br4)" "unat dx = de" and br4: "rest br4 = bs @ r" "br_ok br4" "br_data br4 = br_data br3"
    using br_bits_value [OF br3(2) n16(2) br3(1) back_reference.hyps(6)] by blast
  have "length (sk_bytes out) + ?n \<le> sk_size out" using block_grows [OF back_reference.hyps(8)] back_reference.prems(4) by simp
  then have o: "sink_copy ?d ?n out = out\<lparr>sk_bytes := copied ?d ?n (sk_bytes out)\<rparr>"
    using sink_copy_ok(1) [of ?d out ?n] back_reference.hyps(7) back_reference.prems(3) n16(3) by simp
  have "\<not> br_overrun br4" using br4(2) by (simp add: br_ok_def)
  then have step: "inflate_block lit dist br out = inflate_block lit dist br4 (sink_copy ?d ?n out)"
    using d1 d2 d3 d4 back_reference.hyps(1,4) back_reference.prems(3)
    by (simp add: inflate_block.simps [of lit dist br out] o nat_add_distrib)
  show ?case
    unfolding step using back_reference.hyps(9) [of "sink_copy ?d ?n out" br4] br4 br3(3) br2(3) br1(3) back_reference.prems(3,4)
    by (simp add: o)
qed

section \<open>Stored blocks\<close>

text \<open>
  RFC 1951, section 3.2.4: the bits up to the next byte boundary are skipped, then come the length of the
  data, its complement, and the data. The stream ends at a byte boundary, so the distance to the next one is
  the number of bits to come modulo 8.
\<close>

definition stored_bits :: "bool list \<Rightarrow> u8 list \<Rightarrow> bool list \<Rightarrow> bool" where
  "stored_bits bs d r \<longleftrightarrow> length d < 2 ^ 16 \<and>
     (\<exists>pad. length pad = length bs mod 8 \<and>
        bs = pad @ low_bits 16 (length d) @ low_bits 16 (65535 - length d) @ bits_of d @ r)"

lemma bits_of_drop_byte: "i < length data \<Longrightarrow> bits_of (drop i data) = low_bits 8 (data ! i) @ bits_of (drop (Suc i) data)"
  by (simp add: Cons_nth_drop_Suc [symmetric])

lemma rd16_bits:
  assumes "i + 2 \<le> length data"
  shows "bits_of (drop i data) = low_bits 16 (unat (rd16 data i)) @ bits_of (drop (i + 2) data)"
proof -
  have "bits_of (drop i data) = low_bits 8 (data ! i) @ low_bits 8 (data ! Suc i) @ bits_of (drop (Suc (Suc i)) data)"
    using assms by (simp add: bits_of_drop_byte)
  moreover have "low_bits 8 (data ! i) @ low_bits 8 (data ! Suc i) = low_bits 16 (unat (rd16 data i))"
    by (rule nth_equalityI) (auto simp: low_bits_def nth_append rd16_def bit_simps bit_unsigned_iff dest: bit_imp_le_length)
  ultimately show ?thesis by (metis append.assoc add_2_eq_Suc')
qed

lemma rd16_less: "unat (rd16 data i) < 2 ^ 16"
proof -
  have "take_bit 16 (rd16 data i) = rd16 data i"
  proof (rule take_bit_all)
    fix n assume "bit (rd16 data i) n"
    then show "n < 16" by (auto simp: rd16_def bit_simps dest: bit_imp_le_length)
  qed
  then show ?thesis by (metis take_bit_nat_less_exp unsigned_take_bit_eq)
qed

lemma complement_16:
  assumes "unat (a :: u32) < 2 ^ 16" "unat b < 2 ^ 16"
  shows "a XOR b = 0xFFFF \<longleftrightarrow> unat b = 65535 - unat a"
proof -
  have self: "take_bit 16 a = a" using assms(1) by (simp add: word_unat_eq_iff unsigned_take_bit_eq take_bit_nat_eq_self)
  have m: "(0xFFFF :: u32) = mask 16" by (simp add: mask_eq_exp_minus_1)
  have "a XOR b = mask 16 \<longleftrightarrow> b = a XOR mask 16" by (metis xor.assoc xor.left_neutral xor_self_eq)
  also have "a XOR mask 16 = take_bit 16 (NOT a)"
    by (rule bit_word_eqI) (use self in \<open>auto simp: bit_simps dest: arg_cong [of _ _ "\<lambda>x. bit x _"]\<close>)
  also have "\<dots> = mask 16 - a" using take_bit_not_eq_mask_diff [of 16 a] self by simp
  finally have "a XOR b = 0xFFFF \<longleftrightarrow> b = mask 16 - a" unfolding m .
  moreover have "unat (mask 16 - a) = 65535 - unat a"
    using assms(1) by (simp add: unat_sub word_le_nat_alt flip: m)
  ultimately show ?thesis by (metis word_unat_eq_iff)
qed

lemma bits_of_inj: "length xs = length ys \<Longrightarrow> bits_of xs = bits_of ys \<Longrightarrow> xs = ys"
proof (induction xs ys rule: list_induct2)
  case (Cons x xs y ys)
  have "low_bits 8 x = low_bits 8 y" "bits_of xs = bits_of ys" using Cons.prems by simp_all
  moreover have "x = y" if "low_bits 8 x = low_bits 8 y"
    by (rule bit_word_eqI) (use that in \<open>auto simp: low_bits_def\<close>)
  ultimately show ?case using Cons.IH by simp
qed simp

lemma fold_sink:
  "length (sk_bytes out) + length xs \<le> sk_size out \<Longrightarrow> fold sink_byte xs out = out\<lparr>sk_bytes := sk_bytes out @ xs\<rparr>"
  by (induction xs arbitrary: out) (simp_all add: sink_byte_room)

text \<open>Fewer than eight bits are in the buffer between two reads: aligning only skips them.\<close>

lemma unread_ok:
  assumes "br_ok br"
  shows "br_count (br_align_unread br) = 0" "br_byte (br_align_unread br) = br_byte br" "br_data (br_align_unread br) = br_data br"
    "br_buffer (br_align_unread br) = 0" "br_overrun (br_align_unread br) = br_overrun br" "br_count br = length (rest br) mod 8"
proof -
  have c: "br_count br < 8" "take_bit (br_count br) (br_buffer br) = br_buffer br" using assms by (simp_all add: br_ok_def br_wf_def)
  have "drop_bit (br_count br) (br_buffer br) = 0"
    by (metis c(2) drop_bit_take_bit diff_self_eq_0 take_bit_0)
  then show "br_count (br_align_unread br) = 0" "br_byte (br_align_unread br) = br_byte br" "br_data (br_align_unread br) = br_data br"
    "br_buffer (br_align_unread br) = 0" "br_overrun (br_align_unread br) = br_overrun br"
    using c(1) by (simp_all add: br_align_unread_def)
  show "br_count br = length (rest br) mod 8" using c(1) by (simp add: rest_def)
qed

lemma region_ok_bits: "region_ok data i n \<longleftrightarrow> i \<le> length data \<and> i + n \<le> length data"
  by (auto simp: region_ok_def)

lemma two_words:
  assumes "i + 4 \<le> length data"
  shows "bits_of (drop i data) = low_bits 16 (unat (rd16 data i)) @ low_bits 16 (unat (rd16 data (i + 2))) @ bits_of (drop (i + 4) data)"
proof -
  have e: "i + 2 + 2 = i + 4" by simp
  have "i + 2 \<le> length data" "i + 2 + 2 \<le> length data" using assms by simp_all
  then show ?thesis by (simp only: rd16_bits [of i] rd16_bits [of "i + 2"] e)
qed

text \<open>The three parts of a stored block that is inside the input, as bits.\<close>

lemma stored_layout:
  assumes ok: "br_ok br" and room: "br_byte br + 4 + n \<le> length (br_data br)"
  shows "rest br = low_bits (br_count br) (br_buffer br) @ low_bits 16 (unat (rd16 (br_data br) (br_byte br))) @
     low_bits 16 (unat (rd16 (br_data br) (br_byte br + 2))) @ bits_of (take n (drop (br_byte br + 4) (br_data br))) @
     bits_of (drop (br_byte br + 4 + n) (br_data br))"
proof -
  have "bits_of (drop (br_byte br + 4) (br_data br)) =
      bits_of (take n (drop (br_byte br + 4) (br_data br))) @ bits_of (drop (br_byte br + 4 + n) (br_data br))"
    by (metis add.commute append_take_drop_id bits_of_simps(3) drop_drop)
  then show ?thesis
    using room two_words [of "br_byte br" "br_data br"] by (simp add: rest_def)
qed

lemma stored_eq:
  assumes ok: "br_ok br"
  shows "inflate_stored br out =
     (let blen = rd16 (br_data br) (br_byte br); nlen = rd16 (br_data br) (br_byte br + 2);
          br1 = br\<lparr>br_buffer := 0, br_count := 0, br_byte := br_byte br + 4 + unat blen\<rparr> in
      if length (br_data br) < br_byte br + 4 then Fail AF_ERR_FS_CORRUPT
      else if blen XOR nlen \<noteq> 0xFFFF then Fail AF_ERR_FS_CORRUPT
      else if length (br_data br) < br_byte br + 4 + unat blen then Fail AF_ERR_FS_CORRUPT
      else if sk_size out < length (sk_bytes out) + unat blen then Fail AF_ERR_TOOMANY
      else Ok (br1, out\<lparr>sk_bytes := sk_bytes out @ take (unat blen) (drop (br_byte br + 4) (br_data br))\<rparr>))"
proof -
  note a = unread_ok [OF ok]
  have br: "br_align_unread br = br\<lparr>br_buffer := 0, br_count := 0\<rparr>" using a by (simp add: bitreader.equality)
  have le: "br_byte br \<le> length (br_data br)" using ok by (simp add: br_ok_def br_wf_def)
  show ?thesis
    using le by (auto simp: inflate_stored_def br Let_def region_ok_bits fold_sink not_le)
qed

lemma stored_sound:
  assumes ok: "br_ok br"
  shows "inflate_stored br out = Fail AF_ERR_FS_CORRUPT \<or> inflate_stored br out = Fail AF_ERR_TOOMANY \<or>
     (\<exists>br1 d. inflate_stored br out = Ok (br1, out\<lparr>sk_bytes := sk_bytes out @ d\<rparr>) \<and> stored_bits (rest br) d (rest br1) \<and>
        length (sk_bytes out) + length d \<le> sk_size out \<and> br_ok br1 \<and> br_data br1 = br_data br)"
proof -
  let ?D = "br_data br" and ?i = "br_byte br"
  let ?b = "rd16 ?D ?i" and ?n = "rd16 ?D (?i + 2)"
  show ?thesis
  proof (cases "?i + 4 + unat ?b \<le> length ?D \<and> ?b XOR ?n = 0xFFFF \<and> length (sk_bytes out) + unat ?b \<le> sk_size out")
    case True
    let ?d = "take (unat ?b) (drop (?i + 4) ?D)" and ?br1 = "br\<lparr>br_buffer := 0, br_count := 0, br_byte := ?i + 4 + unat ?b\<rparr>"
    have len: "length ?d = unat ?b" using True by (auto simp: min_def)
    have n: "unat ?n = 65535 - unat ?b" using complement_16 [OF rd16_less rd16_less] True by blast
    have "rest ?br1 = bits_of (drop (?i + 4 + unat ?b) ?D)" by (simp add: rest_def)
    then have "stored_bits (rest br) ?d (rest ?br1)"
      unfolding stored_bits_def len using rd16_less [of ?D ?i] stored_layout [OF ok, of "unat ?b"] True n unread_ok(6) [OF ok]
      by (intro conjI exI [of _ "low_bits (br_count br) (br_buffer br)"]) simp_all
    moreover have "br_ok ?br1" using ok True by (simp add: br_ok_def br_wf_def)
    moreover have "inflate_stored br out = Ok (?br1, out\<lparr>sk_bytes := sk_bytes out @ ?d\<rparr>)"
      using True by (simp add: stored_eq [OF ok] Let_def)
    ultimately show ?thesis using len True by fastforce
  next
    case False
    then show ?thesis by (auto simp: stored_eq [OF ok] Let_def not_le)
  qed
qed

lemma append_split: "xs @ ys = zs @ ws \<Longrightarrow> length xs = length zs \<Longrightarrow> xs = zs \<and> ys = ws"
  by simp

lemma low_bits_inj: "low_bits n (a :: nat) = low_bits n b \<Longrightarrow> a < 2 ^ n \<Longrightarrow> b < 2 ^ n \<Longrightarrow> a = b"
  by (metis val_low_bits take_bit_nat_eq_self)

lemma stored_complete:
  assumes ok: "br_ok br" and st: "stored_bits (rest br) d r" and fits: "length (sk_bytes out) + length d \<le> sk_size out"
  shows "\<exists>br1. inflate_stored br out = Ok (br1, out\<lparr>sk_bytes := sk_bytes out @ d\<rparr>) \<and> rest br1 = r \<and> br_ok br1 \<and> br_data br1 = br_data br"
proof -
  let ?D = "br_data br" and ?i = "br_byte br"
  let ?b = "rd16 ?D ?i" and ?n = "rd16 ?D (?i + 2)"
  have le: "?i \<le> length ?D" using ok by (simp add: br_ok_def br_wf_def)
  obtain pad where d16: "length d < 2 ^ 16" and pad: "length pad = length (rest br) mod 8"
    and bs: "rest br = pad @ low_bits 16 (length d) @ low_bits 16 (65535 - length d) @ bits_of d @ r"
    using st by (auto simp: stored_bits_def)
  have pc: "length pad = br_count br" using pad unread_ok(6) [OF ok] by simp
  have tail: "bits_of (drop ?i ?D) = low_bits 16 (length d) @ low_bits 16 (65535 - length d) @ bits_of d @ r"
    using append_split [of "low_bits (br_count br) (br_buffer br)" "bits_of (drop ?i ?D)" pad] bs pc by (simp add: rest_def)
  have "8 * (length ?D - ?i) = 32 + 8 * length d + length r"
    using tail [THEN arg_cong [of _ _ length]] by simp
  then have room: "?i + 4 + length d \<le> length ?D" by linarith
  have "bits_of (drop ?i ?D) = low_bits 16 (unat ?b) @ low_bits 16 (unat ?n) @ bits_of (drop (?i + 4) ?D)"
    using room by (intro two_words) simp
  then have "low_bits 16 (unat ?b) @ low_bits 16 (unat ?n) @ bits_of (drop (?i + 4) ?D) =
      low_bits 16 (length d) @ low_bits 16 (65535 - length d) @ bits_of d @ r" using tail by (rule subst)
  note e1 = append_split [OF this]
  then have e: "low_bits 16 (unat ?b) = low_bits 16 (length d)" "low_bits 16 (unat ?n) = low_bits 16 (65535 - length d)"
      "bits_of (drop (?i + 4) ?D) = bits_of d @ r"
    using append_split [OF e1 [THEN conjunct2]] by (simp_all only: length_low_bits simp_thms)
  have b: "unat ?b = length d" by (rule low_bits_inj [OF e(1) rd16_less d16])
  have n: "unat ?n = 65535 - length d" by (rule low_bits_inj [OF e(2) rd16_less]) simp
  have "take (8 * length d) (bits_of (drop (?i + 4) ?D)) = bits_of d" using e(3) by simp
  then have "bits_of (take (length d) (drop (?i + 4) ?D)) = bits_of d" by (simp add: take_bits_of)
  then have d: "take (length d) (drop (?i + 4) ?D) = d" using room by (intro bits_of_inj) simp_all
  let ?br1 = "br\<lparr>br_buffer := 0, br_count := 0, br_byte := ?i + 4 + unat ?b\<rparr>"
  have "inflate_stored br out = Ok (?br1, out\<lparr>sk_bytes := sk_bytes out @ d\<rparr>)"
    using room fits b n d complement_16 [OF rd16_less rd16_less, of ?D ?i ?D "?i + 2"] by (simp add: stored_eq [OF ok] Let_def)
  moreover have "rest ?br1 = r"
  proof -
    have "drop (8 * length d) (bits_of (drop (?i + 4) ?D)) = r" using e(3) by simp
    then show ?thesis using b by (simp add: rest_def drop_bits_of add.commute add.left_commute)
  qed
  moreover have "br_ok ?br1" using ok room b by (simp add: br_ok_def br_wf_def)
  ultimately show ?thesis by auto
qed

section \<open>The tables of a dynamic block\<close>

text \<open>
  RFC 1951, section 3.2.7: the code lengths of the two alphabets are themselves coded, as one sequence of
  \<open>n\<close> numbers with the repeat codes 16 (the previous length again), 17 and 18 (zeros).
\<close>

inductive length_bits :: "nat list \<Rightarrow> nat \<Rightarrow> bool list \<Rightarrow> nat list \<Rightarrow> nat list \<Rightarrow> bool" for cl n where
  lengths_done: "length xs = n \<Longrightarrow> length_bits cl n [] xs xs"
| one_length: "length xs < n \<Longrightarrow> l < 16 \<Longrightarrow> has_code cl l \<Longrightarrow> length_bits cl n bs (xs @ [l]) ys \<Longrightarrow>
     length_bits cl n (code_bits cl l @ bs) xs ys"
| repeat_last: "xs \<noteq> [] \<Longrightarrow> has_code cl 16 \<Longrightarrow> e < 4 \<Longrightarrow> length xs + (3 + e) \<le> n \<Longrightarrow>
     length_bits cl n bs (xs @ replicate (3 + e) (last xs)) ys \<Longrightarrow>
     length_bits cl n (code_bits cl 16 @ low_bits 2 e @ bs) xs ys"
| few_zeros: "has_code cl 17 \<Longrightarrow> e < 8 \<Longrightarrow> length xs + (3 + e) \<le> n \<Longrightarrow> length_bits cl n bs (xs @ replicate (3 + e) 0) ys \<Longrightarrow>
     length_bits cl n (code_bits cl 17 @ low_bits 3 e @ bs) xs ys"
| many_zeros: "has_code cl 18 \<Longrightarrow> e < 128 \<Longrightarrow> length xs + (11 + e) \<le> n \<Longrightarrow> length_bits cl n bs (xs @ replicate (11 + e) 0) ys \<Longrightarrow>
     length_bits cl n (code_bits cl 18 @ low_bits 7 e @ bs) xs ys"

definition clc_table :: "nat list \<Rightarrow> nat list" where
  "clc_table vs = fold (\<lambda>(k, v) ls. ls[k := v]) (zip s_clc_order vs) (replicate 19 0)"

inductive dynamic_bits :: "bool list \<Rightarrow> nat list \<Rightarrow> nat list \<Rightarrow> bool" where
  "hlit < 30 \<Longrightarrow> hdist < 30 \<Longrightarrow> length vs = hclen + 4 \<Longrightarrow> hclen < 16 \<Longrightarrow> (\<forall>v \<in> set vs. v < 8) \<Longrightarrow> kraft (clc_table vs) \<Longrightarrow>
   length_bits (clc_table vs) (hlit + 257 + (hdist + 1)) bs [] ys \<Longrightarrow>
   kraft (take (hlit + 257) ys) \<Longrightarrow> kraft (drop (hlit + 257) ys) \<Longrightarrow>
   dynamic_bits (low_bits 5 hlit @ low_bits 5 hdist @ low_bits 4 hclen @ concat (map (low_bits 3) vs) @ bs)
     (take (hlit + 257) ys) (drop (hlit + 257) ys)"

subsection \<open>The lengths of the code-length alphabet\<close>

lemma clc_sticky: "clc_lengths ks ls br = (ls1, br1) \<Longrightarrow> br_overrun br \<Longrightarrow> br_overrun br1"
proof (induction ks ls br rule: clc_lengths.induct)
  case (2 k ks ls br)
  obtain v br2 where "br_bits 3 br = (v, br2)" by fastforce
  then show ?case using 2 br_bits_sticky by simp
qed simp

lemma clc_small: "clc_lengths ks ls br = (ls1, br1) \<Longrightarrow> \<forall>l \<in> set ls. l \<le> 7 \<Longrightarrow> length ls1 = length ls \<and> (\<forall>l \<in> set ls1. l \<le> 7)"
proof (induction ks ls br rule: clc_lengths.induct)
  case (2 k ks ls br)
  obtain v br2 where v: "br_bits 3 br = (v, br2)" by fastforce
  have "unat v < 8" using br_bits_small [OF v] by simp
  then have "(ucast v :: u8) \<le> 7" by (simp add: word_le_nat_alt unsigned_ucast_eq take_bit_nat_eq_self)
  then have "\<forall>l \<in> set (ls[k := ucast v]). l \<le> 7" using 2(3) set_update_subset_insert by fastforce
  then show ?case using 2 v by simp
qed simp

lemma clc_sound:
  assumes "clc_lengths ks ls br = (ls1, br1)" "br_ok br" "\<not> br_overrun br1"
  shows "\<exists>vs. length vs = length ks \<and> (\<forall>v \<in> set vs. v < 8) \<and> rest br = concat (map (low_bits 3) vs) @ rest br1 \<and> br_ok br1 \<and>
     br_data br1 = br_data br \<and> map unat ls1 = fold (\<lambda>(k, v) ls. ls[k := v]) (zip ks vs) (map unat ls)"
  using assms
proof (induction ks ls br rule: clc_lengths.induct)
  case (2 k ks ls br)
  obtain v br2 where v: "br_bits 3 br = (v, br2)" by fastforce
  then have more: "clc_lengths ks (ls[k := ucast v]) br2 = (ls1, br1)" using 2(2) by simp
  have no: "\<not> br_overrun br2" using clc_sticky [OF more] 2(4) by blast
  note B = br_bits_ok [OF 2(3) _ br_bits_read [OF 2(3) _ v no] v, simplified]
  have rd: "3 \<le> length (rest br)" using br_bits_read [OF 2(3) _ v no] by simp
  obtain vs where vs: "length vs = length ks" "\<forall>v \<in> set vs. v < 8" "rest br2 = concat (map (low_bits 3) vs) @ rest br1" "br_ok br1"
      "br_data br1 = br_data br2" "map unat ls1 = fold (\<lambda>(k, v) ls. ls[k := v]) (zip ks vs) (map unat (ls[k := ucast v]))"
    using 2(1) [OF v [symmetric] refl more B(3) 2(4)] by blast
  have "unat v < 8" using br_bits_small [OF v] by simp
  moreover have "rest br = low_bits 3 (unat v) @ rest br2" using B(1,2) low_bits_take [OF rd] by simp
  moreover have "map unat (ls[k := ucast v]) = (map unat ls)[k := unat v]"
    using \<open>unat v < 8\<close> by (simp add: map_update unsigned_ucast_eq take_bit_nat_eq_self)
  ultimately show ?case using vs B(4) by (intro exI [of _ "unat v # vs"]) simp
qed simp

lemma clc_complete:
  assumes "br_ok br" "rest br = concat (map (low_bits 3) vs) @ r" "length vs = length ks" "\<forall>v \<in> set vs. v < 8"
  shows "\<exists>ls1 br1. clc_lengths ks ls br = (ls1, br1) \<and> rest br1 = r \<and> br_ok br1 \<and> br_data br1 = br_data br \<and>
     map unat ls1 = fold (\<lambda>(k, v) ls. ls[k := v]) (zip ks vs) (map unat ls)"
  using assms
proof (induction ks arbitrary: vs ls br)
  case (Cons k ks)
  then obtain v vs' where vs: "vs = v # vs'" by (cases vs) simp_all
  have v8: "v < 2 ^ 3" using Cons.prems(4) vs by simp
  have rb: "rest br = low_bits 3 v @ concat (map (low_bits 3) vs') @ r" using Cons.prems(2) vs by simp
  obtain x br1 where x: "br_bits 3 br = (x, br1)" "unat x = v" "rest br1 = concat (map (low_bits 3) vs') @ r" "br_ok br1" "br_data br1 = br_data br"
    using br_bits_value [OF Cons.prems(1) _ rb v8] by auto
  have "map unat (ls[k := ucast x]) = (map unat ls)[k := v]"
    using x(2) v8 by (simp add: map_update unsigned_ucast_eq take_bit_nat_eq_self)
  then show ?case using Cons.IH [OF x(4,3), of "ls[k := ucast x]"] Cons.prems(3,4) x vs by simp
qed simp

subsection \<open>The sequence of lengths\<close>

definition lens_result :: "nat list \<Rightarrow> nat \<Rightarrow> bitreader \<Rightarrow> u8 list \<Rightarrow> (u8 list \<times> bitreader) outcome \<Rightarrow> bool" where
  "lens_result cl n br xs r \<longleftrightarrow> r = Fail AF_ERR_FS_CORRUPT \<or>
     (\<exists>ys br1. r = Ok (ys, br1) \<and> length ys = n \<and> (\<forall>y \<in> set ys. y \<le> 15) \<and>
        (br_overrun br1 \<or> (\<exists>bs. length_bits cl n bs (map unat xs) (map unat ys) \<and> rest br = bs @ rest br1 \<and> br_ok br1 \<and> br_data br1 = br_data br)))"

lemma lens_extend:
  assumes "lens_result cl n br1 xs1 r" "rest br = pre @ rest br1" "br_data br1 = br_data br"
    "\<And>bs ys. length_bits cl n bs (map unat xs1) ys \<Longrightarrow> length_bits cl n (pre @ bs) (map unat xs) ys"
  shows "lens_result cl n br xs r"
proof (cases "r = Fail AF_ERR_FS_CORRUPT")
  case False
  then obtain ys br2 where r: "r = Ok (ys, br2)" "length ys = n" "\<forall>y \<in> set ys. y \<le> 15"
    and alt: "br_overrun br2 \<or> (\<exists>bs. length_bits cl n bs (map unat xs1) (map unat ys) \<and> rest br1 = bs @ rest br2 \<and> br_ok br2 \<and> br_data br2 = br_data br1)"
    using assms(1) unfolding lens_result_def by blast
  have "br_overrun br2 \<or> (\<exists>bs. length_bits cl n bs (map unat xs) (map unat ys) \<and> rest br = bs @ rest br2 \<and> br_ok br2 \<and> br_data br2 = br_data br)"
    using alt assms(2,3,4) by (metis append.assoc)
  then show ?thesis unfolding lens_result_def using r by blast
qed (simp add: lens_result_def)

lemma code_lengths_done: "n \<le> length xs \<Longrightarrow> code_lengths clc n xs br = Ok (xs, br)"
  by (subst code_lengths.simps) (rule if_P)

lemma lengths_over:
  assumes "br_overrun br" "length xs \<le> n" "\<forall>x \<in> set xs. x \<le> 15"
  shows "lens_result cl n br0 xs0 (code_lengths clc n xs br)"
proof (cases "n \<le> length xs")
  case True
  then show ?thesis using assms by (simp add: code_lengths_done lens_result_def)
next
  case False
  obtain br1 where "huff_decode br clc = Ok (-1, br1)" using decode_overrun [OF assms(1)] by blast
  then show ?thesis using False by (simp add: code_lengths.simps [of clc n xs br] lens_result_def)
qed

text \<open>The repeat codes: base, extra bits, value.\<close>

definition repeat_code :: "nat \<Rightarrow> nat \<times> nat" where
  "repeat_code t = (if t = 16 then (3, 2) else if t = 17 then (3, 3) else (11, 7))"

lemma lengths_repeat:
  assumes d: "huff_decode br clc = Ok (int t, br1)" and t: "t \<in> {16, 17, 18}" and more: "\<not> n \<le> length xs"
    and rc: "repeat_code t = (base, k)" and x: "br_bits k br1 = (rx, br2)"
  shows "code_lengths clc n xs br =
     (if t = 16 \<and> xs = [] \<or> n < length xs + (base + unat rx) then Fail AF_ERR_FS_CORRUPT
      else code_lengths clc n (xs @ replicate (base + unat rx) (if t = 16 then last xs else 0)) br2)"
proof (cases "t = 16 \<and> xs = []")
  case True
  then show ?thesis using d more by (simp add: code_lengths.simps [of clc n "[]" br])
next
  case False
  then show ?thesis using d more rc x t by (auto simp: code_lengths.simps [of clc n xs br] repeat_code_def Let_def)
qed

lemma repeat_bits:
  assumes t: "t \<in> {16, 17, 18}" and rc: "repeat_code t = (base, k)" and e: "e < 2 ^ k" and h: "has_code cl t"
    and xs: "t = 16 \<longrightarrow> xs \<noteq> []" and room: "length xs + (base + e) \<le> n"
    and more: "length_bits cl n bs (xs @ replicate (base + e) (if t = 16 then last xs else 0)) ys"
  shows "length_bits cl n (code_bits cl t @ low_bits k e @ bs) xs ys"
proof -
  consider "t = 16" | "t = 17" | "t = 18" using t by blast
  then show ?thesis
  proof cases
    case 1
    then show ?thesis using repeat_last [of xs cl e n bs ys] assms by (simp add: repeat_code_def)
  next
    case 2
    then show ?thesis using few_zeros [of cl e xs n bs ys] assms by (simp add: repeat_code_def)
  next
    case 3
    then show ?thesis using many_zeros [of cl e xs n bs ys] assms by (simp add: repeat_code_def)
  qed
qed

lemma lengths_sound:
  assumes t: "table_ok clc cl" and cl: "length cl = 19" and "br_ok br" "length xs \<le> n" "\<forall>x \<in> set xs. x \<le> 15"
  shows "lens_result cl n br xs (code_lengths clc n xs br)"
  using assms(3-)
proof (induction "n - length xs" arbitrary: xs br rule: less_induct)
  case less
  show ?case
  proof (cases "n \<le> length xs")
    case True
    then show ?thesis
      using less.prems length_bits.lengths_done [of "map unat xs" n cl] by (simp add: code_lengths_done lens_result_def)
  next
    case more: False
    from t less.prems(1) show ?thesis
    proof (cases rule: decode_cases)
      case (bad br1)
      then show ?thesis using more by (simp add: code_lengths.simps [of clc n xs br] lens_result_def)
    next
      case (symbol s br1)
      have s19: "s < 19" using symbol(2) cl by (simp add: has_code_def)
      show ?thesis
      proof (cases "s < 16")
        case True
        let ?x = "of_int (int s) :: u8"
        have x: "unat ?x = s" using literal_symbol True by simp
        have step: "code_lengths clc n xs br = code_lengths clc n (xs @ [?x]) br1"
          using symbol(1) True more by (simp add: code_lengths.simps [of clc n xs br])
        have "?x \<le> 15" using x True by (simp add: word_le_nat_alt)
        then have IH: "lens_result cl n br1 (xs @ [?x]) (code_lengths clc n xs br)"
          unfolding step using less.prems more by (intro less.hyps symbol(4)) auto
        show ?thesis
          by (rule lens_extend [OF IH symbol(3,5)])
            (use length_bits.one_length [of "map unat xs" n s cl] more True symbol(2) x in simp)
      next
        case False
        then have s3: "s \<in> {16, 17, 18}" using s19 by auto
        obtain base k where rc: "repeat_code s = (base, k)" by fastforce
        have k: "k \<le> 7" "0 < base" using rc by (auto simp: repeat_code_def split: if_splits)
        obtain rx br2 where x: "br_bits k br1 = (rx, br2)" by fastforce
        note step = lengths_repeat [OF symbol(1) s3 more rc x]
        let ?v = "if s = 16 then last xs else 0" and ?m = "base + unat rx"
        show ?thesis
        proof (cases "s = 16 \<and> xs = [] \<or> n < length xs + ?m")
          case True
          then show ?thesis by (simp add: step lens_result_def)
        next
          case ok: False
          have v: "\<forall>x \<in> set (xs @ replicate ?m ?v). x \<le> 15" using less.prems(3) ok by auto
          have step2: "code_lengths clc n xs br = code_lengths clc n (xs @ replicate ?m ?v) br2" unfolding step using ok by (simp only: if_False)
          show ?thesis
          proof (cases "br_overrun br2")
            case True
            show ?thesis unfolding step2 using ok by (intro lengths_over [OF True _ v]) simp
          next
            case False
            have k16: "k \<le> 16" using k by simp
            note rd = br_bits_read [OF symbol(4) k16 x False]
            note B = br_bits_ok [OF symbol(4) k16 rd x]
            have IH: "lens_result cl n br2 (xs @ replicate ?m ?v) (code_lengths clc n xs br)"
              unfolding step2 using ok more k(2) by (intro less.hyps B(3) v) auto
            have bits: "rest br = (code_bits cl s @ low_bits k (unat rx)) @ rest br2"
              using symbol(3) B(1,2) low_bits_take [OF rd] by simp
            have small: "unat rx < 2 ^ k" using br_bits_small [OF x] k by simp
            show ?thesis
            proof (rule lens_extend [OF IH bits])
              show "br_data br2 = br_data br" using B(4) symbol(5) by simp
              show "length_bits cl n ((code_bits cl s @ low_bits k (unat rx)) @ bs) (map unat xs) ys"
                if "length_bits cl n bs (map unat (xs @ replicate ?m ?v)) ys" for bs ys
              proof -
                have e: "map unat (xs @ replicate ?m ?v) = map unat xs @ replicate ?m (if s = 16 then last (map unat xs) else 0)"
                  using ok by (auto simp: last_map)
                show ?thesis
                  unfolding append.assoc by (rule repeat_bits [OF s3 rc small symbol(2) _ _ that [unfolded e]]) (use ok in auto)
              qed
            qed
          qed
        qed
      qed
    qed
  qed
qed

lemma lengths_complete:
  assumes t: "table_ok clc cl" and l: "lens_ok cl"
    and "length_bits cl n bs (map unat xs) ys" "br_ok br" "rest br = bs @ r" "\<forall>x \<in> set xs. x \<le> 15"
  shows "\<exists>zs br1. code_lengths clc n xs br = Ok (zs, br1) \<and> map unat zs = ys \<and> length zs = n \<and> (\<forall>z \<in> set zs. z \<le> 15) \<and>
     rest br1 = r \<and> br_ok br1 \<and> br_data br1 = br_data br"
proof -
  have rep: "\<exists>zs br1. code_lengths clc n xs br = Ok (zs, br1) \<and> map unat zs = ys \<and> length zs = n \<and> (\<forall>z \<in> set zs. z \<le> 15) \<and>
     rest br1 = r \<and> br_ok br1 \<and> br_data br1 = br_data br"
    if s: "s \<in> {16, 17, 18}" "repeat_code s = (base, k)" "e < 2 ^ k" "has_code cl s" "s = 16 \<longrightarrow> xs \<noteq> []" "length xs + (base + e) \<le> n"
      and IH: "\<And>br1. br_ok br1 \<Longrightarrow> rest br1 = bs @ r \<Longrightarrow>
        \<exists>zs br2. code_lengths clc n (xs @ replicate (base + e) (if s = 16 then last xs else 0)) br1 = Ok (zs, br2) \<and> map unat zs = ys \<and>
          length zs = n \<and> (\<forall>z \<in> set zs. z \<le> 15) \<and> rest br2 = r \<and> br_ok br2 \<and> br_data br2 = br_data br1"
      and br: "br_ok br" "rest br = (code_bits cl s @ low_bits k e @ bs) @ r"
    for s base k e xs bs br ys
  proof -
    have k: "k \<le> 16" "0 < base" using s(2) by (auto simp: repeat_code_def split: if_splits)
    have rb: "rest br = code_bits cl s @ low_bits k e @ bs @ r" using br(2) by simp
    obtain br1 where d: "huff_decode br clc = Ok (int s, br1)" and r1: "rest br1 = low_bits k e @ bs @ r" "br_ok br1" "br_data br1 = br_data br"
      using decode_symbol [OF t l s(4) br(1) rb] by blast
    obtain x br2 where x: "br_bits k br1 = (x, br2)" "unat x = e" and r2: "rest br2 = bs @ r" "br_ok br2" "br_data br2 = br_data br1"
      using br_bits_value [OF r1(2) k(1) r1(1) s(3)] by blast
    have more: "\<not> n \<le> length xs" using s(6) k(2) by simp
    show ?thesis
      using lengths_repeat [OF d s(1) more s(2) x(1)] s(5,6) x(2) IH [OF r2(2,1)] r2(3) r1(3) by auto
  qed
  show ?thesis
    using assms(3-)
  proof (induction bs "map unat xs" ys arbitrary: xs br rule: length_bits.induct)
    case lengths_done
    then show ?case by (simp add: code_lengths_done)
  next
    case (one_length l bs ys)
    have rb: "rest br = code_bits cl l @ bs @ r" using one_length.prems(2) by simp
    obtain br1 where d: "huff_decode br clc = Ok (int l, br1)" and r1: "rest br1 = bs @ r" "br_ok br1" "br_data br1 = br_data br"
      using decode_symbol [OF t \<open>lens_ok cl\<close> one_length.hyps(3) one_length.prems(1) rb] by blast
    let ?x = "of_int (int l) :: u8"
    have x: "unat ?x = l" using literal_symbol one_length.hyps(2) by simp
    then have "?x \<le> 15" using one_length.hyps(2) by (simp add: word_le_nat_alt)
    moreover have "code_lengths clc n xs br = code_lengths clc n (xs @ [?x]) br1"
      using d one_length.hyps(1,2) by (simp add: code_lengths.simps [of clc n xs br])
    ultimately show ?case using one_length.hyps(5) [of "xs @ [?x]" br1] r1 one_length.prems(3) x by auto
  next
    case (repeat_last e bs ys)
    have "map unat xs @ replicate (3 + e) (last (map unat xs)) = map unat (xs @ replicate (3 + e) (last xs))"
      using repeat_last.hyps(1) by (simp add: last_map)
    moreover have "\<forall>x \<in> set (xs @ replicate (3 + e) (last xs)). x \<le> 15" using repeat_last.prems(3) repeat_last.hyps(1) by auto
    ultimately show ?case
      using rep [of 16 3 2 e xs bs ys br] repeat_last by (simp add: repeat_code_def)
  next
    case (few_zeros e bs ys)
    have "map unat xs @ replicate (3 + e) 0 = map unat (xs @ replicate (3 + e) 0)" by simp
    moreover have "\<forall>x \<in> set (xs @ replicate (3 + e) 0). x \<le> 15" using few_zeros.prems(3) by auto
    ultimately show ?case using rep [of 17 3 3 e xs bs ys br] few_zeros by (simp add: repeat_code_def)
  next
    case (many_zeros e bs ys)
    have "map unat xs @ replicate (11 + e) 0 = map unat (xs @ replicate (11 + e) 0)" by simp
    moreover have "\<forall>x \<in> set (xs @ replicate (11 + e) 0). x \<le> 15" using many_zeros.prems(3) by auto
    ultimately show ?case using rep [of 18 11 7 e xs bs ys br] many_zeros by (simp add: repeat_code_def)
  qed
qed

subsection \<open>Both tables\<close>

text \<open>A table read from the stream: used only when its lengths satisfy Kraft's inequality.\<close>

lemma build_then:
  assumes "length ls \<le> 288" "\<forall>l \<in> set ls. l \<le> 15"
  shows "\<exists>h. andthen (huff_build ls) (\<lambda>(r, h). if r < 0 then Fail e else k h) =
     (if kraft (map unat ls) then k h else Fail e) \<and> (kraft (map unat ls) \<longrightarrow> table_ok h (map unat ls) \<and> lens_ok (map unat ls))"
proof -
  obtain r h where h: "huff_build ls = Ok (r, h)" "r < 0 \<longleftrightarrow> \<not> kraft (map unat ls)" "kraft (map unat ls) \<longrightarrow> table_ok h (map unat ls)"
    using huff_build_ok [OF assms] by blast
  have "lens_ok (map unat ls)" if "kraft (map unat ls)"
    using that assms by (auto simp: lens_ok_def word_le_nat_alt)
  then show ?thesis using h by (intro exI [of _ h]) auto
qed

lemma zip_take_short: "length vs \<le> k \<Longrightarrow> zip (take k xs) vs = zip xs vs"
  using take_zip [of k xs vs] by simp

definition tables_ok :: "huff \<times> huff \<Rightarrow> nat list \<Rightarrow> nat list \<Rightarrow> bool" where
  "tables_ok t ll dl \<longleftrightarrow> table_ok (fst t) ll \<and> table_ok (snd t) dl \<and> lens_ok ll \<and> lens_ok dl"

lemma parts_ok:
  assumes "length ys = hlit + hdist" "hlit \<le> 286" "hdist \<le> 30" "\<forall>y \<in> set ys. y \<le> (15 :: u8)"
  shows "length (take hlit ys) \<le> 288" "\<forall>l \<in> set (take hlit ys). l \<le> 15" "length (drop hlit ys) \<le> 288" "\<forall>l \<in> set (drop hlit ys). l \<le> 15"
  using assms by (auto dest: in_set_takeD in_set_dropD)

lemma dynamic_sound:
  assumes ok: "br_ok br"
  shows "read_dynamic_tables br = Fail AF_ERR_FS_CORRUPT \<or>
     (\<exists>lit dist br1 bs ll dl. read_dynamic_tables br = Ok (lit, dist, br1) \<and> dynamic_bits bs ll dl \<and> rest br = bs @ rest br1 \<and>
        br_ok br1 \<and> br_data br1 = br_data br \<and> tables_ok (lit, dist) ll dl)"
proof -
  obtain a br1 where a: "br_bits 5 br = (a, br1)" by fastforce
  obtain b br2 where b: "br_bits 5 br1 = (b, br2)" by fastforce
  obtain c br3 where c: "br_bits 4 br2 = (c, br3)" by fastforce
  let ?hlit = "unat a + 257" and ?hdist = "unat b + 1" and ?hclen = "unat c + 4"
  show ?thesis
  proof (cases "br_overrun br3 \<or> 286 < ?hlit \<or> 30 < ?hdist")
    case True
    then show ?thesis by (simp add: read_dynamic_tables_def a b c)
  next
    case False
    then have no: "\<not> br_overrun br3" "\<not> br_overrun br2" "\<not> br_overrun br1" and h: "?hlit \<le> 286" "?hdist \<le> 30"
      using br_bits_sticky b c by auto
    have ra: "5 \<le> length (rest br)" using br_bits_read [OF ok _ a no(3)] by simp
    note A = br_bits_ok [OF ok _ ra a, simplified]
    have rb: "5 \<le> length (rest br1)" using br_bits_read [OF A(3) _ b no(2)] by simp
    note B = br_bits_ok [OF A(3) _ rb b, simplified]
    have rc: "4 \<le> length (rest br2)" using br_bits_read [OF B(3) _ c no(1)] by simp
    note C = br_bits_ok [OF B(3) _ rc c, simplified]
    have c16: "unat c < 16" using br_bits_small [OF c] by simp
    obtain ls br4 where d: "clc_lengths (take ?hclen s_clc_order) (replicate 19 0) br3 = (ls, br4)" by fastforce
    have ls: "length ls = 19" "\<forall>l \<in> set ls. l \<le> 7" using clc_small [OF d] by simp_all
    then have ls15: "\<forall>l \<in> set ls. l \<le> 15" by (auto simp: word_le_nat_alt)
    let ?n = "?hlit + ?hdist"
    define k3 where "k3 = (\<lambda>lengths (br5 :: bitreader) lit. andthen (huff_build (drop ?hlit lengths))
       (\<lambda>(r, dist). if r < 0 then Fail AF_ERR_FS_CORRUPT else Ok (lit :: huff, dist, br5)))"
    define k2 where "k2 = (\<lambda>(lengths, br5). if br_overrun br5 then Fail AF_ERR_FS_CORRUPT
       else andthen (huff_build (take ?hlit lengths)) (\<lambda>(r, lit). if r < 0 then Fail AF_ERR_FS_CORRUPT else k3 lengths br5 lit))"
    have eq: "read_dynamic_tables br = andthen (huff_build ls)
       (\<lambda>(r, clc). if r < 0 then Fail AF_ERR_FS_CORRUPT else andthen (code_lengths clc ?n [] br4) k2)"
      unfolding read_dynamic_tables_def a b c d Let_def case_prod_conv k2_def k3_def by (rule if_not_P [OF False])
    obtain clc where clc: "read_dynamic_tables br = (if kraft (map unat ls) then andthen (code_lengths clc ?n [] br4) k2 else Fail AF_ERR_FS_CORRUPT)"
      and tab: "kraft (map unat ls) \<longrightarrow> table_ok clc (map unat ls) \<and> lens_ok (map unat ls)"
      using build_then [of ls AF_ERR_FS_CORRUPT "\<lambda>clc. andthen (code_lengths clc ?n [] br4) k2"] ls(1) ls15 eq by auto
    show ?thesis
    proof (cases "kraft (map unat ls)")
      case False
      then show ?thesis using clc by simp
    next
      case kr: True
      then have t: "table_ok clc (map unat ls)" "lens_ok (map unat ls)" using tab by auto
      have res: "lens_result (map unat ls) ?n br4 [] (code_lengths clc ?n [] br4)"
      proof (cases "br_overrun br4")
        case True
        then show ?thesis by (intro lengths_over) simp_all
      next
        case False
        then obtain vs where "br_ok br4" using clc_sound [OF d C(3)] by blast
        then show ?thesis using ls(1) by (intro lengths_sound [OF t(1)]) simp_all
      qed
      show ?thesis
      proof (cases "code_lengths clc ?n [] br4 = Fail AF_ERR_FS_CORRUPT")
        case True
        then show ?thesis using clc kr by simp
      next
        case False
        then obtain ys br5 where y: "code_lengths clc ?n [] br4 = Ok (ys, br5)" "length ys = ?n" "\<forall>y \<in> set ys. y \<le> 15"
          and alt: "br_overrun br5 \<or> (\<exists>bs. length_bits (map unat ls) ?n bs [] (map unat ys) \<and> rest br4 = bs @ rest br5 \<and> br_ok br5 \<and> br_data br5 = br_data br4)"
          using res unfolding lens_result_def by (auto simp del: add_Suc_right)
        show ?thesis
        proof (cases "br_overrun br5")
          case True
          then show ?thesis using clc kr y(1) by (simp add: k2_def)
        next
          case no5: False
          have no4: "\<not> br_overrun br4"
          proof
            assume o: "br_overrun br4"
            obtain br' where "huff_decode br4 clc = Ok (-1, br')" using decode_overrun [OF o] by blast
            then have "code_lengths clc ?n [] br4 = Fail AF_ERR_FS_CORRUPT" by (subst code_lengths.simps) simp
            then show False using y(1) by simp
          qed
          obtain vs where vs: "length vs = length (take ?hclen s_clc_order)" "\<forall>v \<in> set vs. v < 8" "rest br3 = concat (map (low_bits 3) vs) @ rest br4"
              "br_ok br4" "br_data br4 = br_data br3" "map unat ls = fold (\<lambda>(k, v) ls. ls[k := v]) (zip (take ?hclen s_clc_order) vs) (map unat (replicate 19 (0 :: u8)))"
            using clc_sound [OF d C(3) no4] by blast
          have lv: "length vs = unat c + 4" using vs(1) c16 by (simp add: s_clc_order_def)
          have tbl: "clc_table vs = map unat ls"
            using vs(6) zip_take_short [of vs ?hclen s_clc_order] lv by (simp add: clc_table_def)
          obtain bs where bs: "length_bits (map unat ls) ?n bs [] (map unat ys)" "rest br4 = bs @ rest br5" "br_ok br5" "br_data br5 = br_data br4"
            using alt no5 by blast
          note P = parts_ok [OF y(2) h y(3)]
          obtain lit where lit: "andthen (huff_build (take ?hlit ys)) (\<lambda>(r, lit). if r < 0 then Fail AF_ERR_FS_CORRUPT else k3 ys br5 lit) =
              (if kraft (map unat (take ?hlit ys)) then k3 ys br5 lit else Fail AF_ERR_FS_CORRUPT)"
              "kraft (map unat (take ?hlit ys)) \<longrightarrow> table_ok lit (map unat (take ?hlit ys)) \<and> lens_ok (map unat (take ?hlit ys))"
            using build_then [OF P(1,2), of AF_ERR_FS_CORRUPT "k3 ys br5"] by blast
          obtain dist where dist: "k3 ys br5 lit = (if kraft (map unat (drop ?hlit ys)) then Ok (lit, dist, br5) else Fail AF_ERR_FS_CORRUPT)"
              "kraft (map unat (drop ?hlit ys)) \<longrightarrow> table_ok dist (map unat (drop ?hlit ys)) \<and> lens_ok (map unat (drop ?hlit ys))"
            using build_then [OF P(3,4), of AF_ERR_FS_CORRUPT "\<lambda>dist. Ok (lit, dist, br5)"] unfolding k3_def by blast
          have final: "read_dynamic_tables br = (if kraft (map unat (take ?hlit ys)) \<and> kraft (map unat (drop ?hlit ys)) then Ok (lit, dist, br5) else Fail AF_ERR_FS_CORRUPT)"
            using clc kr y(1) no5 lit(1) dist(1) by (simp add: k2_def)
          show ?thesis
          proof (cases "kraft (map unat (take ?hlit ys)) \<and> kraft (map unat (drop ?hlit ys))")
            case False
            then show ?thesis using final by auto
          next
            case True
            have "dynamic_bits (low_bits 5 (unat a) @ low_bits 5 (unat b) @ low_bits 4 (unat c) @ concat (map (low_bits 3) vs) @ bs)
               (take ?hlit (map unat ys)) (drop ?hlit (map unat ys))"
              using dynamic_bits.intros [of "unat a" "unat b" vs "unat c" bs "map unat ys"] h lv c16 vs(2) kr bs(1) True
              by (simp add: tbl take_map drop_map)
            moreover have "rest br = (low_bits 5 (unat a) @ low_bits 5 (unat b) @ low_bits 4 (unat c) @ concat (map (low_bits 3) vs) @ bs) @ rest br5"
              using A(1,2) B(1,2) C(1,2) low_bits_take [OF ra] low_bits_take [OF rb] low_bits_take [OF rc] vs(3) bs(2)
                append_take_drop_id [of 5 "rest br"] append_take_drop_id [of 5 "rest br1"] append_take_drop_id [of 4 "rest br2"] by simp
            moreover have "tables_ok (lit, dist) (take ?hlit (map unat ys)) (drop ?hlit (map unat ys))"
              using lit(2) dist(2) True by (simp add: tables_ok_def take_map drop_map)
            moreover have "br_data br5 = br_data br" using bs(4) vs(5) C(4) B(4) A(4) by simp
            moreover have "read_dynamic_tables br = Ok (lit, dist, br5)" using final True by simp
            ultimately show ?thesis using bs(3) by blast
          qed
        qed
      qed
    qed
  qed
qed

lemma length_bits_grows: "length_bits cl n bs xs ys \<Longrightarrow> length ys = n"
  by (induction rule: length_bits.induct) simp_all

lemma dynamic_complete:
  assumes ok: "br_ok br" and dyn: "dynamic_bits hs ll dl" and rb: "rest br = hs @ r"
  shows "\<exists>lit dist br1. read_dynamic_tables br = Ok (lit, dist, br1) \<and> rest br1 = r \<and> br_ok br1 \<and> br_data br1 = br_data br \<and> tables_ok (lit, dist) ll dl"
  using dyn
proof cases
  case (1 hlit hdist vs hclen bs ns)
  let ?lit = "hlit + 257" and ?n = "hlit + 257 + (hdist + 1)"
  have lv: "length vs = length (take (hclen + 4) s_clc_order)" using 1(6,7) by (simp add: s_clc_order_def)
  have r0: "rest br = low_bits 5 hlit @ low_bits 5 hdist @ low_bits 4 hclen @ concat (map (low_bits 3) vs) @ bs @ r" using rb 1(1) by simp
  have small: "hlit < 2 ^ 5" "hdist < 2 ^ 5" "hclen < 2 ^ 4" "(5 :: nat) \<le> 16" "(4 :: nat) \<le> 16" using 1(4,5,7) by simp_all
  obtain a br1 where a: "br_bits 5 br = (a, br1)" "unat a = hlit" and r1: "rest br1 = low_bits 5 hdist @ low_bits 4 hclen @ concat (map (low_bits 3) vs) @ bs @ r"
    and ok1: "br_ok br1" and d1: "br_data br1 = br_data br"
    using br_bits_value [OF ok small(4) r0 small(1)] by blast
  obtain b br2 where b: "br_bits 5 br1 = (b, br2)" "unat b = hdist" and r2: "rest br2 = low_bits 4 hclen @ concat (map (low_bits 3) vs) @ bs @ r"
    and ok2: "br_ok br2" and d2: "br_data br2 = br_data br1"
    using br_bits_value [OF ok1 small(4) r1 small(2)] by blast
  obtain c br3 where c: "br_bits 4 br2 = (c, br3)" "unat c = hclen" and r3: "rest br3 = concat (map (low_bits 3) vs) @ bs @ r"
    and ok3: "br_ok br3" and d3: "br_data br3 = br_data br2"
    using br_bits_value [OF ok2 small(5) r2 small(3)] by blast
  obtain ls br4 where d: "clc_lengths (take (hclen + 4) s_clc_order) (replicate 19 0) br3 = (ls, br4)" and r4: "rest br4 = bs @ r"
    and ok4: "br_ok br4" and d4: "br_data br4 = br_data br3"
    and lsv: "map unat ls = fold (\<lambda>(k, v) ls. ls[k := v]) (zip (take (hclen + 4) s_clc_order) vs) (map unat (replicate 19 (0 :: u8)))"
    using clc_complete [OF ok3 r3 lv 1(8), of "replicate 19 0"] by blast
  have tbl: "map unat ls = clc_table vs"
    using lsv zip_take_short [of vs "hclen + 4" s_clc_order] 1(6) by (simp add: clc_table_def)
  have ls: "length ls \<le> 288" "\<forall>l \<in> set ls. l \<le> 15" using clc_small [OF d] by (auto simp: word_le_nat_alt)
  define k3 where "k3 = (\<lambda>lengths (br5 :: bitreader) lit. andthen (huff_build (drop ?lit lengths))
     (\<lambda>(r, dist). if r < 0 then Fail AF_ERR_FS_CORRUPT else Ok (lit :: huff, dist, br5)))"
  define k2 where "k2 = (\<lambda>(lengths, br5). if br_overrun br5 then Fail AF_ERR_FS_CORRUPT
     else andthen (huff_build (take ?lit lengths)) (\<lambda>(r, lit). if r < 0 then Fail AF_ERR_FS_CORRUPT else k3 lengths br5 lit))"
  have no: "\<not> (br_overrun br3 \<or> 286 < ?lit \<or> 30 < hdist + 1)" using ok3 1(4,5) by (simp add: br_ok_def)
  have eq: "read_dynamic_tables br = andthen (huff_build ls)
     (\<lambda>(r, clc). if r < 0 then Fail AF_ERR_FS_CORRUPT else andthen (code_lengths clc ?n [] br4) k2)"
    unfolding read_dynamic_tables_def a b c d Let_def case_prod_conv k2_def k3_def by (rule if_not_P [OF no])
  obtain clc where clc: "read_dynamic_tables br = andthen (code_lengths clc ?n [] br4) k2" and t: "table_ok clc (clc_table vs)" "lens_ok (clc_table vs)"
    using build_then [OF ls, of AF_ERR_FS_CORRUPT "\<lambda>clc. andthen (code_lengths clc ?n [] br4) k2"] 1(9) unfolding eq tbl by auto
  obtain ys br5 where y: "code_lengths clc ?n [] br4 = Ok (ys, br5)" "map unat ys = ns" "length ys = ?n" "\<forall>y \<in> set ys. y \<le> 15"
    and r5: "rest br5 = r" and ok5: "br_ok br5" and d5: "br_data br5 = br_data br4"
    using lengths_complete [OF t, of ?n bs "[]" ns br4 r] 1(10) ok4 r4 by auto
  have h: "?lit \<le> 286" "hdist + 1 \<le> 30" using 1(4,5) by simp_all
  note P = parts_ok [OF y(3) h y(4)]
  have parts: "map unat (take ?lit ys) = ll" "map unat (drop ?lit ys) = dl" using 1(2,3) y(2) by (simp_all flip: take_map drop_map)
  obtain lit where lit: "andthen (huff_build (take ?lit ys)) (\<lambda>(r, lit). if r < 0 then Fail AF_ERR_FS_CORRUPT else k3 ys br5 lit) = k3 ys br5 lit"
      "table_ok lit ll" "lens_ok ll"
    using build_then [OF P(1,2), of AF_ERR_FS_CORRUPT "k3 ys br5"] 1(2,11) unfolding parts by auto
  obtain dist where dist: "k3 ys br5 lit = Ok (lit, dist, br5)" "table_ok dist dl" "lens_ok dl"
    using build_then [OF P(3,4), of AF_ERR_FS_CORRUPT "\<lambda>dist. Ok (lit, dist, br5)"] 1(3,12) unfolding parts k3_def by auto
  have "\<not> br_overrun br5" using ok5 by (simp add: br_ok_def)
  then have "read_dynamic_tables br = Ok (lit, dist, br5)" using clc y(1) lit(1) dist(1) by (simp add: k2_def)
  moreover have "tables_ok (lit, dist) ll dl" using lit dist by (simp add: tables_ok_def)
  ultimately show ?thesis using r5 ok5 d1 d2 d3 d4 d5 by auto
qed

section \<open>Streams\<close>

text \<open>RFC 1951, section 3.2.6: the code lengths of the fixed codes.\<close>

definition fixed_ll :: "nat list" where
  "fixed_ll = replicate 144 8 @ replicate 112 9 @ replicate 24 7 @ replicate 8 8"

definition fixed_dl :: "nat list" where
  "fixed_dl = replicate 30 5"

lemma fixed_lens: "map unat fixed_literal_lengths = fixed_ll" "map unat fixed_distance_lengths = fixed_dl"
  by (simp_all add: fixed_ll_def fixed_dl_def fixed_literal_lengths_def fixed_distance_lengths_def)

lemma fixed_kraft: "kraft fixed_ll" "kraft fixed_dl"
  by (simp_all add: kraft_def cnt_filter fixed_ll_def fixed_dl_def upt_rec)

lemma fixed_tables: "\<exists>lit dist. build_fixed_literal = Ok lit \<and> build_fixed_distance = Ok dist \<and> tables_ok (lit, dist) fixed_ll fixed_dl"
proof -
  have n: "length fixed_literal_lengths \<le> 288" "\<forall>l \<in> set fixed_literal_lengths. l \<le> 15"
    "length fixed_distance_lengths \<le> 288" "\<forall>l \<in> set fixed_distance_lengths. l \<le> 15"
    by (auto simp: fixed_literal_lengths_def fixed_distance_lengths_def)
  obtain r h where "huff_build fixed_literal_lengths = Ok (r, h)" "table_ok h fixed_ll"
    using huff_build_ok [OF n(1,2)] fixed_lens fixed_kraft by metis
  moreover obtain r2 h2 where "huff_build fixed_distance_lengths = Ok (r2, h2)" "table_ok h2 fixed_dl"
    using huff_build_ok [OF n(3,4)] fixed_lens fixed_kraft by metis
  moreover have "lens_ok fixed_ll" "lens_ok fixed_dl" using fixed_kraft by (auto simp: lens_ok_def fixed_ll_def fixed_dl_def)
  ultimately show ?thesis by (simp add: build_fixed_literal_def build_fixed_distance_def tables_ok_def)
qed

text \<open>
  RFC 1951, section 3.2.3. A block, from its two type bits on: what it makes of the output, and the bits
  behind it. A stream is a sequence of blocks, the last one marked; \<open>n\<close> counts them.
\<close>

inductive deflate_block :: "bool list \<Rightarrow> u8 list \<Rightarrow> u8 list \<Rightarrow> bool list \<Rightarrow> bool" where
  stored_block: "stored_bits bs d r \<Longrightarrow> deflate_block (low_bits 2 (0 :: nat) @ bs) out (out @ d) r"
| fixed_block: "block_bits fixed_ll fixed_dl bs out w \<Longrightarrow> deflate_block (low_bits 2 (1 :: nat) @ bs @ r) out w r"
| dynamic_block: "dynamic_bits hs ll dl \<Longrightarrow> block_bits ll dl bs out w \<Longrightarrow> deflate_block (low_bits 2 (2 :: nat) @ hs @ bs @ r) out w r"

inductive deflate :: "nat \<Rightarrow> bool list \<Rightarrow> u8 list \<Rightarrow> u8 list \<Rightarrow> bool list \<Rightarrow> bool" where
  last_block: "deflate_block bs out w r \<Longrightarrow> deflate 1 (True # bs) out w r"
| more_blocks: "deflate_block bs out v s \<Longrightarrow> deflate n s v w r \<Longrightarrow> deflate (Suc n) (False # bs) out w r"

lemma deflate_block_grows: "deflate_block bs out w r \<Longrightarrow> length out \<le> length w"
  by (induction rule: deflate_block.induct) (auto dest: block_grows)

lemma deflate_grows: "deflate n bs out w r \<Longrightarrow> length out \<le> length w"
  by (induction rule: deflate.induct) (auto dest: deflate_block_grows)

lemma deflate_nonempty: "deflate n bs out w r \<Longrightarrow> bs \<noteq> [] \<and> 0 < n"
  by (induction rule: deflate.induct) simp_all

text \<open>The outcome of a decoder that started in \<open>br\<close> and \<open>out\<close>: an error, or what \<open>P\<close> says of bits and bytes.\<close>

definition decodes :: "(bool list \<Rightarrow> u8 list \<Rightarrow> u8 list \<Rightarrow> bool list \<Rightarrow> bool) \<Rightarrow> bitreader \<Rightarrow> sink \<Rightarrow> (bitreader \<times> sink) outcome \<Rightarrow> bool" where
  "decodes P br out r \<longleftrightarrow> r = Fail AF_ERR_FS_CORRUPT \<or> r = Fail AF_ERR_TOOMANY \<or>
     (\<exists>br1 w. r = Ok (br1, out\<lparr>sk_bytes := w\<rparr>) \<and> P (rest br) (sk_bytes out) w (rest br1) \<and> length w \<le> sk_size out \<and>
        br_ok br1 \<and> br_data br1 = br_data br)"

definition accepted :: "bitreader \<Rightarrow> sink \<Rightarrow> u8 list \<Rightarrow> bool list \<Rightarrow> (bitreader \<times> sink) outcome \<Rightarrow> bool" where
  "accepted br out w r x \<longleftrightarrow> (\<exists>br1. x = Ok (br1, out\<lparr>sk_bytes := w\<rparr>) \<and> rest br1 = r \<and> br_ok br1 \<and> br_data br1 = br_data br)"

lemma decodes_fail: "decodes P br out (Fail AF_ERR_FS_CORRUPT)" "decodes P br out (Fail AF_ERR_TOOMANY)"
  by (simp_all add: decodes_def)

lemma bits_val_2: "bits_val bs = v \<Longrightarrow> length bs = 2 \<Longrightarrow> bs = low_bits 2 v"
  using low_bits_val by metis

lemma fixed_type:
  assumes "build_fixed_literal = Ok lit" "build_fixed_distance = Ok dist"
  shows "inflate_type 1 br out = inflate_block lit dist br out"
  unfolding inflate_type_def assms by simp

lemma type_sound:
  assumes ok: "br_ok br" and ty: "br_bits 2 br = (ty, br1)" "\<not> br_overrun br1"
    and room: "\<not> sk_full out" "length (sk_bytes out) \<le> sk_size out"
  shows "decodes deflate_block br out (inflate_type ty br1 out)"
proof -
  have rd: "2 \<le> length (rest br)" using br_bits_read [OF ok _ ty] by simp
  note B = br_bits_ok [OF ok _ rd ty(1), simplified]
  have t: "rest br = low_bits 2 (unat ty) @ rest br1" using B(1,2) low_bits_take [OF rd] append_take_drop_id [of 2 "rest br"] by simp
  consider (stored) "ty = 0" | (fixed) "ty = 1" | (dynamic) "ty = 2" | (reserved) "ty \<notin> {0, 1, 2}" by blast
  then show ?thesis
  proof cases
    case stored
    have "decodes (\<lambda>bs o1 w r. \<exists>d. w = o1 @ d \<and> stored_bits bs d r) br1 out (inflate_stored br1 out)"
      using stored_sound [OF B(3), of out] by (fastforce simp: decodes_def)
    then show ?thesis
      using t B(4) deflate_block.stored_block stored by (fastforce simp: decodes_def inflate_type_def)
  next
    case fixed
    obtain lit dist where f: "build_fixed_literal = Ok lit" "build_fixed_distance = Ok dist" "tables_ok (lit, dist) fixed_ll fixed_dl"
      using fixed_tables by blast
    have "block_result fixed_ll fixed_dl br1 out (inflate_block lit dist br1 out)"
      using f(3) by (intro block_sound B(3) room) (simp_all add: tables_ok_def)
    moreover have "inflate_type ty br1 out = inflate_block lit dist br1 out" using fixed_type [OF f(1,2)] fixed by simp
    ultimately show ?thesis
      using t B(4) deflate_block.fixed_block fixed unfolding block_result_def decodes_def by fastforce
  next
    case dynamic
    show ?thesis
    proof (cases "read_dynamic_tables br1 = Fail AF_ERR_FS_CORRUPT")
      case True
      then show ?thesis using dynamic by (simp add: inflate_type_def decodes_fail)
    next
      case False
      then obtain lit dist br2 hs ll dl where D: "read_dynamic_tables br1 = Ok (lit, dist, br2)" "dynamic_bits hs ll dl"
          "rest br1 = hs @ rest br2" "br_ok br2" "br_data br2 = br_data br1" "tables_ok (lit, dist) ll dl"
        using dynamic_sound [OF B(3)] by blast
      have "block_result ll dl br2 out (inflate_block lit dist br2 out)"
        using D(6) by (intro block_sound D(4) room) (simp_all add: tables_ok_def)
      moreover have "inflate_type ty br1 out = inflate_block lit dist br2 out" using D(1) dynamic by (simp add: inflate_type_def)
      moreover have "rest br = low_bits 2 (2 :: nat) @ hs @ rest br2" using t D(3) dynamic by simp
      ultimately show ?thesis
        using B(4) D(2,5) deflate_block.dynamic_block [OF D(2)] unfolding block_result_def decodes_def by fastforce
    qed
  next
    case reserved
    then show ?thesis by (simp add: inflate_type_def decodes_fail)
  qed
qed

lemma type_complete:
  assumes "deflate_block bs (sk_bytes out) w r" and ok: "br_ok br" and rb: "rest br = bs" and room: "\<not> sk_full out" "length w \<le> sk_size out"
  shows "\<exists>ty br1. br_bits 2 br = (ty, br1) \<and> br_ok br1 \<and> accepted br out w r (inflate_type ty br1 out)"
  using assms(1)
proof cases
  case (stored_block bs' d)
  have r0: "rest br = low_bits 2 (0 :: nat) @ bs'" using rb stored_block(1) by simp
  obtain ty br1 where b: "br_bits 2 br = (ty, br1)" "unat ty = 0" "rest br1 = bs'" "br_ok br1" "br_data br1 = br_data br"
    using br_bits_value [OF ok _ r0] by auto
  have "length (sk_bytes out) + length d \<le> sk_size out" using room(2) stored_block(2) by simp
  then show ?thesis
    using stored_complete [OF b(4), of d r out] stored_block(2,3) b by (auto simp: accepted_def inflate_type_def unat_eq_0)
next
  case (fixed_block bs')
  have r0: "rest br = low_bits 2 (1 :: nat) @ (bs' @ r)" using rb fixed_block(1) by simp
  obtain ty br1 where b: "br_bits 2 br = (ty, br1)" "unat ty = 1" "rest br1 = bs' @ r" "br_ok br1" "br_data br1 = br_data br"
    using br_bits_value [OF ok _ r0] by auto
  have ty: "ty = 1" using b(2) by (metis unat_1 word_unat_eq_iff)
  obtain lit dist where f: "build_fixed_literal = Ok lit" "build_fixed_distance = Ok dist" "tables_ok (lit, dist) fixed_ll fixed_dl"
    using fixed_tables by blast
  have "\<exists>br2. inflate_block lit dist br1 out = Ok (br2, out\<lparr>sk_bytes := w\<rparr>) \<and> rest br2 = r \<and> br_ok br2 \<and> br_data br2 = br_data br1"
    using f(3) by (intro block_complete [OF _ _ _ _ fixed_block(2) b(4,3) room]) (simp_all add: tables_ok_def)
  then show ?thesis using b ty by (auto simp: accepted_def fixed_type [OF f(1,2)])
next
  case (dynamic_block hs ll dl bs')
  have r0: "rest br = low_bits 2 (2 :: nat) @ (hs @ bs' @ r)" using rb dynamic_block(1) by simp
  obtain ty br1 where b: "br_bits 2 br = (ty, br1)" "unat ty = 2" "rest br1 = hs @ bs' @ r" "br_ok br1" "br_data br1 = br_data br"
    using br_bits_value [OF ok _ r0] by auto
  have "unat ty = unat (2 :: u32)" using b(2) by simp
  then have ty: "ty = 2" by (rule word_unat_eq_iff [THEN iffD2])
  obtain lit dist br2 where D: "read_dynamic_tables br1 = Ok (lit, dist, br2)" "rest br2 = bs' @ r" "br_ok br2" "br_data br2 = br_data br1" "tables_ok (lit, dist) ll dl"
    using dynamic_complete [OF b(4) dynamic_block(2) b(3)] by blast
  have "\<exists>br3. inflate_block lit dist br2 out = Ok (br3, out\<lparr>sk_bytes := w\<rparr>) \<and> rest br3 = r \<and> br_ok br3 \<and> br_data br3 = br_data br2"
    using D(5) by (intro block_complete [OF _ _ _ _ dynamic_block(3) D(3,2) room]) (simp_all add: tables_ok_def)
  then show ?thesis using b D ty by (auto simp: accepted_def inflate_type_def)
qed

lemma final_bit: "int (unat (b :: u32)) = of_bool x \<Longrightarrow> b \<noteq> 0 \<longleftrightarrow> x"
proof -
  assume "int (unat b) = of_bool x"
  then have "nat (int (unat b)) = nat (of_bool x)" by (rule arg_cong)
  then have "unat b = of_bool x" unfolding nat_int by (cases x) simp_all
  then show ?thesis using unat_eq_0 [of b] by (cases x) auto
qed

lemma loop_sound:
  assumes "br_ok br" "\<not> sk_full out" "length (sk_bytes out) \<le> sk_size out" "blocks \<le> 0x100000"
  shows "decodes (\<lambda>bs o1 w r. \<exists>n. deflate n bs o1 w r \<and> blocks + n \<le> 0x100001) br out (inflate_loop blocks br out)"
  using assms
proof (induction "0x100001 - blocks" arbitrary: blocks br out rule: less_induct)
  case less
  obtain b br1 where b: "br_bit br = (b, br1)" by fastforce
  obtain ty br2 where ty: "br_bits 2 br1 = (ty, br2)" by fastforce
  note eq = inflate_loop.simps [of blocks br out]
  show ?case
  proof (cases "br_overrun br2")
    case True
    then show ?thesis unfolding eq by (simp add: b ty decodes_fail)
  next
    case no: False
    from less.prems(1) b show ?thesis
    proof (cases rule: br_bit_cases)
      case none
      then show ?thesis using br_bits_sticky [OF ty] no by simp
    next
      case (bit x)
      have dec: "decodes deflate_block br1 out (inflate_type ty br2 out)" by (rule type_sound [OF bit(4) ty no less.prems(2,3)])
      show ?thesis
      proof (cases "inflate_type ty br2 out")
        case (Fail e)
        then show ?thesis using dec unfolding eq by (auto simp: b ty no decodes_def)
      next
        case Fault
        then show ?thesis using dec by (simp add: decodes_def)
      next
        case (Ok p)
        obtain br3 w where p: "inflate_type ty br2 out = Ok (br3, out\<lparr>sk_bytes := w\<rparr>)" and blk: "deflate_block (rest br1) (sk_bytes out) w (rest br3)"
          and w: "length w \<le> sk_size out" and ok3: "br_ok br3" and d3: "br_data br3 = br_data br1"
          using dec Ok unfolding decodes_def by auto
        let ?out1 = "out\<lparr>sk_bytes := w\<rparr>"
        have eq1: "inflate_loop blocks br out =
           (if x then Ok (br3, ?out1) else if 0x100000 < blocks + 1 then Fail AF_ERR_FS_CORRUPT
            else if length (br_data br3) \<le> br_byte br3 \<and> br_count br3 = 0 then Fail AF_ERR_FS_CORRUPT
            else inflate_loop (blocks + 1) br3 ?out1)"
          unfolding eq using final_bit [OF bit(3)] by (simp add: b ty no p)
        show ?thesis
        proof (cases x)
          case True
          have "deflate 1 (rest br) (sk_bytes out) w (rest br3)" using deflate.last_block [OF blk] bit(2) True by simp
          moreover have "blocks + 1 \<le> 0x100001" using less.prems(4) by simp
          moreover have "inflate_loop blocks br out = Ok (br3, ?out1)" using eq1 True by simp
          moreover have "br_data br3 = br_data br" using d3 bit(5) by simp
          ultimately show ?thesis unfolding decodes_def using w ok3 by blast
        next
          case notlast: False
          show ?thesis
          proof (cases "0x100000 < blocks + 1 \<or> length (br_data br3) \<le> br_byte br3 \<and> br_count br3 = 0")
            case True
            then show ?thesis unfolding eq1 using notlast by (auto simp: decodes_fail)
          next
            case False
            then have step: "inflate_loop blocks br out = inflate_loop (blocks + 1) br3 ?out1" unfolding eq1 using False notlast by auto
            have "decodes (\<lambda>bs o1 w r. \<exists>n. deflate n bs o1 w r \<and> blocks + 1 + n \<le> 0x100001) br3 ?out1 (inflate_loop (blocks + 1) br3 ?out1)"
              using False less.prems(2) w by (intro less.hyps ok3) auto
            then consider "inflate_loop blocks br out = Fail AF_ERR_FS_CORRUPT" | "inflate_loop blocks br out = Fail AF_ERR_TOOMANY"
              | br4 v n where "inflate_loop blocks br out = Ok (br4, out\<lparr>sk_bytes := v\<rparr>)" "deflate n (rest br3) w v (rest br4)"
                  "blocks + 1 + n \<le> 0x100001" "length v \<le> sk_size out" "br_ok br4" "br_data br4 = br_data br3"
              unfolding step decodes_def by auto
            then show ?thesis
            proof cases
              case (3 br4 v n)
              have "deflate (Suc n) (rest br) (sk_bytes out) v (rest br4)"
                using deflate.more_blocks [OF blk 3(2)] bit(2) notlast by simp
              moreover have "blocks + Suc n \<le> 0x100001" using 3(3) by simp
              moreover have "br_data br4 = br_data br" using 3(6) d3 bit(5) by simp
              ultimately show ?thesis unfolding decodes_def using 3(1,4,5) by blast
            qed (simp_all add: decodes_fail)
          qed
        qed
      qed
    qed
  qed
qed

lemma loop_complete:
  assumes "deflate n bs (sk_bytes out) w r" "br_ok br" "rest br = bs" "\<not> sk_full out" "length w \<le> sk_size out" "blocks + n \<le> 0x100001"
  shows "accepted br out w r (inflate_loop blocks br out)"
  using assms
proof (induction n bs "sk_bytes out" w r arbitrary: out br blocks rule: deflate.induct)
  case (last_block bs w r)
  obtain b br1 where b: "br_bit br = (b, br1)" by fastforce
  from last_block.prems(1) b show ?case
  proof (cases rule: br_bit_cases)
    case none
    then show ?thesis using last_block.prems(2) by simp
  next
    case (bit x)
    then have x: "x" "rest br1 = bs" using last_block.prems(2) by simp_all
    obtain ty br2 where ty: "br_bits 2 br1 = (ty, br2)" "br_ok br2" and acc: "accepted br1 out w r (inflate_type ty br2 out)"
      using type_complete [OF last_block.hyps(1) bit(4) x(2) last_block.prems(3,4)] by blast
    obtain br3 where "inflate_type ty br2 out = Ok (br3, out\<lparr>sk_bytes := w\<rparr>)" "rest br3 = r" "br_ok br3" "br_data br3 = br_data br1"
      using acc by (auto simp: accepted_def)
    moreover have "b \<noteq> 0" using final_bit [OF bit(3)] x(1) by simp
    ultimately show ?thesis using ty bit(5) by (simp add: inflate_loop.simps [of blocks br out] b accepted_def br_ok_def)
  qed
next
  case (more_blocks bs v s n w r)
  obtain b br1 where b: "br_bit br = (b, br1)" by fastforce
  from more_blocks.prems(1) b show ?case
  proof (cases rule: br_bit_cases)
    case none
    then show ?thesis using more_blocks.prems(2) by simp
  next
    case (bit x)
    then have x: "\<not> x" "rest br1 = bs" using more_blocks.prems(2) by simp_all
    have v: "length v \<le> sk_size out" using deflate_grows [OF more_blocks.hyps(2)] more_blocks.prems(4) by simp
    obtain ty br2 where ty: "br_bits 2 br1 = (ty, br2)" "br_ok br2" and acc: "accepted br1 out v s (inflate_type ty br2 out)"
      using type_complete [OF more_blocks.hyps(1) bit(4) x(2) more_blocks.prems(3) v] by blast
    let ?out1 = "out\<lparr>sk_bytes := v\<rparr>"
    obtain br3 where t: "inflate_type ty br2 out = Ok (br3, ?out1)" "rest br3 = s" "br_ok br3" "br_data br3 = br_data br1"
      using acc by (auto simp: accepted_def)
    have "b = 0" using final_bit [OF bit(3)] x(1) by simp
    moreover have "\<not> (length (br_data br3) \<le> br_byte br3 \<and> br_count br3 = 0)"
      using deflate_nonempty [OF more_blocks.hyps(2)] t(2) by (auto simp: rest_def)
    moreover have "\<not> 0x100000 < blocks + 1" using more_blocks.prems(5) deflate_nonempty [OF more_blocks.hyps(2)] by simp
    ultimately have step: "inflate_loop blocks br out = inflate_loop (blocks + 1) br3 ?out1"
      using ty t(1) by (auto simp: inflate_loop.simps [of blocks br out] b br_ok_def)
    have "accepted br3 ?out1 w r (inflate_loop (blocks + 1) br3 ?out1)"
      using more_blocks.prems(3-5) by (intro more_blocks.hyps(3) t(3,2)) simp_all
    then show ?thesis unfolding step using t(4) bit(5) by (auto simp: accepted_def)
  qed
qed

lemma block_suffix: "deflate_block bs out w r \<Longrightarrow> length r \<le> length bs"
  by (induction rule: deflate_block.induct) (auto simp: stored_bits_def)

lemma deflate_suffix: "deflate n bs out w r \<Longrightarrow> length r \<le> length bs"
  by (induction rule: deflate.induct) (auto dest: block_suffix)

text \<open>The number of bytes reported as used is that of the bytes the stream touches.\<close>

lemma bytes_used:
  assumes "br_ok br" "br_data br = d" "length (rest br) \<le> 8 * length d"
  shows "(let bytes_used = (br_byte br * 8 - br_count br + 7) div 8 in if bytes_used \<le> length d then bytes_used else length d) =
     length d - length (rest br) div 8"
proof -
  have c: "br_count br < 8" "br_byte br \<le> length d" using assms by (auto simp: br_ok_def br_wf_def)
  have "length (rest br) = 8 * (length d - br_byte br) + br_count br"
    using length_rest [of br] assms(1,2) by (simp add: br_ok_def bits_left_def)
  then have "length (rest br) div 8 = length d - br_byte br" "br_count br \<le> 8 * br_byte br" using c assms(3) by simp_all
  moreover have "(br_byte br * 8 - br_count br + 7) div 8 = br_byte br"
  proof -
    have "br_byte br * 8 - br_count br + 7 = (7 - br_count br) + br_byte br * 8"
      using c(1) \<open>br_count br \<le> 8 * br_byte br\<close> by linarith
    then show ?thesis by simp
  qed
  ultimately show ?thesis using c by (simp add: Let_def)
qed

definition empty_sink :: "nat \<Rightarrow> sink" where
  "empty_sink sz = \<lparr>sk_bytes = [], sk_size = sz, sk_full = False\<rparr>"

lemma sink_written: "sk_bytes (empty_sink sz) = []" "sk_size (empty_sink sz) = sz" "\<not> sk_full (empty_sink sz)"
  by (simp_all add: empty_sink_def)

lemma inflate_eq:
  "afpkg_inflate (Some data) (Some sz) True =
     (case inflate_loop 0 (br_init data) (empty_sink sz) of Ok (br, out) \<Rightarrow>
        Ok (sk_bytes out, let bytes_used = (br_byte br * 8 - br_count br + 7) div 8 in if bytes_used \<le> length data then bytes_used else length data)
      | Fail e \<Rightarrow> Fail e | Fault \<Rightarrow> Fault)"
  by (cases "inflate_loop 0 (br_init data) (empty_sink sz)") (auto simp: afpkg_inflate_def empty_sink_def Let_def)

lemma inflate_decodes:
  "decodes (\<lambda>bs o1 w r. \<exists>n. deflate n bs o1 w r \<and> 0 + n \<le> 0x100001) (br_init data) (empty_sink sz) (inflate_loop 0 (br_init data) (empty_sink sz))"
  by (rule loop_sound) (simp_all add: br_init_ok sink_written)

lemma inflate_accepts:
  assumes d: "deflate n (bits_of data) [] w r" "n \<le> 0x100001" "length w \<le> sz" and u: "used = length data - length r div 8"
  shows "afpkg_inflate (Some data) (Some sz) True = Ok (w, used)"
proof -
  have "accepted (br_init data) (empty_sink sz) w r (inflate_loop 0 (br_init data) (empty_sink sz))"
    using d by (intro loop_complete [of n "bits_of data"]) (simp_all add: br_init_ok sink_written)
  then obtain br where br: "inflate_loop 0 (br_init data) (empty_sink sz) = Ok (br, (empty_sink sz)\<lparr>sk_bytes := w\<rparr>)" "rest br = r" "br_ok br" "br_data br = data"
    by (auto simp: accepted_def br_init_def)
  have "length (rest br) \<le> 8 * length data" using deflate_suffix [OF d(1)] br(2) by simp
  note bytes_used [OF br(3,4) this]
  then show ?thesis unfolding inflate_eq br(1) using br(2) u by simp
qed

lemma inflate_accepted:
  assumes ok: "afpkg_inflate (Some data) (Some sz) True = Ok (w, used)"
  shows "\<exists>n r. deflate n (bits_of data) [] w r \<and> n \<le> 0x100001 \<and> length w \<le> sz \<and> used = length data - length r div 8"
proof -
  obtain br out where lp: "inflate_loop 0 (br_init data) (empty_sink sz) = Ok (br, out)"
    and res: "w = sk_bytes out" "used = (let bytes_used = (br_byte br * 8 - br_count br + 7) div 8 in if bytes_used \<le> length data then bytes_used else length data)"
    using ok unfolding inflate_eq by (auto split: outcome.splits)
  obtain n where n: "deflate n (bits_of data) [] w (rest br)" "n \<le> 0x100001" "length w \<le> sz" "br_ok br" "br_data br = data"
    using inflate_decodes [of data sz] res(1) unfolding lp decodes_def by (auto simp: br_init_ok sink_written) (simp add: br_init_def)
  have "length (rest br) \<le> 8 * length data" using deflate_suffix [OF n(1)] by simp
  note bytes_used [OF n(4,5) this]
  then have "used = length data - length (rest br) div 8" using res(2) by simp
  then show ?thesis using n by blast
qed

lemma inflate_never_faults: "afpkg_inflate (Some data) (Some sz) True \<noteq> Fault"
  using inflate_decodes [of data sz] unfolding inflate_eq decodes_def by auto




text \<open>
  (C38) A table built from code lengths within Kraft's inequality decodes exactly the canonical code of those
  lengths: a symbol comes out just when the stream starts with its code word, which is consumed.
\<close>

theorem canonical_decode:
  assumes "length lengths \<le> 288" "\<forall>l \<in> set lengths. l \<le> 15" "kraft (map unat lengths)" "br_ok br"
  shows "\<exists>r h. huff_build lengths = Ok (r, h) \<and> 0 \<le> r \<and>
     (\<forall>s bs. (\<exists>br1. huff_decode br h = Ok (int s, br1) \<and> rest br1 = bs \<and> br_ok br1) \<longleftrightarrow>
        has_code (map unat lengths) s \<and> rest br = code_bits (map unat lengths) s @ bs)"
proof -
  obtain r h where h: "huff_build lengths = Ok (r, h)" "r < 0 \<longleftrightarrow> \<not> kraft (map unat lengths)"
    "kraft (map unat lengths) \<longrightarrow> table_ok h (map unat lengths)"
    using huff_build_ok [OF assms(1,2)] by blast
  let ?ls = "map unat lengths"
  have t: "table_ok h ?ls" using h(3) assms(3) by blast
  have l: "lens_ok ?ls" using assms by (auto simp: lens_ok_def word_le_nat_alt)
  have "(\<exists>br1. huff_decode br h = Ok (int s, br1) \<and> rest br1 = bs \<and> br_ok br1) \<longleftrightarrow> has_code ?ls s \<and> rest br = code_bits ?ls s @ bs" for s bs
  proof
    assume "\<exists>br1. huff_decode br h = Ok (int s, br1) \<and> rest br1 = bs \<and> br_ok br1"
    then show "has_code ?ls s \<and> rest br = code_bits ?ls s @ bs"
      using decode_sound [OF t assms(4)] by force
  next
    assume a: "has_code ?ls s \<and> rest br = code_bits ?ls s @ bs"
    then show "\<exists>br1. huff_decode br h = Ok (int s, br1) \<and> rest br1 = bs \<and> br_ok br1"
      using decode_symbol [OF t l _ assms(4)] by metis
  qed
  then show ?thesis using h(1,2) assms(3) by auto
qed

lemma canonical_decode_witness:
  "\<exists>r h br1. huff_build [2, 1, 2] = Ok (r, h) \<and> huff_decode (br_init [1]) h = Ok (0, br1) \<and> rest br1 = replicate 6 False"
proof -
  have "kraft (map unat [2, 1, 2 :: u8])" by (simp add: kraft_def cnt_filter upt_rec)
  moreover have "rest (br_init [1]) = code_bits (map unat [2, 1, 2 :: u8]) 0 @ replicate 6 False"
    by code_simp
  moreover have "has_code (map unat [2, 1, 2 :: u8]) 0" by (simp add: has_code_def)
  ultimately show ?thesis
    using canonical_decode [of "[2, 1, 2]" "br_init [1]"] br_init_ok(1) [of "[1]"] by fastforce
qed

section \<open>A reference encoder\<close>

text \<open>Stored blocks of at most 65535 bytes.\<close>

function store :: "u8 list \<Rightarrow> u8 list" where
  "store d =
     (if length d \<le> 65535
      then 1 # le16 (of_nat (length d)) @ le16 (of_nat (65535 - length d)) @ d
      else 0 # le16 65535 @ le16 0 @ take 65535 d @ store (drop 65535 d))"
  by auto
termination by (relation "measure length") auto

declare store.simps [simp del]

lemma low_bits_16: "low_bits 8 (ucast x :: u8) @ low_bits 8 (ucast (drop_bit 8 x) :: u8) = low_bits 16 (unat (x :: u16))"
  by (rule nth_equalityI) (auto simp: low_bits_def nth_append bit_simps bit_unsigned_iff)

lemma le16_bits: "n < 2 ^ 16 \<Longrightarrow> bits_of (le16 (of_nat n)) = low_bits 16 n"
  using low_bits_16 [of "of_nat n"] by (simp add: le16_def unat_of_nat take_bit_nat_eq_self del: of_nat_diff)

lemma store_bits:
  assumes n: "length d < 2 ^ 16" and r: "length r mod 8 = 0"
  shows "deflate_block (low_bits 2 (0 :: nat) @ replicate 5 False @ bits_of (le16 (of_nat (length d))) @
     bits_of (le16 (of_nat (65535 - length d))) @ bits_of d @ r) out (out @ d) r"
proof (rule deflate_block.stored_block)
  have m: "65535 - length d < 2 ^ 16" by simp
  have "(37 + (8 * length d + length r)) mod 8 = (37 + length r) mod 8" by presburger
  also have "\<dots> = 5" using r by presburger
  finally show "stored_bits (replicate 5 False @ bits_of (le16 (of_nat (length d))) @ bits_of (le16 (of_nat (65535 - length d))) @ bits_of d @ r) d r"
    unfolding stored_bits_def le16_bits [OF n] le16_bits [OF m] using n by (intro conjI exI [of _ "replicate 5 False"]) simp_all
qed

lemma byte_bits: "bits_of (1 # xs) = True # low_bits 2 (0 :: nat) @ replicate 5 False @ bits_of xs"
    "bits_of (0 # xs) = False # low_bits 2 (0 :: nat) @ replicate 5 False @ bits_of xs"
  by (simp_all add: low_bits_def upt_rec numeral_eq_Suc)

lemma store_deflates: "\<exists>n \<le> length d div 65535 + 1. deflate n (bits_of (store d @ ys)) out (out @ d) (bits_of ys)"
proof (induction d arbitrary: out rule: store.induct)
  case (1 d)
  show ?case
  proof (cases "length d \<le> 65535")
    case True
    then have st: "store d = 1 # le16 (of_nat (length d)) @ le16 (of_nat (65535 - length d)) @ d" by (subst store.simps) (rule if_P)
    have "deflate_block (low_bits 2 (0 :: nat) @ replicate 5 False @ bits_of (le16 (of_nat (length d))) @
       bits_of (le16 (of_nat (65535 - length d))) @ bits_of d @ bits_of ys) out (out @ d) (bits_of ys)"
      using True by (intro store_bits) simp_all
    then have "deflate 1 (bits_of (store d @ ys)) out (out @ d) (bits_of ys)"
      unfolding st append_Cons append.assoc byte_bits bits_of_simps(3) by (rule deflate.last_block)
    then show ?thesis by (intro exI [of _ 1]) simp
  next
    case False
    let ?a = "take 65535 d" and ?b = "drop 65535 d"
    have a: "length ?a = 65535" using False by simp
    have st: "store d = 0 # le16 65535 @ le16 0 @ ?a @ store ?b" using False by (subst store.simps) (rule if_not_P)
    obtain n where n: "n \<le> length ?b div 65535 + 1" "deflate n (bits_of (store ?b @ ys)) (out @ ?a) ((out @ ?a) @ ?b) (bits_of ys)"
      using 1 [OF False] by blast
    have "deflate_block (low_bits 2 (0 :: nat) @ replicate 5 False @ bits_of (le16 (of_nat (length ?a))) @
       bits_of (le16 (of_nat (65535 - length ?a))) @ bits_of ?a @ bits_of (store ?b @ ys)) out (out @ ?a) (bits_of (store ?b @ ys))"
      by (intro store_bits) (simp_all add: a)
    then have "deflate_block (low_bits 2 (0 :: nat) @ replicate 5 False @ bits_of (le16 65535) @ bits_of (le16 0) @ bits_of ?a @ bits_of (store ?b @ ys))
       out (out @ ?a) (bits_of (store ?b @ ys))"
      unfolding a by simp
    then have "deflate (Suc n) (bits_of (store d @ ys)) out ((out @ ?a) @ ?b) (bits_of ys)"
      unfolding st append_Cons append.assoc byte_bits bits_of_simps(3) append_take_drop_id
      by (rule deflate.more_blocks) (use n(2) in \<open>simp only: append.assoc append_take_drop_id bits_of_simps(3)\<close>)
    moreover have "Suc n \<le> length d div 65535 + 1" using n(1) False by (simp add: le_div_geq)
    ultimately show ?thesis by (intro exI [of _ "Suc n"]) simp
  qed
qed

text \<open>
  (C40) What the reference encoder writes for up to 64 GiB of data comes back, and the decompressor stops right
  behind it, whatever follows.
\<close>

theorem store_roundtrip:
  assumes "length d \<le> 65535 * 0x100000" "length d \<le> sz"
  shows "afpkg_inflate (Some (store d @ ys)) (Some sz) True = Ok (d, length (store d))"
proof -
  obtain n where n: "n \<le> length d div 65535 + 1" "deflate n (bits_of (store d @ ys)) [] d (bits_of ys)"
    using store_deflates [of d ys "[]"] by auto
  have "length d div 65535 \<le> 0x100000" using assms(1) div_le_mono [OF assms(1), of 65535] by simp
  then have "n \<le> 0x100001" using n(1) by simp
  moreover have "length (store d) = length (store d @ ys) - length (bits_of ys) div 8" by simp
  ultimately show ?thesis using inflate_accepts n(2) assms(2) by blast
qed

lemma store_roundtrip_witness: "afpkg_inflate (Some (1 # le16 2 @ le16 65533 @ [7, 9] @ [5])) (Some 2) True = Ok ([7, 9], 7)"
proof -
  have "store [7, 9] = 1 # le16 2 @ le16 65533 @ [7, 9]" by (subst store.simps) simp
  then show ?thesis using store_roundtrip [of "[7, 9]" 2 "[5]"] by simp
qed

section \<open>Where the code falls short\<close>

text \<open>
  A distance that reaches in front of the output is a corrupt stream; it is reported as a full output buffer.
\<close>

theorem far_distance_reported_full:
  assumes "length (sk_bytes out) < d" "0 < n"
  shows "sk_full (sink_copy d n out)"
  using assms by (rule copy_too_far)

text \<open>
  Between two reads fewer than eight bits are in the buffer, so that aligning never has a whole byte to push
  back.
\<close>

theorem nothing_to_unread:
  assumes "br_ok br" "n \<le> 16" "br_bits n br = (v, br1)" "\<not> br_overrun br1"
  shows "br_count br1 < 8"
  using br_bits_ok(3) [OF assms(1,2) br_bits_read [OF assms] assms(3)] by (simp add: br_ok_def)

text \<open>An incomplete code is accepted for the literals too: two symbols of length 2 leave half of the code space unused.\<close>

theorem incomplete_code_accepted:
  "used_space [2, 2] 15 < 2 ^ 15 \<and> (\<exists>r h. huff_build [2, 2] = Ok (r, h) \<and> 0 \<le> r)"
proof
  show "used_space [2, 2] 15 < 2 ^ 15" by (simp add: used_space_sum cnt_filter upt_rec)
  have k: "kraft (map unat [2, 2 :: u8])" by (simp add: kraft_def cnt_filter upt_rec)
  obtain r h where "huff_build [2, 2] = Ok (r, h)" "r < 0 \<longleftrightarrow> \<not> kraft (map unat [2, 2 :: u8])"
    by (rule huff_build_ok [of "[2, 2]"]) simp_all
  then show "\<exists>r h. huff_build [2, 2] = Ok (r, h) \<and> 0 \<le> r" using k by auto
qed

end
