(* ===== verification/Crc.thy ===== *)
theory Crc
  imports Bytes
begin

text \<open>
  The checks of the package library: the CRC32 of gzip (\<open>crc32_bytes\<close> in \<open>libs/libafpkg/afpkg.c\<close>) and the
  CRC32 and CRC64 of xz (\<open>libs/libafpkg/xz_decode.c\<close>), each eight shifts per byte, as the code has them.
\<close>

section \<open>The code\<close>

text \<open>One shift, with the polynomial selected by a mask, and the eight shifts of a byte.\<close>

definition crc32_bit :: "u32 \<Rightarrow> u32" where
  "crc32_bit c = drop_bit 1 c XOR (0xEDB88320 AND (- (c AND 1)))"

definition crc32_byte :: "u8 \<Rightarrow> u32 \<Rightarrow> u32" where
  "crc32_byte b c = (crc32_bit ^^ 8) (c XOR ucast b)"

definition crc32_bytes :: "u8 list \<Rightarrow> u32" where
  "crc32_bytes data = fold crc32_byte data 0xFFFFFFFF XOR 0xFFFFFFFF"

definition xz_crc32 :: "u8 list \<Rightarrow> u32 \<Rightarrow> u32" where
  "xz_crc32 p crc =
     NOT (fold (\<lambda>b c. ((\<lambda>c. if c AND 1 \<noteq> 0 then drop_bit 1 c XOR 0xEDB88320 else drop_bit 1 c) ^^ 8) (c XOR ucast b)) p (NOT crc))"

definition xz_crc64 :: "u8 list \<Rightarrow> u64 \<Rightarrow> u64" where
  "xz_crc64 p crc =
     NOT (fold (\<lambda>b c. ((\<lambda>c. if c AND 1 \<noteq> 0 then drop_bit 1 c XOR 0xC96C5795D7870F42 else drop_bit 1 c) ^^ 8) (c XOR ucast b)) p (NOT crc))"

section \<open>A register of any width\<close>

text \<open>
  The three loops are one: a register shifted right, with a polynomial added when a bit falls out. The
  polynomial has its highest bit set, so no step loses information.
\<close>

definition crc_bit :: "'a::len word \<Rightarrow> 'a word \<Rightarrow> 'a word" where
  "crc_bit p c = (if bit c 0 then drop_bit 1 c XOR p else drop_bit 1 c)"

definition crc_byte :: "'a::len word \<Rightarrow> u8 \<Rightarrow> 'a word \<Rightarrow> 'a word" where
  "crc_byte p b c = (crc_bit p ^^ 8) (c XOR ucast b)"

lemma and_one_bit: "(c :: 'a::len word) AND 1 = of_bool (bit c 0)"
  by (simp add: and_one_eq bit_0 mod_2_eq_odd)

lemma crc32_bit_eq: "crc32_bit = crc_bit 0xEDB88320"
  by (rule ext) (simp add: crc32_bit_def crc_bit_def and_one_bit)

lemma crc32_byte_eq: "crc32_byte = crc_byte 0xEDB88320"
  by (intro ext) (simp add: crc32_byte_def crc_byte_def crc32_bit_eq)

lemma xz_crc32_eq: "xz_crc32 p crc = NOT (fold (crc_byte 0xEDB88320) p (NOT crc))"
  unfolding xz_crc32_def crc_byte_def [abs_def] crc_bit_def [abs_def] and_one_bit by simp

lemma xz_crc64_eq: "xz_crc64 p crc = NOT (fold (crc_byte 0xC96C5795D7870F42) p (NOT crc))"
  unfolding xz_crc64_def crc_byte_def [abs_def] crc_bit_def [abs_def] and_one_bit by simp

lemma xz_crc32_is_gzip: "xz_crc32 p 0 = crc32_bytes p"
proof -
  have m: "(0xFFFFFFFF :: u32) = NOT 0" by simp
  have x: "c XOR NOT 0 = NOT c" for c :: u32 by (rule bit_word_eqI) (simp add: bit_simps)
  show ?thesis unfolding xz_crc32_eq crc32_bytes_def crc32_byte_eq m x ..
qed

section \<open>What a check detects\<close>

locale crc_register =
  fixes p :: "'a::len word"
  assumes top: "bit p (LENGTH('a) - 1)" and wide: "8 \<le> LENGTH('a)"
begin

lemma bit_inj: "crc_bit p c = crc_bit p d \<Longrightarrow> c = d"
proof -
  assume eq: "crc_bit p c = crc_bit p d"
  have t: "\<not> bit (drop_bit 1 x) (LENGTH('a) - 1)" for x :: "'a word"
    by (simp add: bit_drop_bit_eq)
  have b: "bit c 0 = bit d 0"
  proof -
    have "bit (crc_bit p x) (LENGTH('a) - 1) = bit x 0" for x
      using t [of x] top by (auto simp: crc_bit_def bit_xor_iff)
    then show ?thesis using eq by metis
  qed
  then have "drop_bit 1 c = drop_bit 1 d"
    using eq unfolding crc_bit_def by (auto split: if_splits) (metis xor.assoc xor.right_neutral xor_self_eq)
  then have "bit c (Suc n) = bit d (Suc n)" for n
    by (metis bit_drop_bit_eq comp_apply plus_1_eq_Suc)
  then show "c = d" using b by (intro bit_word_eqI) (metis not0_implies_Suc)
qed

lemma bits_inj: "(crc_bit p ^^ n) c = (crc_bit p ^^ n) d \<Longrightarrow> c = d"
  by (induction n) (auto dest: bit_inj)

lemma byte_inj: "crc_byte p b c = crc_byte p b d \<Longrightarrow> c = d"
  unfolding crc_byte_def by (drule bits_inj) (metis xor.assoc xor.right_neutral xor_self_eq)

lemma fold_inj: "fold (crc_byte p) xs c = fold (crc_byte p) xs d \<Longrightarrow> c = d"
  by (induction xs arbitrary: c d) (auto dest: byte_inj)

lemma bit_xor: "crc_bit p (c XOR d) = crc_bit p c XOR crc_bit p d"
  by (rule bit_word_eqI) (auto simp: crc_bit_def bit_simps)

lemma bits_xor: "(crc_bit p ^^ n) (c XOR d) = (crc_bit p ^^ n) c XOR (crc_bit p ^^ n) d"
  by (induction n) (simp_all add: bit_xor)

text \<open>Bits above the next byte are only shifted by it.\<close>

lemma bits_high: "(\<And>i. i < n \<Longrightarrow> \<not> bit c i) \<Longrightarrow> (crc_bit p ^^ n) c = drop_bit n c"
proof (induction n arbitrary: c)
  case (Suc n)
  have "crc_bit p c = drop_bit 1 c" using Suc.prems [of 0] by (simp add: crc_bit_def)
  moreover have "\<And>i. i < n \<Longrightarrow> \<not> bit (drop_bit 1 c) i" using Suc.prems by (simp add: bit_drop_bit_eq)
  ultimately show ?case using Suc.IH [of "drop_bit 1 c"] by (simp add: funpow_swap1 del: funpow.simps add: funpow_Suc_right)
qed simp

lemma byte_high: "crc_byte p b c XOR x = crc_byte p b (c XOR push_bit 8 x)" if "\<And>i. LENGTH('a) - 8 \<le> i \<Longrightarrow> \<not> bit x i"
proof -
  have "(crc_bit p ^^ 8) (push_bit 8 x) = drop_bit 8 (push_bit 8 x)" by (rule bits_high) (simp add: bit_simps)
  also have "\<dots> = x"
  proof (rule bit_word_eqI)
    fix n assume "n < LENGTH('a)"
    have "n < LENGTH('a) - 8" if "bit x n" using that \<open>\<And>i. LENGTH('a) - 8 \<le> i \<Longrightarrow> \<not> bit x i\<close> not_le by blast
    then show "bit (drop_bit 8 (push_bit 8 x)) n = bit x n" by (auto simp: bit_simps)
  qed
  finally have "(crc_bit p ^^ 8) (push_bit 8 x) = x" .
  then have "crc_byte p b (c XOR push_bit 8 x) = (crc_bit p ^^ 8) (c XOR ucast b) XOR x"
    unfolding crc_byte_def using bits_xor [of 8 "c XOR ucast b" "push_bit 8 x"] by (simp add: xor.assoc xor.commute xor.left_commute)
  then show ?thesis by (simp add: crc_byte_def)
qed

text \<open>The effect of a few bytes is that of shifting their word through the register.\<close>

fun word_of :: "u8 list \<Rightarrow> 'a word" where
  "word_of [] = 0"
| "word_of (b # bs) = ucast b XOR push_bit 8 (word_of bs)"

lemma word_of_high: "8 * length bs \<le> i \<Longrightarrow> \<not> bit (word_of bs) i"
  by (induction bs arbitrary: i) (auto simp: bit_simps dest: bit_imp_le_length)

lemma fold_word: "8 * length bs \<le> LENGTH('a) \<Longrightarrow> fold (crc_byte p) bs c = (crc_bit p ^^ (8 * length bs)) (c XOR word_of bs)"
proof (induction bs arbitrary: c)
  case (Cons b bs)
  have h: "LENGTH('a) - 8 \<le> i \<Longrightarrow> \<not> bit (word_of bs) i" for i
    by (rule word_of_high) (use Cons.prems in simp)
  have "fold (crc_byte p) (b # bs) c = (crc_bit p ^^ (8 * length bs)) (crc_byte p b c XOR word_of bs)"
    using Cons by simp
  also have "\<dots> = (crc_bit p ^^ (8 * length bs)) ((crc_bit p ^^ 8) (c XOR word_of (b # bs)))"
    by (simp only: byte_high [OF h]) (simp add: crc_byte_def xor.assoc xor.commute xor.left_commute)
  also have "\<dots> = (crc_bit p ^^ (8 * length (b # bs))) (c XOR word_of (b # bs))"
    by (simp only: funpow_add [THEN fun_cong, unfolded comp_apply, symmetric] list.size(4)) (simp add: add.commute)
  finally show ?case .
qed simp

lemma word_of_inj: "length as = length bs \<Longrightarrow> 8 * length bs \<le> LENGTH('a) \<Longrightarrow> word_of as = word_of bs \<Longrightarrow> as = bs"
proof (induction as bs rule: list_induct2)
  case (Cons a as b bs)
  have "bit a i = bit b i" if "i < 8" for i
    using arg_cong [OF Cons.prems(2), of "\<lambda>w. bit w i"] that Cons.prems(1) by (auto simp: bit_simps)
  then have ab: "a = b" by (intro bit_word_eqI) simp
  have "bit (word_of as) i = bit (word_of bs) i" if i: "i < LENGTH('a)" for i
  proof (cases "i + 8 < LENGTH('a)")
    case True
    have "push_bit 8 (word_of as) = push_bit 8 (word_of bs)"
      using Cons.prems(2) unfolding ab word_of.simps by (metis xor.assoc xor.left_neutral xor_self_eq)
    then have "bit (push_bit 8 (word_of as)) (i + 8) = bit (push_bit 8 (word_of bs)) (i + 8)" by simp
    then show ?thesis using True by (simp add: bit_simps)
  next
    case False
    then show ?thesis using word_of_high [of as i] word_of_high [of bs i] Cons by simp
  qed
  then show ?case using Cons ab by (simp add: bit_word_eqI)
qed simp

text \<open>Two messages that differ only within one stretch as wide as the register have different checks.\<close>

lemma burst:
  assumes eq: "fold (crc_byte p) (xs @ as @ ys) c = fold (crc_byte p) (xs @ bs @ ys) c"
    and n: "length as = length bs" "8 * length bs \<le> LENGTH('a)"
  shows "as = bs"
proof -
  let ?c = "fold (crc_byte p) xs c"
  have "fold (crc_byte p) as ?c = fold (crc_byte p) bs ?c" using eq by (auto dest: fold_inj)
  then have "?c XOR word_of as = ?c XOR word_of bs" using n by (auto simp: fold_word dest: bits_inj)
  then have "word_of as = word_of bs" by (metis xor.assoc xor.left_neutral xor_self_eq)
  then show ?thesis using word_of_inj n by blast
qed

end

interpretation crc32: crc_register "0xEDB88320 :: u32"
  by unfold_locales simp_all

interpretation crc64: crc_register "0xC96C5795D7870F42 :: u64"
  by unfold_locales simp_all

lemma crc32_burst: "length as = length bs \<Longrightarrow> length bs \<le> 4 \<Longrightarrow> crc32_bytes (xs @ as @ ys) = crc32_bytes (xs @ bs @ ys) \<Longrightarrow> as = bs"
proof -
  assume l: "length as = length bs" "length bs \<le> 4" and "crc32_bytes (xs @ as @ ys) = crc32_bytes (xs @ bs @ ys)"
  then have "xz_crc32 (xs @ as @ ys) 0 = xz_crc32 (xs @ bs @ ys) 0" by (simp only: xz_crc32_is_gzip)
  then have "NOT (NOT (fold (crc_byte 0xEDB88320) (xs @ as @ ys) (NOT 0))) = NOT (NOT (fold (crc_byte 0xEDB88320) (xs @ bs @ ys) (NOT 0 :: u32)))"
    unfolding xz_crc32_eq by (rule arg_cong)
  then have "fold (crc_byte 0xEDB88320) (xs @ as @ ys) (NOT 0) = fold (crc_byte 0xEDB88320) (xs @ bs @ ys) (NOT 0 :: u32)"
    by (simp only: bit.double_compl)
  from crc32.burst [OF this l(1)] show "as = bs" using l(2) by simp
qed

lemma crc64_burst: "length as = length bs \<Longrightarrow> length bs \<le> 8 \<Longrightarrow> xz_crc64 (xs @ as @ ys) 0 = xz_crc64 (xs @ bs @ ys) 0 \<Longrightarrow> as = bs"
proof -
  assume l: "length as = length bs" "length bs \<le> 8" and e: "xz_crc64 (xs @ as @ ys) 0 = xz_crc64 (xs @ bs @ ys) 0"
  from e have "NOT (NOT (fold (crc_byte 0xC96C5795D7870F42) (xs @ as @ ys) (NOT 0))) = NOT (NOT (fold (crc_byte 0xC96C5795D7870F42) (xs @ bs @ ys) (NOT 0 :: u64)))"
    unfolding xz_crc64_eq by (rule arg_cong)
  then have "fold (crc_byte 0xC96C5795D7870F42) (xs @ as @ ys) (NOT 0) = fold (crc_byte 0xC96C5795D7870F42) (xs @ bs @ ys) (NOT 0 :: u64)"
    by (simp only: bit.double_compl)
  from crc64.burst [OF this l(1)] show "as = bs" using l(2) by simp
qed

text \<open>
  Damage confined to four consecutive bytes always changes the CRC32 of gzip and xz, damage confined to eight the
  CRC64.
\<close>

theorem crc_detects_burst:
  assumes "length as = length bs" "as \<noteq> bs"
  shows "(length bs \<le> 4 \<longrightarrow> crc32_bytes (xs @ as @ ys) \<noteq> crc32_bytes (xs @ bs @ ys)) \<and>
     (length bs \<le> 8 \<longrightarrow> xz_crc64 (xs @ as @ ys) 0 \<noteq> xz_crc64 (xs @ bs @ ys) 0)"
  using assms crc32_burst crc64_burst by blast

lemma crc_detects_burst_witness: "crc32_bytes ([1] @ [2, 3] @ [4]) \<noteq> crc32_bytes ([1] @ [2, 7] @ [4])"
  using crc_detects_burst [of "[2, 3]" "[2, 7]" "[1]" "[4]"] by simp

end
