(* ===== verification/Xz.thy ===== *)
theory Xz
  imports Crc
begin

text \<open>
  The xz decoder of the package library (\<open>libs/libafpkg/xz_decode.c\<close>): the container with its blocks, index
  and checks, and the uncompressed chunks of LZMA2. The file is a list of bytes and positions in it are
  natural numbers; the output buffer is the list of the bytes written so far. The explanation in prose that
  goes with every result (\<open>why\<close>) is left out.
\<close>

section \<open>Variable-length integers\<close>

function vli_loop :: "u8 list \<Rightarrow> nat \<Rightarrow> nat \<Rightarrow> nat \<Rightarrow> u64 \<Rightarrow> (u64 \<times> nat) outcome" where
  "vli_loop d limit at i v =
     andthen (fetch d (at + i)) (\<lambda>b.
       if b AND 0x80 = 0 then Ok (v, at + i + 1)
       else if limit \<le> at + (i + 1) then Fail AF_ERR_FS_CORRUPT
       else if 9 \<le> i + 1 then Fail AF_ERR_FS_CORRUPT
       else andthen (fetch d (at + (i + 1))) (\<lambda>c.
         if c = 0 then Fail AF_ERR_FS_CORRUPT
         else vli_loop d limit at (i + 1) (v OR push_bit (7 * (i + 1)) (ucast (c AND 0x7F)))))"
  by auto
termination by (relation "measure (\<lambda>(d, limit, at, i, v). 9 - i)") auto

declare vli_loop.simps [simp del]

definition xz_vli :: "u8 list \<Rightarrow> nat \<Rightarrow> nat \<Rightarrow> (u64 \<times> nat) outcome" where
  "xz_vli d limit at =
     (if limit \<le> at then Fail AF_ERR_FS_CORRUPT
      else andthen (fetch d at) (\<lambda>b. vli_loop d limit at 0 (ucast (b AND 0x7F))))"

section \<open>Output\<close>

record xout =
  xo_bytes :: "u8 list"
  xo_size :: nat
  xo_full :: bool

definition xout_byte :: "u8 \<Rightarrow> xout \<Rightarrow> xout" where
  "xout_byte v o1 =
     (if xo_size o1 \<le> length (xo_bytes o1) then o1\<lparr>xo_full := True\<rparr>
      else o1\<lparr>xo_bytes := xo_bytes o1 @ [v]\<rparr>)"

section \<open>The LZMA2 chunk layer\<close>

text \<open>The chunks of one block; \<open>d\<close> is the compressed data. The result is the number of bytes used and the output.\<close>

function lzma2_loop :: "u8 list \<Rightarrow> nat \<Rightarrow> bool \<Rightarrow> xout \<Rightarrow> (nat \<times> xout) outcome" where
  "lzma2_loop d at have_dict out =
     (if length d \<le> at then Fail AF_ERR_FS_CORRUPT
      else andthen (fetch d at) (\<lambda>control.
        let at1 = at + 1 in
        if control = 0 then Ok (at1, out)
        else if \<not> (0xE0 \<le> control \<or> control = 1) \<and> \<not> have_dict then Fail AF_ERR_FS_CORRUPT
        else let dict = have_dict \<or> 0xE0 \<le> control \<or> control = 1 in
        if 0x80 \<le> control then Fail AF_ERR_NOTSUP
        else if 2 < control then Fail AF_ERR_FS_CORRUPT
        else if length d < at1 + 2 then Fail AF_ERR_FS_CORRUPT
        else andthen (fetch d at1) (\<lambda>hi. andthen (fetch d (at1 + 1)) (\<lambda>lo.
          let size = unat ((push_bit 8 (ucast hi) OR ucast lo) + 1 :: u32); at2 = at1 + 2 in
          if length d < at2 + size then Fail AF_ERR_FS_CORRUPT
          else andthen (fetches d at2 size) (\<lambda>bs.
            let out1 = fold xout_byte bs out in
            if xo_full out1 then Fail AF_ERR_TOOMANY
            else lzma2_loop d (at2 + size) dict out1)))))"
  by auto
termination by (relation "measure (\<lambda>(d, at, h, out). length d - at)") auto

declare lzma2_loop.simps [simp del]

definition lzma2_chunks :: "u8 list \<Rightarrow> xout \<Rightarrow> (nat \<times> xout) outcome" where
  "lzma2_chunks d out = lzma2_loop d 0 False out"

section \<open>The stream\<close>

abbreviation (input) "XZ_MAX_TRACKED_BLOCKS \<equiv> (256 :: nat)"

definition xz_check_size :: "u8 \<Rightarrow> int" where
  "xz_check_size i = (if i = 0 then 0 else if i = 1 then 4 else if i = 4 then 8 else -1)"

text \<open>The magic number and the flags: the size of the checks, and the two flag bytes.\<close>

definition xz_stream_header :: "u8 list \<Rightarrow> (int \<times> u8 \<times> u8) outcome" where
  "xz_stream_header data =
     andthen (fetches data 0 6) (\<lambda>m.
       if m \<noteq> [0xFD, 0x37, 0x7A, 0x58, 0x5A, 0] then Fail AF_ERR_INVAL
       else andthen (fetch data 6) (\<lambda>flags0. andthen (fetch data 7) (\<lambda>flags1.
         andthen (fetches data 6 2) (\<lambda>f. andthen (fetches data 8 4) (\<lambda>c.
           if xz_crc32 f 0 \<noteq> rd32 c 0 then Fail AF_ERR_FS_CORRUPT
           else if flags0 \<noteq> 0 \<or> flags1 AND 0xF0 \<noteq> 0 then Fail AF_ERR_NOTSUP
           else if xz_check_size (flags1 AND 0x0F) < 0 then Fail AF_ERR_NOTSUP
           else Ok (xz_check_size (flags1 AND 0x0F), flags0, flags1))))))"

text \<open>
  The filter chain: identifier, size of the properties and position of the properties of the first filter, and
  the position behind the chain.
\<close>

fun xz_filters :: "u8 list \<Rightarrow> nat \<Rightarrow> nat \<Rightarrow> nat \<Rightarrow> (u64 \<times> u64 \<times> nat) option \<Rightarrow> (nat \<times> (u64 \<times> u64 \<times> nat) option) outcome" where
  "xz_filters data header_end 0 p first = Ok (p, first)"
| "xz_filters data header_end (Suc n) p first =
     andthen (xz_vli data header_end p) (\<lambda>(fid, p1).
       andthen (xz_vli data header_end p1) (\<lambda>(psz, p2).
         if header_end - p2 < unat psz then Fail AF_ERR_FS_CORRUPT
         else xz_filters data header_end n (p2 + unat psz) (case first of None \<Rightarrow> Some (fid, psz, p2) | Some x \<Rightarrow> Some x)))"

text \<open>An optional size field: zero when the flag is not set.\<close>

definition xz_opt_vli :: "u8 list \<Rightarrow> nat \<Rightarrow> bool \<Rightarrow> nat \<Rightarrow> (u64 \<times> nat) outcome" where
  "xz_opt_vli data limit present p = (if present then xz_vli data limit p else Ok (0, p))"

text \<open>\<open>for (k = p; k < limit; k++)\<close> that looks for a byte which is not zero.\<close>

definition all_zero :: "u8 list \<Rightarrow> bool" where
  "all_zero bs \<longleftrightarrow> (\<forall>b \<in> set bs. b = 0)"

text \<open>The header of a block: where it ends, and the two declared sizes.\<close>

definition xz_block_header :: "u8 list \<Rightarrow> nat \<Rightarrow> (nat \<times> u64 \<times> u64) outcome" where
  "xz_block_header data block_start =
     andthen (fetch data block_start) (\<lambda>b0.
       let header_size = (unat b0 + 1) * 4 in
       if header_size < 8 \<or> length data - block_start < header_size then Fail AF_ERR_FS_CORRUPT
       else let header_end = block_start + header_size in
       andthen (fetches data block_start (header_size - 4)) (\<lambda>h. andthen (fetches data (header_end - 4) 4) (\<lambda>c.
         if xz_crc32 h 0 \<noteq> rd32 c 0 then Fail AF_ERR_FS_CORRUPT
         else andthen (fetch data (block_start + 1)) (\<lambda>bflags.
           if bflags AND 0x3C \<noteq> 0 then Fail AF_ERR_FS_CORRUPT
           else let n_filters = unat (bflags AND 0x03) + 1 in
           andthen (xz_opt_vli data header_end (bflags AND 0x40 \<noteq> 0) (block_start + 2)) (\<lambda>(compressed_size, p1).
             andthen (xz_opt_vli data header_end (bflags AND 0x80 \<noteq> 0) p1) (\<lambda>(declared_uncompressed, p2).
               andthen (xz_filters data header_end n_filters p2 None) (\<lambda>(p3, first).
                 if n_filters \<noteq> 1 then Fail AF_ERR_NOTSUP
                 else case first of None \<Rightarrow> Fault | Some (filter_id, props_size, props) \<Rightarrow>
                   if filter_id \<noteq> 0x21 then Fail AF_ERR_NOTSUP
                   else if props_size \<noteq> 1 then Fail AF_ERR_FS_CORRUPT
                   else andthen (fetch data props) (\<lambda>pr.
                     if 40 < pr then Fail AF_ERR_FS_CORRUPT
                     else andthen (fetches data p3 (header_end - 4 - p3)) (\<lambda>z.
                       if \<not> all_zero z then Fail AF_ERR_FS_CORRUPT
                       else Ok (header_end, compressed_size, declared_uncompressed))))))))))"

text \<open>Zero bytes up to a multiple of four, counted from \<open>start\<close>.\<close>

function xz_padding :: "u8 list \<Rightarrow> nat \<Rightarrow> nat \<Rightarrow> nat outcome" where
  "xz_padding data start q =
     (if (q - start) mod 4 = 0 then Ok q
      else if length data \<le> q then Fail AF_ERR_FS_CORRUPT
      else andthen (fetch data q) (\<lambda>b. if b \<noteq> 0 then Fail AF_ERR_FS_CORRUPT else xz_padding data start (q + 1)))"
  by auto
termination by (relation "measure (\<lambda>(data, start, q). length data - q)") auto

declare xz_padding.simps [simp del]

definition xz_check_ok :: "u8 list \<Rightarrow> nat \<Rightarrow> int \<Rightarrow> u8 list \<Rightarrow> bool outcome" where
  "xz_check_ok data q check_size made =
     (if check_size = 4 then andthen (fetches data q 4) (\<lambda>c. Ok (xz_crc32 made 0 = rd32 c 0))
      else if check_size = 8 then andthen (fetches data q 8) (\<lambda>c. Ok (xz_crc64 made 0 = rd64 c 0))
      else Ok True)"

text \<open>One block: the position behind it, the output, and its record for the index.\<close>

definition xz_block :: "u8 list \<Rightarrow> int \<Rightarrow> nat \<Rightarrow> xout \<Rightarrow> (nat \<times> xout \<times> u64 \<times> u64) outcome" where
  "xz_block data check_size block_start out =
     andthen (xz_block_header data block_start) (\<lambda>(data_start, compressed_size, declared_uncompressed).
       let avail = length data - data_start;
           limit = (if compressed_size \<noteq> 0 then unat compressed_size else avail) in
       if avail < limit then Fail AF_ERR_FS_CORRUPT
       else andthen (fetches data data_start limit) (\<lambda>d.
         andthen (lzma2_chunks d out) (\<lambda>(chunk_used, out1).
           if compressed_size \<noteq> 0 \<and> chunk_used \<noteq> unat compressed_size then Fail AF_ERR_FS_CORRUPT
           else let produced = length (xo_bytes out1) - length (xo_bytes out) in
           if declared_uncompressed \<noteq> 0 \<and> declared_uncompressed \<noteq> of_nat produced then Fail AF_ERR_FS_CORRUPT
           else andthen (xz_padding data block_start (data_start + chunk_used)) (\<lambda>q.
             if length data < q + nat check_size then Fail AF_ERR_FS_CORRUPT
             else andthen (xz_check_ok data q check_size (drop (length (xo_bytes out)) (xo_bytes out1))) (\<lambda>good.
               if \<not> good then Fail AF_ERR_FS_CORRUPT
               else Ok (q + nat check_size, out1,
                        of_nat (data_start + chunk_used - block_start) + of_int check_size, of_nat produced))))))"

function xz_blocks :: "u8 list \<Rightarrow> int \<Rightarrow> nat \<Rightarrow> xout \<Rightarrow> (u64 \<times> u64) list \<Rightarrow> (nat \<times> xout \<times> (u64 \<times> u64) list) outcome" where
  "xz_blocks data check_size at out recs =
     (if length data \<le> at then Fail AF_ERR_FS_CORRUPT
      else andthen (fetch data at) (\<lambda>b.
        if b = 0 then Ok (at, out, recs)
        else if XZ_MAX_TRACKED_BLOCKS \<le> length recs then Fail AF_ERR_NOTSUP
        else andthen (xz_block data check_size at out) (\<lambda>(at1, out1, rec).
          xz_blocks data check_size at1 out1 (recs @ [rec]))))"
  by auto
termination by (relation "measure (\<lambda>(data, check_size, at, out, recs). 256 - length recs)") auto

declare xz_blocks.simps [simp del]

section \<open>Index and footer\<close>

fun xz_records :: "u8 list \<Rightarrow> nat \<Rightarrow> (u64 \<times> u64) list \<Rightarrow> nat outcome" where
  "xz_records data at [] = Ok at"
| "xz_records data at ((rec_unpadded, rec_uncompressed) # recs) =
     andthen (xz_vli data (length data) at) (\<lambda>(unpadded, at1).
       andthen (xz_vli data (length data) at1) (\<lambda>(uncompressed, at2).
         if unpadded \<noteq> rec_unpadded \<or> uncompressed \<noteq> rec_uncompressed then Fail AF_ERR_FS_CORRUPT
         else xz_records data at2 recs))"

text \<open>The index; the result is the position behind it.\<close>

definition xz_index :: "u8 list \<Rightarrow> nat \<Rightarrow> (u64 \<times> u64) list \<Rightarrow> nat outcome" where
  "xz_index data index_start recs =
     andthen (xz_vli data (length data) (index_start + 1)) (\<lambda>(n_records, at1).
       if n_records \<noteq> of_nat (length recs) then Fail AF_ERR_FS_CORRUPT
       else andthen (xz_records data at1 recs) (\<lambda>at2.
         andthen (xz_padding data index_start at2) (\<lambda>at3.
           if length data < at3 + 4 then Fail AF_ERR_FS_CORRUPT
           else andthen (fetches data index_start (at3 - index_start)) (\<lambda>ix. andthen (fetches data at3 4) (\<lambda>c.
             if xz_crc32 ix 0 \<noteq> rd32 c 0 then Fail AF_ERR_FS_CORRUPT else Ok (at3 + 4))))))"

text \<open>The footer and the padding of the stream, up to the end of the file.\<close>

definition xz_footer :: "u8 list \<Rightarrow> nat \<Rightarrow> nat \<Rightarrow> u8 \<Rightarrow> u8 \<Rightarrow> unit outcome" where
  "xz_footer data at index_size flags0 flags1 =
     (if length data < at + 12 then Fail AF_ERR_FS_CORRUPT
      else andthen (fetches data at 12) (\<lambda>f.
        if xz_crc32 (take 6 (drop 4 f)) 0 \<noteq> rd32 f 0 then Fail AF_ERR_FS_CORRUPT
        else if unat ((rd32 f 4 + 1) * 4) \<noteq> index_size then Fail AF_ERR_FS_CORRUPT
        else if f ! 8 \<noteq> flags0 \<or> f ! 9 \<noteq> flags1 then Fail AF_ERR_FS_CORRUPT
        else if f ! 10 \<noteq> 0x59 \<or> f ! 11 \<noteq> 0x5A then Fail AF_ERR_FS_CORRUPT
        else let at1 = at + 12 in
        if at1 < length data \<and> (length data - at1) mod 4 \<noteq> 0 then Fail AF_ERR_FS_CORRUPT
        else if at1 < length data \<and> \<not> all_zero (drop at1 data) then Fail AF_ERR_FS_CORRUPT
        else Ok ()))"

definition afpkg_xz :: "u8 list option \<Rightarrow> nat option \<Rightarrow> bool \<Rightarrow> u8 list outcome" where
  "afpkg_xz data out_size has_out_len =
     (case (data, out_size) of
        (Some d, Some sz) \<Rightarrow>
          if \<not> has_out_len \<or> length d < 24 then Fail AF_ERR_INVAL
          else andthen (xz_stream_header d) (\<lambda>(check_size, flags0, flags1).
            andthen (xz_blocks d check_size 12 \<lparr>xo_bytes = [], xo_size = sz, xo_full = False\<rparr> []) (\<lambda>(index_start, out, recs).
              andthen (xz_index d index_start recs) (\<lambda>at.
                andthen (xz_footer d at (at - index_start) flags0 flags1) (\<lambda>_. Ok (xo_bytes out)))))
      | _ \<Rightarrow> Fail AF_ERR_INVAL)"

section \<open>Nothing outside the buffers\<close>

abbreviation "xz_errors \<equiv> {AF_ERR_FS_CORRUPT, AF_ERR_NOTSUP, AF_ERR_TOOMANY, AF_ERR_INVAL}"

lemma vli_loop_inside:
  "AF_ERR_FS_CORRUPT \<in> E \<Longrightarrow> limit \<le> length d \<Longrightarrow> at + i < limit \<Longrightarrow> yields E (\<lambda>(v, p). at < p \<and> p \<le> limit) (vli_loop d limit at i v)"
  by (induction d limit at i v rule: vli_loop.induct) (subst vli_loop.simps, auto)

lemma vli_inside: "AF_ERR_FS_CORRUPT \<in> E \<Longrightarrow> limit \<le> length d \<Longrightarrow> yields E (\<lambda>(v, p). at < p \<and> p \<le> limit) (xz_vli d limit at)"
  using vli_loop_inside [of E limit d at 0] by (simp add: xz_vli_def)

text \<open>How the output grows: by bytes at its end, never past its size.\<close>

definition grows :: "xout \<Rightarrow> xout \<Rightarrow> bool" where
  "grows o1 o2 \<longleftrightarrow> xo_size o2 = xo_size o1 \<and> length (xo_bytes o2) \<le> xo_size o2 \<and> (\<exists>bs. xo_bytes o2 = xo_bytes o1 @ bs)"

lemma grows_refl: "length (xo_bytes out) \<le> xo_size out \<Longrightarrow> grows out out"
  by (simp add: grows_def)

lemma grows_trans: "grows a b \<Longrightarrow> grows b c \<Longrightarrow> grows a c"
  by (auto simp: grows_def)

lemma xout_byte_grows: "length (xo_bytes out) \<le> xo_size out \<Longrightarrow> grows out (xout_byte b out)"
  by (auto simp: grows_def xout_byte_def)

lemma fold_grows: "length (xo_bytes out) \<le> xo_size out \<Longrightarrow> grows out (fold xout_byte bs out)"
proof (induction bs arbitrary: out)
  case (Cons b bs)
  note g = xout_byte_grows [OF Cons.prems, of b]
  then have "length (xo_bytes (xout_byte b out)) \<le> xo_size (xout_byte b out)" by (simp add: grows_def)
  then show ?case using Cons.IH grows_trans [OF g] by simp
qed (simp add: grows_refl)

text \<open>One round of the loop, its reads resolved.\<close>

definition chunk_size :: "u8 list \<Rightarrow> nat \<Rightarrow> nat" where
  "chunk_size d at = unat ((push_bit 8 (ucast (d ! (at + 1))) OR ucast (d ! (at + 2))) + 1 :: u32)"

lemma lzma2_step:
  assumes "at < length d"
  shows "lzma2_loop d at h out =
     (if d ! at = 0 then Ok (at + 1, out)
      else if \<not> (0xE0 \<le> d ! at \<or> d ! at = 1) \<and> \<not> h then Fail AF_ERR_FS_CORRUPT
      else if 0x80 \<le> d ! at then Fail AF_ERR_NOTSUP
      else if 2 < d ! at \<or> length d < at + 3 + chunk_size d at then Fail AF_ERR_FS_CORRUPT
      else let out1 = fold xout_byte (take (chunk_size d at) (drop (at + 3) d)) out in
        if xo_full out1 then Fail AF_ERR_TOOMANY else lzma2_loop d (at + 3 + chunk_size d at) True out1)"
proof -
  have dict: "\<not> (\<not> (a \<or> b) \<and> \<not> h) \<Longrightarrow> (h \<or> a \<or> b) = True" for a b by blast
  show ?thesis
    apply (subst lzma2_loop.simps)
    using assms by (simp add: Let_def chunk_size_def dict numeral_3_eq_3 cong: if_cong)
qed

lemma lzma2_inside:
  assumes "length (xo_bytes out) \<le> xo_size out" "at \<le> length d"
  shows "yields xz_errors (\<lambda>(n, out1). n \<le> length d \<and> grows out out1) (lzma2_loop d at h out)"
  using assms
proof (induction "length d - at" arbitrary: at h out rule: less_induct)
  case less
  show ?case
  proof (cases "at < length d")
    case True
    let ?n = "at + 3 + chunk_size d at" and ?o = "fold xout_byte (take (chunk_size d at) (drop (at + 3) d)) out"
    have g: "grows out ?o" using less.prems fold_grows by blast
    have "yields xz_errors (\<lambda>(n, out1). n \<le> length d \<and> grows out out1) (lzma2_loop d ?n True ?o)" if n: "?n \<le> length d"
    proof -
      have "yields xz_errors (\<lambda>(n, out1). n \<le> length d \<and> grows ?o out1) (lzma2_loop d ?n True ?o)"
        by (rule less.hyps) (use g n True in \<open>simp_all add: grows_def\<close>)
      then show ?thesis by (rule yields_mono) (auto intro: grows_trans [OF g])
    qed
    then show ?thesis using True less.prems(1) by (subst lzma2_step) (auto simp: Let_def grows_refl)
  qed (simp add: lzma2_loop.simps)
qed

lemma filters_inside:
  "AF_ERR_FS_CORRUPT \<in> E \<Longrightarrow> header_end \<le> length data \<Longrightarrow> (case first of None \<Rightarrow> 0 < n | Some (_, psz, i) \<Rightarrow> unat psz \<le> header_end - i) \<Longrightarrow>
     yields E (\<lambda>(p1, f). (n = 0 \<or> p1 \<le> header_end) \<and> (\<exists>fid psz i. f = Some (fid, psz, i) \<and> unat psz \<le> header_end - i))
       (xz_filters data header_end n p first)"
proof (induction n arbitrary: p first)
  case 0
  then show ?case by (auto split: option.splits)
next
  case (Suc n)
  have step: "yields E (\<lambda>(p1, f). p1 \<le> header_end \<and> (\<exists>fid psz i. f = Some (fid, psz, i) \<and> unat psz \<le> header_end - i))
       (xz_filters data header_end n (p2 + unat psz) (case first of None \<Rightarrow> Some (fid, psz, p2) | Some x \<Rightarrow> Some x))"
    if p: "p < p1" "p1 < p2" "p2 \<le> header_end" "\<not> header_end - p2 < unat psz" for p1 p2 and fid psz :: u64
  proof -
    let ?f = "case first :: (u64 \<times> u64 \<times> nat) option of None \<Rightarrow> Some (fid, psz, p2) | Some x \<Rightarrow> Some x"
    have f: "case ?f of None \<Rightarrow> 0 < n | Some (_, psz, i) \<Rightarrow> unat psz \<le> header_end - i"
      using Suc.prems(3) p by (auto split: option.splits)
    have "n = 0 \<Longrightarrow> p2 + unat psz \<le> header_end" using p by simp
    then show ?thesis
      using Suc.IH [OF Suc.prems(1,2) f, of "p2 + unat psz"] by (cases n) (auto split: option.splits elim!: yields_mono)
  qed
  show ?case
    unfolding xz_filters.simps
    apply (rule yields_bind [OF vli_inside [OF Suc.prems(1,2)]], clarify)
    apply (rule yields_bind [OF vli_inside [OF Suc.prems(1,2)]], clarify)
    using step Suc.prems(1) by (auto intro!: yields_if)
qed

lemma opt_vli_inside: "AF_ERR_FS_CORRUPT \<in> E \<Longrightarrow> limit \<le> length d \<Longrightarrow> yields E (\<lambda>_. True) (xz_opt_vli d limit present p)"
  using vli_inside [of E limit d p] by (auto simp: xz_opt_vli_def elim!: yields_mono)

lemma header_inside: "at < length data \<Longrightarrow> yields xz_errors (\<lambda>(s, _, _). at + 8 \<le> s \<and> s \<le> length data) (xz_block_header data at)"
proof -
  assume at: "at < length data"
  have c: "AF_ERR_FS_CORRUPT \<in> xz_errors" by simp
  note vli = yields_bind [OF opt_vli_inside [OF c]]
  note flt = yields_bind [OF filters_inside [OF c]]
  show ?thesis
    unfolding xz_block_header_def
    apply (intro yields_intros; ((use at in \<open>auto; fail\<close>) | (use at in \<open>arith; fail\<close>))?)
    apply (rule vli, use at in arith)
    apply (intro yields_intros, rule vli, use at in arith)
    apply (intro yields_intros, rule flt, use at in arith, simp)
    apply (clarsimp intro!: yields_intros simp del: mult_Suc)
    using at apply (auto simp: fetch_def fetches_def not_less)
    done
qed

lemma padding_inside: "AF_ERR_FS_CORRUPT \<in> E \<Longrightarrow> start \<le> q \<Longrightarrow> q \<le> length data \<Longrightarrow>
    yields E (\<lambda>q1. q \<le> q1 \<and> q1 \<le> length data) (xz_padding data start q)"
proof (induction data start q rule: xz_padding.induct)
  case (1 data start q)
  show ?case
  proof (cases "(q - start) mod 4 = 0 \<or> length data \<le> q")
    case False
    then have "yields E (\<lambda>q1. q + 1 \<le> q1 \<and> q1 \<le> length data) (xz_padding data start (q + 1))" if "data ! q = 0"
      using 1 that by simp
    then show ?thesis using False 1 by (subst xz_padding.simps) (auto elim!: yields_mono)
  qed (subst xz_padding.simps, use 1 in auto)
qed

lemma block_inside:
  assumes "at < length data" "length (xo_bytes out) \<le> xo_size out"
  shows "yields xz_errors (\<lambda>(n, out1, _). grows out out1) (xz_block data cs at out)"
proof -
  have c: "AF_ERR_FS_CORRUPT \<in> xz_errors" by simp
  have l: "yields xz_errors (\<lambda>(n, out1). n \<le> length d \<and> grows out out1) (lzma2_chunks d out)" for d
    unfolding lzma2_chunks_def using lzma2_inside [OF assms(2), of 0 d] by simp
  show ?thesis
    unfolding xz_block_def
    apply (rule yields_bind [OF header_inside [OF assms(1)]])
    apply (intro yields_intros; ((use assms in \<open>auto; fail\<close>) | (use assms in \<open>arith; fail\<close>))?)
    apply (rule yields_bind [OF l])
    apply (intro yields_intros; ((use assms in \<open>auto; fail\<close>) | (use assms in \<open>arith; fail\<close>))?)
    apply (rule yields_bind [OF padding_inside [OF c]])
      apply (use assms in \<open>auto\<close>)[2]
    apply (intro yields_intros; ((use assms in \<open>auto; fail\<close>) | (use assms in \<open>arith; fail\<close>))?)
    apply (auto simp: xz_check_ok_def nat_le_eq_zle)
    done
qed

lemma blocks_inside:
  assumes "length (xo_bytes out) \<le> xo_size out"
  shows "yields xz_errors (\<lambda>(n, out1, _). n < length data \<and> grows out out1) (xz_blocks data cs at out recs)"
  using assms
proof (induction data cs at out recs rule: xz_blocks.induct)
  case (1 data cs at out recs)
  show ?case
  proof (cases "length data \<le> at")
    case False
    have st: "yields xz_errors (\<lambda>(n, out1, _). n < length data \<and> grows out out1)
         (andthen (xz_block data cs at out) (\<lambda>(at1, out1, rec). xz_blocks data cs at1 out1 (recs @ [rec])))"
      if "data ! at \<noteq> 0" "length recs < 256"
    proof (cases "xz_block data cs at out")
      case (Ok x)
      obtain at1 out1 rec where x: "x = (at1, out1, rec)" by (cases x)
      have g: "grows out out1" using block_inside [of at data out cs] False 1(2) unfolding Ok x by simp
      have "yields xz_errors (\<lambda>(n, out2, _). n < length data \<and> grows out1 out2) (xz_blocks data cs at1 out1 (recs @ [rec]))"
        by (rule 1(1) [of "data ! at" x]) (use False that g x Ok in \<open>auto simp: grows_def\<close>)
      then show ?thesis unfolding Ok x by (auto elim!: yields_mono intro: grows_trans [OF g])
    qed (use block_inside [of at data out cs] False 1(2) in auto)
    show ?thesis using False st 1(2) by (subst xz_blocks.simps) (auto simp: grows_refl)
  qed (subst xz_blocks.simps, simp)
qed

lemma records_inside: "AF_ERR_FS_CORRUPT \<in> E \<Longrightarrow> at \<le> length data \<Longrightarrow> yields E (\<lambda>n. at \<le> n \<and> n \<le> length data) (xz_records data at recs)"
proof (induction recs arbitrary: at)
  case (Cons r recs)
  obtain u v where r: "r = (u, v)" by (cases r)
  have step: "yields E (\<lambda>n. at \<le> n \<and> n \<le> length data) (xz_records data p2 recs)" if "at < p1" "p1 < p2" "p2 \<le> length data" for p1 p2
    using Cons.IH [OF Cons.prems(1) that(3)] that by (auto elim!: yields_mono)
  show ?case
    unfolding r xz_records.simps
    apply (rule yields_bind [OF vli_inside [OF Cons.prems(1)]], simp, clarify)
    apply (rule yields_bind [OF vli_inside [OF Cons.prems(1)]], simp, clarify)
    using step Cons.prems(1) by (auto intro!: yields_if)
qed simp

lemma index_inside: "at < length data \<Longrightarrow> yields xz_errors (\<lambda>n. at \<le> n \<and> n \<le> length data) (xz_index data at recs)"
proof -
  assume at: "at < length data"
  have c: "AF_ERR_FS_CORRUPT \<in> xz_errors" by simp
  show ?thesis
    unfolding xz_index_def
    apply (rule yields_bind [OF vli_inside [OF c order.refl]])
    apply (intro yields_intros; ((use at in \<open>auto; fail\<close>) | (use at in \<open>arith; fail\<close>))?)
    apply (rule yields_bind [OF records_inside [OF c]], simp)
    apply (rule yields_bind [OF padding_inside [OF c]], simp, simp)
    apply (intro yields_intros; ((use at in \<open>auto; fail\<close>) | (use at in \<open>arith; fail\<close>))?)
    done
qed

lemma xz_header_inside: "24 \<le> length data \<Longrightarrow> yields xz_errors (\<lambda>_. True) (xz_stream_header data)"
  unfolding xz_stream_header_def by (intro yields_intros; auto)

lemma xz_yields:
  "yields {AF_ERR_FS_CORRUPT, AF_ERR_NOTSUP, AF_ERR_TOOMANY, AF_ERR_INVAL} (\<lambda>w. length w \<le> sz) (afpkg_xz (Some data) (Some sz) True)"
proof (cases "length data < 24")
  case False
  show ?thesis
    unfolding afpkg_xz_def option.case prod.case
    apply (intro yields_intros, simp)
    apply (rule yields_bind [OF xz_header_inside], use False in simp)
    apply (intro yields_intros)
    apply (rule yields_bind [OF blocks_inside], simp)
    apply (intro yields_intros)
    apply (rule yields_bind [OF index_inside], simp)
    apply (auto simp: xz_footer_def Let_def grows_def)
    done
qed (simp add: afpkg_xz_def)

text \<open>
  Whatever the file holds, the decoder answers: with at most as many bytes as the buffer takes, or with one of
  four errors; and it never reads outside the file.
\<close>

theorem xz_stays_inside:
  "yields {AF_ERR_FS_CORRUPT, AF_ERR_NOTSUP, AF_ERR_TOOMANY, AF_ERR_INVAL} (\<lambda>w. length w \<le> sz) (afpkg_xz (Some data) (Some sz) True)"
  by (rule xz_yields)

section \<open>A reference encoder\<close>

text \<open>
  The .xz container as its format document writes it: blocks of stored chunks, the index, the footer, with any
  of the three checks.
\<close>

fun vli_bytes :: "nat \<Rightarrow> u8 list" where
  "vli_bytes n = (if n < 128 then [of_nat n] else of_nat (n mod 128 + 128) # vli_bytes (n div 128))"

declare vli_bytes.simps [simp del]

definition chunk_bytes :: "u8 \<Rightarrow> u8 list \<Rightarrow> u8 list" where
  "chunk_bytes control c = control # of_nat ((length c - 1) div 256) # of_nat ((length c - 1) mod 256) # c"

text \<open>The first chunk of a block resets the dictionary (1), the others do not (2).\<close>

fun stored_chunks :: "u8 \<Rightarrow> u8 list list \<Rightarrow> u8 list" where
  "stored_chunks control [] = [0]"
| "stored_chunks control (c # cs) = chunk_bytes control c @ stored_chunks 2 cs"

definition zeros4 :: "nat \<Rightarrow> u8 list" where
  "zeros4 n = replicate ((4 - n mod 4) mod 4) 0"

definition check_bytes :: "u8 \<Rightarrow> u8 list \<Rightarrow> u8 list" where
  "check_bytes chk d = (if chk = 1 then le32 (xz_crc32 d 0) else if chk = 4 then le64 (xz_crc64 d 0) else [])"

definition block_head :: "u8 list" where
  "block_head = [2, 0, 0x21, 1, 0, 0, 0, 0] @ le32 (xz_crc32 [2, 0, 0x21, 1, 0, 0, 0, 0] 0)"

definition block_bytes :: "u8 \<Rightarrow> u8 list list \<Rightarrow> u8 list" where
  "block_bytes chk cs = block_head @ stored_chunks 1 cs @ zeros4 (12 + length (stored_chunks 1 cs)) @ check_bytes chk (concat cs)"

definition block_record :: "u8 \<Rightarrow> u8 list list \<Rightarrow> nat \<times> nat" where
  "block_record chk cs = (12 + length (stored_chunks 1 cs) + length (check_bytes chk (concat cs)), length (concat cs))"

definition index_body :: "u8 \<Rightarrow> u8 list list list \<Rightarrow> u8 list" where
  "index_body chk bs = 0 # vli_bytes (length bs) @ concat (map (\<lambda>b. vli_bytes (fst (block_record chk b)) @ vli_bytes (snd (block_record chk b))) bs)"

definition index_bytes :: "u8 \<Rightarrow> u8 list list list \<Rightarrow> u8 list" where
  "index_bytes chk bs = (let ib = index_body chk bs @ zeros4 (length (index_body chk bs)) in ib @ le32 (xz_crc32 ib 0))"

definition footer_bytes :: "u8 \<Rightarrow> nat \<Rightarrow> u8 list" where
  "footer_bytes chk n = (let f = le32 (of_nat (n div 4 - 1)) @ [0, chk] in le32 (xz_crc32 f 0) @ f @ [0x59, 0x5A])"

definition xz_bytes :: "u8 \<Rightarrow> u8 list list list \<Rightarrow> u8 list" where
  "xz_bytes chk bs =
     [0xFD, 0x37, 0x7A, 0x58, 0x5A, 0, 0, chk] @ le32 (xz_crc32 [0, chk] 0) @ concat (map (block_bytes chk) bs) @
     index_bytes chk bs @ footer_bytes chk (length (index_bytes chk bs))"

section \<open>Integers\<close>

lemma flag_bit: "(b :: u8) AND 0x80 = 0 \<longleftrightarrow> \<not> bit b 7"
  using and_exp_eq_0_iff_not_bit [of b 7] by simp

lemma mask_7: "(b :: u8) AND 0x7F = take_bit 7 b"
  by (simp add: take_bit_eq_mask mask_eq_exp_minus_1)

lemma byte_flag:
  assumes "n < 128"
  shows "(of_nat n :: u8) AND 0x80 = 0" "(of_nat n :: u8) AND 0x7F = of_nat n"
    "(of_nat (n + 128) :: u8) AND 0x80 \<noteq> 0" "(of_nat (n + 128) :: u8) AND 0x7F = of_nat n"
proof -
  have "n div 128 = 0" "(n + 128) div 128 = 1" using assms by auto
  then show "(of_nat n :: u8) AND 0x80 = 0" "(of_nat (n + 128) :: u8) AND 0x80 \<noteq> 0"
    unfolding flag_bit bit_of_nat_iff by (simp_all add: bit_iff_odd [where 'a = nat] del: of_nat_add)
  have "take_bit 7 n = n" "take_bit 7 (n + 128) = n" using assms by (simp_all add: take_bit_eq_mod)
  then show "(of_nat n :: u8) AND 0x7F = of_nat n" "(of_nat (n + 128) :: u8) AND 0x7F = of_nat n"
    unfolding mask_7 by (simp_all only: take_bit_of_nat)
qed

lemma or_unat:
  assumes "unat (v :: u64) < 2 ^ k" "unat w * 2 ^ k < 2 ^ 64"
  shows "unat (v OR push_bit k w) = unat v + unat w * 2 ^ k"
proof -
  have p: "unat (push_bit k w) = push_bit k (unat w)"
    unfolding unsigned_push_bit_eq using assms(2) by (simp add: take_bit_eq_mod push_bit_eq_mult)
  have "take_bit k (unat v) = unat v" using assms(1) by (simp add: take_bit_nat_eq_self)
  then have "unat v AND push_bit k (unat w) = 0"
  proof (intro bit_eqI)
    fix n
    show "bit (unat v AND push_bit k (unat w)) n = bit 0 n"
      using bit_take_bit_iff [of k "unat v" n] \<open>take_bit k (unat v) = unat v\<close> by (auto simp: bit_and_iff bit_push_bit_iff)
  qed
  then show ?thesis unfolding unsigned_or_eq p using disjunctive_add_eq_or [of "unat v" "push_bit k (unat w)"] by (simp add: push_bit_eq_mult)
qed

lemma vli_bytes_first: "\<exists>b bs. vli_bytes n = b # bs \<and> b AND 0x7F = of_nat (n mod 128) \<and> (0 < n \<longrightarrow> b \<noteq> 0) \<and> ((b AND 0x80 = 0) = (n < 128))"
proof (cases "n < 128")
  case True
  have "(of_nat n :: u8) \<noteq> 0" if "0 < n" using True that by (simp add: word_unat_eq_iff unat_of_nat take_bit_eq_mod)
  moreover have "vli_bytes n = [of_nat n]" using True by (simp add: vli_bytes.simps)
  ultimately show ?thesis using True byte_flag [OF True] by auto
next
  case False
  have m: "n mod 128 < 128" by simp
  show ?thesis using False byte_flag [OF m] by (subst vli_bytes.simps) auto
qed

lemma vli_bytes_length: "0 < length (vli_bytes n)"
  using vli_bytes_first [of n] by auto

lemma vli_loop_reads:
  assumes "at + i = length xs" "length xs + length (vli_bytes m) \<le> limit" "u < 2 ^ (7 * i)" "u + m * 2 ^ (7 * i) < 2 ^ 63"
  shows "vli_loop (xs @ vli_bytes m @ ys) limit at i (of_nat (u + (m mod 128) * 2 ^ (7 * i))) =
     Ok (of_nat (u + m * 2 ^ (7 * i)), length xs + length (vli_bytes m))"
  using assms
proof (induction m arbitrary: i xs u rule: vli_bytes.induct)
  case (1 m)
  obtain b bs where b: "vli_bytes m = b # bs" "b AND 0x7F = of_nat (m mod 128)" "(b AND 0x80 = 0) = (m < 128)"
    using vli_bytes_first [of m] by auto
  show ?case
  proof (cases "m < 128")
    case True
    then have "vli_bytes m = [of_nat m]" by (simp add: vli_bytes.simps)
    then show ?thesis using True 1(2,3) b by (subst vli_loop.simps) simp
  next
    case False
    let ?k = "m div 128"
    have v: "vli_bytes m = b # vli_bytes ?k" using b(1) False by (auto simp: vli_bytes.simps [of m])
    obtain c cs where c: "vli_bytes ?k = c # cs" "c AND 0x7F = of_nat (?k mod 128)" "c \<noteq> 0"
      using vli_bytes_first [of ?k] False by (auto simp: div_greater_zero_iff)
    have m: "m = ?k * 128 + m mod 128" by simp
    have pw: "(2 :: nat) ^ (7 * Suc i) = 128 * 2 ^ (7 * i)" by (simp add: power_add)
    let ?u = "u + (m mod 128) * 2 ^ (7 * i)"
    have tot: "?u + ?k * 2 ^ (7 * Suc i) = u + m * 2 ^ (7 * i)"
    proof -
      have "u + (m mod 128) * 2 ^ (7 * i) + ?k * (128 * 2 ^ (7 * i)) = u + (?k * 128 + m mod 128) * 2 ^ (7 * i)"
        by (simp only: distrib_right mult.assoc add.assoc add.commute add.left_commute)
      then show ?thesis unfolding pw using m by simp
    qed
    have "(128 :: nat) * 2 ^ (7 * i) \<le> m * 2 ^ (7 * i)" using False by (intro mult_right_mono) simp_all
    then have "(2 :: nat) ^ (7 * Suc i) < 2 ^ 63" unfolding pw using 1(5) by linarith
    then have i: "7 * Suc i < 63" by (rule power_less_imp_less_exp [rotated]) simp
    have "(m mod 128) * 2 ^ (7 * i) \<le> 127 * 2 ^ (7 * i)" by (intro mult_right_mono) simp_all
    then have u: "?u < 2 ^ (7 * Suc i)" unfolding pw using 1(4) by linarith
    have "?k mod 128 \<le> ?k" by simp
    then have "(?k mod 128) * 2 ^ (7 * Suc i) \<le> ?k * 2 ^ (7 * Suc i)" by (rule mult_right_mono) simp
    then have s: "?u + (?k mod 128) * 2 ^ (7 * Suc i) < 2 ^ 63" using 1(5) tot by linarith
    have ub: "unat (ucast (c AND 0x7F) :: u64) = ?k mod 128"
      unfolding c(2) by (simp add: unat_of_nat take_bit_eq_mod unsigned_ucast_eq)
    have uu: "unat (of_nat ?u :: u64) = ?u" using s by (simp add: unat_of_nat take_bit_nat_eq_self del: of_nat_add of_nat_mult)
    have "unat ((of_nat ?u :: u64) OR push_bit (7 * Suc i) (ucast (c AND 0x7F))) = ?u + (?k mod 128) * 2 ^ (7 * Suc i)"
      using or_unat [of "of_nat ?u" "7 * Suc i" "ucast (c AND 0x7F)"] u s unfolding uu ub by simp
    then have nv: "(of_nat ?u :: u64) OR push_bit (7 * Suc i) (ucast (c AND 0x7F)) = of_nat (?u + (?k mod 128) * 2 ^ (7 * Suc i))"
      using s by (simp add: word_unat_eq_iff unat_of_nat take_bit_nat_eq_self del: of_nat_add of_nat_mult)
    have "vli_loop ((xs @ [b]) @ vli_bytes ?k @ ys) limit at (Suc i) (of_nat (?u + (?k mod 128) * 2 ^ (7 * Suc i))) =
       Ok (of_nat (?u + ?k * 2 ^ (7 * Suc i)), length (xs @ [b]) + length (vli_bytes ?k))"
      using 1(2,3) u 1(5) tot v by (intro 1(1) [OF False]) simp_all
    moreover have "vli_loop (xs @ vli_bytes m @ ys) limit at i (of_nat ?u) =
       vli_loop ((xs @ [b]) @ vli_bytes ?k @ ys) limit at (Suc i) (of_nat (?u + (?k mod 128) * 2 ^ (7 * Suc i)))"
      unfolding nv [symmetric] using 1(2,3) i False b(3) c by (subst vli_loop.simps) (simp add: v nth_append)
    ultimately show ?thesis unfolding tot v by simp
  qed
qed

lemma vli_reads:
  assumes "m < 2 ^ 63" "length xs + length (vli_bytes m) \<le> limit"
  shows "xz_vli (xs @ vli_bytes m @ ys) limit (length xs) = Ok (of_nat m, length xs + length (vli_bytes m))"
proof -
  obtain b bs where b: "vli_bytes m = b # bs" "b AND 0x7F = of_nat (m mod 128)" using vli_bytes_first [of m] by auto
  have "ucast (b AND 0x7F) = (of_nat (m mod 128) :: u64)"
    unfolding b(2) by (simp add: word_unat_eq_iff unat_of_nat take_bit_eq_mod unsigned_ucast_eq)
  then show ?thesis using vli_loop_reads [of "length xs" 0 xs m limit 0 ys] assms b by (simp add: xz_vli_def nth_append)
qed


section \<open>Blocks\<close>

lemma fold_room: "length (xo_bytes out) + length bs \<le> xo_size out \<Longrightarrow> fold xout_byte bs out = out\<lparr>xo_bytes := xo_bytes out @ bs\<rparr>"
  by (induction bs arbitrary: out) (simp_all add: xout_byte_def)

lemma chunk_length: "1 \<le> n \<Longrightarrow> n \<le> 65536 \<Longrightarrow>
    unat ((push_bit 8 (ucast (of_nat ((n - 1) div 256) :: u8)) OR ucast (of_nat ((n - 1) mod 256) :: u8)) + 1 :: u32) = n"
proof -
  assume n: "1 \<le> n" "n \<le> 65536"
  let ?h = "of_nat ((n - 1) div 256) :: u8" and ?l = "of_nat ((n - 1) mod 256) :: u8"
  have d: "(n - 1) div 256 < 256" using n by (simp add: less_mult_imp_div_less)
  have h: "unat (ucast ?h :: u32) = (n - 1) div 256" "unat (ucast ?l :: u32) = (n - 1) mod 256"
    using d by (simp_all add: unsigned_ucast_eq unat_of_nat take_bit_nat_eq_self)
  have "push_bit 8 (ucast ?h) OR ucast ?l = push_bit 8 (ucast ?h) + (ucast ?l :: u32)"
    by (rule disjunctive_add_eq_or [symmetric], rule bit_word_eqI) (auto simp: bit_simps)
  also have "unat \<dots> = n - 1"
  proof -
    have p: "unat (push_bit 8 (ucast ?h) :: u32) = (n - 1) div 256 * 256"
      unfolding unsigned_push_bit_eq h using d by (simp add: take_bit_eq_mod push_bit_eq_mult)
    have "unat (push_bit 8 (ucast ?h) + ucast ?l :: u32) = ((n - 1) div 256 * 256 + (n - 1) mod 256) mod 2 ^ 32"
      by (simp only: unat_word_ariths p h) simp
    also have "(n - 1) div 256 * 256 + (n - 1) mod 256 = n - 1" by (rule div_mult_mod_eq)
    finally show ?thesis using n by simp
  qed
  finally have "unat (push_bit 8 (ucast ?h) OR ucast ?l :: u32) = n - 1" .
  then show "unat ((push_bit 8 (ucast ?h) OR ucast ?l) + 1 :: u32) = n"
    using n by (subst unat_Suc_word) simp_all
qed

definition chunks_ok :: "u8 list list \<Rightarrow> bool" where
  "chunks_ok cs \<longleftrightarrow> (\<forall>c \<in> set cs. c \<noteq> [] \<and> length c \<le> 65536)"

lemma chunks_read:
  assumes "chunks_ok cs" "length (xo_bytes out) + length (concat cs) \<le> xo_size out" "\<not> xo_full out" "ctl = 1 \<or> ctl = 2 \<and> h"
  shows "lzma2_loop (pre @ stored_chunks ctl cs @ post) (length pre) h out =
     Ok (length pre + length (stored_chunks ctl cs), out\<lparr>xo_bytes := xo_bytes out @ concat cs\<rparr>)"
  using assms
proof (induction cs arbitrary: pre ctl h out)
  case Nil
  then show ?case by (simp add: lzma2_step nth_append)
next
  case (Cons c cs)
  let ?d = "pre @ stored_chunks ctl (c # cs) @ post"
  let ?pre = "pre @ chunk_bytes ctl c" and ?out = "out\<lparr>xo_bytes := xo_bytes out @ c\<rparr>"
  have c: "1 \<le> length c" "length c \<le> 65536" using Cons.prems(1) by (auto simp: chunks_ok_def Suc_le_eq)
  have ctl: "ctl \<noteq> 0" "\<not> 0x80 \<le> ctl" "\<not> 2 < ctl" "\<not> 0xE0 \<le> ctl" "ctl \<noteq> 1 \<longrightarrow> h" using Cons.prems(4) by (auto simp: word_le_nat_alt word_less_nat_alt)
  have sz: "chunk_size ?d (length pre) = length c"
    using chunk_length [OF c] by (simp add: chunk_size_def chunk_bytes_def nth_append)
  have at: "?d ! length pre = ctl" by (simp add: nth_append chunk_bytes_def)
  have tk: "take (length c) (drop (length pre + 3) ?d) = c" by (simp add: chunk_bytes_def)
  have f: "fold xout_byte c out = ?out" by (rule fold_room) (use Cons.prems(2) in simp)
  have "lzma2_loop ?d (length pre) h out = lzma2_loop ?d (length ?pre) True ?out"
  proof -
    have c1: "(ctl = 0) = False" "(\<not> (0xE0 \<le> ctl \<or> ctl = 1) \<and> \<not> h) = False" "(0x80 \<le> ctl) = False" "(2 < ctl) = False"
      using ctl by blast+
    have c2: "length pre < length ?d" "(length ?d < length ?pre) = False" "xo_full ?out = False"
      "length pre + 3 + length c = length ?pre" "?d = ?pre @ stored_chunks 2 cs @ post"
      using Cons.prems(3) by (simp_all add: chunk_bytes_def)
    show ?thesis
      by (subst lzma2_step [OF c2(1)]) (simp only: at sz c1 c2(2) tk f Let_def c2(3,4) if_False simp_thms)
  qed
  also have "?d = ?pre @ stored_chunks 2 cs @ post" by simp
  also have "lzma2_loop \<dots> (length ?pre) True ?out = Ok (length ?pre + length (stored_chunks 2 cs), ?out\<lparr>xo_bytes := xo_bytes ?out @ concat cs\<rparr>)"
    by (rule Cons.IH) (use Cons.prems in \<open>simp_all add: chunks_ok_def\<close>)
  finally show ?case by simp
qed

lemma vli_one:
  assumes "at < limit" "at < length d" "d ! at AND 0x80 = 0"
  shows "xz_vli d limit at = Ok (ucast (d ! at AND 0x7F), at + 1)"
  using assms by (simp add: xz_vli_def vli_loop.simps)

lemma drop_at: "drop (length xs + n) (xs @ ys) = drop n ys"
  by simp

lemma header_read:
  assumes "fetch d at = Ok 2" "fetch d (at + 1) = Ok 0" "at + 12 \<le> length d"
    "fetches d at 8 = Ok h" "fetches d (at + 8) 4 = Ok c" "xz_crc32 h 0 = rd32 c 0"
    "xz_vli d (at + 12) (at + 2) = Ok (0x21, at + 3)" "xz_vli d (at + 12) (at + 3) = Ok (1, at + 4)"
    "fetch d (at + 4) = Ok 0" "fetches d (at + 5) 3 = Ok [0, 0, 0]"
  shows "xz_block_header d at = Ok (at + 12, 0, 0)"
proof -
  have n: "at + 3 * 4 - 4 = at + 8" "(3 * 4 - 4 :: nat) = 8" "(unat (2 :: u8) + 1) * 4 = 12" "at + 12 - 4 = at + 8" "(12 - 4 :: nat) = 8"
    "at + 8 - (at + 5) = 3" "at + 4 + unat (1 :: u64) = at + 5" "unat (0 :: u8) + 1 = Suc 0" by simp_all
  have flt: "xz_filters d (at + 12) (Suc 0) (at + 2) None = Ok (at + 5, Some (0x21, 1, at + 4))"
    by (simp only: xz_filters.simps assms n andthen.simps prod.case option.case) simp
  have c: "\<not> (12 < (8 :: nat) \<or> length d - at < 12)" using assms(3) by auto
  have z: "all_zero [0, 0, 0]" "(0 :: u8) AND x = 0" for x by (simp_all add: all_zero_def)
  show ?thesis
    unfolding xz_block_header_def Let_def
    by (simp only: assms andthen.simps n c if_False simp_thms z xz_opt_vli_def prod.case flt option.case) simp
qed

lemma header_reads: "xz_block_header (pre @ block_head @ post) (length pre) = Ok (length pre + 12, 0, 0)"
proof (rule header_read)
  let ?d = "pre @ block_head @ post"
  have nth: "?d ! (length pre + k) = (block_head @ post) ! k" for k by (simp add: nth_append)
  have len: "length block_head = 12" by (simp add: block_head_def)
  have b: "?d ! length pre = 2" "?d ! (length pre + 1) = 0" "?d ! (length pre + 2) = 0x21" "?d ! (length pre + 3) = 1" "?d ! (length pre + 4) = 0"
    using nth [of 0] by (simp_all only: nth add_0_right) (simp_all add: block_head_def)
  show "fetch ?d (length pre) = Ok 2" "fetch ?d (length pre + 1) = Ok 0" "fetch ?d (length pre + 4) = Ok 0"
    using b len by (simp_all add: fetch_def)
  show "xz_vli ?d (length pre + 12) (length pre + 2) = Ok (0x21, length pre + 3)"
    "xz_vli ?d (length pre + 12) (length pre + 3) = Ok (1, length pre + 4)"
    using b len by (simp_all add: vli_one)
  show "fetches ?d (length pre) 8 = Ok [2, 0, 0x21, 1, 0, 0, 0, 0]"
    "fetches ?d (length pre + 8) 4 = Ok (le32 (xz_crc32 [2, 0, 0x21, 1, 0, 0, 0, 0] 0))"
    "fetches ?d (length pre + 5) 3 = Ok [0, 0, 0]" "length pre + 12 \<le> length ?d"
    by (simp_all add: fetches_def block_head_def)
  show "xz_crc32 [2, 0, 0x21, 1, 0, 0, 0, 0] 0 = rd32 (le32 (xz_crc32 [2, 0, 0x21, 1, 0, 0, 0, 0] 0)) 0"
    using rd32_le32 [of "[]" _ "[]"] by simp
qed

lemma padding_run:
  "start \<le> length pre \<Longrightarrow> k < 4 \<Longrightarrow> (length pre - start + k) mod 4 = 0 \<Longrightarrow> xz_padding (pre @ replicate k 0 @ post) start (length pre) = Ok (length pre + k)"
proof (induction k arbitrary: pre)
  case 0
  then show ?case by (subst xz_padding.simps) simp
next
  case (Suc k)
  have nz: "(length pre - start) mod 4 \<noteq> 0" using Suc.prems(2,3) by presburger
  have "xz_padding ((pre @ [0]) @ replicate k 0 @ post) start (length (pre @ [0])) = Ok (length (pre @ [0]) + k)"
    by (rule Suc.IH) (use Suc.prems in \<open>simp_all add: Suc_diff_le\<close>)
  then show ?case using nz by (subst xz_padding.simps) (simp add: nth_append)
qed

lemma padding_reads:
  assumes "start \<le> length pre" "(length pre - start) mod 4 = n mod 4"
  shows "xz_padding (pre @ zeros4 n @ post) start (length pre) = Ok (length pre + length (zeros4 n))"
proof -
  have r: "r < 4 \<Longrightarrow> (r + (4 - r) mod 4) mod 4 = 0" for r :: nat by (cases "r = 0") simp_all
  have "(length pre - start + (4 - n mod 4) mod 4) mod 4 = ((length pre - start) mod 4 + (4 - n mod 4) mod 4) mod 4" by (simp only: mod_add_left_eq)
  also have "\<dots> = 0" unfolding assms(2) by (rule r) simp
  finally have "(length pre - start + (4 - n mod 4) mod 4) mod 4 = 0" .
  then show ?thesis unfolding zeros4_def using padding_run [OF assms(1)] by simp
qed

abbreviation "known_check chk \<equiv> chk = 0 \<or> chk = 1 \<or> chk = (4 :: u8)"

lemma check_length: "known_check chk \<Longrightarrow> nat (xz_check_size chk) = length (check_bytes chk d)" "known_check chk \<Longrightarrow> xz_check_size chk = int (length (check_bytes chk d))"
  by (auto simp: xz_check_size_def check_bytes_def)

lemma rd32_le32': "rd32 (le32 v) 0 = v"
  using rd32_le32 [of "[]" v "[]"] by simp

lemma rd64_le64': "rd64 (le64 v) 0 = v"
proof -
  have "rd32 (le64 v) 0 = ucast v" "rd32 (le64 v) 4 = ucast (drop_bit 32 v)"
    using rd32_le32 [of "[]" "ucast v" "le32 (ucast (drop_bit 32 v))"] rd32_le32 [of "le32 (ucast v)" "ucast (drop_bit 32 v)" "[]"]
    by (simp_all add: le64_def)
  then show ?thesis unfolding rd64_def by (simp) (rule bit_word_eqI, auto simp: bit_simps)
qed

lemma check_reads: "known_check chk \<Longrightarrow> xz_check_ok (pre @ check_bytes chk d @ post) (length pre) (xz_check_size chk) d = Ok True"
  by (auto simp: xz_check_ok_def xz_check_size_def check_bytes_def fetches_def rd32_le32' rd64_le64')

lemma block_reads:
  assumes chk: "known_check chk" and cs: "chunks_ok cs"
    and out: "length (xo_bytes out) + length (concat cs) \<le> xo_size out" "\<not> xo_full out"
  shows "xz_block (pre @ block_bytes chk cs @ post) (xz_check_size chk) (length pre) out =
     Ok (length pre + length (block_bytes chk cs), out\<lparr>xo_bytes := xo_bytes out @ concat cs\<rparr>,
         of_nat (fst (block_record chk cs)), of_nat (snd (block_record chk cs)))"
proof -
  let ?d = "pre @ block_bytes chk cs @ post" and ?s = "stored_chunks 1 cs" and ?c = "check_bytes chk (concat cs)"
  let ?z = "zeros4 (12 + length ?s)" and ?out = "out\<lparr>xo_bytes := xo_bytes out @ concat cs\<rparr>"
  have len: "length block_head = 12" by (simp add: block_head_def)
  have d: "?d = pre @ block_head @ (?s @ ?z @ ?c @ post)" by (simp add: block_bytes_def)
  have hd: "xz_block_header ?d (length pre) = Ok (length pre + 12, 0, 0)" unfolding d by (rule header_reads)
  have ld: "(length ?d - (length pre + 12) < length ?d - (length pre + 12)) = False" by simp
  have ft: "fetches ?d (length pre + 12) (length ?d - (length pre + 12)) = Ok (?s @ ?z @ ?c @ post)"
    unfolding d by (simp add: fetches_def len)
  have lz: "lzma2_chunks (?s @ ?z @ ?c @ post) out = Ok (length ?s, ?out)"
    unfolding lzma2_chunks_def using chunks_read [OF cs out, of 1 False "[]"] by simp
  have made: "length (xo_bytes ?out) - length (xo_bytes out) = length (concat cs)" "drop (length (xo_bytes out)) (xo_bytes ?out) = concat cs" by simp_all
  have pd: "xz_padding ?d (length pre) (length pre + 12 + length ?s) = Ok (length pre + 12 + length ?s + length ?z)"
    using padding_reads [of "length pre" "pre @ block_head @ ?s" "12 + length ?s" "?c @ post"] by (simp add: d len add.assoc)
  have ck: "xz_check_ok ?d (length pre + 12 + length ?s + length ?z) (xz_check_size chk) (concat cs) = Ok True"
    using check_reads [OF chk, of "pre @ block_head @ ?s @ ?z" "concat cs" post] by (simp add: d len add.assoc)
  have le: "(length ?d < length pre + 12 + length ?s + length ?z + nat (xz_check_size chk)) = False"
    using check_length(1) [OF chk, of "concat cs"] by (simp add: d len)
  have n: "length pre + 12 + length ?s + length ?z + nat (xz_check_size chk) = length pre + length (block_bytes chk cs)"
    using check_length(1) [OF chk, of "concat cs"] by (simp add: block_bytes_def len)
  have u: "length pre + 12 + length ?s - length pre = 12 + length ?s" by simp
  have c: "(of_nat (12 + length ?s) + of_int (xz_check_size chk) :: u64) = of_nat (fst (block_record chk cs))"
    using check_length(2) [OF chk, of "concat cs"] by (simp add: block_record_def)
  show ?thesis
    unfolding xz_block_def Let_def
    by (simp only: hd andthen.simps prod.case ld ft lz made pd ck le n u c if_False simp_thms) (simp add: block_record_def)
qed

abbreviation "record_words chk cs \<equiv> (of_nat (fst (block_record chk cs)) :: u64, of_nat (snd (block_record chk cs)) :: u64)"

lemma blocks_read:
  assumes "known_check chk" "\<forall>cs \<in> set bs. chunks_ok cs" "length recs + length bs \<le> 256"
    "length (xo_bytes out) + length (concat (map concat bs)) \<le> xo_size out" "\<not> xo_full out"
  shows "xz_blocks (pre @ concat (map (block_bytes chk) bs) @ 0 # post) (xz_check_size chk) (length pre) out recs =
     Ok (length pre + length (concat (map (block_bytes chk) bs)), out\<lparr>xo_bytes := xo_bytes out @ concat (map concat bs)\<rparr>,
         recs @ map (record_words chk) bs)"
  using assms(2-5)
proof (induction bs arbitrary: pre out recs)
  case Nil
  then show ?case by (subst xz_blocks.simps) (simp add: fetch_def nth_append)
next
  case (Cons cs bs)
  let ?d = "pre @ concat (map (block_bytes chk) (cs # bs)) @ 0 # post"
  let ?pre = "pre @ block_bytes chk cs" and ?out = "out\<lparr>xo_bytes := xo_bytes out @ concat cs\<rparr>"
  have f: "fetch ?d (length pre) = Ok 2" by (simp add: fetch_def nth_append block_bytes_def block_head_def)
  have l: "\<not> length ?d \<le> length pre" "\<not> 256 \<le> length recs" "(2 :: u8) \<noteq> 0" using Cons.prems by simp_all
  have b: "xz_block ?d (xz_check_size chk) (length pre) out = Ok (length ?pre, ?out, record_words chk cs)"
    using block_reads [OF assms(1), of cs out pre "concat (map (block_bytes chk) bs) @ 0 # post"] Cons.prems by simp
  have "xz_blocks ?d (xz_check_size chk) (length pre) out recs = xz_blocks ?d (xz_check_size chk) (length ?pre) ?out (recs @ [record_words chk cs])"
    by (subst xz_blocks.simps) (simp only: f l b andthen.simps prod.case if_False)
  also have "?d = ?pre @ concat (map (block_bytes chk) bs) @ 0 # post" by simp
  also have "xz_blocks \<dots> (xz_check_size chk) (length ?pre) ?out (recs @ [record_words chk cs]) =
    Ok (length ?pre + length (concat (map (block_bytes chk) bs)), ?out\<lparr>xo_bytes := xo_bytes ?out @ concat (map concat bs)\<rparr>,
        (recs @ [record_words chk cs]) @ map (record_words chk) bs)"
    by (rule Cons.IH) (use Cons.prems in simp_all)
  finally show ?case by simp
qed

section \<open>Index and footer\<close>

abbreviation "record_bytes chk b \<equiv> vli_bytes (fst (block_record chk b)) @ vli_bytes (snd (block_record chk b))"

lemma records_read:
  assumes "\<forall>b \<in> set bs. fst (block_record chk b) < 2 ^ 63 \<and> snd (block_record chk b) < 2 ^ 63"
  shows "xz_records (pre @ concat (map (\<lambda>b. record_bytes chk b) bs) @ post) (length pre) (map (record_words chk) bs) =
     Ok (length pre + length (concat (map (\<lambda>b. record_bytes chk b) bs)))"
  using assms
proof (induction bs arbitrary: pre)
  case (Cons b bs)
  let ?u = "vli_bytes (fst (block_record chk b))" and ?v = "vli_bytes (snd (block_record chk b))"
  let ?r = "concat (map (\<lambda>b. record_bytes chk b) bs) @ post"
  let ?d = "pre @ concat (map (\<lambda>b. record_bytes chk b) (b # bs)) @ post"
  have d: "?d = pre @ ?u @ ?v @ ?r" "?d = (pre @ ?u) @ ?v @ ?r" "?d = (pre @ ?u @ ?v) @ ?r" by simp_all
  have 1: "xz_vli ?d (length ?d) (length pre) = Ok (of_nat (fst (block_record chk b)), length pre + length ?u)"
    unfolding d(1) by (rule vli_reads) (use Cons.prems in simp_all)
  have 2: "xz_vli ?d (length ?d) (length pre + length ?u) = Ok (of_nat (snd (block_record chk b)), length pre + length ?u + length ?v)"
    using vli_reads [of "snd (block_record chk b)" "pre @ ?u" "length ?d" ?r] Cons.prems unfolding d(2) by simp
  have "xz_records ?d (length pre + length ?u + length ?v) (map (record_words chk) bs) =
      Ok (length (pre @ ?u @ ?v) + length (concat (map (\<lambda>b. record_bytes chk b) bs)))"
    using Cons.IH [of "pre @ ?u @ ?v"] Cons.prems unfolding d(3) by (simp add: add.assoc)
  moreover have "map (record_words chk) (b # bs) = record_words chk b # map (record_words chk) bs" by simp
  moreover have "length (pre @ ?u @ ?v) + length (concat (map (\<lambda>b. record_bytes chk b) bs)) = length pre + length (concat (map (\<lambda>b. record_bytes chk b) (b # bs)))" by simp
  ultimately show ?case by (simp only: xz_records.simps 1 2 andthen.simps prod.case simp_thms if_False)
qed simp

lemma index_reads:
  assumes "\<forall>b \<in> set bs. fst (block_record chk b) < 2 ^ 63 \<and> snd (block_record chk b) < 2 ^ 63" "length bs < 2 ^ 63"
  shows "xz_index (pre @ index_bytes chk bs @ post) (length pre) (map (record_words chk) bs) = Ok (length pre + length (index_bytes chk bs))"
proof -
  let ?n = "vli_bytes (length bs)" and ?r = "concat (map (\<lambda>b. record_bytes chk b) bs)"
  let ?z = "zeros4 (length (index_body chk bs))" and ?d = "pre @ index_bytes chk bs @ post"
  let ?c = "le32 (xz_crc32 (index_body chk bs @ ?z) 0)"
  have ib: "index_body chk bs = 0 # ?n @ ?r" by (simp add: index_body_def)
  have d: "?d = (pre @ [0]) @ ?n @ (?r @ ?z @ ?c @ post)" "?d = (pre @ 0 # ?n) @ ?r @ (?z @ ?c @ post)"
    "?d = (pre @ index_body chk bs) @ ?z @ (?c @ post)" by (simp_all add: index_bytes_def Let_def ib)
  let ?a1 = "length pre + 1 + length ?n" let ?a2 = "?a1 + length ?r" let ?a3 = "?a2 + length ?z"
  have 1: "xz_vli ?d (length ?d) (length pre + 1) = Ok (of_nat (length bs), ?a1)"
    using vli_reads [of "length bs" "pre @ [0]" "length ?d" "?r @ ?z @ ?c @ post"] assms(2) unfolding d(1) by simp
  have 2: "xz_records ?d ?a1 (map (record_words chk) bs) = Ok ?a2"
    using records_read [OF assms(1), of "pre @ 0 # ?n" "?z @ ?c @ post"] unfolding d(2) by (simp add: add.assoc)
  have 3: "xz_padding ?d (length pre) ?a2 = Ok ?a3"
    using padding_reads [of "length pre" "pre @ index_body chk bs" "length (index_body chk bs)" "?c @ post"] unfolding d(3) by (simp add: ib add.assoc)
  have 4: "(length ?d < length pre + length (index_bytes chk bs)) = False" by simp
  have 5: "fetches ?d (length pre) (?a3 - length pre) = Ok (index_body chk bs @ ?z)" "fetches ?d ?a3 4 = Ok ?c"
    unfolding d(3) by (simp_all add: fetches_def ib)
  have 6: "?a3 + 4 = length pre + length (index_bytes chk bs)" by (simp add: index_bytes_def Let_def ib)
  show ?thesis
    unfolding xz_index_def
    by (simp only: 1 2 3 4 5 6 andthen.simps prod.case length_map simp_thms if_False rd32_le32')
qed

lemma footer_reads:
  assumes "n mod 4 = 0" "0 < n" "n < 2 ^ 32"
  shows "xz_footer (pre @ footer_bytes chk n) (length pre) n 0 chk = Ok ()"
proof -
  let ?b = "le32 (of_nat (n div 4 - 1))" and ?d = "pre @ footer_bytes chk n"
  have len: "length (footer_bytes chk n) = 12" by (simp add: footer_bytes_def Let_def)
  have f: "fetches ?d (length pre) 12 = Ok (footer_bytes chk n)" "(length ?d < length pre + 12) = False"
    using len by (simp_all add: fetches_def)
  have m: "take 6 (drop 4 (footer_bytes chk n)) = ?b @ [0, chk]" by (simp add: footer_bytes_def Let_def)
  have c: "rd32 (footer_bytes chk n) 0 = xz_crc32 (?b @ [0, chk]) 0"
    using rd32_le32 [of "[]" "xz_crc32 (?b @ [0, chk]) 0" "?b @ [0, chk] @ [0x59, 0x5A]"] by (simp add: footer_bytes_def Let_def)
  have b: "rd32 (footer_bytes chk n) 4 = of_nat (n div 4 - 1)"
    using rd32_le32 [of "le32 (xz_crc32 (?b @ [0, chk]) 0)" "of_nat (n div 4 - 1)" "[0, chk] @ [0x59, 0x5A]"] by (simp add: footer_bytes_def Let_def)
  have nn: "(n div 4 - 1 + 1) * 4 = n" using assms by auto
  have "(of_nat (n div 4 - 1) + 1) * 4 = (of_nat ((n div 4 - 1 + 1) * 4) :: u32)" by (simp only: of_nat_add of_nat_mult of_nat_1 of_nat_numeral)
  then have s: "unat ((of_nat (n div 4 - 1) + 1) * 4 :: u32) = n" unfolding nn using assms(3) by (simp add: unat_of_nat take_bit_nat_eq_self)
  have t: "footer_bytes chk n ! 8 = 0" "footer_bytes chk n ! 9 = chk" "footer_bytes chk n ! 10 = 0x59" "footer_bytes chk n ! 11 = 0x5A"
    by (simp_all add: footer_bytes_def Let_def nth_append)
  have e: "length pre + 12 < length ?d \<longleftrightarrow> False" using len by simp
  show ?thesis
    unfolding xz_footer_def Let_def by (simp only: f andthen.simps m c b s t e simp_thms if_False)
qed

section \<open>The round trip\<close>

lemma vli_bytes_short: "n < 128 ^ Suc k \<Longrightarrow> length (vli_bytes n) \<le> Suc k"
proof (induction k arbitrary: n)
  case 0
  then show ?case by (subst vli_bytes.simps) simp
next
  case (Suc k)
  have "n div 128 < 128 ^ Suc k" using Suc.prems by (simp add: less_mult_imp_div_less mult.commute)
  then have "length (vli_bytes (n div 128)) \<le> Suc k" by (rule Suc.IH)
  then show ?case by (subst vli_bytes.simps) simp
qed

lemma vli_9: "n < 2 ^ 63 \<Longrightarrow> length (vli_bytes n) \<le> 9"
  using vli_bytes_short [of n 8] by simp

lemma records_length:
  assumes "\<forall>b \<in> set bs. fst (block_record chk b) < 2 ^ 63 \<and> snd (block_record chk b) < 2 ^ 63"
  shows "length (concat (map (\<lambda>b. record_bytes chk b) bs)) \<le> 18 * length bs"
  using assms
proof (induction bs)
  case (Cons b bs)
  then show ?case using vli_9 [of "fst (block_record chk b)"] vli_9 [of "snd (block_record chk b)"] by simp
qed simp

lemma index_length:
  assumes "\<forall>b \<in> set bs. fst (block_record chk b) < 2 ^ 63 \<and> snd (block_record chk b) < 2 ^ 63" "length bs \<le> 256"
  shows "length (index_bytes chk bs) mod 4 = 0" "0 < length (index_bytes chk bs)" "length (index_bytes chk bs) < 2 ^ 32"
proof -
  let ?n = "length (index_body chk bs)"
  have l: "length (index_bytes chk bs) = ?n + (4 - ?n mod 4) mod 4 + 4" by (simp add: index_bytes_def Let_def zeros4_def)
  have r: "r < 4 \<Longrightarrow> (r + (4 - r) mod 4) mod 4 = 0" for r :: nat by (cases "r = 0") simp_all
  have "(?n + (4 - ?n mod 4) mod 4 + 4) mod 4 = (?n mod 4 + (4 - ?n mod 4) mod 4) mod 4" by (simp add: mod_add_left_eq)
  also have "\<dots> = 0" by (rule r) simp
  finally show "length (index_bytes chk bs) mod 4 = 0" unfolding l .
  show "0 < length (index_bytes chk bs)" unfolding l by simp
  have "?n \<le> 1 + 9 + 18 * length bs"
    using records_length [OF assms(1)] vli_9 [of "length bs"] assms(2) by (simp add: index_body_def)
  moreover have "(4 - ?n mod 4) mod 4 < 4" by simp
  ultimately show "length (index_bytes chk bs) < 2 ^ 32" unfolding l using assms(2) by simp
qed

lemma record_small: "b \<in> set bs \<Longrightarrow> known_check chk \<Longrightarrow> fst (block_record chk b) \<le> length (xz_bytes chk bs) \<and> snd (block_record chk b) \<le> length (xz_bytes chk bs)"
proof -
  assume b: "b \<in> set bs"
  have s: "length (concat cs) \<le> length (stored_chunks ctl cs)" for ctl cs
    by (induction cs arbitrary: ctl) (auto simp: chunk_bytes_def intro: trans_le_add2)
  have "fst (block_record chk b) \<le> length (block_bytes chk b)" "snd (block_record chk b) \<le> length (block_bytes chk b)"
    using s [of b 1] by (simp_all add: block_record_def block_bytes_def block_head_def)
  moreover have "length (block_bytes chk b) \<le> length (concat (map (block_bytes chk) bs))"
    using b by (induction bs) auto
  ultimately show ?thesis by (simp add: xz_bytes_def)
qed

lemma stream_header_reads:
  assumes "known_check chk"
  shows "xz_stream_header ([0xFD, 0x37, 0x7A, 0x58, 0x5A, 0, 0, chk] @ le32 (xz_crc32 [0, chk] 0) @ post) = Ok (xz_check_size chk, 0, chk)"
proof -
  let ?d = "[0xFD, 0x37, 0x7A, 0x58, 0x5A, 0, 0, chk] @ le32 (xz_crc32 [0, chk] 0) @ post"
  have f: "fetches ?d 0 6 = Ok [0xFD, 0x37, 0x7A, 0x58, 0x5A, 0]" "fetch ?d 6 = Ok 0" "fetch ?d 7 = Ok chk"
    "fetches ?d 6 2 = Ok [0, chk]" "fetches ?d 8 4 = Ok (le32 (xz_crc32 [0, chk] 0))"
    by (simp_all add: fetch_def fetches_def)
  have m: "chk AND 0xF0 = 0" "chk AND 0x0F = chk" "(xz_check_size chk < 0) = False" using assms by (auto simp: xz_check_size_def)
  show ?thesis unfolding xz_stream_header_def by (simp only: f andthen.simps rd32_le32' m simp_thms if_False)
qed

lemma xz_reads:
  assumes "known_check chk" "length bs \<le> 256" "\<forall>cs \<in> set bs. \<forall>c \<in> set cs. c \<noteq> [] \<and> length c \<le> 65536"
    "length (xz_bytes chk bs) < 2 ^ 63" "length (concat (map concat bs)) \<le> sz"
  shows "afpkg_xz (Some (xz_bytes chk bs)) (Some sz) True = Ok (concat (map concat bs))"
proof -
  let ?d = "xz_bytes chk bs" and ?h = "[0xFD, 0x37, 0x7A, 0x58, 0x5A, 0, 0, chk] @ le32 (xz_crc32 [0, chk] 0)"
  let ?bl = "concat (map (block_bytes chk) bs)" and ?ix = "index_bytes chk bs" and ?w = "concat (map concat bs)"
  have small: "\<forall>b \<in> set bs. fst (block_record chk b) < 2 ^ 63 \<and> snd (block_record chk b) < 2 ^ 63"
    using record_small [OF _ assms(1)] assms(4) by (meson le_less_trans)
  obtain ix where ix: "?ix = 0 # ix" by (simp add: index_bytes_def index_body_def Let_def)
  have d: "?d = ?h @ ?bl @ ?ix @ footer_bytes chk (length ?ix)" by (simp add: xz_bytes_def)
  have hl: "length ?h = 12" by simp
  have 0: "(length ?d < 24) = False" using index_length(2) [OF small assms(2)] by (simp add: d footer_bytes_def Let_def)
  have 1: "xz_stream_header ?d = Ok (xz_check_size chk, 0, chk)"
    unfolding d using stream_header_reads [OF assms(1), of "?bl @ ?ix @ footer_bytes chk (length ?ix)"] by simp
  have 2: "xz_blocks ?d (xz_check_size chk) 12 \<lparr>xo_bytes = [], xo_size = sz, xo_full = False\<rparr> [] =
     Ok (12 + length ?bl, \<lparr>xo_bytes = ?w, xo_size = sz, xo_full = False\<rparr>, map (record_words chk) bs)"
    using blocks_read [OF assms(1), of bs "[]" "\<lparr>xo_bytes = [], xo_size = sz, xo_full = False\<rparr>" ?h "ix @ footer_bytes chk (length ?ix)"] assms(2,3,5)
    unfolding d ix by (simp add: chunks_ok_def)
  have 3: "xz_index ?d (12 + length ?bl) (map (record_words chk) bs) = Ok (12 + length ?bl + length ?ix)"
    using index_reads [OF small, of "?h @ ?bl" "footer_bytes chk (length ?ix)"] assms(2) unfolding d by (simp add: add.assoc)
  have 4: "xz_footer ?d (12 + length ?bl + length ?ix) (length ?ix) 0 chk = Ok ()"
    using footer_reads [OF index_length [OF small assms(2)], of "?h @ ?bl @ ?ix" chk] unfolding d by (simp add: add.assoc)
  have 5: "12 + length ?bl + length ?ix - (12 + length ?bl) = length ?ix" by simp
  show ?thesis
    unfolding afpkg_xz_def option.case prod.case
    by (simp only: 0 1 2 3 4 5 andthen.simps prod.case simp_thms if_False xout.simps)
qed


text \<open>
  Whatever data is written in the .xz container with stored chunks, in up to 256 blocks and with any of the
  three checks, comes back.
\<close>

theorem xz_roundtrip:
  assumes "known_check chk" "length bs \<le> 256" "\<forall>cs \<in> set bs. \<forall>c \<in> set cs. c \<noteq> [] \<and> length c \<le> 65536"
    "length (xz_bytes chk bs) < 2 ^ 63" "length (concat (map concat bs)) \<le> sz"
  shows "afpkg_xz (Some (xz_bytes chk bs)) (Some sz) True = Ok (concat (map concat bs))"
  using assms by (rule xz_reads)

lemma xz_roundtrip_witness: "afpkg_xz (Some (xz_bytes 4 [[[7, 9], [1]], [[5]]])) (Some 4) True = Ok [7, 9, 1, 5]"
proof -
  have "length (xz_bytes 4 [[[7, 9], [1]], [[5]]]) < 2 ^ 63"
    by (simp add: xz_bytes_def block_bytes_def block_head_def chunk_bytes_def zeros4_def check_bytes_def index_bytes_def index_body_def
      block_record_def footer_bytes_def vli_bytes.simps Let_def)
  then show ?thesis using xz_roundtrip [of 4 "[[[7, 9], [1]], [[5]]]" 4] by simp
qed

end
