(* ===== verification/Afpkg.thy ===== *)
theory Afpkg
  imports Inflate Binfmt Xz
begin

text \<open>
  The package reader (\<open>libs/libafpkg/afpkg.c\<close>): ar, gzip and tar, the control files of Debian and Alpine, and
  the three package formats built from them. A pointer into a buffer with its length is the list of bytes it
  points to; \<open>Fault\<close> is a read outside it. Strings are the bytes before the terminator. The Zstandard
  decompressor is an argument; the explanations in prose (\<open>why\<close>, \<open>error\<close>) are left out, and so is what a
  package structure holds after an error, beyond not being valid.
\<close>

section \<open>Strings and numbers\<close>

abbreviation (input) "is_blank \<equiv> (\<lambda>c :: u8. c = 0x20 \<or> c = 0x09)"

definition starts_with :: "u8 list \<Rightarrow> u8 list \<Rightarrow> bool" where
  "starts_with s pre \<longleftrightarrow> take (length pre) s = pre"

definition lower :: "u8 \<Rightarrow> u8" where
  "lower c = (if 0x41 \<le> c \<and> c \<le> 0x5A then c - 0x41 + 0x61 else c)"

fun case_starts_with :: "u8 list \<Rightarrow> u8 list \<Rightarrow> bool" where
  "case_starts_with s [] = True"
| "case_starts_with [] (p # ps) = False"
| "case_starts_with (c # s) (p # ps) = (if lower c \<noteq> lower p then False else case_starts_with s ps)"

text \<open>
  \<open>copy_trim\<close>: at most \<open>dst_size - 1\<close> bytes, white space at the end cut off; the string is what stands before
  the first zero.
\<close>

definition copy_trim :: "nat \<Rightarrow> u8 list \<Rightarrow> u8 list" where
  "copy_trim dst_size src =
     cstr (rev (dropWhile (\<lambda>c. c = 0x20 \<or> c = 0x09 \<or> c = 0x0D \<or> c = 0x0A) (rev (take (dst_size - 1) src))))"

definition parse_ascii_dec :: "u8 list \<Rightarrow> u64" where
  "parse_ascii_dec p =
     fold (\<lambda>c v. v * 10 + ucast (c - 0x30)) (takeWhile (\<lambda>c. 0x30 \<le> c \<and> c \<le> 0x39) (dropWhile (\<lambda>c. c = 0x20) p)) 0"

definition parse_octal :: "u8 list \<Rightarrow> u64" where
  "parse_octal p =
     fold (\<lambda>c v. v * 8 + ucast (c - 0x30)) (takeWhile (\<lambda>c. 0x30 \<le> c \<and> c \<le> 0x37) (dropWhile (\<lambda>c. c = 0x20 \<or> c = 0) p)) 0"

section \<open>ar\<close>

abbreviation (input) "AR_MAGIC \<equiv> ascii ''!<arch>'' @ [0x0A]"

text \<open>The walk over the members; \<open>hit\<close> decides whether a member of that name is the one looked for.\<close>

function ar_walk :: "(u8 list \<Rightarrow> bool) \<Rightarrow> u8 list \<Rightarrow> nat \<Rightarrow> u8 list outcome" where
  "ar_walk hit data at =
     (if length data < at + 60 then Fail AF_ERR_NOENT
      else andthen (fetches data at 60) (\<lambda>header.
        if header ! 58 \<noteq> 0x60 \<or> header ! 59 \<noteq> 0x0A then Fail AF_ERR_FS_CORRUPT
        else let member = copy_trim 17 (take 16 header);
                 size = unat (parse_ascii_dec (take 10 (drop 48 header)));
                 payload = at + 60 in
        if length data < size \<or> length data < payload \<or> length data - payload < size then Fail AF_ERR_FS_CORRUPT
        else if hit member then fetches data payload size
        else ar_walk hit data (payload + (if size mod 2 \<noteq> 0 then size + 1 else size))))"
  by auto
termination by (relation "measure (\<lambda>(hit, data, at). length data - at)") (auto simp: fetches_def split: if_splits)

declare ar_walk.simps [simp del]

definition ar_open :: "(u8 list \<Rightarrow> bool) \<Rightarrow> u8 list option \<Rightarrow> u8 list outcome" where
  "ar_open hit data =
     (case data of
        None \<Rightarrow> Fail AF_ERR_INVAL
      | Some d \<Rightarrow>
          if length d < 8 then Fail AF_ERR_INVAL
          else andthen (fetches d 0 8) (\<lambda>m. if m \<noteq> AR_MAGIC then Fail AF_ERR_INVAL else ar_walk hit d 8))"

definition afpkg_ar_find :: "u8 list option \<Rightarrow> u8 list \<Rightarrow> u8 list outcome" where
  "afpkg_ar_find data name = ar_open (\<lambda>member. member = name) data"

definition afpkg_ar_find_control :: "u8 list option \<Rightarrow> u8 list outcome" where
  "afpkg_ar_find_control data = ar_open (\<lambda>member. starts_with member (ascii ''control.tar'')) data"

section \<open>gzip\<close>

record afpkg_scratch =
  sc_base :: bool
  sc_size :: nat

text \<open>The position behind a zero-terminated field.\<close>

function skip_string :: "u8 list \<Rightarrow> nat \<Rightarrow> nat" where
  "skip_string data at = (if at < length data \<and> data ! at \<noteq> 0 then skip_string data (at + 1) else at + 1)"
  by auto
termination by (relation "measure (\<lambda>(data, at). length data - at)") auto

declare skip_string.simps [simp del]

text \<open>The optional fields of the header: the position behind them.\<close>

definition gzip_extra :: "u8 list \<Rightarrow> u8 \<Rightarrow> nat outcome" where
  "gzip_extra data flg =
     (if flg AND 0x04 \<noteq> 0
      then (if \<not> region_ok data 10 2 then Fail AF_ERR_FS_CORRUPT
            else andthen (fetch data 10) (\<lambda>lo. andthen (fetch data 11) (\<lambda>hi.
              let xlen = unat lo + unat hi * 256 in
              if \<not> region_ok data 12 xlen then Fail AF_ERR_FS_CORRUPT else Ok (12 + xlen))))
      else Ok 10)"

definition gzip_fields :: "u8 list \<Rightarrow> u8 \<Rightarrow> nat outcome" where
  "gzip_fields data flg =
     andthen (gzip_extra data flg) (\<lambda>at0.
       let at1 = (if flg AND 0x08 \<noteq> 0 then skip_string data at0 else at0);
           at2 = (if flg AND 0x10 \<noteq> 0 then skip_string data at1 else at1)
       in Ok (if flg AND 0x02 \<noteq> 0 then at2 + 2 else at2))"

text \<open>One member: the bytes produced and the number of bytes consumed.\<close>

definition afpkg_gunzip_member :: "u8 list option \<Rightarrow> afpkg_scratch \<Rightarrow> (u8 list \<times> nat) outcome" where
  "afpkg_gunzip_member data scratch =
     (case data of
        None \<Rightarrow> Fail AF_ERR_INVAL
      | Some d \<Rightarrow>
          if length d < 18 then Fail AF_ERR_INVAL
          else andthen (fetches d 0 4) (\<lambda>h.
            if h ! 0 \<noteq> 0x1F \<or> h ! 1 \<noteq> 0x8B then Fail AF_ERR_INVAL
            else if h ! 2 \<noteq> 8 then Fail AF_ERR_NOTSUP
            else let flg = h ! 3 in
            if flg AND 0xE0 \<noteq> 0 then Fail AF_ERR_FS_CORRUPT
            else andthen (gzip_fields d flg) (\<lambda>at.
              if \<not> sc_base scratch \<or> sc_size scratch = 0 then Fail AF_ERR_INVAL
              else if length d < at + 8 then Fail AF_ERR_FS_CORRUPT
              else andthen (afpkg_inflate (Some (drop at d)) (Some (sc_size scratch)) True) (\<lambda>(produced, deflate_used).
                if \<not> region_ok d (at + deflate_used) 8 then Fail AF_ERR_FS_CORRUPT
                else andthen (fetches d (at + deflate_used) 8) (\<lambda>trailer.
                  let want_crc = rd32 trailer 0; want_size = rd32 trailer 4 in
                  if want_size \<noteq> of_nat (length produced) then Fail AF_ERR_FS_CORRUPT
                  else if crc32_bytes produced \<noteq> want_crc then Fail AF_ERR_FS_CORRUPT
                  else Ok (produced, at + deflate_used + 8))))))"

definition afpkg_gunzip :: "u8 list option \<Rightarrow> afpkg_scratch \<Rightarrow> u8 list outcome" where
  "afpkg_gunzip data scratch = andthen (afpkg_gunzip_member data scratch) (\<lambda>(produced, consumed). Ok produced)"

section \<open>tar\<close>

record af_pkg_entry =
  path :: "u8 list"
  file_size :: u64
  mode :: u32
  is_directory :: bool

definition tar_block_is_zero :: "u8 list \<Rightarrow> bool" where
  "tar_block_is_zero block \<longleftrightarrow> (\<forall>c \<in> set block. c = 0)"

fun strip_dot_slash :: "u8 list \<Rightarrow> u8 list" where
  "strip_dot_slash s = (case s of a # b # s1 \<Rightarrow> if a = 0x2E \<and> b = 0x2F then strip_dot_slash s1 else s | _ \<Rightarrow> s)"

declare strip_dot_slash.simps [simp del]

definition normalise_path :: "nat \<Rightarrow> u8 list \<Rightarrow> u8 list" where
  "normalise_path dst_size src = strlcpy_bytes dst_size (strip_dot_slash src)"

function tar_skip_zero :: "u8 list \<Rightarrow> nat \<Rightarrow> nat outcome" where
  "tar_skip_zero data at =
     (if region_ok data at 512
      then andthen (fetches data at 512) (\<lambda>block.
        if tar_block_is_zero block then tar_skip_zero data (at + 512) else Ok at)
      else Ok at)"
  by auto
termination by (relation "measure (\<lambda>(data, at). length data - at)") (auto simp: region_ok_def)

declare tar_skip_zero.simps [simp del]

text \<open>
  The next entry from the cursor on. \<open>Ok (c, Some e)\<close> is an entry with its contents, \<open>Ok (c, None)\<close> one that is
  skipped (\<open>AF_ERR_AGAIN\<close>); \<open>c\<close> is the new cursor, which the failures leave alone.
\<close>

definition afpkg_tar_next :: "u8 list \<Rightarrow> nat \<Rightarrow> (nat \<times> (af_pkg_entry \<times> u8 list) option) outcome" where
  "afpkg_tar_next data cursor =
     andthen (tar_skip_zero data cursor) (\<lambda>at.
       if \<not> region_ok data at 512 then Fail AF_ERR_NOENT
       else andthen (fetches data at 512) (\<lambda>header.
         let size = parse_octal (take 12 (drop 124 header));
             ftype = header ! 156;
             name = normalise_path 192 (copy_trim 101 (take 100 header));
             payload = at + 512 in
         if length data < unat size \<or> length data < payload \<or> length data - payload < unat size then Fail AF_ERR_FS_CORRUPT
         else let cursor1 = at + (512 + unat size + 511) div 512 * 512 in
         if ftype = 0x4C \<or> ftype = 0x4B \<or> ftype = 0x78 \<or> ftype = 0x67 then Ok (cursor1, None)
         else let is_dir = ftype = 0x35 \<or> (name \<noteq> [] \<and> last name = 0x2F);
                  is_file = ftype = 0x30 \<or> ftype = 0 in
         if \<not> is_dir \<and> \<not> is_file then Ok (cursor1, None)
         else andthen (fetches data payload (if is_dir then 0 else unat size)) (\<lambda>contents.
           Ok (cursor1, Some (\<lparr>path = strlcpy_bytes 192 name, file_size = (if is_dir then 0 else size),
                              mode = ucast (parse_octal (take 8 (drop 100 header))), is_directory = is_dir\<rparr>, contents)))))"

section \<open>The control files\<close>

datatype af_script_kind =
    AF_SCRIPT_NONE | AF_SCRIPT_PRE_INSTALL | AF_SCRIPT_POST_INSTALL | AF_SCRIPT_PRE_UPGRADE
  | AF_SCRIPT_POST_UPGRADE | AF_SCRIPT_PRE_DEINSTALL | AF_SCRIPT_POST_DEINSTALL | AF_SCRIPT_TRIGGER

text \<open>The arrays with a counter beside them are lists.\<close>

record af_pkg_info =
  pkg_name :: "u8 list"
  version :: "u8 list"
  architecture :: "u8 list"
  maintainer :: "u8 list"
  description :: "u8 list"
  installed_size :: u64
  depends :: "u8 list list"
  provides :: "u8 list list"
  scripts :: "(af_script_kind \<times> u8 list) list"

definition empty_info :: af_pkg_info where
  "empty_info = \<lparr>pkg_name = [], version = [], architecture = [], maintainer = [], description = [],
     installed_size = 0, depends = [], provides = [], scripts = []\<rparr>"

abbreviation (input) "AFPKG_MAX_DEPENDS \<equiv> (16 :: nat)"
abbreviation (input) "AFPKG_MAX_SCRIPTS \<equiv> (8 :: nat)"
abbreviation (input) "AFPKG_DESCRIPTION_LEN \<equiv> (256 :: nat)"

definition set_depends :: "u8 list \<Rightarrow> af_pkg_info \<Rightarrow> af_pkg_info" where
  "set_depends value info =
     (if AFPKG_MAX_DEPENDS \<le> length (depends info) then info
      else info\<lparr>depends := depends info @ [copy_trim AFPKG_DESCRIPTION_LEN value]\<rparr>)"

definition set_provides :: "u8 list \<Rightarrow> af_pkg_info \<Rightarrow> af_pkg_info" where
  "set_provides value info =
     (if length (provides info) < AFPKG_MAX_DEPENDS
      then info\<lparr>provides := provides info @ [copy_trim 64 value]\<rparr> else info)"

text \<open>What one line of a Debian control file does.\<close>

definition control_field :: "u8 list \<Rightarrow> u8 list \<Rightarrow> af_pkg_info \<Rightarrow> af_pkg_info" where
  "control_field field value info =
     (if case_starts_with field (ascii ''Package'') then info\<lparr>pkg_name := copy_trim 64 value\<rparr>
      else if case_starts_with field (ascii ''Version'') then info\<lparr>version := copy_trim 64 value\<rparr>
      else if case_starts_with field (ascii ''Architecture'') then info\<lparr>architecture := copy_trim 32 value\<rparr>
      else if case_starts_with field (ascii ''Maintainer'') then info\<lparr>maintainer := copy_trim 96 value\<rparr>
      else if case_starts_with field (ascii ''Description'') then info\<lparr>description := copy_trim AFPKG_DESCRIPTION_LEN value\<rparr>
      else if case_starts_with field (ascii ''Installed-Size'') then info\<lparr>installed_size := parse_ascii_dec value\<rparr>
      else if case_starts_with field (ascii ''Depends'') then set_depends value info
      else if case_starts_with field (ascii ''Provides'') then set_provides value info
      else info)"

definition control_line :: "u8 list \<Rightarrow> af_pkg_info \<Rightarrow> af_pkg_info" where
  "control_line line info =
     (if line \<noteq> [] \<and> is_blank (hd line)
      then (if description info \<noteq> []
            then (let used = length (description info) in
                  if used + 1 < AFPKG_DESCRIPTION_LEN
                  then info\<lparr>description := description info @ [0x20] @ copy_trim (AFPKG_DESCRIPTION_LEN - used - 1) (tl line)\<rparr>
                  else info)
            else info)
      else let colon = length (takeWhile (\<lambda>c. c \<noteq> 0x3A) line) in
           if colon < length line
           then control_field (copy_trim 64 (take colon line)) (dropWhile is_blank (drop (colon + 1) line)) info
           else info)"

text \<open>The loop over the lines: up to the end of the text, or an empty line.\<close>

function control_lines :: "u8 list \<Rightarrow> af_pkg_info \<Rightarrow> af_pkg_info" where
  "control_lines text info =
     (if text = [] \<or> hd text = 0x0A then info
      else let line = takeWhile (\<lambda>c. c \<noteq> 0x0A) text in
           control_lines (drop (length line + 1) text) (control_line line info))"
  by auto
termination by (relation "measure (\<lambda>(text, info). length text)") auto

declare control_lines.simps [simp del]

definition afpkg_parse_control :: "u8 list \<Rightarrow> af_pkg_info" where
  "afpkg_parse_control text = control_lines text empty_info"

text \<open>Alpine: \<open>key = value\<close>, comments, no continuation lines.\<close>

definition pkginfo_key :: "u8 list \<Rightarrow> u8 list \<Rightarrow> af_pkg_info \<Rightarrow> af_pkg_info" where
  "pkginfo_key key value info =
     (if key = ascii ''pkgname'' then info\<lparr>pkg_name := copy_trim 64 value\<rparr>
      else if key = ascii ''pkgver'' then info\<lparr>version := copy_trim 64 value\<rparr>
      else if key = ascii ''arch'' then info\<lparr>architecture := copy_trim 32 value\<rparr>
      else if key = ascii ''packager'' then info\<lparr>maintainer := copy_trim 96 value\<rparr>
      else if key = ascii ''pkgdesc'' then info\<lparr>description := copy_trim AFPKG_DESCRIPTION_LEN value\<rparr>
      else if key = ascii ''size'' then info\<lparr>installed_size := parse_ascii_dec value\<rparr>
      else if key = ascii ''depend'' then set_depends value info
      else if key = ascii ''provides'' then set_provides value info
      else info)"

definition pkginfo_line :: "u8 list \<Rightarrow> af_pkg_info \<Rightarrow> af_pkg_info" where
  "pkginfo_line line info =
     (let line1 = dropWhile (\<lambda>c. is_blank c \<or> c = 0x0D) line in
      if line1 \<noteq> [] \<and> hd line1 \<noteq> 0x23
      then (let eq = length (takeWhile (\<lambda>c. c \<noteq> 0x3D) line1) in
            if eq < length line1
            then pkginfo_key (copy_trim 64 (take eq line1)) (dropWhile is_blank (drop (eq + 1) line1)) info
            else info)
      else info)"

function afpkg_parse_pkginfo :: "u8 list \<Rightarrow> af_pkg_info \<Rightarrow> af_pkg_info" where
  "afpkg_parse_pkginfo text info =
     (if text = [] then info
      else let line = takeWhile (\<lambda>c. c \<noteq> 0x0A) text in
           afpkg_parse_pkginfo (drop (length line + 1) text) (pkginfo_line line info))"
  by auto
termination by (relation "measure (\<lambda>(text, info). length text)") auto

declare afpkg_parse_pkginfo.simps [simp del]

section \<open>Packages\<close>

record af_pkg =
  info :: af_pkg_info
  pkg_format :: af_binfmt
  valid :: bool
  data_tar :: "u8 list option"

text \<open>Entries at the root of an Alpine archive whose name begins with a dot.\<close>

definition apk_metadata_entry :: "u8 list \<Rightarrow> bool" where
  "apk_metadata_entry p \<longleftrightarrow> p \<noteq> [] \<and> hd p = 0x2E \<and> 0x2F \<notin> set (tl p)"

definition apk_script_kind :: "u8 list \<Rightarrow> af_script_kind" where
  "apk_script_kind p =
     (if p = ascii ''.pre-install'' then AF_SCRIPT_PRE_INSTALL
      else if p = ascii ''.post-install'' then AF_SCRIPT_POST_INSTALL
      else if p = ascii ''.pre-upgrade'' then AF_SCRIPT_PRE_UPGRADE
      else if p = ascii ''.post-upgrade'' then AF_SCRIPT_POST_UPGRADE
      else if p = ascii ''.pre-deinstall'' then AF_SCRIPT_PRE_DEINSTALL
      else if p = ascii ''.post-deinstall'' then AF_SCRIPT_POST_DEINSTALL
      else if p = ascii ''.trigger'' then AF_SCRIPT_TRIGGER
      else AF_SCRIPT_NONE)"

text \<open>The members of an Alpine package, inflated one behind the other: \<open>out\<close> is the scratch buffer so far.\<close>

function apk_members :: "u8 list \<Rightarrow> afpkg_scratch \<Rightarrow> nat \<Rightarrow> u8 list \<Rightarrow> u8 list outcome" where
  "apk_members data scratch offset out =
     (if length data \<le> offset then Ok out
      else if sc_size scratch \<le> length out then Fail AF_ERR_TOOMANY
      else andthen (afpkg_gunzip_member (Some (drop offset data)) (scratch\<lparr>sc_size := sc_size scratch - length out\<rparr>)) (\<lambda>(produced, consumed).
        if consumed = 0 then Fail AF_ERR_FS_CORRUPT
        else apk_members data scratch (offset + consumed) (out @ produced)))"
  by auto
termination by (relation "measure (\<lambda>(data, scratch, offset, out). length data - offset)") auto

declare apk_members.simps [simp del]

text \<open>Every entry lies behind the cursor and moves it: the walks over a tar end.\<close>

lemma skip_zero_grows: "tar_skip_zero data at = Ok at1 \<Longrightarrow> at \<le> at1"
proof (induction data at rule: tar_skip_zero.induct)
  case (1 data at)
  show ?case
    using 1(2) by (subst (asm) tar_skip_zero.simps) (auto simp: andthen_eq_Ok split: if_splits dest: 1(1))
qed

lemma tar_next_grows:
  assumes "afpkg_tar_next data c = Ok (c1, r)"
  shows "c < length data" "c < c1"
proof -
  obtain at where at: "tar_skip_zero data c = Ok at" "region_ok data at 512"
    using assms unfolding afpkg_tar_next_def by (auto simp: andthen_eq_Ok split: if_splits)
  then have le: "c \<le> at" "at + 512 \<le> length data" using skip_zero_grows by (auto simp: region_ok_def)
  then show "c < length data" by simp
  have "512 \<le> (512 + n + 511) div 512 * 512" for n :: nat by auto
  then have "at < at + (512 + n + 511) div 512 * 512" for n :: nat by (metis less_add_same_cancel1 less_le_trans zero_less_numeral)
  moreover have "\<exists>n. c1 = at + (512 + n + 511) div 512 * 512"
    using assms unfolding afpkg_tar_next_def at(1) by (auto simp: andthen_eq_Ok Let_def split: if_splits)
  ultimately show "c < c1" using le(1) by (metis le_less_trans)
qed

lemma tar_next_less: "afpkg_tar_next tar c = Ok (a, r) \<Longrightarrow> length tar - a < length tar - c"
  using tar_next_grows [of tar c a r] by simp

text \<open>The walk that collects the description and the scripts of an Alpine package.\<close>

function apk_walk :: "u8 list \<Rightarrow> nat \<Rightarrow> af_pkg_info \<Rightarrow> bool \<Rightarrow> (af_pkg_info \<times> bool) outcome" where
  "apk_walk tar c pinfo found =
     (case afpkg_tar_next tar c of
        Fault \<Rightarrow> Fault
      | Fail e \<Rightarrow> Ok (pinfo, found)
      | Ok (c1, None) \<Rightarrow> apk_walk tar c1 pinfo found
      | Ok (c1, Some (entry, contents)) \<Rightarrow>
          if path entry = ascii ''.PKGINFO''
          then (if 16 * 1024 < length contents then Fail AF_ERR_FS_CORRUPT
                else apk_walk tar c1 (afpkg_parse_pkginfo contents pinfo) True)
          else if apk_metadata_entry (path entry)
          then (let kind = apk_script_kind (path entry) in
                if kind = AF_SCRIPT_NONE then apk_walk tar c1 pinfo found
                else if length (scripts pinfo) < AFPKG_MAX_SCRIPTS
                then apk_walk tar c1 (pinfo\<lparr>scripts := scripts pinfo @ [(kind, contents)]\<rparr>) found
                else Fail AF_ERR_TOOMANY)
          else apk_walk tar c1 pinfo found)"
  by pat_completeness auto
termination by (relation "measure (\<lambda>(tar, c, pinfo, found). length tar - c)") (auto intro: tar_next_less dest: sym)

declare apk_walk.simps [simp del]

definition read_apk :: "u8 list \<Rightarrow> afpkg_scratch option \<Rightarrow> af_pkg \<Rightarrow> af_pkg outcome" where
  "read_apk data scratch pk =
     (case scratch of
        None \<Rightarrow> Fail AF_ERR_INVAL
      | Some sc \<Rightarrow>
          andthen (fetches data 0 2) (\<lambda>m.
            if m \<noteq> [0x1F, 0x8B] then Fail AF_ERR_INVAL
            else andthen (apk_members data sc 0 []) (\<lambda>tar.
              if tar = [] then Fail AF_ERR_FS_CORRUPT
              else andthen (apk_walk tar 0 empty_info False) (\<lambda>(pinfo, found).
                if \<not> found then Fail AF_ERR_INVAL
                else if pkg_name pinfo = [] \<or> version pinfo = [] then Fail AF_ERR_FS_CORRUPT
                else Ok (pk\<lparr>info := pinfo, data_tar := Some tar, pkg_format := AF_BINFMT_APK_PKG\<rparr>)))))"

text \<open>One member of a Debian package, decompressed according to its first bytes.\<close>

definition afpkg_member_decompress ::
    "(u8 list option \<Rightarrow> nat option \<Rightarrow> bool \<Rightarrow> u8 list outcome) \<Rightarrow> u8 list \<Rightarrow> afpkg_scratch option \<Rightarrow> u8 list outcome" where
  "afpkg_member_decompress afpkg_zstd member scratch =
     (let is_gzip = starts_with member [0x1F, 0x8B];
          is_zstd = starts_with member [0x28, 0xB5, 0x2F, 0xFD];
          is_xz = starts_with member [0xFD, 0x37, 0x7A, 0x58, 0x5A, 0];
          is_bzip2 = starts_with member [0x42, 0x5A, 0x68] in
      if is_bzip2 then Fail AF_ERR_NOTSUP
      else if \<not> is_gzip \<and> \<not> is_zstd \<and> \<not> is_xz then Ok member
      else case scratch of
        None \<Rightarrow> Fail AF_ERR_INVAL
      | Some sc \<Rightarrow>
          if is_gzip then afpkg_gunzip (Some member) sc
          else if is_zstd then afpkg_zstd (Some member) (if sc_base sc then Some (sc_size sc) else None) True
          else afpkg_xz (Some member) (if sc_base sc then Some (sc_size sc) else None) True)"

text \<open>The walk that looks for one file: its contents, if it is there before the archive ends or is broken.\<close>

function tar_find :: "u8 list \<Rightarrow> u8 list \<Rightarrow> nat \<Rightarrow> u8 list option outcome" where
  "tar_find name tar c =
     (case afpkg_tar_next tar c of
        Fault \<Rightarrow> Fault
      | Fail e \<Rightarrow> Ok None
      | Ok (c1, None) \<Rightarrow> tar_find name tar c1
      | Ok (c1, Some (entry, contents)) \<Rightarrow> if path entry = name then Ok (Some contents) else tar_find name tar c1)"
  by pat_completeness auto
termination by (relation "measure (\<lambda>(name, tar, c). length tar - c)") (auto intro: tar_next_less dest: sym)

declare tar_find.simps [simp del]

text \<open>The first of several names under which an archive has a member; the last error when it has none of them.\<close>

fun first_member :: "u8 list \<Rightarrow> u8 list list \<Rightarrow> af_status \<Rightarrow> u8 list outcome" where
  "first_member data [] rc = Fail rc"
| "first_member data (n # names) rc =
     (case afpkg_ar_find (Some data) n of Ok m \<Rightarrow> Ok m | Fail e \<Rightarrow> first_member data names e | Fault \<Rightarrow> Fault)"

definition read_deb ::
    "(u8 list option \<Rightarrow> nat option \<Rightarrow> bool \<Rightarrow> u8 list outcome) \<Rightarrow> u8 list \<Rightarrow> afpkg_scratch option \<Rightarrow> af_pkg \<Rightarrow> af_pkg outcome" where
  "read_deb afpkg_zstd data scratch pk =
     (case afpkg_ar_find (Some data) (ascii ''debian-binary'') of
        Fault \<Rightarrow> Fault
      | Fail _ \<Rightarrow> Fail AF_ERR_INVAL
      | Ok ver \<Rightarrow>
          if length ver < 3 then Fail AF_ERR_NOTSUP
          else andthen (fetches ver 0 2) (\<lambda>v2.
            if v2 \<noteq> ascii ''2.'' then Fail AF_ERR_NOTSUP
            else andthen (afpkg_ar_find_control (Some data)) (\<lambda>control.
              andthen (afpkg_member_decompress afpkg_zstd control scratch) (\<lambda>control_tar.
                andthen (tar_find (ascii ''control'') control_tar 0) (\<lambda>file.
                  case file of
                    None \<Rightarrow> Fail AF_ERR_FS_CORRUPT
                  | Some contents \<Rightarrow>
                      let pinfo = afpkg_parse_control contents in
                      if pkg_name pinfo = [] then Fail AF_ERR_FS_CORRUPT
                      else if version pinfo = [] then Fail AF_ERR_FS_CORRUPT
                      else andthen (first_member data
                          [ascii ''data.tar.gz'', ascii ''data.tar.zst'', ascii ''data.tar.xz'', ascii ''data.tar''] AF_ERR_NOENT) (\<lambda>data_member.
                        andthen (afpkg_member_decompress afpkg_zstd data_member scratch) (\<lambda>tar.
                          Ok (pk\<lparr>info := pinfo, data_tar := Some tar, pkg_format := AF_BINFMT_DEB\<rparr>))))))))"

definition read_pacman ::
    "(u8 list option \<Rightarrow> nat option \<Rightarrow> bool \<Rightarrow> u8 list outcome) \<Rightarrow> u8 list \<Rightarrow> afpkg_scratch option \<Rightarrow> af_pkg \<Rightarrow> af_pkg outcome" where
  "read_pacman afpkg_zstd data scratch pk =
     (case scratch of
        None \<Rightarrow> Fail AF_ERR_INVAL
      | Some sc \<Rightarrow>
          andthen (afpkg_zstd (Some data) (if sc_base sc then Some (sc_size sc) else None) True) (\<lambda>tar.
            andthen (tar_find (ascii ''.PKGINFO'') tar 0) (\<lambda>file.
              case file of
                None \<Rightarrow> Fail AF_ERR_NOENT
              | Some contents \<Rightarrow>
                  let pinfo = afpkg_parse_pkginfo contents (info pk) in
                  if pkg_name pinfo = [] then Fail AF_ERR_FS_CORRUPT
                  else Ok (pk\<lparr>info := pinfo, data_tar := Some tar, pkg_format := AF_BINFMT_PACMAN\<rparr>))))"

text \<open>The first bytes of the file decide the reader.\<close>

definition afpkg_open ::
    "(u8 list option \<Rightarrow> nat option \<Rightarrow> bool \<Rightarrow> u8 list outcome) \<Rightarrow> u8 list option \<Rightarrow> afpkg_scratch option \<Rightarrow> bool \<Rightarrow> af_pkg outcome" where
  "afpkg_open afpkg_zstd data scratch has_out =
     (if \<not> has_out then Fail AF_ERR_INVAL
      else let pk = \<lparr>info = empty_info, pkg_format = AF_BINFMT_UNKNOWN, valid = False, data_tar = None\<rparr> in
      case data of
        None \<Rightarrow> Fail AF_ERR_INVAL
      | Some d \<Rightarrow>
          if d = [] then Fail AF_ERR_INVAL
          else andthen (if starts_with d [0x1F, 0x8B] then read_apk d scratch pk
                        else if starts_with d [0x28, 0xB5, 0x2F, 0xFD] then read_pacman afpkg_zstd d scratch pk
                        else read_deb afpkg_zstd d scratch pk) (\<lambda>pk1. Ok (pk1\<lparr>valid := True\<rparr>)))"

definition afpkg_script_name :: "af_script_kind \<Rightarrow> string" where
  "afpkg_script_name kind =
     (case kind of AF_SCRIPT_NONE \<Rightarrow> ''none'' | AF_SCRIPT_PRE_INSTALL \<Rightarrow> ''pre-install'' | AF_SCRIPT_POST_INSTALL \<Rightarrow> ''post-install''
      | AF_SCRIPT_PRE_UPGRADE \<Rightarrow> ''pre-upgrade'' | AF_SCRIPT_POST_UPGRADE \<Rightarrow> ''post-upgrade''
      | AF_SCRIPT_PRE_DEINSTALL \<Rightarrow> ''pre-deinstall'' | AF_SCRIPT_POST_DEINSTALL \<Rightarrow> ''post-deinstall'' | AF_SCRIPT_TRIGGER \<Rightarrow> ''trigger'')"

definition afpkg_iter_begin :: nat where
  "afpkg_iter_begin = 0"

text \<open>The next file to install and the new cursor; \<open>None\<close> when the walk is over.\<close>

function iter_loop :: "af_binfmt \<Rightarrow> u8 list \<Rightarrow> nat \<Rightarrow> (nat \<times> af_pkg_entry option) outcome" where
  "iter_loop fmt tar c =
     (case afpkg_tar_next tar c of
        Fault \<Rightarrow> Fault
      | Fail e \<Rightarrow> Ok (c, None)
      | Ok (c1, None) \<Rightarrow> iter_loop fmt tar c1
      | Ok (c1, Some (entry, contents)) \<Rightarrow>
          if (fmt = AF_BINFMT_APK_PKG \<or> fmt = AF_BINFMT_PACMAN) \<and> apk_metadata_entry (path entry) then iter_loop fmt tar c1
          else Ok (c1, Some entry))"
  by pat_completeness auto
termination by (relation "measure (\<lambda>(fmt, tar, c). length tar - c)") (auto intro: tar_next_less dest: sym)

declare iter_loop.simps [simp del]

definition afpkg_iter_next :: "af_pkg option \<Rightarrow> nat option \<Rightarrow> (nat \<times> af_pkg_entry option) outcome" where
  "afpkg_iter_next pkg it =
     (case (pkg, it) of
        (Some pk, Some c) \<Rightarrow>
          if \<not> valid pk then Ok (c, None)
          else (case data_tar pk of None \<Rightarrow> Ok (c, None) | Some tar \<Rightarrow> iter_loop (pkg_format pk) tar c)
      | (_, None) \<Rightarrow> Ok (0, None)
      | (None, Some c) \<Rightarrow> Ok (c, None))"

section \<open>Nothing outside the buffers\<close>

text \<open>With every error allowed, what is left of \<open>yields\<close> is that nothing is accessed outside.\<close>

lemma yields_any: "yields UNIV (\<lambda>_. True) r \<longleftrightarrow> r \<noteq> Fault"
  by (cases r) simp_all

lemma ar_walk_inside: "ar_walk hit data at \<noteq> Fault"
  unfolding yields_any [symmetric]
proof (induction hit data at rule: ar_walk.induct)
  case (1 hit data at)
  show ?case
    by (subst ar_walk.simps, intro yields_intros)
      (use 1 in \<open>auto simp: fetches_def\<close>)
qed

lemma ar_open_inside: "ar_open hit data \<noteq> Fault"
  by (auto simp: ar_open_def ar_walk_inside andthen_Fault split: option.splits)

lemma ar_find_inside: "afpkg_ar_find data name \<noteq> Fault" "afpkg_ar_find_control data \<noteq> Fault"
  by (simp_all add: afpkg_ar_find_def afpkg_ar_find_control_def ar_open_inside)

lemma gzip_fields_inside: "gzip_fields d fl \<noteq> Fault"
  by (auto simp: gzip_fields_def gzip_extra_def andthen_Fault region_ok_def Let_def)

lemma gunzip_member_inside: "afpkg_gunzip_member data sc \<noteq> Fault"
  by (auto simp: afpkg_gunzip_member_def andthen_Fault gzip_fields_inside inflate_never_faults region_ok_def fetches_def Let_def
      split: option.splits if_splits)

lemma gunzip_inside: "afpkg_gunzip data sc \<noteq> Fault"
  by (auto simp: afpkg_gunzip_def andthen_Fault gunzip_member_inside)

lemma skip_zero_inside: "tar_skip_zero data at \<noteq> Fault"
  unfolding yields_any [symmetric]
proof (induction data at rule: tar_skip_zero.induct)
  case (1 data at)
  show ?case
    by (subst tar_skip_zero.simps, intro yields_intros) (use 1 in \<open>auto simp: region_ok_def\<close>)
qed

lemma tar_next_inside: "afpkg_tar_next data c \<noteq> Fault"
  by (auto simp: afpkg_tar_next_def andthen_Fault skip_zero_inside region_ok_def fetches_def Let_def split: if_splits)

lemma apk_members_inside: "apk_members data sc offset out \<noteq> Fault"
proof (induction data sc offset out rule: apk_members.induct)
  case (1 data sc offset out)
  show ?case
    by (subst apk_members.simps) (auto simp: andthen_Fault gunzip_member_inside split: if_splits dest!: 1)
qed

lemma apk_walk_inside: "apk_walk tar c pinfo found \<noteq> Fault"
proof (induction tar c pinfo found rule: apk_walk.induct)
  case (1 tar c pinfo found)
  show ?case
    using 1 by (subst apk_walk.simps) (auto simp: tar_next_inside Let_def split: outcome.splits option.splits)
qed

lemma tar_find_inside: "tar_find name tar c \<noteq> Fault"
proof (induction name tar c rule: tar_find.induct)
  case (1 name tar c)
  show ?case
    using 1 by (subst tar_find.simps) (auto simp: tar_next_inside split: outcome.splits option.splits)
qed

lemma iter_loop_inside: "iter_loop fmt tar c \<noteq> Fault"
proof (induction fmt tar c rule: iter_loop.induct)
  case (1 fmt tar c)
  show ?case
    using 1 by (subst iter_loop.simps) (auto simp: tar_next_inside split: outcome.splits option.splits)
qed

lemma xz_inside: "afpkg_xz data sz b \<noteq> Fault"
proof (cases "\<exists>d n. data = Some d \<and> sz = Some n \<and> b")
  case True
  then show ?thesis using yields_mono [OF xz_yields, where F = UNIV and Q = "\<lambda>_. True", unfolded yields_any] by auto
qed (auto simp: afpkg_xz_def split: option.splits)

locale decompressor =
  fixes unpack :: "u8 list option \<Rightarrow> nat option \<Rightarrow> bool \<Rightarrow> u8 list outcome"
  assumes unpack_inside: "unpack data sz b \<noteq> Fault"
begin

lemma member_decompress_inside: "afpkg_member_decompress unpack member sc \<noteq> Fault"
  by (auto simp: afpkg_member_decompress_def Let_def unpack_inside gunzip_inside xz_inside split: option.splits)

lemma first_member_inside: "first_member data names rc \<noteq> Fault"
  by (induction names arbitrary: rc) (auto simp: ar_find_inside split: outcome.splits)

lemma read_apk_inside: "2 \<le> length data \<Longrightarrow> read_apk data sc pk \<noteq> Fault"
  by (auto simp: read_apk_def andthen_Fault apk_members_inside apk_walk_inside split: option.splits)

lemma read_pacman_inside: "read_pacman unpack data sc pk \<noteq> Fault"
  by (auto simp: read_pacman_def andthen_Fault unpack_inside tar_find_inside Let_def split: option.splits)

lemma read_deb_inside: "read_deb unpack data sc pk \<noteq> Fault"
  by (auto simp: read_deb_def andthen_Fault ar_find_inside member_decompress_inside first_member_inside tar_find_inside Let_def
      split: option.splits outcome.splits)

lemma open_inside: "afpkg_open unpack data sc has_out \<noteq> Fault"
proof -
  have "starts_with d [0x1F, 0x8B] \<Longrightarrow> 2 \<le> length d" for d
    by (auto simp: starts_with_def dest: arg_cong [where f = length])
  then show ?thesis
    by (auto simp: afpkg_open_def andthen_Fault Let_def read_apk_inside read_pacman_inside read_deb_inside split: option.splits if_splits)
qed

end

interpretation xz: decompressor afpkg_xz
  by unfold_locales (rule xz_inside)

text \<open>Whatever the file holds, opening it and walking its files reads nothing outside it and the scratch buffer.\<close>

theorem package_stays_inside:
  assumes "\<And>d n b. afpkg_zstd d n b \<noteq> Fault"
  shows "afpkg_open afpkg_zstd data sc has_out \<noteq> Fault \<and> afpkg_iter_next pkg it \<noteq> Fault"
proof -
  have "decompressor afpkg_zstd" by unfold_locales (rule assms)
  then show ?thesis
    using decompressor.open_inside by (auto simp: afpkg_iter_next_def iter_loop_inside split: option.splits)
qed

lemma package_stays_inside_witness:
  "afpkg_open (\<lambda>_ _ _. Fail AF_ERR_NOTSUP) (Some [0x1F, 0x8B]) None True \<noteq> Fault \<and> afpkg_iter_next None None \<noteq> Fault"
  by (rule package_stays_inside) simp

section \<open>gzip\<close>

text \<open>
  RFC 1952, section 2.3: the optional fields that the flags announce, and a member that stands for \<open>w\<close> in front of \<open>s\<close>.
\<close>

definition zero_string :: "u8 list \<Rightarrow> bool" where
  "zero_string s \<longleftrightarrow> (\<exists>t. s = t @ [0] \<and> 0 \<notin> set t)"

definition gzip_optional :: "u8 \<Rightarrow> u8 list \<Rightarrow> bool" where
  "gzip_optional fl fs \<longleftrightarrow> (\<exists>ex nm cm hc. fs = ex @ nm @ cm @ hc \<and>
     (if fl AND 0x04 \<noteq> 0 then \<exists>xs. length xs < 2 ^ 16 \<and> ex = le16 (of_nat (length xs)) @ xs else ex = []) \<and>
     (if fl AND 0x08 \<noteq> 0 then zero_string nm else nm = []) \<and>
     (if fl AND 0x10 \<noteq> 0 then zero_string cm else cm = []) \<and>
     (if fl AND 0x02 \<noteq> 0 then length hc = 2 else hc = []))"

definition gzip_member :: "u8 list \<Rightarrow> nat \<Rightarrow> u8 list \<Rightarrow> u8 list \<Rightarrow> bool" where
  "gzip_member data n w s \<longleftrightarrow> (\<exists>fl six fs comp r.
     data = [0x1F, 0x8B, 8, fl] @ six @ fs @ comp @ le32 (crc32_bytes w) @ le32 (of_nat (length w)) @ s \<and>
     fl AND 0xE0 = 0 \<and> length six = 6 \<and> gzip_optional fl fs \<and>
     deflate n (bits_of (comp @ le32 (crc32_bytes w) @ le32 (of_nat (length w)) @ s)) [] w r \<and>
     length r div 8 = 8 + length s)"

lemma skip_string_eq: "skip_string d i = i + length (takeWhile (\<lambda>c. c \<noteq> 0) (drop i d)) + 1"
proof (induction d i rule: skip_string.induct)
  case (1 d i)
  show ?case
  proof (cases "i < length d")
    case True
    then have "drop i d = d ! i # drop (i + 1) d" by (simp add: Cons_nth_drop_Suc)
    then show ?thesis using True 1 by (subst skip_string.simps) auto
  qed (simp add: skip_string.simps)
qed

text \<open>One optional string: what the code steps over is one, and only that.\<close>

definition opt_skip :: "bool \<Rightarrow> u8 list \<Rightarrow> nat \<Rightarrow> nat" where
  "opt_skip b d i = (if b then skip_string d i else i)"

lemma opt_skip_string:
  assumes "opt_skip b d i \<le> length d"
  shows "\<exists>s. (if b then zero_string s else s = []) \<and> drop i d = s @ drop (opt_skip b d i) d \<and> opt_skip b d i = i + length s"
proof (cases b)
  case True
  let ?t = "takeWhile (\<lambda>c. c \<noteq> 0) (drop i d)"
  have j: "i + length ?t < length d" using assms True by (simp add: opt_skip_def skip_string_eq)
  have "dropWhile (\<lambda>c. c \<noteq> 0) (drop i d) \<noteq> []"
  proof
    assume "dropWhile (\<lambda>c. c \<noteq> 0) (drop i d) = []"
    then have "length ?t = length (drop i d)" by (metis append_Nil2 takeWhile_dropWhile_id)
    then show False using j by (simp only: length_drop)
  qed
  then obtain ys where "dropWhile (\<lambda>c. c \<noteq> 0) (drop i d) = 0 # ys"
    by (metis (mono_tags, lifting) hd_dropWhile list.exhaust_sel)
  then have e: "drop i d = ?t @ 0 # ys" by (metis takeWhile_dropWhile_id)
  have k: "opt_skip b d i = i + (length ?t + 1)" using True by (simp add: opt_skip_def skip_string_eq)
  have "drop (opt_skip b d i) d = drop (length ?t + 1) (drop i d)" unfolding k drop_drop by (simp add: add.commute)
  also have "\<dots> = ys" by (subst e) simp
  finally have "drop i d = (?t @ [0]) @ drop (opt_skip b d i) d" using e by simp
  moreover have "zero_string (?t @ [0])" by (auto simp: zero_string_def dest: set_takeWhileD)
  ultimately show ?thesis using True k by (intro exI [of _ "?t @ [0]"]) simp
qed (simp add: opt_skip_def)

lemma opt_skip_reads:
  assumes "drop i d = s @ t" "if b then zero_string s else s = []"
  shows "opt_skip b d i = i + length s"
proof (cases b)
  case True
  then obtain u where u: "s = u @ [0]" "0 \<notin> set u" using assms(2) by (auto simp: zero_string_def)
  then have "takeWhile (\<lambda>c. c \<noteq> 0) (s @ t) = u" by (auto simp: takeWhile_append2 takeWhile_tail in_set_conv_decomp)
  then show ?thesis using True u assms(1) by (simp add: opt_skip_def skip_string_eq)
qed (use assms in \<open>simp add: opt_skip_def\<close>)

lemma le16_nths: "unat (le16 w ! 0) = unat w mod 256" "unat (le16 w ! 1) = unat w div 256"
proof -
  have w: "unat w < 65536" using unat_bound [of w] by simp
  show "unat (le16 w ! 0) = unat w mod 256" by (simp add: le16_def unsigned_ucast_eq take_bit_eq_mod)
  have "unat (drop_bit 8 w) = unat w div 256" by (simp add: unsigned_drop_bit_eq drop_bit_eq_div unat_div)
  then show "unat (le16 w ! 1) = unat w div 256" using w by (simp add: le16_def unsigned_ucast_eq take_bit_eq_mod)
qed

lemma unat_of_nat_16: "n < 2 ^ 16 \<Longrightarrow> unat (of_nat n :: u16) = n"
  by (simp add: unat_of_nat take_bit_nat_eq_self)

lemma le16_value: "n < 2 ^ 16 \<Longrightarrow> unat (le16 (of_nat n) ! 0) + unat (le16 (of_nat n) ! 1) * 256 = n"
  unfolding le16_nths by (simp only: unat_of_nat_16) simp

lemma le16_of_bytes: "le16 (of_nat (unat (a :: u8) + unat (b :: u8) * 256)) = [a, b]"
proof (rule nth_equalityI)
  let ?n = "unat a + unat b * 256"
  have a: "unat a < 256" "unat b < 256" using unat_bound [of a] unat_bound [of b] by simp_all
  then have n: "?n < 2 ^ 16" by simp
  fix i assume "i < length (le16 (of_nat ?n))"
  then consider "i = 0" | "i = 1" by fastforce
  then show "le16 (of_nat ?n) ! i = [a, b] ! i"
  proof cases
    case 1
    show ?thesis unfolding 1 word_unat_eq_iff le16_nths unat_of_nat_16 [OF n] using a by simp
  next
    case 2
    show ?thesis unfolding 2 word_unat_eq_iff le16_nths unat_of_nat_16 [OF n] using a by simp
  qed
qed simp

lemma gzip_fields_opt:
  "gzip_fields d fl = andthen (gzip_extra d fl) (\<lambda>at0.
     let at1 = opt_skip (fl AND 0x08 \<noteq> 0) d at0; at2 = opt_skip (fl AND 0x10 \<noteq> 0) d at1
     in Ok (if fl AND 0x02 \<noteq> 0 then at2 + 2 else at2))"
  by (simp add: gzip_fields_def opt_skip_def)

lemma skip_grows: "i \<le> opt_skip b d i"
  by (simp add: opt_skip_def skip_string_eq)

lemma gzip_fields_sound:
  assumes "gzip_fields d fl = Ok at" "at \<le> length d"
  shows "\<exists>fs. gzip_optional fl fs \<and> drop 10 d = fs @ drop at d \<and> at = 10 + length fs"
proof -
  obtain at0 where at0: "gzip_extra d fl = Ok at0" using assms(1) by (auto simp: gzip_fields_opt andthen_eq_Ok)
  let ?at1 = "opt_skip (fl AND 0x08 \<noteq> 0) d at0"
  let ?at2 = "opt_skip (fl AND 0x10 \<noteq> 0) d ?at1"
  have at: "at = (if fl AND 0x02 \<noteq> 0 then ?at2 + 2 else ?at2)" using assms(1) by (simp add: gzip_fields_opt at0 Let_def)
  have le: "?at2 \<le> length d" "?at1 \<le> length d" "at0 \<le> length d"
    using assms(2) at skip_grows [of ?at1 "fl AND 0x10 \<noteq> 0" d] skip_grows [of at0 "fl AND 0x08 \<noteq> 0" d] by (auto split: if_splits)
  have "\<exists>ex. (if fl AND 0x04 \<noteq> 0 then \<exists>xs. length xs < 2 ^ 16 \<and> ex = le16 (of_nat (length xs)) @ xs else ex = []) \<and>
      drop 10 d = ex @ drop at0 d \<and> at0 = 10 + length ex"
  proof (cases "fl AND 0x04 \<noteq> 0")
    case True
    let ?k = "unat (d ! 10) + unat (d ! 11) * 256"
    have e: "12 \<le> length d" "12 + ?k \<le> length d" "at0 = 12 + ?k"
      using at0 True by (auto simp: gzip_extra_def region_ok_def fetch_def Let_def split: if_splits)
    have "drop 10 d = d ! 10 # d ! 11 # drop 12 d"
      using e(1) Cons_nth_drop_Suc [of 10 d] Cons_nth_drop_Suc [of 11 d] by simp
    also have "drop 12 d = take ?k (drop 12 d) @ drop (12 + ?k) d"
      using append_take_drop_id [of ?k "drop 12 d", symmetric] by (simp only: drop_drop add.commute)
    finally have "drop 10 d = (le16 (of_nat ?k) @ take ?k (drop 12 d)) @ drop at0 d"
      unfolding le16_of_bytes e(3) by simp
    moreover have "?k < 2 ^ 16" using unat_bound [of "d ! 10"] unat_bound [of "d ! 11"] by simp
    moreover have "length (take ?k (drop 12 d)) = ?k" using e(2) by simp
    ultimately show ?thesis using True e(3) by (intro exI [of _ "le16 (of_nat ?k) @ take ?k (drop 12 d)"]) auto
  qed (use at0 in \<open>simp add: gzip_extra_def\<close>)
  then obtain ex where ex: "if fl AND 0x04 \<noteq> 0 then \<exists>xs. length xs < 2 ^ 16 \<and> ex = le16 (of_nat (length xs)) @ xs else ex = []"
      "drop 10 d = ex @ drop at0 d" "at0 = 10 + length ex" by blast
  obtain nm where nm: "if fl AND 0x08 \<noteq> 0 then zero_string nm else nm = []" "drop at0 d = nm @ drop ?at1 d" "?at1 = at0 + length nm"
    using opt_skip_string [OF le(2)] by blast
  obtain cm where cm: "if fl AND 0x10 \<noteq> 0 then zero_string cm else cm = []" "drop ?at1 d = cm @ drop ?at2 d" "?at2 = ?at1 + length cm"
    using opt_skip_string [OF le(1)] by blast
  let ?hc = "take (at - ?at2) (drop ?at2 d)"
  have ge: "?at2 \<le> at" using at by auto
  then have "drop ?at2 d = ?hc @ drop at d"
    using append_take_drop_id [of "at - ?at2" "drop ?at2 d", symmetric] by (simp only: drop_drop le_add_diff_inverse2)
  moreover have hl: "length ?hc = at - ?at2" "if fl AND 0x02 \<noteq> 0 then length ?hc = 2 else ?hc = []" using assms(2) at by auto
  ultimately have "drop 10 d = (ex @ nm @ cm @ ?hc) @ drop at d" using ex(2) nm(2) cm(2) by simp
  moreover have "at = 10 + length (ex @ nm @ cm @ ?hc)" using ex(3) nm(3) cm(3) at hl(1) by auto
  moreover have "gzip_optional fl (ex @ nm @ cm @ ?hc)"
    unfolding gzip_optional_def using ex(1) nm(1) cm(1) hl(2) by blast
  ultimately show ?thesis by blast
qed

lemma gzip_fields_complete:
  assumes "drop 10 d = fs @ t" "gzip_optional fl fs" "10 \<le> length d"
  shows "gzip_fields d fl = Ok (10 + length fs)"
proof -
  obtain ex nm cm hc where f: "fs = ex @ nm @ cm @ hc"
    "if fl AND 0x04 \<noteq> 0 then \<exists>xs. length xs < 2 ^ 16 \<and> ex = le16 (of_nat (length xs)) @ xs else ex = []"
    "if fl AND 0x08 \<noteq> 0 then zero_string nm else nm = []" "if fl AND 0x10 \<noteq> 0 then zero_string cm else cm = []"
    "if fl AND 0x02 \<noteq> 0 then length hc = 2 else hc = []"
    using assms(2) unfolding gzip_optional_def by blast
  obtain h where d: "d = h @ ex @ nm @ cm @ hc @ t" and l: "length h = 10"
    using assms(1,3) f(1) by (metis append.assoc append_take_drop_id length_take min_absorb2)
  have e: "gzip_extra d fl = Ok (10 + length ex)"
  proof (cases "fl AND 0x04 \<noteq> 0")
    case True
    then obtain xs where xs: "length xs < 2 ^ 16" "ex = le16 (of_nat (length xs)) @ xs" using f(2) by auto
    let ?l = "le16 (of_nat (length xs))"
    have n: "d ! 10 = ?l ! 0" "d ! 11 = ?l ! 1"
      by (simp_all add: d l nth_append xs(2) le16_def)
    have len: "12 + length xs \<le> length d" by (simp add: d xs(2) l)
    show ?thesis
    proof -
      have "region_ok d 10 2" "region_ok d 12 (length xs)" "10 < length d" "11 < length d" using len by (auto simp: region_ok_def)
      then show ?thesis using True le16_value [OF xs(1)] by (simp add: gzip_extra_def n Let_def xs(2))
    qed
  qed (use f(2) in \<open>simp add: gzip_extra_def\<close>)
  have 1: "drop (10 + length ex) d = nm @ (cm @ hc @ t)" by (simp add: d l)
  have 2: "drop (10 + length ex + length nm) d = cm @ (hc @ t)" by (simp add: d l)
  show ?thesis
    unfolding gzip_fields_opt e andthen.simps Let_def opt_skip_reads [OF 1 f(3)] opt_skip_reads [OF 2 f(4)]
    using f(1,5) by auto
qed


lemma rd32_two: "rd32 (le32 a @ le32 b) 0 = a" "rd32 (le32 a @ le32 b) 4 = b"
  using rd32_le32 [of "[]" a "le32 b"] rd32_le32 [of "le32 a" b "[]"] by simp_all

lemma le32_rd32: "length t = 8 \<Longrightarrow> le32 (rd32 t 0) @ le32 (rd32 t 4) = t"
proof -
  assume l: "length t = 8"
  have e: "le32 (rd32 [a, b, c, d] 0) = [a, b, c, d]" for a b c d
    unfolding le32_def rd32_def by (auto simp: bit_simps intro!: bit_word_eqI)
  obtain a b c d a' b' c' d' where t: "t = [a, b, c, d, a', b', c', d']"
    using l by (auto simp: length_Suc_conv numeral_eq_Suc)
  have "rd32 t 0 = rd32 [a, b, c, d] 0" "rd32 t 4 = rd32 [a', b', c', d'] 0" by (simp_all add: t rd32_def)
  then show ?thesis by (simp only: e t append.simps)
qed

lemma deflate_shrinks: "deflate n bs out w r \<Longrightarrow> length r < length bs"
  by (induction rule: deflate.induct) (auto dest: block_suffix)

lemma gunzip_sound:
  assumes ok: "afpkg_gunzip_member (Some data) sc = Ok (w, used)"
  shows "sc_base sc \<and> 0 < sc_size sc \<and>
     (\<exists>n s. gzip_member data n w s \<and> n \<le> 0x100001 \<and> length w \<le> sc_size sc \<and> used = length data - length s)"
proof -
  let ?fl = "data ! 3"
  obtain at u where h: "18 \<le> length data" "data ! 0 = 0x1F" "data ! 1 = 0x8B" "data ! 2 = 8" "?fl AND 0xE0 = 0"
    and at: "gzip_fields data ?fl = Ok at" "at + 8 \<le> length data"
    and sc: "sc_base sc" "0 < sc_size sc"
    and inf: "afpkg_inflate (Some (drop at data)) (Some (sc_size sc)) True = Ok (w, u)"
    and tr: "region_ok data (at + u) 8" "rd32 (take 8 (drop (at + u) data)) 0 = crc32_bytes w"
      "rd32 (take 8 (drop (at + u) data)) 4 = of_nat (length w)" and used: "used = at + u + 8"
    using ok unfolding afpkg_gunzip_member_def
    by (auto simp: andthen_eq_Ok Let_def fetches_def nth_take numeral_3_eq_3 split: if_splits)
  obtain fs where fs: "gzip_optional ?fl fs" "drop 10 data = fs @ drop at data" "at = 10 + length fs"
    using gzip_fields_sound [OF at(1)] at(2) by auto
  obtain n r where d: "deflate n (bits_of (drop at data)) [] w r" "n \<le> 0x100001" "length w \<le> sc_size sc"
      "u = length (drop at data) - length r div 8"
    using inflate_accepted [OF inf] by blast
  have r: "length r \<le> 8 * length (drop at data)" using deflate_suffix [OF d(1)] by simp
  let ?t = "take 8 (drop (at + u) data)" and ?s = "drop (at + u + 8) data"
  have len: "at + u + 8 \<le> length data" using tr(1) by (auto simp: region_ok_def)
  have "?t = le32 (crc32_bytes w) @ le32 (of_nat (length w))"
    using le32_rd32 [of ?t] len tr(2,3) by simp
  moreover have "drop at data = take u (drop at data) @ ?t @ ?s"
    using append_take_drop_id [of u "drop at data"] append_take_drop_id [of 8 "drop (at + u) data"]
    by (simp only: drop_drop add.commute add.left_commute)
  ultimately have comp: "drop at data = take u (drop at data) @ le32 (crc32_bytes w) @ le32 (of_nat (length w)) @ ?s" by simp
  have "take 10 data = [0x1F, 0x8B, 8, ?fl] @ take 6 (drop 4 data)"
  proof (rule nth_equalityI)
    fix i assume "i < length (take 10 data)"
    then have "i < 10" "i < length data" by simp_all
    then show "take 10 data ! i = ([0x1F, 0x8B, 8, ?fl] @ take 6 (drop 4 data)) ! i"
      using h by (auto simp: nth_append less_Suc_eq numeral_eq_Suc)
  qed (use h(1) in simp)
  then have "data = [0x1F, 0x8B, 8, ?fl] @ take 6 (drop 4 data) @ fs @ take u (drop at data) @ le32 (crc32_bytes w) @ le32 (of_nat (length w)) @ ?s"
    using append_take_drop_id [of 10 data] fs(2) comp by (metis append.assoc)
  moreover have "length r div 8 = 8 + length ?s" using d(4) r len by simp
  moreover have "length (take 6 (drop 4 data)) = 6" using h(1) by simp
  ultimately have "gzip_member data n w ?s"
    unfolding gzip_member_def using h(5) fs(1) d(1) comp by metis
  moreover have "used = length data - length ?s" using used len by simp
  ultimately show ?thesis using sc d(2,3) by blast
qed

lemma gunzip_complete:
  assumes m: "gzip_member data n w s" and n: "n \<le> 0x100001" and w: "length w \<le> sc_size sc" and sc: "sc_base sc" "0 < sc_size sc"
  shows "afpkg_gunzip_member (Some data) sc = Ok (w, length data - length s)"
proof -
  obtain fl six fs comp r where
    data: "data = [0x1F, 0x8B, 8, fl] @ six @ fs @ comp @ le32 (crc32_bytes w) @ le32 (of_nat (length w)) @ s"
    and fl: "fl AND 0xE0 = 0" and six: "length six = 6" and fs: "gzip_optional fl fs"
    and d: "deflate n (bits_of (comp @ le32 (crc32_bytes w) @ le32 (of_nat (length w)) @ s)) [] w r"
    and r: "length r div 8 = 8 + length s"
    using m unfolding gzip_member_def by blast
  let ?t = "le32 (crc32_bytes w) @ le32 (of_nat (length w))" and ?at = "10 + length fs"
  have dr1: "drop 10 data = fs @ (comp @ ?t @ s)" by (simp add: data six)
  have "drop ?at data = drop (length fs) (drop 10 data)" by (simp add: add.commute)
  then have dr: "drop 10 data = fs @ (comp @ ?t @ s)" "drop ?at data = comp @ ?t @ s" using dr1 by simp_all
  have u: "length comp = length (comp @ ?t @ s) - length r div 8" using r by simp
  have inf: "afpkg_inflate (Some (drop ?at data)) (Some (sc_size sc)) True = Ok (w, length comp)"
    unfolding dr(2) by (rule inflate_accepts [OF _ n w u]) (use d in simp)
  have "length comp \<noteq> 0"
  proof
    assume "length comp = 0"
    then have "length r div 8 = length (?t @ s)" using r by simp
    then have "8 * length (?t @ s) \<le> length r" by simp
    then have "length r = length (bits_of (comp @ ?t @ s))"
      using deflate_suffix [OF d] \<open>length comp = 0\<close> by simp
    then show False using deflate_shrinks [OF d] by simp
  qed
  then have len: "18 < length data" "?at + 8 \<le> length data" "10 \<le> length data" by (simp_all add: data six)
  have at: "gzip_fields data fl = Ok ?at" by (rule gzip_fields_complete [OF dr(1) fs len(3)])
  have h: "fetches data 0 4 = Ok [0x1F, 0x8B, 8, fl]" by (simp add: fetches_def data)
  have t: "fetches data (?at + length comp) 8 = Ok ?t" "region_ok data (?at + length comp) 8"
  proof -
    have "drop (?at + length comp) data = drop (length comp) (drop ?at data)" by (simp add: add.commute)
    then have "drop (?at + length comp) data = ?t @ s" unfolding dr(2) by simp
    moreover have "?at + length comp + 8 \<le> length data" by (simp add: data six)
    ultimately show "fetches data (?at + length comp) 8 = Ok ?t" "region_ok data (?at + length comp) 8"
      by (simp_all add: fetches_def region_ok_def)
  qed
  have c: "(length data < 18) = False" "(length data < ?at + 8) = False" using len by simp_all
  have e: "?at + length comp + 8 = length data - length s" by (simp add: data six)
  show ?thesis
    unfolding afpkg_gunzip_member_def option.case Let_def
    using sc fl by (simp only: c h andthen.simps nth_Cons_0 nth_Cons_Suc One_nat_def numeral_2_eq_2 numeral_3_eq_3 at inf prod.case t e rd32_two
       if_False simp_thms neq0_conv) simp
qed

text \<open>
  One gzip member is accepted exactly when it is one in the sense of RFC 1952, trailer included; what it stands
  for is delivered, and where the next member would begin.
\<close>

theorem gunzip_exact:
  "afpkg_gunzip_member (Some data) sc = Ok (w, used) \<longleftrightarrow>
     sc_base sc \<and> 0 < sc_size sc \<and>
     (\<exists>n s. gzip_member data n w s \<and> n \<le> 0x100001 \<and> length w \<le> sc_size sc \<and> used = length data - length s)"
  using gunzip_sound gunzip_complete by blast

section \<open>Alpine packages: members of one archive\<close>

text \<open>A file that is gzip members one behind the other, with what each stands for.\<close>

inductive gzip_chain :: "u8 list \<Rightarrow> u8 list list \<Rightarrow> bool" where
  chain_end: "gzip_chain [] []"
| chain_member: "gzip_member data n w s \<Longrightarrow> n \<le> 0x100001 \<Longrightarrow> gzip_chain s ws \<Longrightarrow> gzip_chain data (w # ws)"

lemma member_shorter: "gzip_member data n w s \<Longrightarrow> length s < length data \<and> s = drop (length data - length s) data \<and> 10 < length data - length s"
proof -
  assume "gzip_member data n w s"
  then obtain p where "data = p @ s" "10 < length p"
    unfolding gzip_member_def
  proof (elim exE conjE)
    fix fl six fs comp r
    assume "data = [0x1F, 0x8B, 8, fl] @ six @ fs @ comp @ le32 (crc32_bytes w) @ le32 (of_nat (length w)) @ s" "length six = 6"
    then have "data = ([0x1F, 0x8B, 8, fl] @ six @ fs @ comp @ le32 (crc32_bytes w) @ le32 (of_nat (length w))) @ s"
      "10 < length ([0x1F, 0x8B, 8, fl] @ six @ fs @ comp @ le32 (crc32_bytes w) @ le32 (of_nat (length w)))" by simp_all
    then show thesis by (rule that)
  qed
  then show ?thesis by auto
qed

lemma members_read:
  assumes "gzip_chain d ws" "d = drop offset data" "offset \<le> length data" "length out + length (concat ws) < sc_size sc" "sc_base sc"
  shows "apk_members data sc offset out = Ok (out @ concat ws)"
  using assms
proof (induction d ws arbitrary: offset out rule: gzip_chain.induct)
  case chain_end
  then show ?case by (subst apk_members.simps) simp
next
  case (chain_member d n w s ws)
  note s = member_shorter [OF chain_member(1)]
  have g: "afpkg_gunzip_member (Some d) (sc\<lparr>sc_size := sc_size sc - length out\<rparr>) = Ok (w, length d - length s)"
    by (rule gunzip_complete [OF chain_member(1,2)]) (use chain_member.prems in auto)
  have o: "offset < length data" "\<not> sc_size sc \<le> length out" using s chain_member.prems by auto
  have "s = drop (length d - length s) (drop offset data)" using s chain_member.prems(1) by metis
  then have s': "s = drop (offset + (length d - length s)) data" by (simp only: drop_drop add.commute)
  have "apk_members data sc (offset + (length d - length s)) (out @ w) = Ok ((out @ w) @ concat ws)"
    by (rule chain_member.IH [OF s']) (use chain_member.prems in auto)
  moreover have "apk_members data sc offset out = apk_members data sc (offset + (length d - length s)) (out @ w)"
  proof -
    have nz: "length d - length s \<noteq> 0" using s by auto
    show ?thesis
      using o nz by (subst apk_members.simps, simp only: chain_member.prems(1) [symmetric] g andthen.simps prod.case if_False) simp
  qed
  ultimately show ?case by simp
qed

lemma chain_magic: "gzip_chain d ws \<Longrightarrow> d \<noteq> [] \<Longrightarrow> \<exists>t. d = 0x1F # 0x8B # t"
  by (cases rule: gzip_chain.cases) (auto simp: gzip_member_def)

text \<open>
  An Alpine package is one archive cut into gzip members anywhere: packages with the same archive are read
  alike, however it is cut.
\<close>

theorem apk_cut_anywhere:
  assumes "gzip_chain d1 p1" "gzip_chain d2 p2" "d1 \<noteq> []" "d2 \<noteq> []" "concat p1 = concat p2" "length (concat p1) < sc_size sc" "sc_base sc"
  shows "afpkg_open zstd (Some d1) (Some sc) True = afpkg_open zstd (Some d2) (Some sc) True"
proof -
  have m: "starts_with d [0x1F, 0x8B]" "fetches d 0 2 = Ok [0x1F, 0x8B]" "d \<noteq> []" if "gzip_chain d p" "d \<noteq> []" for d p
    using chain_magic [OF that] that(2) by (auto simp: starts_with_def fetches_def)
  have r: "apk_members d sc 0 [] = Ok (concat p)" if "gzip_chain d p" "length (concat p) < sc_size sc" for d p
    using members_read [OF that(1), of 0 d "[]" sc] that(2) assms(7) by simp
  show ?thesis
    unfolding afpkg_open_def option.case Let_def read_apk_def
    using m [OF assms(1,3)] m [OF assms(2,4)] r [OF assms(1,6)] r [OF assms(2)] assms(5,6) by simp
qed

section \<open>A reference writer for gzip\<close>

definition gzip_bytes :: "u8 list \<Rightarrow> u8 list" where
  "gzip_bytes d = [0x1F, 0x8B, 8, 0, 0, 0, 0, 0, 0, 0xFF] @ store d @ le32 (crc32_bytes d) @ le32 (of_nat (length d))"

lemma gzip_written:
  assumes "length d \<le> 65535 * 0x100000"
  shows "\<exists>n \<le> 0x100001. gzip_member (gzip_bytes d @ s) n d s"
proof -
  let ?t = "le32 (crc32_bytes d) @ le32 (of_nat (length d))"
  obtain n where n: "n \<le> length d div 65535 + 1" "deflate n (bits_of (store d @ (?t @ s))) [] d (bits_of (?t @ s))"
    using store_deflates [of d "?t @ s" "[]"] by auto
  have "length d div 65535 \<le> 0x100000" using assms div_le_mono [OF assms, of 65535] by simp
  moreover have "gzip_member (gzip_bytes d @ s) n d s"
    unfolding gzip_member_def
    by (rule exI [of _ 0], rule exI [of _ "[0, 0, 0, 0, 0, 0xFF]"], rule exI [of _ "[]"], rule exI [of _ "store d"], rule exI [of _ "bits_of (?t @ s)"])
      (use n(2) in \<open>simp add: gzip_bytes_def gzip_optional_def\<close>)
  ultimately show ?thesis using n(1) by (intro exI [of _ n]) simp
qed

lemma chain_written: "\<forall>d \<in> set ws. length d \<le> 65535 * 0x100000 \<Longrightarrow> gzip_chain (concat (map gzip_bytes ws)) ws"
proof (induction ws)
  case (Cons d ws)
  then obtain n where "n \<le> 0x100001" "gzip_member (gzip_bytes d @ concat (map gzip_bytes ws)) n d (concat (map gzip_bytes ws))"
    using gzip_written [of d "concat (map gzip_bytes ws)"] by auto
  then show ?case using Cons by (auto intro: chain_member)
qed (simp add: chain_end)

lemma apk_cut_anywhere_witness:
  "afpkg_open afpkg_xz (Some (gzip_bytes [1, 2] @ gzip_bytes [3])) (Some \<lparr>sc_base = True, sc_size = 9\<rparr>) True =
   afpkg_open afpkg_xz (Some (gzip_bytes [1] @ gzip_bytes [2, 3])) (Some \<lparr>sc_base = True, sc_size = 9\<rparr>) True"
  by (rule apk_cut_anywhere [of _ "[[1, 2], [3]]" _ "[[1], [2, 3]]"])
    (use chain_written [of "[[1, 2], [3]]"] chain_written [of "[[1], [2, 3]]"] in \<open>simp_all add: gzip_bytes_def\<close>)

section \<open>A reference writer for tar\<close>

text \<open>
  A ustar entry: name, mode and size as the code reads them, arbitrary bytes in the other fields. The name of a
  file is written with a leading \<open>./\<close>, as Debian does.
\<close>

record tar_file =
  tf_path :: "u8 list"
  tf_mode :: nat
  tf_dir :: bool
  tf_data :: "u8 list"
  tf_ids :: "u8 list"
  tf_time :: "u8 list"
  tf_link :: "u8 list"

primrec octal :: "nat \<Rightarrow> nat \<Rightarrow> u8 list" where
  "octal 0 n = []"
| "octal (Suc k) n = octal k (n div 8) @ [of_nat (0x30 + n mod 8)]"

definition tar_header :: "tar_file \<Rightarrow> u8 list" where
  "tar_header f = [0x2E, 0x2F] @ tf_path f @ replicate (98 - length (tf_path f)) 0 @
     octal 7 (tf_mode f) @ [0] @ tf_ids f @ octal 11 (length (tf_data f)) @ [0] @ tf_time f @
     [if tf_dir f then 0x35 else 0x30] @ tf_link f"

definition tar_pad :: "nat \<Rightarrow> nat" where
  "tar_pad n = (n + 511) div 512 * 512 - n"

definition tar_entry :: "tar_file \<Rightarrow> u8 list" where
  "tar_entry f = tar_header f @ tf_data f @ replicate (tar_pad (length (tf_data f))) 0"

definition tar_bytes :: "tar_file list \<Rightarrow> u8 list" where
  "tar_bytes fs = concat (map tar_entry fs) @ replicate 1024 0"

text \<open>A string a fixed field keeps as it is.\<close>

definition plain :: "nat \<Rightarrow> u8 list \<Rightarrow> bool" where
  "plain n s \<longleftrightarrow> s \<noteq> [] \<and> length s < n \<and> 0 \<notin> set s \<and> last s \<notin> {0x20, 0x09, 0x0D, 0x0A}"

definition tar_ok :: "tar_file \<Rightarrow> bool" where
  "tar_ok f \<longleftrightarrow> plain 99 (tf_path f) \<and> strip_dot_slash (tf_path f) = tf_path f \<and> tf_mode f < 8 ^ 7 \<and> length (tf_data f) < 8 ^ 11 \<and>
     length (tf_ids f) = 16 \<and> length (tf_time f) = 20 \<and> length (tf_link f) = 355 \<and>
     (if tf_dir f then tf_data f = [] else last (tf_path f) \<noteq> 0x2F)"

definition entry_of :: "tar_file \<Rightarrow> af_pkg_entry" where
  "entry_of f = \<lparr>path = tf_path f, file_size = of_nat (length (tf_data f)), mode = of_nat (tf_mode f), is_directory = tf_dir f\<rparr>"

section \<open>Reading it back\<close>

lemma length_octal [simp]: "length (octal k n) = k"
  by (induction k arbitrary: n) simp_all

lemma octal_digit: "c \<in> set (octal k n) \<Longrightarrow> 0x30 \<le> c \<and> c \<le> 0x37"
proof (induction k arbitrary: n)
  case (Suc k)
  have "unat (of_nat (0x30 + n mod 8) :: u8) = 0x30 + n mod 8" by (simp add: unat_of_nat take_bit_eq_mod del: of_nat_add)
  then have "0x30 \<le> (of_nat (0x30 + n mod 8) :: u8) \<and> (of_nat (0x30 + n mod 8) :: u8) \<le> 0x37"
    unfolding word_le_nat_alt by simp
  then show ?case using Suc by auto
qed simp

lemma octal_fold: "fold (\<lambda>c v. v * 8 + ucast (c - 0x30)) (octal k n) (v :: u64) = v * 8 ^ k + of_nat (n mod 8 ^ k)"
proof (induction k arbitrary: n)
  case (Suc k)
  have d: "ucast (of_nat (n mod 8) :: u8) = (of_nat (n mod 8) :: u64)"
    by (simp add: word_unat_eq_iff unat_of_nat take_bit_eq_mod unsigned_ucast_eq)
  have "n mod 8 ^ Suc k = 8 * (n div 8 mod 8 ^ k) + n mod 8" by (simp add: mod_mult2_eq)
  then show ?case using Suc by (simp add: d algebra_simps)
qed simp

lemma octal_reads:
  assumes "n < 8 ^ k" "k \<le> 21" "0 < k"
  shows "unat (parse_octal (octal k n @ 0 # t)) = n" "parse_octal (octal k n @ 0 # t) = of_nat n"
proof -
  have z: "\<not> (0x30 \<le> (0 :: u8) \<and> (0 :: u8) \<le> 0x37)" by (simp add: word_le_nat_alt)
  have "dropWhile (\<lambda>c. c = 0x20 \<or> c = 0) (octal k n @ 0 # t) = octal k n @ 0 # t"
  proof (cases "octal k n")
    case (Cons c cs)
    then have "0x30 \<le> c" using octal_digit [of c k n] by simp
    then have "\<not> (c = 0x20 \<or> c = 0)" by (auto simp: word_le_nat_alt)
    then show ?thesis using Cons by simp
  qed (use length_octal [of k n] assms(3) in simp)
  moreover have "takeWhile (\<lambda>c. 0x30 \<le> c \<and> c \<le> 0x37) (octal k n @ 0 # t) = octal k n"
    using octal_digit [of _ k n] z by (subst takeWhile_append2) simp_all
  moreover have "n mod 8 ^ k = n" using assms(1) by simp
  ultimately show v: "parse_octal (octal k n @ 0 # t) = of_nat n"
    using octal_fold [of k n 0] by (simp only: parse_octal_def) simp
  have "(8 :: nat) ^ k \<le> 8 ^ 21" using assms(2) by (rule power_increasing) simp
  then show "unat (parse_octal (octal k n @ 0 # t)) = n" unfolding v using assms(1) by (simp add: unat_of_nat take_bit_nat_eq_self)
qed

lemma takeWhile_zero: "0 \<notin> set s \<Longrightarrow> takeWhile (\<lambda>c. c \<noteq> 0) (s @ replicate k (0 :: u8)) = s"
  by (induction s) (auto simp: takeWhile_replicate)

lemma plain_trim: "plain n s \<Longrightarrow> copy_trim n s = s"
proof -
  assume p: "plain n s"
  then obtain t c where s: "s = t @ [c]" "c \<notin> {0x20, 0x09, 0x0D, 0x0A}" by (cases s rule: rev_cases) (auto simp: plain_def)
  have "take (n - 1) s = s" using p by (auto simp: plain_def)
  moreover have "takeWhile (\<lambda>c. c \<noteq> 0) s = s" using p by (auto simp: plain_def takeWhile_eq_all_conv)
  ultimately show ?thesis using s by (simp add: copy_trim_def cstr_def)
qed

lemma trim_padded: "plain n s \<Longrightarrow> length s + k < n \<Longrightarrow> copy_trim n (s @ replicate k 0) = s"
proof -
  assume p: "plain n s" and k: "length s + k < n"
  have t: "take (n - 1) (s @ replicate k 0) = s @ replicate k 0" using k by simp
  have "rev (s @ replicate k 0) = replicate k 0 @ rev s" by simp
  moreover have "dropWhile (\<lambda>c. c = 0x20 \<or> c = 0x09 \<or> c = 0x0D \<or> c = 0x0A) (replicate k 0 @ rev s) = replicate k (0 :: u8) @ rev s"
  proof (cases k)
    case 0
    then show ?thesis using p by (cases s rule: rev_cases) (auto simp: plain_def)
  qed simp
  ultimately have "dropWhile (\<lambda>c. c = 0x20 \<or> c = 0x09 \<or> c = 0x0D \<or> c = 0x0A) (rev (s @ replicate k 0)) = rev (s @ replicate k (0 :: u8))"
    by simp
  moreover have "takeWhile (\<lambda>c. c \<noteq> 0) (s @ replicate k 0) = s"
    using p by (auto simp: plain_def intro: takeWhile_zero)
  ultimately show ?thesis by (simp only: copy_trim_def cstr_def t rev_rev_ident)
qed


lemma strip_dot_slash_end: "length s < 2 \<Longrightarrow> strip_dot_slash s = s"
  by (subst strip_dot_slash.simps) (auto split: list.split)

lemma strip_written: "strip_dot_slash p = p \<Longrightarrow> strip_dot_slash ([0x2E, 0x2F] @ p) = p"
  by (subst strip_dot_slash.simps) simp

lemma plain_cstr: "plain n s \<Longrightarrow> cstr s = s"
  by (auto simp: plain_def cstr_def takeWhile_eq_all_conv)

lemma cut: "length xs = n \<Longrightarrow> take n (xs @ ys) = xs" "length xs = n \<Longrightarrow> drop n (xs @ ys) = ys" "length xs = n \<Longrightarrow> (xs @ ys) ! n = ys ! 0"
  by (auto simp: nth_append)

text \<open>The fields of a written header, where the code reads them.\<close>

lemma header_fields:
  assumes "tar_ok f"
  shows "length (tar_header f) = 512"
    "take 100 (tar_header f) = ([0x2E, 0x2F] @ tf_path f) @ replicate (98 - length (tf_path f)) 0"
    "take 12 (drop 124 (tar_header f)) = octal 11 (length (tf_data f)) @ [0]"
    "take 8 (drop 100 (tar_header f)) = octal 7 (tf_mode f) @ [0]"
    "tar_header f ! 156 = (if tf_dir f then 0x35 else 0x30)"
proof -
  let ?n = "[0x2E, 0x2F] @ tf_path f @ replicate (98 - length (tf_path f)) 0" and ?m = "octal 7 (tf_mode f) @ [0]"
  let ?s = "octal 11 (length (tf_data f)) @ [0]" and ?t = "[if tf_dir f then 0x35 else 0x30] @ tf_link f"
  have "length (tf_path f) < 99" using assms by (simp add: tar_ok_def plain_def)
  then have pl: "length (tf_path f) + (98 - length (tf_path f)) = 98" by linarith
  then have len1: "length ?n = 100" by simp
  have len2: "length ?m = 8" "length ?s = 12" "length (tf_ids f) = 16" "length (tf_time f) = 20" "length (tf_link f) = 355"
    using assms by (auto simp: tar_ok_def)
  note len = len1 len2
  have h: "tar_header f = ?n @ (?m @ tf_ids f @ ?s @ tf_time f @ ?t)" "tar_header f = (?n @ ?m @ tf_ids f) @ ?s @ (tf_time f @ ?t)"
    "tar_header f = (?n @ ?m @ tf_ids f @ ?s @ tf_time f) @ ?t" by (simp_all add: tar_header_def)
  show "length (tar_header f) = 512" unfolding h(1) using len2 pl by simp
  have "take 100 (tar_header f) = ?n" unfolding h(1) by (rule cut(1) [OF len1])
  then show "take 100 (tar_header f) = ([0x2E, 0x2F] @ tf_path f) @ replicate (98 - length (tf_path f)) 0" by simp
  have "drop 100 (tar_header f) = ?m @ tf_ids f @ ?s @ tf_time f @ ?t" unfolding h(1) by (rule cut(2) [OF len1])
  then show "take 8 (drop 100 (tar_header f)) = ?m" by (simp only: cut(1) [OF len2(1)])
  have "length (?n @ ?m @ tf_ids f) = 124" using len2 pl by simp
  then have "drop 124 (tar_header f) = ?s @ (tf_time f @ ?t)" unfolding h(2) by (rule cut(2))
  then show "take 12 (drop 124 (tar_header f)) = ?s" by (simp only: cut(1) [OF len2(2)])
  have "length (?n @ ?m @ tf_ids f @ ?s @ tf_time f) = 156" using len2 pl by simp
  then have "tar_header f ! 156 = ?t ! 0" unfolding h(3) by (rule cut(3))
  then show "tar_header f ! 156 = (if tf_dir f then 0x35 else 0x30)" by simp
qed

lemma pad_block: "n + tar_pad n = (n + 511) div 512 * 512"
proof -
  have "(n + 511) div 512 * 512 + (n + 511) mod 512 = n + 511" "(n + 511) mod 512 < 512" by simp_all
  then have "n \<le> (n + 511) div 512 * 512" by linarith
  then show ?thesis by (simp add: tar_pad_def)
qed

lemma entry_length: "tar_ok f \<Longrightarrow> length (tar_entry f) = (512 + length (tf_data f) + 511) div 512 * 512"
proof -
  assume ok: "tar_ok f"
  have "(512 + length (tf_data f) + 511) div 512 = (length (tf_data f) + 511 + 512) div 512" by (simp add: ac_simps)
  also have "\<dots> = (length (tf_data f) + 511) div 512 + 1" by (subst div_add_self2) simp_all
  finally show ?thesis using header_fields(1) [OF ok] pad_block [of "length (tf_data f)"] by (simp add: tar_entry_def)
qed

lemma next_reads:
  assumes ok: "tar_ok f"
  shows "afpkg_tar_next (pre @ tar_entry f @ post) (length pre) = Ok (length pre + length (tar_entry f), Some (entry_of f, tf_data f))"
proof -
  let ?d = "pre @ tar_entry f @ post" and ?h = "tar_header f" and ?at = "length pre" and ?n = "length (tf_data f)"
  note hf = header_fields [OF ok]
  have d: "?d = pre @ ?h @ tf_data f @ (replicate (tar_pad ?n) 0 @ post)" by (simp add: tar_entry_def)
  have fit: "fetches ?d ?at 512 = Ok ?h" "region_ok ?d ?at 512" unfolding d using hf(1) by (simp_all add: fetches_def region_ok_def)
  have nz: "\<not> tar_block_is_zero ?h" by (simp add: tar_block_is_zero_def tar_header_def)
  have sk: "tar_skip_zero ?d ?at = Ok ?at" by (subst tar_skip_zero.simps) (simp only: fit nz if_True if_False andthen.simps)
  have n: "?n < 8 ^ 11" using ok by (simp add: tar_ok_def)
  have size: "parse_octal (octal 11 ?n @ [0]) = of_nat ?n" "unat (of_nat ?n :: u64) = ?n"
    using octal_reads(2) [OF n, of "[]"] n by (simp_all add: unat_of_nat take_bit_nat_eq_self)
  have mode: "ucast (parse_octal (octal 7 (tf_mode f) @ [0])) = (of_nat (tf_mode f) :: u32)"
  proof -
    have "tf_mode f < 8 ^ 7" using ok by (simp add: tar_ok_def)
    then have "parse_octal (octal 7 (tf_mode f) @ [0]) = of_nat (tf_mode f)" using octal_reads(2) [of "tf_mode f" 7 "[]"] by simp
    then show ?thesis using \<open>tf_mode f < 8 ^ 7\<close> by (simp add: word_unat_eq_iff unat_of_nat unsigned_ucast_eq take_bit_nat_eq_self)
  qed
  have p: "plain 99 (tf_path f)" "strip_dot_slash (tf_path f) = tf_path f" using ok by (simp_all add: tar_ok_def)
  have "plain 101 ([0x2E, 0x2F] @ tf_path f)" using p(1) by (auto simp: plain_def)
  then have "copy_trim 101 (take 100 ?h) = [0x2E, 0x2F] @ tf_path f"
    unfolding hf(2) by (rule trim_padded) (use p(1) in \<open>auto simp: plain_def\<close>)
  moreover have lp: "strlcpy_bytes 192 (tf_path f) = tf_path f" using p(1) plain_cstr [OF p(1)] by (auto simp: strlcpy_bytes_def plain_def)
  ultimately have name: "normalise_path 192 (copy_trim 101 (take 100 ?h)) = tf_path f"
    by (simp only: normalise_path_def strip_written [OF p(2)])
  have inr: "(length ?d < ?n \<or> length ?d < ?at + 512 \<or> length ?d - (?at + 512) < ?n) = False" unfolding d using hf(1) by auto
  have len: "?at + (512 + ?n + 511) div 512 * 512 = ?at + length (tar_entry f)" using entry_length [OF ok] by simp
  have body: "fetches ?d (?at + 512) (if tf_dir f then 0 else ?n) = Ok (tf_data f)"
    unfolding d using hf(1) ok by (auto simp: fetches_def tar_ok_def)
  have dirs: "((if tf_dir f then 0x35 else 0x30 :: u8) = 0x4C \<or> (if tf_dir f then 0x35 else 0x30 :: u8) = 0x4B \<or>
      (if tf_dir f then 0x35 else 0x30 :: u8) = 0x78 \<or> (if tf_dir f then 0x35 else 0x30 :: u8) = 0x67) = False"
    "((if tf_dir f then 0x35 else 0x30 :: u8) = 0x35 \<or> tf_path f \<noteq> [] \<and> last (tf_path f) = 0x2F) = tf_dir f"
    "((if tf_dir f then 0x35 else 0x30 :: u8) = 0x30 \<or> (if tf_dir f then 0x35 else 0x30 :: u8) = 0) = (\<not> tf_dir f)"
    using ok by (auto simp: tar_ok_def)
  have empty: "(if tf_dir f then 0 else of_nat ?n) = (of_nat ?n :: u64)" using ok by (auto simp: tar_ok_def)
  show ?thesis
    unfolding afpkg_tar_next_def sk andthen.simps fit Let_def
    by (simp only: fit hf(3-5) size name mode inr dirs body len lp andthen.simps simp_thms if_False not_True_eq_False empty) (simp add: entry_of_def)
qed


text \<open>The end of the archive, and the walks over a written one.\<close>

lemma next_end: "afpkg_tar_next (pre @ replicate 1024 0) (length pre) = Fail AF_ERR_NOENT"
proof -
  let ?d = "pre @ replicate 1024 (0 :: u8)"
  have r: "region_ok ?d (length pre) 512" "region_ok ?d (length pre + 512) 512" "\<not> region_ok ?d (length pre + 512 + 512) 512" by (simp_all add: region_ok_def)
  have f: "fetches ?d (length pre) 512 = Ok (replicate 512 0)" "fetches ?d (length pre + 512) 512 = Ok (replicate 512 0)"
    by (simp_all add: fetches_def)
  have z: "tar_block_is_zero (replicate 512 0)" by (simp add: tar_block_is_zero_def)
  have "tar_skip_zero ?d (length pre) = tar_skip_zero ?d (length pre + 512)"
    by (subst tar_skip_zero.simps) (simp only: r f z andthen.simps if_True)
  also have "\<dots> = tar_skip_zero ?d (length pre + 512 + 512)"
    by (subst tar_skip_zero.simps) (simp only: r f z andthen.simps if_True)
  also have "\<dots> = Ok (length pre + 512 + 512)"
    by (subst tar_skip_zero.simps) (simp only: r if_False)
  finally show ?thesis unfolding afpkg_tar_next_def by (simp only: andthen.simps r not_False_eq_True if_True)
qed

lemma find_written:
  assumes "\<forall>f \<in> set fs. tar_ok f"
  shows "tar_find name (pre @ tar_bytes fs) (length pre) = Ok (map_option tf_data (find (\<lambda>f. tf_path f = name) fs))"
  using assms
proof (induction fs arbitrary: pre)
  case Nil
  then show ?case by (subst tar_find.simps) (simp add: tar_bytes_def next_end)
next
  case (Cons f fs)
  have d: "pre @ tar_bytes (f # fs) = pre @ tar_entry f @ tar_bytes fs" by (simp add: tar_bytes_def)
  have n: "afpkg_tar_next (pre @ tar_bytes (f # fs)) (length pre) = Ok (length pre + length (tar_entry f), Some (entry_of f, tf_data f))"
    unfolding d by (rule next_reads) (use Cons.prems in simp)
  have p: "path (entry_of f) = tf_path f" by (simp add: entry_of_def)
  show ?case
  proof (cases "tf_path f = name")
    case True
    then show ?thesis by (subst tar_find.simps) (simp add: n p)
  next
    case False
    have "tar_find name ((pre @ tar_entry f) @ tar_bytes fs) (length (pre @ tar_entry f)) = Ok (map_option tf_data (find (\<lambda>f. tf_path f = name) fs))"
      by (rule Cons.IH) (use Cons.prems in simp)
    then have "tar_find name (pre @ tar_bytes (f # fs)) (length pre + length (tar_entry f)) = Ok (map_option tf_data (find (\<lambda>f. tf_path f = name) fs))"
      unfolding d by simp
    then show ?thesis using False by (subst tar_find.simps) (simp only: n outcome.case prod.case option.case p if_False find.simps)
  qed
qed

text \<open>What a caller sees that asks for the next file until there is none.\<close>

inductive lists_files :: "af_pkg \<Rightarrow> nat \<Rightarrow> af_pkg_entry list \<Rightarrow> bool" for pk where
  no_more: "afpkg_iter_next (Some pk) (Some c) = Ok (c1, None) \<Longrightarrow> lists_files pk c []"
| one_more: "afpkg_iter_next (Some pk) (Some c) = Ok (c1, Some e) \<Longrightarrow> lists_files pk c1 es \<Longrightarrow> lists_files pk c (e # es)"

lemma deb_lists:
  assumes "\<forall>f \<in> set fs. tar_ok f" "valid pk" "pkg_format pk = AF_BINFMT_DEB" "data_tar pk = Some (pre @ tar_bytes fs)"
  shows "lists_files pk (length pre) (map entry_of fs)"
  using assms(1,4)
proof (induction fs arbitrary: pre)
  case Nil
  have "iter_loop AF_BINFMT_DEB (pre @ tar_bytes []) (length pre) = Ok (length pre, None)"
    by (subst iter_loop.simps) (simp add: tar_bytes_def next_end)
  then show ?case using Nil assms(2,3) by (auto intro!: no_more simp: afpkg_iter_next_def)
next
  case (Cons f fs)
  have d: "pre @ tar_bytes (f # fs) = pre @ tar_entry f @ tar_bytes fs" by (simp add: tar_bytes_def)
  have n: "afpkg_tar_next (pre @ tar_bytes (f # fs)) (length pre) = Ok (length pre + length (tar_entry f), Some (entry_of f, tf_data f))"
    unfolding d by (rule next_reads) (use Cons.prems in simp)
  have "iter_loop AF_BINFMT_DEB (pre @ tar_bytes (f # fs)) (length pre) = Ok (length pre + length (tar_entry f), Some (entry_of f))"
    by (subst iter_loop.simps) (simp add: n)
  then have "afpkg_iter_next (Some pk) (Some (length pre)) = Ok (length pre + length (tar_entry f), Some (entry_of f))"
    using Cons.prems(2) assms(2,3) by (simp add: afpkg_iter_next_def)
  moreover have "lists_files pk (length (pre @ tar_entry f)) (map entry_of fs)"
    by (rule Cons.IH) (use Cons.prems d in simp_all)
  ultimately show ?case by (auto intro: one_more)
qed

end
