(* ===== verification/Spec2Isabelle.thy ===== *)
theory Spec2Isabelle
  imports Prelude Cap Thread Process Sched Lifecycle Ipc Bootinfo Pmm Paging Syscall Block Fat32 Elf KString Heap Binfmt Inflate Crc Xz Afpkg
begin

text \<open>
  AfriyieOS kernel model (skeleton).
\<close>

end
